(* ===== verification/Ucore_Prelude.thy ===== *)
theory Ucore_Prelude
  imports Main "HOL-Library.Word" "HOL-Library.Monad_Syntax"
begin

text \<open>
  Shared vocabulary of the development: the machine types of
  \<open>ucore/lab8_decaf/libs/defs.h\<close>, the error codes of \<open>libs/error.h\<close>, the kernel's
  \<open>assert\<close>, the rounding macros, and the generic lemmas on words, lists and options that the
  component theories use.

  Fallible kernel code is modelled in the option monad: \<open>None\<close> stands for a kernel panic (a failed
  \<open>assert\<close>, a \<open>panic\<close> call or the dereference of a null pointer). State is passed explicitly and
  returned updated; an error code that the C code returns is returned as the same integer.
\<close>

unbundle bit_operations_syntax

section \<open>Machine types\<close>

type_synonym u8 = "8 word"
type_synonym u32 = "32 word"

section \<open>Collections of facts\<close>

named_theorems word_facts \<open>moving 32-bit words to natural numbers\<close>
named_theorems kassert_simps \<open>evaluation of kernel assertions\<close>

section \<open>Assertions\<close>

definition kassert :: "bool \<Rightarrow> unit option" where
  "kassert x = (if \<not> x then None else Some ())"

lemma kassert_True [simp]: "kassert True = Some ()"
  by (simp add: kassert_def)

lemma kassert_False [simp]: "kassert False = None"
  by (simp add: kassert_def)

lemma kassert_Some [simp]: "kassert b = Some u \<longleftrightarrow> b"
  by (simp add: kassert_def)

lemma kassert_bind_Some [kassert_simps]:
  "Option.bind (kassert b) f = Some r \<longleftrightarrow> b \<and> f () = Some r"
  by (simp add: kassert_def)

lemma kassert_bind_True [simp]: "b \<Longrightarrow> Option.bind (kassert b) f = f ()"
  by (simp add: kassert_def)

lemma kassert_bind_False [simp]: "\<not> b \<Longrightarrow> Option.bind (kassert b) f = None"
  by (simp add: kassert_def)

section \<open>Error codes\<close>

definition E_UNSPECIFIED :: int where "E_UNSPECIFIED = 1"
definition E_BAD_PROC :: int where "E_BAD_PROC = 2"
definition E_INVAL :: int where "E_INVAL = 3"
definition E_NO_MEM :: int where "E_NO_MEM = 4"
definition E_NO_FREE_PROC :: int where "E_NO_FREE_PROC = 5"
definition E_KILLED :: int where "E_KILLED = 9"
definition E_NO_DEV :: int where "E_NO_DEV = 13"
definition E_NA_DEV :: int where "E_NA_DEV = 14"
definition E_BUSY :: int where "E_BUSY = 15"
definition E_NOENT :: int where "E_NOENT = 16"
definition E_TOO_BIG :: int where "E_TOO_BIG = 12"
definition E_ISDIR :: int where "E_ISDIR = 17"
definition E_NOTDIR :: int where "E_NOTDIR = 18"
definition E_UNIMP :: int where "E_UNIMP = 20"
definition E_MAX_OPEN :: int where "E_MAX_OPEN = 22"
definition E_EXISTS :: int where "E_EXISTS = 23"
definition E_NOTEMPTY :: int where "E_NOTEMPTY = 24"

lemmas errno_defs = E_UNSPECIFIED_def E_BAD_PROC_def E_INVAL_def E_NO_MEM_def
  E_NO_FREE_PROC_def E_KILLED_def E_NO_DEV_def E_NA_DEV_def E_BUSY_def E_NOENT_def E_TOO_BIG_def
  E_ISDIR_def E_NOTDIR_def E_UNIMP_def E_MAX_OPEN_def E_EXISTS_def E_NOTEMPTY_def

section \<open>Signed 32-bit arithmetic\<close>

text \<open>The value of an \<open>int\<close> after an operation with the mathematical result \<open>x\<close>, in two's complement.\<close>

definition int32 :: "int \<Rightarrow> int" where
  "int32 x = sint (word_of_int x :: u32)"

lemma int32_id: "- (2 ^ 31) \<le> x \<Longrightarrow> x < 2 ^ 31 \<Longrightarrow> int32 x = x"
  by (simp add: int32_def sint_word_ariths signed_take_bit_int_eq_self sint_sbintrunc')

lemma int32_range: "- (2 ^ 31) \<le> int32 x" "int32 x < 2 ^ 31"
  using sint_ge [of "word_of_int x :: u32"] sint_lt [of "word_of_int x :: u32"] by (simp_all add: int32_def)

lemma int32_word: "word_of_int (int32 x) = (word_of_int x :: u32)"
  by (simp add: int32_def)

lemma int32_0 [simp]: "int32 0 = 0"
  by (simp add: int32_def)

lemma int32_add [simp]: "int32 (int32 x + y) = int32 (x + y)" "int32 (y + int32 x) = int32 (y + x)"
  by (simp_all add: int32_def)

section \<open>Rounding\<close>

text \<open>\<open>ROUNDDOWN\<close>, \<open>ROUNDUP\<close> and \<open>ROUNDUP_DIV\<close> on 32-bit \<open>size_t\<close> values; additions wrap.\<close>

definition ROUNDDOWN :: "u32 \<Rightarrow> u32 \<Rightarrow> u32" where
  "ROUNDDOWN a n = a - a mod n"

definition ROUNDUP :: "u32 \<Rightarrow> u32 \<Rightarrow> u32" where
  "ROUNDUP a n = ROUNDDOWN (a + n - 1) n"

definition ROUNDUP_DIV :: "u32 \<Rightarrow> u32 \<Rightarrow> u32" where
  "ROUNDUP_DIV a n = (a + n - 1) div n"

lemma unat_ROUNDDOWN [word_facts]:
  "unat (ROUNDDOWN a n) = unat a - unat a mod unat n"
proof -
  have "a mod n \<le> a"
    by (simp add: word_le_nat_alt unat_mod)
  then show ?thesis
    by (simp add: ROUNDDOWN_def unat_sub unat_mod)
qed

lemma ROUNDDOWN_le: "ROUNDDOWN a n \<le> a"
  by (simp add: word_le_nat_alt unat_ROUNDDOWN)

lemma ROUNDDOWN_dvd: "unat n dvd unat (ROUNDDOWN a n)"
  by (simp add: unat_ROUNDDOWN dvd_minus_mod)

lemma ROUNDDOWN_close: "n \<noteq> 0 \<Longrightarrow> unat a < unat (ROUNDDOWN a n) + unat n"
  using mod_less_divisor [of "unat n" "unat a"] mod_less_eq_dividend [of "unat a" "unat n"]
  unfolding unat_ROUNDDOWN unat_gt_0 by linarith

lemma ROUNDDOWN_id: "unat n dvd unat a \<Longrightarrow> ROUNDDOWN a n = a"
  by (simp add: word_unat_eq_iff unat_ROUNDDOWN)

lemma unat_add_no_wrap: "unat a + unat b < 2 ^ 32 \<Longrightarrow> unat (a + b :: u32) = unat a + unat b"
  by (simp add: unat_word_ariths)

lemma unat_of_nat_small: "n < 2 ^ 32 \<Longrightarrow> unat (of_nat n :: u32) = n"
  by (simp add: unat_of_nat)

lemma unat_mult_no_wrap: "unat a * unat b < 2 ^ 32 \<Longrightarrow> unat (a * b :: u32) = unat a * unat b"
  by (simp add: unat_word_ariths)

lemma unat_bound32 [simp]: "unat (a :: u32) < 2 ^ 32"
  using unsigned_less [of a] by simp

lemma unat_ROUNDUP_pre:
  fixes a n :: u32
  assumes "n \<noteq> 0" and "unat a + unat n \<le> 2 ^ 32"
  shows "unat (a + n - 1) = unat a + unat n - 1"
proof -
  have n: "1 \<le> unat n" using assms(1) by (simp add: unat_gt_0 Suc_le_eq)
  have m: "unat (n - 1) = unat n - 1"
    using assms(1) by (simp add: unat_minus_one)
  have "unat a + unat (n - 1) < 2 ^ 32"
    unfolding m using assms(2) n by linarith
  then have "unat (a + (n - 1)) = unat a + unat (n - 1)"
    by (rule unat_add_no_wrap)
  then show ?thesis using n m by (simp add: add_diff_eq)
qed

lemma ROUNDUP_dvd: "unat n dvd unat (ROUNDUP a n)"
  by (simp add: ROUNDUP_def ROUNDDOWN_dvd)

lemma ROUNDUP_ge:
  assumes "n \<noteq> 0" and "unat a + unat n \<le> 2 ^ 32"
  shows "a \<le> ROUNDUP a n" and "unat (ROUNDUP a n) < unat a + unat n"
proof -
  let ?b = "unat a + unat n - 1"
  have n: "0 < unat n" using assms(1) by (simp add: unat_gt_0)
  have eq: "unat (ROUNDUP a n) = ?b - ?b mod unat n"
    using unat_ROUNDUP_pre [OF assms] by (simp add: ROUNDUP_def unat_ROUNDDOWN)
  have "?b mod unat n < unat n" using n by simp
  then have "?b mod unat n \<le> unat n - 1" using n by linarith
  then show "a \<le> ROUNDUP a n" using eq n by (simp add: word_le_nat_alt)
  show "unat (ROUNDUP a n) < unat a + unat n" using eq n by linarith
qed

section \<open>Lists\<close>

lemma map_upd_outside [simp]: "x \<notin> set xs \<Longrightarrow> map (f(x := y)) xs = map f xs"
  by (induction xs) auto

lemma sum_list_filter_split:
  fixes f :: "'a \<Rightarrow> nat"
  shows "sum_list (map f xs) = sum_list (map f (filter P xs)) + sum_list (map f (filter (\<lambda>x. \<not> P x) xs))"
  by (induction xs) auto

end
