(* ===== verification/Bit_Ops.thy ===== *)
theory Bit_Ops
  imports Ucore_Prelude
begin

text \<open>
  The single-word bit operations of \<open>libs/atomic.h\<close> (on a 32-bit \<open>long\<close>), the address
  decomposition macros of \<open>kern/mm/mmu.h\<close>, the multiplicative hash of \<open>libs/hash.c\<close> and
  the generator of \<open>libs/rand.c\<close>. Interrupt masking around the bit operations makes each of them
  one step, so they are pure functions on the word.
\<close>

section \<open>Bits of a word: libs/atomic.h\<close>

definition set_bit_w :: "nat \<Rightarrow> u32 \<Rightarrow> u32" where
  "set_bit_w nr w = w OR push_bit nr 1"

definition clear_bit :: "nat \<Rightarrow> u32 \<Rightarrow> u32" where
  "clear_bit nr w = w AND NOT (push_bit nr 1)"

definition change_bit :: "nat \<Rightarrow> u32 \<Rightarrow> u32" where
  "change_bit nr w = w XOR push_bit nr 1"

definition test_bit :: "nat \<Rightarrow> u32 \<Rightarrow> bool" where
  "test_bit nr w \<longleftrightarrow> w AND push_bit nr 1 \<noteq> 0"

definition test_and_set_bit :: "nat \<Rightarrow> u32 \<Rightarrow> bool \<times> u32" where
  "test_and_set_bit nr w = (w AND push_bit nr 1 \<noteq> 0, w OR push_bit nr 1)"

definition test_and_clear_bit :: "nat \<Rightarrow> u32 \<Rightarrow> bool \<times> u32" where
  "test_and_clear_bit nr w = (w AND push_bit nr 1 \<noteq> 0, w AND NOT (push_bit nr 1))"

lemma test_bit_iff: "test_bit nr w \<longleftrightarrow> bit w nr"
proof -
  have "w AND push_bit nr 1 = (if bit w nr then push_bit nr 1 else 0)"
    by (rule bit_word_eqI) (auto simp: bit_simps)
  moreover have "bit w nr \<Longrightarrow> push_bit nr (1::u32) \<noteq> 0"
    by (auto simp: push_bit_eq_mult dest: bit_imp_le_length)
  ultimately show ?thesis
    by (auto simp: test_bit_def)
qed

lemma bit_set_bit_w: "nr < 32 \<Longrightarrow> bit (set_bit_w nr w) k \<longleftrightarrow> k = nr \<or> bit w k"
  by (auto simp: set_bit_w_def bit_simps)

lemma bit_clear_bit: "bit (clear_bit nr w) k \<longleftrightarrow> bit w k \<and> k \<noteq> nr"
  by (auto simp: clear_bit_def bit_simps dest: bit_imp_le_length)

lemma bit_change_bit: "nr < 32 \<Longrightarrow> bit (change_bit nr w) k \<longleftrightarrow> bit w k \<noteq> (k = nr)"
  by (auto simp: change_bit_def bit_simps)

lemma test_set_bit [simp]: "nr < 32 \<Longrightarrow> test_bit k (set_bit_w nr w) \<longleftrightarrow> k = nr \<or> test_bit k w"
  by (simp add: test_bit_iff bit_set_bit_w)

lemma test_clear_bit [simp]: "test_bit k (clear_bit nr w) \<longleftrightarrow> k \<noteq> nr \<and> test_bit k w"
  by (auto simp: test_bit_iff bit_clear_bit)

lemma test_bit_zero [simp]: "\<not> test_bit k 0"
  by (simp add: test_bit_def)

section \<open>Linear addresses: kern/mm/mmu.h\<close>

definition PGSIZE :: u32 where "PGSIZE = 4096"
definition PTSIZE :: u32 where "PTSIZE = PGSIZE * 1024"

definition PDX :: "u32 \<Rightarrow> u32" where "PDX la = drop_bit 22 la AND 0x3FF"
definition PTX :: "u32 \<Rightarrow> u32" where "PTX la = drop_bit 12 la AND 0x3FF"
definition PPN :: "u32 \<Rightarrow> u32" where "PPN la = drop_bit 12 la"
definition PGOFF :: "u32 \<Rightarrow> u32" where "PGOFF la = la AND 0xFFF"

definition PGADDR :: "u32 \<Rightarrow> u32 \<Rightarrow> u32 \<Rightarrow> u32" where
  "PGADDR d t off = push_bit 22 d OR push_bit 12 t OR off"

definition PTE_ADDR :: "u32 \<Rightarrow> u32" where
  "PTE_ADDR pte = pte AND NOT 0xFFF"

definition PTE_P :: u32 where "PTE_P = 0x001"
definition PTE_W :: u32 where "PTE_W = 0x002"
definition PTE_U :: u32 where "PTE_U = 0x004"
definition PTE_USER :: u32 where "PTE_USER = PTE_U OR PTE_W OR PTE_P"

lemma mask_3FF: "(0x3FF :: u32) = mask 10" by (simp add: mask_eq_decr_exp)
lemma mask_FFF: "(0xFFF :: u32) = mask 12" by (simp add: mask_eq_decr_exp)

lemma bit_PDX: "bit (PDX la) k \<longleftrightarrow> k < 10 \<and> bit la (k + 22)"
  by (auto simp: PDX_def mask_3FF bit_simps ac_simps)

lemma bit_PTX: "bit (PTX la) k \<longleftrightarrow> k < 10 \<and> bit la (k + 12)"
  by (auto simp: PTX_def mask_3FF bit_simps ac_simps)

lemma bit_PGOFF: "bit (PGOFF la) k \<longleftrightarrow> k < 12 \<and> bit la k"
  by (auto simp: PGOFF_def mask_FFF bit_simps)

lemma bit_PTE_ADDR: "bit (PTE_ADDR la) k \<longleftrightarrow> 12 \<le> k \<and> bit la k"
  by (auto simp: PTE_ADDR_def mask_FFF bit_simps dest: bit_imp_le_length)

lemma bit_PGADDR:
  "bit (PGADDR d t off) k \<longleftrightarrow> k < 32 \<and> ((22 \<le> k \<and> bit d (k - 22)) \<or> (12 \<le> k \<and> bit t (k - 12)) \<or> bit off k)"
  by (auto simp: PGADDR_def bit_simps dest: bit_imp_le_length)

lemma PGADDR_split_id: "PGADDR (PDX la) (PTX la) (PGOFF la) = la"
proof (rule bit_word_eqI)
  fix k assume "k < LENGTH(32)"
  then have "k < 32" by simp
  moreover have "k \<ge> 22 \<or> 12 \<le> k \<and> k < 22 \<or> k < 12" by linarith
  ultimately show "bit (PGADDR (PDX la) (PTX la) (PGOFF la)) k \<longleftrightarrow> bit la k"
    by (auto simp: bit_PGADDR bit_PDX bit_PTX bit_PGOFF)
qed

lemma bit_small_word:
  assumes "unat (a :: u32) < 2 ^ n" and "bit a k"
  shows "k < n"
proof (rule ccontr)
  assume "\<not> k < n"
  then have "(2::nat) ^ n \<le> 2 ^ k" by (simp add: power_increasing)
  with assms(1) have "unat a < 2 ^ k" by linarith
  then have "unat a div 2 ^ k = 0" by (rule div_less)
  then have "\<not> bit (unat a) k" by (simp add: bit_iff_odd)
  with assms(2) show False by (simp add: bit_simps)
qed

section \<open>Hashing and pseudo-random numbers: libs/hash.c, libs/rand.c\<close>

definition GOLDEN_RATIO_PRIME_32 :: u32 where
  "GOLDEN_RATIO_PRIME_32 = 0x9e370001"

definition hash32 :: "u32 \<Rightarrow> nat \<Rightarrow> u32" where
  "hash32 val bits = drop_bit (32 - bits) (val * GOLDEN_RATIO_PRIME_32)"

definition rand_step :: "64 word \<Rightarrow> u32 \<times> 64 word" where
  "rand_step nxt =
     (let nxt' = (ucast ((ucast nxt :: u32) * 1103515245 + 12345) :: 64 word)
      in ((ucast nxt' :: u32) mod 0x80000000, nxt'))"

definition srand :: "u32 \<Rightarrow> 64 word" where
  "srand seed = ucast seed"

lemma unat_div_pow2_bound: "bits \<le> 32 \<Longrightarrow> unat (w :: u32) div 2 ^ (32 - bits) < 2 ^ bits"
proof -
  assume b: "bits \<le> 32"
  have "unat w < 2 ^ 32" using unsigned_less [of w] by simp
  also have "(2::nat) ^ 32 = 2 ^ bits * 2 ^ (32 - bits)"
    using b by (simp flip: power_add)
  finally show ?thesis by (simp add: less_mult_imp_div_less)
qed

lemma hash32_bound: "bits \<le> 32 \<Longrightarrow> unat (hash32 val bits) < 2 ^ bits"
  unfolding hash32_def unat_drop_bit_eq by (simp add: drop_bit_eq_div unat_div_pow2_bound)

text \<open>
  Decomposing a linear address with \<open>PDX\<close>, \<open>PTX\<close> and \<open>PGOFF\<close> and recomposing it with
  \<open>PGADDR\<close> gives the address back, and in-range components are recovered from a composed address:
  the two directions of the encoding the comment of mmu.h promises.
\<close>

theorem PGADDR_roundtrip:
  "PGADDR (PDX la) (PTX la) (PGOFF la) = la \<and>
   (unat d < 1024 \<and> unat t < 1024 \<and> unat off < 4096 \<longrightarrow>
      PDX (PGADDR d t off) = d \<and> PTX (PGADDR d t off) = t \<and> PGOFF (PGADDR d t off) = off)"
proof (intro conjI impI)
  show "PGADDR (PDX la) (PTX la) (PGOFF la) = la" by (rule PGADDR_split_id)
next
  assume "unat d < 1024 \<and> unat t < 1024 \<and> unat off < 4096"
  then have d: "\<And>k. bit d k \<Longrightarrow> k < 10" and t: "\<And>k. bit t k \<Longrightarrow> k < 10" and o12: "\<And>k. bit off k \<Longrightarrow> k < 12"
    by (auto intro: bit_small_word [where n = 10, simplified] bit_small_word [where n = 12, simplified])
  show "PDX (PGADDR d t off) = d"
    by (rule bit_word_eqI) (auto simp: bit_PDX bit_PGADDR dest: d t o12)
  show "PTX (PGADDR d t off) = t"
    by (rule bit_word_eqI) (auto simp: bit_PTX bit_PGADDR dest: d t o12)
  show "PGOFF (PGADDR d t off) = off"
    by (rule bit_word_eqI) (auto simp: bit_PGOFF bit_PGADDR dest: d t o12)
qed

theorem PGADDR_roundtrip_witness:
  "PDX (PGADDR 3 7 42) = 3 \<and> PTX (PGADDR 3 7 42) = 7 \<and> PGOFF (PGADDR 3 7 42) = 42"
  using PGADDR_roundtrip [of 0 3 7 42] by simp

end
