(* ===== verification/Cstring.thy ===== *)
theory Cstring
  imports Bit_Ops
begin

text \<open>
  The string library \<open>libs/string.c\<close>. Memory is a function from 32-bit addresses to bytes, a \<open>char *\<close> is an
  address and address arithmetic wraps. The loops that run up to a zero byte are partial functions: on a
  memory without one they do not return. A routine that writes returns its pointer result and the new memory.
  Characters are compared as bytes, which gives the same result as signed or unsigned \<open>char\<close> for the ASCII
  ranges the code tests.
\<close>

type_synonym mem = "u32 \<Rightarrow> u8"

section \<open>Lengths\<close>

partial_function (option) strlen_loop :: "mem \<Rightarrow> u32 \<Rightarrow> u32 \<Rightarrow> u32 option" where
  "strlen_loop m s cnt = (if m s \<noteq> 0 then strlen_loop m (s + 1) (cnt + 1) else Some cnt)"

definition strlen :: "mem \<Rightarrow> u32 \<Rightarrow> u32 option" where
  "strlen m s = strlen_loop m s 0"

text \<open>\<open>strnlen\<close>: the position of the first zero byte among the first \<open>n\<close>.\<close>

fun strnlen_mem :: "mem \<Rightarrow> u32 \<Rightarrow> nat \<Rightarrow> nat" where
  "strnlen_mem m a 0 = 0"
| "strnlen_mem m a (Suc n) = (if m a = 0 then 0 else Suc (strnlen_mem m (a + 1) n))"

section \<open>Copying and comparing strings\<close>

partial_function (option) strcpy_loop :: "u32 \<Rightarrow> u32 \<Rightarrow> mem \<Rightarrow> mem option" where
  "strcpy_loop p src m =
     (let c = m src; m' = m(p := c) in
      if c \<noteq> 0 then strcpy_loop (p + 1) (src + 1) m' else Some m')"

definition strcpy :: "u32 \<Rightarrow> u32 \<Rightarrow> mem \<Rightarrow> (u32 \<times> mem) option" where
  "strcpy dst src m = do { m' \<leftarrow> strcpy_loop dst src m; Some (dst, m') }"

definition strcat :: "u32 \<Rightarrow> u32 \<Rightarrow> mem \<Rightarrow> (u32 \<times> mem) option" where
  "strcat dst src m = do { n \<leftarrow> strlen m dst; strcpy (dst + n) src m }"

fun strncpy_loop :: "u32 \<Rightarrow> u32 \<Rightarrow> nat \<Rightarrow> mem \<Rightarrow> mem" where
  "strncpy_loop p src 0 m = m"
| "strncpy_loop p src (Suc n) m =
     (let c = m src; m' = m(p := c) in
      strncpy_loop (p + 1) (if c \<noteq> 0 then src + 1 else src) n m')"

definition strncpy :: "u32 \<Rightarrow> u32 \<Rightarrow> u32 \<Rightarrow> mem \<Rightarrow> u32 \<times> mem" where
  "strncpy dst src len m = (dst, strncpy_loop dst src (unat len) m)"

partial_function (option) strcmp :: "mem \<Rightarrow> u32 \<Rightarrow> u32 \<Rightarrow> int option" where
  "strcmp m s1 s2 =
     (if m s1 \<noteq> 0 \<and> m s1 = m s2 then strcmp m (s1 + 1) (s2 + 1)
      else Some (uint (m s1) - uint (m s2)))"

fun strncmp_loop :: "mem \<Rightarrow> u32 \<Rightarrow> u32 \<Rightarrow> nat \<Rightarrow> int" where
  "strncmp_loop m s1 s2 0 = 0"
| "strncmp_loop m s1 s2 (Suc n) =
     (if m s1 \<noteq> 0 \<and> m s1 = m s2 then strncmp_loop m (s1 + 1) (s2 + 1) n
      else uint (m s1) - uint (m s2))"

definition strncmp :: "mem \<Rightarrow> u32 \<Rightarrow> u32 \<Rightarrow> u32 \<Rightarrow> int" where
  "strncmp m s1 s2 n = strncmp_loop m s1 s2 (unat n)"

section \<open>Searching\<close>

partial_function (option) strchr :: "mem \<Rightarrow> u32 \<Rightarrow> u8 \<Rightarrow> u32 option" where
  "strchr m s c =
     (if m s \<noteq> 0 then (if m s = c then Some s else strchr m (s + 1) c) else Some 0)"

partial_function (option) strfind :: "mem \<Rightarrow> u32 \<Rightarrow> u8 \<Rightarrow> u32 option" where
  "strfind m s c =
     (if m s \<noteq> 0 then (if m s = c then Some s else strfind m (s + 1) c) else Some s)"

section \<open>Numbers\<close>

text \<open>A \<open>long\<close> has 32 bits; its arithmetic wraps, as the comment in the loop admits.\<close>

partial_function (option) skip_white :: "mem \<Rightarrow> u32 \<Rightarrow> u32 option" where
  "skip_white m s = (if m s = 0x20 \<or> m s = 0x09 then skip_white m (s + 1) else Some s)"

definition digit_value :: "u8 \<Rightarrow> int option" where
  "digit_value c =
     (if 0x30 \<le> c \<and> c \<le> 0x39 then Some (uint c - 0x30)
      else if 0x61 \<le> c \<and> c \<le> 0x7A then Some (uint c - 0x61 + 10)
      else if 0x41 \<le> c \<and> c \<le> 0x5A then Some (uint c - 0x41 + 10)
      else None)"

partial_function (option) strtol_digits :: "mem \<Rightarrow> int \<Rightarrow> u32 \<Rightarrow> u32 \<Rightarrow> (u32 \<times> u32) option" where
  "strtol_digits m base s val = (case digit_value (m s) of
     None \<Rightarrow> Some (val, s)
   | Some dig \<Rightarrow> (if dig \<ge> base then Some (val, s)
                  else strtol_digits m base (s + 1) (val * of_int base + of_int dig)))"

definition strtol_base :: "mem \<Rightarrow> u32 \<Rightarrow> int \<Rightarrow> u32 \<times> int" where
  "strtol_base m s base =
     (if (base = 0 \<or> base = 16) \<and> (m s = 0x30 \<and> m (s + 1) = 0x78) then (s + 2, 16)
      else if base = 0 \<and> m s = 0x30 then (s + 1, 8)
      else if base = 0 then (s, 10)
      else (s, base))"

text \<open>The result is the value and the address that is stored through \<open>endptr\<close>.\<close>

definition strtol :: "mem \<Rightarrow> u32 \<Rightarrow> int \<Rightarrow> (u32 \<times> u32) option" where
  "strtol m s base = do {
     s \<leftarrow> skip_white m s;
     let (s, neg) = (if m s = 0x2B then (s + 1, False)
                     else if m s = 0x2D then (s + 1, True) else (s, False));
     let (s, base) = strtol_base m s base;
     (val, s) \<leftarrow> strtol_digits m base s 0;
     Some (if neg then - val else val, s) }"

section \<open>Memory blocks\<close>

fun memset_loop :: "u32 \<Rightarrow> u8 \<Rightarrow> nat \<Rightarrow> mem \<Rightarrow> mem" where
  "memset_loop p c 0 m = m"
| "memset_loop p c (Suc n) m = memset_loop (p + 1) c n (m(p := c))"

definition memset :: "u32 \<Rightarrow> u8 \<Rightarrow> u32 \<Rightarrow> mem \<Rightarrow> u32 \<times> mem" where
  "memset s c n m = (s, memset_loop s c (unat n) m)"

fun copy_up :: "u32 \<Rightarrow> u32 \<Rightarrow> nat \<Rightarrow> mem \<Rightarrow> mem" where
  "copy_up d s 0 m = m"
| "copy_up d s (Suc n) m = copy_up (d + 1) (s + 1) n (m(d := m s))"

fun copy_down :: "u32 \<Rightarrow> u32 \<Rightarrow> nat \<Rightarrow> mem \<Rightarrow> mem" where
  "copy_down d s 0 m = m"
| "copy_down d s (Suc n) m = copy_down (d - 1) (s - 1) n (m(d - 1 := m (s - 1)))"

definition memmove :: "u32 \<Rightarrow> u32 \<Rightarrow> u32 \<Rightarrow> mem \<Rightarrow> u32 \<times> mem" where
  "memmove dst src n m =
     (if src < dst \<and> src + n > dst then (dst, copy_down (dst + n) (src + n) (unat n) m)
      else (dst, copy_up dst src (unat n) m))"

definition memcpy :: "u32 \<Rightarrow> u32 \<Rightarrow> u32 \<Rightarrow> mem \<Rightarrow> u32 \<times> mem" where
  "memcpy dst src n m = (dst, copy_up dst src (unat n) m)"

fun memcmp_loop :: "mem \<Rightarrow> u32 \<Rightarrow> u32 \<Rightarrow> nat \<Rightarrow> int" where
  "memcmp_loop m s1 s2 0 = 0"
| "memcmp_loop m s1 s2 (Suc n) =
     (if m s1 \<noteq> m s2 then uint (m s1) - uint (m s2) else memcmp_loop m (s1 + 1) (s2 + 1) n)"

definition memcmp :: "mem \<Rightarrow> u32 \<Rightarrow> u32 \<Rightarrow> u32 \<Rightarrow> int" where
  "memcmp m v1 v2 n = memcmp_loop m v1 v2 (unat n)"

section \<open>Blocks and strings as lists\<close>

text \<open>\<open>read_mem m a n\<close> is what \<open>memcpy\<close> of \<open>n\<close> bytes reads, \<open>write_mem a bs m\<close> the memory with the bytes
  \<open>bs\<close> stored at \<open>a\<close>.\<close>

definition read_mem :: "mem \<Rightarrow> u32 \<Rightarrow> nat \<Rightarrow> u8 list" where
  "read_mem m a n = map (\<lambda>i. m (a + of_nat i)) [0..<n]"

definition write_mem :: "u32 \<Rightarrow> u8 list \<Rightarrow> mem \<Rightarrow> mem" where
  "write_mem a bs m = (\<lambda>x. if unat (x - a) < length bs then bs ! unat (x - a) else m x)"

text \<open>The string at \<open>src\<close>: its first zero byte is at offset \<open>n\<close>.\<close>

definition string_at :: "mem \<Rightarrow> u32 \<Rightarrow> nat \<Rightarrow> bool" where
  "string_at m src n \<longleftrightarrow> m (src + of_nat n) = 0 \<and> (\<forall>i < n. m (src + of_nat i) \<noteq> 0)"

lemma strnlen_mem_ok:
  "strnlen_mem m a n \<le> n \<and> (\<forall>i < strnlen_mem m a n. m (a + of_nat i) \<noteq> 0) \<and>
   (strnlen_mem m a n < n \<longrightarrow> m (a + of_nat (strnlen_mem m a n)) = 0)"
proof (induction n arbitrary: a)
  case (Suc n)
  have "m (a + of_nat i) \<noteq> 0" if "m a \<noteq> 0" "i < Suc (strnlen_mem m (a + 1) n)" for i
    using that Suc [of "a + 1"] by (cases i) (auto simp: algebra_simps)
  then show ?case using Suc [of "a + 1"] by (auto simp: algebra_simps)
qed simp

lemma read_mem_append: "read_mem m a (i + j) = read_mem m a i @ read_mem m (a + of_nat i) j"
  by (auto simp: read_mem_def nth_append intro!: nth_equalityI)

lemma string_at_shift:
  assumes "\<forall>i < k. m (src + of_nat i) \<noteq> 0"
  shows "string_at m src (k + n) \<longleftrightarrow> string_at m (src + of_nat k) n"
proof -
  have "(\<forall>i < k + n. m (src + of_nat i) \<noteq> 0) \<longleftrightarrow> (\<forall>i < n. m (src + of_nat k + of_nat i) \<noteq> 0)"
  proof (intro iffI allI impI)
    fix i assume h: "\<forall>i < k + n. m (src + of_nat i) \<noteq> 0" "i < n"
    then have "m (src + of_nat (k + i)) \<noteq> 0" using h(1) [rule_format, of "k + i"] by simp
    then show "m (src + of_nat k + of_nat i) \<noteq> 0" by (simp add: algebra_simps)
  next
    fix i assume h: "\<forall>i < n. m (src + of_nat k + of_nat i) \<noteq> 0" "i < k + n"
    show "m (src + of_nat i) \<noteq> 0"
    proof (cases "i < k")
      case False
      then have "m (src + of_nat k + of_nat (i - k)) \<noteq> 0" using h(2) h(1) [rule_format, of "i - k"] by simp
      moreover have "src + of_nat k + of_nat (i - k) = src + of_nat i"
        using False by (simp add: add.assoc flip: of_nat_add)
      ultimately show ?thesis by simp
    qed (use assms in simp)
  qed
  then show ?thesis by (simp add: string_at_def algebra_simps)
qed

section \<open>Block operations\<close>

lemma unat_minus_1_u32: "unat (- 1 :: u32) = 4294967295"
  by (simp add: unsigned_minus_1_eq_mask mask_eq_exp_minus_1)

lemma word_off_Suc:
  fixes x d :: u32
  assumes "n < 2 ^ 32"
  shows "unat (x - d) < Suc n \<longleftrightarrow> x = d \<or> unat (x - (d + 1)) < n \<and> x \<noteq> d"
proof (cases "x = d")
  case False
  then have "x - d \<noteq> 0" by simp
  then have "unat (x - d - 1) = unat (x - d) - 1" by (rule unat_minus_one)
  moreover have "0 < unat (x - d)" using \<open>x - d \<noteq> 0\<close> by (simp add: unat_gt_0)
  ultimately show ?thesis using False by (auto simp: diff_diff_eq)
qed simp

lemma word_off_top:
  fixes x d :: u32
  assumes "n < 2 ^ 32"
  shows "unat (x - d) < Suc n \<longleftrightarrow> x = d + of_nat n \<or> unat (x - d) < n"
proof -
  have "x = d + of_nat n \<longleftrightarrow> unat (x - d) = n"
  proof
    assume "unat (x - d) = n"
    then have "x - d = of_nat n" by auto
    then show "x = d + of_nat n" by (simp add: algebra_simps)
  qed (use assms in \<open>simp add: unat_of_nat_small\<close>)
  then show ?thesis by auto
qed

lemma memset_loop_eq:
  "n \<le> 2 ^ 32 \<Longrightarrow> memset_loop p c n m x = (if unat (x - p) < n then c else m x)"
proof (induction n arbitrary: p m)
  case (Suc n)
  have n: "n < 2 ^ 32" "n \<le> 2 ^ 32" using Suc.prems by auto
  show ?case using word_off_Suc [OF n(1), of x p] by (auto simp: Suc.IH [OF n(2)])
qed simp

lemma copy_up_eq:
  assumes "n \<le> 2 ^ 32" "\<forall>i j. j < i \<and> i < n \<longrightarrow> s + of_nat i \<noteq> d + of_nat j"
  shows "copy_up d s n m x = (if unat (x - d) < n then m (s + (x - d)) else m x)"
  using assms
proof (induction n arbitrary: d s m)
  case (Suc n)
  have n: "n < 2 ^ 32" "n \<le> 2 ^ 32" using Suc.prems by auto
  have "s + 1 + of_nat i \<noteq> d + 1 + of_nat j" if "j < i" "i < n" for i j
    using Suc.prems(2) [rule_format, of j i] that by (simp add: algebra_simps)
  then have IH: "copy_up (d + 1) (s + 1) n m' x =
      (if unat (x - (d + 1)) < n then m' (s + 1 + (x - (d + 1))) else m' x)" for m'
    using Suc.IH [OF n(2), of "s + 1" "d + 1" m'] by blast
  have "s + (x - d) \<noteq> d" if "x \<noteq> d" "unat (x - d) < Suc n"
  proof -
    have "0 < unat (x - d)" using that(1) by (simp add: unat_gt_0)
    then show ?thesis using Suc.prems(2) [rule_format, of 0 "unat (x - d)"] that(2) by simp
  qed
  moreover have "\<not> unat (d - (d + 1)) < n" using n(1) by (simp add: unat_minus_1_u32)
  moreover have "s + 1 + (x - (d + 1)) = s + (x - d)" by simp
  ultimately show ?case using word_off_Suc [OF n(1), of x d] unfolding copy_up.simps IH by auto
qed simp

lemma copy_down_eq:
  assumes "n \<le> 2 ^ 32" "\<forall>i j. i < j \<and> j < n \<longrightarrow> s + of_nat i \<noteq> d + of_nat j"
  shows "copy_down (d + of_nat n) (s + of_nat n) n m x = (if unat (x - d) < n then m (s + (x - d)) else m x)"
  using assms
proof (induction n arbitrary: m)
  case (Suc n)
  have n: "n < 2 ^ 32" "n \<le> 2 ^ 32" using Suc.prems by auto
  have IH: "copy_down (d + of_nat n) (s + of_nat n) n m' x = (if unat (x - d) < n then m' (s + (x - d)) else m' x)" for m'
    using Suc.IH [OF n(2)] Suc.prems(2) by (meson less_Suc_eq)
  have "s + (x - d) \<noteq> d + of_nat n" if "unat (x - d) < n"
    using Suc.prems(2) [rule_format, of "unat (x - d)" n] that by simp
  moreover have "unat (of_nat n :: u32) = n" using n(1) by (rule unat_of_nat_small)
  ultimately show ?case using word_off_top [OF n(1), of x d] by (auto simp: IH)
qed simp

lemma write_read_mem:
  "write_mem d (read_mem m s n) m x = (if unat (x - d) < n then m (s + (x - d)) else m x)"
  by (simp add: write_mem_def read_mem_def)

lemma unat_add_of_nat: "unat (a :: u32) + i < 2 ^ 32 \<Longrightarrow> unat (a + of_nat i) = unat a + i"
  by (metis unat_add_no_wrap unat_of_nat_small add_lessD1 add.commute)

lemma off_inj:
  fixes s d :: u32
  assumes "unat s + i < 2 ^ 32" "unat d + j < 2 ^ 32" "s + of_nat i = d + of_nat j"
  shows "unat s + i = unat d + j"
  using assms by (metis unat_add_of_nat)

text \<open>
  C31: \<open>memmove\<close> moves a block as if all its bytes were read before any is written, whatever the overlap of
  source and destination, as long as neither block wraps around the end of the address space; \<open>memcpy\<close>, which
  always copies upwards, does the same only when the destination does not start inside the source.
\<close>

theorem memmove_correct:
  assumes "unat src + unat n < 2 ^ 32" "unat dst + unat n \<le> 2 ^ 32"
  shows "memmove dst src n m = (dst, write_mem dst (read_mem m src (unat n)) m) \<and>
    (dst \<le> src \<or> src + n \<le> dst \<longrightarrow> memcpy dst src n m = memmove dst src n m)"
proof -
  have n: "unat n \<le> 2 ^ 32" using unat_bound32 [of n] by simp
  have sn: "unat (src + n) = unat src + unat n" using assms(1) by (rule unat_add_no_wrap)
  have up: "copy_up dst src (unat n) m = write_mem dst (read_mem m src (unat n)) m"
    if "dst \<le> src \<or> src + n \<le> dst"
  proof
    fix x
    have "src + of_nat i \<noteq> dst + of_nat j" if "j < i" "i < unat n" for i j
      using off_inj [of src i dst j] that assms \<open>dst \<le> src \<or> src + n \<le> dst\<close> sn by (auto simp: word_le_nat_alt)
    then show "copy_up dst src (unat n) m x = write_mem dst (read_mem m src (unat n)) m x"
      using copy_up_eq [OF n] by (simp add: write_read_mem)
  qed
  have down: "copy_down (dst + n) (src + n) (unat n) m = write_mem dst (read_mem m src (unat n)) m" if "src < dst"
  proof
    fix x
    have "src + of_nat i \<noteq> dst + of_nat j" if "i < j" "j < unat n" for i j
      using off_inj [of src i dst j] that assms \<open>src < dst\<close> by (auto simp: word_less_nat_alt)
    then show "copy_down (dst + n) (src + n) (unat n) m x = write_mem dst (read_mem m src (unat n)) m x"
      using copy_down_eq [OF n, of src dst m x] by (simp add: write_read_mem)
  qed
  show ?thesis using up down by (auto simp: memmove_def memcpy_def not_less)
qed

theorem memmove_correct_witness:
  "read_mem (snd (memmove 1 0 2 ((\<lambda>_. 0)(0 := 5, 1 := 6)))) 0 3 = [5, 5, 6] \<and>
   read_mem (snd (memcpy 1 0 2 ((\<lambda>_. 0)(0 := 5, 1 := 6)))) 0 3 = [5, 5, 5]"
proof -
  let ?m = "(\<lambda>_. 0)(0 := 5, 1 := 6) :: mem"
  have "memmove 1 0 2 ?m = (1, write_mem 1 (read_mem ?m 0 2) ?m)"
    using memmove_correct [of 0 2 1 ?m] by simp
  then have "read_mem (snd (memmove 1 0 2 ?m)) 0 3 = [5, 5, 6]"
    by (simp add: read_mem_def write_mem_def upt_rec numeral_2_eq_2 numeral_3_eq_3 unat_minus_1_u32)
  moreover have "copy_up 1 0 2 ?m = ?m(1 := 5, 2 := 5)"
    unfolding numeral_2_eq_2 by simp
  then have "read_mem (snd (memcpy 1 0 2 ?m)) 0 3 = [5, 5, 5]"
    by (simp add: memcpy_def read_mem_def upt_rec)
  ultimately show ?thesis by (rule conjI)
qed

section \<open>String operations\<close>

text \<open>\<open>cstring m a xs\<close>: the memory holds at \<open>a\<close> the bytes \<open>xs\<close>, none of them zero, and a zero byte.\<close>

primrec cstring :: "mem \<Rightarrow> u32 \<Rightarrow> u8 list \<Rightarrow> bool" where
  "cstring m a [] \<longleftrightarrow> m a = 0"
| "cstring m a (x # xs) \<longleftrightarrow> m a = x \<and> x \<noteq> 0 \<and> cstring m (a + 1) xs"

lemma cstring_nth:
  "cstring m a xs \<longleftrightarrow>
   (\<forall>i < length xs. m (a + of_nat i) = xs ! i \<and> xs ! i \<noteq> 0) \<and> m (a + of_nat (length xs)) = 0"
proof (induction xs arbitrary: a)
  case (Cons x xs)
  show ?case by (simp add: Cons.IH All_less_Suc2 algebra_simps)
qed simp

lemma cstring_string_at: "cstring m a xs \<Longrightarrow> string_at m a (length xs)"
  by (simp add: cstring_nth string_at_def)

lemma cstring_read: "cstring m a xs \<Longrightarrow> read_mem m a (length xs) = xs"
  unfolding cstring_nth read_mem_def by (rule nth_equalityI) auto

lemma strlen_loop_ok: "cstring m s xs \<Longrightarrow> strlen_loop m s cnt = Some (cnt + of_nat (length xs))"
proof (induction xs arbitrary: s cnt)
  case Nil
  then show ?case by (simp add: strlen_loop.simps)
next
  case (Cons x xs)
  then show ?case by (subst strlen_loop.simps) (simp add: algebra_simps)
qed

lemma strlen_ok: "cstring m s xs \<Longrightarrow> strlen m s = Some (of_nat (length xs))"
  by (simp add: strlen_def strlen_loop_ok)

lemma strnlen_ok: "cstring m s xs \<Longrightarrow> strnlen_mem m s n = min n (length xs)"
proof (induction xs arbitrary: s n)
  case Nil
  then show ?case by (cases n) auto
next
  case (Cons x xs)
  then show ?case by (cases n) auto
qed

lemma strcpy_loop_ok:
  assumes "cstring m s xs" "length xs < 2 ^ 32" "\<forall>i j. j < i \<and> i \<le> length xs \<longrightarrow> s + of_nat i \<noteq> d + of_nat j"
  shows "strcpy_loop d s m = Some (copy_up d s (length xs + 1) m)"
  using assms
proof (induction xs arbitrary: d s m)
  case Nil
  then show ?case by (subst strcpy_loop.simps) (simp add: Let_def fun_upd_def)
next
  case (Cons x xs)
  let ?m = "m(d := m s)"
  have ne: "s + of_nat i \<noteq> d" if "0 < i" "i \<le> length (x # xs)" for i
    using Cons.prems(3) [rule_format, of 0 i] that by simp
  have "?m (s + 1 + of_nat i) = m (s + 1 + of_nat i)" if "i \<le> length xs" for i
    using ne [of "Suc i"] that by (simp add: algebra_simps)
  moreover have "cstring m (s + 1) xs" using Cons.prems(1) by simp
  ultimately have c: "cstring ?m (s + 1) xs" by (simp add: cstring_nth)
  have n: "s + 1 + of_nat i \<noteq> d + 1 + of_nat j" if "j < i" "i \<le> length xs" for i j
    using Cons.prems(3) [rule_format, of "Suc j" "Suc i"] that by (simp add: algebra_simps)
  have "strcpy_loop (d + 1) (s + 1) ?m = Some (copy_up (d + 1) (s + 1) (length xs + 1) ?m)"
    by (rule Cons.IH [OF c]) (use Cons.prems(2) n in auto)
  then show ?case using Cons.prems(1) by (subst strcpy_loop.simps) (simp add: Let_def)
qed

lemma strcpy_ok:
  assumes "cstring m s xs" "length xs < 2 ^ 32" "\<forall>i j. j < i \<and> i \<le> length xs \<longrightarrow> s + of_nat i \<noteq> d + of_nat j"
  shows "strcpy d s m = Some (d, write_mem d (xs @ [0]) m)"
proof -
  have r: "read_mem m s (length xs + 1) = xs @ [0]"
    using cstring_read [OF assms(1)] assms(1) by (simp add: read_mem_def cstring_nth)
  have "copy_up d s (length xs + 1) m x = write_mem d (read_mem m s (length xs + 1)) m x" for x
    unfolding write_read_mem using assms(2,3) by (subst copy_up_eq) auto
  then show ?thesis using strcpy_loop_ok [OF assms] r by (simp add: strcpy_def fun_eq_iff)
qed

text \<open>
  When the strings \<open>xs\<close> at \<open>dst\<close> and \<open>ys\<close> at \<open>src\<close> do not overlap with the space behind \<open>xs\<close> that the copy
  fills, \<open>strcat\<close> returns, leaves the concatenation at \<open>dst\<close>, changes only the \<open>length ys + 1\<close> bytes from the
  old terminator on, and returns the address of the old terminator.
\<close>

theorem strcat_correct:
  assumes "cstring m dst xs" "cstring m src ys" "unat dst + length xs + length ys < 2 ^ 32"
    and "\<forall>i \<le> length ys. \<forall>j \<le> length ys. src + of_nat i \<noteq> dst + of_nat (length xs + j)"
  shows "\<exists>m'. strcat dst src m = Some (dst + of_nat (length xs), m') \<and> cstring m' dst (xs @ ys) \<and>
    (\<forall>a. (\<forall>j \<le> length ys. a \<noteq> dst + of_nat (length xs + j)) \<longrightarrow> m' a = m a)"
proof -
  let ?d = "dst + of_nat (length xs)"
  let ?m = "write_mem ?d (ys @ [0]) m"
  have "strcpy ?d src m = Some (?d, ?m)"
    using assms(2,3,4) by (intro strcpy_ok) (auto simp: algebra_simps)
  then have r: "strcat dst src m = Some (?d, ?m)" using strlen_ok [OF assms(1)] by (simp add: strcat_def)
  have inside: "?m (?d + of_nat j) = (ys @ [0]) ! j" if "j \<le> length ys" for j
    using that assms(3) by (simp add: write_mem_def unat_of_nat_small)
  have outside: "?m a = m a" if "\<forall>j \<le> length ys. a \<noteq> dst + of_nat (length xs + j)" for a
  proof -
    have "\<not> unat (a - ?d) < length ys + 1"
    proof
      assume "unat (a - ?d) < length ys + 1"
      then have "unat (a - ?d) \<le> length ys" by simp
      moreover have "a = dst + of_nat (length xs + unat (a - ?d))" by simp
      ultimately show False using that by blast
    qed
    then show ?thesis by (simp add: write_mem_def)
  qed
  have "?m (dst + of_nat i) = m (dst + of_nat i)" if "i < length xs" for i
  proof (rule outside, intro allI impI notI)
    fix j assume "j \<le> length ys" "dst + of_nat i = dst + of_nat (length xs + j)"
    then show False using off_inj [of dst i dst "length xs + j"] that assms(3) by simp
  qed
  moreover have "?m (dst + of_nat i) = (ys @ [0]) ! (i - length xs)" if "length xs \<le> i" "i \<le> length xs + length ys" for i
    using inside [of "i - length xs"] that by (simp add: add.assoc flip: of_nat_add)
  moreover have "?m (dst + of_nat (length xs + length ys)) = 0" using inside [of "length ys"] by (simp add: add.assoc)
  ultimately have "cstring ?m dst (xs @ ys)"
    using assms(1,2) unfolding cstring_nth by (auto simp: nth_append)
  then show ?thesis using r outside by blast
qed

theorem strcat_correct_witness:
  "\<exists>m'. strcat 0 8 ((\<lambda>_. 0)(0 := 97, 8 := 98)) = Some (1, m') \<and> cstring m' 0 [97, 98]"
proof -
  let ?m = "(\<lambda>_. 0)(0 := 97, 8 := 98) :: mem"
  have "cstring ?m 0 [97]" "cstring ?m 8 [98]" by simp_all
  moreover have "\<forall>i \<le> length [98 :: u8]. \<forall>j \<le> length [98 :: u8]. (8 :: u32) + of_nat i \<noteq> 0 + of_nat (length [97 :: u8] + j)"
    by (auto simp: le_Suc_eq)
  ultimately show ?thesis using strcat_correct [of ?m 0 "[97]" 8 "[98]"] by auto
qed

text \<open>\<open>strcmp\<close> returns the sign of the lexicographic order of the two strings by unsigned byte value.\<close>

lemma strcmp_ok:
  assumes "cstring m a xs" "cstring m b ys"
  shows "\<exists>r. strcmp m a b = Some r \<and> (r = 0 \<longleftrightarrow> xs = ys) \<and> (r < 0 \<longleftrightarrow> (xs, ys) \<in> lexord {(x, y). x < y})"
  using assms
proof (induction xs arbitrary: a b ys)
  case Nil
  then show ?case
    by (cases ys) (auto simp: strcmp.simps word_neq_0_conv word_less_def)
next
  case (Cons x xs)
  show ?case
  proof (cases ys)
    case Nil
    then show ?thesis using Cons.prems by (simp add: strcmp.simps) (simp add: word_neq_0_conv word_less_def not_less)
  next
    case (Cons y zs)
    show ?thesis
    proof (cases "x = y")
      case True
      obtain r where "strcmp m (a + 1) (b + 1) = Some r" "r = 0 \<longleftrightarrow> xs = zs"
          "r < 0 \<longleftrightarrow> (xs, zs) \<in> lexord {(x, y). x < y}"
        using Cons.IH [of "a + 1" "b + 1" zs] Cons.prems Cons by auto
      then show ?thesis using Cons.prems Cons True by (subst strcmp.simps) auto
    next
      case False
      then show ?thesis using Cons.prems Cons
        by (subst strcmp.simps) (auto simp: word_less_def simp flip: word_uint_eq_iff)
    qed
  qed
qed

end
