(* ===== verification/Printfmt.thy ===== *)
theory Printfmt
  imports Cstring
begin

text \<open>
  Formatted output (\<open>libs/printfmt.c\<close>) and the division macro \<open>do_div\<close> of \<open>libs/mips32s.h\<close>, which divides by
  ten with shifts and additions.

  The output routine \<open>putch\<close> with its \<open>putdat\<close> argument is a parameter: a function from an \<open>int\<close> (a 32-bit
  word) and a state to a state. The format and the strings printed by \<open>%s\<close> are byte lists; the byte after the
  last one is the terminating zero and reading further is undefined. A \<open>va_list\<close> is the list of the remaining
  arguments with their sizes. \<open>None\<close> stands for undefined behaviour: a missing or mismatched argument or a read
  outside of an array.
\<close>

section \<open>Division\<close>

definition do_div :: "64 word \<Rightarrow> u32 \<Rightarrow> u32 \<times> 64 word" where
  "do_div n base =
     (if base = 10 then
        let q = (ucast (drop_bit 1 n + drop_bit 2 n) :: u32);
            q = q + drop_bit 4 q;
            q = q + drop_bit 8 q;
            q = q + drop_bit 16 q;
            q = drop_bit 3 q;
            md = (ucast (n - ucast (push_bit 1 (push_bit 2 q + q))) :: u32);
            q = q + drop_bit 4 (md + 6);
            md = ucast (n - ucast (push_bit 1 (push_bit 2 q + q)))
        in (md, ucast q)
      else if base = 16 then (ucast (n AND 0xF), drop_bit 4 n)
      else if base = 8 then (ucast (n AND 0x7), drop_bit 3 n)
      else if base = 2147483648 then (ucast (n AND 0x7FFFFFFF), drop_bit 31 n)
      else (3, 1))"

section \<open>Strings and arguments\<close>

definition bytes :: "string \<Rightarrow> u8 list" where
  "bytes cs = map of_char cs"

definition char_at :: "u8 list \<Rightarrow> nat \<Rightarrow> u8 option" where
  "char_at xs i = (if i < length xs then Some (xs ! i) else if i = length xs then Some 0 else None)"

datatype va = VInt u32 | VLong "64 word" | VStr "u8 list option"

fun va_int :: "va list \<Rightarrow> (u32 \<times> va list) option" where
  "va_int (VInt w # ap) = Some (w, ap)"
| "va_int _ = None"

fun va_long :: "va list \<Rightarrow> (64 word \<times> va list) option" where
  "va_long (VLong w # ap) = Some (w, ap)"
| "va_long _ = None"

fun va_str :: "va list \<Rightarrow> (u8 list option \<times> va list) option" where
  "va_str (VStr p # ap) = Some (p, ap)"
| "va_str _ = None"

definition getuint :: "va list \<Rightarrow> int \<Rightarrow> (64 word \<times> va list) option" where
  "getuint ap lflag =
     (if lflag \<ge> 2 then va_long ap
      else do { (w, ap) \<leftarrow> va_int ap; Some (ucast w, ap) })"

definition getint :: "va list \<Rightarrow> int \<Rightarrow> (64 word \<times> va list) option" where
  "getint ap lflag =
     (if lflag \<ge> 2 then va_long ap
      else do { (w, ap) \<leftarrow> va_int ap; Some (scast w, ap) })"

section \<open>Numbers\<close>

primrec put_n :: "(u32 \<Rightarrow> 's \<Rightarrow> 's) \<Rightarrow> u32 \<Rightarrow> nat \<Rightarrow> 's \<Rightarrow> 's" where
  "put_n putch c 0 s = s"
| "put_n putch c (Suc n) s = put_n putch c n (putch c s)"

definition digit_char :: "u32 \<Rightarrow> u32 option" where
  "digit_char md = map_option ucast (char_at (bytes ''0123456789abcdef'') (unat md))"

partial_function (option) printnum ::
    "(u32 \<Rightarrow> 's \<Rightarrow> 's) \<Rightarrow> 64 word \<Rightarrow> u32 \<Rightarrow> int \<Rightarrow> u32 \<Rightarrow> 's \<Rightarrow> 's option" where
  "printnum putch num base width padc s =
     (let (md, result) = do_div num base in
      do {
        s \<leftarrow> (if num \<ge> ucast base then printnum putch result base (int32 (width - 1)) padc s
             else Some (put_n putch padc (nat (int32 (width - 1))) s));
        c \<leftarrow> digit_char md;
        Some (putch c s) })"

section \<open>Error messages\<close>

definition MAXERROR :: int where "MAXERROR = 24"

definition error_string :: "u8 list option list" where
  "error_string = map (map_option bytes)
     [None, Some ''unspecified error'', Some ''bad process'', Some ''invalid parameter'', Some ''out of memory'',
      Some ''out of processes'', Some ''segmentation fault'', None, Some ''invalid elf file'',
      Some ''process is killed'', Some ''panic failure'', None, None, Some ''no such device'',
      Some ''device not available'', Some ''device/file is busy'', Some ''no such file or directory'',
      Some ''is a directory'', Some ''not a directory'', Some ''cross device link'',
      Some ''unimplemented feature'', Some ''illegal seek'', Some ''too many files are open'',
      Some ''file or directory already exists'', Some ''directory is not empty'']"

section \<open>The format interpreter\<close>

text \<open>Where the interpreter is: in the outer loop, or at the label \<open>reswitch\<close> with the local variables \<open>padc\<close>,
  \<open>width\<close>, \<open>precision\<close>, \<open>lflag\<close> and \<open>altflag\<close>.\<close>

datatype pmode = Text | Escape u32 int int int bool

datatype 's pstep = Done 's | Goto nat pmode "va list" 's

text \<open>The loop that reads a width: \<open>ch\<close> is the digit just read and \<open>i\<close> the position behind it.\<close>

function width_loop :: "u8 list \<Rightarrow> u8 \<Rightarrow> nat \<Rightarrow> int \<Rightarrow> (int \<times> nat) option" where
  "width_loop xs ch i precision =
     (let precision = int32 (precision * 10 + uint ch - 0x30) in
      case char_at xs i of
        None \<Rightarrow> None
      | Some ch \<Rightarrow> (if ch < 0x30 \<or> ch > 0x39 then Some (precision, i) else width_loop xs ch (i + 1) precision))"
  by auto
termination
  by (relation "measure (\<lambda>(xs, _, i, _). length xs + 1 - i)") (auto simp: char_at_def split: if_splits)

declare width_loop.simps [simp del]

text \<open>The walk back to the position behind the \<open>%\<close> that began the escape.\<close>

fun walk_back :: "u8 list \<Rightarrow> nat \<Rightarrow> nat option" where
  "walk_back xs 0 = None"
| "walk_back xs (Suc j) = (if xs ! j = 0x25 then Some (Suc j) else walk_back xs j)"

text \<open>Here \<open>width\<close> is only decremented, once for every character of a string in memory, which has fewer than \<open>2 ^ 31\<close> of
  them. It is not reduced by \<open>int32\<close>: this differs from the source only for a width that is close to \<open>- (2 ^ 31)\<close> already
  because the number in the format has overflowed.\<close>

fun put_string :: "(u32 \<Rightarrow> 's \<Rightarrow> 's) \<Rightarrow> bool \<Rightarrow> u8 list \<Rightarrow> int \<Rightarrow> int \<Rightarrow> 's \<Rightarrow> int \<times> 's" where
  "put_string putch altflag [] precision width s = (width, s)"
| "put_string putch altflag (ch # p) precision width s =
     (if ch \<noteq> 0 \<and> (precision < 0 \<or> precision - 1 \<ge> 0)
      then put_string putch altflag p (if precision < 0 then precision else precision - 1) (width - 1)
             (putch (if altflag \<and> (sint ch < 0x20 \<or> sint ch > 0x7E) then 0x3F else scast ch) s)
      else (width, s))"

definition fmt_string :: "(u32 \<Rightarrow> 's \<Rightarrow> 's) \<Rightarrow> u32 \<Rightarrow> int \<Rightarrow> int \<Rightarrow> bool \<Rightarrow> u8 list \<Rightarrow> 's \<Rightarrow> 's" where
  "fmt_string putch padc width precision altflag p s =
     (let (width, s) =
            (if width > 0 \<and> padc \<noteq> 0x2D
             then let width = width - int (min (unat (of_int precision :: u32)) (length (takeWhile (\<lambda>c. c \<noteq> 0) p)))
                  in (min width 0, put_n putch padc (nat width) s)
             else (width, s));
          (width, s) = put_string putch altflag p precision width s
      in put_n putch 0x20 (nat width) s)"

definition fmt_error :: "(u8 list \<Rightarrow> va list \<Rightarrow> 's \<Rightarrow> 's option) \<Rightarrow> u32 \<Rightarrow> 's \<Rightarrow> 's option" where
  "fmt_error printfmt err s =
     (let err = (if sint err < 0 then - err else err) in
      if sint err > MAXERROR then printfmt (bytes ''error %d'') [VInt err] s
      else if sint err < 0 then None
      else case error_string ! nat (sint err) of
             None \<Rightarrow> printfmt (bytes ''error %d'') [VInt err] s
           | Some p \<Rightarrow> printfmt (bytes ''%s'') [VStr (Some p)] s)"

text \<open>One pass of the outer loop up to the next label: a character of the text, or the \<open>switch\<close> on the
  character behind \<open>reswitch\<close>. The first parameter is the nested call of \<open>printfmt\<close> for \<open>%e\<close>.\<close>

definition vprintfmt_step ::
    "(u8 list \<Rightarrow> va list \<Rightarrow> 's \<Rightarrow> 's option) \<Rightarrow> (u32 \<Rightarrow> 's \<Rightarrow> 's) \<Rightarrow> u8 list \<Rightarrow> nat \<Rightarrow> pmode \<Rightarrow> va list \<Rightarrow> 's \<Rightarrow> 's pstep option" where
  "vprintfmt_step printfmt putch xs i mode ap s = (case char_at xs i of None \<Rightarrow> None | Some ch \<Rightarrow>
     (case mode of
        Text \<Rightarrow>
          (if ch \<noteq> 0x25 then (if ch = 0 then Some (Done s) else Some (Goto (i + 1) Text ap (putch (ucast ch) s)))
           else Some (Goto (i + 1) (Escape 0x20 (-1) (-1) 0 False) ap s))
      | Escape padc width precision lflag altflag \<Rightarrow>
          let process_precision = (\<lambda>i ap precision.
                if width < 0 then Some (Goto i (Escape padc precision (-1) lflag altflag) ap s)
                else Some (Goto i (Escape padc width precision lflag altflag) ap s));
              number = (\<lambda>num base ap s. do {
                s \<leftarrow> printnum putch num base width padc s; Some (Goto (i + 1) Text ap s) })
          in
          if ch = 0x2D then Some (Goto (i + 1) (Escape 0x2D width precision lflag altflag) ap s)
          else if ch = 0x30 then Some (Goto (i + 1) (Escape 0x30 width precision lflag altflag) ap s)
          else if 0x31 \<le> ch \<and> ch \<le> 0x39 then
            do { (precision, i) \<leftarrow> width_loop xs ch (i + 1) 0; process_precision i ap precision }
          else if ch = 0x2A then
            do { (w, ap) \<leftarrow> va_int ap; process_precision (i + 1) ap (sint w) }
          else if ch = 0x2E then
            Some (Goto (i + 1) (Escape padc (if width < 0 then 0 else width) precision lflag altflag) ap s)
          else if ch = 0x23 then Some (Goto (i + 1) (Escape padc width precision lflag True) ap s)
          else if ch = 0x6C then Some (Goto (i + 1) (Escape padc width precision (lflag + 1) altflag) ap s)
          else if ch = 0x63 then
            do { (w, ap) \<leftarrow> va_int ap; Some (Goto (i + 1) Text ap (putch w s)) }
          else if ch = 0x65 then
            do { (err, ap) \<leftarrow> va_int ap; s \<leftarrow> fmt_error printfmt err s; Some (Goto (i + 1) Text ap s) }
          else if ch = 0x73 then
            do { (p, ap) \<leftarrow> va_str ap;
                 let p = (case p of None \<Rightarrow> bytes ''(null)'' | Some p \<Rightarrow> p);
                 Some (Goto (i + 1) Text ap (fmt_string putch padc width precision altflag p s)) }
          else if ch = 0x64 then
            do { (num, ap) \<leftarrow> getint ap lflag;
                 if sint num < 0 then number (- num) 10 ap (putch 0x2D s) else number num 10 ap s }
          else if ch = 0x75 then do { (num, ap) \<leftarrow> getuint ap lflag; number num 10 ap s }
          else if ch = 0x6F then do { (num, ap) \<leftarrow> getuint ap lflag; number num 8 ap s }
          else if ch = 0x70 then
            do { (w, ap) \<leftarrow> va_int ap; number (ucast w) 16 ap (putch 0x78 (putch 0x30 s)) }
          else if ch = 0x78 then do { (num, ap) \<leftarrow> getuint ap lflag; number num 16 ap s }
          else if ch = 0x25 then Some (Goto (i + 1) Text ap (putch (ucast ch) s))
          else do { j \<leftarrow> walk_back xs i; Some (Goto j Text ap (putch 0x25 s)) }))"

text \<open>Every pass makes progress: the number of percent signs ahead decreases, or stays and an escape ends, or
  the position moves on.\<close>

definition percents :: "u8 list \<Rightarrow> nat \<Rightarrow> nat" where
  "percents xs i = length (filter (\<lambda>c. c = 0x25) (drop i xs))"

lemma percents_Suc:
  "percents xs (Suc i) = (if i < length xs \<and> xs ! i = 0x25 then percents xs i - 1 else percents xs i)"
  by (cases "i < length xs") (auto simp: percents_def simp flip: Cons_nth_drop_Suc)

lemma percents_pos: "i < length xs \<Longrightarrow> xs ! i = 0x25 \<Longrightarrow> 0 < percents xs i"
  by (simp add: percents_def flip: Cons_nth_drop_Suc)

lemma percents_mono: "i \<le> j \<Longrightarrow> percents xs j \<le> percents xs i"
  by (induction j rule: dec_induct) (auto simp: percents_Suc)

lemma walk_back_percents: "walk_back xs i = Some j \<Longrightarrow> j \<le> i \<and> (i \<le> length xs \<longrightarrow> percents xs j = percents xs i)"
  by (induction i) (auto simp: percents_Suc split: if_splits)

lemma width_loop_gt: "width_loop xs ch i precision = Some (p, j) \<Longrightarrow> i \<le> j"
proof (induction xs ch i precision arbitrary: p rule: width_loop.induct)
  case (1 xs ch i precision)
  show ?case
    using 1(2) 1(1) [OF refl] unfolding width_loop.simps [of xs ch i precision]
    by (auto simp: Let_def dest: Suc_leD split: option.splits if_splits)
qed

definition pmode_rank :: "pmode \<Rightarrow> nat" where
  "pmode_rank md = (case md of Text \<Rightarrow> 0 | Escape _ _ _ _ _ \<Rightarrow> 1)"

lemma char_at_bound: "char_at xs i = Some c \<Longrightarrow> i \<le> length xs \<and> (c \<noteq> 0 \<longrightarrow> i < length xs \<and> xs ! i = c)"
  by (auto simp: char_at_def split: if_splits)

lemma vprintfmt_step_progress:
  assumes "vprintfmt_step pf putch xs i md ap s = Some (Goto i' md' ap' s')"
  shows "((percents xs i', pmode_rank md', length xs + 1 - i'), (percents xs i, pmode_rank md, length xs + 1 - i))
    \<in> less_than <*lex*> less_than <*lex*> less_than"
proof (cases md)
  case Text
  then show ?thesis
    using assms percents_mono [of i "Suc i" xs] percents_pos [of i xs]
    by (auto simp: vprintfmt_step_def pmode_rank_def percents_Suc dest!: char_at_bound
        split: option.splits if_splits)
next
  case (Escape padc width precision lflag altflag)
  obtain ch where ch: "char_at xs i = Some ch" "i \<le> length xs"
    using assms char_at_bound [of xs i] by (auto simp: vprintfmt_step_def split: option.splits)
  have mono: "percents xs j \<le> percents xs i" if "i < j" for j using percents_mono [of i j xs] that by simp
  have fwd: ?thesis if "i < i'"
    using mono [OF that] that ch(2) Escape by (cases md') (auto simp: pmode_rank_def)
  show ?thesis
  proof (cases "i < i'")
    case False
    then have "md' = Text \<and> walk_back xs i = Some i'"
      using assms Escape ch
      by (auto simp: vprintfmt_step_def Let_def bind_eq_Some_conv dest!: width_loop_gt split: option.splits if_splits prod.splits)
    then show ?thesis using walk_back_percents [of xs i i'] ch(2) Escape by (auto simp: pmode_rank_def)
  qed (rule fwd)
qed

function vprintfmt_loop ::
    "(u8 list \<Rightarrow> va list \<Rightarrow> 's \<Rightarrow> 's option) \<Rightarrow> (u32 \<Rightarrow> 's \<Rightarrow> 's) \<Rightarrow> u8 list \<Rightarrow> nat \<Rightarrow> pmode \<Rightarrow> va list \<Rightarrow> 's \<Rightarrow> 's option" where
  "vprintfmt_loop pf putch xs i md ap s = (case vprintfmt_step pf putch xs i md ap s of
     None \<Rightarrow> None
   | Some (Done s) \<Rightarrow> Some s
   | Some (Goto i md ap s) \<Rightarrow> vprintfmt_loop pf putch xs i md ap s)"
  by auto
termination
proof (relation "inv_image (less_than <*lex*> less_than <*lex*> less_than)
    (\<lambda>(pf, putch, xs, i, md, ap, s). (percents xs i, pmode_rank md, length xs + 1 - i))")
qed (auto dest!: vprintfmt_step_progress)

declare vprintfmt_loop.simps [simp del]

text \<open>\<open>printfmt\<close> and \<open>vprintfmt\<close> call each other for \<open>%e\<close>; the formats of those calls contain no \<open>%e\<close>, so the
  nesting depth \<open>1\<close> is enough (\<open>vprintfmt_depth\<close> below).\<close>

primrec vprintfmt_at :: "nat \<Rightarrow> (u32 \<Rightarrow> 's \<Rightarrow> 's) \<Rightarrow> u8 list \<Rightarrow> va list \<Rightarrow> 's \<Rightarrow> 's option" where
  "vprintfmt_at 0 putch fmt ap s = vprintfmt_loop (\<lambda>fmt ap s. None) putch fmt 0 Text ap s"
| "vprintfmt_at (Suc d) putch fmt ap s = vprintfmt_loop (vprintfmt_at d putch) putch fmt 0 Text ap s"

definition vprintfmt :: "(u32 \<Rightarrow> 's \<Rightarrow> 's) \<Rightarrow> u8 list \<Rightarrow> va list \<Rightarrow> 's \<Rightarrow> 's option" where
  "vprintfmt = vprintfmt_at 1"

definition printfmt :: "(u32 \<Rightarrow> 's \<Rightarrow> 's) \<Rightarrow> u8 list \<Rightarrow> va list \<Rightarrow> 's \<Rightarrow> 's option" where
  "printfmt putch fmt args s = vprintfmt putch fmt args s"

section \<open>Printing to a buffer\<close>

record sprintbuf =
  sb_buf :: u32
  sb_ebuf :: u32
  sb_cnt :: int

definition sprintputch :: "u32 \<Rightarrow> sprintbuf \<times> mem \<Rightarrow> sprintbuf \<times> mem" where
  "sprintputch ch bm = (let (b, m) = bm; b = b\<lparr>sb_cnt := int32 (sb_cnt b + 1)\<rparr> in
     if sb_buf b < sb_ebuf b then (b\<lparr>sb_buf := sb_buf b + 1\<rparr>, m(sb_buf b := ucast ch)) else (b, m))"

definition vsnprintf :: "u32 \<Rightarrow> u32 \<Rightarrow> u8 list \<Rightarrow> va list \<Rightarrow> mem \<Rightarrow> (int \<times> mem) option" where
  "vsnprintf str sz fmt ap m =
     (let b = \<lparr>sb_buf = str, sb_ebuf = str + sz - 1, sb_cnt = 0\<rparr> in
      if str = 0 \<or> sb_buf b > sb_ebuf b then Some (- E_INVAL, m)
      else do {
        (b, m) \<leftarrow> vprintfmt sprintputch fmt ap (b, m);
        Some (sb_cnt b, m(sb_buf b := 0)) })"

definition snprintf :: "u32 \<Rightarrow> u32 \<Rightarrow> u8 list \<Rightarrow> va list \<Rightarrow> mem \<Rightarrow> (int \<times> mem) option" where
  "snprintf str sz fmt args m = vsnprintf str sz fmt args m"

section \<open>The division by ten is exact\<close>

text \<open>The estimate of the quotient is at most one too small.\<close>

lemma div_between:
  fixes a k :: nat
  assumes "0 < k"
  shows "k * (a div k) \<le> a" and "a < k * (a div k) + k"
proof -
  have "k * (a div k) + a mod k = a" by simp
  moreover have "a mod k < k" using assms by simp
  ultimately show "k * (a div k) \<le> a" "a < k * (a div k) + k" by linarith+
qed

lemma div10_chain:
  fixes n a b c d e f :: int
  assumes "0 \<le> n" "n < 4294967296" "2 * a \<le> n" "n < 2 * a + 2" "4 * b \<le> n" "n < 4 * b + 4"
    and "16 * c \<le> a + b" "a + b < 16 * c + 16"
    and "256 * d \<le> a + b + c" "a + b + c < 256 * d + 256"
    and "65536 * e \<le> a + b + c + d" "a + b + c + d < 65536 * e + 65536"
    and "8 * f \<le> a + b + c + d + e" "a + b + c + d + e < 8 * f + 8"
  shows "10 * f \<le> n" "n < 10 * f + 20" "a + b + c + d + e < 4294967296"
proof -
  show "10 * f \<le> n" using assms by linarith
  show "n < 10 * f + 20" using assms by linarith
  show "a + b + c + d + e < 4294967296" using assms by linarith
qed

lemma div10_estimate:
  fixes n q1 q2 q3 q4 q5 :: nat
  assumes "n < 2 ^ 32" and q1: "q1 = n div 2 + n div 4" and q2: "q2 = q1 + q1 div 16"
    and q3: "q3 = q2 + q2 div 256" and q4: "q4 = q3 + q3 div 65536" and q5: "q5 = q4 div 8"
  shows "10 * q5 \<le> n" "n < 10 * q5 + 20" "q4 < 2 ^ 32"
proof -
  define a b c d e where defs: "a = n div 2" "b = n div 4" "c = q1 div 16" "d = q2 div 256" "e = q3 div 65536"
  have q: "q1 = a + b" "q2 = a + b + c" "q3 = a + b + c + d" "q4 = a + b + c + d + e"
    by (simp_all add: defs q1 q2 q3 q4)
  have "2 * a \<le> n" "n < 2 * a + 2" "4 * b \<le> n" "n < 4 * b + 4" "16 * c \<le> a + b" "a + b < 16 * c + 16"
    "256 * d \<le> a + b + c" "a + b + c < 256 * d + 256"
    "65536 * e \<le> a + b + c + d" "a + b + c + d < 65536 * e + 65536"
    "8 * q5 \<le> a + b + c + d + e" "a + b + c + d + e < 8 * q5 + 8"
    using div_between [of 2 n] div_between [of 4 n] div_between [of 16 q1] div_between [of 256 q2]
      div_between [of 65536 q3] div_between [of 8 q4]
    unfolding defs [symmetric] q5 [symmetric] unfolding q by auto
  then have i: "2 * int a \<le> int n" "int n < 2 * int a + 2" "4 * int b \<le> int n" "int n < 4 * int b + 4"
    "16 * int c \<le> int a + int b" "int a + int b < 16 * int c + 16"
    "256 * int d \<le> int a + int b + int c" "int a + int b + int c < 256 * int d + 256"
    "65536 * int e \<le> int a + int b + int c + int d" "int a + int b + int c + int d < 65536 * int e + 65536"
    "8 * int q5 \<le> int a + int b + int c + int d + int e" "int a + int b + int c + int d + int e < 8 * int q5 + 8"
    by linarith+
  have "0 \<le> int n" "int n < 4294967296" using assms(1) by simp_all
  note r = div10_chain [OF this i]
  show "10 * q5 \<le> n" "n < 10 * q5 + 20" using r by linarith+
  show "q4 < 2 ^ 32" using r(3) unfolding q by simp
qed

lemma unat_shift: "unat (drop_bit k w) = unat (w :: 'a::len word) div 2 ^ k"
  unfolding unat_drop_bit_eq by (simp add: drop_bit_eq_div)

lemma unat_add_shift:
  "unat (q :: u32) + unat q div 2 ^ k < 2 ^ 32 \<Longrightarrow> unat (q + drop_bit k q) = unat q + unat q div 2 ^ k"
  by (subst unat_add_no_wrap) (auto simp: unat_shift)

lemma times_ten_shift: "push_bit 1 (push_bit 2 q + q) = (10 :: u32) * q"
  by (simp add: push_bit_eq_mult algebra_simps)

lemma unat_ucast_64: "unat (ucast (w :: u32) :: 64 word) = unat w"
  using unat_bound32 [of w] by (simp add: unsigned_ucast_eq take_bit_nat_eq_self)

lemma unat_ucast_32: "unat (n :: 64 word) < 2 ^ 32 \<Longrightarrow> unat (ucast n :: u32) = unat n"
  by (simp add: unsigned_ucast_eq take_bit_nat_eq_self)

lemma unat_inverse_u: "of_nat (unat w) = (w :: 'a::len word)"
  by simp

lemma ten_times_rem:
  fixes q :: u32
  assumes "unat (n :: 64 word) < 2 ^ 32" "10 * unat q \<le> unat n"
  shows "unat (ucast (n - ucast (push_bit 1 (push_bit 2 q + q))) :: u32) = unat n - 10 * unat q"
proof -
  have "unat (10 * q) = 10 * unat q"
    using assms unat_mult_no_wrap [of 10 q] by simp
  then have "unat (ucast (push_bit 1 (push_bit 2 q + q)) :: 64 word) = 10 * unat q"
    unfolding times_ten_shift unat_ucast_64 by simp
  then have "unat (n - ucast (push_bit 1 (push_bit 2 q + q))) = unat n - 10 * unat q"
    using assms(2) by (subst unat_sub) (auto simp: word_le_nat_alt)
  then show ?thesis using assms(1) by (subst unat_ucast_32) auto
qed

lemma do_div_10:
  assumes "unat n < 2 ^ 32"
  shows "do_div n 10 = (of_nat (unat n mod 10), of_nat (unat n div 10))"
proof -
  define a1 :: u32 where "a1 = ucast (drop_bit 1 n + drop_bit 2 n)"
  define a2 where "a2 = a1 + drop_bit 4 a1"
  define a3 where "a3 = a2 + drop_bit 8 a2"
  define a4 where "a4 = a3 + drop_bit 16 a3"
  define a5 where "a5 = drop_bit 3 a4"
  define md :: u32 where "md = ucast (n - ucast (push_bit 1 (push_bit 2 a5 + a5)))"
  define a6 where "a6 = a5 + drop_bit 4 (md + 6)"
  define r :: u32 where "r = ucast (n - ucast (push_bit 1 (push_bit 2 a6 + a6)))"
  have d: "do_div n 10 = (r, ucast a6)"
    by (simp add: do_div_def Let_def a1_def a2_def a3_def a4_def a5_def a6_def md_def r_def)
  have "unat (drop_bit 1 n + drop_bit 2 n) = unat n div 2 + unat n div 4"
    using assms by (simp add: unat_word_ariths unat_shift)
  then have q1: "unat a1 = unat n div 2 + unat n div 4"
    using assms unfolding a1_def by (subst unat_ucast_32) auto
  note est = div10_estimate [OF assms q1 refl refl refl refl]
  have q2: "unat a2 = unat a1 + unat a1 div 16"
    unfolding a2_def using est(3) by (subst unat_add_shift) auto
  have q3: "unat a3 = unat a2 + unat a2 div 256"
    unfolding a3_def using est(3) q2 by (subst unat_add_shift) auto
  have q4: "unat a4 = unat a3 + unat a3 div 65536"
    unfolding a4_def using est(3) q2 q3 by (subst unat_add_shift) auto
  have q5: "unat a5 = unat a4 div 8"
    by (simp add: a5_def unat_shift)
  have b: "10 * unat a5 \<le> unat n" "unat n < 10 * unat a5 + 20"
    using est(1,2) unfolding q2 [symmetric] q3 [symmetric] q4 [symmetric] q5 [symmetric] by auto
  have md: "unat md = unat n - 10 * unat a5"
    unfolding md_def using assms b(1) by (rule ten_times_rem)
  have "unat (drop_bit 4 (md + 6)) = (unat md + 6) div 16"
    using md b by (simp add: unat_shift unat_word_ariths)
  moreover have "unat (a5 + drop_bit 4 (md + 6)) = unat a5 + unat (drop_bit 4 (md + 6))"
    using md b calculation assms by (intro unat_add_no_wrap) linarith
  ultimately have "unat a6 = unat a5 + (unat n - 10 * unat a5 + 6) div 16"
    unfolding a6_def md by simp
  moreover have "a + (k - 10 * a + 6) div 16 = k div 10" if "10 * a \<le> k" "k < 10 * a + 20" for a k :: nat
  proof -
    have k: "k = a * 10 + (k - 10 * a)" using that(1) by simp
    show ?thesis
    proof (cases "k - 10 * a < 10")
      case True
      then have "k div 10 = a" by (metis k div_mult_self3 div_less zero_neq_numeral add_0_right)
      then show ?thesis using True by simp
    next
      case False
      then have "k = (a + 1) * 10 + (k - 10 * a - 10)" "k - 10 * a - 10 < 10" using that by auto
      then have "k div 10 = a + 1" by (metis div_mult_self3 div_less zero_neq_numeral add_0_right)
      moreover have "(k - 10 * a + 6) div 16 = 1" using False that by (intro div_nat_eqI) auto
      ultimately show ?thesis by simp
    qed
  qed
  ultimately have q6: "unat a6 = unat n div 10" using b by simp
  have "unat r = unat n mod 10"
    unfolding r_def using assms q6 by (subst ten_times_rem) (auto simp: minus_mult_div_eq_mod)
  moreover have "ucast a6 = (of_nat (unat n div 10) :: 64 word)"
    by (metis q6 unat_ucast_64 unat_inverse_u)
  ultimately show ?thesis unfolding d by (metis unat_inverse_u)
qed

lemma and_mask_nat:
  fixes n :: "64 word"
  shows "unat (n AND 0xF) = unat n mod 16" "unat (n AND 0x7) = unat n mod 8" "unat (n AND 0x7FFFFFFF) = unat n mod 2147483648"
proof -
  have m: "(0xF :: 64 word) = mask 4" "(0x7 :: 64 word) = mask 3" "(0x7FFFFFFF :: 64 word) = mask 31"
    by (simp_all add: mask_eq_exp_minus_1)
  have "unat (n AND mask k) = unat n mod 2 ^ k" for k
    unfolding take_bit_eq_mask [symmetric] unsigned_take_bit_eq by (simp add: take_bit_eq_mod)
  from this [of 4] this [of 3] this [of 31]
  show "unat (n AND 0xF) = unat n mod 16" "unat (n AND 0x7) = unat n mod 8" "unat (n AND 0x7FFFFFFF) = unat n mod 2147483648"
    unfolding m by simp_all
qed

lemma do_div_parts:
  assumes "base \<in> {8, 16, 2147483648} \<or> base = 10 \<and> unat n < 2 ^ 32"
  shows "unat (fst (do_div n base)) = unat n mod unat base" "unat (snd (do_div n base)) = unat n div unat base"
proof -
  have "unat (fst (do_div n base)) = unat n mod unat base \<and> unat (snd (do_div n base)) = unat n div unat base"
  proof (cases "base = 10")
    case True
    then have "do_div n base = (of_nat (unat n mod 10), of_nat (unat n div 10))"
      using assms do_div_10 by auto
    moreover have "unat n < 2 ^ 64" using unsigned_less [of n] by simp
    then have "unat n div 10 < 2 ^ 64" using div_le_dividend [of "unat n" 10] by linarith
    ultimately show ?thesis using True by (simp add: unat_of_nat)
  next
    case False
    then have "base = 8 \<or> base = 16 \<or> base = 2147483648" using assms by auto
    moreover have lt: "unat n mod k < 2 ^ 32" if "0 < k" "k \<le> 2147483648" for k
      by (rule less_le_trans [OF mod_less_divisor]) (use that in simp_all)
    have "unat (ucast (n AND 0xF) :: u32) = unat n mod 16"
      by (rule trans [OF unat_ucast_32 and_mask_nat(1)]) (unfold and_mask_nat, rule lt, simp_all)
    moreover have "unat (ucast (n AND 0x7) :: u32) = unat n mod 8"
      by (rule trans [OF unat_ucast_32 and_mask_nat(2)]) (unfold and_mask_nat, rule lt, simp_all)
    moreover have "unat (ucast (n AND 0x7FFFFFFF) :: u32) = unat n mod 2147483648"
      by (rule trans [OF unat_ucast_32 and_mask_nat(3)]) (unfold and_mask_nat, rule lt, simp_all)
    moreover have "do_div n 16 = (ucast (n AND 0xF), drop_bit 4 n)" "do_div n 8 = (ucast (n AND 0x7), drop_bit 3 n)"
        "do_div n 2147483648 = (ucast (n AND 0x7FFFFFFF), drop_bit 31 n)"
      unfolding do_div_def by simp_all
    moreover have "unat (drop_bit 4 n) = unat n div 16" "unat (drop_bit 3 n) = unat n div 8"
        "unat (drop_bit 31 n) = unat n div 2147483648"
      unfolding unat_shift by simp_all
    moreover have "unat (16 :: u32) = 16" "unat (8 :: u32) = 8" "unat (2147483648 :: u32) = 2147483648" by simp_all
    ultimately show ?thesis by (metis fst_conv snd_conv)
  qed
  then show "unat (fst (do_div n base)) = unat n mod unat base" "unat (snd (do_div n base)) = unat n div unat base"
    by auto
qed

text \<open>
  C30: the division macro agrees with division and remainder for the bases 8, 16 and \<open>2 ^ 31\<close> on all 64-bit
  numbers and for the base 10, where it multiplies by an approximation of \<open>1 / 10\<close> in 32-bit arithmetic, on all
  numbers below \<open>2 ^ 32\<close>. (The witness shows that beyond that range the remainder is wrong and larger than
  the base.)
\<close>

theorem do_div_exact:
  assumes "base \<in> {8, 16, 2147483648} \<or> base = 10 \<and> unat n < 2 ^ 32"
  shows "unat (fst (do_div n base)) = unat n mod unat base \<and> unat (snd (do_div n base)) = unat n div unat base"
  using do_div_parts [OF assms] by blast

theorem do_div_exact_witness:
  "unat (fst (do_div 4294967295 10)) = 5 \<and> unat (snd (do_div 4294967295 10)) = 429496729 \<and>
   fst (do_div 0x200000000 10) = 0x20000004"
proof -
  have "fst (do_div 0x200000000 10) = 0x20000004"
    by (simp add: do_div_def Let_def)
  then show ?thesis using do_div_exact [of 10 4294967295] by simp
qed

section \<open>Printing numbers\<close>

fun digits :: "nat \<Rightarrow> nat \<Rightarrow> nat list" where
  "digits b n = (if n < b \<or> b < 2 then [n] else digits b (n div b) @ [n mod b])"

declare digits.simps [simp del]

definition dig_byte :: "nat \<Rightarrow> u8" where
  "dig_byte d = of_nat (if d < 10 then 48 + d else 87 + d)"

definition number :: "nat \<Rightarrow> nat \<Rightarrow> u8 list" where
  "number b n = map dig_byte (digits b n)"

definition emit :: "(u32 \<Rightarrow> 's \<Rightarrow> 's) \<Rightarrow> u8 list \<Rightarrow> 's \<Rightarrow> 's" where
  "emit putch cs s = fold putch (map ucast cs) s"

lemma emit_simps [simp]:
  "emit putch [] s = s"
  "emit putch (c # cs) s = emit putch cs (putch (ucast c) s)"
  "emit putch (cs @ ds) s = emit putch ds (emit putch cs s)"
  by (simp_all add: emit_def)

lemma put_n_emit: "put_n putch (ucast c) n s = emit putch (replicate n c) s"
  by (induction n arbitrary: s) auto

lemma digit_char_ok: "unat md < 16 \<Longrightarrow> digit_char md = Some (ucast (dig_byte (unat md)))"
proof -
  assume "unat md < 16"
  then have "unat md \<in> {0, 1, 2, 3, 4, 5, 6, 7, 8, 9, 10, 11, 12, 13, 14, 15}"
    unfolding insert_iff empty_iff by presburger
  moreover have "map_option ucast (char_at (bytes ''0123456789abcdef'') k) = Some (ucast (dig_byte k) :: u32)"
    if "k \<in> {0, 1, 2, 3, 4, 5, 6, 7, 8, 9, 10, 11, 12, 13, 14, 15}" for k
    using that by (auto simp: char_at_def bytes_def dig_byte_def)
  ultimately show ?thesis unfolding digit_char_def by blast
qed

lemma printnum_ok:
  assumes "b \<in> {8, 10, 16}" "b = 10 \<longrightarrow> unat num < 2 ^ 32" "int (length (digits b (unat num))) - 2 ^ 31 \<le> width" "width < 2 ^ 31"
  shows "printnum putch num (of_nat b) width (ucast padc) s =
    Some (emit putch (replicate (nat (width - int (length (digits b (unat num))))) padc @ number b (unat num)) s)"
  using assms(2-4)
proof (induction "unat num" arbitrary: num width rule: less_induct)
  case less
  have b: "unat (of_nat b :: u32) = b" "2 \<le> b" "b \<le> 16" using assms(1) by auto
  have d: "unat (fst (do_div num (of_nat b))) = unat num mod b" "unat (snd (do_div num (of_nat b))) = unat num div b"
    using do_div_parts [of "of_nat b" num] less.prems assms(1) by auto
  obtain md result where dd: "do_div num (of_nat b) = (md, result)" by fastforce
  have md: "unat md = unat num mod b" and res: "unat result = unat num div b" using d unfolding dd by simp_all
  have "unat md < 16" using md mod_less_divisor [of b "unat num"] b(2,3) by linarith
  note dc = digit_char_ok [OF this]
  have ge: "(ucast (of_nat b :: u32) :: 64 word) \<le> num \<longleftrightarrow> b \<le> unat num"
    unfolding word_le_nat_alt unat_ucast_64 b(1) ..
  show ?case
  proof (cases "b \<le> unat num")
    case True
    then have lt: "unat result < unat num" unfolding res using b(2) by simp
    have small: "b = 10 \<longrightarrow> unat result < 2 ^ 32" using less.prems lt by auto
    have ds: "digits b (unat num) = digits b (unat num div b) @ [unat num mod b]"
      using True b(2) by (subst digits.simps) simp
    then have w: "int (length (digits b (unat result))) - 2 ^ 31 \<le> width - 1" "width - 1 < 2 ^ 31"
      using less.prems(2,3) res by auto
    then have wr: "int32 (width - 1) = width - 1" by (intro int32_id) auto
    note IH = less.hyps [OF lt small w]
    show ?thesis using True ge dc ds
      by (subst printnum.simps) (simp add: dd wr IH number_def md res diff_diff_eq)
  next
    case False
    then have ds: "digits b (unat num) = [unat num]" by (subst digits.simps) simp
    then have "int32 (width - 1) = width - 1" using less.prems(2,3) by (intro int32_id) auto
    then show ?thesis using False ge dc ds
      by (subst printnum.simps) (simp add: dd number_def md put_n_emit)
  qed
qed

lemma length_digits: "2 \<le> b \<Longrightarrow> n < 2 ^ k \<Longrightarrow> length (digits b n) \<le> Suc k"
proof (induction k arbitrary: n)
  case 0
  then show ?case by (subst digits.simps) simp
next
  case (Suc k)
  have "n div b \<le> n div 2" using Suc.prems(1) by (simp add: div_le_mono2)
  also have "\<dots> < 2 ^ k" using Suc.prems(2) by (simp add: less_mult_imp_div_less mult.commute)
  finally show ?case using Suc.IH [of "n div b"] Suc.prems(1) by (subst digits.simps) auto
qed

lemma length_digits_64: "2 \<le> b \<Longrightarrow> length (digits b (unat (num :: 64 word))) \<le> 65"
  using length_digits [of b "unat num" 64] unsigned_less [of num] by simp

lemma digits_value: "2 \<le> b \<Longrightarrow> foldl (\<lambda>p d. p * b + d) 0 (digits b n) = n"
proof (induction b n rule: digits.induct)
  case (1 b n)
  then show ?case by (subst digits.simps) (auto simp: div_mult_mod_eq)
qed

lemma digits_less: "2 \<le> b \<Longrightarrow> d \<in> set (digits b n) \<Longrightarrow> d < b"
proof (induction b n rule: digits.induct)
  case (1 b n)
  show ?case using 1(1,2) 1(3) by (subst (asm) (2) digits.simps) (auto split: if_splits)
qed

lemma digits_Cons: "\<exists>d ds. digits b n = d # ds \<and> (2 \<le> b \<longrightarrow> 0 < n \<longrightarrow> 0 < d)"
proof (induction b n rule: digits.induct)
  case (1 b n)
  show ?case
  proof (cases "n < b \<or> b < 2")
    case True
    then show ?thesis by (subst digits.simps) auto
  next
    case False
    then obtain d ds where "digits b (n div b) = d # ds" "0 < n div b \<longrightarrow> 0 < d" using 1 [OF False] by auto
    moreover have "0 < n div b" using False by (simp add: div_greater_zero_iff)
    ultimately show ?thesis using False by (subst digits.simps) auto
  qed
qed

lemma dig_byte_decimal:
  assumes "d < 10"
  shows "uint (dig_byte d) = 48 + int d" "0x30 \<le> dig_byte d" "dig_byte d \<le> 0x39" "0 < d \<longrightarrow> 0x31 \<le> dig_byte d"
proof -
  have "unat (dig_byte d) = 48 + d" using assms by (simp add: dig_byte_def unat_of_nat del: of_nat_add)
  then show "uint (dig_byte d) = 48 + int d" "0x30 \<le> dig_byte d" "dig_byte d \<le> 0x39" "0 < d \<longrightarrow> 0x31 \<le> dig_byte d"
    using assms by (simp_all add: word_le_nat_alt) (metis of_nat_add of_nat_numeral uint_nat)
qed

lemma char_at_app: "char_at (pre @ c # post) (length pre) = Some c"
  by (simp add: char_at_def)

lemma foldl_digits_ge: "0 \<le> k \<Longrightarrow> k \<le> foldl (\<lambda>p d. p * 10 + int d) k ds"
proof (induction ds arbitrary: k)
  case (Cons d ds)
  have "k \<le> k * 10 + int d" using Cons.prems by simp
  also have "\<dots> \<le> foldl (\<lambda>p d. p * 10 + int d) (k * 10 + int d) ds" using Cons.prems by (intro Cons.IH) simp
  finally show ?case by simp
qed simp

lemma width_loop_digits:
  assumes "c < 0x30 \<or> 0x39 < c" "\<forall>d \<in> set ds. d < 10"
    and "0 \<le> p * 10 + uint ch - 0x30" "foldl (\<lambda>p d. p * 10 + int d) (p * 10 + uint ch - 0x30) ds < 2 ^ 31"
  shows "width_loop (pre @ map dig_byte ds @ c # post) ch (length pre) p =
    Some (foldl (\<lambda>p d. p * 10 + int d) (p * 10 + uint ch - 0x30) ds, length pre + length ds)"
  using assms(2-4)
proof (induction ds arbitrary: pre ch p)
  case Nil
  then show ?case using assms(1) by (subst width_loop.simps) (simp add: char_at_app Let_def int32_id)
next
  case (Cons d ds)
  have wr: "int32 (p * 10 + uint ch - 0x30) = p * 10 + uint ch - 0x30"
    using Cons.prems(2,3) foldl_digits_ge [of "(p * 10 + uint ch - 0x30)" "d # ds"] by (intro int32_id) linarith+
  have "width_loop ((pre @ [dig_byte d]) @ map dig_byte ds @ c # post) (dig_byte d) (length (pre @ [dig_byte d]))
      (p * 10 + uint ch - 0x30) =
    Some (foldl (\<lambda>p d. p * 10 + int d) ((p * 10 + uint ch - 0x30) * 10 + uint (dig_byte d) - 0x30) ds,
      length (pre @ [dig_byte d]) + length ds)"
    by (rule Cons.IH) (use Cons.prems dig_byte_decimal [of d] in \<open>simp_all add: algebra_simps\<close>)
  moreover have "width_loop (pre @ map dig_byte (d # ds) @ c # post) ch (length pre) p =
    width_loop (pre @ map dig_byte (d # ds) @ c # post) (dig_byte d) (Suc (length pre)) (p * 10 + uint ch - 0x30)"
    using Cons.prems dig_byte_decimal [of d]
    by (subst width_loop.simps) (auto simp: char_at_app Let_def wr not_less [symmetric])
  ultimately show ?case using Cons.prems dig_byte_decimal [of d] by (simp add: algebra_simps)
qed

section \<open>The output of a format\<close>

text \<open>A format is a sequence of pieces: a literal character, \<open>%%\<close>, or a conversion with an optional zero flag and
  field width (\<open>0\<close> stands for no width). \<open>fmt_of\<close> is the text of a piece, \<open>args_of\<close> its arguments and \<open>out_of\<close>
  the characters it prints.\<close>

datatype conv = CD | CU | CO | CX

datatype piece =
  PLit u8 | PPercent | PNum conv bool nat u32 | PPtr u32 | PChr u32 | PStr "u8 list option"

primrec conv_char :: "conv \<Rightarrow> u8" where
  "conv_char CD = 0x64"
| "conv_char CU = 0x75"
| "conv_char CO = 0x6F"
| "conv_char CX = 0x78"

primrec conv_base :: "conv \<Rightarrow> nat" where
  "conv_base CD = 10"
| "conv_base CU = 10"
| "conv_base CO = 8"
| "conv_base CX = 16"

fun piece_ok :: "piece \<Rightarrow> bool" where
  "piece_ok (PLit c) \<longleftrightarrow> c \<noteq> 0 \<and> c \<noteq> 0x25"
| "piece_ok (PNum _ _ w _) \<longleftrightarrow> w < 2 ^ 31"
| "piece_ok (PStr (Some xs)) \<longleftrightarrow> 0 \<notin> set xs"
| "piece_ok _ \<longleftrightarrow> True"

fun fmt_of :: "piece \<Rightarrow> u8 list" where
  "fmt_of (PLit c) = [c]"
| "fmt_of PPercent = [0x25, 0x25]"
| "fmt_of (PNum cv z w v) =
     0x25 # (if z then [0x30] else []) @ (if w = 0 then [] else number 10 w) @ [conv_char cv]"
| "fmt_of (PPtr v) = [0x25, 0x70]"
| "fmt_of (PChr v) = [0x25, 0x63]"
| "fmt_of (PStr p) = [0x25, 0x73]"

fun args_of :: "piece \<Rightarrow> va list" where
  "args_of (PNum cv z w v) = [VInt v]"
| "args_of (PPtr v) = [VInt v]"
| "args_of (PChr v) = [VInt v]"
| "args_of (PStr p) = [VStr p]"
| "args_of _ = []"

definition num_out :: "conv \<Rightarrow> bool \<Rightarrow> nat \<Rightarrow> u32 \<Rightarrow> u8 list" where
  "num_out cv z w v =
     (let b = conv_base cv; n = (if cv = CD then nat \<bar>sint v\<bar> else unat v); ds = number b n
      in (if cv = CD \<and> sint v < 0 then [0x2D] else []) @
         replicate (w - length ds) (if z then 0x30 else 0x20) @ ds)"

fun out_of :: "piece \<Rightarrow> u32 list" where
  "out_of (PLit c) = [ucast c]"
| "out_of PPercent = [0x25]"
| "out_of (PNum cv z w v) = map ucast (num_out cv z w v)"
| "out_of (PPtr v) = map ucast ([0x30, 0x78] @ number 16 (unat v))"
| "out_of (PChr v) = [v]"
| "out_of (PStr p) = map scast (case p of None \<Rightarrow> bytes ''(null)'' | Some xs \<Rightarrow> xs)"

text \<open>Single passes of the interpreter.\<close>

lemma loop_text:
  assumes "char_at xs i = Some c" "c \<noteq> 0" "c \<noteq> 0x25"
  shows "vprintfmt_loop pf putch xs i Text ap s = vprintfmt_loop pf putch xs (i + 1) Text ap (putch (ucast c) s)"
  using assms by (subst vprintfmt_loop.simps) (simp add: vprintfmt_step_def)

lemma loop_escape:
  "char_at xs i = Some 0x25 \<Longrightarrow>
   vprintfmt_loop pf putch xs i Text ap s = vprintfmt_loop pf putch xs (i + 1) (Escape 0x20 (-1) (-1) 0 False) ap s"
  by (subst vprintfmt_loop.simps) (simp add: vprintfmt_step_def)

lemma loop_end: "char_at xs i = Some 0 \<Longrightarrow> vprintfmt_loop pf putch xs i Text ap s = Some s"
  by (subst vprintfmt_loop.simps) (simp add: vprintfmt_step_def)

lemma loop_zero_flag:
  "char_at xs i = Some 0x30 \<Longrightarrow>
   vprintfmt_loop pf putch xs i (Escape padc w p l a) ap s = vprintfmt_loop pf putch xs (i + 1) (Escape 0x30 w p l a) ap s"
  by (subst vprintfmt_loop.simps) (simp add: vprintfmt_step_def)

lemma foldl_int: "foldl (\<lambda>p d. p * 10 + int d) (int k) es = int (foldl (\<lambda>p d. p * 10 + d) k es)"
proof (induction es arbitrary: k)
  case (Cons e es)
  then show ?case using Cons.IH [of "k * 10 + e"] by simp
qed simp

lemma loop_width:
  assumes "0 < w" "w < 2 ^ 31" "c < 0x30 \<or> 0x39 < c"
  shows "vprintfmt_loop pf putch (pre @ number 10 w @ c # post) (length pre) (Escape padc (-1) p l a) ap s =
    vprintfmt_loop pf putch (pre @ number 10 w @ c # post) (length pre + length (number 10 w)) (Escape padc (int w) (-1) l a) ap s"
proof -
  obtain d ds where ds: "digits 10 w = d # ds" "0 < d" using digits_Cons [of 10 w] assms(1) by auto
  have small: "\<forall>x \<in> set (digits 10 w). x < 10" using digits_less [of 10] by auto
  have d: "uint (dig_byte d) = 48 + int d" "0x31 \<le> dig_byte d" "dig_byte d \<le> 0x39"
    using dig_byte_decimal [of d] small ds by auto
  have v: "foldl (\<lambda>p d. p * 10 + d) d ds = w" using digits_value [of 10 w] ds(1) by simp
  have "width_loop ((pre @ [dig_byte d]) @ map dig_byte ds @ c # post) (dig_byte d) (length (pre @ [dig_byte d])) 0 =
      Some (foldl (\<lambda>p d. p * 10 + int d) (0 * 10 + uint (dig_byte d) - 0x30) ds, length (pre @ [dig_byte d]) + length ds)"
    by (rule width_loop_digits) (use assms(3) small ds(1) d(1) assms(2) v in \<open>auto simp: foldl_int\<close>)
  then have wl: "width_loop (pre @ number 10 w @ c # post) (dig_byte d) (length pre + 1) 0 =
      Some (int w, length pre + length (number 10 w))"
    by (simp add: number_def ds(1) d(1) foldl_int v)
  have "char_at (pre @ number 10 w @ c # post) (length pre) = Some (dig_byte d)"
    by (simp add: number_def ds(1) char_at_app)
  moreover have "dig_byte d \<noteq> 0x2D" "dig_byte d \<noteq> 0x30" using d(2,3) by auto
  ultimately show ?thesis using wl d(2,3)
    by (subst vprintfmt_loop.simps) (simp add: vprintfmt_step_def)
qed

lemma ucast_scast_abs:
  assumes "sint (v :: u32) < 0"
  shows "unat (- (scast v :: 64 word)) = nat \<bar>sint v\<bar>"
proof -
  have b: "- (2 ^ 31) \<le> sint v" using sint_ge [of v] by simp
  have "- (scast v :: 64 word) = word_of_int (- sint v)"
    by (simp only: of_int_minus of_int_sint)
  then have "uint (- (scast v :: 64 word)) = (- sint v) mod 2 ^ 64"
    by (simp only: uint_word_of_int) simp
  then show ?thesis using assms b by (simp add: unat_eq_nat_uint)
qed

lemma unat_scast_nonneg:
  assumes "0 \<le> sint (v :: u32)"
  shows "unat (scast v :: 64 word) = nat \<bar>sint v\<bar>"
proof -
  have b: "sint v < 2 ^ 31" using sint_lt [of v] by simp
  have "(scast v :: 64 word) = word_of_int (sint v)" by (simp only: of_int_sint)
  then have "uint (scast v :: 64 word) = sint v mod 2 ^ 64"
    by (simp only: uint_word_of_int) simp
  then show ?thesis using assms b by (simp add: unat_eq_nat_uint)
qed

lemma sint_scast_64: "sint (scast (v :: u32) :: 64 word) = sint v"
  by (rule sint_up_scast) (simp add: is_up)

text \<open>The digits of a conversion with its sign and padding.\<close>

definition num_text :: "conv \<Rightarrow> int \<Rightarrow> u8 \<Rightarrow> u32 \<Rightarrow> u8 list" where
  "num_text cv w pc v =
     (let n = (if cv = CD then nat \<bar>sint v\<bar> else unat v) in
      (if cv = CD \<and> sint v < 0 then [0x2D] else []) @
      replicate (nat (w - int (length (digits (conv_base cv) n)))) pc @ number (conv_base cv) n)"

lemma num_out_text: "num_out cv z w v = num_text cv (int w) (if z then 0x30 else 0x20) v"
  by (simp add: num_out_def num_text_def Let_def number_def nat_diff_distrib')

lemma num_text_no_width: "w \<le> 1 \<Longrightarrow> num_text cv w pc v = num_text cv 0 pc v"
proof -
  assume "w \<le> 1"
  moreover have "0 < length (digits b n)" for b n using digits_Cons [of b n] by auto
  then have "1 \<le> int (length (digits b n))" for b n by (metis Suc_leI of_nat_1 of_nat_le_iff One_nat_def)
  ultimately have "nat (w - int (length (digits b n))) = 0" for b n by (metis diff_le_0_iff_le nat_0_iff order_trans)
  then show ?thesis by (simp add: num_text_def Let_def)
qed

lemma loop_num:
  assumes "char_at xs i = Some (conv_char cv)" "- 1 \<le> w" "w < 2 ^ 31"
  shows "vprintfmt_loop pf putch xs i (Escape (ucast pc) w p 0 a) (VInt v # ap) s =
    vprintfmt_loop pf putch xs (i + 1) Text ap (emit putch (num_text cv w pc v) s)"
proof -
  have len: "int (length (digits b (unat num))) - 2 ^ 31 \<le> w" if "2 \<le> b" for b and num :: "64 word"
    using length_digits_64 [OF that, of num] assms(2) by simp
  have pn: "printnum putch num 10 w (ucast pc) s' =
      Some (emit putch (replicate (nat (w - int (length (digits 10 (unat num))))) pc @ number 10 (unat num)) s')"
    if "unat num < 2 ^ 32" for num s'
    using printnum_ok [of 10 num w putch pc s'] that len [of 10 num] assms(3) by simp
  have p8: "printnum putch num 8 w (ucast pc) s' =
      Some (emit putch (replicate (nat (w - int (length (digits 8 (unat num))))) pc @ number 8 (unat num)) s')"
    and p16: "printnum putch num 16 w (ucast pc) s' =
      Some (emit putch (replicate (nat (w - int (length (digits 16 (unat num))))) pc @ number 16 (unat num)) s')" for num s'
    using printnum_ok [of 8 num w putch pc s'] printnum_ok [of 16 num w putch pc s'] len [of 8 num] len [of 16 num] assms(3) by simp_all
  show ?thesis
  proof (cases cv)
    case CD
    have "nat \<bar>sint v\<bar> < 2 ^ 32" using sint_ge [of v] sint_lt [of v] by (simp add: nat_less_iff)
    then show ?thesis using assms CD
      by (subst vprintfmt_loop.simps)
        (simp add: vprintfmt_step_def getint_def num_text_def Let_def sint_scast_64 pn ucast_scast_abs unat_scast_nonneg)
  next
    case CU
    then show ?thesis using assms unat_bound32 [of v]
      by (subst vprintfmt_loop.simps)
        (simp add: vprintfmt_step_def getuint_def num_text_def Let_def pn unat_ucast_64)
  next
    case CO
    then show ?thesis using assms
      by (subst vprintfmt_loop.simps)
        (simp add: vprintfmt_step_def getuint_def num_text_def Let_def p8 unat_ucast_64)
  next
    case CX
    then show ?thesis using assms
      by (subst vprintfmt_loop.simps)
        (simp add: vprintfmt_step_def getuint_def num_text_def Let_def p16 unat_ucast_64)
  qed
qed

lemma put_string_all: "0 \<notin> set p \<Longrightarrow> put_string putch False p (-1) w s = (w - int (length p), fold putch (map scast p) s)"
  by (induction p arbitrary: w s) auto

lemma loop_str:
  assumes "char_at xs i = Some 0x73" "p \<noteq> None \<longrightarrow> 0 \<notin> set (the p)"
  shows "vprintfmt_loop pf putch xs i (Escape 0x20 (-1) (-1) 0 False) (VStr p # ap) s =
    vprintfmt_loop pf putch xs (i + 1) Text ap (fold putch (out_of (PStr p)) s)"
proof -
  have "0 \<notin> set (case p of None \<Rightarrow> bytes ''(null)'' | Some xs \<Rightarrow> xs)"
    using assms(2) by (cases p) (auto simp: bytes_def)
  then show ?thesis using assms(1)
    by (subst vprintfmt_loop.simps) (simp add: vprintfmt_step_def fmt_string_def put_string_all)
qed

lemma loop_conv:
  assumes "w < 2 ^ 31"
  shows "vprintfmt_loop pf putch (pre @ (if w = 0 then [] else number 10 w) @ conv_char cv # post) (length pre)
      (Escape (ucast pc) (-1) (-1) 0 False) (VInt v # ap) s =
   vprintfmt_loop pf putch (pre @ (if w = 0 then [] else number 10 w) @ conv_char cv # post)
      (length pre + length (if w = 0 then [] else number 10 w) + 1) Text ap (emit putch (num_text cv (int w) pc v) s)"
proof (cases "w = 0")
  case True
  then show ?thesis
    using loop_num [of "pre @ conv_char cv # post" "length pre" cv "-1" pf putch pc] num_text_no_width [of "-1" cv pc v]
    by (simp add: char_at_app)
next
  case False
  have nd: "conv_char cv < 0x30 \<or> 0x39 < conv_char cv" by (cases cv) auto
  have "char_at (pre @ number 10 w @ conv_char cv # post) (length pre + length (number 10 w)) = Some (conv_char cv)"
    using char_at_app [of "pre @ number 10 w" "conv_char cv" post] by simp
  then show ?thesis
    using False assms loop_width [of w "conv_char cv" pf putch pre post "ucast pc" "-1" 0 False "VInt v # ap" s] nd
    by (simp add: loop_num)
qed

lemma loop_piece:
  assumes "piece_ok p"
  shows "vprintfmt_loop pf putch (pre @ fmt_of p @ post) (length pre) Text (args_of p @ ap) s =
    vprintfmt_loop pf putch (pre @ fmt_of p @ post) (length pre + length (fmt_of p)) Text ap (fold putch (out_of p) s)"
proof -
  have esc: "vprintfmt_loop pf putch (pre @ 0x25 # r) (length pre) Text ap s =
      vprintfmt_loop pf putch ((pre @ [0x25]) @ r) (length (pre @ [0x25])) (Escape 0x20 (-1) (-1) 0 False) ap s" for r ap s
    by (simp add: loop_escape char_at_app)
  have at: "char_at (pre @ 0x25 # c # post) (Suc (length pre)) = Some c" for c
    using char_at_app [of "pre @ [0x25]" c post] by simp
  show ?thesis
  proof (cases p)
    case (PLit c)
    then show ?thesis using assms by (simp add: loop_text char_at_app)
  next
    case PPercent
    then show ?thesis by (simp add: esc) (subst vprintfmt_loop.simps, simp add: vprintfmt_step_def at)
  next
    case (PNum cv z w v)
    let ?w = "if w = 0 then [] else number 10 w"
    have u: "(0x30 :: u32) = ucast (0x30 :: u8)" "(0x20 :: u32) = ucast (0x20 :: u8)" by simp_all
    have o: "fold putch (out_of p) s = emit putch (num_text cv (int w) (if z then 0x30 else 0x20) v) s"
      by (simp add: PNum num_out_text emit_def)
    show ?thesis
    proof (cases z)
      case True
      have "vprintfmt_loop pf putch (pre @ fmt_of p @ post) (length pre) Text (args_of p @ ap) s =
          vprintfmt_loop pf putch ((pre @ [0x25]) @ 0x30 # ?w @ conv_char cv # post) (length (pre @ [0x25]))
            (Escape 0x20 (-1) (-1) 0 False) (VInt v # ap) s"
        using esc [of "0x30 # ?w @ conv_char cv # post"] PNum True by simp
      also have "\<dots> = vprintfmt_loop pf putch ((pre @ [0x25, 0x30]) @ ?w @ conv_char cv # post) (length (pre @ [0x25, 0x30]))
            (Escape (ucast (0x30 :: u8)) (-1) (-1) 0 False) (VInt v # ap) s"
        by (subst loop_zero_flag [OF char_at_app]) simp
      also have "\<dots> = vprintfmt_loop pf putch ((pre @ [0x25, 0x30]) @ ?w @ conv_char cv # post)
            (length (pre @ [0x25, 0x30]) + length ?w + 1) Text ap (emit putch (num_text cv (int w) 0x30 v) s)"
        by (rule loop_conv) (use assms PNum in simp)
      finally show ?thesis unfolding o using PNum True by simp
    next
      case False
      have "vprintfmt_loop pf putch (pre @ fmt_of p @ post) (length pre) Text (args_of p @ ap) s =
          vprintfmt_loop pf putch ((pre @ [0x25]) @ ?w @ conv_char cv # post) (length (pre @ [0x25]))
            (Escape (ucast (0x20 :: u8)) (-1) (-1) 0 False) (VInt v # ap) s"
        using esc [of "?w @ conv_char cv # post"] PNum False by simp
      also have "\<dots> = vprintfmt_loop pf putch ((pre @ [0x25]) @ ?w @ conv_char cv # post)
            (length (pre @ [0x25]) + length ?w + 1) Text ap (emit putch (num_text cv (int w) 0x20 v) s)"
        by (rule loop_conv) (use assms PNum in simp)
      finally show ?thesis unfolding o using PNum False by simp
    qed
  next
    case (PPtr v)
    have "printnum putch (ucast v) 16 (-1) 0x20 s' = Some (emit putch (number 16 (unat v)) s')" for s'
      using printnum_ok [of 16 "ucast v" "-1" putch "0x20" s'] length_digits_64 [of 16 "ucast v"] by (simp add: unat_ucast_64)
    then show ?thesis using PPtr
      by (simp add: esc) (subst vprintfmt_loop.simps, simp add: vprintfmt_step_def at emit_def)
  next
    case (PChr v)
    then show ?thesis by (simp add: esc) (subst vprintfmt_loop.simps, simp add: vprintfmt_step_def at)
  next
    case (PStr q)
    then have "q \<noteq> None \<longrightarrow> 0 \<notin> set (the q)" using assms by (cases q) auto
    then show ?thesis using PStr by (simp add: esc loop_str [OF at])
  qed
qed

lemma loop_pieces:
  assumes "\<forall>p \<in> set ps. piece_ok p"
  shows "vprintfmt_loop pf putch (pre @ concat (map fmt_of ps)) (length pre) Text (concat (map args_of ps) @ ap) s =
    Some (fold putch (concat (map out_of ps)) s)"
  using assms
proof (induction ps arbitrary: pre s)
  case Nil
  then show ?case by (simp add: loop_end char_at_def)
next
  case (Cons p ps)
  have "vprintfmt_loop pf putch (pre @ fmt_of p @ concat (map fmt_of ps)) (length pre) Text
      (args_of p @ concat (map args_of ps) @ ap) s =
    vprintfmt_loop pf putch ((pre @ fmt_of p) @ concat (map fmt_of ps)) (length (pre @ fmt_of p)) Text
      (concat (map args_of ps) @ ap) (fold putch (out_of p) s)"
    using loop_piece [of p] Cons.prems by simp
  also have "\<dots> = Some (fold putch (concat (map out_of ps)) (fold putch (out_of p) s))"
    by (rule Cons.IH) (use Cons.prems in simp)
  finally show ?case by simp
qed

text \<open>The formats that \<open>%e\<close> uses, and that a nesting depth of one is enough for it.\<close>

definition error_text :: "u32 \<Rightarrow> u32 list" where
  "error_text err = (let err = (if sint err < 0 then - err else err) in
     case (if sint err > MAXERROR then None else error_string ! nat (sint err)) of
       None \<Rightarrow> map ucast (bytes ''error '' @ num_text CD 0 0x20 err)
     | Some p \<Rightarrow> map scast p)"

lemma fmt_error_ok:
  assumes "sint err \<noteq> - (2 ^ 31)" "\<And>ps s. \<forall>p \<in> set ps. piece_ok p \<Longrightarrow>
    pf (concat (map fmt_of ps)) (concat (map args_of ps)) s = Some (fold putch (concat (map out_of ps)) s)"
  shows "fmt_error pf err s = Some (fold putch (error_text err) s)"
proof -
  define e where "e = (if sint err < 0 then - err else err)"
  have e: "0 \<le> sint e"
  proof (cases "sint err < 0")
    case True
    then have "sint (- err) = - sint err"
      using assms(1) sint_ge [of err] sint_lt [of err] by (simp add: sint_word_ariths signed_take_bit_int_eq_self_iff)
    then show ?thesis using True by (simp add: e_def)
  qed (simp add: e_def)
  have "bytes ''error %d'' = concat (map fmt_of (map PLit (bytes ''error '') @ [PNum CD False 0 e]))"
    by (simp add: bytes_def)
  moreover have "\<forall>p \<in> set (map PLit (bytes ''error '') @ [PNum CD False 0 e]). piece_ok p"
    by (simp add: bytes_def)
  moreover have "concat (map args_of (map PLit (bytes ''error '') @ [PNum CD False 0 e])) = [VInt e]"
    by (simp add: bytes_def)
  moreover have "concat (map out_of (map PLit (bytes ''error '') @ [PNum CD False 0 e])) =
      map ucast (bytes ''error '' @ num_text CD 0 0x20 e)"
    by (simp add: bytes_def num_out_text)
  ultimately have n: "pf (bytes ''error %d'') [VInt e] s = Some (fold putch (map ucast (bytes ''error '' @ num_text CD 0 0x20 e)) s)"
    using assms(2) [of "map PLit (bytes ''error '') @ [PNum CD False 0 e]" s] by metis
  have str: "pf (bytes ''%s'') [VStr (Some p)] s = Some (fold putch (map scast p) s)" if "0 \<notin> set p" for p
    using assms(2) [of "[PStr (Some p)]" s] that by (simp add: bytes_def)
  have nz: "0 \<notin> set p" if "Some p \<in> set error_string" for p
    using that by (auto simp: error_string_def bytes_def)
  have "Some p \<in> set error_string" if "\<not> sint e > MAXERROR" "error_string ! nat (sint e) = Some p" for p
    using that e nth_mem [of "nat (sint e)" error_string] by (simp add: MAXERROR_def error_string_def)
  then show ?thesis using n str nz e
    by (auto simp: fmt_error_def error_text_def Let_def simp flip: e_def split: option.splits)
qed

lemma loop_error:
  assumes "char_at xs i = Some 0x65" "fmt_error pf err s = Some s'"
  shows "vprintfmt_loop pf putch xs i (Escape pc w p l a) (VInt err # ap) s = vprintfmt_loop pf putch xs (i + 1) Text ap s'"
  using assms by (subst vprintfmt_loop.simps) (simp add: vprintfmt_step_def)

lemma vprintfmt_pieces_at:
  "\<forall>p \<in> set ps. piece_ok p \<Longrightarrow>
   vprintfmt_at d putch (concat (map fmt_of ps)) (concat (map args_of ps)) s = Some (fold putch (concat (map out_of ps)) s)"
  using loop_pieces [of ps _ putch "[]" "[]" s] by (cases d) auto

lemma vprintfmt_error:
  assumes "sint err \<noteq> - (2 ^ 31)"
  shows "vprintfmt putch [0x25, 0x65] [VInt err] s = Some (fold putch (error_text err) s)"
proof -
  have "fmt_error (vprintfmt_at 0 putch) err s = Some (fold putch (error_text err) s)"
    using assms vprintfmt_pieces_at by (rule fmt_error_ok)
  then show ?thesis
    by (simp add: vprintfmt_def loop_escape char_at_def loop_error loop_end del: vprintfmt_at.simps(1))
qed

text \<open>
  C27: a format made of literal text, \<open>%%\<close>, the conversions \<open>%d\<close>, \<open>%u\<close>, \<open>%o\<close>, \<open>%x\<close> with an optional zero flag
  and field width, \<open>%p\<close>, \<open>%c\<close> and \<open>%s\<close>, called with the matching arguments, makes \<open>vprintfmt\<close> return, having passed to
  \<open>putch\<close> exactly the characters of the pieces in order: numbers in their base without leading zeros, padded on the
  left to the field width (which does not count the sign, printed before the padding), and \<open>(null)\<close> for a null string;
  \<open>%e\<close> prints the message of an error code or its number.
\<close>

theorem vprintfmt_correct:
  assumes "\<forall>p \<in> set ps. piece_ok p" "sint err \<noteq> - (2 ^ 31)"
  shows "vprintfmt putch (concat (map fmt_of ps)) (concat (map args_of ps)) s = Some (fold putch (concat (map out_of ps)) s) \<and>
    vprintfmt putch (bytes ''%e'') [VInt err] s = Some (fold putch (error_text err) s)"
proof
  show "vprintfmt putch (concat (map fmt_of ps)) (concat (map args_of ps)) s = Some (fold putch (concat (map out_of ps)) s)"
    unfolding vprintfmt_def by (rule vprintfmt_pieces_at [OF assms(1)])
  have "bytes ''%e'' = [0x25, 0x65]" by (simp add: bytes_def)
  then show "vprintfmt putch (bytes ''%e'') [VInt err] s = Some (fold putch (error_text err) s)"
    using vprintfmt_error [OF assms(2)] by metis
qed

theorem vprintfmt_correct_witness:
  "vprintfmt (\<lambda>c cs. cs @ [c]) (bytes ''x=%04d!'') [VInt 42] [] = Some (map of_char ''x=0042!'') \<and>
   vprintfmt (\<lambda>c cs. cs @ [c]) (bytes ''%e'') [VInt (- 4)] [] = Some (map of_char ''out of memory'')"
proof -
  let ?ps = "[PLit 0x78, PLit 0x3D, PNum CD True 4 42, PLit 0x21]"
  have d: "digits 10 42 = [4, 2]" "digits 10 4 = [4]" by (simp_all add: digits.simps)
  have f: "concat (map fmt_of ?ps) = bytes ''x=%04d!''" by (simp add: bytes_def number_def dig_byte_def d)
  have a: "concat (map args_of ?ps) = [VInt 42]" by simp
  have "num_out CD True 4 42 = [0x30, 0x30, 0x34, 0x32]"
    by (simp add: num_out_def Let_def number_def dig_byte_def d numeral_2_eq_2)
  then have "fold (\<lambda>c cs. cs @ [c]) (concat (map out_of ?ps)) [] = map of_char ''x=0042!''" by simp
  moreover have "fold (\<lambda>c cs. cs @ [c]) (error_text (- 4)) [] = map of_char ''out of memory''"
    by (simp add: error_text_def error_string_def MAXERROR_def bytes_def)
  moreover have "\<forall>p \<in> set ?ps. piece_ok p" by simp
  ultimately show ?thesis
    using vprintfmt_correct [of ?ps "- 4" "\<lambda>c cs. cs @ [c]" "[]"] unfolding f a by simp
qed

section \<open>Output sinks\<close>

text \<open>The interpreter does not look at the state of its output routine: a map between the states of two output
  routines that commutes with printing one character commutes with every format.\<close>

lemma do_div_decreases:
  assumes "base \<in> {8, 10, 16}" "ucast base \<le> num"
  shows "unat (snd (do_div num base)) < unat num"
proof (cases "base = 10 \<and> \<not> unat num < 2 ^ 32")
  case True
  have "snd (do_div num 10) = ucast w \<Longrightarrow> unat (snd (do_div num 10)) < 2 ^ 32" for w :: u32
    using unat_ucast_64 [of w] unat_bound32 [of w] by metis
  moreover have "\<exists>w :: u32. snd (do_div num 10) = ucast w" by (auto simp: do_div_def Let_def)
  ultimately show ?thesis using True by fastforce
next
  case False
  have "unat base \<le> unat num" using assms(2) by (simp only: word_le_nat_alt unat_ucast_64)
  moreover have "2 \<le> unat base" using assms(1) by auto
  moreover have "unat (snd (do_div num base)) = unat num div unat base" using False assms(1) by (intro do_div_parts) auto
  ultimately show ?thesis by simp
qed

locale char_sink =
  fixes putch :: "u32 \<Rightarrow> 's \<Rightarrow> 's" and putch' :: "u32 \<Rightarrow> 't \<Rightarrow> 't" and h :: "'s \<Rightarrow> 't"
  assumes hom: "h (putch c s) = putch' c (h s)"
begin

lemma put_n_hom: "put_n putch' c n (h s) = h (put_n putch c n s)"
  by (induction n arbitrary: s) (auto simp flip: hom)

lemma put_string_hom:
  "put_string putch' a p pr w (h s) = (fst (put_string putch a p pr w s), h (snd (put_string putch a p pr w s)))"
  by (induction p arbitrary: pr w s) (auto simp flip: hom)

lemma fmt_string_hom: "fmt_string putch' padc w pr a p (h s) = h (fmt_string putch padc w pr a p s)"
  by (simp add: fmt_string_def put_string_hom put_n_hom Let_def split_beta)

lemma printnum_hom:
  assumes "base \<in> {8, 10, 16}"
  shows "printnum putch' num base w padc (h s) = map_option h (printnum putch num base w padc s)"
proof (induction "unat num" arbitrary: num w rule: less_induct)
  case less
  have IH: "printnum putch' (snd (do_div num base)) base (int32 (w - 1)) padc (h s) =
      map_option h (printnum putch (snd (do_div num base)) base (int32 (w - 1)) padc s)" if "ucast base \<le> num"
    by (rule less) (rule do_div_decreases [OF assms that])
  show ?case
  proof (cases "ucast base \<le> num")
    case True
    then show ?thesis
      unfolding printnum.simps [of _ num base] using IH [OF True]
      by (cases "printnum putch (snd (do_div num base)) base (int32 (w - 1)) padc s"; cases "digit_char (fst (do_div num base))")
        (simp_all add: hom split_beta)
  next
    case False
    then show ?thesis
      unfolding printnum.simps [of _ num base]
      by (cases "digit_char (fst (do_div num base))") (simp_all add: hom split_beta put_n_hom)
  qed
qed

lemma fmt_error_hom:
  assumes "\<And>f ap s. pf' f ap (h s) = map_option h (pf f ap s)"
  shows "fmt_error pf' err (h s) = map_option h (fmt_error pf err s)"
  by (simp add: fmt_error_def assms Let_def split: option.splits)

lemma step_hom:
  assumes "\<And>f ap s. pf' f ap (h s) = map_option h (pf f ap s)"
  shows "vprintfmt_step pf' putch' xs i md ap (h s) = map_option (map_pstep h) (vprintfmt_step pf putch xs i md ap s)"
proof -
  have num: "Option.bind (printnum putch' num b w padc (h s)) (\<lambda>s. Some (Goto j Text ap s)) =
      map_option (map_pstep h) (Option.bind (printnum putch num b w padc s) (\<lambda>s. Some (Goto j Text ap s)))"
    if "b \<in> {8, 10, 16}" for num b w padc j ap s
    using printnum_hom [OF that, of num w padc s] by (cases "printnum putch num b w padc s") simp_all
  have err: "Option.bind (fmt_error pf' e (h s)) (\<lambda>s. Some (Goto j Text ap s)) =
      map_option (map_pstep h) (Option.bind (fmt_error pf e s) (\<lambda>s. Some (Goto j Text ap s)))" for e j ap
    using fmt_error_hom [where pf' = pf' and pf = pf, OF assms, of e s] by (cases "fmt_error pf e s") simp_all
  show ?thesis
  proof (cases "char_at xs i")
    case None
    then show ?thesis by (simp add: vprintfmt_step_def)
  next
    case (Some ch)
    show ?thesis
    proof (cases md)
      case Text
      then show ?thesis using Some by (simp add: vprintfmt_step_def hom)
    next
      case (Escape padc w pr l a)
      show ?thesis
        unfolding vprintfmt_step_def Some Escape
        by (simp add: Let_def num err fmt_string_hom map_option_bind case_prod_unfold o_def
            if_distrib [of "map_option (map_pstep h)"] flip: hom cong: if_cong)
    qed
  qed
qed

lemma loop_hom:
  assumes "\<And>f ap s. pf' f ap (h s) = map_option h (pf f ap s)"
  shows "vprintfmt_loop pf' putch' xs i md ap (h s) = map_option h (vprintfmt_loop pf putch xs i md ap s)"
proof (induction pf0 \<equiv> pf putch0 \<equiv> putch xs i md ap s rule: vprintfmt_loop.induct)
  case (1 xs i md ap s)
  note st = step_hom [where pf' = pf' and pf = pf, OF assms, of xs i md ap s]
  show ?case
  proof (cases "vprintfmt_step pf putch xs i md ap s")
    case None
    then show ?thesis using st by (simp add: vprintfmt_loop.simps [of _ _ xs i md ap])
  next
    case (Some r)
    show ?thesis
    proof (cases r)
      case (Done s')
      then show ?thesis using Some st by (simp add: vprintfmt_loop.simps [of _ _ xs i md ap])
    next
      case (Goto j md' ap' s')
      have "vprintfmt_loop pf' putch' xs j md' ap' (h s') = map_option h (vprintfmt_loop pf putch xs j md' ap' s')"
        by (rule 1) (use Some Goto in auto)
      then show ?thesis using Some Goto st by (simp add: vprintfmt_loop.simps [of _ _ xs i md ap])
    qed
  qed
qed

lemma vprintfmt_hom: "vprintfmt putch' fmt ap (h s) = map_option h (vprintfmt putch fmt ap s)"
proof -
  have "vprintfmt_at d putch' fmt ap (h s) = map_option h (vprintfmt_at d putch fmt ap s)" for d fmt ap s
    by (induction d arbitrary: fmt ap s) (simp_all add: loop_hom)
  then show ?thesis by (simp add: vprintfmt_def)
qed

end

interpretation sb: char_sink "\<lambda>c cs. cs @ [c]" sprintputch "\<lambda>cs. fold sprintputch cs bm" for bm
  by unfold_locales simp

lemma write_mem_snoc:
  assumes "length xs < 2 ^ 32"
  shows "write_mem a (xs @ [x]) m = (write_mem a xs m)(a + of_nat (length xs) := x)"
proof
  fix y
  have "y = a + of_nat (length xs) \<longleftrightarrow> unat (y - a) = length xs"
  proof
    assume "unat (y - a) = length xs"
    then have "y - a = of_nat (length xs)" by (metis unat_inverse_u)
    then show "y = a + of_nat (length xs)" by (simp add: algebra_simps)
  qed (use assms in \<open>simp add: unat_of_nat_small\<close>)
  then show "write_mem a (xs @ [x]) m y = ((write_mem a xs m)(a + of_nat (length xs) := x)) y"
    by (auto simp: write_mem_def nth_append)
qed

lemma fold_sprintputch:
  assumes "str \<le> e"
  shows "fold sprintputch cs (\<lparr>sb_buf = str, sb_ebuf = e, sb_cnt = 0\<rparr>, m) =
    (\<lparr>sb_buf = str + of_nat (min (length cs) (unat (e - str))), sb_ebuf = e, sb_cnt = int32 (int (length cs))\<rparr>,
     write_mem str (map ucast (take (unat (e - str)) cs)) m)"
proof (induction cs rule: rev_induct)
  case Nil
  then show ?case by (simp add: write_mem_def)
next
  case (snoc c cs)
  let ?k = "unat (e - str)" and ?n = "length cs"
  have k: "unat e = unat str + ?k" using assms by (simp add: unat_sub word_le_nat_alt)
  have kb: "?k < 2 ^ 32" by (rule unat_bound32)
  have lt: "str + of_nat (min ?n ?k) < e \<longleftrightarrow> ?n < ?k"
  proof -
    have "unat (str + of_nat (min ?n ?k)) = unat str + min ?n ?k"
      using k unat_bound32 [of e] by (intro unat_add_of_nat) linarith
    then show ?thesis using k by (auto simp: word_less_nat_alt)
  qed
  show ?case
  proof (cases "?n < ?k")
    case True
    then show ?thesis using lt snoc kb
      by (simp add: sprintputch_def Let_def write_mem_snoc algebra_simps fun_upd_def)
  next
    case False
    then show ?thesis using lt snoc by (simp add: sprintputch_def Let_def add.commute)
  qed
qed

lemma vsnprintf_ok:
  assumes "vprintfmt (\<lambda>c cs. cs @ [c]) fmt ap [] = Some cs" "str \<noteq> 0" "sz \<noteq> 0" "unat str + unat sz \<le> 2 ^ 32"
  shows "vsnprintf str sz fmt ap m =
    Some (int32 (int (length cs)), write_mem str (map ucast (take (unat sz - 1) cs) @ [0]) m)"
proof -
  let ?e = "str + sz - 1"
  have e: "unat ?e = unat str + unat sz - 1" using assms(3,4) by (rule unat_ROUNDUP_pre)
  have "0 < unat sz" using assms(3) by (simp add: unat_gt_0)
  then have le: "str \<le> ?e" and d: "unat (?e - str) = unat sz - 1"
    using e by (simp_all add: word_le_nat_alt unat_sub)
  let ?b = "\<lparr>sb_buf = str, sb_ebuf = ?e, sb_cnt = 0\<rparr>"
  have "vprintfmt sprintputch fmt ap (?b, m) = Some (fold sprintputch cs (?b, m))"
    using sb.vprintfmt_hom [where bm = "(?b, m)" and s = "[]", of fmt ap] assms(1) by simp
  moreover have "length (take (unat sz - 1) cs) < 2 ^ 32" using unat_bound32 [of sz] by simp
  moreover have "\<not> ?e < str" using le by (simp add: not_less)
  ultimately show ?thesis
    unfolding vsnprintf_def fold_sprintputch [OF le] d using assms(2)
    by (simp add: Let_def write_mem_snoc)
qed

text \<open>
  C28: \<open>vsnprintf\<close> with a buffer of \<open>sz > 0\<close> bytes stores the first \<open>sz - 1\<close> characters of the output and a
  terminating zero, touches no byte outside of the buffer, and returns the length of the whole output reduced to the
  32-bit signed counter of the source, which is the length itself as long as the output has fewer than \<open>2 ^ 31\<close>
  characters; without a buffer or with size zero it returns \<open>- E_INVAL\<close> and writes nothing.
\<close>

theorem vsnprintf_bounded:
  assumes "vprintfmt (\<lambda>c cs. cs @ [c]) fmt ap [] = Some cs" "str \<noteq> 0" "sz \<noteq> 0" "unat str + unat sz \<le> 2 ^ 32"
  shows "\<exists>r m'. vsnprintf str sz fmt ap m = Some (r, m') \<and> r = int32 (int (length cs)) \<and>
    (length cs < 2 ^ 31 \<longrightarrow> r = int (length cs)) \<and>
    (\<forall>i < min (length cs) (unat sz - 1). m' (str + of_nat i) = ucast (cs ! i)) \<and>
    m' (str + of_nat (min (length cs) (unat sz - 1))) = 0 \<and>
    (\<forall>a. \<not> (str \<le> a \<and> unat a < unat str + unat sz) \<longrightarrow> m' a = m a) \<and>
    vsnprintf 0 sz fmt ap m = Some (- E_INVAL, m) \<and> vsnprintf str 0 fmt ap m = Some (- E_INVAL, m)"
proof -
  let ?n = "min (length cs) (unat sz - 1)"
  let ?bs = "map ucast (take (unat sz - 1) cs) @ [0]"
  let ?m = "write_mem str ?bs m"
  have len: "length ?bs = ?n + 1" by simp
  have pos: "0 < unat sz" using assms(3) by (simp add: unat_gt_0)
  have at: "?m (str + of_nat i) = ?bs ! i" if "i \<le> ?n" for i
  proof -
    have "i < 2 ^ 32" using that unat_bound32 [of sz] by linarith
    then show ?thesis using that unfolding write_mem_def len by (auto simp: unat_of_nat_small)
  qed
  have "?m a = m a" if "\<not> (str \<le> a \<and> unat a < unat str + unat sz)" for a
  proof -
    have "\<not> unat (a - str) < ?n + 1"
    proof
      assume h: "unat (a - str) < ?n + 1"
      have "unat (a - str) + unat str < 2 ^ 32" using h pos assms(4) by linarith
      then have "unat (a - str + str) = unat (a - str) + unat str" by (rule unat_add_no_wrap)
      then have "unat a = unat (a - str) + unat str" by simp
      then show False using that h pos by (simp add: word_le_nat_alt)
    qed
    then show ?thesis by (simp add: write_mem_def)
  qed
  moreover have "\<forall>i < ?n. ?m (str + of_nat i) = ucast (cs ! i)" using at by (simp add: nth_append)
  moreover have "?m (str + of_nat ?n) = 0" using at [of ?n] by (simp add: nth_append)
  moreover have "str - 1 < str" using assms(2) by (simp add: word_less_nat_alt unat_minus_one unat_gt_0)
  then have "vsnprintf str 0 fmt ap m = Some (- E_INVAL, m)" by (simp add: vsnprintf_def)
  moreover have "vsnprintf 0 sz fmt ap m = Some (- E_INVAL, m)" by (simp add: vsnprintf_def)
  moreover have "length cs < 2 ^ 31 \<longrightarrow> int32 (int (length cs)) = int (length cs)" by (simp add: int32_id)
  ultimately show ?thesis using vsnprintf_ok [OF assms] by blast
qed

theorem vsnprintf_bounded_witness:
  "\<exists>m'. vsnprintf 100 3 [0x61, 0x62, 0x63, 0x64] [] (\<lambda>_. 7) = Some (4, m') \<and>
     m' 100 = 0x61 \<and> m' 101 = 0x62 \<and> m' 102 = 0 \<and> m' 103 = 7"
proof -
  let ?ps = "map PLit [0x61, 0x62, 0x63, 0x64]"
  have "vprintfmt (\<lambda>c cs. cs @ [c]) (concat (map fmt_of ?ps)) (concat (map args_of ?ps)) [] =
      Some (fold (\<lambda>c cs. cs @ [c]) (concat (map out_of ?ps)) [])"
    unfolding vprintfmt_def by (rule vprintfmt_pieces_at) simp
  then have "vprintfmt (\<lambda>c cs. cs @ [c]) [0x61, 0x62, 0x63, 0x64] [] [] = Some [0x61, 0x62, 0x63, 0x64]" by simp
  from vsnprintf_bounded [OF this, of 100 3 "\<lambda>_. 7"] obtain m' where
    r: "vsnprintf 100 3 [0x61, 0x62, 0x63, 0x64] [] (\<lambda>_. 7) = Some (4, m')" "m' 102 = 0" "m' 103 = 7"
    and in_buf: "\<forall>i < 2. m' (100 + of_nat i) = ucast ([0x61, 0x62, 0x63, 0x64 :: u32] ! i)"
    by (auto simp: word_le_nat_alt)
  have "m' 100 = 0x61" "m' 101 = 0x62" using in_buf [rule_format, of 0] in_buf [rule_format, of 1] by simp_all
  then show ?thesis using r by blast
qed

section \<open>Printing and reading back\<close>

lemma digit_value_zero: "digit_value 0 = None"
  by (simp add: digit_value_def)

lemma unat_dig_byte: "d < 16 \<Longrightarrow> unat (dig_byte d) = (if d < 10 then 48 + d else 87 + d)"
  by (simp add: dig_byte_def unat_of_nat del: of_nat_add)

lemma digit_value_dig_byte: "d < 16 \<Longrightarrow> digit_value (dig_byte d) = Some (int d)"
proof -
  assume d: "d < 16"
  have "uint (dig_byte d) = int (if d < 10 then 48 + d else 87 + d)" using unat_dig_byte [OF d] by (metis uint_nat)
  then show ?thesis using unat_dig_byte [OF d] d by (simp add: digit_value_def word_le_nat_alt)
qed

lemma strtol_digits_ok:
  assumes "cstring m s (map dig_byte ds)" "\<forall>d \<in> set ds. d < b" "b \<le> 16"
  shows "strtol_digits m (int b) s (of_nat v) =
    Some (of_nat (foldl (\<lambda>p d. p * b + d) v ds), s + of_nat (length ds))"
  using assms(1,2)
proof (induction ds arbitrary: s v)
  case Nil
  then show ?case by (simp add: strtol_digits.simps digit_value_zero)
next
  case (Cons d ds)
  have "digit_value (m s) = Some (int d)" using Cons.prems assms(3) by (simp add: digit_value_dig_byte)
  moreover have "strtol_digits m (int b) (s + 1) (of_nat (v * b + d)) =
      Some (of_nat (foldl (\<lambda>p d. p * b + d) (v * b + d) ds), s + 1 + of_nat (length ds))"
    by (rule Cons.IH) (use Cons.prems in simp_all)
  ultimately show ?case using Cons.prems by (subst strtol_digits.simps) (simp add: add.assoc)
qed

lemma cstring_write_mem:
  assumes "0 \<notin> set xs" "length xs < 2 ^ 32"
  shows "cstring (write_mem a (xs @ [0]) m) a xs"
proof -
  have "unat (of_nat i :: u32) = i" if "i \<le> length xs" for i using that assms(2) by (simp add: unat_of_nat_small)
  then show ?thesis using assms(1) unfolding cstring_nth by (auto simp: write_mem_def nth_append in_set_conv_nth)
qed

lemma dig_byte_range: "d < 16 \<Longrightarrow> 0x30 \<le> dig_byte d \<and> dig_byte d \<le> 0x66"
  using unat_dig_byte [of d] by (simp add: word_le_nat_alt)

lemma number_first:
  assumes "2 \<le> b" "b \<le> 16"
  shows "\<exists>c cs. number b n = c # cs \<and> 0x30 \<le> c" "\<forall>c \<in> set (number b n). c \<noteq> 0 \<and> c \<noteq> 0x78"
proof -
  have r: "0x30 \<le> c \<and> c \<le> 0x66" if "c \<in> set (number b n)" for c
    using that digits_less [OF assms(1)] assms(2) dig_byte_range unfolding number_def by fastforce
  then show "\<forall>c \<in> set (number b n). c \<noteq> 0 \<and> c \<noteq> 0x78" by fastforce
  obtain d ds where "digits b n = d # ds" using digits_Cons by blast
  then show "\<exists>c cs. number b n = c # cs \<and> 0x30 \<le> c" using r by (auto simp: number_def)
qed

lemma strtol_number:
  assumes "cstring m s (number b n)" "2 \<le> b" "b \<le> 16"
  shows "strtol m s (int b) = Some (of_nat n, s + of_nat (length (number b n)))"
    and "m s' = 0x2D \<Longrightarrow> s = s' + 1 \<Longrightarrow> strtol m s' (int b) = Some (- of_nat n, s + of_nat (length (number b n)))"
proof -
  obtain c cs where c: "number b n = c # cs" "0x30 \<le> c" using number_first(1) [OF assms(2,3)] by blast
  have ms: "m s = c" using assms(1) c(1) by simp
  have "m (s + 1) = 0 \<or> m (s + 1) \<in> set (number b n)" using assms(1) c(1) by (cases cs) auto
  then have "m (s + 1) \<noteq> 0x78" using number_first(2) [OF assms(2,3)] by auto
  then have base: "strtol_base m s (int b) = (s, int b)" using assms(2) by (simp add: strtol_base_def)
  have dg: "strtol_digits m (int b) s 0 = Some (of_nat n, s + of_nat (length (number b n)))"
    using strtol_digits_ok [of m s "digits b n" b 0] assms digits_less [OF assms(2)] digits_value [OF assms(2)]
    by (simp add: number_def)
  have ne: "c \<noteq> 0x20" "c \<noteq> 0x09" "c \<noteq> 0x2B" "c \<noteq> 0x2D" using c(2) by auto
  have "skip_white m s = Some s" using ne ms by (subst skip_white.simps) simp
  then show "strtol m s (int b) = Some (of_nat n, s + of_nat (length (number b n)))"
    using ne ms base dg by (simp add: strtol_def)
  assume s': "m s' = 0x2D" "s = s' + 1"
  then have "skip_white m s' = Some s'" by (subst skip_white.simps) simp
  then show "strtol m s' (int b) = Some (- of_nat n, s + of_nat (length (number b n)))"
    using s' base dg by (simp add: strtol_def)
qed

lemma num_text_int32: "int32 (int (length (num_text cv 0 pc v))) = int (length (num_text cv 0 pc v))"
proof -
  define n where "n = (if cv = CD then nat \<bar>sint v\<bar> else unat v)"
  have t: "num_text cv 0 pc v = (if cv = CD \<and> sint v < 0 then [0x2D] else []) @ number (conv_base cv) n"
    by (simp add: num_text_def n_def Let_def)
  have "n < 2 ^ 32" using sint_ge [of v] sint_lt [of v] unat_bound32 [of v] by (auto simp: n_def)
  then have "length (num_text cv 0 pc v) \<le> 34"
    using length_digits [of "conv_base cv" n 32] unfolding t number_def by (cases cv; cases "sint v < 0") auto
  then show ?thesis by (intro int32_id) simp_all
qed

lemma snprintf_number:
  assumes "str \<noteq> 0" "sz \<noteq> 0" "unat str + unat sz \<le> 2 ^ 32" "length (num_text cv 0 0x20 v) < unat sz"
  shows "snprintf str sz [0x25, conv_char cv] [VInt v] m =
    Some (int (length (num_text cv 0 0x20 v)), write_mem str (num_text cv 0 0x20 v @ [0]) m)"
proof -
  let ?t = "num_text cv 0 0x20 v"
  have "vprintfmt (\<lambda>c cs. cs @ [c]) (concat (map fmt_of [PNum cv False 0 v])) (concat (map args_of [PNum cv False 0 v])) [] =
      Some (fold (\<lambda>c cs. cs @ [c]) (concat (map out_of [PNum cv False 0 v])) [])"
    unfolding vprintfmt_def by (rule vprintfmt_pieces_at) simp
  moreover have app: "fold (\<lambda>c cs. cs @ [c]) xs ys = ys @ xs" for xs ys :: "u32 list"
    by (induction xs arbitrary: ys) auto
  ultimately have "vprintfmt (\<lambda>c cs. cs @ [c]) [0x25, conv_char cv] [VInt v] [] = Some (map ucast ?t)"
    by (simp add: num_out_text)
  note vs = vsnprintf_ok [OF this assms(1-3), of m]
  have "ucast (ucast x :: u32) = x" for x :: u8 by (rule bit_word_eqI) (auto simp: bit_ucast_iff)
  then have "map ucast (map ucast ?t :: u32 list) = ?t" by (simp add: o_def)
  then show ?thesis using vs assms(4) by (simp add: snprintf_def num_text_int32)
qed

text \<open>
  C29: printing any 32-bit number with \<open>%d\<close>, \<open>%u\<close>, \<open>%o\<close> or \<open>%x\<close> into a buffer that is large enough and reading the
  buffer with \<open>strtol\<close> in the same base gives the number back and stops at the terminating zero.
\<close>

theorem snprintf_strtol_roundtrip:
  assumes "str \<noteq> 0" "sz \<noteq> 0" "unat str + unat sz \<le> 2 ^ 32" "length (num_text cv 0 0x20 v) < unat sz"
  shows "\<exists>m' n. snprintf str sz [0x25, conv_char cv] [VInt v] m = Some (n, m') \<and>
    strtol m' str (int (conv_base cv)) = Some (v, str + of_int n) \<and> m' (str + of_int n) = 0"
proof -
  let ?t = "num_text cv 0 0x20 v"
  have b: "2 \<le> conv_base cv" "conv_base cv \<le> 16" by (cases cv; simp)+
  let ?m = "write_mem str (?t @ [0]) m"
  note r = snprintf_number [OF assms, of m]
  define n where "n = (if cv = CD then nat \<bar>sint v\<bar> else unat v)"
  have t: "?t = (if cv = CD \<and> sint v < 0 then [0x2D] else []) @ number (conv_base cv) n"
    by (simp add: num_text_def n_def Let_def)
  have "0 \<notin> set ?t" using number_first(2) [OF b] unfolding t by auto
  then have cs: "cstring ?m str ?t" using assms(4) unat_bound32 [of sz] by (intro cstring_write_mem) linarith+
  have "strtol ?m str (int (conv_base cv)) = Some (v, str + of_nat (length ?t))"
  proof (cases "cv = CD \<and> sint v < 0")
    case True
    then have "cstring ?m (str + 1) (number (conv_base cv) n)" "?m str = 0x2D" using cs unfolding t by auto
    moreover have "- of_nat n = v"
    proof -
      have "of_nat n = (of_int (- sint v) :: u32)" using True by (simp add: n_def)
      then show ?thesis by simp
    qed
    ultimately show ?thesis
      using strtol_number(2) [OF _ b, of ?m "str + 1" n str] True unfolding t by (simp add: add.assoc)
  next
    case False
    then have tn: "?t = number (conv_base cv) n" unfolding t by auto
    then have "cstring ?m str (number (conv_base cv) n)" using cs by simp
    moreover have "of_nat n = v"
    proof (cases "cv = CD")
      case True
      then have "of_nat n = (of_int (sint v) :: u32)" using False by (simp add: n_def)
      then show ?thesis by simp
    qed (simp add: n_def)
    ultimately show ?thesis using strtol_number(1) [OF _ b, of ?m str n] tn by simp
  qed
  moreover have "?m (str + of_nat (length ?t)) = 0" using cs by (simp add: cstring_nth)
  ultimately show ?thesis using r by (metis of_int_of_nat_eq)
qed

theorem snprintf_strtol_roundtrip_witness:
  "\<exists>m' n. snprintf 100 16 [0x25, 0x64] [VInt (- 42)] (\<lambda>_. 0) = Some (n, m') \<and>
     strtol m' 100 10 = Some (- 42, 100 + of_int n)"
proof -
  have "digits 10 42 = [4, 2]" by (simp add: digits.simps)
  then have "length (num_text CD 0 0x20 (- 42)) < unat (16 :: u32)"
    by (simp add: num_text_def Let_def number_def)
  from snprintf_strtol_roundtrip [OF _ _ _ this, of 100 "\<lambda>_. 0"] show ?thesis by auto
qed

end
