(* ===== verification/Link_List.thy ===== *)
theory Link_List
  imports Ucore_Prelude
begin

text \<open>
  The intrusive circular doubly linked list of \<open>libs/list.h\<close>. The memory that holds
  \<open>struct list_entry\<close> objects is a store from entry addresses to records with the two pointer
  fields; every C function is a function on that store with the same field writes in the same
  order. The predicate \<open>ring s h xs\<close> says that the list with header \<open>h\<close> holds the entries \<open>xs\<close>
  in order; the lemmas show what each operation does to \<open>xs\<close>. The locale \<open>link_ops\<close> is the
  interface the clients of the list use.
\<close>

section \<open>The store and the operations\<close>

record 'p list_entry =
  le_prev :: 'p
  le_next :: 'p

type_synonym 'p links = "'p \<Rightarrow> 'p list_entry"

definition set_prev :: "'p \<Rightarrow> 'p \<Rightarrow> 'p links \<Rightarrow> 'p links" where
  "set_prev p v s = s(p := (s p)\<lparr>le_prev := v\<rparr>)"

definition set_next :: "'p \<Rightarrow> 'p \<Rightarrow> 'p links \<Rightarrow> 'p links" where
  "set_next p v s = s(p := (s p)\<lparr>le_next := v\<rparr>)"

definition list_init :: "'p \<Rightarrow> 'p links \<Rightarrow> 'p links" where
  "list_init elm s = set_prev elm elm (set_next elm elm s)"

definition list_add_raw :: "'p \<Rightarrow> 'p \<Rightarrow> 'p \<Rightarrow> 'p links \<Rightarrow> 'p links" where
  "list_add_raw elm prv nxt s =
     set_prev elm prv (set_next elm nxt (set_next prv elm (set_prev nxt elm s)))"

definition list_del_raw :: "'p \<Rightarrow> 'p \<Rightarrow> 'p links \<Rightarrow> 'p links" where
  "list_del_raw prv nxt s = set_prev nxt prv (set_next prv nxt s)"

definition list_next :: "'p links \<Rightarrow> 'p \<Rightarrow> 'p" where
  "list_next s listelm = le_next (s listelm)"

definition list_prev :: "'p links \<Rightarrow> 'p \<Rightarrow> 'p" where
  "list_prev s listelm = le_prev (s listelm)"

definition list_add_before :: "'p \<Rightarrow> 'p \<Rightarrow> 'p links \<Rightarrow> 'p links" where
  "list_add_before listelm elm s = list_add_raw elm (le_prev (s listelm)) listelm s"

definition list_add_after :: "'p \<Rightarrow> 'p \<Rightarrow> 'p links \<Rightarrow> 'p links" where
  "list_add_after listelm elm s = list_add_raw elm listelm (le_next (s listelm)) s"

definition list_add :: "'p \<Rightarrow> 'p \<Rightarrow> 'p links \<Rightarrow> 'p links" where
  "list_add listelm elm s = list_add_after listelm elm s"

definition list_del :: "'p \<Rightarrow> 'p links \<Rightarrow> 'p links" where
  "list_del listelm s = list_del_raw (le_prev (s listelm)) (le_next (s listelm)) s"

definition list_del_init :: "'p \<Rightarrow> 'p links \<Rightarrow> 'p links" where
  "list_del_init listelm s = list_init listelm (list_del listelm s)"

definition list_empty :: "'p links \<Rightarrow> 'p \<Rightarrow> bool" where
  "list_empty s lst \<longleftrightarrow> le_next (s lst) = lst"

lemmas link_defs = list_init_def list_add_raw_def list_del_raw_def list_next_def list_prev_def
  list_add_before_def list_add_after_def list_add_def list_del_def list_del_init_def list_empty_def

lemma set_prev_sel [simp]:
  "le_prev (set_prev p v s q) = (if q = p then v else le_prev (s q))"
  "le_next (set_prev p v s q) = le_next (s q)"
  by (simp_all add: set_prev_def)

lemma set_next_sel [simp]:
  "le_next (set_next p v s q) = (if q = p then v else le_next (s q))"
  "le_prev (set_next p v s q) = le_prev (s q)"
  by (simp_all add: set_next_def)

section \<open>Abstraction to lists\<close>

fun chain :: "'p links \<Rightarrow> 'p list \<Rightarrow> bool" where
  "chain s (a # b # r) \<longleftrightarrow> le_next (s a) = b \<and> le_prev (s b) = a \<and> chain s (b # r)"
| "chain s _ \<longleftrightarrow> True"

definition ring :: "'p links \<Rightarrow> 'p \<Rightarrow> 'p list \<Rightarrow> bool" where
  "ring s h xs \<longleftrightarrow> distinct (h # xs) \<and> chain s (h # xs @ [h])"

lemma chain_append:
  "chain s (xs @ a # ys) \<longleftrightarrow> chain s (xs @ [a]) \<and> chain s (a # ys)"
proof (induction xs)
  case (Cons x xs)
  then show ?case by (cases xs) auto
qed simp

lemma chain_cong:
  assumes "\<And>p. p \<in> set (butlast xs) \<Longrightarrow> le_next (t p) = le_next (s p)"
    and "\<And>p. p \<in> set (tl xs) \<Longrightarrow> le_prev (t p) = le_prev (s p)"
  shows "chain t xs \<longleftrightarrow> chain s xs"
  using assms by (induction s xs rule: chain.induct) auto

text \<open>A write to other entries leaves a ring alone.\<close>

lemma ring_frame:
  assumes "ring s h xs" and "\<And>p. p \<in> set (h # xs) \<Longrightarrow> t p = s p"
  shows "ring t h xs"
proof -
  have "chain t (h # xs @ [h]) \<longleftrightarrow> chain s (h # xs @ [h])"
    by (rule chain_cong) (use assms(2) in \<open>auto dest!: in_set_butlastD\<close>)
  with assms(1) show ?thesis by (simp add: ring_def)
qed

lemma ring_Nil: "ring s h [] \<longleftrightarrow> le_next (s h) = h \<and> le_prev (s h) = h"
  by (auto simp: ring_def)

lemma ring_init [simp]: "ring (list_init h s) h []"
  by (simp add: ring_Nil list_init_def)

text \<open>Every place of a ring is a pair of neighbours.\<close>

lemma ring_place:
  obtains zs b bs where "h # xs = zs @ [last (h # xs)]" and "ys @ [h] = b # bs"
    and "h # xs @ ys @ [h] = zs @ last (h # xs) # b # bs"
proof -
  have zs: "h # xs = butlast (h # xs) @ [last (h # xs)]" by simp
  have b: "ys @ [h] = hd (ys @ [h]) # tl (ys @ [h])" by simp
  have "h # xs @ ys @ [h] = (h # xs) @ (ys @ [h])" by simp
  also have "\<dots> = butlast (h # xs) @ last (h # xs) # hd (ys @ [h]) # tl (ys @ [h])"
    by (subst zs, subst b) simp
  finally show thesis using that [OF zs b] by simp
qed

lemma ring_neighbours:
  assumes "ring s h (xs @ ys)"
  shows "le_next (s (last (h # xs))) = hd (ys @ [h])"
    and "le_prev (s (hd (ys @ [h]))) = last (h # xs)"
proof -
  obtain zs b bs where b: "ys @ [h] = b # bs"
    and full: "h # xs @ ys @ [h] = zs @ last (h # xs) # b # bs"
    by (rule ring_place)
  from assms have "chain s (h # xs @ ys @ [h])" by (simp add: ring_def)
  then have "chain s (last (h # xs) # b # bs)"
    unfolding full chain_append [of s zs "last (h # xs)" "b # bs"] by blast
  then show "le_next (s (last (h # xs))) = hd (ys @ [h])"
    and "le_prev (s (hd (ys @ [h]))) = last (h # xs)"
    using b by simp_all
qed

text \<open>Inserting between two neighbours.\<close>

lemma chain_insert:
  assumes c: "chain s (xs @ a # b # ys)" and e: "e \<notin> set (xs @ a # b # ys)"
    and d1: "distinct (butlast (xs @ a # b # ys))" and d2: "distinct (tl (xs @ a # b # ys))"
  shows "chain (list_add_raw e a b s) (xs @ a # e # b # ys)"
proof -
  let ?t = "list_add_raw e a b s"
  from c have c1: "chain s (xs @ [a])" and c2: "chain s (b # ys)"
    by (auto simp: chain_append [of s xs a "b # ys"])
  have tl_sub: "set (tl (xs @ [a])) \<subseteq> set (xs @ [a])" by (cases xs) auto
  have "a \<notin> set xs" using d1 by (auto simp: butlast_append)
  moreover have "b \<notin> set (tl (xs @ [a]))" using d2 by (cases xs) auto
  ultimately have "chain ?t (xs @ [a]) \<longleftrightarrow> chain s (xs @ [a])"
    using e tl_sub by (intro chain_cong) (auto simp: list_add_raw_def)
  moreover have "chain ?t (b # ys) \<longleftrightarrow> chain s (b # ys)"
  proof -
    have "a \<notin> set (butlast (b # ys))" using d1 by (auto simp: butlast_append split: if_splits)
    moreover have "b \<notin> set ys" using d2 by (cases xs) auto
    ultimately show ?thesis
      using e by (intro chain_cong) (auto simp: list_add_raw_def split: if_splits dest: in_set_butlastD)
  qed
  moreover have "chain ?t (a # e # b # ys) \<longleftrightarrow> chain ?t (b # ys)"
    using e by (auto simp: list_add_raw_def)
  ultimately show ?thesis using c1 c2 by (simp only: chain_append [of ?t xs a "e # b # ys"] simp_thms)
qed

lemma ring_insert:
  assumes r: "ring s h (xs @ ys)" and e: "e \<notin> set (h # xs @ ys)"
  shows "ring (list_add_raw e (last (h # xs)) (hd (ys @ [h])) s) h (xs @ e # ys)"
proof -
  obtain zs b bs where zs: "h # xs = zs @ [last (h # xs)]" and b: "ys @ [h] = b # bs"
    and full: "h # xs @ ys @ [h] = zs @ last (h # xs) # b # bs"
    by (rule ring_place)
  from r have d: "distinct (h # xs @ ys)" and c: "chain s (zs @ last (h # xs) # b # bs)"
    using full by (auto simp: ring_def)
  have "chain (list_add_raw e (last (h # xs)) b s) (zs @ last (h # xs) # e # b # bs)"
  proof (rule chain_insert [OF c])
    show "e \<notin> set (zs @ last (h # xs) # b # bs)" unfolding full [symmetric] using e by auto
    show "distinct (butlast (zs @ last (h # xs) # b # bs))"
      unfolding full [symmetric] using d by (simp add: butlast_append)
    show "distinct (tl (zs @ last (h # xs) # b # bs))" unfolding full [symmetric] using d by auto
  qed
  moreover have "zs @ last (h # xs) # e # b # bs = h # (xs @ e # ys) @ [h]"
  proof -
    have "h # (xs @ e # ys) @ [h] = (h # xs) @ e # (ys @ [h])" by simp
    also have "\<dots> = zs @ last (h # xs) # e # b # bs" by (subst zs, subst b) simp
    finally show ?thesis by (rule sym)
  qed
  moreover have "distinct (h # xs @ e # ys)" using d e by auto
  moreover have "hd (ys @ [h]) = b" using b by simp
  ultimately show ?thesis by (simp only: ring_def simp_thms)
qed

lemma ring_list_add_after:
  "ring s h (xs @ ys) \<Longrightarrow> e \<notin> set (h # xs @ ys) \<Longrightarrow> p = last (h # xs) \<Longrightarrow>
   ring (list_add_after p e s) h (xs @ e # ys)"
  unfolding list_add_after_def by (metis ring_insert ring_neighbours(1))

lemma ring_list_add_before:
  "ring s h (xs @ ys) \<Longrightarrow> e \<notin> set (h # xs @ ys) \<Longrightarrow> p = hd (ys @ [h]) \<Longrightarrow>
   ring (list_add_before p e s) h (xs @ e # ys)"
  unfolding list_add_before_def by (metis ring_insert ring_neighbours(2))

text \<open>Unlinking an entry.\<close>

lemma chain_delete:
  assumes c: "chain s (xs @ a # e # b # ys)"
    and d1: "distinct (butlast (xs @ a # e # b # ys))" and d2: "distinct (tl (xs @ a # e # b # ys))"
  shows "chain (list_del_raw a b s) (xs @ a # b # ys)"
proof -
  let ?t = "list_del_raw a b s"
  from c have c1: "chain s (xs @ [a])" and c2: "chain s (b # ys)"
    by (auto simp: chain_append [of s xs a "e # b # ys"])
  have "a \<notin> set xs" using d1 by (auto simp: butlast_append)
  moreover have "b \<notin> set (tl (xs @ [a]))" using d2 by (cases xs) auto
  ultimately have "chain ?t (xs @ [a]) \<longleftrightarrow> chain s (xs @ [a])"
    by (intro chain_cong) (auto simp: list_del_raw_def)
  moreover have "chain ?t (b # ys) \<longleftrightarrow> chain s (b # ys)"
  proof -
    have "a \<notin> set (butlast (b # ys))" using d1 by (auto simp: butlast_append split: if_splits)
    moreover have "b \<notin> set ys" using d2 by (cases xs) auto
    ultimately show ?thesis
      by (intro chain_cong) (auto simp: list_del_raw_def split: if_splits)
  qed
  moreover have "chain ?t (a # b # ys) \<longleftrightarrow> chain ?t (b # ys)"
    by (auto simp: list_del_raw_def)
  ultimately show ?thesis using c1 c2 by (simp only: chain_append [of ?t xs a "b # ys"] simp_thms)
qed

lemma ring_list_del:
  assumes r: "ring s h (xs @ e # ys)"
  shows "ring (list_del e s) h (xs @ ys)"
proof -
  obtain zs b bs where zs: "h # xs = zs @ [last (h # xs)]" and b: "ys @ [h] = b # bs"
    by (rule ring_place)
  have full: "h # (xs @ e # ys) @ [h] = zs @ last (h # xs) # e # b # bs"
  proof -
    have "h # (xs @ e # ys) @ [h] = (h # xs) @ e # (ys @ [h])" by simp
    also have "\<dots> = zs @ last (h # xs) # e # b # bs" by (subst zs, subst b) simp
    finally show ?thesis .
  qed
  from r have d: "distinct (h # xs @ e # ys)" and c: "chain s (zs @ last (h # xs) # e # b # bs)"
    using full by (auto simp: ring_def)
  have "chain (list_del_raw (last (h # xs)) b s) (zs @ last (h # xs) # b # bs)"
  proof (rule chain_delete [OF c])
    show "distinct (butlast (zs @ last (h # xs) # e # b # bs))"
      unfolding full [symmetric] using d by (simp add: butlast_append)
    show "distinct (tl (zs @ last (h # xs) # e # b # bs))" unfolding full [symmetric] using d by auto
  qed
  moreover have "zs @ last (h # xs) # b # bs = h # (xs @ ys) @ [h]"
  proof -
    have "h # (xs @ ys) @ [h] = (h # xs) @ (ys @ [h])" by simp
    also have "\<dots> = zs @ last (h # xs) # b # bs" by (subst zs, subst b) simp
    finally show ?thesis by (rule sym)
  qed
  moreover have "le_prev (s e) = last (h # xs)"
    using ring_neighbours(2) [OF r] by simp
  moreover have "le_next (s e) = b"
    using ring_neighbours(1) [of s h "xs @ [e]" ys] r b by simp
  moreover have "distinct (h # xs @ ys)" using d by auto
  ultimately show ?thesis by (simp only: ring_def list_del_def simp_thms)
qed

lemma list_init_other: "p \<noteq> e \<Longrightarrow> list_init e s p = s p"
  by (simp add: list_init_def set_prev_def set_next_def)

lemma ring_list_del_init:
  assumes "ring s h (xs @ e # ys)"
  shows "ring (list_del_init e s) h (xs @ ys)" and "ring (list_del_init e s) e []"
proof -
  have "e \<notin> set (h # xs @ ys)" using assms by (auto simp: ring_def)
  then have "\<And>p. p \<in> set (h # xs @ ys) \<Longrightarrow> list_init e (list_del e s) p = list_del e s p"
    by (intro list_init_other) blast
  then show "ring (list_del_init e s) h (xs @ ys)"
    unfolding list_del_init_def by (rule ring_frame [OF ring_list_del [OF assms]])
  show "ring (list_del_init e s) e []" by (simp add: list_del_init_def)
qed

lemma ring_empty: "ring s h xs \<Longrightarrow> list_empty s h \<longleftrightarrow> xs = []"
  using ring_neighbours(1) [of s h "[]" xs] by (cases xs) (auto simp: list_empty_def ring_def)

text \<open>What the writes leave alone.\<close>

lemma list_add_raw_frame:
  "q \<notin> {e, a, b} \<Longrightarrow> list_add_raw e a b s q = s q"
  by (simp add: list_add_raw_def set_prev_def set_next_def)

lemma list_del_raw_frame:
  "q \<notin> {a, b} \<Longrightarrow> list_del_raw a b s q = s q"
  by (simp add: list_del_raw_def set_prev_def set_next_def)

lemma last_in_ring [simp]: "last (h # xs) \<in> set (h # xs)"
  by (rule last_in_set) simp

lemma list_add_before_frame:
  assumes "ring s h (xs @ ys)" and "p = hd (ys @ [h])" and "q \<notin> set (e # h # xs @ ys)"
  shows "list_add_before p e s q = s q"
proof -
  have "le_prev (s p) \<in> set (h # xs)"
    using ring_neighbours(2) [OF assms(1)] last_in_ring [of h xs] assms(2) by metis
  moreover have "p \<in> set (h # ys)" using assms(2) by (cases ys) auto
  ultimately show ?thesis
    using assms(3) unfolding list_add_before_def by (intro list_add_raw_frame) auto
qed

lemma list_del_frame:
  assumes "ring s h (xs @ e # ys)" and "q \<notin> set (h # xs @ ys)"
  shows "list_del e s q = s q"
proof -
  have "le_prev (s e) \<in> set (h # xs)"
    using ring_neighbours(2) [OF assms(1)] last_in_ring [of h xs] by (metis append_Cons list.sel(1))
  moreover have "le_next (s e) \<in> set (h # ys)"
    using ring_neighbours(1) [of s h "xs @ [e]" ys] assms(1) by (cases ys) auto
  ultimately show ?thesis
    using assms(2) unfolding list_del_def by (intro list_del_raw_frame) auto
qed

section \<open>The interface used by the queues of the kernel\<close>

text \<open>
  \<open>rep s h xs\<close>: in store \<open>s\<close> the list with header \<open>h\<close> holds \<open>xs\<close>. Run queues, wait queues and
  timer lists only append at the tail, look at the first entry and unlink an entry.
\<close>

locale list_ops =
  fixes rep :: "'s \<Rightarrow> 'p \<Rightarrow> 'p list \<Rightarrow> bool"
    and init :: "'p \<Rightarrow> 's \<Rightarrow> 's"
    and add_tail :: "'p \<Rightarrow> 'p \<Rightarrow> 's \<Rightarrow> 's"
    and del :: "'p \<Rightarrow> 's \<Rightarrow> 's"
    and first :: "'s \<Rightarrow> 'p \<Rightarrow> 'p"
    and empty :: "'s \<Rightarrow> 'p \<Rightarrow> bool"
  assumes rep_distinct: "rep s h xs \<Longrightarrow> distinct (h # xs)"
    and rep_init: "rep (init h s) h []"
    and rep_add: "rep s h xs \<Longrightarrow> e \<notin> set (h # xs) \<Longrightarrow> rep (add_tail h e s) h (xs @ [e])"
    and rep_del: "rep s h (xs @ e # ys) \<Longrightarrow> rep (del e s) h (xs @ ys)"
    and rep_first: "rep s h (x # xs) \<Longrightarrow> first s h = x"
    and rep_empty: "rep s h xs \<Longrightarrow> empty s h \<longleftrightarrow> xs = []"
begin

lemma rep_add_all:
  "rep s h xs \<Longrightarrow> distinct es \<Longrightarrow> set es \<inter> set (h # xs) = {} \<Longrightarrow>
   rep (fold (add_tail h) es s) h (xs @ es)"
proof (induction es arbitrary: s xs)
  case (Cons e es)
  from Cons.prems have "rep (add_tail h e s) h (xs @ [e])" by (intro rep_add) auto
  from Cons.IH [OF this] Cons.prems show ?case by auto
qed simp

lemma rep_pop: "rep s h (x # xs) \<Longrightarrow> first s h = x \<and> rep (del x s) h xs"
  using rep_first rep_del [of s h "[]" x xs] by simp

primrec drain :: "nat \<Rightarrow> 'p \<Rightarrow> 's \<Rightarrow> 'p list \<times> 's" where
  "drain 0 h s = ([], s)"
| "drain (Suc n) h s =
     (if empty s h then ([], s)
      else let x = first s h; r = drain n h (del x s) in (x # fst r, snd r))"

lemma drain_rep:
  "rep s h xs \<Longrightarrow> length xs \<le> n \<Longrightarrow> fst (drain n h s) = xs \<and> rep (snd (drain n h s)) h []"
proof (induction n arbitrary: s xs)
  case (Suc n)
  show ?case
  proof (cases xs)
    case Nil
    with Suc.prems show ?thesis by (simp add: rep_empty)
  next
    case (Cons x ys)
    with Suc.prems have "first s h = x" "rep (del x s) h ys" "\<not> empty s h"
      by (auto simp: rep_pop rep_empty)
    with Suc.IH [of "del x s" ys] Suc.prems Cons show ?thesis by (simp add: Let_def)
  qed
qed simp

lemma fifo_order:
  assumes "distinct es" and "h \<notin> set es"
  shows "fst (drain (length es) h (fold (add_tail h) es (init h s))) = es"
proof -
  have "rep (fold (add_tail h) es (init h s)) h ([] @ es)"
    by (rule rep_add_all [OF rep_init]) (use assms in auto)
  then show ?thesis using drain_rep [of _ h es "length es"] by simp
qed

end

interpretation lh: list_ops ring list_init list_add_before list_del_init list_next list_empty
proof
  fix s :: "'a links" and h e x :: 'a and xs ys :: "'a list"
  show "ring s h xs \<Longrightarrow> distinct (h # xs)" by (simp add: ring_def)
  show "ring (list_init h s) h []" by simp
  show "ring s h xs \<Longrightarrow> e \<notin> set (h # xs) \<Longrightarrow> ring (list_add_before h e s) h (xs @ [e])"
    using ring_list_add_before [of s h xs "[]" e h] by simp
  show "ring s h (xs @ e # ys) \<Longrightarrow> ring (list_del_init e s) h (xs @ ys)"
    by (rule ring_list_del_init)
  show "ring s h (x # xs) \<Longrightarrow> list_next s h = x"
    using ring_neighbours(1) [of s h "[]" "x # xs"] by (simp add: list_next_def)
  show "ring s h xs \<Longrightarrow> list_empty s h \<longleftrightarrow> xs = []" by (rule ring_empty)
qed

section \<open>Properties\<close>

text \<open>
  C40: the pointer operations of list.h implement the list operations their comments describe: on
  any well-linked circular list with contents \<open>xs @ ys\<close>, inserting a fresh entry after the last
  entry of \<open>xs\<close> (or before the first of \<open>ys\<close>) puts it between \<open>xs\<close> and \<open>ys\<close>; deleting an entry of
  the list removes exactly it; \<open>list_del_init\<close> also leaves the entry as an empty list;
  \<open>list_empty\<close> decides emptiness.
\<close>

theorem list_h_refines:
  assumes r: "ring s h (xs @ ys)" and e: "e \<notin> set (h # xs @ ys)"
  shows "ring (list_add_after (last (h # xs)) e s) h (xs @ e # ys)
    \<and> ring (list_add_before (hd (ys @ [h])) e s) h (xs @ e # ys)
    \<and> (\<forall>x zs. ys = x # zs \<longrightarrow> ring (list_del x s) h (xs @ zs)
           \<and> ring (list_del_init x s) h (xs @ zs) \<and> list_empty (list_del_init x s) x)
    \<and> (list_empty s h \<longleftrightarrow> xs @ ys = [])"
proof (intro conjI allI impI)
  show "ring (list_add_after (last (h # xs)) e s) h (xs @ e # ys)"
    by (rule ring_list_add_after [OF r e refl])
  show "ring (list_add_before (hd (ys @ [h])) e s) h (xs @ e # ys)"
    by (rule ring_list_add_before [OF r e refl])
  show "list_empty s h \<longleftrightarrow> xs @ ys = []"
    by (rule ring_empty [OF r])
next
  fix x zs assume "ys = x # zs"
  with r have rx: "ring s h (xs @ x # zs)" by simp
  show "ring (list_del x s) h (xs @ zs)" by (rule ring_list_del [OF rx])
  show "ring (list_del_init x s) h (xs @ zs)" by (rule ring_list_del_init [OF rx])
  show "list_empty (list_del_init x s) x"
    using ring_list_del_init(2) [OF rx] by (simp add: ring_empty)
qed

theorem list_h_refines_witness:
  "ring (list_add_before 0 (2::nat) (list_add_after 0 1 (list_init 0 (\<lambda>_. \<lparr>le_prev = 0, le_next = 0\<rparr>)))) 0 [1, 2]
   \<and> ring (list_del_init 1 (list_add_after 0 (1::nat) (list_init 0 (\<lambda>_. \<lparr>le_prev = 0, le_next = 0\<rparr>)))) 0 []"
proof -
  let ?s = "list_init 0 (\<lambda>_. \<lparr>le_prev = 0, le_next = 0::nat\<rparr>)"
  have 1: "ring (list_add_after 0 1 ?s) 0 [1]"
    using list_h_refines [of ?s 0 "[]" "[]" 1] by simp
  then have "ring (list_add_before 0 2 (list_add_after 0 1 ?s)) 0 [1, 2]"
    using list_h_refines [of "list_add_after 0 1 ?s" 0 "[1]" "[]" 2] by simp
  moreover have "ring (list_del_init 1 (list_add_after 0 1 ?s)) 0 []"
    using list_h_refines [of "list_add_after 0 1 ?s" 0 "[]" "[1]" 2] 1 by simp
  ultimately show ?thesis by blast
qed

end
