(* ===== verification/Default_Pmm.thy ===== *)
theory Default_Pmm
  imports Bit_Ops
begin

text \<open>
  The first-fit physical page allocator of \<open>kern/mm/default_pmm.c\<close>. A page descriptor is addressed by
  its index in the \<open>pages\<close> array (pointer arithmetic \<open>base + n\<close> is addition of indices). The circular
  \<open>free_list\<close> is the list of the pages whose \<open>page_link\<close> it holds, in ring order (theory
  \<open>Link_List\<close> shows that the pointer code of list.h implements these list operations).
  Counts are natural numbers: the invariant bounds every count by the number of page frames
  (2048 on the board), so 32-bit arithmetic on them never wraps.
\<close>

section \<open>Page descriptors and the allocator's state\<close>

record page =
  pg_ref :: int
  pg_flags :: u32
  pg_property :: nat

record pmm =
  pages :: "nat \<Rightarrow> page"
  free_list :: "nat list"
  nr_free :: nat

definition PG_reserved :: nat where "PG_reserved = 0"
definition PG_property :: nat where "PG_property = 1"

definition PageReserved :: "(nat \<Rightarrow> page) \<Rightarrow> nat \<Rightarrow> bool" where
  "PageReserved pg p = test_bit PG_reserved (pg_flags (pg p))"

definition PageProperty :: "(nat \<Rightarrow> page) \<Rightarrow> nat \<Rightarrow> bool" where
  "PageProperty pg p = test_bit PG_property (pg_flags (pg p))"

definition SetPageReserved :: "nat \<Rightarrow> (nat \<Rightarrow> page) \<Rightarrow> (nat \<Rightarrow> page)" where
  "SetPageReserved p pg = pg(p := (pg p)\<lparr>pg_flags := set_bit_w PG_reserved (pg_flags (pg p))\<rparr>)"

definition SetPageProperty :: "nat \<Rightarrow> (nat \<Rightarrow> page) \<Rightarrow> (nat \<Rightarrow> page)" where
  "SetPageProperty p pg = pg(p := (pg p)\<lparr>pg_flags := set_bit_w PG_property (pg_flags (pg p))\<rparr>)"

definition ClearPageProperty :: "nat \<Rightarrow> (nat \<Rightarrow> page) \<Rightarrow> (nat \<Rightarrow> page)" where
  "ClearPageProperty p pg = pg(p := (pg p)\<lparr>pg_flags := clear_bit PG_property (pg_flags (pg p))\<rparr>)"

definition set_property :: "nat \<Rightarrow> nat \<Rightarrow> (nat \<Rightarrow> page) \<Rightarrow> (nat \<Rightarrow> page)" where
  "set_property p v pg = pg(p := (pg p)\<lparr>pg_property := v\<rparr>)"

section \<open>Operations\<close>

text \<open>\<open>default_list_add\<close>: walk the list to the first page above \<open>base\<close> and link \<open>base\<close> before it.\<close>

fun default_list_add :: "(nat \<Rightarrow> page) \<Rightarrow> nat \<Rightarrow> nat list \<Rightarrow> nat list option" where
  "default_list_add pg base [] = Some [base]"
| "default_list_add pg base (p # ps) = do {
     kassert (base \<noteq> p);
     if base < p then do {
       kassert (base + pg_property (pg base) \<le> p);
       Some (base # p # ps)
     } else do {
       kassert (p + pg_property (pg p) \<le> base);
       rest \<leftarrow> default_list_add pg base ps;
       Some (p # rest)
     }
   }"

definition default_init :: "pmm \<Rightarrow> pmm" where
  "default_init s = s\<lparr>free_list := [], nr_free := 0\<rparr>"

fun init_pages_loop :: "nat \<Rightarrow> nat \<Rightarrow> (nat \<Rightarrow> page) \<Rightarrow> (nat \<Rightarrow> page) option" where
  "init_pages_loop p 0 pg = Some pg"
| "init_pages_loop p (Suc k) pg = do {
     kassert (PageReserved pg p);
     init_pages_loop (Suc p) k (pg(p := (pg p)\<lparr>pg_flags := 0, pg_property := 0, pg_ref := 0\<rparr>))
   }"

definition default_init_memmap :: "nat \<Rightarrow> nat \<Rightarrow> pmm \<Rightarrow> pmm option" where
  "default_init_memmap base n s = do {
     kassert (n > 0);
     pg \<leftarrow> init_pages_loop base n (pages s);
     let pg = SetPageProperty base (set_property base n pg);
     fl \<leftarrow> default_list_add pg base (free_list s);
     Some (s\<lparr>pages := pg, nr_free := nr_free s + n, free_list := fl\<rparr>)
   }"

definition default_alloc_pages :: "nat \<Rightarrow> pmm \<Rightarrow> (nat option \<times> pmm) option" where
  "default_alloc_pages n s = do {
     kassert (n > 0);
     if n > nr_free s then Some (None, s)
     else (case find (\<lambda>p. pg_property (pages s p) \<ge> n) (free_list s) of
       None \<Rightarrow> Some (None, s)
     | Some page \<Rightarrow>
         let before = takeWhile (\<lambda>q. q \<noteq> page) (free_list s);
             after = tl (dropWhile (\<lambda>q. q \<noteq> page) (free_list s));
             pg = pages s;
             (pg, fl) = (if pg_property (pg page) > n
                         then (let p = page + n;
                                   pg = SetPageProperty p (set_property p (pg_property (pg page) - n) pg)
                               in (pg, before @ p # after))
                         else (pg, before @ after))
         in Some (Some page, s\<lparr>pages := ClearPageProperty page pg, free_list := fl,
                               nr_free := nr_free s - n\<rparr>))
   }"

fun free_pages_loop :: "nat \<Rightarrow> nat \<Rightarrow> (nat \<Rightarrow> page) \<Rightarrow> (nat \<Rightarrow> page) option" where
  "free_pages_loop p 0 pg = Some pg"
| "free_pages_loop p (Suc k) pg = do {
     kassert (\<not> PageReserved pg p \<and> \<not> PageProperty pg p);
     free_pages_loop (Suc p) k (pg(p := (pg p)\<lparr>pg_flags := 0, pg_ref := 0\<rparr>))
   }"

text \<open>
  The merging loop of \<open>default_free_pages\<close>: \<open>kept\<close> are the entries already passed and still linked,
  the last argument the entries still to visit; the successor is read before an entry is unlinked.
\<close>

fun coalesce :: "(nat \<Rightarrow> page) \<Rightarrow> nat \<Rightarrow> nat list \<Rightarrow> nat list \<Rightarrow> (nat \<Rightarrow> page) \<times> nat \<times> nat list" where
  "coalesce pg base kept [] = (pg, base, kept)"
| "coalesce pg base kept (p # le) =
     (if base + pg_property (pg base) = p then
        coalesce (ClearPageProperty p
                   (set_property base (pg_property (pg base) + pg_property (pg p)) pg)) base kept le
      else if p + pg_property (pg p) = base then
        coalesce (ClearPageProperty base
                   (set_property p (pg_property (pg p) + pg_property (pg base)) pg)) p kept le
      else coalesce pg base (kept @ [p]) le)"

definition default_free_pages :: "nat \<Rightarrow> nat \<Rightarrow> pmm \<Rightarrow> pmm option" where
  "default_free_pages base n s = do {
     kassert (n > 0);
     pg \<leftarrow> free_pages_loop base n (pages s);
     let pg = SetPageProperty base (set_property base n pg);
     let (pg, base', kept) = coalesce pg base [] (free_list s);
     fl \<leftarrow> default_list_add pg base' kept;
     Some (s\<lparr>pages := pg, nr_free := nr_free s + n, free_list := fl\<rparr>)
   }"

definition default_nr_free_pages :: "pmm \<Rightarrow> nat" where
  "default_nr_free_pages s = nr_free s"

section \<open>Facts about the descriptor updates\<close>

lemma property_updates [simp]:
  "pg_property (SetPageProperty p pg q) = pg_property (pg q)"
  "pg_property (ClearPageProperty p pg q) = pg_property (pg q)"
  "pg_property (set_property p v pg q) = (if q = p then v else pg_property (pg q))"
  by (simp_all add: SetPageProperty_def ClearPageProperty_def set_property_def)

lemma PageReserved_updates [simp]:
  "PageReserved (SetPageProperty p pg) q = PageReserved pg q"
  "PageReserved (ClearPageProperty p pg) q = PageReserved pg q"
  "PageReserved (set_property p v pg) q = PageReserved pg q"
  by (auto simp: PageReserved_def SetPageProperty_def ClearPageProperty_def set_property_def
      PG_reserved_def PG_property_def)

lemma PageProperty_updates [simp]:
  "PageProperty (SetPageProperty p pg) q = (q = p \<or> PageProperty pg q)"
  "PageProperty (ClearPageProperty p pg) q = (q \<noteq> p \<and> PageProperty pg q)"
  "PageProperty (set_property p v pg) q = PageProperty pg q"
  by (auto simp: PageProperty_def SetPageProperty_def ClearPageProperty_def set_property_def
      PG_reserved_def PG_property_def)

section \<open>Block lists\<close>

text \<open>
  The free list as blocks: sorted by address and maximally merged (no two blocks touch), every
  block non-empty.
\<close>

definition blocks_ok :: "(nat \<Rightarrow> nat) \<Rightarrow> nat list \<Rightarrow> bool" where
  "blocks_ok pr fl \<longleftrightarrow> sorted_wrt (\<lambda>p q. p + pr p < q) fl \<and> (\<forall>p\<in>set fl. 0 < pr p)"

definition block_pages :: "(nat \<Rightarrow> nat) \<Rightarrow> nat list \<Rightarrow> nat set" where
  "block_pages pr fl = (\<Union>p\<in>set fl. {p ..< p + pr p})"

definition apart :: "(nat \<Rightarrow> nat) \<Rightarrow> nat \<Rightarrow> nat \<Rightarrow> bool" where
  "apart pr b p \<longleftrightarrow> p + pr p < b \<or> b + pr b < p"

lemma blocks_ok_Cons:
  "blocks_ok pr (p # fl) \<longleftrightarrow> 0 < pr p \<and> (\<forall>q\<in>set fl. p + pr p < q) \<and> blocks_ok pr fl"
  by (auto simp: blocks_ok_def)

lemma blocks_ok_append:
  "blocks_ok pr (xs @ ys) \<longleftrightarrow> blocks_ok pr xs \<and> blocks_ok pr ys \<and> (\<forall>p\<in>set xs. \<forall>q\<in>set ys. p + pr p < q)"
  by (auto simp: blocks_ok_def sorted_wrt_append)

lemma blocks_ok_cong:
  "(\<And>p. p \<in> set fl \<Longrightarrow> pr p = pr' p) \<Longrightarrow> blocks_ok pr fl = blocks_ok pr' fl"
  by (induction fl) (auto simp: blocks_ok_Cons, (simp add: blocks_ok_def)+)

lemma block_pages_cong:
  "(\<And>p. p \<in> set fl \<Longrightarrow> pr p = pr' p) \<Longrightarrow> block_pages pr fl = block_pages pr' fl"
  by (auto simp: block_pages_def)

lemma block_pages_simps [simp]:
  "block_pages pr [] = {}"
  "block_pages pr (p # fl) = {p ..< p + pr p} \<union> block_pages pr fl"
  "block_pages pr (xs @ ys) = block_pages pr xs \<union> block_pages pr ys"
  by (auto simp: block_pages_def)

lemma finite_block_pages [simp]: "finite (block_pages pr fl)"
  by (simp add: block_pages_def)

lemma blocks_ok_distinct: "blocks_ok pr fl \<Longrightarrow> distinct fl"
  by (induction fl) (auto simp: blocks_ok_Cons)

lemma block_pages_above:
  "blocks_ok pr (p # fl) \<Longrightarrow> x \<in> block_pages pr fl \<Longrightarrow> p + pr p < x"
  by (auto simp: blocks_ok_Cons block_pages_def)

lemma card_block_pages: "blocks_ok pr fl \<Longrightarrow> card (block_pages pr fl) = sum_list (map pr fl)"
proof (induction fl)
  case (Cons p fl)
  have "{p ..< p + pr p} \<inter> block_pages pr fl = {}"
    using block_pages_above [OF Cons.prems] by fastforce
  with Cons show ?case by (simp add: card_Un_disjoint blocks_ok_Cons)
qed simp

lemma default_list_add_ok:
  assumes "blocks_ok (\<lambda>q. pg_property (pg q)) fl" and "0 < pg_property (pg b)"
    and "\<And>p. p \<in> set fl \<Longrightarrow> apart (\<lambda>q. pg_property (pg q)) b p"
  shows "\<exists>fl'. default_list_add pg b fl = Some fl' \<and> blocks_ok (\<lambda>q. pg_property (pg q)) fl'
           \<and> set fl' = insert b (set fl)"
  using assms
proof (induction fl)
  case Nil
  then show ?case by (simp add: blocks_ok_def)
next
  case (Cons p fl)
  let ?pr = "\<lambda>q. pg_property (pg q)"
  have ap: "apart ?pr b p" using Cons.prems(3) by simp
  show ?case
  proof (cases "b < p")
    case True
    with ap have lt: "b + ?pr b < p" by (auto simp: apart_def)
    with Cons.prems(1) have "\<forall>q\<in>set fl. b + ?pr b < q" by (fastforce simp: blocks_ok_Cons)
    with lt True Cons.prems show ?thesis by (auto simp: blocks_ok_Cons)
  next
    case False
    with ap have lt: "p + ?pr p < b" by (auto simp: apart_def)
    from Cons obtain fl' where "default_list_add pg b fl = Some fl'" "blocks_ok ?pr fl'"
      "set fl' = insert b (set fl)" by (auto simp: blocks_ok_Cons)
    with lt False Cons.prems show ?thesis by (auto simp: blocks_ok_Cons)
  qed
qed

text \<open>A maximally merged block list is determined by the pages it covers.\<close>

lemma block_head_unique:
  assumes "blocks_ok pr (p # fl)" and "blocks_ok pr' (p' # fl')"
    and "block_pages pr (p # fl) = block_pages pr' (p' # fl')"
  shows "p = p'" and "pr p \<le> pr' p'"
proof -
  have mem: "p \<in> block_pages pr (p # fl)" "p' \<in> block_pages pr' (p' # fl')"
    using assms(1,2) by (auto simp: blocks_ok_Cons)
  have least: "\<And>x. x \<in> block_pages pr (p # fl) \<Longrightarrow> p \<le> x" "\<And>x. x \<in> block_pages pr' (p' # fl') \<Longrightarrow> p' \<le> x"
    using block_pages_above [OF assms(1)] block_pages_above [OF assms(2)] by fastforce+
  show eq: "p = p'" using mem least assms(3) by (metis le_antisym)
  show "pr p \<le> pr' p'"
  proof (rule ccontr)
    assume "\<not> pr p \<le> pr' p'"
    then have "p + pr' p' \<in> block_pages pr' (p' # fl')" unfolding assms(3) [symmetric] by simp
    with eq have "p' + pr' p' \<in> block_pages pr' fl'" by auto
    from block_pages_above [OF assms(2) this] show False by simp
  qed
qed

lemma blocks_unique:
  assumes "blocks_ok pr fl" and "blocks_ok pr' fl'" and "block_pages pr fl = block_pages pr' fl'"
  shows "fl = fl' \<and> (\<forall>p\<in>set fl. pr p = pr' p)"
  using assms
proof (induction fl arbitrary: fl')
  case Nil
  then show ?case by (cases fl') (auto simp: blocks_ok_Cons)
next
  case (Cons p fl)
  from Cons.prems obtain p' gl where fl': "fl' = p' # gl"
    by (cases fl') (auto simp: blocks_ok_Cons)
  note ok = Cons.prems(1) Cons.prems(2) [unfolded fl'] and eq = Cons.prems(3) [unfolded fl']
  have p: "p = p'" and n: "pr p = pr' p'"
    using block_head_unique [OF ok eq] block_head_unique(2) [OF ok(2,1) eq [symmetric]] by auto
  have "block_pages pr fl = block_pages pr' gl"
  proof -
    have "block_pages pr fl = block_pages pr (p # fl) - {p ..< p + pr p}"
      using block_pages_above [OF ok(1)] by fastforce
    also have "\<dots> = block_pages pr' (p' # gl) - {p' ..< p' + pr' p'}" using eq p n by simp
    also have "\<dots> = block_pages pr' gl"
      using block_pages_above [OF ok(2)] by fastforce
    finally show ?thesis .
  qed
  with Cons.IH [of gl] ok p n fl' show ?case by (auto simp: blocks_ok_Cons)
qed

section \<open>The loops over page descriptors\<close>

lemma init_pages_loop_ok:
  assumes "\<forall>q\<in>{p ..< p + k}. PageReserved pg q"
  shows "init_pages_loop p k pg =
    Some (\<lambda>q. if p \<le> q \<and> q < p + k then (pg q)\<lparr>pg_flags := 0, pg_property := 0, pg_ref := 0\<rparr> else pg q)"
  using assms
proof (induction k arbitrary: p pg)
  case (Suc k)
  let ?pg = "pg(p := (pg p)\<lparr>pg_flags := 0, pg_property := 0, pg_ref := 0\<rparr>)"
  have "\<forall>q\<in>{Suc p ..< Suc p + k}. PageReserved ?pg q"
    using Suc.prems by (auto simp: PageReserved_def)
  note IH = Suc.IH [OF this]
  have "init_pages_loop p (Suc k) pg = init_pages_loop (Suc p) k ?pg"
    using Suc.prems by simp
  then show ?case unfolding IH
    by (elim trans, intro arg_cong [where f = Some]) (auto simp: fun_eq_iff)
qed (auto simp: fun_eq_iff)

lemma free_pages_loop_ok:
  assumes "\<forall>q\<in>{p ..< p + k}. \<not> PageReserved pg q \<and> \<not> PageProperty pg q"
  shows "free_pages_loop p k pg =
    Some (\<lambda>q. if p \<le> q \<and> q < p + k then (pg q)\<lparr>pg_flags := 0, pg_ref := 0\<rparr> else pg q)"
  using assms
proof (induction k arbitrary: p pg)
  case (Suc k)
  let ?pg = "pg(p := (pg p)\<lparr>pg_flags := 0, pg_ref := 0\<rparr>)"
  have "\<forall>q\<in>{Suc p ..< Suc p + k}. \<not> PageReserved ?pg q \<and> \<not> PageProperty ?pg q"
    using Suc.prems by (auto simp: PageReserved_def PageProperty_def)
  note IH = Suc.IH [OF this]
  have "free_pages_loop p (Suc k) pg = free_pages_loop (Suc p) k ?pg"
    using Suc.prems by simp
  then show ?case unfolding IH
    by (elim trans, intro arg_cong [where f = Some]) (auto simp: fun_eq_iff)
qed (auto simp: fun_eq_iff)

text \<open>The merging loop, over the block structure.\<close>

definition disjoint_block :: "(nat \<Rightarrow> nat) \<Rightarrow> nat \<Rightarrow> nat \<Rightarrow> bool" where
  "disjoint_block pr b p \<longleftrightarrow> p + pr p \<le> b \<or> b + pr b \<le> p"

definition merged :: "(nat \<Rightarrow> page) \<Rightarrow> nat \<Rightarrow> nat list \<Rightarrow> (nat \<Rightarrow> page) \<times> nat \<times> nat list \<Rightarrow> bool" where
  "merged pg b fl r \<longleftrightarrow> (case r of (pg', b', kept) \<Rightarrow>
     let pr = (\<lambda>q. pg_property (pg q)); pr' = (\<lambda>q. pg_property (pg' q)) in
       blocks_ok pr' kept \<and> 0 < pr' b' \<and> (\<forall>p\<in>set kept. apart pr' b' p)
     \<and> {b' ..< b' + pr' b'} \<union> block_pages pr' kept = {b ..< b + pr b} \<union> block_pages pr fl
     \<and> insert b' (set kept) \<subseteq> insert b (set fl)
     \<and> (\<forall>q. PageReserved pg' q = PageReserved pg q)
     \<and> (\<forall>q. PageProperty pg' q \<longleftrightarrow>
            (if q \<in> insert b (set fl) then q \<in> insert b' (set kept) else PageProperty pg q)))"

lemma coalesce_correct:
  assumes "blocks_ok (\<lambda>q. pg_property (pg q)) (kept @ le)" and "0 < pg_property (pg b)"
    and "\<forall>p\<in>set kept. apart (\<lambda>q. pg_property (pg q)) b p"
    and "\<forall>p\<in>set le. disjoint_block (\<lambda>q. pg_property (pg q)) b p"
    and "\<forall>q\<in>insert b (set (kept @ le)). PageProperty pg q"
  shows "merged pg b (kept @ le) (coalesce pg b kept le)"
  using assms
proof (induction le arbitrary: pg b kept)
  case Nil
  then show ?case by (auto simp: merged_def Let_def)
next
  case (Cons p le)
  let ?pr = "\<lambda>q. pg_property (pg q)"
  have ok: "blocks_ok ?pr kept" "blocks_ok ?pr le" "0 < ?pr p" "\<forall>q\<in>set le. p + ?pr p < q"
    "\<forall>q\<in>set kept. q + ?pr q < p" "\<forall>q\<in>set kept. \<forall>x\<in>set le. q + ?pr q < x"
    using Cons.prems(1) by (auto simp: blocks_ok_append blocks_ok_Cons)
  have nb: "b \<notin> set kept" "b \<notin> set le" "b \<noteq> p"
    using Cons.prems(2-4) ok(3) by (auto simp: apart_def disjoint_block_def)
  consider (up) "b + ?pr b = p" | (down) "b + ?pr b \<noteq> p" "p + ?pr p = b" | (none) "b + ?pr b \<noteq> p" "p + ?pr p \<noteq> b"
    by blast
  then show ?case
  proof cases
    case up
    let ?pg = "ClearPageProperty p (set_property b (?pr b + ?pr p) pg)"
    have "merged ?pg b (kept @ le) (coalesce ?pg b kept le)"
    proof (rule Cons.IH)
      show "blocks_ok (\<lambda>q. pg_property (?pg q)) (kept @ le)"
        using ok nb by (subst blocks_ok_cong [where pr' = ?pr]) (auto simp: blocks_ok_append)
      show "0 < pg_property (?pg b)" using Cons.prems(2) by simp
      show "\<forall>q\<in>set kept. apart (\<lambda>q. pg_property (?pg q)) b q"
        using Cons.prems(3) ok(5) nb up by (fastforce simp: apart_def)
      show "\<forall>q\<in>set le. disjoint_block (\<lambda>q. pg_property (?pg q)) b q"
        using ok(4) nb up by (fastforce simp: disjoint_block_def)
      show "\<forall>q\<in>insert b (set (kept @ le)). PageProperty ?pg q"
        using Cons.prems(5) nb ok(4,5) by fastforce
    qed
    moreover have "p \<notin> set kept" "p \<notin> set le" using ok(4,5) by fastforce+
    moreover have "block_pages (\<lambda>q. pg_property (?pg q)) (kept @ le) = block_pages ?pr (kept @ le)"
      using nb by (intro block_pages_cong) auto
    moreover have "{b ..< b + (?pr b + ?pr p)} = {b ..< b + ?pr b} \<union> {p ..< p + ?pr p}"
      using up by auto
    ultimately show ?thesis
      using up nb by (auto simp: merged_def Let_def split: prod.splits)
  next
    case down
    let ?pg = "ClearPageProperty b (set_property p (?pr p + ?pr b) pg)"
    have "merged ?pg p (kept @ le) (coalesce ?pg p kept le)"
    proof (rule Cons.IH)
      show "blocks_ok (\<lambda>q. pg_property (?pg q)) (kept @ le)"
        using ok nb by (subst blocks_ok_cong [where pr' = ?pr]) (auto simp: blocks_ok_append)
      show "0 < pg_property (?pg p)" using ok(3) by simp
      show "\<forall>q\<in>set kept. apart (\<lambda>q. pg_property (?pg q)) p q"
        using ok(5) by (fastforce simp: apart_def)
      show "\<forall>q\<in>set le. disjoint_block (\<lambda>q. pg_property (?pg q)) p q"
        using Cons.prems(4) ok(4) nb down by (fastforce simp: disjoint_block_def)
      show "\<forall>q\<in>insert p (set (kept @ le)). PageProperty ?pg q"
        using Cons.prems(5) nb by fastforce
    qed
    moreover have "block_pages (\<lambda>q. pg_property (?pg q)) (kept @ le) = block_pages ?pr (kept @ le)"
      using ok(4,5) by (intro block_pages_cong) fastforce
    moreover have "{p ..< p + (?pr p + ?pr b)} = {b ..< b + ?pr b} \<union> {p ..< p + ?pr p}"
      using down by auto
    ultimately show ?thesis
      using down nb by (auto simp: merged_def Let_def split: prod.splits)
  next
    case none
    have "merged pg b ((kept @ [p]) @ le) (coalesce pg b (kept @ [p]) le)"
    proof (rule Cons.IH)
      show "\<forall>q\<in>set (kept @ [p]). apart ?pr b q"
        using Cons.prems(3,4) none by (auto simp: apart_def disjoint_block_def)
    qed (use Cons.prems in auto)
    with none show ?thesis by simp
  qed
qed

section \<open>The invariant\<close>

abbreviation prop_of :: "pmm \<Rightarrow> nat \<Rightarrow> nat" where
  "prop_of s \<equiv> (\<lambda>q. pg_property (pages s q))"

definition free_page_set :: "pmm \<Rightarrow> nat set" where
  "free_page_set s = block_pages (prop_of s) (free_list s)"

definition managed :: "nat \<Rightarrow> pmm \<Rightarrow> nat set" where
  "managed np s = {p. p < np \<and> \<not> PageReserved (pages s) p}"

definition pmm_inv :: "nat \<Rightarrow> pmm \<Rightarrow> bool" where
  "pmm_inv np s \<longleftrightarrow> blocks_ok (prop_of s) (free_list s)
     \<and> nr_free s = sum_list (map (prop_of s) (free_list s))
     \<and> free_page_set s \<subseteq> managed np s
     \<and> (\<forall>p<np. PageProperty (pages s) p \<longleftrightarrow> p \<in> set (free_list s))"

lemma pmm_inv_nr_free: "pmm_inv np s \<Longrightarrow> nr_free s = card (free_page_set s)"
  by (simp add: pmm_inv_def free_page_set_def card_block_pages)

lemma pmm_inv_nr_free_le: "pmm_inv np s \<Longrightarrow> nr_free s \<le> np"
proof -
  assume inv: "pmm_inv np s"
  then have "free_page_set s \<subseteq> {..<np}" by (auto simp: pmm_inv_def managed_def)
  from card_mono [OF _ this] inv show ?thesis by (simp add: pmm_inv_nr_free)
qed

lemma head_in_block_pages: "blocks_ok pr fl \<Longrightarrow> p \<in> set fl \<Longrightarrow> p \<in> block_pages pr fl"
  by (auto simp: blocks_ok_def block_pages_def)

lemma takeWhile_dropWhile_split:
  "x \<in> set xs \<Longrightarrow> takeWhile (\<lambda>q. q \<noteq> x) xs @ x # tl (dropWhile (\<lambda>q. q \<noteq> x) xs) = xs"
  by (induction xs) auto

lemma find_before:
  "find P xs = Some x \<Longrightarrow> y \<in> set (takeWhile (\<lambda>q. q \<noteq> x) xs) \<Longrightarrow> \<not> P y"
proof (induction xs)
  case (Cons a xs)
  then show ?case by (cases "P a"; cases "a = x") auto
qed simp

lemma find_split:
  assumes "find P xs = Some x"
  obtains ys zs where "xs = ys @ x # zs" and "takeWhile (\<lambda>q. q \<noteq> x) xs = ys"
    and "tl (dropWhile (\<lambda>q. q \<noteq> x) xs) = zs" and "P x" and "\<forall>y\<in>set ys. \<not> P y"
proof
  show "\<forall>y\<in>set (takeWhile (\<lambda>q. q \<noteq> x) xs). \<not> P y"
    using assms find_before by fastforce
  have "x \<in> set xs" "P x" using assms by (auto simp: find_Some_iff)
  then show "xs = takeWhile (\<lambda>q. q \<noteq> x) xs @ x # tl (dropWhile (\<lambda>q. q \<noteq> x) xs)" "P x"
    by (simp_all add: takeWhile_dropWhile_split)
qed simp_all

lemma blocks_ok_split_block:
  assumes "blocks_ok pr (xs @ p # ys)" and "0 < n" and "n < pr p"
    and "pr' (p + n) = pr p - n" and "\<And>q. q \<in> set (xs @ ys) \<Longrightarrow> pr' q = pr q"
  shows "blocks_ok pr' (xs @ (p + n) # ys)"
proof -
  have "blocks_ok pr' xs" "blocks_ok pr' ys"
    using assms(1,5) blocks_ok_cong [of xs pr pr'] blocks_ok_cong [of ys pr pr']
    by (auto simp: blocks_ok_append blocks_ok_Cons)
  with assms show ?thesis
    by (auto simp: blocks_ok_append blocks_ok_Cons)
qed

text \<open>What a successful first-fit allocation does, on the split of the free list around the block.\<close>

lemma alloc_from_block:
  assumes inv: "pmm_inv np s" and n: "0 < n" and fl: "free_list s = xs @ p # ys" and le: "n \<le> prop_of s p"
    and pg: "pg = (if n < prop_of s p then SetPageProperty (p + n) (set_property (p + n) (prop_of s p - n) (pages s))
                   else pages s)"
    and fl': "fl' = (if n < prop_of s p then xs @ (p + n) # ys else xs @ ys)"
  defines "s' \<equiv> s\<lparr>pages := ClearPageProperty p pg, free_list := fl', nr_free := nr_free s - n\<rparr>"
  shows "pmm_inv np s'" and "free_page_set s' = free_page_set s - {p ..< p + n}"
    and "{p ..< p + n} \<subseteq> free_page_set s" and "managed np s' = managed np s"
proof -
  let ?pr = "prop_of s"
  have ok: "blocks_ok ?pr (xs @ p # ys)" using inv fl by (simp add: pmm_inv_def)
  then have ord: "\<forall>q\<in>set xs. q + ?pr q < p" "\<forall>q\<in>set ys. p + ?pr p < q" "blocks_ok ?pr xs" "blocks_ok ?pr ys"
    by (auto simp: blocks_ok_append blocks_ok_Cons)
  have dis: "p \<notin> set xs" "p \<notin> set ys" "p + n \<notin> set xs" "p + n \<notin> set ys"
    using ord(1,2) le n by fastforce+
  have fps: "free_page_set s = block_pages ?pr xs \<union> {p ..< p + ?pr p} \<union> block_pages ?pr ys"
    using fl by (auto simp: free_page_set_def)
  have "{p ..< p + n} \<subseteq> {p ..< p + ?pr p}" using le by auto
  then show sub: "{p ..< p + n} \<subseteq> free_page_set s" unfolding fps by blast
  have same: "\<And>q. q \<noteq> p + n \<Longrightarrow> prop_of s' q = ?pr q" "n < ?pr p \<Longrightarrow> prop_of s' (p + n) = ?pr p - n"
    using pg by (auto simp: s'_def)
  have same': "\<And>q. n = ?pr p \<Longrightarrow> prop_of s' q = ?pr q" using pg by (auto simp: s'_def)
  have far: "x \<in> block_pages ?pr xs \<Longrightarrow> x < p" "x \<in> block_pages ?pr ys \<Longrightarrow> p + ?pr p < x" for x
    using ord(1,2) by (fastforce simp: block_pages_def)+
  have bp: "block_pages (prop_of s') xs = block_pages ?pr xs" "block_pages (prop_of s') ys = block_pages ?pr ys"
    using dis by (auto intro!: block_pages_cong same(1))
  show fps': "free_page_set s' = free_page_set s - {p ..< p + n}"
  proof (cases "n < ?pr p")
    case True
    then have "free_page_set s' = block_pages ?pr xs \<union> {p + n ..< p + ?pr p} \<union> block_pages ?pr ys"
      using bp same(2) fl' by (auto simp: free_page_set_def s'_def)
    with fps True far show ?thesis by fastforce
  next
    case False
    then have "free_page_set s' = block_pages ?pr xs \<union> block_pages ?pr ys"
      using bp fl' by (auto simp: free_page_set_def s'_def)
    with fps False le far show ?thesis by fastforce
  qed
  have ok': "blocks_ok (prop_of s') fl'"
  proof (cases "n < ?pr p")
    case True
    have "blocks_ok (prop_of s') (xs @ (p + n) # ys)"
      by (rule blocks_ok_split_block [OF ok n True])
        (use True dis in \<open>auto intro!: same simp del: append_assoc\<close>)
    with True fl' show ?thesis by simp
  next
    case False
    then have "blocks_ok ?pr fl'" using ord fl' by (auto simp: blocks_ok_append) fastforce
    moreover have "blocks_ok (prop_of s') fl' = blocks_ok ?pr fl'"
      by (rule blocks_ok_cong) (use False le same' in simp)
    ultimately show ?thesis by simp
  qed
  show man: "managed np s' = managed np s" using pg by (auto simp: managed_def s'_def)
  have "card (free_page_set s') = card (free_page_set s) - n"
    using fps' sub by (simp add: card_Diff_subset)
  then have nr: "nr_free s' = sum_list (map (prop_of s') fl')"
    using card_block_pages [OF ok'] pmm_inv_nr_free [OF inv] by (simp add: s'_def free_page_set_def)
  have flag: "\<forall>q<np. PageProperty (pages s') q \<longleftrightarrow> q \<in> set fl'"
    using inv fl dis pg fl' n by (auto simp: pmm_inv_def s'_def)
  show "pmm_inv np s'"
    using ok' nr flag man fps' inv by (auto simp: pmm_inv_def s'_def)
qed

section \<open>Correctness of the operations\<close>

definition first_fit :: "pmm \<Rightarrow> nat \<Rightarrow> nat option \<Rightarrow> bool" where
  "first_fit s n r \<longleftrightarrow> (case r of
     None \<Rightarrow> \<forall>p\<in>set (free_list s). prop_of s p < n
   | Some p \<Rightarrow> p \<in> set (free_list s) \<and> n \<le> prop_of s p \<and>
       (\<forall>q\<in>set (free_list s). q < p \<longrightarrow> prop_of s q < n))"

lemma nr_free_ge_block: "pmm_inv np s \<Longrightarrow> p \<in> set (free_list s) \<Longrightarrow> prop_of s p \<le> nr_free s"
  by (auto simp: pmm_inv_def intro!: member_le_sum_list)

lemma default_alloc_pages_ok:
  assumes inv: "pmm_inv np s" and n: "0 < n"
  shows "\<exists>r s'. default_alloc_pages n s = Some (r, s') \<and> pmm_inv np s' \<and> first_fit s n r
    \<and> managed np s' = managed np s
    \<and> (case r of None \<Rightarrow> s' = s
       | Some p \<Rightarrow> {p ..< p + n} \<subseteq> free_page_set s \<and> free_page_set s' = free_page_set s - {p ..< p + n})"
proof (cases "find (\<lambda>p. n \<le> prop_of s p) (free_list s)")
  case None
  then have "first_fit s n None" by (auto simp: find_None_iff first_fit_def)
  with None inv n show ?thesis by (auto simp: default_alloc_pages_def)
next
  case (Some p)
  then obtain xs ys where fl: "free_list s = xs @ p # ys"
    and tw: "takeWhile (\<lambda>q. q \<noteq> p) (free_list s) = xs" "tl (dropWhile (\<lambda>q. q \<noteq> p) (free_list s)) = ys"
    and le: "n \<le> prop_of s p" and bef: "\<forall>y\<in>set xs. \<not> n \<le> prop_of s y"
    by (rule find_split)
  let ?pg = "if n < prop_of s p then SetPageProperty (p + n) (set_property (p + n) (prop_of s p - n) (pages s)) else pages s"
  let ?fl = "if n < prop_of s p then xs @ (p + n) # ys else xs @ ys"
  let ?s' = "s\<lparr>pages := ClearPageProperty p ?pg, free_list := ?fl, nr_free := nr_free s - n\<rparr>"
  have "n \<le> nr_free s" using nr_free_ge_block [OF inv, of p] fl le by simp
  then have eq: "default_alloc_pages n s = Some (Some p, ?s')"
    using n Some tw le by (simp add: default_alloc_pages_def Let_def)
  have "blocks_ok (prop_of s) (xs @ p # ys)" using inv fl by (simp add: pmm_inv_def)
  then have "first_fit s n (Some p)"
    using fl le bef by (fastforce simp: first_fit_def blocks_ok_append blocks_ok_Cons)
  with eq alloc_from_block [OF inv n fl le refl refl] show ?thesis by auto
qed

lemma default_free_pages_ok:
  assumes inv: "pmm_inv np s" and n: "0 < n" and man: "{b ..< b + n} \<subseteq> managed np s"
    and busy: "{b ..< b + n} \<inter> free_page_set s = {}"
  shows "\<exists>s'. default_free_pages b n s = Some s' \<and> pmm_inv np s'
    \<and> free_page_set s' = free_page_set s \<union> {b ..< b + n} \<and> managed np s' = managed np s"
proof -
  let ?fl = "free_list s" and ?B = "{b ..< b + n}"
  have ok: "blocks_ok (prop_of s) ?fl" using inv by (simp add: pmm_inv_def)
  have heads: "p \<in> set ?fl \<Longrightarrow> p \<notin> ?B" for p
    using head_in_block_pages [OF ok] busy by (auto simp: free_page_set_def)
  have lt: "q \<in> ?B \<Longrightarrow> q < np \<and> \<not> PageReserved (pages s) q" for q
    using man by (auto simp: managed_def)
  define pg1 where "pg1 = (\<lambda>q. if b \<le> q \<and> q < b + n then (pages s q)\<lparr>pg_flags := 0, pg_ref := 0\<rparr> else pages s q)"
  have loop: "free_pages_loop b n (pages s) = Some pg1"
    unfolding pg1_def
    by (rule free_pages_loop_ok) (use lt heads inv in \<open>auto simp: pmm_inv_def\<close>)
  define pg2 where "pg2 = SetPageProperty b (set_property b n pg1)"
  have pr2: "pg_property (pg2 q) = (if q = b then n else prop_of s q)" for q
    by (simp add: pg2_def pg1_def)
  have res1: "PageReserved pg1 q \<longleftrightarrow> q \<notin> ?B \<and> PageReserved (pages s) q"
    and prop1: "PageProperty pg1 q \<longleftrightarrow> q \<notin> ?B \<and> PageProperty (pages s) q" for q
    by (auto simp: pg1_def PageReserved_def PageProperty_def)
  have res2: "PageReserved pg2 q \<longleftrightarrow> q \<notin> ?B \<and> PageReserved (pages s) q" for q
    by (simp add: pg2_def res1)
  have prop2: "q < np \<Longrightarrow> PageProperty pg2 q \<longleftrightarrow> q = b \<or> q \<in> set ?fl" for q
    using inv heads [of q] by (auto simp: pg2_def prop1 pmm_inv_def)
  have bfl: "b \<notin> set ?fl" using heads [of b] n by auto
  have "merged pg2 b ([] @ ?fl) (coalesce pg2 b [] ?fl)"
  proof (rule coalesce_correct)
    show "blocks_ok (\<lambda>q. pg_property (pg2 q)) ([] @ ?fl)"
      using ok bfl by (subst blocks_ok_cong [where pr' = "prop_of s"]) (auto simp: pr2)
    show "\<forall>p\<in>set ?fl. disjoint_block (\<lambda>q. pg_property (pg2 q)) b p"
    proof
      fix p assume p: "p \<in> set ?fl"
      have "{p ..< p + prop_of s p} \<subseteq> free_page_set s"
        using p by (auto simp: free_page_set_def block_pages_def)
      with busy have "{p ..< p + prop_of s p} \<inter> ?B = {}" by blast
      moreover have "0 < prop_of s p" using p ok by (auto simp: blocks_ok_def)
      ultimately show "disjoint_block (\<lambda>q. pg_property (pg2 q)) b p"
        using p bfl n by (auto simp: disjoint_block_def pr2 ivl_disj_int_two(3) Int_atLeastLessThan)
    qed
    have "p < np" if "p \<in> set ?fl" for p
      using head_in_block_pages [OF ok that] inv by (auto simp: pmm_inv_def free_page_set_def managed_def)
    moreover have "b < np" using lt n by simp
    ultimately show "\<forall>q\<in>insert b (set ([] @ ?fl)). PageProperty pg2 q" using prop2 by auto
  qed (use n in \<open>auto simp: pr2\<close>)
  moreover obtain pg3 b' kept where co: "coalesce pg2 b [] ?fl = (pg3, b', kept)" by (metis prod_cases3)
  ultimately have m: "merged pg2 b ?fl (pg3, b', kept)" by simp
  then obtain fl' where add: "default_list_add pg3 b' kept = Some fl'"
    and ok3: "blocks_ok (\<lambda>q. pg_property (pg3 q)) fl'" and set3: "set fl' = insert b' (set kept)"
    using default_list_add_ok [of pg3 kept b'] by (auto simp: merged_def Let_def)
  let ?s' = "s\<lparr>pages := pg3, nr_free := nr_free s + n, free_list := fl'\<rparr>"
  have eq: "default_free_pages b n s = Some ?s'"
    using n loop co add by (simp add: default_free_pages_def pg2_def)
  have "block_pages (prop_of ?s') fl' = ?B \<union> block_pages (prop_of s) ?fl"
  proof -
    have "block_pages (prop_of ?s') fl' = {b' ..< b' + prop_of ?s' b'} \<union> block_pages (prop_of ?s') kept"
      using set3 by (auto simp: block_pages_def)
    also have "\<dots> = ?B \<union> block_pages (\<lambda>q. pg_property (pg2 q)) ?fl"
      using m by (simp add: merged_def Let_def pr2)
    also have "block_pages (\<lambda>q. pg_property (pg2 q)) ?fl = block_pages (prop_of s) ?fl"
      by (rule block_pages_cong) (use bfl in \<open>auto simp: pr2\<close>)
    finally show ?thesis .
  qed
  then have fps: "free_page_set ?s' = free_page_set s \<union> ?B" by (auto simp: free_page_set_def)
  have man': "managed np ?s' = managed np s"
    using m lt by (auto simp: managed_def merged_def Let_def res2)
  have "card (free_page_set ?s') = card (free_page_set s) + n"
    using fps busy by (simp add: card_Un_disjoint Int_commute free_page_set_def)
  then have nr: "nr_free ?s' = sum_list (map (prop_of ?s') fl')"
    using card_block_pages [OF ok3] pmm_inv_nr_free [OF inv] by (simp add: free_page_set_def)
  have "PageProperty pg3 q \<longleftrightarrow> q \<in> set fl'" if "q < np" for q
    using m that prop2 set3 by (auto simp: merged_def Let_def)
  with ok3 nr fps man' man inv have "pmm_inv np ?s'" by (auto simp: pmm_inv_def)
  with eq fps man' show ?thesis by blast
qed

lemma default_init_memmap_ok:
  assumes n: "0 < n" and res: "\<forall>q\<in>{b ..< b + n}. PageReserved (pages s) q" and le: "b + n \<le> np"
    and noprop: "\<forall>q<np. \<not> PageProperty (pages s) q"
  shows "\<exists>s'. default_init_memmap b n (default_init s) = Some s' \<and> pmm_inv np s'
    \<and> free_page_set s' = {b ..< b + n}
    \<and> (\<forall>q. q \<notin> {b ..< b + n} \<longrightarrow> PageReserved (pages s') q = PageReserved (pages s) q)"
proof -
  define pg1 where "pg1 = (\<lambda>q. if b \<le> q \<and> q < b + n
      then (pages s q)\<lparr>pg_flags := 0, pg_property := 0, pg_ref := 0\<rparr> else pages s q)"
  have loop: "init_pages_loop b n (pages s) = Some pg1"
    unfolding pg1_def by (rule init_pages_loop_ok [OF res])
  let ?s' = "(default_init s)\<lparr>pages := SetPageProperty b (set_property b n pg1), nr_free := n, free_list := [b]\<rparr>"
  have "default_init_memmap b n (default_init s) = Some ?s'"
    using n loop by (simp add: default_init_memmap_def default_init_def)
  moreover have fps: "free_page_set ?s' = {b ..< b + n}"
    by (simp add: free_page_set_def)
  moreover have r: "PageReserved (pages ?s') q \<longleftrightarrow> q \<notin> {b ..< b + n} \<and> PageReserved (pages s) q" for q
    by (auto simp: pg1_def PageReserved_def [of "\<lambda>q. if _ q then _ q else _ q"] PageReserved_def [of "pages s"])
  moreover have "PageProperty pg1 q = (q \<notin> {b ..< b + n} \<and> PageProperty (pages s) q)" for q
    by (auto simp: pg1_def PageProperty_def)
  with noprop n le fps r have "pmm_inv np ?s'"
    by (auto simp: pmm_inv_def blocks_ok_def managed_def simp del: PageReserved_updates)
  ultimately show ?thesis by auto
qed

text \<open>Reference counts: allocation leaves them, freeing clears those of the freed pages only.\<close>

lemma pg_ref_updates [simp]:
  "pg_ref (SetPageProperty p pg q) = pg_ref (pg q)"
  "pg_ref (ClearPageProperty p pg q) = pg_ref (pg q)"
  "pg_ref (set_property p v pg q) = pg_ref (pg q)"
  by (simp_all add: SetPageProperty_def ClearPageProperty_def set_property_def)

lemma coalesce_ref: "pg_ref (fst (coalesce pg b kept fl) q) = pg_ref (pg q)"
  by (induction pg b kept fl rule: coalesce.induct) simp_all

lemma free_pages_loop_ref:
  "free_pages_loop b n pg = Some pg' \<Longrightarrow> pg_ref (pg' q) = (if b \<le> q \<and> q < b + n then 0 else pg_ref (pg q))"
  by (induction b n pg rule: free_pages_loop.induct) (auto simp: kassert_simps)

lemma default_alloc_pages_ref:
  "default_alloc_pages n s = Some (r, s') \<Longrightarrow> pg_ref (pages s' q) = pg_ref (pages s q)"
  by (auto simp: default_alloc_pages_def kassert_simps Let_def split: if_splits option.splits)

lemma default_free_pages_ref:
  "default_free_pages b n s = Some s' \<Longrightarrow> pg_ref (pages s' q) = (if b \<le> q \<and> q < b + n then 0 else pg_ref (pages s q))"
proof -
  assume a: "default_free_pages b n s = Some s'"
  then obtain pg1 where pg1: "free_pages_loop b n (pages s) = Some pg1"
    by (cases "free_pages_loop b n (pages s)") (auto simp: default_free_pages_def kassert_simps)
  obtain pg2 b' kept where c: "coalesce (SetPageProperty b (set_property b n pg1)) b [] (free_list s) = (pg2, b', kept)"
    by (metis prod_cases3)
  have "pages s' = fst (coalesce (SetPageProperty b (set_property b n pg1)) b [] (free_list s))"
    using a pg1 c by (auto simp: default_free_pages_def kassert_simps bind_eq_Some_conv)
  note pg1 this
  then show ?thesis by (simp add: coalesce_ref free_pages_loop_ref)
qed

section \<open>The manager interface\<close>

text \<open>
  \<open>kern/mm/pmm.h\<close> declares \<open>struct pmm_manager\<close>, a table of functions through which the rest of the
  kernel allocates pages. Its contract: \<open>avail s\<close> are the free pages, \<open>mng s\<close> the pages under
  management; an operation never panics on a state that satisfies the invariant.
  \<open>pmm_run\<close> runs a client's sequence of requests; \<open>live\<close> are the blocks it holds.
\<close>

datatype pmm_op = AllocOp nat | FreeOp nat

fun pmm_step :: "(nat \<Rightarrow> 's \<Rightarrow> (nat option \<times> 's) option) \<Rightarrow> (nat \<Rightarrow> nat \<Rightarrow> 's \<Rightarrow> 's option) \<Rightarrow>
    pmm_op \<Rightarrow> 's \<times> (nat \<times> nat) list \<Rightarrow> ('s \<times> (nat \<times> nat) list) option" where
  "pmm_step al fr (AllocOp n) (s, live) =
     (case al (Suc n) s of
        None \<Rightarrow> None
      | Some (None, s') \<Rightarrow> Some (s', live)
      | Some (Some p, s') \<Rightarrow> Some (s', (p, Suc n) # live))"
| "pmm_step al fr (FreeOp i) (s, live) =
     (if i < length live
      then map_option (\<lambda>s'. (s', take i live @ drop (Suc i) live)) (fr (fst (live ! i)) (snd (live ! i)) s)
      else Some (s, live))"

fun pmm_run :: "(nat \<Rightarrow> 's \<Rightarrow> (nat option \<times> 's) option) \<Rightarrow> (nat \<Rightarrow> nat \<Rightarrow> 's \<Rightarrow> 's option) \<Rightarrow>
    pmm_op list \<Rightarrow> 's \<times> (nat \<times> nat) list \<Rightarrow> ('s \<times> (nat \<times> nat) list) option" where
  "pmm_run al fr [] c = Some c"
| "pmm_run al fr (x # xs) c = Option.bind (pmm_step al fr x c) (pmm_run al fr xs)"

definition block_of :: "nat \<times> nat \<Rightarrow> nat set" where
  "block_of pn = {fst pn ..< fst pn + snd pn}"

definition live_ok :: "nat set \<Rightarrow> (nat \<times> nat) list \<Rightarrow> bool" where
  "live_ok busy live \<longleftrightarrow> (\<forall>pn\<in>set live. 0 < snd pn \<and> block_of pn \<subseteq> busy)
     \<and> sorted_wrt (\<lambda>pn qm. block_of pn \<inter> block_of qm = {}) live"

lemma live_ok_Cons:
  "live_ok busy (pn # live) \<longleftrightarrow> 0 < snd pn \<and> block_of pn \<subseteq> busy \<and> live_ok busy live
     \<and> (\<forall>qm\<in>set live. block_of pn \<inter> block_of qm = {})"
  by (auto simp: live_ok_def)

lemma live_ok_mono: "live_ok A live \<Longrightarrow> A \<subseteq> B \<Longrightarrow> live_ok B live"
  by (auto simp: live_ok_def)

lemma live_ok_remove:
  "live_ok busy (xs @ pn # ys) \<Longrightarrow> live_ok (busy - block_of pn) (xs @ ys)"
  by (auto simp: live_ok_def sorted_wrt_append)

locale pmm_manager =
  fixes inv :: "'s \<Rightarrow> bool"
    and mng :: "'s \<Rightarrow> nat set"
    and avail :: "'s \<Rightarrow> nat set"
    and alloc :: "nat \<Rightarrow> 's \<Rightarrow> (nat option \<times> 's) option"
    and free :: "nat \<Rightarrow> nat \<Rightarrow> 's \<Rightarrow> 's option"
    and nr :: "'s \<Rightarrow> nat"
  assumes avail_mng: "inv s \<Longrightarrow> avail s \<subseteq> mng s"
    and nr_avail: "inv s \<Longrightarrow> nr s = card (avail s)"
    and alloc_spec: "inv s \<Longrightarrow> 0 < n \<Longrightarrow> \<exists>r s'. alloc n s = Some (r, s') \<and> inv s' \<and> mng s' = mng s
        \<and> (case r of None \<Rightarrow> s' = s
           | Some p \<Rightarrow> {p ..< p + n} \<subseteq> avail s \<and> avail s' = avail s - {p ..< p + n})"
    and free_spec: "inv s \<Longrightarrow> 0 < n \<Longrightarrow> {b ..< b + n} \<subseteq> mng s \<Longrightarrow> {b ..< b + n} \<inter> avail s = {} \<Longrightarrow>
        \<exists>s'. free b n s = Some s' \<and> inv s' \<and> mng s' = mng s \<and> avail s' = avail s \<union> {b ..< b + n}"
begin

lemma alloc_then_free:
  assumes "inv s" and "0 < n" and "alloc n s = Some (Some p, s1)"
  shows "\<exists>s2. free p n s1 = Some s2 \<and> inv s2 \<and> avail s2 = avail s"
proof -
  from alloc_spec [OF assms(1,2)] assms(3) have a: "inv s1" "mng s1 = mng s"
    "{p ..< p + n} \<subseteq> avail s" "avail s1 = avail s - {p ..< p + n}" by auto
  with free_spec [of s1 n p] assms(2) avail_mng [OF assms(1)] show ?thesis by fastforce
qed

definition client_ok :: "nat set \<Rightarrow> 's \<times> (nat \<times> nat) list \<Rightarrow> bool" where
  "client_ok M c \<longleftrightarrow> inv (fst c) \<and> mng (fst c) = M \<and> live_ok (M - avail (fst c)) (snd c)"

lemma step_client_ok:
  assumes "client_ok M (s, live)"
  shows "\<exists>c'. pmm_step alloc free x (s, live) = Some c' \<and> client_ok M c'"
proof (cases x)
  case (AllocOp n)
  have s: "inv s" "mng s = M" "live_ok (M - avail s) live" using assms by (auto simp: client_ok_def)
  from alloc_spec [OF s(1), of "Suc n"] obtain r s' where a: "alloc (Suc n) s = Some (r, s')" "inv s'" "mng s' = M"
    "case r of None \<Rightarrow> s' = s | Some p \<Rightarrow> {p ..< p + Suc n} \<subseteq> avail s \<and> avail s' = avail s - {p ..< p + Suc n}"
    using s(2) by auto
  show ?thesis
  proof (cases r)
    case None
    with a s AllocOp show ?thesis by (auto simp: client_ok_def)
  next
    case (Some p)
    with a have av: "block_of (p, Suc n) \<subseteq> avail s" "avail s' = avail s - block_of (p, Suc n)"
      by (auto simp: block_of_def)
    have "live_ok (M - avail s') live" by (rule live_ok_mono [OF s(3)]) (use av in auto)
    moreover have "\<forall>qm\<in>set live. block_of (p, Suc n) \<inter> block_of qm = {}"
      using s(3) av(1) by (fastforce simp: live_ok_def)
    ultimately have "live_ok (M - avail s') ((p, Suc n) # live)"
      using av avail_mng [OF s(1)] s(2) by (auto simp: live_ok_Cons)
    with a Some AllocOp show ?thesis by (simp add: client_ok_def)
  qed
next
  case (FreeOp i)
  have s: "inv s" "mng s = M" "live_ok (M - avail s) live" using assms by (auto simp: client_ok_def)
  show ?thesis
  proof (cases "i < length live")
    case True
    obtain p n where pn: "live ! i = (p, n)" by (cases "live ! i") auto
    have split: "live = take i live @ (p, n) # drop (Suc i) live"
      using id_take_nth_drop [OF True] pn by simp
    have "(p, n) \<in> set live" using True pn nth_mem by metis
    with s(3) have blk: "0 < n" "block_of (p, n) \<subseteq> M - avail s" by (auto simp: live_ok_def)
    with free_spec [OF s(1), of n p] s(2) obtain s' where f: "free p n s = Some s'" "inv s'" "mng s' = M"
      "avail s' = avail s \<union> block_of (p, n)" by (auto simp: block_of_def)
    have "live_ok (M - avail s - block_of (p, n)) (take i live @ drop (Suc i) live)"
      using s(3) split live_ok_remove by metis
    with f True pn FreeOp show ?thesis by (simp add: client_ok_def Diff_Un Diff_eq Int_assoc)
  next
    case False
    with assms FreeOp show ?thesis by auto
  qed
qed

lemma run_client_ok:
  "client_ok M c \<Longrightarrow> \<exists>c'. pmm_run alloc free xs c = Some c' \<and> client_ok M c'"
proof (induction xs arbitrary: c)
  case (Cons x xs)
  obtain s live where c: "c = (s, live)" by (cases c)
  with step_client_ok Cons.prems obtain c1 where "pmm_step alloc free x c = Some c1" "client_ok M c1" by blast
  with Cons.IH show ?case by auto
qed simp

end

interpretation dp: pmm_manager "pmm_inv np" "managed np" free_page_set default_alloc_pages
    default_free_pages default_nr_free_pages for np
proof
  fix s :: pmm and n b :: nat
  assume inv: "pmm_inv np s"
  then show "free_page_set s \<subseteq> managed np s" by (simp add: pmm_inv_def)
  show "default_nr_free_pages s = card (free_page_set s)"
    using inv by (simp add: default_nr_free_pages_def pmm_inv_nr_free)
  assume n: "0 < n"
  show "\<exists>r s'. default_alloc_pages n s = Some (r, s') \<and> pmm_inv np s' \<and> managed np s' = managed np s
      \<and> (case r of None \<Rightarrow> s' = s
         | Some p \<Rightarrow> {p ..< p + n} \<subseteq> free_page_set s \<and> free_page_set s' = free_page_set s - {p ..< p + n})"
    using default_alloc_pages_ok [OF inv n] by blast
  assume "{b ..< b + n} \<subseteq> managed np s" "{b ..< b + n} \<inter> free_page_set s = {}"
  then show "\<exists>s'. default_free_pages b n s = Some s' \<and> pmm_inv np s' \<and> managed np s' = managed np s
      \<and> free_page_set s' = free_page_set s \<union> {b ..< b + n}"
    using default_free_pages_ok [OF inv n] by blast
qed

section \<open>Properties\<close>

text \<open>A small concrete allocator: pages 2 to 7 free in one block, pages 0 and 1 reserved.\<close>

definition demo_pmm :: pmm where
  "demo_pmm = \<lparr>pages = (\<lambda>q. if q = 2 then \<lparr>pg_ref = 0, pg_flags = 2, pg_property = 6\<rparr>
       else if 2 < q \<and> q < 8 then \<lparr>pg_ref = 0, pg_flags = 0, pg_property = 0\<rparr>
       else \<lparr>pg_ref = 0, pg_flags = 1, pg_property = 0\<rparr>), free_list = [2], nr_free = 6\<rparr>"

lemma demo_pmm_inv: "pmm_inv 8 demo_pmm"
  by (auto simp: pmm_inv_def demo_pmm_def blocks_ok_def free_page_set_def managed_def
      PageReserved_def PageProperty_def test_bit_def PG_reserved_def PG_property_def)

text \<open>
  C33: on every state that satisfies the allocator's invariant, \<open>default_alloc_pages n\<close> runs without a
  failed assertion and keeps the invariant. It returns the lowest free block with at least \<open>n\<close> pages
  (NULL exactly when there is none, with the state unchanged), and exactly the \<open>n\<close> pages from the
  returned one leave the free set.
\<close>

theorem default_alloc_first_fit:
  assumes "pmm_inv np s" and "0 < n"
  shows "\<exists>r s'. default_alloc_pages n s = Some (r, s') \<and> pmm_inv np s' \<and> first_fit s n r
    \<and> managed np s' = managed np s
    \<and> (case r of None \<Rightarrow> s' = s
       | Some p \<Rightarrow> {p ..< p + n} \<subseteq> free_page_set s \<and> free_page_set s' = free_page_set s - {p ..< p + n})"
  by (rule default_alloc_pages_ok [OF assms])

theorem default_alloc_first_fit_witness:
  "\<exists>r s'. default_alloc_pages 4 demo_pmm = Some (r, s') \<and> pmm_inv 8 s' \<and> first_fit demo_pmm 4 r"
  using default_alloc_first_fit [OF demo_pmm_inv, of 4] by auto

text \<open>
  C34: freeing managed pages that are not free never fails an assertion and keeps the invariant, which
  includes that the free list is sorted, its blocks never touch (they are merged with both
  neighbours), head flags mark exactly the block heads, and \<open>nr_free\<close> counts the free pages; the
  freed pages join the free set and nothing else changes in it.
\<close>

theorem default_free_merges:
  assumes "pmm_inv np s" and "0 < n" and "{b ..< b + n} \<subseteq> managed np s"
    and "{b ..< b + n} \<inter> free_page_set s = {}"
  shows "\<exists>s'. default_free_pages b n s = Some s' \<and> pmm_inv np s'
    \<and> free_page_set s' = free_page_set s \<union> {b ..< b + n}
    \<and> default_nr_free_pages s' = default_nr_free_pages s + n"
proof -
  from default_free_pages_ok [OF assms] obtain s' where s': "default_free_pages b n s = Some s'"
    "pmm_inv np s'" "free_page_set s' = free_page_set s \<union> {b ..< b + n}" by blast
  have "card (free_page_set s') = card (free_page_set s) + n"
    using s'(3) assms(4) by (simp add: card_Un_disjoint Int_commute free_page_set_def)
  with s' dp.nr_avail [OF s'(2)] dp.nr_avail [OF assms(1)] show ?thesis by simp
qed

theorem default_free_merges_witness:
  "\<exists>s s'. free_page_set s = {4 ..< 8} \<and> default_free_pages 2 2 s = Some s' \<and> free_page_set s' = {2 ..< 8}"
proof -
  obtain r s where a: "default_alloc_pages 2 demo_pmm = Some (r, s)" "pmm_inv 8 s" "managed 8 s = managed 8 demo_pmm"
    "first_fit demo_pmm 2 r"
    "case r of None \<Rightarrow> s = demo_pmm | Some p \<Rightarrow> {p ..< p + 2} \<subseteq> free_page_set demo_pmm
       \<and> free_page_set s = free_page_set demo_pmm - {p ..< p + 2}"
    using default_alloc_pages_ok [OF demo_pmm_inv, of 2] by auto
  have fp: "free_page_set demo_pmm = {2 ..< 8}" by (auto simp: free_page_set_def demo_pmm_def)
  have "r = Some 2" using a(4) by (auto simp: first_fit_def demo_pmm_def split: option.splits)
  with a(5) fp have fs: "free_page_set s = {4 ..< 8}" by auto
  have "{2 ..< 2 + 2} \<subseteq> managed 8 s"
    unfolding a(3) using fp dp.avail_mng [OF demo_pmm_inv] by auto
  moreover have "{2 ..< 2 + 2} \<inter> free_page_set s = {}" using fs by auto
  ultimately obtain s' where "default_free_pages 2 2 s = Some s'" "free_page_set s' = {4 ..< 8} \<union> {2 ..< 2 + 2}"
    using default_free_merges [OF a(2), of 2 2] fs by auto
  then show ?thesis using fs by (intro exI [of _ s] exI [of _ s']) auto
qed

text \<open>
  C32: allocating a block and freeing it again restores the allocator exactly: the same free list with
  the same block sizes and the same free count, so splitting and merging are inverse.
\<close>

theorem default_alloc_free_roundtrip:
  assumes "pmm_inv np s" and "0 < n" and "default_alloc_pages n s = Some (Some p, s1)"
  shows "\<exists>s2. default_free_pages p n s1 = Some s2 \<and> free_list s2 = free_list s \<and> nr_free s2 = nr_free s
    \<and> (\<forall>q\<in>set (free_list s). pg_property (pages s2 q) = pg_property (pages s q))"
proof -
  from dp.alloc_then_free [OF assms] obtain s2 where s2: "default_free_pages p n s1 = Some s2" "pmm_inv np s2"
    "free_page_set s2 = free_page_set s" by blast
  have "blocks_ok (prop_of s) (free_list s)" "blocks_ok (prop_of s2) (free_list s2)"
    using assms(1) s2(2) by (simp_all add: pmm_inv_def)
  from blocks_unique [OF this] s2(3) have
    "free_list s2 = free_list s" "\<forall>q\<in>set (free_list s). prop_of s q = prop_of s2 q"
    by (auto simp: free_page_set_def)
  moreover have "nr_free s2 = nr_free s"
    using pmm_inv_nr_free [OF s2(2)] pmm_inv_nr_free [OF assms(1)] s2(3) by simp
  ultimately show ?thesis using s2(1) by auto
qed

theorem default_alloc_free_roundtrip_witness:
  "\<exists>s1 s2. default_alloc_pages 4 demo_pmm = Some (Some 2, s1) \<and> default_free_pages 2 4 s1 = Some s2
     \<and> free_list s2 = [2]"
proof -
  have "\<exists>s1. default_alloc_pages 4 demo_pmm = Some (Some 2, s1)"
    by (simp add: default_alloc_pages_def demo_pmm_def)
  then obtain s1 where s1: "default_alloc_pages 4 demo_pmm = Some (Some 2, s1)" ..
  from default_alloc_free_roundtrip [OF demo_pmm_inv _ s1] s1 show ?thesis
    by (auto simp: demo_pmm_def)
qed

text \<open>
  C1: from reserved memory, initialising the allocator with one region and then running any sequence
  of page requests and releases of held blocks never panics; at every point the blocks handed out
  are pairwise disjoint, lie in the region's pages and share no page with the free list.
\<close>

theorem pmm_client_safe:
  assumes "0 < n" and "\<forall>q<np. PageReserved (pages s) q \<and> \<not> PageProperty (pages s) q" and "b + n \<le> np"
  shows "\<exists>s0. default_init_memmap b n (default_init s) = Some s0 \<and>
    (\<forall>ops. \<exists>s' live. pmm_run default_alloc_pages default_free_pages ops (s0, []) = Some (s', live)
       \<and> pmm_inv np s' \<and> live_ok ({b ..< b + n} - free_page_set s') live)"
proof -
  have "\<forall>q\<in>{b ..< b + n}. PageReserved (pages s) q" "\<forall>q<np. \<not> PageProperty (pages s) q"
    using assms(2,3) by auto
  with default_init_memmap_ok [OF assms(1) _ assms(3)] obtain s0 where
    s0: "default_init_memmap b n (default_init s) = Some s0" "pmm_inv np s0" "free_page_set s0 = {b ..< b + n}"
    "\<forall>q. q \<notin> {b ..< b + n} \<longrightarrow> PageReserved (pages s0) q = PageReserved (pages s) q" by blast
  have M: "managed np s0 = {b ..< b + n}"
    using s0 assms(2) dp.avail_mng [OF s0(2)] by (auto simp: managed_def)
  have "dp.client_ok np {b ..< b + n} (s0, [])"
    using s0(2) M by (simp add: dp.client_ok_def live_ok_def)
  note run = dp.run_client_ok [OF this]
  have "\<exists>s' live. pmm_run default_alloc_pages default_free_pages ops (s0, []) = Some (s', live)
       \<and> pmm_inv np s' \<and> live_ok ({b ..< b + n} - free_page_set s') live" for ops
    using run [of ops] by (auto simp: dp.client_ok_def)
  with s0(1) show ?thesis by blast
qed

theorem pmm_client_safe_witness:
  "\<exists>s0 s' live. default_init_memmap 2 6 (default_init (demo_pmm\<lparr>pages := (\<lambda>_. \<lparr>pg_ref = 0, pg_flags = 1, pg_property = 0\<rparr>)\<rparr>)) = Some s0
     \<and> pmm_run default_alloc_pages default_free_pages [AllocOp 1, AllocOp 2, FreeOp 1] (s0, []) = Some (s', live)
     \<and> pmm_inv 8 s'"
proof -
  let ?s = "demo_pmm\<lparr>pages := (\<lambda>_. \<lparr>pg_ref = 0, pg_flags = 1, pg_property = 0\<rparr>)\<rparr>"
  have "\<forall>q<8. PageReserved (pages ?s) q \<and> \<not> PageProperty (pages ?s) q"
    by (simp add: PageReserved_def PageProperty_def test_bit_def PG_reserved_def PG_property_def)
  note safe = pmm_client_safe [OF _ this, of 6 2]
  have "(0::nat) < 6" and "2 + 6 \<le> (8::nat)" by simp_all
  from safe [OF this] show ?thesis by blast
qed

end
