(* ===== verification/Bitmap.thy ===== *)
theory Bitmap
  imports Bit_Ops
begin

text \<open>
  The bitmap of \<open>kern/fs/sfs/bitmap.c\<close>, which the simple file system uses for its free blocks: a set bit
  means free. The words of the map are a list; indices into it are in range by the
  well-formedness predicate \<open>bitmap_wf\<close>. The two \<open>kmalloc\<close> calls of \<open>bitmap_create\<close> are represented by
  their outcomes.
\<close>

section \<open>Definitions\<close>

record bitmap =
  nbits :: u32
  nwords :: u32
  bm_map :: "u32 list"

definition WORD_BITS :: u32 where "WORD_BITS = 32"

function flip_overbits :: "nat \<Rightarrow> u32 \<Rightarrow> u32" where
  "flip_overbits overbits w =
     (if overbits < 32 then flip_overbits (Suc overbits) (w XOR push_bit overbits 1) else w)"
  by pat_completeness auto
termination by (relation "measure (\<lambda>(k, w). 32 - k)") auto

definition bitmap_create :: "bool \<Rightarrow> bool \<Rightarrow> u32 \<Rightarrow> bitmap option option" where
  "bitmap_create kmalloc1 kmalloc2 nb = do {
     kassert (nb \<noteq> 0 \<and> nb + WORD_BITS > nb);
     if \<not> kmalloc1 then Some None
     else let nw = ROUNDUP_DIV nb WORD_BITS in
     if \<not> kmalloc2 then Some None
     else let m = replicate (unat nw) 0xFFFFFFFF in
     if nb \<noteq> nw * WORD_BITS then do {
       let ix = nw - 1;
       let overbits = nb - ix * WORD_BITS;
       kassert (nb div WORD_BITS = ix);
       kassert (overbits > 0 \<and> overbits < WORD_BITS);
       Some (Some \<lparr>nbits = nb, nwords = nw,
                   bm_map = m[unat ix := flip_overbits (unat overbits) (m ! unat ix)]\<rparr>)
     } else Some (Some \<lparr>nbits = nb, nwords = nw, bm_map = m\<rparr>)
   }"

function scan_offset :: "nat \<Rightarrow> u32 \<Rightarrow> nat option" where
  "scan_offset offset w =
     (if offset < 32 then (if w AND push_bit offset 1 \<noteq> 0 then Some offset else scan_offset (Suc offset) w)
      else None)"
  by pat_completeness auto
termination by (relation "measure (\<lambda>(k, w). 32 - k)") auto

function scan_words :: "nat \<Rightarrow> nat \<Rightarrow> u32 list \<Rightarrow> (nat \<times> nat) option option" where
  "scan_words ix nw m =
     (if ix < nw then
        (if m ! ix \<noteq> 0 then map_option (\<lambda>offset. Some (ix, offset)) (scan_offset 0 (m ! ix))
         else scan_words (Suc ix) nw m)
      else Some None)"
  by pat_completeness auto
termination by (relation "measure (\<lambda>(ix, nw, m). nw - ix)") auto

declare flip_overbits.simps [simp del] scan_offset.simps [simp del] scan_words.simps [simp del]

text \<open>\<open>bitmap_alloc\<close> returns the error code, the stored index and the bitmap.\<close>

definition bitmap_alloc :: "bitmap \<Rightarrow> (int \<times> u32 option \<times> bitmap) option" where
  "bitmap_alloc b = do {
     r \<leftarrow> scan_words 0 (unat (nwords b)) (bm_map b);
     (case r of
        Some (ix, offset) \<Rightarrow>
          Some (0, Some (of_nat ix * WORD_BITS + of_nat offset),
                b\<lparr>bm_map := (bm_map b)[ix := bm_map b ! ix XOR push_bit offset 1]\<rparr>)
      | None \<Rightarrow> Some (- E_NO_MEM, None, b))
   }"

definition bitmap_translate :: "bitmap \<Rightarrow> u32 \<Rightarrow> (nat \<times> u32) option" where
  "bitmap_translate b index = do {
     kassert (index < nbits b);
     Some (unat (index div WORD_BITS), push_bit (unat (index mod WORD_BITS)) 1)
   }"

definition bitmap_test :: "bitmap \<Rightarrow> u32 \<Rightarrow> u32 option" where
  "bitmap_test b index = do {
     (ix, mask) \<leftarrow> bitmap_translate b index;
     Some (bm_map b ! ix AND mask)
   }"

definition bitmap_free :: "bitmap \<Rightarrow> u32 \<Rightarrow> bitmap option" where
  "bitmap_free b index = do {
     (ix, mask) \<leftarrow> bitmap_translate b index;
     kassert (bm_map b ! ix AND mask = 0);
     Some (b\<lparr>bm_map := (bm_map b)[ix := bm_map b ! ix OR mask]\<rparr>)
   }"

definition bitmap_getdata :: "bitmap \<Rightarrow> u32 list \<times> u32" where
  "bitmap_getdata b = (bm_map b, 4 * nwords b)"

section \<open>The set of free indices\<close>

definition bm_bit :: "u32 list \<Rightarrow> nat \<Rightarrow> bool" where
  "bm_bit m i \<longleftrightarrow> bit (m ! (i div 32)) (i mod 32)"

definition free_bits :: "bitmap \<Rightarrow> nat set" where
  "free_bits b = {i. i < unat (nbits b) \<and> bm_bit (bm_map b) i}"

definition bitmap_wf :: "bitmap \<Rightarrow> bool" where
  "bitmap_wf b \<longleftrightarrow> length (bm_map b) = unat (nwords b)
     \<and> unat (nbits b) \<le> 32 * unat (nwords b) \<and> 32 * unat (nwords b) < 2 ^ 32
     \<and> (\<forall>i < 32 * unat (nwords b). bm_bit (bm_map b) i \<longrightarrow> i < unat (nbits b))"

lemma and_push_bit_1: "(w :: u32) AND 2 ^ k = 0 \<longleftrightarrow> \<not> bit w k"
  using test_bit_iff [of k w] by (simp add: test_bit_def) blast

lemma bit_xor_push: "k < 32 \<Longrightarrow> bit ((w :: u32) XOR 2 ^ k) j \<longleftrightarrow> bit w j \<noteq> (j = k)"
  by (auto simp: bit_simps)

lemma bit_or_push: "k < 32 \<Longrightarrow> bit ((w :: u32) OR 2 ^ k) j \<longleftrightarrow> bit w j \<or> j = k"
  by (auto simp: bit_simps)

lemma bm_bit_update:
  assumes "ix < length m" and "off < 32"
  shows "bm_bit (m[ix := w]) i \<longleftrightarrow> (if i div 32 = ix then bit w (i mod 32) else bm_bit m i)"
  using assms by (auto simp: bm_bit_def nth_list_update)

lemma div_mod_32: "off < 32 \<Longrightarrow> i div 32 = (ix::nat) \<and> i mod 32 = off \<longleftrightarrow> i = 32 * ix + off"
  by auto

lemma bm_bit_xor:
  assumes "ix < length m" and "off < 32"
  shows "bm_bit (m[ix := m ! ix XOR push_bit off 1]) i \<longleftrightarrow> bm_bit m i \<noteq> (i = 32 * ix + off)"
  unfolding div_mod_32 [OF assms(2), of i ix, symmetric]
  using assms by (simp add: bm_bit_update bit_xor_push) (auto simp: bm_bit_def)

lemma bm_bit_or:
  assumes "ix < length m" and "off < 32"
  shows "bm_bit (m[ix := m ! ix OR push_bit off 1]) i \<longleftrightarrow> bm_bit m i \<or> i = 32 * ix + off"
  unfolding div_mod_32 [OF assms(2), of i ix, symmetric]
  using assms by (simp add: bm_bit_update bit_or_push) (auto simp: bm_bit_def)

lemma bit_flip_overbits: "bit (flip_overbits k w) j \<longleftrightarrow> bit w j \<noteq> (k \<le> j \<and> j < 32)"
proof (induction k w rule: flip_overbits.induct)
  case (1 k w)
  show ?case
  proof (cases "k < 32")
    case True
    with 1 show ?thesis by (subst flip_overbits.simps) (auto simp: bit_xor_push)
  qed (subst flip_overbits.simps, auto)
qed

section \<open>Scanning\<close>

lemma scan_offset_Some:
  "scan_offset k w = Some j \<longleftrightarrow> k \<le> j \<and> j < 32 \<and> bit w j \<and> (\<forall>i. k \<le> i \<and> i < j \<longrightarrow> \<not> bit w i)"
proof (induction k w rule: scan_offset.induct)
  case (1 k w)
  show ?case
  proof (cases "k < 32 \<and> \<not> bit w k")
    case True
    then have "scan_offset k w = scan_offset (Suc k) w"
      by (subst scan_offset.simps) (simp add: and_push_bit_1)
    moreover have "scan_offset (Suc k) w = Some j \<longleftrightarrow>
        Suc k \<le> j \<and> j < 32 \<and> bit w j \<and> (\<forall>i. Suc k \<le> i \<and> i < j \<longrightarrow> \<not> bit w i)"
      using 1 True by (simp add: and_push_bit_1)
    moreover have "Suc k \<le> j \<and> bit w j \<longleftrightarrow> k \<le> j \<and> bit w j"
      using True by (auto simp: Suc_le_eq order_le_less)
    moreover have "(\<forall>i. Suc k \<le> i \<and> i < j \<longrightarrow> \<not> bit w i) \<longleftrightarrow> (\<forall>i. k \<le> i \<and> i < j \<longrightarrow> \<not> bit w i)"
      using True by (metis Suc_leD Suc_leI le_neq_implies_less)
    ultimately show ?thesis by (simp only:) blast
  next
    case False
    then show ?thesis
      by (subst scan_offset.simps) (auto simp: and_push_bit_1 dest: le_neq_implies_less)
  qed
qed

lemma scan_offset_0:
  assumes "w \<noteq> 0" shows "\<exists>j. scan_offset 0 w = Some j"
proof -
  from assms obtain n where "bit w n" by (metis bit_eqI bit_0_eq bot_apply bot_bool_def)
  define j where "j = (LEAST n. bit w n)"
  have "bit w j" unfolding j_def using \<open>bit w n\<close> by (rule LeastI)
  moreover have "\<forall>i<j. \<not> bit w i" unfolding j_def using not_less_Least by blast
  moreover have "j < 32" using \<open>bit w j\<close> bit_imp_le_length by fastforce
  ultimately show ?thesis by (auto simp: scan_offset_Some)
qed

lemma scan_words_spec:
  assumes "length m = nw"
  shows "scan_words ix nw m = Some (Some (i, off)) \<Longrightarrow>
      ix \<le> i \<and> i < nw \<and> off < 32 \<and> bit (m ! i) off \<and> (\<forall>j<off. \<not> bit (m ! i) j)
      \<and> (\<forall>k. ix \<le> k \<and> k < i \<longrightarrow> m ! k = 0)"
    and "scan_words ix nw m = Some None \<Longrightarrow> \<forall>k. ix \<le> k \<and> k < nw \<longrightarrow> m ! k = 0"
    and "scan_words ix nw m \<noteq> None"
  using assms
proof (induction ix nw m rule: scan_words.induct)
  case (1 ix nw m)
  {
    case 1
    show ?case
    proof (cases "ix < nw \<and> m ! ix = 0")
      case True
      then have "scan_words (Suc ix) nw m = Some (Some (i, off))" using 1 by (subst (asm) scan_words.simps) simp
      from "1.IH"(1) [OF _ _ this] True 1(2) show ?thesis
        by (metis Suc_leD Suc_leI le_neq_implies_less)
    next
      case False
      with 1 show ?thesis by (subst (asm) scan_words.simps) (auto simp: scan_offset_Some split: if_splits)
    qed
  next
    case 2
    show ?case
    proof (cases "ix < nw \<and> m ! ix = 0")
      case True
      then have "scan_words (Suc ix) nw m = Some None" using 2 by (subst (asm) scan_words.simps) simp
      from "1.IH"(2) [OF _ _ this] True 2(2) show ?thesis
        by (metis Suc_leI le_neq_implies_less)
    next
      case False
      with 2 show ?thesis by (subst (asm) scan_words.simps) (auto split: if_splits)
    qed
  next
    case 3
    then show ?case
      using "1.IH"(3) scan_offset_0 [of "m ! ix"] by (subst scan_words.simps) auto
  }
qed

section \<open>Operations on the set of free indices\<close>

lemma unat_index:
  assumes "bitmap_wf b" and "ix < unat (nwords b)" and "off < 32"
  shows "unat (of_nat ix * WORD_BITS + of_nat off :: u32) = 32 * ix + off"
proof -
  have "32 * ix + off < 2 ^ 32" using assms by (simp add: bitmap_wf_def)
  moreover have "(of_nat ix * WORD_BITS + of_nat off :: u32) = of_nat (32 * ix + off)"
    by (simp add: WORD_BITS_def mult.commute)
  ultimately show ?thesis by (simp only: unat_of_nat_small)
qed

lemma bm_bit_below:
  assumes "\<forall>k<ix. m ! k = 0" and "\<forall>j<off. \<not> bit (m ! ix) j" and "off < 32" and "i < 32 * ix + off"
  shows "\<not> bm_bit m i"
proof (cases "i div 32 < ix")
  case True
  with assms(1) show ?thesis by (simp add: bm_bit_def)
next
  case False
  with assms(3,4) have "i div 32 = ix" by auto
  moreover from this assms(4) have "i mod 32 < off" by (metis add_less_cancel_left mult_div_mod_eq)
  ultimately show ?thesis using assms(2) by (simp add: bm_bit_def)
qed

lemma bitmap_alloc_ok:
  assumes wf: "bitmap_wf b"
  shows "if free_bits b = {} then bitmap_alloc b = Some (- E_NO_MEM, None, b)
    else \<exists>index b'. bitmap_alloc b = Some (0, Some index, b') \<and> bitmap_wf b' \<and> nbits b' = nbits b
      \<and> unat index = Min (free_bits b) \<and> free_bits b' = free_bits b - {unat index}"
proof -
  let ?m = "bm_map b" and ?nw = "unat (nwords b)"
  have len: "length ?m = ?nw" using wf by (simp add: bitmap_wf_def)
  note spec = scan_words_spec [OF len, of 0]
  have "scan_words 0 ?nw ?m \<noteq> None" by (rule spec(3))
  then consider "scan_words 0 ?nw ?m = Some None" | ix off where "scan_words 0 ?nw ?m = Some (Some (ix, off))"
    by (cases "scan_words 0 ?nw ?m") (auto, metis option.exhaust surj_pair)
  then show ?thesis
  proof cases
    case 1
    have "i < 32 * ?nw \<Longrightarrow> \<not> bm_bit ?m i" for i
      using spec(2) [OF 1] by (simp add: bm_bit_def less_mult_imp_div_less mult.commute)
    then have "free_bits b = {}" using wf by (auto simp: free_bits_def bitmap_wf_def)
    with 1 show ?thesis by (simp add: bitmap_alloc_def)
  next
    case 2
    let ?i = "32 * ix + off" and ?index = "of_nat ix * WORD_BITS + of_nat off :: u32"
    let ?b' = "b\<lparr>bm_map := ?m[ix := ?m ! ix XOR push_bit off 1]\<rparr>"
    from spec(1) [OF 2] have ix: "ix < ?nw" "off < 32" "bit (?m ! ix) off"
      and low: "\<forall>j<off. \<not> bit (?m ! ix) j" "\<forall>k<ix. ?m ! k = 0" by auto
    have eq: "bitmap_alloc b = Some (0, Some ?index, ?b')" using 2 by (simp add: bitmap_alloc_def)
    have un: "unat ?index = ?i" using unat_index [OF wf ix(1,2)] .
    have bi: "bm_bit ?m ?i" using ix by (simp add: bm_bit_def)
    have "?i < 32 * ?nw" using ix by simp
    with bi wf have inb: "?i < unat (nbits b)" by (auto simp: bitmap_wf_def)
    with bi have mem: "?i \<in> free_bits b" by (simp add: free_bits_def)
    have "Min (free_bits b) = ?i"
    proof (rule Min_eqI)
      fix y assume "y \<in> free_bits b"
      then have "bm_bit ?m y" by (simp add: free_bits_def)
      with bm_bit_below [OF low(2,1) ix(2), of y] show "?i \<le> y" by (meson leI)
    qed (use mem in \<open>auto simp: free_bits_def\<close>)
    moreover have bb: "bm_bit (bm_map ?b') i \<longleftrightarrow> bm_bit ?m i \<noteq> (i = ?i)" for i
      using bm_bit_xor [of ix ?m off i] ix len by simp
    have fb: "free_bits ?b' = free_bits b - {?i}" using bb bi by (auto simp: free_bits_def)
    moreover have "bitmap_wf ?b'" using wf bb bi by (auto simp: bitmap_wf_def)
    ultimately show ?thesis using eq un mem by auto
  qed
qed

lemma bitmap_translate_ok:
  assumes "bitmap_wf b" and "index < nbits b"
  shows "\<exists>ix off. ix < length (bm_map b) \<and> off < 32 \<and> unat index = 32 * ix + off
    \<and> bitmap_translate b index = Some (ix, push_bit off 1)"
proof (intro exI conjI)
  let ?ix = "unat index div 32" and ?off = "unat index mod 32"
  show "?ix < length (bm_map b)"
    using assms by (simp add: bitmap_wf_def word_less_nat_alt less_mult_imp_div_less mult.commute)
  show "bitmap_translate b index = Some (?ix, push_bit ?off 1)"
    using assms(2) by (simp add: bitmap_translate_def WORD_BITS_def unat_div unat_mod)
qed simp_all

lemma bitmap_test_ok:
  assumes "bitmap_wf b" and "index < nbits b"
  shows "\<exists>v. bitmap_test b index = Some v \<and> (v \<noteq> 0 \<longleftrightarrow> unat index \<in> free_bits b)"
proof -
  from bitmap_translate_ok [OF assms] obtain ix off where t: "off < 32" "unat index = 32 * ix + off"
    "bitmap_translate b index = Some (ix, push_bit off 1)" by blast
  with assms(2) show ?thesis
    by (auto simp: bitmap_test_def free_bits_def bm_bit_def and_push_bit_1 word_less_nat_alt)
qed

lemma bitmap_free_ok:
  assumes "bitmap_wf b"
  shows "if index < nbits b \<and> unat index \<notin> free_bits b
    then \<exists>b'. bitmap_free b index = Some b' \<and> bitmap_wf b' \<and> nbits b' = nbits b
           \<and> free_bits b' = insert (unat index) (free_bits b)
    else bitmap_free b index = None"
proof (cases "index < nbits b")
  case True
  from bitmap_translate_ok [OF assms True] obtain ix off where t: "ix < length (bm_map b)" "off < 32"
    "unat index = 32 * ix + off" "bitmap_translate b index = Some (ix, push_bit off 1)" by blast
  have lt: "unat index < unat (nbits b)" using True by (simp add: word_less_nat_alt)
  have mem: "unat index \<in> free_bits b \<longleftrightarrow> bit (bm_map b ! ix) off"
    using t lt by (simp add: free_bits_def bm_bit_def)
  have bb: "bm_bit ((bm_map b)[ix := bm_map b ! ix OR push_bit off 1]) i \<longleftrightarrow> bm_bit (bm_map b) i \<or> i = unat index" for i
    using bm_bit_or [of ix "bm_map b" off i] t by simp
  show ?thesis
  proof (cases "unat index \<in> free_bits b")
    case True
    with mem t show ?thesis by (simp add: bitmap_free_def and_push_bit_1)
  next
    case F: False
    with mem t have "bitmap_free b index = Some (b\<lparr>bm_map := (bm_map b)[ix := bm_map b ! ix OR push_bit off 1]\<rparr>)"
      by (simp add: bitmap_free_def and_push_bit_1)
    with True F bb lt assms show ?thesis by (auto simp: bitmap_wf_def free_bits_def)
  qed
next
  case False
  then show ?thesis by (simp add: bitmap_free_def bitmap_translate_def)
qed

lemma bm_bit_replicate: "i < 32 * n \<Longrightarrow> bm_bit (replicate n 0xFFFFFFFF) i"
proof -
  assume "i < 32 * n"
  then have "i div 32 < n" by (simp add: less_mult_imp_div_less mult.commute)
  moreover have "bit (0xFFFFFFFF :: u32) k" if "k < 32" for k
  proof -
    have "(0xFFFFFFFF :: u32) = mask 32" by (simp add: mask_eq_decr_exp)
    with that show ?thesis by (simp only: bit_mask_iff) simp
  qed
  ultimately show ?thesis by (simp add: bm_bit_def)
qed

text \<open>The arithmetic of the last, partly used word.\<close>

lemma create_words:
  fixes nb :: u32
  assumes "nb \<noteq> 0" and "nb + WORD_BITS > nb"
  defines "nw \<equiv> ROUNDUP_DIV nb WORD_BITS"
  shows "unat nw = (unat nb + 31) div 32" and "unat nb + 32 \<le> 2 ^ 32" and "0 < unat nb"
    and "unat (nw * WORD_BITS) = 32 * unat nw" and "unat (nw - 1) = unat nw - 1"
    and "unat ((nw - 1) * WORD_BITS) = 32 * (unat nw - 1)"
proof -
  show pos: "0 < unat nb" using assms(1) by (simp add: unat_gt_0)
  show le: "unat nb + 32 \<le> 2 ^ 32"
  proof (rule ccontr)
    assume "\<not> unat nb + 32 \<le> 2 ^ 32"
    then have "unat (nb + WORD_BITS) = unat nb + 32 - 2 ^ 32"
      using unat_bound32 [of nb]
      by (simp add: WORD_BITS_def unat_word_ariths le_mod_geq)
    with assms(2) show False using unat_bound32 [of nb] by (simp add: word_less_nat_alt)
  qed
  have "unat (nb + WORD_BITS - 1) = unat nb + 31"
    using unat_ROUNDUP_pre [of WORD_BITS nb] le by (simp add: WORD_BITS_def)
  then show nw: "unat nw = (unat nb + 31) div 32"
    by (simp add: nw_def ROUNDUP_DIV_def unat_div) (simp add: WORD_BITS_def)
  have small: "32 * unat nw < 2 ^ 32" using nw le by simp
  then show "unat (nw * WORD_BITS) = 32 * unat nw"
    by (subst unat_mult_no_wrap) (simp_all add: WORD_BITS_def)
  have "0 < unat nw" using nw pos by simp
  then have "nw \<noteq> 0" by (simp add: unat_gt_0)
  then show m1: "unat (nw - 1) = unat nw - 1" by (rule unat_minus_one)
  show "unat ((nw - 1) * WORD_BITS) = 32 * (unat nw - 1)"
    using small by (subst unat_mult_no_wrap) (simp_all add: WORD_BITS_def m1)
qed

lemma below_div_mod:
  fixes i n :: nat
  assumes "i div 32 \<le> n div 32"
  shows "\<not> (i div 32 = n div 32 \<and> n mod 32 \<le> i mod 32) \<longleftrightarrow> i < n"
proof -
  show ?thesis
  proof (cases "i div 32 = n div 32")
    case True
    then have "i < n \<longleftrightarrow> i mod 32 < n mod 32" by (metis add_less_cancel_left mult_div_mod_eq)
    with True show ?thesis by (simp add: not_le)
  next
    case False
    with assms have "i div 32 < n div 32" by simp
    then have "i < n" by (metis div_le_mono not_le)
    with False show ?thesis by simp
  qed
qed

lemma bitmap_create_ok:
  assumes "nb \<noteq> 0" and "nb + WORD_BITS > nb"
  shows "\<exists>b. bitmap_create True True nb = Some (Some b) \<and> bitmap_wf b \<and> nbits b = nb
    \<and> free_bits b = {..<unat nb}"
proof -
  let ?nw = "ROUNDUP_DIV nb WORD_BITS"
  let ?m = "replicate (unat ?nw) (0xFFFFFFFF :: u32)"
  note w = create_words [OF assms]
  have small: "32 * unat ?nw < 2 ^ 32" using w(1,2) by simp
  have ge: "unat nb \<le> 32 * unat ?nw" using w(1) by simp
  show ?thesis
  proof (cases "nb = ?nw * WORD_BITS")
    case True
    then have "unat nb = 32 * unat ?nw" using w(4) by metis
    then have "bitmap_wf \<lparr>nbits = nb, nwords = ?nw, bm_map = ?m\<rparr>"
      and "free_bits \<lparr>nbits = nb, nwords = ?nw, bm_map = ?m\<rparr> = {..<unat nb}"
      using small by (auto simp: bitmap_wf_def free_bits_def bm_bit_replicate)
    then show ?thesis using assms True by (simp add: bitmap_create_def Let_def)
  next
    case False
    let ?ix = "?nw - 1" and ?over = "nb - (?nw - 1) * WORD_BITS"
    have ne: "unat nb \<noteq> 32 * unat ?nw" using False w(4) by (metis word_unat_eq_iff)
    have pos: "0 < unat ?nw" using w(1,3) by simp
    have ix: "unat nb div 32 = unat ?nw - 1" using w(1,3) ne by auto
    have over: "unat ?over = unat nb mod 32"
    proof -
      have "(?nw - 1) * WORD_BITS \<le> nb" using w(6) ix by (simp add: word_le_nat_alt flip: ix)
      then have "unat ?over = unat nb - 32 * (unat nb div 32)" using w(6) ix by (simp add: unat_sub)
      then show ?thesis by (simp add: minus_mult_div_eq_mod)
    qed
    have "unat nb mod 32 \<noteq> 0" using ne unfolding w(1) by presburger
    then have as: "nb div WORD_BITS = ?ix" "0 < ?over" "?over < WORD_BITS"
      using w(5) ix over by (auto simp: word_unat_eq_iff word_less_nat_alt unat_div WORD_BITS_def)
    let ?w = "flip_overbits (unat ?over) (?m ! unat ?ix)"
    let ?b = "\<lparr>nbits = nb, nwords = ?nw, bm_map = ?m[unat ?ix := ?w]\<rparr>"
    have eq: "bitmap_create True True nb = Some (Some ?b)"
      using assms False as by (simp add: bitmap_create_def Let_def)
    have bb: "bm_bit (bm_map ?b) i \<longleftrightarrow> i < unat nb" if i: "i < 32 * unat ?nw" for i
    proof -
      have "bm_bit (bm_map ?b) i \<longleftrightarrow> bm_bit ?m i \<noteq> (i div 32 = unat nb div 32 \<and> unat nb mod 32 \<le> i mod 32)"
        using pos w(5) ix over by (auto simp: bm_bit_def nth_list_update bit_flip_overbits)
      also have "\<dots> \<longleftrightarrow> \<not> (i div 32 = unat nb div 32 \<and> unat nb mod 32 \<le> i mod 32)"
        using bm_bit_replicate [OF i] by simp
      also have "\<dots> \<longleftrightarrow> i < unat nb"
      proof -
        have "i div 32 \<le> unat nb div 32" using i ix pos by auto
        then show ?thesis by (rule below_div_mod)
      qed
      finally show ?thesis .
    qed
    have "bitmap_wf ?b" using bb small ge by (auto simp: bitmap_wf_def)
    moreover have "free_bits ?b = {..<unat nb}" using bb ge by (auto simp: free_bits_def)
    ultimately show ?thesis using eq by auto
  qed
qed

section \<open>A pool of indices\<close>

text \<open>
  The contract the file system relies on when it allocates disk blocks from the bitmap: \<open>pool s\<close> are
  the indices that can still be handed out.
\<close>

fun alloc_n :: "('s \<Rightarrow> (int \<times> u32 option \<times> 's) option) \<Rightarrow> nat \<Rightarrow> 's \<Rightarrow> (u32 list \<times> 's) option" where
  "alloc_n al 0 s = Some ([], s)"
| "alloc_n al (Suc n) s = do {
     (ret, ix, s1) \<leftarrow> al s;
     i \<leftarrow> ix;
     (is, s2) \<leftarrow> alloc_n al n s1;
     Some (i # is, s2)
   }"

locale index_pool =
  fixes inv :: "'s \<Rightarrow> bool"
    and pool :: "'s \<Rightarrow> nat set"
    and bound :: "'s \<Rightarrow> nat"
    and alloc :: "'s \<Rightarrow> (int \<times> u32 option \<times> 's) option"
    and free :: "'s \<Rightarrow> u32 \<Rightarrow> 's option"
  assumes pool_bound: "inv s \<Longrightarrow> pool s \<subseteq> {..<bound s}"
    and alloc_full: "inv s \<Longrightarrow> pool s = {} \<Longrightarrow> alloc s = Some (- E_NO_MEM, None, s)"
    and alloc_some: "inv s \<Longrightarrow> pool s \<noteq> {} \<Longrightarrow> \<exists>i s'. alloc s = Some (0, Some i, s') \<and> inv s' \<and> bound s' = bound s
        \<and> unat i \<in> pool s \<and> pool s' = pool s - {unat i}"
    and free_some: "inv s \<Longrightarrow> unat i < bound s \<Longrightarrow> unat i \<notin> pool s \<Longrightarrow>
        \<exists>s'. free s i = Some s' \<and> inv s' \<and> bound s' = bound s \<and> pool s' = insert (unat i) (pool s)"
begin

lemma alloc_free_restores:
  assumes "inv s" and "alloc s = Some (0, Some i, s1)"
  shows "\<exists>s2. free s1 i = Some s2 \<and> inv s2 \<and> pool s2 = pool s"
proof -
  have "pool s \<noteq> {}" using alloc_full [OF assms(1)] assms(2) by (auto simp: E_NO_MEM_def)
  from alloc_some [OF assms(1) this] assms(2) have "inv s1" "bound s1 = bound s" "unat i \<in> pool s"
    "pool s1 = pool s - {unat i}" by auto
  with free_some [of s1 i] pool_bound [OF assms(1)] show ?thesis by fastforce
qed

lemma alloc_n_distinct:
  "inv s \<Longrightarrow> n \<le> card (pool s) \<Longrightarrow> \<exists>is s'. alloc_n alloc n s = Some (is, s') \<and> inv s' \<and> length is = n
     \<and> distinct (map unat is) \<and> unat ` set is \<subseteq> pool s \<and> pool s' = pool s - unat ` set is"
proof (induction n arbitrary: s)
  case (Suc n)
  from Suc.prems(2) have ne: "pool s \<noteq> {}" by auto
  from alloc_some [OF Suc.prems(1) ne] obtain i s1 where a: "alloc s = Some (0, Some i, s1)" "inv s1"
    "unat i \<in> pool s" "pool s1 = pool s - {unat i}" by blast
  have "finite (pool s)" using pool_bound [OF Suc.prems(1)] finite_subset by blast
  with a Suc.prems(2) have "n \<le> card (pool s1)" by simp
  from Suc.IH [OF a(2) this] obtain "is" s' where r: "alloc_n alloc n s1 = Some (is, s')" "inv s'" "length is = n"
    "distinct (map unat is)" "unat ` set is \<subseteq> pool s1" "pool s' = pool s1 - unat ` set is" by blast
  with a show ?case by (auto simp: a)
qed simp

end

interpretation bm: index_pool bitmap_wf free_bits "\<lambda>b. unat (nbits b)" bitmap_alloc bitmap_free
proof
  fix b :: bitmap and i :: u32
  assume wf: "bitmap_wf b"
  show "free_bits b \<subseteq> {..<unat (nbits b)}" by (auto simp: free_bits_def)
  then have fin: "finite (free_bits b)" by (rule finite_subset) simp
  show "free_bits b = {} \<Longrightarrow> bitmap_alloc b = Some (- E_NO_MEM, None, b)"
    using bitmap_alloc_ok [OF wf] by simp
  show "free_bits b \<noteq> {} \<Longrightarrow> \<exists>i s'. bitmap_alloc b = Some (0, Some i, s') \<and> bitmap_wf s'
      \<and> unat (nbits s') = unat (nbits b) \<and> unat i \<in> free_bits b \<and> free_bits s' = free_bits b - {unat i}"
    using bitmap_alloc_ok [OF wf] Min_in [OF fin] by (auto split: if_splits)
  show "unat i < unat (nbits b) \<Longrightarrow> unat i \<notin> free_bits b \<Longrightarrow> \<exists>s'. bitmap_free b i = Some s' \<and> bitmap_wf s'
      \<and> unat (nbits s') = unat (nbits b) \<and> free_bits s' = insert (unat i) (free_bits b)"
    using bitmap_free_ok [OF wf, of i] by (auto simp: word_less_nat_alt split: if_splits)
qed

section \<open>Properties\<close>

text \<open>
  C35: a bitmap created for \<open>nb\<close> indices is well formed with all \<open>nb\<close> indices free, whatever the width of
  the partly used last word; \<open>n \<le> nb\<close> allocations from it succeed, return pairwise different indices
  below \<open>nb\<close> and leave exactly the others free; and when all are taken the next
  allocation returns \<open>-E_NO_MEM\<close> and changes nothing.
\<close>

theorem bitmap_alloc_sound:
  assumes "nb \<noteq> 0" and "nb + WORD_BITS > nb"
  shows "\<exists>b. bitmap_create True True nb = Some (Some b) \<and> free_bits b = {..<unat nb} \<and>
    (\<forall>n\<le>unat nb. \<exists>is b'. alloc_n bitmap_alloc n b = Some (is, b') \<and> distinct (map unat is) \<and> length is = n
       \<and> unat ` set is \<subseteq> {..<unat nb} \<and> free_bits b' = {..<unat nb} - unat ` set is
       \<and> (n = unat nb \<longrightarrow> bitmap_alloc b' = Some (- E_NO_MEM, None, b')))"
proof -
  from bitmap_create_ok [OF assms] obtain b where b: "bitmap_create True True nb = Some (Some b)"
    "bitmap_wf b" "free_bits b = {..<unat nb}" by blast
  have "\<exists>is b'. alloc_n bitmap_alloc n b = Some (is, b') \<and> distinct (map unat is) \<and> length is = n
       \<and> unat ` set is \<subseteq> {..<unat nb} \<and> free_bits b' = {..<unat nb} - unat ` set is
       \<and> (n = unat nb \<longrightarrow> bitmap_alloc b' = Some (- E_NO_MEM, None, b'))" if n: "n \<le> unat nb" for n
  proof -
    from bm.alloc_n_distinct [OF b(2), of n] n b(3) obtain "is" b' where r:
      "alloc_n bitmap_alloc n b = Some (is, b')" "bitmap_wf b'" "length is = n" "distinct (map unat is)"
      "unat ` set is \<subseteq> {..<unat nb}" "free_bits b' = {..<unat nb} - unat ` set is" by auto
    have "card (unat ` set is) = n" using r(3,4) by (metis distinct_card length_map set_map)
    then have "free_bits b' = {}" if "n = unat nb"
      using that r(5,6) card_subset_eq [of "{..<unat nb}" "unat ` set is"] by simp
    with r bm.alloc_full [OF r(2)] show ?thesis by auto
  qed
  with b show ?thesis by blast
qed

theorem bitmap_alloc_sound_witness:
  "\<exists>b. bitmap_create True True 40 = Some (Some b) \<and> free_bits b = {..<40}"
  using bitmap_alloc_sound [of 40] by (auto simp: WORD_BITS_def)

text \<open>
  \<open>bitmap_free\<close> accepts exactly the indices in range that are currently allocated: it then makes
  the index free again and changes no other bit. Freeing an index out of range or one that is
  already free is a kernel panic, and \<open>bitmap_test\<close> reports which indices are free.
\<close>

theorem bitmap_free_checked:
  assumes "bitmap_wf b"
  shows "(if index < nbits b \<and> unat index \<notin> free_bits b
      then \<exists>b'. bitmap_free b index = Some b' \<and> bitmap_wf b' \<and> nbits b' = nbits b
           \<and> free_bits b' = insert (unat index) (free_bits b)
      else bitmap_free b index = None)
    \<and> (index < nbits b \<longrightarrow> (\<exists>v. bitmap_test b index = Some v \<and> (v \<noteq> 0 \<longleftrightarrow> unat index \<in> free_bits b)))"
  using bitmap_free_ok [OF assms] bitmap_test_ok [OF assms] by blast

theorem bitmap_free_checked_witness:
  "bitmap_free \<lparr>nbits = 2, nwords = 1, bm_map = [1]\<rparr> 0 = None
   \<and> (\<exists>b'. bitmap_free \<lparr>nbits = 2, nwords = 1, bm_map = [1]\<rparr> 1 = Some b')"
proof -
  let ?b = "\<lparr>nbits = 2, nwords = 1, bm_map = [1]\<rparr>"
  have wf: "bitmap_wf ?b" by (auto simp: bitmap_wf_def bm_bit_def bit_1_iff)
  have "0 \<in> free_bits ?b" "1 \<notin> free_bits ?b" by (auto simp: free_bits_def bm_bit_def bit_1_iff)
  then show ?thesis
    using bitmap_free_checked [OF wf, of 0] bitmap_free_checked [OF wf, of 1] by (auto split: if_splits)
qed

end
