(* ===== verification/Sched.thy ===== *)
theory Sched
  imports Link_List Bit_Ops
begin

text \<open>
  The process descriptor fields the scheduler works on (\<open>kern/process/proc.h\<close>), the round-robin
  scheduling class (\<open>kern/schedule/default_sched.c\<close>), and the scheduler core and timers
  (\<open>kern/schedule/sched.c\<close>).

  A \<open>struct proc_struct\<close> is addressed by a natural number; a null pointer is \<open>None\<close>. The run queue and
  the timer list are the lists of the objects linked in them; an object's own link is empty
  (\<open>list_empty\<close> on it) exactly when it is in no list, which \<open>list_del_init\<close> guarantees
  (\<open>Link_List.ring_list_del_init\<close>). Interrupts are disabled inside every function, so each is one
  step. \<open>switch_to\<close> is assembly: \<open>proc_run\<close> records the switch as the change of \<open>current\<close>.
\<close>

section \<open>Processes, run queue, timers\<close>

datatype proc_state = PROC_UNINIT | PROC_SLEEPING | PROC_RUNNABLE | PROC_ZOMBIE

record proc_struct =
  p_state :: proc_state
  p_pid :: int
  p_runs :: int
  p_need_resched :: bool
  p_parent :: "nat option"
  p_flags :: u32
  p_exit_code :: int
  p_wait_state :: u32
  p_cptr :: "nat option"
  p_yptr :: "nat option"
  p_optr :: "nat option"
  p_on_rq :: bool
  p_time_slice :: int
  p_kstack :: "nat option"

record timer =
  expires :: nat
  t_proc :: nat

record sched =
  procs :: "nat \<Rightarrow> proc_struct"
  current :: nat
  idleproc :: nat
  run_list :: "nat list"
  proc_num :: nat
  max_time_slice :: int
  timer_list :: "nat list"
  timers :: "nat \<Rightarrow> timer"

definition WT_INTERRUPTED :: u32 where "WT_INTERRUPTED = 0x80000000"
definition WT_CHILD :: u32 where "WT_CHILD = 0x00000001 OR WT_INTERRUPTED"
definition WT_KSEM :: u32 where "WT_KSEM = 0x00000100"
definition WT_TIMER :: u32 where "WT_TIMER = 0x00000002 OR WT_INTERRUPTED"
definition WT_KBD :: u32 where "WT_KBD = 0x00000004 OR WT_INTERRUPTED"
definition MAX_TIME_SLICE :: int where "MAX_TIME_SLICE = 20"

definition upd_proc :: "nat \<Rightarrow> (proc_struct \<Rightarrow> proc_struct) \<Rightarrow> 'a sched_scheme \<Rightarrow> 'a sched_scheme" where
  "upd_proc p f s = s\<lparr>procs := (procs s)(p := f (procs s p))\<rparr>"

section \<open>The round-robin class\<close>

definition RR_init :: "'a sched_scheme \<Rightarrow> 'a sched_scheme" where
  "RR_init s = s\<lparr>run_list := [], proc_num := 0\<rparr>"

definition RR_enqueue :: "nat \<Rightarrow> 'a sched_scheme \<Rightarrow> 'a sched_scheme option" where
  "RR_enqueue proc s = do {
     kassert (proc \<notin> set (run_list s));
     let s = s\<lparr>run_list := run_list s @ [proc]\<rparr>;
     let s = (if p_time_slice (procs s proc) = 0 \<or> p_time_slice (procs s proc) > max_time_slice s
              then upd_proc proc (p_time_slice_update (\<lambda>_. max_time_slice s)) s else s);
     let s = upd_proc proc (p_on_rq_update (\<lambda>_. True)) s;
     Some (s\<lparr>proc_num := proc_num s + 1\<rparr>)
   }"

definition RR_dequeue :: "nat \<Rightarrow> 'a sched_scheme \<Rightarrow> 'a sched_scheme option" where
  "RR_dequeue proc s = do {
     kassert (proc \<in> set (run_list s) \<and> p_on_rq (procs s proc));
     Some (s\<lparr>run_list := remove1 proc (run_list s), proc_num := proc_num s - 1\<rparr>)
   }"

definition RR_pick_next :: "'a sched_scheme \<Rightarrow> nat option" where
  "RR_pick_next s = (case run_list s of [] \<Rightarrow> None | p # _ \<Rightarrow> Some p)"

definition RR_proc_tick :: "nat \<Rightarrow> 'a sched_scheme \<Rightarrow> 'a sched_scheme" where
  "RR_proc_tick proc s =
     (let s = (if p_time_slice (procs s proc) > 0
               then upd_proc proc (p_time_slice_update (\<lambda>v. v - 1)) s else s)
      in if p_time_slice (procs s proc) = 0
         then upd_proc proc (p_need_resched_update (\<lambda>_. True)) s else s)"

section \<open>The scheduler core\<close>

definition sched_class_enqueue :: "nat \<Rightarrow> 'a sched_scheme \<Rightarrow> 'a sched_scheme option" where
  "sched_class_enqueue proc s = (if proc \<noteq> idleproc s then RR_enqueue proc s else Some s)"

definition sched_class_dequeue :: "nat \<Rightarrow> 'a sched_scheme \<Rightarrow> 'a sched_scheme option" where
  "sched_class_dequeue proc s = RR_dequeue proc s"

definition sched_class_pick_next :: "'a sched_scheme \<Rightarrow> nat option" where
  "sched_class_pick_next s = RR_pick_next s"

definition sched_class_proc_tick :: "nat \<Rightarrow> 'a sched_scheme \<Rightarrow> 'a sched_scheme" where
  "sched_class_proc_tick proc s =
     (if proc \<noteq> idleproc s then RR_proc_tick proc s
      else upd_proc proc (p_need_resched_update (\<lambda>_. True)) s)"

definition sched_init :: "'a sched_scheme \<Rightarrow> 'a sched_scheme" where
  "sched_init s = RR_init (s\<lparr>timer_list := [], max_time_slice := MAX_TIME_SLICE\<rparr>)"

definition wakeup_proc :: "nat \<Rightarrow> 'a sched_scheme \<Rightarrow> 'a sched_scheme option" where
  "wakeup_proc proc s = do {
     kassert (p_state (procs s proc) \<noteq> PROC_ZOMBIE);
     if p_state (procs s proc) \<noteq> PROC_RUNNABLE then do {
       let s = upd_proc proc (p_state_update (\<lambda>_. PROC_RUNNABLE)) s;
       let s = upd_proc proc (p_wait_state_update (\<lambda>_. 0)) s;
       if proc \<noteq> current s then sched_class_enqueue proc s else Some s
     } else Some s
   }"

definition proc_run :: "nat \<Rightarrow> 'a sched_scheme \<Rightarrow> 'a sched_scheme" where
  "proc_run proc s = (if proc \<noteq> current s then s\<lparr>current := proc\<rparr> else s)"

definition schedule :: "'a sched_scheme \<Rightarrow> 'a sched_scheme option" where
  "schedule s = do {
     let s = upd_proc (current s) (p_need_resched_update (\<lambda>_. False)) s;
     s \<leftarrow> (if p_state (procs s (current s)) = PROC_RUNNABLE then sched_class_enqueue (current s) s else Some s);
     let picked = sched_class_pick_next s;
     s \<leftarrow> (case picked of Some p \<Rightarrow> sched_class_dequeue p s | None \<Rightarrow> Some s);
     let nxt = (case picked of None \<Rightarrow> idleproc s | Some p \<Rightarrow> p);
     let s = upd_proc nxt (p_runs_update (\<lambda>r. r + 1)) s;
     Some (if nxt \<noteq> current s then proc_run nxt s else s)
   }"

section \<open>Timers\<close>

definition timer_init :: "nat \<Rightarrow> nat \<Rightarrow> nat \<Rightarrow> 'a sched_scheme \<Rightarrow> 'a sched_scheme" where
  "timer_init t proc e s = s\<lparr>timers := (timers s)(t := \<lparr>expires = e, t_proc = proc\<rparr>)\<rparr>"

definition upd_expires :: "nat \<Rightarrow> (nat \<Rightarrow> nat) \<Rightarrow> (nat \<Rightarrow> timer) \<Rightarrow> (nat \<Rightarrow> timer)" where
  "upd_expires t f tm = tm(t := expires_update f (tm t))"

text \<open>The search loop of \<open>add_timer\<close>: returns the timers and the list with the new timer linked in.\<close>

fun add_timer_loop :: "nat \<Rightarrow> (nat \<Rightarrow> timer) \<Rightarrow> nat list \<Rightarrow> (nat \<Rightarrow> timer) \<times> nat list" where
  "add_timer_loop t tm [] = (tm, [t])"
| "add_timer_loop t tm (nx # le) =
     (if expires (tm t) < expires (tm nx)
      then (upd_expires nx (\<lambda>e. e - expires (tm t)) tm, t # nx # le)
      else let (tm', le') = add_timer_loop t (upd_expires t (\<lambda>e. e - expires (tm nx)) tm) le
           in (tm', nx # le'))"

definition add_timer :: "nat \<Rightarrow> 'a sched_scheme \<Rightarrow> 'a sched_scheme option" where
  "add_timer t s = do {
     kassert (expires (timers s t) > 0);
     kassert (t \<notin> set (timer_list s));
     let (tm, tl) = add_timer_loop t (timers s) (timer_list s);
     Some (s\<lparr>timers := tm, timer_list := tl\<rparr>)
   }"

fun del_timer_list :: "nat \<Rightarrow> (nat \<Rightarrow> timer) \<Rightarrow> nat list \<Rightarrow> (nat \<Rightarrow> timer) \<times> nat list" where
  "del_timer_list t tm [] = (tm, [])"
| "del_timer_list t tm (x # xs) =
     (if x = t
      then ((if expires (tm t) \<noteq> 0 then (case xs of [] \<Rightarrow> tm | nx # _ \<Rightarrow> upd_expires nx (\<lambda>e. e + expires (tm t)) tm)
             else tm), xs)
      else let (tm', xs') = del_timer_list t tm xs in (tm', x # xs'))"

definition del_timer :: "nat \<Rightarrow> 'a sched_scheme \<Rightarrow> 'a sched_scheme" where
  "del_timer t s =
     (if t \<in> set (timer_list s)
      then (let (tm, tl) = del_timer_list t (timers s) (timer_list s) in s\<lparr>timers := tm, timer_list := tl\<rparr>)
      else s)"

text \<open>The firing loop of \<open>run_timer_list\<close>, over the list entries from the head.\<close>

fun fire_timers :: "nat list \<Rightarrow> 'a sched_scheme \<Rightarrow> 'a sched_scheme option" where
  "fire_timers [] s = Some s"
| "fire_timers (t # le) s =
     (if expires (timers s t) = 0 then do {
        let proc = t_proc (timers s t);
        kassert (p_wait_state (procs s proc) \<noteq> 0 \<longrightarrow> p_wait_state (procs s proc) AND WT_INTERRUPTED \<noteq> 0);
        s \<leftarrow> wakeup_proc proc s;
        fire_timers le (del_timer t s)
      } else Some s)"

definition run_timer_list :: "'a sched_scheme \<Rightarrow> 'a sched_scheme option" where
  "run_timer_list s = do {
     s \<leftarrow> (case timer_list s of
             [] \<Rightarrow> Some s
           | t # _ \<Rightarrow> do {
               kassert (expires (timers s t) \<noteq> 0);
               fire_timers (timer_list s) (s\<lparr>timers := upd_expires t (\<lambda>e. e - 1) (timers s)\<rparr>)
             });
     Some (sched_class_proc_tick (current s) s)
   }"

section \<open>Invariant of the run queue\<close>

definition sched_inv :: "'a sched_scheme \<Rightarrow> bool" where
  "sched_inv s \<longleftrightarrow>
     distinct (run_list s) \<and> idleproc s \<notin> set (run_list s) \<and> current s \<notin> set (run_list s) \<and>
     (\<forall>p \<in> set (run_list s). p_state (procs s p) = PROC_RUNNABLE \<and> p_on_rq (procs s p)) \<and>
     proc_num s = length (run_list s) \<and> p_state (procs s (idleproc s)) = PROC_RUNNABLE \<and>
     (\<forall>p. p_state (procs s p) = PROC_RUNNABLE \<longrightarrow> p \<in> set (run_list s) \<or> p = current s \<or> p = idleproc s)"

text \<open>The processes that compete in the next call of \<open>schedule\<close>, in order.\<close>

definition candidates :: "'a sched_scheme \<Rightarrow> nat list" where
  "candidates s = run_list s @
     (if p_state (procs s (current s)) = PROC_RUNNABLE \<and> current s \<noteq> idleproc s then [current s] else [])"

lemmas sched_ops = wakeup_proc_def schedule_def sched_class_enqueue_def sched_class_dequeue_def
  sched_class_pick_next_def RR_enqueue_def RR_dequeue_def RR_pick_next_def proc_run_def upd_proc_def Let_def

lemma upd_proc_simps [simp]:
  "run_list (upd_proc p f s) = run_list s" "current (upd_proc p f s) = current s"
  "idleproc (upd_proc p f s) = idleproc s" "proc_num (upd_proc p f s) = proc_num s"
  "timer_list (upd_proc p f s) = timer_list s" "timers (upd_proc p f s) = timers s"
  "max_time_slice (upd_proc p f s) = max_time_slice s"
  "procs (upd_proc p f s) = (procs s)(p := f (procs s p))"
  by (simp_all add: upd_proc_def)

lemma RR_enqueue_Some:
  assumes "proc \<notin> set (run_list s)"
  shows "\<exists>s'. RR_enqueue proc s = Some s' \<and> run_list s' = run_list s @ [proc] \<and>
    proc_num s' = proc_num s + 1 \<and> current s' = current s \<and> idleproc s' = idleproc s \<and>
    timer_list s' = timer_list s \<and> timers s' = timers s \<and> sched.more s' = sched.more s \<and>
    (\<forall>q. p_state (procs s' q) = p_state (procs s q)) \<and>
    (\<forall>q. p_wait_state (procs s' q) = p_wait_state (procs s q)) \<and>
    (\<forall>q. p_on_rq (procs s' q) \<longleftrightarrow> q = proc \<or> p_on_rq (procs s q))"
  using assms by (auto simp: RR_enqueue_def Let_def upd_proc_def)

lemma wakeup_proc_ok:
  assumes "sched_inv s" and "p_state (procs s proc) \<noteq> PROC_ZOMBIE"
  obtains s' where "wakeup_proc proc s = Some s'" "sched_inv s'"
    "run_list s' = (if p_state (procs s proc) \<noteq> PROC_RUNNABLE \<and> proc \<noteq> current s
                    then run_list s @ [proc] else run_list s)"
    "current s' = current s" "idleproc s' = idleproc s" "timer_list s' = timer_list s" "timers s' = timers s"
    "\<And>q. p_state (procs s' q) = (if q = proc then PROC_RUNNABLE else p_state (procs s q))"
    "\<And>q. p_wait_state (procs s' q) =
        (if q = proc \<and> p_state (procs s proc) \<noteq> PROC_RUNNABLE then 0 else p_wait_state (procs s q))"
proof (cases "p_state (procs s proc) = PROC_RUNNABLE")
  case True
  then have "wakeup_proc proc s = Some s"
    by (simp add: wakeup_proc_def)
  with True assms show ?thesis by (intro that [of s]) auto
next
  case False
  define s1 where "s1 = upd_proc proc (p_wait_state_update (\<lambda>_. 0)) (upd_proc proc (p_state_update (\<lambda>_. PROC_RUNNABLE)) s)"
  have notin: "proc \<notin> set (run_list s)" and idle: "proc \<noteq> idleproc s"
    using assms(1) False by (auto simp: sched_inv_def)
  show ?thesis
  proof (cases "proc = current s")
    case True
    have "wakeup_proc proc s = Some s1"
      using False True assms(2) by (simp add: wakeup_proc_def s1_def)
    moreover have "sched_inv s1"
      using assms(1) True by (auto simp: sched_inv_def s1_def)
    ultimately show ?thesis
      using that True False by (simp add: s1_def)
  next
    case cur: False
    have notin1: "proc \<notin> set (run_list s1)"
      using notin by (simp add: s1_def)
    obtain s' where e: "RR_enqueue proc s1 = Some s'" "run_list s' = run_list s1 @ [proc]"
      "proc_num s' = proc_num s1 + 1" "current s' = current s1" "idleproc s' = idleproc s1"
      "timer_list s' = timer_list s1" "timers s' = timers s1" "sched.more s' = sched.more s1"
      "\<forall>q. p_state (procs s' q) = p_state (procs s1 q)"
      "\<forall>q. p_wait_state (procs s' q) = p_wait_state (procs s1 q)"
      "\<forall>q. p_on_rq (procs s' q) \<longleftrightarrow> q = proc \<or> p_on_rq (procs s1 q)"
      using RR_enqueue_Some [of proc s1] notin1 by blast
    have "wakeup_proc proc s = Some s'"
      using e(1) False cur idle assms(2) by (simp add: wakeup_proc_def sched_class_enqueue_def s1_def)
    moreover have run: "p_state (procs s' q) = PROC_RUNNABLE \<longleftrightarrow> q = proc \<or> p_state (procs s q) = PROC_RUNNABLE"
      and on: "p_on_rq (procs s' q) \<longleftrightarrow> q = proc \<or> p_on_rq (procs s q)" for q
      using e(9,11) by (auto simp: s1_def)
    have "run_list s' = run_list s @ [proc]" "proc_num s' = proc_num s + 1" "current s' = current s"
      "idleproc s' = idleproc s"
      using e(2-5) by (simp_all add: s1_def)
    then have "sched_inv s'"
      using assms(1) notin idle cur unfolding sched_inv_def run on by auto
    ultimately show ?thesis
      using e(2,4-10) cur False by (intro that [of s']) (simp_all add: s1_def)
  qed
qed

lemma schedule_ok:
  assumes inv: "sched_inv s"
  obtains s' where "schedule s = Some s'" "sched_inv s'"
    "current s' = (case candidates s of [] \<Rightarrow> idleproc s | p # _ \<Rightarrow> p)"
    "run_list s' = tl (candidates s)" "idleproc s' = idleproc s"
    "timer_list s' = timer_list s" "timers s' = timers s"
    "\<And>q. p_state (procs s' q) = p_state (procs s q)"
    "\<And>q. p_wait_state (procs s' q) = p_wait_state (procs s q)"
proof -
  define s0 where "s0 = upd_proc (current s) (p_need_resched_update (\<lambda>_. False)) s"
  define enq where "enq = (if p_state (procs s0 (current s0)) = PROC_RUNNABLE
    then sched_class_enqueue (current s0) s0 else Some s0)"
  have st0: "p_state (procs s0 q) = p_state (procs s q)" "p_wait_state (procs s0 q) = p_wait_state (procs s q)"
    "p_on_rq (procs s0 q) = p_on_rq (procs s q)" for q
    by (simp_all add: s0_def)
  have "current s0 \<notin> set (run_list s0)"
    using inv by (simp add: s0_def sched_inv_def)
  then obtain s1 where s1: "enq = Some s1" "run_list s1 = candidates s" "proc_num s1 = length (candidates s)"
    "current s1 = current s" "idleproc s1 = idleproc s" "timer_list s1 = timer_list s" "timers s1 = timers s"
    "\<forall>q. p_state (procs s1 q) = p_state (procs s q)"
    "\<forall>q. p_wait_state (procs s1 q) = p_wait_state (procs s q)"
    "\<forall>q \<in> set (candidates s). p_on_rq (procs s1 q)"
  proof (cases "p_state (procs s (current s)) = PROC_RUNNABLE \<and> current s \<noteq> idleproc s")
    case True
    obtain s1 where r: "RR_enqueue (current s0) s0 = Some s1" "run_list s1 = run_list s0 @ [current s0]"
      "proc_num s1 = proc_num s0 + 1" "current s1 = current s0" "idleproc s1 = idleproc s0"
      "timer_list s1 = timer_list s0" "timers s1 = timers s0" "sched.more s1 = sched.more s0"
      "\<forall>q. p_state (procs s1 q) = p_state (procs s0 q)"
      "\<forall>q. p_wait_state (procs s1 q) = p_wait_state (procs s0 q)"
      "\<forall>q. p_on_rq (procs s1 q) \<longleftrightarrow> q = current s0 \<or> p_on_rq (procs s0 q)"
      using RR_enqueue_Some [OF \<open>current s0 \<notin> set (run_list s0)\<close>] by blast
    have "enq = Some s1"
      using True r(1) by (simp add: enq_def st0 sched_class_enqueue_def) (simp add: s0_def)
    moreover have "\<forall>q \<in> set (candidates s). p_on_rq (procs s1 q)"
      using True inv by (simp add: r(11) st0 candidates_def sched_inv_def) (simp add: s0_def)
    moreover have "run_list s1 = candidates s" "proc_num s1 = length (candidates s)"
      using True inv r(2,3) by (simp_all add: candidates_def sched_inv_def s0_def)
    ultimately show ?thesis
      using r(4-7) by (intro that [of s1]) (simp_all add: r(9,10) st0, simp_all add: s0_def)
  next
    case False
    have "enq = Some s0"
      using False by (auto simp: enq_def st0 sched_class_enqueue_def s0_def)
    then show ?thesis
      using False inv by (intro that [of s0]) (auto simp: candidates_def sched_inv_def st0 s0_def)
  qed
  have sch: "schedule s = do {
     t \<leftarrow> (case candidates s of p # _ \<Rightarrow> RR_dequeue p s1 | [] \<Rightarrow> Some s1);
     let nxt = (case candidates s of [] \<Rightarrow> idleproc s | p # _ \<Rightarrow> p);
     let t = upd_proc nxt (p_runs_update (\<lambda>r. r + 1)) t;
     Some (if nxt \<noteq> current t then proc_run nxt t else t)}"
    using s1(1,2,5) unfolding schedule_def s0_def [symmetric] Let_def enq_def [symmetric]
    by (cases "candidates s")
       (simp_all add: sched_class_pick_next_def RR_pick_next_def sched_class_dequeue_def RR_dequeue_def kassert_def)
  have cand: "distinct (candidates s)" "idleproc s \<notin> set (candidates s)"
    and run: "p_state (procs s p) = PROC_RUNNABLE \<longleftrightarrow> p \<in> set (candidates s) \<or> p = idleproc s" for p
    using inv by (auto simp: sched_inv_def candidates_def)
  have run1: "p_state (procs s1 p) = PROC_RUNNABLE \<longleftrightarrow> p \<in> set (candidates s) \<or> p = idleproc s" for p
    using run s1(8) by simp
  show ?thesis
  proof (cases "candidates s")
    case Nil
    let ?s' = "(upd_proc (idleproc s) (p_runs_update (\<lambda>r. r + 1)) s1)\<lparr>current := idleproc s\<rparr>"
    have "schedule s = Some ?s'"
      using sch Nil s1(4) by (auto simp: proc_run_def Let_def upd_proc_def)
    moreover have "sched_inv ?s'"
      using cand unfolding sched_inv_def by (simp add: s1(2,3,5) run1 Nil)
    ultimately show ?thesis
      using Nil by (intro that [of ?s']) (simp_all add: s1)
  next
    case (Cons p ps)
    let ?s' = "(upd_proc p (p_runs_update (\<lambda>r. r + 1))
      (s1\<lparr>run_list := ps, proc_num := proc_num s1 - 1\<rparr>))\<lparr>current := p\<rparr>"
    have "schedule s = Some ?s'"
      using sch Cons s1(2,4,10) by (auto simp: proc_run_def Let_def upd_proc_def RR_dequeue_def)
    moreover have "sched_inv ?s'"
      using cand s1(10) unfolding sched_inv_def by (simp add: s1(2,3,5) run1 Cons)
    ultimately show ?thesis
      using Cons by (intro that [of ?s']) (simp_all add: s1)
  qed
qed

lemma schedule_ex:
  assumes "sched_inv s"
  shows "\<exists>s'. schedule s = Some s' \<and> sched_inv s' \<and>
    current s' = (case candidates s of [] \<Rightarrow> idleproc s | p # _ \<Rightarrow> p) \<and>
    run_list s' = tl (candidates s) \<and> idleproc s' = idleproc s \<and> (\<forall>q. p_state (procs s' q) = p_state (procs s q))"
  by (rule schedule_ok [OF assms]) blast

lemma wakeup_ex:
  assumes "sched_inv s" "p_state (procs s p) \<noteq> PROC_ZOMBIE"
  shows "\<exists>s'. wakeup_proc p s = Some s' \<and> sched_inv s' \<and> current s' = current s \<and> idleproc s' = idleproc s \<and>
    run_list s' = (if p_state (procs s p) \<noteq> PROC_RUNNABLE \<and> p \<noteq> current s
                    then run_list s @ [p] else run_list s) \<and>
    timer_list s' = timer_list s \<and> timers s' = timers s \<and>
    (\<forall>q. p_state (procs s' q) = (if q = p then PROC_RUNNABLE else p_state (procs s q))) \<and>
    (\<forall>q. p_wait_state (procs s' q) =
        (if q = p \<and> p_state (procs s p) \<noteq> PROC_RUNNABLE then 0 else p_wait_state (procs s q)))"
  by (rule wakeup_proc_ok [OF assms]) blast

lemma upd_proc_inv:
  assumes "sched_inv s" "\<And>q. p_state (f q) = p_state q" "\<And>q. p_on_rq (f q) = p_on_rq q"
  shows "sched_inv (upd_proc p f s)"
proof -
  have "p_state (procs (upd_proc p f s) q) = p_state (procs s q)"
    "p_on_rq (procs (upd_proc p f s) q) = p_on_rq (procs s q)" for q
    using assms(2,3) by simp_all
  then show ?thesis
    using assms(1) unfolding sched_inv_def upd_proc_simps(1-4) by simp
qed

lemma RR_proc_tick_cases:
  "\<exists>f. RR_proc_tick p s = upd_proc p f s \<and> (\<forall>q. p_state (f q) = p_state q) \<and> (\<forall>q. p_on_rq (f q) = p_on_rq q) \<and>
     (\<forall>q. p_wait_state (f q) = p_wait_state q)"
proof (cases "p_time_slice (procs s p) > 0")
  case True
  then show ?thesis
    by (intro exI [of _ "\<lambda>q. if p_time_slice (procs s p) = 1
        then p_need_resched_update (\<lambda>_. True) (p_time_slice_update (\<lambda>v. v - 1) q)
        else p_time_slice_update (\<lambda>v. v - 1) q"])
      (auto simp: RR_proc_tick_def upd_proc_def Let_def)
next
  case False
  then show ?thesis
    by (intro exI [of _ "\<lambda>q. if p_time_slice (procs s p) = 0 then p_need_resched_update (\<lambda>_. True) q else q"])
      (auto simp: RR_proc_tick_def upd_proc_def Let_def)
qed

lemma proc_tick_ok:
  assumes "sched_inv s"
  shows "sched_inv (sched_class_proc_tick p s)"
    and "run_list (sched_class_proc_tick p s) = run_list s"
    and "current (sched_class_proc_tick p s) = current s"
    and "idleproc (sched_class_proc_tick p s) = idleproc s"
    and "timer_list (sched_class_proc_tick p s) = timer_list s"
    and "timers (sched_class_proc_tick p s) = timers s"
    and "p_state (procs (sched_class_proc_tick p s) q) = p_state (procs s q)"
  using RR_proc_tick_cases [of p s] assms
  by (auto simp: sched_class_proc_tick_def upd_proc_inv)

text \<open>What the scheduler operations leave alone in an extended state.\<close>

lemma RR_enqueue_more: "RR_enqueue p s = Some s' \<Longrightarrow> sched.more s' = sched.more s"
  by (auto simp: RR_enqueue_def upd_proc_def Let_def kassert_def split: if_splits)

lemma RR_dequeue_more: "RR_dequeue p s = Some s' \<Longrightarrow> sched.more s' = sched.more s"
  by (auto simp: RR_dequeue_def kassert_def split: if_splits)

lemma upd_proc_more [simp]: "sched.more (upd_proc p f s) = sched.more s"
  by (simp add: upd_proc_def)

lemma wakeup_proc_more: "wakeup_proc p s = Some s' \<Longrightarrow> sched.more s' = sched.more s"
  by (auto simp: wakeup_proc_def sched_class_enqueue_def Let_def kassert_def split: if_splits dest: RR_enqueue_more)

lemma schedule_more: "schedule s = Some s' \<Longrightarrow> sched.more s' = sched.more s"
  by (auto simp: schedule_def sched_class_enqueue_def sched_class_dequeue_def proc_run_def Let_def
      bind_eq_Some_conv split: if_splits option.splits dest!: RR_enqueue_more RR_dequeue_more)

section \<open>Round robin does not starve a process\<close>

text \<open>
  What the rest of the kernel does to the scheduler: \<open>schedule\<close> on a resched request (\<open>Resched\<close>), a
  process that puts itself to sleep and calls \<open>schedule\<close> (\<open>Block\<close>), a wakeup and a clock tick.
\<close>

datatype sched_event = Resched | Block | Wake nat | Tick

definition sched_step :: "sched_event \<Rightarrow> sched \<Rightarrow> sched option" where
  "sched_step e s = (case e of
     Resched \<Rightarrow> schedule s
   | Block \<Rightarrow> (if current s = idleproc s then Some s
              else schedule (upd_proc (current s) (p_state_update (\<lambda>_. PROC_SLEEPING)) s))
   | Wake p \<Rightarrow> wakeup_proc p s
   | Tick \<Rightarrow> Some (sched_class_proc_tick (current s) s))"

fun sched_run :: "sched_event list \<Rightarrow> sched \<Rightarrow> sched option" where
  "sched_run [] s = Some s"
| "sched_run (e # es) s = do { s' \<leftarrow> sched_step e s; sched_run es s' }"

text \<open>The number of reschedule requests in a sequence of events.\<close>

fun sched_calls :: "sched_event list \<Rightarrow> nat" where
  "sched_calls [] = 0"
| "sched_calls (Resched # es) = Suc (sched_calls es)"
| "sched_calls (_ # es) = sched_calls es"

definition waits_at :: "nat \<Rightarrow> nat \<Rightarrow> 'a sched_scheme \<Rightarrow> bool" where
  "waits_at p k s \<longleftrightarrow> k < length (run_list s) \<and> run_list s ! k = p"

definition no_zombies :: "sched_event list \<Rightarrow> 'a sched_scheme \<Rightarrow> bool" where
  "no_zombies es s \<longleftrightarrow> (\<forall>p. Wake p \<in> set es \<longrightarrow> p_state (procs s p) \<noteq> PROC_ZOMBIE)"

text \<open>A step never moves a waiting process back, and each entry into \<open>schedule\<close> moves it one place
  forward, onto the processor when it was first.\<close>

lemma block_inv:
  assumes "sched_inv s" "current s \<noteq> idleproc s"
  shows "sched_inv (upd_proc (current s) (p_state_update (\<lambda>_. PROC_SLEEPING)) s)"
  using assms by (auto simp: sched_inv_def)

lemma schedule_waits_at:
  assumes "sched_inv s" "waits_at p k s" "schedule s = Some s'"
  shows "if k = 0 then current s' = p else waits_at p (k - 1) s'"
proof -
  obtain q qs where q: "run_list s = q # qs"
    using assms(2) by (cases "run_list s") (auto simp: waits_at_def)
  have "current s' = (case candidates s of [] \<Rightarrow> idleproc s | p # _ \<Rightarrow> p)" "run_list s' = tl (candidates s)"
    using schedule_ok [OF assms(1)] assms(3) by (metis option.inject)+
  then show ?thesis
    using assms(2) q by (cases k) (auto simp: waits_at_def candidates_def nth_append)
qed

lemma sched_step_ok:
  assumes inv: "sched_inv s" and nz: "\<And>p. e = Wake p \<Longrightarrow> p_state (procs s p) \<noteq> PROC_ZOMBIE"
  shows "\<exists>s'. sched_step e s = Some s' \<and> sched_inv s' \<and>
    (\<forall>q. p_state (procs s' q) = PROC_ZOMBIE \<longrightarrow> p_state (procs s q) = PROC_ZOMBIE) \<and>
    (\<forall>p k. waits_at p k s \<longrightarrow>
       (if e = Resched \<or> e = Block \<and> current s \<noteq> idleproc s
        then (if k = 0 then current s' = p else waits_at p (k - 1) s') else waits_at p k s'))"
proof (cases e)
  case Resched
  obtain s' where s': "schedule s = Some s'" "sched_inv s'" "\<forall>q. p_state (procs s' q) = p_state (procs s q)"
    using schedule_ex [OF inv] by blast
  then show ?thesis
    using schedule_waits_at [OF inv _ s'(1)] Resched
    by (intro exI [of _ s']) (auto simp: sched_step_def simp del: One_nat_def split: if_splits)
next
  case Block
  let ?s = "upd_proc (current s) (p_state_update (\<lambda>_. PROC_SLEEPING)) s"
  show ?thesis
  proof (cases "current s = idleproc s")
    case True
    then show ?thesis using Block inv by (simp add: sched_step_def)
  next
    case False
    have inv': "sched_inv ?s" by (rule block_inv [OF inv False])
    obtain s' where s': "schedule ?s = Some s'" "sched_inv s'" "\<forall>q. p_state (procs s' q) = p_state (procs ?s q)"
      using schedule_ex [OF inv'] by blast
    have "waits_at p k s \<longleftrightarrow> waits_at p k ?s" for p k
      by (simp add: waits_at_def)
    with s' show ?thesis
      using schedule_waits_at [OF inv' _ s'(1)] Block False
      by (intro exI [of _ s']) (auto simp: sched_step_def simp del: One_nat_def split: if_splits)
  qed
next
  case (Wake p)
  obtain s' where "wakeup_proc p s = Some s'" "sched_inv s'"
    "run_list s' = (if p_state (procs s p) \<noteq> PROC_RUNNABLE \<and> p \<noteq> current s
                    then run_list s @ [p] else run_list s)"
    "\<forall>q. p_state (procs s' q) = (if q = p then PROC_RUNNABLE else p_state (procs s q))"
    using wakeup_ex [OF inv nz [OF Wake]] by blast
  then show ?thesis
    using Wake by (intro exI [of _ s']) (auto simp: sched_step_def waits_at_def nth_append split: if_splits)
next
  case Tick
  then show ?thesis
    using proc_tick_ok [OF inv] by (auto simp: sched_step_def waits_at_def)
qed

lemma sched_run_reaches:
  assumes "sched_inv s" "waits_at p k s" "k < sched_calls es" "no_zombies es s"
  shows "\<exists>n s'. n \<le> length es \<and> sched_run (take n es) s = Some s' \<and> sched_inv s' \<and> current s' = p"
  using assms
proof (induction es arbitrary: s k)
  case Nil
  then show ?case by simp
next
  case (Cons e es)
  obtain s1 where s1: "sched_step e s = Some s1" "sched_inv s1"
    and z: "\<And>q. p_state (procs s1 q) = PROC_ZOMBIE \<Longrightarrow> p_state (procs s q) = PROC_ZOMBIE"
    and w: "if e = Resched \<or> e = Block \<and> current s \<noteq> idleproc s
        then (if k = 0 then current s1 = p else waits_at p (k - 1) s1) else waits_at p k s1"
    using sched_step_ok [OF Cons.prems(1), of e] Cons.prems(2,4) by (auto simp: no_zombies_def) blast
  have nz: "no_zombies es s1"
    using Cons.prems(4) z by (auto simp: no_zombies_def)
  have step: ?case if k1: "waits_at p k1 s1" "k1 < sched_calls es" for k1
  proof -
    obtain n s' where "n \<le> length es" "sched_run (take n es) s1 = Some s'" "sched_inv s'" "current s' = p"
      using Cons.IH [OF s1(2) k1 nz] by blast
    then show ?thesis
      using s1(1) by (intro exI [of _ "Suc n"] exI [of _ s']) simp
  qed
  show ?case
  proof (cases "(e = Resched \<or> e = Block \<and> current s \<noteq> idleproc s) \<and> k = 0")
    case True
    with w s1 show ?thesis
      by (intro exI [of _ 1] exI [of _ s1]) (auto split: if_splits)
  next
    case False
    show ?thesis
    proof (cases e)
      case Resched
      with False w Cons.prems(3) show ?thesis by (intro step [of "k - 1"]) (auto split: if_splits)
    next
      case Block
      with False w Cons.prems(3) have "waits_at p k s1 \<or> waits_at p (k - 1) s1" "k < sched_calls es"
        by (auto split: if_splits)
      then show ?thesis using step [of k] step [of "k - 1"] by (metis less_imp_diff_less)
    next
      case (Wake q)
      with w Cons.prems(3) show ?thesis by (intro step [of k]) (auto split: if_splits)
    next
      case Tick
      with w Cons.prems(3) show ?thesis by (intro step [of k]) (auto split: if_splits)
    qed
  qed
qed

section \<open>Timers: the delta list stores absolute expiry times\<close>

text \<open>The absolute expiry of each timer in the list: the sum of the stored differences up to it.\<close>

fun expiries :: "(nat \<Rightarrow> timer) \<Rightarrow> nat list \<Rightarrow> nat \<Rightarrow> (nat \<times> nat) list" where
  "expiries tm [] a = []"
| "expiries tm (x # xs) a = (x, a + expires (tm x)) # expiries tm xs (a + expires (tm x))"

lemma expiries_cong:
  "(\<And>x. x \<in> set xs \<Longrightarrow> expires (tm x) = expires (tm' x)) \<Longrightarrow> expiries tm xs a = expiries tm' xs a"
  by (induction xs arbitrary: a) auto

lemma expiries_upd [simp]: "t \<notin> set xs \<Longrightarrow> expiries (upd_expires t f tm) xs a = expiries tm xs a"
  by (rule expiries_cong) (auto simp: upd_expires_def)

lemma expires_upd [simp]:
  "expires (upd_expires t f tm x) = (if x = t then f (expires (tm t)) else expires (tm x))"
  by (simp add: upd_expires_def)

lemma upd_expires_frame [simp]:
  "t_proc (upd_expires t f tm x) = t_proc (tm x)" "x \<noteq> t \<Longrightarrow> upd_expires t f tm x = tm x"
  by (simp_all add: upd_expires_def)

lemma add_timer_loop_frame:
  "add_timer_loop t tm xs = (tm', xs') \<Longrightarrow> set xs' = insert t (set xs) \<and>
     (t \<notin> set xs \<longrightarrow> distinct xs \<longrightarrow> distinct xs') \<and> (\<forall>x. t_proc (tm' x) = t_proc (tm x)) \<and>
     (\<forall>x. x \<notin> insert t (set xs) \<longrightarrow> tm' x = tm x)"
proof (induction t tm xs arbitrary: tm' xs' rule: add_timer_loop.induct)
  case (1 t tm)
  then show ?case by auto
next
  case (2 t tm nx le)
  show ?case
  proof (cases "expires (tm t) < expires (tm nx)")
    case True
    then show ?thesis using 2(2) by (auto simp: upd_expires_def)
  next
    case False
    obtain le' where r: "add_timer_loop t (upd_expires t (\<lambda>e. e - expires (tm nx)) tm) le = (tm', le')" "xs' = nx # le'"
      using 2(2) False by (auto split: prod.splits)
    show ?thesis
      using 2(1) [OF False r(1)] r(2) by (auto simp: upd_expires_def)
  qed
qed

lemma add_timer_loop_expiries:
  "add_timer_loop t tm xs = (tm', xs') \<Longrightarrow> t \<notin> set xs \<Longrightarrow> distinct xs \<Longrightarrow> expiries tm' xs' a =
    takeWhile (\<lambda>(_, v). v \<le> a + expires (tm t)) (expiries tm xs a) @ (t, a + expires (tm t)) #
    dropWhile (\<lambda>(_, v). v \<le> a + expires (tm t)) (expiries tm xs a)"
proof (induction t tm xs arbitrary: tm' xs' a rule: add_timer_loop.induct)
  case (1 t tm)
  then show ?case by auto
next
  case (2 t tm nx le)
  show ?case
  proof (cases "expires (tm t) < expires (tm nx)")
    case True
    then show ?thesis using 2(2-4) by auto
  next
    case False
    obtain le' where r: "add_timer_loop t (upd_expires t (\<lambda>e. e - expires (tm nx)) tm) le = (tm', le')" "xs' = nx # le'"
      using 2(2) False by (auto split: prod.splits)
    have "tm' nx = tm nx"
      using add_timer_loop_frame [OF r(1)] 2(3,4) by (auto simp: upd_expires_def)
    then show ?thesis
      using 2(1) [OF False r(1), of "a + expires (tm nx)"] 2(3,4) False r(2) by (simp add: add.assoc)
  qed
qed

lemma del_timer_list_expiries:
  "del_timer_list t tm xs = (tm', xs') \<Longrightarrow> distinct xs \<Longrightarrow> t \<in> set xs \<Longrightarrow>
     expiries tm' xs' a = filter (\<lambda>(y, _). y \<noteq> t) (expiries tm xs a) \<and> xs' = filter (\<lambda>y. y \<noteq> t) xs \<and>
     (\<forall>x. t_proc (tm' x) = t_proc (tm x)) \<and> (\<forall>x. x \<notin> set xs' \<longrightarrow> tm' x = tm x)"
proof (induction t tm xs arbitrary: tm' xs' a rule: del_timer_list.induct)
  case (1 t tm)
  then show ?case by simp
next
  case (2 t tm x xs)
  have keep: "t \<notin> set ys \<Longrightarrow> filter (\<lambda>(y, _). y \<noteq> t) (expiries tm ys b) = expiries tm ys b" for ys b
    by (induction ys arbitrary: b) auto
  have keep': "t \<notin> set ys \<Longrightarrow> filter (\<lambda>y. y \<noteq> t) ys = ys" for ys :: "nat list"
    by (induction ys) auto
  show ?case
  proof (cases "x = t")
    case True
    then show ?thesis
      using 2(2-4) keep [of xs] keep' [of xs] by (cases xs) (auto simp: ac_simps)
  next
    case False
    obtain ys where r: "del_timer_list t tm xs = (tm', ys)" "xs' = x # ys"
      using 2(2) False by (auto split: prod.splits)
    note IH = 2(1) [OF False r(1), of "a + expires (tm x)"]
    have "tm' x = tm x"
      using IH 2(3,4) False by auto
    then show ?thesis
      using IH 2(3,4) False r(2) by auto
  qed
qed

definition expired_procs :: "'a sched_scheme \<Rightarrow> nat set" where
  "expired_procs s = {t_proc (timers s t) |t. (t, 1) \<in> set (expiries (timers s) (timer_list s) 0)}"

definition timers_inv :: "'a sched_scheme \<Rightarrow> bool" where
  "timers_inv s \<longleftrightarrow> distinct (timer_list s) \<and>
     (timer_list s \<noteq> [] \<longrightarrow> 0 < expires (timers s (hd (timer_list s)))) \<and>
     (\<forall>t \<in> set (timer_list s).
        p_state (procs s (t_proc (timers s t))) \<noteq> PROC_ZOMBIE \<and>
        (p_wait_state (procs s (t_proc (timers s t))) = 0 \<or>
         p_wait_state (procs s (t_proc (timers s t))) AND WT_INTERRUPTED \<noteq> 0))"

lemma expiries_ge: "(t, v) \<in> set (expiries tm xs a) \<Longrightarrow> a \<le> v"
  by (induction xs arbitrary: a) (auto dest: add_leD1)

lemma expiries_dom: "fst ` set (expiries tm xs a) = set xs"
  by (induction xs arbitrary: a) auto

lemma expiries_dropWhile:
  "expiries tm (dropWhile (\<lambda>t. expires (tm t) = 0) xs) a = filter (\<lambda>(_, v). v > a) (expiries tm xs a)"
proof (induction xs arbitrary: a)
  case Nil
  then show ?case by simp
next
  case (Cons x xs)
  have "filter (\<lambda>(_, v). v > a) (expiries tm xs b) = expiries tm xs b" if "a < b" for b
    using that expiries_ge [of _ _ tm xs b] by (fastforce intro: filter_True)
  with Cons show ?case by auto
qed

lemma expiries_takeWhile:
  "set (takeWhile (\<lambda>t. expires (tm t) = 0) xs) = {t. (t, a) \<in> set (expiries tm xs a)}"
proof (induction xs)
  case Nil
  then show ?case by simp
next
  case (Cons x xs)
  have "(t, a) \<notin> set (expiries tm xs (a + expires (tm x)))" if "expires (tm x) \<noteq> 0" for t
    using that expiries_ge [of t a tm xs "a + expires (tm x)"] by auto
  with Cons show ?case by (cases "expires (tm x) = 0") auto
qed

lemma expiries_shift: "expiries tm xs (Suc a) = map (\<lambda>(t, v). (t, Suc v)) (expiries tm xs a)"
  by (induction xs arbitrary: a) auto

lemma expiries_tick:
  assumes "distinct (x # xs)" "0 < expires (tm x)"
  shows "expiries tm (x # xs) 0 = map (\<lambda>(t, v). (t, Suc v)) (expiries (upd_expires x (\<lambda>e. e - 1) tm) (x # xs) 0)"
proof -
  obtain e where "expires (tm x) = Suc e"
    using assms(2) by (cases "expires (tm x)") auto
  with assms show ?thesis by (simp add: expiries_shift)
qed

lemma del_timer_head:
  assumes "timer_list s = t # ts" "expires (timers s t) = 0"
  shows "del_timer t s = s\<lparr>timer_list := ts\<rparr>"
  using assms by (simp add: del_timer_def)

lemma sched_inv_timer_list [simp]: "sched_inv (s\<lparr>timer_list := ts\<rparr>) = sched_inv s"
  by (simp add: sched_inv_def)

lemma sched_inv_timers [simp]: "sched_inv (s\<lparr>timers := ts\<rparr>) = sched_inv s"
  by (simp add: sched_inv_def)

definition timer_wakable :: "'a sched_scheme \<Rightarrow> nat \<Rightarrow> bool" where
  "timer_wakable s p \<longleftrightarrow> p_state (procs s p) \<noteq> PROC_ZOMBIE \<and>
     (p_wait_state (procs s p) = 0 \<or> p_wait_state (procs s p) AND WT_INTERRUPTED \<noteq> 0)"

lemma fire_timers_ok:
  assumes "timer_list s = xs" "sched_inv s" "\<forall>t \<in> set xs. timer_wakable s (t_proc (timers s t))"
  shows "\<exists>s'. fire_timers xs s = Some s' \<and> sched_inv s' \<and> timers s' = timers s \<and> current s' = current s \<and>
    timer_list s' = dropWhile (\<lambda>t. expires (timers s t) = 0) xs \<and>
    (\<forall>q. p_state (procs s' q) = (if q \<in> (\<lambda>t. t_proc (timers s t)) ` set (takeWhile (\<lambda>t. expires (timers s t) = 0) xs)
        then PROC_RUNNABLE else p_state (procs s q))) \<and>
    (\<forall>q. timer_wakable s q \<longrightarrow> timer_wakable s' q)"
  using assms
proof (induction xs arbitrary: s)
  case Nil
  then show ?case by simp
next
  case (Cons t ts)
  show ?case
  proof (cases "expires (timers s t) = 0")
    case True
    let ?p = "t_proc (timers s t)"
    have ok: "p_state (procs s ?p) \<noteq> PROC_ZOMBIE"
      "p_wait_state (procs s ?p) \<noteq> 0 \<longrightarrow> p_wait_state (procs s ?p) AND WT_INTERRUPTED \<noteq> 0"
      using Cons.prems(3) by (auto simp: timer_wakable_def)
    obtain s1 where s1: "wakeup_proc ?p s = Some s1" "sched_inv s1" "timer_list s1 = timer_list s"
        "timers s1 = timers s" "current s1 = current s"
      and st: "\<forall>q. p_state (procs s1 q) = (if q = ?p then PROC_RUNNABLE else p_state (procs s q))"
      and ws: "\<forall>q. p_wait_state (procs s1 q) =
        (if q = ?p \<and> p_state (procs s ?p) \<noteq> PROC_RUNNABLE then 0 else p_wait_state (procs s q))"
      using wakeup_ex [OF Cons.prems(2) ok(1)] by blast
    let ?s2 = "s1\<lparr>timer_list := ts\<rparr>"
    have wk: "timer_wakable s q \<Longrightarrow> timer_wakable ?s2 q" for q
      using st ws by (auto simp: timer_wakable_def)
    have "\<forall>t \<in> set ts. timer_wakable ?s2 (t_proc (timers ?s2 t))"
      using Cons.prems(3) wk s1(4) by simp
    then obtain s' where s': "fire_timers ts ?s2 = Some s'" "sched_inv s'" "timers s' = timers s" "current s' = current s"
      "timer_list s' = dropWhile (\<lambda>t. expires (timers s t) = 0) ts"
      "\<forall>q. p_state (procs s' q) = (if q \<in> (\<lambda>t. t_proc (timers s t)) ` set (takeWhile (\<lambda>t. expires (timers s t) = 0) ts)
        then PROC_RUNNABLE else p_state (procs s1 q))"
      "\<forall>q. timer_wakable ?s2 q \<longrightarrow> timer_wakable s' q"
      using Cons.IH [of ?s2] s1 by auto
    have "fire_timers (t # ts) s = fire_timers ts (del_timer t s1)"
      using True s1(1) ok(2) by (simp add: Let_def)
    also have "del_timer t s1 = ?s2"
      using Cons.prems(1) s1(3,4) True by (intro del_timer_head) simp_all
    finally show ?thesis
      using s' st wk True by (intro exI [of _ s']) auto
  next
    case False
    then show ?thesis using Cons.prems by simp
  qed
qed

lemma run_timer_list_ok:
  assumes "sched_inv s" "timers_inv s"
  shows "\<exists>s'. run_timer_list s = Some s' \<and> sched_inv s' \<and> distinct (timer_list s') \<and>
    map (\<lambda>(t, v). (t, Suc v)) (expiries (timers s') (timer_list s') 0) =
      filter (\<lambda>(_, v). 1 < v) (expiries (timers s) (timer_list s) 0) \<and>
    (\<forall>q. p_state (procs s' q) = (if q \<in> expired_procs s then PROC_RUNNABLE else p_state (procs s q)))"
proof (cases "timer_list s")
  case Nil
  then show ?thesis
    using proc_tick_ok [OF assms(1)] by (simp add: run_timer_list_def expired_procs_def)
next
  case (Cons t ts)
  define tm where "tm = upd_expires t (\<lambda>e. e - 1) (timers s)"
  let ?s1 = "s\<lparr>timers := tm\<rparr>"
  have d: "distinct (t # ts)" and pos: "0 < expires (timers s t)"
    using assms(2) Cons by (auto simp: timers_inv_def)
  have tp: "t_proc (tm x) = t_proc (timers s x)" for x
    by (simp add: tm_def)
  have tick: "expiries (timers s) (t # ts) 0 = map (\<lambda>(t, v). (t, Suc v)) (expiries tm (t # ts) 0)"
    unfolding tm_def using expiries_tick [of t ts "timers s"] d pos by simp
  have "\<forall>x \<in> set (t # ts). timer_wakable ?s1 (t_proc (timers ?s1 x))"
    using assms(2) Cons tp by (auto simp: timers_inv_def timer_wakable_def)
  then obtain s2 where s2: "fire_timers (t # ts) ?s1 = Some s2" "sched_inv s2" "timers s2 = tm" "current s2 = current s"
    "timer_list s2 = dropWhile (\<lambda>t. expires (tm t) = 0) (t # ts)"
    "\<forall>q. p_state (procs s2 q) = (if q \<in> (\<lambda>t. t_proc (tm t)) ` set (takeWhile (\<lambda>t. expires (tm t) = 0) (t # ts))
        then PROC_RUNNABLE else p_state (procs s q))"
    using fire_timers_ok [of ?s1 "t # ts"] assms(1) Cons by auto
  have exp: "(\<lambda>t. t_proc (tm t)) ` set (takeWhile (\<lambda>t. expires (tm t) = 0) (t # ts)) = expired_procs s"
    unfolding expired_procs_def Cons tick expiries_takeWhile [of tm _ 0] by (force simp: tp)
  have "run_timer_list s = Some (sched_class_proc_tick (current s2) s2)"
    using s2(1,4) Cons pos unfolding run_timer_list_def tm_def by (simp del: fire_timers.simps)
  moreover have "distinct (timer_list s2)"
    unfolding s2(5) by (rule distinct_dropWhile [OF d])
  moreover have "map (\<lambda>(t, v). (t, Suc v)) (expiries tm (timer_list s2) 0) =
      filter (\<lambda>(_, v). 1 < v) (expiries (timers s) (t # ts) 0)"
    unfolding s2(5) expiries_dropWhile tick filter_map by (simp add: comp_def case_prod_unfold)
  ultimately show ?thesis
    using proc_tick_ok [OF s2(2)] s2(3,6) Cons exp by simp
qed

section \<open>Properties\<close>

definition demo_proc :: "proc_state \<Rightarrow> proc_struct" where
  "demo_proc st = \<lparr>p_state = st, p_pid = 0, p_runs = 0, p_need_resched = False, p_parent = None, p_flags = 0,
     p_exit_code = 0, p_wait_state = 0, p_cptr = None, p_yptr = None, p_optr = None, p_on_rq = True,
     p_time_slice = 5, p_kstack = None\<rparr>"

text \<open>Idle process 0, process 1 running, 2 and 3 queued, 4 asleep with a timer that expires at the next
  tick, and process 5 with a timer one tick later.\<close>

definition demo_sched :: sched where
  "demo_sched = \<lparr>procs = (\<lambda>p. demo_proc (if p < 4 then PROC_RUNNABLE else PROC_SLEEPING)), current = 1, idleproc = 0,
     run_list = [2, 3], proc_num = 2, max_time_slice = 20, timer_list = [7, 8],
     timers = (\<lambda>t. \<lparr>expires = 1, t_proc = t - 3\<rparr>)\<rparr>"

lemma demo_sched_inv: "sched_inv demo_sched" "timers_inv demo_sched"
  by (auto simp: sched_inv_def timers_inv_def demo_sched_def demo_proc_def)

text \<open>
  C37: on a well-formed scheduler state \<open>schedule\<close> never hits an assertion. It puts the running process,
  if still runnable and not the idle process, at the tail of the run queue, gives the processor to the
  process at the head, or to the idle process when the queue is empty, and keeps the run-queue invariant:
  no duplicates, only runnable processes, the counter equal to the length, and every runnable process
  either queued, running or idle.
\<close>

theorem schedule_round_robin:
  assumes "sched_inv s"
  shows "\<exists>s'. schedule s = Some s' \<and> sched_inv s' \<and>
    current s' = hd (candidates s @ [idleproc s]) \<and> run_list s' = tl (candidates s) \<and>
    (\<forall>q. p_state (procs s' q) = p_state (procs s q))"
proof -
  obtain s' where "schedule s = Some s'" "sched_inv s'"
    "current s' = (case candidates s of [] \<Rightarrow> idleproc s | p # _ \<Rightarrow> p)" "run_list s' = tl (candidates s)"
    "\<forall>q. p_state (procs s' q) = p_state (procs s q)"
    using schedule_ex [OF assms] by blast
  then show ?thesis by (cases "candidates s") auto
qed

theorem schedule_round_robin_witness:
  "\<exists>s'. schedule demo_sched = Some s' \<and> sched_inv s' \<and> current s' = 2 \<and> run_list s' = [3, 1]"
  using schedule_round_robin [OF demo_sched_inv(1)]
  by (auto simp: candidates_def demo_sched_def demo_proc_def)

text \<open>
  C38: no process starves. If a process waits at position \<open>k\<close> of the run queue, then in every sequence of
  reschedules, blocking processes, wakeups of live processes and clock ticks that contains more than \<open>k\<close>
  reschedules, no step panics up to a point at which that process has the processor.
\<close>

theorem RR_no_starvation:
  assumes "sched_inv s" "waits_at p k s" "k < sched_calls es" "no_zombies es s"
  shows "\<exists>n s'. n \<le> length es \<and> sched_run (take n es) s = Some s' \<and> sched_inv s' \<and> current s' = p"
  using assms by (rule sched_run_reaches)

theorem RR_no_starvation_witness:
  "\<exists>n s'. n \<le> 5 \<and> sched_run (take n [Tick, Resched, Wake 4, Block, Resched]) demo_sched = Some s' \<and>
     sched_inv s' \<and> current s' = 3"
proof -
  have "waits_at 3 1 demo_sched" "no_zombies [Tick, Resched, Wake 4, Block, Resched] demo_sched"
    by (simp_all add: waits_at_def no_zombies_def demo_sched_def demo_proc_def)
  then show ?thesis
    using RR_no_starvation [of demo_sched 3 1 "[Tick, Resched, Wake 4, Block, Resched]"] demo_sched_inv(1)
    by (simp add: eval_nat_numeral)
qed

text \<open>
  The timer list stores, for each pending timer, the difference to the one before it. \<open>add_timer\<close> inserts
  a timer that expires \<open>expires\<close> ticks from now behind every timer due at that time or earlier and leaves
  the absolute expiry of every other timer as it was; \<open>del_timer\<close> removes one timer and leaves the absolute
  expiry of the others as it was.
\<close>

theorem timer_list_expiries:
  assumes "distinct (timer_list s)"
  shows "(0 < expires (timers s t) \<and> t \<notin> set (timer_list s) \<longrightarrow>
      (\<exists>s'. add_timer t s = Some s' \<and> distinct (timer_list s') \<and>
        expiries (timers s') (timer_list s') 0 =
          takeWhile (\<lambda>(_, v). v \<le> expires (timers s t)) (expiries (timers s) (timer_list s) 0) @
          (t, expires (timers s t)) #
          dropWhile (\<lambda>(_, v). v \<le> expires (timers s t)) (expiries (timers s) (timer_list s) 0))) \<and>
    expiries (timers (del_timer t s)) (timer_list (del_timer t s)) 0 =
      filter (\<lambda>(y, _). y \<noteq> t) (expiries (timers s) (timer_list s) 0)"
proof (intro conjI impI)
  assume t: "0 < expires (timers s t) \<and> t \<notin> set (timer_list s)"
  obtain tm xs where r: "add_timer_loop t (timers s) (timer_list s) = (tm, xs)"
    by fastforce
  show "\<exists>s'. add_timer t s = Some s' \<and> distinct (timer_list s') \<and>
        expiries (timers s') (timer_list s') 0 =
          takeWhile (\<lambda>(_, v). v \<le> expires (timers s t)) (expiries (timers s) (timer_list s) 0) @
          (t, expires (timers s t)) #
          dropWhile (\<lambda>(_, v). v \<le> expires (timers s t)) (expiries (timers s) (timer_list s) 0)"
    using add_timer_loop_expiries [OF r, of 0] add_timer_loop_frame [OF r] t assms r
    by (simp add: add_timer_def)
next
  have "filter (\<lambda>(y, _). y \<noteq> t) (expiries (timers s) xs 0) = expiries (timers s) xs 0" if "t \<notin> set xs" for xs
    using that expiries_dom [of "timers s" xs 0] by (force intro: filter_True)
  then show "expiries (timers (del_timer t s)) (timer_list (del_timer t s)) 0 =
      filter (\<lambda>(y, _). y \<noteq> t) (expiries (timers s) (timer_list s) 0)"
    using del_timer_list_expiries [of t "timers s" "timer_list s" _ _ 0] assms
    by (cases "t \<in> set (timer_list s)") (auto simp: del_timer_def split: prod.splits)
qed

theorem timer_list_expiries_witness:
  "(\<exists>s'. add_timer 9 demo_sched = Some s' \<and> distinct (timer_list s') \<and>
      expiries (timers s') (timer_list s') 0 = [(7, 1), (9, 1), (8, 2)]) \<and>
   expiries (timers (del_timer 7 demo_sched)) (timer_list (del_timer 7 demo_sched)) 0 = [(8, 2)]"
proof -
  have "distinct (timer_list demo_sched)" "expires (timers demo_sched 9) = 1" "9 \<notin> set (timer_list demo_sched)"
    "expiries (timers demo_sched) (timer_list demo_sched) 0 = [(7, 1), (8, 2)]"
    by (simp_all add: demo_sched_def)
  then show ?thesis
    using timer_list_expiries [of demo_sched 9] timer_list_expiries [of demo_sched 7] by simp
qed

text \<open>
  C39: one clock tick moves every pending timer one tick closer, removes from the list exactly the timers due
  now and makes exactly their processes runnable; no assertion fails as long as the timers' processes are
  alive and, if waiting, wait interruptibly.
\<close>

theorem run_timer_list_fires:
  assumes "sched_inv s" "timers_inv s"
  shows "\<exists>s'. run_timer_list s = Some s' \<and> sched_inv s' \<and>
    map (\<lambda>(t, v). (t, v + 1)) (expiries (timers s') (timer_list s') 0) =
      filter (\<lambda>(_, v). 1 < v) (expiries (timers s) (timer_list s) 0) \<and>
    (\<forall>q. p_state (procs s' q) = (if q \<in> expired_procs s then PROC_RUNNABLE else p_state (procs s q)))"
  using run_timer_list_ok [OF assms] by auto

theorem run_timer_list_fires_witness:
  "\<exists>s'. run_timer_list demo_sched = Some s' \<and> sched_inv s' \<and>
    map (\<lambda>(t, v). (t, v + 1)) (expiries (timers s') (timer_list s') 0) = [(8, 2)] \<and>
    p_state (procs s' 4) = PROC_RUNNABLE \<and> p_state (procs s' 5) = PROC_SLEEPING"
  using run_timer_list_fires [OF demo_sched_inv]
  by (auto simp: expired_procs_def demo_sched_def demo_proc_def)

end
