(* ===== verification/Sync.thy ===== *)
theory Sync
  imports Sched
begin

text \<open>
  Wait queues (\<open>kern/sync/wait.c\<close>), semaphores (\<open>kern/sync/sem.c\<close>) and monitors
  (\<open>kern/sync/monitor.c\<close>) on top of the scheduler.

  A wait queue is the list of the \<open>wait_t\<close> objects linked in it, by the address of the queue; a \<open>wait_t\<close> is
  linked exactly when it is in the list of the queue its \<open>wait_queue\<close> field names (\<open>wait_init\<close> clears
  both). The value of a semaphore and its wait queue have the semaphore's address.

  \<open>__down\<close> gives up the processor in the middle: other processes run between its call of \<open>schedule\<close> and
  the statements after it. It is therefore two definitions, \<open>down_begin\<close> up to and including the call and
  \<open>down_end\<close> for the rest, and \<open>sem_step\<close> below interleaves the operations of all processes.
\<close>

section \<open>Wait queues\<close>

record wait =
  w_proc :: nat
  wakeup_flags :: u32
  w_queue :: "nat option"

record sync = sched +
  waits :: "nat \<Rightarrow> wait"
  wait_head :: "nat \<Rightarrow> nat list"
  sem_value :: "nat \<Rightarrow> int"

definition wait_init :: "nat \<Rightarrow> nat \<Rightarrow> 'a sync_scheme \<Rightarrow> 'a sync_scheme" where
  "wait_init wt proc s = s\<lparr>waits := (waits s)(wt := \<lparr>w_proc = proc, wakeup_flags = WT_INTERRUPTED, w_queue = None\<rparr>)\<rparr>"

definition wait_queue_init :: "nat \<Rightarrow> 'a sync_scheme \<Rightarrow> 'a sync_scheme" where
  "wait_queue_init q s = s\<lparr>wait_head := (wait_head s)(q := [])\<rparr>"

definition wait_in_queue :: "nat \<Rightarrow> 'a sync_scheme \<Rightarrow> bool" where
  "wait_in_queue wt s = (case w_queue (waits s wt) of None \<Rightarrow> False | Some q \<Rightarrow> wt \<in> set (wait_head s q))"

definition wait_queue_add :: "nat \<Rightarrow> nat \<Rightarrow> 'a sync_scheme \<Rightarrow> 'a sync_scheme option" where
  "wait_queue_add q wt s = do {
     kassert (\<not> wait_in_queue wt s);
     Some (s\<lparr>waits := (waits s)(wt := (waits s wt)\<lparr>w_queue := Some q\<rparr>),
             wait_head := (wait_head s)(q := wait_head s q @ [wt])\<rparr>)
   }"

definition wait_queue_del :: "nat \<Rightarrow> nat \<Rightarrow> 'a sync_scheme \<Rightarrow> 'a sync_scheme option" where
  "wait_queue_del q wt s = do {
     kassert (wait_in_queue wt s \<and> w_queue (waits s wt) = Some q);
     Some (s\<lparr>wait_head := (wait_head s)(q := remove1 wt (wait_head s q))\<rparr>)
   }"

fun after_in :: "nat \<Rightarrow> nat list \<Rightarrow> nat option" where
  "after_in x (y # z # zs) = (if x = y then Some z else after_in x (z # zs))"
| "after_in x _ = None"

definition wait_queue_next :: "nat \<Rightarrow> nat \<Rightarrow> 'a sync_scheme \<Rightarrow> nat option option" where
  "wait_queue_next q wt s = do {
     kassert (wait_in_queue wt s \<and> w_queue (waits s wt) = Some q);
     Some (after_in wt (wait_head s q))
   }"

definition wait_queue_prev :: "nat \<Rightarrow> nat \<Rightarrow> 'a sync_scheme \<Rightarrow> nat option option" where
  "wait_queue_prev q wt s = do {
     kassert (wait_in_queue wt s \<and> w_queue (waits s wt) = Some q);
     Some (after_in wt (rev (wait_head s q)))
   }"

definition wait_queue_first :: "nat \<Rightarrow> 'a sync_scheme \<Rightarrow> nat option" where
  "wait_queue_first q s = (case wait_head s q of [] \<Rightarrow> None | wt # _ \<Rightarrow> Some wt)"

definition wait_queue_last :: "nat \<Rightarrow> 'a sync_scheme \<Rightarrow> nat option" where
  "wait_queue_last q s = (case wait_head s q of [] \<Rightarrow> None | ws \<Rightarrow> Some (last ws))"

definition wait_queue_empty :: "nat \<Rightarrow> 'a sync_scheme \<Rightarrow> bool" where
  "wait_queue_empty q s = (wait_head s q = [])"

definition wakeup_wait :: "nat \<Rightarrow> nat \<Rightarrow> u32 \<Rightarrow> bool \<Rightarrow> 'a sync_scheme \<Rightarrow> 'a sync_scheme option" where
  "wakeup_wait q wt flags del s = do {
     s \<leftarrow> (if del then wait_queue_del q wt s else Some s);
     let s = s\<lparr>waits := (waits s)(wt := (waits s wt)\<lparr>wakeup_flags := flags\<rparr>)\<rparr>;
     wakeup_proc (w_proc (waits s wt)) s
   }"

definition wakeup_first :: "nat \<Rightarrow> u32 \<Rightarrow> bool \<Rightarrow> 'a sync_scheme \<Rightarrow> 'a sync_scheme option" where
  "wakeup_first q flags del s =
     (case wait_queue_first q s of Some wt \<Rightarrow> wakeup_wait q wt flags del s | None \<Rightarrow> Some s)"

text \<open>The two loops of \<open>wakeup_queue\<close>. Each round of the first removes the head of the queue; the second
  walks along the queue, which no round changes. Both run over the entries of the queue at the start.\<close>

fun wakeup_queue_del :: "nat \<Rightarrow> u32 \<Rightarrow> nat list \<Rightarrow> 'a sync_scheme \<Rightarrow> 'a sync_scheme option" where
  "wakeup_queue_del q flags [] s = Some s"
| "wakeup_queue_del q flags (wt # ws) s = do {
     s \<leftarrow> wakeup_wait q wt flags True s;
     wakeup_queue_del q flags ws s
   }"

fun wakeup_queue_keep :: "nat \<Rightarrow> u32 \<Rightarrow> nat list \<Rightarrow> 'a sync_scheme \<Rightarrow> 'a sync_scheme option" where
  "wakeup_queue_keep q flags [] s = Some s"
| "wakeup_queue_keep q flags (wt # ws) s = do {
     s \<leftarrow> wakeup_wait q wt flags False s;
     kassert (wait_in_queue wt s \<and> w_queue (waits s wt) = Some q);
     wakeup_queue_keep q flags ws s
   }"

definition wakeup_queue :: "nat \<Rightarrow> u32 \<Rightarrow> bool \<Rightarrow> 'a sync_scheme \<Rightarrow> 'a sync_scheme option" where
  "wakeup_queue q flags del s =
     (if del then wakeup_queue_del q flags (wait_head s q) s else wakeup_queue_keep q flags (wait_head s q) s)"

definition wait_current_set :: "nat \<Rightarrow> nat \<Rightarrow> u32 \<Rightarrow> 'a sync_scheme \<Rightarrow> 'a sync_scheme option" where
  "wait_current_set q wt wstate s = do {
     let s = wait_init wt (current s) s;
     let s = upd_proc (current s) (p_state_update (\<lambda>_. PROC_SLEEPING)) s;
     let s = upd_proc (current s) (p_wait_state_update (\<lambda>_. wstate)) s;
     wait_queue_add q wt s
   }"

definition wait_current_del :: "nat \<Rightarrow> nat \<Rightarrow> 'a sync_scheme \<Rightarrow> 'a sync_scheme option" where
  "wait_current_del q wt s = (if wait_in_queue wt s then wait_queue_del q wt s else Some s)"

section \<open>Semaphores\<close>

definition sem_init :: "nat \<Rightarrow> int \<Rightarrow> 'a sync_scheme \<Rightarrow> 'a sync_scheme" where
  "sem_init sem v s = wait_queue_init sem (s\<lparr>sem_value := (sem_value s)(sem := v)\<rparr>)"

definition up_ws :: "nat \<Rightarrow> u32 \<Rightarrow> 'a sync_scheme \<Rightarrow> 'a sync_scheme option" where
  "up_ws sem wstate s = (case wait_queue_first sem s of
     None \<Rightarrow> Some (s\<lparr>sem_value := (sem_value s)(sem := sem_value s sem + 1)\<rparr>)
   | Some wt \<Rightarrow> do {
       kassert (p_wait_state (procs s (w_proc (waits s wt))) = wstate);
       wakeup_wait sem wt wstate True s
     })"

text \<open>The result of \<open>down_begin\<close> is \<open>Some 0\<close> when \<open>__down\<close> returned at once and \<open>None\<close> when the caller
  went to sleep.\<close>

definition down_begin :: "nat \<Rightarrow> u32 \<Rightarrow> nat \<Rightarrow> 'a sync_scheme \<Rightarrow> (u32 option \<times> 'a sync_scheme) option" where
  "down_begin sem wstate wt s =
     (if sem_value s sem > 0 then Some (Some 0, s\<lparr>sem_value := (sem_value s)(sem := sem_value s sem - 1)\<rparr>)
      else do {
        s \<leftarrow> wait_current_set sem wt wstate s;
        s \<leftarrow> schedule s;
        Some (None, s)
      })"

definition down_end :: "nat \<Rightarrow> u32 \<Rightarrow> nat \<Rightarrow> 'a sync_scheme \<Rightarrow> (u32 \<times> 'a sync_scheme) option" where
  "down_end sem wstate wt s = do {
     s \<leftarrow> wait_current_del sem wt s;
     Some (if wakeup_flags (waits s wt) \<noteq> wstate then wakeup_flags (waits s wt) else 0, s)
   }"

definition up :: "nat \<Rightarrow> 'a sync_scheme \<Rightarrow> 'a sync_scheme option" where
  "up sem s = up_ws sem WT_KSEM s"

text \<open>\<open>down\<close> asserts that the flags it gets back are 0; \<open>down_resume\<close> is the part of it after the sleep.\<close>

definition down :: "nat \<Rightarrow> nat \<Rightarrow> 'a sync_scheme \<Rightarrow> (bool \<times> 'a sync_scheme) option" where
  "down sem wt s = do {
     (r, s) \<leftarrow> down_begin sem WT_KSEM wt s;
     case r of None \<Rightarrow> Some (False, s) | Some flags \<Rightarrow> do { kassert (flags = 0); Some (True, s) }
   }"

definition down_resume :: "nat \<Rightarrow> nat \<Rightarrow> 'a sync_scheme \<Rightarrow> 'a sync_scheme option" where
  "down_resume sem wt s = do {
     (flags, s) \<leftarrow> down_end sem WT_KSEM wt s;
     kassert (flags = 0);
     Some s
   }"

definition try_down :: "nat \<Rightarrow> 'a sync_scheme \<Rightarrow> bool \<times> 'a sync_scheme" where
  "try_down sem s =
     (if sem_value s sem > 0 then (True, s\<lparr>sem_value := (sem_value s)(sem := sem_value s sem - 1)\<rparr>)
      else (False, s))"

section \<open>Invariant of the semaphores\<close>

text \<open>
  Each process has its own \<open>wait_t\<close>, the local variable of \<open>__down\<close>, which has the number of the process.
  \<open>blk p\<close> is the semaphore in whose \<open>down\<close> process \<open>p\<close> is, if any. A blocked process is either in the
  queue of that semaphore and asleep, or has been woken with the flags that \<open>__down\<close> expects.
\<close>

definition queue_ok :: "(nat \<Rightarrow> nat option) \<Rightarrow> 'a sync_scheme \<Rightarrow> nat \<Rightarrow> bool" where
  "queue_ok blk s k \<longleftrightarrow> 0 \<le> sem_value s k \<and> (0 < sem_value s k \<longrightarrow> wait_head s k = []) \<and> distinct (wait_head s k) \<and>
     (\<forall>w \<in> set (wait_head s k). blk w = Some k \<and> w_proc (waits s w) = w \<and> w_queue (waits s w) = Some k \<and>
        p_state (procs s w) = PROC_SLEEPING \<and> p_wait_state (procs s w) = WT_KSEM)"

definition granted :: "(nat \<Rightarrow> nat option) \<Rightarrow> 'a sync_scheme \<Rightarrow> nat \<Rightarrow> bool" where
  "granted blk s p \<longleftrightarrow> (\<exists>k. blk p = Some k \<and> p \<notin> set (wait_head s k))"

definition sync_ok :: "(nat \<Rightarrow> nat option) \<Rightarrow> 'a sync_scheme \<Rightarrow> bool" where
  "sync_ok blk s \<longleftrightarrow> sched_inv s \<and> p_state (procs s (current s)) = PROC_RUNNABLE \<and> blk (idleproc s) = None \<and>
     (\<forall>k. queue_ok blk s k) \<and>
     (\<forall>p k. blk p = Some k \<and> p \<notin> set (wait_head s k) \<longrightarrow>
        w_queue (waits s p) = Some k \<and> wakeup_flags (waits s p) = WT_KSEM \<and> p_state (procs s p) = PROC_RUNNABLE)"

lemma sync_okD:
  assumes "sync_ok blk s"
  shows "sched_inv s" "p_state (procs s (current s)) = PROC_RUNNABLE" "blk (idleproc s) = None" "queue_ok blk s k"
    "blk p = Some k \<Longrightarrow> p \<notin> set (wait_head s k) \<Longrightarrow>
        w_queue (waits s p) = Some k \<and> wakeup_flags (waits s p) = WT_KSEM \<and> p_state (procs s p) = PROC_RUNNABLE"
  using assms by (auto simp: sync_ok_def)

lemma waiting_blk: "queue_ok blk s k \<Longrightarrow> w \<in> set (wait_head s k) \<Longrightarrow> blk w = Some k \<and> p_state (procs s w) = PROC_SLEEPING"
  by (simp add: queue_ok_def)

lemma sync_more:
  assumes "sched.more s' = sched.more (s :: 'a sync_scheme)"
  shows "waits s' = waits s" "wait_head s' = wait_head s" "sem_value s' = sem_value s" "sync.more s' = sync.more s"
  using assms by (cases s; cases s'; simp)+

lemmas upd_proc_sync [simp] = sync_more [OF upd_proc_more]
lemmas wakeup_proc_sync = sync_more [OF wakeup_proc_more]
lemmas schedule_sync = sync_more [OF schedule_more]

lemma sched_inv_sync [simp]:
  "sched_inv (s\<lparr>waits := a\<rparr>) = sched_inv s" "sched_inv (s\<lparr>wait_head := b\<rparr>) = sched_inv s"
  "sched_inv (s\<lparr>sem_value := c\<rparr>) = sched_inv s"
  by (simp_all add: sched_inv_def)

lemma up_free:
  assumes ok: "sync_ok blk s" and e: "wait_head s k = []"
  shows "up k s = Some (s\<lparr>sem_value := (sem_value s)(k := sem_value s k + 1)\<rparr>)"
    "sync_ok blk (s\<lparr>sem_value := (sem_value s)(k := sem_value s k + 1)\<rparr>)"
proof -
  have "0 \<le> sem_value s k"
    using sync_okD(4) [OF ok, of k] by (simp add: queue_ok_def)
  then show "sync_ok blk (s\<lparr>sem_value := (sem_value s)(k := sem_value s k + 1)\<rparr>)"
    using ok e by (auto simp: sync_ok_def queue_ok_def)
qed (simp add: up_def up_ws_def wait_queue_first_def e)

lemma up_handover:
  assumes ok: "sync_ok blk s" and e: "wait_head s k = w # ws"
  shows "\<exists>s'. up k s = Some s' \<and> sync_ok blk s' \<and> current s' = current s \<and> idleproc s' = idleproc s \<and>
    wait_head s' = (wait_head s)(k := ws) \<and> sem_value s' = sem_value s \<and> sync.more s' = sync.more s"
proof -
  have q: "queue_ok blk s k" by (rule sync_okD(4) [OF ok])
  then have w: "blk w = Some k" "w_proc (waits s w) = w" "w_queue (waits s w) = Some k"
    "p_state (procs s w) = PROC_SLEEPING" "p_wait_state (procs s w) = WT_KSEM" "w \<notin> set ws" "distinct ws"
    using e by (auto simp: queue_ok_def)
  define s1 where "s1 = s\<lparr>wait_head := (wait_head s)(k := ws),
     waits := (waits s)(w := (waits s w)\<lparr>wakeup_flags := WT_KSEM\<rparr>)\<rparr>"
  have inv1: "sched_inv s1" and z: "p_state (procs s1 w) \<noteq> PROC_ZOMBIE"
    using sync_okD(1) [OF ok] w(4) by (simp_all add: s1_def)
  obtain s' where s': "wakeup_proc w s1 = Some s'" "sched_inv s'" "current s' = current s" "idleproc s' = idleproc s"
    and st: "\<forall>q. p_state (procs s' q) = (if q = w then PROC_RUNNABLE else p_state (procs s q))"
    and ws: "\<forall>q. p_wait_state (procs s' q) = (if q = w then 0 else p_wait_state (procs s q))"
    using wakeup_ex [OF inv1 z] w(4) by (auto simp: s1_def)
  have up: "up k s = Some s'"
    using w(2,3,5) e s'(1)
    by (simp add: up_def up_ws_def wait_queue_first_def wakeup_wait_def wait_queue_del_def wait_in_queue_def s1_def)
  have fr: "waits s' = waits s1" "wait_head s' = (wait_head s)(k := ws)" "sem_value s' = sem_value s"
    "sync.more s' = sync.more s"
    using wakeup_proc_sync [OF s'(1)] by (simp_all add: s1_def)
  have qk: "queue_ok blk s' j" for j
  proof -
    have "queue_ok blk s j" by (rule sync_okD(4) [OF ok])
    moreover have "w \<notin> set (wait_head s j)" if "j \<noteq> k"
      using waiting_blk [OF \<open>queue_ok blk s j\<close>] w(1) that by auto
    ultimately show ?thesis
      using q e w(6) st ws by (cases "j = k") (auto simp: queue_ok_def fr s1_def)
  qed
  have "sync_ok blk s'"
    unfolding sync_ok_def
  proof (intro conjI allI impI)
    show "p_state (procs s' (current s')) = PROC_RUNNABLE"
      using st s'(3) sync_okD(2) [OF ok] by simp
    show "blk (idleproc s') = None"
      using s'(4) sync_okD(3) [OF ok] by simp
    fix p j assume p: "blk p = Some j \<and> p \<notin> set (wait_head s' j)"
    show "w_queue (waits s' p) = Some j" "wakeup_flags (waits s' p) = WT_KSEM" "p_state (procs s' p) = PROC_RUNNABLE"
      using p w(1,3) sync_okD(5) [OF ok, of p j] st e by (auto simp: fr s1_def split: if_splits)
  qed (use s'(2) qk in auto)
  with up fr s' show ?thesis by auto
qed

lemma schedule_sync_ok:
  assumes inv: "sched_inv s"
  shows "\<exists>s'. schedule s = Some s' \<and> sched_inv s' \<and> p_state (procs s' (current s')) = PROC_RUNNABLE \<and>
    idleproc s' = idleproc s \<and> waits s' = waits s \<and> wait_head s' = wait_head s \<and> sem_value s' = sem_value s \<and>
    sync.more s' = sync.more s \<and>
    (\<forall>q. p_state (procs s' q) = p_state (procs s q)) \<and> (\<forall>q. p_wait_state (procs s' q) = p_wait_state (procs s q))"
proof -
  obtain s' where s': "schedule s = Some s'" "sched_inv s'"
    "current s' = (case candidates s of [] \<Rightarrow> idleproc s | p # _ \<Rightarrow> p)" "idleproc s' = idleproc s"
    "\<forall>q. p_state (procs s' q) = p_state (procs s q)" "\<forall>q. p_wait_state (procs s' q) = p_wait_state (procs s q)"
    by (rule schedule_ok [OF inv]) blast
  have "p_state (procs s (current s')) = PROC_RUNNABLE"
    using inv s'(3) by (cases "run_list s") (auto simp: candidates_def sched_inv_def)
  with s' schedule_sync [OF s'(1)] show ?thesis by (intro exI [of _ s']) simp
qed

lemma down_free:
  assumes ok: "sync_ok blk s" and v: "0 < sem_value s k"
  shows "down k wt s = Some (True, s\<lparr>sem_value := (sem_value s)(k := sem_value s k - 1)\<rparr>)"
    "sync_ok blk (s\<lparr>sem_value := (sem_value s)(k := sem_value s k - 1)\<rparr>)"
  using ok v by (auto simp: down_def down_begin_def sync_ok_def queue_ok_def)

lemma down_block:
  assumes ok: "sync_ok blk s" and v: "\<not> 0 < sem_value s k" and c: "current s \<noteq> idleproc s" "blk (current s) = None"
  shows "\<exists>s'. down k (current s) s = Some (False, s') \<and> sync_ok (blk(current s \<mapsto> k)) s' \<and>
    wait_head s' = (wait_head s)(k := wait_head s k @ [current s]) \<and> sem_value s' = sem_value s \<and>
    idleproc s' = idleproc s \<and> sync.more s' = sync.more s"
proof -
  let ?c = "current s"
  define s1 where "s1 = (upd_proc ?c (p_wait_state_update (\<lambda>_. WT_KSEM)) (upd_proc ?c (p_state_update (\<lambda>_. PROC_SLEEPING)) s))
    \<lparr>waits := (waits s)(?c := \<lparr>w_proc = ?c, wakeup_flags = WT_INTERRUPTED, w_queue = Some k\<rparr>),
     wait_head := (wait_head s)(k := wait_head s k @ [?c])\<rparr>"
  have set: "wait_current_set k ?c WT_KSEM s = Some s1"
    by (simp add: wait_current_set_def wait_queue_add_def wait_in_queue_def wait_init_def upd_proc_def s1_def)
  have inv1: "sched_inv s1"
    unfolding s1_def using block_inv [OF sync_okD(1) [OF ok] c(1)] by (simp add: upd_proc_inv)
  obtain s' where s': "schedule s1 = Some s'" "sched_inv s'" "p_state (procs s' (current s')) = PROC_RUNNABLE"
    "idleproc s' = idleproc s1" "waits s' = waits s1" "wait_head s' = wait_head s1" "sem_value s' = sem_value s1"
    "sync.more s' = sync.more s1"
    and st1: "\<forall>q. p_state (procs s' q) = p_state (procs s1 q)"
    and ws1: "\<forall>q. p_wait_state (procs s' q) = p_wait_state (procs s1 q)"
    using schedule_sync_ok [OF inv1] by blast
  have st: "p_state (procs s' q) = (if q = ?c then PROC_SLEEPING else p_state (procs s q))"
    and ws: "p_wait_state (procs s' q) = (if q = ?c then WT_KSEM else p_wait_state (procs s q))" for q
    using st1 ws1 by (simp_all add: s1_def)
  have nq: "?c \<notin> set (wait_head s j)" for j
    using waiting_blk [OF sync_okD(4) [OF ok], of ?c j] c(2) by auto
  have qk: "queue_ok (blk(?c \<mapsto> k)) s' j" for j
    using sync_okD(4) [OF ok, of j] nq [of j] v
    by (cases "j = k") (auto simp: queue_ok_def s'(5-7) s1_def st ws)
  have "sync_ok (blk(?c \<mapsto> k)) s'"
    unfolding sync_ok_def
  proof (intro conjI allI impI)
    show "(blk(?c \<mapsto> k)) (idleproc s') = None"
      using s'(4) c(1) sync_okD(3) [OF ok] by (simp add: s1_def)
    fix p j assume p: "(blk(?c \<mapsto> k)) p = Some j \<and> p \<notin> set (wait_head s' j)"
    have h: "wait_head s' = (wait_head s)(k := wait_head s k @ [?c])"
      by (simp add: s'(6) s1_def)
    have "p \<noteq> ?c"
      using p h by auto
    then have "blk p = Some j" "p \<notin> set (wait_head s j)" "waits s' p = waits s p" "p_state (procs s' p) = p_state (procs s p)"
      using p h by (auto simp: s'(5) s1_def st split: if_splits)
    then show "w_queue (waits s' p) = Some j" "wakeup_flags (waits s' p) = WT_KSEM" "p_state (procs s' p) = PROC_RUNNABLE"
      using sync_okD(5) [OF ok, of p j] by simp_all
  qed (use s'(2,3) qk in auto)
  moreover have "down k ?c s = Some (False, s')"
    using v set s'(1) by (simp add: down_def down_begin_def)
  ultimately show ?thesis
    using s' by (intro exI [of _ s']) (simp add: s1_def)
qed

lemma down_resume_ok:
  assumes ok: "sync_ok blk s" and b: "blk (current s) = Some k"
  shows "down_resume k (current s) s = Some s" "sync_ok (blk(current s := None)) s"
proof -
  let ?c = "current s"
  have nq: "?c \<notin> set (wait_head s j)" for j
    using waiting_blk [OF sync_okD(4) [OF ok], of ?c j] sync_okD(2) [OF ok] by auto
  then show "down_resume k ?c s = Some s"
    using sync_okD(5) [OF ok b nq]
    by (simp add: down_resume_def down_end_def wait_current_del_def wait_in_queue_def)
  have "queue_ok (blk(?c := None)) s j" for j
    using sync_okD(4) [OF ok, of j] nq [of j] by (auto simp: queue_ok_def)
  then show "sync_ok (blk(?c := None)) s"
    using ok by (auto simp: sync_ok_def split: if_splits)
qed

section \<open>Every interleaving of semaphore operations\<close>

text \<open>
  The kernel is not preempted: control leaves a process only in \<open>schedule\<close>. \<open>sem_step e\<close> is the next step of
  the running process: if it was asleep in \<open>down\<close> it first finishes that call; then it performs the operation
  \<open>e\<close>. \<open>ups\<close> and \<open>grants\<close> count the \<open>up\<close> calls and the \<open>down\<close>s that were granted, at once or by a wakeup.
\<close>

datatype sem_event = SUp nat | SDown nat | STry nat | SYield

record semsys = sync +
  blocked :: "nat \<Rightarrow> nat option"
  ups :: "nat \<Rightarrow> nat"
  grants :: "nat \<Rightarrow> nat"

definition sem_resume :: "semsys \<Rightarrow> semsys option" where
  "sem_resume s = (case blocked s (current s) of None \<Rightarrow> Some s
     | Some k \<Rightarrow> do { s' \<leftarrow> down_resume k (current s) s; Some (s'\<lparr>blocked := (blocked s')(current s := None)\<rparr>) })"

definition sem_op :: "sem_event \<Rightarrow> semsys \<Rightarrow> semsys option" where
  "sem_op e s = (case e of
     SUp k \<Rightarrow> do {
       let hand = \<not> wait_queue_empty k s;
       s' \<leftarrow> up k s;
       Some (s'\<lparr>ups := (ups s)(k := ups s k + 1),
               grants := (if hand then (grants s)(k := grants s k + 1) else grants s)\<rparr>) }
   | SDown k \<Rightarrow> (if current s = idleproc s then Some s else do {
       (got, s') \<leftarrow> down k (current s) s;
       Some (if got then s'\<lparr>grants := (grants s)(k := grants s k + 1)\<rparr>
             else s'\<lparr>blocked := (blocked s)(current s \<mapsto> k)\<rparr>) })
   | STry k \<Rightarrow> (let (got, s') = try_down k s
               in Some (if got then s'\<lparr>grants := (grants s)(k := grants s k + 1)\<rparr> else s'))
   | SYield \<Rightarrow> schedule s)"

definition sem_step :: "sem_event \<Rightarrow> semsys \<Rightarrow> semsys option" where
  "sem_step e s = do { s \<leftarrow> sem_resume s; sem_op e s }"

fun sem_run :: "sem_event list \<Rightarrow> semsys \<Rightarrow> semsys option" where
  "sem_run [] s = Some s"
| "sem_run (e # es) s = do { s \<leftarrow> sem_step e s; sem_run es s }"

definition sem_inv :: "(nat \<Rightarrow> int) \<Rightarrow> semsys \<Rightarrow> bool" where
  "sem_inv v0 s \<longleftrightarrow> sync_ok (blocked s) s \<and> (\<forall>k. sem_value s k + int (grants s k) = v0 k + int (ups s k))"

lemma sync_ok_cong:
  assumes "sync_ok blk s" "procs s' = procs s" "current s' = current s" "idleproc s' = idleproc s"
    "run_list s' = run_list s" "proc_num s' = proc_num s" "waits s' = waits s" "wait_head s' = wait_head s"
    "sem_value s' = sem_value s"
  shows "sync_ok blk s'"
  using assms by (simp add: sync_ok_def queue_ok_def sched_inv_def) blast

lemma sync_ok_ghost [simp]:
  "sync_ok blk (s\<lparr>blocked := b\<rparr>) = sync_ok blk s" "sync_ok blk (s\<lparr>ups := u\<rparr>) = sync_ok blk s"
  "sync_ok blk (s\<lparr>grants := g\<rparr>) = sync_ok blk s"
  by (rule iffI; erule sync_ok_cong; simp)+

lemma ghost_of_more:
  "sync.more s' = sync.more s \<Longrightarrow> blocked s' = blocked s \<and> ups s' = ups s \<and> grants s' = grants s"
  by (cases s; cases s'; simp)

lemma sem_resume_ok:
  assumes "sem_inv v0 s"
  shows "\<exists>s'. sem_resume s = Some s' \<and> sem_inv v0 s' \<and> blocked s' (current s') = None"
proof (cases "blocked s (current s)")
  case None
  with assms show ?thesis by (simp add: sem_resume_def)
next
  case (Some k)
  note r = down_resume_ok [of "blocked s" s k]
  have "sem_resume s = Some (s\<lparr>blocked := (blocked s)(current s := None)\<rparr>)"
    using r(1) assms Some by (simp add: sem_resume_def sem_inv_def)
  with r(2) assms Some show ?thesis
    by (simp add: sem_inv_def)
qed

lemma sem_op_ok:
  assumes inv: "sem_inv v0 s" and b: "blocked s (current s) = None"
  shows "\<exists>s'. sem_op e s = Some s' \<and> sem_inv v0 s'"
proof (cases e)
  case (SUp k)
  have ok: "sync_ok (blocked s) s" and cnt: "\<And>k. sem_value s k + int (grants s k) = v0 k + int (ups s k)"
    using inv by (auto simp: sem_inv_def)
  show ?thesis
  proof (cases "wait_head s k")
    case Nil
    have "sem_inv v0 (s\<lparr>sem_value := (sem_value s)(k := sem_value s k + 1), ups := (ups s)(k := ups s k + 1), grants := grants s\<rparr>)"
      using up_free(2) [OF ok Nil] cnt by (auto simp: sem_inv_def algebra_simps)
    then show ?thesis
      using SUp Nil up_free(1) [OF ok Nil] by (simp add: sem_op_def wait_queue_empty_def Let_def)
  next
    case (Cons w ws)
    obtain s' where s': "up k s = Some s'" "sync_ok (blocked s) s'" "sem_value s' = sem_value s" "sync.more s' = sync.more s"
      using up_handover [OF ok Cons] by blast
    have "sem_inv v0 (s'\<lparr>ups := (ups s)(k := ups s k + 1), grants := (grants s)(k := grants s k + 1)\<rparr>)"
      using s'(2,3) cnt ghost_of_more [OF s'(4)] by (auto simp: sem_inv_def)
    then show ?thesis
      using SUp Cons s'(1) by (simp add: sem_op_def wait_queue_empty_def Let_def)
  qed
next
  case (SDown k)
  have ok: "sync_ok (blocked s) s" and cnt: "\<And>k. sem_value s k + int (grants s k) = v0 k + int (ups s k)"
    using inv by (auto simp: sem_inv_def)
  consider "current s = idleproc s" | "current s \<noteq> idleproc s" "0 < sem_value s k"
    | "current s \<noteq> idleproc s" "\<not> 0 < sem_value s k" by blast
  then show ?thesis
  proof cases
    case 1
    with SDown inv show ?thesis by (simp add: sem_op_def)
  next
    case 2
    have "sem_inv v0 (s\<lparr>sem_value := (sem_value s)(k := sem_value s k - 1), grants := (grants s)(k := grants s k + 1)\<rparr>)"
      using down_free(2) [OF ok 2(2)] cnt by (auto simp: sem_inv_def algebra_simps)
    then show ?thesis
      using SDown 2 down_free(1) [OF ok 2(2), of "current s"] by (simp add: sem_op_def)
  next
    case 3
    obtain s' where s': "down k (current s) s = Some (False, s')" "sync_ok ((blocked s)(current s \<mapsto> k)) s'"
      "sem_value s' = sem_value s" "sync.more s' = sync.more s"
      using down_block [OF ok 3(2,1) b] by blast
    have "sem_inv v0 (s'\<lparr>blocked := (blocked s)(current s \<mapsto> k)\<rparr>)"
      using s'(2,3) cnt ghost_of_more [OF s'(4)] by (auto simp: sem_inv_def)
    then show ?thesis
      using SDown 3 s'(1) by (simp add: sem_op_def)
  qed
next
  case (STry k)
  have "sem_inv v0 (s\<lparr>sem_value := (sem_value s)(k := sem_value s k - 1), grants := (grants s)(k := grants s k + 1)\<rparr>)"
    if "0 < sem_value s k"
    using down_free(2) [of "blocked s" s k] that inv by (auto simp: sem_inv_def algebra_simps)
  then show ?thesis
    using STry inv by (auto simp: sem_op_def try_down_def)
next
  case SYield
  have ok: "sync_ok (blocked s) s" using inv by (simp add: sem_inv_def)
  obtain s' where s': "schedule s = Some s'" "sched_inv s'" "p_state (procs s' (current s')) = PROC_RUNNABLE"
    "idleproc s' = idleproc s" "waits s' = waits s" "wait_head s' = wait_head s" "sem_value s' = sem_value s"
    "sync.more s' = sync.more s"
    "\<forall>q. p_state (procs s' q) = p_state (procs s q)" "\<forall>q. p_wait_state (procs s' q) = p_wait_state (procs s q)"
    using schedule_sync_ok [OF sync_okD(1) [OF ok]] by blast
  have "sync_ok (blocked s) s'"
    using ok s' by (simp add: sync_ok_def queue_ok_def) blast
  then have "sem_inv v0 s'"
    using inv s'(7) ghost_of_more [OF s'(8)] by (simp add: sem_inv_def)
  then show ?thesis using SYield s'(1) by (simp add: sem_op_def)
qed

lemma sem_run_ok:
  assumes "sem_inv v0 s"
  shows "\<exists>s'. sem_run es s = Some s' \<and> sem_inv v0 s'"
  using assms
proof (induction es arbitrary: s)
  case Nil
  then show ?case by simp
next
  case (Cons e es)
  obtain s1 where s1: "sem_resume s = Some s1" "sem_inv v0 s1" "blocked s1 (current s1) = None"
    using sem_resume_ok [OF Cons.prems] by blast
  obtain s2 where "sem_op e s1 = Some s2" "sem_inv v0 s2"
    using sem_op_ok [OF s1(2,3)] by blast
  then show ?case
    using Cons.IH s1(1) by (simp add: sem_step_def)
qed

definition demo_semsys :: semsys where
  "demo_semsys = \<lparr>procs = (\<lambda>p. demo_proc (if p < 3 then PROC_RUNNABLE else PROC_UNINIT)), current = 1, idleproc = 0,
     run_list = [2], proc_num = 1, max_time_slice = 20, timer_list = [], timers = (\<lambda>_. \<lparr>expires = 0, t_proc = 0\<rparr>),
     waits = (\<lambda>w. \<lparr>w_proc = 0, wakeup_flags = 0, w_queue = None\<rparr>), wait_head = (\<lambda>_. []), sem_value = (\<lambda>_. 1),
     blocked = (\<lambda>_. None), ups = (\<lambda>_. 0), grants = (\<lambda>_. 0)\<rparr>"

lemma demo_semsys_inv: "sem_inv (\<lambda>_. 1) demo_semsys"
  by (auto simp: sem_inv_def sync_ok_def queue_ok_def sched_inv_def demo_semsys_def demo_proc_def)

text \<open>
  C2: semaphores under every interleaving. In every sequence of \<open>up\<close>, \<open>down\<close>, \<open>try_down\<close> and yields by any
  number of processes, over any number of semaphores, no assertion of the scheduler, of the wait queues or
  of \<open>down\<close> fails; the value of a semaphore never becomes negative; it equals its initial value plus the
  \<open>up\<close>s minus the granted \<open>down\<close>s, so that never more \<open>down\<close>s are granted than initial value and \<open>up\<close>s allow;
  and no wakeup is lost: while the value is positive, no process waits, and every process asleep in a \<open>down\<close>
  is in the queue that the next \<open>up\<close> serves.
\<close>

theorem semaphore_safe:
  assumes "sem_inv v0 s"
  shows "\<exists>s'. sem_run es s = Some s' \<and>
    (\<forall>k. 0 \<le> sem_value s' k \<and> sem_value s' k = v0 k + int (ups s' k) - int (grants s' k) \<and>
      (0 < sem_value s' k \<longrightarrow> wait_head s' k = []) \<and>
      (\<forall>p. blocked s' p = Some k \<and> p_state (procs s' p) = PROC_SLEEPING \<longrightarrow> p \<in> set (wait_head s' k)))"
proof -
  obtain s' where s': "sem_run es s = Some s'" "sem_inv v0 s'"
    using sem_run_ok [OF assms] by blast
  have ok: "sync_ok (blocked s') s'"
    using s'(2) by (simp add: sem_inv_def)
  have "sem_value s' k = v0 k + int (ups s' k) - int (grants s' k)" for k
    using s'(2) by (simp add: sem_inv_def eq_diff_eq)
  moreover have "0 \<le> sem_value s' k \<and> (0 < sem_value s' k \<longrightarrow> wait_head s' k = [])" for k
    using sync_okD(4) [OF ok, of k] by (simp add: queue_ok_def)
  moreover have "p \<in> set (wait_head s' k)" if "blocked s' p = Some k \<and> p_state (procs s' p) = PROC_SLEEPING" for p k
    using sync_okD(5) [OF ok, of p k] that by auto
  ultimately show ?thesis
    using s'(1) by blast
qed

theorem semaphore_safe_witness:
  "\<exists>s'. sem_run [SDown 5, SDown 5, SYield, SUp 5, SDown 7] demo_semsys = Some s' \<and> 0 \<le> sem_value s' 5 \<and>
     sem_value s' 5 = 1 + int (ups s' 5) - int (grants s' 5)"
  using semaphore_safe [OF demo_semsys_inv, of "[SDown 5, SDown 5, SYield, SUp 5, SDown 7]"] by blast

text \<open>
  \<open>up\<close> hands the semaphore to the process that has waited longest: with a non-empty queue it wakes the
  process at the head, which becomes runnable and leaves the queue, and the value stays as it is; a \<open>down\<close>
  that cannot proceed appends its caller at the tail.
\<close>

theorem semaphore_fifo:
  assumes "sync_ok blk s" "current s \<noteq> idleproc s" "blk (current s) = None" "sem_value s k = 0"
  shows "(\<exists>s'. down k (current s) s = Some (False, s') \<and> wait_head s' k = wait_head s k @ [current s]) \<and>
    (wait_head s k \<noteq> [] \<longrightarrow> (\<exists>s'. up k s = Some s' \<and> sem_value s' k = 0 \<and> wait_head s' k = tl (wait_head s k) \<and>
       p_state (procs s' (hd (wait_head s k))) = PROC_RUNNABLE))"
proof (intro conjI impI)
  show "\<exists>s'. down k (current s) s = Some (False, s') \<and> wait_head s' k = wait_head s k @ [current s]"
    using down_block [of blk s k] assms by auto
next
  assume "wait_head s k \<noteq> []"
  then obtain w ws where e: "wait_head s k = w # ws" by (cases "wait_head s k") auto
  obtain s' where s': "up k s = Some s'" "sync_ok blk s'" "wait_head s' = (wait_head s)(k := ws)" "sem_value s' = sem_value s"
    using up_handover [OF assms(1) e] by blast
  have "queue_ok blk s k" by (rule sync_okD(4) [OF assms(1)])
  then have "blk w = Some k" "w \<notin> set ws" using e by (auto simp: queue_ok_def)
  then have "p_state (procs s' w) = PROC_RUNNABLE"
    using sync_okD(5) [OF s'(2), of w k] s'(3) by simp
  then show "\<exists>s'. up k s = Some s' \<and> sem_value s' k = 0 \<and> wait_head s' k = tl (wait_head s k) \<and>
       p_state (procs s' (hd (wait_head s k))) = PROC_RUNNABLE"
    using s' e assms(4) by auto
qed

theorem semaphore_fifo_witness:
  "\<exists>s'. down 5 1 (demo_semsys\<lparr>sem_value := \<lambda>_. 0\<rparr>) = Some (False, s') \<and> wait_head s' 5 = [1]"
proof -
  let ?s = "demo_semsys\<lparr>sem_value := \<lambda>_. 0\<rparr>"
  have "sync_ok (\<lambda>_. None) ?s"
    by (auto simp: sync_ok_def queue_ok_def sched_inv_def demo_semsys_def demo_proc_def)
  then show ?thesis
    using semaphore_fifo [of "\<lambda>_. None" ?s 5] by (simp add: demo_semsys_def)
qed

end
