(* ===== verification/Monitor.thy ===== *)
theory Monitor
  imports Sync
begin

text \<open>
  Monitors with condition variables (\<open>kern/sync/monitor.c\<close>): \<open>monitor_init\<close>, \<open>cond_wait\<close>, \<open>cond_signal\<close>, and
  the entry and exit code that \<open>kern/sync/monitor.h\<close> prescribes for the routines of a monitor.

  \<open>cond_wait\<close> and \<open>cond_signal\<close> sleep in \<open>down\<close>; as for semaphores each is a first part that ends with
  the sleep and a \<open>_resume\<close> part that runs when the process is scheduled again. The result \<open>True\<close> of the
  first part means that the call returned without sleeping. \<open>mon_step\<close> interleaves the routines of all
  processes. The development shows that at most one process is active in the monitor.
\<close>

section \<open>Operations\<close>

record condvar =
  cv_sem :: nat
  cv_count :: int

record monitor =
  m_mutex :: nat
  m_next :: nat
  next_count :: int
  cv :: "condvar list"

text \<open>\<open>monitor_init\<close> takes the addresses of the semaphores of the monitor and of the condition variables in
  the block that \<open>kmalloc\<close> returns, \<open>None\<close> when it returns a null pointer.\<close>

fun init_cvs :: "nat list \<Rightarrow> 'a sync_scheme \<Rightarrow> condvar list \<times> 'a sync_scheme" where
  "init_cvs [] s = ([], s)"
| "init_cvs (a # as) s = (let (cs, s) = init_cvs as (sem_init a 0 s) in (\<lparr>cv_sem = a, cv_count = 0\<rparr> # cs, s))"

definition monitor_init :: "nat \<Rightarrow> nat \<Rightarrow> nat list option \<Rightarrow> nat \<Rightarrow> 'a sync_scheme \<Rightarrow> (monitor \<times> 'a sync_scheme) option" where
  "monitor_init mutex nxt cvmem num_cv s = do {
     kassert (num_cv > 0);
     let s = sem_init mutex 1 s;
     let s = sem_init nxt 0 s;
     cvs \<leftarrow> cvmem;
     let (cs, s) = init_cvs (take num_cv cvs) s;
     Some (\<lparr>m_mutex = mutex, m_next = nxt, next_count = 0, cv = cs\<rparr>, s)
   }"

definition add_count :: "nat \<Rightarrow> int \<Rightarrow> monitor \<Rightarrow> monitor" where
  "add_count i d m = m\<lparr>cv := (cv m)[i := (cv m ! i)\<lparr>cv_count := cv_count (cv m ! i) + d\<rparr>]\<rparr>"

definition add_next :: "int \<Rightarrow> monitor \<Rightarrow> monitor" where
  "add_next d m = m\<lparr>next_count := next_count m + d\<rparr>"

definition cond_signal :: "nat \<Rightarrow> nat \<Rightarrow> monitor \<Rightarrow> 'a sync_scheme \<Rightarrow> (bool \<times> monitor \<times> 'a sync_scheme) option" where
  "cond_signal i wt m s =
     (if cv_count (cv m ! i) > 0 then do {
        let m = add_next 1 m;
        s \<leftarrow> up (cv_sem (cv m ! i)) s;
        (got, s) \<leftarrow> down (m_next m) wt s;
        Some (if got then (True, add_next (- 1) m, s) else (False, m, s))
      } else Some (True, m, s))"

definition cond_signal_resume :: "nat \<Rightarrow> monitor \<Rightarrow> 'a sync_scheme \<Rightarrow> (monitor \<times> 'a sync_scheme) option" where
  "cond_signal_resume wt m s = do {
     s \<leftarrow> down_resume (m_next m) wt s;
     Some (add_next (- 1) m, s)
   }"

definition mon_release :: "monitor \<Rightarrow> 'a sync_scheme \<Rightarrow> 'a sync_scheme option" where
  "mon_release m s = (if next_count m > 0 then up (m_next m) s else up (m_mutex m) s)"

definition cond_wait :: "nat \<Rightarrow> nat \<Rightarrow> monitor \<Rightarrow> 'a sync_scheme \<Rightarrow> (bool \<times> monitor \<times> 'a sync_scheme) option" where
  "cond_wait i wt m s = do {
     let m = add_count i 1 m;
     s \<leftarrow> (if next_count m > 0 then up (m_next m) s else up (m_mutex m) s);
     (got, s) \<leftarrow> down (cv_sem (cv m ! i)) wt s;
     Some (if got then (True, add_count i (- 1) m, s) else (False, m, s))
   }"

definition cond_wait_resume :: "nat \<Rightarrow> nat \<Rightarrow> monitor \<Rightarrow> 'a sync_scheme \<Rightarrow> (monitor \<times> 'a sync_scheme) option" where
  "cond_wait_resume i wt m s = do {
     s \<leftarrow> down_resume (cv_sem (cv m ! i)) wt s;
     Some (add_count i (- 1) m, s)
   }"

section \<open>Processes that use a monitor\<close>

datatype mpc = Outside | Entering | Inside | WaitingCv nat | Signalling

record monsys =
  mon :: monitor
  sys :: sync
  pc :: "nat \<Rightarrow> mpc"

definition set_pc :: "nat \<Rightarrow> mpc \<Rightarrow> monsys \<Rightarrow> monsys" where
  "set_pc p x t = t\<lparr>pc := (pc t)(p := x)\<rparr>"

text \<open>The running process finishes the \<open>down\<close> it was asleep in, if any, and is then inside.\<close>

definition mon_resume :: "monsys \<Rightarrow> monsys option" where
  "mon_resume t = (let p = current (sys t) in case pc t p of
     Entering \<Rightarrow> do { s \<leftarrow> down_resume (m_mutex (mon t)) p (sys t); Some (set_pc p Inside (t\<lparr>sys := s\<rparr>)) }
   | WaitingCv i \<Rightarrow> do { (m, s) \<leftarrow> cond_wait_resume i p (mon t) (sys t); Some (set_pc p Inside (t\<lparr>mon := m, sys := s\<rparr>)) }
   | Signalling \<Rightarrow> do { (m, s) \<leftarrow> cond_signal_resume p (mon t) (sys t); Some (set_pc p Inside (t\<lparr>mon := m, sys := s\<rparr>)) }
   | _ \<Rightarrow> Some t)"

datatype mon_event = MEnter | MLeave | MWait nat | MSignal nat | MYield

text \<open>A routine enters with \<open>down(mutex)\<close> and leaves by releasing a waiting signaller, or the mutex. Requests
  that a process cannot make where it is (leaving when outside, for example) are skipped.\<close>

definition mon_op :: "mon_event \<Rightarrow> monsys \<Rightarrow> monsys option" where
  "mon_op e t = (let p = current (sys t); m = mon t; s = sys t in
     if p = idleproc s then do { s' \<leftarrow> schedule s; Some (t\<lparr>sys := s'\<rparr>) }
     else case e of
       MYield \<Rightarrow> do { s' \<leftarrow> schedule s; Some (t\<lparr>sys := s'\<rparr>) }
     | MEnter \<Rightarrow> (if pc t p = Outside then do {
           (got, s') \<leftarrow> down (m_mutex m) p s;
           Some (set_pc p (if got then Inside else Entering) (t\<lparr>sys := s'\<rparr>)) } else Some t)
     | MLeave \<Rightarrow> (if pc t p = Inside then do {
           s' \<leftarrow> mon_release m s;
           Some (set_pc p Outside (t\<lparr>sys := s'\<rparr>)) } else Some t)
     | MWait i \<Rightarrow> (if pc t p = Inside \<and> i < length (cv m) then do {
           (got, m', s') \<leftarrow> cond_wait i p m s;
           Some (set_pc p (if got then Inside else WaitingCv i) (t\<lparr>mon := m', sys := s'\<rparr>)) } else Some t)
     | MSignal i \<Rightarrow> (if pc t p = Inside \<and> i < length (cv m) then do {
           (got, m', s') \<leftarrow> cond_signal i p m s;
           Some (set_pc p (if got then Inside else Signalling) (t\<lparr>mon := m', sys := s'\<rparr>)) } else Some t))"

definition mon_step :: "mon_event \<Rightarrow> monsys \<Rightarrow> monsys option" where
  "mon_step e t = do { t \<leftarrow> mon_resume t; mon_op e t }"

fun mon_run :: "mon_event list \<Rightarrow> monsys \<Rightarrow> monsys option" where
  "mon_run [] t = Some t"
| "mon_run (e # es) t = do { t \<leftarrow> mon_step e t; mon_run es t }"

section \<open>Invariant\<close>

definition sem_of :: "monitor \<Rightarrow> mpc \<Rightarrow> nat option" where
  "sem_of m x = (case x of Entering \<Rightarrow> Some (m_mutex m) | Signalling \<Rightarrow> Some (m_next m)
     | WaitingCv i \<Rightarrow> (if i < length (cv m) then Some (cv_sem (cv m ! i)) else None) | _ \<Rightarrow> None)"

definition addresses :: "monitor \<Rightarrow> nat list" where
  "addresses m = m_mutex m # m_next m # map cv_sem (cv m)"

text \<open>The count the code keeps for the processes in a sleeping state.\<close>

definition count_of :: "monitor \<Rightarrow> mpc \<Rightarrow> int" where
  "count_of m x = (case x of Signalling \<Rightarrow> next_count m | WaitingCv i \<Rightarrow> cv_count (cv m ! i) | _ \<Rightarrow> 0)"

definition bump :: "mpc \<Rightarrow> int \<Rightarrow> monitor \<Rightarrow> monitor" where
  "bump x d m = (case x of Signalling \<Rightarrow> add_next d m | WaitingCv i \<Rightarrow> add_count i d m | _ \<Rightarrow> m)"

definition woken :: "nat option \<Rightarrow> (nat \<Rightarrow> mpc) \<Rightarrow> mpc \<Rightarrow> int" where
  "woken a pcs x = (case a of Some p \<Rightarrow> (if pcs p = x then 1 else 0) | None \<Rightarrow> 0)"

text \<open>\<open>a\<close> is the process that is active in the monitor, if any: it is inside, or was woken and will be inside
  when it is scheduled.\<close>

definition mon_at :: "nat option \<Rightarrow> monitor \<Rightarrow> 'a sync_scheme \<Rightarrow> (nat \<Rightarrow> mpc) \<Rightarrow> bool" where
  "mon_at a m s pcs \<longleftrightarrow> distinct (addresses m) \<and> sync_ok (\<lambda>p. sem_of m (pcs p)) s \<and>
     sem_value s (m_mutex m) = (if a = None then 1 else 0) \<and>
     (\<forall>x k. sem_of m x = Some k \<and> x \<noteq> Entering \<longrightarrow>
        sem_value s k = 0 \<and> count_of m x = int (length (wait_head s k)) + woken a pcs x) \<and>
     (a = None \<longrightarrow> wait_head s (m_next m) = []) \<and>
     (\<forall>p i. pcs p = WaitingCv i \<longrightarrow> i < length (cv m)) \<and>
     (\<forall>p. (pcs p = Inside \<or> (\<exists>k. sem_of m (pcs p) = Some k \<and> p \<notin> set (wait_head s k))) \<longleftrightarrow> a = Some p)"

lemma cv_sem_add_count [simp]: "cv_sem (cv (add_count i d m) ! j) = cv_sem (cv m ! j)" if "j < length (cv m)"
  using that by (cases "i = j") (simp_all add: add_count_def)

lemma cv_add_count [simp]: "length (cv (add_count i d m)) = length (cv m)"
  "m_mutex (add_count i d m) = m_mutex m" "m_next (add_count i d m) = m_next m" "next_count (add_count i d m) = next_count m"
  by (simp_all add: add_count_def)

lemma map_cv_add_count [simp]: "map cv_sem (cv (add_count i d m)) = map cv_sem (cv m)"
  by (rule nth_equalityI) simp_all

lemma cv_add_next [simp]: "cv (add_next d m) = cv m" "m_mutex (add_next d m) = m_mutex m" "m_next (add_next d m) = m_next m"
  by (simp_all add: add_next_def)

lemma bump_frame [simp]:
  "sem_of (bump y d m) x = sem_of m x" "addresses (bump y d m) = addresses m"
  "m_mutex (bump y d m) = m_mutex m" "m_next (bump y d m) = m_next m" "length (cv (bump y d m)) = length (cv m)"
  by (auto simp: bump_def sem_of_def addresses_def split: mpc.splits)

lemma count_of_bump:
  "sem_of m y = Some k \<Longrightarrow> y \<noteq> Entering \<Longrightarrow> count_of (bump x d m) y = count_of m y + (if x = y then d else 0)"
  by (auto simp: bump_def sem_of_def count_of_def add_next_def add_count_def nth_list_update split: mpc.splits if_splits)

lemma sem_of_inj:
  assumes "distinct (addresses m)" "sem_of m x = Some k" "sem_of m y = Some k"
  shows "x = y"
proof -
  have mem: "cv_sem (cv m ! i) \<noteq> m_mutex m" "cv_sem (cv m ! i) \<noteq> m_next m" if "i < length (cv m)" for i
  proof -
    have "cv_sem (cv m ! i) \<in> cv_sem ` set (cv m)" using that by simp
    then show "cv_sem (cv m ! i) \<noteq> m_mutex m" "cv_sem (cv m ! i) \<noteq> m_next m"
      using assms(1) by (auto simp: addresses_def)
  qed
  have inj: "cv_sem (cv m ! i) = cv_sem (cv m ! j) \<longleftrightarrow> i = j" if "i < length (cv m)" "j < length (cv m)" for i j
    using that assms(1) nth_eq_iff_index_eq [of "map cv_sem (cv m)" i j] by (simp add: addresses_def)
  show ?thesis
    using assms mem inj by (auto simp: sem_of_def addresses_def split: mpc.splits if_splits)
qed

lemma mon_atD:
  assumes "mon_at a m s pcs"
  shows "distinct (addresses m)" "sync_ok (\<lambda>p. sem_of m (pcs p)) s" "sem_value s (m_mutex m) = (if a = None then 1 else 0)"
    "sem_of m x = Some k \<Longrightarrow> x \<noteq> Entering \<Longrightarrow> sem_value s k = 0 \<and> count_of m x = int (length (wait_head s k)) + woken a pcs x"
    "a = None \<Longrightarrow> wait_head s (m_next m) = []" "pcs p = WaitingCv i \<Longrightarrow> i < length (cv m)"
    "(pcs p = Inside \<or> (\<exists>k. sem_of m (pcs p) = Some k \<and> p \<notin> set (wait_head s k))) \<longleftrightarrow> a = Some p"
  using assms unfolding mon_at_def by blast+

lemma sem_of_simps [simp]: "sem_of m Outside = None" "sem_of m Inside = None" "sem_of m Entering = Some (m_mutex m)"
  "sem_of m Signalling = Some (m_next m)" "i < length (cv m) \<Longrightarrow> sem_of m (WaitingCv i) = Some (cv_sem (cv m ! i))"
  by (simp_all add: sem_of_def)

lemma sem_of_swap: "sem_of m x = sem_of m (pcs c) \<Longrightarrow> (\<lambda>p. sem_of m ((pcs(c := x)) p)) = (\<lambda>p. sem_of m (pcs p))"
  by (auto simp: fun_eq_iff)

lemma sem_of_upd: "sem_of m x = Some k \<Longrightarrow> (\<lambda>p. sem_of m ((pcs(c := x)) p)) = (\<lambda>p. sem_of m (pcs p))(c \<mapsto> k)"
  by (auto simp: fun_eq_iff)

lemma waiting_pc:
  assumes "mon_at a m s pcs" "sem_of m x = Some k" "w \<in> set (wait_head s k)"
  shows "pcs w = x"
proof -
  have "sem_of m (pcs w) = Some k"
    using waiting_blk [OF sync_okD(4) [OF mon_atD(2) [OF assms(1)]], of w k] assms(3) by simp
  then show ?thesis
    using sem_of_inj [OF mon_atD(1) [OF assms(1)]] assms(2) by blast
qed

section \<open>The steps keep the invariant\<close>

lemma mon_hand:
  assumes at: "mon_at (Some c) m s pcs" and c: "pcs c = Inside" and x: "sem_of m x = Some k"
    and e: "wait_head s k = w # ws"
  shows "\<exists>s'. up k s = Some s' \<and> mon_at (Some w) m s' (pcs(c := Outside)) \<and> current s' = current s \<and> idleproc s' = idleproc s"
proof -
  obtain s' where s': "up k s = Some s'" "sync_ok (\<lambda>p. sem_of m (pcs p)) s'" "current s' = current s"
    "idleproc s' = idleproc s" "wait_head s' = (wait_head s)(k := ws)" "sem_value s' = sem_value s"
    using up_handover [OF mon_atD(2) [OF at] e] by blast
  have pw: "pcs w = x"
    by (rule waiting_pc [OF at x]) (simp add: e)
  have q: "queue_ok (\<lambda>p. sem_of m (pcs p)) s k"
    by (rule sync_okD(4) [OF mon_atD(2) [OF at]])
  have wws: "w \<notin> set ws" using q e by (simp add: queue_ok_def)
  have "x \<noteq> Inside" "x \<noteq> Outside" using x by auto
  then have wc: "w \<noteq> c" using pw c by auto
  have "mon_at (Some w) m s' (pcs(c := Outside))"
    unfolding mon_at_def
  proof (intro conjI allI impI)
    show "distinct (addresses m)" by (rule mon_atD(1) [OF at])
    show "sync_ok (\<lambda>p. sem_of m ((pcs(c := Outside)) p)) s'"
      using s'(2) c by (subst sem_of_swap) simp_all
    show "sem_value s' (m_mutex m) = (if Some w = None then 1 else 0)"
      using mon_atD(3) [OF at] s'(6) by simp
  next
    fix y j assume y: "sem_of m y = Some j \<and> y \<noteq> Entering"
    have "y = x \<longleftrightarrow> j = k" using sem_of_inj [OF mon_atD(1) [OF at]] x y by auto
    then show "sem_value s' j = 0" "count_of m y = int (length (wait_head s' j)) + woken (Some w) (pcs(c := Outside)) y"
      using mon_atD(4) [OF at, of y j] y s'(5,6) pw wc c e by (auto simp: woken_def split: if_splits)
  next
    fix p i assume "(pcs(c := Outside)) p = WaitingCv i"
    then show "i < length (cv m)" using mon_atD(6) [OF at] by (auto split: if_splits)
  next
    fix p
    have "sem_of m (pcs p) = Some j \<and> p \<in> set (wait_head s j)" if "p \<noteq> c" "sem_of m (pcs p) = Some j" for j
      using mon_atD(7) [OF at, of p] that by auto
    moreover have "pcs p \<noteq> Inside" if "p \<noteq> c" using mon_atD(7) [OF at, of p] that by auto
    ultimately show "((pcs(c := Outside)) p = Inside \<or>
        (\<exists>k. sem_of m ((pcs(c := Outside)) p) = Some k \<and> p \<notin> set (wait_head s' k))) = (Some w = Some p)"
      using pw x wc wws e unfolding s'(5) by (cases "p = c") (auto simp: fun_upd_def)
  qed simp
  with s' show ?thesis by blast
qed

lemma mon_free:
  assumes at: "mon_at (Some c) m s pcs" and c: "pcs c = Inside" and e: "wait_head s (m_mutex m) = []"
    and n: "next_count m \<le> 0"
  shows "\<exists>s'. up (m_mutex m) s = Some s' \<and> mon_at None m s' (pcs(c := Outside)) \<and> current s' = current s \<and>
    idleproc s' = idleproc s"
proof -
  let ?s' = "s\<lparr>sem_value := (sem_value s)(m_mutex m := sem_value s (m_mutex m) + 1)\<rparr>"
  note ok = mon_atD(2) [OF at]
  have nx: "wait_head s (m_next m) = []"
    using mon_atD(4) [OF at, of Signalling "m_next m"] n c by (auto simp: count_of_def woken_def)
  have neq: "sem_of m y = Some j \<Longrightarrow> y \<noteq> Entering \<Longrightarrow> j \<noteq> m_mutex m" for y j
    using sem_of_inj [OF mon_atD(1) [OF at], of y j Entering] by auto
  have "mon_at None m ?s' (pcs(c := Outside))"
    unfolding mon_at_def
  proof (intro conjI allI impI)
    show "distinct (addresses m)" by (rule mon_atD(1) [OF at])
    show "sync_ok (\<lambda>p. sem_of m ((pcs(c := Outside)) p)) ?s'"
      using up_free(2) [OF ok e] c by (subst sem_of_swap) simp_all
  next
    fix y j assume y: "sem_of m y = Some j \<and> y \<noteq> Entering"
    then show "sem_value ?s' j = 0" "count_of m y = int (length (wait_head ?s' j)) + woken None (pcs(c := Outside)) y"
      using mon_atD(4) [OF at, of y j] neq [of y j] c by (auto simp: woken_def split: if_splits)
  next
    fix p i assume "(pcs(c := Outside)) p = WaitingCv i"
    then show "i < length (cv m)" using mon_atD(6) [OF at] by (auto split: if_splits)
  next
    fix p
    show "((pcs(c := Outside)) p = Inside \<or>
        (\<exists>k. sem_of m ((pcs(c := Outside)) p) = Some k \<and> p \<notin> set (wait_head ?s' k))) = (None = Some p)"
      using mon_atD(7) [OF at, of p] by auto
  qed (use mon_atD(3) [OF at] nx in simp_all)
  with up_free(1) [OF ok e] show ?thesis by simp
qed

lemma mon_release_ok:
  assumes at: "mon_at (Some c) m s pcs" and c: "pcs c = Inside"
  shows "\<exists>s' a. mon_release m s = Some s' \<and> mon_at a m s' (pcs(c := Outside)) \<and> current s' = current s \<and> idleproc s' = idleproc s"
proof (cases "next_count m > 0")
  case True
  then obtain w ws where "wait_head s (m_next m) = w # ws"
    using mon_atD(4) [OF at, of Signalling "m_next m"] c
    by (cases "wait_head s (m_next m)") (auto simp: count_of_def woken_def)
  then show ?thesis
    using mon_hand [OF at c, of Signalling "m_next m"] True by (simp add: mon_release_def) blast
next
  case False
  show ?thesis
  proof (cases "wait_head s (m_mutex m)")
    case Nil
    then show ?thesis using mon_free [OF at c] False by (simp add: mon_release_def) blast
  next
    case (Cons w ws)
    then show ?thesis using mon_hand [OF at c, of Entering "m_mutex m"] False by (simp add: mon_release_def) blast
  qed
qed

lemma mon_block:
  assumes at: "mon_at a m s pcs" and c: "pcs (current s) = Outside" "current s \<noteq> idleproc s"
    and x: "sem_of m x = Some k" and v: "sem_value s k = 0" and a: "a = None \<Longrightarrow> x \<noteq> Signalling"
  shows "\<exists>s'. down k (current s) s = Some (False, s') \<and> mon_at a (bump x 1 m) s' (pcs(current s := x)) \<and> idleproc s' = idleproc s"
proof -
  let ?c = "current s"
  have cs: "sem_of m (pcs ?c) = None" using c(1) by simp
  obtain s' where s': "down k ?c s = Some (False, s')" "sync_ok ((\<lambda>p. sem_of m (pcs p))(?c \<mapsto> k)) s'"
    "wait_head s' = (wait_head s)(k := wait_head s k @ [?c])" "sem_value s' = sem_value s" "idleproc s' = idleproc s"
    using down_block [OF mon_atD(2) [OF at], of k] v c(2) cs by auto
  have ac: "a \<noteq> Some ?c"
    using mon_atD(7) [OF at, of ?c] c(1) by auto
  have wk: "woken a (pcs(?c := x)) y = woken a pcs y" for y
    using ac by (auto simp: woken_def split: option.splits)
  have "mon_at a (bump x 1 m) s' (pcs(?c := x))"
    unfolding mon_at_def bump_frame
  proof (intro conjI allI impI)
    show "distinct (addresses m)" by (rule mon_atD(1) [OF at])
    show "sync_ok (\<lambda>p. sem_of m ((pcs(?c := x)) p)) s'"
      using s'(2) by (subst sem_of_upd [OF x])
    show "sem_value s' (m_mutex m) = (if a = None then 1 else 0)"
      using mon_atD(3) [OF at] s'(4) by simp
  next
    fix y j assume y: "sem_of m y = Some j \<and> y \<noteq> Entering"
    have "x = y \<longleftrightarrow> j = k" using sem_of_inj [OF mon_atD(1) [OF at]] x y by auto
    then show "sem_value s' j = 0" "count_of (bump x 1 m) y = int (length (wait_head s' j)) + woken a (pcs(?c := x)) y"
      using mon_atD(4) [OF at, of y j] y count_of_bump [of m y j x 1] unfolding s'(3,4) wk by auto
  next
    assume n: "a = None"
    have "k \<noteq> m_next m"
      using sem_of_inj [OF mon_atD(1) [OF at] x, of Signalling] a [OF n] by auto
    then show "wait_head s' (m_next m) = []"
      using mon_atD(5) [OF at n] s'(3) by simp
  next
    fix p i assume "(pcs(?c := x)) p = WaitingCv i"
    then show "i < length (cv m)" using mon_atD(6) [OF at] x by (auto simp: sem_of_def split: if_splits)
  next
    fix p
    have "x \<noteq> Inside" using x by auto
    then show "((pcs(?c := x)) p = Inside \<or>
        (\<exists>k. sem_of m ((pcs(?c := x)) p) = Some k \<and> p \<notin> set (wait_head s' k))) = (a = Some p)"
      using mon_atD(7) [OF at, of p] x ac unfolding s'(3) by (cases "p = ?c") auto
  qed
  with s' show ?thesis by blast
qed

lemma mon_wake:
  assumes at: "mon_at a m s pcs" and x: "sem_of m (pcs (current s)) = Some k"
  shows "down_resume k (current s) s = Some s"
    "mon_at (Some (current s)) (bump (pcs (current s)) (- 1) m) s (pcs(current s := Inside))"
proof -
  let ?c = "current s"
  have r: "down_resume k ?c s = Some s" "sync_ok ((\<lambda>p. sem_of m (pcs p))(?c := None)) s"
    using down_resume_ok [OF mon_atD(2) [OF at], of k] x by auto
  show "down_resume k ?c s = Some s" by (rule r(1))
  have nq: "?c \<notin> set (wait_head s k)"
    using waiting_blk [OF sync_okD(4) [OF mon_atD(2) [OF at]], of ?c k] sync_okD(2) [OF mon_atD(2) [OF at]] by auto
  then have a: "a = Some ?c"
    using mon_atD(7) [OF at, of ?c] x by auto
  have eq: "(\<lambda>p. sem_of m ((pcs(?c := Inside)) p)) = (\<lambda>p. sem_of m (pcs p))(?c := None)"
    by (auto simp: fun_eq_iff)
  show "mon_at (Some ?c) (bump (pcs ?c) (- 1) m) s (pcs(?c := Inside))"
    unfolding mon_at_def bump_frame
  proof (intro conjI allI impI)
    show "distinct (addresses m)" by (rule mon_atD(1) [OF at])
    show "sync_ok (\<lambda>p. sem_of m ((pcs(?c := Inside)) p)) s"
      unfolding eq by (rule r(2))
    show "sem_value s (m_mutex m) = (if Some ?c = None then 1 else 0)"
      using mon_atD(3) [OF at] a by simp
  next
    fix y j assume y: "sem_of m y = Some j \<and> y \<noteq> Entering"
    then show "sem_value s j = 0"
      "count_of (bump (pcs ?c) (- 1) m) y = int (length (wait_head s j)) + woken (Some ?c) (pcs(?c := Inside)) y"
      using mon_atD(4) [OF at, of y j] count_of_bump [of m y j "pcs ?c" "- 1"] a by (auto simp: woken_def split: if_splits)
  next
    fix p i assume "(pcs(?c := Inside)) p = WaitingCv i"
    then show "i < length (cv m)" using mon_atD(6) [OF at] by (auto split: if_splits)
  next
    fix p
    show "((pcs(?c := Inside)) p = Inside \<or>
        (\<exists>k. sem_of m ((pcs(?c := Inside)) p) = Some k \<and> p \<notin> set (wait_head s k))) = (Some ?c = Some p)"
      using mon_atD(7) [OF at, of p] a by auto
  qed simp
qed

lemma mon_enter_free:
  assumes at: "mon_at None m s pcs" and c: "pcs c = Outside"
  shows "\<exists>s'. down (m_mutex m) c s = Some (True, s') \<and> mon_at (Some c) m s' (pcs(c := Inside)) \<and> idleproc s' = idleproc s"
proof -
  let ?s' = "s\<lparr>sem_value := (sem_value s)(m_mutex m := sem_value s (m_mutex m) - 1)\<rparr>"
  have v: "0 < sem_value s (m_mutex m)" using mon_atD(3) [OF at] by simp
  have neq: "sem_of m y = Some j \<Longrightarrow> y \<noteq> Entering \<Longrightarrow> j \<noteq> m_mutex m" for y j
    using sem_of_inj [OF mon_atD(1) [OF at], of y j Entering] by auto
  have "mon_at (Some c) m ?s' (pcs(c := Inside))"
    unfolding mon_at_def
  proof (intro conjI allI impI)
    show "distinct (addresses m)" by (rule mon_atD(1) [OF at])
    show "sync_ok (\<lambda>p. sem_of m ((pcs(c := Inside)) p)) ?s'"
      using down_free(2) [OF mon_atD(2) [OF at] v] c by (subst sem_of_swap) simp_all
    show "sem_value ?s' (m_mutex m) = (if Some c = None then 1 else 0)"
      using mon_atD(3) [OF at] by simp
  next
    fix y j assume y: "sem_of m y = Some j \<and> y \<noteq> Entering"
    then show "sem_value ?s' j = 0" "count_of m y = int (length (wait_head ?s' j)) + woken (Some c) (pcs(c := Inside)) y"
      using mon_atD(4) [OF at, of y j] neq [of y j] by (auto simp: woken_def split: if_splits)
  next
    fix p i assume "(pcs(c := Inside)) p = WaitingCv i"
    then show "i < length (cv m)" using mon_atD(6) [OF at] by (auto split: if_splits)
  next
    fix p
    show "((pcs(c := Inside)) p = Inside \<or>
        (\<exists>k. sem_of m ((pcs(c := Inside)) p) = Some k \<and> p \<notin> set (wait_head ?s' k))) = (Some c = Some p)"
      using mon_atD(7) [OF at, of p] by auto
  qed simp
  with down_free(1) [OF mon_atD(2) [OF at] v] show ?thesis by simp
qed

lemma mon_yield:
  assumes at: "mon_at a m s pcs"
  shows "\<exists>s'. schedule s = Some s' \<and> mon_at a m s' pcs"
proof -
  note ok = mon_atD(2) [OF at]
  obtain s' where s': "schedule s = Some s'" "sched_inv s'" "p_state (procs s' (current s')) = PROC_RUNNABLE"
    "idleproc s' = idleproc s" "waits s' = waits s" "wait_head s' = wait_head s" "sem_value s' = sem_value s"
    "\<forall>q. p_state (procs s' q) = p_state (procs s q)" "\<forall>q. p_wait_state (procs s' q) = p_wait_state (procs s q)"
    using schedule_sync_ok [OF sync_okD(1) [OF ok]] by blast
  have "sync_ok (\<lambda>p. sem_of m (pcs p)) s'"
    using ok s' by (simp add: sync_ok_def queue_ok_def) blast
  then have "mon_at a m s' pcs"
    using at s'(6,7) by (simp add: mon_at_def)
  with s'(1) show ?thesis by blast
qed

definition mon_inv :: "nat list \<Rightarrow> monsys \<Rightarrow> bool" where
  "mon_inv ad t \<longleftrightarrow> addresses (mon t) = ad \<and> (\<exists>a. mon_at a (mon t) (sys t) (pc t))"

lemma set_pc_simps [simp]: "mon (set_pc p x t) = mon t" "sys (set_pc p x t) = sys t" "pc (set_pc p x t) = (pc t)(p := x)"
  by (simp_all add: set_pc_def)

lemma bump_simps [simp]: "bump Entering d m = m" "bump Signalling d m = add_next d m" "bump (WaitingCv i) d m = add_count i d m"
  by (simp_all add: bump_def)

lemma mon_resume_ok:
  assumes "mon_inv ad t"
  shows "\<exists>t'. mon_resume t = Some t' \<and> mon_inv ad t' \<and> (pc t' (current (sys t')) = Outside \<or> pc t' (current (sys t')) = Inside)"
proof -
  obtain a where at: "mon_at a (mon t) (sys t) (pc t)"
    using assms by (auto simp: mon_inv_def)
  note w = mon_wake [OF at]
  have ad: "addresses (mon t) = ad" "\<And>x d. addresses (bump x d (mon t)) = ad"
    using assms by (simp_all add: mon_inv_def)
  note ad = ad(1) ad(2) [of Signalling, simplified] ad(2) [of "WaitingCv i" for i, simplified]
  show ?thesis
  proof (cases "pc t (current (sys t))")
    case Entering
    with w [of "m_mutex (mon t)"] show ?thesis
      by (auto simp: mon_resume_def Let_def mon_inv_def ad intro!: exI [of _ "Some (current (sys t))"])
  next
    case (WaitingCv i)
    have "i < length (cv (mon t))" using mon_atD(6) [OF at WaitingCv] .
    with WaitingCv w [of "cv_sem (cv (mon t) ! i)"] show ?thesis
      by (auto simp: mon_resume_def Let_def mon_inv_def ad cond_wait_resume_def intro!: exI [of _ "Some (current (sys t))"])
  next
    case Signalling
    with w [of "m_next (mon t)"] show ?thesis
      by (auto simp: mon_resume_def Let_def mon_inv_def ad cond_signal_resume_def intro!: exI [of _ "Some (current (sys t))"])
  qed (use assms in \<open>simp_all add: mon_resume_def Let_def\<close>)
qed

lemma cond_wait_ok:
  assumes at: "mon_at (Some c) m s pcs" and c: "c = current s" "pcs c = Inside" "c \<noteq> idleproc s" and i: "i < length (cv m)"
  shows "\<exists>m' s' a. cond_wait i c m s = Some (False, m', s') \<and> mon_at a m' s' (pcs(c := WaitingCv i)) \<and>
    addresses m' = addresses m"
proof -
  let ?k = "cv_sem (cv m ! i)"
  obtain s1 a where s1: "mon_release m s = Some s1" "mon_at a m s1 (pcs(c := Outside))" "current s1 = c" "idleproc s1 = idleproc s"
    using mon_release_ok [OF at c(2)] c(1) by auto
  have x: "sem_of m (WaitingCv i) = Some ?k" using i by simp
  have v: "sem_value s1 ?k = 0" using mon_atD(4) [OF s1(2) x] by simp
  obtain s2 where s2: "down ?k c s1 = Some (False, s2)" "mon_at a (add_count i 1 m) s2 (pcs(c := WaitingCv i))"
    using mon_block [OF s1(2) _ _ x v] s1(3,4) c(3) by auto
  have "cond_wait i c m s = Some (False, add_count i 1 m, s2)"
    using s1(1) s2(1) i by (cases "0 < next_count m") (simp_all add: cond_wait_def mon_release_def Let_def)
  with s2(2) show ?thesis by (auto simp: addresses_def)
qed

lemma cond_signal_ok:
  assumes at: "mon_at (Some c) m s pcs" and c: "c = current s" "pcs c = Inside" "c \<noteq> idleproc s" and i: "i < length (cv m)"
  shows "\<exists>got m' s' a. cond_signal i c m s = Some (got, m', s') \<and> mon_at a m' s' (pcs(c := if got then Inside else Signalling)) \<and>
    addresses m' = addresses m"
proof (cases "cv_count (cv m ! i) > 0")
  case True
  let ?k = "cv_sem (cv m ! i)"
  have x: "sem_of m (WaitingCv i) = Some ?k" using i by simp
  obtain w ws where e: "wait_head s ?k = w # ws"
    using mon_atD(4) [OF at x] True c(2) by (cases "wait_head s ?k") (auto simp: count_of_def woken_def)
  obtain s1 where s1: "up ?k s = Some s1" "mon_at (Some w) m s1 (pcs(c := Outside))" "current s1 = c" "idleproc s1 = idleproc s"
    using mon_hand [OF at c(2) x e] c(1) by auto
  have v: "sem_value s1 (m_next m) = 0" using mon_atD(4) [OF s1(2), of Signalling] by simp
  obtain s2 where s2: "down (m_next m) c s1 = Some (False, s2)" "mon_at (Some w) (add_next 1 m) s2 (pcs(c := Signalling))"
    using mon_block [OF s1(2) _ _ _ v, of Signalling] s1(3,4) c(3) by auto
  have "cond_signal i c m s = Some (False, add_next 1 m, s2)"
    using True s1(1) s2(1) by (simp add: cond_signal_def Let_def)
  with s2(2) show ?thesis by (auto simp: addresses_def)
next
  case False
  have "pcs(c := Inside) = pcs" using c(2) by auto
  with False at show ?thesis by (auto simp: cond_signal_def)
qed

lemma mon_op_ok:
  assumes inv: "mon_inv ad t" and pcs: "pc t (current (sys t)) = Outside \<or> pc t (current (sys t)) = Inside"
  shows "\<exists>t'. mon_op e t = Some t' \<and> mon_inv ad t'"
proof -
  obtain a where at: "mon_at a (mon t) (sys t) (pc t)" and ad [simp]: "addresses (mon t) = ad"
    using inv by (auto simp: mon_inv_def)
  let ?c = "current (sys t)"
  have yield: "\<exists>t'. (do { s' \<leftarrow> schedule (sys t); Some (t\<lparr>sys := s'\<rparr>) }) = Some t' \<and> mon_inv ad t'"
    using mon_yield [OF at] by (auto simp: mon_inv_def)
  have inside: "a = Some ?c" if "pc t ?c = Inside"
    using mon_atD(7) [OF at, of ?c] that by auto
  show ?thesis
  proof (cases "?c = idleproc (sys t)")
    case True
    then show ?thesis using yield by (simp add: mon_op_def)
  next
    case nidle: False
    show ?thesis
    proof (cases e)
      case MYield
      then show ?thesis using yield nidle by (simp add: mon_op_def)
    next
      case MEnter
      show ?thesis
      proof (cases "pc t ?c = Outside")
        case out: True
        show ?thesis
        proof (cases a)
          case None
          then show ?thesis
            using mon_enter_free [of "mon t" "sys t" "pc t" ?c] at out nidle MEnter
            by (auto simp: mon_op_def mon_inv_def Let_def)
        next
          case (Some p)
          then have "sem_value (sys t) (m_mutex (mon t)) = 0" using mon_atD(3) [OF at] by simp
          then show ?thesis
            using mon_block [OF at out nidle, of Entering "m_mutex (mon t)"] nidle MEnter out Some
            by (auto simp: mon_op_def mon_inv_def Let_def)
        qed
      qed (use nidle MEnter inv in \<open>auto simp: mon_op_def Let_def\<close>)
    next
      case MLeave
      show ?thesis
      proof (cases "pc t ?c = Inside")
        case True
        then show ?thesis
          using mon_release_ok [of ?c "mon t" "sys t" "pc t"] at inside nidle MLeave
          by (auto simp: mon_op_def mon_inv_def Let_def)
      qed (use nidle MLeave inv in \<open>auto simp: mon_op_def Let_def\<close>)
    next
      case (MWait i)
      show ?thesis
      proof (cases "pc t ?c = Inside \<and> i < length (cv (mon t))")
        case True
        then show ?thesis
          using cond_wait_ok [of ?c "mon t" "sys t" "pc t" i] at inside nidle MWait
          by (auto simp: mon_op_def mon_inv_def Let_def)
      qed (use nidle MWait inv in \<open>auto simp: mon_op_def Let_def\<close>)
    next
      case (MSignal i)
      show ?thesis
      proof (cases "pc t ?c = Inside \<and> i < length (cv (mon t))")
        case True
        then obtain got m' s' a' where "cond_signal i ?c (mon t) (sys t) = Some (got, m', s')"
          "mon_at a' m' s' ((pc t)(?c := if got then Inside else Signalling))" "addresses m' = addresses (mon t)"
          using cond_signal_ok [of ?c "mon t" "sys t" "pc t" i] at inside nidle by auto
        with True show ?thesis
          using nidle MSignal by (auto simp: mon_op_def mon_inv_def Let_def)
      qed (use nidle MSignal inv in \<open>auto simp: mon_op_def Let_def\<close>)
    qed
  qed
qed

lemma mon_run_ok:
  assumes "mon_inv ad t"
  shows "\<exists>t'. mon_run es t = Some t' \<and> mon_inv ad t'"
  using assms
proof (induction es arbitrary: t)
  case Nil
  then show ?case by simp
next
  case (Cons e es)
  obtain t1 where t1: "mon_resume t = Some t1" "mon_inv ad t1"
    "pc t1 (current (sys t1)) = Outside \<or> pc t1 (current (sys t1)) = Inside"
    using mon_resume_ok [OF Cons.prems] by blast
  obtain t2 where "mon_op e t1 = Some t2" "mon_inv ad t2"
    using mon_op_ok [OF t1(2,3)] by blast
  then show ?case
    using Cons.IH t1(1) by (simp add: mon_step_def)
qed

definition demo_sync :: sync where
  "demo_sync = \<lparr>procs = (\<lambda>p. demo_proc (if p < 3 then PROC_RUNNABLE else PROC_UNINIT)), current = 1, idleproc = 0,
     run_list = [2], proc_num = 1, max_time_slice = 20, timer_list = [], timers = (\<lambda>_. \<lparr>expires = 0, t_proc = 0\<rparr>),
     waits = (\<lambda>w. \<lparr>w_proc = 0, wakeup_flags = 0, w_queue = None\<rparr>), wait_head = (\<lambda>_. []), sem_value = (\<lambda>_. 0)\<rparr>"

text \<open>
  C3: monitors give mutual exclusion. Start from a state in which no process uses the semaphores, and from
  \<open>monitor_init\<close> with distinct addresses. In every interleaving of processes that enter and leave the
  monitor, wait on and signal its condition variables and yield, no assertion fails and at most one
  process is active in the monitor; when none is, the mutex is open and no signaller waits.
\<close>

theorem monitor_mutual_exclusion:
  assumes "sync_ok (\<lambda>_. None) s" "\<forall>k. wait_head s k = []" "distinct (mutex # nxt # take n cvs)" "0 < n"
    and "monitor_init mutex nxt (Some cvs) n s = Some (m, s0)"
  shows "\<exists>t. mon_run es \<lparr>mon = m, sys = s0, pc = \<lambda>_. Outside\<rparr> = Some t \<and>
    (\<forall>p q. pc t p = Inside \<and> pc t q = Inside \<longrightarrow> p = q) \<and>
    (sem_value (sys t) mutex = 1 \<longrightarrow> (\<forall>p. pc t p \<noteq> Inside) \<and> wait_head (sys t) nxt = [])"
proof -
  have cvs: "init_cvs as s1 = (cs, s2) \<Longrightarrow> sync_ok (\<lambda>_. None) s1 \<Longrightarrow> (\<forall>k. wait_head s1 k = []) \<Longrightarrow>
      map cv_sem cs = as \<and> (\<forall>c \<in> set cs. cv_count c = 0) \<and> sync_ok (\<lambda>_. None) s2 \<and> (\<forall>k. wait_head s2 k = []) \<and>
      (\<forall>k. sem_value s2 k = (if k \<in> set as then 0 else sem_value s1 k))" for as s1 s2 cs
  proof (induction as arbitrary: s1 cs)
    case (Cons x as)
    have "sync_ok (\<lambda>_. None) (sem_init x 0 s1)" "\<forall>k. wait_head (sem_init x 0 s1) k = []"
      using Cons.prems(2,3) by (auto simp: sem_init_def wait_queue_init_def sync_ok_def queue_ok_def)
    with Cons show ?case
      by (fastforce split: prod.splits simp: sem_init_def wait_queue_init_def)
  qed simp
  define s1 where "s1 = sem_init nxt 0 (sem_init mutex 1 s)"
  obtain cs where cs: "init_cvs (take n cvs) s1 = (cs, s0)"
    "m = \<lparr>m_mutex = mutex, m_next = nxt, next_count = 0, cv = cs\<rparr>"
    using assms(4,5) by (auto simp: monitor_init_def s1_def split: prod.splits)
  have s1: "sync_ok (\<lambda>_. None) s1" "\<forall>k. wait_head s1 k = []" "sem_value s1 nxt = 0" "sem_value s1 mutex = 1"
    using assms(1-3) by (auto simp: s1_def sem_init_def wait_queue_init_def sync_ok_def queue_ok_def)
  note c = cvs [OF cs(1) s1(1,2)]
  have "cv_sem (cs ! i) = take n cvs ! i" "cv_count (cs ! i) = 0" "take n cvs ! i \<in> set (take n cvs)"
    if "i < length cs" for i
    using that c nth_map [of i cs cv_sem] by (auto intro: nth_mem simp del: length_take) (metis length_map nth_mem)
  then have "mon_at None m s0 (\<lambda>_. Outside)"
    using c s1 assms(3) unfolding mon_at_def cs(2)
    by (auto simp: addresses_def sem_of_def count_of_def woken_def split: mpc.splits if_splits)
  then have "mon_inv (mutex # nxt # take n cvs) \<lparr>mon = m, sys = s0, pc = \<lambda>_. Outside\<rparr>"
    using c cs(2) by (auto simp: mon_inv_def addresses_def)
  then obtain t where "mon_run es \<lparr>mon = m, sys = s0, pc = \<lambda>_. Outside\<rparr> = Some t" "mon_inv (mutex # nxt # take n cvs) t"
    using mon_run_ok by blast
  then obtain a where t: "mon_run es \<lparr>mon = m, sys = s0, pc = \<lambda>_. Outside\<rparr> = Some t"
    "mon_at a (mon t) (sys t) (pc t)" "m_mutex (mon t) = mutex" "m_next (mon t) = nxt"
    by (auto simp: mon_inv_def addresses_def)
  have inside: "pc t p = Inside \<Longrightarrow> a = Some p" for p
    using mon_atD(7) [OF t(2), of p] by blast
  show ?thesis
    using t(1,3,4) mon_atD(3,5) [OF t(2)] inside by (intro exI [of _ t]) (auto split: if_splits)
qed

theorem monitor_mutual_exclusion_witness:
  "\<exists>m s0 t. monitor_init 10 11 (Some [12, 13]) 2 demo_sync = Some (m, s0) \<and>
     mon_run [MEnter, MWait 0, MEnter, MSignal 0, MLeave] \<lparr>mon = m, sys = s0, pc = \<lambda>_. Outside\<rparr> = Some t \<and>
     (\<forall>p q. pc t p = Inside \<and> pc t q = Inside \<longrightarrow> p = q)"
proof -
  have ok: "sync_ok (\<lambda>_. None) demo_sync" "\<forall>k. wait_head demo_sync k = []"
    by (auto simp: sync_ok_def queue_ok_def sched_inv_def demo_sync_def demo_proc_def)
  obtain m s0 where "monitor_init 10 11 (Some [12, 13]) 2 demo_sync = Some (m, s0)"
    by (auto simp: monitor_init_def split: prod.splits)
  moreover have "distinct ((10::nat) # 11 # take 2 [12, 13])" "0 < (2::nat)" by simp_all
  ultimately show ?thesis
    using monitor_mutual_exclusion [OF ok, of 10 11 2 "[12, 13]" m s0 "[MEnter, MWait 0, MEnter, MSignal 0, MLeave]"]
    by auto
qed

end
