(* ===== verification/Pid.thy ===== *)
theory Pid
  imports Sched
begin

text \<open>
  Process identifiers (\<open>kern/process/proc.c\<close>): the allocator \<open>get_pid\<close> with its two static variables, the
  pid hash table with \<open>hash_proc\<close>, \<open>unhash_proc\<close> and \<open>find_proc\<close>.

  The scan of \<open>get_pid\<close> restarts from the head of the process list each time it reaches \<open>next_safe\<close>; the
  number of restarts has no syntactic bound, so \<open>pid_repeat\<close> takes fuel and the theorem
  \<open>get_pid_fresh\<close> shows that \<open>MAX_PID\<close> rounds are enough whenever fewer than \<open>MAX_PROCESS\<close> processes exist.
\<close>

section \<open>Allocation\<close>

definition MAX_PROCESS :: int where "MAX_PROCESS = 4096"
definition MAX_PID :: int where "MAX_PID = MAX_PROCESS * 2"

record pid_state =
  next_safe :: int
  last_pid :: int

text \<open>One pass over the pids of the process list. \<open>Inl\<close> is the jump to \<open>repeat\<close>.\<close>

fun pid_scan :: "int list \<Rightarrow> pid_state \<Rightarrow> pid_state + pid_state" where
  "pid_scan [] s = Inr s"
| "pid_scan (pid # le) s =
     (if pid = last_pid s then
        let s = s\<lparr>last_pid := last_pid s + 1\<rparr> in
        if last_pid s \<ge> next_safe s then
          let s = (if last_pid s \<ge> MAX_PID then s\<lparr>last_pid := 1\<rparr> else s)
          in Inl (s\<lparr>next_safe := MAX_PID\<rparr>)
        else pid_scan le s
      else if pid > last_pid s \<and> next_safe s > pid then pid_scan le (s\<lparr>next_safe := pid\<rparr>)
      else pid_scan le s)"

fun pid_repeat :: "nat \<Rightarrow> int list \<Rightarrow> pid_state \<Rightarrow> pid_state option" where
  "pid_repeat 0 pids s = None"
| "pid_repeat (Suc fuel) pids s = (case pid_scan pids s of Inr s \<Rightarrow> Some s | Inl s \<Rightarrow> pid_repeat fuel pids s)"

definition get_pid :: "nat \<Rightarrow> int list \<Rightarrow> pid_state \<Rightarrow> (int \<times> pid_state) option" where
  "get_pid fuel pids s = do {
     let s = s\<lparr>last_pid := last_pid s + 1\<rparr>;
     s \<leftarrow> (if last_pid s \<ge> MAX_PID then pid_repeat fuel pids (s\<lparr>last_pid := 1, next_safe := MAX_PID\<rparr>)
           else if last_pid s \<ge> next_safe s then pid_repeat fuel pids (s\<lparr>next_safe := MAX_PID\<rparr>)
           else Some s);
     Some (last_pid s, s)
   }"

text \<open>The static initialisers.\<close>

definition pid_init :: pid_state where
  "pid_init = \<lparr>next_safe = MAX_PID, last_pid = MAX_PID\<rparr>"

section \<open>The pid hash table\<close>

definition HASH_SHIFT :: nat where "HASH_SHIFT = 10"
definition HASH_LIST_SIZE :: nat where "HASH_LIST_SIZE = 2 ^ HASH_SHIFT"

definition pid_hashfn :: "int \<Rightarrow> nat" where
  "pid_hashfn x = unat (hash32 (of_int x) HASH_SHIFT)"

definition hash_proc :: "(nat \<Rightarrow> int) \<Rightarrow> nat \<Rightarrow> (nat \<Rightarrow> nat list) \<Rightarrow> (nat \<Rightarrow> nat list)" where
  "hash_proc pid_of proc tab = (let h = pid_hashfn (pid_of proc) in tab(h := proc # tab h))"

definition unhash_proc :: "(nat \<Rightarrow> int) \<Rightarrow> nat \<Rightarrow> (nat \<Rightarrow> nat list) \<Rightarrow> (nat \<Rightarrow> nat list)" where
  "unhash_proc pid_of proc tab = (let h = pid_hashfn (pid_of proc) in tab(h := remove1 proc (tab h)))"

definition find_proc :: "(nat \<Rightarrow> int) \<Rightarrow> int \<Rightarrow> (nat \<Rightarrow> nat list) \<Rightarrow> nat option" where
  "find_proc pid_of pid tab =
     (if 0 < pid \<and> pid < MAX_PID then find (\<lambda>proc. pid_of proc = pid) (tab (pid_hashfn pid)) else None)"

section \<open>The allocator returns a free pid\<close>

text \<open>No pid in use lies strictly between \<open>last_pid\<close> and \<open>next_safe\<close>: those can be handed out unseen.\<close>

definition pid_inv :: "int list \<Rightarrow> pid_state \<Rightarrow> bool" where
  "pid_inv pids s \<longleftrightarrow> 1 \<le> last_pid s \<and> last_pid s \<le> MAX_PID \<and> next_safe s \<le> MAX_PID \<and>
     (\<forall>p \<in> set pids. \<not> (last_pid s < p \<and> p < next_safe s))"

lemma pid_scan_Inr:
  assumes "pid_scan pids s = Inr t" "1 \<le> last_pid s" "last_pid s < next_safe s" "next_safe s \<le> MAX_PID"
    "\<forall>p \<in> D. p < last_pid s \<or> next_safe s \<le> p"
  shows "1 \<le> last_pid t \<and> last_pid t < next_safe t \<and> next_safe t \<le> MAX_PID \<and>
    (\<forall>p \<in> D \<union> set pids. p < last_pid t \<or> next_safe t \<le> p)"
  using assms
proof (induction pids s arbitrary: D rule: pid_scan.induct)
  case (1 s)
  then show ?case by simp
next
  case (2 pid le s)
  let ?s1 = "s\<lparr>last_pid := last_pid s + 1\<rparr>"
  consider (same) "pid = last_pid s" "last_pid s + 1 < next_safe s"
    | (safe) "pid \<noteq> last_pid s" "pid > last_pid s \<and> next_safe s > pid"
    | (other) "pid \<noteq> last_pid s" "\<not> (pid > last_pid s \<and> next_safe s > pid)"
    using 2(4) by (auto simp: Let_def split: if_splits)
  then show ?case
  proof cases
    case same
    have "\<forall>p \<in> insert pid D. p < last_pid ?s1 \<or> next_safe ?s1 \<le> p"
      using 2(8) same by auto
    with same 2(1) [of ?s1 "insert pid D"] 2(4-7) show ?thesis by auto
  next
    case safe
    have "\<forall>p \<in> insert pid D. p < last_pid (s\<lparr>next_safe := pid\<rparr>) \<or> next_safe (s\<lparr>next_safe := pid\<rparr>) \<le> p"
      using 2(8) safe by auto
    with safe 2(2) [of "insert pid D"] 2(4-7) show ?thesis by auto
  next
    case other
    have "\<forall>p \<in> insert pid D. p < last_pid s \<or> next_safe s \<le> p"
      using 2(8) other by auto
    with other 2(3) [of "insert pid D"] 2(4-7) show ?thesis by auto
  qed
qed

text \<open>A restart: every value from the starting point up to the new one is in use.\<close>

lemma pid_scan_Inl:
  assumes "pid_scan pids s = Inl t" "1 \<le> last_pid s" "last_pid s < MAX_PID" "next_safe s \<le> MAX_PID"
  shows "next_safe t = MAX_PID \<and> (\<exists>l. last_pid s < l \<and> l \<le> MAX_PID \<and> {last_pid s..<l} \<subseteq> set pids \<and>
    last_pid t = (if l = MAX_PID then 1 else l))"
  using assms
proof (induction pids s rule: pid_scan.induct)
  case (1 s)
  then show ?case by simp
next
  case (2 pid le s)
  let ?s1 = "s\<lparr>last_pid := last_pid s + 1\<rparr>"
  consider (restart) "pid = last_pid s" "last_pid s + 1 \<ge> next_safe s"
    | (same) "pid = last_pid s" "last_pid s + 1 < next_safe s"
    | (safe) "pid \<noteq> last_pid s" "pid > last_pid s \<and> next_safe s > pid"
    | (other) "pid \<noteq> last_pid s" "\<not> (pid > last_pid s \<and> next_safe s > pid)"
    by force
  then show ?case
  proof cases
    case restart
    then have "t = (if last_pid s + 1 \<ge> MAX_PID then ?s1\<lparr>last_pid := 1, next_safe := MAX_PID\<rparr> else ?s1\<lparr>next_safe := MAX_PID\<rparr>)"
      using 2(4) by (simp add: Let_def split: if_splits)
    moreover have "{last_pid s..<last_pid s + 1} \<subseteq> set (pid # le)"
      using restart by auto
    ultimately show ?thesis
      using 2(6) by (intro conjI exI [of _ "last_pid s + 1"]) auto
  next
    case same
    with 2(1) [of ?s1] 2(4-7) obtain l where l: "next_safe t = MAX_PID" "last_pid s + 1 < l" "l \<le> MAX_PID"
      "{last_pid s + 1..<l} \<subseteq> set le" "last_pid t = (if l = MAX_PID then 1 else l)"
      by auto
    have "{last_pid s..<l} \<subseteq> set (pid # le)"
    proof
      fix v assume "v \<in> {last_pid s..<l}"
      then have "v = last_pid s \<or> v \<in> {last_pid s + 1..<l}" by auto
      then show "v \<in> set (pid # le)" using l(4) same by auto
    qed
    with l show ?thesis by (intro conjI exI [of _ l]) auto
  next
    case safe
    with 2(2) 2(4-7) show ?thesis by fastforce
  next
    case other
    with 2(3) 2(4-7) show ?thesis by fastforce
  qed
qed

definition pid_dist :: "int \<Rightarrow> int \<Rightarrow> nat" where
  "pid_dist f l = nat (if l \<le> f then f - l else MAX_PID - l + f)"

lemma pid_repeat_ok:
  assumes "1 \<le> f" "f < MAX_PID" "f \<notin> set pids" "pid_dist f (last_pid s) < fuel"
    "1 \<le> last_pid s" "last_pid s < MAX_PID" "next_safe s = MAX_PID"
  shows "\<exists>t. pid_repeat fuel pids s = Some t \<and> 1 \<le> last_pid t \<and> last_pid t < next_safe t \<and> next_safe t \<le> MAX_PID \<and>
    (\<forall>p \<in> set pids. p < last_pid t \<or> next_safe t \<le> p)"
  using assms(4-)
proof (induction fuel arbitrary: s)
  case 0
  then show ?case by simp
next
  case (Suc fuel)
  show ?case
  proof (cases "pid_scan pids s")
    case (Inr t)
    then show ?thesis
      using pid_scan_Inr [OF Inr, of "{}"] Suc.prems by simp
  next
    case (Inl t)
    obtain l where l: "next_safe t = MAX_PID" "last_pid s < l" "l \<le> MAX_PID" "{last_pid s..<l} \<subseteq> set pids"
      "last_pid t = (if l = MAX_PID then 1 else l)"
      using pid_scan_Inl [OF Inl] Suc.prems by auto
    have "f \<notin> {last_pid s..<l}" using l(4) assms(3) by auto
    then have "pid_dist f (last_pid t) < fuel"
      using l(2,3,5) Suc.prems(1,2) assms(1,2) by (auto simp: pid_dist_def split: if_splits)
    moreover have "1 \<le> last_pid t" "last_pid t < MAX_PID"
      using l Suc.prems by (auto simp: MAX_PID_def MAX_PROCESS_def split: if_splits)
    ultimately show ?thesis
      using Suc.IH [of t] l(1) Inl by simp
  qed
qed

lemma free_pid_exists:
  assumes "length pids < 4096"
  shows "\<exists>f. 1 \<le> f \<and> f < MAX_PID \<and> f \<notin> set pids"
proof (rule ccontr)
  assume "\<not> ?thesis"
  then have "{1..<MAX_PID} \<subseteq> set pids" by auto
  then have "card {1..<MAX_PID} \<le> card (set pids)" by (intro card_mono) auto
  also have "\<dots> \<le> length pids" by (rule card_length)
  finally show False using assms by (simp add: MAX_PID_def MAX_PROCESS_def)
qed

lemma get_pid_ok:
  assumes inv: "pid_inv pids s" and len: "int (length pids) < MAX_PROCESS" and fuel: "MAX_PID \<le> int fuel"
  shows "\<exists>pid t. get_pid fuel pids s = Some (pid, t) \<and> 1 \<le> pid \<and> pid < MAX_PID \<and> pid \<notin> set pids \<and>
    last_pid t = pid \<and> pid_inv (pid # pids) t"
proof -
  obtain f where f: "1 \<le> f" "f < MAX_PID" "f \<notin> set pids"
    using free_pid_exists [of pids] len by (auto simp: MAX_PROCESS_def)
  have slow: "\<exists>t. pid_repeat fuel pids (s\<lparr>last_pid := l, next_safe := MAX_PID\<rparr>) = Some t \<and> 1 \<le> last_pid t \<and>
    last_pid t < next_safe t \<and> next_safe t \<le> MAX_PID \<and> (\<forall>p \<in> set pids. p < last_pid t \<or> next_safe t \<le> p)"
    if "1 \<le> l" "l < MAX_PID" for l
  proof -
    have "pid_dist f l < fuel"
      using that f fuel by (auto simp: pid_dist_def)
    then show ?thesis
      using pid_repeat_ok [OF f, of "s\<lparr>last_pid := l, next_safe := MAX_PID\<rparr>" fuel] that by simp
  qed
  let ?l = "last_pid s + 1"
  have post: "\<exists>pid t. get_pid fuel pids s = Some (pid, t) \<and> 1 \<le> pid \<and> pid < MAX_PID \<and> pid \<notin> set pids \<and>
    last_pid t = pid \<and> pid_inv (pid # pids) t"
    if "get_pid fuel pids s = Some (last_pid t, t)" "1 \<le> last_pid t \<and> last_pid t < next_safe t \<and> next_safe t \<le> MAX_PID \<and>
      (\<forall>p \<in> set pids. p < last_pid t \<or> next_safe t \<le> p)" for t
    using that by (intro exI [of _ "last_pid t"] exI [of _ t]) (force simp: pid_inv_def)
  consider (wrap) "?l \<ge> MAX_PID" | (scan) "?l < MAX_PID" "?l \<ge> next_safe s" | (fast) "?l < MAX_PID" "?l < next_safe s"
    by linarith
  then show ?thesis
  proof cases
    case wrap
    then obtain t where t: "pid_repeat fuel pids (s\<lparr>last_pid := 1, next_safe := MAX_PID\<rparr>) = Some t"
      "1 \<le> last_pid t \<and> last_pid t < next_safe t \<and> next_safe t \<le> MAX_PID \<and>
      (\<forall>p \<in> set pids. p < last_pid t \<or> next_safe t \<le> p)"
      using slow [of 1] by (auto simp: MAX_PID_def MAX_PROCESS_def)
    show ?thesis by (rule post [OF _ t(2)]) (use wrap t(1) in \<open>simp add: get_pid_def\<close>)
  next
    case scan
    then obtain t where t: "pid_repeat fuel pids (s\<lparr>last_pid := ?l, next_safe := MAX_PID\<rparr>) = Some t"
      "1 \<le> last_pid t \<and> last_pid t < next_safe t \<and> next_safe t \<le> MAX_PID \<and>
      (\<forall>p \<in> set pids. p < last_pid t \<or> next_safe t \<le> p)"
      using slow [of ?l] inv by (auto simp: pid_inv_def)
    show ?thesis by (rule post [OF _ t(2)]) (use scan t(1) in \<open>simp add: get_pid_def\<close>)
  next
    case fast
    have "p < ?l \<or> next_safe s \<le> p" if "p \<in> set pids" for p
      using inv that by (fastforce simp: pid_inv_def)
    with fast inv show ?thesis
      by (intro post [of "s\<lparr>last_pid := ?l\<rparr>"]) (auto simp: get_pid_def pid_inv_def)
  qed
qed

section \<open>The hash table\<close>

text \<open>The processes in the table are exactly those in use, each in the bucket of its pid.\<close>

definition hash_inv :: "(nat \<Rightarrow> int) \<Rightarrow> nat set \<Rightarrow> (nat \<Rightarrow> nat list) \<Rightarrow> bool" where
  "hash_inv pid_of ps tab \<longleftrightarrow> inj_on pid_of ps \<and>
     (\<forall>h. distinct (tab h) \<and> set (tab h) = {p \<in> ps. pid_hashfn (pid_of p) = h})"

lemma pid_hashfn_bound: "pid_hashfn x < HASH_LIST_SIZE"
  using hash32_bound [of HASH_SHIFT "of_int x"] by (simp add: pid_hashfn_def HASH_LIST_SIZE_def HASH_SHIFT_def)

lemma hash_proc_inv:
  assumes "hash_inv pid_of ps tab" "p \<notin> ps" "pid_of p \<notin> pid_of ` ps"
  shows "hash_inv pid_of (insert p ps) (hash_proc pid_of p tab)"
  using assms by (auto simp: hash_inv_def hash_proc_def Let_def)

lemma unhash_proc_inv:
  assumes "hash_inv pid_of ps tab" "p \<in> ps"
  shows "hash_inv pid_of (ps - {p}) (unhash_proc pid_of p tab)"
  using assms by (auto simp: hash_inv_def unhash_proc_def Let_def inj_on_diff)

lemma find_proc_ok:
  assumes "hash_inv pid_of ps tab"
  shows "find_proc pid_of pid tab = Some p \<longleftrightarrow> p \<in> ps \<and> pid_of p = pid \<and> 0 < pid \<and> pid < MAX_PID"
proof (cases "0 < pid \<and> pid < MAX_PID")
  case True
  have tab: "set (tab (pid_hashfn pid)) = {p \<in> ps. pid_hashfn (pid_of p) = pid_hashfn pid}" and inj: "inj_on pid_of ps"
    using assms by (auto simp: hash_inv_def)
  show ?thesis
  proof
    assume "find_proc pid_of pid tab = Some p"
    then show "p \<in> ps \<and> pid_of p = pid \<and> 0 < pid \<and> pid < MAX_PID"
      using True tab by (auto simp: find_proc_def find_Some_iff)
  next
    assume p: "p \<in> ps \<and> pid_of p = pid \<and> 0 < pid \<and> pid < MAX_PID"
    then have mem: "p \<in> set (tab (pid_hashfn pid))" using tab by auto
    then obtain q where q: "find (\<lambda>proc. pid_of proc = pid) (tab (pid_hashfn pid)) = Some q"
      using p by (cases "find (\<lambda>proc. pid_of proc = pid) (tab (pid_hashfn pid))") (auto simp: find_None_iff)
    then have "q \<in> ps" "pid_of q = pid"
      using tab by (auto simp: find_Some_iff)
    then have "q = p" using inj p by (auto simp: inj_on_def)
    with q True show "find_proc pid_of pid tab = Some p" by (simp add: find_proc_def)
  qed
qed (auto simp: find_proc_def)

section \<open>Properties\<close>

text \<open>
  C16: \<open>get_pid\<close> terminates and returns an unused pid between 1 and \<open>MAX_PID - 1\<close> whenever fewer than
  \<open>MAX_PROCESS\<close> processes exist, and keeps the invariant that the pids between \<open>last_pid\<close> and \<open>next_safe\<close>
  are free, on which its fast path relies. The invariant holds initially and survives the exit of
  processes.
\<close>

theorem get_pid_fresh:
  "pid_inv pids pid_init \<and>
   (pid_inv pids s \<and> set qs \<subseteq> set pids \<longrightarrow> pid_inv qs s) \<and>
   (pid_inv pids s \<and> int (length pids) < MAX_PROCESS \<and> MAX_PID \<le> int fuel \<longrightarrow>
     (\<exists>pid t. get_pid fuel pids s = Some (pid, t) \<and> 1 \<le> pid \<and> pid < MAX_PID \<and> pid \<notin> set pids \<and> pid_inv (pid # pids) t))"
proof (intro conjI impI)
  assume "pid_inv pids s \<and> int (length pids) < MAX_PROCESS \<and> MAX_PID \<le> int fuel"
  then show "\<exists>pid t. get_pid fuel pids s = Some (pid, t) \<and> 1 \<le> pid \<and> pid < MAX_PID \<and> pid \<notin> set pids \<and> pid_inv (pid # pids) t"
    using get_pid_ok [of pids s fuel] by blast
qed (auto simp: pid_inv_def pid_init_def MAX_PID_def MAX_PROCESS_def)

theorem get_pid_fresh_witness:
  "\<exists>pid t. get_pid 10000 [1, 2, 5] pid_init = Some (pid, t) \<and> 1 \<le> pid \<and> pid < MAX_PID \<and> pid \<notin> set [1, 2, 5]"
  using get_pid_fresh [of "[1, 2, 5]" pid_init "[]" 10000] by (simp add: MAX_PID_def MAX_PROCESS_def) blast

end
