(* ===== verification/Proc.thy ===== *)
theory Proc
  imports Pid
begin

text \<open>
  The process life cycle of \<open>kern/process/proc.c\<close>: \<open>alloc_proc\<close>, the family links, \<open>do_fork\<close> with its
  helpers and error exits, \<open>do_exit\<close>, \<open>do_wait\<close>, \<open>do_kill\<close>, \<open>do_yield\<close>, \<open>do_sleep\<close>.

  The state extends the scheduler's. Memory descriptors and file tables are objects with a reference count
  here; what is in them is modelled in \<open>Vmm\<close> and \<open>File\<close>. The outcomes of the memory allocations and of the two
  duplication routines are an argument of \<open>do_fork\<close> (\<open>fork_env\<close>), since they depend on the memory that
  happens to be free: every theorem holds for every outcome. \<open>kstacks\<close>, \<open>mms\<close> and \<open>filess\<close> list the objects
  that have been allocated and not released.

  \<open>do_wait\<close> and \<open>do_sleep\<close> sleep in the middle: \<open>do_wait\<close> is one round of the \<open>repeat\<close> loop up to the call
  of \<open>schedule\<close>, \<open>do_wait_resume\<close> continues after it, and likewise for \<open>do_sleep\<close>.
\<close>

section \<open>State\<close>

record trapframe =
  tf_v0 :: u32
  tf_a0 :: u32
  tf_a1 :: u32
  tf_gp :: u32
  tf_sp :: u32
  tf_Status :: u32
  tf_EPC :: u32

record psys = sched +
  initproc :: nat
  proc_list :: "nat list"
  hash_list :: "nat \<Rightarrow> nat list"
  nr_process :: int
  pid_st :: pid_state
  p_mm :: "nat \<Rightarrow> nat option"
  p_filesp :: "nat \<Rightarrow> nat option"
  p_tf :: "nat \<Rightarrow> trapframe"
  lab6_priority :: "nat \<Rightarrow> u32"
  mm_count :: "nat \<Rightarrow> int"
  files_count :: "nat \<Rightarrow> int"
  kstacks :: "nat list"
  mms :: "nat list"
  filess :: "nat list"

definition CLONE_VM :: u32 where "CLONE_VM = 0x00000100"
definition CLONE_FS :: u32 where "CLONE_FS = 0x00000800"
definition PF_EXITING :: u32 where "PF_EXITING = 0x00000001"

text \<open>The outcomes of the allocations of one \<open>do_fork\<close>: the addresses returned by \<open>kmalloc\<close> and by
  \<open>files_create\<close> in \<open>alloc_proc\<close>, by \<open>alloc_pages\<close>, by \<open>mm_create\<close>; whether \<open>setup_pgdir\<close> got a page; the result of
  \<open>dup_mmap\<close>; the address returned by \<open>files_create\<close> in \<open>copy_files\<close> and the result of \<open>dup_files\<close>.\<close>

record fork_env =
  fe_proc :: "nat option"
  fe_files0 :: "nat option"
  fe_kstack :: "nat option"
  fe_mm :: "nat option"
  fe_pgdir :: bool
  fe_dup :: int
  fe_files :: "nat option"
  fe_dupf :: int

section \<open>Creating a process\<close>

definition zero_proc :: proc_struct where
  "zero_proc = \<lparr>p_state = PROC_UNINIT, p_pid = 0, p_runs = 0, p_need_resched = False, p_parent = None, p_flags = 0,
     p_exit_code = 0, p_wait_state = 0, p_cptr = None, p_yptr = None, p_optr = None, p_on_rq = False,
     p_time_slice = 0, p_kstack = None\<rparr>"

definition files_create_at :: "nat option \<Rightarrow> psys \<Rightarrow> psys" where
  "files_create_at a s = (case a of None \<Rightarrow> s
     | Some f \<Rightarrow> s\<lparr>files_count := (files_count s)(f := 0), filess := f # filess s\<rparr>)"

definition alloc_proc :: "fork_env \<Rightarrow> psys \<Rightarrow> nat option \<times> psys" where
  "alloc_proc e s = (case fe_proc e of None \<Rightarrow> (None, s)
     | Some p \<Rightarrow>
         (let s = s\<lparr>procs := (procs s)(p := zero_proc), p_mm := (p_mm s)(p := None)\<rparr>;
              s = (files_create_at (fe_files0 e) s)\<lparr>p_filesp := (p_filesp s)(p := fe_files0 e)\<rparr>
          in (Some p, s)))"

definition set_links :: "nat \<Rightarrow> psys \<Rightarrow> psys option" where
  "set_links proc s = do {
     let s = s\<lparr>proc_list := proc # proc_list s\<rparr>;
     let s = upd_proc proc (p_yptr_update (\<lambda>_. None)) s;
     par \<leftarrow> p_parent (procs s proc);
     let s = upd_proc proc (p_optr_update (\<lambda>_. p_cptr (procs s par))) s;
     let s = (case p_optr (procs s proc) of None \<Rightarrow> s | Some o' \<Rightarrow> upd_proc o' (p_yptr_update (\<lambda>_. Some proc)) s);
     let s = upd_proc par (p_cptr_update (\<lambda>_. Some proc)) s;
     Some (s\<lparr>nr_process := nr_process s + 1\<rparr>)
   }"

definition remove_links :: "nat \<Rightarrow> psys \<Rightarrow> psys option" where
  "remove_links proc s = do {
     let s = s\<lparr>proc_list := remove1 proc (proc_list s)\<rparr>;
     let s = (case p_optr (procs s proc) of None \<Rightarrow> s
              | Some o' \<Rightarrow> upd_proc o' (p_yptr_update (\<lambda>_. p_yptr (procs s proc))) s);
     s \<leftarrow> (case p_yptr (procs s proc) of
            Some y \<Rightarrow> Some (upd_proc y (p_optr_update (\<lambda>_. p_optr (procs s proc))) s)
          | None \<Rightarrow> do { par \<leftarrow> p_parent (procs s proc);
                       Some (upd_proc par (p_cptr_update (\<lambda>_. p_optr (procs s proc))) s) });
     Some (s\<lparr>nr_process := nr_process s - 1\<rparr>)
   }"

definition pid_of :: "'a sched_scheme \<Rightarrow> nat \<Rightarrow> int" where
  "pid_of s p = p_pid (procs s p)"

definition setup_kstack :: "fork_env \<Rightarrow> nat \<Rightarrow> psys \<Rightarrow> int \<times> psys" where
  "setup_kstack e proc s = (case fe_kstack e of
     Some k \<Rightarrow> (0, (upd_proc proc (p_kstack_update (\<lambda>_. Some k)) s)\<lparr>kstacks := k # kstacks s\<rparr>)
   | None \<Rightarrow> (- E_NO_MEM, s))"

definition put_kstack :: "nat \<Rightarrow> psys \<Rightarrow> psys" where
  "put_kstack proc s = (case p_kstack (procs s proc) of Some k \<Rightarrow> s\<lparr>kstacks := remove1 k (kstacks s)\<rparr> | None \<Rightarrow> s)"

definition copy_mm :: "fork_env \<Rightarrow> u32 \<Rightarrow> nat \<Rightarrow> psys \<Rightarrow> int \<times> psys" where
  "copy_mm e clone_flags proc s = (case p_mm s (current s) of
     None \<Rightarrow> (0, s)
   | Some oldmm \<Rightarrow>
       let good = (\<lambda>mm s. (0, s\<lparr>mm_count := (mm_count s)(mm := mm_count s mm + 1), p_mm := (p_mm s)(proc := Some mm)\<rparr>))
       in if clone_flags AND CLONE_VM \<noteq> 0 then good oldmm s
          else (case fe_mm e of
            None \<Rightarrow> (- E_NO_MEM, s)
          | Some mm \<Rightarrow>
              let s = s\<lparr>mm_count := (mm_count s)(mm := 0), mms := mm # mms s\<rparr> in
              if \<not> fe_pgdir e then (- E_NO_MEM, s\<lparr>mms := remove1 mm (mms s)\<rparr>)
              else if fe_dup e \<noteq> 0 then (fe_dup e, s\<lparr>mms := remove1 mm (mms s)\<rparr>)
              else good mm s))"

definition copy_thread :: "nat \<Rightarrow> u32 \<Rightarrow> trapframe \<Rightarrow> psys \<Rightarrow> psys" where
  "copy_thread proc esp tf s =
     s\<lparr>p_tf := (p_tf s)(proc := tf\<lparr>tf_v0 := 0, tf_sp := esp, tf_Status := tf_Status tf OR 0x3\<rparr>)\<rparr>"

definition files_destroy_at :: "nat \<Rightarrow> psys \<Rightarrow> psys option" where
  "files_destroy_at f s = do { kassert (files_count s f = 0); Some (s\<lparr>filess := remove1 f (filess s)\<rparr>) }"

definition copy_files :: "fork_env \<Rightarrow> u32 \<Rightarrow> nat \<Rightarrow> psys \<Rightarrow> (int \<times> psys) option" where
  "copy_files e clone_flags proc s = do {
     old_filesp \<leftarrow> p_filesp s (current s);
     let good = (\<lambda>f s. (0, s\<lparr>files_count := (files_count s)(f := files_count s f + 1), p_filesp := (p_filesp s)(proc := Some f)\<rparr>));
     if clone_flags AND CLONE_FS \<noteq> 0 then Some (good old_filesp s)
     else (case fe_files e of
       None \<Rightarrow> Some (- E_NO_MEM, s)
     | Some f \<Rightarrow> do {
         let s = files_create_at (Some f) s;
         if fe_dupf e \<noteq> 0 then do { s \<leftarrow> files_destroy_at f s; Some (fe_dupf e, s) }
         else Some (good f s) })
   }"

definition put_files :: "nat \<Rightarrow> psys \<Rightarrow> psys option" where
  "put_files proc s = (case p_filesp s proc of None \<Rightarrow> Some s
     | Some f \<Rightarrow> do {
         let s = s\<lparr>files_count := (files_count s)(f := files_count s f - 1)\<rparr>;
         if files_count s f = 0 then files_destroy_at f s else Some s })"

text \<open>\<open>get_pid\<close> is called with enough fuel for its scan (\<open>Pid.get_pid_fresh\<close>).\<close>

definition do_fork :: "fork_env \<Rightarrow> u32 \<Rightarrow> u32 \<Rightarrow> trapframe \<Rightarrow> psys \<Rightarrow> (int \<times> psys) option" where
  "do_fork e clone_flags stack tf s =
     (if nr_process s \<ge> MAX_PROCESS then Some (- E_NO_FREE_PROC, s)
      else do {
        let ret = - E_NO_MEM;
        let (p, s) = alloc_proc e s;
        kassert (p_wait_state (procs s (current s)) = 0);
        proc \<leftarrow> p;
        let s = upd_proc proc (p_parent_update (\<lambda>_. Some (current s))) s;
        let (r, s) = setup_kstack e proc s;
        if r \<noteq> 0 then Some (ret, s)
        else do {
          let (r, s) = copy_mm e clone_flags proc s;
          if r \<noteq> 0 then Some (ret, put_kstack proc s)
          else do {
            (r, s) \<leftarrow> copy_files e clone_flags proc s;
            if r \<noteq> 0 then do { s \<leftarrow> put_files proc s; Some (ret, put_kstack proc s) }
            else do {
              let s = copy_thread proc stack tf s;
              (pid, ps) \<leftarrow> get_pid (nat MAX_PID) (map (pid_of s) (proc_list s)) (pid_st s);
              let s = (upd_proc proc (p_pid_update (\<lambda>_. pid)) s)\<lparr>pid_st := ps\<rparr>;
              let s = s\<lparr>hash_list := hash_proc (pid_of s) proc (hash_list s)\<rparr>;
              s \<leftarrow> set_links proc s;
              s \<leftarrow> wakeup_proc proc s;
              Some (p_pid (procs s proc), s)
            }
          }
        }
      })"

definition kernel_thread :: "fork_env \<Rightarrow> u32 \<Rightarrow> u32 \<Rightarrow> u32 \<Rightarrow> u32 \<Rightarrow> u32 \<Rightarrow> psys \<Rightarrow> (int \<times> psys) option" where
  "kernel_thread e fn arg gp entry clone_flags s =
     do_fork e (clone_flags OR CLONE_VM) 0
       \<lparr>tf_v0 = 0, tf_a0 = arg, tf_a1 = fn, tf_gp = gp, tf_sp = 0, tf_Status = 0, tf_EPC = entry\<rparr> s"

section \<open>Exit, wait, kill\<close>

definition put_mm :: "psys \<Rightarrow> psys" where
  "put_mm s = (case p_mm s (current s) of None \<Rightarrow> s
     | Some mm \<Rightarrow>
         (let s = s\<lparr>mm_count := (mm_count s)(mm := mm_count s mm - 1)\<rparr>;
              s = (if mm_count s mm = 0 then s\<lparr>mms := remove1 mm (mms s)\<rparr> else s)
          in s\<lparr>p_mm := (p_mm s)(current s := None)\<rparr>))"

text \<open>One round of the loop that gives the children of the exiting process to \<open>initproc\<close>.\<close>

definition adopt :: "nat \<Rightarrow> psys \<Rightarrow> psys option" where
  "adopt proc s = do {
     let s = upd_proc (current s) (p_cptr_update (\<lambda>_. p_optr (procs s proc))) s;
     let s = upd_proc proc (p_yptr_update (\<lambda>_. None)) s;
     let ic = p_cptr (procs s (initproc s));
     let s = upd_proc proc (p_optr_update (\<lambda>_. ic)) s;
     let s = (case ic of None \<Rightarrow> s | Some c \<Rightarrow> upd_proc c (p_yptr_update (\<lambda>_. Some proc)) s);
     let s = upd_proc proc (p_parent_update (\<lambda>_. Some (initproc s))) s;
     let s = upd_proc (initproc s) (p_cptr_update (\<lambda>_. Some proc)) s;
     if p_state (procs s proc) = PROC_ZOMBIE \<and> p_wait_state (procs s (initproc s)) = WT_CHILD
     then wakeup_proc (initproc s) s else Some s
   }"

fun adopt_loop :: "nat \<Rightarrow> psys \<Rightarrow> psys option" where
  "adopt_loop 0 s = None"
| "adopt_loop (Suc fuel) s = (case p_cptr (procs s (current s)) of None \<Rightarrow> Some s
     | Some proc \<Rightarrow> do { s \<leftarrow> adopt proc s; adopt_loop fuel s })"

definition do_exit :: "int \<Rightarrow> psys \<Rightarrow> psys option" where
  "do_exit error_code s = do {
     kassert (current s \<noteq> idleproc s);
     kassert (current s \<noteq> initproc s);
     let s = put_mm s;
     s \<leftarrow> put_files (current s) s;
     let s = upd_proc (current s) (p_state_update (\<lambda>_. PROC_ZOMBIE)) s;
     let s = upd_proc (current s) (p_exit_code_update (\<lambda>_. error_code)) s;
     par \<leftarrow> p_parent (procs s (current s));
     s \<leftarrow> (if p_wait_state (procs s par) = WT_CHILD then wakeup_proc par s else Some s);
     s \<leftarrow> adopt_loop (Suc (length (proc_list s))) s;
     schedule s
   }"

definition do_yield :: "psys \<Rightarrow> int \<times> psys" where
  "do_yield s = (0, upd_proc (current s) (p_need_resched_update (\<lambda>_. True)) s)"

text \<open>The scan of the children: whether there is one, and the first zombie. Fuel bounds the sibling list.\<close>

fun find_zombie :: "nat \<Rightarrow> (nat \<Rightarrow> proc_struct) \<Rightarrow> nat option \<Rightarrow> nat option option" where
  "find_zombie 0 P q = None"
| "find_zombie (Suc fuel) P q = (case q of None \<Rightarrow> Some None
     | Some p \<Rightarrow> if p_state (P p) = PROC_ZOMBIE then Some (Some p) else find_zombie fuel P (p_optr (P p)))"

datatype wait_result = WaitRet int "int option" | WaitSleep

text \<open>\<open>code_store\<close> is \<open>None\<close> for a null pointer and otherwise the result of \<open>user_mem_check\<close> on it. \<open>WaitRet r v\<close> is the
  return value \<open>r\<close> and the value \<open>v\<close> stored through the pointer.\<close>

definition do_wait_round :: "int \<Rightarrow> bool \<Rightarrow> psys \<Rightarrow> (wait_result \<times> psys) option" where
  "do_wait_round pid store s = do {
     (haskid, zombie) \<leftarrow>
       (if pid \<noteq> 0 then
          (case find_proc (pid_of s) pid (hash_list s) of
             Some proc \<Rightarrow> Some (if p_parent (procs s proc) = Some (current s)
                               then (True, if p_state (procs s proc) = PROC_ZOMBIE then Some proc else None)
                               else (False, None))
           | None \<Rightarrow> Some (False, None))
        else do {
          z \<leftarrow> find_zombie (Suc (length (proc_list s))) (procs s) (p_cptr (procs s (current s)));
          Some (p_cptr (procs s (current s)) \<noteq> None, z) });
     case zombie of
       Some proc \<Rightarrow> do {
         kassert (proc \<noteq> idleproc s \<and> proc \<noteq> initproc s);
         let code = p_exit_code (procs s proc);
         let s = s\<lparr>hash_list := unhash_proc (pid_of s) proc (hash_list s)\<rparr>;
         s \<leftarrow> remove_links proc s;
         let s = put_kstack proc s;
         Some (WaitRet 0 (if store then Some code else None), s) }
     | None \<Rightarrow>
         if haskid then do {
           let s = upd_proc (current s) (p_state_update (\<lambda>_. PROC_SLEEPING)) s;
           let s = upd_proc (current s) (p_wait_state_update (\<lambda>_. WT_CHILD)) s;
           s \<leftarrow> schedule s;
           Some (WaitSleep, s) }
         else Some (WaitRet (- E_BAD_PROC) None, s)
   }"

definition do_wait :: "int \<Rightarrow> bool option \<Rightarrow> psys \<Rightarrow> (wait_result \<times> psys) option" where
  "do_wait pid code_store s =
     (if code_store = Some False then Some (WaitRet (- E_INVAL) None, s)
      else do_wait_round pid (code_store \<noteq> None) s)"

definition do_wait_resume :: "int \<Rightarrow> bool \<Rightarrow> psys \<Rightarrow> (wait_result \<times> psys) option" where
  "do_wait_resume pid store s =
     (if p_flags (procs s (current s)) AND PF_EXITING \<noteq> 0 then do { s \<leftarrow> do_exit (- E_KILLED) s; Some (WaitSleep, s) }
      else do_wait_round pid store s)"

definition do_kill :: "int \<Rightarrow> psys \<Rightarrow> (int \<times> psys) option" where
  "do_kill pid s = (case find_proc (pid_of s) pid (hash_list s) of
     Some proc \<Rightarrow>
       if p_flags (procs s proc) AND PF_EXITING = 0 then do {
         let s = upd_proc proc (p_flags_update (\<lambda>f. f OR PF_EXITING)) s;
         s \<leftarrow> (if p_wait_state (procs s proc) AND WT_INTERRUPTED \<noteq> 0 then wakeup_proc proc s else Some s);
         Some (0, s)
       } else Some (- E_KILLED, s)
   | None \<Rightarrow> Some (- E_INVAL, s))"

definition lab6_set_priority :: "u32 \<Rightarrow> psys \<Rightarrow> psys" where
  "lab6_set_priority priority s =
     s\<lparr>lab6_priority := (lab6_priority s)(current s := if priority = 0 then 1 else priority)\<rparr>"

text \<open>\<open>tm\<close> is the address of the local timer. The result \<open>True\<close> means that the call returned without sleeping.\<close>

definition do_sleep :: "nat \<Rightarrow> nat \<Rightarrow> psys \<Rightarrow> (bool \<times> psys) option" where
  "do_sleep time tm s =
     (if time = 0 then Some (True, s)
      else do {
        let s = timer_init tm (current s) time s;
        let s = upd_proc (current s) (p_state_update (\<lambda>_. PROC_SLEEPING)) s;
        let s = upd_proc (current s) (p_wait_state_update (\<lambda>_. WT_TIMER)) s;
        s \<leftarrow> add_timer tm s;
        s \<leftarrow> schedule s;
        Some (False, s)
      })"

definition do_sleep_resume :: "nat \<Rightarrow> psys \<Rightarrow> int \<times> psys" where
  "do_sleep_resume tm s = (0, del_timer tm s)"

section \<open>The family tree\<close>

text \<open>The siblings \<open>xs\<close> linked from the pointer \<open>q\<close>, youngest first; \<open>y\<close> is the younger sibling of the first.\<close>

fun sibs :: "(nat \<Rightarrow> proc_struct) \<Rightarrow> nat option \<Rightarrow> nat option \<Rightarrow> nat list \<Rightarrow> bool" where
  "sibs P y q [] = (q = None)"
| "sibs P y q (x # xs) = (q = Some x \<and> p_yptr (P x) = y \<and> sibs P (Some x) (p_optr (P x)) xs)"

lemma sibs_cong:
  "sibs P y q xs \<Longrightarrow> (\<And>x. x \<in> set xs \<Longrightarrow> p_yptr (P' x) = p_yptr (P x) \<and> p_optr (P' x) = p_optr (P x)) \<Longrightarrow> sibs P' y q xs"
  by (induction xs arbitrary: y q) auto

text \<open>Changing the back pointer of the first sibling.\<close>

lemma sibs_head:
  assumes "sibs P y q (x # xs)" "p_yptr (P' x) = y'" "p_optr (P' x) = p_optr (P x)"
    "\<And>z. z \<in> set xs \<Longrightarrow> p_yptr (P' z) = p_yptr (P z) \<and> p_optr (P' z) = p_optr (P z)"
  shows "sibs P' y' q (x # xs)"
  using assms sibs_cong [of P "Some x" "p_optr (P x)" xs P'] by auto

text \<open>Taking one sibling out of the middle of the list.\<close>

lemma sibs_remove:
  assumes "sibs P y q (as @ c # bs)" "distinct (as @ c # bs)"
    and o: "\<And>z. z \<in> set (as @ bs) \<Longrightarrow> p_optr (P' z) = (if as \<noteq> [] \<and> z = last as then p_optr (P c) else p_optr (P z))"
    and y': "\<And>z. z \<in> set (as @ bs) \<Longrightarrow> p_yptr (P' z) = (if bs \<noteq> [] \<and> z = hd bs then p_yptr (P c) else p_yptr (P z))"
  shows "sibs P' y (if as = [] then p_optr (P c) else q) (as @ bs)"
  using assms
proof (induction as arbitrary: y q)
  case Nil
  show ?case
  proof (cases bs)
    case Nil
    with Nil.prems show ?thesis by simp
  next
    case (Cons b bs')
    have "sibs P (Some c) (p_optr (P c)) (b # bs')" using Nil.prems(1) Cons by simp
    moreover have "b \<notin> set bs'" using Nil.prems(2) Cons by simp
    ultimately show ?thesis
      using Nil.prems(1,3,4) Cons by (auto intro!: sibs_head [of P "Some c" "p_optr (P c)" b bs' P' y, simplified] split: if_splits)
  qed
next
  case (Cons a as)
  have st: "sibs P (Some a) (p_optr (P a)) (as @ c # bs)" "q = Some a" "p_yptr (P a) = y"
    using Cons.prems(1) by auto
  have d: "distinct (as @ c # bs)" "a \<notin> set (as @ c # bs)" using Cons.prems(2) by auto
  have ya: "p_yptr (P' a) = y"
    using Cons.prems(4) [of a] st(3) d(2) by (cases bs) (auto split: if_splits)
  have IH: "sibs P' (Some a) (if as = [] then p_optr (P c) else p_optr (P a)) (as @ bs)"
  proof (rule Cons.IH [OF st(1) d(1)])
    fix z assume z: "z \<in> set (as @ bs)"
    then have "z \<noteq> a" using d(2) by auto
    then show "p_optr (P' z) = (if as \<noteq> [] \<and> z = last as then p_optr (P c) else p_optr (P z))"
      "p_yptr (P' z) = (if bs \<noteq> [] \<and> z = hd bs then p_yptr (P c) else p_yptr (P z))"
      using Cons.prems(3,4) [of z] z by (auto split: if_splits)
  qed
  have oa: "p_optr (P' a) = (if as = [] then p_optr (P c) else p_optr (P a))"
  proof (cases "as = []")
    case False
    then have "a \<noteq> last as" using d(2) by (metis UnCI last_in_set set_append)
    with False show ?thesis using Cons.prems(3) [of a] by auto
  qed (use Cons.prems(3) [of a] in auto)
  show ?case using st(2) ya oa IH by (auto split: if_splits)
qed

text \<open>The processes in \<open>L\<close> form a forest: the children of each are exactly the processes that name it
  as their parent. \<open>Y p\<close> is the back pointer of the first child of \<open>p\<close>, null except while the children of
  an exiting process are moved.\<close>

definition family_at :: "(nat \<Rightarrow> nat option) \<Rightarrow> nat set \<Rightarrow> (nat \<Rightarrow> nat list) \<Rightarrow> (nat \<Rightarrow> proc_struct) \<Rightarrow> bool" where
  "family_at Y L kids P \<longleftrightarrow> (\<forall>p \<in> L. sibs P (Y p) (p_cptr (P p)) (kids p) \<and> distinct (kids p) \<and>
     set (kids p) = {c \<in> L. p_parent (P c) = Some p})"

abbreviation family :: "nat set \<Rightarrow> (nat \<Rightarrow> nat list) \<Rightarrow> (nat \<Rightarrow> proc_struct) \<Rightarrow> bool" where
  "family \<equiv> family_at (\<lambda>_. None)"

lemmas family_def = family_at_def

lemma family_atD:
  assumes "family_at Y L kids P" "p \<in> L"
  shows "sibs P (Y p) (p_cptr (P p)) (kids p)" "distinct (kids p)" "set (kids p) = {c \<in> L. p_parent (P c) = Some p}"
  using assms by (auto simp: family_at_def)

lemma familyD:
  assumes "family L kids P" "p \<in> L"
  shows "sibs P None (p_cptr (P p)) (kids p)" "distinct (kids p)" "set (kids p) = {c \<in> L. p_parent (P c) = Some p}"
  using assms by (auto simp: family_def)

definition links :: "proc_struct \<Rightarrow> nat option \<times> nat option \<times> nat option \<times> nat option" where
  "links x = (p_parent x, p_cptr x, p_yptr x, p_optr x)"

lemma family_cong:
  assumes "family_at Y L kids P" "\<And>p. p \<in> L \<Longrightarrow> links (P' p) = links (P p)"
  shows "family_at Y L kids P'"
proof -
  have l: "p_parent (P' p) = p_parent (P p)" "p_cptr (P' p) = p_cptr (P p)" "p_yptr (P' p) = p_yptr (P p)"
    "p_optr (P' p) = p_optr (P p)" if "p \<in> L" for p
    using assms(2) [OF that] by (auto simp: links_def)
  show ?thesis
    unfolding family_at_def
  proof (intro ballI conjI)
    fix p assume p: "p \<in> L"
    note f = family_atD [OF assms(1) p]
    have "sibs P' (Y p) (p_cptr (P p)) (kids p)"
      by (rule sibs_cong [OF f(1)]) (use f(3) l in auto)
    then show "sibs P' (Y p) (p_cptr (P' p)) (kids p)"
      by (simp only: l(2) [OF p])
    show "distinct (kids p)" by (rule f(2))
    show "set (kids p) = {c \<in> L. p_parent (P' c) = Some p}"
      using f(3) l by auto
  qed
qed

lemma family_head:
  assumes "family_at Y L kids P" "q \<in> L"
  shows "p_cptr (P q) = (case kids q of [] \<Rightarrow> None | x # _ \<Rightarrow> Some x)"
  using family_atD(1) [OF assms] by (cases "kids q") auto


lemma sibs_last_first:
  assumes "sibs P y q (as @ c # bs)"
  shows "p_yptr (P c) = (if as = [] then y else Some (last as))" "p_optr (P c) = (case bs of [] \<Rightarrow> None | b # _ \<Rightarrow> Some b)"
  using assms by (induction as arbitrary: y q) (auto split: list.splits)

lemma family_remove:
  assumes F: "family L kids P" and c: "c \<in> L" "kids c = []" and q: "q \<in> L" "p_parent (P c) = Some q"
    and k: "kids q = as @ c # bs"
    and fr: "\<And>z. z \<in> L - {c} \<Longrightarrow> p_parent (P' z) = p_parent (P z)"
      "\<And>z. z \<in> L - {c} \<Longrightarrow> p_optr (P' z) = (if p_yptr (P c) = Some z then p_optr (P c) else p_optr (P z))"
      "\<And>z. z \<in> L - {c} \<Longrightarrow> p_yptr (P' z) = (if p_optr (P c) = Some z then p_yptr (P c) else p_yptr (P z))"
      "\<And>z. z \<in> L - {c} \<Longrightarrow> p_cptr (P' z) = (if z = q \<and> p_yptr (P c) = None then p_optr (P c) else p_cptr (P z))"
  shows "family (L - {c}) (kids(q := as @ bs)) P'"
  unfolding family_def
proof (intro ballI)
  note fq = familyD [OF F q(1)]
  have d: "distinct (as @ c # bs)" and sq: "set (as @ c # bs) = {z \<in> L. p_parent (P z) = Some q}"
    using fq k by auto
  have ch: "sibs P None (p_cptr (P q)) (as @ c # bs)" using fq(1) k by simp
  note yo = sibs_last_first [OF ch]
  have sub: "z \<in> L - {c}" if "z \<in> set (as @ bs)" for z using that sq d by auto
  have qc: "q \<noteq> c" using familyD(3) [OF F c(1)] c q by auto
  fix p assume p: "p \<in> L - {c}"
  show "sibs P' None (p_cptr (P' p)) ((kids(q := as @ bs)) p) \<and> distinct ((kids(q := as @ bs)) p) \<and>
      set ((kids(q := as @ bs)) p) = {z \<in> L - {c}. p_parent (P' z) = Some p}"
  proof (cases "p = q")
    case True
    have "sibs P' None (if as = [] then p_optr (P c) else p_cptr (P q)) (as @ bs)"
    proof (rule sibs_remove [OF ch d])
      fix z assume z: "z \<in> set (as @ bs)"
      show "p_optr (P' z) = (if as \<noteq> [] \<and> z = last as then p_optr (P c) else p_optr (P z))"
        using fr(2) [OF sub [OF z]] yo(1) by auto
      show "p_yptr (P' z) = (if bs \<noteq> [] \<and> z = hd bs then p_yptr (P c) else p_yptr (P z))"
        using fr(3) [OF sub [OF z]] yo(2) by (auto split: list.splits)
    qed
    moreover have "p_cptr (P' q) = (if as = [] then p_optr (P c) else p_cptr (P q))"
      using fr(4) [of q] yo(1) q(1) qc by simp
    moreover have "set (as @ bs) = {z \<in> L - {c}. p_parent (P z) = Some q}"
    proof -
      have "set (as @ bs) = set (as @ c # bs) - {c}" using d by auto
      then show ?thesis unfolding sq by auto
    qed
    then have "set (as @ bs) = {z \<in> L - {c}. p_parent (P' z) = Some q}"
      using fr(1) by auto
    ultimately show ?thesis using True d by simp
  next
    case False
    note fp = familyD [OF F, of p]
    have kp: "set (kids p) = {z \<in> L. p_parent (P z) = Some p}" using fp(3) p by simp
    have nc: "c \<notin> set (kids p)" using kp q(2) False by simp
    have same: "p_yptr (P' z) = p_yptr (P z) \<and> p_optr (P' z) = p_optr (P z)" if z: "z \<in> set (kids p)" for z
    proof -
      have zL: "z \<in> L - {c}" and "z \<notin> set (as @ c # bs)" using z kp nc sq False by auto
      then have "p_yptr (P c) \<noteq> Some z" "p_optr (P c) \<noteq> Some z"
        using yo by (auto split: if_splits list.splits)
      then show ?thesis using fr(2,3) [OF zL] by simp
    qed
    have "sibs P None (p_cptr (P p)) (kids p)" using fp(1) p by simp
    then have "sibs P' None (p_cptr (P p)) (kids p)"
      by (rule sibs_cong) (rule same)
    moreover have "set (kids p) = {z \<in> L - {c}. p_parent (P z) = Some p}"
      using kp nc by auto
    then have "set (kids p) = {z \<in> L - {c}. p_parent (P' z) = Some p}"
      using fr(1) by auto
    ultimately show ?thesis using False fr(4) [OF p] fp(2) p by simp
  qed
qed

text \<open>The first child \<open>x\<close> of \<open>C\<close> becomes the first child of \<open>I\<close>.\<close>

lemma family_adopt:
  assumes F: "family_at Y L kids P" and C: "C \<in> L" "kids C = x # xs" and I: "I \<in> L" "I \<noteq> C" "x \<noteq> I" "x \<noteq> C" "Y I = None"
    and P': "p_parent (P' x) = Some I" "p_yptr (P' x) = None" "p_optr (P' x) = p_cptr (P I)" "p_cptr (P' x) = p_cptr (P x)"
      "p_cptr (P' I) = Some x" "p_cptr (P' C) = p_optr (P x)"
    and fr: "\<And>z. z \<in> L \<Longrightarrow> z \<noteq> x \<Longrightarrow> p_parent (P' z) = p_parent (P z)"
      "\<And>z. z \<in> L \<Longrightarrow> z \<noteq> x \<Longrightarrow> p_optr (P' z) = p_optr (P z)"
      "\<And>z. z \<in> L \<Longrightarrow> z \<noteq> x \<Longrightarrow> p_yptr (P' z) = (if p_cptr (P I) = Some z then Some x else p_yptr (P z))"
      "\<And>z. z \<in> L \<Longrightarrow> z \<noteq> I \<Longrightarrow> z \<noteq> C \<Longrightarrow> p_cptr (P' z) = p_cptr (P z)"
  shows "family_at (Y(C := Some x)) L (kids(C := xs, I := x # kids I)) P'"
  unfolding family_at_def
proof (intro ballI)
  note fC = family_atD [OF F C(1)] and fI = family_atD [OF F I(1)]
  have par: "z \<in> set (kids p) \<Longrightarrow> p \<in> L \<Longrightarrow> p_parent (P z) = Some p \<and> z \<in> L" for z p
    using family_atD(3) [OF F, of p] by auto
  have x: "x \<in> L" "p_parent (P x) = Some C" "x \<notin> set xs" "distinct xs" using fC C(2) par [of x C] C(1) by auto
  have headI: "p_cptr (P I) = Some z \<Longrightarrow> z \<in> set (kids I)" for z
    using family_head [OF F I(1)] by (cases "kids I") auto
  have keep: "sibs P' y q zs" if "sibs P y q zs" "set zs \<subseteq> L" "x \<notin> set zs" "\<And>z. z \<in> set zs \<Longrightarrow> p_parent (P z) \<noteq> Some I" for y q zs
  proof (rule sibs_cong [OF that(1)])
    fix z assume z: "z \<in> set zs"
    have zx: "z \<in> L" "z \<noteq> x" using z that(2,3) by auto
    have "p_cptr (P I) \<noteq> Some z" using headI [of z] par [of z I] I(1) that(4) [OF z] by auto
    then show "p_yptr (P' z) = p_yptr (P z) \<and> p_optr (P' z) = p_optr (P z)"
      using fr(2,3) [OF zx] by simp
  qed
  have par': "{z \<in> L. p_parent (P' z) = Some p} = (if p = I then insert x else if p = C then (\<lambda>A. A - {x}) else id)
      {z \<in> L. p_parent (P z) = Some p}" for p
  proof -
    have pp: "z \<in> L \<Longrightarrow> p_parent (P' z) = (if z = x then Some I else p_parent (P z))" for z
      using fr(1) P'(1) by auto
    show ?thesis using x(1,2) I(2) pp by (auto split: if_splits)
  qed
  fix p assume p: "p \<in> L"
  consider "p = C" | "p = I" | "p \<noteq> C" "p \<noteq> I" by blast
  then show "sibs P' ((Y(C := Some x)) p) (p_cptr (P' p)) ((kids(C := xs, I := x # kids I)) p) \<and>
      distinct ((kids(C := xs, I := x # kids I)) p) \<and>
      set ((kids(C := xs, I := x # kids I)) p) = {z \<in> L. p_parent (P' z) = Some p}"
  proof cases
    case 1
    have "sibs P (Some x) (p_optr (P x)) xs" using fC(1) C(2) by simp
    then have "sibs P' (Some x) (p_optr (P x)) xs"
      using x(3) par [of _ C] C I(2) by (intro keep) auto
    moreover have "set xs = {z \<in> L. p_parent (P z) = Some C} - {x}" using fC(3) C(2) x(3) by auto
    ultimately show ?thesis using 1 I(2) x(4) P'(6) par' [of C] by simp
  next
    case 2
    have "sibs P' (Some x) (p_cptr (P I)) (kids I)"
    proof (cases "kids I")
      case Nil
      then show ?thesis using fI(1) by simp
    next
      case (Cons w ws)
      have nx: "x \<notin> set (kids I)" using par [of x I] I(1,2) x(2) by auto
      have w: "p_cptr (P I) = Some w" "w \<in> L" "w \<noteq> x" "set ws \<subseteq> L" "x \<notin> set ws" "w \<notin> set ws"
        using fI Cons nx by auto
      show ?thesis
        unfolding Cons
      proof (rule sibs_head)
        show "sibs P (Y I) (p_cptr (P I)) (w # ws)" using fI(1) Cons by simp
        show "p_yptr (P' w) = Some x" "p_optr (P' w) = p_optr (P w)" using w fr(2,3) by auto
        fix z assume "z \<in> set ws"
        then have "z \<in> L" "z \<noteq> x" "z \<noteq> w" using w by auto
        then show "p_yptr (P' z) = p_yptr (P z) \<and> p_optr (P' z) = p_optr (P z)" using fr(2,3) [of z] w(1) by simp
      qed
    qed
    moreover have "x \<notin> set (kids I)" using par [of x I] I(1,2) x(2) by auto
    ultimately show ?thesis using 2 I P' fI par' [of I] by simp
  next
    case 3
    note fp = family_atD [OF F p]
    have "sibs P' (Y p) (p_cptr (P p)) (kids p)"
      using fp(1) par [of _ p] p 3 x(2) by (intro keep) auto
    then show ?thesis using 3 fp(2,3) fr(4) [OF p 3(2,1)] par' [of p] by simp
  qed
qed

section \<open>Invariant of the process table\<close>

definition live :: "psys \<Rightarrow> nat set" where
  "live s = insert (idleproc s) (set (proc_list s))"

text \<open>The structure of the process table: lists, hash table, pids and family. \<open>Y\<close> as in \<open>family_at\<close>.\<close>

definition table_inv :: "(nat \<Rightarrow> nat option) \<Rightarrow> (nat \<Rightarrow> nat list) \<Rightarrow> psys \<Rightarrow> bool" where
  "table_inv Y kids s \<longleftrightarrow> family_at Y (live s) kids (procs s) \<and>
     distinct (proc_list s) \<and> idleproc s \<notin> set (proc_list s) \<and> initproc s \<in> set (proc_list s) \<and>
     nr_process s = int (length (proc_list s)) + 1 \<and>
     hash_inv (pid_of s) (set (proc_list s)) (hash_list s) \<and>
     pid_inv (map (pid_of s) (proc_list s)) (pid_st s) \<and>
     (\<forall>p \<in> set (proc_list s). \<exists>q \<in> live s. p_parent (procs s p) = Some q \<and> q \<noteq> p) \<and>
     p_parent (procs s (idleproc s)) = None \<and> p_parent (procs s (initproc s)) = Some (idleproc s)"

text \<open>The states of the processes, up to the exception of a running process that is about to give up the
  processor.\<close>

definition states_inv :: "psys \<Rightarrow> bool" where
  "states_inv s \<longleftrightarrow> sched_inv s \<and> current s \<in> live s \<and> p_state (procs s (initproc s)) \<noteq> PROC_ZOMBIE \<and>
     (\<forall>p. p_state (procs s p) = PROC_RUNNABLE \<longrightarrow> p \<in> live s) \<and>
     (\<forall>p \<in> live s. p_wait_state (procs s p) \<noteq> 0 \<longrightarrow> p_state (procs s p) = PROC_SLEEPING) \<and>
     (\<forall>p \<in> live s. p_state (procs s p) = PROC_ZOMBIE \<and> p \<noteq> current s \<longrightarrow> p_cptr (procs s p) = None) \<and>
     (\<forall>p \<in> live s. p_filesp s p \<noteq> None)"

definition proc_inv :: "psys \<Rightarrow> bool" where
  "proc_inv s \<longleftrightarrow> states_inv s \<and> p_state (procs s (current s)) = PROC_RUNNABLE \<and>
     (\<exists>kids. table_inv (\<lambda>_. None) kids s)"

text \<open>What the scheduler's operations leave alone.\<close>

lemma upd_links: "(\<And>x. links (f x) = links x) \<Longrightarrow> links (procs (upd_proc p f s) q) = links (procs s q)"
  by simp

lemma psys_more:
  assumes "sched.more s' = sched.more (s :: psys)"
  shows "initproc s' = initproc s" "proc_list s' = proc_list s" "hash_list s' = hash_list s" "nr_process s' = nr_process s"
    "pid_st s' = pid_st s" "p_mm s' = p_mm s" "p_filesp s' = p_filesp s" "p_tf s' = p_tf s" "mm_count s' = mm_count s"
    "files_count s' = files_count s" "kstacks s' = kstacks s" "mms s' = mms s" "filess s' = filess s"
  using assms by (cases s; cases s'; simp)+

lemmas upd_proc_psys [simp] = psys_more [OF upd_proc_more]

definition ident :: "proc_struct \<Rightarrow> (nat option \<times> nat option \<times> nat option \<times> nat option) \<times> int \<times> int \<times> u32 \<times> nat option" where
  "ident x = (links x, p_pid x, p_exit_code x, p_flags x, p_kstack x)"

lemma RR_enqueue_ident: "RR_enqueue p s = Some s' \<Longrightarrow> ident (procs s' q) = ident (procs s q)"
  by (auto simp: RR_enqueue_def upd_proc_def Let_def kassert_def ident_def links_def split: if_splits)

lemma RR_dequeue_ident: "RR_dequeue p s = Some s' \<Longrightarrow> ident (procs s' q) = ident (procs s q)"
  by (auto simp: RR_dequeue_def kassert_def split: if_splits)

lemma wakeup_proc_ident: "wakeup_proc p s = Some s' \<Longrightarrow> ident (procs s' q) = ident (procs s q)"
  by (auto simp: wakeup_proc_def sched_class_enqueue_def Let_def kassert_def ident_def links_def split: if_splits
      dest!: RR_enqueue_ident [where q = q])

lemma schedule_ident: "schedule s = Some s' \<Longrightarrow> ident (procs s' q) = ident (procs s q)"
  by (auto simp: schedule_def sched_class_enqueue_def sched_class_dequeue_def proc_run_def Let_def
      bind_eq_Some_conv ident_def links_def split: if_splits option.splits
      dest!: RR_enqueue_ident [where q = q] RR_dequeue_ident [where q = q])

lemma table_cong:
  assumes T: "table_inv Y kids s" and id: "\<And>q. links (procs s' q) = links (procs s q)" "\<And>q. p_pid (procs s' q) = p_pid (procs s q)"
    and fr: "idleproc s' = idleproc s" "initproc s' = initproc s" "proc_list s' = proc_list s" "hash_list s' = hash_list s"
      "nr_process s' = nr_process s" "pid_st s' = pid_st s"
  shows "table_inv Y kids s'"
proof -
  have l: "p_parent (procs s' q) = p_parent (procs s q)" "pid_of s' q = pid_of s q" for q
    using id [of q] by (auto simp: links_def pid_of_def)
  have "live s' = live s" using fr by (simp add: live_def)
  moreover have "pid_of s' = pid_of s" using l(2) by (simp add: fun_eq_iff)
  moreover have "family_at Y (live s) kids (procs s')"
    by (rule family_cong [of Y "live s" kids "procs s"]) (use T id in \<open>simp_all add: table_inv_def\<close>)
  ultimately show ?thesis
    using T fr l(1) unfolding table_inv_def by simp
qed

lemma table_more:
  assumes T: "table_inv Y kids s" and id: "\<And>q. ident (procs s' q) = ident (procs s q)"
    and fr: "idleproc s' = idleproc s" "sched.more s' = sched.more s"
  shows "table_inv Y kids s'"
proof -
  have "links (procs s' q) = links (procs s q)" "p_pid (procs s' q) = p_pid (procs s q)" for q
    using id [of q] by (simp_all add: ident_def)
  then show ?thesis by (rule table_cong [OF T]) (use fr(1) psys_more [OF fr(2)] in simp_all)
qed

lemma live_more: "idleproc s' = idleproc s \<Longrightarrow> sched.more s' = sched.more s \<Longrightarrow> live s' = live s"
  using psys_more [of s' s] by (simp add: live_def)

lemma wakeup_inv:
  assumes S: "states_inv s" and p: "p \<in> live s" "p_state (procs s p) \<noteq> PROC_ZOMBIE"
  shows "\<exists>s'. wakeup_proc p s = Some s' \<and> states_inv s' \<and> sched.more s' = sched.more s \<and> idleproc s' = idleproc s \<and>
    current s' = current s \<and> (\<forall>q. ident (procs s' q) = ident (procs s q)) \<and>
    (\<forall>q. p_state (procs s' q) = (if q = p then PROC_RUNNABLE else p_state (procs s q))) \<and>
    (\<forall>q. p_wait_state (procs s' q) = (if q = p \<and> p_state (procs s p) \<noteq> PROC_RUNNABLE then 0 else p_wait_state (procs s q)))"
proof -
  have inv: "sched_inv s" using S by (simp add: states_inv_def)
  obtain s' where s': "wakeup_proc p s = Some s'" "sched_inv s'" "current s' = current s" "idleproc s' = idleproc s"
    and st: "\<forall>q. p_state (procs s' q) = (if q = p then PROC_RUNNABLE else p_state (procs s q))"
    and ws: "\<forall>q. p_wait_state (procs s' q) = (if q = p \<and> p_state (procs s p) \<noteq> PROC_RUNNABLE then 0 else p_wait_state (procs s q))"
    using wakeup_ex [OF inv p(2)] by blast
  note m = wakeup_proc_more [OF s'(1)]
  have id: "\<forall>q. ident (procs s' q) = ident (procs s q)" using wakeup_proc_ident [OF s'(1)] by blast
  then have cp: "p_cptr (procs s' q) = p_cptr (procs s q)" for q by (auto simp: ident_def links_def)
  have "states_inv s'"
    unfolding states_inv_def live_more [OF s'(4) m] psys_more [OF m] s'(3)
  proof (intro conjI allI ballI impI)
    fix q
    show "q \<in> live s" if "p_state (procs s' q) = PROC_RUNNABLE"
      using S p(1) that st by (auto simp: states_inv_def split: if_splits)
    show "p_state (procs s' q) = PROC_SLEEPING" if "q \<in> live s" "p_wait_state (procs s' q) \<noteq> 0"
    proof -
      have "p_state (procs s q) = PROC_SLEEPING"
        using S that ws by (auto simp: states_inv_def split: if_splits)
      with ws that(2) st show ?thesis by (cases "q = p") auto
    qed
    show "p_cptr (procs s' q) = None" if "q \<in> live s" "p_state (procs s' q) = PROC_ZOMBIE \<and> q \<noteq> current s"
      using S that st cp by (auto simp: states_inv_def split: if_splits)
    show "p_filesp s q \<noteq> None" if "q \<in> live s"
      using S that by (auto simp: states_inv_def)
  qed (use S s'(2) st in \<open>auto simp: states_inv_def\<close>)
  with s' m id st ws show ?thesis by blast
qed

lemma schedule_inv:
  assumes S: "states_inv s" and z: "p_state (procs s (current s)) = PROC_ZOMBIE \<Longrightarrow> p_cptr (procs s (current s)) = None"
    and T: "table_inv Y kids s"
  shows "\<exists>s'. schedule s = Some s' \<and> states_inv s' \<and> p_state (procs s' (current s')) = PROC_RUNNABLE \<and> table_inv Y kids s' \<and>
    sched.more s' = sched.more s \<and> idleproc s' = idleproc s \<and> (\<forall>q. ident (procs s' q) = ident (procs s q)) \<and>
    (\<forall>q. p_state (procs s' q) = p_state (procs s q))"
proof -
  have inv: "sched_inv s" using S by (simp add: states_inv_def)
  obtain s' where s': "schedule s = Some s'" "sched_inv s'"
    "current s' = (case candidates s of [] \<Rightarrow> idleproc s | p # _ \<Rightarrow> p)" "idleproc s' = idleproc s"
    and st: "\<forall>q. p_state (procs s' q) = p_state (procs s q)" and ws: "\<forall>q. p_wait_state (procs s' q) = p_wait_state (procs s q)"
    by (rule schedule_ok [OF inv]) blast
  note m = schedule_more [OF s'(1)]
  have id: "\<And>q. ident (procs s' q) = ident (procs s q)" using schedule_ident [OF s'(1)] by blast
  then have cp: "p_cptr (procs s' q) = p_cptr (procs s q)" for q by (auto simp: ident_def links_def)
  have run: "p_state (procs s (current s')) = PROC_RUNNABLE"
    using inv s'(3) by (cases "run_list s") (auto simp: candidates_def sched_inv_def)
  have "states_inv s'"
    unfolding states_inv_def live_more [OF s'(4) m] psys_more [OF m]
  proof (intro conjI allI ballI impI)
    show "current s' \<in> live s" using S run by (simp add: states_inv_def)
    fix q
    show "p_cptr (procs s' q) = None" if "q \<in> live s" "p_state (procs s' q) = PROC_ZOMBIE \<and> q \<noteq> current s'"
      using S that st cp z by (cases "q = current s") (auto simp: states_inv_def)
    show "p_filesp s q \<noteq> None" if "q \<in> live s"
      using S that by (auto simp: states_inv_def)
  qed (use S s'(2) st ws in \<open>auto simp: states_inv_def\<close>)
  moreover have "table_inv Y kids s'" by (rule table_more [OF T id s'(4) m])
  ultimately show ?thesis using s'(1,4) m id st run by (intro exI [of _ s']) simp
qed

section \<open>Fork\<close>

text \<open>The first part of \<open>do_fork\<close> touches only the new process \<open>p\<close> and the counts of shared objects.\<close>

definition only_new :: "nat \<Rightarrow> psys \<Rightarrow> psys \<Rightarrow> bool" where
  "only_new p s s' \<longleftrightarrow> (\<forall>q. q \<noteq> p \<longrightarrow> procs s' q = procs s q \<and> p_filesp s' q = p_filesp s q \<and> p_mm s' q = p_mm s q) \<and>
     current s' = current s \<and> idleproc s' = idleproc s \<and> run_list s' = run_list s \<and> proc_num s' = proc_num s \<and>
     initproc s' = initproc s \<and> proc_list s' = proc_list s \<and> hash_list s' = hash_list s \<and>
     nr_process s' = nr_process s \<and> pid_st s' = pid_st s"


lemma only_new_refl [simp]: "only_new p s s"
  by (simp add: only_new_def)














lemma put_files_new: "\<exists>s'. put_files p s = Some s' \<and> only_new p s s' \<and> procs s' = procs s \<and> p_filesp s' = p_filesp s"
  by (auto simp: put_files_def files_destroy_at_def only_new_def Let_def split: option.splits)





definition unlink_child :: "nat \<Rightarrow> nat \<Rightarrow> psys \<Rightarrow> psys" where
  "unlink_child p c s = s\<lparr>proc_list := remove1 p (proc_list s), nr_process := nr_process s - 1,
     procs := (\<lambda>z. (procs s z)
       \<lparr>p_yptr := if p_optr (procs s p) = Some z then p_yptr (procs s p) else p_yptr (procs s z),
        p_optr := if p_yptr (procs s p) = Some z then p_optr (procs s p) else p_optr (procs s z),
        p_cptr := if z = c \<and> p_yptr (procs s p) = None then p_optr (procs s p) else p_cptr (procs s z)\<rparr>)\<rparr>"

lemma remove_links_eq:
  assumes "p_parent (procs s p) = Some c" "c \<noteq> p" "p_optr (procs s p) \<noteq> Some p" "p_yptr (procs s p) \<noteq> Some p"
  shows "remove_links p s = Some (unlink_child p c s)"
  using assms
  by (cases "p_optr (procs s p)"; cases "p_yptr (procs s p)")
     (auto simp: remove_links_def unlink_child_def Let_def upd_proc_def fun_eq_iff intro!: psys.equality proc_struct.equality)




section \<open>Exit\<close>

definition adopt_child :: "nat \<Rightarrow> psys \<Rightarrow> psys" where
  "adopt_child x s = s\<lparr>procs := (\<lambda>z. (procs s z)
     \<lparr>p_cptr := if z = initproc s then Some x else if z = current s then p_optr (procs s x) else p_cptr (procs s z),
      p_yptr := if z = x then None else if p_cptr (procs s (initproc s)) = Some z then Some x else p_yptr (procs s z),
      p_optr := if z = x then p_cptr (procs s (initproc s)) else p_optr (procs s z),
      p_parent := if z = x then Some (initproc s) else p_parent (procs s z)\<rparr>)\<rparr>"

lemma adopt_eq:
  assumes "x \<noteq> current s" "x \<noteq> initproc s" "initproc s \<noteq> current s" "p_cptr (procs s (initproc s)) \<noteq> Some x"
  shows "adopt x s = (if p_state (procs s x) = PROC_ZOMBIE \<and> p_wait_state (procs s (initproc s)) = WT_CHILD
     then wakeup_proc (initproc s) (adopt_child x s) else Some (adopt_child x s))"
proof -
  have "upd_proc (initproc s) (p_cptr_update (\<lambda>_. Some x)) (upd_proc x (p_parent_update (\<lambda>_. Some (initproc s)))
      (case p_cptr (procs s (initproc s)) of
         None \<Rightarrow> upd_proc x (p_optr_update (\<lambda>_. p_cptr (procs s (initproc s)))) (upd_proc x (p_yptr_update (\<lambda>_. None))
            (upd_proc (current s) (p_cptr_update (\<lambda>_. p_optr (procs s x))) s))
       | Some c \<Rightarrow> upd_proc c (p_yptr_update (\<lambda>_. Some x))
            (upd_proc x (p_optr_update (\<lambda>_. p_cptr (procs s (initproc s)))) (upd_proc x (p_yptr_update (\<lambda>_. None))
            (upd_proc (current s) (p_cptr_update (\<lambda>_. p_optr (procs s x))) s))))) = adopt_child x s"
    using assms by (cases "p_cptr (procs s (initproc s))")
      (auto simp: adopt_child_def upd_proc_def fun_eq_iff intro!: psys.equality proc_struct.equality)
  then show ?thesis
    using assms by (auto simp: adopt_def Let_def adopt_child_def split: option.splits)
qed

lemma WT_CHILD_nz [simp]: "WT_CHILD \<noteq> 0"
  by (simp add: WT_CHILD_def WT_INTERRUPTED_def)

lemma adopt_step:
  assumes S: "states_inv s" and T: "table_inv Y kids s" and k: "kids (current s) = x # xs"
    and C: "current s \<noteq> idleproc s" "current s \<noteq> initproc s" and Y: "Y (initproc s) = None"
  shows "\<exists>s'. adopt x s = Some s' \<and> states_inv s' \<and>
    table_inv (Y(current s := Some x)) (kids(current s := xs, initproc s := x # kids (initproc s))) s' \<and>
    current s' = current s \<and> idleproc s' = idleproc s \<and> sched.more s' = sched.more s \<and>
    p_state (procs s' (current s)) = p_state (procs s (current s)) \<and>
    (\<forall>q. p_exit_code (procs s' q) = p_exit_code (procs s q)) \<and>
    (\<forall>q. p_state (procs s q) = PROC_RUNNABLE \<longrightarrow> p_state (procs s' q) = PROC_RUNNABLE)"
proof -
  let ?C = "current s" and ?I = "initproc s"
  have CL: "?C \<in> live s" using S by (simp add: states_inv_def)
  have IL: "?I \<in> live s" using T by (auto simp: table_inv_def live_def)
  have F: "family_at Y (live s) kids (procs s)" using T by (simp add: table_inv_def)
  have x: "x \<in> live s" "p_parent (procs s x) = Some ?C"
    using family_atD(3) [OF F CL] k by auto
  have xI: "x \<noteq> ?I" using x(2) T C(1) by (auto simp: table_inv_def)
  have xC: "x \<noteq> ?C"
  proof
    assume "x = ?C"
    then have "x \<in> set (proc_list s)" using x(1) C(1) by (auto simp: live_def)
    then show False using T x(2) \<open>x = ?C\<close> by (auto simp: table_inv_def)
  qed
  have "p_cptr (procs s ?I) \<noteq> Some x"
  proof
    assume "p_cptr (procs s ?I) = Some x"
    then have "x \<in> set (kids ?I)" using family_head [OF F IL] by (cases "kids ?I") auto
    then show False using family_atD(3) [OF F IL] x(2) C(2) by auto
  qed
  note ad = adopt_eq [OF xC xI C(2) [symmetric] this]
  let ?s = "adopt_child x s"
  have fr: "live ?s = live s" "current ?s = ?C" "idleproc ?s = idleproc s" "initproc ?s = ?I" "proc_list ?s = proc_list s"
    "hash_list ?s = hash_list s" "nr_process ?s = nr_process s" "pid_st ?s = pid_st s" "p_filesp ?s = p_filesp s"
    "run_list ?s = run_list s" "proc_num ?s = proc_num s" "sched.more ?s = sched.more s"
    by (simp_all add: adopt_child_def live_def)
  have P: "p_state (procs ?s z) = p_state (procs s z)" "p_wait_state (procs ?s z) = p_wait_state (procs s z)"
    "p_on_rq (procs ?s z) = p_on_rq (procs s z)" "pid_of ?s z = pid_of s z" "p_exit_code (procs ?s z) = p_exit_code (procs s z)" for z
    by (simp_all add: adopt_child_def pid_of_def)
  have fam: "family_at (Y(?C := Some x)) (live s) (kids(?C := xs, ?I := x # kids ?I)) (procs ?s)"
    by (rule family_adopt [OF F CL k IL C(2) [symmetric] xI xC Y]) (use xI xC C(2) in \<open>simp_all add: adopt_child_def\<close>)
  have "pid_of ?s = pid_of s" using P(4) by (simp add: fun_eq_iff)
  moreover have "\<exists>q\<in>live s. p_parent (procs ?s p) = Some q \<and> q \<noteq> p" if "p \<in> set (proc_list s)" for p
    using T that IL xI by (cases "p = x") (auto simp: table_inv_def adopt_child_def)
  moreover have "p_parent (procs ?s (idleproc s)) = None" "p_parent (procs ?s ?I) = Some (idleproc s)"
    using T x(2) xI by (auto simp: table_inv_def adopt_child_def)
  ultimately have T': "table_inv (Y(?C := Some x)) (kids(?C := xs, ?I := x # kids ?I)) ?s"
    using T fam unfolding table_inv_def fr by simp
  have "sched_inv ?s" using S unfolding states_inv_def sched_inv_def fr P by simp
  moreover have "p_cptr (procs ?s p) = None" if "p \<in> live s" "p_state (procs s p) = PROC_ZOMBIE \<and> p \<noteq> ?C" for p
    using S that by (auto simp: states_inv_def adopt_child_def)
  ultimately have S': "states_inv ?s"
    using S unfolding states_inv_def fr P by blast
  show ?thesis
  proof (cases "p_state (procs s x) = PROC_ZOMBIE \<and> p_wait_state (procs s ?I) = WT_CHILD")
    case True
    have "p_state (procs ?s ?I) \<noteq> PROC_ZOMBIE" using S unfolding states_inv_def P by simp
    then obtain s' where s': "wakeup_proc ?I ?s = Some s'" "states_inv s'" "sched.more s' = sched.more ?s"
      "idleproc s' = idleproc ?s" "current s' = current ?s" "\<forall>q. ident (procs s' q) = ident (procs ?s q)"
      "\<forall>q. p_state (procs s' q) = (if q = ?I then PROC_RUNNABLE else p_state (procs ?s q))"
      using wakeup_inv [OF S', of ?I] IL fr(1) by auto
    have "p_exit_code (procs s' q) = p_exit_code (procs s q)" for q
      using s'(6) P(5) [of q] by (auto simp: ident_def)
    moreover have "table_inv (Y(?C := Some x)) (kids(?C := xs, ?I := x # kids ?I)) s'"
      using table_more [OF T' _ s'(4,3)] s'(6) by blast
    ultimately show ?thesis using ad True s' fr C(2) P(1) by (intro exI [of _ s']) simp
  next
    case False
    then show ?thesis using ad S' T' fr P by (intro exI [of _ ?s]) auto
  qed
qed

lemma adopt_loop_ok:
  assumes "states_inv s" "table_inv Y kids s" "kids (current s) = xs" "length xs < fuel"
    "current s \<noteq> idleproc s" "current s \<noteq> initproc s" "Y (initproc s) = None" "\<And>p. p \<noteq> current s \<Longrightarrow> Y p = None"
  shows "\<exists>s' kids'. adopt_loop fuel s = Some s' \<and> states_inv s' \<and> table_inv (\<lambda>_. None) kids' s' \<and> kids' (current s) = [] \<and>
    kids' (initproc s) = rev xs @ kids (initproc s) \<and>
    current s' = current s \<and> idleproc s' = idleproc s \<and> sched.more s' = sched.more s \<and>
    p_state (procs s' (current s)) = p_state (procs s (current s)) \<and>
    (\<forall>q. p_exit_code (procs s' q) = p_exit_code (procs s q)) \<and>
    (\<forall>q. p_state (procs s q) = PROC_RUNNABLE \<longrightarrow> p_state (procs s' q) = PROC_RUNNABLE)"
  using assms
proof (induction xs arbitrary: s Y kids fuel)
  case Nil
  have F: "family_at Y (live s) kids (procs s)" using Nil.prems(2) by (simp add: table_inv_def)
  have CL: "current s \<in> live s" using Nil.prems(1) by (simp add: states_inv_def)
  have "p_cptr (procs s (current s)) = None" using family_head [OF F CL] Nil.prems(3) by simp
  then have "adopt_loop fuel s = Some s" using Nil.prems(4) by (cases fuel) auto
  moreover have "family (live s) kids (procs s)"
    unfolding family_at_def
  proof (intro ballI)
    fix p assume p: "p \<in> live s"
    note f = family_atD [OF F p]
    show "sibs (procs s) None (p_cptr (procs s p)) (kids p) \<and> distinct (kids p) \<and>
        set (kids p) = {c \<in> live s. p_parent (procs s c) = Some p}"
      using f Nil.prems(3) Nil.prems(8) [of p] by (cases "p = current s") auto
  qed
  then have "table_inv (\<lambda>_. None) kids s" using Nil.prems(2) by (simp add: table_inv_def)
  ultimately show ?case using Nil.prems(1,3) by auto
next
  case (Cons x xs)
  obtain fuel' where fuel: "fuel = Suc fuel'" "length xs < fuel'" using Cons.prems(4) by (cases fuel) auto
  have F: "family_at Y (live s) kids (procs s)" using Cons.prems(2) by (simp add: table_inv_def)
  have CL: "current s \<in> live s" using Cons.prems(1) by (simp add: states_inv_def)
  have cx: "p_cptr (procs s (current s)) = Some x" using family_head [OF F CL] Cons.prems(3) by simp
  obtain s1 where s1: "adopt x s = Some s1" "states_inv s1"
    "table_inv (Y(current s := Some x)) (kids(current s := xs, initproc s := x # kids (initproc s))) s1"
    "current s1 = current s" "idleproc s1 = idleproc s" "sched.more s1 = sched.more s"
    "p_state (procs s1 (current s)) = p_state (procs s (current s))"
    "\<forall>q. p_exit_code (procs s1 q) = p_exit_code (procs s q)"
    "\<forall>q. p_state (procs s q) = PROC_RUNNABLE \<longrightarrow> p_state (procs s1 q) = PROC_RUNNABLE"
    using adopt_step [OF Cons.prems(1-3,5-7)] by blast
  have i1: "initproc s1 = initproc s" using psys_more [OF s1(6)] by simp
  have "\<exists>s' kids'. adopt_loop fuel' s1 = Some s' \<and> states_inv s' \<and> table_inv (\<lambda>_. None) kids' s' \<and> kids' (current s1) = [] \<and>
    kids' (initproc s1) = rev xs @ (kids(current s := xs, initproc s := x # kids (initproc s))) (initproc s1) \<and>
    current s' = current s1 \<and> idleproc s' = idleproc s1 \<and> sched.more s' = sched.more s1 \<and>
    p_state (procs s' (current s1)) = p_state (procs s1 (current s1)) \<and>
    (\<forall>q. p_exit_code (procs s' q) = p_exit_code (procs s1 q)) \<and>
    (\<forall>q. p_state (procs s1 q) = PROC_RUNNABLE \<longrightarrow> p_state (procs s' q) = PROC_RUNNABLE)"
    by (rule Cons.IH [OF s1(2,3)]) (use Cons.prems(5-8) s1(4,5) i1 fuel(2) in auto)
  then show ?case
    using s1 i1 fuel(1) cx by auto
qed

lemma kids_bound:
  assumes "table_inv Y kids s" "p \<in> live s"
  shows "length (kids p) \<le> length (proc_list s)"
proof -
  have F: "family_at Y (live s) kids (procs s)" using assms(1) by (simp add: table_inv_def)
  have "set (kids p) \<subseteq> set (proc_list s)"
    using family_atD(3) [OF F assms(2)] assms(1) by (auto simp: table_inv_def live_def)
  then have "card (set (kids p)) \<le> card (set (proc_list s))" by (intro card_mono) auto
  then show ?thesis
    using family_atD(2) [OF F assms(2)] card_length [of "proc_list s"] distinct_card [of "kids p"] by simp
qed

lemma put_mm_fields:
  "procs (put_mm s) = procs s" "current (put_mm s) = current s" "idleproc (put_mm s) = idleproc s" "run_list (put_mm s) = run_list s"
  "proc_num (put_mm s) = proc_num s" "initproc (put_mm s) = initproc s" "proc_list (put_mm s) = proc_list s"
  "hash_list (put_mm s) = hash_list s" "nr_process (put_mm s) = nr_process s" "pid_st (put_mm s) = pid_st s"
  "p_filesp (put_mm s) = p_filesp s"
  by (auto simp: put_mm_def Let_def split: option.splits)

lemma put_files_fields:
  assumes "put_files p s = Some s'"
  shows "procs s' = procs s" "current s' = current s" "idleproc s' = idleproc s" "run_list s' = run_list s"
    "proc_num s' = proc_num s" "initproc s' = initproc s" "proc_list s' = proc_list s"
    "hash_list s' = hash_list s" "nr_process s' = nr_process s" "pid_st s' = pid_st s" "p_filesp s' = p_filesp s"
  using assms by (auto simp: put_files_def files_destroy_at_def Let_def kassert_def split: option.splits if_splits)

lemma do_exit_ok:
  assumes inv: "proc_inv s" and C: "current s \<noteq> idleproc s" "current s \<noteq> initproc s"
  shows "\<exists>s'. do_exit code s = Some s' \<and> proc_inv s' \<and> proc_list s' = proc_list s \<and>
    p_state (procs s' (current s)) = PROC_ZOMBIE \<and> p_exit_code (procs s' (current s)) = code \<and> current s' \<noteq> current s \<and>
    (\<forall>q \<in> live s. p_parent (procs s q) = Some (current s) \<longrightarrow> p_parent (procs s' q) = Some (initproc s)) \<and>
    (\<forall>q. p_parent (procs s (current s)) = Some q \<and> p_wait_state (procs s q) = WT_CHILD \<longrightarrow> p_state (procs s' q) = PROC_RUNNABLE)"
proof -
  let ?C = "current s" and ?I = "initproc s"
  obtain kids where T: "table_inv (\<lambda>_. None) kids s" and S: "states_inv s" and crun: "p_state (procs s ?C) = PROC_RUNNABLE"
    using inv by (auto simp: proc_inv_def)
  have CL: "?C \<in> live s" using S by (simp add: states_inv_def)
  then have Cp: "?C \<in> set (proc_list s)" using C(1) by (auto simp: live_def)
  obtain par where par: "p_parent (procs s ?C) = Some par" "par \<in> live s" "par \<noteq> ?C"
    using T Cp by (auto simp: table_inv_def)
  obtain s1 where s1: "put_files ?C (put_mm s) = Some s1" using put_files_new by blast
  note f1 = put_files_fields [OF s1, unfolded put_mm_fields]
  define s2 where "s2 = upd_proc ?C (p_exit_code_update (\<lambda>_. code)) (upd_proc ?C (p_state_update (\<lambda>_. PROC_ZOMBIE)) s1)"
  have f2: "current s2 = ?C" "idleproc s2 = idleproc s" "run_list s2 = run_list s" "proc_num s2 = proc_num s"
    "initproc s2 = ?I" "proc_list s2 = proc_list s" "hash_list s2 = hash_list s" "nr_process s2 = nr_process s"
    "pid_st s2 = pid_st s" "p_filesp s2 = p_filesp s" "live s2 = live s"
    "procs s2 = (procs s)(?C := (procs s ?C)\<lparr>p_state := PROC_ZOMBIE, p_exit_code := code\<rparr>)"
    by (simp_all add: s2_def f1 live_def)
  have st2: "p_state (procs s2 q) = (if q = ?C then PROC_ZOMBIE else p_state (procs s q))"
    "p_wait_state (procs s2 q) = p_wait_state (procs s q)" "p_cptr (procs s2 q) = p_cptr (procs s q)" for q
    by (simp_all add: f2)
  have T2: "table_inv (\<lambda>_. None) kids s2"
    by (rule table_cong [OF T]) (simp_all add: f2 links_def)
  have w0: "p_wait_state (procs s ?C) = 0" using S CL crun by (auto simp: states_inv_def)
  have "sched_inv s2"
    using S C(1) crun unfolding states_inv_def sched_inv_def f2 by auto
  then have S2: "states_inv s2"
    using S C w0 unfolding states_inv_def f2(1-11) st2 by auto
  obtain s3 where s3: "(if p_wait_state (procs s2 par) = WT_CHILD then wakeup_proc par s2 else Some s2) = Some s3"
    "states_inv s3" "sched.more s3 = sched.more s2" "idleproc s3 = idleproc s2" "current s3 = current s2"
    "\<forall>q. ident (procs s3 q) = ident (procs s2 q)"
    "\<forall>q. p_state (procs s3 q) = (if q = par \<and> p_wait_state (procs s par) = WT_CHILD then PROC_RUNNABLE else p_state (procs s2 q))"
  proof (cases "p_wait_state (procs s2 par) = WT_CHILD")
    case True
    have "p_state (procs s2 par) = PROC_SLEEPING"
      using S2 par(2) True unfolding states_inv_def f2 by auto
    then show ?thesis
      using wakeup_inv [OF S2, of par] True par(2) f2(11) that by (auto simp: st2)
  next
    case False
    then show ?thesis using S2 that by (auto simp: st2)
  qed
  have f3: "current s3 = ?C" "idleproc s3 = idleproc s" "initproc s3 = ?I" "proc_list s3 = proc_list s" "live s3 = live s"
    using s3(3-5) psys_more [OF s3(3)] f2 by (simp_all add: live_def)
  have T3: "table_inv (\<lambda>_. None) kids s3" using table_more [OF T2 _ s3(4,3)] s3(6) by blast
  have len: "length (kids ?C) < Suc (length (proc_list s3))"
    using kids_bound [OF T CL] f3(4) by simp
  obtain s4 kids4 where s4: "adopt_loop (Suc (length (proc_list s3))) s3 = Some s4" "states_inv s4" "table_inv (\<lambda>_. None) kids4 s4"
    "kids4 (current s3) = []" "kids4 (initproc s3) = rev (kids ?C) @ kids (initproc s3)" "current s4 = current s3"
    "idleproc s4 = idleproc s3" "sched.more s4 = sched.more s3"
    "p_state (procs s4 (current s3)) = p_state (procs s3 (current s3))"
    "\<forall>q. p_exit_code (procs s4 q) = p_exit_code (procs s3 q)"
    "\<forall>q. p_state (procs s3 q) = PROC_RUNNABLE \<longrightarrow> p_state (procs s4 q) = PROC_RUNNABLE"
    using adopt_loop_ok [OF s3(2) T3 _ len] C unfolding f3 by auto
  have L4: "live s4 = live s" using live_more [OF s4(7,8)] f3(5) by simp
  have F4: "family (live s) kids4 (procs s4)" using s4(3) L4 by (simp add: table_inv_def)
  have z4: "p_cptr (procs s4 (current s4)) = None"
    using family_head [OF F4, of ?C] CL s4(4,6) f3(1) by simp
  obtain s5 where s5: "schedule s4 = Some s5" "states_inv s5" "p_state (procs s5 (current s5)) = PROC_RUNNABLE"
    "table_inv (\<lambda>_. None) kids4 s5" "sched.more s5 = sched.more s4" "idleproc s5 = idleproc s4"
    "\<forall>q. ident (procs s5 q) = ident (procs s4 q)" "\<forall>q. p_state (procs s5 q) = p_state (procs s4 q)"
    using schedule_inv [OF s4(2) _ s4(3)] z4 by blast
  have p2: "p_parent (procs s2 ?C) = Some par" using par by (simp add: f2)
  have s2': "upd_proc (current (upd_proc (current s1) (p_state_update (\<lambda>_. PROC_ZOMBIE)) s1)) (p_exit_code_update (\<lambda>_. code))
      (upd_proc (current s1) (p_state_update (\<lambda>_. PROC_ZOMBIE)) s1) = s2"
    by (simp add: s2_def f1)
  have "do_exit code s = (if p_wait_state (procs s2 par) = WT_CHILD then wakeup_proc par s2 else Some s2) \<bind>
      (\<lambda>t. adopt_loop (Suc (length (proc_list t))) t \<bind> schedule)"
    unfolding do_exit_def Let_def put_mm_fields s1 bind.bind_lunit s2' f2(1) p2
    using C by (simp del: adopt_loop.simps)
  then have ex: "do_exit code s = Some s5"
    by (simp only: s3(1) s4(1) s5(1) bind.bind_lunit)
  have zC: "p_state (procs s5 ?C) = PROC_ZOMBIE"
    using s5(8) s4(9) s3(7) f3(1) par(3) by (simp add: st2)
  have "p_exit_code (procs s5 ?C) = code"
    using s5(7) s4(10) s3(6) by (simp add: ident_def f2)
  moreover have "p_parent (procs s5 q) = Some ?I" if "q \<in> live s" "p_parent (procs s q) = Some ?C" for q
  proof -
    have "q \<in> set (kids ?C)" using T CL that by (auto simp: table_inv_def family_at_def)
    then have "q \<in> set (kids4 ?I)" using s4(5) f3(3) by simp
    moreover have "?I \<in> live s" using T by (auto simp: table_inv_def live_def)
    ultimately have "p_parent (procs s4 q) = Some ?I" using familyD(3) [OF F4] by auto
    then show ?thesis using s5(7) by (auto simp: ident_def links_def)
  qed
  moreover have "p_state (procs s5 par) = PROC_RUNNABLE" if "p_wait_state (procs s par) = WT_CHILD"
    using s3(7) s4(11) s5(8) that by simp
  moreover have "proc_list s5 = proc_list s" using psys_more [OF s5(5)] psys_more [OF s4(8)] f3(4) by simp
  moreover have "current s5 \<noteq> ?C" using zC s5(3) by auto
  ultimately show ?thesis
    using ex zC par(1) s5(2,3,4) by (auto simp: proc_inv_def)
qed

section \<open>Wait and kill\<close>

lemma find_zombie_sibs:
  "sibs P y q xs \<Longrightarrow> length xs < fuel \<Longrightarrow> find_zombie fuel P q = Some (find (\<lambda>p. p_state (P p) = PROC_ZOMBIE) xs)"
proof (induction xs arbitrary: y q fuel)
  case Nil
  then show ?case by (cases fuel) auto
next
  case (Cons x xs)
  then show ?case by (cases fuel) auto
qed

lemma reap_ok:
  assumes inv: "proc_inv s" and z: "z \<in> live s" "p_parent (procs s z) = Some (current s)" "p_state (procs s z) = PROC_ZOMBIE"
  shows "\<exists>s'. remove_links z (s\<lparr>hash_list := unhash_proc (pid_of s) z (hash_list s)\<rparr>) = Some s' \<and>
    proc_inv (put_kstack z s') \<and> z \<noteq> idleproc s \<and> z \<noteq> initproc s \<and> proc_list s' = remove1 z (proc_list s) \<and>
    current s' = current s"
proof -
  let ?C = "current s"
  obtain kids where T: "table_inv (\<lambda>_. None) kids s" and S: "states_inv s" and crun: "p_state (procs s ?C) = PROC_RUNNABLE"
    using inv by (auto simp: proc_inv_def)
  have CL: "?C \<in> live s" using S by (simp add: states_inv_def)
  have F: "family (live s) kids (procs s)" using T by (simp add: table_inv_def)
  have zn: "z \<noteq> idleproc s" "z \<noteq> initproc s" "z \<noteq> ?C"
    using T S z crun by (auto simp: table_inv_def states_inv_def)
  have zp: "z \<in> set (proc_list s)" using z(1) zn by (auto simp: live_def)
  have "p_cptr (procs s z) = None" using S z zn by (auto simp: states_inv_def)
  then have kz: "kids z = []" using family_head [OF F z(1)] by (cases "kids z") auto
  have "z \<in> set (kids ?C)" using familyD(3) [OF F CL] z by auto
  then obtain as bs where k: "kids ?C = as @ z # bs" by (meson split_list)
  have d: "distinct (as @ z # bs)" using familyD(2) [OF F CL] k by simp
  have ch: "sibs (procs s) None (p_cptr (procs s ?C)) (as @ z # bs)" using familyD(1) [OF F CL] k by simp
  note yo = sibs_last_first [OF ch]
  have self: "p_optr (procs s z) \<noteq> Some z" "p_yptr (procs s z) \<noteq> Some z"
    using yo d by (auto split: list.splits if_splits)
  let ?t = "s\<lparr>hash_list := unhash_proc (pid_of s) z (hash_list s)\<rparr>"
  define s1 where "s1 = unlink_child z ?C ?t"
  have r: "remove_links z ?t = Some s1"
    unfolding s1_def by (rule remove_links_eq) (use z(2) zn(3) self in simp_all)
  have fr: "current s1 = ?C" "idleproc s1 = idleproc s" "initproc s1 = initproc s" "proc_list s1 = remove1 z (proc_list s)"
    "hash_list s1 = unhash_proc (pid_of s) z (hash_list s)" "nr_process s1 = nr_process s - 1" "pid_st s1 = pid_st s"
    "p_filesp s1 = p_filesp s" "run_list s1 = run_list s" "proc_num s1 = proc_num s"
    by (simp_all add: s1_def unlink_child_def)
  have dp: "distinct (proc_list s)" using T by (simp add: table_inv_def)
  have setp: "set (remove1 z (proc_list s)) = set (proc_list s) - {z}" using dp by simp
  have L1: "live s1 = live s - {z}" using zn(1) by (auto simp: live_def fr setp)
  have P: "p_state (procs s1 q) = p_state (procs s q)" "p_wait_state (procs s1 q) = p_wait_state (procs s q)"
    "p_on_rq (procs s1 q) = p_on_rq (procs s q)" "pid_of s1 q = pid_of s q" "p_parent (procs s1 q) = p_parent (procs s q)"
    "p_cptr (procs s1 q) = (if q = ?C \<and> p_yptr (procs s z) = None then p_optr (procs s z) else p_cptr (procs s q))" for q
    by (simp_all add: s1_def unlink_child_def pid_of_def)
  have fam: "family (live s - {z}) (kids(?C := as @ bs)) (procs s1)"
    by (rule family_remove [OF F z(1) kz CL z(2) k]) (simp_all add: s1_def unlink_child_def)
  have pid1: "pid_of s1 = pid_of s" using P(4) by (simp add: fun_eq_iff)
  have hash: "hash_inv (pid_of s) (set (proc_list s) - {z}) (unhash_proc (pid_of s) z (hash_list s))"
    using T zp by (intro unhash_proc_inv) (simp_all add: table_inv_def)
  have len: "int (length (remove1 z (proc_list s))) = int (length (proc_list s)) - 1"
    using zp length_pos_if_in_set [OF zp] by (simp add: length_remove1 of_nat_diff Suc_leI del: length_greater_0_conv)
  have noparent: "p_parent (procs s q) \<noteq> Some z" if "q \<in> live s" for q
    using familyD(3) [OF F z(1)] kz that by auto
  have T1: "table_inv (\<lambda>_. None) (kids(?C := as @ bs)) s1"
    unfolding table_inv_def L1 fr P setp pid1
  proof (intro conjI ballI)
    show "pid_inv (map (pid_of s) (remove1 z (proc_list s))) (pid_st s)"
      using T set_remove1_subset [of z "proc_list s"] by (auto simp: table_inv_def pid_inv_def)
    fix q assume "q \<in> set (proc_list s) - {z}"
    then show "\<exists>r\<in>live s - {z}. p_parent (procs s q) = Some r \<and> r \<noteq> q"
      using T noparent [of q] by (force simp: table_inv_def live_def)
  qed (use T fam hash zn zp dp in \<open>auto simp: table_inv_def pid_inv_def len simp del: length_remove1\<close>)
  have si: "sched_inv s1" using S unfolding states_inv_def sched_inv_def fr P by simp
  have S1: "states_inv s1"
    unfolding states_inv_def L1 fr
  proof (intro conjI allI ballI impI)
    fix q assume "q \<in> live s - {z}" "p_state (procs s1 q) = PROC_ZOMBIE \<and> q \<noteq> ?C"
    then show "p_cptr (procs s1 q) = None" using S unfolding states_inv_def P by auto
  qed (use S si zn z(3) CL in \<open>auto simp: states_inv_def P\<close>)
  have inv1: "proc_inv s1" using S1 T1 crun by (auto simp: proc_inv_def fr P)
  have "proc_inv (put_kstack z s1)"
  proof (cases "p_kstack (procs s1 z)")
    case (Some kst)
    let ?u = "s1\<lparr>kstacks := remove1 kst (kstacks s1)\<rparr>"
    have "table_inv (\<lambda>_. None) (kids(?C := as @ bs)) ?u"
      by (rule table_cong [OF T1]) simp_all
    moreover have "states_inv ?u = states_inv s1" by (simp add: states_inv_def sched_inv_def live_def)
    ultimately show ?thesis using inv1 Some by (auto simp: put_kstack_def proc_inv_def)
  qed (simp add: put_kstack_def inv1)
  with r zn fr show ?thesis by auto
qed

lemma sleep_inv:
  assumes inv: "proc_inv s" and C: "current s \<noteq> idleproc s"
  shows "\<exists>s'. schedule (upd_proc (current s) (p_wait_state_update (\<lambda>_. wst)) (upd_proc (current s) (p_state_update (\<lambda>_. PROC_SLEEPING)) s))
      = Some s' \<and> proc_inv s' \<and> p_state (procs s' (current s)) = PROC_SLEEPING \<and> sched.more s' = sched.more s"
proof -
  let ?C = "current s"
  let ?t = "upd_proc ?C (p_wait_state_update (\<lambda>_. wst)) (upd_proc ?C (p_state_update (\<lambda>_. PROC_SLEEPING)) s)"
  obtain kids where T: "table_inv (\<lambda>_. None) kids s" and S: "states_inv s" and crun: "p_state (procs s ?C) = PROC_RUNNABLE"
    using inv by (auto simp: proc_inv_def)
  have T1: "table_inv (\<lambda>_. None) kids ?t"
    by (rule table_cong [OF T]) (simp_all add: links_def)
  have "sched_inv ?t"
    by (rule upd_proc_inv [OF block_inv [OF _ C]]) (use S in \<open>simp_all add: states_inv_def\<close>)
  then have S1: "states_inv ?t"
    using S crun unfolding states_inv_def by (auto simp: live_def)
  obtain s' where s': "schedule ?t = Some s'" "states_inv s'" "p_state (procs s' (current s')) = PROC_RUNNABLE"
    "table_inv (\<lambda>_. None) kids s'" "sched.more s' = sched.more ?t" "\<forall>q. p_state (procs s' q) = p_state (procs ?t q)"
    using schedule_inv [OF S1 _ T1] by auto
  then show ?thesis by (intro exI [of _ s']) (auto simp: proc_inv_def)
qed

text \<open>The child that \<open>do_wait\<close> reaps: the named one, or the youngest dead one.\<close>

definition dead_child :: "int \<Rightarrow> psys \<Rightarrow> nat \<Rightarrow> bool" where
  "dead_child pid s z \<longleftrightarrow> z \<in> live s \<and> p_parent (procs s z) = Some (current s) \<and> p_state (procs s z) = PROC_ZOMBIE \<and>
     (pid \<noteq> 0 \<longrightarrow> p_pid (procs s z) = pid)"

definition has_child :: "int \<Rightarrow> psys \<Rightarrow> bool" where
  "has_child pid s \<longleftrightarrow> (\<exists>z \<in> live s. p_parent (procs s z) = Some (current s) \<and>
     (pid \<noteq> 0 \<longrightarrow> p_pid (procs s z) = pid \<and> 0 < pid \<and> pid < MAX_PID))"

lemma wait_search:
  assumes inv: "proc_inv s"
  shows "\<exists>z. (if pid \<noteq> 0 then
          (case find_proc (pid_of s) pid (hash_list s) of
             Some proc \<Rightarrow> Some (if p_parent (procs s proc) = Some (current s)
                               then (True, if p_state (procs s proc) = PROC_ZOMBIE then Some proc else None)
                               else (False, None))
           | None \<Rightarrow> Some (False, None))
        else do {
          z \<leftarrow> find_zombie (Suc (length (proc_list s))) (procs s) (p_cptr (procs s (current s)));
          Some (p_cptr (procs s (current s)) \<noteq> None, z) }) = Some (has_child pid s, z) \<and>
     (case z of Some c \<Rightarrow> dead_child pid s c | None \<Rightarrow>
        \<forall>c. dead_child pid s c \<longrightarrow> pid \<noteq> 0 \<and> \<not> (0 < pid \<and> pid < MAX_PID))"
proof -
  let ?C = "current s"
  obtain kids where T: "table_inv (\<lambda>_. None) kids s" and S: "states_inv s"
    using inv by (auto simp: proc_inv_def)
  have CL: "?C \<in> live s" using S by (simp add: states_inv_def)
  have F: "family (live s) kids (procs s)" using T by (simp add: table_inv_def)
  note k = familyD [OF F CL]
  have hash: "hash_inv (pid_of s) (set (proc_list s)) (hash_list s)" using T by (simp add: table_inv_def)
  have pl: "z \<in> live s \<and> p_parent (procs s z) = Some ?C \<Longrightarrow> z \<in> set (proc_list s)" for z
    using T by (auto simp: table_inv_def live_def)
  show ?thesis
  proof (cases "pid = 0")
    case True
    have fz: "find_zombie (Suc (length (proc_list s))) (procs s) (p_cptr (procs s ?C)) =
        Some (find (\<lambda>p. p_state (procs s p) = PROC_ZOMBIE) (kids ?C))"
      by (rule find_zombie_sibs [OF k(1)]) (use kids_bound [OF T CL] in simp)
    have hc: "(p_cptr (procs s ?C) \<noteq> None) = has_child pid s"
      using family_head [OF F CL] k(3) True by (cases "kids ?C") (auto simp: has_child_def)
    have "case find (\<lambda>p. p_state (procs s p) = PROC_ZOMBIE) (kids ?C) of Some c \<Rightarrow> dead_child pid s c
      | None \<Rightarrow> \<forall>c. \<not> dead_child pid s c"
      using k(3) True by (auto simp: dead_child_def find_None_iff find_Some_iff split: option.splits)
    then show ?thesis using True fz hc
      by (intro exI [of _ "find (\<lambda>p. p_state (procs s p) = PROC_ZOMBIE) (kids ?C)"]) (auto split: option.splits)
  next
    case False
    show ?thesis
    proof (cases "find_proc (pid_of s) pid (hash_list s)")
      case None
      have "\<not> (p \<in> set (proc_list s) \<and> pid_of s p = pid \<and> 0 < pid \<and> pid < MAX_PID)" for p
        using find_proc_ok [OF hash, of pid p] None by simp
      then show ?thesis
        using None False pl by (intro exI [of _ None]) (auto simp: has_child_def dead_child_def pid_of_def)
    next
      case (Some q)
      then have q: "q \<in> set (proc_list s)" "pid_of s q = pid" "0 < pid" "pid < MAX_PID"
        using find_proc_ok [OF hash, of pid q] by auto
      have uniq: "p \<in> set (proc_list s) \<Longrightarrow> pid_of s p = pid \<Longrightarrow> p = q" for p
        using hash q by (auto simp: hash_inv_def inj_on_def)
      have ql: "q \<in> live s" "p_pid (procs s q) = pid" using q by (auto simp: live_def pid_of_def)
      have only: "z = q" if "z \<in> live s" "p_parent (procs s z) = Some ?C" "p_pid (procs s z) = pid" for z
        using uniq [of z] pl [of z] that by (simp add: pid_of_def)
      have hc: "has_child pid s = (p_parent (procs s q) = Some ?C)"
        unfolding has_child_def using only ql q(3,4) by blast
      have dc: "dead_child pid s z = (z = q \<and> p_parent (procs s q) = Some ?C \<and> p_state (procs s q) = PROC_ZOMBIE)" for z
        unfolding dead_child_def using only [of z] ql False by blast
      show ?thesis
        using Some False hc dc
        by (intro exI [of _ "if p_parent (procs s q) = Some ?C \<and> p_state (procs s q) = PROC_ZOMBIE then Some q else None"]) simp
    qed
  qed
qed

lemma do_wait_ok:
  assumes inv: "proc_inv s" and C: "current s \<noteq> idleproc s"
  shows "\<exists>w s'. do_wait_round pid st s = Some (w, s') \<and> proc_inv s' \<and>
    (if has_child pid s then
       (\<exists>z. dead_child pid s z \<and> w = WaitRet 0 (if st then Some (p_exit_code (procs s z)) else None) \<and>
            proc_list s' = remove1 z (proc_list s)) \<or>
       ((\<forall>z. \<not> dead_child pid s z) \<and> w = WaitSleep \<and> p_state (procs s' (current s)) = PROC_SLEEPING \<and> proc_list s' = proc_list s)
     else w = WaitRet (- E_BAD_PROC) None \<and> s' = s)"
proof -
  obtain z where z: "(if pid \<noteq> 0 then
          (case find_proc (pid_of s) pid (hash_list s) of
             Some proc \<Rightarrow> Some (if p_parent (procs s proc) = Some (current s)
                               then (True, if p_state (procs s proc) = PROC_ZOMBIE then Some proc else None)
                               else (False, None))
           | None \<Rightarrow> Some (False, None))
        else do {
          z \<leftarrow> find_zombie (Suc (length (proc_list s))) (procs s) (p_cptr (procs s (current s)));
          Some (p_cptr (procs s (current s)) \<noteq> None, z) }) = Some (has_child pid s, z)"
    "case z of Some c \<Rightarrow> dead_child pid s c | None \<Rightarrow>
        \<forall>c. dead_child pid s c \<longrightarrow> pid \<noteq> 0 \<and> \<not> (0 < pid \<and> pid < MAX_PID)"
    using wait_search [OF inv] by blast
  show ?thesis
  proof (cases z)
    case (Some c)
    have d: "dead_child pid s c" using z(2) Some by simp
    obtain s' where s': "remove_links c (s\<lparr>hash_list := unhash_proc (pid_of s) c (hash_list s)\<rparr>) = Some s'"
      "proc_inv (put_kstack c s')" "c \<noteq> idleproc s" "c \<noteq> initproc s" "proc_list s' = remove1 c (proc_list s)"
      using reap_ok [OF inv, of c] d by (auto simp: dead_child_def)
    have hc: "has_child pid s"
    proof (rule ccontr)
      assume "\<not> has_child pid s"
      with z(1) Some show False
        by (auto split: if_splits option.splits bind_splits)
    qed
    have "proc_list (put_kstack c s') = proc_list s'" by (simp add: put_kstack_def split: option.splits)
    then show ?thesis
      unfolding do_wait_round_def z(1) using Some s' d hc by (auto simp: Let_def)
  next
    case None
    show ?thesis
    proof (cases "has_child pid s")
      case True
      obtain s' where s': "schedule (upd_proc (current s) (p_wait_state_update (\<lambda>_. WT_CHILD))
          (upd_proc (current s) (p_state_update (\<lambda>_. PROC_SLEEPING)) s)) = Some s'" "proc_inv s'"
        "p_state (procs s' (current s)) = PROC_SLEEPING" "sched.more s' = sched.more s"
        using sleep_inv [OF inv C] by blast
      have "\<forall>c. \<not> dead_child pid s c" using z(2) None True by (auto simp: has_child_def)
      then show ?thesis
        unfolding do_wait_round_def z(1) using None True s' psys_more [OF s'(4)] by (auto simp: Let_def)
    next
      case False
      then show ?thesis unfolding do_wait_round_def z(1) using None inv by simp
    qed
  qed
qed



section \<open>Properties\<close>

text \<open>A small system: the idle process 0, \<open>initproc\<close> 1 running and one child 2 of it.\<close>

definition demo_psys :: psys where
  "demo_psys = \<lparr>procs = (\<lambda>p.
       if p = 0 then (demo_proc PROC_RUNNABLE)\<lparr>p_cptr := Some 1\<rparr>
       else if p = 1 then (demo_proc PROC_RUNNABLE)\<lparr>p_pid := 1, p_parent := Some 0, p_cptr := Some 2\<rparr>
       else if p = 2 then (demo_proc PROC_RUNNABLE)\<lparr>p_pid := 2, p_parent := Some 1\<rparr>
       else demo_proc PROC_UNINIT),
     current = 2, idleproc = 0, run_list = [1], proc_num = 1, max_time_slice = 20, timer_list = [],
     timers = (\<lambda>_. \<lparr>expires = 0, t_proc = 0\<rparr>),
     initproc = 1, proc_list = [2, 1], hash_list = (\<lambda>h. filter (\<lambda>p. pid_hashfn (int p) = h) [2, 1]), nr_process = 3,
     pid_st = \<lparr>next_safe = MAX_PID, last_pid = 2\<rparr>, p_mm = (\<lambda>_. None), p_filesp = (\<lambda>_. Some 9),
     p_tf = (\<lambda>_. \<lparr>tf_v0 = 0, tf_a0 = 0, tf_a1 = 0, tf_gp = 0, tf_sp = 0, tf_Status = 0, tf_EPC = 0\<rparr>),
     lab6_priority = (\<lambda>_. 1), mm_count = (\<lambda>_. 0), files_count = (\<lambda>_. 3), kstacks = [], mms = [], filess = [9]\<rparr>"

lemma demo_psys_inv: "proc_inv demo_psys"
proof -
  have live: "live demo_psys = {0, 1, 2}" by (auto simp: live_def demo_psys_def)
  have "table_inv (\<lambda>_. None) (\<lambda>p. if p = 0 then [1] else if p = 1 then [2] else []) demo_psys"
    unfolding table_inv_def live
    by (auto simp: family_at_def demo_psys_def demo_proc_def hash_inv_def pid_of_def pid_inv_def MAX_PID_def MAX_PROCESS_def inj_on_def)
  moreover have "states_inv demo_psys"
    unfolding states_inv_def live by (auto simp: demo_psys_def demo_proc_def sched_inv_def)
  ultimately show ?thesis by (auto simp: proc_inv_def demo_psys_def demo_proc_def)
qed

definition demo_env :: "nat \<Rightarrow> fork_env" where
  "demo_env p = \<lparr>fe_proc = Some p, fe_files0 = Some 20, fe_kstack = Some 30, fe_mm = Some 40, fe_pgdir = True, fe_dup = 0,
     fe_files = Some 21, fe_dupf = 0\<rparr>"

text \<open>
  The system calls and scheduling points of the running process, any of which may come next. The idle process only gives
  up the processor. A process that sleeps in \<open>do_wait\<close> goes on after its call of \<open>schedule\<close> when it runs again,
  whatever the event: the second part of the state holds the arguments of its call.
\<close>

datatype proc_event = PFork fork_env u32 u32 trapframe | PExit int | PWait int "bool option" | PKill int | PYield | PSched

type_synonym waiting = "nat \<Rightarrow> (int \<times> bool) option"

fun wait_next :: "int \<Rightarrow> bool \<Rightarrow> nat \<Rightarrow> waiting \<Rightarrow> wait_result \<times> psys \<Rightarrow> psys \<times> waiting" where
  "wait_next pid st c k (WaitSleep, s) = (s, k(c := Some (pid, st)))"
| "wait_next pid st c k (WaitRet r v, s) = (s, k(c := None))"

fun proc_step :: "proc_event \<Rightarrow> psys \<times> waiting \<Rightarrow> (psys \<times> waiting) option" where
  "proc_step ev (s, k) =
     (if current s = idleproc s then map_option (\<lambda>s. (s, k)) (schedule s)
      else case k (current s) of
        Some (pid, st) \<Rightarrow> map_option (wait_next pid st (current s) k) (do_wait_resume pid st s)
      | None \<Rightarrow> (case ev of
          PFork e fl st tf \<Rightarrow>
            map_option (\<lambda>(r, s). (s, case fe_proc e of Some p \<Rightarrow> k(p := None) | None \<Rightarrow> k)) (do_fork e fl st tf s)
        | PExit code \<Rightarrow> map_option (\<lambda>s. (s, k)) (do_exit code s)
        | PWait pid cs \<Rightarrow> map_option (wait_next pid (cs \<noteq> None) (current s) k) (do_wait pid cs s)
        | PKill pid \<Rightarrow> map_option (\<lambda>(r, s). (s, k)) (do_kill pid s)
        | PYield \<Rightarrow> Some (snd (do_yield s), k)
        | PSched \<Rightarrow> map_option (\<lambda>s. (s, k)) (schedule s)))"

fun proc_run_events :: "proc_event list \<Rightarrow> psys \<times> waiting \<Rightarrow> (psys \<times> waiting) option" where
  "proc_run_events [] c = Some c"
| "proc_run_events (ev # evs) c = do { c \<leftarrow> proc_step ev c; proc_run_events evs c }"


text \<open>The three ways in which the code stops: \<open>initproc\<close> exits, \<open>initproc\<close> goes on in \<open>do_wait\<close> after it was killed, and a
  fork gets no descriptor, which \<open>do_fork\<close> dereferences without a check.\<close>

fun fatal :: "proc_event \<Rightarrow> psys \<times> waiting \<Rightarrow> bool" where
  "fatal ev (s, k) \<longleftrightarrow> current s \<noteq> idleproc s \<and>
     (case k (current s) of
        Some _ \<Rightarrow> current s = initproc s \<and> p_flags (procs s (initproc s)) AND PF_EXITING \<noteq> 0
      | None \<Rightarrow> (case ev of PExit _ \<Rightarrow> current s = initproc s
                | PFork e _ _ _ \<Rightarrow> fe_proc e = None \<and> nr_process s < MAX_PROCESS
                | _ \<Rightarrow> False))"




lemma fst_wait_next [simp]: "fst (wait_next pid st c k ws) = snd ws"
  by (cases "(pid, st, c, k, ws)" rule: wait_next.cases) auto


text \<open>A run that is stopped: the events up to a fatal one ran, and the table was consistent when it came.\<close>

definition stopped :: "proc_event list \<Rightarrow> psys \<times> waiting \<Rightarrow> bool" where
  "stopped evs c \<longleftrightarrow> (\<exists>evs1 ev evs2 c1. evs = evs1 @ ev # evs2 \<and> proc_run_events evs1 c = Some c1 \<and> proc_inv (fst c1) \<and> fatal ev c1)"

lemma stopped_Nil [simp]: "\<not> stopped [] c"
  by (simp add: stopped_def)





lemma kill_initproc_stops:
  "proc_run_events [PSched, PWait 0 None, PKill 1, PSched, PYield] (demo_psys, \<lambda>_. None) = None"
  by code_simp



text \<open>
  C14: \<open>do_exit\<close>. The process becomes a zombie with the given exit code and leaves the processor; all its children are
  handed to \<open>initproc\<close>, and a parent that waits for a child becomes runnable.
\<close>

theorem do_exit_correct:
  assumes "proc_inv s" "current s \<noteq> idleproc s" "current s \<noteq> initproc s"
  shows "\<exists>s'. do_exit code s = Some s' \<and> proc_inv s' \<and>
    p_state (procs s' (current s)) = PROC_ZOMBIE \<and> p_exit_code (procs s' (current s)) = code \<and> current s' \<noteq> current s \<and>
    (\<forall>q \<in> live s. p_parent (procs s q) = Some (current s) \<longrightarrow> p_parent (procs s' q) = Some (initproc s)) \<and>
    (\<forall>q. p_parent (procs s (current s)) = Some q \<and> p_wait_state (procs s q) = WT_CHILD \<longrightarrow> p_state (procs s' q) = PROC_RUNNABLE)"
  using do_exit_ok [OF assms, of code] by auto

theorem do_exit_correct_witness:
  "\<exists>s'. do_exit 3 demo_psys = Some s' \<and> p_state (procs s' 2) = PROC_ZOMBIE \<and> p_exit_code (procs s' 2) = 3"
  using do_exit_correct [OF demo_psys_inv, of 3] by (auto simp: demo_psys_def)

text \<open>
  C15: \<open>do_wait\<close>. With a dead child (the one asked for, or any when \<open>pid\<close> is 0) it reports that child's exit code and removes
  it from the process list, the hash table and the family; with living children only it puts the caller to sleep; with
  no such child it returns \<open>-E_BAD_PROC\<close> and changes nothing. A bad pointer for the exit code is refused with
  \<open>-E_INVAL\<close> before anything happens.
\<close>

theorem do_wait_correct:
  assumes "proc_inv s" "current s \<noteq> idleproc s"
  shows "do_wait pid (Some False) s = Some (WaitRet (- E_INVAL) None, s) \<and>
    (\<exists>w s'. do_wait pid (if store then Some True else None) s = Some (w, s') \<and> proc_inv s' \<and>
    (if has_child pid s then
       (\<exists>z. dead_child pid s z \<and> w = WaitRet 0 (if store then Some (p_exit_code (procs s z)) else None) \<and>
          proc_list s' = remove1 z (proc_list s)) \<or>
       ((\<forall>z. \<not> dead_child pid s z) \<and> w = WaitSleep \<and> p_state (procs s' (current s)) = PROC_SLEEPING)
     else w = WaitRet (- E_BAD_PROC) None \<and> s' = s))"
proof -
  have "do_wait pid (if store then Some True else None) s = do_wait_round pid store s"
    by (simp add: do_wait_def del: not_None_eq)
  then show ?thesis using do_wait_ok [OF assms, of pid store] by (auto simp: do_wait_def split: if_splits)
qed

text \<open>The small system after process 2 has exited with code 7 and \<open>initproc\<close> runs.\<close>

definition demo_dead :: psys where
  "demo_dead = demo_psys\<lparr>procs := (procs demo_psys)(2 := (procs demo_psys 2)\<lparr>p_state := PROC_ZOMBIE, p_exit_code := 7\<rparr>),
     current := 1, run_list := [], proc_num := 0\<rparr>"

lemma demo_dead_inv: "proc_inv demo_dead"
proof -
  have live: "live demo_dead = {0, 1, 2}" by (auto simp: live_def demo_dead_def demo_psys_def)
  have "table_inv (\<lambda>_. None) (\<lambda>p. if p = 0 then [1] else if p = 1 then [2] else []) demo_dead"
    unfolding table_inv_def live
    by (auto simp: family_at_def demo_dead_def demo_psys_def demo_proc_def hash_inv_def pid_of_def pid_inv_def MAX_PID_def MAX_PROCESS_def inj_on_def)
  moreover have "states_inv demo_dead"
    unfolding states_inv_def live by (auto simp: demo_dead_def demo_psys_def demo_proc_def sched_inv_def)
  ultimately show ?thesis by (auto simp: proc_inv_def demo_dead_def demo_psys_def demo_proc_def)
qed

theorem do_wait_correct_witness:
  "(\<exists>s'. do_wait 0 (Some True) demo_psys = Some (WaitRet (- E_BAD_PROC) None, s')) \<and>
   (\<exists>s'. do_wait 0 (Some True) demo_dead = Some (WaitRet 0 (Some 7), s') \<and> proc_list s' = [1])"
proof
  have "current demo_psys \<noteq> idleproc demo_psys" "\<not> has_child 0 demo_psys"
    by (auto simp: has_child_def live_def demo_psys_def demo_proc_def)
  then show "\<exists>s'. do_wait 0 (Some True) demo_psys = Some (WaitRet (- E_BAD_PROC) None, s')"
    using do_wait_correct [OF demo_psys_inv, of 0 True] by auto
  have d: "dead_child 0 demo_dead z \<longleftrightarrow> z = 2" for z
    by (auto simp: dead_child_def live_def demo_dead_def demo_psys_def demo_proc_def)
  have "current demo_dead \<noteq> idleproc demo_dead" "has_child 0 demo_dead" "proc_list demo_dead = [2, 1]" "p_exit_code (procs demo_dead 2) = 7"
    by (auto simp: has_child_def live_def demo_dead_def demo_psys_def demo_proc_def)
  then show "\<exists>s'. do_wait 0 (Some True) demo_dead = Some (WaitRet 0 (Some 7), s') \<and> proc_list s' = [1]"
    using do_wait_correct [OF demo_dead_inv, of 0 True] unfolding d by auto
qed

section \<open>A leak on the error path of fork\<close>

text \<open>
  When \<open>copy_files\<close> fails, \<open>do_fork\<close> releases the kernel stack and the process descriptor but neither the memory
  descriptor that \<open>copy_mm\<close> created (here 40) nor the file table that \<open>alloc_proc\<close> created (here 20), whose count
  \<open>put_files\<close> takes from 0 to -1.
\<close>

lemma do_fork_leak:
  "\<exists>s'. do_fork ((demo_env 5)\<lparr>fe_files := None\<rparr>) 0 77 (p_tf demo_psys 2) (demo_psys\<lparr>p_mm := (\<lambda>_. Some 3)\<rparr>) = Some (- E_NO_MEM, s') \<and>
     40 \<in> set (mms s') \<and> 20 \<in> set (filess s') \<and> files_count s' 20 = - 1 \<and> kstacks s' = []"
  by (simp add: do_fork_def alloc_proc_def setup_kstack_def copy_mm_def copy_files_def put_files_def put_kstack_def
      files_create_at_def files_destroy_at_def demo_env_def demo_psys_def demo_proc_def zero_proc_def upd_proc_def
      MAX_PROCESS_def E_NO_MEM_def Let_def)

end
