(* ===== verification/Vma.thy ===== *)
theory Vma
  imports Cstring
begin

text \<open>
  Virtual memory areas (\<open>kern/mm/vmm.c\<close>): the sorted list of areas of an address space with its one-entry
  cache, the insertion and lookup routines, \<open>mm_map\<close>, the checks of user pointers, and copying to and from user
  memory.

  A \<open>vma_struct\<close> is never changed after it is linked, so a pointer to one is the record itself. The address
  arithmetic is that of 32-bit words. The result of \<open>kmalloc\<close> is an argument. Of the swap manager's private
  pointer only whether it is set is kept, of the semaphore its value.
\<close>

section \<open>Areas and address spaces\<close>

record vma_struct =
  vm_start :: u32
  vm_end :: u32
  vm_flags :: u32

record mm_struct =
  mmap_list :: "vma_struct list"
  mmap_cache :: "vma_struct option"
  pgdir :: u32
  map_count :: int
  sm_priv :: bool
  mm_cnt :: int
  mm_sem :: int

definition VM_READ :: u32 where "VM_READ = 0x00000001"
definition VM_WRITE :: u32 where "VM_WRITE = 0x00000002"
definition VM_EXEC :: u32 where "VM_EXEC = 0x00000004"
definition VM_STACK :: u32 where "VM_STACK = 0x00000008"

definition KERNBASE :: u32 where "KERNBASE = 0x80000000"
definition KMEMSIZE :: u32 where "KMEMSIZE = 0x00800000"
definition KERNTOP :: u32 where "KERNTOP = KERNBASE + KMEMSIZE"
definition USERTOP :: u32 where "USERTOP = 0x80000000"
definition USERBASE :: u32 where "USERBASE = 0x00200000"

definition USER_ACCESS :: "u32 \<Rightarrow> u32 \<Rightarrow> bool" where
  "USER_ACCESS start end \<longleftrightarrow> USERBASE \<le> start \<and> start < end \<and> end \<le> USERTOP"

definition KERN_ACCESS :: "u32 \<Rightarrow> u32 \<Rightarrow> bool" where
  "KERN_ACCESS start end \<longleftrightarrow> KERNBASE \<le> start \<and> start < end \<and> end \<le> KERNTOP"

section \<open>Operations on the list of areas\<close>

definition mm_create :: "bool \<Rightarrow> bool \<Rightarrow> mm_struct option" where
  "mm_create ok swap_ok =
     (if ok then Some \<lparr>mmap_list = [], mmap_cache = None, pgdir = 0, map_count = 0, sm_priv = swap_ok, mm_cnt = 0, mm_sem = 1\<rparr>
      else None)"

definition vma_create :: "bool \<Rightarrow> u32 \<Rightarrow> u32 \<Rightarrow> u32 \<Rightarrow> vma_struct option" where
  "vma_create ok start end flags = (if ok then Some \<lparr>vm_start = start, vm_end = end, vm_flags = flags\<rparr> else None)"

definition in_vma :: "u32 \<Rightarrow> vma_struct \<Rightarrow> bool" where
  "in_vma addr v \<longleftrightarrow> vm_start v \<le> addr \<and> addr < vm_end v"

definition find_vma :: "u32 \<Rightarrow> mm_struct \<Rightarrow> vma_struct option \<times> mm_struct" where
  "find_vma addr mm =
     (let cached = (case mmap_cache mm of Some v \<Rightarrow> vm_start v \<le> addr \<and> vm_end v > addr | None \<Rightarrow> False);
          v = (if cached then mmap_cache mm else find (in_vma addr) (mmap_list mm))
      in (v, if v \<noteq> None then mm\<lparr>mmap_cache := v\<rparr> else mm))"

definition check_vma_overlap :: "vma_struct \<Rightarrow> vma_struct \<Rightarrow> unit option" where
  "check_vma_overlap prev nxt = do {
     kassert (vm_start prev < vm_end prev);
     kassert (vm_end prev \<le> vm_start nxt);
     kassert (vm_start nxt < vm_end nxt)
   }"

text \<open>The loop of \<open>insert_vma_struct\<close> passes the areas that do not start above the new one.\<close>

definition insert_vma_struct :: "vma_struct \<Rightarrow> mm_struct \<Rightarrow> mm_struct option" where
  "insert_vma_struct v mm = do {
     kassert (vm_start v < vm_end v);
     let before = takeWhile (\<lambda>x. \<not> vm_start x > vm_start v) (mmap_list mm);
     let after = dropWhile (\<lambda>x. \<not> vm_start x > vm_start v) (mmap_list mm);
     (if before \<noteq> [] then check_vma_overlap (last before) v else Some ());
     (case after of [] \<Rightarrow> Some () | x # _ \<Rightarrow> check_vma_overlap v x);
     Some (mm\<lparr>mmap_list := before @ v # after, map_count := map_count mm + 1\<rparr>)
   }"

definition mm_destroy :: "mm_struct \<Rightarrow> mm_struct option" where
  "mm_destroy mm = do { kassert (mm_cnt mm = 0); Some (mm\<lparr>mmap_list := []\<rparr>) }"

definition mm_map :: "bool \<Rightarrow> mm_struct option \<Rightarrow> u32 \<Rightarrow> u32 \<Rightarrow> u32 \<Rightarrow> (int \<times> vma_struct option \<times> mm_struct option) option" where
  "mm_map ok mmp addr len flags =
     (let start = ROUNDDOWN addr PGSIZE; end = ROUNDUP (addr + len) PGSIZE in
      if \<not> USER_ACCESS start end then Some (- E_INVAL, None, mmp)
      else do {
        mm \<leftarrow> mmp;
        let (v, mm) = find_vma start mm;
        if (case v of Some x \<Rightarrow> end > vm_start x | None \<Rightarrow> False) then Some (- E_INVAL, None, Some mm)
        else (case vma_create ok start end flags of
          None \<Rightarrow> Some (- E_NO_MEM, None, Some mm)
        | Some x \<Rightarrow> do {
            mm \<leftarrow> insert_vma_struct x mm;
            Some (0, Some x, Some mm) })
      })"

section \<open>Checks of user memory\<close>

lemma find_vma_in:
  assumes "fst (find_vma addr mm) = Some v"
  shows "in_vma addr v"
proof (cases "case mmap_cache mm of Some v \<Rightarrow> vm_start v \<le> addr \<and> vm_end v > addr | None \<Rightarrow> False")
  case True
  then show ?thesis
    using assms by (auto simp: find_vma_def Let_def in_vma_def split: option.splits)
next
  case False
  then have "find (in_vma addr) (mmap_list mm) = Some v"
    using assms by (simp add: find_vma_def Let_def)
  then show ?thesis by (auto simp: find_Some_iff)
qed

text \<open>The loop of \<open>user_mem_check\<close>; each round moves \<open>start\<close> to the end of the area that contains it.\<close>

function user_mem_loop :: "u32 \<Rightarrow> u32 \<Rightarrow> bool \<Rightarrow> mm_struct \<Rightarrow> bool \<times> mm_struct" where
  "user_mem_loop start end write mm =
     (if start < end then
        (case find_vma start mm of
           (None, mm) \<Rightarrow> (False, mm)
         | (Some v, mm) \<Rightarrow>
             if start < vm_start v then (False, mm)
             else if vm_flags v AND (if write then VM_WRITE else VM_READ) = 0 then (False, mm)
             else if write \<and> vm_flags v AND VM_STACK \<noteq> 0 \<and> start < vm_start v + PGSIZE then (False, mm)
             else user_mem_loop (vm_end v) end write mm)
      else (True, mm))"
  by auto
termination
proof (relation "measure (\<lambda>(start, stop, _, _). unat stop - unat start)")
  fix start stop :: u32 and wr mm x1 x2 v
  assume a: "start < stop" "(x1, x2) = find_vma start mm" "x1 = Some v"
  then have "in_vma start v" using find_vma_in [of start mm v] by (metis fst_conv)
  then show "((vm_end v, stop, wr, x2), (start, stop, wr, mm)) \<in> measure (\<lambda>(start, stop, _, _). unat stop - unat start)"
    using a(1) by (auto simp: in_vma_def word_less_nat_alt)
qed auto

declare user_mem_loop.simps [simp del]

definition user_mem_check :: "mm_struct option \<Rightarrow> u32 \<Rightarrow> u32 \<Rightarrow> bool \<Rightarrow> bool \<times> mm_struct option" where
  "user_mem_check mmp addr len write = (case mmp of
     Some mm \<Rightarrow> (if \<not> USER_ACCESS addr (addr + len) then (False, mmp)
                 else let (r, mm) = user_mem_loop addr (addr + len) write mm in (r, Some mm))
   | None \<Rightarrow> (KERN_ACCESS addr (addr + len), mmp))"

section \<open>Copying\<close>

definition copy_from_user :: "mm_struct option \<Rightarrow> u32 \<Rightarrow> u32 \<Rightarrow> u32 \<Rightarrow> bool \<Rightarrow> (u32 \<Rightarrow> u8) \<Rightarrow> bool \<times> (u32 \<Rightarrow> u8)" where
  "copy_from_user mmp dst src len writable m =
     (if \<not> fst (user_mem_check mmp src len writable) then (False, m)
      else (True, snd (memcpy dst src len m)))"

definition copy_to_user :: "mm_struct option \<Rightarrow> u32 \<Rightarrow> u32 \<Rightarrow> u32 \<Rightarrow> (u32 \<Rightarrow> u8) \<Rightarrow> bool \<times> (u32 \<Rightarrow> u8)" where
  "copy_to_user mmp dst src len m =
     (if \<not> fst (user_mem_check mmp dst len True) then (False, m)
      else (True, snd (memcpy dst src len m)))"

text \<open>The loop of \<open>copy_string\<close>. The result is the bytes written to \<open>dst\<close> and whether the call succeeded. The
  memory read and the buffer written do not overlap.\<close>

function copy_string_loop :: "(u32 \<Rightarrow> u8) \<Rightarrow> mm_struct option \<Rightarrow> u32 \<Rightarrow> u32 \<Rightarrow> u32 \<Rightarrow> u8 list \<Rightarrow> bool \<times> u8 list" where
  "copy_string_loop m mmp src maxn part acc =
     (let part = (if part > maxn then maxn else part);
          (r, mmp') = user_mem_check mmp src part False in
      if \<not> r then (False, acc)
      else let alen = strnlen_mem m src (unat part) in
        if alen < unat part then (True, acc @ read_mem m src (alen + 1))
        else if part = maxn then (False, acc)
        else copy_string_loop m mmp' (src + part) (maxn - part) PGSIZE (acc @ read_mem m src (unat part)))"
  by auto

termination
proof (relation "measure (\<lambda>(_, _, _, maxn, _, _). unat maxn)")
  fix m :: "u32 \<Rightarrow> u8" and mmp :: "mm_struct option" and src maxn part x :: u32 and acc :: "u8 list" and xa r mmp' n
  assume x: "x = (if maxn < part then maxn else part)" and a: "xa = user_mem_check mmp src x False" "(r, mmp') = xa" "\<not> \<not> r"
    and ne: "x \<noteq> maxn"
  have "fst (user_mem_check mmp src x False)" using a by (metis fst_conv)
  then have "x \<noteq> 0"
    by (auto simp: user_mem_check_def USER_ACCESS_def KERN_ACCESS_def split: option.splits if_splits)
  moreover have "x \<le> maxn" using x by (auto split: if_splits)
  ultimately have "unat (maxn - x) < unat maxn"
    using unat_sub [of x maxn] unat_gt_0 [of x] by (simp add: word_le_nat_alt)
  then show "((m, mmp', src + x, maxn - x, PGSIZE, acc @ read_mem m src (unat x)), m, mmp, src, maxn, part, acc)
    \<in> measure (\<lambda>(_, _, _, maxn, _, _). unat maxn)" by simp
qed simp

declare copy_string_loop.simps [simp del]

definition copy_string :: "(u32 \<Rightarrow> u8) \<Rightarrow> mm_struct option \<Rightarrow> u32 \<Rightarrow> u32 \<Rightarrow> bool \<times> u8 list" where
  "copy_string m mmp src maxn =
     copy_string_loop m mmp src maxn (ROUNDDOWN (src + PGSIZE) PGSIZE - src) []"

section \<open>The list of areas is sorted and disjoint, and the cache is transparent\<close>

definition mm_wf :: "mm_struct \<Rightarrow> bool" where
  "mm_wf mm \<longleftrightarrow> sorted_wrt (\<lambda>v w. vm_end v \<le> vm_start w) (mmap_list mm) \<and>
     (\<forall>v \<in> set (mmap_list mm). vm_start v < vm_end v) \<and>
     (\<forall>v. mmap_cache mm = Some v \<longrightarrow> v \<in> set (mmap_list mm))"

definition free_range :: "u32 \<Rightarrow> u32 \<Rightarrow> mm_struct \<Rightarrow> bool" where
  "free_range a b mm \<longleftrightarrow> (\<forall>v \<in> set (mmap_list mm). vm_end v \<le> a \<or> b \<le> vm_start v)"

lemma in_vma_unique:
  assumes "sorted_wrt (\<lambda>v w. vm_end v \<le> vm_start w) xs" "v \<in> set xs" "w \<in> set xs" "in_vma a v" "in_vma a w"
  shows "v = w"
  using assms
proof (induction xs)
  case (Cons x xs)
  then show ?case
    by (auto simp: in_vma_def)
qed simp

lemma find_vma_spec:
  assumes wf: "mm_wf mm"
  shows "fst (find_vma a mm) = Some v \<longleftrightarrow> v \<in> set (mmap_list mm) \<and> in_vma a v"
proof -
  let ?c = "case mmap_cache mm of Some v \<Rightarrow> vm_start v \<le> a \<and> vm_end v > a | None \<Rightarrow> False"
  have srt: "sorted_wrt (\<lambda>v w. vm_end v \<le> vm_start w) (mmap_list mm)" using wf by (simp add: mm_wf_def)
  show ?thesis
  proof (cases ?c)
    case True
    then obtain w where w: "mmap_cache mm = Some w" "in_vma a w" "w \<in> set (mmap_list mm)"
      using wf by (auto simp: mm_wf_def in_vma_def split: option.splits)
    then show ?thesis
      using True in_vma_unique [OF srt, of v w a] by (auto simp: find_vma_def Let_def)
  next
    case False
    then have "fst (find_vma a mm) = find (in_vma a) (mmap_list mm)" by (simp add: find_vma_def Let_def)
    moreover have "find (in_vma a) (mmap_list mm) = Some v \<longleftrightarrow> v \<in> set (mmap_list mm) \<and> in_vma a v"
    proof
      assume "find (in_vma a) (mmap_list mm) = Some v"
      then show "v \<in> set (mmap_list mm) \<and> in_vma a v" by (auto simp: find_Some_iff)
    next
      assume v: "v \<in> set (mmap_list mm) \<and> in_vma a v"
      then obtain w where "find (in_vma a) (mmap_list mm) = Some w"
        by (cases "find (in_vma a) (mmap_list mm)") (auto simp: find_None_iff)
      moreover from this have "w \<in> set (mmap_list mm) \<and> in_vma a w" by (auto simp: find_Some_iff)
      ultimately show "find (in_vma a) (mmap_list mm) = Some v"
        using in_vma_unique [OF srt, of v w a] v by auto
    qed
    ultimately show ?thesis by simp
  qed
qed

lemma find_vma_wf:
  assumes "mm_wf mm" shows "mm_wf (snd (find_vma a mm))" "mmap_list (snd (find_vma a mm)) = mmap_list mm"
    "map_count (snd (find_vma a mm)) = map_count mm"
proof -
  have "fst (find_vma a mm) = Some v \<Longrightarrow> v \<in> set (mmap_list mm)" for v
    using find_vma_spec [OF assms] by blast
  then show "mm_wf (snd (find_vma a mm))"
    using assms by (auto simp: mm_wf_def find_vma_def Let_def split: if_splits)
qed (simp_all add: find_vma_def Let_def)

lemma insert_vma_ok:
  assumes wf: "mm_wf mm" and v: "vm_start v < vm_end v" and free: "free_range (vm_start v) (vm_end v) mm"
  shows "\<exists>mm'. insert_vma_struct v mm = Some mm' \<and> mm_wf mm' \<and> set (mmap_list mm') = insert v (set (mmap_list mm)) \<and>
    length (mmap_list mm') = Suc (length (mmap_list mm)) \<and> map_count mm' = map_count mm + 1"
proof -
  let ?P = "\<lambda>x. \<not> vm_start x > vm_start v"
  let ?b = "takeWhile ?P (mmap_list mm)" and ?a = "dropWhile ?P (mmap_list mm)"
  have split: "mmap_list mm = ?b @ ?a" by simp
  have srt: "sorted_wrt (\<lambda>v w. vm_end v \<le> vm_start w) (?b @ ?a)" and ne: "\<forall>x \<in> set (mmap_list mm). vm_start x < vm_end x"
    using wf by (auto simp: mm_wf_def)
  have mem: "x \<in> set ?b \<Longrightarrow> x \<in> set (mmap_list mm)" "x \<in> set ?a \<Longrightarrow> x \<in> set (mmap_list mm)" for x
    by (auto dest: set_takeWhileD set_dropWhileD)
  have before: "vm_end x \<le> vm_start v" if "x \<in> set ?b" for x
  proof -
    have "vm_start x \<le> vm_start v" using set_takeWhileD [OF that] by auto
    moreover have "vm_end x \<le> vm_start v \<or> vm_end v \<le> vm_start x"
      using free mem(1) [OF that] by (auto simp: free_range_def)
    ultimately show ?thesis using v by auto
  qed
  have after: "vm_end v \<le> vm_start x" if x: "x \<in> set ?a" for x
  proof (cases ?a)
    case (Cons y ys)
    have y: "vm_start v < vm_start y" using hd_dropWhile [of ?P "mmap_list mm"] Cons by auto
    have "vm_start y \<le> vm_start x"
    proof (cases "x = y")
      case False
      then have "vm_end y \<le> vm_start x" using srt x Cons by (auto simp: sorted_wrt_append)
      moreover have "vm_start y < vm_end y" using ne mem(2) [of y] Cons by simp
      ultimately show ?thesis by auto
    qed simp
    with y have "vm_start v < vm_start x" by auto
    moreover have "vm_start x < vm_end x" using ne mem(2) [OF x] by simp
    ultimately show ?thesis using free mem(2) [OF x] by (auto simp: free_range_def)
  next
    case Nil
    have False using x unfolding Nil by simp
    then show ?thesis ..
  qed
  have c1: "(if ?b \<noteq> [] then check_vma_overlap (last ?b) v else Some ()) = Some ()"
    using before [of "last ?b"] ne mem(1) [of "last ?b"] v by (auto simp: check_vma_overlap_def)
  have c2: "(case ?a of [] \<Rightarrow> Some () | x # _ \<Rightarrow> check_vma_overlap v x) = Some ()"
  proof (cases ?a)
    case Nil
    show ?thesis unfolding Nil by simp
  next
    case (Cons x xs)
    have x: "x \<in> set ?a" unfolding Cons by simp
    have "vm_end v \<le> vm_start x" "vm_start x < vm_end x" using after [OF x] ne mem(2) [OF x] by simp_all
    then show ?thesis unfolding Cons using v by (simp add: check_vma_overlap_def)
  qed
  let ?mm = "mm\<lparr>mmap_list := ?b @ v # ?a, map_count := map_count mm + 1\<rparr>"
  have "insert_vma_struct v mm = Some ?mm"
    unfolding insert_vma_struct_def Let_def c1 c2 using v by simp
  moreover have sets: "set (?b @ v # ?a) = insert v (set (mmap_list mm))"
  proof -
    have "set (mmap_list mm) = set ?b \<union> set ?a" by (metis set_append split)
    then show ?thesis by auto
  qed
  moreover have "sorted_wrt (\<lambda>v w. vm_end v \<le> vm_start w) (?b @ v # ?a)"
    using srt [unfolded sorted_wrt_append] before after unfolding sorted_wrt_append sorted_wrt.simps by auto
  moreover have "mm_wf ?mm"
    unfolding mm_wf_def using calculation wf v ne by (auto simp: mm_wf_def simp del: Un_iff)
  moreover have "length (?b @ v # ?a) = Suc (length (mmap_list mm))"
    by (metis split add_Suc_right length_Cons length_append)
  ultimately show ?thesis by auto
qed

section \<open>User pointer checks are exact\<close>

text \<open>What a user access may touch: an area with the permission, and for writes to the stack area not its
  lowest page.\<close>

definition accessible :: "mm_struct \<Rightarrow> bool \<Rightarrow> u32 \<Rightarrow> bool" where
  "accessible mm wr a \<longleftrightarrow> (\<exists>v \<in> set (mmap_list mm). in_vma a v \<and>
     vm_flags v AND (if wr then VM_WRITE else VM_READ) \<noteq> 0 \<and>
     (wr \<and> vm_flags v AND VM_STACK \<noteq> 0 \<longrightarrow> vm_start v + PGSIZE \<le> a))"

lemma user_mem_loop_ok:
  "mm_wf mm \<Longrightarrow> stop \<le> USERTOP \<Longrightarrow>
     fst (user_mem_loop start stop wr mm) = (\<forall>a. start \<le> a \<and> a < stop \<longrightarrow> accessible mm wr a) \<and>
     mm_wf (snd (user_mem_loop start stop wr mm)) \<and> mmap_list (snd (user_mem_loop start stop wr mm)) = mmap_list mm"
proof (induction start stop wr mm rule: user_mem_loop.induct)
  case (1 start stop wr mm)
  obtain r mm1 where f: "find_vma start mm = (r, mm1)" by fastforce
  have mm1: "mm_wf mm1" "mmap_list mm1 = mmap_list mm"
    using find_vma_wf [OF 1(2), of start] f by auto
  have spec: "\<And>v. r = Some v \<longleftrightarrow> v \<in> set (mmap_list mm) \<and> in_vma start v"
    using find_vma_spec [OF 1(2), of start] f by simp
  have acc: "accessible mm1 wr a = accessible mm wr a" for a using mm1(2) by (simp add: accessible_def)
  show ?case
  proof (cases "start < stop")
    case False
    then show ?thesis using 1(2) by (subst (1 2 3) user_mem_loop.simps) auto
  next
    case lt: True
    show ?thesis
    proof (cases r)
      case None
      then have "\<not> accessible mm wr start" using spec by (auto simp: accessible_def)
      then show ?thesis using lt f None mm1 by (subst (1 2 3) user_mem_loop.simps) auto
    next
      case (Some v)
      have v: "v \<in> set (mmap_list mm)" "in_vma start v" using spec Some by auto
      have uniq: "w = v" if "w \<in> set (mmap_list mm)" "in_vma start w" for w
        using in_vma_unique [of "mmap_list mm" w v start] that v 1(2) by (simp add: mm_wf_def)
      let ?bad = "vm_flags v AND (if wr then VM_WRITE else VM_READ) = 0 \<or>
         (wr \<and> vm_flags v AND VM_STACK \<noteq> 0 \<and> start < vm_start v + PGSIZE)"
      show ?thesis
      proof (cases ?bad)
        case True
        then have "\<not> accessible mm wr start" using uniq by (auto simp: accessible_def)
        then show ?thesis using lt f Some mm1 True v(2)
          by (subst (1 2 3) user_mem_loop.simps) (auto simp: in_vma_def)
      next
        case ok: False
        have ns: "\<not> start < vm_start v" using v(2) by (auto simp: in_vma_def)
        have eq: "user_mem_loop start stop wr mm = user_mem_loop (vm_end v) stop wr mm1"
          using lt f Some ok ns by (subst user_mem_loop.simps) auto
        have here: "accessible mm wr a" if "start \<le> a" "a < vm_end v" for a
          unfolding accessible_def using v ok that by (intro bexI [of _ v]) (auto simp: in_vma_def)
        have IH: "fst (user_mem_loop (vm_end v) stop wr mm1) = (\<forall>a. vm_end v \<le> a \<and> a < stop \<longrightarrow> accessible mm wr a) \<and>
          mm_wf (snd (user_mem_loop (vm_end v) stop wr mm1)) \<and> mmap_list (snd (user_mem_loop (vm_end v) stop wr mm1)) = mmap_list mm"
          using 1(1) [OF lt f [symmetric] Some ns _ _ mm1(1) 1(3)] ok mm1(2) unfolding acc by auto
        have "start < vm_end v" using v(2) by (simp add: in_vma_def)
        then have "(\<forall>a. vm_end v \<le> a \<and> a < stop \<longrightarrow> accessible mm wr a) = (\<forall>a. start \<le> a \<and> a < stop \<longrightarrow> accessible mm wr a)"
          using here by (meson leI order_trans less_imp_le)
        with IH eq show ?thesis by simp
      qed
    qed
  qed
qed

lemma user_mem_check_ok:
  assumes "mm_wf mm"
  shows "fst (user_mem_check (Some mm) addr len wr) =
      (USER_ACCESS addr (addr + len) \<and> (\<forall>a. addr \<le> a \<and> a < addr + len \<longrightarrow> accessible mm wr a))"
    and "\<exists>mm'. snd (user_mem_check (Some mm) addr len wr) = Some mm' \<and> mm_wf mm' \<and> mmap_list mm' = mmap_list mm"
  using user_mem_loop_ok [OF assms, of "addr + len" addr wr] assms
  by (auto simp: user_mem_check_def USER_ACCESS_def split: prod.splits)

section \<open>Mapping and copying\<close>

lemma insert_vma_panics:
  assumes wf: "mm_wf mm" and v: "vm_start v < vm_end v" and out: "\<forall>x \<in> set (mmap_list mm). \<not> in_vma (vm_start v) x"
    and nf: "\<not> free_range (vm_start v) (vm_end v) mm"
  shows "insert_vma_struct v mm = None"
proof -
  let ?P = "\<lambda>x. \<not> vm_start x > vm_start v"
  let ?b = "takeWhile ?P (mmap_list mm)" and ?a = "dropWhile ?P (mmap_list mm)"
  have split: "mmap_list mm = ?b @ ?a" by simp
  obtain x where x: "x \<in> set (mmap_list mm)" "vm_start v < vm_end x" "vm_start x < vm_end v"
    using nf by (auto simp: free_range_def)
  have above: "vm_start v < vm_start x" using out x by (auto simp: in_vma_def)
  have "x \<notin> set ?b" using above by (auto dest: set_takeWhileD)
  moreover have "x \<in> set ?b \<or> x \<in> set ?a" using x(1) by (metis UnE set_append split)
  ultimately have xa: "x \<in> set ?a" by blast
  then have "?a \<noteq> []" by force
  then obtain y ys where Cons: "?a = y # ys" by (meson neq_Nil_conv)
  have srt: "sorted_wrt (\<lambda>v w. vm_end v \<le> vm_start w) (?b @ ?a)" and ne: "\<forall>x \<in> set (mmap_list mm). vm_start x < vm_end x"
    using wf by (auto simp: mm_wf_def)
  have "y \<in> set (mmap_list mm)" using Cons by (metis list.set_intros(1) set_dropWhileD)
  then have y: "vm_start y < vm_end y" using ne by blast
  have "vm_end y \<le> vm_start x" if "x \<noteq> y"
    using srt xa that unfolding Cons by (auto simp: sorted_wrt_append)
  then have "vm_start y \<le> vm_start x" using y by (cases "x = y") auto
  then have "\<not> vm_end v \<le> vm_start y" using x(3) by auto
  then have c: "(case ?a of [] \<Rightarrow> Some () | x # _ \<Rightarrow> check_vma_overlap v x) = None"
    unfolding Cons using v by (simp add: check_vma_overlap_def)
  show ?thesis
    unfolding insert_vma_struct_def Let_def c using v by (simp add: bind_eq_None_conv)
qed

lemma accessible_range:
  assumes "mm_wf mm" "fst (user_mem_check (Some mm) src part wr)" "i < unat part"
  shows "accessible mm wr (src + of_nat i)"
proof -
  have ua: "USER_ACCESS src (src + part)" and acc: "\<And>a. src \<le> a \<Longrightarrow> a < src + part \<Longrightarrow> accessible mm wr a"
    using user_mem_check_ok(1) [OF assms(1)] assms(2) by auto
  have "src < src + part" using ua by (simp add: USER_ACCESS_def)
  then have nw: "unat (src + part) = unat src + unat part"
    by (simp add: unat_plus_simple [symmetric] less_imp_le)
  have bnd: "unat (src + part) < 2 ^ 32" by (rule unat_bound32)
  have "unat (src + of_nat i) = unat src + i"
    using assms(3) nw bnd by (subst unat_add_no_wrap) (auto simp: unat_of_nat_small)
  then show ?thesis using nw assms(3) by (intro acc) (auto simp: word_le_nat_alt word_less_nat_alt)
qed

lemma copy_string_loop_sound:
  "mm_wf mm \<Longrightarrow> copy_string_loop m (Some mm) src maxn part acc = (True, bytes) \<Longrightarrow>
   \<exists>n < unat maxn. string_at m src n \<and> bytes = acc @ read_mem m src (n + 1) \<and>
     (\<forall>i \<le> n. accessible mm False (src + of_nat i))"
proof (induction m "Some mm" src maxn part acc arbitrary: mm rule: copy_string_loop.induct)
  case (1 m src maxn part acc mm)
  let ?p = "if part > maxn then maxn else part"
  let ?l = "strnlen_mem m src (unat ?p)"
  have le: "unat ?p \<le> unat maxn" by (auto simp: word_less_nat_alt)
  obtain mm' where mm': "snd (user_mem_check (Some mm) src ?p False) = Some mm'" "mm_wf mm'" "mmap_list mm' = mmap_list mm"
    using user_mem_check_ok(2) [OF 1(2)] by blast
  have r: "fst (user_mem_check (Some mm) src ?p False)"
    using 1(3) by (subst (asm) copy_string_loop.simps) (auto simp: Let_def split: prod.splits if_splits)
  have chk: "user_mem_check (Some mm) src ?p False = (True, Some mm')" using r mm'(1) by (metis prod.collapse)
  have acc: "accessible mm False (src + of_nat i)" if "i < unat ?p" for i
    using accessible_range [OF 1(2) r that] .
  show ?case
  proof (cases "?l < unat ?p")
    case True
    then have "bytes = acc @ read_mem m src (?l + 1)"
      using 1(3) chk by (subst (asm) copy_string_loop.simps) (auto simp: Let_def)
    moreover have "string_at m src ?l" using strnlen_mem_ok [of m src "unat ?p"] True by (simp add: string_at_def)
    ultimately show ?thesis using True le acc by (intro exI [of _ ?l]) auto
  next
    case False
    then have l: "?l = unat ?p" using strnlen_mem_ok [of m src "unat ?p"] by auto
    have ne: "?p \<noteq> maxn" and eq: "copy_string_loop m (Some mm') (src + ?p) (maxn - ?p) PGSIZE (acc @ read_mem m src (unat ?p)) = (True, bytes)"
      using 1(3) chk False by (subst (asm) copy_string_loop.simps; auto simp: Let_def split: if_splits)+
    obtain n where n: "n < unat (maxn - ?p)" "string_at m (src + ?p) n"
      "bytes = (acc @ read_mem m src (unat ?p)) @ read_mem m (src + ?p) (n + 1)"
      "\<forall>i \<le> n. accessible mm' False (src + ?p + of_nat i)"
      using 1(1) [OF refl chk [symmetric] refl _ refl False ne mm'(2) eq] by auto
    have nz: "\<forall>i < unat ?p. m (src + of_nat i) \<noteq> 0" using strnlen_mem_ok [of m src "unat ?p"] l by auto
    have "string_at m src (unat ?p + n)" using string_at_shift [OF nz] n(2) by simp
    moreover have "bytes = acc @ read_mem m src (unat ?p + n + 1)"
      using n(3) read_mem_append [of m src "unat ?p" "n + 1"] by simp
    moreover have "unat ?p + n < unat maxn" using n(1) le by (simp add: unat_sub word_le_nat_alt)
    moreover have "accessible mm False (src + of_nat i)" if "i \<le> unat ?p + n" for i
    proof (cases "i < unat ?p")
      case False
      then have "accessible mm' False (src + ?p + of_nat (i - unat ?p))" using n(4) [rule_format, of "i - unat ?p"] that by simp
      moreover have "src + ?p + of_nat (i - unat ?p) = src + of_nat i"
        using False by (simp only: of_nat_diff not_less of_nat_unat ucast_id) simp
      ultimately show ?thesis using mm'(3) by (simp add: accessible_def)
    qed (rule acc)
    ultimately show ?thesis by blast
  qed
qed

lemma user_mem_check_part:
  assumes wf: "mm_wf mm" and chk: "fst (user_mem_check (Some mm) src maxn wr)"
  shows "0 < p \<Longrightarrow> p \<le> maxn \<Longrightarrow> fst (user_mem_check (Some mm) src p wr)"
    and "p < maxn \<Longrightarrow> fst (user_mem_check (Some mm) (src + p) (maxn - p) wr)"
proof -
  have ua: "USER_ACCESS src (src + maxn)" and acc: "\<And>a. src \<le> a \<Longrightarrow> a < src + maxn \<Longrightarrow> accessible mm wr a"
    using user_mem_check_ok(1) [OF wf] chk by auto
  have "src \<le> src + maxn" using ua unfolding USER_ACCESS_def by (blast intro: less_imp_le)
  then have nw: "unat (src + maxn) = unat src + unat maxn" by (simp add: unat_plus_simple [symmetric])
  have bnd: "unat (src + maxn) < 2 ^ 32" by (rule unat_bound32)
  have sp: "unat (src + p) = unat src + unat p" if "p \<le> maxn"
    using that nw bnd by (intro unat_add_no_wrap) (simp add: word_le_nat_alt)
  show "fst (user_mem_check (Some mm) src p wr)" if p: "0 < p" "p \<le> maxn"
  proof -
    have "src < src + p" "src + p \<le> src + maxn"
      using p sp nw by (simp_all add: word_less_nat_alt word_le_nat_alt)
    then show ?thesis
      unfolding user_mem_check_ok(1) [OF wf] using ua acc by (auto simp: USER_ACCESS_def)
  qed
  show "fst (user_mem_check (Some mm) (src + p) (maxn - p) wr)" if p: "p < maxn"
  proof -
    have "src \<le> src + p" "src + p < src + maxn"
      using p sp nw by (simp_all add: word_less_nat_alt word_le_nat_alt)
    then show ?thesis
      unfolding user_mem_check_ok(1) [OF wf] using ua acc by (auto simp: USER_ACCESS_def)
  qed
qed

lemma copy_string_loop_complete:
  "mm_wf mm \<Longrightarrow> fst (user_mem_check (Some mm) src maxn False) \<Longrightarrow> part \<noteq> 0 \<Longrightarrow> string_at m src n \<Longrightarrow> n < unat maxn \<Longrightarrow>
   fst (copy_string_loop m (Some mm) src maxn part acc)"
proof (induction m "Some mm" src maxn part acc arbitrary: mm n rule: copy_string_loop.induct)
  case (1 m src maxn part acc mm n)
  let ?p = "if part > maxn then maxn else part"
  let ?l = "strnlen_mem m src (unat ?p)"
  have mx: "0 < maxn" using 1(6) by (simp add: word_less_nat_alt)
  have p: "0 < ?p" "?p \<le> maxn" using mx 1(4) by (auto simp: word_neq_0_conv)
  have r: "fst (user_mem_check (Some mm) src ?p False)" by (rule user_mem_check_part(1) [OF 1(2,3) p])
  obtain mm' where mm': "snd (user_mem_check (Some mm) src ?p False) = Some mm'" "mm_wf mm'" "mmap_list mm' = mmap_list mm"
    using user_mem_check_ok(2) [OF 1(2)] by blast
  have chk: "user_mem_check (Some mm) src ?p False = (True, Some mm')" using r mm'(1) by (metis prod.collapse)
  show ?case
  proof (cases "?l < unat ?p")
    case True
    then show ?thesis using chk by (subst copy_string_loop.simps) (auto simp: Let_def)
  next
    case False
    then have l: "?l = unat ?p" using strnlen_mem_ok [of m src "unat ?p"] by auto
    have nz: "\<forall>i < unat ?p. m (src + of_nat i) \<noteq> 0" using strnlen_mem_ok [of m src "unat ?p"] l by auto
    have n: "unat ?p \<le> n" using nz 1(5) by (meson not_less string_at_def)
    then have lt: "?p < maxn" using 1(6) by (simp only: word_less_nat_alt)
    have "fst (user_mem_check (Some mm) (src + ?p) (maxn - ?p) False)"
      by (rule user_mem_check_part(2) [OF 1(2,3) lt])
    then have c: "fst (user_mem_check (Some mm') (src + ?p) (maxn - ?p) False)"
      unfolding user_mem_check_ok(1) [OF 1(2)] user_mem_check_ok(1) [OF mm'(2)] accessible_def mm'(3) by blast
    have s: "string_at m (src + ?p) (n - unat ?p)"
      using string_at_shift [OF nz, of "n - unat ?p"] 1(5) n by simp
    have b: "n - unat ?p < unat (maxn - ?p)"
      using 1(6) n p(2) by (simp only: unat_sub)
    have "PGSIZE \<noteq> 0" by (simp add: PGSIZE_def)
    note IH = 1(1) [OF refl chk [symmetric] refl _ refl False _ mm'(2) c this s b]
    have "fst (copy_string_loop m (Some mm') (src + ?p) (maxn - ?p) PGSIZE (acc @ read_mem m src (unat ?p)))"
      using lt by (intro IH) auto
    then show ?thesis using chk False lt by (subst copy_string_loop.simps) (auto simp: Let_def)
  qed
qed

section \<open>The interface of an address space\<close>

text \<open>What the rest of the kernel uses of the list of areas: adding an area to a free range succeeds and adds it.
  Adding several areas that are disjoint from each other and from the ones present then succeeds too, whatever
  the order.\<close>

locale area_map =
  fixes inv :: "'m \<Rightarrow> bool" and areas :: "'m \<Rightarrow> 'v set" and add :: "'v \<Rightarrow> 'm \<Rightarrow> 'm option"
    and good :: "'v \<Rightarrow> bool" and apart :: "'v \<Rightarrow> 'v \<Rightarrow> bool"
  assumes add_ok: "inv m \<Longrightarrow> good v \<Longrightarrow> \<forall>w \<in> areas m. apart v w \<Longrightarrow>
      \<exists>m'. add v m = Some m' \<and> inv m' \<and> areas m' = insert v (areas m)"
    and apart_sym: "apart v w \<Longrightarrow> apart w v"
begin

fun add_all :: "'v list \<Rightarrow> 'm \<Rightarrow> 'm option" where
  "add_all [] m = Some m"
| "add_all (v # vs) m = Option.bind (add v m) (add_all vs)"

lemma add_all_ok:
  "inv m \<Longrightarrow> \<forall>v \<in> set vs. good v \<Longrightarrow> sorted_wrt apart vs \<Longrightarrow> \<forall>v \<in> set vs. \<forall>w \<in> areas m. apart v w \<Longrightarrow>
   \<exists>m'. add_all vs m = Some m' \<and> inv m' \<and> areas m' = areas m \<union> set vs"
proof (induction vs arbitrary: m)
  case (Cons v vs)
  obtain m1 where m1: "add v m = Some m1" "inv m1" "areas m1 = insert v (areas m)"
    using add_ok [of m v] Cons.prems by auto
  have "\<exists>m'. add_all vs m1 = Some m' \<and> inv m' \<and> areas m' = areas m1 \<union> set vs"
    by (rule Cons.IH [OF m1(2)]) (use Cons.prems m1(3) apart_sym in auto)
  then show ?case using m1 by auto
qed simp

end

definition apart_vma :: "vma_struct \<Rightarrow> vma_struct \<Rightarrow> bool" where
  "apart_vma v w \<longleftrightarrow> vm_end w \<le> vm_start v \<or> vm_end v \<le> vm_start w"

interpretation vm: area_map mm_wf "\<lambda>mm. set (mmap_list mm)" insert_vma_struct "\<lambda>v. vm_start v < vm_end v" apart_vma
proof
  fix m v assume "mm_wf m" "vm_start v < vm_end v" "\<forall>w \<in> set (mmap_list m). apart_vma v w"
  then show "\<exists>m'. insert_vma_struct v m = Some m' \<and> mm_wf m' \<and> set (mmap_list m') = insert v (set (mmap_list m))"
    using insert_vma_ok [of m v] by (auto simp: free_range_def apart_vma_def)
qed (auto simp: apart_vma_def)

section \<open>Properties\<close>

text \<open>
  C24: the list of areas behaves as a map from addresses to areas. Inserting a non-empty area whose range is free
  succeeds, keeps the list sorted and disjoint, and afterwards \<open>find_vma\<close> returns it for exactly its own
  addresses and is unchanged elsewhere; the one-entry cache that \<open>find_vma\<close> updates is never observable.
\<close>

theorem insert_vma_find:
  assumes "mm_wf mm" "vm_start v < vm_end v" "free_range (vm_start v) (vm_end v) mm"
  shows "\<exists>mm'. insert_vma_struct v mm = Some mm' \<and> mm_wf mm' \<and> map_count mm' = map_count mm + 1 \<and>
    (\<forall>a. fst (find_vma a mm') = (if in_vma a v then Some v else fst (find_vma a mm))) \<and>
    (\<forall>a b. mm_wf (snd (find_vma b mm')) \<and> fst (find_vma a (snd (find_vma b mm'))) = fst (find_vma a mm'))"
proof -
  obtain mm' where mm': "insert_vma_struct v mm = Some mm'" "mm_wf mm'" "set (mmap_list mm') = insert v (set (mmap_list mm))"
    "map_count mm' = map_count mm + 1"
    using insert_vma_ok [OF assms] by blast
  have "fst (find_vma a mm') = (if in_vma a v then Some v else fst (find_vma a mm))" for a
  proof (cases "in_vma a v")
    case True
    then show ?thesis using find_vma_spec [OF mm'(2), of a v] mm'(3) by simp
  next
    case False
    then have "fst (find_vma a mm') = Some w \<longleftrightarrow> fst (find_vma a mm) = Some w" for w
      unfolding find_vma_spec [OF mm'(2)] find_vma_spec [OF assms(1)] mm'(3) by auto
    then show ?thesis using False by (metis option.exhaust)
  qed
  moreover have "mm_wf (snd (find_vma b mm')) \<and> fst (find_vma a (snd (find_vma b mm'))) = fst (find_vma a mm')" for a b
  proof -
    note wf = find_vma_wf [OF mm'(2), of b]
    have "fst (find_vma a (snd (find_vma b mm'))) = Some w \<longleftrightarrow> fst (find_vma a mm') = Some w" for w
      unfolding find_vma_spec [OF wf(1)] find_vma_spec [OF mm'(2)] wf(2) ..
    then show ?thesis using wf(1) by (metis option.exhaust)
  qed
  ultimately show ?thesis using mm' by blast
qed

definition demo_vma :: vma_struct where
  "demo_vma = \<lparr>vm_start = 0x400000, vm_end = 0x402000, vm_flags = VM_READ OR VM_WRITE\<rparr>"

definition demo_mm :: mm_struct where
  "demo_mm = \<lparr>mmap_list = [demo_vma], mmap_cache = None, pgdir = 0, map_count = 1, sm_priv = False, mm_cnt = 1, mm_sem = 1\<rparr>"

lemma demo_mm_wf: "mm_wf demo_mm"
  by (simp add: mm_wf_def demo_mm_def demo_vma_def)

theorem insert_vma_find_witness:
  "\<exists>mm'. insert_vma_struct \<lparr>vm_start = 0x500000, vm_end = 0x501000, vm_flags = VM_READ\<rparr> demo_mm = Some mm' \<and>
     fst (find_vma 0x500010 mm') = Some \<lparr>vm_start = 0x500000, vm_end = 0x501000, vm_flags = VM_READ\<rparr>"
proof -
  have "free_range 0x500000 0x501000 demo_mm" by (simp add: free_range_def demo_mm_def demo_vma_def)
  then show ?thesis
    using insert_vma_find [OF demo_mm_wf, of "\<lparr>vm_start = 0x500000, vm_end = 0x501000, vm_flags = VM_READ\<rparr>"]
    by (auto simp: in_vma_def)
qed

text \<open>
  C23: the check of a user pointer is exact. With an address space, \<open>user_mem_check\<close> terminates and answers yes
  if and only if the range is inside the user addresses and does not wrap, and every single address of it lies in
  an area with the permission asked for, and for a write to a stack area not in its lowest page. The kernel (no
  address space) may access exactly the non-empty ranges of its own mapping.
\<close>

theorem user_mem_check_exact:
  assumes "mm_wf mm"
  shows "(fst (user_mem_check (Some mm) addr len wr) \<longleftrightarrow>
      USER_ACCESS addr (addr + len) \<and> (\<forall>a. addr \<le> a \<and> a < addr + len \<longrightarrow> accessible mm wr a)) \<and>
    (fst (user_mem_check None addr len wr) \<longleftrightarrow> KERN_ACCESS addr (addr + len))"
  using user_mem_check_ok(1) [OF assms] by (simp_all add: user_mem_check_def)

theorem user_mem_check_exact_witness:
  "fst (user_mem_check (Some demo_mm) 0x400ffe 4 True) \<and> \<not> fst (user_mem_check (Some demo_mm) 0x401ffe 4 False)"
proof
  have "accessible demo_mm True a" if "(0x400ffe :: u32) \<le> a" "a < 0x400ffe + 4" for a
  proof -
    have "0x400000 \<le> a" "a < 0x402000" using that by (simp_all add: word_le_nat_alt word_less_nat_alt)
    then show ?thesis
      by (simp add: accessible_def demo_mm_def demo_vma_def in_vma_def VM_WRITE_def VM_READ_def VM_STACK_def)
  qed
  then show "fst (user_mem_check (Some demo_mm) 0x400ffe 4 True)"
    using user_mem_check_exact [OF demo_mm_wf, of "0x400ffe" 4 True] by (simp add: USER_ACCESS_def USERBASE_def USERTOP_def)
  have "\<not> accessible demo_mm False 0x402000"
    by (simp add: accessible_def demo_mm_def demo_vma_def in_vma_def)
  moreover have "(0x401ffe :: u32) \<le> 0x402000 \<and> 0x402000 < (0x401ffe :: u32) + 4" by simp
  ultimately show "\<not> fst (user_mem_check (Some demo_mm) 0x401ffe 4 False)"
    using user_mem_check_exact [OF demo_mm_wf, of "0x401ffe" 4 False] by blast
qed

text \<open>
  C25: what \<open>mm_map\<close> does with the page-rounded range of a request. Outside the user addresses, or when an area
  already contains the first page, it refuses with \<open>-E_INVAL\<close> and the areas stay as they were; without memory
  it refuses with \<open>-E_NO_MEM\<close>; if the whole range is free it adds an area of exactly that range with the flags
  given and returns it. When the first page is free but a later part of the range is taken, nothing is refused: the
  assertion of \<open>insert_vma_struct\<close> stops the kernel.
\<close>

theorem mm_map_correct:
  assumes wf: "mm_wf mm" and s: "s = ROUNDDOWN addr PGSIZE" and e: "e = ROUNDUP (addr + len) PGSIZE"
    and v: "v = \<lparr>vm_start = s, vm_end = e, vm_flags = flags\<rparr>"
  shows "(\<not> USER_ACCESS s e \<longrightarrow> mm_map ok (Some mm) addr len flags = Some (- E_INVAL, None, Some mm)) \<and>
    (USER_ACCESS s e \<and> (\<exists>w \<in> set (mmap_list mm). in_vma s w) \<longrightarrow>
       (\<exists>mm'. mm_map ok (Some mm) addr len flags = Some (- E_INVAL, None, Some mm') \<and> mm_wf mm' \<and> mmap_list mm' = mmap_list mm)) \<and>
    (USER_ACCESS s e \<and> (\<forall>w \<in> set (mmap_list mm). \<not> in_vma s w) \<and> \<not> ok \<longrightarrow>
       (\<exists>mm'. mm_map ok (Some mm) addr len flags = Some (- E_NO_MEM, None, Some mm') \<and> mm_wf mm' \<and> mmap_list mm' = mmap_list mm)) \<and>
    (USER_ACCESS s e \<and> free_range s e mm \<and> ok \<longrightarrow>
       (\<exists>mm'. mm_map ok (Some mm) addr len flags = Some (0, Some v, Some mm') \<and> mm_wf mm' \<and>
          set (mmap_list mm') = insert v (set (mmap_list mm)))) \<and>
    (USER_ACCESS s e \<and> (\<forall>w \<in> set (mmap_list mm). \<not> in_vma s w) \<and> \<not> free_range s e mm \<and> ok \<longrightarrow>
       mm_map ok (Some mm) addr len flags = None)"
proof -
  obtain r mm1 where f: "find_vma s mm = (r, mm1)" by fastforce
  have mm1: "mm_wf mm1" "mmap_list mm1 = mmap_list mm" using find_vma_wf [OF wf, of s] f by auto
  have spec: "r = Some w \<longleftrightarrow> w \<in> set (mmap_list mm) \<and> in_vma s w" for w
    using find_vma_spec [OF wf, of s] f by simp
  have fr: "free_range s e mm1 = free_range s e mm" by (simp add: free_range_def mm1(2))
  have none: "r = None" if "\<forall>w \<in> set (mmap_list mm). \<not> in_vma s w" using spec that by (cases r) auto
  have out: "\<forall>w \<in> set (mmap_list mm). \<not> in_vma s w" if "free_range s e mm" "s < e"
    using that by (fastforce simp: free_range_def in_vma_def)
  note d = mm_map_def Let_def s [symmetric] e [symmetric] f vma_create_def
  have p1: "\<not> USER_ACCESS s e \<Longrightarrow> mm_map ok (Some mm) addr len flags = Some (- E_INVAL, None, Some mm)"
    unfolding d by simp
  have p2: "mm_map ok (Some mm) addr len flags = Some (- E_INVAL, None, Some mm1)"
    if u: "USER_ACCESS s e" and w: "w \<in> set (mmap_list mm)" "in_vma s w" for w
  proof -
    have "r = Some w" using spec w by simp
    moreover have "e > vm_start w" using u w(2) by (auto simp: USER_ACCESS_def in_vma_def)
    ultimately show ?thesis unfolding d using u by (simp add: f)
  qed
  have p3: "mm_map False (Some mm) addr len flags = Some (- E_NO_MEM, None, Some mm1)"
    if "USER_ACCESS s e" "\<forall>w \<in> set (mmap_list mm). \<not> in_vma s w"
    unfolding d using that none by (simp add: f)
  have p4: "mm_map True (Some mm) addr len flags = Option.bind (insert_vma_struct v mm1) (\<lambda>mm'. Some (0, Some v, Some mm'))"
    if "USER_ACCESS s e" "\<forall>w \<in> set (mmap_list mm). \<not> in_vma s w"
    unfolding d v using that none by (simp add: f)
  have p5: "\<exists>mm'. mm_map ok (Some mm) addr len flags = Some (0, Some v, Some mm') \<and> mm_wf mm' \<and>
          set (mmap_list mm') = insert v (set (mmap_list mm))" if h: "USER_ACCESS s e" "free_range s e mm" ok
  proof -
    have lt: "s < e" using h(1) by (simp add: USER_ACCESS_def)
    obtain mm' where "insert_vma_struct v mm1 = Some mm'" "mm_wf mm'" "set (mmap_list mm') = insert v (set (mmap_list mm1))"
      using insert_vma_ok [OF mm1(1), of v] lt h(2) fr by (auto simp: v)
    then show ?thesis using p4 [OF h(1) out [OF h(2) lt]] h(3) mm1(2) by simp
  qed
  have p6: "mm_map ok (Some mm) addr len flags = None"
    if h: "USER_ACCESS s e" "\<forall>w \<in> set (mmap_list mm). \<not> in_vma s w" "\<not> free_range s e mm" ok
  proof -
    have "insert_vma_struct v mm1 = None"
      using insert_vma_panics [OF mm1(1), of v] h fr mm1(2) by (simp add: v USER_ACCESS_def)
    then show ?thesis using p4 [OF h(1,2)] h(4) by simp
  qed
  show ?thesis using p1 p2 p3 p5 p6 mm1 by (intro conjI impI) (blast | (cases ok; simp))+
qed

theorem mm_map_correct_witness:
  "(\<exists>mm'. mm_map True (Some demo_mm) 0x500010 8 VM_READ =
      Some (0, Some \<lparr>vm_start = 0x500000, vm_end = 0x501000, vm_flags = VM_READ\<rparr>, Some mm')) \<and>
   mm_map True (Some demo_mm) 0x3ff000 0x2000 VM_READ = None"
proof -
  have r: "ROUNDDOWN 0x500010 PGSIZE = 0x500000" "ROUNDUP (0x500010 + 8) PGSIZE = 0x501000"
    "ROUNDDOWN 0x3ff000 PGSIZE = 0x3ff000" "ROUNDUP (0x3ff000 + 0x2000) PGSIZE = 0x401000"
    by (simp_all add: ROUNDDOWN_def ROUNDUP_def PGSIZE_def)
  have "USER_ACCESS 0x500000 0x501000" "USER_ACCESS 0x3ff000 0x401000"
    by (simp_all add: USER_ACCESS_def USERBASE_def USERTOP_def)
  moreover have "free_range 0x500000 0x501000 demo_mm" "\<not> free_range 0x3ff000 0x401000 demo_mm"
    "\<forall>w \<in> set (mmap_list demo_mm). \<not> in_vma 0x3ff000 w"
    by (simp_all add: free_range_def demo_mm_def demo_vma_def in_vma_def)
  ultimately show ?thesis
    using mm_map_correct [OF demo_mm_wf refl refl refl, where addr = "0x500010" and len = 8 and flags = VM_READ and ok = True]
      mm_map_correct [OF demo_mm_wf refl refl refl, where addr = "0x3ff000" and len = "0x2000" and flags = VM_READ and ok = True]
    unfolding r by blast
qed

text \<open>
  C26: \<open>copy_string\<close> terminates; when it succeeds it has copied exactly the string at \<open>src\<close> with its terminator,
  the string is shorter than the limit, and every byte read was readable by the user. When the whole range of
  \<open>maxn\<close> bytes is readable and holds a terminator, it succeeds.
\<close>

theorem copy_string_correct:
  assumes wf: "mm_wf mm"
  shows "(copy_string m (Some mm) src maxn = (True, bytes) \<longrightarrow>
      (\<exists>n < unat maxn. string_at m src n \<and> bytes = read_mem m src (n + 1) \<and>
         (\<forall>i \<le> n. accessible mm False (src + of_nat i)))) \<and>
    (fst (user_mem_check (Some mm) src maxn False) \<and> string_at m src n \<and> n < unat maxn \<longrightarrow>
       copy_string m (Some mm) src maxn = (True, read_mem m src (n + 1)))"
proof -
  have sound: "\<exists>n < unat maxn. string_at m src n \<and> bytes = read_mem m src (n + 1) \<and>
         (\<forall>i \<le> n. accessible mm False (src + of_nat i))" if "copy_string m (Some mm) src maxn = (True, bytes)" for bytes
    using copy_string_loop_sound [OF wf that [unfolded copy_string_def]] by simp
  have "copy_string m (Some mm) src maxn = (True, read_mem m src (n + 1))"
    if h: "fst (user_mem_check (Some mm) src maxn False)" "string_at m src n" "n < unat maxn"
  proof -
    have "unat src < 2 ^ 31"
      using h(1) unfolding user_mem_check_ok(1) [OF wf] by (auto simp: USER_ACCESS_def USERTOP_def word_le_nat_alt word_less_nat_alt)
    then have "unat (src + PGSIZE) = unat src + 4096" by (subst unat_add_no_wrap) (auto simp: PGSIZE_def)
    then have "unat src < unat (ROUNDDOWN (src + PGSIZE) PGSIZE)"
      using ROUNDDOWN_close [of PGSIZE "src + PGSIZE"] by (simp add: PGSIZE_def)
    then have "ROUNDDOWN (src + PGSIZE) PGSIZE - src \<noteq> 0" by auto
    then have ok: "fst (copy_string m (Some mm) src maxn)"
      unfolding copy_string_def by (rule copy_string_loop_complete [OF wf h(1) _ h(2,3)])
    then obtain bytes where b: "copy_string m (Some mm) src maxn = (True, bytes)" by (metis prod.collapse)
    then obtain k where k: "string_at m src k" "bytes = read_mem m src (k + 1)" using sound by blast
    have "k = n" using k(1) h(2) unfolding string_at_def by (meson nat_neq_iff)
    then show ?thesis using b k(2) by simp
  qed
  then show ?thesis using sound by blast
qed

lemma all_less_two: "(\<forall>i < (2 :: nat). P i) \<longleftrightarrow> P 0 \<and> P 1"
  by (auto simp: less_2_cases_iff)

theorem copy_string_correct_witness:
  "copy_string (\<lambda>a. if a = 0x400ffe then 104 else if a = 0x400fff then 105 else 0) (Some demo_mm) 0x400ffe 8 =
     (True, [104, 105, 0])"
proof -
  let ?m = "\<lambda>a :: u32. if a = 0x400ffe then 104 else if a = 0x400fff then 105 else (0 :: u8)"
  have "accessible demo_mm False a" if "(0x400ffe :: u32) \<le> a" "a < 0x400ffe + 8" for a
  proof -
    have "0x400000 \<le> a" "a < 0x402000" using that by (simp_all add: word_le_nat_alt word_less_nat_alt)
    then show ?thesis
      by (simp add: accessible_def demo_mm_def demo_vma_def in_vma_def VM_WRITE_def VM_READ_def VM_STACK_def)
  qed
  then have "fst (user_mem_check (Some demo_mm) 0x400ffe 8 False)"
    unfolding user_mem_check_ok(1) [OF demo_mm_wf] by (simp add: USER_ACCESS_def USERBASE_def USERTOP_def)
  moreover have "string_at ?m 0x400ffe 2"
    unfolding string_at_def by (simp add: less_2_cases_iff all_less_two)
  ultimately have "copy_string ?m (Some demo_mm) 0x400ffe 8 = (True, read_mem ?m 0x400ffe (2 + 1))"
    using copy_string_correct [OF demo_mm_wf, of ?m "0x400ffe" 8 "[]" 2] by simp
  moreover have "read_mem ?m 0x400ffe (2 + 1) = [104, 105, 0]" by code_simp
  ultimately show ?thesis by simp
qed

end
