(* ===== verification/Page_Table.thy ===== *)
theory Page_Table
  imports Default_Pmm Vma
begin

text \<open>
  Page tables and the pages behind them (\<open>kern/mm/pmm.c\<close>, \<open>kern/mm/pmm.h\<close>) with the part of the TLB driver
  (\<open>kern/mm/tlb.c\<close>) they call.

  The kernel sees physical memory at \<open>KERNBASE\<close>: \<open>kmem\<close> gives the word at a word-aligned kernel address, so a
  \<open>pte_t *\<close> is such an address. A page descriptor is its index in the \<open>pages\<close> array. A failed assertion, a
  \<open>panic\<close>, a store through NULL and a store past the end of an array are all the value \<open>None\<close>. The global
  \<open>check_mm_struct\<close> is NULL, as it is outside the self-tests: when memory runs out with the swap manager on,
  \<open>alloc_pages\<close> calls \<open>swap_out\<close> on the null address space, which faults.
\<close>

section \<open>State\<close>

record tlb_entry =
  entry_hi :: u32
  entry_lo0 :: u32
  entry_lo1 :: u32

record vmsys =
  pm :: pmm
  npage :: nat
  kmem :: "u32 \<Rightarrow> u32"
  swap_init_ok :: bool
  cur_pgdir :: u32
  tlb :: "nat \<Rightarrow> tlb_entry"
  tlb_algo_empty :: "nat list"
  tlb_algo_n :: nat
  tlb_algo_hi :: "u32 list"
  tlb_algo_ptr :: nat
  pra_list :: "nat list"
  pra_vaddr :: "nat \<Rightarrow> u32"

section \<open>Addresses: kern/mm/pmm.h\<close>

definition PADDR :: "u32 \<Rightarrow> u32 option" where
  "PADDR kva = (if kva < KERNBASE then None else Some (kva - KERNBASE))"

definition KADDR :: "nat \<Rightarrow> u32 \<Rightarrow> u32 option" where
  "KADDR np pa = (if unat (PPN pa) \<ge> np then None else Some (pa + KERNBASE))"

definition page2pa :: "nat \<Rightarrow> u32" where
  "page2pa p = push_bit 12 (of_nat p)"

definition pa2page :: "nat \<Rightarrow> u32 \<Rightarrow> nat option" where
  "pa2page np pa = (if unat (PPN pa) \<ge> np then None else Some (unat (PPN pa)))"

definition page2kva :: "nat \<Rightarrow> nat \<Rightarrow> u32 option" where
  "page2kva np p = KADDR np (page2pa p)"

definition kva2page :: "nat \<Rightarrow> u32 \<Rightarrow> nat option" where
  "kva2page np kva = Option.bind (PADDR kva) (pa2page np)"

definition pte2page :: "nat \<Rightarrow> u32 \<Rightarrow> nat option" where
  "pte2page np pte = (if pte AND PTE_P = 0 then None else pa2page np (PTE_ADDR pte))"

definition pde2page :: "nat \<Rightarrow> u32 \<Rightarrow> nat option" where
  "pde2page np pde = pa2page np (PTE_ADDR pde)"

section \<open>Pages and their reference counts\<close>

definition alloc_pages :: "nat \<Rightarrow> vmsys \<Rightarrow> (nat option \<times> vmsys) option" where
  "alloc_pages n s = do {
     (page, pm') \<leftarrow> default_alloc_pages n (pm s);
     if page \<noteq> None \<or> n > 1 \<or> \<not> swap_init_ok s then Some (page, s\<lparr>pm := pm'\<rparr>) else None
   }"

definition free_pages :: "nat \<Rightarrow> nat \<Rightarrow> vmsys \<Rightarrow> vmsys option" where
  "free_pages base n s = map_option (\<lambda>pm'. s\<lparr>pm := pm'\<rparr>) (default_free_pages base n (pm s))"

definition nr_free_pages :: "vmsys \<Rightarrow> nat" where
  "nr_free_pages s = default_nr_free_pages (pm s)"

definition page_ref :: "vmsys \<Rightarrow> nat \<Rightarrow> int" where
  "page_ref s p = pg_ref (pages (pm s) p)"

definition set_page_ref :: "nat \<Rightarrow> int \<Rightarrow> vmsys \<Rightarrow> vmsys" where
  "set_page_ref p v s = s\<lparr>pm := (pm s)\<lparr>pages := (pages (pm s))(p := (pages (pm s) p)\<lparr>pg_ref := v\<rparr>)\<rparr>\<rparr>"

definition page_ref_inc :: "nat \<Rightarrow> vmsys \<Rightarrow> vmsys" where
  "page_ref_inc p s = set_page_ref p (page_ref s p + 1) s"

definition page_ref_dec :: "nat \<Rightarrow> vmsys \<Rightarrow> vmsys" where
  "page_ref_dec p s = set_page_ref p (page_ref s p - 1) s"

text \<open>Stores to kernel memory: one word, \<open>memset\<close> of a page to zero, \<open>memcpy\<close> of a page.\<close>

definition store_word :: "u32 \<Rightarrow> u32 \<Rightarrow> vmsys \<Rightarrow> vmsys" where
  "store_word a v s = s\<lparr>kmem := (kmem s)(a := v)\<rparr>"

definition clear_page :: "u32 \<Rightarrow> vmsys \<Rightarrow> vmsys" where
  "clear_page k s = s\<lparr>kmem := (\<lambda>a. if a - k < PGSIZE then 0 else kmem s a)\<rparr>"

definition copy_page :: "u32 \<Rightarrow> u32 \<Rightarrow> vmsys \<Rightarrow> vmsys" where
  "copy_page dst src s = s\<lparr>kmem := (\<lambda>a. if a - dst < PGSIZE then kmem s (src + (a - dst)) else kmem s a)\<rparr>"

section \<open>Page table entries\<close>

definition get_pte :: "u32 \<Rightarrow> u32 \<Rightarrow> bool \<Rightarrow> vmsys \<Rightarrow> (u32 option \<times> vmsys) option" where
  "get_pte pgd la create s =
     (let pdep = pgd + 4 * PDX la in
      if kmem s pdep AND PTE_P = 0 \<and> \<not> create then Some (None, s)
      else do {
        s \<leftarrow> (if kmem s pdep AND PTE_P = 0 then do {
                 (r, s) \<leftarrow> alloc_pages 1 s;
                 page \<leftarrow> r;
                 let s = set_page_ref page 1 s;
                 let s = store_word pdep (page2pa page OR PTE_P OR PTE_W OR PTE_U) s;
                 k \<leftarrow> KADDR (npage s) (page2pa page);
                 Some (clear_page k s)
               } else Some s);
        k \<leftarrow> KADDR (npage s) (kmem s pdep AND 0xfffff000);
        Some (Some (k + 4 * drop_bit 12 (la AND 0x003ff000)), s)
      })"

definition get_page :: "u32 \<Rightarrow> u32 \<Rightarrow> vmsys \<Rightarrow> (nat option \<times> u32 option) option" where
  "get_page pgd la s = do {
     (ptep, s) \<leftarrow> get_pte pgd la False s;
     (case ptep of
        None \<Rightarrow> Some (None, ptep)
      | Some a \<Rightarrow> if kmem s a AND PTE_P \<noteq> 0 then do { p \<leftarrow> pa2page (npage s) (kmem s a); Some (Some p, ptep) }
                  else Some (None, ptep))
   }"

section \<open>The TLB: kern/mm/tlb.h, kern/mm/tlb.c\<close>

definition TLBN :: nat where "TLBN = 16"
definition TLBIDX :: "u32 \<Rightarrow> nat" where "TLBIDX pte = unat (drop_bit 8 pte AND 0xf)"
definition TLB_P :: u32 where "TLB_P = 0x80"
definition TLBPAIR :: "u32 \<Rightarrow> u32" where "TLBPAIR la = la XOR 0x1000"
definition TLBLO :: "u32 \<Rightarrow> u32" where "TLBLO la = PPN la AND 1"
definition ENTRYLO_AUX :: "u32 \<Rightarrow> u32 \<Rightarrow> u32" where
  "ENTRYLO_AUX pfn d = push_bit 6 pfn OR push_bit 3 2 OR push_bit 2 d OR 0x3"
definition ENTRYLO :: "u32 \<Rightarrow> u32" where "ENTRYLO pte = ENTRYLO_AUX (PPN pte) (drop_bit 1 pte AND 1)"
definition ENTRYLO_INVALID :: u32 where "ENTRYLO_INVALID = 0"
definition ENTRYHI_INVALID :: u32 where "ENTRYHI_INVALID = 0x80000000"

definition tlb_write :: "nat \<Rightarrow> u32 \<Rightarrow> u32 \<Rightarrow> u32 \<Rightarrow> vmsys \<Rightarrow> vmsys" where
  "tlb_write idx hi lo0 lo1 s = s\<lparr>tlb := (tlb s)(idx := \<lparr>entry_hi = hi, entry_lo0 = lo0, entry_lo1 = lo1\<rparr>)\<rparr>"

definition tlb_init_callback :: "vmsys \<Rightarrow> vmsys" where
  "tlb_init_callback s = s\<lparr>tlb_algo_empty := [0..<TLBN], tlb_algo_n := TLBN\<rparr>"

definition tlb_init :: "vmsys \<Rightarrow> vmsys" where
  "tlb_init s = tlb_init_callback
     (fold (\<lambda>i. tlb_write i ENTRYHI_INVALID ENTRYLO_INVALID ENTRYLO_INVALID) [0..<TLBN] s)"

definition load_pgdir :: "u32 \<Rightarrow> vmsys \<Rightarrow> vmsys" where
  "load_pgdir pgd s = tlb_init (s\<lparr>cur_pgdir := pgd\<rparr>)"

definition tlb_del_callback :: "nat \<Rightarrow> vmsys \<Rightarrow> vmsys option" where
  "tlb_del_callback idx s = (if tlb_algo_n s < TLBN
     then Some (s\<lparr>tlb_algo_empty := (tlb_algo_empty s)[tlb_algo_n s := idx], tlb_algo_n := tlb_algo_n s + 1\<rparr>) else None)"

text \<open>The two-element array \<open>lo\<close>, indexed by \<open>TLBLO\<close>.\<close>

definition lo_pair :: "u32 \<Rightarrow> u32 \<Rightarrow> u32 \<Rightarrow> u32 \<times> u32" where
  "lo_pair la mine other = (if TLBLO la = 0 then (mine, other) else (other, mine))"

definition tlb_invalidate :: "u32 \<Rightarrow> u32 \<Rightarrow> vmsys \<Rightarrow> vmsys option" where
  "tlb_invalidate pgd la s =
     (if pgd \<noteq> cur_pgdir s then Some s
      else do {
        (ptep, s) \<leftarrow> get_pte pgd la False s;
        (case ptep of
           None \<Rightarrow> Some s
         | Some a \<Rightarrow>
             if kmem s a AND TLB_P = 0 then Some s
             else do {
               let idx = TLBIDX (kmem s a);
               (ptep2, s) \<leftarrow> get_pte pgd (TLBPAIR la) False s;
               (hi, lo, s) \<leftarrow> (case ptep2 of
                  Some b \<Rightarrow> if kmem s b AND TLB_P \<noteq> 0
                     then Some (la AND 0xffffe000, lo_pair la ENTRYLO_INVALID (ENTRYLO (kmem s b)), s)
                     else map_option (\<lambda>s. (ENTRYHI_INVALID, lo_pair la ENTRYLO_INVALID ENTRYLO_INVALID, s)) (tlb_del_callback idx s)
                | None \<Rightarrow> map_option (\<lambda>s. (ENTRYHI_INVALID, lo_pair la ENTRYLO_INVALID ENTRYLO_INVALID, s)) (tlb_del_callback idx s));
               let s = tlb_write idx hi (fst lo) (snd lo) s;
               Some (store_word a (kmem s a AND NOT TLB_P) s)
             })
      })"

section \<open>Mapping and unmapping pages\<close>

definition page_remove_pte :: "u32 \<Rightarrow> u32 \<Rightarrow> u32 \<Rightarrow> vmsys \<Rightarrow> vmsys option" where
  "page_remove_pte pgd la ptep s =
     (if kmem s ptep AND PTE_P > 0 then do {
        page \<leftarrow> pte2page (npage s) (kmem s ptep);
        let s = page_ref_dec page s;
        s \<leftarrow> (if page_ref s page = 0 then free_pages page 1 s else Some s);
        s \<leftarrow> tlb_invalidate pgd la s;
        Some (store_word ptep 0 s)
      } else Some s)"

definition page_remove :: "u32 \<Rightarrow> u32 \<Rightarrow> vmsys \<Rightarrow> vmsys option" where
  "page_remove pgd la s = do {
     (ptep, s) \<leftarrow> get_pte pgd la False s;
     (case ptep of None \<Rightarrow> Some s | Some a \<Rightarrow> page_remove_pte pgd la a s)
   }"

definition page_insert :: "u32 \<Rightarrow> nat \<Rightarrow> u32 \<Rightarrow> u32 \<Rightarrow> vmsys \<Rightarrow> (int \<times> vmsys) option" where
  "page_insert pgd page la perm s = do {
     (ptep, s) \<leftarrow> get_pte pgd la True s;
     (case ptep of
        None \<Rightarrow> Some (- E_NO_MEM, s)
      | Some a \<Rightarrow> do {
          let s = page_ref_inc page s;
          s \<leftarrow> (if kmem s a AND PTE_P \<noteq> 0 then do {
                   p \<leftarrow> pte2page (npage s) (kmem s a);
                   if p = page then Some (page_ref_dec page s) else page_remove_pte pgd la a s
                 } else Some s);
          s \<leftarrow> tlb_invalidate pgd la s;
          Some (0, store_word a (page2pa page OR PTE_P OR perm) s)
        })
   }"

text \<open>\<open>swap_map_swappable\<close> and the assertion that follows it in \<open>pgdir_alloc_page\<close> need \<open>check_mm_struct\<close>.\<close>

definition pgdir_alloc_page :: "u32 \<Rightarrow> u32 \<Rightarrow> u32 \<Rightarrow> vmsys \<Rightarrow> (nat option \<times> vmsys) option" where
  "pgdir_alloc_page pgd la perm s = do {
     (page, s) \<leftarrow> alloc_pages 1 s;
     (case page of
        None \<Rightarrow> Some (None, s)
      | Some p \<Rightarrow> do {
          (r, s) \<leftarrow> page_insert pgd p la perm s;
          if r \<noteq> 0 then do { s \<leftarrow> free_pages p 1 s; Some (None, s) }
          else Some (Some p, s)
        })
   }"

section \<open>Ranges of pages\<close>

text \<open>The loops end when \<open>start\<close> wraps to zero or reaches \<open>end\<close>.\<close>

partial_function (option) unmap_loop :: "u32 \<Rightarrow> u32 \<Rightarrow> u32 \<Rightarrow> vmsys \<Rightarrow> vmsys option" where
  "unmap_loop pgd start end s = do {
     (ptep, s) \<leftarrow> get_pte pgd start False s;
     (start, s) \<leftarrow> (case ptep of
        None \<Rightarrow> Some (ROUNDDOWN (start + PTSIZE) PTSIZE, s)
      | Some a \<Rightarrow> do {
          s \<leftarrow> (if kmem s a \<noteq> 0 then page_remove_pte pgd start a s else Some s);
          Some (start + PGSIZE, s)
        });
     if start \<noteq> 0 \<and> start < end then unmap_loop pgd start end s else Some s
   }"

definition unmap_range :: "u32 \<Rightarrow> u32 \<Rightarrow> u32 \<Rightarrow> vmsys \<Rightarrow> vmsys option" where
  "unmap_range pgd start end s = do {
     kassert (start mod PGSIZE = 0 \<and> end mod PGSIZE = 0);
     kassert (USER_ACCESS start end);
     unmap_loop pgd start end s
   }"

partial_function (option) exit_loop :: "u32 \<Rightarrow> u32 \<Rightarrow> u32 \<Rightarrow> vmsys \<Rightarrow> vmsys option" where
  "exit_loop pgd start end s = do {
     let pdep = pgd + 4 * PDX start;
     s \<leftarrow> (if kmem s pdep AND PTE_P \<noteq> 0 then do {
              p \<leftarrow> pde2page (npage s) (kmem s pdep);
              s \<leftarrow> free_pages p 1 s;
              Some (store_word pdep 0 s)
            } else Some s);
     let start = start + PTSIZE;
     if start \<noteq> 0 \<and> start < end then exit_loop pgd start end s else Some s
   }"

definition exit_range :: "u32 \<Rightarrow> u32 \<Rightarrow> u32 \<Rightarrow> vmsys \<Rightarrow> vmsys option" where
  "exit_range pgd start end s = do {
     kassert (start mod PGSIZE = 0 \<and> end mod PGSIZE = 0);
     kassert (USER_ACCESS start end);
     exit_loop pgd (ROUNDDOWN start PTSIZE) end s
   }"

text \<open>The result of \<open>page_insert\<close> is ignored: the assertion that follows it tests a variable that is always 0.\<close>

definition copy_one :: "u32 \<Rightarrow> u32 \<Rightarrow> u32 \<Rightarrow> u32 \<Rightarrow> vmsys \<Rightarrow> (int \<times> vmsys) option" where
  "copy_one to from start a s =
     (if kmem s a AND PTE_P \<noteq> 0 then do {
        (nptep, s) \<leftarrow> get_pte to start True s;
        if nptep = None then Some (- E_NO_MEM, s)
        else do {
          let perm = kmem s a AND PTE_USER;
          page \<leftarrow> pte2page (npage s) (kmem s a);
          (r, s) \<leftarrow> alloc_pages 1 s;
          np \<leftarrow> r;
          dst \<leftarrow> page2kva (npage s) np;
          src \<leftarrow> page2kva (npage s) page;
          let s = copy_page dst src s;
          (_, s) \<leftarrow> page_insert to np start perm s;
          Some (0, s)
        }
      } else Some (0, s))"

partial_function (option) copy_loop :: "u32 \<Rightarrow> u32 \<Rightarrow> u32 \<Rightarrow> u32 \<Rightarrow> vmsys \<Rightarrow> (int \<times> vmsys) option" where
  "copy_loop to from start end s = do {
     (ptep, s) \<leftarrow> get_pte from start False s;
     (r, start, s) \<leftarrow> (case ptep of
        None \<Rightarrow> Some (0, ROUNDDOWN (start + PTSIZE) PTSIZE, s)
      | Some a \<Rightarrow> do { (r, s) \<leftarrow> copy_one to from start a s; Some (r, start + PGSIZE, s) });
     if r \<noteq> 0 then Some (r, s)
     else if start \<noteq> 0 \<and> start < end then copy_loop to from start end s else Some (0, s)
   }"

definition copy_range :: "u32 \<Rightarrow> u32 \<Rightarrow> u32 \<Rightarrow> u32 \<Rightarrow> vmsys \<Rightarrow> (int \<times> vmsys) option" where
  "copy_range to from start end s = do {
     kassert (start mod PGSIZE = 0 \<and> end mod PGSIZE = 0);
     kassert (USER_ACCESS start end);
     copy_loop to from start end s
   }"

primrec boot_map_loop :: "nat \<Rightarrow> u32 \<Rightarrow> u32 \<Rightarrow> u32 \<Rightarrow> u32 \<Rightarrow> vmsys \<Rightarrow> vmsys option" where
  "boot_map_loop 0 pgd la pa perm s = Some s"
| "boot_map_loop (Suc n) pgd la pa perm s = do {
     (ptep, s) \<leftarrow> get_pte pgd la True s;
     a \<leftarrow> ptep;
     boot_map_loop n pgd (la + PGSIZE) (pa + PGSIZE) perm (store_word a (pa OR PTE_P OR perm) s)
   }"

definition boot_map_segment :: "u32 \<Rightarrow> u32 \<Rightarrow> u32 \<Rightarrow> u32 \<Rightarrow> u32 \<Rightarrow> vmsys \<Rightarrow> vmsys option" where
  "boot_map_segment pgd la sz pa perm s = do {
     kassert (PGOFF la = PGOFF pa);
     let n = ROUNDUP (sz + PGOFF la) PGSIZE div PGSIZE;
     boot_map_loop (unat n) pgd (ROUNDDOWN la PGSIZE) (ROUNDDOWN pa PGSIZE) perm s
   }"

section \<open>Initialisation\<close>

definition boot_alloc_page :: "vmsys \<Rightarrow> (u32 \<times> vmsys) option" where
  "boot_alloc_page s = do {
     (r, s) \<leftarrow> alloc_pages 1 s;
     p \<leftarrow> r;
     k \<leftarrow> page2kva (npage s) p;
     Some (k, s)
   }"

text \<open>\<open>page_init\<close>: \<open>end_addr\<close> is the linker symbol \<open>end\<close>, \<open>page_size\<close> is \<open>sizeof(struct Page)\<close>.\<close>

definition page_init :: "u32 \<Rightarrow> u32 \<Rightarrow> vmsys \<Rightarrow> vmsys option" where
  "page_init end_addr page_size s = do {
     let np = KMEMSIZE div PGSIZE;
     let pages_va = ROUNDUP end_addr PGSIZE;
     let s = s\<lparr>npage := unat np, pm := (pm s)\<lparr>pages := fold SetPageReserved [0..<unat np] (pages (pm s))\<rparr>\<rparr>;
     freemem \<leftarrow> PADDR (pages_va + page_size * np);
     let start = ROUNDUP freemem PGSIZE;
     let stop = ROUNDDOWN KMEMSIZE PGSIZE;
     if start < stop then do {
       p \<leftarrow> pa2page (npage s) start;
       pm' \<leftarrow> default_init_memmap p (unat ((stop - start) div PGSIZE)) (pm s);
       Some (s\<lparr>pm := pm'\<rparr>)
     } else Some s
   }"

definition VPT :: u32 where "VPT = 0xFAC00000"

text \<open>\<open>pmm_init\<close> without the self-tests and the console output.\<close>

definition enable_paging :: "u32 \<Rightarrow> vmsys \<Rightarrow> vmsys" where
  "enable_paging boot_pgdir s = load_pgdir boot_pgdir (tlb_init s)"

definition pmm_init :: "u32 \<Rightarrow> u32 \<Rightarrow> vmsys \<Rightarrow> (u32 \<times> vmsys) option" where
  "pmm_init end_addr page_size s = do {
     let s = s\<lparr>pm := default_init (pm s)\<rparr>;
     s \<leftarrow> page_init end_addr page_size s;
     (boot_pgdir, s) \<leftarrow> boot_alloc_page s;
     let s = clear_page boot_pgdir s;
     pa \<leftarrow> PADDR boot_pgdir;
     let s = store_word (boot_pgdir + 4 * PDX VPT) (pa OR PTE_P OR PTE_W) s;
     Some (boot_pgdir, enable_paging boot_pgdir s)
   }"

section \<open>Printing a page table\<close>

definition perm2str :: "u32 \<Rightarrow> string" where
  "perm2str perm = [if perm AND PTE_U \<noteq> 0 then CHR ''u'' else CHR ''-'', CHR ''r'',
     if perm AND PTE_W \<noteq> 0 then CHR ''w'' else CHR ''-'']"

text \<open>\<open>get_pgtable_items\<close>: skip absent entries, then the run of entries with the permissions of the first one.\<close>

function skip_while :: "(nat \<Rightarrow> bool) \<Rightarrow> nat \<Rightarrow> nat \<Rightarrow> nat" where
  "skip_while P right start = (if start < right \<and> P start then skip_while P right (Suc start) else start)"
  by auto
termination by (relation "measure (\<lambda>(_, right, start). right - start)") auto

declare skip_while.simps [simp del]

definition get_pgtable_items :: "nat \<Rightarrow> nat \<Rightarrow> (nat \<Rightarrow> u32) \<Rightarrow> u32 \<times> (nat \<times> nat) option" where
  "get_pgtable_items right start table =
     (if start \<ge> right then (0, None)
      else let start = skip_while (\<lambda>i. table i AND PTE_P = 0) right start in
        if start < right
        then let perm = table start AND PTE_USER;
                 stop = skip_while (\<lambda>i. table i AND PTE_USER = perm) right (Suc start)
             in (perm, Some (start, stop))
        else (0, None))"

end
