(* ===== verification/Page_Inv.thy ===== *)
theory Page_Inv
  imports Page_Table
begin

text \<open>
  The invariant of the page tables and what the operations of \<open>kern/mm/pmm.c\<close> do to the mappings.

  \<open>slot f j\<close> is the kernel address of word \<open>j\<close> of frame \<open>f\<close>. A page directory is named by its frame; entry
  \<open>(i, j)\<close> of it is entry \<open>j\<close> of the page table in directory entry \<open>i\<close>. Only the user half of the address space
  is considered (\<open>i < 512\<close>): the entries above belong to the recursive mapping at \<open>VPT\<close>.
\<close>

section \<open>Addresses of table entries\<close>

definition slot :: "nat \<Rightarrow> nat \<Rightarrow> u32" where
  "slot f j = KERNBASE + of_nat (f * 4096 + 4 * j)"

definition pdx :: "u32 \<Rightarrow> nat" where "pdx la = unat (PDX la)"
definition ptx :: "u32 \<Rightarrow> nat" where "ptx la = unat (PTX la)"

lemma unat_slot:
  assumes "f * 4096 + 4 * j < 2 ^ 31" shows "unat (slot f j) = 2 ^ 31 + f * 4096 + 4 * j"
proof -
  have "unat (of_nat (f * 4096 + 4 * j) :: u32) = f * 4096 + 4 * j"
    by (rule unat_of_nat_small) (use assms in simp)
  then show ?thesis unfolding slot_def using assms by (subst unat_add_no_wrap) (auto simp: KERNBASE_def)
qed

lemma slot_lt: "f < 2048 \<Longrightarrow> j < 1024 \<Longrightarrow> f * 4096 + 4 * j < (2 :: nat) ^ 31"
  by simp

lemma slot_inj:
  assumes "f < 2048" "j < 1024" "f' < 2048" "j' < 1024"
  shows "slot f j = slot f' j' \<longleftrightarrow> f = f' \<and> j = j'"
proof
  assume "slot f j = slot f' j'"
  then have eq: "f * 4096 + 4 * j = f' * 4096 + 4 * j'"
    using unat_slot [OF slot_lt [OF assms(1,2)]] unat_slot [OF slot_lt [OF assms(3,4)]] by simp
  then have "(f * 4096 + 4 * j) div 4096 = (f' * 4096 + 4 * j') div 4096" by simp
  then have "f = f'" using assms(2,4) by simp
  with eq show "f = f' \<and> j = j'" by simp
qed simp

lemma pdx_lt: "pdx la < 1024" "ptx la < 1024"
proof -
  have "PDX la \<le> 0x3FF" "PTX la \<le> 0x3FF" unfolding PDX_def PTX_def by (simp_all add: word_and_le1)
  then show "pdx la < 1024" "ptx la < 1024" unfolding pdx_def ptx_def by (auto simp: word_le_nat_alt)
qed

lemma unat_4mult: "unat (w :: u32) < 2 ^ 30 \<Longrightarrow> unat (4 * w) = 4 * unat w"
  by (subst unat_mult_no_wrap) auto

lemma slot_entry:
  assumes "f < 2048" "unat w < 1024" shows "slot f 0 + 4 * w = slot f (unat w)"
proof -
  have "unat (slot f 0 + 4 * w) = unat (slot f (unat w))"
    using assms by (subst unat_add_no_wrap) (auto simp: unat_slot unat_4mult)
  then show ?thesis by (simp add: word_unat_eq_iff)
qed

lemma unat_PPN: "unat (PPN w) = unat w div 4096"
  unfolding PPN_def unat_drop_bit_eq by (simp add: drop_bit_eq_div [of 12 "unat w"])

lemma PTE_ADDR_ROUNDDOWN: "PTE_ADDR w = ROUNDDOWN w 4096"
proof -
  have "PTE_ADDR w = push_bit 12 (drop_bit 12 w)"
    by (rule bit_word_eqI) (auto simp: bit_PTE_ADDR bit_simps)
  also have "\<dots> = w - take_bit 12 w" using bits_ident [of 12 w] by (metis add_diff_cancel_right')
  finally show ?thesis by (simp add: ROUNDDOWN_def take_bit_eq_mod)
qed

lemma unat_PTE_ADDR: "unat (PTE_ADDR w) = unat w div 4096 * 4096"
  by (simp add: PTE_ADDR_ROUNDDOWN unat_ROUNDDOWN minus_mod_eq_div_mult)

lemma PPN_PTE_ADDR: "unat (PPN (PTE_ADDR w)) = unat (PPN w)"
  by (simp add: unat_PPN unat_PTE_ADDR)

lemma PTE_ADDR_mask: "w AND 0xfffff000 = PTE_ADDR w"
proof -
  have "(0xfffff000 :: u32) = NOT 0xFFF" by (simp add: word_unat_eq_iff)
  then show ?thesis by (simp only: PTE_ADDR_def)
qed

lemma PTX_mask: "drop_bit 12 (la AND 0x003ff000) = PTX la"
proof -
  have m: "(0x003ff000 :: u32) = push_bit 12 (mask 10)" by (simp add: mask_eq_decr_exp push_bit_eq_mult)
  show ?thesis unfolding m by (intro bit_word_eqI) (auto simp: bit_PTX bit_simps ac_simps)
qed

lemma KADDR_table:
  assumes "unat (PPN w) < np" "np \<le> 2048"
  shows "KADDR np (w AND 0xfffff000) = Some (slot (unat (PPN w)) 0)"
proof -
  have "unat (PTE_ADDR w + KERNBASE) = unat (slot (unat (PPN w)) 0)"
    using assms by (subst unat_add_no_wrap) (auto simp: unat_slot unat_PPN unat_PTE_ADDR KERNBASE_def)
  then have "PTE_ADDR w + KERNBASE = slot (unat (PPN w)) 0" by (simp add: word_unat_eq_iff)
  then show ?thesis using assms by (simp add: KADDR_def PTE_ADDR_mask PPN_PTE_ADDR)
qed

lemma unat_page2pa: "p < 2048 \<Longrightarrow> unat (page2pa p) = p * 4096"
  by (simp add: page2pa_def push_bit_eq_mult unat_word_ariths unat_of_nat)

lemma PPN_page2pa: "p < 2048 \<Longrightarrow> unat (PPN (page2pa p)) = p"
  by (simp add: unat_PPN unat_page2pa)

lemma KADDR_page: "p < np \<Longrightarrow> np \<le> 2048 \<Longrightarrow> KADDR np (page2pa p) = Some (slot p 0)"
proof -
  assume a: "p < np" "np \<le> 2048"
  then have "unat (page2pa p + KERNBASE) = unat (slot p 0)"
    by (subst unat_add_no_wrap) (auto simp: unat_slot unat_page2pa KERNBASE_def)
  then have "page2pa p + KERNBASE = slot p 0" by (simp add: word_unat_eq_iff)
  then show ?thesis using a by (simp add: KADDR_def PPN_page2pa)
qed

text \<open>Entries built from a page and permission bits.\<close>

definition perm_ok :: "u32 \<Rightarrow> bool" where
  "perm_ok perm \<longleftrightarrow> perm AND NOT PTE_USER = 0"

definition mk_pte :: "nat \<Rightarrow> u32 \<Rightarrow> u32" where
  "mk_pte p perm = page2pa p OR PTE_P OR perm"

definition present :: "u32 \<Rightarrow> bool" where
  "present w \<longleftrightarrow> w AND PTE_P \<noteq> 0"

lemma present_bit: "present w \<longleftrightarrow> bit w 0"
  using test_bit_iff [of 0 w] by (simp add: present_def PTE_P_def test_bit_def)

lemma present_pos: "w AND PTE_P > 0 \<longleftrightarrow> present w"
  by (simp add: present_def word_gt_0)

lemma bit_page2pa: "bit (page2pa p) k \<Longrightarrow> 12 \<le> k"
  by (simp add: page2pa_def bit_simps)

lemma PTE_USER_mask: "PTE_USER = mask 3"
  by (simp add: PTE_USER_def PTE_U_def PTE_W_def PTE_P_def mask_eq_decr_exp)

lemma perm_ok_bit: "perm_ok perm \<Longrightarrow> bit perm k \<Longrightarrow> k < 3"
proof (rule ccontr)
  assume a: "perm_ok perm" "bit perm k" "\<not> k < 3"
  then have "bit (perm AND NOT PTE_USER) k"
    by (auto simp: PTE_USER_mask bit_simps dest: bit_imp_le_length)
  with a(1) show False by (simp add: perm_ok_def)
qed

lemma mk_pte_present [simp]: "present (mk_pte p perm)"
  by (simp add: present_bit mk_pte_def PTE_P_def bit_simps)

lemma mk_pte_page: "p < 2048 \<Longrightarrow> perm_ok perm \<Longrightarrow> unat (PPN (mk_pte p perm)) = p"
proof -
  assume a: "p < 2048" "perm_ok perm"
  have "PPN (mk_pte p perm) = PPN (page2pa p)"
    by (rule bit_word_eqI) (auto simp: PPN_def mk_pte_def PTE_P_def bit_simps dest!: perm_ok_bit [OF a(2)])
  then show ?thesis using a by (simp add: PPN_page2pa)
qed

lemma perm_okI: "perm_ok 0" "perm_ok PTE_U" "perm_ok PTE_W" "perm_ok (PTE_W OR PTE_U)" "perm_ok (PTE_U OR PTE_W)" "perm_ok (w AND PTE_USER)"
  by (simp_all add: perm_ok_def PTE_USER_def PTE_U_def PTE_W_def PTE_P_def and.assoc)

lemma pte2page_eq: "pte2page np w = (if present w \<and> unat (PPN w) < np then Some (unat (PPN w)) else None)"
  by (auto simp: pte2page_def pa2page_def PPN_PTE_ADDR present_def)

section \<open>The invariant\<close>

definition used :: "vmsys \<Rightarrow> nat set" where
  "used s = managed (npage s) (pm s) - free_page_set (pm s)"

definition pde :: "vmsys \<Rightarrow> nat \<Rightarrow> nat \<Rightarrow> u32" where
  "pde s d i = kmem s (slot d i)"

definition tab :: "vmsys \<Rightarrow> nat \<Rightarrow> nat \<Rightarrow> nat" where
  "tab s d i = unat (PPN (pde s d i))"

definition pte :: "vmsys \<Rightarrow> nat \<Rightarrow> nat \<Rightarrow> nat \<Rightarrow> u32" where
  "pte s d i j = (if present (pde s d i) then kmem s (slot (tab s d i) j) else 0)"

definition tables :: "nat set \<Rightarrow> vmsys \<Rightarrow> nat set" where
  "tables ds s = {tab s d i | d i. d \<in> ds \<and> i < 512 \<and> present (pde s d i)}"

definition data :: "nat set \<Rightarrow> vmsys \<Rightarrow> nat set" where
  "data ds s = used s - ds - tables ds s"

definition maps :: "nat set \<Rightarrow> vmsys \<Rightarrow> nat \<Rightarrow> (nat \<times> nat \<times> nat) set" where
  "maps ds s f = {(d, i, j). d \<in> ds \<and> i < 512 \<and> j < 1024 \<and> present (pte s d i j) \<and> unat (PPN (pte s d i j)) = f}"

text \<open>
  \<open>vm_off ds s R\<close>: the page directories \<open>ds\<close> and their page tables are distinct used frames, entries map data
  frames, free frames have no references, and the reference count of a data frame exceeds the number of its
  mappings by \<open>R\<close>. Between operations \<open>R\<close> is 0; it is not while an operation is under way.
\<close>

definition vm_off :: "nat set \<Rightarrow> vmsys \<Rightarrow> (nat \<Rightarrow> int) \<Rightarrow> bool" where
  "vm_off ds s R \<longleftrightarrow> npage s \<le> 2048 \<and> pmm_inv (npage s) (pm s) \<and> ds \<subseteq> used s \<and>
     (\<forall>d \<in> ds. \<forall>i < 512. present (pde s d i) \<longrightarrow> tab s d i \<in> used s - ds) \<and>
     (\<forall>d \<in> ds. \<forall>d' \<in> ds. \<forall>i < 512. \<forall>i' < 512. present (pde s d i) \<and> present (pde s d' i') \<and> tab s d i = tab s d' i' \<longrightarrow>
        d = d' \<and> i = i') \<and>
     (\<forall>d \<in> ds. \<forall>i < 512. \<forall>j < 1024. present (pte s d i j) \<longrightarrow> unat (PPN (pte s d i j)) \<in> data ds s) \<and>
     (\<forall>f \<in> data ds s. page_ref s f = int (card (maps ds s f)) + R f) \<and>
     (\<forall>f \<in> free_page_set (pm s). page_ref s f = 0)"

definition vm_inv :: "nat set \<Rightarrow> vmsys \<Rightarrow> bool" where
  "vm_inv ds s \<longleftrightarrow> vm_off ds s (\<lambda>_. 0)"

lemma used_lt: "vm_off ds s R \<Longrightarrow> f \<in> used s \<Longrightarrow> f < npage s \<and> f < 2048"
  by (auto simp: vm_off_def used_def managed_def)

lemma finite_ds: "vm_off ds s R \<Longrightarrow> finite ds"
  by (rule finite_subset [of _ "{..<npage s}"]) (auto simp: vm_off_def used_def managed_def)

lemma finite_maps: "vm_off ds s R \<Longrightarrow> finite (maps ds s f)"
  by (rule finite_subset [of _ "ds \<times> {..<512} \<times> {..<1024}"]) (auto simp: maps_def finite_ds)

lemma tab_used: "vm_off ds s R \<Longrightarrow> d \<in> ds \<Longrightarrow> i < 512 \<Longrightarrow> present (pde s d i) \<Longrightarrow> tab s d i \<in> used s - ds"
  by (simp add: vm_off_def)

lemma tab_inj:
  "vm_off ds s R \<Longrightarrow> d \<in> ds \<Longrightarrow> d' \<in> ds \<Longrightarrow> i < 512 \<Longrightarrow> i' < 512 \<Longrightarrow> present (pde s d i) \<Longrightarrow> present (pde s d' i') \<Longrightarrow>
   tab s d i = tab s d' i' \<longleftrightarrow> d = d' \<and> i = i'"
  by (auto simp: vm_off_def)

lemma mapped_data:
  "vm_off ds s R \<Longrightarrow> d \<in> ds \<Longrightarrow> i < 512 \<Longrightarrow> j < 1024 \<Longrightarrow> present (pte s d i j) \<Longrightarrow> unat (PPN (pte s d i j)) \<in> data ds s"
  by (simp add: vm_off_def)

lemma ref_count: "vm_off ds s R \<Longrightarrow> f \<in> data ds s \<Longrightarrow> page_ref s f = int (card (maps ds s f)) + R f"
  by (simp add: vm_off_def)

text \<open>Changing reference counts.\<close>

lemma pages_set_page_ref [simp]:
  "pg_property (pages (pm (set_page_ref p v s)) q) = pg_property (pages (pm s) q)"
  "PageProperty (pages (pm (set_page_ref p v s))) q = PageProperty (pages (pm s)) q"
  "PageReserved (pages (pm (set_page_ref p v s))) q = PageReserved (pages (pm s)) q"
  "free_list (pm (set_page_ref p v s)) = free_list (pm s)"
  "nr_free (pm (set_page_ref p v s)) = nr_free (pm s)"
  by (simp_all add: set_page_ref_def PageProperty_def PageReserved_def)

lemma set_page_ref_simps [simp]:
  "npage (set_page_ref p v s) = npage s" "kmem (set_page_ref p v s) = kmem s" "cur_pgdir (set_page_ref p v s) = cur_pgdir s"
  "tlb_algo_n (set_page_ref p v s) = tlb_algo_n s" "swap_init_ok (set_page_ref p v s) = swap_init_ok s"
  "free_page_set (pm (set_page_ref p v s)) = free_page_set (pm s)"
  "managed np (pm (set_page_ref p v s)) = managed np (pm s)"
  "page_ref (set_page_ref p v s) q = (if q = p then v else page_ref s q)"
proof -
  show "free_page_set (pm (set_page_ref p v s)) = free_page_set (pm s)"
    "managed np (pm (set_page_ref p v s)) = managed np (pm s)"
    by (simp_all add: free_page_set_def managed_def)
qed (simp_all add: set_page_ref_def page_ref_def)

lemma pmm_inv_set_page_ref [simp]: "pmm_inv np (pm (set_page_ref p v s)) = pmm_inv np (pm s)"
  by (simp add: pmm_inv_def)

text \<open>The views of a state depend only on \<open>kmem\<close> and the allocator.\<close>

lemma views_cong:
  assumes "kmem s' = kmem s"
  shows "pde s' = pde s" "tab s' = tab s" "pte s' = pte s" "tables ds s' = tables ds s" "maps ds s' = maps ds s"
proof -
  show a: "pde s' = pde s" using assms by (simp add: pde_def fun_eq_iff)
  then show b: "tab s' = tab s" by (simp add: tab_def fun_eq_iff)
  from a b show c: "pte s' = pte s" using assms by (simp add: pte_def fun_eq_iff)
  from a b show "tables ds s' = tables ds s" by (simp add: tables_def)
  from c show "maps ds s' = maps ds s" by (simp add: maps_def fun_eq_iff)
qed

lemmas views_set_page_ref [simp] = views_cong [OF set_page_ref_simps(2)]

lemma used_set_page_ref [simp]: "used (set_page_ref p v s) = used s"
  by (simp add: used_def)

lemma data_set_page_ref [simp]: "data ds (set_page_ref p v s) = data ds s"
  by (simp add: data_def)

lemma vm_off_set_ref:
  assumes "vm_off ds s R" "p \<in> data ds s"
  shows "vm_off ds (set_page_ref p (page_ref s p + k) s) (R(p := R p + k))"
proof -
  have "p \<notin> free_page_set (pm s)" using assms(2) by (simp add: data_def used_def)
  moreover have "page_ref s p = int (card (maps ds s p)) + R p" by (rule ref_count [OF assms])
  ultimately show ?thesis using assms(1) unfolding vm_off_def by simp
qed

text \<open>Changing kernel memory.\<close>

lemma store_word_simps [simp]:
  "npage (store_word a w s) = npage s" "pm (store_word a w s) = pm s" "cur_pgdir (store_word a w s) = cur_pgdir s"
  "tlb_algo_n (store_word a w s) = tlb_algo_n s" "kmem (store_word a w s) = (kmem s)(a := w)"
  "page_ref (store_word a w s) = page_ref s" "used (store_word a w s) = used s" "swap_init_ok (store_word a w s) = swap_init_ok s"
  by (simp_all add: store_word_def page_ref_def used_def fun_eq_iff)

text \<open>Writing the entry \<open>(i, j)\<close> of directory \<open>d\<close> changes that entry only.\<close>

definition set_pte :: "nat \<Rightarrow> nat \<Rightarrow> nat \<Rightarrow> u32 \<Rightarrow> vmsys \<Rightarrow> vmsys" where
  "set_pte d i j w s = store_word (slot (tab s d i) j) w s"

lemma set_pte_views:
  assumes inv: "vm_off ds s R" and d: "d \<in> ds" "i < 512" "j < 1024" "present (pde s d i)"
  shows "d' \<in> ds \<Longrightarrow> i' < 512 \<Longrightarrow> pde (set_pte d i j w s) d' i' = pde s d' i'"
    and "d' \<in> ds \<Longrightarrow> i' < 512 \<Longrightarrow> tab (set_pte d i j w s) d' i' = tab s d' i'"
    and "d' \<in> ds \<Longrightarrow> i' < 512 \<Longrightarrow> j' < 1024 \<Longrightarrow>
       pte (set_pte d i j w s) d' i' j' = (if (d', i', j') = (d, i, j) then w else pte s d' i' j')"
    and "tables ds (set_pte d i j w s) = tables ds s" "data ds (set_pte d i j w s) = data ds s"
    and "f \<in> data ds s \<Longrightarrow> j' < 1024 \<Longrightarrow> kmem (set_pte d i j w s) (slot f j') = kmem s (slot f j')"
proof -
  have t: "tab s d i \<in> used s" "tab s d i \<notin> ds" "tab s d i < 2048"
    using tab_used [OF inv d(1,2,4)] used_lt [OF inv] by auto
  have lt: "f < 2048" if "f \<in> used s" for f using used_lt [OF inv that] by simp
  have ds: "d' \<in> used s" if "d' \<in> ds" for d' using inv that by (auto simp: vm_off_def)
  show p: "pde (set_pte d i j w s) d' i' = pde s d' i'" if "d' \<in> ds" "i' < 512" for d' i'
    using that t d(3) lt ds by (auto simp: pde_def set_pte_def slot_inj)
  then show tb: "tab (set_pte d i j w s) d' i' = tab s d' i'" if "d' \<in> ds" "i' < 512" for d' i'
    using that by (simp add: tab_def)
  show "pte (set_pte d i j w s) d' i' j' = (if (d', i', j') = (d, i, j) then w else pte s d' i' j')"
    if h: "d' \<in> ds" "i' < 512" "j' < 1024"
  proof (cases "present (pde s d' i')")
    case True
    have t': "tab s d' i' < 2048" using tab_used [OF inv h(1,2) True] lt by auto
    show ?thesis using True p [OF h(1,2)] tb [OF h(1,2)] d h t t' tab_inj [OF inv d(1) h(1) d(2) h(2) d(4) True]
      by (auto simp: pte_def set_pte_def slot_inj)
  next
    case False
    then show ?thesis using p [OF h(1,2)] d by (auto simp: pte_def)
  qed
  show tabs: "tables ds (set_pte d i j w s) = tables ds s"
    unfolding tables_def using p tb by (auto simp: p tb) (metis p tb)+
  then show "data ds (set_pte d i j w s) = data ds s" by (simp add: data_def set_pte_def)
  show "kmem (set_pte d i j w s) (slot f j') = kmem s (slot f j')" if "f \<in> data ds s" "j' < 1024"
  proof -
    have "f \<noteq> tab s d i" using that(1) d by (auto simp: data_def tables_def)
    then show ?thesis using that t d lt by (auto simp: set_pte_def slot_inj data_def)
  qed
qed

text \<open>How many mappings of a frame there are after an entry is written.\<close>

definition hit :: "u32 \<Rightarrow> nat \<Rightarrow> int" where
  "hit w f = (if present w \<and> unat (PPN w) = f then 1 else 0)"

lemma card_maps_set_pte:
  assumes inv: "vm_off ds s R" and d: "d \<in> ds" "i < 512" "j < 1024" "present (pde s d i)"
  shows "int (card (maps ds (set_pte d i j w s) f)) = int (card (maps ds s f)) - hit (pte s d i j) f + hit w f"
proof -
  let ?s = "set_pte d i j w s" and ?x = "(d, i, j)"
  note v = set_pte_views(3) [OF inv d]
  have rest: "maps ds ?s f - {?x} = maps ds s f - {?x}"
    by (auto simp: maps_def v)
  have fin: "finite (maps ds s f)" "finite (maps ds ?s f)"
    using finite_maps [OF inv] finite_Diff_insert [of "maps ds ?s f" ?x "{}"] rest by (auto dest: arg_cong [where f = finite])
  have "?x \<in> maps ds ?s f \<longleftrightarrow> hit w f = 1" "?x \<in> maps ds s f \<longleftrightarrow> hit (pte s d i j) f = 1"
    using d by (auto simp: maps_def v hit_def)
  moreover have "hit w f = 0 \<or> hit w f = 1" "hit (pte s d i j) f = 0 \<or> hit (pte s d i j) f = 1" by (auto simp: hit_def)
  moreover have c: "int (card A) = int (card (A - {?x})) + (if ?x \<in> A then 1 else 0)" if "finite A" for A
    using that card.remove [of A ?x] by (auto simp: )
  ultimately show ?thesis using c [OF fin(1)] c [OF fin(2)] rest by auto
qed

lemma vm_off_set_pte:
  assumes inv: "vm_off ds s R" and d: "d \<in> ds" "i < 512" "j < 1024" "present (pde s d i)"
    and w: "present w \<Longrightarrow> unat (PPN w) \<in> data ds s"
  shows "vm_off ds (set_pte d i j w s) (\<lambda>f. R f + hit (pte s d i j) f - hit w f)"
proof -
  note v = set_pte_views [OF inv d, where w = w]
  have "used (set_pte d i j w s) = used s" "npage (set_pte d i j w s) = npage s" "pm (set_pte d i j w s) = pm s"
    "page_ref (set_pte d i j w s) = page_ref s"
    by (simp_all add: set_pte_def)
  note e = this v card_maps_set_pte [OF inv d]
  show ?thesis unfolding vm_off_def
  proof (intro conjI ballI allI impI)
    fix d' i' j' assume "d' \<in> ds" "i' < 512" "j' < (1024 :: nat)" "present (pte (set_pte d i j w s) d' i' j')"
    then show "unat (PPN (pte (set_pte d i j w s) d' i' j')) \<in> data ds (set_pte d i j w s)"
      using w mapped_data [OF inv] by (auto simp: e split: if_splits)
  next
    fix f assume "f \<in> data ds (set_pte d i j w s)"
    then show "page_ref (set_pte d i j w s) f = int (card (maps ds (set_pte d i j w s) f)) + (R f + hit (pte s d i j) f - hit w f)"
      using ref_count [OF inv] by (simp add: e)
  qed (use inv in \<open>auto simp: e vm_off_def\<close>)
qed

section \<open>Allocating and freeing a page\<close>

lemma pm_upd_simps [simp]:
  "npage (s\<lparr>pm := x\<rparr>) = npage s" "kmem (s\<lparr>pm := x\<rparr>) = kmem s"
  "tlb_algo_n (s\<lparr>pm := x\<rparr>) = tlb_algo_n s" "cur_pgdir (s\<lparr>pm := x\<rparr>) = cur_pgdir s" "pm (s\<lparr>pm := x\<rparr>) = x"
  by simp_all

lemma views_pm_upd [simp]:
  "pde (s\<lparr>pm := x\<rparr>) = pde s" "tab (s\<lparr>pm := x\<rparr>) = tab s" "pte (s\<lparr>pm := x\<rparr>) = pte s"
  "tables ds (s\<lparr>pm := x\<rparr>) = tables ds s" "maps ds (s\<lparr>pm := x\<rparr>) = maps ds s"
  by (rule views_cong; simp)+

lemma tables_used: "vm_off ds s R \<Longrightarrow> tables ds s \<subseteq> used s - ds"
  by (auto simp: tables_def vm_off_def)

lemma alloc_page_ok:
  assumes inv: "vm_off ds s R" and free: "free_page_set (pm s) \<noteq> {}" and R: "\<And>f. f \<in> free_page_set (pm s) \<Longrightarrow> R f = 0"
  shows "\<exists>p s'. alloc_pages 1 s = Some (Some p, s') \<and> vm_off ds s' R \<and> p \<in> free_page_set (pm s) \<and>
    free_page_set (pm s') = free_page_set (pm s) - {p} \<and> used s' = insert p (used s) \<and> data ds s' = insert p (data ds s) \<and>
    page_ref s' = page_ref s \<and> (\<exists>x. s' = s\<lparr>pm := x\<rparr>)"
proof -
  have pi: "pmm_inv (npage s) (pm s)" using inv by (simp add: vm_off_def)
  obtain r x where a: "default_alloc_pages 1 (pm s) = Some (r, x)" "pmm_inv (npage s) x" "first_fit (pm s) 1 r"
    "managed (npage s) x = managed (npage s) (pm s)"
    "case r of None \<Rightarrow> x = pm s | Some p \<Rightarrow> {p ..< p + 1} \<subseteq> free_page_set (pm s) \<and> free_page_set x = free_page_set (pm s) - {p ..< p + 1}"
    using default_alloc_pages_ok [OF pi, of 1] by auto
  have "r \<noteq> None"
  proof
    assume "r = None"
    then have "\<forall>p \<in> set (free_list (pm s)). pg_property (pages (pm s) p) = 0" using a(3) by (simp add: first_fit_def)
    then have "block_pages (\<lambda>q. pg_property (pages (pm s) q)) (free_list (pm s)) = {}" by (auto simp: block_pages_def)
    then show False using free by (simp add: free_page_set_def)
  qed
  then obtain p where r: "r = Some p" by blast
  let ?s = "s\<lparr>pm := x\<rparr>"
  have fp: "p \<in> free_page_set (pm s)" "free_page_set x = free_page_set (pm s) - {p}" using a(5) r by auto
  have man: "p \<in> managed (npage s) (pm s)" using fp(1) pi by (auto simp: pmm_inv_def)
  have us: "used ?s = insert p (used s)" using fp man a(4) by (auto simp: used_def)
  have p: "p \<notin> used s" using fp by (simp add: used_def)
  then have "p \<notin> tables ds s" "p \<notin> ds" using tables_used [OF inv] inv by (auto simp: vm_off_def)
  then have dt: "data ds ?s = insert p (data ds s)" using us by (auto simp: data_def)
  have ref: "page_ref ?s = page_ref s" using default_alloc_pages_ref [OF a(1)] by (auto simp: page_ref_def)
  have "maps ds s p = {}" using mapped_data [OF inv] p by (auto simp: maps_def data_def)
  then have "page_ref s p = int (card (maps ds s p)) + R p" using inv fp(1) R by (simp add: vm_off_def)
  then have "vm_off ds ?s R"
    using inv a(2) fp p unfolding vm_off_def us dt by (auto simp: ref)
  then show ?thesis using a(1) r fp us dt ref by (intro exI [of _ p] exI [of _ ?s]) (auto simp: alloc_pages_def)
qed

lemma free_page_ok:
  assumes inv: "vm_off ds s R" and p: "p \<in> data ds s" and nomap: "maps ds s p = {}"
  shows "\<exists>s'. free_pages p 1 s = Some s' \<and> vm_off ds s' R \<and> free_page_set (pm s') = insert p (free_page_set (pm s)) \<and>
    used s' = used s - {p} \<and> data ds s' = data ds s - {p} \<and> (\<exists>x. s' = s\<lparr>pm := x\<rparr>)"
proof -
  have pi: "pmm_inv (npage s) (pm s)" using inv by (simp add: vm_off_def)
  have "{p ..< p + 1} \<subseteq> managed (npage s) (pm s)" "{p ..< p + 1} \<inter> free_page_set (pm s) = {}"
    using p by (auto simp: data_def used_def)
  from default_free_pages_ok [OF pi _ this] obtain x where x: "default_free_pages p 1 (pm s) = Some x" "pmm_inv (npage s) x"
    "free_page_set x = free_page_set (pm s) \<union> {p ..< p + 1}" "managed (npage s) x = managed (npage s) (pm s)" by auto
  let ?s = "s\<lparr>pm := x\<rparr>"
  have us: "used ?s = used s - {p}" using x by (auto simp: used_def)
  then have dt: "data ds ?s = data ds s - {p}" by (auto simp: data_def)
  have ref: "page_ref ?s q = (if q = p then 0 else page_ref s q)" for q
    using default_free_pages_ref [OF x(1), of q] by (simp add: page_ref_def)
  have ne: "p \<notin> ds" "p \<notin> tables ds s" using p by (auto simp: data_def)
  have "unat (PPN (pte s d i j)) \<noteq> p" if "d \<in> ds" "i < 512" "j < 1024" "present (pte s d i j)" for d i j
    using nomap that by (auto simp: maps_def)
  moreover have "tab s d i \<noteq> p" if "d \<in> ds" "i < 512" "present (pde s d i)" for d i
    using that ne(2) by (auto simp: tables_def)
  ultimately have "vm_off ds ?s R"
    using inv x(2) ne(1) unfolding vm_off_def us dt by (auto simp: ref x(3))
  then show ?thesis using x us dt by (intro exI [of _ ?s]) (auto simp: free_pages_def)
qed

section \<open>Looking up and creating an entry\<close>

lemma get_pte_addr:
  assumes inv: "vm_off ds s R" and d: "d \<in> ds" "pdx la < 512" "present (pde s d (pdx la))"
  shows "Option.bind (KADDR (npage s) (kmem s (slot d 0 + 4 * PDX la) AND 0xfffff000))
      (\<lambda>k. Some (Some (k + 4 * drop_bit 12 (la AND 0x003ff000)), s)) = Some (Some (slot (tab s d (pdx la)) (ptx la)), s)"
proof -
  have "d \<in> used s" using inv d by (auto simp: vm_off_def)
  then have e: "slot d 0 + 4 * PDX la = slot d (pdx la)"
    using used_lt [OF inv] slot_entry [of d "PDX la"] pdx_lt(1) [of la] by (simp add: pdx_def)
  have t: "tab s d (pdx la) < npage s" "npage s \<le> 2048"
    using tab_used [OF inv d] used_lt [OF inv] inv by (auto simp: vm_off_def)
  have "KADDR (npage s) (pde s d (pdx la) AND 0xfffff000) = Some (slot (tab s d (pdx la)) 0)"
    unfolding tab_def by (rule KADDR_table) (use t in \<open>simp_all add: tab_def\<close>)
  moreover have "slot (tab s d (pdx la)) 0 + 4 * PTX la = slot (tab s d (pdx la)) (ptx la)"
    using t pdx_lt(2) [of la] slot_entry [of "tab s d (pdx la)" "PTX la"] by (simp add: ptx_def)
  ultimately show ?thesis unfolding PTX_mask e by (simp add: pde_def)
qed

lemma dir_entry:
  assumes "vm_off ds s R" "d \<in> ds"
  shows "slot d 0 + 4 * PDX la = slot d (pdx la)" "kmem s (slot d 0 + 4 * PDX la) = pde s d (pdx la)"
proof -
  have "d \<in> used s" using assms by (auto simp: vm_off_def)
  then show "slot d 0 + 4 * PDX la = slot d (pdx la)"
    using used_lt [OF assms(1)] slot_entry [of d "PDX la"] pdx_lt(1) [of la] by (simp add: pdx_def)
  then show "kmem s (slot d 0 + 4 * PDX la) = pde s d (pdx la)" by (simp add: pde_def)
qed

lemma get_pte_lookup:
  assumes inv: "vm_off ds s R" and d: "d \<in> ds" "pdx la < 512"
  shows "get_pte (slot d 0) la False s =
    Some (if present (pde s d (pdx la)) then Some (slot (tab s d (pdx la)) (ptx la)) else None, s)"
proof (cases "present (pde s d (pdx la))")
  case True
  then show ?thesis
    using get_pte_addr [OF inv d True] dir_entry(2) [OF inv d(1), of la]
    by (simp add: get_pte_def Let_def present_def)
next
  case False
  then show ?thesis using dir_entry(2) [OF inv d(1), of la] by (simp add: get_pte_def Let_def present_def)
qed

text \<open>Nothing else changes: the other entries, the contents of the data frames, the processor's registers.\<close>

definition same_ptes :: "nat set \<Rightarrow> (nat \<times> nat \<times> nat) set \<Rightarrow> vmsys \<Rightarrow> vmsys \<Rightarrow> bool" where
  "same_ptes ds X s s' \<longleftrightarrow> (\<forall>d \<in> ds. \<forall>i < 512. \<forall>j < 1024. (d, i, j) \<notin> X \<longrightarrow> pte s' d i j = pte s d i j)"

definition same_contents :: "nat set \<Rightarrow> vmsys \<Rightarrow> vmsys \<Rightarrow> bool" where
  "same_contents F s s' \<longleftrightarrow> (\<forall>f \<in> F. \<forall>j < 1024. kmem s' (slot f j) = kmem s (slot f j))"

lemma clear_page_simps [simp]:
  "npage (clear_page k s) = npage s" "pm (clear_page k s) = pm s" "cur_pgdir (clear_page k s) = cur_pgdir s"
  "tlb_algo_n (clear_page k s) = tlb_algo_n s" "page_ref (clear_page k s) = page_ref s" "used (clear_page k s) = used s"
  by (simp_all add: clear_page_def page_ref_def used_def fun_eq_iff)

lemma slot_in_page:
  assumes "f < 2048" "p < 2048" "j < 1024" shows "slot f j - slot p 0 < PGSIZE \<longleftrightarrow> f = p"
proof (cases "slot p 0 \<le> slot f j")
  case True
  then have "unat (slot f j - slot p 0) = unat (slot f j) - unat (slot p 0)" by (rule unat_sub)
  moreover have "p * 4096 \<le> f * 4096 + 4 * j" using True assms by (simp add: word_le_nat_alt unat_slot)
  ultimately have "unat (slot f j - slot p 0) = f * 4096 + 4 * j - p * 4096" using assms by (simp add: unat_slot)
  moreover have "p \<le> f" using True assms by (simp add: word_le_nat_alt unat_slot)
  ultimately show ?thesis using assms by (auto simp: word_less_nat_alt PGSIZE_def)
next
  case False
  then have lt: "f < p" using assms by (simp add: word_le_nat_alt unat_slot)
  have "unat (slot p 0) - unat (slot f j) \<le> 2 ^ 31" using assms by (simp add: unat_slot)
  moreover have "unat (slot f j - slot p 0) = 2 ^ 32 + unat (slot f j) - unat (slot p 0)"
    using False unat_sub_if' [of "slot f j" "slot p 0"] by (simp add: word_le_nat_alt)
  ultimately show ?thesis using lt assms by (auto simp: word_less_nat_alt PGSIZE_def unat_slot)
qed

lemma clear_page_kmem:
  "f < 2048 \<Longrightarrow> p < 2048 \<Longrightarrow> j < 1024 \<Longrightarrow> kmem (clear_page (slot p 0) s) (slot f j) = (if f = p then 0 else kmem s (slot f j))"
  by (simp add: clear_page_def slot_in_page)

text \<open>A cleared page made the table of an absent directory entry leaves every mapping as it was.\<close>

definition add_table :: "nat \<Rightarrow> nat \<Rightarrow> nat \<Rightarrow> vmsys \<Rightarrow> vmsys" where
  "add_table d i p s = clear_page (slot p 0) (store_word (slot d i) (mk_pte p (PTE_W OR PTE_U)) (set_page_ref p 1 s))"

lemma add_table_ok:
  assumes inv: "vm_off ds s R" and d: "d \<in> ds" "i < 512" "\<not> present (pde s d i)"
    and p: "p \<in> data ds s" "maps ds s p = {}" and s': "s' = add_table d i p s"
  shows "vm_off ds s' R" "pde s' d i = mk_pte p (PTE_W OR PTE_U)" "data ds s' = data ds s - {p}" "same_ptes ds {} s s'"
    "same_contents (data ds s - {p}) s s'" "\<forall>f. f \<noteq> p \<longrightarrow> page_ref s' f = page_ref s f"
    "free_page_set (pm s') = free_page_set (pm s)" "npage s' = npage s"
    "\<forall>d' \<in> ds. \<forall>i' < 512. present (pde s d' i') \<longrightarrow> pde s' d' i' = pde s d' i'"
proof -
  have lt: "f < 2048" if "f \<in> used s" for f using used_lt [OF inv that] by simp
  have ds: "d' \<in> used s" if "d' \<in> ds" for d' using inv that by (auto simp: vm_off_def)
  have pu: "p \<in> used s" "p \<notin> ds" "p \<notin> tables ds s" "p < 2048" using p(1) lt by (auto simp: data_def)
  have km: "kmem s' (slot f j) = (if f = p then 0 else if f = d \<and> j = i then mk_pte p (PTE_W OR PTE_U) else kmem s (slot f j))"
    if "f \<in> used s" "j < 1024" for f j
    using that lt pu ds [OF d(1)] d(2) by (auto simp: s' add_table_def clear_page_kmem slot_inj)
  have pd: "pde s' d' i' = (if d' = d \<and> i' = i then mk_pte p (PTE_W OR PTE_U) else pde s d' i')" if "d' \<in> ds" "i' < 512" for d' i'
    using km [of d' i'] that ds pu(2) by (auto simp: pde_def)
  then show pdi: "pde s' d i = mk_pte p (PTE_W OR PTE_U)" using d by simp
  show "\<forall>d' \<in> ds. \<forall>i' < 512. present (pde s d' i') \<longrightarrow> pde s' d' i' = pde s d' i'" using pd d(3) by auto
  have pt: "tab s' d i = p" using pdi pu by (simp add: tab_def mk_pte_page perm_okI)
  have tb: "tab s' d' i' = (if d' = d \<and> i' = i then p else tab s d' i')" if "d' \<in> ds" "i' < 512" for d' i'
    using pd [OF that] pt by (auto simp: tab_def)
  have pte: "pte s' d' i' j' = pte s d' i' j'" if h: "d' \<in> ds" "i' < 512" "j' < 1024" for d' i' j'
  proof (cases "d' = d \<and> i' = i")
    case True
    then show ?thesis using km [OF pu(1) h(3)] pd [OF h(1,2)] pt d(3) by (auto simp: pte_def)
  next
    case False
    have t: "tab s d' i' \<in> used s \<and> tab s d' i' \<notin> ds \<and> tab s d' i' \<noteq> p" if "present (pde s d' i')"
      using tab_used [OF inv h(1,2) that] that h pu(3) by (auto simp: tables_def)
    then show ?thesis using False km [of "tab s d' i'" j'] pd [OF h(1,2)] tb [OF h(1,2)] h(3) d(1) by (auto simp: pte_def)
  qed
  then show "same_ptes ds {} s s'" by (simp add: same_ptes_def)
  have mp: "maps ds s' f = maps ds s f" for f by (auto simp: maps_def pte)
  have us: "used s' = used s" "pm s' = pm (set_page_ref p 1 s)" and np: "npage s' = npage s" by (simp_all add: s' add_table_def)
  then show "free_page_set (pm s') = free_page_set (pm s)" "npage s' = npage s" by simp_all
  have "tables ds s' = insert p (tables ds s)"
  proof -
    have "tables ds s' \<subseteq> insert p (tables ds s)" by (auto simp: tables_def pd tb split: if_splits) blast+
    moreover have "p \<in> tables ds s'" using d pdi pt mk_pte_present unfolding tables_def by force
    moreover have "x \<in> tables ds s'" if "x \<in> tables ds s" for x
    proof -
      from that obtain d' i' where x: "x = tab s d' i'" "d' \<in> ds" "i' < 512" "present (pde s d' i')" by (auto simp: tables_def)
      moreover have "\<not> (d' = d \<and> i' = i)" using x(4) d(3) by auto
      ultimately have "x = tab s' d' i' \<and> d' \<in> ds \<and> i' < 512 \<and> present (pde s' d' i')" using pd [of d' i'] tb [of d' i'] by auto
      then show ?thesis unfolding tables_def by blast
    qed
    ultimately show ?thesis by blast
  qed
  then show dt: "data ds s' = data ds s - {p}" using us by (auto simp: data_def)
  have rf: "page_ref s' f = (if f = p then 1 else page_ref s f)" for f by (simp add: s' add_table_def)
  then show "\<forall>f. f \<noteq> p \<longrightarrow> page_ref s' f = page_ref s f" by simp
  show "same_contents (data ds s - {p}) s s'"
    using km d(1) by (auto simp: same_contents_def data_def)
  have npm: "unat (PPN (pte s d' i' j')) \<noteq> p" if "d' \<in> ds" "i' < 512" "j' < 1024" "present (pte s d' i' j')" for d' i' j'
    using p(2) that by (auto simp: maps_def)
  have pf: "p \<notin> free_page_set (pm s)" using pu(1) by (simp add: used_def)
  have nt: "tab s d' i' \<noteq> p" if "d' \<in> ds" "i' < 512" "present (pde s d' i')" for d' i'
    using that pu(3) by (auto simp: tables_def)
  show "vm_off ds s' R" unfolding vm_off_def
  proof (intro conjI ballI allI impI)
    fix d' i' assume "d' \<in> ds" "i' < 512" "present (pde s' d' i')"
    then show "tab s' d' i' \<in> used s' - ds" using tab_used [OF inv] pu us by (auto simp: pd tb split: if_splits)
  next
    fix d' d'' i' i'' assume "d' \<in> ds" "d'' \<in> ds" "i' < 512" "i'' < 512"
      "present (pde s' d' i') \<and> present (pde s' d'' i'') \<and> tab s' d' i' = tab s' d'' i''"
    then show "d' = d''" "i' = i''"
      using tab_inj [OF inv, of d' d'' i' i''] nt [of d' i'] nt [of d'' i''] by (auto simp: pd tb split: if_splits)
  next
    fix d' i' j' assume "d' \<in> ds" "i' < 512" "j' < (1024 :: nat)" "present (pte s' d' i' j')"
    then show "unat (PPN (pte s' d' i' j')) \<in> data ds s'" using mapped_data [OF inv] npm by (simp add: pte dt)
  next
    fix f assume "f \<in> data ds s'"
    then show "page_ref s' f = int (card (maps ds s' f)) + R f" using ref_count [OF inv, of f] by (simp add: dt rf mp)
  qed (use inv pf in \<open>auto simp: us np rf vm_off_def\<close>)
qed

lemma mk_pte_dir: "page2pa p OR PTE_P OR PTE_W OR PTE_U = mk_pte p (PTE_W OR PTE_U)"
  by (simp add: mk_pte_def)

lemma get_pte_create:
  assumes inv: "vm_off ds s R" and d: "d \<in> ds" "pdx la < 512"
    and room: "present (pde s d (pdx la)) \<or> free_page_set (pm s) \<noteq> {}" and R: "\<forall>f \<in> free_page_set (pm s). R f = 0"
  shows "\<exists>s'. get_pte (slot d 0) la True s = Some (Some (slot (tab s' d (pdx la)) (ptx la)), s') \<and> vm_off ds s' R \<and>
    present (pde s' d (pdx la)) \<and> same_ptes ds {} s s' \<and> data ds s' = data ds s \<and> same_contents (data ds s) s s' \<and>
    (\<forall>f \<in> data ds s. page_ref s' f = page_ref s f) \<and> free_page_set (pm s') \<subseteq> free_page_set (pm s) \<and>
    npage s' = npage s \<and> cur_pgdir s' = cur_pgdir s \<and> tlb_algo_n s' = tlb_algo_n s \<and> swap_init_ok s' = swap_init_ok s \<and>
    (present (pde s d (pdx la)) \<longrightarrow> s' = s) \<and> card (free_page_set (pm s)) \<le> card (free_page_set (pm s')) + 1 \<and>
    (\<forall>d' \<in> ds. \<forall>i' < 512. present (pde s d' i') \<longrightarrow> pde s' d' i' = pde s d' i')"
proof (cases "present (pde s d (pdx la))")
  case True
  have "get_pte (slot d 0) la True s = Some (Some (slot (tab s d (pdx la)) (ptx la)), s)"
    using get_pte_addr [OF inv d True] dir_entry(2) [OF inv d(1), of la] True by (simp add: get_pte_def Let_def present_def)
  then show ?thesis using True inv by (intro exI [of _ s]) (simp add: same_ptes_def same_contents_def)
next
  case False
  let ?i = "pdx la"
  obtain p s1 where a: "alloc_pages 1 s = Some (Some p, s1)" "vm_off ds s1 R" "p \<in> free_page_set (pm s)"
    "free_page_set (pm s1) = free_page_set (pm s) - {p}" "used s1 = insert p (used s)" "data ds s1 = insert p (data ds s)"
    "page_ref s1 = page_ref s" "\<exists>x. s1 = s\<lparr>pm := x\<rparr>"
    using alloc_page_ok [OF inv] room False R by blast
  obtain x where x: "s1 = s\<lparr>pm := x\<rparr>" using a(8) by blast
  have pn: "p \<notin> data ds s" using a(3) by (simp add: data_def used_def)
  have v: "pde s1 = pde s" "maps ds s1 p = maps ds s p" "pte s1 = pte s" "kmem s1 = kmem s" "npage s1 = npage s" by (simp_all add: x)
  have "maps ds s p = {}" using mapped_data [OF inv] pn by (auto simp: maps_def)
  then have mp: "maps ds s1 p = {}" using v by simp
  define s4 where "s4 = add_table d ?i p s1"
  have pd1: "p \<in> data ds s1" using a(6) by simp
  have np1: "\<not> present (pde s1 d ?i)" using False v by simp
  note t = add_table_ok [OF a(2) d np1 pd1 mp s4_def]
  have p2: "p < npage s1" "npage s1 \<le> 2048" using used_lt [OF a(2), of p] a(5) a(2) by (auto simp: vm_off_def)
  have pr: "present (pde s4 d ?i)" using t(2) by simp
  have "get_pte (slot d 0) la True s = Option.bind (KADDR (npage s4) (kmem s4 (slot d 0 + 4 * PDX la) AND 0xfffff000))
      (\<lambda>k. Some (Some (k + 4 * drop_bit 12 (la AND 0x003ff000)), s4))"
    using False a(1) dir_entry [OF inv d(1), of la] KADDR_page [OF p2] v(5)
    by (simp add: get_pte_def Let_def present_def s4_def add_table_def mk_pte_dir)
  also have "\<dots> = Some (Some (slot (tab s4 d ?i) (ptx la)), s4)" by (rule get_pte_addr [OF t(1) d pr])
  finally have "get_pte (slot d 0) la True s = Some (Some (slot (tab s4 d ?i) (ptx la)), s4)" .
  moreover have "same_ptes ds {} s s4" using t(4) v by (simp add: same_ptes_def)
  moreover have dt: "data ds s4 = data ds s" using t(3) a(6) pn by auto
  moreover have "same_contents (data ds s) s s4" using t(5) a(6) pn v by (auto simp: same_contents_def)
  moreover have "\<forall>f \<in> data ds s. page_ref s4 f = page_ref s f" using t(6) pn a(7) by metis
  moreover have "npage s4 = npage s" "cur_pgdir s4 = cur_pgdir s" "tlb_algo_n s4 = tlb_algo_n s" "swap_init_ok s4 = swap_init_ok s"
    by (simp_all add: s4_def add_table_def x clear_page_def store_word_def)
  moreover have "card (free_page_set (pm s)) \<le> card (free_page_set (pm s4)) + 1"
    using a(4) t(7) by (simp add: card_Diff_singleton_if) linarith
  moreover have "\<forall>d' \<in> ds. \<forall>i' < 512. present (pde s d' i') \<longrightarrow> pde s4 d' i' = pde s d' i'" using t(9) v by simp
  ultimately show ?thesis using pr t(1) t(7) a(4) False by (intro exI [of _ s4]) auto
qed

section \<open>The TLB does not affect the tables beyond its own bits\<close>

lemma TLBPAIR_change: "TLBPAIR la = change_bit 12 la"
  by (simp add: TLBPAIR_def change_bit_def push_bit_eq_mult)

lemma bit_TLBPAIR: "bit (TLBPAIR la) k \<longleftrightarrow> bit la k \<noteq> (k = 12)"
  unfolding TLBPAIR_change by (rule bit_change_bit) simp

lemma pdx_pair: "pdx (TLBPAIR la) = pdx la"
proof -
  have "PDX (TLBPAIR la) = PDX la"
    by (rule bit_word_eqI) (auto simp: bit_PDX bit_TLBPAIR)
  then show ?thesis by (simp add: pdx_def)
qed

lemma get_pte_pm: "get_pte pgd la False (s\<lparr>pm := x\<rparr>) = map_option (\<lambda>(a, t). (a, t\<lparr>pm := x\<rparr>)) (get_pte pgd la False s)"
  by (cases "KADDR (npage s) (kmem s (pgd + 4 * PDX la) AND 0xfffff000)") (auto simp: get_pte_def Let_def)

lemma get_pte_False_state: "get_pte pgd la False s = Some (a, t) \<Longrightarrow> t = s"
  by (cases "KADDR (npage s) (kmem s (pgd + 4 * PDX la) AND 0xfffff000)") (auto simp: get_pte_def Let_def split: if_splits)

lemma tlb_del_callback_pm: "tlb_del_callback idx (s\<lparr>pm := x\<rparr>) = map_option (\<lambda>t. t\<lparr>pm := x\<rparr>) (tlb_del_callback idx s)"
  by (simp add: tlb_del_callback_def)

lemma tlb_write_simps [simp]:
  "npage (tlb_write idx hi l0 l1 s) = npage s" "pm (tlb_write idx hi l0 l1 s) = pm s" "kmem (tlb_write idx hi l0 l1 s) = kmem s"
  "cur_pgdir (tlb_write idx hi l0 l1 s) = cur_pgdir s" "tlb_algo_n (tlb_write idx hi l0 l1 s) = tlb_algo_n s"
  "swap_init_ok (tlb_write idx hi l0 l1 s) = swap_init_ok s"
  by (simp_all add: tlb_write_def)

lemma tlb_del_callback_simps:
  "tlb_del_callback idx s = Some t \<Longrightarrow>
     npage t = npage s \<and> pm t = pm s \<and> kmem t = kmem s \<and> cur_pgdir t = cur_pgdir s \<and> tlb t = tlb s \<and> swap_init_ok t = swap_init_ok s"
  by (auto simp: tlb_del_callback_def split: if_splits)

text \<open>The effect of \<open>tlb_invalidate\<close> outside the TLB: the entry of \<open>la\<close> may lose its TLB bit.\<close>

definition tlb_room :: "nat \<Rightarrow> nat \<Rightarrow> nat \<Rightarrow> vmsys \<Rightarrow> bool" where
  "tlb_room d i j s \<longleftrightarrow> slot d 0 \<noteq> cur_pgdir s \<or> tlb_algo_n s < TLBN \<or> pte s d i j AND TLB_P = 0"

lemma tlb_invalidate_ok:
  assumes inv: "vm_off ds s R" and d: "d \<in> ds" "pdx la < 512" "present (pde s d (pdx la))" and room: "tlb_room d (pdx la) (ptx la) s"
  shows "\<exists>t w. tlb_invalidate (slot d 0) la s = Some t \<and> pm t = pm s \<and> npage t = npage s \<and> cur_pgdir t = cur_pgdir s \<and>
    swap_init_ok t = swap_init_ok s \<and> kmem t = (kmem s)(slot (tab s d (pdx la)) (ptx la) := w)"
proof (cases "slot d 0 \<noteq> cur_pgdir s \<or> kmem s (slot (tab s d (pdx la)) (ptx la)) AND TLB_P = 0")
  case True
  then have "tlb_invalidate (slot d 0) la s = Some s"
    using get_pte_lookup [OF inv d(1,2)] d(3) by (auto simp: tlb_invalidate_def)
  then show ?thesis by (intro exI [of _ s] exI [of _ "kmem s (slot (tab s d (pdx la)) (ptx la))"]) simp
next
  case False
  let ?a = "slot (tab s d (pdx la)) (ptx la)"
  let ?b = "slot (tab s d (pdx la)) (ptx (TLBPAIR la))"
  have n: "tlb_algo_n s < TLBN" using room False d(3) by (simp add: tlb_room_def pte_def)
  have g: "get_pte (cur_pgdir s) la False s = Some (Some ?a, s)"
    using get_pte_lookup [OF inv d(1,2)] d(3) False by simp
  have g2: "get_pte (cur_pgdir s) (TLBPAIR la) False s = Some (Some ?b, s)"
    using get_pte_lookup [OF inv d(1), of "TLBPAIR la"] d False by (simp add: pdx_pair)
  obtain t where t: "tlb_del_callback (TLBIDX (kmem s ?a)) s = Some t"
    using n by (simp add: tlb_del_callback_def)
  note e = tlb_invalidate_def Let_def
  show ?thesis
  proof (cases "kmem s ?b AND TLB_P = 0")
    case True
    then show ?thesis
      using False g g2 t tlb_del_callback_simps [OF t] by (auto simp: e)
  next
    case False
    then show ?thesis using \<open>\<not> (_ \<or> _)\<close> g g2 by (auto simp: e)
  qed
qed

lemma tlb_invalidate_pm:
  "tlb_invalidate pgd la (s\<lparr>pm := x\<rparr>) = map_option (\<lambda>t. t\<lparr>pm := x\<rparr>) (tlb_invalidate pgd la s)"
proof -
  have w: "tlb_write idx hi l0 l1 (t\<lparr>pm := x\<rparr>) = (tlb_write idx hi l0 l1 t)\<lparr>pm := x\<rparr>" for idx hi l0 l1 t
    by (simp add: tlb_write_def)
  have st: "store_word a v (t\<lparr>pm := x\<rparr>) = (store_word a v t)\<lparr>pm := x\<rparr>" for a v t by (simp add: store_word_def)
  note e = tlb_invalidate_def Let_def get_pte_pm tlb_del_callback_pm w st
  show ?thesis
  proof (cases "pgd = cur_pgdir s")
    case False
    then show ?thesis by (simp add: e)
  next
    case cur: True
    show ?thesis
  proof (cases "get_pte (cur_pgdir s) la False s")
    case (Some r)
    then obtain ptep where g: "get_pte (cur_pgdir s) la False s = Some (ptep, s)" using get_pte_False_state by (metis prod.collapse)
    show ?thesis
    proof (cases "get_pte (cur_pgdir s) (TLBPAIR la) False s")
      case None
      then show ?thesis using g cur by (auto simp: e split: option.splits)
    next
      case (Some r2)
      then obtain ptep2 where g2: "get_pte (cur_pgdir s) (TLBPAIR la) False s = Some (ptep2, s)" using get_pte_False_state by (metis prod.collapse)
      show ?thesis
      proof (cases ptep)
        case None
        then show ?thesis using g cur by (simp add: e)
      next
        case (Some a)
        then show ?thesis using g g2 cur
          by (cases ptep2; cases "tlb_del_callback (TLBIDX (kmem s a)) s") (auto simp: e)
      qed
    qed
  qed (simp add: e cur)
  qed
qed

section \<open>Removing and inserting mappings\<close>

lemma vm_off_cong:
  assumes "kmem s' = kmem s" "pm s' = pm s" "npage s' = npage s"
  shows "vm_off ds s' R = vm_off ds s R" "data ds s' = data ds s" "page_ref s' = page_ref s"
proof -
  show r: "page_ref s' = page_ref s" using assms by (simp add: page_ref_def fun_eq_iff)
  show d: "data ds s' = data ds s" using views_cong(4) [OF assms(1)] assms by (simp add: data_def used_def)
  show "vm_off ds s' R = vm_off ds s R"
    unfolding vm_off_def views_cong [OF assms(1)] r d assms(2,3) by (simp add: used_def assms)
qed

lemma card_one: "finite A \<Longrightarrow> x \<in> A \<Longrightarrow> int (card A) = 1 \<longleftrightarrow> A = {x}"
  by (metis card_1_singletonE is_singletonI is_singleton_altdef of_nat_1_eq_iff singletonD)

lemma page_remove_pte_ok:
  assumes inv: "vm_off ds s R" and d: "d \<in> ds" "pdx la < 512" "present (pde s d (pdx la))"
    and p: "present (pte s d (pdx la) (ptx la))" "p = unat (PPN (pte s d (pdx la) (ptx la)))" "R p = 0"
    and room: "tlb_room d (pdx la) (ptx la) s"
  shows "\<exists>s'. page_remove_pte (slot d 0) la (slot (tab s d (pdx la)) (ptx la)) s = Some s' \<and> vm_off ds s' R \<and>
    kmem s' = (kmem s)(slot (tab s d (pdx la)) (ptx la) := 0) \<and>
    data ds s' = (if maps ds s p = {(d, pdx la, ptx la)} then data ds s - {p} else data ds s) \<and>
    (\<forall>f. f \<noteq> p \<longrightarrow> page_ref s' f = page_ref s f) \<and>
    npage s' = npage s \<and> cur_pgdir s' = cur_pgdir s \<and> swap_init_ok s' = swap_init_ok s \<and>
    free_page_set (pm s') = (if maps ds s p = {(d, pdx la, ptx la)} then insert p (free_page_set (pm s)) else free_page_set (pm s))"
proof -
  let ?i = "pdx la" and ?j = "ptx la" and ?a = "slot (tab s d (pdx la)) (ptx la)"
  have j: "?j < 1024" by (rule pdx_lt)
  have ka: "kmem s ?a = pte s d ?i ?j" using d(3) by (simp add: pte_def)
  have pd: "p \<in> data ds s" using mapped_data [OF inv d(1,2) j p(1)] p(2) by simp
  have pn: "p < npage s" using used_lt [OF inv, of p] pd by (simp add: data_def)
  have mem: "(d, ?i, ?j) \<in> maps ds s p" using d j p by (simp add: maps_def)
  define s1 where "s1 = page_ref_dec p s"
  have i1: "vm_off ds s1 (R(p := - 1))"
    using vm_off_set_ref [OF inv pd, of "- 1"] p(3) by (simp add: s1_def page_ref_dec_def)
  have v1: "pde s1 = pde s" "tab s1 = tab s" "pte s1 = pte s" "maps ds s1 = maps ds s" "data ds s1 = data ds s" "kmem s1 = kmem s"
    "npage s1 = npage s" "cur_pgdir s1 = cur_pgdir s" "tlb_algo_n s1 = tlb_algo_n s" "free_page_set (pm s1) = free_page_set (pm s)"
    "swap_init_ok s1 = swap_init_ok s"
    by (simp_all add: s1_def page_ref_dec_def)
  have r1: "page_ref s1 f = (if f = p then page_ref s p - 1 else page_ref s f)" for f
    by (simp add: s1_def page_ref_dec_def)
  have d1: "present (pde s1 d ?i)" "tlb_room d ?i ?j s1" using d(3) room by (simp_all add: v1 tlb_room_def)
  obtain t w where t: "tlb_invalidate (slot d 0) la s1 = Some t" "pm t = pm s1" "npage t = npage s1" "cur_pgdir t = cur_pgdir s1"
    "swap_init_ok t = swap_init_ok s1" "kmem t = (kmem s1)(?a := w)"
    using tlb_invalidate_ok [OF i1 d(1,2) d1] unfolding v1 by blast
  define u where "u = store_word ?a 0 t"
  have ku: "kmem u = (kmem s)(?a := 0)" by (simp add: u_def t v1)
  have eq: "kmem u = kmem (set_pte d ?i ?j 0 s1)" "pm u = pm (set_pte d ?i ?j 0 s1)" "npage u = npage (set_pte d ?i ?j 0 s1)"
    using ku by (simp_all add: u_def t set_pte_def v1)
  have "hit (pte s1 d ?i ?j) f = (if f = p then 1 else 0)" "hit 0 f = 0" for f
    using p by (auto simp: hit_def v1 present_def)
  then have R: "(\<lambda>f. (R(p := - 1)) f + hit (pte s1 d ?i ?j) f - hit 0 f) = R" using p(3) by auto
  have iu: "vm_off ds u R"
    using vm_off_set_pte [OF i1 d(1,2) j d1(1), of 0] unfolding R vm_off_cong(1) [OF eq] by (simp add: present_def)
  have du: "data ds u = data ds s" using set_pte_views(5) [OF i1 d(1,2) j d1(1)] vm_off_cong(2) [OF eq] v1 by simp
  have mu: "maps ds u p = maps ds s p - {(d, ?i, ?j)}"
    unfolding views_cong(5) [OF eq(1)] using set_pte_views(3) [OF i1 d(1,2) j d1(1)] j
    by (auto simp: maps_def v1 present_def split: if_splits)
  have ref: "page_ref s p = int (card (maps ds s p))" using ref_count [OF inv pd] p(3) by simp
  have zero: "page_ref s1 p = 0 \<longleftrightarrow> maps ds s p = {(d, ?i, ?j)}"
    using card_one [OF finite_maps [OF inv] mem] by (simp add: r1 ref)
  have pre: "pte2page (npage s) (kmem s ?a) = Some p" "kmem s ?a AND PTE_P > 0"
    using p pn by (simp_all add: ka pte2page_eq present_pos)
  show ?thesis
  proof (cases "maps ds s p = {(d, ?i, ?j)}")
    case True
    have "maps ds u p = {}" using mu True by simp
    then obtain s' x where s': "free_pages p 1 u = Some s'" "vm_off ds s' R" "free_page_set (pm s') = insert p (free_page_set (pm u))"
      "data ds s' = data ds u - {p}" "s' = u\<lparr>pm := x\<rparr>"
      using free_page_ok [OF iu, of p] du pd by blast
    have x: "default_free_pages p 1 (pm s1) = Some x"
      using s'(1,5) t(2) by (auto simp: free_pages_def u_def dest!: arg_cong [where f = pm])
    have "page_remove_pte (slot d 0) la ?a s = Some (store_word ?a 0 (t\<lparr>pm := x\<rparr>))"
      using pre zero True x t(1)
      by (simp add: page_remove_pte_def s1_def [symmetric] free_pages_def tlb_invalidate_pm)
    moreover have "store_word ?a 0 (t\<lparr>pm := x\<rparr>) = s'" by (simp add: s'(5) u_def store_word_def)
    moreover have "\<forall>f. f \<noteq> p \<longrightarrow> page_ref s' f = page_ref s f"
      using default_free_pages_ref [OF x] r1 by (auto simp: s'(5) page_ref_def)
    ultimately show ?thesis
      using s' True du ku by (intro exI [of _ s']) (simp add: u_def t v1)
  next
    case False
    have "page_remove_pte (slot d 0) la ?a s = Some u"
      using pre zero False t(1) by (simp add: page_remove_pte_def s1_def [symmetric] u_def)
    moreover have "\<forall>f. f \<noteq> p \<longrightarrow> page_ref u f = page_ref s f" using r1 t(2) by (simp add: u_def page_ref_def)
    ultimately show ?thesis using iu du ku False by (intro exI [of _ u]) (simp add: u_def t v1)
  qed
qed

lemma set_kmem_views:
  assumes inv: "vm_off ds s R" and d: "d \<in> ds" "i < 512" "j < 1024" "present (pde s d i)"
    and k: "kmem s' = (kmem s)(slot (tab s d i) j := w)"
  shows "pte s' d i j = w" "present (pde s' d i)" "tab s' d i = tab s d i" "same_ptes ds {(d, i, j)} s s'" "same_contents (data ds s) s s'"
    "\<forall>d' \<in> ds. \<forall>i' < 512. pde s' d' i' = pde s d' i'"
proof -
  have k': "kmem s' = kmem (set_pte d i j w s)" by (simp add: k set_pte_def)
  note v = set_pte_views [OF inv d, where w = w]
  show "pte s' d i j = w" "present (pde s' d i)" "tab s' d i = tab s d i" "same_ptes ds {(d, i, j)} s s'"
    using v(1-3) d unfolding same_ptes_def views_cong [OF k'] by simp_all
  show "same_contents (data ds s) s s'" unfolding same_contents_def k' using v(6) by simp
  show "\<forall>d' \<in> ds. \<forall>i' < 512. pde s' d' i' = pde s d' i'" unfolding views_cong [OF k'] using v(1) by simp
qed

lemma same_ptes_trans: "same_ptes ds X s t \<Longrightarrow> same_ptes ds X t u \<Longrightarrow> same_ptes ds X s u"
  by (simp add: same_ptes_def)

lemma same_contents_trans: "same_contents A s t \<Longrightarrow> same_contents B t u \<Longrightarrow> same_contents (A \<inter> B) s u"
  by (simp add: same_contents_def)

lemma page_insert_ok:
  assumes inv: "vm_inv ds s" and d: "d \<in> ds" "pdx la < 512" and page: "page \<in> data ds s" and perm: "perm_ok perm"
    and room: "present (pde s d (pdx la)) \<or> free_page_set (pm s) \<noteq> {}" "tlb_room d (pdx la) (ptx la) s"
  shows "\<exists>s'. page_insert (slot d 0) page la perm s = Some (0, s') \<and> vm_inv ds s' \<and> page \<in> data ds s' \<and>
    pte s' d (pdx la) (ptx la) = mk_pte page perm \<and> same_ptes ds {(d, pdx la, ptx la)} s s' \<and> same_contents (data ds s) s s' \<and>
    cur_pgdir s' = cur_pgdir s \<and> npage s' = npage s \<and> swap_init_ok s' = swap_init_ok s \<and>
    (present (pde s d (pdx la)) \<and> \<not> present (pte s d (pdx la) (ptx la)) \<longrightarrow>
       free_page_set (pm s') = free_page_set (pm s) \<and> data ds s' = data ds s) \<and>
    (\<forall>d' \<in> ds. \<forall>i' < 512. present (pde s d' i') \<longrightarrow> pde s' d' i' = pde s d' i')"
proof -
  let ?i = "pdx la" and ?j = "ptx la"
  have j: "?j < 1024" by (rule pdx_lt)
  have inv0: "vm_off ds s (\<lambda>_. 0)" using inv by (simp add: vm_inv_def)
  obtain s1 where g: "get_pte (slot d 0) la True s = Some (Some (slot (tab s1 d ?i) ?j), s1)" and i1: "vm_off ds s1 (\<lambda>_. 0)"
    and p1: "present (pde s1 d ?i)" and sp: "same_ptes ds {} s s1" and dt: "data ds s1 = data ds s" and sc: "same_contents (data ds s) s s1"
    and rg: "npage s1 = npage s" "cur_pgdir s1 = cur_pgdir s" "tlb_algo_n s1 = tlb_algo_n s" "swap_init_ok s1 = swap_init_ok s"
    and st: "present (pde s d ?i) \<longrightarrow> s1 = s" "\<forall>d' \<in> ds. \<forall>i' < 512. present (pde s d' i') \<longrightarrow> pde s1 d' i' = pde s d' i'"
    using get_pte_create [OF inv0 d room(1)] by auto
  let ?a = "slot (tab s1 d ?i) ?j"
  define s2 where "s2 = page_ref_inc page s1"
  have pd: "page \<in> data ds s1" using page dt by simp
  have i2: "vm_off ds s2 ((\<lambda>_. 0)(page := 1))"
    using vm_off_set_ref [OF i1 pd, of 1] by (simp add: s2_def page_ref_inc_def)
  have v2: "pde s2 = pde s1" "tab s2 = tab s1" "pte s2 = pte s1" "maps ds s2 = maps ds s1" "data ds s2 = data ds s1" "kmem s2 = kmem s1"
    "npage s2 = npage s1" "cur_pgdir s2 = cur_pgdir s1" "tlb_algo_n s2 = tlb_algo_n s1" "swap_init_ok s2 = swap_init_ok s1"
    by (simp_all add: s2_def page_ref_inc_def)
  have ka: "kmem s2 ?a = pte s1 d ?i ?j" using p1 by (simp add: pte_def v2)
  have old: "pte s1 d ?i ?j = pte s d ?i ?j" using sp d j by (simp add: same_ptes_def)
  have rm: "tlb_room d ?i ?j s2" using room(2) by (simp add: tlb_room_def v2 rg old)
  let ?o = "pte s1 d ?i ?j"
  have upd: "(kmem s2)(?a := ?o) = kmem s2" using ka by (metis fun_upd_triv)
  have "\<exists>s3 v R. (if kmem s2 ?a AND PTE_P \<noteq> 0 then do {
               p \<leftarrow> pte2page (npage s2) (kmem s2 ?a);
               if p = page then Some (page_ref_dec page s2) else page_remove_pte (slot d 0) la ?a s2
             } else Some s2) = Some s3 \<and> vm_off ds s3 R \<and> kmem s3 = (kmem s2)(?a := v) \<and> page \<in> data ds s3 \<and>
        (\<forall>f. R f + hit v f = (if f = page then 1 else 0)) \<and> tlb_room d ?i ?j s3 \<and>
        npage s3 = npage s2 \<and> cur_pgdir s3 = cur_pgdir s2 \<and> swap_init_ok s3 = swap_init_ok s2"
  proof (cases "present ?o")
    case False
    then show ?thesis using i2 pd rm v2(5) upd
      by (intro exI [of _ s2] exI [of _ ?o] exI [of _ "(\<lambda>_. 0)(page := 1)"]) (simp add: ka present_def hit_def)
  next
    case True
    let ?p = "unat (PPN ?o)"
    have "?p \<in> data ds s2" using mapped_data [OF i1 d j True] v2 by simp
    then have "?p < npage s2" using used_lt [OF i2] by (simp add: data_def)
    then have pp: "pte2page (npage s2) (kmem s2 ?a) = Some ?p" using True by (simp add: ka pte2page_eq)
    show ?thesis
    proof (cases "?p = page")
      case same: True
      have dec: "page_ref_dec page s2 = set_page_ref page (page_ref s2 page + - 1) s2" by (simp add: page_ref_dec_def)
      have "vm_off ds (page_ref_dec page s2) (((\<lambda>_. 0)(page := 1))(page := ((\<lambda>_. 0)(page := 1)) page + - 1))"
        unfolding dec by (rule vm_off_set_ref [OF i2]) (use pd v2 in simp)
      then have "vm_off ds (page_ref_dec page s2) (\<lambda>_. 0)" by (simp add: fun_upd_idem)
      moreover have "tlb_room d ?i ?j (page_ref_dec page s2)" using rm by (simp add: tlb_room_def page_ref_dec_def)
      ultimately show ?thesis using True same pp pd v2(5) upd
        by (intro exI [of _ "page_ref_dec page s2"] exI [of _ ?o] exI [of _ "\<lambda>_. 0"])
          (auto simp: ka present_def hit_def page_ref_dec_def)
    next
      case diff: False
      have "present (pde s2 d ?i)" "present (pte s2 d ?i ?j)" using p1 True v2 by simp_all
      from page_remove_pte_ok [OF i2 d this refl _ rm] diff v2 obtain s3 where
        s3: "page_remove_pte (slot d 0) la ?a s2 = Some s3" "vm_off ds s3 ((\<lambda>_. 0)(page := 1))" "kmem s3 = (kmem s2)(?a := 0)"
        "data ds s3 = (if maps ds s2 ?p = {(d, ?i, ?j)} then data ds s2 - {?p} else data ds s2)"
        "npage s3 = npage s2" "cur_pgdir s3 = cur_pgdir s2" "swap_init_ok s3 = swap_init_ok s2"
        by auto
      have "page \<in> data ds s3" using s3(4) pd v2 diff by auto
      moreover have "pte s3 d ?i ?j = 0"
        using set_kmem_views(1) [OF i2 d j, of s3 0] p1 v2 s3(3) by simp
      ultimately show ?thesis using True diff pp s3
        by (intro exI [of _ s3] exI [of _ 0] exI [of _ "(\<lambda>_. 0)(page := 1)"]) (auto simp: ka present_def hit_def tlb_room_def)
    qed
  qed
  then obtain s3 v R where s3: "(if kmem s2 ?a AND PTE_P \<noteq> 0 then do {
               p \<leftarrow> pte2page (npage s2) (kmem s2 ?a);
               if p = page then Some (page_ref_dec page s2) else page_remove_pte (slot d 0) la ?a s2
             } else Some s2) = Some s3" "vm_off ds s3 R" "kmem s3 = (kmem s2)(?a := v)" "page \<in> data ds s3"
        "\<forall>f. R f + hit v f = (if f = page then 1 else 0)" "tlb_room d ?i ?j s3"
        "npage s3 = npage s2" "cur_pgdir s3 = cur_pgdir s2" "swap_init_ok s3 = swap_init_ok s2" by blast
  have p2: "present (pde s2 d ?i)" using p1 v2 by simp
  have k3: "kmem s3 = (kmem s2)(slot (tab s2 d ?i) ?j := v)" using s3(3) v2 by simp
  note v3 = set_kmem_views [OF i2 d j p2 k3]
  obtain t w where t: "tlb_invalidate (slot d 0) la s3 = Some t" "pm t = pm s3" "npage t = npage s3" "cur_pgdir t = cur_pgdir s3"
    "swap_init_ok t = swap_init_ok s3" "kmem t = (kmem s3)(slot (tab s3 d ?i) ?j := w)"
    using tlb_invalidate_ok [OF s3(2) d v3(2) s3(6)] by blast
  define u where "u = store_word ?a (mk_pte page perm) t"
  have t3: "tab s3 d ?i = tab s1 d ?i" using v3(3) v2 by simp
  have eq: "kmem u = kmem (set_pte d ?i ?j (mk_pte page perm) s3)" "pm u = pm (set_pte d ?i ?j (mk_pte page perm) s3)"
    "npage u = npage (set_pte d ?i ?j (mk_pte page perm) s3)"
    by (simp_all add: u_def t t3 set_pte_def)
  have p2048: "page < 2048" using used_lt [OF s3(2), of page] s3(4) by (simp add: data_def)
  have "(\<lambda>f. R f + hit (pte s3 d ?i ?j) f - hit (mk_pte page perm) f) = (\<lambda>_. 0)"
    using s3(5) by (auto simp: v3(1) hit_def mk_pte_page [OF p2048 perm])
  then have "vm_off ds u (\<lambda>_. 0)"
    using vm_off_set_pte [OF s3(2) d j v3(2), of "mk_pte page perm"] s3(4) vm_off_cong(1) [OF eq]
    by (simp add: mk_pte_page [OF p2048 perm])
  moreover have du: "data ds u = data ds s3"
    using set_pte_views(5) [OF s3(2) d j v3(2)] vm_off_cong(2) [OF eq] by simp
  moreover have ku: "kmem u = (kmem s2)(slot (tab s2 d ?i) ?j := mk_pte page perm)"
    using s3(3) t3 by (simp add: u_def t v2)
  note vu = set_kmem_views [OF i2 d j p2 ku]
  have "page_insert (slot d 0) page la perm s = Some (0, u)"
    unfolding page_insert_def g bind.bind_lunit prod.case option.case Let_def s2_def [symmetric] s3(1)
    by (simp add: t(1) u_def mk_pte_def)
  moreover have "same_ptes ds {(d, ?i, ?j)} s u" using vu(4) sp by (simp add: same_ptes_def v2)
  moreover have "same_contents (data ds s) s u" using vu(5) sc by (simp add: same_contents_def v2 dt)
  moreover have "cur_pgdir u = cur_pgdir s" "npage u = npage s" "swap_init_ok u = swap_init_ok s" using t s3 v2 rg by (simp_all add: u_def)
  moreover have "free_page_set (pm u) = free_page_set (pm s) \<and> data ds u = data ds s"
    if h: "present (pde s d ?i)" "\<not> present (pte s d ?i ?j)"
  proof -
    have "s3 = s2" using s3(1) h(2) ka old by (simp add: present_def)
    then have "pm u = pm s2" "data ds u = data ds s2" using t(2) du by (simp_all add: u_def)
    then show ?thesis using st(1) h(1) v2(5) by (simp add: s2_def page_ref_inc_def)
  qed
  moreover have "pde u d' i' = pde s d' i'" if "d' \<in> ds" "i' < 512" "present (pde s d' i')" for d' i'
    using vu(6) st(2) that v2(1) by simp
  ultimately show ?thesis using vu(1) s3(4) by (intro exI [of _ u]) (simp add: vm_inv_def)
qed

lemma page_remove_ok:
  assumes inv: "vm_inv ds s" and d: "d \<in> ds" "pdx la < 512" and room: "tlb_room d (pdx la) (ptx la) s"
  shows "\<exists>s'. page_remove (slot d 0) la s = Some s' \<and> vm_inv ds s' \<and> \<not> present (pte s' d (pdx la) (ptx la)) \<and>
    same_ptes ds {(d, pdx la, ptx la)} s s' \<and> same_contents (data ds s) s s' \<and>
    (present (pte s d (pdx la) (ptx la)) \<longrightarrow>
       (unat (PPN (pte s d (pdx la) (ptx la))) \<in> free_page_set (pm s') \<longleftrightarrow>
        maps ds s (unat (PPN (pte s d (pdx la) (ptx la)))) = {(d, pdx la, ptx la)}))"
proof -
  let ?i = "pdx la" and ?j = "ptx la"
  have j: "?j < 1024" by (rule pdx_lt)
  have inv0: "vm_off ds s (\<lambda>_. 0)" using inv by (simp add: vm_inv_def)
  note g = get_pte_lookup [OF inv0 d]
  show ?thesis
  proof (cases "present (pte s d ?i ?j)")
    case False
    moreover have "page_remove_pte (slot d 0) la (slot (tab s d ?i) ?j) s = Some s" if "present (pde s d ?i)"
      using False that by (simp add: page_remove_pte_def present_pos pte_def)
    ultimately show ?thesis using inv g
      by (intro exI [of _ s]) (auto simp: page_remove_def same_ptes_def same_contents_def)
  next
    case True
    then have p: "present (pde s d ?i)" by (auto simp: pte_def present_def split: if_splits)
    let ?p = "unat (PPN (pte s d ?i ?j))"
    obtain s' where s': "page_remove_pte (slot d 0) la (slot (tab s d ?i) ?j) s = Some s'" "vm_off ds s' (\<lambda>_. 0)"
      "kmem s' = (kmem s)(slot (tab s d ?i) ?j := 0)"
      "free_page_set (pm s') = (if maps ds s ?p = {(d, ?i, ?j)} then insert ?p (free_page_set (pm s)) else free_page_set (pm s))"
      using page_remove_pte_ok [OF inv0 d p True refl refl room] by blast
    have "?p \<notin> free_page_set (pm s)" using mapped_data [OF inv0 d j True] by (simp add: data_def used_def)
    moreover note v = set_kmem_views [OF inv0 d j p s'(3)]
    ultimately show ?thesis using s' g p
      by (intro exI [of _ s']) (auto simp: page_remove_def vm_inv_def present_def)
  qed
qed

lemma pgdir_alloc_page_ok:
  assumes inv: "vm_inv ds s" and d: "d \<in> ds" "pdx la < 512" and perm: "perm_ok perm"
    and room: "card (free_page_set (pm s)) \<ge> (if present (pde s d (pdx la)) then 1 else 2)" "tlb_room d (pdx la) (ptx la) s"
  shows "\<exists>p s'. pgdir_alloc_page (slot d 0) la perm s = Some (Some p, s') \<and> vm_inv ds s' \<and> p \<in> free_page_set (pm s) \<and>
    pte s' d (pdx la) (ptx la) = mk_pte p perm \<and> same_ptes ds {(d, pdx la, ptx la)} s s' \<and> same_contents (data ds s) s s' \<and>
    maps ds s' p = {(d, pdx la, ptx la)}"
proof -
  let ?i = "pdx la" and ?j = "ptx la"
  have j: "?j < 1024" by (rule pdx_lt)
  have inv0: "vm_off ds s (\<lambda>_. 0)" using inv by (simp add: vm_inv_def)
  have ne: "free_page_set (pm s) \<noteq> {}" using room(1) by (auto split: if_splits)
  obtain p s1 where a: "alloc_pages 1 s = Some (Some p, s1)" "vm_off ds s1 (\<lambda>_. 0)" "p \<in> free_page_set (pm s)"
    "free_page_set (pm s1) = free_page_set (pm s) - {p}" "data ds s1 = insert p (data ds s)" "\<exists>x. s1 = s\<lparr>pm := x\<rparr>"
    using alloc_page_ok [OF inv0 ne refl] by blast
  have v: "pde s1 = pde s" "pte s1 = pte s" "kmem s1 = kmem s" "maps ds s1 = maps ds s" "cur_pgdir s1 = cur_pgdir s" "tlb_algo_n s1 = tlb_algo_n s"
    using a(6) by auto
  have inv1: "vm_inv ds s1" using a(2) by (simp add: vm_inv_def)
  have "present (pde s1 d ?i) \<or> free_page_set (pm s1) \<noteq> {}"
  proof (rule disjCI)
    assume "\<not> free_page_set (pm s1) \<noteq> {}"
    then have "free_page_set (pm s) = {p}" using a(3,4) by auto
    then show "present (pde s1 d ?i)" using room(1) v by (auto split: if_splits)
  qed
  moreover have "tlb_room d ?i ?j s1" using room(2) by (simp add: tlb_room_def v)
  ultimately obtain s' where s': "page_insert (slot d 0) p la perm s1 = Some (0, s')" "vm_inv ds s'" "p \<in> data ds s'"
    "pte s' d ?i ?j = mk_pte p perm" "same_ptes ds {(d, ?i, ?j)} s1 s'" "same_contents (data ds s1) s1 s'"
    using page_insert_ok [OF inv1 d _ perm, of p] a(5) by blast
  have "p < 2048" using used_lt [OF a(2), of p] a(5) by (auto simp: data_def)
  note mk = mk_pte_page [OF this perm]
  have "maps ds s p = {}" using mapped_data [OF inv0] a(3) by (auto simp: maps_def data_def used_def)
  then have no: "\<not> (present (pte s x y z) \<and> unat (PPN (pte s x y z)) = p)" if "x \<in> ds" "y < 512" "z < 1024" for x y z
    using that by (auto simp: maps_def)
  have "(x, y, z) \<in> maps ds s' p \<longleftrightarrow> (x, y, z) = (d, ?i, ?j)" for x y z
  proof (cases "(x, y, z) = (d, ?i, ?j)")
    case True
    then show ?thesis using s'(4) d j mk by (simp add: maps_def)
  next
    case False
    then have "pte s' x y z = pte s x y z" if "x \<in> ds" "y < 512" "z < 1024" using s'(5) that by (simp add: same_ptes_def v)
    then show ?thesis using no [of x y z] False by (auto simp: maps_def)
  qed
  then have "maps ds s' p = {(d, ?i, ?j)}" by auto
  then show ?thesis using a(1,3) s' v a(5)
    by (intro exI [of _ p] exI [of _ s']) (auto simp: pgdir_alloc_page_def same_ptes_def same_contents_def)
qed

end
