(* ===== verification/Vmm.thy ===== *)
theory Vmm
  imports Page_Inv
begin

text \<open>
  Ranges of pages and whole address spaces: \<open>unmap_range\<close>, \<open>exit_range\<close> and \<open>copy_range\<close> of \<open>kern/mm/pmm.c\<close> on the
  invariant of theory \<open>Page_Inv\<close>, and \<open>dup_mmap\<close>, \<open>exit_mmap\<close> and \<open>do_pgfault\<close> of \<open>kern/mm/vmm.c\<close>, which combine the
  areas of an address space with its page directory.
\<close>

section \<open>Operations on address spaces\<close>

fun unmap_areas :: "u32 \<Rightarrow> vma_struct list \<Rightarrow> vmsys \<Rightarrow> vmsys option" where
  "unmap_areas pgd [] s = Some s"
| "unmap_areas pgd (v # vs) s = do { s \<leftarrow> unmap_range pgd (vm_start v) (vm_end v) s; unmap_areas pgd vs s }"

fun exit_areas :: "u32 \<Rightarrow> vma_struct list \<Rightarrow> vmsys \<Rightarrow> vmsys option" where
  "exit_areas pgd [] s = Some s"
| "exit_areas pgd (v # vs) s = do { s \<leftarrow> exit_range pgd (vm_start v) (vm_end v) s; exit_areas pgd vs s }"

definition exit_mmap :: "mm_struct \<Rightarrow> vmsys \<Rightarrow> vmsys option" where
  "exit_mmap mm s = do {
     kassert (mm_cnt mm = 0);
     s \<leftarrow> unmap_areas (pgdir mm) (mmap_list mm) s;
     exit_areas (pgdir mm) (mmap_list mm) s
   }"

text \<open>The loop of \<open>dup_mmap\<close> runs from the last area to the first; \<open>ok\<close> are the results of its \<open>kmalloc\<close> calls.\<close>

fun dup_areas :: "bool list \<Rightarrow> u32 \<Rightarrow> vma_struct list \<Rightarrow> mm_struct \<Rightarrow> vmsys \<Rightarrow> (int \<times> mm_struct \<times> vmsys) option" where
  "dup_areas ok from [] to s = Some (0, to, s)"
| "dup_areas ok from (v # vs) to s =
     (case vma_create (hd ok) (vm_start v) (vm_end v) (vm_flags v) of
        None \<Rightarrow> Some (- E_NO_MEM, to, s)
      | Some nv \<Rightarrow> do {
          to \<leftarrow> insert_vma_struct nv to;
          (r, s) \<leftarrow> copy_range (pgdir to) from (vm_start v) (vm_end v) s;
          if r \<noteq> 0 then Some (- E_NO_MEM, to, s) else dup_areas (tl ok) from vs to s
        })"

definition dup_mmap :: "bool list \<Rightarrow> mm_struct \<Rightarrow> mm_struct \<Rightarrow> vmsys \<Rightarrow> (int \<times> mm_struct \<times> vmsys) option" where
  "dup_mmap ok to from s = dup_areas ok (pgdir from) (rev (mmap_list from)) to s"

text \<open>\<open>swap_in\<close> allocates a page; the copying loop of \<open>swapfs_read\<close> is commented out.\<close>

definition swap_in :: "u32 \<Rightarrow> u32 \<Rightarrow> vmsys \<Rightarrow> (nat \<times> vmsys) option" where
  "swap_in pgd addr s = do {
     (r, s) \<leftarrow> alloc_pages 1 s;
     p \<leftarrow> r;
     (ptep, s) \<leftarrow> get_pte pgd addr False s;
     a \<leftarrow> ptep;
     Some (p, s)
   }"

definition fifo_map_swappable :: "mm_struct \<Rightarrow> nat \<Rightarrow> vmsys \<Rightarrow> vmsys option" where
  "fifo_map_swappable mm page s = do { kassert (sm_priv mm); Some (s\<lparr>pra_list := pra_list s @ [page]\<rparr>) }"

definition fault_allowed :: "u32 \<Rightarrow> u32 \<Rightarrow> bool" where
  "fault_allowed error_code flags =
     (let e = error_code AND 3 in
      if e = 1 then False
      else if e = 0 then flags AND (VM_READ OR VM_EXEC) \<noteq> 0
      else flags AND VM_WRITE \<noteq> 0)"

definition do_pgfault :: "mm_struct \<Rightarrow> u32 \<Rightarrow> u32 \<Rightarrow> vmsys \<Rightarrow> (int \<times> mm_struct \<times> vmsys) option" where
  "do_pgfault mm error_code addr s =
     (let (vma, mm) = find_vma addr mm in
      case vma of
        None \<Rightarrow> Some (- E_INVAL, mm, s)
      | Some v \<Rightarrow>
          if vm_start v > addr then Some (- E_INVAL, mm, s)
          else if \<not> fault_allowed error_code (vm_flags v) then Some (- E_INVAL, mm, s)
          else do {
            let perm = (if vm_flags v AND VM_WRITE \<noteq> 0 then PTE_U OR PTE_W else PTE_U);
            let addr = ROUNDDOWN addr PGSIZE;
            (ptep, s) \<leftarrow> get_pte (pgdir mm) addr True s;
            a \<leftarrow> ptep;
            if kmem s a = 0 then do {
              (_, s) \<leftarrow> pgdir_alloc_page (pgdir mm) addr perm s;
              Some (0, mm, s)
            } else if swap_init_ok s then do {
              (p, s) \<leftarrow> swap_in (pgdir mm) addr s;
              (_, s) \<leftarrow> page_insert (pgdir mm) p addr perm s;
              s \<leftarrow> fifo_map_swappable mm p s;
              Some (0, mm, s)
            } else Some (- E_NO_MEM, mm, s)
          })"

section \<open>Pages of a range\<close>

text \<open>The address of the page with entry \<open>(i, j)\<close>.\<close>

definition va :: "nat \<Rightarrow> nat \<Rightarrow> nat" where
  "va i j = i * 4194304 + j * 4096"

lemma pdx_div: "pdx la = unat la div 4194304" "ptx la = unat la div 4096 mod 1024"
proof -
  have t: "unat (w AND 0x3FF) = unat w mod 1024" for w :: u32
    using unsigned_take_bit_eq [of 10 w] by (simp add: mask_3FF take_bit_eq_mask [symmetric] take_bit_eq_mod)
  have "unat la < 2 ^ 32" by (rule unat_bound32)
  then have "unat la div 4194304 < 1024" by (simp add: div_less_iff_less_mult less_mult_imp_div_less)
  then show "pdx la = unat la div 4194304"
    unfolding pdx_def PDX_def t unat_drop_bit_eq by (simp add: drop_bit_eq_div [of 22 "unat la"])
  show "ptx la = unat la div 4096 mod 1024"
    unfolding ptx_def PTX_def t unat_drop_bit_eq by (simp add: drop_bit_eq_div [of 12 "unat la"])
qed

lemma va_of: "4096 dvd unat la \<Longrightarrow> unat la = va (pdx la) (ptx la)"
proof -
  assume "4096 dvd unat la"
  then obtain k where k: "unat la = 4096 * k" ..
  have "k div 1024 * 1024 + k mod 1024 = k" by (rule div_mult_mod_eq)
  moreover have "unat la div 4194304 = k div 1024" "unat la div 4096 mod 1024 = k mod 1024" by (simp_all add: k)
  ultimately show ?thesis unfolding va_def pdx_div using k by linarith
qed

lemma va_inj: "j < 1024 \<Longrightarrow> j' < 1024 \<Longrightarrow> va i j = va i' j' \<longleftrightarrow> i = i' \<and> j = j'"
proof
  assume j: "j < 1024" "j' < 1024" and eq: "va i j = va i' j'"
  then have e: "i * 1024 + j = i' * 1024 + j'" by (simp add: va_def)
  then have "(i * 1024 + j) div 1024 = (i' * 1024 + j') div 1024" by simp
  then have "i = i'" using j by simp
  with e show "i = i' \<and> j = j'" by simp
qed simp

lemma user_pdx: "unat la < 2 ^ 31 \<Longrightarrow> pdx la < 512"
  by (simp add: pdx_div div_less_iff_less_mult less_mult_imp_div_less)

text \<open>The next page, and the first page of the next page table.\<close>

lemma dvd_less_step: "(k :: nat) dvd a \<Longrightarrow> k dvd b \<Longrightarrow> a < b \<Longrightarrow> a + k \<le> b"
  by (metis add_diff_inverse_nat dvd_diff_nat dvd_imp_le nat_add_left_cancel_le not_less_iff_gr_or_eq zero_less_diff)

lemma next_page:
  assumes "unat la < 2 ^ 31" "4096 dvd unat la"
  shows "unat (la + PGSIZE) = unat la + 4096" "4096 dvd unat (la + PGSIZE)" "la + PGSIZE \<noteq> 0"
proof -
  show u: "unat (la + PGSIZE) = unat la + 4096" using assms by (subst unat_add_no_wrap) (auto simp: PGSIZE_def)
  then show "4096 dvd unat (la + PGSIZE)" using assms by simp
  show "la + PGSIZE \<noteq> 0" using u by auto
qed

lemma next_table:
  assumes "unat la < 2 ^ 31"
  shows "unat (ROUNDDOWN (la + PTSIZE) PTSIZE) = va (pdx la + 1) 0" "4096 dvd unat (ROUNDDOWN (la + PTSIZE) PTSIZE)"
    "ROUNDDOWN (la + PTSIZE) PTSIZE \<noteq> 0"
proof -
  have p: "unat PTSIZE = 4194304" by (simp add: PTSIZE_def PGSIZE_def)
  have "unat (la + PTSIZE) = unat la + 4194304" using assms by (subst unat_add_no_wrap) (auto simp: p)
  then have "unat (ROUNDDOWN (la + PTSIZE) PTSIZE) = (unat la + 4194304) div 4194304 * 4194304"
    by (simp only: unat_ROUNDDOWN p minus_mod_eq_div_mult)
  moreover have "(unat la + 4194304) div 4194304 = unat la div 4194304 + 1" by simp
  ultimately show u: "unat (ROUNDDOWN (la + PTSIZE) PTSIZE) = va (pdx la + 1) 0"
    unfolding va_def pdx_div by (simp only: mult_zero_left add_0_right)
  show "4096 dvd unat (ROUNDDOWN (la + PTSIZE) PTSIZE)" unfolding u va_def by simp
  show "ROUNDDOWN (la + PTSIZE) PTSIZE \<noteq> 0" using u by (auto simp: va_def)
qed

lemma va_page:
  assumes "y < 1024" "j < 1024" shows "va i j \<le> va x y \<and> va x y < va i j + 4096 \<longleftrightarrow> x = i \<and> y = j"
proof
  assume "va i j \<le> va x y \<and> va x y < va i j + 4096"
  then have "x * 1024 + y = i * 1024 + j" by (simp add: va_def)
  then have "va x y = va i j" by (simp add: va_def)
  then show "x = i \<and> y = j" using va_inj [OF assms] by simp
qed simp

lemma va_table:
  assumes "unat la \<le> va x y" "va x y < va (pdx la + 1) 0" "y < 1024" shows "x = pdx la"
proof -
  have "pdx la * 4194304 \<le> unat la" by (simp add: pdx_div)
  then have "pdx la < x + 1" "x < pdx la + 1" using assms by (simp_all add: va_def)
  then show ?thesis by simp
qed

lemma va_table_above: "unat la < va (pdx la + 1) 0"
  using div_mult_mod_eq [of "unat la" 4194304] mod_less_divisor [of 4194304 "unat la"] by (simp add: va_def pdx_div)

lemma PGSIZE_dvd: "w mod PGSIZE = 0 \<Longrightarrow> 4096 dvd unat w"
proof -
  assume "w mod PGSIZE = 0"
  then have "unat w mod unat PGSIZE = 0" by (metis unat_mod unat_0)
  then show ?thesis by (simp add: PGSIZE_def dvd_eq_mod_eq_0)
qed

section \<open>Unmapping a range\<close>

text \<open>What unmapping does to an entry: a mapping in the range is removed, anything else stays.\<close>

definition unmapped :: "nat \<Rightarrow> nat \<Rightarrow> nat \<Rightarrow> nat set \<Rightarrow> vmsys \<Rightarrow> vmsys \<Rightarrow> bool" where
  "unmapped d lo hi ds s s' \<longleftrightarrow> (\<forall>d' \<in> ds. \<forall>i < 512. pde s' d' i = pde s d' i) \<and> (\<forall>d' \<in> ds. \<forall>i < 512. \<forall>j < 1024.
     pte s' d' i j = (if d' = d \<and> lo \<le> va i j \<and> va i j < hi \<and> present (pte s d i j) then 0 else pte s d' i j))"

definition outside :: "nat \<Rightarrow> vmsys \<Rightarrow> bool" where
  "outside d s \<longleftrightarrow> slot d 0 \<noteq> cur_pgdir s"

lemma unmapped_trans:
  "unmapped d lo mid ds s t \<Longrightarrow> unmapped d mid hi ds t u \<Longrightarrow> lo \<le> mid \<Longrightarrow> mid \<le> hi \<Longrightarrow> unmapped d lo hi ds s u"
  by (auto simp: unmapped_def present_def)

lemma unmapped_refl: "unmapped d lo lo ds s s"
  by (auto simp: unmapped_def)

text \<open>A data frame is freed exactly when its last mapping goes.\<close>

definition frees :: "nat set \<Rightarrow> vmsys \<Rightarrow> vmsys \<Rightarrow> bool" where
  "frees ds s s' \<longleftrightarrow> (\<forall>f. maps ds s' f \<subseteq> maps ds s f) \<and>
     data ds s' = data ds s - {f. maps ds s f \<noteq> {} \<and> maps ds s' f = {}}"

lemma frees_refl: "frees ds s s"
  by (simp add: frees_def)

lemma frees_trans: "frees ds s t \<Longrightarrow> frees ds t u \<Longrightarrow> frees ds s u"
  by (auto simp: frees_def; blast)

lemma frees_data: "frees ds s s' \<Longrightarrow> data ds s' \<subseteq> data ds s"
  by (auto simp: frees_def)

lemma not_present_0 [simp]: "\<not> present 0"
  by (simp add: present_def)

lemma unmapped_pte:
  "unmapped d lo hi ds s s' \<Longrightarrow> d' \<in> ds \<Longrightarrow> i < 512 \<Longrightarrow> j < 1024 \<Longrightarrow>
   pte s' d' i j = (if d' = d \<and> lo \<le> va i j \<and> va i j < hi \<and> present (pte s d i j) then 0 else pte s d' i j)"
  by (simp add: unmapped_def)

lemma unmapped_maps: "unmapped d lo hi ds s s' \<Longrightarrow> maps ds s' f \<subseteq> maps ds s f"
  by (auto simp: maps_def unmapped_pte split: if_splits)

lemma maps_remove:
  assumes "pte s' d i j = 0" "same_ptes ds {(d, i, j)} s s'" shows "maps ds s' f = maps ds s f - {(d, i, j)}"
proof -
  have "(x, y, z) \<in> maps ds s' f \<longleftrightarrow> (x, y, z) \<in> maps ds s f \<and> (x, y, z) \<noteq> (d, i, j)" for x y z
  proof (cases "(x, y, z) = (d, i, j)")
    case True
    then show ?thesis using assms(1) by (simp add: maps_def)
  next
    case False
    then have "pte s' x y z = pte s x y z" if "x \<in> ds" "y < 512" "z < 1024" using assms(2) that by (simp add: same_ptes_def)
    then show ?thesis using False by (auto simp: maps_def)
  qed
  then show ?thesis by auto
qed

lemma unmap_step:
  assumes inv: "vm_inv ds s" and d: "d \<in> ds" and la: "unat la < 2 ^ 31" "4096 dvd unat la" and out: "outside d s"
    and p: "present (pde s d (pdx la))" and a: "a = slot (tab s d (pdx la)) (ptx la)"
  shows "\<exists>s'. (if kmem s a \<noteq> 0 then page_remove_pte (slot d 0) la a s else Some s) = Some s' \<and> vm_inv ds s' \<and> outside d s' \<and>
    unmapped d (unat la) (unat la + 4096) ds s s' \<and> frees ds s s' \<and> same_contents (data ds s') s s'"
proof -
  let ?i = "pdx la" and ?j = "ptx la"
  have i: "?i < 512" by (rule user_pdx [OF la(1)])
  have j: "?j < 1024" by (rule pdx_lt)
  have inv0: "vm_off ds s (\<lambda>_. 0)" using inv by (simp add: vm_inv_def)
  have ka: "kmem s a = pte s d ?i ?j" using p by (simp add: pte_def a)
  have here: "unat la \<le> va x y \<and> va x y < unat la + 4096 \<longleftrightarrow> x = ?i \<and> y = ?j" if "y < 1024" for x y
    unfolding va_of [OF la(2)] by (rule va_page [OF that j])
  show ?thesis
  proof (cases "present (pte s d ?i ?j)")
    case False
    have "(if kmem s a \<noteq> 0 then page_remove_pte (slot d 0) la a s else Some s) = Some s"
      using False by (simp add: ka page_remove_pte_def present_pos)
    moreover have "unmapped d (unat la) (unat la + 4096) ds s s" unfolding unmapped_def using here False by (metis (no_types))
    ultimately show ?thesis using inv out frees_refl by (auto simp: same_contents_def)
  next
    case True
    have "tlb_room d ?i ?j s" using out by (simp add: tlb_room_def outside_def)
    from page_remove_pte_ok [OF inv0 d i p True refl refl this] obtain s' where
      s': "page_remove_pte (slot d 0) la a s = Some s'" "vm_off ds s' (\<lambda>_. 0)" "kmem s' = (kmem s)(a := 0)"
      "data ds s' = (if maps ds s (unat (PPN (pte s d ?i ?j))) = {(d, ?i, ?j)} then data ds s - {unat (PPN (pte s d ?i ?j))} else data ds s)"
      "cur_pgdir s' = cur_pgdir s" unfolding a by blast
    note v = set_kmem_views [OF inv0 d i j p s'(3) [unfolded a]]
    have "kmem s a \<noteq> 0" using True by (auto simp: ka present_def)
    moreover have um: "unmapped d (unat la) (unat la + 4096) ds s s'"
      unfolding unmapped_def
    proof (intro conjI ballI allI impI)
      show "pde s' d' x = pde s d' x" if "d' \<in> ds" "x < 512" for d' x using v(6) that by simp
    next
      fix d' x y assume h: "d' \<in> ds" "x < (512 :: nat)" "y < (1024 :: nat)"
      show "pte s' d' x y = (if d' = d \<and> unat la \<le> va x y \<and> va x y < unat la + 4096 \<and> present (pte s d x y) then 0 else pte s d' x y)"
        using here [OF h(3), of x] v(1,4) True h by (cases "(d', x, y) = (d, ?i, ?j)") (auto simp: same_ptes_def)
    qed
    moreover have "frees ds s s'"
    proof -
      let ?p = "unat (PPN (pte s d ?i ?j))"
      have "maps ds s' f = maps ds s f - {(d, ?i, ?j)}" for f
        by (rule maps_remove [OF v(1,4)])
      moreover have "(d, ?i, ?j) \<in> maps ds s f \<longleftrightarrow> f = ?p" for f using d i j True by (auto simp: maps_def)
      ultimately have "maps ds s f \<noteq> {} \<and> maps ds s' f = {} \<longleftrightarrow> f = ?p \<and> maps ds s ?p = {(d, ?i, ?j)}" for f
        by (cases "f = ?p") auto
      then show ?thesis unfolding frees_def using s'(4) unmapped_maps [OF um] by auto
    qed
    ultimately show ?thesis using s' out v(5) frees_data by (auto simp: vm_inv_def outside_def same_contents_def)
  qed
qed

lemma unmap_loop_ok:
  assumes "vm_inv ds s" "d \<in> ds" "4096 dvd unat start" "4096 dvd unat stop" "start < stop" "unat stop \<le> 2 ^ 31" "outside d s"
  shows "\<exists>s'. unmap_loop (slot d 0) start stop s = Some s' \<and> vm_inv ds s' \<and> outside d s' \<and>
    unmapped d (unat start) (unat stop) ds s s' \<and> frees ds s s' \<and> same_contents (data ds s') s s'"
  using assms
proof (induction "unat stop - unat start" arbitrary: start s rule: less_induct)
  case less
  note inv = less.prems(1) and d = less.prems(2)
  have inv0: "vm_off ds s (\<lambda>_. 0)" using inv by (simp add: vm_inv_def)
  have lt: "unat start < unat stop" using less.prems(5) by (simp add: word_less_nat_alt)
  then have us: "unat start < 2 ^ 31" using less.prems(6) by simp
  have i: "pdx start < 512" by (rule user_pdx [OF us])
  note g = get_pte_lookup [OF inv0 d i]
  have "\<exists>start' s1. unmap_loop (slot d 0) start stop s =
      (if start' \<noteq> 0 \<and> start' < stop then unmap_loop (slot d 0) start' stop s1 else Some s1) \<and>
      vm_inv ds s1 \<and> outside d s1 \<and> unmapped d (unat start) (min (unat start') (unat stop)) ds s s1 \<and> frees ds s s1 \<and>
      same_contents (data ds s1) s s1 \<and> 4096 dvd unat start' \<and> unat start < unat start' \<and> start' \<noteq> 0"
  proof (cases "present (pde s d (pdx start))")
    case True
    from unmap_step [OF inv d us less.prems(3,7) True refl] obtain s1 where
      s1: "(if kmem s (slot (tab s d (pdx start)) (ptx start)) \<noteq> 0
            then page_remove_pte (slot d 0) start (slot (tab s d (pdx start)) (ptx start)) s else Some s) = Some s1"
      "vm_inv ds s1" "outside d s1" "unmapped d (unat start) (unat start + 4096) ds s s1" "frees ds s s1"
      "same_contents (data ds s1) s s1" by blast
    have "unat start + 4096 \<le> unat stop" by (rule dvd_less_step [OF less.prems(3,4) lt])
    then show ?thesis
      using s1 g True next_page [OF us less.prems(3)]
      by (intro exI [of _ "start + PGSIZE"] exI [of _ s1]) (subst unmap_loop.simps, simp)
  next
    case False
    let ?n = "ROUNDDOWN (start + PTSIZE) PTSIZE"
    note n = next_table [OF us]
    have lo: "unat start < unat ?n" unfolding n(1) by (rule va_table_above)
    have "\<not> present (pte s d x y)" if "unat start \<le> va x y" "va x y < unat ?n" "y < 1024" for x y
      using va_table [OF that(1) _ that(3)] that(2) False unfolding n(1) by (simp add: pte_def present_def)
    then have "unmapped d (unat start) (min (unat ?n) (unat stop)) ds s s"
      unfolding unmapped_def by auto
    then show ?thesis using inv less.prems(7) g False n lo
      by (intro exI [of _ ?n] exI [of _ s]) (subst unmap_loop.simps, simp add: same_contents_def frees_refl)
  qed
  then obtain start' s1 where
    s1: "unmap_loop (slot d 0) start stop s = (if start' \<noteq> 0 \<and> start' < stop then unmap_loop (slot d 0) start' stop s1 else Some s1)"
      "vm_inv ds s1" "outside d s1" "unmapped d (unat start) (min (unat start') (unat stop)) ds s s1" "frees ds s s1"
      "same_contents (data ds s1) s s1" "4096 dvd unat start'" "unat start < unat start'" "start' \<noteq> 0" by blast
  show ?case
  proof (cases "start' < stop")
    case True
    have "unat stop - unat start' < unat stop - unat start" using s1(8) lt by simp
    from less.hyps [OF this s1(2) d s1(7) less.prems(4) True less.prems(6) s1(3)] obtain s' where
      s': "unmap_loop (slot d 0) start' stop s1 = Some s'" "vm_inv ds s'" "outside d s'" "unmapped d (unat start') (unat stop) ds s1 s'"
      "frees ds s1 s'" "same_contents (data ds s') s1 s'" by blast
    have "unmapped d (unat start) (unat stop) ds s s'"
      by (rule unmapped_trans [OF _ s'(4)]) (use s1(4,8) True in \<open>simp_all add: word_less_nat_alt\<close>)
    moreover have "frees ds s s'" by (rule frees_trans [OF s1(5) s'(5)])
    moreover have "same_contents (data ds s') s s'" using s1(6) s'(6) frees_data [OF s'(5)] by (auto simp: same_contents_def)
    ultimately show ?thesis using s' s1 True by auto
  next
    case False
    then have "min (unat start') (unat stop) = unat stop" by (simp add: word_less_nat_alt)
    then show ?thesis using s1 False by auto
  qed
qed

lemma unmap_range_ok:
  assumes "vm_inv ds s" "d \<in> ds" "start mod PGSIZE = 0" "stop mod PGSIZE = 0" "USER_ACCESS start stop" "outside d s"
  shows "\<exists>s'. unmap_range (slot d 0) start stop s = Some s' \<and> vm_inv ds s' \<and> outside d s' \<and>
    unmapped d (unat start) (unat stop) ds s s' \<and> frees ds s s' \<and> same_contents (data ds s') s s'"
proof -
  have "start < stop" "unat stop \<le> 2 ^ 31" using assms(5) by (auto simp: USER_ACCESS_def USERTOP_def word_le_nat_alt)
  from unmap_loop_ok [OF assms(1,2) PGSIZE_dvd [OF assms(3)] PGSIZE_dvd [OF assms(4)] this assms(6)]
  show ?thesis using assms by (simp add: unmap_range_def)
qed

section \<open>Removing page tables\<close>

lemma drop_table_ok:
  assumes inv: "vm_inv ds s" and d: "d \<in> ds" "i < 512" "present (pde s d i)" and empty: "\<forall>j < 1024. \<not> present (pte s d i j)"
  shows "\<exists>s'. Option.bind (pde2page (npage s) (pde s d i)) (\<lambda>p. Option.bind (free_pages p 1 s) (\<lambda>s. Some (store_word (slot d i) 0 s))) = Some s' \<and>
    vm_inv ds s' \<and> (\<forall>d' \<in> ds. \<forall>i' < 512. pde s' d' i' = (if d' = d \<and> i' = i then 0 else pde s d' i')) \<and>
    (\<forall>d' \<in> ds. \<forall>i' < 512. \<forall>j < 1024. pte s' d' i' j = (if d' = d \<and> i' = i then 0 else pte s d' i' j)) \<and>
    data ds s' = data ds s \<and> same_contents (data ds s) s s' \<and> cur_pgdir s' = cur_pgdir s \<and>
    free_page_set (pm s') = insert (tab s d i) (free_page_set (pm s)) \<and> (\<forall>f. maps ds s' f = maps ds s f)"
proof -
  let ?p = "tab s d i"
  have inv0: "vm_off ds s (\<lambda>_. 0)" using inv by (simp add: vm_inv_def)
  have pu: "?p \<in> used s" "?p \<notin> ds" using tab_used [OF inv0 d] by auto
  have lt: "f < 2048" if "f \<in> used s" for f using used_lt [OF inv0 that] by simp
  have ds: "d' \<in> used s" if "d' \<in> ds" for d' using inv0 that by (auto simp: vm_off_def)
  have pn: "?p < npage s" using used_lt [OF inv0 pu(1)] by simp
  have pi: "pmm_inv (npage s) (pm s)" using inv0 by (simp add: vm_off_def)
  have "{?p ..< ?p + 1} \<subseteq> managed (npage s) (pm s)" "{?p ..< ?p + 1} \<inter> free_page_set (pm s) = {}"
    using pu by (auto simp: used_def)
  from default_free_pages_ok [OF pi _ this] obtain x where x: "default_free_pages ?p 1 (pm s) = Some x" "pmm_inv (npage s) x"
    "free_page_set x = insert ?p (free_page_set (pm s))" "managed (npage s) x = managed (npage s) (pm s)" by auto
  define s' where "s' = store_word (slot d i) 0 (s\<lparr>pm := x\<rparr>)"
  have pg: "pde2page (npage s) (pde s d i) = Some ?p" using pn by (simp add: pde2page_def pa2page_def PPN_PTE_ADDR tab_def)
  have run: "Option.bind (pde2page (npage s) (pde s d i)) (\<lambda>p. Option.bind (free_pages p 1 s) (\<lambda>s. Some (store_word (slot d i) 0 s))) = Some s'"
    using x(1) by (simp add: pg free_pages_def s'_def)
  have km: "kmem s' (slot f j) = (if f = d \<and> j = i then 0 else kmem s (slot f j))" if "f \<in> used s" "j < 1024" for f j
    using that lt ds [OF d(1)] d(2) by (auto simp: s'_def slot_inj)
  have pd: "pde s' d' i' = (if d' = d \<and> i' = i then 0 else pde s d' i')" if "d' \<in> ds" "i' < 512" for d' i'
    using km [of d' i'] that ds by (simp add: pde_def)
  have tb: "tab s' d' i' = tab s d' i'" if "d' \<in> ds" "i' < 512" "\<not> (d' = d \<and> i' = i)" for d' i'
    using pd [of d' i'] that by (auto simp: tab_def)
  have pt: "pte s' d' i' j = (if d' = d \<and> i' = i then 0 else pte s d' i' j)" if h: "d' \<in> ds" "i' < 512" "j < 1024" for d' i' j
  proof (cases "d' = d \<and> i' = i \<or> \<not> present (pde s d' i')")
    case True
    then show ?thesis using pd [OF h(1,2)] by (auto simp: pte_def)
  next
    case False
    then have "tab s d' i' \<in> used s" "tab s d' i' \<noteq> d" using tab_used [OF inv0 h(1,2)] d(1) by auto
    then show ?thesis using False km [of "tab s d' i'" j] pd [OF h(1,2)] tb [OF h(1,2)] h by (auto simp: pte_def)
  qed
  have mp: "maps ds s' f = maps ds s f" for f
  proof -
    have "present (pte s' d' i' j) = present (pte s d' i' j) \<and> (present (pte s d' i' j) \<longrightarrow> pte s' d' i' j = pte s d' i' j)"
      if "d' \<in> ds" "i' < 512" "j < 1024" for d' i' j using pt [OF that] empty that by auto
    then show ?thesis unfolding maps_def by (auto; metis)
  qed
  have us: "used s' = used s - {?p}" using x pu by (auto simp: s'_def used_def)
  have "tables ds s' = tables ds s - {?p}"
  proof -
    have "x \<in> tables ds s' \<longleftrightarrow> x \<in> tables ds s \<and> x \<noteq> ?p" for x
    proof -
      have "x \<in> tables ds s' \<longleftrightarrow> (\<exists>d' i'. x = tab s d' i' \<and> d' \<in> ds \<and> i' < 512 \<and> present (pde s d' i') \<and> \<not> (d' = d \<and> i' = i))"
        unfolding tables_def using pd tb by (auto split: if_splits; metis not_present_0)
      also have "\<dots> \<longleftrightarrow> x \<in> tables ds s \<and> x \<noteq> ?p"
        using tab_inj [OF inv0 _ d(1) _ d(2) _ d(3)] unfolding tables_def mem_Collect_eq by metis
      finally show ?thesis .
    qed
    then show ?thesis by auto
  qed
  then have dt: "data ds s' = data ds s" using us d by (auto simp: data_def tables_def)
  have rf: "page_ref s' f = (if f = ?p then 0 else page_ref s f)" for f
    using default_free_pages_ref [OF x(1), of f] by (simp add: s'_def page_ref_def)
  have np: "?p \<notin> data ds s" using d by (auto simp: data_def tables_def)
  have "vm_off ds s' (\<lambda>_. 0)" unfolding vm_off_def
  proof (intro conjI ballI allI impI)
    show "npage s' \<le> 2048" "pmm_inv (npage s') (pm s')" using inv0 x(2) by (simp_all add: s'_def vm_off_def)
    show "ds \<subseteq> used s'" using us pu(2) ds by auto
  next
    fix d' i' assume h: "d' \<in> ds" "i' < 512" "present (pde s' d' i')"
    then have "\<not> (d' = d \<and> i' = i)" "present (pde s d' i')" using pd [OF h(1,2)] by (auto split: if_splits)
    then show "tab s' d' i' \<in> used s' - ds"
      using tab_used [OF inv0 h(1,2)] tb [OF h(1,2)] tab_inj [OF inv0 h(1) d(1) h(2) d(2) _ d(3)] us by auto
  next
    fix d' d'' i' i'' assume h: "d' \<in> ds" "d'' \<in> ds" "i' < 512" "i'' < 512"
      "present (pde s' d' i') \<and> present (pde s' d'' i'') \<and> tab s' d' i' = tab s' d'' i''"
    then show "d' = d''" "i' = i''"
      using tab_inj [OF inv0 h(1-4)] pd [OF h(1,3)] pd [OF h(2,4)] tb [OF h(1,3)] tb [OF h(2,4)] by (auto split: if_splits)
  next
    fix d' i' j assume h: "d' \<in> ds" "i' < 512" "j < (1024 :: nat)" "present (pte s' d' i' j)"
    then show "unat (PPN (pte s' d' i' j)) \<in> data ds s'"
      using pt [OF h(1-3)] mapped_data [OF inv0 h(1-3)] dt by (auto split: if_splits)
  next
    fix f assume "f \<in> data ds s'"
    then show "page_ref s' f = int (card (maps ds s' f)) + 0" using ref_count [OF inv0, of f] np by (auto simp: dt mp rf)
  next
    fix f assume "f \<in> free_page_set (pm s')"
    then have "f = ?p \<or> f \<in> free_page_set (pm s)" using x(3) by (simp add: s'_def)
    then show "page_ref s' f = 0" using inv0 by (auto simp: rf vm_off_def)
  qed
  moreover have "same_contents (data ds s) s s'" using km d(1) by (auto simp: same_contents_def data_def)
  ultimately show ?thesis using run pd pt dt mp x(3) by (intro exI [of _ s']) (simp add: vm_inv_def s'_def)
qed

text \<open>No page of the directory is mapped any more.\<close>

definition no_pages :: "nat \<Rightarrow> vmsys \<Rightarrow> bool" where
  "no_pages d s \<longleftrightarrow> (\<forall>i < 512. \<forall>j < 1024. \<not> present (pte s d i j))"

text \<open>The page tables with an index in \<open>I\<close> are gone, everything else is as it was.\<close>

definition tables_dropped :: "nat set \<Rightarrow> nat \<Rightarrow> nat set \<Rightarrow> vmsys \<Rightarrow> vmsys \<Rightarrow> bool" where
  "tables_dropped I d ds s s' \<longleftrightarrow>
     (\<forall>d' \<in> ds. \<forall>i < 512. pde s' d' i = (if d' = d \<and> i \<in> I \<and> present (pde s d i) then 0 else pde s d' i)) \<and>
     (\<forall>d' \<in> ds. d' \<noteq> d \<longrightarrow> (\<forall>i < 512. \<forall>j < 1024. pte s' d' i j = pte s d' i j)) \<and>
     data ds s' = data ds s \<and> same_contents (data ds s) s s' \<and> (\<forall>f. maps ds s' f = maps ds s f)"

lemma tables_dropped_refl: "tables_dropped {} d ds s s"
  by (simp add: tables_dropped_def same_contents_def)

lemma tables_dropped_trans:
  "tables_dropped I d ds s t \<Longrightarrow> tables_dropped J d ds t u \<Longrightarrow> d \<in> ds \<Longrightarrow> tables_dropped (I \<union> J) d ds s u"
  by (auto simp: tables_dropped_def same_contents_def)

lemma no_pages_maps: "no_pages d s \<longleftrightarrow> (\<forall>f. \<forall>x \<in> maps ds s f. fst x \<noteq> d)" if "d \<in> ds"
  using that by (auto simp: no_pages_def maps_def)

lemma exit_step:
  assumes inv: "vm_inv ds s" and d: "d \<in> ds" and i: "pdx start < 512" and np: "no_pages d s" and out: "outside d s"
  shows "\<exists>s'. (if kmem s (slot d 0 + 4 * PDX start) AND PTE_P \<noteq> 0 then do {
            p \<leftarrow> pde2page (npage s) (kmem s (slot d 0 + 4 * PDX start));
            s \<leftarrow> free_pages p 1 s;
            Some (store_word (slot d 0 + 4 * PDX start) 0 s)
          } else Some s) = Some s' \<and> vm_inv ds s' \<and> tables_dropped {pdx start} d ds s s' \<and> no_pages d s' \<and> outside d s'"
proof -
  have inv0: "vm_off ds s (\<lambda>_. 0)" using inv by (simp add: vm_inv_def)
  note e = dir_entry [OF inv0 d, of start]
  show ?thesis
  proof (cases "present (pde s d (pdx start))")
    case True
    have "\<forall>j < 1024. \<not> present (pte s d (pdx start) j)" using np i by (simp add: no_pages_def)
    from drop_table_ok [OF inv d i True this] obtain s' where
      s': "Option.bind (pde2page (npage s) (pde s d (pdx start))) (\<lambda>p. Option.bind (free_pages p 1 s) (\<lambda>s. Some (store_word (slot d (pdx start)) 0 s))) = Some s'"
      "vm_inv ds s'" "\<forall>d' \<in> ds. \<forall>i' < 512. pde s' d' i' = (if d' = d \<and> i' = pdx start then 0 else pde s d' i')"
      "\<forall>d' \<in> ds. \<forall>i' < 512. \<forall>j < 1024. pte s' d' i' j = (if d' = d \<and> i' = pdx start then 0 else pte s d' i' j)"
      "data ds s' = data ds s" "same_contents (data ds s) s s'" "cur_pgdir s' = cur_pgdir s" "\<forall>f. maps ds s' f = maps ds s f"
      by blast
    have "tables_dropped {pdx start} d ds s s'" using s' True by (auto simp: tables_dropped_def)
    moreover have "no_pages d s'" using np s'(8) d by (simp add: no_pages_maps)
    ultimately show ?thesis using s' True out unfolding e(1) pde_def [symmetric] by (intro exI [of _ s']) (simp add: present_def outside_def)
  next
    case False
    then have "tables_dropped {pdx start} d ds s s" by (auto simp: tables_dropped_def same_contents_def)
    then show ?thesis using False inv np out unfolding e(1) pde_def [symmetric] by (intro exI [of _ s]) (simp add: present_def)
  qed
qed

lemma exit_loop_ok:
  assumes "vm_inv ds s" "d \<in> ds" "4194304 dvd unat start" "start < stop" "unat stop \<le> 2 ^ 31" "no_pages d s" "outside d s"
  shows "\<exists>s'. exit_loop (slot d 0) start stop s = Some s' \<and> vm_inv ds s' \<and> no_pages d s' \<and> outside d s' \<and>
    tables_dropped {i. unat start \<le> i * 4194304 \<and> i * 4194304 < unat stop} d ds s s'"
  using assms
proof (induction "unat stop - unat start" arbitrary: start s rule: less_induct)
  case less
  have lt: "unat start < unat stop" using less.prems(4) by (simp add: word_less_nat_alt)
  then have us: "unat start < 2 ^ 31" using less.prems(5) by simp
  have i: "pdx start < 512" by (rule user_pdx [OF us])
  from exit_step [OF less.prems(1,2) i less.prems(6,7)] obtain s1 where
    s1: "(if kmem s (slot d 0 + 4 * PDX start) AND PTE_P \<noteq> 0 then do {
            p \<leftarrow> pde2page (npage s) (kmem s (slot d 0 + 4 * PDX start));
            s \<leftarrow> free_pages p 1 s;
            Some (store_word (slot d 0 + 4 * PDX start) 0 s)
          } else Some s) = Some s1" "vm_inv ds s1" "tables_dropped {pdx start} d ds s s1" "no_pages d s1" "outside d s1" by blast
  let ?n = "start + PTSIZE"
  have n: "unat ?n = unat start + 4194304" using us by (subst unat_add_no_wrap) (auto simp: PTSIZE_def PGSIZE_def)
  then have nz: "?n \<noteq> 0" by auto
  have run: "exit_loop (slot d 0) start stop s = (if ?n \<noteq> 0 \<and> ?n < stop then exit_loop (slot d 0) ?n stop s1 else Some s1)"
    by (subst exit_loop.simps) (simp only: Let_def s1(1) bind.bind_lunit)
  have st: "unat start = pdx start * 4194304" using less.prems(3) by (simp add: pdx_div)
  then have here: "{i. unat start \<le> i * 4194304 \<and> i * 4194304 < unat stop} = {pdx start} \<union> {i. unat ?n \<le> i * 4194304 \<and> i * 4194304 < unat stop}"
    using lt n by auto
  show ?case
  proof (cases "?n < stop")
    case True
    have d4: "4194304 dvd unat ?n" using less.prems(3) n by simp
    have "unat stop - unat ?n < unat stop - unat start" using n lt by simp
    from less.hyps [OF this s1(2) less.prems(2) d4 True less.prems(5) s1(4,5)] obtain s' where
      s': "exit_loop (slot d 0) ?n stop s1 = Some s'" "vm_inv ds s'" "no_pages d s'" "outside d s'"
      "tables_dropped {i. unat ?n \<le> i * 4194304 \<and> i * 4194304 < unat stop} d ds s1 s'" by blast
    show ?thesis using run nz True s' tables_dropped_trans [OF s1(3) s'(5) less.prems(2)] unfolding here by auto
  next
    case False
    then have "{i. unat ?n \<le> i * 4194304 \<and> i * 4194304 < unat stop} = {}" by (auto simp: word_less_nat_alt)
    then have one: "{i. unat start \<le> i * 4194304 \<and> i * 4194304 < unat stop} = {pdx start}"
      unfolding here by (simp only: Un_empty_right)
    show ?thesis unfolding one using run False s1(2-5) by auto
  qed
qed

lemma exit_range_ok:
  assumes "vm_inv ds s" "d \<in> ds" "start mod PGSIZE = 0" "stop mod PGSIZE = 0" "USER_ACCESS start stop" "no_pages d s" "outside d s"
  shows "\<exists>s'. exit_range (slot d 0) start stop s = Some s' \<and> vm_inv ds s' \<and> no_pages d s' \<and> outside d s' \<and>
    tables_dropped {i. unat start < (i + 1) * 4194304 \<and> i * 4194304 < unat stop} d ds s s'"
proof -
  let ?r = "ROUNDDOWN start PTSIZE"
  have p: "unat PTSIZE = 4194304" by (simp add: PTSIZE_def PGSIZE_def)
  have "start < stop" "unat stop \<le> 2 ^ 31" using assms(5) by (auto simp: USER_ACCESS_def USERTOP_def word_le_nat_alt)
  moreover have "?r < stop" using ROUNDDOWN_le [of start PTSIZE] \<open>start < stop\<close> by (rule order.strict_trans1)
  moreover have "4194304 dvd unat ?r" using ROUNDDOWN_dvd [of PTSIZE start] p by simp
  moreover have r: "unat ?r = unat start div 4194304 * 4194304" by (simp only: unat_ROUNDDOWN p minus_mod_eq_div_mult)
  ultimately have "\<exists>s'. exit_loop (slot d 0) ?r stop s = Some s' \<and> vm_inv ds s' \<and> no_pages d s' \<and> outside d s' \<and>
    tables_dropped {i. unat ?r \<le> i * 4194304 \<and> i * 4194304 < unat stop} d ds s s'"
    by (intro exit_loop_ok [OF assms(1,2)]) (use assms(6,7) in simp_all)
  then obtain s' where s': "exit_loop (slot d 0) ?r stop s = Some s'" "vm_inv ds s'" "no_pages d s'" "outside d s'"
    "tables_dropped {i. unat ?r \<le> i * 4194304 \<and> i * 4194304 < unat stop} d ds s s'"
    by blast
  have "unat ?r \<le> i * 4194304 \<longleftrightarrow> unat start < (i + 1) * 4194304" for i
    unfolding r using less_mult_imp_div_less [of "unat start" "i + 1" 4194304] div_mult_mod_eq [of "unat start" 4194304]
      mod_less_divisor [of 4194304 "unat start"] by auto
  then show ?thesis using s' assms by (simp add: exit_range_def)
qed

section \<open>Tearing down an address space\<close>

definition area_ok :: "vma_struct \<Rightarrow> bool" where
  "area_ok v \<longleftrightarrow> vm_start v mod PGSIZE = 0 \<and> vm_end v mod PGSIZE = 0 \<and> USER_ACCESS (vm_start v) (vm_end v)"

definition in_areas :: "vma_struct list \<Rightarrow> nat \<Rightarrow> nat \<Rightarrow> bool" where
  "in_areas vs i j \<longleftrightarrow> (\<exists>v \<in> set vs. unat (vm_start v) \<le> va i j \<and> va i j < unat (vm_end v))"

lemma in_areas_simps [simp]:
  "\<not> in_areas [] i j" "in_areas (v # vs) i j \<longleftrightarrow> (unat (vm_start v) \<le> va i j \<and> va i j < unat (vm_end v)) \<or> in_areas vs i j"
  by (auto simp: in_areas_def)

lemma unmap_areas_ok:
  "vm_inv ds s \<Longrightarrow> d \<in> ds \<Longrightarrow> outside d s \<Longrightarrow> \<forall>v \<in> set vs. area_ok v \<Longrightarrow>
   \<exists>s'. unmap_areas (slot d 0) vs s = Some s' \<and> vm_inv ds s' \<and> outside d s' \<and> frees ds s s' \<and> same_contents (data ds s') s s' \<and>
     (\<forall>d' \<in> ds. \<forall>i < 512. pde s' d' i = pde s d' i) \<and> (\<forall>d' \<in> ds. \<forall>i < 512. \<forall>j < 1024. pte s' d' i j =
        (if d' = d \<and> in_areas vs i j \<and> present (pte s d i j) then 0 else pte s d' i j))"
proof (induction vs arbitrary: s)
  case Nil
  then show ?case by (simp add: frees_refl same_contents_def)
next
  case (Cons v vs)
  then have "area_ok v" by simp
  then have v: "vm_start v mod PGSIZE = 0" "vm_end v mod PGSIZE = 0" "USER_ACCESS (vm_start v) (vm_end v)"
    unfolding area_ok_def by blast+
  obtain s1 where s1: "unmap_range (slot d 0) (vm_start v) (vm_end v) s = Some s1" "vm_inv ds s1" "outside d s1"
    "unmapped d (unat (vm_start v)) (unat (vm_end v)) ds s s1" "frees ds s s1" "same_contents (data ds s1) s s1"
    using unmap_range_ok [OF Cons.prems(1,2) v Cons.prems(3)] by blast
  obtain s' where s': "unmap_areas (slot d 0) vs s1 = Some s'" "vm_inv ds s'" "outside d s'" "frees ds s1 s'" "same_contents (data ds s') s1 s'"
    "\<forall>d' \<in> ds. \<forall>i < 512. \<forall>j < 1024. pte s' d' i j =
        (if d' = d \<and> in_areas vs i j \<and> present (pte s1 d i j) then 0 else pte s1 d' i j)"
    "\<forall>d' \<in> ds. \<forall>i < 512. pde s' d' i = pde s1 d' i"
    using Cons.IH [OF s1(2) Cons.prems(2) s1(3)] Cons.prems(4) by auto
  have "pte s' d' i j = (if d' = d \<and> in_areas (v # vs) i j \<and>
      present (pte s d i j) then 0 else pte s d' i j)" if h: "d' \<in> ds" "i < 512" "j < 1024" for d' i j
    using s'(6) h unmapped_pte [OF s1(4) h] unmapped_pte [OF s1(4) Cons.prems(2) h(2,3)] by (cases "present (pte s d i j)") auto
  moreover have "same_contents (data ds s') s s'" using s1(6) s'(5) frees_data [OF s'(4)] by (auto simp: same_contents_def)
  moreover have "\<forall>d' \<in> ds. \<forall>i < 512. pde s' d' i = pde s d' i" using s1(4) s'(7) by (simp add: unmapped_def)
  ultimately show ?case using s1(1) s' frees_trans [OF s1(5) s'(4)] by simp
qed

lemma exit_areas_ok:
  "vm_inv ds s \<Longrightarrow> d \<in> ds \<Longrightarrow> outside d s \<Longrightarrow> no_pages d s \<Longrightarrow> \<forall>v \<in> set vs. area_ok v \<Longrightarrow>
   \<exists>s'. exit_areas (slot d 0) vs s = Some s' \<and> vm_inv ds s' \<and> no_pages d s' \<and>
     tables_dropped {i. \<exists>v \<in> set vs. unat (vm_start v) < (i + 1) * 4194304 \<and> i * 4194304 < unat (vm_end v)} d ds s s'"
proof (induction vs arbitrary: s)
  case Nil
  then show ?case by (simp add: tables_dropped_refl)
next
  case (Cons v vs)
  then have "area_ok v" by simp
  then have v: "vm_start v mod PGSIZE = 0" "vm_end v mod PGSIZE = 0" "USER_ACCESS (vm_start v) (vm_end v)"
    unfolding area_ok_def by blast+
  obtain s1 where s1: "exit_range (slot d 0) (vm_start v) (vm_end v) s = Some s1" "vm_inv ds s1" "no_pages d s1" "outside d s1"
    "tables_dropped {i. unat (vm_start v) < (i + 1) * 4194304 \<and> i * 4194304 < unat (vm_end v)} d ds s s1"
    using exit_range_ok [OF Cons.prems(1,2) v Cons.prems(4,3)] by blast
  obtain s' where s': "exit_areas (slot d 0) vs s1 = Some s'" "vm_inv ds s'" "no_pages d s'"
    "tables_dropped {i. \<exists>v \<in> set vs. unat (vm_start v) < (i + 1) * 4194304 \<and> i * 4194304 < unat (vm_end v)} d ds s1 s'"
    using Cons.IH [OF s1(2) Cons.prems(2) s1(4,3)] Cons.prems(5) by auto
  have "{i. \<exists>v \<in> set (v # vs). unat (vm_start v) < (i + 1) * 4194304 \<and> i * 4194304 < unat (vm_end v)} =
    {i. unat (vm_start v) < (i + 1) * 4194304 \<and> i * 4194304 < unat (vm_end v)} \<union>
    {i. \<exists>v \<in> set vs. unat (vm_start v) < (i + 1) * 4194304 \<and> i * 4194304 < unat (vm_end v)}" by auto
  then show ?case using s1(1) s' tables_dropped_trans [OF s1(5) s'(4) Cons.prems(2)] by simp
qed

text \<open>Page tables and mappings exist only where there are areas.\<close>

definition covered :: "mm_struct \<Rightarrow> nat \<Rightarrow> vmsys \<Rightarrow> bool" where
  "covered mm d s \<longleftrightarrow>
     (\<forall>i < 512. \<forall>j < 1024. present (pte s d i j) \<longrightarrow> in_areas (mmap_list mm) i j) \<and>
     (\<forall>i < 512. present (pde s d i) \<longrightarrow> (\<exists>v \<in> set (mmap_list mm). unat (vm_start v) < (i + 1) * 4194304 \<and> i * 4194304 < unat (vm_end v)))"

text \<open>
  C9: tearing down an address space that no process uses, while another page directory is loaded, always
  succeeds and gives everything back. Afterwards its directory holds no page table and no mapping, the frames
  that only it mapped are free, frames still mapped by another address space keep their contents, and the
  mappings of every other directory are untouched. The invariant (reference counts equal to the number of
  mappings, tables and mapped frames allocated) holds again.
\<close>

theorem exit_mmap_frees:
  assumes inv: "vm_inv ds s" and d: "d \<in> ds" "pgdir mm = slot d 0" "outside d s"
    and mm: "mm_cnt mm = 0" "\<forall>v \<in> set (mmap_list mm). area_ok v" and cov: "covered mm d s"
  shows "\<exists>s'. exit_mmap mm s = Some s' \<and> vm_inv ds s' \<and> (\<forall>i < 512. \<not> present (pde s' d i)) \<and>
    (\<forall>d' \<in> ds. d' \<noteq> d \<longrightarrow> (\<forall>i < 512. \<forall>j < 1024. pte s' d' i j = pte s d' i j)) \<and>
    (\<forall>f \<in> data ds s. f \<in> data ds s' \<longleftrightarrow> maps ds s f = {} \<or> (\<exists>x \<in> maps ds s f. fst x \<noteq> d)) \<and>
    same_contents (data ds s') s s'"
proof -
  obtain s1 where s1: "unmap_areas (slot d 0) (mmap_list mm) s = Some s1" "vm_inv ds s1" "outside d s1" "frees ds s s1"
    "same_contents (data ds s1) s s1" "\<forall>d' \<in> ds. \<forall>i < 512. pde s1 d' i = pde s d' i"
    "\<forall>d' \<in> ds. \<forall>i < 512. \<forall>j < 1024. pte s1 d' i j =
        (if d' = d \<and> in_areas (mmap_list mm) i j \<and> present (pte s d i j) then 0 else pte s d' i j)"
    using unmap_areas_ok [OF inv d(1,3) mm(2)] by blast
  have np: "no_pages d s1" using s1(7) cov d(1) unfolding no_pages_def covered_def by (metis not_present_0)
  obtain s2 where s2: "exit_areas (slot d 0) (mmap_list mm) s1 = Some s2" "vm_inv ds s2" "no_pages d s2"
    "tables_dropped {i. \<exists>v \<in> set (mmap_list mm). unat (vm_start v) < (i + 1) * 4194304 \<and> i * 4194304 < unat (vm_end v)} d ds s1 s2"
    using exit_areas_ok [OF s1(2) d(1) s1(3) np mm(2)] by blast
  have "exit_mmap mm s = Some s2" using s1(1) s2(1) mm(1) d(2) by (simp add: exit_mmap_def)
  moreover have "\<not> present (pde s2 d i)" if "i < 512" for i
    using s2(4) s1(6) cov that d(1) by (auto simp: tables_dropped_def covered_def)
  moreover have "pte s2 d' i j = pte s d' i j" if "d' \<in> ds" "d' \<noteq> d" "i < 512" "j < 1024" for d' i j
    using s2(4) s1(7) that by (auto simp: tables_dropped_def)
  moreover have "f \<in> data ds s2 \<longleftrightarrow> maps ds s f = {} \<or> (\<exists>x \<in> maps ds s f. fst x \<noteq> d)" if f: "f \<in> data ds s" for f
  proof -
    have "x \<in> maps ds s1 f \<longleftrightarrow> x \<in> maps ds s f \<and> fst x \<noteq> d" for x
    proof -
      obtain d' i j where x: "x = (d', i, j)" by (metis prod_cases3)
      have "fst x \<noteq> d" if "x \<in> maps ds s1 f" using np that d(1) by (auto simp: no_pages_def maps_def)
      moreover have "x \<in> maps ds s1 f \<longleftrightarrow> x \<in> maps ds s f" if "fst x \<noteq> d"
        using s1(7) that by (auto simp: maps_def x)
      ultimately show ?thesis by blast
    qed
    then have "maps ds s1 f = {} \<longleftrightarrow> \<not> (\<exists>x \<in> maps ds s f. fst x \<noteq> d)" by blast
    then show ?thesis using s1(4) s2(4) f by (auto simp: frees_def tables_dropped_def)
  qed
  moreover have "same_contents (data ds s2) s s2"
    using s1(5) s2(4) by (auto simp: tables_dropped_def same_contents_def)
  ultimately show ?thesis using s2(2) by blast
qed

section \<open>Copying a range\<close>

lemma copy_page_simps [simp]:
  "npage (copy_page a b s) = npage s" "pm (copy_page a b s) = pm s" "cur_pgdir (copy_page a b s) = cur_pgdir s"
  "tlb_algo_n (copy_page a b s) = tlb_algo_n s" "swap_init_ok (copy_page a b s) = swap_init_ok s" "used (copy_page a b s) = used s"
  "page_ref (copy_page a b s) = page_ref s"
  by (simp_all add: copy_page_def used_def page_ref_def fun_eq_iff)

lemma copy_page_kmem:
  assumes "f < 2048" "p < 2048" "q < 2048" "j < 1024"
  shows "kmem (copy_page (slot p 0) (slot q 0) s) (slot f j) = (if f = p then kmem s (slot q j) else kmem s (slot f j))"
proof -
  have "slot q 0 + (slot p j - slot p 0) = slot q j" by (simp add: slot_def algebra_simps)
  then show ?thesis using assms by (simp add: copy_page_def slot_in_page)
qed

lemma data_write_ok:
  assumes inv: "vm_inv ds s" and p: "p \<in> data ds s"
    and km: "\<forall>f \<in> used s. f \<noteq> p \<longrightarrow> (\<forall>j < 1024. kmem s' (slot f j) = kmem s (slot f j))"
    and rest: "pm s' = pm s" "npage s' = npage s"
  shows "vm_inv ds s'" "data ds s' = data ds s" "\<forall>d \<in> ds. \<forall>i < 512. pde s' d i = pde s d i"
    "same_ptes ds {} s s'" "\<forall>f. maps ds s' f = maps ds s f"
proof -
  have inv0: "vm_off ds s (\<lambda>_. 0)" using inv by (simp add: vm_inv_def)
  have us: "used s' = used s" "page_ref s' = page_ref s" using rest by (simp_all add: used_def page_ref_def fun_eq_iff)
  have ds: "d \<in> used s \<and> d \<noteq> p" if "d \<in> ds" for d using inv0 p that by (auto simp: vm_off_def data_def)
  have pd: "pde s' d i = pde s d i" if "d \<in> ds" "i < 512" for d i using km ds that by (simp add: pde_def)
  then show "\<forall>d \<in> ds. \<forall>i < 512. pde s' d i = pde s d i" by simp
  have tb: "tab s' d i = tab s d i" if "d \<in> ds" "i < 512" for d i using pd that by (simp add: tab_def)
  have t: "tab s d i \<in> used s \<and> tab s d i \<noteq> p" if "d \<in> ds" "i < 512" "present (pde s d i)" for d i
    using tab_used [OF inv0 that] p that by (auto simp: data_def tables_def)
  have pt: "pte s' d i j = pte s d i j" if "d \<in> ds" "i < 512" "j < 1024" for d i j
    using pd tb t km that by (simp add: pte_def)
  then show "same_ptes ds {} s s'" by (simp add: same_ptes_def)
  have "tables ds s' = tables ds s" unfolding tables_def using pd tb by (auto; metis)
  then show dt: "data ds s' = data ds s" by (simp add: data_def us)
  have mp: "maps ds s' f = maps ds s f" for f using pt by (auto simp: maps_def)
  then show "\<forall>f. maps ds s' f = maps ds s f" by simp
  have "vm_off ds s' (\<lambda>_. 0)" using inv0 unfolding vm_off_def by (simp add: rest us dt mp pd tb pt)
  then show "vm_inv ds s'" by (simp add: vm_inv_def)
qed

text \<open>
  What copying one page of \<open>d1\<close> to \<open>d2\<close> does: the page at \<open>(i, j)\<close> gets a private copy with the same contents
  and permissions, and no other mapping and no other frame changes.
\<close>

definition page_copied :: "nat set \<Rightarrow> nat \<Rightarrow> nat \<Rightarrow> nat \<Rightarrow> nat \<Rightarrow> vmsys \<Rightarrow> vmsys \<Rightarrow> bool" where
  "page_copied ds d1 d2 i j s s' \<longleftrightarrow> (\<exists>p. p \<in> data ds s' \<and> pte s' d2 i j = mk_pte p (pte s d1 i j AND PTE_USER) \<and>
     maps ds s' p = {(d2, i, j)} \<and> (\<forall>k < 1024. kmem s' (slot p k) = kmem s (slot (unat (PPN (pte s d1 i j))) k)))"

lemma copy_one_ok:
  assumes inv: "vm_inv ds s" and d: "d1 \<in> ds" "d2 \<in> ds" "d1 \<noteq> d2" "pdx la < 512" and out: "outside d2 s"
    and src: "present (pte s d1 (pdx la) (ptx la))" and dst: "\<not> present (pte s d2 (pdx la) (ptx la))"
    and mem: "2 \<le> card (free_page_set (pm s))"
  shows "\<exists>s'. copy_one (slot d2 0) (slot d1 0) la (slot (tab s d1 (pdx la)) (ptx la)) s = Some (0, s') \<and> vm_inv ds s' \<and>
    page_copied ds d1 d2 (pdx la) (ptx la) s s' \<and> same_ptes ds {(d2, pdx la, ptx la)} s s' \<and> same_contents (data ds s) s s' \<and>
    data ds s \<subseteq> data ds s' \<and> outside d2 s' \<and> card (free_page_set (pm s)) \<le> card (free_page_set (pm s')) + 2"
proof -
  let ?i = "pdx la" and ?j = "ptx la" and ?a = "slot (tab s d1 (pdx la)) (ptx la)"
  let ?o = "pte s d1 ?i ?j"
  let ?q = "unat (PPN ?o)"
  have j: "?j < 1024" by (rule pdx_lt)
  have inv0: "vm_off ds s (\<lambda>_. 0)" using inv by (simp add: vm_inv_def)
  have ne: "free_page_set (pm s) \<noteq> {}" using mem by auto
  have pd1: "present (pde s d1 ?i)" using src by (auto simp: pte_def split: if_splits)
  obtain s1 where g: "get_pte (slot d2 0) la True s = Some (Some (slot (tab s1 d2 ?i) ?j), s1)" and i1: "vm_off ds s1 (\<lambda>_. 0)"
    and p1: "present (pde s1 d2 ?i)" and sp: "same_ptes ds {} s s1" and dt: "data ds s1 = data ds s" and sc: "same_contents (data ds s) s s1"
    and rg: "npage s1 = npage s" "cur_pgdir s1 = cur_pgdir s" and cd: "card (free_page_set (pm s)) \<le> card (free_page_set (pm s1)) + 1"
    and st: "\<forall>d' \<in> ds. \<forall>i' < 512. present (pde s d' i') \<longrightarrow> pde s1 d' i' = pde s d' i'"
    using get_pte_create [OF inv0 d(2,4)] ne by auto
  have tb: "tab s1 d1 ?i = tab s d1 ?i" using st d pd1 by (simp add: tab_def)
  have o1: "pte s1 d1 ?i ?j = ?o" "pte s1 d2 ?i ?j = pte s d2 ?i ?j" using sp d j by (simp_all add: same_ptes_def)
  have ka: "kmem s1 ?a = ?o" using o1(1) tb src pd1 st d by (simp add: pte_def)
  have k0: "kmem s ?a = ?o" using pd1 by (simp add: pte_def)
  have ne1: "free_page_set (pm s1) \<noteq> {}" using mem cd by auto
  obtain p s2 where a: "alloc_pages 1 s1 = Some (Some p, s2)" "vm_off ds s2 (\<lambda>_. 0)" "p \<in> free_page_set (pm s1)"
    "free_page_set (pm s2) = free_page_set (pm s1) - {p}" "data ds s2 = insert p (data ds s1)" "\<exists>x. s2 = s1\<lparr>pm := x\<rparr>"
    using alloc_page_ok [OF i1 ne1 refl] by blast
  have v2: "pde s2 = pde s1" "pte s2 = pte s1" "kmem s2 = kmem s1" "maps ds s2 = maps ds s1" "npage s2 = npage s1" "cur_pgdir s2 = cur_pgdir s1"
    using a(6) by auto
  have pn: "p \<notin> data ds s1" using a(3) by (simp add: data_def used_def)
  have qd: "?q \<in> data ds s" by (rule mapped_data [OF inv0 d(1,4) j src])
  have lt: "f < npage s2 \<and> f < 2048" if "f \<in> used s2" for f using used_lt [OF a(2) that] .
  have pq: "p < npage s2" "p < 2048" "?q < npage s2" "?q < 2048" "npage s2 \<le> 2048"
    using lt a(5) qd dt a(2) by (auto simp: data_def vm_off_def)
  define s3 where "s3 = copy_page (slot p 0) (slot ?q 0) s2"
  have km: "kmem s3 (slot f k) = (if f = p then kmem s2 (slot ?q k) else kmem s2 (slot f k))" if "f \<in> used s2" "k < 1024" for f k
    unfolding s3_def by (rule copy_page_kmem) (use lt [OF that(1)] pq that in auto)
  have i2: "vm_inv ds s2" using a(2) by (simp add: vm_inv_def)
  have p2: "p \<in> data ds s2" using a(5) by simp
  have w: "vm_inv ds s3" "data ds s3 = data ds s2" "\<forall>d \<in> ds. \<forall>i < 512. pde s3 d i = pde s2 d i" "same_ptes ds {} s2 s3"
    "\<forall>f. maps ds s3 f = maps ds s2 f"
    by (rule data_write_ok [OF i2 p2]; use km in \<open>simp add: s3_def\<close>)+
  have o3: "pte s3 d2 ?i ?j = pte s d2 ?i ?j" using w(4) o1(2) d j by (simp add: same_ptes_def v2)
  have p3: "present (pde s3 d2 ?i)" using w(3) p1 d by (simp add: v2)
  have "tlb_room d2 ?i ?j s3" using out rg v2 by (simp add: tlb_room_def outside_def s3_def)
  from page_insert_ok [OF w(1) d(2,4) _ perm_okI(6) _ this, of p ?o] w(2) p2 p3 o3 dst obtain s4 where
    s4: "page_insert (slot d2 0) p la (?o AND PTE_USER) s3 = Some (0, s4)" "vm_inv ds s4" "p \<in> data ds s4"
    "pte s4 d2 ?i ?j = mk_pte p (?o AND PTE_USER)" "same_ptes ds {(d2, ?i, ?j)} s3 s4" "same_contents (data ds s3) s3 s4"
    "cur_pgdir s4 = cur_pgdir s3" "free_page_set (pm s4) = free_page_set (pm s3)" "data ds s4 = data ds s3"
    by auto
  have "pte2page (npage s1) ?o = Some ?q" "page2kva (npage s2) p = Some (slot p 0)" "page2kva (npage s2) ?q = Some (slot ?q 0)"
    using src pq v2 by (simp_all add: pte2page_eq page2kva_def KADDR_page)
  then have "copy_one (slot d2 0) (slot d1 0) la ?a s = Some (0, s4)"
    using src g a(1) s4(1) ka k0 by (simp add: copy_one_def present_def s3_def Let_def)
  moreover have spt: "same_ptes ds {(d2, ?i, ?j)} s s4" using sp w(4) s4(5) by (simp add: same_ptes_def v2)
  moreover have "same_contents (data ds s) s s4"
    unfolding same_contents_def
  proof (intro ballI allI impI)
    fix f k assume f: "f \<in> data ds s" and k: "k < (1024 :: nat)"
    have f2: "f \<in> data ds s2" "f \<noteq> p" using f a(5) dt pn by auto
    have "kmem s4 (slot f k) = kmem s3 (slot f k)" using s4(6) w(2) f2(1) k by (simp add: same_contents_def)
    also have "\<dots> = kmem s1 (slot f k)" using km [of f k] f2 k by (simp add: v2 data_def)
    also have "\<dots> = kmem s (slot f k)" using sc f k by (simp add: same_contents_def)
    finally show "kmem s4 (slot f k) = kmem s (slot f k)" .
  qed
  moreover have "page_copied ds d1 d2 ?i ?j s s4"
  proof -
    have "maps ds s1 p = {}" using mapped_data [OF i1] pn by (auto simp: maps_def)
    then have no: "\<not> (present (pte s3 x y z) \<and> unat (PPN (pte s3 x y z)) = p)" if "x \<in> ds" "y < 512" "z < 1024" for x y z
      using w(4) that by (auto simp: maps_def same_ptes_def v2)
    have "(x, y, z) \<in> maps ds s4 p \<longleftrightarrow> (x, y, z) = (d2, ?i, ?j)" for x y z
    proof (cases "(x, y, z) = (d2, ?i, ?j)")
      case True
      then show ?thesis using s4(4) d j mk_pte_page [OF pq(2) perm_okI(6)] by (simp add: maps_def)
    next
      case False
      then have "pte s4 x y z = pte s3 x y z" if "x \<in> ds" "y < 512" "z < 1024" using s4(5) that by (simp add: same_ptes_def)
      then show ?thesis using no [of x y z] False by (auto simp: maps_def)
    qed
    then have "maps ds s4 p = {(d2, ?i, ?j)}" by auto
    moreover have "kmem s4 (slot p k) = kmem s (slot ?q k)" if "k < 1024" for k
    proof -
      have "kmem s4 (slot p k) = kmem s3 (slot p k)" using s4(6) w(2) p2 that by (simp add: same_contents_def)
      also have "\<dots> = kmem s1 (slot ?q k)" using km [of p k] p2 that by (simp add: v2 data_def)
      also have "\<dots> = kmem s (slot ?q k)" using sc qd that by (simp add: same_contents_def)
      finally show ?thesis .
    qed
    ultimately show ?thesis unfolding page_copied_def using s4(3,4) by blast
  qed
  moreover have "outside d2 s4" using out s4(7) rg v2 by (simp add: outside_def s3_def)
  moreover have "card (free_page_set (pm s)) \<le> card (free_page_set (pm s4)) + 2"
    using cd a(3,4) s4(8) by (simp add: s3_def card_Diff_singleton_if)
  moreover have "data ds s \<subseteq> data ds s4" using s4(9) w(2) a(5) dt by auto
  ultimately show ?thesis using s4(2) by blast
qed

definition copied :: "nat set \<Rightarrow> nat \<Rightarrow> nat \<Rightarrow> (nat \<times> nat) set \<Rightarrow> vmsys \<Rightarrow> vmsys \<Rightarrow> bool" where
  "copied ds d1 d2 A s s' \<longleftrightarrow> vm_inv ds s' \<and> (\<forall>(i, j) \<in> A. page_copied ds d1 d2 i j s s') \<and> same_ptes ds ({d2} \<times> A) s s' \<and>
     same_contents (data ds s) s s' \<and> data ds s \<subseteq> data ds s'"

lemma copied_refl: "vm_inv ds s \<Longrightarrow> copied ds d1 d2 {} s s"
  by (simp add: copied_def same_ptes_def same_contents_def)

lemma copied_keeps:
  assumes c: "copied ds d1 d2 B t u" and B: "B \<subseteq> {..<512} \<times> {..<1024}" and d: "d2 \<in> ds"
    and p: "p \<in> data ds t" "maps ds t p = {(d2, i, j)}" "(i, j) \<notin> B"
  shows "maps ds u p = {(d2, i, j)}"
proof -
  have own0: "(d2, i, j) \<in> maps ds t p" by (simp add: p(2))
  then have idx: "i < 512" "j < 1024" by (simp_all add: maps_def)
  have keep: "pte u x y z = pte t x y z" if "x \<in> ds" "y < 512" "z < 1024" "(x, y, z) \<notin> {d2} \<times> B" for x y z
    using c that by (auto simp: copied_def same_ptes_def)
  have own: "(d2, i, j) \<in> maps ds u p" using own0 keep [OF d idx] p(3) by (auto simp: maps_def)
  have "x = (d2, i, j)" if x: "x \<in> maps ds u p" for x
  proof -
    obtain a b e where xe: "x = (a, b, e)" by (metis prod_cases3)
    have h: "a \<in> ds" "b < 512" "e < 1024" "present (pte u a b e)" "unat (PPN (pte u a b e)) = p" using x by (auto simp: maps_def xe)
    show ?thesis
    proof (cases "a = d2 \<and> (b, e) \<in> B")
      case False
      then have "(a, b, e) \<in> maps ds t p" using keep [OF h(1-3)] h by (auto simp: maps_def)
      then show ?thesis using p(2) xe by simp
    next
      case True
      then have "page_copied ds d1 d2 b e t u" using c by (auto simp: copied_def)
      then obtain q where q: "pte u d2 b e = mk_pte q (pte t d1 b e AND PTE_USER)" "maps ds u q = {(d2, b, e)}"
        by (auto simp: page_copied_def)
      have "(d2, b, e) \<in> maps ds u q" using q(2) by simp
      then have "q = p" using h True by (auto simp: maps_def)
      then show ?thesis using q(2) own x by (metis singletonD)
    qed
  qed
  then show ?thesis using own by blast
qed

lemma copied_trans:
  assumes s: "vm_inv ds s" and c1: "copied ds d1 d2 A s t" and c2: "copied ds d1 d2 B t u" and disj: "A \<inter> B = {}"
    and d: "d1 \<in> ds" "d2 \<in> ds" "d1 \<noteq> d2" and idx: "A \<subseteq> {..<512} \<times> {..<1024}" "B \<subseteq> {..<512} \<times> {..<1024}"
    and src: "\<forall>(i, j) \<in> B. present (pte s d1 i j)"
  shows "copied ds d1 d2 (A \<union> B) s u"
proof -
  have inv0: "vm_off ds s (\<lambda>_. 0)" using s by (simp add: vm_inv_def)
  have same1: "pte t d1 i j = pte s d1 i j" if "i < 512" "j < 1024" for i j
    using c1 that d by (auto simp: copied_def same_ptes_def)
  have "page_copied ds d1 d2 i j s u" if m: "(i, j) \<in> A" for i j
  proof -
    have ij: "i < 512" "j < 1024" "(i, j) \<notin> B" using m idx disj by auto
    from c1 m obtain p where p: "p \<in> data ds t" "pte t d2 i j = mk_pte p (pte s d1 i j AND PTE_USER)" "maps ds t p = {(d2, i, j)}"
      "\<forall>k < 1024. kmem t (slot p k) = kmem s (slot (unat (PPN (pte s d1 i j))) k)" by (auto simp: copied_def page_copied_def)
    have "pte u d2 i j = pte t d2 i j" using c2 d ij by (simp add: copied_def same_ptes_def)
    moreover have "\<forall>k < 1024. kmem u (slot p k) = kmem t (slot p k)" using c2 p(1) by (simp add: copied_def same_contents_def)
    moreover have "p \<in> data ds u" using c2 p(1) by (auto simp: copied_def)
    ultimately show ?thesis
      using p copied_keeps [OF c2 idx(2) d(2) p(1,3) ij(3)] unfolding page_copied_def by (intro exI [of _ p]) simp
  qed
  moreover have "page_copied ds d1 d2 i j s u" if m: "(i, j) \<in> B" for i j
  proof -
    have ij: "i < 512" "j < 1024" using m idx by auto
    have "unat (PPN (pte s d1 i j)) \<in> data ds s" using mapped_data [OF inv0 d(1) ij] src m by auto
    then have "kmem t (slot (unat (PPN (pte s d1 i j))) k) = kmem s (slot (unat (PPN (pte s d1 i j))) k)" if "k < 1024" for k
      using c1 that by (simp add: copied_def same_contents_def)
    moreover have "page_copied ds d1 d2 i j t u" using c2 m by (auto simp: copied_def)
    ultimately show ?thesis using same1 [OF ij] by (simp add: page_copied_def)
  qed
  moreover have "same_ptes ds ({d2} \<times> (A \<union> B)) s u" using c1 c2 by (simp add: copied_def same_ptes_def)
  moreover have "same_contents (data ds s) s u" using c1 c2 by (auto simp: copied_def same_contents_def)
  moreover have "vm_inv ds u" "data ds s \<subseteq> data ds u" using c1 c2 by (auto simp: copied_def)
  ultimately show ?thesis unfolding copied_def by blast
qed

text \<open>The pages of \<open>d\<close> mapped in an address range.\<close>

definition pages_in :: "vmsys \<Rightarrow> nat \<Rightarrow> nat \<Rightarrow> nat \<Rightarrow> (nat \<times> nat) set" where
  "pages_in s d lo hi = {(i, j). i < 512 \<and> j < 1024 \<and> lo \<le> va i j \<and> va i j < hi \<and> present (pte s d i j)}"

lemma pages_in_finite [simp]: "finite (pages_in s d lo hi)"
  by (rule finite_subset [of _ "{..<512} \<times> {..<1024}"]) (auto simp: pages_in_def)

lemma pages_in_idx: "pages_in s d lo hi \<subseteq> {..<512} \<times> {..<1024}"
  by (auto simp: pages_in_def)

lemma pages_in_split: "lo \<le> mid \<Longrightarrow> mid \<le> hi \<Longrightarrow> pages_in s d lo hi = pages_in s d lo mid \<union> pages_in s d mid hi"
  "pages_in s d lo mid \<inter> pages_in s d mid hi = {}"
  by (auto simp: pages_in_def)

lemma copied_pages_in:
  assumes "copied ds d1 d2 A s t" "d1 \<in> ds" "d1 \<noteq> d2" shows "pages_in t d1 lo hi = pages_in s d1 lo hi"
  using assms by (auto simp: copied_def same_ptes_def pages_in_def)

lemma copy_loop_ok:
  assumes "vm_inv ds s" "d1 \<in> ds" "d2 \<in> ds" "d1 \<noteq> d2" "4096 dvd unat start" "4096 dvd unat stop" "start < stop" "unat stop \<le> 2 ^ 31"
    "outside d2 s" "pages_in s d2 (unat start) (unat stop) = {}"
    "2 * card (pages_in s d1 (unat start) (unat stop)) \<le> card (free_page_set (pm s))"
  shows "\<exists>s'. copy_loop (slot d2 0) (slot d1 0) start stop s = Some (0, s') \<and> outside d2 s' \<and>
    copied ds d1 d2 (pages_in s d1 (unat start) (unat stop)) s s' \<and>
    card (free_page_set (pm s)) \<le> card (free_page_set (pm s')) + 2 * card (pages_in s d1 (unat start) (unat stop))"
  using assms
proof (induction "unat stop - unat start" arbitrary: start s rule: less_induct)
  case less
  note inv = less.prems(1) and d = less.prems(2,3,4)
  have inv0: "vm_off ds s (\<lambda>_. 0)" using inv by (simp add: vm_inv_def)
  have lt: "unat start < unat stop" using less.prems(7) by (simp add: word_less_nat_alt)
  then have us: "unat start < 2 ^ 31" using less.prems(8) by simp
  have i: "pdx start < 512" by (rule user_pdx [OF us])
  have j: "ptx start < 1024" by (rule pdx_lt)
  note g = get_pte_lookup [OF inv0 d(1) i]
  have va: "unat start = va (pdx start) (ptx start)" by (rule va_of [OF less.prems(5)])
  have "\<exists>start' s1. copy_loop (slot d2 0) (slot d1 0) start stop s =
      (if start' \<noteq> 0 \<and> start' < stop then copy_loop (slot d2 0) (slot d1 0) start' stop s1 else Some (0, s1)) \<and>
      outside d2 s1 \<and> copied ds d1 d2 (pages_in s d1 (unat start) (min (unat start') (unat stop))) s s1 \<and>
      card (free_page_set (pm s)) \<le> card (free_page_set (pm s1)) + 2 * card (pages_in s d1 (unat start) (min (unat start') (unat stop))) \<and>
      4096 dvd unat start' \<and> unat start < unat start' \<and> start' \<noteq> 0"
  proof (cases "present (pde s d1 (pdx start))")
    case False
    let ?n = "ROUNDDOWN (start + PTSIZE) PTSIZE"
    note n = next_table [OF us]
    have lo: "unat start < unat ?n" unfolding n(1) by (rule va_table_above)
    have "pages_in s d1 (unat start) (min (unat ?n) (unat stop)) = {}"
      using va_table [of start] False unfolding pages_in_def n(1) by (force simp: pte_def)
    then show ?thesis using less.prems(9) g False n lo copied_refl [OF inv]
      by (intro exI [of _ ?n] exI [of _ s]) (subst copy_loop.simps, simp)
  next
    case True
    let ?a = "slot (tab s d1 (pdx start)) (ptx start)"
    note n = next_page [OF us less.prems(5)]
    have le: "unat start + 4096 \<le> unat stop" by (rule dvd_less_step [OF less.prems(5,6) lt])
    have here: "pages_in s x (unat start) (unat start + 4096) = (if present (pte s x (pdx start) (ptx start)) then {(pdx start, ptx start)} else {})" for x
    proof -
      have "(x', y') \<in> pages_in s x (unat start) (unat start + 4096) \<longleftrightarrow>
          (x', y') = (pdx start, ptx start) \<and> present (pte s x (pdx start) (ptx start))" for x' y'
        unfolding pages_in_def va mem_Collect_eq prod.case using va_page [OF _ j, of y' "pdx start" x'] i j by auto
      then show ?thesis by auto
    qed
    have ka: "kmem s ?a = pte s d1 (pdx start) (ptx start)" using True by (simp add: pte_def)
    have run: "copy_loop (slot d2 0) (slot d1 0) start stop s =
        (if start + PGSIZE \<noteq> 0 \<and> start + PGSIZE < stop then copy_loop (slot d2 0) (slot d1 0) (start + PGSIZE) stop s1 else Some (0, s1))"
      if "copy_one (slot d2 0) (slot d1 0) start ?a s = Some (0, s1)" for s1
      using that g True by (subst copy_loop.simps) simp
    show ?thesis
    proof (cases "present (pte s d1 (pdx start) (ptx start))")
      case False
      then have "copy_one (slot d2 0) (slot d1 0) start ?a s = Some (0, s)" by (simp add: copy_one_def ka present_def)
      then show ?thesis using run [of s] n le here [of d1] False copied_refl [OF inv] less.prems(9)
        by (intro exI [of _ "start + PGSIZE"] exI [of _ s]) simp
    next
      case pr: True
      have hs: "pages_in s d1 (unat start) (unat start + 4096) = {(pdx start, ptx start)}" using here [of d1] pr by simp
      have "pages_in s d2 (unat start) (unat start + 4096) = {}"
        using less.prems(10) pages_in_split(1) [of "unat start" "unat start + 4096" "unat stop" s d2] le by simp
      then have dst: "\<not> present (pte s d2 (pdx start) (ptx start))" using here [of d2] by (auto split: if_splits)
      have "card {(pdx start, ptx start)} \<le> card (pages_in s d1 (unat start) (unat stop))"
        by (rule card_mono) (use pages_in_split(1) [of "unat start" "unat start + 4096" "unat stop" s d1] le hs in auto)
      then have mem: "2 \<le> card (free_page_set (pm s))" using less.prems(11) by simp
      from copy_one_ok [OF inv d i less.prems(9) pr dst mem] obtain s1 where
        s1: "copy_one (slot d2 0) (slot d1 0) start ?a s = Some (0, s1)" "vm_inv ds s1" "page_copied ds d1 d2 (pdx start) (ptx start) s s1"
        "same_ptes ds {(d2, pdx start, ptx start)} s s1" "same_contents (data ds s) s s1" "data ds s \<subseteq> data ds s1" "outside d2 s1"
        "card (free_page_set (pm s)) \<le> card (free_page_set (pm s1)) + 2" by blast
      have "copied ds d1 d2 {(pdx start, ptx start)} s s1" using s1 by (simp add: copied_def)
      then show ?thesis using run [OF s1(1)] n le hs s1(7,8)
        by (intro exI [of _ "start + PGSIZE"] exI [of _ s1]) simp
    qed
  qed
  then obtain start' s1 where s1: "copy_loop (slot d2 0) (slot d1 0) start stop s =
      (if start' \<noteq> 0 \<and> start' < stop then copy_loop (slot d2 0) (slot d1 0) start' stop s1 else Some (0, s1))"
      "outside d2 s1" "copied ds d1 d2 (pages_in s d1 (unat start) (min (unat start') (unat stop))) s s1"
      "card (free_page_set (pm s)) \<le> card (free_page_set (pm s1)) + 2 * card (pages_in s d1 (unat start) (min (unat start') (unat stop)))"
      "4096 dvd unat start'" "unat start < unat start'" "start' \<noteq> 0" by blast
  show ?case
  proof (cases "start' < stop")
    case False
    then have "min (unat start') (unat stop) = unat stop" by (simp add: word_less_nat_alt)
    then show ?thesis using s1 False by auto
  next
    case True
    then have m: "min (unat start') (unat stop) = unat start'" "unat start' \<le> unat stop" by (simp_all add: word_less_nat_alt)
    note c1 = s1(3) [unfolded m]
    note sp = pages_in_split [where lo = "unat start" and mid = "unat start'" and hi = "unat stop" and s = s]
    have p1: "pages_in s1 d1 (unat start') (unat stop) = pages_in s d1 (unat start') (unat stop)"
      by (rule copied_pages_in [OF c1 d(1,3)])
    have p2: "pages_in s1 d2 (unat start') (unat stop) = {}"
    proof -
      have "(d2, x, y) \<notin> {d2} \<times> pages_in s d1 (unat start) (unat start')" if "unat start' \<le> va x y" for x y
        using that by (auto simp: pages_in_def)
      then have "pages_in s1 d2 (unat start') (unat stop) = pages_in s d2 (unat start') (unat stop)"
        using c1 d(2) by (auto simp: pages_in_def copied_def same_ptes_def)
      then show ?thesis using less.prems(10) sp(1) [where d = d2] s1(6) m by auto
    qed
    have cd: "card (pages_in s d1 (unat start) (unat stop)) =
        card (pages_in s d1 (unat start) (unat start')) + card (pages_in s d1 (unat start') (unat stop))"
      using sp(1) [where d = d1] sp(2) [where d = d1] s1(6) m by (simp add: card_Un_disjoint)
    have i1: "vm_inv ds s1" using c1 by (simp add: copied_def)
    have "unat stop - unat start' < unat stop - unat start" using s1(6) lt by simp
    from less.hyps [OF this i1 d s1(5) less.prems(6) True less.prems(8) s1(2) p2] obtain s' where
      s': "copy_loop (slot d2 0) (slot d1 0) start' stop s1 = Some (0, s')" "outside d2 s'"
      "copied ds d1 d2 (pages_in s d1 (unat start') (unat stop)) s1 s'"
      "card (free_page_set (pm s1)) \<le> card (free_page_set (pm s')) + 2 * card (pages_in s d1 (unat start') (unat stop))"
      using less.prems(11) s1(4) cd m unfolding p1 by auto
    have "copied ds d1 d2 (pages_in s d1 (unat start) (unat start') \<union> pages_in s d1 (unat start') (unat stop)) s s'"
      by (rule copied_trans [OF inv c1 s'(3) sp(2) d pages_in_idx pages_in_idx]) (auto simp: pages_in_def)
    then have "copied ds d1 d2 (pages_in s d1 (unat start) (unat stop)) s s'" using sp(1) [where d = d1] s1(6) m by simp
    then show ?thesis using s1 s' True cd m by auto
  qed
qed

text \<open>
  Duplicating the pages of a range, as fork does for every area. With enough free memory \<open>copy_range\<close> returns
  0; every page mapped in the range by the source directory has, in the destination, a page of its own with the
  same contents and permissions, mapped nowhere else; nothing else of any directory and no other frame changes,
  so parent and child share no memory in the range.
\<close>

lemma copy_range_copies:
  assumes inv: "vm_inv ds s" and d: "d1 \<in> ds" "d2 \<in> ds" "d1 \<noteq> d2" "outside d2 s"
    and rng: "start mod PGSIZE = 0" "stop mod PGSIZE = 0" "USER_ACCESS start stop"
    and dst: "pages_in s d2 (unat start) (unat stop) = {}"
    and mem: "2 * card (pages_in s d1 (unat start) (unat stop)) \<le> nr_free_pages s"
  shows "\<exists>s'. copy_range (slot d2 0) (slot d1 0) start stop s = Some (0, s') \<and> vm_inv ds s' \<and>
    (\<forall>(i, j) \<in> pages_in s d1 (unat start) (unat stop). page_copied ds d1 d2 i j s s') \<and>
    same_ptes ds ({d2} \<times> pages_in s d1 (unat start) (unat stop)) s s' \<and> same_contents (data ds s) s s'"
proof -
  have "start < stop" "unat stop \<le> 2 ^ 31" using rng(3) by (auto simp: USER_ACCESS_def USERTOP_def word_le_nat_alt)
  moreover have "nr_free_pages s = card (free_page_set (pm s))"
    using inv dp.nr_avail [of "npage s" "pm s"] by (simp add: nr_free_pages_def vm_inv_def vm_off_def)
  ultimately obtain s' where "copy_loop (slot d2 0) (slot d1 0) start stop s = Some (0, s')"
    "copied ds d1 d2 (pages_in s d1 (unat start) (unat stop)) s s'"
    using copy_loop_ok [OF inv d(1-3) PGSIZE_dvd [OF rng(1)] PGSIZE_dvd [OF rng(2)] _ _ d(4) dst] mem by auto
  then show ?thesis using rng by (intro exI [of _ s']) (simp add: copy_range_def copied_def)
qed

section \<open>Duplicating an address space\<close>

definition area_pages :: "vmsys \<Rightarrow> nat \<Rightarrow> vma_struct list \<Rightarrow> (nat \<times> nat) set" where
  "area_pages s d vs = (\<Union>v \<in> set vs. pages_in s d (unat (vm_start v)) (unat (vm_end v)))"

lemma area_pages_Cons: "area_pages s d (v # vs) = pages_in s d (unat (vm_start v)) (unat (vm_end v)) \<union> area_pages s d vs"
  by (simp add: area_pages_def)

lemma area_pages_finite [simp]: "finite (area_pages s d vs)"
  by (simp add: area_pages_def)

lemma area_pages_idx: "area_pages s d vs \<subseteq> {..<512} \<times> {..<1024}"
  unfolding area_pages_def by (rule UN_least) (rule pages_in_idx)

lemma area_pages_disj:
  assumes "\<forall>w \<in> set vs. apart_vma v w"
  shows "pages_in s d (unat (vm_start v)) (unat (vm_end v)) \<inter> area_pages s' d' vs = {}"
  using assms by (auto simp: area_pages_def pages_in_def apart_vma_def word_le_nat_alt)

lemma insert_vma_pgdir: "insert_vma_struct v mm = Some mm' \<Longrightarrow> pgdir mm' = pgdir mm"
  by (auto simp: insert_vma_struct_def kassert_simps bind_eq_Some_conv Let_def)

lemma vma_create_copy: "vma_create True (vm_start v) (vm_end v) (vm_flags v) = Some v"
  by (simp add: vma_create_def)

lemma dup_areas_ok:
  assumes "vm_inv ds s" "d1 \<in> ds" "d2 \<in> ds" "d1 \<noteq> d2" "outside d2 s" "\<forall>v \<in> set vs. area_ok v" "sorted_wrt apart_vma vs"
    "mm_wf to" "pgdir to = slot d2 0" "\<forall>v \<in> set vs. \<forall>w \<in> set (mmap_list to). apart_vma v w"
    "area_pages s d2 vs = {}" "2 * card (area_pages s d1 vs) \<le> card (free_page_set (pm s))" "length vs \<le> length ok" "\<forall>b \<in> set ok. b"
  shows "\<exists>to' s'. dup_areas ok (slot d1 0) vs to s = Some (0, to', s') \<and> mm_wf to' \<and> set (mmap_list to') = set (mmap_list to) \<union> set vs \<and>
    copied ds d1 d2 (area_pages s d1 vs) s s'"
  using assms
proof (induction vs arbitrary: ok to s)
  case Nil
  then show ?case using copied_refl by (auto simp: area_pages_def)
next
  case (Cons v vs)
  note inv = Cons.prems(1) and d = Cons.prems(2-4)
  obtain ok' where ok: "ok = True # ok'" using Cons.prems(13,14) by (cases ok) auto
  have "area_ok v" using Cons.prems(6) by simp
  then have va: "vm_start v mod PGSIZE = 0" "vm_end v mod PGSIZE = 0" "USER_ACCESS (vm_start v) (vm_end v)"
    unfolding area_ok_def by blast+
  then have rng: "vm_start v < vm_end v" "unat (vm_end v) \<le> 2 ^ 31"
    by (auto simp: USER_ACCESS_def USERTOP_def word_le_nat_alt)
  obtain to1 where to1: "insert_vma_struct v to = Some to1" "mm_wf to1" "set (mmap_list to1) = insert v (set (mmap_list to))"
    using vm.add_ok [OF Cons.prems(8), of v] rng(1) Cons.prems(10) by auto
  have pg: "pgdir to1 = slot d2 0" using insert_vma_pgdir [OF to1(1)] Cons.prems(9) by simp
  let ?A = "pages_in s d1 (unat (vm_start v)) (unat (vm_end v))" and ?B = "area_pages s d1 vs"
  have ap: "\<forall>w \<in> set vs. apart_vma v w" using Cons.prems(7) by simp
  have disj: "?A \<inter> ?B = {}" by (rule area_pages_disj [OF ap])
  have card: "card (area_pages s d1 (v # vs)) = card ?A + card ?B"
    unfolding area_pages_Cons using disj by (simp add: card_Un_disjoint)
  have dst: "pages_in s d2 (unat (vm_start v)) (unat (vm_end v)) = {}" "area_pages s d2 vs = {}"
    using Cons.prems(11) by (auto simp: area_pages_Cons)
  have mem: "2 * card ?A \<le> card (free_page_set (pm s))" using Cons.prems(12) card by simp
  obtain s1 where s1: "copy_loop (slot d2 0) (slot d1 0) (vm_start v) (vm_end v) s = Some (0, s1)" "outside d2 s1" "copied ds d1 d2 ?A s s1"
    "card (free_page_set (pm s)) \<le> card (free_page_set (pm s1)) + 2 * card ?A"
    using copy_loop_ok [OF inv d PGSIZE_dvd [OF va(1)] PGSIZE_dvd [OF va(2)] rng Cons.prems(5) dst(1) mem] by blast
  then have run: "copy_range (pgdir to1) (slot d1 0) (vm_start v) (vm_end v) s = Some (0, s1)"
    using va by (simp add: copy_range_def pg)
  have i1: "vm_inv ds s1" using s1(3) by (simp add: copied_def)
  have B1: "area_pages s1 d1 vs = ?B" using copied_pages_in [OF s1(3) d(1,3)] by (simp add: area_pages_def)
  have B2: "area_pages s1 d2 vs = {}"
  proof -
    have "present (pte s d2 i j)" if "(i, j) \<in> area_pages s1 d2 vs" for i j
    proof -
      have "(i, j) \<notin> ?A" using area_pages_disj [OF ap, of s d1 s1 d2] that by auto
      then have "pte s1 d2 i j = pte s d2 i j" using s1(3) d(2) that area_pages_idx [of s1 d2 vs] by (auto simp: copied_def same_ptes_def)
      then show ?thesis using that by (auto simp: area_pages_def pages_in_def)
    qed
    then have "area_pages s1 d2 vs \<subseteq> area_pages s d2 vs" by (fastforce simp: area_pages_def pages_in_def)
    then show ?thesis using dst(2) by simp
  qed
  have "\<forall>v \<in> set vs. \<forall>w \<in> set (mmap_list to1). apart_vma v w" using to1(3) Cons.prems(10) ap vm.apart_sym by auto
  moreover have "2 * card (area_pages s1 d1 vs) \<le> card (free_page_set (pm s1))" using s1(4) Cons.prems(12) card B1 by simp
  ultimately have "\<exists>to' s'. dup_areas ok' (slot d1 0) vs to1 s1 = Some (0, to', s') \<and> mm_wf to' \<and>
      set (mmap_list to') = set (mmap_list to1) \<union> set vs \<and> copied ds d1 d2 (area_pages s1 d1 vs) s1 s'"
    using Cons.prems(6,7,13,14) ok by (intro Cons.IH [OF i1 d s1(2) _ _ to1(2) pg _ B2]) auto
  then obtain to' s' where s': "dup_areas ok' (slot d1 0) vs to1 s1 = Some (0, to', s')" "mm_wf to'"
    "set (mmap_list to') = set (mmap_list to1) \<union> set vs" "copied ds d1 d2 ?B s1 s'" unfolding B1 by blast
  have "copied ds d1 d2 (?A \<union> ?B) s s'"
    by (rule copied_trans [OF inv s1(3) s'(4) disj d pages_in_idx area_pages_idx]) (auto simp: area_pages_def pages_in_def)
  then show ?case using s' to1 run by (simp add: ok vma_create_copy area_pages_Cons pg)
qed

lemma sorted_areas_apart: "mm_wf mm \<Longrightarrow> sorted_wrt apart_vma (rev (mmap_list mm))"
  by (auto simp: mm_wf_def sorted_wrt_rev apart_vma_def elim!: sorted_wrt_mono_rel [rotated])

text \<open>A sorted list of disjoint non-empty areas is determined by its set.\<close>

lemma area_list_unique:
  assumes "mm_wf a" "mm_wf b" "set (mmap_list a) = set (mmap_list b)" shows "mmap_list a = mmap_list b"
proof -
  have k: "sorted_wrt (<) (map (\<lambda>v. unat (vm_start v)) (mmap_list m))" if "mm_wf m" for m
  proof -
    have "sorted_wrt (\<lambda>v w. unat (vm_start v) < unat (vm_start w)) (mmap_list m)"
      by (rule sorted_wrt_mono_rel [of _ "\<lambda>v w. vm_end v \<le> vm_start w"])
        (use that in \<open>auto simp: mm_wf_def word_le_nat_alt word_less_nat_alt\<close>)
    then show ?thesis by (simp add: sorted_wrt_map)
  qed
  have "map (\<lambda>v. unat (vm_start v)) (mmap_list a) = map (\<lambda>v. unat (vm_start v)) (mmap_list b)"
    using k [OF assms(1)] k [OF assms(2)] assms(3)
    by (intro sorted_distinct_set_unique) (auto simp: strict_sorted_iff)
  moreover have "inj_on (\<lambda>v. unat (vm_start v)) (set (mmap_list a) \<union> set (mmap_list b))"
  proof -
    have "distinct (map (\<lambda>v. unat (vm_start v)) (mmap_list a))" using k [OF assms(1)] strict_sorted_iff by blast
    then show ?thesis using assms(3) by (simp add: distinct_map)
  qed
  ultimately show ?thesis by (rule map_inj_on)
qed

text \<open>
  C10: duplicating an address space for fork. With enough memory \<open>dup_mmap\<close> returns 0; the new address space has
  the same areas in the same order, and every page the parent has mapped in its areas is mapped in the child to a
  private copy with the same contents and permissions; the parent's mappings and memory are unchanged.
\<close>

theorem dup_mmap_correct:
  assumes inv: "vm_inv ds s" and d: "d1 \<in> ds" "d2 \<in> ds" "d1 \<noteq> d2" "outside d2 s"
    and src: "mm_wf mm" "pgdir mm = slot d1 0" "\<forall>v \<in> set (mmap_list mm). area_ok v"
    and to: "mm_wf to" "mmap_list to = []" "pgdir to = slot d2 0" "area_pages s d2 (mmap_list mm) = {}"
    and mem: "2 * card (area_pages s d1 (mmap_list mm)) \<le> nr_free_pages s" "length (mmap_list mm) \<le> length ok" "\<forall>b \<in> set ok. b"
  shows "\<exists>to' s'. dup_mmap ok to mm s = Some (0, to', s') \<and> mm_wf to' \<and> mmap_list to' = mmap_list mm \<and> vm_inv ds s' \<and>
    (\<forall>(i, j) \<in> area_pages s d1 (mmap_list mm). page_copied ds d1 d2 i j s s') \<and>
    same_ptes ds ({d2} \<times> area_pages s d1 (mmap_list mm)) s s' \<and> same_contents (data ds s) s s'"
proof -
  have r: "area_pages s x (rev (mmap_list mm)) = area_pages s x (mmap_list mm)" for x by (simp add: area_pages_def)
  have nr: "nr_free_pages s = card (free_page_set (pm s))"
    using inv dp.nr_avail [of "npage s" "pm s"] by (simp add: nr_free_pages_def vm_inv_def vm_off_def)
  have "\<exists>to' s'. dup_areas ok (slot d1 0) (rev (mmap_list mm)) to s = Some (0, to', s') \<and> mm_wf to' \<and>
      set (mmap_list to') = set (mmap_list to) \<union> set (rev (mmap_list mm)) \<and> copied ds d1 d2 (area_pages s d1 (rev (mmap_list mm))) s s'"
    by (rule dup_areas_ok [OF inv d _ sorted_areas_apart [OF src(1)] to(1) to(3)]) (use src to mem nr in \<open>simp_all add: r\<close>)
  then obtain to' s' where s': "dup_areas ok (slot d1 0) (rev (mmap_list mm)) to s = Some (0, to', s')" "mm_wf to'"
    "set (mmap_list to') = set (mmap_list mm)" "copied ds d1 d2 (area_pages s d1 (mmap_list mm)) s s'" using to(2) r by auto
  have "mmap_list to' = mmap_list mm" by (rule area_list_unique [OF s'(2) src(1) s'(3)])
  then show ?thesis using s' src(2) by (intro exI [of _ to'] exI [of _ s']) (auto simp: dup_mmap_def copied_def)
qed

section \<open>Page faults\<close>

lemma pdx_ROUNDDOWN: "pdx (ROUNDDOWN la PGSIZE) = pdx la" "ptx (ROUNDDOWN la PGSIZE) = ptx la"
proof -
  have "PDX (PTE_ADDR la) = PDX la" "PTX (PTE_ADDR la) = PTX la"
    by (rule bit_word_eqI; auto simp: bit_PDX bit_PTX bit_PTE_ADDR)+
  moreover have "ROUNDDOWN la PGSIZE = PTE_ADDR la" by (simp add: PTE_ADDR_ROUNDDOWN PGSIZE_def)
  ultimately show "pdx (ROUNDDOWN la PGSIZE) = pdx la" "ptx (ROUNDDOWN la PGSIZE) = ptx la" by (simp_all add: pdx_def ptx_def)
qed

definition fault_perm :: "vma_struct \<Rightarrow> u32" where
  "fault_perm v = (if vm_flags v AND VM_WRITE \<noteq> 0 then PTE_U OR PTE_W else PTE_U)"

lemma perm_ok_fault: "perm_ok (fault_perm v)"
  by (simp add: fault_perm_def perm_okI)

lemma find_vma_pgdir: "pgdir (snd (find_vma a mm)) = pgdir mm"
  by (simp add: find_vma_def Let_def)

text \<open>The handler once the area is found and the access allowed.\<close>

lemma do_pgfault_allowed:
  assumes wf: "mm_wf mm" and v: "v \<in> set (mmap_list mm)" "in_vma addr v" "fault_allowed err (vm_flags v)"
  shows "do_pgfault mm err addr s = (let mm' = snd (find_vma addr mm) in do {
       (ptep, s) \<leftarrow> get_pte (pgdir mm) (ROUNDDOWN addr PGSIZE) True s;
       a \<leftarrow> ptep;
       if kmem s a = 0 then do {
         (_, s) \<leftarrow> pgdir_alloc_page (pgdir mm) (ROUNDDOWN addr PGSIZE) (fault_perm v) s;
         Some (0, mm', s)
       } else if swap_init_ok s then do {
         (p, s) \<leftarrow> swap_in (pgdir mm) (ROUNDDOWN addr PGSIZE) s;
         (_, s) \<leftarrow> page_insert (pgdir mm) p (ROUNDDOWN addr PGSIZE) (fault_perm v) s;
         s \<leftarrow> fifo_map_swappable mm' p s;
         Some (0, mm', s)
       } else Some (- E_NO_MEM, mm', s)
     })"
proof -
  have "fst (find_vma addr mm) = Some v" using find_vma_spec [OF wf] v by simp
  then have f: "find_vma addr mm = (Some v, snd (find_vma addr mm))" by (metis prod.collapse)
  have "\<not> vm_start v > addr" using v(2) by (auto simp: in_vma_def)
  then show ?thesis
    unfolding do_pgfault_def using v(3) by (subst f) (simp add: Let_def fault_perm_def [symmetric] find_vma_pgdir cong: if_cong)
qed

text \<open>
  C11: the page fault handler. An address outside every area, or an access its area does not permit, is refused
  with \<open>-E_INVAL\<close> and memory is untouched. A permitted access to a page that has never been touched, with two
  free frames, succeeds: exactly the faulting page becomes mapped, to a frame that was free and is mapped nowhere
  else, user accessible, and writable exactly when the area is; no other mapping changes. When memory is
  exhausted (swapping off, page table present) the handler still reports success although nothing is mapped.
\<close>

theorem do_pgfault_correct:
  assumes inv: "vm_inv ds s" and d: "d \<in> ds" "pgdir mm = slot d 0" and wf: "mm_wf mm" "\<forall>v \<in> set (mmap_list mm). area_ok v"
    and room: "tlb_room d (pdx addr) (ptx addr) s"
  shows "((\<forall>v \<in> set (mmap_list mm). \<not> (in_vma addr v \<and> fault_allowed err (vm_flags v))) \<longrightarrow>
       do_pgfault mm err addr s = Some (- E_INVAL, snd (find_vma addr mm), s)) \<and>
    (\<forall>v \<in> set (mmap_list mm). in_vma addr v \<and> fault_allowed err (vm_flags v) \<and> pte s d (pdx addr) (ptx addr) = 0 \<longrightarrow>
       (2 \<le> nr_free_pages s \<longrightarrow>
          (\<exists>p s'. do_pgfault mm err addr s = Some (0, snd (find_vma addr mm), s') \<and> vm_inv ds s' \<and>
             p \<in> free_page_set (pm s) \<and> pte s' d (pdx addr) (ptx addr) = mk_pte p (fault_perm v) \<and>
             maps ds s' p = {(d, pdx addr, ptx addr)} \<and>
             same_ptes ds {(d, pdx addr, ptx addr)} s s' \<and> same_contents (data ds s) s s')) \<and>
       (nr_free_pages s = 0 \<and> \<not> swap_init_ok s \<and> present (pde s d (pdx addr)) \<longrightarrow>
          do_pgfault mm err addr s = Some (0, snd (find_vma addr mm), s)))"
proof (intro conjI impI ballI)
  let ?mm = "snd (find_vma addr mm)"
  assume none: "\<forall>v \<in> set (mmap_list mm). \<not> (in_vma addr v \<and> fault_allowed err (vm_flags v))"
  show "do_pgfault mm err addr s = Some (- E_INVAL, ?mm, s)"
  proof (cases "fst (find_vma addr mm)")
    case None
    then have f: "find_vma addr mm = (None, ?mm)" by (metis prod.collapse)
    show ?thesis unfolding do_pgfault_def by (subst f) simp
  next
    case (Some v)
    then have f: "find_vma addr mm = (Some v, ?mm)" by (metis prod.collapse)
    have "\<not> fault_allowed err (vm_flags v)" using none find_vma_spec [OF wf(1)] Some by blast
    then show ?thesis unfolding do_pgfault_def by (subst f) simp
  qed
next
  fix v
  let ?la = "ROUNDDOWN addr PGSIZE" and ?i = "pdx addr" and ?j = "ptx addr" and ?mm = "snd (find_vma addr mm)"
  assume v: "v \<in> set (mmap_list mm)" and h: "in_vma addr v \<and> fault_allowed err (vm_flags v) \<and> pte s d ?i ?j = 0"
  note body = do_pgfault_allowed [OF wf(1) v, of addr err s]
  have inv0: "vm_off ds s (\<lambda>_. 0)" using inv by (simp add: vm_inv_def)
  have j: "?j < 1024" by (rule pdx_lt)
  have nr: "nr_free_pages s = card (free_page_set (pm s))"
    using inv0 dp.nr_avail [of "npage s" "pm s"] by (simp add: nr_free_pages_def vm_off_def)
  have "addr < USERTOP" using wf(2) v h by (auto simp: area_ok_def USER_ACCESS_def in_vma_def)
  then have "unat addr < 2 ^ 31" by (simp add: USERTOP_def word_less_nat_alt)
  then have i: "?i < 512" by (rule user_pdx)
  have la: "pdx ?la = ?i" "ptx ?la = ?j" by (simp_all add: pdx_ROUNDDOWN)
  have il: "pdx ?la < 512" using i la by simp
  {
    assume two: "2 \<le> nr_free_pages s"
    then have ne: "free_page_set (pm s) \<noteq> {}" using nr by auto
    obtain s1 where g: "get_pte (slot d 0) ?la True s = Some (Some (slot (tab s1 d ?i) ?j), s1)" and i1: "vm_off ds s1 (\<lambda>_. 0)"
      and p1: "present (pde s1 d ?i)" and sp: "same_ptes ds {} s s1" and dt: "data ds s1 = data ds s" and sc: "same_contents (data ds s) s s1"
      and fs: "free_page_set (pm s1) \<subseteq> free_page_set (pm s)" and rg: "cur_pgdir s1 = cur_pgdir s" "tlb_algo_n s1 = tlb_algo_n s"
      and cd: "card (free_page_set (pm s)) \<le> card (free_page_set (pm s1)) + 1"
      using get_pte_create [OF inv0 d(1) il] ne unfolding la by auto
    have z: "pte s1 d ?i ?j = 0" using sp d i j h by (simp add: same_ptes_def)
    then have k0: "kmem s1 (slot (tab s1 d ?i) ?j) = 0" using p1 by (simp add: pte_def)
    have "tlb_room d (pdx ?la) (ptx ?la) s1" using z by (simp add: la tlb_room_def)
    moreover have "(if present (pde s1 d (pdx ?la)) then 1 else 2) \<le> card (free_page_set (pm s1))" using p1 la cd two nr by simp
    moreover have "vm_inv ds s1" using i1 by (simp add: vm_inv_def)
    ultimately obtain p s' where s': "pgdir_alloc_page (slot d 0) ?la (fault_perm v) s1 = Some (Some p, s')" "vm_inv ds s'"
      "p \<in> free_page_set (pm s1)" "pte s' d ?i ?j = mk_pte p (fault_perm v)" "same_ptes ds {(d, ?i, ?j)} s1 s'"
      "same_contents (data ds s1) s1 s'" "maps ds s' p = {(d, ?i, ?j)}"
      using pgdir_alloc_page_ok [OF _ d(1) il perm_ok_fault] unfolding la by blast
    have "do_pgfault mm err addr s = Some (0, ?mm, s')"
      using body h g k0 s'(1) d(2) by (simp add: Let_def)
    moreover have "same_ptes ds {(d, ?i, ?j)} s s'" using sp s'(5) by (simp add: same_ptes_def)
    moreover have "same_contents (data ds s) s s'" using sc s'(6) dt by (simp add: same_contents_def)
    ultimately show "\<exists>p s'. do_pgfault mm err addr s = Some (0, ?mm, s') \<and> vm_inv ds s' \<and>
             p \<in> free_page_set (pm s) \<and> pte s' d ?i ?j = mk_pte p (fault_perm v) \<and> maps ds s' p = {(d, ?i, ?j)} \<and>
             same_ptes ds {(d, ?i, ?j)} s s' \<and> same_contents (data ds s) s s'" using s' fs by blast
  }
  {
    assume no: "nr_free_pages s = 0 \<and> \<not> swap_init_ok s \<and> present (pde s d ?i)"
    have g: "get_pte (slot d 0) ?la True s = Some (Some (slot (tab s d ?i) ?j), s)"
      using get_pte_create [OF inv0 d(1) il] no unfolding la by auto
    have k0: "kmem s (slot (tab s d ?i) ?j) = 0" using h no by (simp add: pte_def)
    have "default_alloc_pages 1 (pm s) = Some (None, pm s)" using no by (simp add: nr_free_pages_def default_nr_free_pages_def default_alloc_pages_def)
    then have "pgdir_alloc_page (slot d 0) ?la (fault_perm v) s = Some (None, s)"
      using no by (simp add: pgdir_alloc_page_def alloc_pages_def)
    then show "do_pgfault mm err addr s = Some (0, ?mm, s)"
      using body h g k0 d(2) by (simp add: Let_def)
  }
qed

section \<open>Inserting, looking up and removing a page\<close>

lemma get_page_spec:
  assumes inv: "vm_inv ds s" and d: "d \<in> ds" "pdx la < 512"
  shows "get_page (slot d 0) la s =
    Some (if present (pte s d (pdx la) (ptx la)) then Some (unat (PPN (pte s d (pdx la) (ptx la)))) else None,
          if present (pde s d (pdx la)) then Some (slot (tab s d (pdx la)) (ptx la)) else None)"
proof -
  have inv0: "vm_off ds s (\<lambda>_. 0)" using inv by (simp add: vm_inv_def)
  have j: "ptx la < 1024" by (rule pdx_lt)
  note g = get_pte_lookup [OF inv0 d]
  show ?thesis
  proof (cases "present (pde s d (pdx la))")
    case False
    then show ?thesis using g by (simp add: get_page_def pte_def)
  next
    case True
    have ka: "kmem s (slot (tab s d (pdx la)) (ptx la)) = pte s d (pdx la) (ptx la)" using True by (simp add: pte_def)
    have "unat (PPN (pte s d (pdx la) (ptx la))) < npage s" if "present (pte s d (pdx la) (ptx la))"
      using mapped_data [OF inv0 d j that] used_lt [OF inv0] by (simp add: data_def)
    then show ?thesis using g True ka
      by (cases "present (pte s d (pdx la) (ptx la))") (simp_all add: get_page_def pa2page_def present_def [symmetric])
  qed
qed

lemma mk_pte_no_tlb: "perm_ok perm \<Longrightarrow> mk_pte p perm AND TLB_P = 0"
proof -
  assume a: "perm_ok perm"
  have m: "TLB_P = push_bit 7 1" by (simp add: TLB_P_def push_bit_eq_mult)
  have "\<not> bit (mk_pte p perm) 7"
    using bit_page2pa [of p 7] perm_ok_bit [OF a, of 7] by (auto simp: mk_pte_def PTE_P_def bit_simps)
  then show ?thesis using test_bit_iff [of 7 "mk_pte p perm"] by (simp add: test_bit_def m)
qed

text \<open>
  C12: \<open>page_insert\<close>, \<open>get_page\<close> and \<open>page_remove\<close> form a map from user addresses to pages. After inserting a page at
  an address, \<open>get_page\<close> returns that page there, its entry carries exactly the permissions asked for, and the
  lookup of every other page address is as before; after removing it again the lookup finds nothing. All three
  steps run without a panic and keep the invariant on tables and reference counts.
\<close>

theorem page_insert_lookup:
  assumes inv: "vm_inv ds s" and d: "d \<in> ds" "la < USERTOP" and page: "page \<in> data ds s" and perm: "perm_ok perm"
    and room: "present (pde s d (pdx la)) \<or> nr_free_pages s > 0" "tlb_room d (pdx la) (ptx la) s"
  shows "\<exists>s1 s2 a. page_insert (slot d 0) page la perm s = Some (0, s1) \<and> vm_inv ds s1 \<and>
    get_page (slot d 0) la s1 = Some (Some page, Some a) \<and> kmem s1 a = page2pa page OR PTE_P OR perm \<and>
    (\<forall>la' < USERTOP. ROUNDDOWN la' PGSIZE \<noteq> ROUNDDOWN la PGSIZE \<longrightarrow>
       map_option fst (get_page (slot d 0) la' s1) = map_option fst (get_page (slot d 0) la' s)) \<and>
    page_remove (slot d 0) la s1 = Some s2 \<and> vm_inv ds s2 \<and> map_option fst (get_page (slot d 0) la s2) = Some None"
proof -
  have us: "pdx w < 512" if "w < USERTOP" for w using user_pdx [of w] that by (simp add: USERTOP_def word_less_nat_alt)
  have inv0: "vm_off ds s (\<lambda>_. 0)" using inv by (simp add: vm_inv_def)
  have nr: "nr_free_pages s = card (free_page_set (pm s))"
    using inv0 dp.nr_avail [of "npage s" "pm s"] by (simp add: nr_free_pages_def vm_off_def)
  then have "present (pde s d (pdx la)) \<or> free_page_set (pm s) \<noteq> {}" using room(1) by auto
  from page_insert_ok [OF inv d(1) us [OF d(2)] page perm this room(2)] obtain s1 where
    s1: "page_insert (slot d 0) page la perm s = Some (0, s1)" "vm_inv ds s1" "page \<in> data ds s1"
      "pte s1 d (pdx la) (ptx la) = mk_pte page perm" "same_ptes ds {(d, pdx la, ptx la)} s s1" by blast
  have pr: "present (pde s1 d (pdx la))" using s1(4) mk_pte_present [of page perm] not_present_0 by (metis pte_def)
  have "page < 2048" using used_lt [OF inv0, of page] page by (simp add: data_def)
  then have g1: "get_page (slot d 0) la s1 = Some (Some page, Some (slot (tab s1 d (pdx la)) (ptx la)))"
    using get_page_spec [OF s1(2) d(1) us [OF d(2)]] s1(4) pr by (simp add: mk_pte_page [OF _ perm])
  have k1: "kmem s1 (slot (tab s1 d (pdx la)) (ptx la)) = page2pa page OR PTE_P OR perm"
    using s1(4) pr by (simp add: pte_def mk_pte_def)
  have oth: "map_option fst (get_page (slot d 0) la' s1) = map_option fst (get_page (slot d 0) la' s)"
    if h: "la' < USERTOP" "ROUNDDOWN la' PGSIZE \<noteq> ROUNDDOWN la PGSIZE" for la'
  proof -
    have "unat (ROUNDDOWN w PGSIZE) = va (pdx w) (ptx w)" for w
    proof -
      have "unat PGSIZE = 4096" by (simp add: PGSIZE_def)
      then show ?thesis
        using va_of [of "ROUNDDOWN w PGSIZE"] ROUNDDOWN_dvd [of PGSIZE w] unfolding pdx_ROUNDDOWN by simp
    qed
    then have "(pdx la', ptx la') \<noteq> (pdx la, ptx la)" using h(2) by (auto simp: word_unat_eq_iff)
    then have "pte s1 d (pdx la') (ptx la') = pte s d (pdx la') (ptx la')"
      using s1(5) d(1) us [OF h(1)] pdx_lt(2) by (auto simp: same_ptes_def)
    then show ?thesis using get_page_spec [OF s1(2) d(1) us [OF h(1)]] get_page_spec [OF inv d(1) us [OF h(1)]] by simp
  qed
  have "tlb_room d (pdx la) (ptx la) s1" using s1(4) by (simp add: tlb_room_def mk_pte_no_tlb [OF perm])
  from page_remove_ok [OF s1(2) d(1) us [OF d(2)] this] obtain s2 where
    s2: "page_remove (slot d 0) la s1 = Some s2" "vm_inv ds s2" "\<not> present (pte s2 d (pdx la) (ptx la))" by blast
  have "map_option fst (get_page (slot d 0) la s2) = Some None"
    using get_page_spec [OF s2(2) d(1) us [OF d(2)]] s2(3) by simp
  then show ?thesis using s1(1,2) g1 k1 oth s2(1,2) by blast
qed

section \<open>A concrete machine\<close>

text \<open>Eight frames: 0 reserved, directories in 1 and 2, a page table of directory 1 in 3, the page mapped at
  0x400000 in 4, the others free.\<close>

definition demo_kmem :: "u32 \<Rightarrow> u32" where
  "demo_kmem a = (if a = slot 1 1 then mk_pte 3 (PTE_W OR PTE_U) else if a = slot 3 0 then mk_pte 4 (PTE_W OR PTE_U) else 0)"

definition demo_vm :: vmsys where
  "demo_vm = \<lparr>pm = \<lparr>pages = (\<lambda>q. if q = 0 \<or> 8 \<le> q then \<lparr>pg_ref = 0, pg_flags = 1, pg_property = 0\<rparr>
       else if q = 5 then \<lparr>pg_ref = 0, pg_flags = 2, pg_property = 3\<rparr>
       else if q = 4 then \<lparr>pg_ref = 1, pg_flags = 0, pg_property = 0\<rparr>
       else \<lparr>pg_ref = 0, pg_flags = 0, pg_property = 0\<rparr>), free_list = [5], nr_free = 3\<rparr>,
     npage = 8, kmem = demo_kmem, swap_init_ok = False, cur_pgdir = 0, tlb = (\<lambda>_. \<lparr>entry_hi = 0, entry_lo0 = 0, entry_lo1 = 0\<rparr>),
     tlb_algo_empty = [], tlb_algo_n = 0, tlb_algo_hi = [], tlb_algo_ptr = 0, pra_list = [], pra_vaddr = (\<lambda>_. 0)\<rparr>"

lemma demo_vm_pm: "pmm_inv 8 (pm demo_vm)" "free_page_set (pm demo_vm) = {5, 6, 7}" "used demo_vm = {1, 2, 3, 4}" "npage demo_vm = 8"
proof -
  have r: "PageReserved (pages (pm demo_vm)) q \<longleftrightarrow> q = 0 \<or> 8 \<le> q" "PageProperty (pages (pm demo_vm)) q \<longleftrightarrow> q = 5" for q
    by (auto simp: demo_vm_def PageReserved_def PageProperty_def test_bit_def PG_reserved_def PG_property_def)
  show f: "free_page_set (pm demo_vm) = {5, 6, 7}" by (auto simp: free_page_set_def demo_vm_def)
  have m: "managed 8 (pm demo_vm) = {1, 2, 3, 4, 5, 6, 7}" by (auto simp: managed_def r)
  show n: "npage demo_vm = 8" by (simp add: demo_vm_def)
  show "used demo_vm = {1, 2, 3, 4}" unfolding used_def n m f by auto
  have "blocks_ok (prop_of (pm demo_vm)) (free_list (pm demo_vm))" by (simp add: blocks_ok_def demo_vm_def)
  moreover have "nr_free (pm demo_vm) = sum_list (map (prop_of (pm demo_vm)) (free_list (pm demo_vm)))" by (simp add: demo_vm_def)
  moreover have "\<forall>p < 8. PageProperty (pages (pm demo_vm)) p = (p \<in> set (free_list (pm demo_vm)))" unfolding r by (simp add: demo_vm_def)
  ultimately show "pmm_inv 8 (pm demo_vm)" unfolding pmm_inv_def f m by simp
qed

lemma demo_vm_tables:
  "d < 8 \<Longrightarrow> i < 512 \<Longrightarrow> pde demo_vm d i = (if d = 1 \<and> i = 1 then mk_pte 3 (PTE_W OR PTE_U) else if d = 3 \<and> i = 0 then mk_pte 4 (PTE_W OR PTE_U) else 0)"
  "j < 1024 \<Longrightarrow> kmem demo_vm (slot 3 j) = (if j = 0 then mk_pte 4 (PTE_W OR PTE_U) else 0)"
  by (auto simp: pde_def demo_vm_def demo_kmem_def slot_inj)

lemma demo_vm_pte:
  assumes "d = 1 \<or> d = 2" "i < 512" "j < 1024"
  shows "pte demo_vm d i j = (if d = 1 \<and> i = 1 \<and> j = 0 then mk_pte 4 (PTE_W OR PTE_U) else 0)"
proof -
  have "tab demo_vm 1 1 = 3" by (simp add: tab_def demo_vm_tables mk_pte_page perm_okI)
  then show ?thesis using assms by (cases "d = 1 \<and> i = 1") (auto simp: pte_def demo_vm_tables split: if_splits)
qed

lemma demo_vm_inv: "vm_inv {1, 2} demo_vm"
proof -
  have pr: "present (pde demo_vm d i) \<longleftrightarrow> d = 1 \<and> i = 1" if "d \<in> {1, 2}" "i < 512" for d i
    using that by (auto simp: demo_vm_tables split: if_splits)
  have tb: "tab demo_vm 1 1 = 3" by (simp add: tab_def demo_vm_tables mk_pte_page perm_okI)
  have "tables {1, 2} demo_vm = {3}"
  proof
    show "tables {1, 2} demo_vm \<subseteq> {3}" using pr tb by (auto simp: tables_def)
    have "1 \<in> {1, 2 :: nat} \<and> 1 < (512 :: nat) \<and> present (pde demo_vm 1 1)" using pr [of 1 1] by simp
    then show "{3} \<subseteq> tables {1, 2} demo_vm" unfolding tables_def using tb by (metis (mono_tags, lifting) empty_subsetI insert_subset mem_Collect_eq)
  qed
  then have dt: "data {1, 2} demo_vm = {4}" by (auto simp: data_def demo_vm_pm)
  have mp: "maps {1, 2} demo_vm f = (if f = 4 then {(1, 1, 0)} else {})" for f
    by (auto simp: maps_def demo_vm_pte mk_pte_page perm_okI split: if_splits)
  have rf: "page_ref demo_vm 4 = 1" "page_ref demo_vm 5 = 0" "page_ref demo_vm 6 = 0" "page_ref demo_vm 7 = 0"
    by (simp_all add: page_ref_def demo_vm_def)
  show ?thesis unfolding vm_inv_def vm_off_def
  proof (intro conjI ballI allI impI)
    fix d i j assume "d \<in> {1, 2}" "i < (512 :: nat)" "j < (1024 :: nat)" "present (pte demo_vm d i j)"
    then show "unat (PPN (pte demo_vm d i j)) \<in> data {1, 2} demo_vm"
      by (auto simp: dt demo_vm_pte mk_pte_page perm_okI simp del: One_nat_def split: if_splits)
  qed (use pr tb demo_vm_pm rf in \<open>auto simp: dt mp simp del: One_nat_def\<close>)
qed

definition demo_area :: vma_struct where
  "demo_area = \<lparr>vm_start = 0x400000, vm_end = 0x402000, vm_flags = VM_READ OR VM_WRITE\<rparr>"

definition demo_space :: "nat \<Rightarrow> vma_struct list \<Rightarrow> mm_struct" where
  "demo_space d vs = \<lparr>mmap_list = vs, mmap_cache = None, pgdir = slot d 0, map_count = int (length vs), sm_priv = False, mm_cnt = 0, mm_sem = 1\<rparr>"

lemma demo_area_ok: "area_ok demo_area"
  by (simp add: area_ok_def demo_area_def PGSIZE_def USER_ACCESS_def USERBASE_def USERTOP_def)

lemma demo_space_wf: "mm_wf (demo_space d [demo_area])" "mm_wf (demo_space d [])"
  by (simp_all add: mm_wf_def demo_space_def demo_area_def)

lemma demo_outside: "outside d demo_vm" if "d < 8"
proof -
  have "unat (slot d 0) \<noteq> 0" using that by (simp add: unat_slot)
  then show ?thesis by (auto simp: outside_def demo_vm_def)
qed

lemma demo_nr_free: "nr_free_pages demo_vm = 3"
  by (simp add: nr_free_pages_def default_nr_free_pages_def demo_vm_def)

lemma demo_pages:
  "pages_in demo_vm 1 0x400000 0x402000 = {(1, 0)}" "pages_in demo_vm 2 0x400000 0x402000 = {}"
proof -
  have "(i, j) \<in> pages_in demo_vm 1 0x400000 0x402000 \<longleftrightarrow> (i, j) = (1, 0)" for i j
    by (auto simp: pages_in_def demo_vm_pte va_def split: if_splits)
  then show "pages_in demo_vm 1 0x400000 0x402000 = {(1, 0)}" by auto
  show "pages_in demo_vm 2 0x400000 0x402000 = {}"
    by (auto simp: pages_in_def demo_vm_pte)
qed

theorem exit_mmap_frees_witness:
  "\<exists>s'. exit_mmap (demo_space 1 [demo_area]) demo_vm = Some s' \<and> 4 \<notin> data {1, 2} s' \<and> \<not> present (pde s' 1 1)"
proof -
  have "covered (demo_space 1 [demo_area]) 1 demo_vm"
    unfolding covered_def in_areas_def
    by (auto simp: demo_vm_pte demo_vm_tables demo_space_def demo_area_def va_def split: if_splits)
  then obtain s' where s': "exit_mmap (demo_space 1 [demo_area]) demo_vm = Some s'" "\<forall>i < 512. \<not> present (pde s' 1 i)"
    "\<forall>f \<in> data {1, 2} demo_vm. f \<in> data {1, 2} s' \<longleftrightarrow> maps {1, 2} demo_vm f = {} \<or> (\<exists>x \<in> maps {1, 2} demo_vm f. fst x \<noteq> 1)"
    using exit_mmap_frees [OF demo_vm_inv, of 1 "demo_space 1 [demo_area]"] demo_outside [of 1] demo_area_ok
    by (auto simp: demo_space_def)
  have m: "(1, 1, 0) \<in> maps {1, 2} demo_vm 4" "x \<in> maps {1, 2} demo_vm 4 \<Longrightarrow> fst x = 1" for x
    by (auto simp: maps_def demo_vm_pte mk_pte_page perm_okI split: if_splits)
  have "4 \<in> data {1, 2} demo_vm"
    using mapped_data [of "{1, 2}" demo_vm _ 1 1 0] demo_vm_inv by (simp add: vm_inv_def demo_vm_pte mk_pte_page perm_okI)
  then show ?thesis using s' m by (intro exI [of _ s']) auto
qed

theorem dup_mmap_correct_witness:
  "\<exists>to' s'. dup_mmap [True] (demo_space 2 []) (demo_space 1 [demo_area]) demo_vm = Some (0, to', s') \<and>
     mmap_list to' = [demo_area] \<and> page_copied {1, 2} 1 2 1 0 demo_vm s'"
proof -
  have p: "area_pages demo_vm 1 [demo_area] = {(1, 0)}" "area_pages demo_vm 2 [demo_area] = {}"
    using demo_pages by (simp_all add: area_pages_def demo_area_def)
  show ?thesis
    using dup_mmap_correct [OF demo_vm_inv, of 1 2 "demo_space 1 [demo_area]" "demo_space 2 []" "[True]"] demo_outside [of 2]
      demo_space_wf demo_area_ok p demo_nr_free by (auto simp: demo_space_def)
qed

theorem do_pgfault_correct_witness:
  "(\<exists>p s'. do_pgfault (demo_space 1 [demo_area]) 2 0x401234 demo_vm = Some (0, snd (find_vma 0x401234 (demo_space 1 [demo_area])), s') \<and>
      p \<in> {5, 6, 7} \<and> pte s' 1 1 1 = mk_pte p (PTE_U OR PTE_W)) \<and>
   do_pgfault (demo_space 1 [demo_area]) 2 0x300000 demo_vm =
     Some (- E_INVAL, snd (find_vma 0x300000 (demo_space 1 [demo_area])), demo_vm)"
proof
  have ix: "pdx 0x401234 = 1" "ptx 0x401234 = 1" by (simp_all add: pdx_div)
  have fa: "fault_allowed 2 (vm_flags demo_area)" "fault_perm demo_area = PTE_U OR PTE_W"
    by (simp_all add: fault_allowed_def demo_area_def VM_READ_def VM_WRITE_def fault_perm_def)
  have "tlb_room 1 x y demo_vm" for x y using demo_outside [of 1] by (simp add: tlb_room_def outside_def)
  note c = do_pgfault_correct [OF demo_vm_inv, of 1 "demo_space 1 [demo_area]" _ 2, OF _ _ demo_space_wf(1) _ this]
  have ls: "mmap_list (demo_space 1 [demo_area]) = [demo_area]" "pgdir (demo_space 1 [demo_area]) = slot 1 0"
    by (simp_all add: demo_space_def)
  have "in_vma 0x401234 demo_area" "pte demo_vm 1 1 1 = 0" by (simp_all add: in_vma_def demo_area_def demo_vm_pte)
  then show "\<exists>p s'. do_pgfault (demo_space 1 [demo_area]) 2 0x401234 demo_vm =
      Some (0, snd (find_vma 0x401234 (demo_space 1 [demo_area])), s') \<and> p \<in> {5, 6, 7} \<and> pte s' 1 1 1 = mk_pte p (PTE_U OR PTE_W)"
    using c [of "0x401234"] fa demo_area_ok demo_nr_free demo_vm_pm(2) unfolding ix ls by auto
  have "\<not> in_vma 0x300000 demo_area" by (simp add: in_vma_def demo_area_def)
  then show "do_pgfault (demo_space 1 [demo_area]) 2 0x300000 demo_vm =
     Some (- E_INVAL, snd (find_vma 0x300000 (demo_space 1 [demo_area])), demo_vm)"
    using c [of "0x300000"] demo_area_ok unfolding ls by simp
qed

theorem page_insert_lookup_witness:
  "\<exists>s1 a. page_insert (slot 2 0) 4 0x400000 PTE_U demo_vm = Some (0, s1) \<and> get_page (slot 2 0) 0x400000 s1 = Some (Some 4, Some a)"
proof -
  have "4 \<in> data {1, 2} demo_vm"
    using mapped_data [of "{1, 2}" demo_vm _ 1 1 0] demo_vm_inv by (simp add: vm_inv_def demo_vm_pte mk_pte_page perm_okI)
  moreover have "tlb_room 2 x y demo_vm" for x y using demo_outside [of 2] by (simp add: tlb_room_def outside_def)
  ultimately show ?thesis
    using page_insert_lookup [OF demo_vm_inv, of 2 "0x400000" 4 PTE_U] demo_nr_free
    by (auto simp: USERTOP_def perm_okI)
qed

end
