(* ===== verification/Kmalloc.thy ===== *)
theory Kmalloc
  imports Page_Inv
begin

text \<open>
  The kernel heap (\<open>kern/mm/kmalloc.c\<close>): the SLOB allocator and \<open>kmalloc\<close>, \<open>kfree\<close> and \<open>ksize\<close> on top of it.

  Block headers live in the memory they describe, so the model works on the word memory \<open>kmem\<close> of theory \<open>Page_Table\<close>
  and takes its pages from the page allocator of the same state: a \<open>slob_t *\<close> is a 32-bit address, \<open>units\<close> is the
  signed word there and \<open>next\<close> the word after it; a \<open>bigblock_t\<close> has its order, pages and next in three
  consecutive words. The two static pointers are fields of the record; the static variable \<open>arena\<close> is a block
  at an address chosen by the linker. The loops that follow \<open>next\<close> pointers end only on a
  well-formed list: they are partial functions, and not returning is the value \<open>None\<close>.
\<close>

section \<open>State\<close>

record slob_heap =
  vm :: vmsys
  slobfree :: u32
  bigblocks :: u32

definition SLOB_UNIT :: u32 where "SLOB_UNIT = 8"

definition SLOB_UNITS :: "u32 \<Rightarrow> int" where
  "SLOB_UNITS sz = uint ((sz + SLOB_UNIT - 1) div SLOB_UNIT)"

definition ALIGN :: "u32 \<Rightarrow> u32 \<Rightarrow> u32" where
  "ALIGN addr sz = (addr + sz - 1) AND NOT (sz - 1)"

definition word_at :: "u32 \<Rightarrow> slob_heap \<Rightarrow> u32" where
  "word_at a s = kmem (vm s) a"

definition put_word :: "u32 \<Rightarrow> u32 \<Rightarrow> slob_heap \<Rightarrow> slob_heap" where
  "put_word a v s = s\<lparr>vm := store_word a v (vm s)\<rparr>"

text \<open>The fields of \<open>struct slob_block\<close>, and \<open>p + n\<close> on pointers to it.\<close>

definition units :: "u32 \<Rightarrow> slob_heap \<Rightarrow> int" where
  "units p s = sint (word_at p s)"

definition set_units :: "u32 \<Rightarrow> int \<Rightarrow> slob_heap \<Rightarrow> slob_heap" where
  "set_units p n = put_word p (word_of_int n)"

definition slob_next :: "u32 \<Rightarrow> slob_heap \<Rightarrow> u32" where
  "slob_next p s = word_at (p + 4) s"

definition set_slob_next :: "u32 \<Rightarrow> u32 \<Rightarrow> slob_heap \<Rightarrow> slob_heap" where
  "set_slob_next p q = put_word (p + 4) q"

definition slob_plus :: "u32 \<Rightarrow> int \<Rightarrow> u32" where
  "slob_plus p n = p + 8 * word_of_int n"

text \<open>The fields of \<open>struct bigblock\<close>.\<close>

definition bb_order :: "u32 \<Rightarrow> slob_heap \<Rightarrow> nat" where
  "bb_order p s = unat (word_at p s)"

definition bb_pages :: "u32 \<Rightarrow> slob_heap \<Rightarrow> u32" where
  "bb_pages p s = word_at (p + 4) s"

definition bb_next :: "u32 \<Rightarrow> slob_heap \<Rightarrow> u32" where
  "bb_next p s = word_at (p + 8) s"

section \<open>Pages\<close>

definition slob_get_free_pages :: "nat \<Rightarrow> slob_heap \<Rightarrow> (u32 \<times> slob_heap) option" where
  "slob_get_free_pages order s = do {
     (page, v) \<leftarrow> alloc_pages (2 ^ order) (vm s);
     let s = s\<lparr>vm := v\<rparr>;
     (case page of None \<Rightarrow> Some (0, s)
      | Some p \<Rightarrow> do { k \<leftarrow> page2kva (npage v) p; Some (k, s) })
   }"

definition slob_free_pages :: "u32 \<Rightarrow> nat \<Rightarrow> slob_heap \<Rightarrow> slob_heap option" where
  "slob_free_pages kva order s = do {
     p \<leftarrow> kva2page (npage (vm s)) kva;
     v \<leftarrow> free_pages p (2 ^ order) (vm s);
     Some (s\<lparr>vm := v\<rparr>)
   }"

section \<open>Returning a block to the free list\<close>

text \<open>The search for the reinsertion point.\<close>

partial_function (option) find_place :: "u32 \<Rightarrow> u32 \<Rightarrow> slob_heap \<Rightarrow> u32 option" where
  "find_place b cur s =
     (if b > cur \<and> b < slob_next cur s then Some cur
      else if cur \<ge> slob_next cur s \<and> (b > cur \<or> b < slob_next cur s) then Some cur
      else find_place b (slob_next cur s) s)"

text \<open>Linking \<open>b\<close> between \<open>cur\<close> and its successor: merging with the successor, then with \<open>cur\<close>.\<close>

definition merge_next :: "u32 \<Rightarrow> u32 \<Rightarrow> slob_heap \<Rightarrow> slob_heap" where
  "merge_next cur b s =
     (if slob_plus b (units b s) = slob_next cur s
      then let s = set_units b (units b s + units (slob_next cur s) s) s
           in set_slob_next b (slob_next (slob_next cur s) s) s
      else set_slob_next b (slob_next cur s) s)"

definition merge_prev :: "u32 \<Rightarrow> u32 \<Rightarrow> slob_heap \<Rightarrow> slob_heap" where
  "merge_prev cur b s =
     (if slob_plus cur (units cur s) = b
      then let s = set_units cur (units cur s + units b s) s
           in set_slob_next cur (slob_next b s) s
      else set_slob_next cur b s)"

definition slob_free :: "u32 \<Rightarrow> u32 \<Rightarrow> slob_heap \<Rightarrow> slob_heap option" where
  "slob_free block sz s =
     (if block = 0 then Some s
      else do {
        let s = (if sz \<noteq> 0 then set_units block (SLOB_UNITS sz) s else s);
        cur \<leftarrow> find_place block (slobfree s) s;
        Some ((merge_prev cur block (merge_next cur block s))\<lparr>slobfree := cur\<rparr>)
      })"

section \<open>Taking a block from the free list\<close>

text \<open>A block that is large enough: split off the unaligned head, then unlink it or cut off its tail.\<close>

definition split_head :: "int \<Rightarrow> u32 \<Rightarrow> u32 \<Rightarrow> slob_heap \<Rightarrow> slob_heap" where
  "split_head delta aligned cur s = (
     let s = set_units aligned (units cur s - delta) s;
         s = set_slob_next aligned (slob_next cur s) s;
         s = set_slob_next cur aligned s
     in set_units cur delta s)"

definition take_front :: "int \<Rightarrow> u32 \<Rightarrow> u32 \<Rightarrow> slob_heap \<Rightarrow> slob_heap" where
  "take_front n prev cur s = (
     let s = (if units cur s = n then set_slob_next prev (slob_next cur s) s
              else let s = set_slob_next prev (slob_plus cur n) s;
                       s = set_units (slob_next prev s) (units cur s - n) s;
                       s = set_slob_next (slob_next prev s) (slob_next cur s) s
                   in set_units cur n s)
     in s\<lparr>slobfree := prev\<rparr>)"

definition take_block :: "int \<Rightarrow> int \<Rightarrow> u32 \<Rightarrow> u32 \<Rightarrow> u32 \<Rightarrow> slob_heap \<Rightarrow> u32 \<times> slob_heap" where
  "take_block n delta aligned prev cur s =
     (if delta \<noteq> 0 then (aligned, take_front n cur aligned (split_head delta aligned cur s))
      else (cur, take_front n prev cur s))"

partial_function (option) slob_search ::
    "u32 \<Rightarrow> int \<Rightarrow> u32 \<Rightarrow> u32 \<Rightarrow> u32 \<Rightarrow> slob_heap \<Rightarrow> (u32 \<times> slob_heap) option" where
  "slob_search sz n align prev cur s = (
     let aligned = (if align \<noteq> 0 then ALIGN cur align else 0);
         delta = (if align \<noteq> 0 then sint (aligned - cur) div 8 else 0)
     in if units cur s \<ge> n + delta then Some (take_block n delta aligned prev cur s)
        else if cur = slobfree s then
          (if sz = PGSIZE then Some (0, s)
           else do {
             (page, s) \<leftarrow> slob_get_free_pages 0 s;
             if page = 0 then Some (0, s)
             else do {
               s \<leftarrow> slob_free page PGSIZE s;
               slob_search sz n align (slobfree s) (slob_next (slobfree s) s) s
             }
           })
        else slob_search sz n align cur (slob_next cur s) s)"

definition slob_alloc :: "u32 \<Rightarrow> u32 \<Rightarrow> slob_heap \<Rightarrow> (u32 \<times> slob_heap) option" where
  "slob_alloc sz align s = do {
     kassert (sz + SLOB_UNIT < PGSIZE);
     slob_search sz (SLOB_UNITS sz) align (slobfree s) (slob_next (slobfree s) s) s
   }"

section \<open>kmalloc and kfree\<close>

text \<open>\<open>find_order\<close> works on an \<open>int\<close>; halving a positive number is a shift.\<close>

function find_order :: "int \<Rightarrow> nat" where
  "find_order sz = (if sz > 4096 then Suc (find_order (drop_bit 1 sz)) else 0)"
  by auto
termination
  by (relation "measure nat") (auto simp: drop_bit_eq_div)

declare find_order.simps [simp del]

definition kmalloc :: "u32 \<Rightarrow> slob_heap \<Rightarrow> (u32 \<times> slob_heap) option" where
  "kmalloc sz s =
     (if sz < PGSIZE - SLOB_UNIT then do {
        (m, s) \<leftarrow> slob_alloc (sz + SLOB_UNIT) 0 s;
        Some (if m \<noteq> 0 then slob_plus m 1 else 0, s)
      }
      else do {
        (bb, s) \<leftarrow> slob_alloc 12 0 s;
        if bb = 0 then Some (0, s)
        else do {
          let order = find_order (sint sz);
          let s = put_word bb (of_nat order) s;
          (pages, s) \<leftarrow> slob_get_free_pages order s;
          let s = put_word (bb + 4) pages s;
          if pages \<noteq> 0
          then Some (pages, (put_word (bb + 8) (bigblocks s) s)\<lparr>bigblocks := bb\<rparr>)
          else do { s \<leftarrow> slob_free bb 12 s; Some (0, s) }
        }
      })"

text \<open>
  The search of the list of big blocks. \<open>last\<close> is the address of the pointer that leads to \<open>bb\<close>, or 0 for the
  variable \<open>bigblocks\<close> itself. The result is \<open>last\<close> and the descriptor, or 0 when the block is not on the list.
\<close>

partial_function (option) find_big :: "u32 \<Rightarrow> u32 \<Rightarrow> u32 \<Rightarrow> slob_heap \<Rightarrow> (u32 \<times> u32) option" where
  "find_big block lst bb s =
     (if bb = 0 then Some (lst, 0)
      else if bb_pages bb s = block then Some (lst, bb)
      else find_big block (bb + 8) (bb_next bb s) s)"

definition kfree :: "u32 \<Rightarrow> slob_heap \<Rightarrow> slob_heap option" where
  "kfree block s =
     (if block = 0 then Some s
      else if block AND (PGSIZE - 1) = 0 then do {
        (last, bb) \<leftarrow> find_big block 0 (bigblocks s) s;
        if bb \<noteq> 0 then do {
          let s = (if last = 0 then s\<lparr>bigblocks := bb_next bb s\<rparr> else put_word last (bb_next bb s) s);
          s \<leftarrow> slob_free_pages block (bb_order bb s) s;
          slob_free bb 12 s
        }
        else slob_free (slob_plus block (- 1)) 0 s
      }
      else slob_free (slob_plus block (- 1)) 0 s)"

definition ksize :: "u32 \<Rightarrow> slob_heap \<Rightarrow> u32 option" where
  "ksize block s =
     (if block = 0 then Some 0
      else do {
        (last, bb) \<leftarrow> (if block AND (PGSIZE - 1) = 0 then find_big block 0 (bigblocks s) s else Some (0, 0));
        if bb \<noteq> 0 then Some (push_bit (bb_order bb s) PGSIZE)
        else Some (word_of_int (units (slob_plus block (- 1)) s) * SLOB_UNIT)
      })"

definition slob_allocated :: u32 where "slob_allocated = 0"

definition kallocated :: u32 where "kallocated = slob_allocated"

text \<open>The state before the first allocation: \<open>arena = { .next = &arena, .units = 1 }\<close>.\<close>

definition slob_start :: "u32 \<Rightarrow> vmsys \<Rightarrow> slob_heap" where
  "slob_start arena v = set_units arena 1 (set_slob_next arena arena \<lparr>vm = v, slobfree = arena, bigblocks = 0\<rparr>)"

end
