(* ===== verification/Slob_Ring.thy ===== *)
theory Slob_Ring
  imports Kmalloc
begin

text \<open>
  The free list of the SLOB allocator is cyclic: its elements are sorted by address, except that the successor of
  the highest is the lowest. This theory has the order theory of such lists (every element is reached from every
  other, where a new element belongs, insertion and removal) and the two loops of \<open>kern/mm/kmalloc.c\<close>
  that walk around it.
\<close>

section \<open>Cyclic lists\<close>

definition succ_in :: "'a :: linorder set \<Rightarrow> 'a \<Rightarrow> 'a \<Rightarrow> bool" where
  "succ_in S a y \<longleftrightarrow> y \<in> S \<and> (if a < y then \<forall>z\<in>S. z \<le> a \<or> y \<le> z else \<forall>z\<in>S. y \<le> z \<and> z \<le> a)"

definition cyclic :: "'a :: linorder set \<Rightarrow> ('a \<Rightarrow> 'a) \<Rightarrow> bool" where
  "cyclic S f \<longleftrightarrow> finite S \<and> (\<forall>a\<in>S. succ_in S a (f a))"

lemma cyclic_finite: "cyclic S f \<Longrightarrow> finite S"
  by (simp add: cyclic_def)

lemma cyclic_succ: "cyclic S f \<Longrightarrow> a \<in> S \<Longrightarrow> succ_in S a (f a)"
  by (simp add: cyclic_def)

lemma cyclic_closed: "cyclic S f \<Longrightarrow> a \<in> S \<Longrightarrow> f a \<in> S"
  by (simp add: cyclic_def succ_in_def)

lemma cyclic_closed_iter: "cyclic S f \<Longrightarrow> a \<in> S \<Longrightarrow> (f ^^ k) a \<in> S"
  by (induction k) (simp_all add: cyclic_closed)

lemma cyclic_cong: "cyclic S f \<Longrightarrow> (\<And>a. a \<in> S \<Longrightarrow> g a = f a) \<Longrightarrow> cyclic S g"
  by (simp add: cyclic_def)

lemma cyclic_reach_up:
  "cyclic S f \<Longrightarrow> c \<in> S \<Longrightarrow> a \<in> S \<Longrightarrow> a \<le> c \<Longrightarrow> \<exists>k. (f ^^ k) a = c"
proof (induction "card {z \<in> S. a < z \<and> z \<le> c}" arbitrary: a rule: less_induct)
  case less
  show ?case
  proof (cases "a = c")
    case True
    then show ?thesis by (intro exI [of _ 0]) simp
  next
    case False
    with less.prems have lt: "a < c" by simp
    have su: "succ_in S a (f a)" using less.prems cyclic_succ by blast
    then have fa: "f a \<in> S" "a < f a" "f a \<le> c"
      using lt less.prems(2) by (auto simp: succ_in_def split: if_splits)
    have "{z \<in> S. f a < z \<and> z \<le> c} \<subset> {z \<in> S. a < z \<and> z \<le> c}"
      using fa by fastforce
    then have "card {z \<in> S. f a < z \<and> z \<le> c} < card {z \<in> S. a < z \<and> z \<le> c}"
      using less.prems(1) by (intro psubset_card_mono) (auto simp: cyclic_def)
    from less.hyps [OF this less.prems(1,2) fa(1,3)] obtain k where "(f ^^ k) (f a) = c" by blast
    then show ?thesis by (intro exI [of _ "Suc k"]) (simp add: funpow_Suc_right del: funpow.simps)
  qed
qed

lemma cyclic_reach:
  assumes r: "cyclic S f" and a: "a \<in> S" and c: "c \<in> S"
  shows "\<exists>k. (f ^^ k) a = c"
proof -
  have fin: "finite S" "S \<noteq> {}" using r a by (auto simp: cyclic_def)
  let ?m = "Max S"
  have m: "?m \<in> S" "\<forall>z\<in>S. z \<le> ?m" using fin by auto
  from cyclic_reach_up [OF r m(1) a] m a obtain i where i: "(f ^^ i) a = ?m" by blast
  have su: "succ_in S ?m (f ?m)" using r m cyclic_succ by blast
  have fm: "f ?m \<in> S" using r m(1) by (rule cyclic_closed)
  then have "\<not> ?m < f ?m" using m(2) by (simp add: leD)
  then have lo: "f ?m \<in> S" "\<forall>z\<in>S. f ?m \<le> z" using su fm by (simp_all add: succ_in_def del: Max_less_iff Max_le_iff)
  from cyclic_reach_up [OF r c lo(1)] lo c obtain j where "(f ^^ j) (f ?m) = c" by blast
  then have "(f ^^ (j + Suc i)) a = c" by (simp only: funpow_add comp_apply funpow.simps i)
  then show ?thesis by blast
qed

text \<open>One turn from the successor of \<open>a\<close> back to \<open>a\<close> meets every element.\<close>

definition turn :: "('a \<Rightarrow> 'a) \<Rightarrow> 'a \<Rightarrow> nat \<Rightarrow> bool" where
  "turn f a m \<longleftrightarrow> (f ^^ m) (f a) = a \<and> (\<forall>i<m. (f ^^ i) (f a) \<noteq> a)"

lemma cyclic_turn:
  assumes r: "cyclic S f" and a: "a \<in> S"
  shows "\<exists>m. turn f a m \<and> (\<forall>c\<in>S. \<exists>k\<le>m. (f ^^ k) (f a) = c)"
proof -
  have fa: "f a \<in> S" using r a by (rule cyclic_closed)
  define m where "m = (LEAST k. (f ^^ k) (f a) = a)"
  have ex: "\<exists>k. (f ^^ k) (f a) = a" using cyclic_reach [OF r fa a] .
  have m: "(f ^^ m) (f a) = a" "\<forall>i<m. (f ^^ i) (f a) \<noteq> a"
    unfolding m_def using LeastI_ex [OF ex] not_less_Least by blast+
  have "\<exists>k\<le>m. (f ^^ k) (f a) = c" if c: "c \<in> S" for c
  proof -
    define k where "k = (LEAST k. (f ^^ k) (f a) = c)"
    have exc: "\<exists>k. (f ^^ k) (f a) = c" using cyclic_reach [OF r fa c] .
    have k: "(f ^^ k) (f a) = c" "\<And>i. i < k \<Longrightarrow> (f ^^ i) (f a) \<noteq> c"
      unfolding k_def using LeastI_ex [OF exc] not_less_Least by blast+
    have "k \<le> m"
    proof (rule ccontr)
      assume "\<not> k \<le> m"
      then obtain d where d: "k = Suc d + m" by (metis less_imp_add_positive add.commute gr0_implies_Suc not_le)
      have "(f ^^ d) (f a) = (f ^^ (Suc d + m)) (f a)"
        by (simp only: funpow_add comp_apply m funpow_Suc_right)
      then have "(f ^^ d) (f a) = c" using k(1) d by simp
      then show False using k(2) [of d] d by simp
    qed
    then show ?thesis using k by blast
  qed
  then show ?thesis using m by (auto simp: turn_def)
qed

text \<open>Where a new element belongs: the exit condition of the loop of \<open>slob_free\<close>.\<close>

definition place :: "('a :: linorder \<Rightarrow> 'a) \<Rightarrow> 'a \<Rightarrow> 'a \<Rightarrow> bool" where
  "place f b c \<longleftrightarrow> (c < b \<and> b < f c) \<or> (f c \<le> c \<and> (c < b \<or> b < f c))"

lemma cyclic_place:
  assumes r: "cyclic S f" and ne: "S \<noteq> {}" and b: "b \<notin> S"
  shows "\<exists>c\<in>S. place f b c"
proof (cases "\<exists>z\<in>S. z < b")
  case True
  let ?L = "{z \<in> S. z < b}"
  have fin: "finite ?L" "?L \<noteq> {}" using r True by (auto simp: cyclic_def)
  have c: "Max ?L \<in> S" "Max ?L < b" using Max_in [OF fin] by auto
  have hi: "\<And>z. z \<in> S \<Longrightarrow> z < b \<Longrightarrow> z \<le> Max ?L" using Max_ge [OF fin(1)] by simp
  have "f (Max ?L) \<in> S" using r c cyclic_closed by blast
  then have "Max ?L < f (Max ?L) \<Longrightarrow> b < f (Max ?L)" using hi [of "f (Max ?L)"] b by (metis leD linorder_neqE)
  then show ?thesis using c by (intro bexI [of _ "Max ?L"]) (auto simp: place_def not_less)
next
  case False
  have fin: "finite S" using r by (simp add: cyclic_def)
  have m: "Max S \<in> S" "\<forall>z\<in>S. z \<le> Max S" using fin ne by auto
  have "f (Max S) \<in> S" using r m cyclic_closed by blast
  then have "f (Max S) \<le> Max S" "b < f (Max S)" using m False b by (auto simp: not_less le_less)
  then show ?thesis using m by (intro bexI [of _ "Max S"]) (auto simp: place_def)
qed

lemma cyclic_insert:
  assumes r: "cyclic S f" and c: "c \<in> S" and b: "b \<notin> S" and p: "place f b c"
  shows "cyclic (insert b S) (f(b := f c, c := b))"
proof -
  have ne: "b \<noteq> c" using b c by blast
  have su: "succ_in S c (f c)" using r c by (rule cyclic_succ)
  have sb: "succ_in (insert b S) b (f c)" using su p ne by (fastforce simp: succ_in_def place_def split: if_splits)
  have sc: "succ_in (insert b S) c b" using su p ne c by (fastforce simp: succ_in_def place_def split: if_splits)
  have "succ_in (insert b S) a (f a)" if a: "a \<in> S" "a \<noteq> c" for a
  proof -
    have sa: "succ_in S a (f a)" using r a(1) by (rule cyclic_succ)
    show ?thesis
    proof (cases "a < f a")
      case True
      have nb: "\<not> (a < b \<and> b < f a)"
      proof
        assume ab: "a < b \<and> b < f a"
        have "c \<le> a \<or> f a \<le> c" "f c \<le> a \<or> f a \<le> f c"
          using sa su c True by (auto simp: succ_in_def)
        then show False using p ab a(2) su sa a(1) by (fastforce simp: place_def succ_in_def split: if_splits)
      qed
      then show ?thesis using sa True by (auto simp: succ_in_def not_less)
    next
      case False
      have "f a \<le> b \<and> b \<le> a"
      proof -
        have "f a \<le> c" "c \<le> a" "f a \<le> f c" "f c \<le> a" using sa su c False by (auto simp: succ_in_def)
        then show ?thesis using p a su by (auto simp: place_def succ_in_def split: if_splits)
      qed
      then show ?thesis using sa False by (auto simp: succ_in_def)
    qed
  qed
  then show ?thesis using r sb sc ne by (auto simp: cyclic_def)
qed

lemma cyclic_remove:
  assumes r: "cyclic S f" and c: "c \<in> S" and b: "f c = b" "b \<noteq> c"
  shows "cyclic (S - {b}) (f(c := f b))"
proof -
  have bS: "b \<in> S" using cyclic_closed [OF r c] b by simp
  have su: "succ_in S c b" "succ_in S b (f b)" using cyclic_succ [OF r] c bS b by auto
  have "f b \<noteq> b" using su(2) su(1) c b(2) by (auto simp: succ_in_def split: if_splits)
  then have sc: "succ_in (S - {b}) c (f b)" using su b by (fastforce simp: succ_in_def split: if_splits)
  have "succ_in (S - {b}) a (f a)" if a: "a \<in> S" "a \<noteq> c" "a \<noteq> b" for a
  proof -
    have sa: "succ_in S a (f a)" using r a(1) by (rule cyclic_succ)
    have "f a \<noteq> b"
    proof
      assume "f a = b"
      then have "c \<le> a" "a \<le> c" using sa su(1) a c b(2) by (auto simp: succ_in_def split: if_splits)
      then show False using a(2) by simp
    qed
    then show ?thesis using sa by (auto simp: succ_in_def split: if_splits)
  qed
  then show ?thesis using r sc by (auto simp: cyclic_def)
qed

section \<open>The search for the reinsertion point\<close>

lemma find_place_walk:
  "place (\<lambda>p. slob_next p s) b (((\<lambda>p. slob_next p s) ^^ k) a) \<Longrightarrow>
     \<exists>i\<le>k. find_place b a s = Some (((\<lambda>p. slob_next p s) ^^ i) a) \<and> place (\<lambda>p. slob_next p s) b (((\<lambda>p. slob_next p s) ^^ i) a)"
proof (induction k arbitrary: a)
  case 0
  then show ?case by (subst find_place.simps) (auto simp: place_def)
next
  case (Suc k)
  show ?case
  proof (cases "place (\<lambda>p. slob_next p s) b a")
    case True
    then show ?thesis by (intro exI [of _ 0], subst find_place.simps) (auto simp: place_def)
  next
    case False
    from Suc.prems have "place (\<lambda>p. slob_next p s) b (((\<lambda>p. slob_next p s) ^^ k) (slob_next a s))"
      by (simp only: funpow_Suc_right comp_apply)
    from Suc.IH [OF this] obtain i where i: "i \<le> k" "find_place b (slob_next a s) s = Some (((\<lambda>p. slob_next p s) ^^ i) (slob_next a s))"
      "place (\<lambda>p. slob_next p s) b (((\<lambda>p. slob_next p s) ^^ i) (slob_next a s))" by blast
    have "find_place b a s = find_place b (slob_next a s) s"
      using False by (subst find_place.simps) (auto simp: place_def)
    with i show ?thesis by (intro exI [of _ "Suc i"]) (simp only: funpow_Suc_right comp_apply Suc_le_mono simp_thms)
  qed
qed

lemma find_place_ok:
  assumes r: "cyclic S (\<lambda>p. slob_next p s)" and a: "a \<in> S" and b: "b \<notin> S"
  shows "\<exists>c\<in>S. find_place b a s = Some c \<and> place (\<lambda>p. slob_next p s) b c"
proof -
  obtain c where c: "c \<in> S" "place (\<lambda>p. slob_next p s) b c" using cyclic_place [OF r _ b] a by blast
  obtain k where k: "((\<lambda>p. slob_next p s) ^^ k) a = c" using cyclic_reach [OF r a c(1)] by blast
  obtain i where "find_place b a s = Some (((\<lambda>p. slob_next p s) ^^ i) a)"
    "place (\<lambda>p. slob_next p s) b (((\<lambda>p. slob_next p s) ^^ i) a)"
    using find_place_walk [of s b k a] k c(2) by blast
  then show ?thesis using cyclic_closed_iter [OF r a] by blast
qed

end
