(* ===== verification/Slob_Inv.thy ===== *)
theory Slob_Inv
  imports Slob_Ring
begin

text \<open>
  The invariant of the SLOB heap and what \<open>slob_free\<close> and \<open>slob_alloc\<close> do to it. A map \<open>M\<close> gives the size in units of
  every block, free or in use; \<open>S\<close> are the free ones; \<open>H\<close> are the pages the heap has taken. Blocks never overlap and
  together they cover the pages of \<open>H\<close> and the static block \<open>arena\<close> exactly, so nothing is lost and nothing
  is handed out twice.
\<close>

section \<open>Fields of aligned blocks\<close>

definition aligned8 :: "u32 \<Rightarrow> bool" where
  "aligned8 p \<longleftrightarrow> 8 dvd unat p"

lemma unat_add_mod8: "unat (p + q :: u32) mod 8 = (unat p + unat q) mod 8"
  by (simp add: unat_word_ariths mod_mod_cancel)

lemma aligned8_neq [simp]:
  assumes "aligned8 p" "aligned8 q"
  shows "p \<noteq> q + 4" "p + 4 \<noteq> q" "p \<noteq> 4 + q" "4 + p \<noteq> q"
proof -
  have "unat (q + 4) mod 8 = 4" "unat (p + 4) mod 8 = 4"
    using assms by (auto simp: unat_add_mod8 aligned8_def mod_add_left_eq [symmetric] dvd_eq_mod_eq_0 simp del: mod_add_left_eq)
  moreover have "unat p mod 8 = 0" "unat q mod 8 = 0" using assms by (auto simp: aligned8_def)
  ultimately show "p \<noteq> q + 4" "p + 4 \<noteq> q" "p \<noteq> 4 + q" "4 + p \<noteq> q" by (metis add.commute zero_neq_numeral)+
qed

lemma word_at_put [simp]: "word_at a (put_word b v s) = (if a = b then v else word_at a s)"
  by (simp add: word_at_def put_word_def store_word_def)

lemma slob_fields [simp]:
  assumes "aligned8 p" "aligned8 q"
  shows "units p (set_slob_next q v s) = units p s"
    "slob_next p (set_units q n s) = slob_next p s"
    "slob_next p (set_slob_next q v s) = (if p = q then v else slob_next p s)"
    "units p (set_units q n s) = (if p = q then sint (word_of_int n :: u32) else units p s)"
  using assms by (auto simp: units_def slob_next_def set_units_def set_slob_next_def)

lemma heap_fields [simp]:
  "slobfree (put_word a v s) = slobfree s" "bigblocks (put_word a v s) = bigblocks s"
  "slobfree (set_units p n s) = slobfree s" "bigblocks (set_units p n s) = bigblocks s"
  "slobfree (set_slob_next p q s) = slobfree s" "bigblocks (set_slob_next p q s) = bigblocks s"
  by (simp_all add: put_word_def set_units_def set_slob_next_def)

lemma word_at_update [simp]:
  "word_at a (s\<lparr>slobfree := c\<rparr>) = word_at a s" "word_at a (s\<lparr>bigblocks := c\<rparr>) = word_at a s"
  "units p (s\<lparr>slobfree := c\<rparr>) = units p s" "units p (s\<lparr>bigblocks := c\<rparr>) = units p s"
  "slob_next p (s\<lparr>slobfree := c\<rparr>) = slob_next p s" "slob_next p (s\<lparr>bigblocks := c\<rparr>) = slob_next p s"
  by (simp_all add: word_at_def units_def slob_next_def)

lemma sint_small: "0 \<le> n \<Longrightarrow> n < 2 ^ 31 \<Longrightarrow> sint (word_of_int n :: u32) = n"
  by (simp add: int_word_sint)

section \<open>Blocks\<close>

type_synonym blocks = "u32 \<rightharpoonup> nat"

definition region :: "u32 \<Rightarrow> nat \<Rightarrow> nat set" where
  "region p n = {unat p ..< unat p + 8 * n}"

definition packed :: "blocks \<Rightarrow> bool" where
  "packed M \<longleftrightarrow> (\<forall>p n. M p = Some n \<longrightarrow> aligned8 p \<and> 0 < n \<and> unat p + 8 * n < 2 ^ 32) \<and>
     (\<forall>p q n k. M p = Some n \<and> M q = Some k \<and> p \<noteq> q \<longrightarrow> region p n \<inter> region q k = {})"

definition area :: "blocks \<Rightarrow> u32 set \<Rightarrow> nat set" where
  "area M S = {x. \<exists>p\<in>S. \<exists>n. M p = Some n \<and> x \<in> region p n}"

lemma packedD: "packed M \<Longrightarrow> M p = Some n \<Longrightarrow> aligned8 p \<and> 0 < n \<and> unat p + 8 * n < 2 ^ 32"
  by (simp add: packed_def)

lemma packed_disjoint: "packed M \<Longrightarrow> M p = Some n \<Longrightarrow> M q = Some k \<Longrightarrow> p \<noteq> q \<Longrightarrow> region p n \<inter> region q k = {}"
  by (simp add: packed_def)

lemma packed_order:
  "packed M \<Longrightarrow> M p = Some n \<Longrightarrow> M q = Some k \<Longrightarrow> p < q \<Longrightarrow> unat p + 8 * n \<le> unat q"
proof (rule ccontr)
  assume a: "packed M" "M p = Some n" "M q = Some k" "p < q" "\<not> unat p + 8 * n \<le> unat q"
  then have "unat q \<in> region p n \<inter> region q k"
    using packedD [OF a(1,3)] by (auto simp: region_def word_less_nat_alt)
  then show False using packed_disjoint [OF a(1,2,3)] a(4) by auto
qed

lemma unat_slob_plus:
  assumes "0 \<le> n" "unat p + 8 * nat n < 2 ^ 32"
  shows "unat (slob_plus p n) = unat p + 8 * nat n"
proof -
  have w: "word_of_int n = (of_nat (nat n) :: u32)" using assms(1) by simp
  have "unat (of_nat (nat n) :: u32) = nat n" by (rule unat_of_nat_small) (use assms in simp)
  then show ?thesis unfolding slob_plus_def w using assms(2)
    by (subst unat_add_no_wrap; subst unat_mult_no_wrap) auto
qed

lemma aligned8_plus: "aligned8 p \<Longrightarrow> unat q = unat p + 8 * n \<Longrightarrow> aligned8 q"
  by (simp add: aligned8_def)

text \<open>Cutting a block in two and joining two neighbours.\<close>

lemma split_block:
  assumes pk: "packed M" and M: "M p = Some (n + k)" and n: "0 < n" "0 < k" and q: "unat q = unat p + 8 * n"
  shows "packed (M(p \<mapsto> n, q \<mapsto> k))" and "M q = None" and "q \<noteq> p" and "region p (n + k) = region p n \<union> region q k"
proof -
  have b: "aligned8 p" "unat p + 8 * (n + k) < 2 ^ 32" using packedD [OF pk M] by auto
  show ne: "q \<noteq> p" using q n by auto
  show reg: "region p (n + k) = region p n \<union> region q k" using q by (auto simp: region_def)
  show none: "M q = None"
  proof (rule ccontr)
    assume "M q \<noteq> None"
    then obtain j where j: "M q = Some j" by blast
    have "unat q \<in> region q j" using packedD [OF pk j] by (auto simp: region_def)
    moreover have "unat q \<in> region p (n + k)" using q n by (auto simp: region_def)
    ultimately show False using packed_disjoint [OF pk M j] ne by blast
  qed
  have sub: "region p n \<subseteq> region p (n + k)" "region q k \<subseteq> region p (n + k)" using reg by auto
  have dis: "region p n \<inter> region q k = {}" using q by (auto simp: region_def)
  have oth: "region r j \<inter> region p (n + k) = {}" if "M r = Some j" "r \<noteq> p" for r j
    using packed_disjoint [OF pk that(1) M that(2)] .
  show "packed (M(p \<mapsto> n, q \<mapsto> k))"
    unfolding packed_def
  proof (intro conjI allI impI, goal_cases)
    case (1 r j)
    then show ?case using packedD [OF pk, of r j] b aligned8_plus [OF b(1) q] q n by (auto split: if_splits)
  next
    case (2 r j)
    then show ?case using packedD [OF pk, of r j] n by (auto split: if_splits)
  next
    case (3 r j)
    then show ?case using packedD [OF pk, of r j] b q n by (auto split: if_splits)
  next
    case (4 r t i j)
    then show ?case using packed_disjoint [OF pk, of r i t j] oth [of r i] oth [of t j] sub dis ne none
      by (simp split: if_splits; blast)
  qed
qed

lemma join_blocks:
  assumes pk: "packed M" and M: "M p = Some n" "M q = Some k" and q: "unat q = unat p + 8 * n"
  shows "packed (M(p \<mapsto> n + k, q := None))" and "q \<noteq> p" and "region p (n + k) = region p n \<union> region q k"
proof -
  have b: "aligned8 p" "0 < n" "0 < k" "unat q + 8 * k < 2 ^ 32" using packedD [OF pk M(1)] packedD [OF pk M(2)] by auto
  show ne: "q \<noteq> p" using q b by auto
  show reg: "region p (n + k) = region p n \<union> region q k" using q by (auto simp: region_def)
  have oth: "region r j \<inter> region p (n + k) = {}" if "M r = Some j" "r \<noteq> p" "r \<noteq> q" for r j
    using packed_disjoint [OF pk that(1) M(1)] packed_disjoint [OF pk that(1) M(2)] that reg by blast
  show "packed (M(p \<mapsto> n + k, q := None))"
    unfolding packed_def
  proof (intro conjI allI impI, goal_cases)
    case (1 r j)
    then show ?case using packedD [OF pk, of r j] b by (auto split: if_splits)
  next
    case (2 r j)
    then show ?case using packedD [OF pk, of r j] b by (auto split: if_splits)
  next
    case (3 r j)
    then show ?case using packedD [OF pk, of r j] b q by (auto split: if_splits)
  next
    case (4 r t i j)
    then show ?case using packed_disjoint [OF pk, of r i t j] oth [of r i] oth [of t j]
      by (simp split: if_splits; blast)
  qed
qed

lemma add_block:
  assumes pk: "packed M" and p: "aligned8 p" "0 < n" "unat p + 8 * n < 2 ^ 32" and dis: "area M UNIV \<inter> region p n = {}"
  shows "packed (M(p \<mapsto> n))" and "M p = None"
proof -
  show none: "M p = None"
  proof (rule ccontr)
    assume "M p \<noteq> None"
    then obtain j where j: "M p = Some j" by blast
    then have "region p j \<subseteq> area M UNIV" by (auto simp: area_def)
    moreover have "unat p \<in> region p j" "unat p \<in> region p n" using packedD [OF pk j] p by (auto simp: region_def)
    ultimately show False using dis by blast
  qed
  have oth: "region r j \<inter> region p n = {}" if "M r = Some j" for r j
    using dis that by (auto simp: area_def)
  show "packed (M(p \<mapsto> n))"
    unfolding packed_def
  proof (intro conjI allI impI, goal_cases)
    case (1 r j)
    then show ?case using packedD [OF pk, of r j] p by (auto split: if_splits)
  next
    case (2 r j)
    then show ?case using packedD [OF pk, of r j] p by (auto split: if_splits)
  next
    case (3 r j)
    then show ?case using packedD [OF pk, of r j] p by (auto split: if_splits)
  next
    case (4 r t i j)
    then show ?case using packed_disjoint [OF pk, of r i t j] oth [of r i] oth [of t j]
      by (simp split: if_splits; blast)
  qed
qed

lemma areaI: "M p = Some n \<Longrightarrow> x \<in> region p n \<Longrightarrow> p \<in> S \<Longrightarrow> x \<in> area M S"
  by (auto simp: area_def)

lemma areaE:
  assumes "x \<in> area M S" obtains p n where "p \<in> S" "M p = Some n" "x \<in> region p n"
  using assms by (auto simp: area_def)

lemma area_add:
  assumes none: "M p = None" shows "area (M(p \<mapsto> n)) UNIV = area M UNIV \<union> region p n"
proof (intro equalityI subsetI)
  fix x
  assume "x \<in> area (M(p \<mapsto> n)) UNIV"
  then obtain r j where rj: "(M(p \<mapsto> n)) r = Some j" "x \<in> region r j" by (elim areaE)
  then show "x \<in> area M UNIV \<union> region p n" using areaI [of M r j x UNIV] by (cases "r = p") auto
next
  fix x
  assume x: "x \<in> area M UNIV \<union> region p n"
  show "x \<in> area (M(p \<mapsto> n)) UNIV"
  proof (cases "x \<in> region p n")
    case True
    then show ?thesis by (intro areaI [of _ p n]) simp_all
  next
    case False
    with x obtain r j where "M r = Some j" "x \<in> region r j" by (auto elim: areaE)
    then show ?thesis using none by (intro areaI [of _ r j]) auto
  qed
qed

lemma area_join:
  assumes "M p = Some n" "M q = Some k" "q \<noteq> p" "region p (n + k) = region p n \<union> region q k"
  shows "area (M(p \<mapsto> n + k, q := None)) UNIV = area M UNIV"
proof (intro equalityI subsetI)
  fix x
  assume "x \<in> area (M(p \<mapsto> n + k, q := None)) UNIV"
  then obtain r j where rj: "(M(p \<mapsto> n + k, q := None)) r = Some j" "x \<in> region r j" by (elim areaE)
  show "x \<in> area M UNIV"
  proof (cases "r = p")
    case True
    then have "x \<in> region p n \<or> x \<in> region q k" using rj assms(3,4) by auto
    then show ?thesis using areaI [of M p n] areaI [of M q k] assms(1,2) by auto
  next
    case False
    then show ?thesis using rj by (intro areaI [of M r j]) (auto split: if_splits)
  qed
next
  fix x
  assume "x \<in> area M UNIV"
  then obtain r j where rj: "M r = Some j" "x \<in> region r j" by (elim areaE)
  show "x \<in> area (M(p \<mapsto> n + k, q := None)) UNIV"
  proof (cases "r = p \<or> r = q")
    case True
    then have "x \<in> region p n \<union> region q k" using rj assms(1,2) by auto
    then have "x \<in> region p (n + k)" by (simp only: assms(4))
    then show ?thesis using assms(3) by (intro areaI [of _ p "n + k"]) simp_all
  next
    case False
    then show ?thesis using rj by (intro areaI [of _ r j]) simp_all
  qed
qed

lemma area_split:
  assumes "M p = Some (n + k)" "M q = None" "q \<noteq> p" "region p (n + k) = region p n \<union> region q k"
  shows "area (M(p \<mapsto> n, q \<mapsto> k)) UNIV = area M UNIV"
proof -
  have "(M(p \<mapsto> n, q \<mapsto> k))(p \<mapsto> n + k, q := None) = M" using assms by auto
  then show ?thesis using area_join [of "M(p \<mapsto> n, q \<mapsto> k)" p n q k] assms by simp
qed

section \<open>The free list\<close>

definition flist :: "blocks \<Rightarrow> u32 set \<Rightarrow> (u32 \<Rightarrow> u32) \<Rightarrow> slob_heap \<Rightarrow> bool" where
  "flist M S f s \<longleftrightarrow> packed M \<and> S \<subseteq> dom M \<and> cyclic S f \<and>
     (\<forall>p\<in>S. \<forall>n. M p = Some n \<longrightarrow> n < 2 ^ 29 \<and> units p s = int n)"

text \<open>\<open>neighbours\<close>: free blocks that touch, as pairs. A settled free list has none.\<close>

definition neighbours :: "blocks \<Rightarrow> u32 set \<Rightarrow> (u32 \<times> u32) set" where
  "neighbours M S = {(p, q). p \<in> S \<and> q \<in> S \<and> (\<exists>n. M p = Some n \<and> unat p + 8 * n = unat q)}"

lemma flist_units: "flist M S f s \<Longrightarrow> p \<in> S \<Longrightarrow> M p = Some n \<Longrightarrow> units p s = int n \<and> n < 2 ^ 29 \<and> 0 < n \<and> aligned8 p"
  unfolding flist_def using packedD by blast

lemma flist_aligned: "flist M S f s \<Longrightarrow> p \<in> S \<Longrightarrow> aligned8 p"
  unfolding flist_def using packedD by blast

lemma slob_plus_eq:
  assumes "packed M" "M p = Some n"
  shows "slob_plus p (int n) = q \<longleftrightarrow> unat p + 8 * n = unat q"
proof -
  have "unat (slob_plus p (int n)) = unat p + 8 * n"
    using packedD [OF assms] unat_slob_plus [of "int n" p] by simp
  then show ?thesis by (metis word_unat_eq_iff)
qed

lemma adjacent_next:
  assumes fl: "flist M S f s" and c: "c \<in> S" "c < b" "place f b c" and b: "M b = Some n"
    and q: "q \<in> S" "unat b + 8 * n = unat q"
  shows "q = f c"
proof (rule ccontr)
  assume ne: "q \<noteq> f c"
  have pk: "packed M" and r: "cyclic S f" and sub: "S \<subseteq> dom M" using fl by (auto simp: flist_def)
  have su: "succ_in S c (f c)" using r c(1) by (rule cyclic_succ)
  have bq: "b < q" using packedD [OF pk b] q by (auto simp: word_less_nat_alt)
  then have up: "c < f c" "b < f c" using c su q by (auto simp: place_def succ_in_def split: if_splits)
  then have "f c < q" using su q(1) ne bq c(2) by (auto simp: succ_in_def dest: order.strict_trans)
  obtain k where "M (f c) = Some k" using su sub by (auto simp: succ_in_def)
  then have "unat b + 8 * n \<le> unat (f c)" using packed_order [OF pk b] up(2) by blast
  with q \<open>f c < q\<close> show False by (simp add: word_less_nat_alt)
qed

lemma adjacent_prev:
  assumes fl: "flist M S f s" and c: "c \<in> S" "c < b" "place f b c"
    and p: "p \<in> S" "M p = Some k" "unat p + 8 * k = unat b"
  shows "p = c"
proof (rule ccontr)
  assume ne: "p \<noteq> c"
  have pk: "packed M" and r: "cyclic S f" and sub: "S \<subseteq> dom M" using fl by (auto simp: flist_def)
  have su: "succ_in S c (f c)" using r c(1) by (rule cyclic_succ)
  have "p < b" using packedD [OF pk p(2)] p by (auto simp: word_less_nat_alt)
  then have "p \<le> c" using su p(1) c by (fastforce simp: place_def succ_in_def split: if_splits)
  with ne have "p < c" by simp
  obtain m where "M c = Some m" using c sub by auto
  then have "unat p + 8 * k \<le> unat c" using packed_order [OF pk p(2)] \<open>p < c\<close> by blast
  with p c(2) show False by (simp add: word_less_nat_alt)
qed

lemma merge_next_ok:
  assumes fl: "flist M S (\<lambda>p. slob_next p s) s" and nb: "neighbours M S = {}"
    and c: "c \<in> S" "c < b" "place (\<lambda>p. slob_next p s) b c"
    and b: "b \<notin> S" "M b = Some n" "units b s = int n" "n < 2 ^ 28" and small: "\<forall>p\<in>S. \<forall>k. M p = Some k \<longrightarrow> k < 2 ^ 28"
  shows "\<exists>M' S'. flist M' S' ((\<lambda>p. slob_next p (merge_next c b s))(c := b)) (merge_next c b s) \<and> neighbours M' S' \<subseteq> {(c, b)} \<and>
    S' \<subseteq> insert b S \<and> b \<in> S' \<and> (\<forall>p\<in>S. p \<le> b \<longrightarrow> p \<in> S' \<and> M' p = M p) \<and> (\<forall>p. p \<notin> insert b S \<longrightarrow> M' p = M p) \<and>
    (\<forall>p\<in>S. p \<notin> S' \<longrightarrow> M' p = None) \<and> (\<exists>k\<ge>n. M' b = Some k) \<and> area M' UNIV = area M UNIV"
proof -
  let ?f = "\<lambda>p. slob_next p s"
  have pk: "packed M" and r: "cyclic S ?f" and sub: "S \<subseteq> dom M" using fl by (auto simp: flist_def)
  have al: "aligned8 b" "\<And>p. p \<in> S \<Longrightarrow> aligned8 p" using packedD [OF pk b(2)] flist_aligned [OF fl] by auto
  have ri: "cyclic (insert b S) (?f(b := ?f c, c := b))" using cyclic_insert [OF r c(1) b(1) c(3)] .
  have nS: "?f c \<in> S" using cyclic_closed [OF r c(1)] .
  show ?thesis
  proof (cases "unat b + 8 * n = unat (?f c)")
    case False
    then have eq: "merge_next c b s = set_slob_next b (?f c) s"
      by (simp add: merge_next_def b(3) slob_plus_eq [OF pk b(2)])
    have "flist M (insert b S) ((\<lambda>p. slob_next p (merge_next c b s))(c := b)) (merge_next c b s)"
      unfolding flist_def eq
    proof (intro conjI)
      show "cyclic (insert b S) ((\<lambda>p. slob_next p (set_slob_next b (?f c) s))(c := b))"
        by (rule cyclic_cong [OF ri]) (use al c(1) b(1) in auto)
    qed (use pk sub b al flist_units [OF fl] in auto)
    moreover have "neighbours M (insert b S) \<subseteq> {(c, b)}"
    proof (clarsimp simp: neighbours_def, intro conjI)
      fix p q k
      assume pq: "p = b \<or> p \<in> S" "q = b \<or> q \<in> S" "M p = Some k" "unat p + 8 * k = unat q"
      have "0 < k" using packedD [OF pk pq(3)] by simp
      then have "p \<noteq> b"
        using pq adjacent_next [OF fl c b(2), of q] b(2) False by auto
      then have pS: "p \<in> S" using pq by simp
      then have qb: "q = b" using pq(2-4) nb by (auto simp: neighbours_def)
      show "p = c" using adjacent_prev [OF fl c pS pq(3)] pq(4) qb by simp
      show "q = b" by (rule qb)
    qed
    ultimately show ?thesis using b(1,2) by (intro exI [of _ M] exI [of _ "insert b S"]) auto
  next
    case True
    obtain k where k: "M (?f c) = Some k" using nS sub by auto
    note j = join_blocks [OF pk b(2) k True [symmetric]]
    let ?M = "M(b \<mapsto> n + k, ?f c := None)" and ?S = "insert b S - {?f c}"
    have uk: "units (?f c) s = int k" "k < 2 ^ 28" using flist_units [OF fl nS k] small nS k by auto
    have bn: "b < ?f c" using True packedD [OF pk b(2)] by (simp add: word_less_nat_alt)
    have nc: "?f c \<noteq> c" "?f c \<noteq> b" "c \<noteq> b" using bn c(2) by auto
    have eq: "merge_next c b s = set_slob_next b (?f (?f c)) (set_units b (int n + int k) s)"
      using True b(3) uk(1) al c(1) nS nc
      by (simp add: merge_next_def slob_plus_eq [OF pk b(2)] Let_def)
    have rr: "cyclic ?S ((?f(b := ?f c, c := b))(b := ?f (?f c)))"
      using cyclic_remove [OF ri, of b "?f c"] nc by (simp add: fun_upd_twist)
    have sm: "sint (word_of_int (int n + int k) :: u32) = int n + int k"
      by (rule sint_small) (use b(4) uk(2) in auto)
    have "flist ?M ?S ((\<lambda>p. slob_next p (merge_next c b s))(c := b)) (merge_next c b s)"
      unfolding flist_def eq
    proof (intro conjI)
      show "cyclic ?S ((\<lambda>p. slob_next p (set_slob_next b (?f (?f c)) (set_units b (int n + int k) s)))(c := b))"
        by (rule cyclic_cong [OF rr]) (use al nc in auto)
      show "\<forall>p\<in>?S. \<forall>m. ?M p = Some m \<longrightarrow>
          m < 2 ^ 29 \<and> units p (set_slob_next b (?f (?f c)) (set_units b (int n + int k) s)) = int m"
        using al flist_units [OF fl] sm b(4) uk(2) b(1) by auto
    qed (use j sub in auto)
    moreover have "neighbours ?M ?S \<subseteq> {(c, b)}"
    proof (clarsimp simp: neighbours_def, intro conjI)
      fix p q m
      assume pq: "p = b \<or> p \<in> S" "p \<noteq> ?f c" "q = b \<or> q \<in> S" "q \<noteq> ?f c" "(if p = b then Some (n + k) else M p) = Some m"
        "unat p + 8 * m = unat q"
      have "p \<noteq> b"
      proof
        assume "p = b"
        then have e: "unat (?f c) + 8 * k = unat q" using pq(5,6) True by auto
        then have "q \<in> S" using pq(3) bn by (auto simp: word_less_nat_alt)
        then have "(?f c, q) \<in> neighbours M S" using e k nS by (auto simp: neighbours_def)
        then show False using nb by simp
      qed
      then have pS: "p \<in> S" "M p = Some m" using pq by auto
      then have qb: "q = b" using pq(3,6) nb by (auto simp: neighbours_def)
      show "p = c" using adjacent_prev [OF fl c pS] pq(6) qb by simp
      show "q = b" by (rule qb)
    qed
    moreover have "area ?M UNIV = area M UNIV"
      by (rule area_join [OF b(2) k j(2,3)])
    moreover have "\<forall>p\<in>S. p \<le> b \<longrightarrow> p \<in> ?S \<and> ?M p = M p" using bn b(1) by auto
    ultimately show ?thesis using b(1) nc nS by (intro exI [of _ ?M] exI [of _ ?S]) auto
  qed
qed

lemma merge_prev_ok:
  assumes fl: "flist M S ((\<lambda>p. slob_next p s)(c := b)) s" and nb: "neighbours M S \<subseteq> {(c, b)}"
    and c: "c \<in> S" "c < b" and b: "b \<in> S" and small: "\<forall>p\<in>S. \<forall>k. M p = Some k \<longrightarrow> k < 2 ^ 28"
  shows "\<exists>M' S'. flist M' S' (\<lambda>p. slob_next p (merge_prev c b s)) (merge_prev c b s) \<and> neighbours M' S' = {} \<and>
    S' \<subseteq> S \<and> S - {b} \<subseteq> S' \<and> (\<forall>p. p \<noteq> b \<and> p \<noteq> c \<longrightarrow> M' p = M p) \<and> (b \<notin> S' \<longrightarrow> M' b = None) \<and>
    ((c, b) \<notin> neighbours M S \<longrightarrow> M' = M) \<and> (\<forall>n. M b = Some n \<longrightarrow> (\<exists>p\<in>S'. \<exists>k\<ge>n. M' p = Some k)) \<and> area M' UNIV = area M UNIV"
proof -
  let ?f = "\<lambda>p. slob_next p s"
  have pk: "packed M" and r: "cyclic S (?f(c := b))" and sub: "S \<subseteq> dom M" using fl by (auto simp: flist_def)
  have al: "\<And>p. p \<in> S \<Longrightarrow> aligned8 p" using flist_aligned [OF fl] by auto
  obtain n m where n: "M b = Some n" and m: "M c = Some m" using sub b c by (meson domD subsetD)
  have u: "units b s = int n" "units c s = int m" "n < 2 ^ 28" "m < 2 ^ 28"
    using flist_units [OF fl b n] flist_units [OF fl c(1) m] small b n c(1) m by auto
  show ?thesis
  proof (cases "unat c + 8 * m = unat b")
    case False
    then have eq: "merge_prev c b s = set_slob_next c b s"
      by (simp add: merge_prev_def u slob_plus_eq [OF pk m])
    have "flist M S (\<lambda>p. slob_next p (merge_prev c b s)) (merge_prev c b s)"
      unfolding flist_def eq
    proof (intro conjI)
      show "cyclic S (\<lambda>p. slob_next p (set_slob_next c b s))"
        by (rule cyclic_cong [OF r]) (use al c(1) in auto)
    qed (use pk sub al c(1) flist_units [OF fl] in auto)
    moreover have "neighbours M S = {}" using nb False m by (auto simp: neighbours_def)
    ultimately show ?thesis using b n by (intro exI [of _ M] exI [of _ S]) auto
  next
    case True
    note j = join_blocks [OF pk m n True [symmetric]]
    let ?M = "M(c \<mapsto> m + n, b := None)" and ?S = "S - {b}"
    have bc: "b \<noteq> c" using c(2) by auto
    have eq: "merge_prev c b s = set_slob_next c (?f b) (set_units c (int m + int n) s)"
      using True al c(1) b by (simp add: merge_prev_def u slob_plus_eq [OF pk m] Let_def)
    have rr: "cyclic ?S (?f(c := ?f b))" using cyclic_remove [OF r c(1), of b] bc by simp
    have sm: "sint (word_of_int (int m + int n) :: u32) = int m + int n"
      by (rule sint_small) (use u in auto)
    have "flist ?M ?S (\<lambda>p. slob_next p (merge_prev c b s)) (merge_prev c b s)"
      unfolding flist_def eq
    proof (intro conjI)
      show "cyclic ?S (\<lambda>p. slob_next p (set_slob_next c (?f b) (set_units c (int m + int n) s)))"
        by (rule cyclic_cong [OF rr]) (use al c(1) in auto)
      show "\<forall>p\<in>?S. \<forall>i. ?M p = Some i \<longrightarrow>
          i < 2 ^ 29 \<and> units p (set_slob_next c (?f b) (set_units c (int m + int n) s)) = int i"
        using al c(1) flist_units [OF fl] sm u bc by auto
    qed (use j sub in auto)
    moreover have "neighbours ?M ?S = {}"
    proof -
      have False if "(p, q) \<in> neighbours ?M ?S" for p q
      proof (cases "p = c")
        case True
        have "unat b + 8 * n = unat q" "q \<in> S"
          using that True \<open>unat c + 8 * m = unat b\<close> bc by (auto simp: neighbours_def)
        then have "(b, q) \<in> neighbours M S" using n b by (auto simp: neighbours_def)
        then show False using nb bc by auto
      next
        case False
        then have "(p, q) \<in> neighbours M S" using that by (auto simp: neighbours_def split: if_splits)
        then show False using nb False by auto
      qed
      then show ?thesis by auto
    qed
    moreover have "area ?M UNIV = area M UNIV" by (rule area_join [OF m n j(2,3)])
    moreover have "(c, b) \<in> neighbours M S" using True m b c by (auto simp: neighbours_def)
    moreover have "\<forall>i. M b = Some i \<longrightarrow> (\<exists>p\<in>?S. \<exists>k\<ge>i. ?M p = Some k)"
      using n bc c(1) by (intro allI impI bexI [of _ c] exI [of _ "m + n"]) auto
    ultimately show ?thesis using bc by (intro exI [of _ ?M] exI [of _ ?S]) auto
  qed
qed

section \<open>The heap invariant\<close>

definition page_region :: "nat \<Rightarrow> nat set" where
  "page_region q = {2 ^ 31 + 4096 * q ..< 2 ^ 31 + 4096 * q + 4096}"

definition heap_area :: "u32 \<Rightarrow> nat set \<Rightarrow> nat set" where
  "heap_area A H = region A 1 \<union> (\<Union>q\<in>H. page_region q)"

text \<open>
  The pages of the heap come from the page allocator and are not free there. The static block lies in the kernel image,
  below every page under management and not next to one: \<open>page_init\<close> puts the page descriptors between them.
\<close>

definition pages_ok :: "u32 \<Rightarrow> nat set \<Rightarrow> pmm \<Rightarrow> nat \<Rightarrow> bool" where
  "pages_ok A H p np \<longleftrightarrow> np \<le> 2048 \<and> pmm_inv np p \<and> H \<subseteq> managed np p - free_page_set p \<and>
     (\<forall>q\<in>managed np p. unat A + 8 < 2 ^ 31 + 4096 * q) \<and> 2 ^ 31 \<le> unat A \<and> unat A + 8 \<le> 2 ^ 31 + 2 ^ 23"

definition slob_ok :: "u32 \<Rightarrow> blocks \<Rightarrow> u32 set \<Rightarrow> nat set \<Rightarrow> slob_heap \<Rightarrow> bool" where
  "slob_ok A M S H s \<longleftrightarrow> flist M S (\<lambda>p. slob_next p s) s \<and> neighbours M S = {} \<and> A \<in> S \<and> M A = Some 1 \<and>
     slobfree s \<in> S \<and> area M UNIV = heap_area A H \<and> pages_ok A H (pm (vm s)) (npage (vm s))"

definition used_blocks :: "blocks \<Rightarrow> u32 set \<Rightarrow> (u32 \<times> nat) set" where
  "used_blocks M S = {(p, n). M p = Some n \<and> p \<notin> S}"

text \<open>What stores to the heap leave alone.\<close>

definition env :: "slob_heap \<Rightarrow> pmm \<times> nat \<times> bool \<times> u32" where
  "env s = (pm (vm s), npage (vm s), swap_init_ok (vm s), bigblocks s)"

definition kept :: "nat set \<Rightarrow> slob_heap \<Rightarrow> slob_heap \<Rightarrow> bool" where
  "kept X s s' \<longleftrightarrow> (\<forall>x. unat x \<notin> X \<longrightarrow> word_at x s' = word_at x s)"

lemma kept_refl [simp]: "kept X s s"
  by (simp add: kept_def)

lemma kept_trans: "kept X s s1 \<Longrightarrow> kept X s1 s2 \<Longrightarrow> kept X s s2"
  by (simp add: kept_def)

lemma kept_mono: "kept X s s' \<Longrightarrow> X \<subseteq> Y \<Longrightarrow> kept Y s s'"
  by (auto simp: kept_def)

lemma kept_word: "kept X s s' \<Longrightarrow> unat x \<notin> X \<Longrightarrow> word_at x s' = word_at x s"
  by (simp add: kept_def)

lemma env_put [simp]: "env (put_word a v s) = env s"
  by (simp add: env_def put_word_def store_word_def)

lemma env_sets [simp]: "env (set_units p n s) = env s" "env (set_slob_next p q s) = env s" "env (s\<lparr>slobfree := c\<rparr>) = env s"
  by (simp_all add: set_units_def set_slob_next_def) (simp add: env_def)

lemma kept_put [simp]: "unat a \<in> X \<Longrightarrow> kept X s (put_word a v s)"
  by (auto simp: kept_def)

lemma header_words:
  assumes "unat p + 8 * n < 2 ^ 32" "0 < n" shows "unat p \<in> region p n" "unat (p + 4) \<in> region p n"
proof -
  have "unat (p + 4) = unat p + 4" using assms by (subst unat_add_no_wrap) auto
  then show "unat p \<in> region p n" "unat (p + 4) \<in> region p n" using assms by (auto simp: region_def)
qed

lemma kept_sets:
  assumes "packed M" "M p = Some n" "region p n \<subseteq> X"
  shows "kept X s (set_units p k s)" "kept X s (set_slob_next p q s)"
  using header_words [of p n] packedD [OF assms(1,2)] assms(3) by (auto simp: set_units_def set_slob_next_def)

lemma kept_more:
  assumes "packed M" "M p = Some n" "region p n \<subseteq> X" "kept X s s'"
  shows "kept X s (set_units p k s')" "kept X s (set_slob_next p q s')"
  using kept_sets [OF assms(1-3), of s'] assms(4) kept_trans by blast+

lemma kept_slobfree [simp]: "kept X s (s'\<lparr>slobfree := c\<rparr>) = kept X s s'" "kept X (s\<lparr>slobfree := c\<rparr>) s' = kept X s s'"
  by (simp_all add: kept_def)

lemma merge_next_kept:
  assumes "packed M" "M b = Some n" "region b n \<subseteq> X"
  shows "kept X s (merge_next c b s)" "env (merge_next c b s) = env s"
  by (auto simp: merge_next_def Let_def intro!: kept_more [OF assms])

lemma merge_prev_kept:
  assumes "packed M" "M c = Some n" "region c n \<subseteq> X"
  shows "kept X s (merge_prev c b s)" "env (merge_prev c b s) = env s"
  by (auto simp: merge_prev_def Let_def intro!: kept_more [OF assms])

lemma slob_okD:
  assumes "slob_ok A M S H s"
  shows "packed M" "S \<subseteq> dom M" "cyclic S (\<lambda>p. slob_next p s)" "A \<in> S" "M A = Some 1" "slobfree s \<in> S"
    "neighbours M S = {}" "flist M S (\<lambda>p. slob_next p s) s" "area M UNIV = heap_area A H"
    "pages_ok A H (pm (vm s)) (npage (vm s))"
  using assms by (auto simp: slob_ok_def flist_def)

lemma heap_area_bounds:
  assumes "pages_ok A H p np" "x \<in> heap_area A H"
  shows "2 ^ 31 \<le> x" "x < 2 ^ 31 + 2 ^ 23" "x \<notin> region A 1 \<Longrightarrow> unat A + 8 < x"
proof -
  have q: "q < 2048 \<and> unat A + 8 < 2 ^ 31 + 4096 * q" if "q \<in> H" for q
    using assms(1) that by (auto simp: pages_ok_def managed_def)
  have a: "2 ^ 31 \<le> unat A" "unat A + 8 \<le> 2 ^ 31 + 2 ^ 23" using assms(1) by (auto simp: pages_ok_def)
  show "2 ^ 31 \<le> x" using assms(2) a by (auto simp: heap_area_def page_region_def region_def)
  show "x < 2 ^ 31 + 2 ^ 23"
    using assms(2) a(2) by (auto simp: heap_area_def page_region_def region_def dest!: q)
  show "x \<notin> region A 1 \<Longrightarrow> unat A + 8 < x"
    using assms(2) by (auto simp: heap_area_def page_region_def dest!: q)
qed

lemma block_bounds:
  assumes ok: "slob_ok A M S H s" and p: "M p = Some n"
  shows "2 ^ 31 \<le> unat p" "unat p + 8 * n \<le> 2 ^ 31 + 2 ^ 23" "n < 2 ^ 28" "p \<noteq> 0"
    "p \<noteq> A \<Longrightarrow> unat A + 8 < unat p" "p \<noteq> A \<Longrightarrow> A < p"
proof -
  have pg: "pages_ok A H (pm (vm s)) (npage (vm s))" and pk: "packed M" using ok by (auto simp: slob_ok_def flist_def)
  have b: "0 < n" "region p n \<subseteq> heap_area A H"
    using packedD [OF pk p] slob_okD(9) [OF ok] areaI [of M p n] p by blast+
  have m: "unat p \<in> region p n" "unat p + 8 * n - 1 \<in> region p n" using b(1) by (auto simp: region_def)
  with b(2) have h: "unat p \<in> heap_area A H" "unat p + 8 * n - 1 \<in> heap_area A H" by blast+
  show lo: "2 ^ 31 \<le> unat p" using heap_area_bounds(1) [OF pg h(1)] .
  show hi: "unat p + 8 * n \<le> 2 ^ 31 + 2 ^ 23" using heap_area_bounds(2) [OF pg h(2)] by linarith
  show "n < 2 ^ 28" using lo hi by simp
  show "p \<noteq> 0" using lo by auto
  show "unat A + 8 < unat p" if "p \<noteq> A"
    using heap_area_bounds(3) [OF pg h(1)] packed_disjoint [OF pk p slob_okD(5) [OF ok] that] m(1) by blast
  then show "A < p" if "p \<noteq> A" using that by (auto simp: word_less_nat_alt)
qed

section \<open>slob_free\<close>

lemma place_below:
  assumes "cyclic S f" "c \<in> S" "place f b c" "A \<in> S" "A < b"
  shows "c < b"
  using cyclic_succ [OF assms(1,2)] assms(3-5) by (fastforce simp: place_def succ_in_def split: if_splits)

lemma reinsert_ok:
  assumes ok: "slob_ok A M S H s" and b: "M b = Some n" "b \<notin> S" "units b s = int n"
  shows "\<exists>M' S' s'. slob_free b 0 s = Some s' \<and> slob_ok A M' S' H s' \<and> used_blocks M' S' = used_blocks M S - {(b, n)} \<and>
    (\<exists>p\<in>S'. \<exists>k\<ge>n. M' p = Some k) \<and> kept (area M S \<union> region b n) s s' \<and> env s' = env s"
proof -
  note o = slob_okD [OF ok]
  have bA: "b \<noteq> A" using b o(4) by blast
  note bb = block_bounds [OF ok b(1)]
  obtain c where c: "c \<in> S" "find_place b (slobfree s) s = Some c" "place (\<lambda>p. slob_next p s) b c"
    using find_place_ok [OF o(3,6) b(2)] by blast
  have cb: "c < b" using place_below [OF o(3) c(1,3) o(4)] bb(6) [OF bA] .
  let ?s1 = "merge_next c b s"
  have small: "\<forall>p\<in>S. \<forall>k. M p = Some k \<longrightarrow> k < 2 ^ 28" using block_bounds(3) [OF ok] by blast
  obtain M1 S1 where m1: "flist M1 S1 ((\<lambda>p. slob_next p ?s1)(c := b)) ?s1" "neighbours M1 S1 \<subseteq> {(c, b)}" "S1 \<subseteq> insert b S"
      "b \<in> S1" "\<forall>p\<in>S. p \<le> b \<longrightarrow> p \<in> S1 \<and> M1 p = M p" "\<forall>p. p \<notin> insert b S \<longrightarrow> M1 p = M p"
      "\<forall>p\<in>S. p \<notin> S1 \<longrightarrow> M1 p = None" "\<exists>k\<ge>n. M1 b = Some k" "area M1 UNIV = area M UNIV"
    using merge_next_ok [OF o(8,7) c(1) cb c(3) b(2,1,3) bb(3) small] by blast
  have pk1: "packed M1" using m1(1) by (simp add: flist_def)
  have c1: "c \<in> S1" "M1 c = M c" using m1(5) c(1) cb by auto
  have A1: "A \<in> S1" "M1 A = Some 1" using m1(5) o(4,5) bb(6) [OF bA] by auto
  have small1: "\<forall>p\<in>S1. \<forall>k. M1 p = Some k \<longrightarrow> k < 2 ^ 28"
  proof (intro ballI allI impI)
    fix p k
    assume p: "p \<in> S1" "M1 p = Some k"
    have "region p k \<subseteq> heap_area A H" using areaI [of M1 p k _ UNIV] p(2) m1(9) o(9) by blast
    moreover have "unat p \<in> region p k" "unat p + 8 * k - 1 \<in> region p k" using packedD [OF pk1 p(2)] by (auto simp: region_def)
    ultimately have "2 ^ 31 \<le> unat p" "unat p + 8 * k - 1 < 2 ^ 31 + 2 ^ 23"
      using heap_area_bounds(1,2) [of A H "pm (vm s)" "npage (vm s)"] ok unfolding slob_ok_def by blast+
    then show "k < 2 ^ 28" by simp
  qed
  let ?s2 = "merge_prev c b ?s1"
  obtain M2 S2 where m2: "flist M2 S2 (\<lambda>p. slob_next p ?s2) ?s2" "neighbours M2 S2 = {}" "S2 \<subseteq> S1" "S1 - {b} \<subseteq> S2"
      "\<forall>p. p \<noteq> b \<and> p \<noteq> c \<longrightarrow> M2 p = M1 p" "b \<notin> S2 \<longrightarrow> M2 b = None" "(c, b) \<notin> neighbours M1 S1 \<longrightarrow> M2 = M1"
      "\<forall>n. M1 b = Some n \<longrightarrow> (\<exists>p\<in>S2. \<exists>k\<ge>n. M2 p = Some k)" "area M2 UNIV = area M1 UNIV"
    using merge_prev_ok [OF m1(1,2) c1(1) cb m1(4) small1] by blast
  have A2: "M2 A = Some 1"
  proof (cases "c = A")
    case True
    then have "(c, b) \<notin> neighbours M1 S1" using A1(2) bb(5) [OF bA] by (auto simp: neighbours_def)
    then show ?thesis using m2(7) A1(2) by simp
  next
    case False
    then show ?thesis using m2(5) A1(2) bA by metis
  qed
  obtain k where k: "M c = Some k" using c(1) o(2) by auto
  have kp: "kept (area M S \<union> region b n) s ?s1" "env ?s1 = env s"
    using merge_next_kept [OF o(1) b(1), where X = "area M S \<union> region b n" and s = s and c = c] by auto
  have rc: "region c k \<subseteq> area M S" using areaI [of M c k _ S] k c(1) by blast
  then have kp2: "kept (area M S \<union> region b n) ?s1 ?s2" "env ?s2 = env ?s1"
    using merge_prev_kept [OF o(1) k, where X = "area M S \<union> region b n" and s = ?s1 and b = b] by auto
  have e: "pm (vm ?s2) = pm (vm s)" "npage (vm ?s2) = npage (vm s)" using kp(2) kp2(2) by (auto simp: env_def)
  have in2: "A \<in> S2" "c \<in> S2" using m2(4) A1(1) bA c1(1) cb by blast+
  have fl2: "flist M2 S2 (\<lambda>p. slob_next p (?s2\<lparr>slobfree := c\<rparr>)) (?s2\<lparr>slobfree := c\<rparr>)"
    using m2(1) by (simp add: flist_def)
  have "slob_ok A M2 S2 H (?s2\<lparr>slobfree := c\<rparr>)"
    unfolding slob_ok_def
  proof (intro conjI)
    show "area M2 UNIV = heap_area A H" using m2(9) m1(9) o(9) by (rule trans [OF trans])
    show "pages_ok A H (pm (vm (?s2\<lparr>slobfree := c\<rparr>))) (npage (vm (?s2\<lparr>slobfree := c\<rparr>)))"
      using o(10) by (simp add: e)
    show "slobfree (?s2\<lparr>slobfree := c\<rparr>) \<in> S2" using in2(2) by simp
  qed (fact fl2 m2(2) in2(1) A2)+
  moreover have "used_blocks M2 S2 = used_blocks M S - {(b, n)}"
  proof -
    have "M2 p = Some j \<and> p \<notin> S2 \<longleftrightarrow> M p = Some j \<and> p \<notin> S \<and> p \<noteq> b" for p j
    proof (cases "p \<in> insert b S")
      case True
      have "M2 p = None" if n: "p \<notin> S2"
      proof (cases "p = b")
        case False
        then have "p \<noteq> c" "p \<notin> S1" using n in2(2) m2(4) by auto
        moreover have "M1 p = None" using m1(7) True False \<open>p \<notin> S1\<close> by blast
        ultimately show ?thesis using m2(5) False by simp
      qed (use n m2(6) in simp)
      then show ?thesis using True by auto
    next
      case False
      then have "M2 p = M p" "p \<notin> S2" using m2(3,5) m1(3,6) c(1) by auto
      then show ?thesis using False by auto
    qed
    then show ?thesis using b(1) by (auto simp: used_blocks_def)
  qed
  moreover have "\<exists>p\<in>S2. \<exists>k\<ge>n. M2 p = Some k" using m1(8) m2(8) order_trans by meson
  moreover have "slob_free b 0 s = Some (?s2\<lparr>slobfree := c\<rparr>)" using bb(4) c(2) by (simp add: slob_free_def)
  ultimately show ?thesis using kp kp2 kept_trans [OF kp(1) kp2(1)] by (intro exI [of _ M2] exI [of _ S2] exI [of _ "?s2\<lparr>slobfree := c\<rparr>"]) auto
qed

text \<open>Storing to a block in use does not disturb the invariant.\<close>

lemma area_used_disjoint: "packed M \<Longrightarrow> M b = Some n \<Longrightarrow> b \<notin> S \<Longrightarrow> region b n \<inter> area M S = {}"
  using packed_disjoint by (fastforce elim!: areaE)

lemma slob_ok_kept:
  assumes ok: "slob_ok A M S H s" and k: "kept X s s'" "X \<inter> area M S = {}"
    and e: "env s' = env s" "slobfree s' = slobfree s"
  shows "slob_ok A M S H s'"
proof -
  note o = slob_okD [OF ok]
  have w: "word_at p s' = word_at p s \<and> word_at (p + 4) s' = word_at (p + 4) s" if "p \<in> S" for p
  proof -
    have "p \<in> dom M" using that o(2) by blast
    then obtain n where n: "M p = Some n" by blast
    have "unat p \<in> area M S" "unat (p + 4) \<in> area M S"
      using header_words [of p n] packedD [OF o(1) n] areaI [of M p n _ S] n that by blast+
    then show ?thesis using kept_word [OF k(1)] k(2) by blast
  qed
  have "flist M S (\<lambda>p. slob_next p s') s'"
    using o(8) w cyclic_cong [OF o(3), of "\<lambda>p. slob_next p s'"] by (auto simp: flist_def units_def slob_next_def)
  then show ?thesis using ok e by (auto simp: slob_ok_def env_def)
qed

lemma slob_free_ok:
  assumes ok: "slob_ok A M S H s" and b: "M b = Some n" "b \<notin> S"
    and u: "if sz = 0 then units b s = int n else SLOB_UNITS sz = int n"
  shows "\<exists>M' S' s'. slob_free b sz s = Some s' \<and> slob_ok A M' S' H s' \<and> used_blocks M' S' = used_blocks M S - {(b, n)} \<and>
    (\<exists>p\<in>S'. \<exists>k\<ge>n. M' p = Some k) \<and> kept (area M S \<union> region b n) s s' \<and> env s' = env s"
proof (cases "sz = 0")
  case True
  then show ?thesis using reinsert_ok [OF ok b] u by simp
next
  case False
  let ?s = "set_units b (SLOB_UNITS sz) s"
  note o = slob_okD [OF ok]
  have k: "kept (region b n) s ?s" by (rule kept_sets(1) [OF o(1) b(1)]) simp
  have "slob_ok A M S H ?s" by (rule slob_ok_kept [OF ok k area_used_disjoint [OF o(1) b]]) simp_all
  moreover have "units b ?s = int n"
    using u False packedD [OF o(1) b(1)] block_bounds(3) [OF ok b(1)] sint_small [of "int n"] by simp
  ultimately obtain M' S' s' where "slob_free b 0 ?s = Some s'" "slob_ok A M' S' H s'" "used_blocks M' S' = used_blocks M S - {(b, n)}"
      "\<exists>p\<in>S'. \<exists>k\<ge>n. M' p = Some k" "kept (area M S \<union> region b n) ?s s'" "env s' = env ?s"
    using reinsert_ok [of A M S H ?s b n] b by blast
  moreover have "slob_free b sz s = slob_free b 0 ?s" using False block_bounds(4) [OF ok b(1)] by (simp add: slob_free_def)
  moreover have "kept (area M S \<union> region b n) s ?s" using kept_mono [OF k] by simp
  ultimately show ?thesis using kept_trans by (intro exI [of _ M'] exI [of _ S'] exI [of _ s']) auto
qed

end
