(* ===== verification/Slob_Alloc.thy ===== *)
theory Slob_Alloc
  imports Slob_Inv
begin

text \<open>
  \<open>slob_alloc\<close> of \<open>kern/mm/kmalloc.c\<close> on a well-formed heap: one turn around the free list finds a block that is large
  enough, or a page is added to the list and a second turn finds one; only when no page is left does it give up.
\<close>

section \<open>Taking a block\<close>

lemma take_place:
  assumes fl: "flist M S f s" and p: "prev \<in> S" "f prev = cur" "prev \<noteq> cur" and M: "M cur = Some k"
    and rest: "cur < rest" "unat rest < unat cur + 8 * k"
  shows "place (f(prev := f cur)) rest prev"
proof -
  have pk: "packed M" and r: "cyclic S f" and sub: "S \<subseteq> dom M" using fl by (auto simp: flist_def)
  have cS: "cur \<in> S" using cyclic_closed [OF r p(1)] p(2) by simp
  have sp: "succ_in S prev cur" and sc: "succ_in S cur (f cur)" using cyclic_succ [OF r] p cS by auto
  have fS: "f cur \<in> S" using cyclic_closed [OF r cS] .
  have up: "rest < f cur" if "cur < f cur"
  proof -
    obtain j where "M (f cur) = Some j" using sub fS by auto
    then have "unat cur + 8 * k \<le> unat (f cur)" using packed_order [OF pk M _ that] by blast
    then show ?thesis using rest by (simp add: word_less_nat_alt)
  qed
  show ?thesis
  proof (cases "prev < cur")
    case True
    then have "prev < rest" using rest by simp
    moreover have "f cur \<le> prev" if "\<not> cur < f cur" using sc that p(1) by (auto simp: succ_in_def)
    ultimately show ?thesis using up by (auto simp: place_def)
  next
    case False
    then have all: "\<forall>z\<in>S. cur \<le> z \<and> z \<le> prev" using sp by (auto simp: succ_in_def)
    then have "cur < prev" using p(3) False by auto
    then have "cur < f cur" using sc p(1) by (fastforce simp: succ_in_def split: if_splits)
    then show ?thesis using up all fS by (auto simp: place_def)
  qed
qed

lemma take_front_ok:
  assumes ok: "slob_ok A M S H s" and p: "prev \<in> S" "slob_next prev s = cur" and M: "M cur = Some k" and n: "2 \<le> n" "n \<le> k"
  shows "\<exists>M' S'. slob_ok A M' S' H (take_front (int n) prev cur s) \<and> used_blocks M' S' = insert (cur, n) (used_blocks M S) \<and>
    kept (area M S) s (take_front (int n) prev cur s) \<and> env (take_front (int n) prev cur s) = env s \<and>
    units cur (take_front (int n) prev cur s) = int n"
proof -
  note o = slob_okD [OF ok]
  let ?f = "\<lambda>p. slob_next p s" and ?s' = "take_front (int n) prev cur s"
  have cA: "cur \<noteq> A" using M o(5) n by auto
  have cS: "cur \<in> S" using cyclic_closed [OF o(3) p(1)] p(2) by simp
  have pc: "prev \<noteq> cur"
  proof
    assume "prev = cur"
    then have "succ_in S cur cur" using cyclic_succ [OF o(3) p(1)] p(2) by simp
    then show False using o(4) cA by (auto simp: succ_in_def)
  qed
  have al: "\<And>q. q \<in> S \<Longrightarrow> aligned8 q" using flist_aligned [OF o(8)] .
  have uc: "units cur s = int k" "k < 2 ^ 28" using flist_units [OF o(8) cS M] block_bounds(3) [OF ok M] by auto
  obtain m where m: "M prev = Some m" using p(1) o(2) by auto
  have rc: "region cur k \<subseteq> area M S" "region prev m \<subseteq> area M S"
    using areaI [of M cur k _ S] areaI [of M prev m _ S] M m cS p(1) by blast+
  have pk: "packed M" by (rule o(1))
  have rr: "cyclic (S - {cur}) (?f(prev := ?f cur))" using cyclic_remove [OF o(3) p(1), of cur] p(2) pc by simp
  show ?thesis
  proof (cases "k = n")
    case True
    have eq: "?s' = (set_slob_next prev (?f cur) s)\<lparr>slobfree := prev\<rparr>"
      using uc True by (simp add: take_front_def)
    have "flist M (S - {cur}) (\<lambda>q. slob_next q ?s') ?s'"
      unfolding flist_def eq
    proof (intro conjI)
      show "cyclic (S - {cur}) (\<lambda>q. slob_next q ((set_slob_next prev (?f cur) s)\<lparr>slobfree := prev\<rparr>))"
        by (rule cyclic_cong [OF rr]) (use al p(1) in auto)
    qed (use pk o(2) al p(1) flist_units [OF o(8)] in auto)
    moreover have "neighbours M (S - {cur}) = {}" using o(7) by (auto simp: neighbours_def)
    moreover have "slobfree ?s' = prev" "env ?s' = env s" by (auto simp: eq)
    moreover have "kept (area M S) s ?s'" unfolding eq using kept_sets(2) [OF pk m rc(2)] by simp
    moreover have "units cur ?s' = int n" unfolding eq using al cS p(1) uc True by simp
    ultimately show ?thesis
      using ok o cA p(1) pc M True by (intro exI [of _ M] exI [of _ "S - {cur}"]) (auto simp: slob_ok_def used_blocks_def env_def)
  next
    case False
    obtain j where j: "k = n + j" "0 < j" using False n by (metis le_neq_implies_less less_imp_add_positive)
    define rest where "rest = slob_plus cur (int n)"
    have b: "aligned8 cur" "unat cur + 8 * k < 2 ^ 32" using packedD [OF pk M] by auto
    have ur: "unat rest = unat cur + 8 * n"
      unfolding rest_def using b(2) j by (subst unat_slob_plus) auto
    have n0: "0 < n" using n by simp
    note sp = split_block [OF pk M [unfolded j(1)] n0 j(2) ur]
    let ?M = "M(cur \<mapsto> n, rest \<mapsto> j)" and ?S = "insert rest (S - {cur})"
    have ar: "aligned8 rest" using aligned8_plus [OF b(1) ur] .
    have rS: "rest \<notin> S" using sp(2) o(2) by auto
    have "cur < rest" "unat rest < unat cur + 8 * k" using ur n0 j by (auto simp: word_less_nat_alt)
    then have pl: "place (?f(prev := ?f cur)) rest prev" using take_place [OF o(8) p pc M] by blast
    have rn: "cyclic ?S ((?f(prev := ?f cur))(rest := ?f cur, prev := rest))"
      using cyclic_insert [OF rr _ _ pl] p(1) pc rS by simp
    have eq: "?s' = (set_units cur (int n) (set_slob_next rest (?f cur) (set_units rest (int j) (set_slob_next prev rest s))))\<lparr>slobfree := prev\<rparr>"
      using uc j al p(1) cS ar pc sp(3) by (simp add: take_front_def rest_def [symmetric] Let_def)
    have sm: "sint (word_of_nat n :: u32) = int n" "sint (word_of_nat j :: u32) = int j"
      using sint_small [of "int n"] sint_small [of "int j"] uc(2) j by auto
    have "flist ?M ?S (\<lambda>q. slob_next q ?s') ?s'"
      unfolding flist_def
    proof (intro conjI)
      show "cyclic ?S (\<lambda>q. slob_next q ?s')"
        unfolding eq by (rule cyclic_cong [OF rn]) (use al p(1) ar cS rS in auto)
      show "\<forall>q\<in>?S. \<forall>i. ?M q = Some i \<longrightarrow> i < 2 ^ 29 \<and> units q ?s' = int i"
        unfolding eq using al p(1) ar cS sm sp(3) flist_units [OF o(8)] uc(2) j by auto
    qed (use sp o(2) in auto)
    moreover have "neighbours ?M ?S = {}"
    proof -
      have False if nb: "(q, t) \<in> neighbours ?M ?S" for q t
      proof -
        from nb have q: "q \<in> ?S" "t \<in> ?S" and i: "\<exists>i. ?M q = Some i \<and> unat q + 8 * i = unat t" by (auto simp: neighbours_def)
        show False
        proof (cases "q = rest")
          case True
          then have e: "unat cur + 8 * k = unat t" using i ur j by auto
          then have "t \<noteq> rest" using ur j by auto
          then have "(cur, t) \<in> neighbours M S" using e q M cS by (auto simp: neighbours_def)
          then show False using o(7) by simp
        next
          case False
          then have qS: "q \<in> S" "q \<noteq> cur" using q by auto
          with i False obtain i where i: "M q = Some i" "unat q + 8 * i = unat t" by auto
          have "t = rest" using q(2) i qS o(7) by (auto simp: neighbours_def)
          then have "unat rest - 1 \<in> region q i" "unat rest - 1 \<in> region cur k"
            using i ur packedD [OF pk i(1)] n0 j by (auto simp: region_def)
          then show False using packed_disjoint [OF pk i(1) M qS(2)] by blast
        qed
      qed
      then show ?thesis by auto
    qed
    moreover have "area ?M UNIV = area M UNIV" using area_split [OF M [unfolded j(1)] sp(2-4)] .
    moreover have "slobfree ?s' = prev" "env ?s' = env s" by (auto simp: eq)
    moreover have "kept (area M S) s ?s'"
    proof -
      have "region rest j \<subseteq> area M S" "region cur n \<subseteq> area M S" using sp(4) rc(1) j by auto
      then show ?thesis unfolding eq
        using kept_more [OF sp(1), of rest j "area M S"] kept_more [OF sp(1), of cur n "area M S"] sp(3)
          kept_sets(2) [OF pk m rc(2)] by simp
    qed
    moreover have "units cur ?s' = int n" unfolding eq using al cS ar sm sp(3) by simp
    moreover have "used_blocks ?M ?S = insert (cur, n) (used_blocks M S)"
      using sp(2,3) cS by (auto simp: used_blocks_def split: if_splits)
    moreover have "?M A = Some 1" "A \<in> ?S" "prev \<in> ?S" using o(4,5) cA sp(2) p(1) pc by auto
    ultimately show ?thesis
      using o(9,10) by (intro exI [of _ ?M] exI [of _ ?S]) (auto simp: slob_ok_def env_def)
  qed
qed

section \<open>The search\<close>

text \<open>What the loop does when it is back at its start without a large enough block.\<close>

definition slob_grow :: "u32 \<Rightarrow> int \<Rightarrow> slob_heap \<Rightarrow> (u32 \<times> slob_heap) option" where
  "slob_grow sz n s = (if sz = PGSIZE then Some (0, s) else do {
     (page, s) \<leftarrow> slob_get_free_pages 0 s;
     if page = 0 then Some (0, s)
     else do { s \<leftarrow> slob_free page PGSIZE s; slob_search sz n 0 (slobfree s) (slob_next (slobfree s) s) s }
   })"

lemma slob_search_step:
  "slob_search sz n 0 prev cur s =
     (if n \<le> units cur s then Some (cur, take_front n prev cur s)
      else if cur = slobfree s then slob_grow sz n s else slob_search sz n 0 cur (slob_next cur s) s)"
  by (subst slob_search.simps) (simp add: take_block_def slob_grow_def)

lemma slob_search_walk:
  fixes s :: slob_heap
  defines "f \<equiv> (\<lambda>p. slob_next p s)"
  assumes "f prev = cur" "(f ^^ k) cur = slobfree s" "\<And>i. i < k \<Longrightarrow> (f ^^ i) cur \<noteq> slobfree s"
  shows "(\<exists>i. slob_search sz n 0 prev cur s = Some ((f ^^ Suc i) prev, take_front n ((f ^^ i) prev) ((f ^^ Suc i) prev) s) \<and>
      n \<le> units ((f ^^ Suc i) prev) s) \<or>
    (slob_search sz n 0 prev cur s = slob_grow sz n s \<and> (\<forall>i\<le>k. units ((f ^^ i) cur) s < n))"
  using assms(2-)
proof (induction k arbitrary: prev cur)
  case 0
  then show ?case using slob_search_step [of sz n prev cur s]
    by (cases "n \<le> units cur s") (auto intro: exI [of _ 0])
next
  case (Suc k)
  show ?case
  proof (cases "n \<le> units cur s")
    case True
    then show ?thesis using slob_search_step [of sz n prev cur s] Suc.prems(1) by (intro disjI1 exI [of _ 0]) simp
  next
    case False
    have ne: "cur \<noteq> slobfree s" using Suc.prems(3) [of 0] by simp
    have st: "slob_search sz n 0 prev cur s = slob_search sz n 0 cur (f cur) s"
      using slob_search_step [of sz n prev cur s] False ne by (simp add: f_def)
    have sh: "(f ^^ i) (f x) = (f ^^ Suc i) x" for i x by (simp only: funpow_Suc_right comp_apply)
    consider i where "slob_search sz n 0 cur (f cur) s = Some ((f ^^ Suc i) cur, take_front n ((f ^^ i) cur) ((f ^^ Suc i) cur) s)"
        "n \<le> units ((f ^^ Suc i) cur) s"
      | "slob_search sz n 0 cur (f cur) s = slob_grow sz n s" "\<forall>i\<le>k. units ((f ^^ i) (f cur)) s < n"
      using Suc.IH [of cur "f cur"] Suc.prems(2,3) sh by (metis Suc_less_eq)
    then show ?thesis
    proof cases
      case (1 i)
      then show ?thesis using st Suc.prems(1) sh by (intro disjI1 exI [of _ "Suc i"]) metis
    next
      case 2
      have "\<forall>i\<le>Suc k. units ((f ^^ i) cur) s < n"
      proof (intro allI impI)
        fix i
        assume "i \<le> Suc k"
        then show "units ((f ^^ i) cur) s < n" using False 2(2) sh by (cases i) auto
      qed
      then show ?thesis using st 2(1) by simp
    qed
  qed
qed

lemma slob_search_turn:
  assumes ok: "slob_ok A M S H s" and n: "2 \<le> n"
  shows "(\<exists>p M' S' s'. slob_search sz (int n) 0 (slobfree s) (slob_next (slobfree s) s) s = Some (p, s') \<and> slob_ok A M' S' H s' \<and>
      p \<in> S \<and> used_blocks M' S' = insert (p, n) (used_blocks M S) \<and> kept (area M S) s s' \<and> env s' = env s \<and> units p s' = int n) \<or>
    (slob_search sz (int n) 0 (slobfree s) (slob_next (slobfree s) s) s = slob_grow sz (int n) s \<and>
      (\<forall>p\<in>S. \<forall>k. M p = Some k \<longrightarrow> k < n))"
proof -
  note o = slob_okD [OF ok]
  let ?f = "\<lambda>p. slob_next p s" and ?a = "slobfree s"
  obtain m where m: "turn ?f ?a m" "\<forall>c\<in>S. \<exists>k\<le>m. (?f ^^ k) (?f ?a) = c" using cyclic_turn [OF o(3,6)] by blast
  have w: "(\<exists>i. slob_search sz (int n) 0 ?a (?f ?a) s = Some ((?f ^^ Suc i) ?a, take_front (int n) ((?f ^^ i) ?a) ((?f ^^ Suc i) ?a) s) \<and>
      int n \<le> units ((?f ^^ Suc i) ?a) s) \<or>
    (slob_search sz (int n) 0 ?a (?f ?a) s = slob_grow sz (int n) s \<and> (\<forall>i\<le>m. units ((?f ^^ i) (?f ?a)) s < int n))"
    by (rule slob_search_walk) (use m(1) in \<open>auto simp: turn_def\<close>)
  then show ?thesis
  proof
    assume "\<exists>i. slob_search sz (int n) 0 ?a (?f ?a) s = Some ((?f ^^ Suc i) ?a, take_front (int n) ((?f ^^ i) ?a) ((?f ^^ Suc i) ?a) s) \<and>
      int n \<le> units ((?f ^^ Suc i) ?a) s"
    then obtain i where i: "slob_search sz (int n) 0 ?a (?f ?a) s = Some ((?f ^^ Suc i) ?a, take_front (int n) ((?f ^^ i) ?a) ((?f ^^ Suc i) ?a) s)"
      "int n \<le> units ((?f ^^ Suc i) ?a) s" by blast
    let ?p = "(?f ^^ i) ?a" and ?c = "(?f ^^ Suc i) ?a"
    have pS: "?p \<in> S" "?c \<in> S" using cyclic_closed_iter [OF o(3,6)] by blast+
    obtain k where k: "M ?c = Some k" using pS(2) o(2) by blast
    have "n \<le> k" using flist_units [OF o(8) pS(2) k] i(2) by simp
    with take_front_ok [OF ok pS(1) _ k n] obtain M' S' where
      t: "slob_ok A M' S' H (take_front (int n) ?p ?c s)" "used_blocks M' S' = insert (?c, n) (used_blocks M S)"
        "kept (area M S) s (take_front (int n) ?p ?c s)" "env (take_front (int n) ?p ?c s) = env s"
        "units ?c (take_front (int n) ?p ?c s) = int n" by auto
    show ?thesis using t i(1) pS(2) by blast
  next
    assume g: "slob_search sz (int n) 0 ?a (?f ?a) s = slob_grow sz (int n) s \<and> (\<forall>i\<le>m. units ((?f ^^ i) (?f ?a)) s < int n)"
    have "k < n" if p: "p \<in> S" "M p = Some k" for p k
    proof -
      obtain i where "i \<le> m" "(?f ^^ i) (?f ?a) = p" using m(2) p(1) by blast
      then have "units p s < int n" using g by blast
      then show ?thesis using flist_units [OF o(8) p] by simp
    qed
    then show ?thesis using g by blast
  qed
qed

section \<open>Pages for the heap\<close>

abbreviation free_pgs :: "slob_heap \<Rightarrow> nat set" where
  "free_pgs s \<equiv> free_page_set (pm (vm s))"

abbreviation managed_pgs :: "slob_heap \<Rightarrow> nat set" where
  "managed_pgs s \<equiv> managed (npage (vm s)) (pm (vm s))"

text \<open>The state after the page allocator has changed its part of it.\<close>

definition with_pm :: "slob_heap \<Rightarrow> pmm \<Rightarrow> slob_heap" where
  "with_pm s p = s\<lparr>vm := (vm s)\<lparr>pm := p\<rparr>\<rparr>"

lemma with_pm_simps [simp]:
  "pm (vm (with_pm s p)) = p" "npage (vm (with_pm s p)) = npage (vm s)" "swap_init_ok (vm (with_pm s p)) = swap_init_ok (vm s)"
  "slobfree (with_pm s p) = slobfree s" "bigblocks (with_pm s p) = bigblocks s" "word_at a (with_pm s p) = word_at a s"
  "units a (with_pm s p) = units a s" "slob_next a (with_pm s p) = slob_next a s"
  by (simp_all add: with_pm_def word_at_def units_def slob_next_def)

lemma with_pm_same [simp]: "with_pm s (pm (vm s)) = s"
  by (simp add: with_pm_def)

lemma no_free_pages:
  assumes "pmm_inv np p" "first_fit p 1 None" shows "free_page_set p = {}"
proof -
  have "free_list p = []"
    using assms by (cases "free_list p") (auto simp: first_fit_def pmm_inv_def blocks_ok_def)
  then show ?thesis by (simp add: free_page_set_def)
qed

lemma unat_slot_page: "q < 2048 \<Longrightarrow> unat (slot q 0) = 2 ^ 31 + 4096 * q"
  by (simp add: unat_slot)

lemma slob_get_free_pages_ok:
  assumes np: "npage (vm s) \<le> 2048" and inv: "pmm_inv (npage (vm s)) (pm (vm s))"
    and sw: "\<not> swap_init_ok (vm s) \<or> 0 < order \<or> free_pgs s \<noteq> {}"
  shows "\<exists>r p'. slob_get_free_pages order s = Some (r, with_pm s p') \<and> pmm_inv (npage (vm s)) p' \<and>
    managed (npage (vm s)) p' = managed_pgs s \<and>
    (r = 0 \<and> p' = pm (vm s) \<and> (order = 0 \<longrightarrow> free_pgs s = {}) \<or>
     (\<exists>q. r = slot q 0 \<and> q < 2048 \<and> {q ..< q + 2 ^ order} \<subseteq> free_pgs s \<and> free_page_set p' = free_pgs s - {q ..< q + 2 ^ order}))"
proof -
  have pos: "0 < (2 :: nat) ^ order" by simp
  obtain r p' where a: "default_alloc_pages (2 ^ order) (pm (vm s)) = Some (r, p')" "pmm_inv (npage (vm s)) p'"
      "first_fit (pm (vm s)) (2 ^ order) r" "managed (npage (vm s)) p' = managed_pgs s"
      "case r of None \<Rightarrow> p' = pm (vm s)
       | Some q \<Rightarrow> {q ..< q + 2 ^ order} \<subseteq> free_pgs s \<and> free_page_set p' = free_pgs s - {q ..< q + 2 ^ order}"
    using default_alloc_pages_ok [OF inv pos] by blast
  show ?thesis
  proof (cases r)
    case None
    have e: "order = 0 \<Longrightarrow> free_pgs s = {}" using no_free_pages [OF inv] a(3) None by simp
    moreover have "0 < order \<Longrightarrow> (1 :: nat) < 2 ^ order" by (rule one_less_power) simp_all
    ultimately have "(1 :: nat) < 2 ^ order \<or> \<not> swap_init_ok (vm s)" using sw by blast
    then have "slob_get_free_pages order s = Some (0, with_pm s p')"
      using a(1) None by (auto simp: slob_get_free_pages_def alloc_pages_def with_pm_def)
    then show ?thesis using a None e by (intro exI [of _ "0 :: u32"] exI [of _ p']) auto
  next
    case (Some q)
    have "q \<in> free_pgs s" using a(5) Some by auto
    then have q: "q < npage (vm s)" using inv by (auto simp: pmm_inv_def managed_def)
    then have "slob_get_free_pages order s = Some (slot q 0, with_pm s p')"
      using a(1) Some np by (simp add: slob_get_free_pages_def alloc_pages_def with_pm_def page2kva_def KADDR_page)
    moreover have "{q ..< q + 2 ^ order} \<subseteq> free_pgs s \<and> free_page_set p' = free_pgs s - {q ..< q + 2 ^ order}"
      using a(5) Some by simp
    moreover have "q < 2048" using q np by simp
    ultimately show ?thesis using a(2,4) by blast
  qed
qed

text \<open>\<open>grown H H' s s'\<close>: between the two states the heap took the pages of \<open>H' - H\<close>.\<close>

definition grown :: "nat set \<Rightarrow> nat set \<Rightarrow> slob_heap \<Rightarrow> slob_heap \<Rightarrow> bool" where
  "grown H H' s s' \<longleftrightarrow> H \<subseteq> H' \<and> H' - H \<subseteq> free_pgs s \<and> free_pgs s' = free_pgs s - (H' - H) \<and> managed_pgs s' = managed_pgs s \<and>
     npage (vm s') = npage (vm s) \<and> swap_init_ok (vm s') = swap_init_ok (vm s) \<and> bigblocks s' = bigblocks s"

lemma grown_env: "env s' = env s \<Longrightarrow> grown H H s s'"
  by (simp add: grown_def env_def)

lemma grown_env_trans: "grown H H' s s1 \<Longrightarrow> env s' = env s1 \<Longrightarrow> grown H H' s s'"
  by (auto simp: grown_def env_def)

lemma slob_ok_new_page:
  assumes ok: "slob_ok A M S H s" and q: "q < 2048" "q \<in> free_pgs s"
    and p: "pmm_inv (npage (vm s)) p'" "managed (npage (vm s)) p' = managed_pgs s" "free_page_set p' = free_pgs s - {q}"
  shows "slob_ok A (M(slot q 0 \<mapsto> 512)) S (insert q H) (with_pm s p')" and "M (slot q 0) = None"
    and "region (slot q 0) 512 = page_region q"
proof -
  note o = slob_okD [OF ok]
  have u: "unat (slot q 0) = 2 ^ 31 + 4096 * q" using unat_slot_page [OF q(1)] .
  show reg: "region (slot q 0) 512 = page_region q" by (simp add: region_def page_region_def u)
  have al: "aligned8 (slot q 0)" using u by (simp add: aligned8_def dvd_add dvd_mult2)
  have qm: "q \<in> managed_pgs s" using o(10) q(2) by (auto simp: pages_ok_def pmm_inv_def)
  have hq: "q \<notin> H" using o(10) q(2) by (auto simp: pages_ok_def)
  have dis: "area M UNIV \<inter> region (slot q 0) 512 = {}"
  proof -
    have "t = q" if "x \<in> page_region t" "x \<in> page_region q" for x t
      using that unfolding page_region_def atLeastLessThan_iff by linarith
    moreover have "region A 1 \<inter> page_region q = {}" using o(10) qm by (auto simp: pages_ok_def region_def page_region_def)
    ultimately show ?thesis unfolding reg o(9) heap_area_def using hq by blast
  qed
  have n: "unat (slot q 0) + 8 * 512 < 2 ^ 32" using u q(1) by simp
  note ab = add_block [OF o(1) al _ n dis, simplified]
  show none: "M (slot q 0) = None" using ab(2) .
  have notS: "slot q 0 \<notin> S" using none o(2) by auto
  have "flist (M(slot q 0 \<mapsto> 512)) S (\<lambda>p. slob_next p (with_pm s p')) (with_pm s p')"
    using o(8) ab(1) notS unfolding flist_def by auto
  moreover have "neighbours (M(slot q 0 \<mapsto> 512)) S = {}" using o(7) notS by (auto simp: neighbours_def)
  moreover have "area (M(slot q 0 \<mapsto> 512)) UNIV = heap_area A (insert q H)"
  proof -
    have "area (M(slot q 0 \<mapsto> 512)) UNIV = area M UNIV \<union> region (slot q 0) 512"
      using none by (rule area_add)
    then show ?thesis using o(9) reg by (auto simp: heap_area_def)
  qed
  moreover have "pages_ok A (insert q H) p' (npage (vm s))"
    using o(10) p q(2) qm by (auto simp: pages_ok_def)
  ultimately show "slob_ok A (M(slot q 0 \<mapsto> 512)) S (insert q H) (with_pm s p')"
    using o(4-6) notS unfolding slob_ok_def by auto
qed

text \<open>The result of an allocation of \<open>n\<close> units.\<close>

definition allocated :: "u32 \<Rightarrow> blocks \<Rightarrow> u32 set \<Rightarrow> nat set \<Rightarrow> nat \<Rightarrow> slob_heap \<Rightarrow> u32 \<Rightarrow> slob_heap \<Rightarrow>
    blocks \<Rightarrow> u32 set \<Rightarrow> nat set \<Rightarrow> bool" where
  "allocated A M S H n s p s' M' S' H' \<longleftrightarrow> slob_ok A M' S' H' s' \<and> grown H H' s s' \<and> (\<exists>q. H' \<subseteq> insert q H) \<and>
     kept (area M S \<union> (\<Union>q\<in>H' - H. page_region q)) s s' \<and>
     (if p = 0 then used_blocks M' S' = used_blocks M S \<and> free_pgs s = {}
      else used_blocks M' S' = insert (p, n) (used_blocks M S) \<and> (\<forall>k. (p, k) \<notin> used_blocks M S) \<and> units p s' = int n)"

lemma allocatedI:
  assumes "slob_ok A M S H s" "slob_ok A M' S' H s'" "p \<in> S" "used_blocks M' S' = insert (p, n) (used_blocks M S)"
    "kept (area M S) s s'" "env s' = env s" "units p s' = int n"
  shows "allocated A M S H n s p s' M' S' H" "p \<noteq> 0"
proof -
  show "p \<noteq> 0" using block_bounds(4) [OF assms(1)] slob_okD(2) [OF assms(1)] assms(3) by blast
  then show "allocated A M S H n s p s' M' S' H"
    using assms grown_env [OF assms(6)] unfolding allocated_def by (auto simp: used_blocks_def)
qed

lemma slob_search_found:
  assumes ok: "slob_ok A M S H s" and n: "2 \<le> n" and fit: "\<exists>p\<in>S. \<exists>k\<ge>n. M p = Some k"
  shows "\<exists>p M' S' s'. slob_search sz (int n) 0 (slobfree s) (slob_next (slobfree s) s) s = Some (p, s') \<and>
    allocated A M S H n s p s' M' S' H \<and> p \<noteq> 0"
proof -
  from slob_search_turn [OF ok n, of sz] fit obtain p M' S' s' where
    r: "slob_search sz (int n) 0 (slobfree s) (slob_next (slobfree s) s) s = Some (p, s')" "slob_ok A M' S' H s'" "p \<in> S"
      "used_blocks M' S' = insert (p, n) (used_blocks M S)" "kept (area M S) s s'" "env s' = env s" "units p s' = int n"
    by (meson leD)
  then show ?thesis using allocatedI [OF ok r(2-)] by blast
qed

lemma slob_grow_ok:
  assumes ok: "slob_ok A M S H s" and n: "2 \<le> n" "n \<le> 512" and sz: "sz \<noteq> PGSIZE"
    and sw: "\<not> swap_init_ok (vm s) \<or> free_pgs s \<noteq> {}"
  shows "\<exists>p M' S' H' s'. slob_grow sz (int n) s = Some (p, s') \<and> allocated A M S H n s p s' M' S' H'"
proof -
  note o = slob_okD [OF ok]
  have np: "npage (vm s) \<le> 2048" and inv: "pmm_inv (npage (vm s)) (pm (vm s))" using o(10) by (auto simp: pages_ok_def)
  obtain r p' where g: "slob_get_free_pages 0 s = Some (r, with_pm s p')" "pmm_inv (npage (vm s)) p'"
      "managed (npage (vm s)) p' = managed_pgs s"
      "r = 0 \<and> p' = pm (vm s) \<and> free_pgs s = {} \<or>
       (\<exists>q. r = slot q 0 \<and> q < 2048 \<and> q \<in> free_pgs s \<and> free_page_set p' = free_pgs s - {q})"
    using slob_get_free_pages_ok [OF np inv, of 0] sw by auto
  from g(4) show ?thesis
  proof
    assume z: "r = 0 \<and> p' = pm (vm s) \<and> free_pgs s = {}"
    then have "slob_grow sz (int n) s = Some (0, s)" using g(1) sz by (simp add: slob_grow_def)
    moreover have "allocated A M S H n s 0 s M S H" using z ok grown_env [of s s] by (auto simp: allocated_def)
    ultimately show ?thesis by blast
  next
    assume "\<exists>q. r = slot q 0 \<and> q < 2048 \<and> q \<in> free_pgs s \<and> free_page_set p' = free_pgs s - {q}"
    then obtain q where q: "r = slot q 0" "q < 2048" "q \<in> free_pgs s" "free_page_set p' = free_pgs s - {q}" by blast
    let ?M = "M(r \<mapsto> 512)" and ?H = "insert q H" and ?s = "with_pm s p'"
    note np = slob_ok_new_page [OF ok q(2,3) g(2,3) q(4), folded q(1)]
    have r0: "r \<noteq> 0" using block_bounds(4) [OF np(1), of r 512] by simp
    have rS: "r \<notin> S" using np(2) o(2) by auto
    have un: "SLOB_UNITS PGSIZE = int 512" by (simp add: SLOB_UNITS_def SLOB_UNIT_def PGSIZE_def)
    have hq: "q \<notin> H" using o(10) q(3) by (auto simp: pages_ok_def)
    have "if PGSIZE = 0 then units r ?s = int 512 else SLOB_UNITS PGSIZE = int 512" using un by (simp add: PGSIZE_def)
    from slob_free_ok [OF np(1) fun_upd_same rS this] obtain M1 S1 s1 where
      f: "slob_free r PGSIZE ?s = Some s1" "slob_ok A M1 S1 ?H s1" "used_blocks M1 S1 = used_blocks ?M S - {(r, 512)}"
        "\<exists>p\<in>S1. \<exists>k\<ge>512. M1 p = Some k" "kept (area ?M S \<union> region r 512) ?s s1" "env s1 = env ?s" by blast
    have u1: "used_blocks M1 S1 = used_blocks M S" using f(3) np(2) rS by (auto simp: used_blocks_def split: if_splits)
    have ar: "area ?M S = area M S" using rS by (auto simp: area_def)
    have "\<exists>p\<in>S1. \<exists>k\<ge>n. M1 p = Some k" using f(4) n(2) order_trans by blast
    from slob_search_found [OF f(2) n(1) this, of sz] obtain p M' S' s' where
      p: "slob_search sz (int n) 0 (slobfree s1) (slob_next (slobfree s1) s1) s1 = Some (p, s')"
        "allocated A M1 S1 ?H n s1 p s' M' S' ?H" "p \<noteq> 0" by blast
    have gr: "slob_grow sz (int n) s = Some (p, s')" using g(1) sz r0 f(1) p(1) by (simp add: slob_grow_def)
    have "grown H ?H s ?s" using q g(3) hq by (auto simp: grown_def)
    then have "grown H ?H s s1" using grown_env_trans [OF _ f(6)] by blast
    then have g2: "grown H ?H s s'" using p(2) by (auto simp: allocated_def grown_def)
    have a1: "area M1 S1 \<subseteq> area M S \<union> page_region q"
    proof
      fix x
      assume "x \<in> area M1 S1"
      then obtain t k where t: "t \<in> S1" "M1 t = Some k" "x \<in> region t k" by (elim areaE)
      have "x \<in> area M1 UNIV" using areaI [of M1 t k x UNIV] t by simp
      then have "x \<in> area ?M UNIV" using slob_okD(9) [OF f(2)] slob_okD(9) [OF np(1)] by simp
      then obtain v j where v: "?M v = Some j" "x \<in> region v j" by (elim areaE)
      show "x \<in> area M S \<union> page_region q"
      proof (cases "v \<in> S \<or> v = r")
        case True
        then show ?thesis using v np(3) rS areaI [of M v j x S] by (auto split: if_splits)
      next
        case False
        then have "(v, j) \<in> used_blocks M1 S1" using u1 v by (auto simp: used_blocks_def)
        then have "M1 v = Some j" "v \<noteq> t" using t by (auto simp: used_blocks_def)
        then show ?thesis using packed_disjoint [OF slob_okD(1) [OF f(2)] _ t(2)] v t(3) by blast
      qed
    qed
    have "kept (area M S \<union> page_region q) s s1" using f(5) ar np(3) by (simp add: kept_def)
    moreover have "kept (area M S \<union> page_region q) s1 s'" using p(2) a1 kept_mono [of "area M1 S1"] by (simp add: allocated_def)
    ultimately have kp: "kept (area M S \<union> page_region q) s s'" by (rule kept_trans)
    have "allocated A M S H n s p s' M' S' ?H"
      using p(2,3) g2 kp u1 hq by (auto simp: allocated_def insert_Diff_if)
    then show ?thesis using gr by blast
  qed
qed

lemma slob_alloc_ok:
  assumes ok: "slob_ok A M S H s" and sz: "unat sz + 8 < 4096" and n: "n = (unat sz + 7) div 8" "2 \<le> n"
    and sw: "\<not> swap_init_ok (vm s) \<or> free_pgs s \<noteq> {}"
  shows "\<exists>p M' S' H' s'. slob_alloc sz 0 s = Some (p, s') \<and> allocated A M S H n s p s' M' S' H'"
proof -
  have "unat (sz + SLOB_UNIT) = unat sz + 8" unfolding SLOB_UNIT_def using sz by (subst unat_add_no_wrap) auto
  then have as: "sz + SLOB_UNIT < PGSIZE" using sz by (simp add: word_less_nat_alt PGSIZE_def)
  have "unat (sz + SLOB_UNIT - 1) = unat sz + 7"
    unfolding SLOB_UNIT_def using sz by (subst unat_ROUNDUP_pre) auto
  then have "unat ((sz + SLOB_UNIT - 1) div SLOB_UNIT) = (unat sz + 7) div unat SLOB_UNIT"
    by (simp only: unat_div_distrib)
  then have "unat ((sz + SLOB_UNIT - 1) div SLOB_UNIT) = n" by (simp add: n(1) SLOB_UNIT_def)
  then have un: "SLOB_UNITS sz = int n" by (simp only: SLOB_UNITS_def uint_nat)
  have sp: "sz \<noteq> PGSIZE" using sz by (auto simp: PGSIZE_def)
  have n5: "n \<le> 512" using n(1) sz by simp
  have eq: "slob_alloc sz 0 s = slob_search sz (int n) 0 (slobfree s) (slob_next (slobfree s) s) s"
    using as un by (simp add: slob_alloc_def)
  show ?thesis
    using slob_search_turn [OF ok n(2), of sz]
  proof (elim disjE exE conjE)
    fix p M' S' s'
    assume "slob_search sz (int n) 0 (slobfree s) (slob_next (slobfree s) s) s = Some (p, s')" "slob_ok A M' S' H s'" "p \<in> S"
      "used_blocks M' S' = insert (p, n) (used_blocks M S)" "kept (area M S) s s'" "env s' = env s" "units p s' = int n"
    then show ?thesis using allocatedI(1) [OF ok] eq by metis
  next
    assume "slob_search sz (int n) 0 (slobfree s) (slob_next (slobfree s) s) s = slob_grow sz (int n) s"
    then show ?thesis using slob_grow_ok [OF ok n(2) n5 sp sw] eq by simp
  qed
qed

end
