(* ===== verification/Kmalloc_Safe.thy ===== *)
theory Kmalloc_Safe
  imports Slob_Alloc
begin

text \<open>
  \<open>kmalloc\<close>, \<open>kfree\<close> and \<open>ksize\<close> of \<open>kern/mm/kmalloc.c\<close> for a client: the invariant of the whole heap with its list
  of big blocks, the memory a client owns, and the theorem that any sequence of requests keeps the pieces of memory
  handed out apart and their contents intact.
\<close>

section \<open>The list of big blocks\<close>

text \<open>An entry is the address of the descriptor, the order and the first page.\<close>

type_synonym big = "u32 \<times> nat \<times> nat"

fun big_chain :: "slob_heap \<Rightarrow> u32 \<Rightarrow> big list \<Rightarrow> bool" where
  "big_chain s p [] = (p = 0)"
| "big_chain s p ((d, ord, q) # B) = (p = d \<and> d \<noteq> 0 \<and> bb_order d s = ord \<and> bb_pages d s = slot q 0 \<and> big_chain s (bb_next d s) B)"

lemma big_chain_cong:
  "big_chain s p B \<Longrightarrow> (\<And>d. d \<in> fst ` set B \<Longrightarrow> word_at d s' = word_at d s \<and> word_at (d + 4) s' = word_at (d + 4) s \<and>
     word_at (d + 8) s' = word_at (d + 8) s) \<Longrightarrow> big_chain s' p B"
  by (induction B arbitrary: p) (auto simp: bb_order_def bb_pages_def bb_next_def)

lemma find_big_none:
  "big_chain s p B \<Longrightarrow> (\<And>d ord q. (d, ord, q) \<in> set B \<Longrightarrow> slot q 0 \<noteq> r) \<Longrightarrow> \<exists>l'. find_big r l p s = Some (l', 0)"
proof (induction B arbitrary: p l)
  case Nil
  then show ?case by (subst find_big.simps) simp
next
  case (Cons x B)
  obtain d ord q where x: "x = (d, ord, q)" by (cases x)
  have "find_big r l p s = find_big r (p + 8) (bb_next p s) s"
    using Cons.prems x by (subst find_big.simps) force
  then show ?case using Cons.IH [of "bb_next p s" "p + 8"] Cons.prems x by auto
qed

lemma find_big_some:
  "big_chain s p (B1 @ (d, ord, q) # B2) \<Longrightarrow> (\<And>d' ord' q'. (d', ord', q') \<in> set B1 \<Longrightarrow> slot q' 0 \<noteq> slot q 0) \<Longrightarrow>
     find_big (slot q 0) l p s = Some (if B1 = [] then l else fst (last B1) + 8, d)"
proof (induction B1 arbitrary: p l)
  case Nil
  then show ?case by (subst find_big.simps) auto
next
  case (Cons x B1)
  obtain d' ord' q' where x: "x = (d', ord', q')" by (cases x)
  have "find_big (slot q 0) l p s = find_big (slot q 0) (p + 8) (bb_next p s) s"
    using Cons.prems x by (subst find_big.simps) force
  moreover have "find_big (slot q 0) (p + 8) (bb_next p s) s = Some (if B1 = [] then p + 8 else fst (last B1) + 8, d)"
    by (rule Cons.IH) (use Cons.prems x in auto)
  ultimately show ?case using Cons.prems(1) x by simp
qed

lemma big_chain_append:
  "big_chain s p (B1 @ B2) \<Longrightarrow> B1 \<noteq> [] \<Longrightarrow> big_chain s (bb_next (fst (last B1)) s) B2"
  by (induction B1 arbitrary: p) auto

lemma big_chain_relink:
  assumes "big_chain s p (B1 @ B2)" "B1 \<noteq> []" "big_chain s t B3" "distinct (map fst (B1 @ B3))"
    and ap: "\<And>d e. d \<in> fst ` set (B1 @ B3) \<Longrightarrow> e \<in> fst ` set (B1 @ B3) \<Longrightarrow> e + 8 \<noteq> d \<and> e + 8 \<noteq> d + 4 \<and> (e \<noteq> d \<longrightarrow> e + 8 \<noteq> d + 8)"
  shows "big_chain (put_word (fst (last B1) + 8) t s) p (B1 @ B3)"
  using assms
proof (induction B1 arbitrary: p)
  case (Cons x B1)
  obtain d ord q where x: "x = (d, ord, q)" by (cases x)
  let ?e = "fst (last (x # B1))" and ?s' = "put_word (fst (last (x # B1)) + 8) t s"
  have e: "?e \<in> fst ` set ((x # B1) @ B3)" using last_in_set [of "x # B1"] by auto
  have f: "word_at d ?s' = word_at d s" "word_at (d + 4) ?s' = word_at (d + 4) s"
    using Cons.prems(5) [of d ?e] e x by auto
  show ?case
  proof (cases "B1 = []")
    case True
    have "big_chain ?s' t B3"
    proof (rule big_chain_cong [OF Cons.prems(3)])
      fix b
      assume b: "b \<in> fst ` set B3"
      then have "b \<noteq> d" using Cons.prems(4) x by auto
      then show "word_at b ?s' = word_at b s \<and> word_at (b + 4) ?s' = word_at (b + 4) s \<and> word_at (b + 8) ?s' = word_at (b + 8) s"
        using Cons.prems(5) [of b d] b x True by auto
    qed
    then show ?thesis using Cons.prems(1) x True f by (simp add: bb_order_def bb_pages_def bb_next_def)
  next
    case False
    have "big_chain ?s' (bb_next d s) (B1 @ B3)"
      using Cons.IH [of "bb_next d s"] Cons.prems x False by auto
    moreover have "?e \<noteq> d" using Cons.prems(4) x False last_in_set [OF False] by auto
    then have "word_at (d + 8) ?s' = word_at (d + 8) s" using Cons.prems(5) [of d ?e] e x by auto
    ultimately show ?thesis using Cons.prems(1) x f by (simp add: bb_order_def bb_pages_def bb_next_def)
  qed
qed simp

section \<open>The memory of the clients\<close>

definition heap_ok :: "u32 \<Rightarrow> blocks \<Rightarrow> u32 set \<Rightarrow> nat set \<Rightarrow> big list \<Rightarrow> slob_heap \<Rightarrow> bool" where
  "heap_ok A M S H B s \<longleftrightarrow> slob_ok A M S H s \<and> big_chain s (bigblocks s) B \<and> distinct (map fst B) \<and>
     (\<forall>d\<in>fst ` set B. (d, 2) \<in> used_blocks M S) \<and>
     live_ok (managed_pgs s - free_pgs s - H) (map (\<lambda>(d, ord, q). (q, 2 ^ ord)) B) \<and>
     (\<forall>p n. (p, n) \<in> used_blocks M S \<and> p \<notin> fst ` set B \<longrightarrow> 2 \<le> n \<and> units p s = int n)"

text \<open>What clients own: address and number of bytes.\<close>

definition small_mem :: "blocks \<Rightarrow> u32 set \<Rightarrow> big list \<Rightarrow> (u32 \<times> nat) set" where
  "small_mem M S B = {(slob_plus p 1, 8 * (n - 1)) | p n. (p, n) \<in> used_blocks M S \<and> p \<notin> fst ` set B}"

definition big_mem :: "big list \<Rightarrow> (u32 \<times> nat) set" where
  "big_mem B = {(slot q 0, 4096 * 2 ^ ord) | d ord q. (d, ord, q) \<in> set B}"

definition owned :: "blocks \<Rightarrow> u32 set \<Rightarrow> big list \<Rightarrow> (u32 \<times> nat) set" where
  "owned M S B = small_mem M S B \<union> big_mem B"

definition span :: "u32 \<Rightarrow> nat \<Rightarrow> nat set" where
  "span r k = {unat r ..< unat r + k}"

lemma span_pages: "q + n \<le> 2048 \<Longrightarrow> 0 < n \<Longrightarrow> span (slot q 0) (4096 * n) = (\<Union>t\<in>{q ..< q + n}. page_region t)"
proof -
  assume a: "q + n \<le> 2048" "0 < n"
  have u: "unat (slot q 0) = 2 ^ 31 + 4096 * q" using a by (intro unat_slot_page) simp
  have "x \<in> span (slot q 0) (4096 * n) \<longleftrightarrow> (\<exists>t\<in>{q ..< q + n}. x \<in> page_region t)" for x
  proof
    assume x: "x \<in> span (slot q 0) (4096 * n)"
    have b: "2 ^ 31 + 4096 * q \<le> x" "x < 2 ^ 31 + 4096 * (q + n)" using x u by (auto simp: span_def)
    from b(1) obtain y where y: "x = 2 ^ 31 + y" by (metis le_add_same_cancel1 le_iff_add le_trans zero_le)
    define t where "t = y div 4096"
    have m: "4096 * t \<le> y" "y < 4096 * t + 4096"
      unfolding t_def using div_times_less_eq_dividend [of y 4096] dividend_less_div_times [of 4096 y] by linarith+
    have "x \<in> page_region t" unfolding page_region_def atLeastLessThan_iff y using m by linarith
    moreover have "q \<le> t" using b(1) [unfolded y] m by linarith
    moreover have "y < 4096 * q + 4096 * n" using b(2) y by (simp add: algebra_simps)
    then have "t < q + n" using m(1) by linarith
    ultimately have "x \<in> page_region t" "t \<in> {q ..< q + n}" by auto
    then show "\<exists>t\<in>{q ..< q + n}. x \<in> page_region t" by blast
  next
    assume "\<exists>t\<in>{q ..< q + n}. x \<in> page_region t"
    then obtain t where t: "q \<le> t" "t < q + n" "2 ^ 31 + 4096 * t \<le> x" "x < 2 ^ 31 + 4096 * t + 4096"
      by (auto simp: page_region_def)
    then show "x \<in> span (slot q 0) (4096 * n)" unfolding span_def atLeastLessThan_iff u by linarith
  qed
  then show ?thesis by blast
qed

lemma page_region_inj: "x \<in> page_region t \<Longrightarrow> x \<in> page_region q \<Longrightarrow> t = q"
  unfolding page_region_def atLeastLessThan_iff by linarith

lemma page_outside_heap:
  assumes "pages_ok A H p np" "t \<in> managed np p" "t \<notin> H" "x \<in> page_region t"
  shows "x \<notin> heap_area A H"
proof
  assume "x \<in> heap_area A H"
  then consider "x \<in> region A 1" | q where "q \<in> H" "x \<in> page_region q" by (auto simp: heap_area_def)
  then show False
  proof cases
    case 1
    have "unat A + 8 < 2 ^ 31 + 4096 * t" using assms(1,2) by (simp add: pages_ok_def)
    then show False using 1 assms(4) by (simp add: region_def page_region_def)
  next
    case 2
    then show False using assms(3,4) page_region_inj by blast
  qed
qed

lemma heap_okD:
  assumes "heap_ok A M S H B s"
  shows "slob_ok A M S H s" "big_chain s (bigblocks s) B" "distinct (map fst B)" "\<And>d. d \<in> fst ` set B \<Longrightarrow> (d, 2) \<in> used_blocks M S"
    "live_ok (managed_pgs s - free_pgs s - H) (map (\<lambda>(d, ord, q). (q, 2 ^ ord)) B)"
    "\<And>p n. (p, n) \<in> used_blocks M S \<Longrightarrow> p \<notin> fst ` set B \<Longrightarrow> 2 \<le> n \<and> units p s = int n"
  using assms by (auto simp: heap_ok_def)

lemma big_pages:
  assumes ok: "heap_ok A M S H B s" and b: "(d, ord, q) \<in> set B"
  shows "{q ..< q + 2 ^ ord} \<subseteq> managed_pgs s - free_pgs s - H" "q + 2 ^ ord \<le> 2048" "q < 2048"
    "span (slot q 0) (4096 * 2 ^ ord) = (\<Union>t\<in>{q ..< q + 2 ^ ord}. page_region t)"
proof -
  have pg: "pages_ok A H (pm (vm s)) (npage (vm s))" using slob_okD(10) [OF heap_okD(1) [OF ok]] .
  show sub: "{q ..< q + 2 ^ ord} \<subseteq> managed_pgs s - free_pgs s - H"
  proof -
    have "(q, 2 ^ ord) \<in> set (map (\<lambda>(d, ord, q). (q, 2 ^ ord)) B)" using b by force
    then have "block_of (q, 2 ^ ord) \<subseteq> managed_pgs s - free_pgs s - H" using heap_okD(5) [OF ok] unfolding live_ok_def by blast
    then show ?thesis by (simp add: block_of_def)
  qed
  have "q + (2 ^ ord - 1) \<in> {q ..< q + 2 ^ ord}" using zero_less_power [of "2 :: nat" ord] unfolding atLeastLessThan_iff by linarith
  then have "q + (2 ^ ord - 1) \<in> managed_pgs s" using sub by blast
  then have "q + (2 ^ ord - 1) < 2048" using pg by (auto simp: pages_ok_def managed_def)
  then show le: "q + 2 ^ ord \<le> 2048" by simp
  show "q < 2048" using le zero_less_power [of "2 :: nat" ord] by linarith
  show "span (slot q 0) (4096 * 2 ^ ord) = (\<Union>t\<in>{q ..< q + 2 ^ ord}. page_region t)" using span_pages [OF le] by simp
qed

lemma used_in_heap: "slob_ok A M S H s \<Longrightarrow> M p = Some n \<Longrightarrow> region p n \<subseteq> heap_area A H"
  using areaI [of M p n _ UNIV] slob_okD(9) by blast

lemma unat_payload:
  assumes "packed M" "M p = Some n"
  shows "unat (slob_plus p 1) = unat p + 8" "slob_plus (slob_plus p 1) (- 1) = p"
    "2 \<le> n \<Longrightarrow> span (slob_plus p 1) (8 * (n - 1)) \<subseteq> region p n"
proof -
  show u: "unat (slob_plus p 1) = unat p + 8" using packedD [OF assms] unat_slob_plus [of 1 p] by simp
  show "slob_plus (slob_plus p 1) (- 1) = p" by (simp add: slob_plus_def)
  show "2 \<le> n \<Longrightarrow> span (slob_plus p 1) (8 * (n - 1)) \<subseteq> region p n" by (auto simp: span_def region_def u)
qed

text \<open>Clients own memory outside the free blocks and outside the free pages.\<close>

lemma owned_outside:
  assumes ok: "heap_ok A M S H B s" and r: "(r, k) \<in> owned M S B" and N: "N \<subseteq> free_pgs s"
  shows "span r k \<inter> (area M S \<union> (\<Union>q\<in>N. page_region q)) = {}"
proof -
  note so = heap_okD(1) [OF ok]
  have pg: "pages_ok A H (pm (vm s)) (npage (vm s))" using slob_okD(10) [OF so] .
  have N2: "N \<subseteq> managed_pgs s" "N \<inter> H = {}" using pg N by (auto simp: pages_ok_def pmm_inv_def)
  from r consider (small) p n where "(p, n) \<in> used_blocks M S" "p \<notin> fst ` set B" "r = slob_plus p 1" "k = 8 * (n - 1)"
    | (big) d ord q where "(d, ord, q) \<in> set B" "r = slot q 0" "k = 4096 * 2 ^ ord"
    by (auto simp: owned_def small_mem_def big_mem_def)
  then show ?thesis
  proof cases
    case small
    have m: "M p = Some n" "p \<notin> S" using small(1) by (auto simp: used_blocks_def)
    have sub: "span r k \<subseteq> region p n"
      using unat_payload(3) [OF slob_okD(1) [OF so] m(1)] heap_okD(6) [OF ok small(1,2)] small(3,4) by simp
    moreover have "region p n \<inter> area M S = {}" using area_used_disjoint [OF slob_okD(1) [OF so] m] .
    moreover have "x \<notin> page_region t" if "t \<in> N" "x \<in> region p n" for t x
      using page_outside_heap [OF pg, of t x] that N2 used_in_heap [OF so m(1)] by blast
    ultimately show ?thesis by blast
  next
    case big
    note bp = big_pages [OF ok big(1)]
    have "x \<notin> area M S" if "t \<in> {q ..< q + 2 ^ ord}" "x \<in> page_region t" for t x
    proof -
      have "x \<notin> heap_area A H" using page_outside_heap [OF pg, of t x] bp(1) that by blast
      then show ?thesis using slob_okD(9) [OF so] by (auto simp: area_def)
    qed
    moreover have "x \<notin> page_region u" if "t \<in> {q ..< q + 2 ^ ord}" "x \<in> page_region t" "u \<in> N" for t u x
      using page_region_inj [of x t u] that bp(1) N by blast
    ultimately show ?thesis unfolding big(2,3) bp(4) by blast
  qed
qed

lemma used_outside:
  assumes so: "slob_ok A M S H s" and p: "(p, n) \<in> used_blocks M S" and N: "N \<subseteq> free_pgs s"
  shows "region p n \<inter> (area M S \<union> (\<Union>q\<in>N. page_region q)) = {}"
proof -
  have pg: "pages_ok A H (pm (vm s)) (npage (vm s))" using slob_okD(10) [OF so] .
  have N2: "N \<subseteq> managed_pgs s" "N \<inter> H = {}" using pg N by (auto simp: pages_ok_def pmm_inv_def)
  have m: "M p = Some n" "p \<notin> S" using p by (auto simp: used_blocks_def)
  have "x \<notin> page_region t" if "t \<in> N" "x \<in> region p n" for t x
    using page_outside_heap [OF pg, of t x] that N2 used_in_heap [OF so m(1)] by blast
  then show ?thesis using area_used_disjoint [OF slob_okD(1) [OF so] m] by blast
qed

lemma descriptor_words:
  assumes "packed M" "M d = Some 2"
  shows "unat d \<in> region d 2" "unat (d + 4) \<in> region d 2" "unat (d + 8) \<in> region d 2"
proof -
  have "unat (d + 8) = unat d + 8" "unat (d + 4) = unat d + 4"
    using packedD [OF assms] by (subst unat_add_no_wrap; auto)+
  then show "unat d \<in> region d 2" "unat (d + 4) \<in> region d 2" "unat (d + 8) \<in> region d 2" by (auto simp: region_def)
qed

text \<open>Where the blocks in use and their words are the same, so are the list of big blocks and the sizes.\<close>

lemma heap_ok_transfer:
  assumes ok: "heap_ok A M S H B s" and so: "slob_ok A M' S' H' s'" and big: "bigblocks s' = bigblocks s"
    and us: "\<And>d. d \<in> fst ` set B \<Longrightarrow> (d, 2) \<in> used_blocks M' S'" and new: "\<And>p n. (p, n) \<in> used_blocks M' S' - used_blocks M S \<Longrightarrow> 2 \<le> n \<and> units p s' = int n"
    and w: "\<And>p n x. (p, n) \<in> used_blocks M S \<Longrightarrow> (p, n) \<in> used_blocks M' S' \<Longrightarrow> unat x \<in> region p n \<Longrightarrow> word_at x s' = word_at x s"
    and busy: "managed_pgs s - free_pgs s - H \<subseteq> managed_pgs s' - free_pgs s' - H'"
  shows "heap_ok A M' S' H' B s'"
proof -
  note o = heap_okD [OF ok]
  have pk: "packed M" using slob_okD(1) [OF o(1)] .
  have "big_chain s' (bigblocks s') B"
    unfolding big
  proof (rule big_chain_cong [OF o(2)])
    fix d
    assume "d \<in> fst ` set B"
    then have d: "(d, 2) \<in> used_blocks M S" "(d, 2) \<in> used_blocks M' S'" using o(4) us by blast+
    then have "M d = Some 2" by (simp add: used_blocks_def)
    from descriptor_words [OF pk this] show "word_at d s' = word_at d s \<and> word_at (d + 4) s' = word_at (d + 4) s \<and> word_at (d + 8) s' = word_at (d + 8) s"
      using w [OF d] by blast
  qed
  moreover have "2 \<le> n \<and> units p s' = int n" if p: "(p, n) \<in> used_blocks M' S'" "p \<notin> fst ` set B" for p n
  proof (cases "(p, n) \<in> used_blocks M S")
    case True
    then have "M p = Some n" by (simp add: used_blocks_def)
    then have "unat p \<in> region p n" using packedD [OF pk] by (auto simp: region_def)
    then show ?thesis using w [OF True p(1)] o(6) [OF True p(2)] by (simp add: units_def)
  qed (use new p in blast)
  ultimately show ?thesis
    using so o(3,4) us live_ok_mono [OF o(5) busy] unfolding heap_ok_def by blast
qed

section \<open>kmalloc\<close>

definition intact :: "blocks \<Rightarrow> u32 set \<Rightarrow> big list \<Rightarrow> slob_heap \<Rightarrow> slob_heap \<Rightarrow> bool" where
  "intact M S B s s' \<longleftrightarrow> (\<forall>r k x. (r, k) \<in> owned M S B \<and> unat x \<in> span r k \<longrightarrow> word_at x s' = word_at x s)"

lemma allocated_region:
  assumes so: "slob_ok A M S H s" and al: "allocated A M S H n s p s' M' S' H'" and p: "p \<noteq> 0"
  shows "region p n \<subseteq> area M S \<union> (\<Union>q\<in>H' - H. page_region q)" "M' p = Some n" "H' - H \<subseteq> free_pgs s"
proof -
  have so': "slob_ok A M' S' H' s'" and us: "used_blocks M' S' = insert (p, n) (used_blocks M S)"
    and fresh: "\<And>k. (p, k) \<notin> used_blocks M S" using al p by (auto simp: allocated_def)
  have "(p, n) \<in> used_blocks M' S'" using us by simp
  then show m: "M' p = Some n" by (simp add: used_blocks_def)
  show "H' - H \<subseteq> free_pgs s" using al by (simp add: allocated_def grown_def)
  show "region p n \<subseteq> area M S \<union> (\<Union>q\<in>H' - H. page_region q)"
  proof
    fix x
    assume x: "x \<in> region p n"
    then have "x \<in> heap_area A H'" using used_in_heap [OF so' m] by blast
    then consider "x \<in> heap_area A H" | "x \<in> (\<Union>q\<in>H' - H. page_region q)" by (auto simp: heap_area_def)
    then show "x \<in> area M S \<union> (\<Union>q\<in>H' - H. page_region q)"
    proof cases
      case 1
      then obtain v j where v: "M v = Some j" "x \<in> region v j" using slob_okD(9) [OF so] by (metis areaE)
      show ?thesis
      proof (cases "v \<in> S")
        case True
        then show ?thesis using v areaI [of M v j x S] by blast
      next
        case False
        then have vu: "(v, j) \<in> used_blocks M S" using v by (simp add: used_blocks_def)
        then have "(v, j) \<in> used_blocks M' S'" "v \<noteq> p" using us fresh by blast+
        then have "M' v = Some j" by (simp add: used_blocks_def)
        then show ?thesis using packed_disjoint [OF slob_okD(1) [OF so'] _ m \<open>v \<noteq> p\<close>] v(2) x by blast
      qed
    qed simp
  qed
qed

lemma allocated_heap_ok:
  assumes ok: "heap_ok A M S H B s" and al: "allocated A M S H n s p s' M' S' H'" and n: "2 \<le> n"
  shows "heap_ok A M' S' H' B s'" "intact M S B s s'"
    "p \<noteq> 0 \<Longrightarrow> small_mem M' S' B = insert (slob_plus p 1, 8 * (n - 1)) (small_mem M S B)"
    "p = 0 \<Longrightarrow> small_mem M' S' B = small_mem M S B"
    "p \<noteq> 0 \<Longrightarrow> x \<in> region p n \<Longrightarrow> (r, k) \<in> owned M S B \<Longrightarrow> x \<notin> span r k"
proof -
  note so = heap_okD(1) [OF ok]
  have g: "grown H H' s s'" and kp: "kept (area M S \<union> (\<Union>q\<in>H' - H. page_region q)) s s'" and so': "slob_ok A M' S' H' s'"
    using al by (auto simp: allocated_def)
  have N: "H' - H \<subseteq> free_pgs s" using g by (simp add: grown_def)
  have us: "used_blocks M S \<subseteq> used_blocks M' S'" using al by (auto simp: allocated_def split: if_splits)
  show "heap_ok A M' S' H' B s'"
  proof (rule heap_ok_transfer [OF ok so'])
    show "(d, 2) \<in> used_blocks M' S'" if "d \<in> fst ` set B" for d using heap_okD(4) [OF ok that] us by blast
    show "bigblocks s' = bigblocks s" using g by (simp add: grown_def)
    show "2 \<le> k \<and> units q s' = int k" if "(q, k) \<in> used_blocks M' S' - used_blocks M S" for q k
      using that al n by (auto simp: allocated_def split: if_splits)
    show "word_at x s' = word_at x s" if "(q, k) \<in> used_blocks M S" "unat x \<in> region q k" for q k x
      using kept_word [OF kp] used_outside [OF so that(1) N] that(2) by blast
    show "managed_pgs s - free_pgs s - H \<subseteq> managed_pgs s' - free_pgs s' - H'" using g by (auto simp: grown_def)
  qed
  show "intact M S B s s'"
    unfolding intact_def using kept_word [OF kp] owned_outside [OF ok _ N] by blast
  show "p = 0 \<Longrightarrow> small_mem M' S' B = small_mem M S B" using al by (simp add: small_mem_def allocated_def)
  show "small_mem M' S' B = insert (slob_plus p 1, 8 * (n - 1)) (small_mem M S B)" if p: "p \<noteq> 0"
  proof -
    have "p \<notin> fst ` set B" using al p heap_okD(4) [OF ok] by (auto simp: allocated_def)
    then show ?thesis using al p by (auto simp: small_mem_def allocated_def)
  qed
  show "x \<notin> span r k" if "p \<noteq> 0" "x \<in> region p n" "(r, k) \<in> owned M S B"
    using owned_outside [OF ok that(3) N] allocated_region(1) [OF so al that(1)] that(2) by blast
qed

text \<open>The number of bytes behind a pointer that \<open>kmalloc sz\<close> returns.\<close>

definition capacity :: "u32 \<Rightarrow> nat" where
  "capacity sz = (if unat sz < 4088 then 8 * ((unat sz + 7) div 8) else 4096 * 2 ^ find_order (sint sz))"

definition kmalloc_result :: "u32 \<Rightarrow> slob_heap \<Rightarrow> blocks \<Rightarrow> u32 set \<Rightarrow> big list \<Rightarrow> u32 \<Rightarrow> slob_heap \<Rightarrow> (u32 \<times> nat) set \<Rightarrow> bool" where
  "kmalloc_result sz s M S B r s' O' \<longleftrightarrow> intact M S B s s' \<and>
     (if r = 0 then O' = owned M S B
      else O' = insert (r, capacity sz) (owned M S B) \<and> r \<notin> fst ` owned M S B \<and> aligned8 r)"

lemma kmalloc_small_ok:
  assumes ok: "heap_ok A M S H B s" and sz: "0 < unat sz" "unat sz < 4080" and sw: "\<not> swap_init_ok (vm s) \<or> free_pgs s \<noteq> {}"
  shows "\<exists>r M' S' H' s'. kmalloc sz s = Some (r, s') \<and> heap_ok A M' S' H' B s' \<and> kmalloc_result sz s M S B r s' (owned M' S' B) \<and>
    swap_init_ok (vm s') = swap_init_ok (vm s) \<and> (r = 0 \<longrightarrow> free_pgs s = {})"
proof -
  note so = heap_okD(1) [OF ok]
  define n where "n = (unat (sz + SLOB_UNIT) + 7) div 8"
  have u: "unat (sz + SLOB_UNIT) = unat sz + 8" unfolding SLOB_UNIT_def using sz by (subst unat_add_no_wrap) auto
  have n2: "2 \<le> n" and ns: "unat (sz + SLOB_UNIT) + 8 < 4096" and cap: "8 * (n - 1) = capacity sz"
    using sz u by (auto simp: n_def capacity_def)
  obtain p M' S' H' s' where a: "slob_alloc (sz + SLOB_UNIT) 0 s = Some (p, s')" "allocated A M S H n s p s' M' S' H'"
    using slob_alloc_ok [OF so ns n_def n2 sw] by blast
  note h = allocated_heap_ok [OF ok a(2) n2]
  have "sz < PGSIZE - SLOB_UNIT" using sz by (simp add: PGSIZE_def SLOB_UNIT_def word_less_nat_alt)
  then have k: "kmalloc sz s = Some (if p \<noteq> 0 then slob_plus p 1 else 0, s')" using a(1) by (simp add: kmalloc_def)
  have sw': "swap_init_ok (vm s') = swap_init_ok (vm s)" using a(2) by (simp add: allocated_def grown_def)
  show ?thesis
  proof (cases "p = 0")
    case True
    have "kmalloc_result sz s M S B 0 s' (owned M' S' B)" using h(2,4) True by (simp add: kmalloc_result_def owned_def)
    then show ?thesis using k h(1) sw' True a(2) by (intro exI [of _ "0 :: u32"] exI [of _ M'] exI [of _ S'] exI [of _ H'] exI [of _ s']) (simp add: allocated_def)
  next
    case False
    let ?r = "slob_plus p 1"
    have so': "slob_ok A M' S' H' s'" using heap_okD(1) [OF h(1)] .
    have m: "M' p = Some n" using allocated_region(2) [OF so a(2) False] .
    have ur: "unat ?r = unat p + 8" using unat_payload(1) [OF slob_okD(1) [OF so'] m] .
    have rin: "unat ?r \<in> region p n" using n2 ur by (auto simp: region_def)
    have r0: "?r \<noteq> 0" using ur by auto
    have al: "aligned8 ?r" using packedD [OF slob_okD(1) [OF so'] m] ur by (simp add: aligned8_def)
    have "?r \<notin> fst ` owned M S B"
    proof
      assume "?r \<in> fst ` owned M S B"
      then obtain k where k: "(?r, k) \<in> owned M S B" by auto
      then have "0 < k"
        using heap_okD(6) [OF ok] by (fastforce simp: owned_def small_mem_def big_mem_def)
      then show False using h(5) [OF False rin k] by (simp add: span_def)
    qed
    then have "kmalloc_result sz s M S B ?r s' (owned M' S' B)"
      using h(2,3) False r0 al cap by (auto simp: kmalloc_result_def owned_def)
    then show ?thesis using k h(1) sw' False r0 by (intro exI [of _ ?r] exI [of _ M'] exI [of _ S'] exI [of _ H'] exI [of _ s']) simp
  qed
qed

subsection \<open>Big blocks\<close>

lemma find_order_bounds:
  "0 < find_order n \<Longrightarrow> 4096 * 2 ^ (find_order n - 1) < n"
  "n < 4097 * 2 ^ find_order n"
proof (induction n rule: find_order.induct)
  case (1 n)
  have d: "drop_bit (Suc 0) n = n div 2" by (simp add: drop_bit_eq_div)
  show "0 < find_order n \<Longrightarrow> 4096 * 2 ^ (find_order n - 1) < n"
  proof -
    assume "0 < find_order n"
    then have big: "4096 < n" by (metis find_order.simps less_irrefl)
    then have fo: "find_order n = Suc (find_order (n div 2))" by (subst find_order.simps) (simp add: d)
    show ?thesis
    proof (cases "find_order (n div 2)")
      case 0
      then show ?thesis using fo big by simp
    next
      case (Suc k)
      then have "4096 * 2 ^ k < n div 2" using 1(1) big by (simp add: d)
      then show ?thesis using fo Suc by simp
    qed
  qed
  show "n < 4097 * 2 ^ find_order n"
  proof (cases "4096 < n")
    case True
    then have "find_order n = Suc (find_order (n div 2))" by (subst find_order.simps) (simp add: d)
    moreover have "n div 2 < 4097 * 2 ^ find_order (n div 2)" using 1(2) True by (simp add: d)
    ultimately show ?thesis by simp
  next
    case False
    then show ?thesis by (subst find_order.simps) simp
  qed
qed

lemma find_order_small: "find_order (sint (sz :: u32)) < 32"
proof (rule ccontr)
  assume a: "\<not> find_order (sint sz) < 32"
  define x :: int where "x = 2 ^ (find_order (sint sz) - 1)"
  have "(2 :: int) ^ 31 \<le> x" unfolding x_def using a by (intro power_increasing) auto
  moreover have "4096 * x < sint sz" unfolding x_def using find_order_bounds(1) [of "sint sz"] a by simp
  moreover have "sint sz < 2 ^ 31" using sint_lt [of sz] by simp
  ultimately show False by simp
qed

lemma slob_ok_with_pm:
  assumes so: "slob_ok A M S H s" and p: "pmm_inv (npage (vm s)) p'" "managed (npage (vm s)) p' = managed_pgs s" "free_page_set p' \<inter> H = {}"
  shows "slob_ok A M S H (with_pm s p')"
  using slob_okD [OF so] p unfolding slob_ok_def pages_ok_def flist_def by auto

lemma slob_ok_bigblocks [simp]: "slob_ok A M S H (s\<lparr>bigblocks := b\<rparr>) = slob_ok A M S H s"
  by (simp add: slob_ok_def flist_def)

lemma kept_with_pm [simp]: "kept X s (with_pm s' p') = kept X s s'" "kept X (with_pm s p') s' = kept X s s'"
  by (simp_all add: kept_def)

lemma kept_bigblocks [simp]: "kept X s (s'\<lparr>bigblocks := b\<rparr>) = kept X s s'" "kept X (s\<lparr>bigblocks := b\<rparr>) s' = kept X s s'"
  by (simp_all add: kept_def)

lemma slob_ok_put:
  assumes so: "slob_ok A M S H s" and m: "M d = Some n" "d \<notin> S" and a: "unat a \<in> region d n"
  shows "slob_ok A M S H (put_word a v s)"
  by (rule slob_ok_kept [OF so kept_put [OF a] area_used_disjoint [OF slob_okD(1) [OF so] m]]) simp_all

lemma SLOB_UNITS_12: "SLOB_UNITS 12 = int 2"
  by (simp add: SLOB_UNITS_def SLOB_UNIT_def)

lemma used_disjoint:
  assumes "packed M" "(p, n) \<in> used_blocks M S" "(q, k) \<in> used_blocks M S" "p \<noteq> q"
  shows "region p n \<inter> region q k = {}"
  using packed_disjoint [OF assms(1)] assms(2-) by (auto simp: used_blocks_def)

text \<open>The descriptor \<open>bb\<close> has been allocated; its words are being filled in and the pages taken.\<close>

definition big_filled :: "u32 \<Rightarrow> nat \<Rightarrow> pmm \<Rightarrow> u32 \<Rightarrow> slob_heap \<Rightarrow> slob_heap" where
  "big_filled bb ord p' pgs s = put_word (bb + 4) pgs (with_pm (put_word bb (of_nat ord) s) p')"

lemma big_filled_ok:
  assumes so: "slob_ok A M S H s" and bb: "(bb, 2) \<in> used_blocks M S"
    and p: "pmm_inv (npage (vm s)) p'" "managed (npage (vm s)) p' = managed_pgs s" "free_page_set p' \<subseteq> free_pgs s"
  shows "slob_ok A M S H (big_filled bb ord p' pgs s)" "kept (region bb 2) s (big_filled bb ord p' pgs s)"
    "pm (vm (big_filled bb ord p' pgs s)) = p'" "npage (vm (big_filled bb ord p' pgs s)) = npage (vm s)"
    "swap_init_ok (vm (big_filled bb ord p' pgs s)) = swap_init_ok (vm s)" "bigblocks (big_filled bb ord p' pgs s) = bigblocks s"
    "word_at bb (big_filled bb ord p' pgs s) = of_nat ord" "word_at (bb + 4) (big_filled bb ord p' pgs s) = pgs"
proof -
  have m: "M bb = Some 2" "bb \<notin> S" using bb by (auto simp: used_blocks_def)
  note dw = descriptor_words [OF slob_okD(1) [OF so] m(1)]
  have s1: "slob_ok A M S H (put_word bb (of_nat ord) s)" by (rule slob_ok_put [OF so m dw(1)])
  have e: "pm (vm (put_word a v s)) = pm (vm s)" "npage (vm (put_word a v s)) = npage (vm s)"
    "swap_init_ok (vm (put_word a v s)) = swap_init_ok (vm s)" for a v s
    by (simp_all add: put_word_def store_word_def)
  have fh: "free_page_set p' \<inter> H = {}" using p(3) slob_okD(10) [OF so] by (auto simp: pages_ok_def)
  have "slob_ok A M S H (with_pm (put_word bb (of_nat ord) s) p')"
    by (rule slob_ok_with_pm [OF s1]) (use p fh in \<open>simp_all add: e\<close>)
  then show "slob_ok A M S H (big_filled bb ord p' pgs s)"
    unfolding big_filled_def using m dw(2) by (rule slob_ok_put)
  show "kept (region bb 2) s (big_filled bb ord p' pgs s)"
    unfolding big_filled_def using dw by (auto simp: kept_def)
  show "word_at bb (big_filled bb ord p' pgs s) = of_nat ord" "word_at (bb + 4) (big_filled bb ord p' pgs s) = pgs"
    by (simp_all add: big_filled_def)
qed (simp_all add: big_filled_def put_word_def store_word_def with_pm_def)

text \<open>Linking a filled descriptor into the list.\<close>

lemma big_linked_ok:
  assumes ok: "heap_ok A M S H B s" and al: "allocated A M S H 2 s bb s1 M1 S1 H1" and bb: "bb \<noteq> 0"
    and p: "pmm_inv (npage (vm s1)) p'" "managed (npage (vm s1)) p' = managed_pgs s1" "free_page_set p' = free_pgs s1 - {q ..< q + 2 ^ ord}"
    and q: "{q ..< q + 2 ^ ord} \<subseteq> free_pgs s1" "q < 2048" and ord: "ord < 32"
    and s': "s' = (put_word (bb + 8) (bigblocks s1) (big_filled bb ord p' (slot q 0) s1))\<lparr>bigblocks := bb\<rparr>"
  shows "heap_ok A M1 S1 H1 ((bb, ord, q) # B) s'" "intact M S B s s'"
    "owned M1 S1 ((bb, ord, q) # B) = insert (slot q 0, 4096 * 2 ^ ord) (owned M S B)" "slot q 0 \<notin> fst ` owned M S B"
proof -
  let ?s2 = "big_filled bb ord p' (slot q 0) s1" and ?B = "(bb, ord, q) # B"
  note so = heap_okD(1) [OF ok]
  note h = allocated_heap_ok [OF ok al order_refl]
  note so1 = heap_okD(1) [OF h(1)]
  have us: "used_blocks M1 S1 = insert (bb, 2) (used_blocks M S)" and fresh: "\<And>k. (bb, k) \<notin> used_blocks M S"
    using al bb by (auto simp: allocated_def)
  have bu: "(bb, 2) \<in> used_blocks M1 S1" using us by simp
  then have m: "M1 bb = Some 2" "bb \<notin> S1" by (auto simp: used_blocks_def)
  have bB: "bb \<notin> fst ` set B" using heap_okD(4) [OF ok] fresh by blast
  have g: "grown H H1 s s1" using al by (simp add: allocated_def)
  note pk = slob_okD(1) [OF so1]
  note dw = descriptor_words [OF pk m(1)]
  have fs: "free_page_set p' \<subseteq> free_pgs s1" using p(3) by blast
  note f = big_filled_ok [OF so1 bu p(1,2) fs, where ord = ord and pgs = "slot q 0"]
  have so': "slob_ok A M1 S1 H1 s'" unfolding s' using slob_ok_put [OF f(1) m dw(3)] by simp
  have k: "kept (region bb 2) s1 s'" unfolding s' using f(2) kept_put [OF dw(3), of ?s2 "bigblocks s1"] kept_trans by auto
  have ne: "bb + 8 \<noteq> bb" "bb + 8 \<noteq> bb + 4" by auto
  have w: "word_at bb s' = of_nat ord" "word_at (bb + 4) s' = slot q 0" "word_at (bb + 8) s' = bigblocks s1"
    using f(7,8) by (simp_all add: s')
  have pg: "pm (vm s') = p'" "npage (vm s') = npage (vm s1)"
    using f(3,4) by (simp_all add: s' put_word_def store_word_def)
  have w1: "word_at x s' = word_at x s1" if "(r, n) \<in> used_blocks M S" "unat x \<in> region r n" for r n x
    using kept_word [OF k] used_disjoint [OF pk _ bu, of r n] that us fresh by blast
  have chain: "big_chain s' (bigblocks s1) B"
  proof (rule big_chain_cong [OF heap_okD(2) [OF h(1)]])
    fix d
    assume "d \<in> fst ` set B"
    then have d: "(d, 2) \<in> used_blocks M S" using heap_okD(4) [OF ok] by blast
    then have "M1 d = Some 2" using us by (auto simp: used_blocks_def)
    from descriptor_words [OF pk this] show "word_at d s' = word_at d s1 \<and> word_at (d + 4) s' = word_at (d + 4) s1 \<and> word_at (d + 8) s' = word_at (d + 8) s1"
      using w1 [OF d] by blast
  qed
  have "unat (of_nat ord :: u32) = ord" using ord by (intro unat_of_nat_small) simp
  then have c: "big_chain s' (bigblocks s') ?B"
    using chain w bb by (simp add: bb_order_def bb_pages_def bb_next_def) (simp add: s')
  have live: "live_ok (managed_pgs s' - free_pgs s' - H1) (map (\<lambda>(d, ord, q). (q, 2 ^ ord)) ?B)"
  proof -
    have fm: "free_pgs s1 \<subseteq> managed_pgs s1" "free_pgs s1 \<inter> H1 = {}"
      using slob_okD(10) [OF so1] by (auto simp: pages_ok_def pmm_inv_def)
    note l1 = heap_okD(5) [OF h(1)]
    have "live_ok (managed_pgs s' - free_pgs s' - H1) (map (\<lambda>(d, ord, q). (q, 2 ^ ord)) B)"
      by (rule live_ok_mono [OF l1]) (use pg p in auto)
    moreover have "block_of (q, 2 ^ ord) \<subseteq> managed_pgs s' - free_pgs s' - H1"
      using q(1) fm pg p by (auto simp: block_of_def)
    moreover have "block_of (q, 2 ^ ord) \<inter> block_of x = {}" if "x \<in> set (map (\<lambda>(d, ord, q). (q, 2 ^ ord)) B)" for x
    proof -
      have "block_of x \<subseteq> managed_pgs s1 - free_pgs s1 - H1" using l1 that unfolding live_ok_def by blast
      moreover have "block_of (q, 2 ^ ord) \<subseteq> free_pgs s1" using q(1) by (simp add: block_of_def)
      ultimately show ?thesis by blast
    qed
    ultimately show ?thesis by (auto simp: live_ok_Cons)
  qed
  have small: "2 \<le> n \<and> units r s' = int n" if r: "(r, n) \<in> used_blocks M1 S1" "r \<notin> fst ` set ?B" for r n
  proof -
    have ru: "(r, n) \<in> used_blocks M S" "r \<notin> fst ` set B" using r us by auto
    have "M1 r = Some n" using r(1) by (simp add: used_blocks_def)
    then have "unat r \<in> region r n" using packedD [OF pk] by (auto simp: region_def)
    then show ?thesis using w1 [OF ru(1)] heap_okD(6) [OF h(1) r(1) ru(2)] by (simp add: units_def)
  qed
  show "heap_ok A M1 S1 H1 ?B s'"
    unfolding heap_ok_def using so' c heap_okD(3) [OF ok] bB heap_okD(4) [OF h(1)] bu live small by auto
  show "intact M S B s s'"
    unfolding intact_def
  proof (intro allI impI)
    fix r k' and x :: u32
    assume a: "(r, k') \<in> owned M S B \<and> unat x \<in> span r k'"
    then have "unat x \<notin> region bb 2" using h(5) [OF bb] by blast
    then show "word_at x s' = word_at x s" using kept_word [OF k] h(2) a unfolding intact_def by metis
  qed
  have "(r, n) \<in> used_blocks M1 S1 \<and> r \<notin> fst ` set ?B \<longleftrightarrow> (r, n) \<in> used_blocks M S \<and> r \<notin> fst ` set B" for r n
    using us fresh by auto
  then have "small_mem M1 S1 ?B = small_mem M S B" by (simp only: small_mem_def)
  then show "owned M1 S1 ?B = insert (slot q 0, 4096 * 2 ^ ord) (owned M S B)"
    by (auto simp: owned_def big_mem_def)
  show "slot q 0 \<notin> fst ` owned M S B"
  proof
    assume "slot q 0 \<in> fst ` owned M S B"
    then obtain k' where k': "(slot q 0, k') \<in> owned M S B" by auto
    have "q \<in> {q ..< q + 2 ^ ord}" by simp
    then have "q \<in> free_pgs s1" using q(1) by blast
    then have qf: "{q} \<subseteq> free_pgs s" using g by (auto simp: grown_def)
    have "unat (slot q 0) \<in> page_region q" using unat_slot_page [OF q(2)] by (simp add: page_region_def)
    moreover have "0 < k'" using k' heap_okD(6) [OF ok] by (fastforce simp: owned_def small_mem_def big_mem_def)
    moreover from this have "unat (slot q 0) \<in> span (slot q 0) k'" by (simp add: span_def)
    ultimately show False using owned_outside [OF ok k' qf] by blast
  qed
qed

text \<open>No pages for the block: the descriptor is returned.\<close>

lemma big_failed_ok:
  assumes ok: "heap_ok A M S H B s" and al: "allocated A M S H 2 s bb s1 M1 S1 H1" and bb: "bb \<noteq> 0"
  shows "\<exists>M' S' s'. slob_free bb 12 (big_filled bb ord (pm (vm s1)) 0 s1) = Some s' \<and> heap_ok A M' S' H1 B s' \<and>
    intact M S B s s' \<and> owned M' S' B = owned M S B \<and> swap_init_ok (vm s') = swap_init_ok (vm s)"
proof -
  let ?s2 = "big_filled bb ord (pm (vm s1)) 0 s1"
  note so = heap_okD(1) [OF ok]
  note h = allocated_heap_ok [OF ok al order_refl]
  note so1 = heap_okD(1) [OF h(1)]
  have us: "used_blocks M1 S1 = insert (bb, 2) (used_blocks M S)" and fresh: "\<And>k. (bb, k) \<notin> used_blocks M S"
    using al bb by (auto simp: allocated_def)
  have bu: "(bb, 2) \<in> used_blocks M1 S1" using us by simp
  then have m: "M1 bb = Some 2" "bb \<notin> S1" by (auto simp: used_blocks_def)
  have g: "grown H H1 s s1" using al by (simp add: allocated_def)
  note pk = slob_okD(1) [OF so1]
  have inv: "pmm_inv (npage (vm s1)) (pm (vm s1))" using slob_okD(10) [OF so1] by (simp add: pages_ok_def)
  note f = big_filled_ok [OF so1 bu inv refl order_refl, where ord = ord and pgs = 0]
  have "if (12 :: u32) = 0 then units bb ?s2 = int 2 else SLOB_UNITS 12 = int 2" using SLOB_UNITS_12 by simp
  from slob_free_ok [OF f(1) m this] obtain M' S' s' where
    fr: "slob_free bb 12 ?s2 = Some s'" "slob_ok A M' S' H1 s'" "used_blocks M' S' = used_blocks M1 S1 - {(bb, 2)}"
      "kept (area M1 S1 \<union> region bb 2) ?s2 s'" "env s' = env ?s2" by blast
  have us': "used_blocks M' S' = used_blocks M S" using fr(3) us fresh by blast
  have k: "kept (area M1 S1 \<union> region bb 2) s1 s'"
    using kept_trans [OF kept_mono [OF f(2)] fr(4)] by blast
  have e: "pm (vm s') = pm (vm s1)" "npage (vm s') = npage (vm s1)" "bigblocks s' = bigblocks s1" "swap_init_ok (vm s') = swap_init_ok (vm s1)"
    using fr(5) f(3-6) by (auto simp: env_def)
  have w1: "word_at x s' = word_at x s1" if "(r, n) \<in> used_blocks M S" "unat x \<in> region r n" for r n x
  proof -
    have ru: "(r, n) \<in> used_blocks M1 S1" "r \<noteq> bb" using that us fresh by auto
    have "unat x \<notin> area M1 S1 \<union> region bb 2"
      using used_outside [OF so1 ru(1), of "{}"] used_disjoint [OF pk ru(1) bu ru(2)] that(2) by auto
    then show ?thesis using kept_word [OF k] by blast
  qed
  have w0: "word_at x s1 = word_at x s" if "(r, n) \<in> used_blocks M S" "unat x \<in> region r n" for r n x
  proof -
    have kp: "kept (area M S \<union> (\<Union>q\<in>H1 - H. page_region q)) s s1" using al by (simp add: allocated_def)
    have "H1 - H \<subseteq> free_pgs s" using g by (simp add: grown_def)
    from used_outside [OF so that(1) this] show ?thesis using kept_word [OF kp] that(2) by blast
  qed
  have "heap_ok A M' S' H1 B s'"
  proof (rule heap_ok_transfer [OF ok fr(2)])
    show "managed_pgs s - free_pgs s - H \<subseteq> managed_pgs s' - free_pgs s' - H1" using g e by (auto simp: grown_def)
    show "(d, 2) \<in> used_blocks M' S'" if "d \<in> fst ` set B" for d using heap_okD(4) [OF ok that] us' by blast
    show "word_at x s' = word_at x s" if "(r, n) \<in> used_blocks M S" "unat x \<in> region r n" for r n x
      using w0 [OF that] w1 [OF that] by simp
  qed (use us' g e in \<open>auto simp: grown_def\<close>)
  moreover have "intact M S B s s'"
    unfolding intact_def
  proof (intro allI impI)
    fix r k' and x :: u32
    assume a: "(r, k') \<in> owned M S B \<and> unat x \<in> span r k'"
    then have "unat x \<notin> region bb 2" using h(5) [OF bb] by blast
    moreover have "unat x \<notin> area M1 S1"
    proof -
      have "(r, k') \<in> owned M1 S1 B" using a h(3) [OF bb] by (auto simp: owned_def)
      then show ?thesis using owned_outside [OF h(1), of r k' "{}"] a by blast
    qed
    ultimately have "word_at x s' = word_at x s1" using kept_word [OF k] by blast
    then show "word_at x s' = word_at x s" using h(2) a unfolding intact_def by metis
  qed
  moreover have "owned M' S' B = owned M S B" using us' by (simp add: owned_def small_mem_def)
  ultimately show ?thesis using fr(1) e g by (intro exI [of _ M'] exI [of _ S'] exI [of _ s']) (simp add: grown_def)
qed

definition size_ok :: "u32 \<Rightarrow> bool" where
  "size_ok sz \<longleftrightarrow> 0 < unat sz \<and> unat sz < 2 ^ 31 \<and> \<not> (4080 \<le> unat sz \<and> unat sz < 4088)"

lemma pm_put [simp]:
  "pm (vm (put_word a v s)) = pm (vm s)" "npage (vm (put_word a v s)) = npage (vm s)" "swap_init_ok (vm (put_word a v s)) = swap_init_ok (vm s)"
  by (simp_all add: put_word_def store_word_def)

lemma kmalloc_big_ok:
  assumes ok: "heap_ok A M S H B s" and sz: "4088 \<le> unat sz" "unat sz < 2 ^ 31" and sw: "\<not> swap_init_ok (vm s) \<or> 2 \<le> card (free_pgs s)"
  shows "\<exists>r M' S' H' B' s'. kmalloc sz s = Some (r, s') \<and> heap_ok A M' S' H' B' s' \<and> kmalloc_result sz s M S B r s' (owned M' S' B') \<and>
    swap_init_ok (vm s') = swap_init_ok (vm s)"
proof -
  note so = heap_okD(1) [OF ok]
  have ns: "\<not> sz < PGSIZE - SLOB_UNIT" using sz by (simp add: PGSIZE_def SLOB_UNIT_def word_less_nat_alt)
  have sw1: "\<not> swap_init_ok (vm s) \<or> free_pgs s \<noteq> {}" using sw by auto
  have c12: "unat (12 :: u32) + 8 < 4096" "2 = (unat (12 :: u32) + 7) div 8" by simp_all
  obtain bb M1 S1 H1 s1 where a: "slob_alloc 12 0 s = Some (bb, s1)" "allocated A M S H 2 s bb s1 M1 S1 H1"
    using slob_alloc_ok [OF so c12 order_refl sw1] by blast
  note h = allocated_heap_ok [OF ok a(2) order_refl]
  have g: "grown H H1 s s1" using a(2) by (simp add: allocated_def)
  have cap: "capacity sz = 4096 * 2 ^ find_order (sint sz)" using sz by (simp add: capacity_def)
  show ?thesis
  proof (cases "bb = 0")
    case True
    then have "kmalloc sz s = Some (0, s1)" using ns a(1) by (simp add: kmalloc_def)
    moreover have "kmalloc_result sz s M S B 0 s1 (owned M1 S1 B)" using h(2,4) True by (simp add: kmalloc_result_def owned_def)
    ultimately show ?thesis using h(1) g by (auto simp: grown_def)
  next
    case False
    let ?o = "find_order (sint sz)" and ?t = "put_word bb (of_nat (find_order (sint sz))) s1"
    have pg: "npage (vm s1) \<le> 2048" "pmm_inv (npage (vm s1)) (pm (vm s1))"
      using slob_okD(10) [OF heap_okD(1) [OF h(1)]] by (auto simp: pages_ok_def)
    have "\<not> swap_init_ok (vm s1) \<or> free_pgs s1 \<noteq> {}"
    proof -
      obtain q where q: "H1 \<subseteq> insert q H" using a(2) by (auto simp: allocated_def)
      have f: "free_pgs s1 = free_pgs s - (H1 - H)" using g by (simp add: grown_def)
      have "2 \<le> card (free_pgs s) \<Longrightarrow> free_pgs s1 \<noteq> {}"
      proof
        assume c: "2 \<le> card (free_pgs s)" and "free_pgs s1 = {}"
        then have "free_pgs s \<subseteq> {q}" using f q by blast
        then have "card (free_pgs s) \<le> 1" using card_mono [of "{q}" "free_pgs s"] by simp
        then show False using c by simp
      qed
      then show ?thesis using sw g by (auto simp: grown_def)
    qed
    then have "\<not> swap_init_ok (vm ?t) \<or> 0 < ?o \<or> free_pgs ?t \<noteq> {}" by auto
    from slob_get_free_pages_ok [of ?t ?o, OF _ _ this] pg obtain r p' where
      gp: "slob_get_free_pages ?o ?t = Some (r, with_pm ?t p')" "pmm_inv (npage (vm s1)) p'" "managed (npage (vm s1)) p' = managed_pgs s1"
      "r = 0 \<and> p' = pm (vm s1) \<or> (\<exists>q. r = slot q 0 \<and> q < 2048 \<and> {q ..< q + 2 ^ ?o} \<subseteq> free_pgs s1 \<and>
         free_page_set p' = free_pgs s1 - {q ..< q + 2 ^ ?o})" by auto
    have bf: "put_word (bb + 4) r (with_pm ?t p') = big_filled bb ?o p' r s1" by (simp add: big_filled_def)
    from gp(4) show ?thesis
    proof (elim disjE exE)
      assume r: "r = 0 \<and> p' = pm (vm s1)"
      obtain M' S' s' where f: "slob_free bb 12 (big_filled bb ?o (pm (vm s1)) 0 s1) = Some s'" "heap_ok A M' S' H1 B s'"
          "intact M S B s s'" "owned M' S' B = owned M S B" "swap_init_ok (vm s') = swap_init_ok (vm s)"
        using big_failed_ok [OF ok a(2) False] by blast
      have "kmalloc sz s = Some (0, s')" using ns a(1) False gp(1) bf r f(1) by (simp add: kmalloc_def Let_def)
      moreover have "kmalloc_result sz s M S B 0 s' (owned M' S' B)" using f(3,4) by (simp add: kmalloc_result_def)
      ultimately show ?thesis using f(2,5) by blast
    next
      fix q
      assume q: "r = slot q 0 \<and> q < 2048 \<and> {q ..< q + 2 ^ ?o} \<subseteq> free_pgs s1 \<and> free_page_set p' = free_pgs s1 - {q ..< q + 2 ^ ?o}"
      let ?s2 = "big_filled bb ?o p' (slot q 0) s1"
      let ?s' = "(put_word (bb + 8) (bigblocks s1) ?s2)\<lparr>bigblocks := bb\<rparr>"
      have u: "unat (slot q 0) = 2 ^ 31 + 4096 * q" using q unat_slot_page by blast
      then have r0: "slot q 0 \<noteq> 0" by auto
      have al: "aligned8 (slot q 0)" using u by (simp add: aligned8_def dvd_add dvd_mult2)
      have bg: "bigblocks ?s2 = bigblocks s1" "swap_init_ok (vm ?s2) = swap_init_ok (vm s1)" by (simp_all add: big_filled_def)
      have "kmalloc sz s = Some (slot q 0, ?s')" using ns a(1) False gp(1) bf q r0 bg by (simp add: kmalloc_def Let_def)
      moreover note l = big_linked_ok [OF ok a(2) False gp(2,3) _ _ _ find_order_small refl, of q]
      moreover have "kmalloc_result sz s M S B (slot q 0) ?s' (owned M1 S1 ((bb, ?o, q) # B))"
        using l(2-4) q r0 al cap by (simp add: kmalloc_result_def)
      moreover have "swap_init_ok (vm ?s') = swap_init_ok (vm s)" using bg g by (simp add: grown_def)
      ultimately show ?thesis using q by blast
    qed
  qed
qed

lemma kmalloc_total:
  assumes ok: "heap_ok A M S H B s" and sz: "size_ok sz" and sw: "\<not> swap_init_ok (vm s) \<or> 2 \<le> card (free_pgs s)"
  shows "\<exists>r M' S' H' B' s'. kmalloc sz s = Some (r, s') \<and> heap_ok A M' S' H' B' s' \<and> kmalloc_result sz s M S B r s' (owned M' S' B') \<and>
    swap_init_ok (vm s') = swap_init_ok (vm s)"
proof (cases "unat sz < 4080")
  case True
  have "\<not> swap_init_ok (vm s) \<or> free_pgs s \<noteq> {}" using sw by auto
  moreover have "0 < unat sz" using sz by (simp add: size_ok_def)
  ultimately obtain r M' S' H' s' where "kmalloc sz s = Some (r, s')" "heap_ok A M' S' H' B s'"
      "kmalloc_result sz s M S B r s' (owned M' S' B)" "swap_init_ok (vm s') = swap_init_ok (vm s)"
    using kmalloc_small_ok [OF ok _ True] by blast
  then show ?thesis by (intro exI [of _ r] exI [of _ M'] exI [of _ S'] exI [of _ H'] exI [of _ B] exI [of _ s']) simp
next
  case False
  then show ?thesis using kmalloc_big_ok [OF ok _ _ sw, of sz] sz by (auto simp: size_ok_def)
qed

section \<open>kfree\<close>

lemma kva2page_slot: "q < np \<Longrightarrow> np \<le> 2048 \<Longrightarrow> kva2page np (slot q 0) = Some q"
proof -
  assume q: "q < np" "np \<le> 2048"
  have "page2pa q + KERNBASE = slot q 0" using KADDR_page [OF q] PPN_page2pa [of q] q by (simp add: KADDR_def)
  then have e: "slot q 0 - KERNBASE = page2pa q" by (metis add_diff_cancel_right')
  have "unat (slot q 0) = 2 ^ 31 + 4096 * q" using q by (intro unat_slot_page) simp
  then have "\<not> slot q 0 < KERNBASE" by (simp add: word_less_nat_alt KERNBASE_def)
  then show ?thesis using e q PPN_page2pa [of q] by (simp add: kva2page_def PADDR_def pa2page_def)
qed

lemma slot_page_aligned: "q < 2048 \<Longrightarrow> slot q 0 AND (PGSIZE - 1) = 0"
proof -
  assume "q < 2048"
  then have u: "unat (slot q 0) = 4096 * (2 ^ 19 + q)" by (simp add: unat_slot_page)
  have m: "PGSIZE - 1 = (mask 12 :: u32)" by (simp add: PGSIZE_def mask_eq_decr_exp)
  have "unat (take_bit 12 (slot q 0)) = unat (slot q 0) mod 4096" by (simp add: take_bit_eq_mod unat_mod_distrib)
  then have "unat (take_bit 12 (slot q 0)) = 0" using u by simp
  then have "take_bit 12 (slot q 0) = 0" using unat_eq_zero by blast
  then show ?thesis by (simp only: m take_bit_eq_mask [symmetric])
qed

lemma owned_pos: "heap_ok A M S H B s \<Longrightarrow> (r, k) \<in> owned M S B \<Longrightarrow> 0 < k \<and> unat r \<in> span r k"
  using heap_okD(6) by (fastforce simp: owned_def small_mem_def big_mem_def span_def)

text \<open>Memory from the block heap and memory from whole pages are apart.\<close>

lemma small_not_big:
  assumes ok: "heap_ok A M S H B s" and b: "(d, ord, q) \<in> set B" and m: "M p = Some n" and x: "x \<in> region p n"
  shows "x \<notin> span (slot q 0) (4096 * 2 ^ ord)"
proof -
  note so = heap_okD(1) [OF ok]
  have "x \<in> heap_area A H" using used_in_heap [OF so m] x by blast
  then have "x \<notin> page_region t" if "t \<in> {q ..< q + 2 ^ ord}" for t
    using page_outside_heap [OF slob_okD(10) [OF so], of t x] big_pages(1) [OF ok b] that by blast
  then show ?thesis unfolding big_pages(4) [OF ok b] by blast
qed

lemma used_unique: "(p, n) \<in> used_blocks M S \<Longrightarrow> (p, k) \<in> used_blocks M S \<Longrightarrow> k = n"
  by (auto simp: used_blocks_def)

lemma small_memI: "(p, n) \<in> used_blocks M S \<Longrightarrow> p \<notin> fst ` set B \<Longrightarrow> (slob_plus p 1, 8 * (n - 1)) \<in> small_mem M S B"
  unfolding small_mem_def by blast

lemma small_memE:
  assumes "(x, y) \<in> small_mem M S B"
  obtains p n where "(p, n) \<in> used_blocks M S" "p \<notin> fst ` set B" "x = slob_plus p 1" "y = 8 * (n - 1)"
  using assms unfolding small_mem_def by blast

lemma kfree_small_ok:
  assumes ok: "heap_ok A M S H B s" and p: "(p, n) \<in> used_blocks M S" "p \<notin> fst ` set B"
  shows "\<exists>M' S' s'. kfree (slob_plus p 1) s = Some s' \<and> heap_ok A M' S' H B s' \<and>
    owned M' S' B = owned M S B - {(slob_plus p 1, 8 * (n - 1))} \<and> intact M' S' B s s' \<and> swap_init_ok (vm s') = swap_init_ok (vm s)"
proof -
  let ?r = "slob_plus p 1"
  note so = heap_okD(1) [OF ok]
  note pk = slob_okD(1) [OF so]
  have m: "M p = Some n" "p \<notin> S" using p by (auto simp: used_blocks_def)
  have n: "2 \<le> n" "units p s = int n" using heap_okD(6) [OF ok p] by auto
  note up = unat_payload [OF pk m(1)]
  have rin: "unat ?r \<in> region p n" using up(1) n(1) by (auto simp: region_def)
  have r0: "?r \<noteq> 0" using up(1) by auto
  have nb: "slot q 0 \<noteq> ?r" if "(d, ord, q) \<in> set B" for d ord q
  proof
    assume "slot q 0 = ?r"
    moreover have "(slot q 0, 4096 * 2 ^ ord) \<in> owned M S B" using that by (auto simp: owned_def big_mem_def)
    ultimately show False using small_not_big [OF ok that m(1) rin] owned_pos [OF ok] by metis
  qed
  obtain l where fb: "find_big ?r 0 (bigblocks s) s = Some (l, 0)" using find_big_none [OF heap_okD(2) [OF ok]] nb by blast
  have kf: "kfree ?r s = slob_free p 0 s" using r0 fb up(2) by (simp add: kfree_def)
  have "if (0 :: u32) = 0 then units p s = int n else SLOB_UNITS 0 = int n" using n by simp
  from slob_free_ok [OF so m this] obtain M' S' s' where
    f: "slob_free p 0 s = Some s'" "slob_ok A M' S' H s'" "used_blocks M' S' = used_blocks M S - {(p, n)}"
      "kept (area M S \<union> region p n) s s'" "env s' = env s" by blast
  have w: "word_at x s' = word_at x s" if "(t, k) \<in> used_blocks M S" "(t, k) \<in> used_blocks M' S'" "unat x \<in> region t k" for t k x
  proof -
    have "t \<noteq> p" using that(1,2) f(3) used_unique [OF p(1)] by blast
    then have "unat x \<notin> area M S \<union> region p n"
      using used_outside [OF so that(1), of "{}"] used_disjoint [OF pk that(1) p(1)] that(3) by auto
    then show ?thesis using kept_word [OF f(4)] by blast
  qed
  have e: "pm (vm s') = pm (vm s)" "npage (vm s') = npage (vm s)" "bigblocks s' = bigblocks s" "swap_init_ok (vm s') = swap_init_ok (vm s)"
    using f(5) by (auto simp: env_def)
  have "heap_ok A M' S' H B s'"
  proof (rule heap_ok_transfer [OF ok f(2) e(3) _ _ w])
    show "(d, 2) \<in> used_blocks M' S'" if "d \<in> fst ` set B" for d using heap_okD(4) [OF ok that] f(3) p(2) that by blast
  qed (use f(3) e in auto)
  moreover have own: "owned M' S' B = owned M S B - {(?r, 8 * (n - 1))}"
  proof -
    have inj: "t = p" if "slob_plus t 1 = ?r" for t using that by (simp add: slob_plus_def)
    have "small_mem M' S' B = small_mem M S B - {(?r, 8 * (n - 1))}"
    proof -
      have "(x, y) \<in> small_mem M' S' B \<longleftrightarrow> (x, y) \<in> small_mem M S B - {(?r, 8 * (n - 1))}" for x y
      proof
        assume "(x, y) \<in> small_mem M' S' B"
        then obtain t k where t: "(t, k) \<in> used_blocks M' S'" "t \<notin> fst ` set B" "x = slob_plus t 1" "y = 8 * (k - 1)"
          by (rule small_memE)
        then have tu: "(t, k) \<in> used_blocks M S" "t \<noteq> p" using f(3) used_unique [OF p(1)] by blast+
        then have "x \<noteq> ?r" using inj [of t] t(3) by auto
        moreover have "(x, y) \<in> small_mem M S B" unfolding t(3,4) by (rule small_memI [OF tu(1) t(2)])
        ultimately show "(x, y) \<in> small_mem M S B - {(?r, 8 * (n - 1))}" by simp
      next
        assume a: "(x, y) \<in> small_mem M S B - {(?r, 8 * (n - 1))}"
        then have "(x, y) \<in> small_mem M S B" by blast
        then obtain t k where t: "(t, k) \<in> used_blocks M S" "t \<notin> fst ` set B" "x = slob_plus t 1" "y = 8 * (k - 1)"
          by (rule small_memE)
        moreover have "(t, k) \<noteq> (p, n)" using a t(3,4) by auto
        ultimately have "(t, k) \<in> used_blocks M' S'" using f(3) by simp
        then show "(x, y) \<in> small_mem M' S' B" unfolding t(3,4) using t(2) by (rule small_memI)
      qed
      then show ?thesis by auto
    qed
    moreover have "(?r, 8 * (n - 1)) \<notin> big_mem B"
    proof
      assume "(?r, 8 * (n - 1)) \<in> big_mem B"
      then obtain d ord q where "(d, ord, q) \<in> set B" "?r = slot q 0" unfolding big_mem_def by blast
      then show False using nb [of d ord q] by simp
    qed
    ultimately show ?thesis by (auto simp: owned_def)
  qed
  moreover have "intact M' S' B s s'"
    unfolding intact_def
  proof (intro allI impI)
    fix r k and x :: u32
    assume a: "(r, k) \<in> owned M' S' B \<and> unat x \<in> span r k"
    then have ow: "(r, k) \<in> owned M S B" using own by blast
    have "unat x \<notin> area M S" using owned_outside [OF ok ow, of "{}"] a by blast
    moreover have "unat x \<notin> region p n"
    proof -
      from a consider t k' where "(t, k') \<in> used_blocks M' S'" "t \<notin> fst ` set B" "r = slob_plus t 1" "k = 8 * (k' - 1)"
        | d ord q where "(d, ord, q) \<in> set B" "r = slot q 0" "k = 4096 * 2 ^ ord"
        by (auto simp: owned_def small_mem_def big_mem_def)
      then show ?thesis
      proof cases
        case 1
        then have t: "(t, k') \<in> used_blocks M S" "t \<noteq> p" using f(3) used_unique [OF p(1)] by blast+
        then have mt: "M t = Some k'" by (simp add: used_blocks_def)
        have "2 \<le> k'" using heap_okD(6) [OF ok t(1) 1(2)] by simp
        then have "unat x \<in> region t k'" using unat_payload(3) [OF pk mt] a 1(3,4) by blast
        then show ?thesis using used_disjoint [OF pk t(1) p(1) t(2)] by blast
      next
        case 2
        then show ?thesis using small_not_big [OF ok 2(1) m(1)] a by blast
      qed
    qed
    ultimately show "word_at x s' = word_at x s" using kept_word [OF f(4)] by blast
  qed
  ultimately show ?thesis using kf f(1) e(4) by (intro exI [of _ M'] exI [of _ S'] exI [of _ s']) simp
qed

text \<open>Unlinking entry \<open>(d, ord, q)\<close> of the list of big blocks.\<close>

definition unlink_big :: "u32 \<Rightarrow> u32 \<Rightarrow> slob_heap \<Rightarrow> slob_heap" where
  "unlink_big lst bb s = (if lst = 0 then s\<lparr>bigblocks := bb_next bb s\<rparr> else put_word lst (bb_next bb s) s)"

lemma descriptors_apart:
  assumes pk: "packed M" and d: "(d, 2) \<in> used_blocks M S" and e: "(e, 2) \<in> used_blocks M S"
  shows "e + 8 \<noteq> d \<and> e + 8 \<noteq> d + 4 \<and> (e \<noteq> d \<longrightarrow> e + 8 \<noteq> d + 8)"
proof (cases "e = d")
  case False
  have "M d = Some 2" "M e = Some 2" using d e by (auto simp: used_blocks_def)
  note w = descriptor_words [OF pk this(1)] descriptor_words [OF pk this(2)]
  have "region d 2 \<inter> region e 2 = {}" using used_disjoint [OF pk d e] False by blast
  then have "e + 8 \<noteq> d" "e + 8 \<noteq> d + 4" "e + 8 \<noteq> d + 8" using w by (metis disjoint_iff)+
  then show ?thesis by blast
qed auto

lemma unlink_big_ok:
  assumes ok: "heap_ok A M S H B s" and B: "B = B1 @ (d, ord, q) # B2"
    and lst: "lst = (if B1 = [] then 0 else fst (last B1) + 8)"
  shows "find_big (slot q 0) 0 (bigblocks s) s = Some (lst, d)"
    "big_chain (unlink_big lst d s) (bigblocks (unlink_big lst d s)) (B1 @ B2)"
    "B1 \<noteq> [] \<Longrightarrow> lst \<noteq> 0 \<and> (fst (last B1), 2) \<in> used_blocks M S \<and> fst (last B1) \<noteq> d \<and> unat lst \<in> region (fst (last B1)) 2"
proof -
  note o = heap_okD [OF ok]
  note pk = slob_okD(1) [OF o(1)]
  have live: "live_ok (managed_pgs s - free_pgs s - H) (map (\<lambda>(d, ord, q). (q, 2 ^ ord)) B)" by (rule o(5))
  have nq: "slot q' 0 \<noteq> slot q 0" if b: "(d', ord', q') \<in> set B1" for d' ord' q'
  proof
    assume eq: "slot q' 0 = slot q 0"
    have "q' < 2048" "q < 2048" using big_pages(3) [OF ok] b B by auto
    then have "q' = q" using eq slot_inj [of q' 0 q 0] by simp
    have "sorted_wrt (\<lambda>pn qm. block_of pn \<inter> block_of qm = {}) (map (\<lambda>(d, ord, q). (q, 2 ^ ord)) B)"
      using live by (simp add: live_ok_def)
    then have "\<forall>x\<in>set (map (\<lambda>(d, ord, q). (q, 2 ^ ord)) B1). block_of x \<inter> block_of (q, 2 ^ ord) = {}"
      unfolding B map_append list.map sorted_wrt_append by auto
    moreover have "(q', 2 ^ ord') \<in> set (map (\<lambda>(d, ord, q). (q, 2 ^ ord)) B1)" using b by force
    ultimately have "block_of (q', 2 ^ ord') \<inter> block_of (q, 2 ^ ord) = {}" by blast
    then show False using \<open>q' = q\<close> by (auto simp: block_of_def)
  qed
  show fb: "find_big (slot q 0) 0 (bigblocks s) s = Some (lst, d)"
    unfolding lst by (rule find_big_some [OF o(2) [unfolded B]]) (rule nq)
  have ds: "distinct (map fst (B1 @ B2))" "d \<notin> fst ` set (B1 @ B2)" using o(3) B by auto
  have us: "(e, 2) \<in> used_blocks M S" if "e \<in> fst ` set B" for e using o(4) that .
  show l: "lst \<noteq> 0 \<and> (fst (last B1), 2) \<in> used_blocks M S \<and> fst (last B1) \<noteq> d \<and> unat lst \<in> region (fst (last B1)) 2" if ne: "B1 \<noteq> []"
  proof -
    have in1: "fst (last B1) \<in> fst ` set B1" using ne by simp
    then have u: "(fst (last B1), 2) \<in> used_blocks M S" using us B by auto
    then have m: "M (fst (last B1)) = Some 2" by (simp add: used_blocks_def)
    have "unat (fst (last B1) + 8) = unat (fst (last B1)) + 8"
      using packedD [OF pk m] by (subst unat_add_no_wrap) auto
    then have "fst (last B1) + 8 \<noteq> 0" by auto
    then show ?thesis using ne u in1 ds(2) descriptor_words(3) [OF pk m] lst by auto
  qed
  show "big_chain (unlink_big lst d s) (bigblocks (unlink_big lst d s)) (B1 @ B2)"
  proof (cases "B1 = []")
    case True
    have "big_chain s (bb_next d s) B2" using o(2) B True by simp
    then have "big_chain (s\<lparr>bigblocks := bb_next d s\<rparr>) (bb_next d s) B2" by (rule big_chain_cong) simp
    then show ?thesis using True lst by (simp add: unlink_big_def)
  next
    case False
    have c: "big_chain s (bigblocks s) (B1 @ (d, ord, q) # B2)" using o(2) B by simp
    have "big_chain s (bb_next (fst (last B1)) s) ((d, ord, q) # B2)" using big_chain_append [OF c False] .
    then have c2: "big_chain s (bb_next d s) B2" by simp
    have "big_chain (put_word (fst (last B1) + 8) (bb_next d s) s) (bigblocks s) (B1 @ B2)"
    proof (rule big_chain_relink [OF c False c2 ds(1)])
      fix x e
      assume "x \<in> fst ` set (B1 @ B2)" "e \<in> fst ` set (B1 @ B2)"
      then show "e + 8 \<noteq> x \<and> e + 8 \<noteq> x + 4 \<and> (e \<noteq> x \<longrightarrow> e + 8 \<noteq> x + 8)"
        using descriptors_apart [OF pk us us] B by auto
    qed
    then show ?thesis using False l [OF False] lst by (simp add: unlink_big_def)
  qed
qed

lemma owned_not_descriptor:
  assumes ok: "heap_ok A M S H B s" and r: "(r, k) \<in> owned M S B" and e: "e \<in> fst ` set B"
  shows "span r k \<inter> region e 2 = {}"
proof -
  note o = heap_okD [OF ok]
  note pk = slob_okD(1) [OF o(1)]
  have eu: "(e, 2) \<in> used_blocks M S" using o(4) e by blast
  then have me: "M e = Some 2" by (simp add: used_blocks_def)
  from r consider "(r, k) \<in> small_mem M S B" | d ord q where "(d, ord, q) \<in> set B" "r = slot q 0" "k = 4096 * 2 ^ ord"
    unfolding owned_def big_mem_def by blast
  then show ?thesis
  proof cases
    case 1
    then obtain p n where p: "(p, n) \<in> used_blocks M S" "p \<notin> fst ` set B" "r = slob_plus p 1" "k = 8 * (n - 1)" by (rule small_memE)
    have mp: "M p = Some n" using p(1) by (simp add: used_blocks_def)
    have "p \<noteq> e" using p(2) e by blast
    then have "region p n \<inter> region e 2 = {}" using used_disjoint [OF pk p(1) eu] by blast
    moreover have "span r k \<subseteq> region p n" using unat_payload(3) [OF pk mp] o(6) [OF p(1,2)] p(3,4) by simp
    ultimately show ?thesis by blast
  next
    case 2
    then show ?thesis using small_not_big [OF ok 2(1) me] by blast
  qed
qed

lemma kfree_big_ok:
  assumes ok: "heap_ok A M S H B s" and b: "(d, ord, q) \<in> set B"
  shows "\<exists>M' S' B' s'. kfree (slot q 0) s = Some s' \<and> heap_ok A M' S' H B' s' \<and>
    owned M' S' B' = owned M S B - {(slot q 0, 4096 * 2 ^ ord)} \<and> intact M' S' B' s s' \<and> swap_init_ok (vm s') = swap_init_ok (vm s)"
proof -
  obtain B1 B2 where B: "B = B1 @ (d, ord, q) # B2" using split_list [OF b] by blast
  let ?B = "B1 @ B2"
  define lst where "lst = (if B1 = [] then 0 else fst (last B1) + 8)"
  note o = heap_okD [OF ok] and u = unlink_big_ok [OF ok B lst_def] and bp = big_pages [OF ok b]
  note pk = slob_okD(1) [OF o(1)] and pg = slob_okD(10) [OF o(1)]
  have du: "(d, 2) \<in> used_blocks M S" using o(4) b by force
  then have m: "M d = Some 2" "d \<notin> S" by (auto simp: used_blocks_def)
  define s1 where "s1 = unlink_big lst d s"
  have u_d: "d \<noteq> 0" using block_bounds(4) [OF o(1) m(1)] .
  have bu: "(e, 2) \<in> used_blocks M S \<and> e \<noteq> d" if "e \<in> fst ` set ?B" for e using that o(3,4) B by auto
  have e1: "pm (vm s1) = pm (vm s)" "npage (vm s1) = npage (vm s)" "swap_init_ok (vm s1) = swap_init_ok (vm s)"
    by (simp_all add: s1_def unlink_big_def)
  define X where "X = (if B1 = [] then {} else region (fst (last B1)) 2)"
  have k1: "kept X s s1" and so1: "slob_ok A M S H s1" and ord1: "bb_order d s1 = ord"
  proof -
    have o0: "bb_order d s = ord" using o(2) B
    proof -
      have "big_chain s p (B1 @ (d, ord, q) # B2) \<Longrightarrow> bb_order d s = ord" for p by (induction B1 arbitrary: p) auto
      then show ?thesis using o(2) B by blast
    qed
    show "kept X s s1" using u(3) by (auto simp: s1_def unlink_big_def X_def lst_def)
    show "slob_ok A M S H s1"
    proof (cases "B1 = []")
      case True
      then show ?thesis using o(1) by (simp add: s1_def unlink_big_def lst_def)
    next
      case False
      then have "M (fst (last B1)) = Some 2" "fst (last B1) \<notin> S" using u(3) by (auto simp: used_blocks_def)
      from slob_ok_put [OF o(1) this] u(3) [OF False] show ?thesis by (simp add: s1_def unlink_big_def)
    qed
    have "B1 \<noteq> [] \<Longrightarrow> lst \<noteq> d"
      using descriptors_apart [OF pk du, of "fst (last B1)"] u(3) by (auto simp: lst_def)
    then show "bb_order d s1 = ord" using o0 by (auto simp: s1_def unlink_big_def bb_order_def lst_def)
  qed
  have inv: "pmm_inv (npage (vm s)) (pm (vm s))" "npage (vm s) \<le> 2048" using pg by (auto simp: pages_ok_def)
  have pos: "0 < (2 :: nat) ^ ord" by simp
  have bsub: "{q ..< q + 2 ^ ord} \<subseteq> managed_pgs s" "{q ..< q + 2 ^ ord} \<inter> free_pgs s = {}" "{q ..< q + 2 ^ ord} \<inter> H = {}" using bp(1) by auto
  obtain p' where p': "default_free_pages q (2 ^ ord) (pm (vm s)) = Some p'" "pmm_inv (npage (vm s)) p'"
      "free_page_set p' = free_pgs s \<union> {q ..< q + 2 ^ ord}" "managed (npage (vm s)) p' = managed_pgs s"
    using default_free_pages_ok [OF inv(1) pos bsub(1,2)] by blast
  have "q \<in> {q ..< q + 2 ^ ord}" by simp
  then have "q \<in> managed_pgs s" using bsub(1) by blast
  then have qn: "q < npage (vm s)" by (simp add: managed_def)
  have fp: "slob_free_pages (slot q 0) ord s1 = Some (with_pm s1 p')"
    using kva2page_slot [OF qn inv(2)] p'(1) e1 by (simp add: slob_free_pages_def free_pages_def with_pm_def)
  have so2: "slob_ok A M S H (with_pm s1 p')"
    by (rule slob_ok_with_pm [OF so1]) (use p' bsub(3) pg e1 in \<open>auto simp: pages_ok_def\<close>)
  have "if (12 :: u32) = 0 then units d (with_pm s1 p') = int 2 else SLOB_UNITS 12 = int 2" using SLOB_UNITS_12 by simp
  from slob_free_ok [OF so2 m this] obtain M' S' s' where
    f: "slob_free d 12 (with_pm s1 p') = Some s'" "slob_ok A M' S' H s'" "used_blocks M' S' = used_blocks M S - {(d, 2)}"
      "kept (area M S \<union> region d 2) s1 s'" "env s' = env (with_pm s1 p')" by auto
  have kf: "kfree (slot q 0) s = Some s'"
    using slot_page_aligned [OF bp(3)] unat_slot_page [OF bp(3)] u(1) u_d fp ord1 f(1)
    by (auto simp: kfree_def s1_def unlink_big_def Let_def)
  have e': "pm (vm s') = p'" "npage (vm s') = npage (vm s)" "bigblocks s' = bigblocks s1" "swap_init_ok (vm s') = swap_init_ok (vm s)"
    using f(5) e1 by (auto simp: env_def)
  have k2: "kept (area M S \<union> region d 2 \<union> X) s s'" using kept_trans [OF kept_mono [OF k1] kept_mono [OF f(4)]] by blast
  have w1: "word_at x s' = word_at x s1" if "(t, k) \<in> used_blocks M S" "t \<noteq> d" "unat x \<in> region t k" for t k x
    using kept_word [OF f(4)] used_outside [OF o(1) that(1), of "{}"] used_disjoint [OF pk that(1) du that(2)] that(3) by blast
  have "big_chain s' (bigblocks s') ?B"
    unfolding e'(3)
  proof (rule big_chain_cong [OF u(2) [folded s1_def]])
    fix e
    assume "e \<in> fst ` set ?B"
    then have e: "(e, 2) \<in> used_blocks M S" "e \<noteq> d" using bu by auto
    then have "M e = Some 2" by (simp add: used_blocks_def)
    from descriptor_words [OF pk this] show "word_at e s' = word_at e s1 \<and> word_at (e + 4) s' = word_at (e + 4) s1 \<and> word_at (e + 8) s' = word_at (e + 8) s1"
      using w1 [OF e] by blast
  qed
  moreover have "live_ok (managed_pgs s' - free_pgs s' - H) (map (\<lambda>(d, ord, q). (q, 2 ^ ord)) ?B)"
  proof -
    have "live_ok (managed_pgs s - free_pgs s - H - block_of (q, 2 ^ ord)) (map (\<lambda>(d, ord, q). (q, 2 ^ ord)) B1 @ map (\<lambda>(d, ord, q). (q, 2 ^ ord)) B2)"
      by (rule live_ok_remove) (use o(5) B in simp)
    moreover have "managed_pgs s - free_pgs s - H - block_of (q, 2 ^ ord) = managed_pgs s' - free_pgs s' - H"
      using e' p' by (auto simp: block_of_def)
    ultimately show ?thesis by simp
  qed
  moreover have "2 \<le> n \<and> units t s' = int n" if t: "(t, n) \<in> used_blocks M' S'" "t \<notin> fst ` set ?B" for t n
  proof -
    have tu: "(t, n) \<in> used_blocks M S" "t \<noteq> d" using t(1) f(3) used_unique [OF du] by blast+
    have tB: "t \<notin> fst ` set B" using t(2) tu(2) B by auto
    have mt: "M t = Some n" using tu(1) by (simp add: used_blocks_def)
    have tr: "unat t \<in> region t n" using packedD [OF pk mt] by (auto simp: region_def)
    have "unat t \<notin> X"
    proof (cases "B1 = []")
      case False
      have "fst (last B1) \<in> fst ` set B" using False B by auto
      then have "t \<noteq> fst (last B1)" using tB by blast
      then show ?thesis using used_disjoint [OF pk tu(1)] u(3) [OF False] tr False by (auto simp: X_def)
    qed (simp add: X_def)
    then have "word_at t s' = word_at t s" using w1 [OF tu tr] kept_word [OF k1] by simp
    then show ?thesis using o(6) [OF tu(1) tB] by (simp add: units_def)
  qed
  moreover have "distinct (map fst ?B)" using o(3) B by simp
  moreover have "\<forall>e\<in>fst ` set ?B. (e, 2) \<in> used_blocks M' S'" using bu f(3) by blast
  ultimately have ok': "heap_ok A M' S' H ?B s'" using f(2) unfolding heap_ok_def by blast
  have own: "owned M' S' ?B = owned M S B - {(slot q 0, 4096 * 2 ^ ord)}"
  proof -
    have "(t, n) \<in> used_blocks M' S' \<and> t \<notin> fst ` set ?B \<longleftrightarrow> (t, n) \<in> used_blocks M S \<and> t \<notin> fst ` set B" for t n
      using f(3) B used_unique [OF du] by auto
    then have sm: "small_mem M' S' ?B = small_mem M S B" by (simp only: small_mem_def)
    have uniq: "slot q' 0 \<noteq> slot q 0" if "(d', ord', q') \<in> set ?B" for d' ord' q'
    proof
      assume "slot q' 0 = slot q 0"
      then have "q' = q" using slot_inj [of q' 0 q 0] big_pages(3) [OF ok' that] bp(3) by simp
      moreover have "q' \<in> {q' ..< q' + 2 ^ ord'}" by simp
      ultimately have "q \<notin> free_pgs s'" using big_pages(1) [OF ok' that] by blast
      then show False using e'(1) p'(3) \<open>q \<in> {q ..< q + 2 ^ ord}\<close> by simp
    qed
    have "big_mem B = insert (slot q 0, 4096 * 2 ^ ord) (big_mem ?B)" using B by (auto simp: big_mem_def)
    moreover have "(slot q 0, 4096 * 2 ^ ord) \<notin> big_mem ?B"
    proof
      assume "(slot q 0, 4096 * 2 ^ ord) \<in> big_mem ?B"
      then obtain d' ord' q' where "(d', ord', q') \<in> set ?B" "slot q 0 = slot q' 0" unfolding big_mem_def by blast
      then show False using uniq [of d' ord' q'] by simp
    qed
    moreover have "(slot q 0, 4096 * 2 ^ ord) \<notin> small_mem M S B"
    proof
      assume "(slot q 0, 4096 * 2 ^ ord) \<in> small_mem M S B"
      then obtain t n where t: "(t, n) \<in> used_blocks M S" "t \<notin> fst ` set B" "slot q 0 = slob_plus t 1" by (rule small_memE)
      have mt: "M t = Some n" using t(1) by (simp add: used_blocks_def)
      have "unat (slot q 0) \<in> region t n" unfolding t(3) using unat_payload(1) [OF pk mt] o(6) [OF t(1,2)] by (auto simp: region_def)
      from small_not_big [OF ok b mt this] show False by (simp add: span_def)
    qed
    ultimately show ?thesis using sm unfolding owned_def by blast
  qed
  have "intact M' S' ?B s s'"
    unfolding intact_def
  proof (intro allI impI)
    fix r k and x :: u32
    assume a: "(r, k) \<in> owned M' S' ?B \<and> unat x \<in> span r k"
    then have ow: "(r, k) \<in> owned M S B" using own by blast
    have "d \<in> fst ` set B" using b by force
    then have "unat x \<notin> region d 2" using owned_not_descriptor [OF ok ow] a by blast
    moreover have "unat x \<notin> X"
    proof (cases "B1 = []")
      case False
      then have "fst (last B1) \<in> fst ` set B" using B by auto
      then show ?thesis using owned_not_descriptor [OF ok ow] a False unfolding X_def by auto
    qed (simp add: X_def)
    moreover have "unat x \<notin> area M S" using owned_outside [OF ok ow, of "{}"] a by blast
    ultimately show "word_at x s' = word_at x s" using kept_word [OF k2] by blast
  qed
  then show ?thesis using kf ok' own e'(4) by blast
qed

lemma kfree_ok:
  assumes ok: "heap_ok A M S H B s" and r: "(r, k) \<in> owned M S B"
  shows "\<exists>M' S' B' s'. kfree r s = Some s' \<and> heap_ok A M' S' H B' s' \<and> owned M' S' B' = owned M S B - {(r, k)} \<and>
    intact M' S' B' s s' \<and> swap_init_ok (vm s') = swap_init_ok (vm s)"
proof -
  from r consider "(r, k) \<in> small_mem M S B" | d ord q where "(d, ord, q) \<in> set B" "r = slot q 0" "k = 4096 * 2 ^ ord"
    unfolding owned_def big_mem_def by blast
  then show ?thesis
  proof cases
    case 1
    then obtain p n where p: "(p, n) \<in> used_blocks M S" "p \<notin> fst ` set B" "r = slob_plus p 1" "k = 8 * (n - 1)" by (rule small_memE)
    show ?thesis using kfree_small_ok [OF ok p(1,2)] unfolding p(3,4) by blast
  next
    case 2
    then show ?thesis using kfree_big_ok [OF ok 2(1)] by blast
  qed
qed

section \<open>Clients\<close>

lemma big_blocks_disjoint:
  assumes ok: "heap_ok A M S H B s" and b: "(d, ord, q) \<in> set B" "(d', ord', q') \<in> set B" and ne: "(d, ord, q) \<noteq> (d', ord', q')"
  shows "{q ..< q + 2 ^ ord} \<inter> {q' ..< q' + 2 ^ ord'} = {}"
proof -
  let ?f = "\<lambda>(d, ord, q). (q, 2 ^ ord) :: nat \<times> nat"
  have so: "sorted_wrt (\<lambda>pn qm. block_of pn \<inter> block_of qm = {}) (map ?f B)" using heap_okD(5) [OF ok] by (simp add: live_ok_def)
  obtain i j where ij: "i < length B" "B ! i = (d, ord, q)" "j < length B" "B ! j = (d', ord', q')"
    using b by (metis in_set_conv_nth)
  then have "i \<noteq> j" using ne by auto
  then consider "i < j" | "j < i" by linarith
  then have "block_of (q, 2 ^ ord) \<inter> block_of (q', 2 ^ ord') = {}"
  proof cases
    case 1
    then show ?thesis using sorted_wrt_nth_less [OF so, of i j] ij by simp
  next
    case 2
    then show ?thesis using sorted_wrt_nth_less [OF so, of j i] ij by (simp add: Int_commute)
  qed
  then show ?thesis by (simp add: block_of_def)
qed

lemma owned_disjoint:
  assumes ok: "heap_ok A M S H B s" and r: "(r, k) \<in> owned M S B" "(r', k') \<in> owned M S B" and ne: "(r, k) \<noteq> (r', k')"
  shows "span r k \<inter> span r' k' = {}"
proof -
  note o = heap_okD [OF ok]
  note pk = slob_okD(1) [OF o(1)]
  have small: "\<exists>p n. (p, n) \<in> used_blocks M S \<and> M p = Some n \<and> x = slob_plus p 1 \<and> y = 8 * (n - 1) \<and> span x y \<subseteq> region p n"
    if "(x, y) \<in> small_mem M S B" for x y
  proof -
    from that obtain p n where p: "(p, n) \<in> used_blocks M S" "p \<notin> fst ` set B" "x = slob_plus p 1" "y = 8 * (n - 1)" by (rule small_memE)
    have "M p = Some n" using p(1) by (simp add: used_blocks_def)
    then show ?thesis using unat_payload(3) [OF pk] o(6) [OF p(1,2)] p by blast
  qed
  have big: "\<exists>d ord q. (d, ord, q) \<in> set B \<and> x = slot q 0 \<and> y = 4096 * 2 ^ ord" if "(x, y) \<in> big_mem B" for x y
    using that unfolding big_mem_def by blast
  have mixed: "span x y \<inter> span x' y' = {}" if "(x, y) \<in> small_mem M S B" "(x', y') \<in> big_mem B" for x y x' y'
    using small [OF that(1)] big [OF that(2)] small_not_big [OF ok] by blast
  consider "(r, k) \<in> small_mem M S B" "(r', k') \<in> small_mem M S B" | "(r, k) \<in> small_mem M S B" "(r', k') \<in> big_mem B"
    | "(r, k) \<in> big_mem B" "(r', k') \<in> small_mem M S B" | "(r, k) \<in> big_mem B" "(r', k') \<in> big_mem B"
    using r unfolding owned_def by blast
  then show ?thesis
  proof cases
    case 1
    obtain p n p' n' where p: "(p, n) \<in> used_blocks M S" "r = slob_plus p 1" "k = 8 * (n - 1)" "span r k \<subseteq> region p n"
        "(p', n') \<in> used_blocks M S" "r' = slob_plus p' 1" "k' = 8 * (n' - 1)" "span r' k' \<subseteq> region p' n'"
      using small [OF 1(1)] small [OF 1(2)] by blast
    then have "p \<noteq> p'" using ne used_unique [of p n M S n'] by blast
    then show ?thesis using used_disjoint [OF pk p(1,5)] p(4,8) by blast
  next
    case 2
    then show ?thesis by (rule mixed)
  next
    case 3
    then show ?thesis using mixed [OF 3(2,1)] by blast
  next
    case 4
    obtain d ord q d' ord' q' where b: "(d, ord, q) \<in> set B" "r = slot q 0" "k = 4096 * 2 ^ ord"
        "(d', ord', q') \<in> set B" "r' = slot q' 0" "k' = 4096 * 2 ^ ord'"
      using big [OF 4(1)] big [OF 4(2)] by blast
    then have "(d, ord, q) \<noteq> (d', ord', q')" using ne by auto
    from big_blocks_disjoint [OF ok b(1,4) this] show ?thesis
      unfolding b(2,3,5,6) big_pages(4) [OF ok b(1)] big_pages(4) [OF ok b(4)] using page_region_inj by blast
  qed
qed

lemma owned_bounds:
  assumes ok: "heap_ok A M S H B s" and r: "(r, k) \<in> owned M S B"
  shows "unat r + k < 2 ^ 32" "aligned8 r" "r \<noteq> 0"
proof -
  note o = heap_okD [OF ok]
  note pk = slob_okD(1) [OF o(1)]
  from r consider "(r, k) \<in> small_mem M S B" | d ord q where "(d, ord, q) \<in> set B" "r = slot q 0" "k = 4096 * 2 ^ ord"
    unfolding owned_def big_mem_def by blast
  then have "unat r + k < 2 ^ 32 \<and> aligned8 r \<and> r \<noteq> 0"
  proof cases
    case 1
    then obtain p n where p: "(p, n) \<in> used_blocks M S" "p \<notin> fst ` set B" "r = slob_plus p 1" "k = 8 * (n - 1)" by (rule small_memE)
    have mp: "M p = Some n" using p(1) by (simp add: used_blocks_def)
    have "unat r = unat p + 8" using unat_payload(1) [OF pk mp] p(3) by simp
    moreover from this have "r \<noteq> 0" by auto
    ultimately show ?thesis using packedD [OF pk mp] o(6) [OF p(1,2)] p(4) by (auto simp: aligned8_def)
  next
    case 2
    have u: "unat r = 2 ^ 31 + 4096 * q" using 2(2) unat_slot_page [OF big_pages(3) [OF ok 2(1)]] by simp
    then have "r \<noteq> 0" by auto
    moreover have "4096 * q + k \<le> 4096 * 2048" using big_pages(2) [OF ok 2(1)] 2(3) by simp
    ultimately show ?thesis using u by (simp add: aligned8_def dvd_add dvd_mult2)
  qed
  then show "unat r + k < 2 ^ 32" "aligned8 r" "r \<noteq> 0" by auto
qed

text \<open>Clients store to their own memory.\<close>

lemma client_store_ok:
  assumes ok: "heap_ok A M S H B s" and r: "(r, k) \<in> owned M S B" and x: "unat x \<in> span r k"
  shows "heap_ok A M S H B (put_word x v s)"
proof -
  note o = heap_okD [OF ok]
  note pk = slob_okD(1) [OF o(1)]
  have kp: "kept {unat x} s (put_word x v s)" by (simp add: kept_def)
  have "unat x \<notin> area M S" using owned_outside [OF ok r, of "{}"] x by blast
  then have so: "slob_ok A M S H (put_word x v s)" using slob_ok_kept [OF o(1) kp] by simp
  have nd: "unat x \<notin> region e 2" if "e \<in> fst ` set B" for e using owned_not_descriptor [OF ok r that] x by blast
  have nh: "x \<noteq> p" if p: "(p, n) \<in> used_blocks M S" "p \<notin> fst ` set B" for p n
  proof
    assume xp: "x = p"
    have mp: "M p = Some n" using p(1) by (simp add: used_blocks_def)
    have pr: "unat p \<in> region p n" using packedD [OF pk mp] by (auto simp: region_def)
    from r consider "(r, k) \<in> small_mem M S B" | d ord q where "(d, ord, q) \<in> set B" "r = slot q 0" "k = 4096 * 2 ^ ord"
      unfolding owned_def big_mem_def by blast
    then show False
    proof cases
      case 1
      then obtain t j where t: "(t, j) \<in> used_blocks M S" "t \<notin> fst ` set B" "r = slob_plus t 1" "k = 8 * (j - 1)" by (rule small_memE)
      have mt: "M t = Some j" using t(1) by (simp add: used_blocks_def)
      have "span r k \<subseteq> region t j" using unat_payload(3) [OF pk mt] o(6) [OF t(1,2)] t(3,4) by simp
      then have "t = p" using used_disjoint [OF pk t(1) p(1)] x xp pr by blast
      then show False using x xp unat_payload(1) [OF pk mt] t(3) by (simp add: span_def)
    next
      case 2
      then show False using small_not_big [OF ok 2(1) mp pr] x xp by blast
    qed
  qed
  have "big_chain (put_word x v s) (bigblocks s) B"
  proof (rule big_chain_cong [OF o(2)])
    fix e
    assume e: "e \<in> fst ` set B"
    then have "M e = Some 2" using o(4) by (simp add: used_blocks_def)
    from descriptor_words [OF pk this] nd [OF e]
    show "word_at e (put_word x v s) = word_at e s \<and> word_at (e + 4) (put_word x v s) = word_at (e + 4) s \<and>
        word_at (e + 8) (put_word x v s) = word_at (e + 8) s" by auto
  qed
  moreover have "units p (put_word x v s) = units p s" if "(p, n) \<in> used_blocks M S" "p \<notin> fst ` set B" for p n
    using nh [OF that] by (simp add: units_def)
  moreover have "\<And>p n. (p, n) \<in> used_blocks M S \<Longrightarrow> p \<notin> fst ` set B \<Longrightarrow> 2 \<le> n \<and> units p s = int n" by (rule o(6))
  ultimately show ?thesis using so o(3-5) unfolding heap_ok_def by auto
qed

lemma ksize_ok:
  assumes ok: "heap_ok A M S H B s"
  shows "(r, k) \<in> small_mem M S B \<Longrightarrow> ksize r s = Some (of_nat (k + 8))" "(r, k) \<in> big_mem B \<Longrightarrow> ksize r s = Some (of_nat k)"
proof -
  note o = heap_okD [OF ok]
  note pk = slob_okD(1) [OF o(1)]
  show "ksize r s = Some (of_nat (k + 8))" if "(r, k) \<in> small_mem M S B"
  proof -
    from that obtain p n where p: "(p, n) \<in> used_blocks M S" "p \<notin> fst ` set B" "r = slob_plus p 1" "k = 8 * (n - 1)" by (rule small_memE)
    have mp: "M p = Some n" using p(1) by (simp add: used_blocks_def)
    note up = unat_payload [OF pk mp]
    have n: "2 \<le> n" "units p s = int n" using o(6) [OF p(1,2)] by auto
    have rin: "unat r \<in> region p n" using up(1) n(1) p(3) by (auto simp: region_def)
    have nb: "slot q 0 \<noteq> r" if "(d, ord, q) \<in> set B" for d ord q
      using small_not_big [OF ok that mp rin] by (auto simp: span_def)
    obtain l where "find_big r 0 (bigblocks s) s = Some (l, 0)" using find_big_none [OF o(2)] nb by blast
    moreover have "r \<noteq> 0" using up(1) p(3) by auto
    ultimately have "ksize r s = Some (of_nat n * SLOB_UNIT)" using up(2) p(3) n(2) by (simp add: ksize_def)
    moreover have "of_nat (k + 8) = (of_nat n * SLOB_UNIT :: u32)"
    proof -
      have "k + 8 = n * 8" using p(4) n(1) by simp
      then show ?thesis unfolding SLOB_UNIT_def by (metis of_nat_mult of_nat_numeral)
    qed
    ultimately show ?thesis by simp
  qed
  show "ksize r s = Some (of_nat k)" if "(r, k) \<in> big_mem B"
  proof -
    from that obtain d ord q where b: "(d, ord, q) \<in> set B" "r = slot q 0" "k = 4096 * 2 ^ ord"
      unfolding big_mem_def by blast
    obtain B1 B2 where B: "B = B1 @ (d, ord, q) # B2" using split_list [OF b(1)] by blast
    have "d \<in> fst ` set B" using b(1) by force
    then have "M d = Some 2" using o(4) by (simp add: used_blocks_def)
    then have d0: "d \<noteq> 0" using block_bounds(4) [OF o(1)] by blast
    have "big_chain s p (B1 @ (d, ord, q) # B2) \<Longrightarrow> bb_order d s = ord" for p by (induction B1 arbitrary: p) auto
    then have "bb_order d s = ord" using o(2) B by blast
    moreover have "slot q 0 \<noteq> 0" using unat_slot_page [OF big_pages(3) [OF ok b(1)]] by auto
    ultimately have "ksize r s = Some (push_bit ord PGSIZE)"
      using unlink_big_ok(1) [OF ok B refl] slot_page_aligned [OF big_pages(3) [OF ok b(1)]] d0 b(2) by (simp add: ksize_def)
    moreover have "push_bit ord PGSIZE = (of_nat k :: u32)" by (simp add: b(3) PGSIZE_def push_bit_eq_mult mult.commute)
    ultimately show ?thesis by simp
  qed
qed

end
