(* ===== verification/Kmalloc_Client.thy ===== *)
theory Kmalloc_Client
  imports Kmalloc_Safe
begin

text \<open>
  The contract of the kernel heap as a locale, a client that allocates, stores and releases, and the properties of
  \<open>kern/mm/kmalloc.c\<close> that follow from the interpretation of the locale on the model.
\<close>

section \<open>A client of the heap\<close>

text \<open>
  A client allocates, releases the \<open>i\<close>-th piece of memory it holds, and stores a word into it. A live piece is its
  address, its capacity and the words stored so far, by word offset.
\<close>

datatype heap_op = Malloc_op u32 | Free_op nat | Store_op nat nat u32

type_synonym live_mem = "u32 \<times> nat \<times> (nat \<rightharpoonup> u32)"

fun heap_step :: "(u32 \<Rightarrow> 's \<Rightarrow> (u32 \<times> 's) option) \<Rightarrow> (u32 \<Rightarrow> 's \<Rightarrow> 's option) \<Rightarrow> (u32 \<Rightarrow> u32 \<Rightarrow> 's \<Rightarrow> 's) \<Rightarrow>
    heap_op \<Rightarrow> 's \<times> live_mem list \<Rightarrow> ('s \<times> live_mem list) option" where
  "heap_step mal fre put (Malloc_op sz) (s, L) =
     (case mal sz s of None \<Rightarrow> None
      | Some (r, s') \<Rightarrow> Some (s', if r = 0 then L else (r, capacity sz, Map.empty) # L))"
| "heap_step mal fre put (Free_op i) (s, L) =
     (if i < length L then map_option (\<lambda>s'. (s', take i L @ drop (Suc i) L)) (fre (fst (L ! i)) s) else Some (s, L))"
| "heap_step mal fre put (Store_op i w v) (s, L) =
     (if i < length L then
        case L ! i of (r, k, c) \<Rightarrow>
          if 4 * w + 4 \<le> k then Some (put (r + 4 * of_nat w) v s, L[i := (r, k, c(w \<mapsto> v))]) else Some (s, L)
      else Some (s, L))"

fun heap_run :: "(u32 \<Rightarrow> 's \<Rightarrow> (u32 \<times> 's) option) \<Rightarrow> (u32 \<Rightarrow> 's \<Rightarrow> 's option) \<Rightarrow> (u32 \<Rightarrow> u32 \<Rightarrow> 's \<Rightarrow> 's) \<Rightarrow>
    heap_op list \<Rightarrow> 's \<times> live_mem list \<Rightarrow> ('s \<times> live_mem list) option" where
  "heap_run mal fre put [] c = Some c"
| "heap_run mal fre put (x # xs) c = Option.bind (heap_step mal fre put x c) (heap_run mal fre put xs)"

text \<open>The sizes of the requests in a sequence of operations.\<close>

definition sizes_ok :: "heap_op list \<Rightarrow> bool" where
  "sizes_ok xs = list_all (\<lambda>x. case x of Malloc_op sz \<Rightarrow> size_ok sz | _ \<Rightarrow> True) xs"

definition mem_of :: "live_mem \<Rightarrow> u32 \<times> nat" where
  "mem_of e = (fst e, fst (snd e))"

definition contents_ok :: "(u32 \<Rightarrow> 's \<Rightarrow> u32) \<Rightarrow> 's \<Rightarrow> live_mem \<Rightarrow> bool" where
  "contents_ok rd s e = (case e of (r, k, c) \<Rightarrow> \<forall>w v. c w = Some v \<longrightarrow> 4 * w + 4 \<le> k \<and> rd (r + 4 * of_nat w) s = v)"

lemma unat_word_offset:
  assumes "unat (r :: u32) + k < 2 ^ 32" "4 * w + 4 \<le> k"
  shows "unat (r + 4 * of_nat w) = unat r + 4 * w" "unat (r + 4 * of_nat w) \<in> span r k"
proof -
  have "unat (of_nat w :: u32) = w" by (rule unat_of_nat_small) (use assms in simp)
  then have "unat (4 * of_nat w :: u32) = 4 * w" using assms by (subst unat_mult_no_wrap) auto
  then show u: "unat (r + 4 * of_nat w) = unat r + 4 * w" using assms by (subst unat_add_no_wrap) auto
  then show "unat (r + 4 * of_nat w) \<in> span r k" using assms by (simp add: span_def)
qed

lemma distinct_map_fst_nth_neq: "distinct (map fst L) \<Longrightarrow> i < length L \<Longrightarrow> j < length L \<Longrightarrow> i \<noteq> j \<Longrightarrow> fst (L ! i) \<noteq> fst (L ! j)"
  by (metis length_map nth_eq_iff_index_eq nth_map)

text \<open>
  The contract: \<open>inv s own\<close> says that the state is consistent and that the pieces \<open>own\<close> (address and size) are handed out.
\<close>

locale kernel_heap =
  fixes inv :: "'s \<Rightarrow> (u32 \<times> nat) set \<Rightarrow> bool"
    and mal :: "u32 \<Rightarrow> 's \<Rightarrow> (u32 \<times> 's) option"
    and fre :: "u32 \<Rightarrow> 's \<Rightarrow> 's option"
    and put :: "u32 \<Rightarrow> u32 \<Rightarrow> 's \<Rightarrow> 's"
    and rd :: "u32 \<Rightarrow> 's \<Rightarrow> u32"
  assumes mal_spec: "inv s own \<Longrightarrow> size_ok sz \<Longrightarrow> \<exists>r s'. mal sz s = Some (r, s') \<and>
        (if r = 0 then inv s' own else inv s' (insert (r, capacity sz) own) \<and> r \<notin> fst ` own) \<and>
        (\<forall>p k x. (p, k) \<in> own \<and> unat x \<in> span p k \<longrightarrow> rd x s' = rd x s)"
    and fre_spec: "inv s own \<Longrightarrow> (r, k) \<in> own \<Longrightarrow> \<exists>s'. fre r s = Some s' \<and> inv s' (own - {(r, k)}) \<and>
        (\<forall>p j x. (p, j) \<in> own - {(r, k)} \<and> unat x \<in> span p j \<longrightarrow> rd x s' = rd x s)"
    and put_spec: "inv s own \<Longrightarrow> (r, k) \<in> own \<Longrightarrow> unat x \<in> span r k \<Longrightarrow> inv (put x v s) own"
    and rd_put: "rd y (put x v s) = (if y = x then v else rd y s)"
    and apart: "inv s own \<Longrightarrow> (r, k) \<in> own \<Longrightarrow> (r', k') \<in> own \<Longrightarrow> (r, k) \<noteq> (r', k') \<Longrightarrow> span r k \<inter> span r' k' = {}"
    and in_memory: "inv s own \<Longrightarrow> (r, k) \<in> own \<Longrightarrow> unat r + k < 2 ^ 32"
begin

definition client_ok :: "'s \<times> live_mem list \<Rightarrow> bool" where
  "client_ok c \<longleftrightarrow> inv (fst c) (set (map mem_of (snd c))) \<and> distinct (map fst (snd c)) \<and> (\<forall>e\<in>set (snd c). contents_ok rd (fst c) e)"

lemma word_in_piece:
  assumes "inv s own" "(r, k) \<in> own" "4 * w + 4 \<le> k"
  shows "unat (r + 4 * of_nat w) = unat r + 4 * w" "unat (r + 4 * of_nat w) \<in> span r k"
  using unat_word_offset [OF in_memory [OF assms(1,2)] assms(3)] by auto

lemma contents_frame:
  assumes "inv s own" "mem_of e \<in> own" "contents_ok rd s e" "\<And>x. unat x \<in> span (fst (mem_of e)) (snd (mem_of e)) \<Longrightarrow> rd x s' = rd x s"
  shows "contents_ok rd s' e"
proof -
  obtain r k c where e: "e = (r, k, c)" by (cases e)
  have "rd (r + 4 * of_nat w) s' = rd (r + 4 * of_nat w) s" if "4 * w + 4 \<le> k" for w
    using word_in_piece(2) [OF assms(1) _ that, of r] assms(2,4) e by (auto simp: mem_of_def)
  then show ?thesis using assms(3) e by (auto simp: contents_ok_def)
qed

lemma malloc_client_ok:
  assumes "client_ok (s, L)" "size_ok sz"
  shows "\<exists>c'. heap_step mal fre put (Malloc_op sz) (s, L) = Some c' \<and> client_ok c'"
proof -
  have c: "inv s (set (map mem_of L))" "distinct (map fst L)" "\<forall>e\<in>set L. contents_ok rd s e" using assms by (auto simp: client_ok_def)
  from mal_spec [OF c(1) assms(2)] obtain r s' where m: "mal sz s = Some (r, s')"
    "if r = 0 then inv s' (set (map mem_of L)) else inv s' (insert (r, capacity sz) (set (map mem_of L))) \<and> r \<notin> fst ` set (map mem_of L)"
    "\<forall>p k x. (p, k) \<in> set (map mem_of L) \<and> unat x \<in> span p k \<longrightarrow> rd x s' = rd x s" by blast
  have old: "\<forall>e\<in>set L. contents_ok rd s' e"
  proof
    fix e
    assume e: "e \<in> set L"
    then have "mem_of e \<in> set (map mem_of L)" by simp
    from contents_frame [OF c(1) this] c(3) e m(3) this show "contents_ok rd s' e" by (metis prod.collapse)
  qed
  have fs: "fst ` set (map mem_of L) = fst ` set L" by (force simp: mem_of_def)
  show ?thesis
  proof (cases "r = 0")
    case True
    then show ?thesis using m(1,2) old c(2) by (simp add: client_ok_def)
  next
    case False
    then have i: "inv s' (insert (r, capacity sz) (set (map mem_of L)))" "r \<notin> fst ` set L" using m(2) fs by auto
    moreover have "contents_ok rd s' (r, capacity sz, Map.empty)" by (simp add: contents_ok_def)
    ultimately have "client_ok (s', (r, capacity sz, Map.empty) # L)" using old c(2) by (simp add: client_ok_def mem_of_def)
    then show ?thesis using m(1) False by simp
  qed
qed

lemma free_client_ok:
  assumes "client_ok (s, L)" shows "\<exists>c'. heap_step mal fre put (Free_op i) (s, L) = Some c' \<and> client_ok c'"
proof (cases "i < length L")
  case True
  have c: "inv s (set (map mem_of L))" "distinct (map fst L)" "\<forall>e\<in>set L. contents_ok rd s e" using assms by (auto simp: client_ok_def)
  obtain r k f where rk: "L ! i = (r, k, f)" by (cases "L ! i") auto
  have inL: "(r, k, f) \<in> set L" using nth_mem [OF True] rk by simp
  then have own: "(r, k) \<in> set (map mem_of L)" by (force simp: mem_of_def)
  from fre_spec [OF c(1) own] obtain s' where f: "fre r s = Some s'" "inv s' (set (map mem_of L) - {(r, k)})"
    "\<forall>p j x. (p, j) \<in> set (map mem_of L) - {(r, k)} \<and> unat x \<in> span p j \<longrightarrow> rd x s' = rd x s" by blast
  let ?L = "take i L @ drop (Suc i) L"
  have sp: "L = take i L @ (r, k, f) # drop (Suc i) L" using id_take_nth_drop [OF True] rk by simp
  then have d: "distinct (map fst (take i L @ (r, k, f) # drop (Suc i) L))" using c(2) by simp
  then have d': "distinct (map fst ?L)" "r \<notin> fst ` set ?L" by auto
  have sub: "set ?L \<subseteq> set L" by (auto dest: in_set_takeD in_set_dropD)
  have ms: "set (map mem_of ?L) = set (map mem_of L) - {(r, k)}"
  proof -
    have "set (map mem_of L) = insert (r, k) (set (map mem_of ?L))" by (subst sp) (auto simp: mem_of_def)
    moreover have "(r, k) \<notin> set (map mem_of ?L)" using d'(2) by (force simp: mem_of_def)
    ultimately show ?thesis by blast
  qed
  have old: "\<forall>e\<in>set ?L. contents_ok rd s' e"
  proof
    fix e
    assume e: "e \<in> set ?L"
    then have me: "mem_of e \<in> set (map mem_of L) - {(r, k)}" using ms by auto
    then have "mem_of e \<in> set (map mem_of L)" by blast
    moreover have "contents_ok rd s e" using c(3) e sub by blast
    ultimately show "contents_ok rd s' e" using contents_frame [OF c(1)] f(3) me by (metis prod.collapse)
  qed
  show ?thesis using True rk f(1) f(2) [folded ms] d'(1) old by (simp add: client_ok_def image_Un)
qed (use assms in auto)

lemma store_client_ok:
  assumes "client_ok (s, L)" shows "\<exists>c'. heap_step mal fre put (Store_op i w v) (s, L) = Some c' \<and> client_ok c'"
proof (cases "i < length L")
  case True
  have c: "inv s (set (map mem_of L))" "distinct (map fst L)" "\<forall>e\<in>set L. contents_ok rd s e" using assms by (auto simp: client_ok_def)
  obtain r k f where rk: "L ! i = (r, k, f)" by (cases "L ! i") auto
  have inL: "(r, k, f) \<in> set L" using nth_mem [OF True] rk by simp
  then have own: "(r, k) \<in> set (map mem_of L)" by (force simp: mem_of_def)
  show ?thesis
  proof (cases "4 * w + 4 \<le> k")
    case fit: True
    let ?x = "r + 4 * of_nat w" and ?L = "L[i := (r, k, f(w \<mapsto> v))]"
    let ?s = "put ?x v s"
    note wp = word_in_piece [OF c(1) own fit]
    have i: "inv ?s (set (map mem_of L))" using put_spec [OF c(1) own wp(2)] .
    have ml: "map mem_of ?L = map mem_of L" "map fst ?L = map fst L"
      using True rk by (auto simp: map_update mem_of_def list_update_same_conv intro!: list_update_same_conv [THEN iffD2])
    have "contents_ok rd ?s (L ! j)" if j: "j < length L" "j \<noteq> i" for j
    proof (rule contents_frame [OF c(1)])
      have jL: "L ! j \<in> set L" using j(1) by simp
      then show "mem_of (L ! j) \<in> set (map mem_of L)" by simp
      show "contents_ok rd s (L ! j)" using c(3) jL by blast
      have "fst (L ! j) \<noteq> r" using c(2) j True rk by (metis distinct_map_fst_nth_neq fst_conv)
      then have "span (fst (mem_of (L ! j))) (snd (mem_of (L ! j))) \<inter> span r k = {}"
        using apart [OF c(1) _ own, of "fst (mem_of (L ! j))" "snd (mem_of (L ! j))"] jL by (auto simp: mem_of_def)
      then show "rd x ?s = rd x s" if "unat x \<in> span (fst (mem_of (L ! j))) (snd (mem_of (L ! j)))" for x
        using that wp(2) by (auto simp: rd_put)
    qed
    moreover have "contents_ok rd ?s (r, k, f(w \<mapsto> v))"
    proof -
      have fo: "4 * w' + 4 \<le> k \<and> rd (r + 4 * of_nat w') s = v'" if "f w' = Some v'" for w' v'
        using c(3) inL that by (auto simp: contents_ok_def)
      have inj: "w' = w" if "4 * w' + 4 \<le> k" and eq: "r + 4 * of_nat w' = ?x" for w'
      proof -
        have "unat r + 4 * w' = unat r + 4 * w"
          using word_in_piece(1) [OF c(1) own that(1)] wp(1) by (simp only: eq)
        then show ?thesis by simp
      qed
      have "rd (r + 4 * of_nat w') ?s = v'" if "f w' = Some v'" "w' \<noteq> w" for w' v'
      proof -
        have "r + 4 * of_nat w' \<noteq> ?x" using inj [of w'] fo [OF that(1)] that(2) by blast
        then show ?thesis using fo [OF that(1)] by (simp only: rd_put if_False)
      qed
      moreover have "rd ?x ?s = v" by (simp add: rd_put)
      ultimately show ?thesis using fo fit unfolding contents_ok_def by simp
    qed
    ultimately have "contents_ok rd ?s (?L ! j)" if "j < length L" for j using that True by (cases "j = i") simp_all
    then have "\<forall>e\<in>set ?L. contents_ok rd ?s e" by (metis in_set_conv_nth length_list_update)
    then show ?thesis using True rk fit i ml c(2) by (simp add: client_ok_def del: list.set_map) (metis list.set_map)
  qed (use assms True rk in auto)
qed (use assms in auto)

lemma step_client_ok: "client_ok c \<Longrightarrow> sizes_ok [x] \<Longrightarrow> \<exists>c'. heap_step mal fre put x c = Some c' \<and> client_ok c'"
  using malloc_client_ok free_client_ok store_client_ok by (cases x; cases c) (simp_all add: sizes_ok_def)

lemma run_client_ok: "client_ok c \<Longrightarrow> sizes_ok xs \<Longrightarrow> \<exists>c'. heap_run mal fre put xs c = Some c' \<and> client_ok c'"
proof (induction xs arbitrary: c)
  case (Cons x xs)
  have xs: "sizes_ok [x]" "sizes_ok xs" using Cons.prems(2) by (simp_all add: sizes_ok_def)
  obtain c1 where "heap_step mal fre put x c = Some c1" "client_ok c1" using step_client_ok [OF Cons.prems(1) xs(1)] by blast
  then show ?case using Cons.IH [OF _ xs(2), of c1] by simp
qed simp

lemma client_apart:
  assumes "client_ok (s, L)" "i < length L" "j < length L" "i \<noteq> j"
  shows "span (fst (L ! i)) (fst (snd (L ! i))) \<inter> span (fst (L ! j)) (fst (snd (L ! j))) = {}"
proof -
  have c: "inv s (set (map mem_of L))" "distinct (map fst L)" using assms by (auto simp: client_ok_def)
  have "fst (L ! i) \<noteq> fst (L ! j)" using c(2) assms(2-) by (metis distinct_map_fst_nth_neq)
  moreover have "mem_of (L ! i) \<in> set (map mem_of L)" "mem_of (L ! j) \<in> set (map mem_of L)" using assms(2,3) by auto
  ultimately show ?thesis using apart [OF c(1)] by (auto simp: mem_of_def)
qed

end

section \<open>The kernel heap satisfies the contract\<close>

definition heap_inv :: "u32 \<Rightarrow> slob_heap \<Rightarrow> (u32 \<times> nat) set \<Rightarrow> bool" where
  "heap_inv A s own \<longleftrightarrow> (\<exists>M S H B. heap_ok A M S H B s \<and> owned M S B = own) \<and> \<not> swap_init_ok (vm s)"

interpretation kh: kernel_heap "heap_inv A" kmalloc kfree put_word word_at for A
proof
  fix s own sz
  assume i: "heap_inv A s own" and sz: "size_ok sz"
  then obtain M S H B where h: "heap_ok A M S H B s" "owned M S B = own" "\<not> swap_init_ok (vm s)" by (auto simp: heap_inv_def)
  obtain r M' S' H' B' s' where k: "kmalloc sz s = Some (r, s')" "heap_ok A M' S' H' B' s'"
      "kmalloc_result sz s M S B r s' (owned M' S' B')" "swap_init_ok (vm s') = swap_init_ok (vm s)"
    using kmalloc_total [OF h(1) sz disjI1 [OF h(3)]] by blast
  have "heap_inv A s' (owned M' S' B')" using k(2,4) h(3) by (auto simp: heap_inv_def)
  then show "\<exists>r s'. kmalloc sz s = Some (r, s') \<and>
        (if r = 0 then heap_inv A s' own else heap_inv A s' (insert (r, capacity sz) own) \<and> r \<notin> fst ` own) \<and>
        (\<forall>p k x. (p, k) \<in> own \<and> unat x \<in> span p k \<longrightarrow> word_at x s' = word_at x s)"
    using k(1,3) h(2) by (intro exI [of _ r] exI [of _ s']) (simp add: kmalloc_result_def intact_def split: if_splits)
next
  fix s own r k
  assume i: "heap_inv A s own" and r: "(r, k) \<in> own"
  then obtain M S H B where h: "heap_ok A M S H B s" "owned M S B = own" "\<not> swap_init_ok (vm s)" by (auto simp: heap_inv_def)
  obtain M' S' B' s' where f: "kfree r s = Some s'" "heap_ok A M' S' H B' s'" "owned M' S' B' = owned M S B - {(r, k)}"
      "intact M' S' B' s s'" "swap_init_ok (vm s') = swap_init_ok (vm s)"
    using kfree_ok [OF h(1), of r k] r h(2) by blast
  have "heap_inv A s' (own - {(r, k)})" using f(2,3,5) h(2,3) by (auto simp: heap_inv_def)
  then show "\<exists>s'. kfree r s = Some s' \<and> heap_inv A s' (own - {(r, k)}) \<and>
        (\<forall>p j x. (p, j) \<in> own - {(r, k)} \<and> unat x \<in> span p j \<longrightarrow> word_at x s' = word_at x s)"
    using f(1,3,4) h(2) unfolding intact_def by blast
next
  fix s own r k v and x :: u32
  assume "heap_inv A s own" and "(r, k) \<in> own" and "unat x \<in> span r k"
  then show "heap_inv A (put_word x v s) own" using client_store_ok by (fastforce simp: heap_inv_def)
next
  fix s own r k r' k'
  assume "heap_inv A s own" "(r, k) \<in> own" "(r', k') \<in> own" "(r, k) \<noteq> (r', k')"
  then show "span r k \<inter> span r' k' = {}" unfolding heap_inv_def using owned_disjoint by blast
next
  fix s own r k
  assume "heap_inv A s own" "(r, k) \<in> own"
  then show "unat r + k < 2 ^ 32" using owned_bounds by (auto simp: heap_inv_def)
qed simp

lemma slob_start_ok:
  assumes pg: "pages_ok A {} (pm v) (npage v)" and al: "aligned8 A"
  shows "heap_ok A [A \<mapsto> 1] {A} {} [] (slob_start A v)" "owned [A \<mapsto> 1] {A} [] = {}"
proof -
  let ?s = "slob_start A v"
  have w: "units A ?s = 1" "slob_next A ?s = A" using al by (simp_all add: slob_start_def sint_small)
  have e: "pm (vm ?s) = pm v" "npage (vm ?s) = npage v" "slobfree ?s = A" "bigblocks ?s = 0"
    by (simp_all add: slob_start_def set_units_def set_slob_next_def)
  have "unat A + 8 < 2 ^ 32" using pg by (simp add: pages_ok_def)
  then have pk: "packed [A \<mapsto> 1]" using al by (simp add: packed_def)
  have "flist [A \<mapsto> 1] {A} (\<lambda>p. slob_next p ?s) ?s" using pk w by (simp add: flist_def cyclic_def succ_in_def)
  moreover have "neighbours [A \<mapsto> 1] {A} = {}" by (auto simp: neighbours_def)
  moreover have "area [A \<mapsto> 1] UNIV = heap_area A {}" by (simp add: area_def heap_area_def)
  ultimately have so: "slob_ok A [A \<mapsto> 1] {A} {} ?s" using pg e by (simp add: slob_ok_def)
  have u: "used_blocks [A \<mapsto> 1] {A} = {}" by (auto simp: used_blocks_def)
  show "heap_ok A [A \<mapsto> 1] {A} {} [] ?s" using so e u by (simp add: heap_ok_def live_ok_def)
  show "owned [A \<mapsto> 1] {A} [] = {}" using u by (simp add: owned_def small_mem_def big_mem_def)
qed

lemma client_start_ok:
  assumes "pages_ok A {} (pm v) (npage v)" "aligned8 A" "\<not> swap_init_ok v"
  shows "kh.client_ok A (slob_start A v, [])"
proof -
  have "swap_init_ok (vm (slob_start A v)) = swap_init_ok v"
    by (simp add: slob_start_def set_units_def set_slob_next_def put_word_def store_word_def)
  then have "heap_inv A (slob_start A v) {}" using slob_start_ok [OF assms(1,2)] assms(3) unfolding heap_inv_def by blast
  then show ?thesis by (simp add: kh.client_ok_def)
qed

section \<open>Limits\<close>

lemma capacity_small: "unat sz < 4088 \<Longrightarrow> unat sz \<le> capacity sz \<and> capacity sz < unat sz + 8"
  by (auto simp: capacity_def)

lemma capacity_big:
  assumes "4088 \<le> unat sz" "unat sz < 2 ^ 31"
  shows "unat sz < capacity sz + 2 ^ find_order (sint sz)" "capacity sz \<le> 2 * unat sz + 16"
proof -
  let ?o = "find_order (sint sz)"
  have u: "uint sz = int (unat sz)" by (rule uint_nat)
  have "int (unat sz) < int (2 ^ 31)" using assms(2) by (simp only: of_nat_less_iff)
  then have "uint sz < int (2 ^ 31)" by (simp only: u)
  then have lt: "uint sz < 2 ^ 31" by simp
  have ge: "- (2 ^ 31) \<le> uint sz" using uint_ge_0 [of sz] by (rule order_trans [rotated]) simp
  have "sint sz = uint sz" using signed_take_bit_int_eq_self [OF ge lt] by (simp add: sint_uint)
  then have s: "sint sz = int (unat sz)" using u by (rule trans)
  have c: "capacity sz = 4096 * 2 ^ ?o" using assms by (simp add: capacity_def)
  have "int (unat sz) < int (4097 * 2 ^ ?o)" using find_order_bounds(2) [of "sint sz"] s by simp
  then show "unat sz < capacity sz + 2 ^ ?o" unfolding c by linarith
  show "capacity sz \<le> 2 * unat sz + 16"
  proof (cases ?o)
    case 0
    then show ?thesis using c assms(1) by simp
  next
    case (Suc j)
    then have "int (4096 * 2 ^ j) < int (unat sz)" using find_order_bounds(1) [of "sint sz"] s by simp
    then have "4096 * 2 ^ j < unat sz" by linarith
    then show ?thesis using c Suc by simp
  qed
qed

lemma kmalloc_refused: "4080 \<le> unat sz \<Longrightarrow> unat sz < 4088 \<Longrightarrow> kmalloc sz s = None"
proof -
  assume a: "4080 \<le> unat sz" "unat sz < 4088"
  have l: "sz < PGSIZE - SLOB_UNIT" using a by (simp add: PGSIZE_def SLOB_UNIT_def word_less_nat_alt)
  have u: "unat (sz + SLOB_UNIT) = unat sz + 8" unfolding SLOB_UNIT_def using a by (subst unat_add_no_wrap) auto
  have "unat (sz + SLOB_UNIT + SLOB_UNIT) = unat (sz + SLOB_UNIT) + unat SLOB_UNIT"
    by (rule unat_add_no_wrap) (use u a in \<open>simp add: SLOB_UNIT_def\<close>)
  then have "unat (sz + SLOB_UNIT + SLOB_UNIT) = unat sz + 16" using u by (simp add: SLOB_UNIT_def)
  then have "\<not> sz + SLOB_UNIT + SLOB_UNIT < PGSIZE" using a by (simp add: PGSIZE_def word_less_nat_alt)
  then show ?thesis using l by (simp add: kmalloc_def slob_alloc_def)
qed

lemma kmalloc_zero:
  assumes "units (slobfree s) s = 1" "slob_next (slobfree s) s = slobfree s" "aligned8 (slobfree s)" "slobfree s \<noteq> 0"
  shows "kmalloc 0 s = Some (slob_plus (slobfree s) 1, (set_slob_next (slobfree s) (slobfree s) s)\<lparr>slobfree := slobfree s\<rparr>)"
proof -
  have "SLOB_UNITS 8 = 1" by (simp add: SLOB_UNITS_def SLOB_UNIT_def)
  then have "slob_search 8 (SLOB_UNITS 8) 0 (slobfree s) (slobfree s) s = Some (slobfree s, take_front 1 (slobfree s) (slobfree s) s)"
    using slob_search_step [of 8 "SLOB_UNITS 8" "slobfree s" "slobfree s" s] assms(1) by simp
  moreover have "take_front 1 (slobfree s) (slobfree s) s = (set_slob_next (slobfree s) (slobfree s) s)\<lparr>slobfree := slobfree s\<rparr>"
    using assms by (simp add: take_front_def)
  ultimately show ?thesis using assms by (simp add: kmalloc_def slob_alloc_def PGSIZE_def SLOB_UNIT_def)
qed

lemma kmalloc_zero_twice:
  assumes "aligned8 A" "A \<noteq> 0"
  shows "\<exists>r s1 s2. kmalloc 0 (slob_start A v) = Some (r, s1) \<and> kmalloc 0 s1 = Some (r, s2) \<and> r = slob_plus A 1"
proof -
  let ?s = "slob_start A v"
  have w: "units A ?s = 1" "slob_next A ?s = A" "slobfree ?s = A"
    using assms by (simp_all add: slob_start_def sint_small)
  let ?s1 = "(set_slob_next A A ?s)\<lparr>slobfree := A\<rparr>"
  have "kmalloc 0 ?s = Some (slob_plus A 1, ?s1)" using kmalloc_zero [of ?s] w assms by simp
  moreover have "units A ?s1 = 1" "slob_next A ?s1 = A" "slobfree ?s1 = A" using w assms by simp_all
  then have "kmalloc 0 ?s1 = Some (slob_plus A 1, (set_slob_next A A ?s1)\<lparr>slobfree := A\<rparr>)"
    using kmalloc_zero [of ?s1] assms by simp
  ultimately show ?thesis by blast
qed

lemma find_order_8193: "find_order 8193 = 1"
  by (simp add: find_order.simps drop_bit_eq_div)

section \<open>Properties\<close>

text \<open>A small machine: eight pages, the first two of which hold the kernel image with the static block at its start.\<close>

definition demo_machine :: vmsys where
  "demo_machine = \<lparr>pm = demo_pmm, npage = 8, kmem = (\<lambda>_. 0), swap_init_ok = False, cur_pgdir = 0,
     tlb = (\<lambda>_. \<lparr>entry_hi = 0, entry_lo0 = 0, entry_lo1 = 0\<rparr>), tlb_algo_empty = [], tlb_algo_n = 0, tlb_algo_hi = [],
     tlb_algo_ptr = 0, pra_list = [], pra_vaddr = (\<lambda>_. 0)\<rparr>"

lemma demo_pages_ok: "pages_ok 0x80000000 {} (pm demo_machine) (npage demo_machine)" "aligned8 0x80000000" "\<not> swap_init_ok demo_machine"
proof -
  have "managed 8 demo_pmm \<subseteq> {2..}"
    by (auto simp: managed_def demo_pmm_def PageReserved_def test_bit_def PG_reserved_def split: if_splits)
  then have "unat (0x80000000 :: u32) + 8 < 2 ^ 31 + 4096 * q" if "q \<in> managed 8 demo_pmm" for q
    using that by auto
  then show "pages_ok 0x80000000 {} (pm demo_machine) (npage demo_machine)"
    unfolding pages_ok_def using demo_pmm_inv by (simp add: demo_machine_def)
  show "aligned8 0x80000000" "\<not> swap_init_ok demo_machine" by (simp_all add: aligned8_def demo_machine_def)
qed

text \<open>
  C5: the kernel heap is safe for clients that respect its limits. Start from the heap as the kernel starts it, with the
  static block in the kernel image below all pages under management and the swap manager off, and run any sequence of
  allocations, releases of pieces in use and stores of words into them, in which no request is for 0, for 4080 to 4087,
  or for 2 GiB and more bytes (\<open>kmalloc_limits\<close> shows that \<open>kmalloc\<close> panics on the second kind and hands out an
  address twice on the first). No operation panics or runs forever; two pieces in use never overlap and no piece overlaps a page that the page allocator
  considers free; each is aligned to 8 bytes; and every word a client stored into its piece is still there.
\<close>

theorem kernel_heap_safe:
  assumes "pages_ok A {} (pm v) (npage v)" and "aligned8 A" and "\<not> swap_init_ok v"
    and "\<forall>sz. Malloc_op sz \<in> set xs \<longrightarrow> 0 < unat sz \<and> unat sz < 2 ^ 31 \<and> \<not> (4080 \<le> unat sz \<and> unat sz < 4088)"
  shows "\<exists>s L. heap_run kmalloc kfree put_word xs (slob_start A v, []) = Some (s, L) \<and>
    (\<forall>i < length L. \<forall>j < length L. i \<noteq> j \<longrightarrow>
       span (fst (L ! i)) (fst (snd (L ! i))) \<inter> span (fst (L ! j)) (fst (snd (L ! j))) = {}) \<and>
    (\<forall>(r, k, c) \<in> set L. r \<noteq> 0 \<and> aligned8 r \<and> span r k \<inter> (\<Union>q\<in>free_page_set (pm (vm s)). page_region q) = {} \<and>
       (\<forall>w x. c w = Some x \<longrightarrow> word_at (r + 4 * of_nat w) s = x))"
proof -
  have "sizes_ok xs" using assms(4) by (auto simp: sizes_ok_def list_all_iff size_ok_def split: heap_op.split)
  then obtain s L where r: "heap_run kmalloc kfree put_word xs (slob_start A v, []) = Some (s, L)" "kh.client_ok A (s, L)"
    using kh.run_client_ok [OF client_start_ok [OF assms(1-3)], of xs] by auto
  then have c: "heap_inv A s (set (map mem_of L))" "\<forall>e\<in>set L. contents_ok word_at s e" by (auto simp: kh.client_ok_def)
  from c(1) obtain M S H B where h: "heap_ok A M S H B s" "owned M S B = set (map mem_of L)" by (auto simp: heap_inv_def)
  have "r \<noteq> 0 \<and> aligned8 r \<and> span r k \<inter> (\<Union>q\<in>free_page_set (pm (vm s)). page_region q) = {} \<and>
       (\<forall>w x. f w = Some x \<longrightarrow> word_at (r + 4 * of_nat w) s = x)" if e: "(r, k, f) \<in> set L" for r k f
  proof -
    have "(r, k) \<in> owned M S B" unfolding h(2) using e by (force simp: mem_of_def)
    then show ?thesis using owned_bounds [OF h(1)] owned_outside [OF h(1) _ order_refl] c(2) e by (fastforce simp: contents_ok_def)
  qed
  then show ?thesis using r(1) kh.client_apart [OF r(2)] by blast
qed

theorem kernel_heap_safe_witness:
  "\<exists>s L. heap_run kmalloc kfree put_word [Malloc_op 100, Malloc_op 5000, Store_op 0 3 7, Free_op 1, Malloc_op 8] (slob_start 0x80000000 demo_machine, []) = Some (s, L) \<and>
    (\<forall>i < length L. \<forall>j < length L. i \<noteq> j \<longrightarrow>
       span (fst (L ! i)) (fst (snd (L ! i))) \<inter> span (fst (L ! j)) (fst (snd (L ! j))) = {})"
  using kernel_heap_safe [OF demo_pages_ok, of "[Malloc_op 100, Malloc_op 5000, Store_op 0 3 7, Free_op 1, Malloc_op 8]"]
  by (simp add: all_conj_distrib imp_conjL) blast

text \<open>
  C17: on every consistent heap, for every size other than 0, 4080 to 4087 and 2 GiB or more, and while two pages are free
  or the swap manager is off, \<open>kmalloc\<close> returns. It gives NULL and
  leaves every piece in use as it was, or a piece of the computed capacity at a new address that is aligned to 8
  bytes, without touching the other pieces. It refuses a small request only when no page is left. Giving the piece back
  with \<open>kfree\<close> succeeds and restores exactly the set of pieces in use, with their contents.
\<close>

theorem kmalloc_kfree_correct:
  assumes "heap_ok A M S H B s" and "0 < unat sz" and "unat sz < 2 ^ 31" and "\<not> (4080 \<le> unat sz \<and> unat sz < 4088)"
    and "\<not> swap_init_ok (vm s) \<or> 2 \<le> card (free_page_set (pm (vm s)))"
  shows "\<exists>r s1 M1 S1 H1 B1. kmalloc sz s = Some (r, s1) \<and> heap_ok A M1 S1 H1 B1 s1 \<and> intact M S B s s1 \<and>
    (r = 0 \<longrightarrow> owned M1 S1 B1 = owned M S B \<and> (unat sz < 4080 \<longrightarrow> free_page_set (pm (vm s)) = {})) \<and>
    (r \<noteq> 0 \<longrightarrow> owned M1 S1 B1 = insert (r, capacity sz) (owned M S B) \<and> r \<notin> fst ` owned M S B \<and> aligned8 r \<and>
      (\<exists>s2 M2 S2 B2. kfree r s1 = Some s2 \<and> heap_ok A M2 S2 H1 B2 s2 \<and> owned M2 S2 B2 = owned M S B \<and> intact M S B s s2))"
proof -
  have sz: "size_ok sz" using assms(2-4) by (simp add: size_ok_def)
  obtain r s1 M1 S1 H1 B1 where k: "kmalloc sz s = Some (r, s1)" "heap_ok A M1 S1 H1 B1 s1"
      "kmalloc_result sz s M S B r s1 (owned M1 S1 B1)"
    using kmalloc_total [OF assms(1) sz assms(5)] by blast
  have empty: "free_page_set (pm (vm s)) = {}" if "r = 0" "unat sz < 4080"
    using kmalloc_small_ok [OF assms(1) _ that(2)] sz assms(5) k(1) that(1) by (auto simp: size_ok_def)
  have "\<exists>s2 M2 S2 B2. kfree r s1 = Some s2 \<and> heap_ok A M2 S2 H1 B2 s2 \<and> owned M2 S2 B2 = owned M S B \<and> intact M S B s s2"
    if "r \<noteq> 0"
  proof -
    have o: "owned M1 S1 B1 = insert (r, capacity sz) (owned M S B)" "r \<notin> fst ` owned M S B" "intact M S B s s1"
      using k(3) that by (auto simp: kmalloc_result_def)
    have "(r, capacity sz) \<in> owned M1 S1 B1" using o(1) by simp
    from kfree_ok [OF k(2) this] obtain M2 S2 B2 s2 where f: "kfree r s1 = Some s2" "heap_ok A M2 S2 H1 B2 s2"
      "owned M2 S2 B2 = owned M1 S1 B1 - {(r, capacity sz)}" "intact M2 S2 B2 s1 s2" by blast
    have eq: "owned M2 S2 B2 = owned M S B" using f(3) o(1,2) by force
    have "intact M S B s s2" using f(4) o(3) unfolding intact_def eq by metis
    then show ?thesis using f(1,2) eq by blast
  qed
  then show ?thesis using k empty unfolding kmalloc_result_def
    by (intro exI [of _ r] exI [of _ s1] exI [of _ M1] exI [of _ S1] exI [of _ H1] exI [of _ B1]) simp
qed

theorem kmalloc_kfree_correct_witness:
  "\<exists>r s1 s2 M1 S1 H1 B1. kmalloc 100 (slob_start 0x80000000 demo_machine) = Some (r, s1) \<and> r \<noteq> 0 \<and> aligned8 r \<and>
    heap_ok 0x80000000 M1 S1 H1 B1 s1 \<and> owned M1 S1 B1 = {(r, 104)} \<and> kfree r s1 = Some s2"
proof -
  let ?s = "slob_start 0x80000000 demo_machine"
  have pm: "pm (vm ?s) = pm demo_machine" "\<not> swap_init_ok (vm ?s)"
    using demo_pages_ok(3) by (simp_all add: slob_start_def set_units_def set_slob_next_def put_word_def store_word_def)
  have "free_page_set (pm (vm ?s)) \<noteq> {}" unfolding pm by (simp add: demo_machine_def free_page_set_def demo_pmm_def)
  moreover have "capacity 100 = 104" by (simp add: capacity_def)
  ultimately show ?thesis
    using kmalloc_kfree_correct [OF slob_start_ok(1) [OF demo_pages_ok(1,2)], of 100] slob_start_ok(2) [OF demo_pages_ok(1,2)] pm(2)
    by fastforce
qed

text \<open>
  C36: the limits of \<open>kmalloc\<close>. A request for 4080 to 4087 bytes always panics: it takes the branch for small requests and
  then fails the assertion of \<open>slob_alloc\<close>. A smaller request gets its bytes, rounded up to 8. A big request gets
  \<open>4096 * 2 ^ find_order size\<close> bytes, which may be less than asked for: 8193 bytes get two pages. On the heap as the
  kernel starts it, two requests for 0 bytes return the same address, because the static block is handed out and
  stays on the free list. \<open>ksize\<close> of a small piece counts the header.
\<close>

theorem kmalloc_limits:
  "(4080 \<le> unat sz \<and> unat sz < 4088 \<longrightarrow> kmalloc sz s = None) \<and>
   (unat sz < 4080 \<longrightarrow> unat sz \<le> capacity sz \<and> capacity sz < unat sz + 8) \<and>
   (4088 \<le> unat sz \<and> unat sz < 2 ^ 31 \<longrightarrow> unat sz < capacity sz + 2 ^ find_order (sint sz) \<and> capacity sz \<le> 2 * unat sz + 16) \<and>
   capacity 8193 = 8192 \<and>
   (aligned8 A \<and> A \<noteq> 0 \<longrightarrow> (\<exists>r s1 s2. kmalloc 0 (slob_start A v) = Some (r, s1) \<and> kmalloc 0 s1 = Some (r, s2))) \<and>
   (heap_ok A M S H B s \<longrightarrow> (\<forall>(r, k) \<in> small_mem M S B. ksize r s = Some (of_nat (k + 8))) \<and>
      (\<forall>(r, k) \<in> big_mem B. ksize r s = Some (of_nat k)))"
proof (intro conjI impI)
  show "capacity 8193 = 8192" using find_order_8193 by (simp add: capacity_def)
  show "\<exists>r s1 s2. kmalloc 0 (slob_start A v) = Some (r, s1) \<and> kmalloc 0 s1 = Some (r, s2)" if "aligned8 A \<and> A \<noteq> 0"
    using kmalloc_zero_twice [of A v] that by blast
qed (use kmalloc_refused capacity_small capacity_big ksize_ok in auto)

theorem kmalloc_limits_witness:
  "kmalloc 4085 (slob_start 0x80000000 demo_machine) = None \<and>
   (\<exists>r s1 s2. kmalloc 0 (slob_start 0x80000000 demo_machine) = Some (r, s1) \<and> kmalloc 0 s1 = Some (r, s2)) \<and>
   ksize 0 (slob_start 0x80000000 demo_machine) = Some 0"
  using kmalloc_limits [of 4085 "slob_start 0x80000000 demo_machine" "0x80000000" demo_machine] demo_pages_ok(2)
  by (simp add: ksize_def)

end
