(* ===== verification/Iobuf.thy ===== *)
theory Iobuf
  imports Bit_Ops
begin

text \<open>
  I/O buffers (\<open>kern/fs/iobuf.c\<close>) and the block device of the kernel (\<open>kern/fs/devs/dev_disk0.c\<close>).

  An \<open>iobuf\<close> holds the array it was initialised with; \<open>io_base\<close> is the index the C pointer has reached in it.
  A \<open>struct device\<close> is a record with its \<open>d_io\<close> routine and the state that routine works on. Lengths are natural
  numbers: the code only subtracts what it has compared before. The semaphore of the disk is kept as its
  value; taking it while it is zero would sleep, which the model shows as \<open>None\<close>.
\<close>

section \<open>I/O buffers\<close>

record iobuf =
  io_buf :: "u8 list"
  io_base :: nat
  io_offset :: int
  io_len :: nat
  io_resid :: nat

definition iobuf_init :: "u8 list \<Rightarrow> nat \<Rightarrow> int \<Rightarrow> iobuf" where
  "iobuf_init base len offset = \<lparr>io_buf = base, io_base = 0, io_offset = offset, io_len = len, io_resid = len\<rparr>"

definition iobuf_used :: "iobuf \<Rightarrow> nat" where
  "iobuf_used iob = io_len iob - io_resid iob"

definition iobuf_skip :: "iobuf \<Rightarrow> nat \<Rightarrow> iobuf option" where
  "iobuf_skip iob n = do {
     kassert (io_resid iob \<ge> n);
     Some (iob\<lparr>io_base := io_base iob + n, io_offset := io_offset iob + int n, io_resid := io_resid iob - n\<rparr>)
   }"

text \<open>\<open>put_bytes i bs xs\<close> is the array \<open>xs\<close> with \<open>bs\<close> stored from index \<open>i\<close> on (\<open>memmove\<close> into an array),
  \<open>get_bytes\<close> what is read from there. The result of \<open>iobuf_move\<close> is the error code, the number of bytes copied,
  the buffer and the data array.\<close>

definition get_bytes :: "nat \<Rightarrow> nat \<Rightarrow> u8 list \<Rightarrow> u8 list" where
  "get_bytes i n xs = take n (drop i xs)"

definition put_bytes :: "nat \<Rightarrow> u8 list \<Rightarrow> u8 list \<Rightarrow> u8 list" where
  "put_bytes i bs xs = take i xs @ bs @ drop (i + length bs) xs"

definition iobuf_move :: "iobuf \<Rightarrow> u8 list \<Rightarrow> nat \<Rightarrow> bool \<Rightarrow> (int \<times> nat \<times> iobuf \<times> u8 list) option" where
  "iobuf_move iob data len m2b =
     (let alen = (if io_resid iob > len then len else io_resid iob) in
      if alen > 0 then
        let (iob, data) =
              (if m2b then (iob\<lparr>io_buf := put_bytes (io_base iob) (get_bytes 0 alen data) (io_buf iob)\<rparr>, data)
               else (iob, put_bytes 0 (get_bytes (io_base iob) alen (io_buf iob)) data)) in
        do {
          iob \<leftarrow> iobuf_skip iob alen;
          let len = len - alen;
          Some (if len = 0 then 0 else - E_NO_MEM, alen, iob, data)
        }
      else Some (if len = 0 then 0 else - E_NO_MEM, alen, iob, data))"

definition iobuf_move_zeros :: "iobuf \<Rightarrow> nat \<Rightarrow> (int \<times> nat \<times> iobuf) option" where
  "iobuf_move_zeros iob len =
     (let alen = (if io_resid iob > len then len else io_resid iob) in
      if alen > 0 then
        do {
          iob \<leftarrow> iobuf_skip (iob\<lparr>io_buf := put_bytes (io_base iob) (replicate alen 0) (io_buf iob)\<rparr>) alen;
          let len = len - alen;
          Some (if len = 0 then 0 else - E_NO_MEM, alen, iob)
        }
      else Some (if len = 0 then 0 else - E_NO_MEM, alen, iob))"

section \<open>Devices\<close>

record 'd device =
  d_blocks :: nat
  d_blocksize :: nat
  d_open :: "u32 \<Rightarrow> int"
  d_close :: int
  d_ioctl :: "int \<Rightarrow> int"
  d_io :: "nat \<Rightarrow> iobuf \<Rightarrow> bool \<Rightarrow> 'd \<Rightarrow> (int \<times> iobuf \<times> 'd) option"
  d_state :: 'd

text \<open>The calls through the function pointers. The three simple ones of the kernel's devices depend on their arguments
  only; the first argument of \<open>d_io\<close> passes \<open>dev->d_blocks\<close>.\<close>

definition dop_open :: "'d device \<Rightarrow> u32 \<Rightarrow> int" where "dop_open dev open_flags = d_open dev open_flags"
definition dop_close :: "'d device \<Rightarrow> int" where "dop_close dev = d_close dev"
definition dop_ioctl :: "'d device \<Rightarrow> int \<Rightarrow> int" where "dop_ioctl dev op = d_ioctl dev op"

definition dop_io :: "'d device \<Rightarrow> iobuf \<Rightarrow> bool \<Rightarrow> (int \<times> iobuf \<times> 'd device) option" where
  "dop_io dev iob wr = do {
     (ret, iob, d) \<leftarrow> d_io dev (d_blocks dev) iob wr (d_state dev);
     Some (ret, iob, dev\<lparr>d_state := d\<rparr>)
   }"

section \<open>The disk\<close>

text \<open>\<open>disk0\<close> is an image in read-only memory at a fixed address, here a function from byte offsets; its write
  routine only prints a warning.\<close>

definition DISK0_BLKSIZE :: nat where "DISK0_BLKSIZE = 4096"
definition DISK0_BUFSIZE :: nat where "DISK0_BUFSIZE = 4 * DISK0_BLKSIZE"
definition DISK0_DEVSIZE :: nat where "DISK0_DEVSIZE = 0x400000"

record disk0 =
  sfs_img :: "nat \<Rightarrow> u8"
  disk0_buffer :: "u8 list"
  disk0_sem :: int

definition lock_disk0 :: "disk0 \<Rightarrow> disk0 option" where
  "lock_disk0 d = (if disk0_sem d > 0 then Some (d\<lparr>disk0_sem := disk0_sem d - 1\<rparr>) else None)"

definition unlock_disk0 :: "disk0 \<Rightarrow> disk0" where
  "unlock_disk0 d = d\<lparr>disk0_sem := disk0_sem d + 1\<rparr>"

definition disk0_read_blks_nolock :: "nat \<Rightarrow> nat \<Rightarrow> disk0 \<Rightarrow> disk0" where
  "disk0_read_blks_nolock blkno nblks d =
     d\<lparr>disk0_buffer := put_bytes 0 (map (\<lambda>i. sfs_img d (blkno * DISK0_BLKSIZE + i)) [0..<nblks * DISK0_BLKSIZE]) (disk0_buffer d)\<rparr>"

definition disk0_write_blks_nolock :: "nat \<Rightarrow> nat \<Rightarrow> disk0 \<Rightarrow> disk0" where
  "disk0_write_blks_nolock blkno nblks d = d"

text \<open>One round of the loop of \<open>disk0_io\<close>: the number of bytes copied, the buffer, the disk and the next block.\<close>

definition disk0_round :: "nat \<Rightarrow> nat \<Rightarrow> iobuf \<Rightarrow> bool \<Rightarrow> disk0 \<Rightarrow> (nat \<times> nat \<times> iobuf \<times> disk0) option" where
  "disk0_round blkno resid iob wr d =
     (if wr then do {
        (_, copied, iob, buf) \<leftarrow> iobuf_move iob (disk0_buffer d) DISK0_BUFSIZE False;
        kassert (copied \<noteq> 0 \<and> copied \<le> resid \<and> copied mod DISK0_BLKSIZE = 0);
        let nblks = copied div DISK0_BLKSIZE;
        Some (copied, blkno + nblks, iob, disk0_write_blks_nolock blkno nblks (d\<lparr>disk0_buffer := buf\<rparr>))
      } else do {
        let alen = (if DISK0_BUFSIZE > resid then resid else DISK0_BUFSIZE);
        let nblks = alen div DISK0_BLKSIZE;
        let d = disk0_read_blks_nolock blkno nblks d;
        (_, copied, iob, _) \<leftarrow> iobuf_move iob (disk0_buffer d) alen True;
        kassert (copied = alen \<and> copied mod DISK0_BLKSIZE = 0);
        Some (copied, blkno + nblks, iob, d)
      })"

lemma disk0_round_copied: "disk0_round blkno resid iob wr d = Some (copied, r) \<Longrightarrow> 0 < resid \<Longrightarrow> 0 < copied"
  by (auto simp: disk0_round_def Let_def bind_eq_Some_conv kassert_def DISK0_BUFSIZE_def DISK0_BLKSIZE_def split: if_splits prod.splits)

function disk0_loop :: "nat \<Rightarrow> nat \<Rightarrow> iobuf \<Rightarrow> bool \<Rightarrow> disk0 \<Rightarrow> (iobuf \<times> disk0) option" where
  "disk0_loop blkno resid iob wr d =
     (if resid \<noteq> 0 then
        case disk0_round blkno resid iob wr d of
          None \<Rightarrow> None
        | Some (copied, blkno', iob', d') \<Rightarrow> disk0_loop blkno' (resid - copied) iob' wr d'
      else Some (iob, d))"
  by auto
termination
  by (relation "measure (\<lambda>(_, resid, _). resid)") (auto dest!: disk0_round_copied)

declare disk0_loop.simps [simp del]

definition disk0_io :: "nat \<Rightarrow> iobuf \<Rightarrow> bool \<Rightarrow> disk0 \<Rightarrow> (int \<times> iobuf \<times> disk0) option" where
  "disk0_io blocks iob wr d =
     (let offset = io_offset iob; resid = io_resid iob;
          blkno = nat (offset div int DISK0_BLKSIZE mod 2 ^ 32); nblks = resid div DISK0_BLKSIZE in
      if offset mod int DISK0_BLKSIZE \<noteq> 0 \<or> resid mod DISK0_BLKSIZE \<noteq> 0 then Some (- E_INVAL, iob, d)
      else if (blkno + nblks) mod 2 ^ 32 > blocks then Some (- E_INVAL, iob, d)
      else if nblks = 0 then Some (0, iob, d)
      else do {
        d \<leftarrow> lock_disk0 d;
        (iob, d) \<leftarrow> disk0_loop blkno resid iob wr d;
        Some (0, iob, unlock_disk0 d)
      })"

definition disk0_open :: "u32 \<Rightarrow> int" where "disk0_open open_flags = 0"
definition disk0_close :: int where "disk0_close = 0"
definition disk0_ioctl :: "int \<Rightarrow> int" where "disk0_ioctl op = - E_UNIMP"

definition disk0_device_init :: "disk0 \<Rightarrow> bool \<Rightarrow> disk0 device option" where
  "disk0_device_init d kmalloc =
     (if \<not> kmalloc then None
      else Some \<lparr>d_blocks = DISK0_DEVSIZE div DISK0_BLKSIZE, d_blocksize = DISK0_BLKSIZE,
                 d_open = disk0_open, d_close = disk0_close, d_ioctl = disk0_ioctl, d_io = disk0_io,
                 d_state = d\<lparr>disk0_buffer := replicate DISK0_BUFSIZE 0, disk0_sem := 1\<rparr>\<rparr>)"

section \<open>Correctness\<close>

lemma length_put_bytes [simp]: "i + length bs \<le> length xs \<Longrightarrow> length (put_bytes i bs xs) = length xs"
  by (simp add: put_bytes_def)

lemma put_bytes_append:
  "i + length as + length bs \<le> length xs \<Longrightarrow>
   put_bytes (i + length as) bs (put_bytes i as xs) = put_bytes i (as @ bs) xs"
  by (simp add: put_bytes_def add.assoc add.left_commute add.commute)

lemma put_bytes_Nil [simp]: "put_bytes i [] xs = xs"
  by (simp add: put_bytes_def)

lemma get_put_bytes [simp]: "get_bytes 0 (length bs) (put_bytes 0 bs xs) = bs"
  by (simp add: get_bytes_def put_bytes_def)

definition img :: "disk0 \<Rightarrow> nat \<Rightarrow> nat \<Rightarrow> u8 list" where
  "img d i n = map (\<lambda>k. sfs_img d (i + k)) [0..<n]"

lemma length_img [simp]: "length (img d i n) = n"
  by (simp add: img_def)

lemma img_add: "img d i (m + n) = img d i m @ img d (i + m) n"
  by (rule nth_equalityI) (auto simp: img_def nth_append)

text \<open>The state of the disk apart from its transfer buffer.\<close>

definition disk0_same :: "disk0 \<Rightarrow> disk0 \<Rightarrow> bool" where
  "disk0_same d d' \<longleftrightarrow> sfs_img d' = sfs_img d \<and> disk0_sem d' = disk0_sem d \<and> length (disk0_buffer d') = length (disk0_buffer d)"

lemma disk0_same_trans: "disk0_same a b \<Longrightarrow> disk0_same b c \<Longrightarrow> disk0_same a c"
  by (simp add: disk0_same_def)

lemma img_same: "disk0_same d d' \<Longrightarrow> img d' = img d"
  by (auto simp: disk0_same_def img_def fun_eq_iff)

lemma iobuf_move_ok:
  assumes "0 < a" "a = min len (io_resid iob)"
  shows "iobuf_move iob data len m2b = Some (if len = a then 0 else - E_NO_MEM, a,
    \<lparr>io_buf = (if m2b then put_bytes (io_base iob) (get_bytes 0 a data) (io_buf iob) else io_buf iob),
     io_base = io_base iob + a, io_offset = io_offset iob + int a, io_len = io_len iob, io_resid = io_resid iob - a\<rparr>,
    if m2b then data else put_bytes 0 (get_bytes (io_base iob) a (io_buf iob)) data)"
proof -
  have a: "(if io_resid iob > len then len else io_resid iob) = a" using assms(2) by (simp add: min_def)
  have le: "a \<le> io_resid iob" "len - a = 0 \<longleftrightarrow> len = a" using assms(2) by auto
  show ?thesis
    unfolding iobuf_move_def a Let_def using assms(1) le by (cases iob) (simp add: iobuf_skip_def)
qed

lemma disk0_round_ok:
  assumes "io_resid iob = n * DISK0_BLKSIZE" "0 < n" "length (disk0_buffer d) = DISK0_BUFSIZE"
    and "io_base iob + io_resid iob \<le> length (io_buf iob)"
  shows "\<exists>k d'. 0 < k \<and> k \<le> n \<and> disk0_same d d' \<and>
    disk0_round blkno (io_resid iob) iob wr d = Some (k * DISK0_BLKSIZE, blkno + k,
      \<lparr>io_buf = (if wr then io_buf iob else put_bytes (io_base iob) (img d (blkno * DISK0_BLKSIZE) (k * DISK0_BLKSIZE)) (io_buf iob)),
       io_base = io_base iob + k * DISK0_BLKSIZE, io_offset = io_offset iob + int (k * DISK0_BLKSIZE),
       io_len = io_len iob, io_resid = (n - k) * DISK0_BLKSIZE\<rparr>, d')"
proof -
  let ?k = "min n 4" and ?B = DISK0_BLKSIZE
  have B: "0 < ?B" by (simp add: DISK0_BLKSIZE_def)
  have buf: "DISK0_BUFSIZE = 4 * ?B" by (simp add: DISK0_BUFSIZE_def)
  have al: "(if DISK0_BUFSIZE > n * ?B then n * ?B else DISK0_BUFSIZE) = ?k * ?B"
    "(if n * ?B > DISK0_BUFSIZE then DISK0_BUFSIZE else n * ?B) = ?k * ?B"
    unfolding buf using B by (auto simp: min_def)
  have k: "0 < ?k * ?B" "?k * ?B \<le> n * ?B" using assms(2) B by auto
  have sub: "n * ?B - ?k * ?B = (n - ?k) * ?B" by (simp add: diff_mult_distrib)
  have kn: "0 < ?k" "?k \<le> n" using assms(2) by auto
  have kl: "?k * ?B \<le> length (disk0_buffer d)" unfolding assms(3) buf by (intro mult_le_mono1) simp
  show ?thesis
  proof (cases wr)
    case True
    let ?d = "d\<lparr>disk0_buffer := put_bytes 0 (get_bytes (io_base iob) (?k * ?B) (io_buf iob)) (disk0_buffer d)\<rparr>"
    have "length (get_bytes (io_base iob) (?k * ?B) (io_buf iob)) = ?k * ?B"
      unfolding get_bytes_def length_take length_drop by (rule min_absorb2) (use assms(1,4) k(2) in linarith)
    then have "disk0_same d ?d" using kl by (simp add: disk0_same_def)
    moreover have "disk0_round blkno (io_resid iob) iob wr d = Some (?k * ?B, blkno + ?k,
      \<lparr>io_buf = io_buf iob, io_base = io_base iob + ?k * ?B, io_offset = io_offset iob + int (?k * ?B),
       io_len = io_len iob, io_resid = (n - ?k) * ?B\<rparr>, ?d)"
    proof -
      have "?k * ?B = min DISK0_BUFSIZE (io_resid iob)" unfolding assms(1) buf using B by (auto simp: min_def)
      note mv = iobuf_move_ok [OF k(1) this]
      show ?thesis using True k B
        by (simp add: disk0_round_def mv assms(1) sub disk0_write_blks_nolock_def del: mult_eq_0_iff)
    qed
    ultimately show ?thesis using kn True by fastforce
  next
    case False
    let ?d = "disk0_read_blks_nolock blkno ?k d"
    have i: "map (\<lambda>i. sfs_img d (blkno * ?B + i)) [0..<?k * ?B] = img d (blkno * ?B) (?k * ?B)" by (simp add: img_def)
    have buf': "disk0_buffer ?d = put_bytes 0 (img d (blkno * ?B) (?k * ?B)) (disk0_buffer d)"
      unfolding disk0_read_blks_nolock_def i by simp
    have same: "disk0_same d ?d" unfolding disk0_same_def buf' using kl by (simp add: disk0_read_blks_nolock_def)
    have g: "get_bytes 0 (?k * ?B) (disk0_buffer ?d) = img d (blkno * ?B) (?k * ?B)"
      unfolding buf' using get_put_bytes [of "img d (blkno * ?B) (?k * ?B)"] by simp
    have "disk0_round blkno (io_resid iob) iob wr d = Some (?k * ?B, blkno + ?k,
      \<lparr>io_buf = put_bytes (io_base iob) (img d (blkno * ?B) (?k * ?B)) (io_buf iob),
       io_base = io_base iob + ?k * ?B, io_offset = io_offset iob + int (?k * ?B),
       io_len = io_len iob, io_resid = (n - ?k) * ?B\<rparr>, ?d)"
    proof -
      have "?k * ?B = min (?k * ?B) (io_resid iob)" unfolding assms(1) using k(2) by simp
      note mv = iobuf_move_ok [OF k(1) this]
      show ?thesis using False B
        by (simp add: disk0_round_def assms(1) al Let_def mv sub g)
    qed
    then show ?thesis using kn False same by fastforce
  qed
qed

lemma disk0_loop_ok:
  assumes "io_resid iob = n * DISK0_BLKSIZE" "length (disk0_buffer d) = DISK0_BUFSIZE"
    and "io_base iob + io_resid iob \<le> length (io_buf iob)"
  shows "\<exists>d'. disk0_same d d' \<and> disk0_loop blkno (io_resid iob) iob wr d = Some
    (\<lparr>io_buf = (if wr then io_buf iob else put_bytes (io_base iob) (img d (blkno * DISK0_BLKSIZE) (io_resid iob)) (io_buf iob)),
      io_base = io_base iob + io_resid iob, io_offset = io_offset iob + int (io_resid iob), io_len = io_len iob, io_resid = 0\<rparr>, d')"
  using assms
proof (induction n arbitrary: iob d blkno rule: less_induct)
  case (less n)
  let ?B = DISK0_BLKSIZE
  show ?case
  proof (cases "n = 0")
    case True
    then have "io_resid iob = 0" using less.prems(1) by simp
    moreover have "img d (blkno * ?B) 0 = []" by (simp add: img_def)
    moreover have "iob = \<lparr>io_buf = io_buf iob, io_base = io_base iob, io_offset = io_offset iob, io_len = io_len iob, io_resid = io_resid iob\<rparr>"
      by simp
    ultimately show ?thesis by (intro exI [of _ d]) (simp add: disk0_loop.simps disk0_same_def)
  next
    case False
    have B: "0 < ?B" by (simp add: DISK0_BLKSIZE_def)
    obtain k d1 where k: "0 < k" "k \<le> n" "disk0_same d d1" and round: "disk0_round blkno (io_resid iob) iob wr d = Some (k * ?B, blkno + k,
      \<lparr>io_buf = (if wr then io_buf iob else put_bytes (io_base iob) (img d (blkno * ?B) (k * ?B)) (io_buf iob)),
       io_base = io_base iob + k * ?B, io_offset = io_offset iob + int (k * ?B),
       io_len = io_len iob, io_resid = (n - k) * ?B\<rparr>, d1)" (is "_ = Some (_, _, ?iob, _)")
      using disk0_round_ok [OF less.prems(1) _ less.prems(2,3), of blkno wr] False by auto
    have nb: "n * ?B = k * ?B + (n - k) * ?B" using k(2) by (simp flip: add_mult_distrib)
    have le: "io_base iob + k * ?B \<le> length (io_buf iob)" using less.prems(1,3) nb by simp
    have len: "length (io_buf ?iob) = length (io_buf iob)" using le by simp
    have "\<exists>d'. disk0_same d1 d' \<and> disk0_loop (blkno + k) (io_resid ?iob) ?iob wr d1 = Some
      (\<lparr>io_buf = (if wr then io_buf ?iob else put_bytes (io_base ?iob) (img d1 ((blkno + k) * ?B) (io_resid ?iob)) (io_buf ?iob)),
        io_base = io_base ?iob + io_resid ?iob, io_offset = io_offset ?iob + int (io_resid ?iob), io_len = io_len ?iob, io_resid = 0\<rparr>, d')"
    proof (rule less.IH [of "n - k"])
      show "n - k < n" using k by simp
      show "io_resid ?iob = (n - k) * ?B" by simp
      show "length (disk0_buffer d1) = DISK0_BUFSIZE" using k(3) less.prems(2) by (simp add: disk0_same_def)
      show "io_base ?iob + io_resid ?iob \<le> length (io_buf ?iob)" unfolding len using less.prems(1,3) nb by simp
    qed
    then obtain d2 where d2: "disk0_same d1 d2" "disk0_loop (blkno + k) ((n - k) * ?B) ?iob wr d1 = Some
      (\<lparr>io_buf = (if wr then io_buf ?iob else put_bytes (io_base ?iob) (img d1 ((blkno + k) * ?B) (io_resid ?iob)) (io_buf ?iob)),
        io_base = io_base ?iob + io_resid ?iob, io_offset = io_offset ?iob + int (io_resid ?iob), io_len = io_len ?iob, io_resid = 0\<rparr>, d2)"
      by auto
    have "put_bytes (io_base iob + k * ?B) (img d ((blkno + k) * ?B) ((n - k) * ?B)) (put_bytes (io_base iob) (img d (blkno * ?B) (k * ?B)) (io_buf iob)) =
        put_bytes (io_base iob) (img d (blkno * ?B) (n * ?B)) (io_buf iob)"
      using put_bytes_append [of "io_base iob" "img d (blkno * ?B) (k * ?B)" "img d ((blkno + k) * ?B) ((n - k) * ?B)" "io_buf iob"]
        less.prems(1,3) nb img_add [of d "blkno * ?B" "k * ?B" "(n - k) * ?B"] by (simp add: add_mult_distrib)
    moreover have "disk0_loop blkno (io_resid iob) iob wr d = disk0_loop (blkno + k) ((n - k) * ?B) ?iob wr d1"
      using round False less.prems(1) B by (subst disk0_loop.simps) (simp add: diff_mult_distrib)
    ultimately show ?thesis
      using d2 disk0_same_trans [OF k(3) d2(1)] img_same [OF k(3)] less.prems(1) nb by (intro exI [of _ d2]) simp
  qed
qed

lemma disk0_io_ok:
  assumes "io_offset iob = int (b * DISK0_BLKSIZE)" "io_resid iob = n * DISK0_BLKSIZE" "b + n < 2 ^ 32"
    and "io_base iob + io_resid iob \<le> length (io_buf iob)" "length (disk0_buffer d) = DISK0_BUFSIZE" "0 < disk0_sem d"
  shows "if b + n \<le> blocks then
      \<exists>iob' d'. disk0_io blocks iob wr d = Some (0, iob', d') \<and> io_resid iob' = 0 \<and> sfs_img d' = sfs_img d \<and>
        disk0_sem d' = disk0_sem d \<and> length (disk0_buffer d') = length (disk0_buffer d) \<and>
        io_buf iob' = (if wr then io_buf iob
                       else put_bytes (io_base iob) (img d (b * DISK0_BLKSIZE) (n * DISK0_BLKSIZE)) (io_buf iob))
    else disk0_io blocks iob wr d = Some (- E_INVAL, iob, d)"
proof -
  let ?B = DISK0_BLKSIZE
  have B: "0 < ?B" by (simp add: DISK0_BLKSIZE_def)
  have off: "io_offset iob mod int ?B = 0" "io_resid iob mod ?B = 0" "io_resid iob div ?B = n"
    using assms(1,2) B by simp_all
  have "io_offset iob div int ?B = int b" using assms(1) B by simp
  then have blk: "nat (io_offset iob div int ?B mod 2 ^ 32) = b" "(b + n) mod 2 ^ 32 = b + n" using assms(3) by (simp_all add: nat_mod_distrib)
  show ?thesis
  proof (cases "b + n \<le> blocks")
    case False
    then show ?thesis unfolding disk0_io_def Let_def blk off by simp
  next
    case True
    show ?thesis
    proof (cases "n = 0")
      case T: True
      then have "disk0_io blocks iob wr d = Some (0, iob, d)"
        unfolding disk0_io_def Let_def blk off using True by simp
      then show ?thesis using True T assms(2) by (simp add: img_def)
    next
      case F: False
      let ?d = "d\<lparr>disk0_sem := disk0_sem d - 1\<rparr>"
      have i: "img ?d = img d" by (simp add: img_def fun_eq_iff)
      obtain d' where d': "disk0_same ?d d'" "disk0_loop b (io_resid iob) iob wr ?d = Some
        (\<lparr>io_buf = (if wr then io_buf iob else put_bytes (io_base iob) (img d (b * ?B) (io_resid iob)) (io_buf iob)),
          io_base = io_base iob + io_resid iob, io_offset = io_offset iob + int (io_resid iob), io_len = io_len iob, io_resid = 0\<rparr>, d')"
        using disk0_loop_ok [OF assms(2) _ assms(4), of ?d b wr] assms(5) unfolding i by auto
      show ?thesis
        unfolding disk0_io_def Let_def blk off using F True d' assms(2,6)
        by (simp add: lock_disk0_def unlock_disk0_def disk0_same_def)
    qed
  qed
qed

text \<open>
  C21: the block device. A request whose offset or length is not a multiple of the block size is refused with \<open>- E_INVAL\<close>
  and has no effect, and so is an aligned request that reaches past the end of the device. Every other request returns 0
  and is served as a whole: a read delivers exactly the bytes of the requested blocks of the image, whatever their number
  and the size of the transfer buffer; a write reports success as well but stores nothing: the image is unchanged. Offsets
  are the non-negative values of the 32-bit \<open>off_t\<close>, lengths those of \<open>size_t\<close>.
\<close>

theorem disk0_io_correct:
  assumes "0 \<le> io_offset iob" "io_offset iob < 2 ^ 31" "io_resid iob < 2 ^ 32"
    and "io_base iob + io_resid iob \<le> length (io_buf iob)" "length (disk0_buffer d) = DISK0_BUFSIZE" "0 < disk0_sem d"
  shows "if io_offset iob mod int DISK0_BLKSIZE = 0 \<and> io_resid iob mod DISK0_BLKSIZE = 0 \<and>
        nat (io_offset iob) + io_resid iob \<le> blocks * DISK0_BLKSIZE then
      \<exists>iob' d'. disk0_io blocks iob wr d = Some (0, iob', d') \<and> io_resid iob' = 0 \<and> sfs_img d' = sfs_img d \<and>
        disk0_sem d' = disk0_sem d \<and>
        io_buf iob' = (if wr then io_buf iob
                       else put_bytes (io_base iob) (img d (nat (io_offset iob)) (io_resid iob)) (io_buf iob))
    else disk0_io blocks iob wr d = Some (- E_INVAL, iob, d)"
proof (cases "io_offset iob mod int DISK0_BLKSIZE = 0 \<and> io_resid iob mod DISK0_BLKSIZE = 0")
  case False
  then show ?thesis by (auto simp: disk0_io_def Let_def)
next
  case True
  define b n where "b = nat (io_offset iob) div DISK0_BLKSIZE" and "n = io_resid iob div DISK0_BLKSIZE"
  have "nat (io_offset iob) mod DISK0_BLKSIZE = 0" using True assms(1) nat_mod_distrib [of "io_offset iob" "int DISK0_BLKSIZE"] by simp
  then have o: "nat (io_offset iob) = b * DISK0_BLKSIZE" and r: "io_resid iob = n * DISK0_BLKSIZE"
    using True by (auto simp: b_def n_def mod_eq_0_iff_dvd)
  then have oi: "io_offset iob = int (b * DISK0_BLKSIZE)" using assms(1) by linarith
  have lt: "b + n < 2 ^ 32" using oi r assms(2,3) by (simp add: DISK0_BLKSIZE_def)
  have "nat (io_offset iob) + io_resid iob = (b + n) * DISK0_BLKSIZE" unfolding o r by (rule add_mult_distrib [symmetric])
  then have "b + n \<le> blocks \<longleftrightarrow> nat (io_offset iob) + io_resid iob \<le> blocks * DISK0_BLKSIZE"
    by (simp only: mult_le_cancel2) (simp add: DISK0_BLKSIZE_def)
  then have le: "nat (io_offset iob) + io_resid iob \<le> blocks * DISK0_BLKSIZE \<longleftrightarrow> b + n \<le> blocks" by (rule sym)
  show ?thesis
  proof (cases "b + n \<le> blocks")
    case fits: True
    then show ?thesis using disk0_io_ok [OF oi r lt assms(4-6), of blocks wr] True le unfolding o by (auto simp: r)
  next
    case False
    then show ?thesis using disk0_io_ok [OF oi r lt assms(4-6), of blocks wr] True le by simp
  qed
qed

definition demo_disk :: disk0 where
  "demo_disk = \<lparr>sfs_img = of_nat, disk0_buffer = replicate DISK0_BUFSIZE 0, disk0_sem = 1\<rparr>"

theorem disk0_io_correct_witness:
  "(\<exists>iob' d'. disk0_io 1024 (iobuf_init (replicate 4096 0) 4096 8192) False demo_disk = Some (0, iob', d') \<and>
     io_buf iob' = img demo_disk 8192 4096 \<and> sfs_img d' = of_nat) \<and>
   disk0_io 1024 (iobuf_init (replicate 100 0) 100 8192) False demo_disk = Some (- E_INVAL, iobuf_init (replicate 100 0) 100 8192, demo_disk)"
proof
  show "\<exists>iob' d'. disk0_io 1024 (iobuf_init (replicate 4096 0) 4096 8192) False demo_disk = Some (0, iob', d') \<and>
     io_buf iob' = img demo_disk 8192 4096 \<and> sfs_img d' = of_nat"
    using disk0_io_correct [of "iobuf_init (replicate 4096 0) 4096 8192" demo_disk 1024 False]
    by (auto simp: iobuf_init_def DISK0_BLKSIZE_def demo_disk_def put_bytes_def)
  show "disk0_io 1024 (iobuf_init (replicate 100 0) 100 8192) False demo_disk = Some (- E_INVAL, iobuf_init (replicate 100 0) 100 8192, demo_disk)"
    using disk0_io_correct [of "iobuf_init (replicate 100 0) 100 8192" demo_disk 1024 False]
    by (simp add: iobuf_init_def DISK0_BLKSIZE_def demo_disk_def)
qed

end
