(* ===== verification/Stdin.thy ===== *)
theory Stdin
  imports Sync Iobuf
begin

text \<open>
  The console input device (\<open>kern/fs/devs/dev_stdin.c\<close>): a ring buffer that the keyboard interrupt fills and readers
  empty, with a wait queue for readers that find it empty. The position counters are the 32-bit signed \<open>off_t\<close> values
  of the source: they only grow, and after \<open>2 ^ 31 - 1\<close> characters the increment wraps to a negative number, whose
  remainder by the buffer size is a negative index.

  \<open>dev_stdin_read\<close> gives up the processor when the buffer is empty: \<open>dev_stdin_read\<close> below runs up to the call of
  \<open>schedule\<close>, \<open>dev_stdin_read_resume\<close> is the rest once the process runs again. The wait object of a reader is
  identified by the reader's process.
\<close>

section \<open>The driver\<close>

record stdin = sync +
  stdin_buffer :: "nat \<Rightarrow> u8"
  p_rpos :: int
  p_wpos :: int

definition STDIN_BUFSIZE :: nat where "STDIN_BUFSIZE = 4096"

text \<open>The slot of a position: the remainder of C has the sign of the dividend, and a negative one is outside of the array.\<close>

definition stdin_slot :: "int \<Rightarrow> nat option" where
  "stdin_slot p = (if 0 \<le> p \<or> p mod int STDIN_BUFSIZE = 0 then Some (nat (p mod int STDIN_BUFSIZE)) else None)"

definition dev_stdin_write :: "nat \<Rightarrow> u8 \<Rightarrow> 'a stdin_scheme \<Rightarrow> 'a stdin_scheme option" where
  "dev_stdin_write q c s =
     (if c \<noteq> 0 then do {
        i \<leftarrow> stdin_slot (p_wpos s);
        let s = s\<lparr>stdin_buffer := (stdin_buffer s)(i := c)\<rparr>;
        let s = (if int32 (p_wpos s - p_rpos s) < int STDIN_BUFSIZE then s\<lparr>p_wpos := int32 (p_wpos s + 1)\<rparr> else s);
        if \<not> wait_queue_empty q s then wakeup_queue q WT_KBD True s else Some s
      } else Some s)"

text \<open>The loop of \<open>dev_stdin_read\<close> while characters are there: the bytes stored so far and the state.\<close>

fun stdin_take :: "nat \<Rightarrow> u8 list \<Rightarrow> 'a stdin_scheme \<Rightarrow> (u8 list \<times> 'a stdin_scheme) option" where
  "stdin_take 0 acc s = Some (acc, s)"
| "stdin_take (Suc n) acc s =
     (if p_rpos s < p_wpos s then do {
        i \<leftarrow> stdin_slot (p_rpos s);
        stdin_take n (acc @ [stdin_buffer s i]) (s\<lparr>p_rpos := int32 (p_rpos s + 1)\<rparr>)
      } else Some (acc, s))"

text \<open>The result is the bytes read, whether the caller went to sleep, and the state.\<close>

definition dev_stdin_read :: "nat \<Rightarrow> u8 list \<Rightarrow> nat \<Rightarrow> 'a stdin_scheme \<Rightarrow> (u8 list \<times> bool \<times> 'a stdin_scheme) option" where
  "dev_stdin_read q acc len s = do {
     (acc, s) \<leftarrow> stdin_take (len - length acc) acc s;
     if length acc < len then do {
       s \<leftarrow> wait_current_set q (current s) WT_KBD s;
       s \<leftarrow> schedule s;
       Some (acc, True, s)
     } else Some (acc, False, s)
   }"

definition dev_stdin_read_resume :: "nat \<Rightarrow> u8 list \<Rightarrow> nat \<Rightarrow> 'a stdin_scheme \<Rightarrow> (u8 list \<times> bool \<times> 'a stdin_scheme) option" where
  "dev_stdin_read_resume q acc len s = do {
     let wt = current s;
     s \<leftarrow> wait_current_del q wt s;
     if wakeup_flags (waits s wt) = WT_KBD then dev_stdin_read q acc len s
     else Some (acc, False, s)
   }"

definition stdin_open :: "u32 \<Rightarrow> int" where
  "stdin_open open_flags = (if open_flags \<noteq> 0 then - E_INVAL else 0)"

definition stdin_close :: int where
  "stdin_close = 0"

definition stdin_ioctl :: "int" where
  "stdin_ioctl = - E_INVAL"

text \<open>\<open>stdin_io\<close>, with the bytes that \<open>dev_stdin_read\<close> delivers for a request of \<open>io_resid\<close> bytes.\<close>

definition stdin_io :: "u8 list \<Rightarrow> iobuf \<Rightarrow> bool \<Rightarrow> int \<times> iobuf" where
  "stdin_io bs iob wr =
     (if \<not> wr then
        let iob = iob\<lparr>io_buf := put_bytes (io_base iob) bs (io_buf iob)\<rparr>; ret = int (length bs) in
        (ret, if ret > 0 then iob\<lparr>io_resid := io_resid iob - nat ret\<rparr> else iob)
      else (- E_INVAL, iob))"

definition stdin_device_init :: "nat \<Rightarrow> 'a stdin_scheme \<Rightarrow> 'a stdin_scheme" where
  "stdin_device_init q s = wait_queue_init q (s\<lparr>p_rpos := 0, p_wpos := 0\<rparr>)"

section \<open>The unread characters\<close>

definition unread :: "'a stdin_scheme \<Rightarrow> u8 list" where
  "unread s = map (\<lambda>i. stdin_buffer s (i mod STDIN_BUFSIZE)) [nat (p_rpos s)..<nat (p_wpos s)]"

text \<open>The positions before a counter has wrapped.\<close>

definition pos_ok :: "'a stdin_scheme \<Rightarrow> bool" where
  "pos_ok s \<longleftrightarrow> 0 \<le> p_rpos s \<and> p_rpos s \<le> p_wpos s \<and> p_wpos s \<le> p_rpos s + int STDIN_BUFSIZE \<and> p_wpos s < 2 ^ 31"

definition stdin_inv :: "nat \<Rightarrow> 'a stdin_scheme \<Rightarrow> bool" where
  "stdin_inv q s \<longleftrightarrow> sched_inv s \<and> pos_ok s \<and> distinct (wait_head s q) \<and>
     (\<forall>w \<in> set (wait_head s q). w_queue (waits s w) = Some q \<and> w_proc (waits s w) = w \<and> p_state (procs s w) = PROC_SLEEPING)"

text \<open>What typing a character does to the list of unread ones.\<close>

definition typed :: "u8 \<Rightarrow> u8 list \<Rightarrow> u8 list" where
  "typed c cs = (if c = 0 then cs else if length cs < STDIN_BUFSIZE then cs @ [c] else c # tl cs)"

lemma sched_inv_stdin [simp]:
  "sched_inv (s\<lparr>stdin_buffer := b\<rparr>) = sched_inv s" "sched_inv (s\<lparr>p_rpos := r\<rparr>) = sched_inv s"
  "sched_inv (s\<lparr>p_wpos := w\<rparr>) = sched_inv s"
  by (simp_all add: sched_inv_def)

lemma stdin_more:
  assumes "sync.more s' = sync.more (s :: 'a stdin_scheme)"
  shows "stdin_buffer s' = stdin_buffer s" "p_rpos s' = p_rpos s" "p_wpos s' = p_wpos s"
  using assms by (cases s; cases s'; simp)+

lemma unread_more: "sync.more s' = sync.more (s :: 'a stdin_scheme) \<Longrightarrow> unread s' = unread s"
  using stdin_more [of s' s] by (simp add: unread_def)

lemma length_unread [simp]: "length (unread s) = nat (p_wpos s) - nat (p_rpos s)"
  by (simp add: unread_def)

lemma pos_ok_more: "sync.more s' = sync.more (s :: 'a stdin_scheme) \<Longrightarrow> pos_ok s' = pos_ok s"
  using stdin_more [of s' s] by (simp add: pos_ok_def)

lemma stdin_slot_nonneg: "0 \<le> p \<Longrightarrow> stdin_slot p = Some (nat p mod STDIN_BUFSIZE)"
  by (simp add: stdin_slot_def nat_mod_distrib)

lemma ring_slot:
  assumes "i < w" "w < i + STDIN_BUFSIZE"
  shows "i mod STDIN_BUFSIZE \<noteq> w mod STDIN_BUFSIZE"
proof
  assume "i mod STDIN_BUFSIZE = w mod STDIN_BUFSIZE"
  then have "w mod STDIN_BUFSIZE = i mod STDIN_BUFSIZE" by (rule sym)
  then have "STDIN_BUFSIZE dvd w - i" using mod_eq_dvd_iff_nat [of i w STDIN_BUFSIZE] assms(1) by simp
  then have "STDIN_BUFSIZE \<le> w - i" using assms(1) by (intro dvd_imp_le) auto
  then show False using assms by linarith
qed

lemma wakeup_queue_del_ok:
  assumes "sched_inv s" "wait_head s q = ws" "distinct ws"
    and "\<forall>w \<in> set ws. w_queue (waits s w) = Some q \<and> w_proc (waits s w) = w \<and> p_state (procs s w) = PROC_SLEEPING"
  shows "\<exists>s'. wakeup_queue_del q flags ws s = Some s' \<and> sched_inv s' \<and> wait_head s' q = [] \<and> sync.more s' = sync.more s \<and>
    (\<forall>w \<in> set ws. p_state (procs s' w) = PROC_RUNNABLE \<and> wakeup_flags (waits s' w) = flags) \<and>
    (\<forall>w. w \<notin> set ws \<longrightarrow> waits s' w = waits s w \<and> p_state (procs s' w) = p_state (procs s w))"
  using assms
proof (induction ws arbitrary: s)
  case Nil
  then show ?case by auto
next
  case (Cons w ws)
  let ?s = "s\<lparr>wait_head := (wait_head s)(q := ws), waits := (waits s)(w := (waits s w)\<lparr>wakeup_flags := flags\<rparr>)\<rparr>"
  have w: "w_queue (waits s w) = Some q" "w_proc (waits s w) = w" "p_state (procs s w) = PROC_SLEEPING" "w \<notin> set ws"
    using Cons.prems by auto
  have "sched_inv ?s" "p_state (procs ?s w) \<noteq> PROC_ZOMBIE" using Cons.prems(1) w(3) by simp_all
  then obtain t where t: "wakeup_proc w ?s = Some t" "sched_inv t"
    "\<forall>p. p_state (procs t p) = (if p = w then PROC_RUNNABLE else p_state (procs s p))"
    using wakeup_ex [of ?s w] by (auto cong: if_cong)
  have fr: "waits t = waits ?s" "wait_head t = wait_head ?s" "sync.more t = sync.more ?s"
    using wakeup_proc_sync [OF t(1)] by simp_all
  have step: "wakeup_wait q w flags True s = Some t"
    using w Cons.prems(2) t(1) by (simp add: wakeup_wait_def wait_queue_del_def wait_in_queue_def)
  obtain s' where s': "wakeup_queue_del q flags ws t = Some s'" "sched_inv s'" "wait_head s' q = []" "sync.more s' = sync.more t"
    "\<forall>v \<in> set ws. p_state (procs s' v) = PROC_RUNNABLE \<and> wakeup_flags (waits s' v) = flags"
    "\<forall>v. v \<notin> set ws \<longrightarrow> waits s' v = waits t v \<and> p_state (procs s' v) = p_state (procs t v)"
  proof -
    have "wait_head t q = ws" "distinct ws" using Cons.prems(3) by (simp_all add: fr)
    moreover have "\<forall>v \<in> set ws. w_queue (waits t v) = Some q \<and> w_proc (waits t v) = v \<and> p_state (procs t v) = PROC_SLEEPING"
      using Cons.prems(4) t(3) w(4) by (auto simp: fr)
    ultimately show thesis using Cons.IH [OF t(2)] that by blast
  qed
  show ?case
    using step s' t(3) w(4) by (intro exI [of _ s']) (auto simp: fr)
qed

lemma upt_snoc: "i \<le> j \<Longrightarrow> [i..<Suc j] = [i..<j] @ [j]"
  by simp

lemma unread_put:
  assumes "pos_ok s" "length (unread s) < STDIN_BUFSIZE"
  shows "unread (s\<lparr>stdin_buffer := (stdin_buffer s)(nat (p_wpos s) mod STDIN_BUFSIZE := c), p_wpos := p_wpos s + 1\<rparr>) = unread s @ [c]"
proof -
  have "i mod STDIN_BUFSIZE \<noteq> nat (p_wpos s) mod STDIN_BUFSIZE" if "i \<in> set [nat (p_rpos s)..<nat (p_wpos s)]" for i
    using that assms by (intro ring_slot) auto
  then show ?thesis using assms(1) by (simp add: unread_def pos_ok_def nat_add_distrib upt_snoc nat_mono)
qed

lemma unread_put_full:
  assumes "pos_ok s" "\<not> length (unread s) < STDIN_BUFSIZE"
  shows "unread (s\<lparr>stdin_buffer := (stdin_buffer s)(nat (p_wpos s) mod STDIN_BUFSIZE := c)\<rparr>) = c # tl (unread s)"
proof -
  have full: "nat (p_wpos s) = nat (p_rpos s) + STDIN_BUFSIZE" using assms unfolding pos_ok_def length_unread by linarith
  then have pos: "nat (p_rpos s) < nat (p_wpos s)" by (simp add: STDIN_BUFSIZE_def)
  have r: "nat (p_rpos s) mod STDIN_BUFSIZE = nat (p_wpos s) mod STDIN_BUFSIZE" using full by simp
  have "i mod STDIN_BUFSIZE \<noteq> nat (p_wpos s) mod STDIN_BUFSIZE" if "i \<in> set [Suc (nat (p_rpos s))..<nat (p_wpos s)]" for i
    using that full by (intro ring_slot) auto
  then show ?thesis using pos r by (simp add: unread_def upt_conv_Cons)
qed

text \<open>The buffer and the counters after a character, before the readers are woken.\<close>

definition stdin_put :: "u8 \<Rightarrow> 'a stdin_scheme \<Rightarrow> 'a stdin_scheme" where
  "stdin_put c s = s\<lparr>stdin_buffer := (stdin_buffer s)(nat (p_wpos s) mod STDIN_BUFSIZE := c),
     p_wpos := (if length (unread s) < STDIN_BUFSIZE then p_wpos s + 1 else p_wpos s)\<rparr>"

lemma stdin_put_ok:
  assumes "pos_ok s" "p_wpos s < 2 ^ 31 - 1" "c \<noteq> 0"
  shows "unread (stdin_put c s) = typed c (unread s)" "pos_ok (stdin_put c s)"
    and "dev_stdin_write q c s = (if wait_head s q \<noteq> [] then wakeup_queue q WT_KBD True (stdin_put c s) else Some (stdin_put c s))"
proof -
  have b: "0 \<le> p_rpos s" "p_rpos s \<le> p_wpos s" "p_wpos s \<le> p_rpos s + int STDIN_BUFSIZE" using assms(1) by (simp_all add: pos_ok_def)
  show "unread (stdin_put c s) = typed c (unread s)"
    using unread_put [OF assms(1)] unread_put_full [OF assms(1)] assms(3)
    by (cases "length (unread s) < STDIN_BUFSIZE") (simp_all add: stdin_put_def typed_def)
  show "pos_ok (stdin_put c s)" using assms(1,2) by (auto simp: stdin_put_def pos_ok_def)
  have "int32 (p_wpos s - p_rpos s) = p_wpos s - p_rpos s" "int32 (p_wpos s + 1) = p_wpos s + 1"
    by (rule int32_id; use b assms(2) in simp)+
  moreover have "p_wpos s - p_rpos s < int STDIN_BUFSIZE \<longleftrightarrow> length (unread s) < STDIN_BUFSIZE"
    using b unfolding length_unread by linarith
  moreover have "stdin_slot (p_wpos s) = Some (nat (p_wpos s) mod STDIN_BUFSIZE)" using b by (simp add: stdin_slot_nonneg)
  ultimately show "dev_stdin_write q c s = (if wait_head s q \<noteq> [] then wakeup_queue q WT_KBD True (stdin_put c s) else Some (stdin_put c s))"
    using assms(3) by (simp add: dev_stdin_write_def stdin_put_def wait_queue_empty_def Let_def)
qed

lemma stdin_take_ok:
  "pos_ok s \<Longrightarrow> stdin_take n acc s = Some (acc @ take n (unread s), s\<lparr>p_rpos := p_rpos s + int (min n (length (unread s)))\<rparr>)"
proof (induction n arbitrary: acc s)
  case 0
  then show ?case by simp
next
  case (Suc n)
  have b: "0 \<le> p_rpos s" "p_rpos s \<le> p_wpos s" "p_wpos s \<le> p_rpos s + int STDIN_BUFSIZE" "p_wpos s < 2 ^ 31"
    using Suc.prems by (simp_all add: pos_ok_def)
  show ?case
  proof (cases "p_rpos s < p_wpos s")
    case True
    let ?s = "s\<lparr>p_rpos := p_rpos s + 1\<rparr>"
    have w: "int32 (p_rpos s + 1) = p_rpos s + 1" by (rule int32_id) (use b True in simp_all)
    have "unread s = stdin_buffer s (nat (p_rpos s) mod STDIN_BUFSIZE) # unread ?s"
      using True b(1) by (simp add: unread_def upt_conv_Cons nat_add_distrib)
    moreover have "pos_ok ?s" using Suc.prems True by (simp add: pos_ok_def)
    moreover have "p_rpos s + 1 + int (min n (length (unread ?s))) = p_rpos s + int (min (Suc n) (Suc (length (unread ?s))))" by simp
    ultimately show ?thesis using True Suc.IH [of ?s] b(1) by (simp add: stdin_slot_nonneg w del: length_unread)
  next
    case False
    then show ?thesis using b(2) by (simp add: unread_def)
  qed
qed

lemma unread_drop:
  assumes "pos_ok s" "n \<le> length (unread s)"
  shows "unread (s\<lparr>p_rpos := p_rpos s + int n\<rparr>) = drop n (unread s)" "pos_ok (s\<lparr>p_rpos := p_rpos s + int n\<rparr>)"
  using assms by (auto simp: unread_def drop_map pos_ok_def nat_add_distrib)

text \<open>The wrap of the write position: the character after \<open>2 ^ 31 - 1\<close> others makes the buffer look empty, and the
  index of the second one after it is negative.\<close>

lemma dev_stdin_write_wraps:
  assumes "p_wpos s = 2 ^ 31 - 1" "p_rpos s = p_wpos s" "wait_head s q = []" "c \<noteq> 0"
  shows "\<exists>s1 s2. dev_stdin_write q c s = Some s1 \<and> \<not> p_rpos s1 < p_wpos s1 \<and> dev_stdin_write q c s1 = Some s2 \<and>
    dev_stdin_write q c s2 = None"
  using assms by (simp add: dev_stdin_write_def stdin_slot_def STDIN_BUFSIZE_def wait_queue_empty_def Let_def int32_def)

text \<open>
  C22: the input buffer as a list of at most 4096 unread characters, as long as fewer than \<open>2 ^ 31 - 1\<close> characters have
  been stored since boot (\<open>p_wpos s < 2 ^ 31 - 1\<close>). A typed character wakes every waiting reader; while there is room it
  is appended, so that characters are read in the order they were typed. On a full buffer this is no queue: the new
  character overwrites the oldest unread one, in whose place it is the next to be read, before all that were typed
  earlier (\<open>typed\<close>). A read takes characters from the front, continuing after those it has already got, and puts its
  caller to sleep in the wait queue exactly when it is still short of what was asked for.
\<close>

theorem stdin_ring_buffer:
  assumes "stdin_inv q s" "p_wpos s < 2 ^ 31 - 1"
  shows "(c \<noteq> 0 \<longrightarrow> (\<exists>s'. dev_stdin_write q c s = Some s' \<and> stdin_inv q s' \<and> wait_head s' q = [] \<and>
        unread s' = (if length (unread s) < STDIN_BUFSIZE then unread s @ [c] else c # tl (unread s)) \<and>
        (\<forall>w \<in> set (wait_head s q). p_state (procs s' w) = PROC_RUNNABLE \<and> wakeup_flags (waits s' w) = WT_KBD))) \<and>
    dev_stdin_write q 0 s = Some s \<and>
    (current s \<noteq> idleproc s \<and> current s \<notin> set (wait_head s q) \<and> length acc \<le> len \<longrightarrow>
      (\<exists>asleep s'. dev_stdin_read q acc len s = Some (acc @ take (len - length acc) (unread s), asleep, s') \<and> stdin_inv q s' \<and>
        unread s' = drop (len - length acc) (unread s) \<and> (asleep \<longleftrightarrow> length acc + length (unread s) < len) \<and>
        wait_head s' q = (if asleep then wait_head s q @ [current s] else wait_head s q)))"
proof (intro conjI impI)
  have inv: "sched_inv s" "pos_ok s" "distinct (wait_head s q)"
    "\<forall>w \<in> set (wait_head s q). w_queue (waits s w) = Some q \<and> w_proc (waits s w) = w \<and> p_state (procs s w) = PROC_SLEEPING"
    using assms by (auto simp: stdin_inv_def)
  show "dev_stdin_write q 0 s = Some s" by (simp add: dev_stdin_write_def)
  show "\<exists>s'. dev_stdin_write q c s = Some s' \<and> stdin_inv q s' \<and> wait_head s' q = [] \<and>
        unread s' = (if length (unread s) < STDIN_BUFSIZE then unread s @ [c] else c # tl (unread s)) \<and>
        (\<forall>w \<in> set (wait_head s q). p_state (procs s' w) = PROC_RUNNABLE \<and> wakeup_flags (waits s' w) = WT_KBD)"
    if "c \<noteq> 0"
  proof -
    let ?t = "stdin_put c s"
    note put = stdin_put_ok [OF inv(2) assms(2) that]
    have t: "sched_inv ?t" "wait_head ?t = wait_head s" "waits ?t = waits s" "procs ?t = procs s"
      using inv(1) by (simp_all add: stdin_put_def)
    have "\<exists>s'. wakeup_queue_del q WT_KBD (wait_head s q) ?t = Some s' \<and> sched_inv s' \<and> wait_head s' q = [] \<and> sync.more s' = sync.more ?t \<and>
      (\<forall>w \<in> set (wait_head s q). p_state (procs s' w) = PROC_RUNNABLE \<and> wakeup_flags (waits s' w) = WT_KBD) \<and>
      (\<forall>w. w \<notin> set (wait_head s q) \<longrightarrow> waits s' w = waits ?t w \<and> p_state (procs s' w) = p_state (procs ?t w))"
      by (rule wakeup_queue_del_ok) (use t inv in auto)
    then obtain s' where s': "wakeup_queue_del q WT_KBD (wait_head s q) ?t = Some s'" "sched_inv s'" "wait_head s' q = []"
      "sync.more s' = sync.more ?t"
      "\<forall>w \<in> set (wait_head s q). p_state (procs s' w) = PROC_RUNNABLE \<and> wakeup_flags (waits s' w) = WT_KBD" by blast
    have "dev_stdin_write q c s = Some s'"
      using put(3) s'(1) t(2) by (cases "wait_head s q") (auto simp: wakeup_queue_def)
    moreover have "stdin_inv q s'" using s'(2,3) pos_ok_more [OF s'(4)] put(2) by (simp add: stdin_inv_def)
    ultimately show ?thesis using s' unread_more [OF s'(4)] put(1) that by (auto simp: typed_def)
  qed
next
  assume cur: "current s \<noteq> idleproc s \<and> current s \<notin> set (wait_head s q) \<and> length acc \<le> len"
  have inv: "sched_inv s" "pos_ok s" "distinct (wait_head s q)"
    "\<forall>w \<in> set (wait_head s q). w_queue (waits s w) = Some q \<and> w_proc (waits s w) = w \<and> p_state (procs s w) = PROC_SLEEPING"
    using assms by (auto simp: stdin_inv_def)
  let ?k = "len - length acc"
  let ?n = "min ?k (length (unread s))"
  let ?s = "s\<lparr>p_rpos := p_rpos s + int ?n\<rparr>" and ?acc = "acc @ take ?k (unread s)"
  have tk: "stdin_take ?k acc s = Some (?acc, ?s)" using stdin_take_ok [OF inv(2)] by simp
  have pos: "pos_ok ?s" by (rule unread_drop(2) [OF inv(2)]) simp
  have un: "unread ?s = drop ?k (unread s)"
    using unread_drop(1) [OF inv(2), of ?n] by (cases "?k \<le> length (unread s)") (auto simp: min_def)
  have inv': "stdin_inv q ?s" using inv pos by (auto simp: stdin_inv_def)
  have short: "length ?acc < len \<longleftrightarrow> length acc + length (unread s) < len" using cur by (simp add: min_def) linarith
  show "\<exists>asleep s'. dev_stdin_read q acc len s = Some (?acc, asleep, s') \<and> stdin_inv q s' \<and>
        unread s' = drop ?k (unread s) \<and> (asleep \<longleftrightarrow> length acc + length (unread s) < len) \<and>
        wait_head s' q = (if asleep then wait_head s q @ [current s] else wait_head s q)"
  proof (cases "length ?acc < len")
    case False
    then have "dev_stdin_read q acc len s = Some (?acc, False, ?s)"
      by (simp only: dev_stdin_read_def tk bind.simps prod.case if_False)
    then show ?thesis using False un inv' short by auto
  next
    case True
    let ?c = "current s"
    define s1 where "s1 = (upd_proc ?c (p_wait_state_update (\<lambda>_. WT_KBD)) (upd_proc ?c (p_state_update (\<lambda>_. PROC_SLEEPING)) ?s))
      \<lparr>waits := (waits s)(?c := \<lparr>w_proc = ?c, wakeup_flags = WT_INTERRUPTED, w_queue = Some q\<rparr>),
       wait_head := (wait_head s)(q := wait_head s q @ [?c])\<rparr>"
    have set: "wait_current_set q ?c WT_KBD ?s = Some s1"
      by (simp add: wait_current_set_def wait_queue_add_def wait_in_queue_def wait_init_def upd_proc_def s1_def)
    have "sched_inv ?s" "current ?s \<noteq> idleproc ?s" using inv(1) cur by simp_all
    then have inv1: "sched_inv s1" unfolding s1_def using block_inv [of ?s] by (simp add: upd_proc_inv)
    obtain s' where s': "schedule s1 = Some s'" "sched_inv s'" "waits s' = waits s1" "wait_head s' = wait_head s1"
      "sync.more s' = sync.more s1" and st: "\<forall>p. p_state (procs s' p) = p_state (procs s1 p)"
      using schedule_sync_ok [OF inv1] by blast
    have m: "sync.more s' = sync.more ?s" using s'(5) by (simp add: s1_def)
    have "stdin_inv q s'"
      using s'(2) inv cur st pos pos_ok_more [OF m]
      by (auto simp: stdin_inv_def s'(3,4) s1_def)
    moreover have "dev_stdin_read q acc len s = Some (?acc, True, s')"
      using set s'(1) True by (simp only: dev_stdin_read_def tk bind.simps prod.case if_True) simp
    ultimately show ?thesis
      using True un unread_more [OF m] short by (auto simp: s'(4) s1_def)
  qed
qed

definition demo_stdin :: stdin where
  "demo_stdin = \<lparr>procs = (\<lambda>p. demo_proc (if p < 3 then PROC_RUNNABLE else PROC_UNINIT)), current = 1, idleproc = 0,
     run_list = [2], proc_num = 1, max_time_slice = 20, timer_list = [], timers = (\<lambda>_. \<lparr>expires = 0, t_proc = 0\<rparr>),
     waits = (\<lambda>w. \<lparr>w_proc = 0, wakeup_flags = 0, w_queue = None\<rparr>), wait_head = (\<lambda>_. []), sem_value = (\<lambda>_. 1),
     stdin_buffer = (\<lambda>_. 0x61), p_rpos = 4095, p_wpos = 4097\<rparr>"

theorem stdin_ring_buffer_witness:
  "\<exists>s' asleep s''. dev_stdin_write 5 0x62 demo_stdin = Some s' \<and> unread s' = [0x61, 0x61, 0x62] \<and>
     dev_stdin_read 5 [] 4 demo_stdin = Some ([0x61, 0x61], asleep, s'') \<and> asleep \<and> wait_head s'' 5 = [1]"
proof -
  have inv: "stdin_inv 5 demo_stdin" "p_wpos demo_stdin < 2 ^ 31 - 1"
    by (auto simp: stdin_inv_def pos_ok_def sched_inv_def demo_stdin_def demo_proc_def STDIN_BUFSIZE_def)
  have u: "unread demo_stdin = [0x61, 0x61]" by (simp add: unread_def demo_stdin_def upt_rec)
  show ?thesis
    using stdin_ring_buffer [OF inv, of "0x62" "[]" 4] unfolding u by (auto simp: demo_stdin_def STDIN_BUFSIZE_def)
qed

end
