(* ===== verification/Sfs_Io.thy ===== *)
theory Sfs_Io
  imports Bitmap Iobuf
begin

text \<open>
  Block input and output of the simple file system (\<open>kern/fs/sfs/sfs_io.c\<close>, \<open>sfs_lock.c\<close>) with its in-memory
  superblock state (\<open>struct sfs_fs\<close> of \<open>sfs.h\<close>), on a block device.

  Buffers are byte lists passed and returned by value. The two semaphores of the file system are kept as their
  values; taking one that is zero sleeps, which the model shows as \<open>None\<close>. The contract of the device that the file
  system relies on is the locale \<open>block_device\<close>; the kernel's disk is an instance of it.
\<close>

section \<open>The file system in memory\<close>

definition SFS_MAGIC :: u32 where "SFS_MAGIC = 0x2f8dbe2a"
definition SFS_BLKSIZE :: nat where "SFS_BLKSIZE = 4096"
definition SFS_NDIRECT :: u32 where "SFS_NDIRECT = 12"
definition SFS_MAX_INFO_LEN :: nat where "SFS_MAX_INFO_LEN = 31"
definition SFS_MAX_FNAME_LEN :: nat where "SFS_MAX_FNAME_LEN = 255"
definition SFS_MAX_FILE_SIZE :: int where "SFS_MAX_FILE_SIZE = 1024 * 1024 * 128"
definition SFS_BLKN_SUPER :: u32 where "SFS_BLKN_SUPER = 0"
definition SFS_BLKN_ROOT :: u32 where "SFS_BLKN_ROOT = 1"
definition SFS_BLKN_FREEMAP :: u32 where "SFS_BLKN_FREEMAP = 2"
definition SFS_BLKBITS :: u32 where "SFS_BLKBITS = 4096 * 8"
definition SFS_BLK_NENTRY :: u32 where "SFS_BLK_NENTRY = 1024"

record sfs_super =
  sb_magic :: u32
  sb_blocks :: u32
  sb_unused_blocks :: u32
  sb_info :: "u8 list"

record 'd sfs_fs =
  super :: sfs_super
  sfs_dev :: "'d device"
  freemap :: bitmap
  super_dirty :: bool
  sfs_buffer :: "u8 list"
  fs_sem :: int
  io_sem :: int

definition sfs_freemap_bits :: "sfs_super \<Rightarrow> u32" where
  "sfs_freemap_bits sb = ROUNDUP (sb_blocks sb) SFS_BLKBITS"

definition sfs_freemap_blocks :: "sfs_super \<Rightarrow> u32" where
  "sfs_freemap_blocks sb = ROUNDUP_DIV (sb_blocks sb) SFS_BLKBITS"

definition lock_sfs_fs :: "('d, 'a) sfs_fs_scheme \<Rightarrow> ('d, 'a) sfs_fs_scheme option" where
  "lock_sfs_fs sfs = (if fs_sem sfs > 0 then Some (sfs\<lparr>fs_sem := fs_sem sfs - 1\<rparr>) else None)"

definition unlock_sfs_fs :: "('d, 'a) sfs_fs_scheme \<Rightarrow> ('d, 'a) sfs_fs_scheme" where
  "unlock_sfs_fs sfs = sfs\<lparr>fs_sem := fs_sem sfs + 1\<rparr>"

definition lock_sfs_io :: "('d, 'a) sfs_fs_scheme \<Rightarrow> ('d, 'a) sfs_fs_scheme option" where
  "lock_sfs_io sfs = (if io_sem sfs > 0 then Some (sfs\<lparr>io_sem := io_sem sfs - 1\<rparr>) else None)"

definition unlock_sfs_io :: "('d, 'a) sfs_fs_scheme \<Rightarrow> ('d, 'a) sfs_fs_scheme" where
  "unlock_sfs_io sfs = sfs\<lparr>io_sem := io_sem sfs + 1\<rparr>"

section \<open>Blocks\<close>

definition sfs_rwblock_nolock ::
    "('d, 'a) sfs_fs_scheme \<Rightarrow> u8 list \<Rightarrow> u32 \<Rightarrow> bool \<Rightarrow> bool \<Rightarrow> (int \<times> u8 list \<times> ('d, 'a) sfs_fs_scheme) option" where
  "sfs_rwblock_nolock sfs buf blkno wr check = do {
     kassert ((blkno \<noteq> 0 \<or> \<not> check) \<and> blkno < sb_blocks (super sfs));
     (ret, iob, dev) \<leftarrow> dop_io (sfs_dev sfs) (iobuf_init buf SFS_BLKSIZE (sint (blkno * of_nat SFS_BLKSIZE))) wr;
     Some (ret, io_buf iob, sfs\<lparr>sfs_dev := dev\<rparr>)
   }"

text \<open>The loop of \<open>sfs_rwblock\<close>; \<open>passed\<close> are the blocks of the buffer already passed.\<close>

fun sfs_rwblock_loop ::
    "('d, 'a) sfs_fs_scheme \<Rightarrow> u8 list \<Rightarrow> u8 list \<Rightarrow> u32 \<Rightarrow> nat \<Rightarrow> bool \<Rightarrow> (int \<times> u8 list \<times> ('d, 'a) sfs_fs_scheme) option" where
  "sfs_rwblock_loop sfs passed buf blkno 0 wr = Some (0, passed @ buf, sfs)"
| "sfs_rwblock_loop sfs passed buf blkno (Suc nblks) wr = do {
     (ret, b, sfs) \<leftarrow> sfs_rwblock_nolock sfs (take SFS_BLKSIZE buf) blkno wr True;
     if ret \<noteq> 0 then Some (ret, passed @ b @ drop SFS_BLKSIZE buf, sfs)
     else sfs_rwblock_loop sfs (passed @ b) (drop SFS_BLKSIZE buf) (blkno + 1) nblks wr
   }"

definition sfs_rwblock ::
    "('d, 'a) sfs_fs_scheme \<Rightarrow> u8 list \<Rightarrow> u32 \<Rightarrow> u32 \<Rightarrow> bool \<Rightarrow> (int \<times> u8 list \<times> ('d, 'a) sfs_fs_scheme) option" where
  "sfs_rwblock sfs buf blkno nblks wr = do {
     sfs \<leftarrow> lock_sfs_io sfs;
     (ret, buf, sfs) \<leftarrow> sfs_rwblock_loop sfs [] buf blkno (unat nblks) wr;
     Some (ret, buf, unlock_sfs_io sfs)
   }"

definition sfs_rblock :: "('d, 'a) sfs_fs_scheme \<Rightarrow> u8 list \<Rightarrow> u32 \<Rightarrow> u32 \<Rightarrow> (int \<times> u8 list \<times> ('d, 'a) sfs_fs_scheme) option" where
  "sfs_rblock sfs buf blkno nblks = sfs_rwblock sfs buf blkno nblks False"

definition sfs_wblock :: "('d, 'a) sfs_fs_scheme \<Rightarrow> u8 list \<Rightarrow> u32 \<Rightarrow> u32 \<Rightarrow> (int \<times> u8 list \<times> ('d, 'a) sfs_fs_scheme) option" where
  "sfs_wblock sfs buf blkno nblks = sfs_rwblock sfs buf blkno nblks True"

section \<open>Parts of a block\<close>

text \<open>\<open>sfs_rbuf\<close> returns the bytes it copied to the caller's buffer (none when the read failed).\<close>

definition sfs_rbuf :: "('d, 'a) sfs_fs_scheme \<Rightarrow> nat \<Rightarrow> u32 \<Rightarrow> int \<Rightarrow> (int \<times> u8 list \<times> ('d, 'a) sfs_fs_scheme) option" where
  "sfs_rbuf sfs len blkno offset = do {
     kassert (offset \<ge> 0 \<and> offset < int SFS_BLKSIZE \<and> offset + int len \<le> int SFS_BLKSIZE);
     sfs \<leftarrow> lock_sfs_io sfs;
     (ret, b, sfs) \<leftarrow> sfs_rwblock_nolock sfs (sfs_buffer sfs) blkno False True;
     let sfs = sfs\<lparr>sfs_buffer := b\<rparr>;
     Some (ret, if ret = 0 then get_bytes (nat offset) len b else [], unlock_sfs_io sfs)
   }"

definition sfs_wbuf :: "('d, 'a) sfs_fs_scheme \<Rightarrow> u8 list \<Rightarrow> u32 \<Rightarrow> int \<Rightarrow> (int \<times> ('d, 'a) sfs_fs_scheme) option" where
  "sfs_wbuf sfs buf blkno offset = do {
     kassert (offset \<ge> 0 \<and> offset < int SFS_BLKSIZE \<and> offset + int (length buf) \<le> int SFS_BLKSIZE);
     sfs \<leftarrow> lock_sfs_io sfs;
     (ret, b, sfs) \<leftarrow> sfs_rwblock_nolock sfs (sfs_buffer sfs) blkno False True;
     if ret = 0 then do {
       let b = put_bytes (nat offset) buf b;
       (ret, b, sfs) \<leftarrow> sfs_rwblock_nolock (sfs\<lparr>sfs_buffer := b\<rparr>) b blkno True True;
       Some (ret, unlock_sfs_io (sfs\<lparr>sfs_buffer := b\<rparr>))
     } else Some (ret, unlock_sfs_io (sfs\<lparr>sfs_buffer := b\<rparr>))
   }"

section \<open>Superblock, free map, clearing\<close>

text \<open>Words are stored with the least significant byte first.\<close>

definition word_bytes :: "u32 \<Rightarrow> u8 list" where
  "word_bytes w = [ucast w, ucast (drop_bit 8 w), ucast (drop_bit 16 w), ucast (drop_bit 24 w)]"

definition bytes_word :: "u8 list \<Rightarrow> u32" where
  "bytes_word bs = ucast (bs ! 0) OR push_bit 8 (ucast (bs ! 1)) OR push_bit 16 (ucast (bs ! 2)) OR push_bit 24 (ucast (bs ! 3))"

definition super_bytes :: "sfs_super \<Rightarrow> u8 list" where
  "super_bytes sb = word_bytes (sb_magic sb) @ word_bytes (sb_blocks sb) @ word_bytes (sb_unused_blocks sb) @ sb_info sb"

definition sfs_sync_super :: "('d, 'a) sfs_fs_scheme \<Rightarrow> (int \<times> ('d, 'a) sfs_fs_scheme) option" where
  "sfs_sync_super sfs = do {
     sfs \<leftarrow> lock_sfs_io sfs;
     let b = put_bytes 0 (super_bytes (super sfs)) (replicate SFS_BLKSIZE 0);
     (ret, b, sfs) \<leftarrow> sfs_rwblock_nolock (sfs\<lparr>sfs_buffer := b\<rparr>) b SFS_BLKN_SUPER True False;
     Some (ret, unlock_sfs_io (sfs\<lparr>sfs_buffer := b\<rparr>))
   }"

definition sfs_sync_freemap :: "('d, 'a) sfs_fs_scheme \<Rightarrow> (int \<times> ('d, 'a) sfs_fs_scheme) option" where
  "sfs_sync_freemap sfs = do {
     let nblks = sfs_freemap_blocks (super sfs);
     (ret, _, sfs) \<leftarrow> sfs_wblock sfs (concat (map word_bytes (fst (bitmap_getdata (freemap sfs))))) SFS_BLKN_FREEMAP nblks;
     Some (ret, sfs)
   }"

text \<open>The loop of \<open>sfs_clear_block\<close>; \<open>ret\<close> is uninitialised in the code when \<open>nblks\<close> is zero.\<close>

fun sfs_clear_loop :: "('d, 'a) sfs_fs_scheme \<Rightarrow> u32 \<Rightarrow> nat \<Rightarrow> (int \<times> ('d, 'a) sfs_fs_scheme) option" where
  "sfs_clear_loop sfs blkno 0 = Some (0, sfs)"
| "sfs_clear_loop sfs blkno (Suc nblks) = do {
     (ret, b, sfs) \<leftarrow> sfs_rwblock_nolock sfs (sfs_buffer sfs) blkno True True;
     let sfs = sfs\<lparr>sfs_buffer := b\<rparr>;
     if ret \<noteq> 0 then Some (ret, sfs) else sfs_clear_loop sfs (blkno + 1) nblks
   }"

definition sfs_clear_block :: "('d, 'a) sfs_fs_scheme \<Rightarrow> u32 \<Rightarrow> u32 \<Rightarrow> (int \<times> ('d, 'a) sfs_fs_scheme) option" where
  "sfs_clear_block sfs blkno nblks = do {
     kassert (nblks \<noteq> 0);
     sfs \<leftarrow> lock_sfs_io sfs;
     (ret, sfs) \<leftarrow> sfs_clear_loop (sfs\<lparr>sfs_buffer := replicate SFS_BLKSIZE 0\<rparr>) blkno (unat nblks);
     Some (ret, unlock_sfs_io sfs)
   }"

section \<open>The device contract\<close>

text \<open>What the file system relies on: reading a block of the device returns its content; writing one is accepted,
  keeps all other blocks, and either stores the data or keeps the old content (the disk of this kernel is
  read-only and drops the data).\<close>

locale block_device =
  fixes io :: "nat \<Rightarrow> iobuf \<Rightarrow> bool \<Rightarrow> 'd \<Rightarrow> (int \<times> iobuf \<times> 'd) option"
    and blocks :: nat and ok :: "'d \<Rightarrow> bool" and blk :: "'d \<Rightarrow> nat \<Rightarrow> u8 list"
  assumes blocks_small: "blocks * SFS_BLKSIZE < 2 ^ 31"
    and blk_length: "length (blk d b) = SFS_BLKSIZE"
    and read_law: "ok d \<Longrightarrow> b < blocks \<Longrightarrow> length buf = SFS_BLKSIZE \<Longrightarrow>
      \<exists>iob' d'. io blocks (iobuf_init buf SFS_BLKSIZE (int (b * SFS_BLKSIZE))) False d = Some (0, iob', d') \<and>
        io_buf iob' = blk d b \<and> ok d' \<and> blk d' = blk d"
    and write_law: "ok d \<Longrightarrow> b < blocks \<Longrightarrow> length buf = SFS_BLKSIZE \<Longrightarrow>
      \<exists>iob' d'. io blocks (iobuf_init buf SFS_BLKSIZE (int (b * SFS_BLKSIZE))) True d = Some (0, iob', d') \<and>
        io_buf iob' = buf \<and> ok d' \<and> (blk d' = blk d \<or> blk d' = (blk d)(b := buf))"

text \<open>A file system that uses such a device, and what input and output leave alone.\<close>

definition sfs_on :: "(nat \<Rightarrow> iobuf \<Rightarrow> bool \<Rightarrow> 'd \<Rightarrow> (int \<times> iobuf \<times> 'd) option) \<Rightarrow> nat \<Rightarrow> ('d \<Rightarrow> bool) \<Rightarrow> ('d, 'a) sfs_fs_scheme \<Rightarrow> bool" where
  "sfs_on io blocks ok sfs \<longleftrightarrow> d_io (sfs_dev sfs) = io \<and> d_blocks (sfs_dev sfs) = blocks \<and> ok (d_state (sfs_dev sfs)) \<and>
     unat (sb_blocks (super sfs)) \<le> blocks \<and> length (sfs_buffer sfs) = SFS_BLKSIZE"

definition sfs_same :: "('d, 'a) sfs_fs_scheme \<Rightarrow> ('d, 'a) sfs_fs_scheme \<Rightarrow> bool" where
  "sfs_same sfs sfs' \<longleftrightarrow> super sfs' = super sfs \<and> freemap sfs' = freemap sfs \<and> super_dirty sfs' = super_dirty sfs \<and>
     fs_sem sfs' = fs_sem sfs \<and> io_sem sfs' = io_sem sfs \<and> sfs_fs.more sfs' = sfs_fs.more sfs"

lemma sfs_same_refl [simp]: "sfs_same s s"
  by (simp add: sfs_same_def)

lemma sfs_same_trans: "sfs_same a b \<Longrightarrow> sfs_same b c \<Longrightarrow> sfs_same a c"
  by (simp add: sfs_same_def)

abbreviation disk_of :: "('d \<Rightarrow> nat \<Rightarrow> u8 list) \<Rightarrow> ('d, 'a) sfs_fs_scheme \<Rightarrow> nat \<Rightarrow> u8 list" where
  "disk_of blk sfs \<equiv> blk (d_state (sfs_dev sfs))"

context block_device
begin

lemma off_exact:
  assumes "unat (b :: u32) < blocks"
  shows "sint (b * of_nat SFS_BLKSIZE) = int (unat b * SFS_BLKSIZE)"
proof -
  have lt: "unat b * SFS_BLKSIZE < 2 ^ 31"
    using assms blocks_small by (meson le_less_trans less_imp_le mult_le_mono1)
  then have "unat b * unat (of_nat SFS_BLKSIZE :: u32) < 2 ^ 32" by (simp add: SFS_BLKSIZE_def)
  then have "unat (b * of_nat SFS_BLKSIZE) = unat b * SFS_BLKSIZE"
    by (subst unat_mult_no_wrap) (simp_all add: SFS_BLKSIZE_def)
  then have u: "uint (b * of_nat SFS_BLKSIZE) = int (unat b * SFS_BLKSIZE)" by (metis uint_nat)
  moreover have "int (unat b * SFS_BLKSIZE) < 2 ^ 31" using lt by (metis of_nat_less_numeral_power_cancel_iff)
  ultimately have "uint (b * of_nat SFS_BLKSIZE) < 2 ^ 31" by metis
  then have "sint (b * of_nat SFS_BLKSIZE) = uint (b * of_nat SFS_BLKSIZE)"
    unfolding sint_uint by (intro signed_take_bit_int_eq_self) (auto intro: order_trans [OF _ unsigned_greater_eq])
  then show ?thesis using u by simp
qed

lemma rwblock_ok:
  assumes "sfs_on io blocks ok sfs" "blkno < sb_blocks (super sfs)" "blkno \<noteq> 0 \<or> \<not> check" "length buf = SFS_BLKSIZE"
  shows "\<exists>buf' sfs'. sfs_rwblock_nolock sfs buf blkno wr check = Some (0, buf', sfs') \<and> sfs_on io blocks ok sfs' \<and>
    sfs_same sfs sfs' \<and> sfs_buffer sfs' = sfs_buffer sfs \<and> buf' = (if wr then buf else disk_of blk sfs (unat blkno)) \<and>
    (disk_of blk sfs' = disk_of blk sfs \<or> wr \<and> disk_of blk sfs' = (disk_of blk sfs)(unat blkno := buf))"
proof -
  have on: "d_io (sfs_dev sfs) = io" "d_blocks (sfs_dev sfs) = blocks" "ok (d_state (sfs_dev sfs))"
      "unat (sb_blocks (super sfs)) \<le> blocks"
    using assms(1) by (simp_all add: sfs_on_def)
  have b: "unat blkno < blocks" using assms(2) on(4) by (simp add: word_less_nat_alt)
  obtain iob' d' where r: "io blocks (iobuf_init buf SFS_BLKSIZE (int (unat blkno * SFS_BLKSIZE))) wr (d_state (sfs_dev sfs)) = Some (0, iob', d')"
      "io_buf iob' = (if wr then buf else disk_of blk sfs (unat blkno))" "ok d'"
      "blk d' = disk_of blk sfs \<or> wr \<and> blk d' = (disk_of blk sfs)(unat blkno := buf)"
    using read_law [OF on(3) b assms(4)] write_law [OF on(3) b assms(4)] by (cases wr) auto
  show ?thesis
    using assms on r by (simp add: sfs_rwblock_nolock_def off_exact [OF b] dop_io_def sfs_on_def sfs_same_def)
qed

lemma rbuf_ok:
  assumes "sfs_on io blocks ok sfs" "blkno < sb_blocks (super sfs)" "blkno \<noteq> 0" "0 < io_sem sfs"
    and "0 \<le> off" "off < int SFS_BLKSIZE" "off + int len \<le> int SFS_BLKSIZE"
  shows "\<exists>sfs'. sfs_rbuf sfs len blkno off = Some (0, get_bytes (nat off) len (disk_of blk sfs (unat blkno)), sfs') \<and>
    sfs_on io blocks ok sfs' \<and> sfs_same sfs sfs' \<and> disk_of blk sfs' = disk_of blk sfs"
proof -
  let ?s = "sfs\<lparr>io_sem := io_sem sfs - 1\<rparr>"
  have "sfs_on io blocks ok ?s" "length (sfs_buffer ?s) = SFS_BLKSIZE" using assms(1) by (simp_all add: sfs_on_def)
  from rwblock_ok [OF this(1) _ _ this(2), of blkno True False] assms(2,3) obtain s1 where
    s1: "sfs_rwblock_nolock ?s (sfs_buffer sfs) blkno False True = Some (0, disk_of blk sfs (unat blkno), s1)"
      "sfs_on io blocks ok s1" "sfs_same ?s s1" "disk_of blk s1 = disk_of blk sfs" by auto
  show ?thesis
    using assms(4-7) s1 blk_length
    by (simp add: sfs_rbuf_def lock_sfs_io_def unlock_sfs_io_def sfs_on_def sfs_same_def)
qed

lemma wbuf_ok:
  assumes "sfs_on io blocks ok sfs" "blkno < sb_blocks (super sfs)" "blkno \<noteq> 0" "0 < io_sem sfs"
    and "0 \<le> off" "off < int SFS_BLKSIZE" "off + int (length buf) \<le> int SFS_BLKSIZE"
  shows "\<exists>sfs'. sfs_wbuf sfs buf blkno off = Some (0, sfs') \<and> sfs_on io blocks ok sfs' \<and> sfs_same sfs sfs' \<and>
    (\<forall>b. b \<noteq> unat blkno \<longrightarrow> disk_of blk sfs' b = disk_of blk sfs b) \<and>
    disk_of blk sfs' (unat blkno) \<in> {disk_of blk sfs (unat blkno), put_bytes (nat off) buf (disk_of blk sfs (unat blkno))}"
proof -
  let ?s = "sfs\<lparr>io_sem := io_sem sfs - 1\<rparr>"
  have "sfs_on io blocks ok ?s" "length (sfs_buffer ?s) = SFS_BLKSIZE" using assms(1) by (simp_all add: sfs_on_def)
  from rwblock_ok [OF this(1) _ _ this(2), of blkno True False] assms(2,3) obtain s1 where
    s1: "sfs_rwblock_nolock ?s (sfs_buffer sfs) blkno False True = Some (0, disk_of blk sfs (unat blkno), s1)"
      "sfs_on io blocks ok s1" "sfs_same ?s s1" "disk_of blk s1 = disk_of blk sfs" by auto
  let ?b = "put_bytes (nat off) buf (disk_of blk sfs (unat blkno))"
  have len: "length ?b = SFS_BLKSIZE" using assms(5,7) blk_length by simp
  have "sfs_on io blocks ok (s1\<lparr>sfs_buffer := ?b\<rparr>)" using s1(2) len by (simp add: sfs_on_def)
  from rwblock_ok [OF this _ _ len, of blkno True True] assms(2,3) s1(3,4) obtain s2 where
    s2: "sfs_rwblock_nolock (s1\<lparr>sfs_buffer := ?b\<rparr>) ?b blkno True True = Some (0, ?b, s2)"
      "sfs_on io blocks ok s2" "sfs_same (s1\<lparr>sfs_buffer := ?b\<rparr>) s2"
      "disk_of blk s2 = disk_of blk sfs \<or> disk_of blk s2 = (disk_of blk sfs)(unat blkno := ?b)"
    by (auto simp: sfs_same_def)
  show ?thesis
    using assms(4-7) s1 s2 len
    by (auto simp: sfs_wbuf_def lock_sfs_io_def unlock_sfs_io_def sfs_on_def sfs_same_def)
qed

lemma clear_ok:
  assumes "sfs_on io blocks ok sfs" "blkno < sb_blocks (super sfs)" "blkno \<noteq> 0" "0 < io_sem sfs"
  shows "\<exists>sfs'. sfs_clear_block sfs blkno 1 = Some (0, sfs') \<and> sfs_on io blocks ok sfs' \<and> sfs_same sfs sfs' \<and>
    (\<forall>b. b \<noteq> unat blkno \<longrightarrow> disk_of blk sfs' b = disk_of blk sfs b)"
proof -
  let ?z = "replicate SFS_BLKSIZE 0"
  let ?s = "sfs\<lparr>io_sem := io_sem sfs - 1, sfs_buffer := ?z\<rparr>"
  have "sfs_on io blocks ok ?s" "length ?z = SFS_BLKSIZE" using assms(1) by (simp_all add: sfs_on_def)
  from rwblock_ok [OF this(1) _ _ this(2), of blkno True True] assms(2,3) obtain s1 where
    s1: "sfs_rwblock_nolock ?s ?z blkno True True = Some (0, ?z, s1)"
      "sfs_on io blocks ok s1" "sfs_same ?s s1" "disk_of blk s1 = disk_of blk sfs \<or> disk_of blk s1 = (disk_of blk sfs)(unat blkno := ?z)"
    by auto
  show ?thesis
    using assms(4) s1 by (auto simp: sfs_clear_block_def lock_sfs_io_def unlock_sfs_io_def sfs_on_def sfs_same_def)
qed

lemma rblock_loop_ok:
  assumes "sfs_on io blocks ok sfs" "unat blkno + n \<le> unat (sb_blocks (super sfs))" "blkno \<noteq> 0" "length buf = n * SFS_BLKSIZE + k"
  shows "\<exists>sfs'. sfs_rwblock_loop sfs passed buf blkno n False =
      Some (0, passed @ concat (map (disk_of blk sfs) [unat blkno..<unat blkno + n]) @ drop (n * SFS_BLKSIZE) buf, sfs') \<and>
    sfs_on io blocks ok sfs' \<and> sfs_same sfs sfs' \<and> disk_of blk sfs' = disk_of blk sfs"
  using assms
proof (induction n arbitrary: sfs passed buf blkno)
  case 0
  then show ?case by auto
next
  case (Suc n)
  have lt: "blkno < sb_blocks (super sfs)" using Suc.prems(2) by (simp add: word_less_nat_alt)
  have len: "length (take SFS_BLKSIZE buf) = SFS_BLKSIZE" using Suc.prems(4) by simp
  from rwblock_ok [OF Suc.prems(1) lt _ len, of True False] Suc.prems(3) obtain s1 where
    s1: "sfs_rwblock_nolock sfs (take SFS_BLKSIZE buf) blkno False True = Some (0, disk_of blk sfs (unat blkno), s1)"
      "sfs_on io blocks ok s1" "sfs_same sfs s1" "disk_of blk s1 = disk_of blk sfs" by auto
  have sb: "super s1 = super sfs" using s1(3) by (simp add: sfs_same_def)
  have bound: "unat blkno + 1 < 2 ^ 32 \<or> n = 0"
    using Suc.prems(2) unat_bound32 [of "sb_blocks (super sfs)"] by linarith
  show ?case
  proof (cases "n = 0")
    case True
    then show ?thesis using s1 Suc.prems(1) by auto
  next
    case False
    then have nx: "unat (blkno + 1) = unat blkno + 1" using bound by (subst unat_add_no_wrap) auto
    obtain s2 where s2: "sfs_rwblock_loop s1 (passed @ disk_of blk sfs (unat blkno)) (drop SFS_BLKSIZE buf) (blkno + 1) n False =
        Some (0, (passed @ disk_of blk sfs (unat blkno)) @ concat (map (disk_of blk s1) [unat (blkno + 1)..<unat (blkno + 1) + n]) @
          drop (n * SFS_BLKSIZE) (drop SFS_BLKSIZE buf), s2)"
        "sfs_on io blocks ok s2" "sfs_same s1 s2" "disk_of blk s2 = disk_of blk s1"
      using Suc.IH [OF s1(2), of "blkno + 1" "drop SFS_BLKSIZE buf" "passed @ disk_of blk sfs (unat blkno)"] Suc.prems(2,4) nx sb
      by (auto simp: unat_gt_0 word_unat_eq_iff)
    have up: "[unat blkno..<unat blkno + Suc n] = unat blkno # [unat (blkno + 1)..<unat (blkno + 1) + n]"
      unfolding nx by (simp add: upt_conv_Cons)
    show ?thesis
      unfolding up using s1 s2 sfs_same_trans [OF s1(3) s2(3)] by (simp add: add.commute)
  qed
qed

end

text \<open>The disk of the kernel satisfies the contract.\<close>

definition disk0_ok :: "disk0 \<Rightarrow> bool" where
  "disk0_ok d \<longleftrightarrow> length (disk0_buffer d) = DISK0_BUFSIZE \<and> 0 < disk0_sem d"

definition disk0_blk :: "disk0 \<Rightarrow> nat \<Rightarrow> u8 list" where
  "disk0_blk d b = img d (b * DISK0_BLKSIZE) DISK0_BLKSIZE"

lemma disk0_block_io:
  assumes "disk0_ok d" "b < DISK0_DEVSIZE div DISK0_BLKSIZE" "length buf = SFS_BLKSIZE"
  shows "\<exists>iob' d'. disk0_io (DISK0_DEVSIZE div DISK0_BLKSIZE) (iobuf_init buf SFS_BLKSIZE (int (b * SFS_BLKSIZE))) wr d = Some (0, iob', d') \<and>
    io_buf iob' = (if wr then buf else disk0_blk d b) \<and> disk0_ok d' \<and> disk0_blk d' = disk0_blk d"
proof -
  let ?i = "iobuf_init buf SFS_BLKSIZE (int (b * SFS_BLKSIZE))"
  have eq: "SFS_BLKSIZE = DISK0_BLKSIZE" by (simp add: SFS_BLKSIZE_def DISK0_BLKSIZE_def)
  have "DISK0_DEVSIZE div DISK0_BLKSIZE = 1024" by (simp add: DISK0_DEVSIZE_def DISK0_BLKSIZE_def)
  then have b: "b + 1 \<le> DISK0_DEVSIZE div DISK0_BLKSIZE" "b + 1 < 2 ^ 32" using assms(2) by auto
  obtain iob' d' where r: "disk0_io (DISK0_DEVSIZE div DISK0_BLKSIZE) ?i wr d = Some (0, iob', d')" "sfs_img d' = sfs_img d"
      "disk0_sem d' = disk0_sem d" "length (disk0_buffer d') = length (disk0_buffer d)"
      "io_buf iob' = (if wr then buf else put_bytes 0 (img d (b * DISK0_BLKSIZE) DISK0_BLKSIZE) buf)"
    using disk0_io_ok [of ?i b 1 d "DISK0_DEVSIZE div DISK0_BLKSIZE" wr] assms b by (auto simp: iobuf_init_def eq disk0_ok_def)
  moreover have "put_bytes 0 (img d (b * DISK0_BLKSIZE) DISK0_BLKSIZE) buf = disk0_blk d b"
    using assms(3) eq by (simp add: put_bytes_def disk0_blk_def)
  moreover have "disk0_blk d' = disk0_blk d" using r(2) by (simp add: disk0_blk_def img_def fun_eq_iff)
  ultimately show ?thesis using assms(1) by (auto simp: disk0_ok_def)
qed

interpretation d0: block_device disk0_io "DISK0_DEVSIZE div DISK0_BLKSIZE" disk0_ok disk0_blk
proof
  show "DISK0_DEVSIZE div DISK0_BLKSIZE * SFS_BLKSIZE < 2 ^ 31"
    by (simp add: DISK0_DEVSIZE_def DISK0_BLKSIZE_def SFS_BLKSIZE_def)
  show "length (disk0_blk d b) = SFS_BLKSIZE" for d b
    by (simp add: disk0_blk_def DISK0_BLKSIZE_def SFS_BLKSIZE_def)
next
  fix d b and buf :: "u8 list"
  assume h: "disk0_ok d" "b < DISK0_DEVSIZE div DISK0_BLKSIZE" "length buf = SFS_BLKSIZE"
  show "\<exists>iob' d'. disk0_io (DISK0_DEVSIZE div DISK0_BLKSIZE) (iobuf_init buf SFS_BLKSIZE (int (b * SFS_BLKSIZE))) False d =
      Some (0, iob', d') \<and> io_buf iob' = disk0_blk d b \<and> disk0_ok d' \<and> disk0_blk d' = disk0_blk d"
    using disk0_block_io [OF h, of False] by simp
  show "\<exists>iob' d'. disk0_io (DISK0_DEVSIZE div DISK0_BLKSIZE) (iobuf_init buf SFS_BLKSIZE (int (b * SFS_BLKSIZE))) True d =
      Some (0, iob', d') \<and> io_buf iob' = buf \<and> disk0_ok d' \<and> (disk0_blk d' = disk0_blk d \<or> disk0_blk d' = (disk0_blk d)(b := buf))"
    using disk0_block_io [OF h, of True] by auto
qed

end
