(* ===== verification/Sfs_Inode.thy ===== *)
theory Sfs_Inode
  imports Sfs_Io
begin

text \<open>
  Inodes of the simple file system (\<open>kern/fs/sfs/sfs_inode.c\<close>): allocation of disk blocks, the map from the blocks of
  a file to disk blocks with its direct and indirect part, directory entries, and reading, writing and
  resizing files.

  An operation works on the file system \<open>sfs\<close> and one inode \<open>sin\<close> and returns both; \<open>None\<close> is a kernel panic.
  A result that the C code stores through a pointer is part of the returned tuple and meaningful when the error
  code is zero. Whether \<open>kmalloc\<close> succeeds is an argument. The semaphore of an inode is its value.
\<close>

section \<open>Inodes\<close>

definition SFS_TYPE_INVAL :: "16 word" where "SFS_TYPE_INVAL = 0"
definition SFS_TYPE_FILE :: "16 word" where "SFS_TYPE_FILE = 1"
definition SFS_TYPE_DIR :: "16 word" where "SFS_TYPE_DIR = 2"
definition SFS_TYPE_LINK :: "16 word" where "SFS_TYPE_LINK = 3"

record sfs_disk_inode =
  di_size :: u32
  di_type :: "16 word"
  di_nlinks :: "16 word"
  di_blocks :: u32
  di_direct :: "u32 list"
  di_indirect :: u32

record sfs_disk_entry =
  de_ino :: u32
  de_name :: "u8 list"

record sfs_inode =
  din :: sfs_disk_inode
  sin_ino :: u32
  sin_dirty :: bool
  reclaim_count :: int
  sin_sem :: int

definition lock_sin :: "sfs_inode \<Rightarrow> sfs_inode option" where
  "lock_sin sin = (if sin_sem sin > 0 then Some (sin\<lparr>sin_sem := sin_sem sin - 1\<rparr>) else None)"

definition unlock_sin :: "sfs_inode \<Rightarrow> sfs_inode" where
  "unlock_sin sin = sin\<lparr>sin_sem := sin_sem sin + 1\<rparr>"

text \<open>The tables of inode operations, and which one an inode of a type gets (\<open>dev_node_ops\<close> is the table of \<open>dev.c\<close>).\<close>

datatype inode_ops = sfs_node_dirops | sfs_node_fileops | dev_node_ops

definition sfs_get_ops :: "16 word \<Rightarrow> inode_ops option" where
  "sfs_get_ops ty = (if ty = SFS_TYPE_DIR then Some sfs_node_dirops
     else if ty = SFS_TYPE_FILE then Some sfs_node_fileops else None)"

section \<open>Disk blocks\<close>

definition sfs_block_inuse :: "('d, 'a) sfs_fs_scheme \<Rightarrow> u32 \<Rightarrow> bool option" where
  "sfs_block_inuse sfs ino =
     (if ino \<noteq> 0 \<and> ino < sb_blocks (super sfs) then do {
        v \<leftarrow> bitmap_test (freemap sfs) ino;
        Some (v = 0)
      } else None)"

definition sfs_block_alloc :: "('d, 'a) sfs_fs_scheme \<Rightarrow> (int \<times> u32 \<times> ('d, 'a) sfs_fs_scheme) option" where
  "sfs_block_alloc sfs = do {
     (ret, ix, fm) \<leftarrow> bitmap_alloc (freemap sfs);
     case ix of
       None \<Rightarrow> Some (ret, 0, sfs)
     | Some ino \<Rightarrow> do {
         let sfs = sfs\<lparr>freemap := fm\<rparr>;
         kassert (sb_unused_blocks (super sfs) > 0);
         let sfs = sfs\<lparr>super := (super sfs)\<lparr>sb_unused_blocks := sb_unused_blocks (super sfs) - 1\<rparr>, super_dirty := True\<rparr>;
         used \<leftarrow> sfs_block_inuse sfs ino;
         kassert used;
         (ret, sfs) \<leftarrow> sfs_clear_block sfs ino 1;
         Some (ret, ino, sfs)
       }
   }"

definition sfs_block_free :: "('d, 'a) sfs_fs_scheme \<Rightarrow> u32 \<Rightarrow> ('d, 'a) sfs_fs_scheme option" where
  "sfs_block_free sfs ino = do {
     used \<leftarrow> sfs_block_inuse sfs ino;
     kassert used;
     fm \<leftarrow> bitmap_free (freemap sfs) ino;
     Some (sfs\<lparr>freemap := fm, super := (super sfs)\<lparr>sb_unused_blocks := sb_unused_blocks (super sfs) + 1\<rparr>, super_dirty := True\<rparr>)
   }"

section \<open>The block map of a file\<close>

text \<open>The label \<open>failed_cleanup\<close> of \<open>sfs_bmap_get_sub_nolock\<close>, and the part behind the choice of the entry block.\<close>

definition bmap_cleanup :: "('d, 'a) sfs_fs_scheme \<Rightarrow> u32 \<Rightarrow> u32 \<Rightarrow> int \<Rightarrow> (int \<times> u32 \<times> u32 \<times> ('d, 'a) sfs_fs_scheme) option" where
  "bmap_cleanup sfs entp ent ret = do {
     sfs \<leftarrow> (if ent \<noteq> entp then sfs_block_free sfs ent else Some sfs);
     Some (ret, entp, 0, sfs)
   }"

definition bmap_new_entry :: "('d, 'a) sfs_fs_scheme \<Rightarrow> u32 \<Rightarrow> u32 \<Rightarrow> int \<Rightarrow> (int \<times> u32 \<times> u32 \<times> ('d, 'a) sfs_fs_scheme) option" where
  "bmap_new_entry sfs entp ent offset = do {
     (ret, ino, sfs) \<leftarrow> sfs_block_alloc sfs;
     if ret \<noteq> 0 then bmap_cleanup sfs entp ent ret
     else do {
       (ret, sfs) \<leftarrow> sfs_wbuf sfs (word_bytes ino) ent offset;
       if ret \<noteq> 0 then do {
         sfs \<leftarrow> sfs_block_free sfs ino;
         bmap_cleanup sfs entp ent ret
       } else Some (0, ent, ino, sfs)
     }
   }"

text \<open>The result is the error code, the value of \<open>*entp\<close>, the block number and the file system.\<close>

definition sfs_bmap_get_sub_nolock ::
    "('d, 'a) sfs_fs_scheme \<Rightarrow> u32 \<Rightarrow> u32 \<Rightarrow> bool \<Rightarrow> (int \<times> u32 \<times> u32 \<times> ('d, 'a) sfs_fs_scheme) option" where
  "sfs_bmap_get_sub_nolock sfs entp index create = do {
     kassert (index < SFS_BLK_NENTRY);
     let offset = sint (index * 4);
     if entp \<noteq> 0 then do {
       (ret, bs, sfs) \<leftarrow> sfs_rbuf sfs 4 entp offset;
       if ret \<noteq> 0 then Some (ret, entp, 0, sfs)
       else let ino = bytes_word bs in
         if ino \<noteq> 0 \<or> \<not> create then Some (0, entp, ino, sfs)
         else bmap_new_entry sfs entp entp offset
     }
     else if \<not> create then Some (0, entp, 0, sfs)
     else do {
       (ret, ent, sfs) \<leftarrow> sfs_block_alloc sfs;
       if ret \<noteq> 0 then Some (ret, entp, 0, sfs) else bmap_new_entry sfs entp ent offset
     }
   }"

definition bmap_out :: "u32 \<Rightarrow> ('d, 'a) sfs_fs_scheme \<Rightarrow> sfs_inode \<Rightarrow> (int \<times> u32 \<times> ('d, 'a) sfs_fs_scheme \<times> sfs_inode) option" where
  "bmap_out ino sfs sin = do {
     used \<leftarrow> (if ino = 0 then Some True else sfs_block_inuse sfs ino);
     kassert used;
     Some (0, ino, sfs, sin)
   }"

definition sfs_bmap_get_nolock ::
    "('d, 'a) sfs_fs_scheme \<Rightarrow> sfs_inode \<Rightarrow> u32 \<Rightarrow> bool \<Rightarrow> (int \<times> u32 \<times> ('d, 'a) sfs_fs_scheme \<times> sfs_inode) option" where
  "sfs_bmap_get_nolock sfs sin index create =
     (if index < SFS_NDIRECT then
        let ino = di_direct (din sin) ! unat index in
        if ino = 0 \<and> create then do {
          (ret, ino, sfs) \<leftarrow> sfs_block_alloc sfs;
          if ret \<noteq> 0 then Some (ret, 0, sfs, sin)
          else bmap_out ino sfs (sin\<lparr>din := (din sin)\<lparr>di_direct := (di_direct (din sin))[unat index := ino]\<rparr>, sin_dirty := True\<rparr>)
        } else bmap_out ino sfs sin
      else let index = index - SFS_NDIRECT in
        if index < SFS_BLK_NENTRY then do {
          (ret, ent, ino, sfs) \<leftarrow> sfs_bmap_get_sub_nolock sfs (di_indirect (din sin)) index create;
          if ret \<noteq> 0 then Some (ret, 0, sfs, sin)
          else if ent \<noteq> di_indirect (din sin) then do {
            kassert (di_indirect (din sin) = 0);
            bmap_out ino sfs (sin\<lparr>din := (din sin)\<lparr>di_indirect := ent\<rparr>, sin_dirty := True\<rparr>)
          } else bmap_out ino sfs sin
        } else None)"

definition sfs_bmap_free_sub_nolock :: "('d, 'a) sfs_fs_scheme \<Rightarrow> u32 \<Rightarrow> u32 \<Rightarrow> (int \<times> ('d, 'a) sfs_fs_scheme) option" where
  "sfs_bmap_free_sub_nolock sfs ent index = do {
     used \<leftarrow> sfs_block_inuse sfs ent;
     kassert (used \<and> index < SFS_BLK_NENTRY);
     let offset = sint (index * 4);
     (ret, bs, sfs) \<leftarrow> sfs_rbuf sfs 4 ent offset;
     if ret \<noteq> 0 then Some (ret, sfs)
     else let ino = bytes_word bs in
       if ino \<noteq> 0 then do {
         (ret, sfs) \<leftarrow> sfs_wbuf sfs (word_bytes 0) ent offset;
         if ret \<noteq> 0 then Some (ret, sfs)
         else do { sfs \<leftarrow> sfs_block_free sfs ino; Some (0, sfs) }
       } else Some (0, sfs)
   }"

definition sfs_bmap_free_nolock :: "('d, 'a) sfs_fs_scheme \<Rightarrow> sfs_inode \<Rightarrow> u32 \<Rightarrow> (int \<times> ('d, 'a) sfs_fs_scheme \<times> sfs_inode) option" where
  "sfs_bmap_free_nolock sfs sin index =
     (if index < SFS_NDIRECT then
        let ino = di_direct (din sin) ! unat index in
        if ino \<noteq> 0 then do {
          sfs \<leftarrow> sfs_block_free sfs ino;
          Some (0, sfs, sin\<lparr>din := (din sin)\<lparr>di_direct := (di_direct (din sin))[unat index := 0]\<rparr>, sin_dirty := True\<rparr>)
        } else Some (0, sfs, sin)
      else let index = index - SFS_NDIRECT in
        if index < SFS_BLK_NENTRY then
          (if di_indirect (din sin) \<noteq> 0 then do {
             (ret, sfs) \<leftarrow> sfs_bmap_free_sub_nolock sfs (di_indirect (din sin)) index;
             Some (ret, sfs, sin)
           } else Some (0, sfs, sin))
        else Some (0, sfs, sin))"

definition sfs_bmap_load_nolock :: "('d, 'a) sfs_fs_scheme \<Rightarrow> sfs_inode \<Rightarrow> u32 \<Rightarrow> (int \<times> u32 \<times> ('d, 'a) sfs_fs_scheme \<times> sfs_inode) option" where
  "sfs_bmap_load_nolock sfs sin index = do {
     kassert (index \<le> di_blocks (din sin));
     let create = (index = di_blocks (din sin));
     (ret, ino, sfs, sin) \<leftarrow> sfs_bmap_get_nolock sfs sin index create;
     if ret \<noteq> 0 then Some (ret, 0, sfs, sin)
     else do {
       used \<leftarrow> sfs_block_inuse sfs ino;
       kassert used;
       Some (0, ino, sfs, if create then sin\<lparr>din := (din sin)\<lparr>di_blocks := di_blocks (din sin) + 1\<rparr>\<rparr> else sin)
     }
   }"

definition sfs_bmap_truncate_nolock :: "('d, 'a) sfs_fs_scheme \<Rightarrow> sfs_inode \<Rightarrow> (int \<times> ('d, 'a) sfs_fs_scheme \<times> sfs_inode) option" where
  "sfs_bmap_truncate_nolock sfs sin = do {
     kassert (di_blocks (din sin) \<noteq> 0);
     (ret, sfs, sin) \<leftarrow> sfs_bmap_free_nolock sfs sin (di_blocks (din sin) - 1);
     if ret \<noteq> 0 then Some (ret, sfs, sin)
     else Some (0, sfs, sin\<lparr>din := (din sin)\<lparr>di_blocks := di_blocks (din sin) - 1\<rparr>, sin_dirty := True\<rparr>)
   }"

section \<open>Directory entries\<close>

definition entry_of :: "u8 list \<Rightarrow> sfs_disk_entry" where
  "entry_of bs = \<lparr>de_ino = bytes_word (take 4 bs), de_name = drop 4 bs\<rparr>"

definition sfs_dirent_read_nolock ::
    "('d, 'a) sfs_fs_scheme \<Rightarrow> sfs_inode \<Rightarrow> nat \<Rightarrow> (int \<times> sfs_disk_entry \<times> ('d, 'a) sfs_fs_scheme \<times> sfs_inode) option" where
  "sfs_dirent_read_nolock sfs sin slot = do {
     kassert (di_type (din sin) = SFS_TYPE_DIR \<and> slot < unat (di_blocks (din sin)));
     (ret, ino, sfs, sin) \<leftarrow> sfs_bmap_load_nolock sfs sin (of_nat slot);
     if ret \<noteq> 0 then Some (ret, entry_of [], sfs, sin)
     else do {
       used \<leftarrow> sfs_block_inuse sfs ino;
       kassert used;
       (ret, bs, sfs) \<leftarrow> sfs_rbuf sfs (4 + (SFS_MAX_FNAME_LEN + 1)) ino 0;
       if ret \<noteq> 0 then Some (ret, entry_of [], sfs, sin)
       else let e = entry_of bs in
         Some (0, e\<lparr>de_name := (de_name e)[SFS_MAX_FNAME_LEN := 0]\<rparr>, sfs, sin)
     }
   }"

text \<open>\<open>strcmp (name, entry->name) = 0\<close> compares the bytes before the first zero (theory \<open>Cstring\<close>).\<close>

definition cstr :: "u8 list \<Rightarrow> u8 list" where
  "cstr xs = takeWhile (\<lambda>c. c \<noteq> 0) xs"

text \<open>The loop of \<open>sfs_dirent_search_nolock\<close>: \<open>n\<close> slots are left, \<open>i\<close> is the next one. The result is the error
  code, the inode number, the slot, the empty slot and the state.\<close>

fun dirent_search_loop ::
    "('d, 'a) sfs_fs_scheme \<Rightarrow> sfs_inode \<Rightarrow> u8 list \<Rightarrow> nat \<Rightarrow> nat \<Rightarrow> nat \<Rightarrow>
     (int \<times> u32 \<times> nat \<times> nat \<times> ('d, 'a) sfs_fs_scheme \<times> sfs_inode) option" where
  "dirent_search_loop sfs sin name i 0 empty_slot = Some (- E_NOENT, 0, 0, empty_slot, sfs, sin)"
| "dirent_search_loop sfs sin name i (Suc n) empty_slot = do {
     (ret, e, sfs, sin) \<leftarrow> sfs_dirent_read_nolock sfs sin i;
     if ret \<noteq> 0 then Some (ret, 0, 0, empty_slot, sfs, sin)
     else if de_ino e = 0 then dirent_search_loop sfs sin name (Suc i) n i
     else if cstr name = cstr (de_name e) then Some (0, de_ino e, i, empty_slot, sfs, sin)
     else dirent_search_loop sfs sin name (Suc i) n empty_slot
   }"

definition sfs_dirent_search_nolock ::
    "('d, 'a) sfs_fs_scheme \<Rightarrow> sfs_inode \<Rightarrow> u8 list \<Rightarrow> bool \<Rightarrow> (int \<times> u32 \<times> nat \<times> nat \<times> ('d, 'a) sfs_fs_scheme \<times> sfs_inode) option" where
  "sfs_dirent_search_nolock sfs sin name kmalloc = do {
     kassert (length (cstr name) \<le> SFS_MAX_FNAME_LEN);
     if \<not> kmalloc then Some (- E_NO_MEM, 0, 0, 0, sfs, sin)
     else let nslots = unat (di_blocks (din sin)) in dirent_search_loop sfs sin name 0 nslots nslots
   }"

fun dirent_findino_loop ::
    "('d, 'a) sfs_fs_scheme \<Rightarrow> sfs_inode \<Rightarrow> u32 \<Rightarrow> nat \<Rightarrow> nat \<Rightarrow> (int \<times> sfs_disk_entry \<times> ('d, 'a) sfs_fs_scheme \<times> sfs_inode) option" where
  "dirent_findino_loop sfs sin ino i 0 = Some (- E_NOENT, entry_of [], sfs, sin)"
| "dirent_findino_loop sfs sin ino i (Suc n) = do {
     (ret, e, sfs, sin) \<leftarrow> sfs_dirent_read_nolock sfs sin i;
     if ret \<noteq> 0 then Some (ret, e, sfs, sin)
     else if de_ino e = ino then Some (0, e, sfs, sin)
     else dirent_findino_loop sfs sin ino (Suc i) n
   }"

definition sfs_dirent_findino_nolock ::
    "('d, 'a) sfs_fs_scheme \<Rightarrow> sfs_inode \<Rightarrow> u32 \<Rightarrow> (int \<times> sfs_disk_entry \<times> ('d, 'a) sfs_fs_scheme \<times> sfs_inode) option" where
  "sfs_dirent_findino_nolock sfs sin ino = dirent_findino_loop sfs sin ino 0 (unat (di_blocks (din sin)))"

fun getdirentry_loop ::
    "('d, 'a) sfs_fs_scheme \<Rightarrow> sfs_inode \<Rightarrow> int \<Rightarrow> nat \<Rightarrow> nat \<Rightarrow> (int \<times> sfs_disk_entry \<times> ('d, 'a) sfs_fs_scheme \<times> sfs_inode) option" where
  "getdirentry_loop sfs sin slot i 0 = Some (- E_NOENT, entry_of [], sfs, sin)"
| "getdirentry_loop sfs sin slot i (Suc n) = do {
     (ret, e, sfs, sin) \<leftarrow> sfs_dirent_read_nolock sfs sin i;
     if ret \<noteq> 0 then Some (ret, e, sfs, sin)
     else if de_ino e \<noteq> 0 then
       (if slot = 0 then Some (0, e, sfs, sin) else getdirentry_loop sfs sin (slot - 1) (Suc i) n)
     else getdirentry_loop sfs sin slot (Suc i) n
   }"

definition sfs_getdirentry_sub_nolock ::
    "('d, 'a) sfs_fs_scheme \<Rightarrow> sfs_inode \<Rightarrow> int \<Rightarrow> (int \<times> sfs_disk_entry \<times> ('d, 'a) sfs_fs_scheme \<times> sfs_inode) option" where
  "sfs_getdirentry_sub_nolock sfs sin slot = getdirentry_loop sfs sin slot 0 (unat (di_blocks (din sin)))"

definition sfs_dentry_size :: nat where "sfs_dentry_size = SFS_MAX_FNAME_LEN + 1"

definition sfs_getdirentry :: "('d, 'a) sfs_fs_scheme \<Rightarrow> sfs_inode \<Rightarrow> iobuf \<Rightarrow> bool \<Rightarrow> (int \<times> iobuf \<times> ('d, 'a) sfs_fs_scheme \<times> sfs_inode) option" where
  "sfs_getdirentry sfs sin iob kmalloc =
     (if \<not> kmalloc then Some (- E_NO_MEM, iob, sfs, sin)
      else let offset = io_offset iob in
      if offset < 0 \<or> offset mod int sfs_dentry_size \<noteq> 0 then Some (- E_INVAL, iob, sfs, sin)
      else let slot = offset div int sfs_dentry_size in
      if slot > int (unat (di_blocks (din sin))) then Some (- E_NOENT, iob, sfs, sin)
      else do {
        sin \<leftarrow> lock_sin sin;
        (ret, e, sfs, sin) \<leftarrow> sfs_getdirentry_sub_nolock sfs sin slot;
        if ret \<noteq> 0 then Some (ret, iob, sfs, unlock_sin sin)
        else do {
          let sin = unlock_sin sin;
          (ret, _, iob, _) \<leftarrow> iobuf_move iob (de_name e) sfs_dentry_size True;
          Some (ret, iob, sfs, sin)
        }
      })"

section \<open>Reading and writing files\<close>

text \<open>\<open>sfs_buf_op\<close> and \<open>sfs_block_op\<close> are the function pointers of \<open>sfs_io_nolock\<close>; \<open>pos\<close> is \<open>bufptr - buf\<close>.\<close>

definition sfs_buf_op ::
    "bool \<Rightarrow> ('d, 'a) sfs_fs_scheme \<Rightarrow> u8 list \<Rightarrow> nat \<Rightarrow> nat \<Rightarrow> u32 \<Rightarrow> int \<Rightarrow> (int \<times> u8 list \<times> ('d, 'a) sfs_fs_scheme) option" where
  "sfs_buf_op wr sfs buf pos len blkno offset =
     (if wr then do { (ret, sfs) \<leftarrow> sfs_wbuf sfs (get_bytes pos len buf) blkno offset; Some (ret, buf, sfs) }
      else do { (ret, bs, sfs) \<leftarrow> sfs_rbuf sfs len blkno offset; Some (ret, put_bytes pos bs buf, sfs) })"

definition sfs_block_op ::
    "bool \<Rightarrow> ('d, 'a) sfs_fs_scheme \<Rightarrow> u8 list \<Rightarrow> nat \<Rightarrow> u32 \<Rightarrow> u32 \<Rightarrow> (int \<times> u8 list \<times> ('d, 'a) sfs_fs_scheme) option" where
  "sfs_block_op wr sfs buf pos blkno nblks =
     (let part = get_bytes pos (unat nblks * SFS_BLKSIZE) buf in
      if wr then do { (ret, _, sfs) \<leftarrow> sfs_wblock sfs part blkno nblks; Some (ret, buf, sfs) }
      else do { (ret, bs, sfs) \<leftarrow> sfs_rblock sfs part blkno nblks; Some (ret, put_bytes pos bs buf, sfs) })"

text \<open>The three parts of the transfer: the rest of the first block, whole blocks, and the start of the last block. A
  failing call is a failed assertion.\<close>

definition io_part ::
    "bool \<Rightarrow> ('d, 'a) sfs_fs_scheme \<Rightarrow> sfs_inode \<Rightarrow> u8 list \<Rightarrow> nat \<Rightarrow> nat \<Rightarrow> u32 \<Rightarrow> int \<Rightarrow> (u8 list \<times> ('d, 'a) sfs_fs_scheme \<times> sfs_inode) option" where
  "io_part wr sfs sin buf pos len blkno offset = do {
     (ret, ino, sfs, sin) \<leftarrow> sfs_bmap_load_nolock sfs sin blkno;
     kassert (ret = 0);
     (ret, buf, sfs) \<leftarrow> sfs_buf_op wr sfs buf pos len ino offset;
     kassert (ret = 0);
     Some (buf, sfs, sin)
   }"

definition io_blocks ::
    "bool \<Rightarrow> ('d, 'a) sfs_fs_scheme \<Rightarrow> sfs_inode \<Rightarrow> u8 list \<Rightarrow> nat \<Rightarrow> u32 \<Rightarrow> u32 \<Rightarrow> (u8 list \<times> ('d, 'a) sfs_fs_scheme \<times> sfs_inode) option" where
  "io_blocks wr sfs sin buf pos blkno nblks = do {
     (ret, ino, sfs, sin) \<leftarrow> sfs_bmap_load_nolock sfs sin blkno;
     kassert (ret = 0);
     (ret, buf, sfs) \<leftarrow> sfs_block_op wr sfs buf pos ino nblks;
     kassert (ret = 0);
     Some (buf, sfs, sin)
   }"

definition io_first ::
    "bool \<Rightarrow> ('d, 'a) sfs_fs_scheme \<Rightarrow> sfs_inode \<Rightarrow> u8 list \<Rightarrow> int \<Rightarrow> int \<Rightarrow> u32 \<Rightarrow> u32 \<Rightarrow>
     (u8 list \<times> nat \<times> u32 \<times> u32 \<times> bool \<times> ('d, 'a) sfs_fs_scheme \<times> sfs_inode) option" where
  "io_first wr sfs sin buf offset endpos blkno nblks =
     (let blkoff = offset mod int SFS_BLKSIZE in
      if blkoff > 0 then do {
        let blklen = nat (if nblks > 0 then int SFS_BLKSIZE - blkoff else endpos - offset);
        (buf, sfs, sin) \<leftarrow> io_part wr sfs sin buf 0 blklen blkno blkoff;
        Some (buf, blklen, blkno + 1, if nblks > 0 then nblks - 1 else nblks, \<not> nblks > 0, sfs, sin)
      } else Some (buf, 0, blkno, nblks, False, sfs, sin))"

definition io_middle ::
    "bool \<Rightarrow> ('d, 'a) sfs_fs_scheme \<Rightarrow> sfs_inode \<Rightarrow> u8 list \<Rightarrow> nat \<Rightarrow> u32 \<Rightarrow> u32 \<Rightarrow> (u8 list \<times> nat \<times> ('d, 'a) sfs_fs_scheme \<times> sfs_inode) option" where
  "io_middle wr sfs sin buf pos blkno nblks =
     (if nblks > 0 then do {
        (buf, sfs, sin) \<leftarrow> io_blocks wr sfs sin buf pos blkno nblks;
        Some (buf, pos + unat nblks * SFS_BLKSIZE, sfs, sin)
      } else Some (buf, pos, sfs, sin))"

definition io_last ::
    "bool \<Rightarrow> ('d, 'a) sfs_fs_scheme \<Rightarrow> sfs_inode \<Rightarrow> u8 list \<Rightarrow> nat \<Rightarrow> int \<Rightarrow> bool \<Rightarrow> (u8 list \<times> nat \<times> ('d, 'a) sfs_fs_scheme \<times> sfs_inode) option" where
  "io_last wr sfs sin buf pos endpos single =
     (let blkend = nat (endpos mod int SFS_BLKSIZE) in
      if \<not> single \<and> blkend > 0 then do {
        (buf, sfs, sin) \<leftarrow> io_part wr sfs sin buf pos blkend (of_int (endpos div int SFS_BLKSIZE)) 0;
        Some (buf, pos + blkend, sfs, sin)
      } else Some (buf, pos, sfs, sin))"

text \<open>The result of \<open>sfs_io_nolock\<close> is the error code, \<open>*alenp\<close>, the buffer and the state.\<close>

definition sfs_io_body ::
    "bool \<Rightarrow> ('d, 'a) sfs_fs_scheme \<Rightarrow> sfs_inode \<Rightarrow> u8 list \<Rightarrow> int \<Rightarrow> int \<Rightarrow> (int \<times> nat \<times> u8 list \<times> ('d, 'a) sfs_fs_scheme \<times> sfs_inode) option" where
  "sfs_io_body wr sfs sin buf offset endpos = do {
     let blkno = (of_int (offset div int SFS_BLKSIZE) :: u32);
     let nblks = of_int (endpos div int SFS_BLKSIZE) - blkno;
     (buf, pos, blkno, nblks, single, sfs, sin) \<leftarrow> io_first wr sfs sin buf offset endpos blkno nblks;
     (buf, pos, sfs, sin) \<leftarrow> io_middle wr sfs sin buf pos blkno nblks;
     (buf, alen, sfs, sin) \<leftarrow> io_last wr sfs sin buf pos endpos single;
     let sin = (if offset + int alen > int (unat (di_size (din sin)))
                then sin\<lparr>din := (din sin)\<lparr>di_size := of_int (offset + int alen)\<rparr>, sin_dirty := True\<rparr> else sin);
     Some (0, alen, buf, sfs, sin)
   }"

definition sfs_io_nolock ::
    "('d, 'a) sfs_fs_scheme \<Rightarrow> sfs_inode \<Rightarrow> u8 list \<Rightarrow> int \<Rightarrow> u32 \<Rightarrow> bool \<Rightarrow> (int \<times> nat \<times> u8 list \<times> ('d, 'a) sfs_fs_scheme \<times> sfs_inode) option" where
  "sfs_io_nolock sfs sin buf offset alen wr = do {
     kassert (di_type (din sin) \<noteq> SFS_TYPE_DIR);
     let endpos = sint (of_int offset + alen);
     let size = int (unat (di_size (din sin)));
     if offset < 0 \<or> offset \<ge> SFS_MAX_FILE_SIZE \<or> offset > endpos then Some (- E_INVAL, 0, buf, sfs, sin)
     else if offset = endpos then Some (0, 0, buf, sfs, sin)
     else let endpos = (if endpos > SFS_MAX_FILE_SIZE then SFS_MAX_FILE_SIZE else endpos) in
       if \<not> wr then
         (if offset \<ge> size then Some (0, 0, buf, sfs, sin)
          else sfs_io_body wr sfs sin buf offset (if endpos > size then size else endpos))
       else sfs_io_body wr sfs sin buf offset endpos
   }"

definition sfs_io :: "('d, 'a) sfs_fs_scheme \<Rightarrow> sfs_inode \<Rightarrow> iobuf \<Rightarrow> bool \<Rightarrow> (int \<times> iobuf \<times> ('d, 'a) sfs_fs_scheme \<times> sfs_inode) option" where
  "sfs_io sfs sin iob wr = do {
     sin \<leftarrow> lock_sin sin;
     (ret, alen, b, sfs, sin) \<leftarrow>
       sfs_io_nolock sfs sin (get_bytes (io_base iob) (io_resid iob) (io_buf iob)) (io_offset iob) (of_nat (io_resid iob)) wr;
     let iob = iob\<lparr>io_buf := put_bytes (io_base iob) b (io_buf iob)\<rparr>;
     iob \<leftarrow> (if alen \<noteq> 0 then iobuf_skip iob alen else Some iob);
     Some (ret, iob, sfs, unlock_sin sin)
   }"

definition sfs_read :: "('d, 'a) sfs_fs_scheme \<Rightarrow> sfs_inode \<Rightarrow> iobuf \<Rightarrow> (int \<times> iobuf \<times> ('d, 'a) sfs_fs_scheme \<times> sfs_inode) option" where
  "sfs_read sfs sin iob = sfs_io sfs sin iob False"

definition sfs_write :: "('d, 'a) sfs_fs_scheme \<Rightarrow> sfs_inode \<Rightarrow> iobuf \<Rightarrow> (int \<times> iobuf \<times> ('d, 'a) sfs_fs_scheme \<times> sfs_inode) option" where
  "sfs_write sfs sin iob = sfs_io sfs sin iob True"

section \<open>Resizing, synchronising, attributes\<close>

fun grow_loop :: "nat \<Rightarrow> u32 \<Rightarrow> ('d, 'a) sfs_fs_scheme \<Rightarrow> sfs_inode \<Rightarrow> (int \<times> ('d, 'a) sfs_fs_scheme \<times> sfs_inode) option" where
  "grow_loop 0 nblks sfs sin = Some (0, sfs, sin)"
| "grow_loop (Suc k) nblks sfs sin = do {
     (ret, _, sfs, sin) \<leftarrow> sfs_bmap_load_nolock sfs sin nblks;
     if ret \<noteq> 0 then Some (ret, sfs, sin) else grow_loop k (nblks + 1) sfs sin
   }"

fun shrink_loop :: "nat \<Rightarrow> ('d, 'a) sfs_fs_scheme \<Rightarrow> sfs_inode \<Rightarrow> (int \<times> ('d, 'a) sfs_fs_scheme \<times> sfs_inode) option" where
  "shrink_loop 0 sfs sin = Some (0, sfs, sin)"
| "shrink_loop (Suc k) sfs sin = do {
     (ret, sfs, sin) \<leftarrow> sfs_bmap_truncate_nolock sfs sin;
     if ret \<noteq> 0 then Some (ret, sfs, sin) else shrink_loop k sfs sin
   }"

definition sfs_truncfile :: "('d, 'a) sfs_fs_scheme \<Rightarrow> sfs_inode \<Rightarrow> int \<Rightarrow> (int \<times> ('d, 'a) sfs_fs_scheme \<times> sfs_inode) option" where
  "sfs_truncfile sfs sin len =
     (if len < 0 \<or> len > SFS_MAX_FILE_SIZE then Some (- E_INVAL, sfs, sin)
      else let tblks = ROUNDUP_DIV (of_int len) (of_nat SFS_BLKSIZE) in
      if int (unat (di_size (din sin))) = len then do {
        kassert (tblks = di_blocks (din sin));
        Some (0, sfs, sin)
      } else do {
        sin \<leftarrow> lock_sin sin;
        let nblks = di_blocks (din sin);
        (ret, sfs, sin) \<leftarrow>
          (if nblks < tblks then grow_loop (unat (tblks - nblks)) nblks sfs sin
           else if tblks < nblks then shrink_loop (unat (nblks - tblks)) sfs sin
           else Some (0, sfs, sin));
        if ret \<noteq> 0 then Some (ret, sfs, unlock_sin sin)
        else do {
          kassert (di_blocks (din sin) = tblks);
          Some (0, sfs, unlock_sin (sin\<lparr>din := (din sin)\<lparr>di_size := of_int len\<rparr>, sin_dirty := True\<rparr>))
        }
      })"

definition sfs_tryseek :: "('d, 'a) sfs_fs_scheme \<Rightarrow> sfs_inode \<Rightarrow> int \<Rightarrow> (int \<times> ('d, 'a) sfs_fs_scheme \<times> sfs_inode) option" where
  "sfs_tryseek sfs sin pos =
     (if pos < 0 \<or> pos \<ge> SFS_MAX_FILE_SIZE then Some (- E_INVAL, sfs, sin)
      else if pos > int (unat (di_size (din sin))) then sfs_truncfile sfs sin pos
      else Some (0, sfs, sin))"

definition half_bytes :: "16 word \<Rightarrow> u8 list" where
  "half_bytes w = [ucast w, ucast (drop_bit 8 w)]"

definition inode_bytes :: "sfs_disk_inode \<Rightarrow> u8 list" where
  "inode_bytes d = word_bytes (di_size d) @ half_bytes (di_type d) @ half_bytes (di_nlinks d) @ word_bytes (di_blocks d) @
     concat (map word_bytes (di_direct d)) @ word_bytes (di_indirect d)"

definition sfs_fsync :: "('d, 'a) sfs_fs_scheme \<Rightarrow> sfs_inode \<Rightarrow> (int \<times> ('d, 'a) sfs_fs_scheme \<times> sfs_inode) option" where
  "sfs_fsync sfs sin =
     (if sin_dirty sin then do {
        sin \<leftarrow> lock_sin sin;
        if sin_dirty sin then do {
          let sin = sin\<lparr>sin_dirty := False\<rparr>;
          (ret, sfs) \<leftarrow> sfs_wbuf sfs (inode_bytes (din sin)) (sin_ino sin) 0;
          Some (ret, sfs, unlock_sin (if ret \<noteq> 0 then sin\<lparr>sin_dirty := True\<rparr> else sin))
        } else Some (0, sfs, unlock_sin sin)
      } else Some (0, sfs, sin))"

definition sfs_close :: "('d, 'a) sfs_fs_scheme \<Rightarrow> sfs_inode \<Rightarrow> (int \<times> ('d, 'a) sfs_fs_scheme \<times> sfs_inode) option" where
  "sfs_close sfs sin = sfs_fsync sfs sin"

definition S_IFREG :: u32 where "S_IFREG = 0x1000"
definition S_IFDIR :: u32 where "S_IFDIR = 0x2000"
definition S_IFLNK :: u32 where "S_IFLNK = 0x3000"

definition sfs_gettype :: "sfs_inode \<Rightarrow> u32 option" where
  "sfs_gettype sin =
     (if di_type (din sin) = SFS_TYPE_DIR then Some S_IFDIR
      else if di_type (din sin) = SFS_TYPE_FILE then Some S_IFREG
      else if di_type (din sin) = SFS_TYPE_LINK then Some S_IFLNK
      else None)"

record stat =
  st_mode :: u32
  st_nlinks :: u32
  st_blocks :: u32
  st_size :: u32

definition sfs_fstat :: "sfs_inode \<Rightarrow> (int \<times> stat) option" where
  "sfs_fstat sin = do {
     ty \<leftarrow> sfs_gettype sin;
     Some (0, \<lparr>st_mode = ty, st_nlinks = ucast (di_nlinks (din sin)), st_blocks = di_blocks (din sin), st_size = di_size (din sin)\<rparr>)
   }"

definition O_ACCMODE :: u32 where "O_ACCMODE = 3"
definition O_RDONLY :: u32 where "O_RDONLY = 0"
definition O_APPEND :: u32 where "O_APPEND = 0x20"

definition sfs_opendir :: "u32 \<Rightarrow> int" where
  "sfs_opendir open_flags =
     (if open_flags AND O_ACCMODE \<noteq> O_RDONLY then - E_ISDIR
      else if open_flags AND O_APPEND \<noteq> 0 then - E_ISDIR
      else 0)"

definition sfs_openfile :: int where
  "sfs_openfile = 0"

end
