(* ===== verification/Sfs_Correct.thy ===== *)
theory Sfs_Correct
  imports Sfs_Inode
begin

text \<open>
  Correctness of the simple file system on a block device that satisfies the contract of theory \<open>Sfs_Io\<close>: allocation
  of blocks, the block map, directory search and file reading. The lemmas are proved once for every such device and
  used for the kernel's disk.
\<close>

section \<open>Free blocks\<close>

text \<open>The free map describes blocks between 1 and the number of blocks, and the superblock counts the free ones.\<close>

definition sfs_inv :: "('d, 'a) sfs_fs_scheme \<Rightarrow> bool" where
  "sfs_inv sfs \<longleftrightarrow> bitmap_wf (freemap sfs) \<and> sb_blocks (super sfs) \<le> nbits (freemap sfs) \<and>
     free_bits (freemap sfs) \<subseteq> {1..<unat (sb_blocks (super sfs))} \<and>
     unat (sb_unused_blocks (super sfs)) = card (free_bits (freemap sfs)) \<and> 0 < io_sem sfs"

definition sfs_free :: "('d, 'a) sfs_fs_scheme \<Rightarrow> nat set" where
  "sfs_free sfs = free_bits (freemap sfs)"

definition used_block :: "('d, 'a) sfs_fs_scheme \<Rightarrow> u32 \<Rightarrow> bool" where
  "used_block sfs b \<longleftrightarrow> b \<noteq> 0 \<and> b < sb_blocks (super sfs) \<and> unat b \<notin> sfs_free sfs"

lemma finite_free_bits [simp]: "finite (free_bits b)"
  by (simp add: free_bits_def)

lemma inuse_ok:
  assumes "sfs_inv sfs" "ino \<noteq> 0" "ino < sb_blocks (super sfs)"
  shows "sfs_block_inuse sfs ino = Some (used_block sfs ino)"
proof -
  have "bitmap_wf (freemap sfs)" "ino < nbits (freemap sfs)" using assms by (auto simp: sfs_inv_def)
  from bitmap_test_ok [OF this] assms(2,3) show ?thesis
    by (auto simp: sfs_block_inuse_def used_block_def sfs_free_def)
qed

lemma inuse_used [simp]: "sfs_inv sfs \<Longrightarrow> used_block sfs ino \<Longrightarrow> sfs_block_inuse sfs ino = Some True"
  using inuse_ok [of sfs ino] by (auto simp: used_block_def)

lemma inv_same: "sfs_same sfs sfs' \<Longrightarrow> sfs_inv sfs' \<longleftrightarrow> sfs_inv sfs"
  by (simp add: sfs_same_def sfs_inv_def)

lemma used_same: "sfs_same sfs sfs' \<Longrightarrow> used_block sfs' = used_block sfs"
  by (simp add: sfs_same_def used_block_def sfs_free_def fun_eq_iff)

lemma block_free_ok:
  assumes "sfs_inv sfs" "used_block sfs ino"
  shows "\<exists>sfs'. sfs_block_free sfs ino = Some sfs' \<and> sfs_inv sfs' \<and> sfs_free sfs' = insert (unat ino) (sfs_free sfs) \<and>
    sfs_dev sfs' = sfs_dev sfs \<and> sfs_buffer sfs' = sfs_buffer sfs \<and> sb_blocks (super sfs') = sb_blocks (super sfs) \<and>
    io_sem sfs' = io_sem sfs \<and> fs_sem sfs' = fs_sem sfs \<and> sfs_fs.more sfs' = sfs_fs.more sfs"
proof -
  have wf: "bitmap_wf (freemap sfs)" and lt: "ino < nbits (freemap sfs)"
    and sub: "free_bits (freemap sfs) \<subseteq> {1..<unat (sb_blocks (super sfs))}"
    and cnt: "unat (sb_unused_blocks (super sfs)) = card (free_bits (freemap sfs))"
    using assms by (auto simp: sfs_inv_def used_block_def)
  have u: "ino \<noteq> 0" "ino < sb_blocks (super sfs)" "unat ino \<notin> free_bits (freemap sfs)"
    using assms(2) by (auto simp: used_block_def sfs_free_def)
  obtain fm where fm: "bitmap_free (freemap sfs) ino = Some fm" "bitmap_wf fm" "nbits fm = nbits (freemap sfs)"
      "free_bits fm = insert (unat ino) (free_bits (freemap sfs))"
    using bitmap_free_ok [OF wf, of ino] lt u(3) by auto
  have mem: "unat ino \<in> {1..<unat (sb_blocks (super sfs))}" using u by (simp add: word_less_nat_alt unat_gt_0 Suc_le_eq)
  then have "insert (unat ino) (free_bits (freemap sfs)) \<subseteq> {1..<unat (sb_blocks (super sfs))}" using sub by blast
  then have "card (insert (unat ino) (free_bits (freemap sfs))) \<le> card {1..<unat (sb_blocks (super sfs))}"
    by (intro card_mono) simp_all
  then have "unat (sb_unused_blocks (super sfs)) + 1 < 2 ^ 32"
    using cnt u(3) unat_bound32 [of "sb_blocks (super sfs)"] by simp
  then have "unat (sb_unused_blocks (super sfs) + 1) = card (free_bits fm)"
    using unat_add_no_wrap [of "sb_unused_blocks (super sfs)" 1] cnt fm(4) u(3) by simp
  then show ?thesis
    using assms fm mem by (auto simp: sfs_block_free_def sfs_inv_def sfs_free_def)
qed

context block_device
begin

lemma block_alloc_ok:
  assumes "sfs_on io blocks ok sfs" "sfs_inv sfs"
  shows "if sfs_free sfs = {} then sfs_block_alloc sfs = Some (- E_NO_MEM, 0, sfs)
    else \<exists>ino sfs'. sfs_block_alloc sfs = Some (0, ino, sfs') \<and> unat ino = Min (sfs_free sfs) \<and> sfs_on io blocks ok sfs' \<and>
      sfs_inv sfs' \<and> sfs_free sfs' = sfs_free sfs - {unat ino} \<and> used_block sfs' ino \<and> \<not> used_block sfs ino \<and>
      (\<forall>b. b \<noteq> unat ino \<longrightarrow> disk_of blk sfs' b = disk_of blk sfs b) \<and>
      sb_blocks (super sfs') = sb_blocks (super sfs) \<and> io_sem sfs' = io_sem sfs \<and> fs_sem sfs' = fs_sem sfs \<and>
      sfs_fs.more sfs' = sfs_fs.more sfs"
proof (cases "sfs_free sfs = {}")
  case True
  then show ?thesis
    using bitmap_alloc_ok [of "freemap sfs"] assms(2) by (simp add: sfs_block_alloc_def sfs_free_def sfs_inv_def)
next
  case False
  have wf: "bitmap_wf (freemap sfs)" and nb: "sb_blocks (super sfs) \<le> nbits (freemap sfs)"
    and sub: "free_bits (freemap sfs) \<subseteq> {1..<unat (sb_blocks (super sfs))}"
    and cnt: "unat (sb_unused_blocks (super sfs)) = card (free_bits (freemap sfs))"
    using assms(2) by (auto simp: sfs_inv_def)
  have ne: "free_bits (freemap sfs) \<noteq> {}" using False by (simp add: sfs_free_def)
  obtain ino fm where fm: "bitmap_alloc (freemap sfs) = Some (0, Some ino, fm)" "bitmap_wf fm" "nbits fm = nbits (freemap sfs)"
      "unat ino = Min (free_bits (freemap sfs))" "free_bits fm = free_bits (freemap sfs) - {unat ino}"
    using bitmap_alloc_ok [OF wf] ne by auto
  have mem: "unat ino \<in> free_bits (freemap sfs)" using fm(4) ne by (metis Min_in finite_free_bits)
  then have rng: "ino \<noteq> 0" "ino < sb_blocks (super sfs)" using sub by (auto simp: word_less_nat_alt unat_gt_0)
  have pos: "0 < sb_unused_blocks (super sfs)" using cnt mem by (metis card_gt_0_iff empty_iff finite_free_bits unat_gt_0 word_gt_0)
  define s1 where "s1 = sfs\<lparr>freemap := fm, super := (super sfs)\<lparr>sb_unused_blocks := sb_unused_blocks (super sfs) - 1\<rparr>, super_dirty := True\<rparr>"
  have "unat (sb_unused_blocks (super sfs) - 1) = card (free_bits fm)"
    using pos cnt mem fm(5) by (simp add: unat_minus_one word_gt_0)
  then have inv1: "sfs_inv s1" using assms(2) fm nb sub by (auto simp: sfs_inv_def s1_def)
  have on1: "sfs_on io blocks ok s1" using assms(1) by (simp add: sfs_on_def s1_def)
  have u1: "used_block s1 ino" using rng fm(5) by (simp add: used_block_def sfs_free_def s1_def)
  obtain s2 where s2: "sfs_clear_block s1 ino 1 = Some (0, s2)" "sfs_on io blocks ok s2" "sfs_same s1 s2"
      "\<forall>b. b \<noteq> unat ino \<longrightarrow> disk_of blk s2 b = disk_of blk s1 b"
    using clear_ok [OF on1, of ino] rng inv1 by (auto simp: s1_def sfs_inv_def)
  have "sfs_block_alloc sfs = Some (0, ino, s2)"
    using fm(1) pos s2(1) inuse_used [OF inv1 u1] by (simp add: sfs_block_alloc_def s1_def)
  moreover have "sfs_inv s2" "used_block s2 ino" using inv_same [OF s2(3)] used_same [OF s2(3)] inv1 u1 by simp_all
  moreover have "sfs_free s2 = sfs_free sfs - {unat ino}" "sb_blocks (super s2) = sb_blocks (super sfs)" "io_sem s2 = io_sem sfs" "fs_sem s2 = fs_sem sfs"
    "sfs_fs.more s2 = sfs_fs.more sfs"
    using s2(3) fm(5) by (simp_all add: sfs_same_def sfs_free_def s1_def)
  moreover have "\<forall>b. b \<noteq> unat ino \<longrightarrow> disk_of blk s2 b = disk_of blk sfs b" using s2(4) by (simp add: s1_def)
  moreover have "\<not> used_block sfs ino" "unat ino = Min (sfs_free sfs)" using mem fm(4) by (simp_all add: used_block_def sfs_free_def)
  ultimately show ?thesis using False s2(2) by auto
qed

end

text \<open>
  C19: on the kernel's disk the allocator of blocks hands out the free block with the smallest number, never block 0 and
  never a block in use, or returns \<open>- E_NO_MEM\<close> when none is free; a block in use can be freed again; and
  the count of unused blocks in the superblock always equals the number of free bits of the free map.
\<close>

theorem sfs_blocks_accounted:
  assumes "sfs_on disk0_io (DISK0_DEVSIZE div DISK0_BLKSIZE) disk0_ok sfs" "sfs_inv sfs"
  shows "(if sfs_free sfs = {} then sfs_block_alloc sfs = Some (- E_NO_MEM, 0, sfs)
     else \<exists>ino sfs'. sfs_block_alloc sfs = Some (0, ino, sfs') \<and> unat ino = Min (sfs_free sfs) \<and> 0 < ino \<and>
       ino < sb_blocks (super sfs) \<and> sfs_inv sfs' \<and> sfs_free sfs' = sfs_free sfs - {unat ino} \<and>
       (\<exists>sfs''. sfs_block_free sfs' ino = Some sfs'' \<and> sfs_inv sfs'' \<and> sfs_free sfs'' = sfs_free sfs)) \<and>
    (used_block sfs b \<longrightarrow> (\<exists>sfs'. sfs_block_free sfs b = Some sfs' \<and> sfs_inv sfs' \<and>
       sfs_free sfs' = insert (unat b) (sfs_free sfs))) \<and>
    (b \<noteq> 0 \<and> \<not> used_block sfs b \<longrightarrow> sfs_block_free sfs b = None)"
proof (intro conjI impI)
  show "if sfs_free sfs = {} then sfs_block_alloc sfs = Some (- E_NO_MEM, 0, sfs)
     else \<exists>ino sfs'. sfs_block_alloc sfs = Some (0, ino, sfs') \<and> unat ino = Min (sfs_free sfs) \<and> 0 < ino \<and>
       ino < sb_blocks (super sfs) \<and> sfs_inv sfs' \<and> sfs_free sfs' = sfs_free sfs - {unat ino} \<and>
       (\<exists>sfs''. sfs_block_free sfs' ino = Some sfs'' \<and> sfs_inv sfs'' \<and> sfs_free sfs'' = sfs_free sfs)"
  proof (cases "sfs_free sfs = {}")
    case True
    then show ?thesis using d0.block_alloc_ok [OF assms] by simp
  next
    case False
    then obtain ino sfs' where a: "sfs_block_alloc sfs = Some (0, ino, sfs')" "unat ino = Min (sfs_free sfs)" "sfs_inv sfs'"
        "sfs_free sfs' = sfs_free sfs - {unat ino}" "used_block sfs' ino" "sb_blocks (super sfs') = sb_blocks (super sfs)"
      using d0.block_alloc_ok [OF assms] by auto
    have "unat ino \<in> sfs_free sfs" using a(2) False by (metis Min_in finite_free_bits sfs_free_def)
    then have "insert (unat ino) (sfs_free sfs') = sfs_free sfs" using a(4) by blast
    then show ?thesis
      using block_free_ok [OF a(3,5)] a False by (auto simp: used_block_def word_gt_0)
  qed
  show "\<exists>sfs'. sfs_block_free sfs b = Some sfs' \<and> sfs_inv sfs' \<and> sfs_free sfs' = insert (unat b) (sfs_free sfs)" if "used_block sfs b"
    using block_free_ok [OF assms(2) that] by blast
  show "sfs_block_free sfs b = None" if "b \<noteq> 0 \<and> \<not> used_block sfs b"
    using that inuse_ok [OF assms(2), of b] by (cases "b < sb_blocks (super sfs)") (auto simp: sfs_block_free_def sfs_block_inuse_def)
qed

definition demo_sfs :: "disk0 sfs_fs" where
  "demo_sfs = \<lparr>super = \<lparr>sb_magic = SFS_MAGIC, sb_blocks = 8, sb_unused_blocks = 4, sb_info = []\<rparr>,
     sfs_dev = \<lparr>d_blocks = DISK0_DEVSIZE div DISK0_BLKSIZE, d_blocksize = DISK0_BLKSIZE,
       d_open = disk0_open, d_close = disk0_close, d_ioctl = disk0_ioctl, d_io = disk0_io, d_state = demo_disk\<rparr>,
     freemap = \<lparr>nbits = 32, nwords = 1, bm_map = [0xF0]\<rparr>, super_dirty = False, sfs_buffer = replicate SFS_BLKSIZE 0,
     fs_sem = 1, io_sem = 1\<rparr>"

lemma bit_F0: "bit (0xF0 :: u32) i \<longleftrightarrow> i \<in> {4, 5, 6, 7}"
proof -
  have "bit (push_bit 4 (mask 4) :: u32) i \<longleftrightarrow> 4 \<le> i \<and> i < 8" by (auto simp: bit_push_bit_iff bit_mask_iff)
  moreover have "push_bit 4 (mask 4) = (0xF0 :: u32)" by (simp add: push_bit_eq_mult mask_eq_exp_minus_1)
  ultimately have "bit (0xF0 :: u32) i \<longleftrightarrow> 4 \<le> i \<and> i < 8" by metis
  then show ?thesis by auto
qed

lemma demo_sfs_free: "sfs_free demo_sfs = {4, 5, 6, 7}"
proof -
  have "bm_bit [0xF0] i \<longleftrightarrow> i \<in> {4, 5, 6, 7}" if "i < 32" for i
    using that bit_F0 [of i] by (simp add: bm_bit_def del: bit_numeral_simps)
  then have "{i. i < 32 \<and> bm_bit [0xF0] i} = {4, 5, 6, 7}" by auto
  then show ?thesis by (simp add: sfs_free_def free_bits_def demo_sfs_def)
qed

lemma demo_sfs_ok:
  "sfs_on disk0_io (DISK0_DEVSIZE div DISK0_BLKSIZE) disk0_ok demo_sfs" "sfs_inv demo_sfs"
proof -
  show "sfs_on disk0_io (DISK0_DEVSIZE div DISK0_BLKSIZE) disk0_ok demo_sfs"
    by (simp add: sfs_on_def demo_sfs_def disk0_ok_def demo_disk_def DISK0_DEVSIZE_def DISK0_BLKSIZE_def)
  have "bitmap_wf (freemap demo_sfs)" by (simp add: bitmap_wf_def demo_sfs_def)
  then show "sfs_inv demo_sfs"
    using demo_sfs_free by (auto simp: sfs_inv_def sfs_free_def demo_sfs_def)
qed

theorem sfs_blocks_accounted_witness:
  "\<exists>sfs'. sfs_block_alloc demo_sfs = Some (0, 4, sfs') \<and> sfs_free sfs' = {5, 6, 7}"
proof -
  obtain ino sfs' where "sfs_block_alloc demo_sfs = Some (0, ino, sfs')" "unat ino = Min {4, 5, 6, 7}" "sfs_free sfs' = {4, 5, 6, 7} - {unat ino}"
    using sfs_blocks_accounted [OF demo_sfs_ok, of 0] unfolding demo_sfs_free by auto
  moreover have "ino = 4" if "unat ino = 4" for ino :: u32 using that by (simp add: word_unat_eq_iff)
  ultimately show ?thesis by auto
qed

section \<open>The block map\<close>

text \<open>The disk block of block \<open>i\<close> of a file (\<open>0\<close> for none), from the inode and the disk.\<close>

definition bmap_of :: "(nat \<Rightarrow> u8 list) \<Rightarrow> sfs_disk_inode \<Rightarrow> nat \<Rightarrow> u32" where
  "bmap_of disk d i =
     (if i < 12 then di_direct d ! i
      else if di_indirect d = 0 then 0
      else bytes_word (get_bytes (4 * (i - 12)) 4 (disk (unat (di_indirect d)))))"

definition inode_ok :: "('d, 'a) sfs_fs_scheme \<Rightarrow> (nat \<Rightarrow> u8 list) \<Rightarrow> sfs_disk_inode \<Rightarrow> bool" where
  "inode_ok sfs disk d \<longleftrightarrow> length (di_direct d) = 12 \<and> (di_indirect d \<noteq> 0 \<longrightarrow> used_block sfs (di_indirect d)) \<and>
     unat (di_blocks d) \<le> 1036 \<and> (\<forall>i < unat (di_blocks d). used_block sfs (bmap_of disk d i))"

lemma entry_offset:
  assumes "index < SFS_BLK_NENTRY"
  shows "sint (index * 4) = int (4 * unat index)" "4 * unat index + 4 \<le> SFS_BLKSIZE"
proof -
  have lt: "unat index < 1024" using assms by (simp add: word_less_nat_alt SFS_BLK_NENTRY_def)
  then have "unat (index * 4) = 4 * unat index" using unat_mult_no_wrap [of index 4] by (simp add: mult.commute)
  then have "uint (index * 4) = int (4 * unat index)" by (metis uint_nat)
  moreover have "4 * unat index < 2 ^ 31" using lt by simp
  then have "int (4 * unat index) < 2 ^ 31" by (metis of_nat_less_numeral_power_cancel_iff)
  ultimately have "uint (index * 4) < 2 ^ 31" by metis
  then have "sint (index * 4) = uint (index * 4)"
    unfolding sint_uint by (intro signed_take_bit_int_eq_self) (auto intro: order_trans [OF _ unsigned_greater_eq])
  then show "sint (index * 4) = int (4 * unat index)" using \<open>uint (index * 4) = int (4 * unat index)\<close> by simp
  show "4 * unat index + 4 \<le> SFS_BLKSIZE" using lt by (simp add: SFS_BLKSIZE_def)
qed

context block_device
begin

lemma get_sub_ok:
  assumes "sfs_on io blocks ok sfs" "sfs_inv sfs" "entp \<noteq> 0 \<longrightarrow> used_block sfs entp" "index < SFS_BLK_NENTRY"
  shows "\<exists>sfs'. sfs_bmap_get_sub_nolock sfs entp index False =
      Some (0, entp, if entp = 0 then 0 else bytes_word (get_bytes (4 * unat index) 4 (disk_of blk sfs (unat entp))), sfs') \<and>
    sfs_on io blocks ok sfs' \<and> sfs_same sfs sfs' \<and> disk_of blk sfs' = disk_of blk sfs"
proof (cases "entp = 0")
  case True
  then show ?thesis using assms(1,4) by (simp add: sfs_bmap_get_sub_nolock_def)
next
  case False
  have "entp < sb_blocks (super sfs)" "0 < io_sem sfs" using assms(2,3) False by (auto simp: used_block_def sfs_inv_def)
  moreover define k where "k = 4 * unat index"
  have k: "k + 4 \<le> SFS_BLKSIZE" "sint (index * 4) = int k" unfolding k_def using entry_offset [OF assms(4)] by simp_all
  ultimately obtain s1 where "sfs_rbuf sfs 4 entp (int k) = Some (0, get_bytes k 4 (disk_of blk sfs (unat entp)), s1)"
      "sfs_on io blocks ok s1" "sfs_same sfs s1" "disk_of blk s1 = disk_of blk sfs"
    using rbuf_ok [OF assms(1) _ False, of "int k" 4] by auto
  then show ?thesis unfolding k_def [symmetric] using False assms(4) k(2) by (simp add: sfs_bmap_get_sub_nolock_def)
qed

lemma bmap_get_ok:
  assumes "sfs_on io blocks ok sfs" "sfs_inv sfs" "inode_ok sfs (disk_of blk sfs) (din sin)" "unat index < unat (di_blocks (din sin))"
  shows "\<exists>sfs'. sfs_bmap_get_nolock sfs sin index False = Some (0, bmap_of (disk_of blk sfs) (din sin) (unat index), sfs', sin) \<and>
    sfs_on io blocks ok sfs' \<and> sfs_same sfs sfs' \<and> disk_of blk sfs' = disk_of blk sfs"
proof -
  let ?b = "bmap_of (disk_of blk sfs) (din sin) (unat index)"
  have used: "used_block sfs ?b" and ind: "di_indirect (din sin) \<noteq> 0 \<longrightarrow> used_block sfs (di_indirect (din sin))"
    and small: "unat index < 1036" using assms(3,4) by (auto simp: inode_ok_def)
  show ?thesis
  proof (cases "index < SFS_NDIRECT")
    case True
    then have "unat index < 12" by (simp add: SFS_NDIRECT_def word_less_nat_alt)
    then show ?thesis using True assms(1,2) used by (auto simp: sfs_bmap_get_nolock_def bmap_out_def bmap_of_def Let_def)
  next
    case False
    then have ge: "12 \<le> unat index" by (simp add: SFS_NDIRECT_def word_less_nat_alt)
    then have d: "unat (index - SFS_NDIRECT) = unat index - 12" by (simp add: SFS_NDIRECT_def unat_sub word_le_nat_alt)
    then have lt: "index - SFS_NDIRECT < SFS_BLK_NENTRY" using small by (simp add: word_less_nat_alt SFS_BLK_NENTRY_def)
    from get_sub_ok [OF assms(1,2) ind lt] obtain s1 where
      s1: "sfs_bmap_get_sub_nolock sfs (di_indirect (din sin)) (index - SFS_NDIRECT) False = Some (0, di_indirect (din sin), ?b, s1)"
        "sfs_on io blocks ok s1" "sfs_same sfs s1" "disk_of blk s1 = disk_of blk sfs"
      using ge unfolding d by (auto simp: bmap_of_def)
    have "sfs_block_inuse s1 ?b = Some True" using used inv_same [OF s1(3)] used_same [OF s1(3)] assms(2) by simp
    then show ?thesis using False lt s1 by (simp add: sfs_bmap_get_nolock_def bmap_out_def)
  qed
qed

lemma bmap_load_ok:
  assumes "sfs_on io blocks ok sfs" "sfs_inv sfs" "inode_ok sfs (disk_of blk sfs) (din sin)" "unat index < unat (di_blocks (din sin))"
  shows "\<exists>sfs'. sfs_bmap_load_nolock sfs sin index = Some (0, bmap_of (disk_of blk sfs) (din sin) (unat index), sfs', sin) \<and>
    sfs_on io blocks ok sfs' \<and> sfs_same sfs sfs' \<and> disk_of blk sfs' = disk_of blk sfs"
proof -
  obtain s1 where s1: "sfs_bmap_get_nolock sfs sin index False = Some (0, bmap_of (disk_of blk sfs) (din sin) (unat index), s1, sin)"
      "sfs_on io blocks ok s1" "sfs_same sfs s1" "disk_of blk s1 = disk_of blk sfs"
    using bmap_get_ok [OF assms] by blast
  have "used_block sfs (bmap_of (disk_of blk sfs) (din sin) (unat index))" using assms(3,4) by (simp add: inode_ok_def)
  then have "sfs_block_inuse s1 (bmap_of (disk_of blk sfs) (din sin) (unat index)) = Some True"
    using inv_same [OF s1(3)] used_same [OF s1(3)] assms(2) by simp
  moreover have "index \<noteq> di_blocks (din sin)" "index \<le> di_blocks (din sin)" using assms(4) by (auto simp: word_le_nat_alt)
  ultimately show ?thesis using s1 by (simp add: sfs_bmap_load_nolock_def)
qed

end

section \<open>Directories\<close>

text \<open>The entry in slot \<open>i\<close> of a directory, with the terminated name that \<open>sfs_dirent_read_nolock\<close> delivers.\<close>

definition dir_entry :: "(nat \<Rightarrow> u8 list) \<Rightarrow> sfs_disk_inode \<Rightarrow> nat \<Rightarrow> sfs_disk_entry" where
  "dir_entry disk d i =
     (let e = entry_of (get_bytes 0 (4 + (SFS_MAX_FNAME_LEN + 1)) (disk (unat (bmap_of disk d i))))
      in e\<lparr>de_name := (de_name e)[SFS_MAX_FNAME_LEN := 0]\<rparr>)"

definition dir_match :: "(nat \<Rightarrow> u8 list) \<Rightarrow> sfs_disk_inode \<Rightarrow> u8 list \<Rightarrow> nat \<Rightarrow> bool" where
  "dir_match disk d name i \<longleftrightarrow> de_ino (dir_entry disk d i) \<noteq> 0 \<and> cstr name = cstr (de_name (dir_entry disk d i))"

lemma inode_ok_same: "sfs_same sfs sfs' \<Longrightarrow> inode_ok sfs' disk d = inode_ok sfs disk d"
  by (simp add: inode_ok_def used_same)

context block_device
begin

lemma dirent_read_ok:
  assumes "sfs_on io blocks ok sfs" "sfs_inv sfs" "inode_ok sfs (disk_of blk sfs) (din sin)"
    and "di_type (din sin) = SFS_TYPE_DIR" "slot < unat (di_blocks (din sin))"
  shows "\<exists>sfs'. sfs_dirent_read_nolock sfs sin slot = Some (0, dir_entry (disk_of blk sfs) (din sin) slot, sfs', sin) \<and>
    sfs_on io blocks ok sfs' \<and> sfs_same sfs sfs' \<and> disk_of blk sfs' = disk_of blk sfs"
proof -
  have slot: "unat (of_nat slot :: u32) = slot" using assms(5) unat_bound32 [of "di_blocks (din sin)"] by (simp add: unat_of_nat_small)
  let ?b = "bmap_of (disk_of blk sfs) (din sin) slot"
  obtain s1 where s1: "sfs_bmap_load_nolock sfs sin (of_nat slot) = Some (0, ?b, s1, sin)"
      "sfs_on io blocks ok s1" "sfs_same sfs s1" "disk_of blk s1 = disk_of blk sfs"
    using bmap_load_ok [OF assms(1-3), of "of_nat slot"] assms(5) slot by auto
  have used: "used_block sfs ?b" using assms(3,5) by (simp add: inode_ok_def)
  then have u1: "sfs_block_inuse s1 ?b = Some True" using inv_same [OF s1(3)] used_same [OF s1(3)] assms(2) by simp
  have b: "?b < sb_blocks (super s1)" "?b \<noteq> 0" "0 < io_sem s1"
    using used assms(2) s1(3) by (auto simp: used_block_def sfs_same_def sfs_inv_def)
  have len: "4 + (SFS_MAX_FNAME_LEN + 1) \<le> SFS_BLKSIZE" by (simp add: SFS_MAX_FNAME_LEN_def SFS_BLKSIZE_def)
  obtain s2 where s2: "sfs_rbuf s1 (4 + (SFS_MAX_FNAME_LEN + 1)) ?b 0 =
      Some (0, get_bytes 0 (4 + (SFS_MAX_FNAME_LEN + 1)) (disk_of blk sfs (unat ?b)), s2)"
      "sfs_on io blocks ok s2" "sfs_same s1 s2" "disk_of blk s2 = disk_of blk sfs"
    using rbuf_ok [OF s1(2) b, of 0 "4 + (SFS_MAX_FNAME_LEN + 1)"] len s1(4) by auto
  show ?thesis
    using assms(4,5) s1(1) u1 s2 sfs_same_trans [OF s1(3) s2(3)]
    by (simp add: sfs_dirent_read_nolock_def dir_entry_def Let_def)
qed

lemma search_loop_ok:
  assumes "sfs_on io blocks ok sfs" "sfs_inv sfs" "inode_ok sfs (disk_of blk sfs) (din sin)"
    and "di_type (din sin) = SFS_TYPE_DIR" "i + n = unat (di_blocks (din sin))"
  shows "\<exists>es sfs'. sfs_on io blocks ok sfs' \<and> sfs_same sfs sfs' \<and> disk_of blk sfs' = disk_of blk sfs \<and>
    (case find (dir_match (disk_of blk sfs) (din sin) name) [i..<i + n] of
       None \<Rightarrow> dirent_search_loop sfs sin name i n empty_slot = Some (- E_NOENT, 0, 0, es, sfs', sin)
     | Some j \<Rightarrow> dirent_search_loop sfs sin name i n empty_slot =
         Some (0, de_ino (dir_entry (disk_of blk sfs) (din sin) j), j, es, sfs', sin))"
  using assms
proof (induction n arbitrary: sfs i empty_slot)
  case 0
  then show ?case by auto
next
  case (Suc n)
  let ?e = "dir_entry (disk_of blk sfs) (din sin) i"
  have lt: "i < unat (di_blocks (din sin))" using Suc.prems(5) by simp
  obtain s1 where s1: "sfs_dirent_read_nolock sfs sin i = Some (0, ?e, s1, sin)"
      "sfs_on io blocks ok s1" "sfs_same sfs s1" "disk_of blk s1 = disk_of blk sfs"
    using dirent_read_ok [OF Suc.prems(1-4) lt] by blast
  have up: "[i..<i + Suc n] = i # [Suc i..<Suc i + n]" by (simp add: upt_conv_Cons)
  have pre: "sfs_inv s1" "inode_ok s1 (disk_of blk s1) (din sin)" "Suc i + n = unat (di_blocks (din sin))"
    using Suc.prems inv_same [OF s1(3)] inode_ok_same [OF s1(3)] s1(4) by simp_all
  note IH = Suc.IH [OF s1(2) pre(1,2) Suc.prems(4) pre(3)]
  show ?case
  proof (cases "dir_match (disk_of blk sfs) (din sin) name i")
    case True
    then show ?thesis unfolding up using s1 by (auto simp: dir_match_def)
  next
    case False
    define es1 where "es1 = (if de_ino ?e = 0 then i else empty_slot)"
    have "dirent_search_loop sfs sin name i (Suc n) empty_slot = dirent_search_loop s1 sin name (Suc i) n es1"
      using False s1(1) by (auto simp: dir_match_def es1_def)
    then show ?thesis
      unfolding up using False IH [of es1] s1(3,4) sfs_same_trans [OF s1(3)]
      by (fastforce split: option.splits)
  qed
qed

end

text \<open>
  C20: searching a directory on the kernel's disk returns the first used slot whose name equals the name searched, with
  its inode number, or \<open>- E_NOENT\<close> when there is none; it ends, and changes neither the directory nor the free
  map nor the disk.
\<close>

theorem sfs_dirent_search_correct:
  assumes "sfs_on disk0_io (DISK0_DEVSIZE div DISK0_BLKSIZE) disk0_ok sfs" "sfs_inv sfs"
    and "inode_ok sfs (disk_of disk0_blk sfs) (din sin)" "di_type (din sin) = SFS_TYPE_DIR" "length (cstr name) \<le> SFS_MAX_FNAME_LEN"
  shows "\<exists>ret ino slot es sfs'. sfs_dirent_search_nolock sfs sin name True = Some (ret, ino, slot, es, sfs', sin) \<and>
    sfs_same sfs sfs' \<and> disk_of disk0_blk sfs' = disk_of disk0_blk sfs \<and>
    (if \<exists>i < unat (di_blocks (din sin)). dir_match (disk_of disk0_blk sfs) (din sin) name i
     then ret = 0 \<and> slot < unat (di_blocks (din sin)) \<and> dir_match (disk_of disk0_blk sfs) (din sin) name slot \<and>
       ino = de_ino (dir_entry (disk_of disk0_blk sfs) (din sin) slot) \<and>
       (\<forall>i < slot. \<not> dir_match (disk_of disk0_blk sfs) (din sin) name i)
     else ret = - E_NOENT)"
proof -
  let ?n = "unat (di_blocks (din sin))" and ?P = "dir_match (disk_of disk0_blk sfs) (din sin) name"
  obtain es sfs' where r: "sfs_same sfs sfs'" "disk_of disk0_blk sfs' = disk_of disk0_blk sfs"
    "case find ?P [0..<?n] of
       None \<Rightarrow> dirent_search_loop sfs sin name 0 ?n ?n = Some (- E_NOENT, 0, 0, es, sfs', sin)
     | Some j \<Rightarrow> dirent_search_loop sfs sin name 0 ?n ?n =
         Some (0, de_ino (dir_entry (disk_of disk0_blk sfs) (din sin) j), j, es, sfs', sin)"
    using d0.search_loop_ok [OF assms(1-4), of 0 ?n name ?n] by auto
  have s: "sfs_dirent_search_nolock sfs sin name True = dirent_search_loop sfs sin name 0 ?n ?n"
    using assms(5) by (simp add: sfs_dirent_search_nolock_def Let_def)
  show ?thesis
  proof (cases "find ?P [0..<?n]")
    case None
    then have "\<not> (\<exists>i < ?n. ?P i)" by (auto simp: find_None_iff)
    then show ?thesis using r None unfolding s by auto
  next
    case (Some j)
    then have "j < ?n" "?P j" "\<forall>i < j. \<not> ?P i" by (auto simp: find_Some_iff)
    then show ?thesis using r Some unfolding s by auto
  qed
qed

text \<open>A disk whose block 1 holds a directory entry with the name \<open>a\<close> for inode 9.\<close>

definition dir_disk :: disk0 where
  "dir_disk = demo_disk\<lparr>sfs_img := (\<lambda>k. if k = 4096 then 9 else if k = 4100 then 0x61 else 0)\<rparr>"

definition dir_sfs :: "disk0 sfs_fs" where
  "dir_sfs = demo_sfs\<lparr>sfs_dev := (sfs_dev demo_sfs)\<lparr>d_state := dir_disk\<rparr>\<rparr>"

definition dir_inode :: sfs_inode where
  "dir_inode = \<lparr>din = \<lparr>di_size = 0, di_type = SFS_TYPE_DIR, di_nlinks = 1, di_blocks = 1,
     di_direct = 1 # replicate 11 0, di_indirect = 0\<rparr>, sin_ino = 2, sin_dirty = False, reclaim_count = 1, sin_sem = 1\<rparr>"

lemma dir_sfs_ok:
  "sfs_on disk0_io (DISK0_DEVSIZE div DISK0_BLKSIZE) disk0_ok dir_sfs" "sfs_inv dir_sfs" "sfs_free dir_sfs = {4, 5, 6, 7}"
  using demo_sfs_ok demo_sfs_free by (simp_all add: sfs_on_def sfs_inv_def sfs_free_def dir_sfs_def disk0_ok_def dir_disk_def demo_disk_def demo_sfs_def)

lemma dir_inode_ok: "inode_ok dir_sfs disk (din dir_inode)"
  using dir_sfs_ok(3) by (simp add: inode_ok_def dir_inode_def bmap_of_def used_block_def) (simp add: dir_sfs_def demo_sfs_def)

lemma img_Cons: "img d i (Suc n) = sfs_img d i # img d (Suc i) n"
  using img_add [of d i 1 n] by (simp add: img_def)

lemma dir_sfs_entry:
  "de_ino (dir_entry (disk_of disk0_blk dir_sfs) (din dir_inode) 0) = 9"
  "cstr (de_name (dir_entry (disk_of disk0_blk dir_sfs) (din dir_inode) 0)) = [0x61]"
proof -
  have "img dir_disk 4096 4096 = img dir_disk 4096 260 @ img dir_disk 4356 3836" using img_add [of dir_disk 4096 260 3836] by simp
  then have "get_bytes 0 260 (disk_of disk0_blk dir_sfs 1) = img dir_disk 4096 260"
    by (simp add: get_bytes_def disk0_blk_def dir_sfs_def DISK0_BLKSIZE_def)
  moreover have "img dir_disk 4096 260 = [9, 0, 0, 0, 0x61, 0] @ img dir_disk 4102 254"
    using img_add [of dir_disk 4096 6 254] by (simp add: img_def dir_disk_def upt_rec)
  ultimately have e: "get_bytes 0 (4 + (SFS_MAX_FNAME_LEN + 1)) (disk_of disk0_blk dir_sfs (unat (bmap_of (disk_of disk0_blk dir_sfs) (din dir_inode) 0))) =
      [9, 0, 0, 0, 0x61, 0] @ img dir_disk 4102 254"
    by (simp add: bmap_of_def dir_inode_def SFS_MAX_FNAME_LEN_def)
  show "de_ino (dir_entry (disk_of disk0_blk dir_sfs) (din dir_inode) 0) = 9"
    unfolding dir_entry_def e by (simp add: entry_of_def bytes_word_def Let_def)
  show "cstr (de_name (dir_entry (disk_of disk0_blk dir_sfs) (din dir_inode) 0)) = [0x61]"
    unfolding dir_entry_def e by (simp add: entry_of_def Let_def cstr_def SFS_MAX_FNAME_LEN_def)
qed

theorem sfs_dirent_search_correct_witness:
  "\<exists>es sfs'. sfs_dirent_search_nolock dir_sfs dir_inode [0x61] True = Some (0, 9, 0, es, sfs', dir_inode)"
proof -
  let ?D = "disk_of disk0_blk dir_sfs"
  have c: "cstr [0x61] = [0x61]" by (simp add: cstr_def)
  then have m: "dir_match ?D (din dir_inode) [0x61] 0" using dir_sfs_entry by (simp add: dir_match_def)
  have n: "unat (di_blocks (din dir_inode)) = 1" "di_type (din dir_inode) = SFS_TYPE_DIR" by (simp_all add: dir_inode_def)
  have len: "length (cstr [0x61]) \<le> SFS_MAX_FNAME_LEN" using c by (simp add: SFS_MAX_FNAME_LEN_def)
  obtain ret ino slot es sfs' where "sfs_dirent_search_nolock dir_sfs dir_inode [0x61] True = Some (ret, ino, slot, es, sfs', dir_inode)"
      "ret = 0" "slot < 1" "ino = de_ino (dir_entry ?D (din dir_inode) slot)"
    using sfs_dirent_search_correct [OF dir_sfs_ok(1,2) dir_inode_ok n(2) len] m unfolding n(1) by auto
  then show ?thesis using dir_sfs_entry(1) by auto
qed

end
