(* ===== verification/Sfs_Read.thy ===== *)
theory Sfs_Read
  imports Sfs_Correct
begin

text \<open>
  Reading files of the simple file system: the content of a file is an abstract byte sequence, obtained from the inode
  and the disk through the block map, and \<open>sfs_read\<close> delivers the requested part of it. The routine looks up
  only the first whole block of a request and takes the following ones from the consecutive disk blocks; the theorem
  therefore asks that the whole blocks inside one request lie one after the other on the disk, as they do
  in an image made by \<open>mksfs\<close>.
\<close>

section \<open>The content of a file\<close>

definition file_block :: "(nat \<Rightarrow> u8 list) \<Rightarrow> sfs_disk_inode \<Rightarrow> nat \<Rightarrow> u8 list" where
  "file_block disk d i = disk (unat (bmap_of disk d i))"

definition file_blocks :: "(nat \<Rightarrow> u8 list) \<Rightarrow> sfs_disk_inode \<Rightarrow> u8 list" where
  "file_blocks disk d = concat (map (file_block disk d) [0..<unat (di_blocks d)])"

definition file_content :: "(nat \<Rightarrow> u8 list) \<Rightarrow> sfs_disk_inode \<Rightarrow> u8 list" where
  "file_content disk d = take (unat (di_size d)) (file_blocks disk d)"

text \<open>The whole blocks between two positions of the file are consecutive on the disk.\<close>

definition contiguous :: "(nat \<Rightarrow> u8 list) \<Rightarrow> sfs_disk_inode \<Rightarrow> nat \<Rightarrow> nat \<Rightarrow> bool" where
  "contiguous disk d from to \<longleftrightarrow>
     (\<forall>i. from \<le> i * SFS_BLKSIZE \<and> (i + 2) * SFS_BLKSIZE \<le> to \<longrightarrow>
        unat (bmap_of disk d (Suc i)) = Suc (unat (bmap_of disk d i)))"

lemma SFS_BLKSIZE_pos [simp]: "0 < SFS_BLKSIZE"
  by (simp add: SFS_BLKSIZE_def)

lemma get_bytes_append: "get_bytes i m xs @ get_bytes (i + m) k xs = get_bytes i (m + k) xs"
  by (simp add: get_bytes_def take_add add.commute [of i m])

lemma length_get_bytes: "i + n \<le> length xs \<Longrightarrow> length (get_bytes i n xs) = n"
  by (simp add: get_bytes_def)

lemma put_get_bytes_append:
  assumes "a + m + k \<le> length xs" "m + k \<le> length buf"
  shows "put_bytes m (get_bytes (a + m) k xs) (put_bytes 0 (get_bytes a m xs) buf) = put_bytes 0 (get_bytes a (m + k) xs) buf"
  using put_bytes_append [of 0 "get_bytes a m xs" "get_bytes (a + m) k xs" buf] assms
  by (simp add: length_get_bytes get_bytes_append)

lemma concat_blocks:
  assumes "\<And>i. length (f i) = B" "i + n \<le> m"
  shows "get_bytes (i * B) (n * B) (concat (map f [0..<m])) = concat (map f [i..<i + n])"
proof -
  have len: "length (concat (map f [a..<b])) = (b - a) * B" for a b
    using assms(1) by (simp add: length_concat comp_def sum_list_triv)
  have split: "[0..<m] = [0..<i] @ [i..<i + n] @ [i + n..<m]"
    using assms(2) by (metis (no_types) append.assoc le_add1 le_add2 le_add_diff_inverse upt_add_eq_append zero_le add_0)
  show ?thesis unfolding split using len [of 0 i] len [of i "i + n"] by (simp add: get_bytes_def)
qed

lemma block_part:
  assumes "\<And>i. length (f i) = B" "i < m" "k + len \<le> B"
  shows "get_bytes (i * B + k) len (concat (map f [0..<m])) = get_bytes k len (f i)"
proof -
  have b: "get_bytes (i * B) B (concat (map f [0..<m])) = f i"
    using concat_blocks [OF assms(1), of i 1 m] assms(2) by simp
  have "get_bytes (i * B + k) len xs = get_bytes k len (get_bytes (i * B) B xs)" for xs :: "u8 list"
    using assms(3) by (simp add: get_bytes_def drop_take add.commute min_def)
  then show ?thesis using b by simp
qed

lemma length_file_blocks:
  "(\<And>b. length (disk b) = SFS_BLKSIZE) \<Longrightarrow> length (file_blocks disk d) = unat (di_blocks d) * SFS_BLKSIZE"
  by (simp add: file_blocks_def length_concat comp_def file_block_def sum_list_triv)

lemma contiguous_blocks:
  assumes "contiguous disk d from to" "from \<le> i * SFS_BLKSIZE" "(i + n) * SFS_BLKSIZE \<le> to"
  shows "j < n \<Longrightarrow> unat (bmap_of disk d (i + j)) = unat (bmap_of disk d i) + j"
proof (induction j)
  case (Suc j)
  have "(i + j + 2) * SFS_BLKSIZE \<le> (i + n) * SFS_BLKSIZE" using Suc.prems by (intro mult_le_mono1) simp
  moreover have "i * SFS_BLKSIZE \<le> (i + j) * SFS_BLKSIZE" by (intro mult_le_mono1) simp
  ultimately have "unat (bmap_of disk d (Suc (i + j))) = Suc (unat (bmap_of disk d (i + j)))"
    using assms unfolding contiguous_def by (meson order_trans)
  then show ?case using Suc by simp
qed simp

section \<open>The three parts of a read\<close>

context block_device
begin

lemma io_part_read:
  assumes "sfs_on io blocks ok sfs" "sfs_inv sfs" "inode_ok sfs (disk_of blk sfs) (din sin)"
    and "i < unat (di_blocks (din sin))" "off + len \<le> SFS_BLKSIZE" "off < SFS_BLKSIZE"
  shows "\<exists>sfs'. io_part False sfs sin buf pos len (of_nat i) (int off) =
      Some (put_bytes pos (get_bytes (i * SFS_BLKSIZE + off) len (file_blocks (disk_of blk sfs) (din sin))) buf, sfs', sin) \<and>
    sfs_on io blocks ok sfs' \<and> sfs_same sfs sfs' \<and> disk_of blk sfs' = disk_of blk sfs"
proof -
  have i: "unat (of_nat i :: u32) = i" using assms(4) unat_bound32 [of "di_blocks (din sin)"] by (simp add: unat_of_nat_small)
  let ?b = "bmap_of (disk_of blk sfs) (din sin) i"
  obtain s1 where s1: "sfs_bmap_load_nolock sfs sin (of_nat i) = Some (0, ?b, s1, sin)"
      "sfs_on io blocks ok s1" "sfs_same sfs s1" "disk_of blk s1 = disk_of blk sfs"
    using bmap_load_ok [OF assms(1-3), of "of_nat i"] assms(4) i by auto
  have used: "used_block sfs ?b" using assms(3,4) by (simp add: inode_ok_def)
  have b: "?b < sb_blocks (super s1)" "?b \<noteq> 0" "0 < io_sem s1"
    using used assms(2) s1(3) by (auto simp: used_block_def sfs_same_def sfs_inv_def)
  obtain s2 where s2: "sfs_rbuf s1 len ?b (int off) = Some (0, get_bytes off len (disk_of blk sfs (unat ?b)), s2)"
      "sfs_on io blocks ok s2" "sfs_same s1 s2" "disk_of blk s2 = disk_of blk sfs"
    using rbuf_ok [OF s1(2) b, of "int off" len] assms(5,6) s1(4) by auto
  have "get_bytes (i * SFS_BLKSIZE + off) len (file_blocks (disk_of blk sfs) (din sin)) = get_bytes off len (disk_of blk sfs (unat ?b))"
    unfolding file_blocks_def
    by (subst block_part) (use assms(4,5) blk_length in \<open>auto simp: file_block_def\<close>)
  then show ?thesis
    using s1 s2 sfs_same_trans [OF s1(3) s2(3)] by (simp add: io_part_def sfs_buf_op_def)
qed

lemma io_blocks_read:
  assumes "sfs_on io blocks ok sfs" "sfs_inv sfs" "inode_ok sfs (disk_of blk sfs) (din sin)"
    and "contiguous (disk_of blk sfs) (din sin) from to" "from \<le> i * SFS_BLKSIZE" "(i + n) * SFS_BLKSIZE \<le> to"
    and "0 < n" "i + n \<le> unat (di_blocks (din sin))" "pos + n * SFS_BLKSIZE \<le> length buf"
  shows "\<exists>sfs'. io_blocks False sfs sin buf pos (of_nat i) (of_nat n) =
      Some (put_bytes pos (get_bytes (i * SFS_BLKSIZE) (n * SFS_BLKSIZE) (file_blocks (disk_of blk sfs) (din sin))) buf, sfs', sin) \<and>
    sfs_on io blocks ok sfs' \<and> sfs_same sfs sfs' \<and> disk_of blk sfs' = disk_of blk sfs"
proof -
  let ?D = "disk_of blk sfs" and ?b = "bmap_of (disk_of blk sfs) (din sin) i"
  have "i < 2 ^ 32" "n < 2 ^ 32" using assms(7,8) unat_bound32 [of "di_blocks (din sin)"] by linarith+
  then have i: "unat (of_nat i :: u32) = i" and n: "unat (of_nat n :: u32) = n" by (simp_all add: unat_of_nat_small)
  obtain s1 where s1: "sfs_bmap_load_nolock sfs sin (of_nat i) = Some (0, ?b, s1, sin)"
      "sfs_on io blocks ok s1" "sfs_same sfs s1" "disk_of blk s1 = ?D"
    using bmap_load_ok [OF assms(1-3), of "of_nat i"] assms(7,8) i by auto
  have used: "used_block sfs (bmap_of ?D (din sin) j)" if "j < i + n" for j using that assms(3,8) by (simp add: inode_ok_def)
  have seq: "unat (bmap_of ?D (din sin) (i + j)) = unat ?b + j" if "j < n" for j
    using contiguous_blocks [OF assms(4-6) that] .
  have b: "?b \<noteq> 0" "0 < io_sem s1" using used [of i] assms(2,7) s1(3) by (auto simp: used_block_def sfs_same_def sfs_inv_def)
  have "unat (bmap_of ?D (din sin) (i + (n - 1))) < unat (sb_blocks (super sfs))"
    using used [of "i + (n - 1)"] assms(7) by (simp add: used_block_def word_less_nat_alt)
  then have fit: "unat ?b + n \<le> unat (sb_blocks (super sfs))" using seq [of "n - 1"] assms(7) by simp
  define part where "part = get_bytes pos (n * SFS_BLKSIZE) buf"
  have part: "length part = n * SFS_BLKSIZE" unfolding part_def using assms(9) by (rule length_get_bytes)
  let ?s = "s1\<lparr>io_sem := io_sem s1 - 1\<rparr>"
  have on: "sfs_on io blocks ok ?s" "super ?s = super sfs" "disk_of blk ?s = ?D"
    using s1 by (simp_all add: sfs_on_def sfs_same_def)
  obtain s2 where s2: "sfs_rwblock_loop ?s [] part ?b n False = Some (0, concat (map ?D [unat ?b..<unat ?b + n]), s2)"
      "sfs_on io blocks ok s2" "sfs_same ?s s2" "disk_of blk s2 = ?D"
    using rblock_loop_ok [OF on(1), of ?b n part 0 "[]"] on(2,3) fit b(1) part by auto
  have "concat (map ?D [unat ?b..<unat ?b + n]) = concat (map (file_block ?D (din sin)) [i..<i + n])"
  proof -
    have "[unat ?b..<unat ?b + n] = map (\<lambda>j. unat ?b + j) [0..<n]" "[i..<i + n] = map (\<lambda>j. i + j) [0..<n]"
      using map_add_upt [of "unat ?b" n] map_add_upt [of i n] by (simp_all add: add.commute)
    then show ?thesis by (auto simp: comp_def file_block_def seq intro!: arg_cong [where f = concat] map_cong)
  qed
  also have "\<dots> = get_bytes (i * SFS_BLKSIZE) (n * SFS_BLKSIZE) (file_blocks ?D (din sin))"
    unfolding file_blocks_def by (subst concat_blocks) (use assms(8) blk_length in \<open>auto simp: file_block_def\<close>)
  finally have data: "concat (map ?D [unat ?b..<unat ?b + n]) = get_bytes (i * SFS_BLKSIZE) (n * SFS_BLKSIZE) (file_blocks ?D (din sin))" .
  have "sfs_rblock s1 part ?b (of_nat n) = Some (0, concat (map ?D [unat ?b..<unat ?b + n]), s2\<lparr>io_sem := io_sem s2 + 1\<rparr>)"
    using s2(1) b(2) n by (simp add: sfs_rblock_def sfs_rwblock_def lock_sfs_io_def unlock_sfs_io_def)
  moreover have "sfs_same sfs (s2\<lparr>io_sem := io_sem s2 + 1\<rparr>)" "sfs_on io blocks ok (s2\<lparr>io_sem := io_sem s2 + 1\<rparr>)"
    using s1(3) s2(2,3) by (simp_all add: sfs_same_def sfs_on_def)
  ultimately show ?thesis
    using s1(1) s2(4) data n by (simp add: io_blocks_def sfs_block_op_def part_def [symmetric])
qed

lemma io_rest_read:
  assumes "sfs_on io blocks ok sfs" "sfs_inv sfs" "inode_ok sfs (disk_of blk sfs) (din sin)"
    and "contiguous (disk_of blk sfs) (din sin) a e" "e \<le> unat (di_blocks (din sin)) * SFS_BLKSIZE" "e < 2 ^ 31" "e - a \<le> length buf"
    and "fb * SFS_BLKSIZE = a + pos" "fb \<le> e div SFS_BLKSIZE" "length buf0 = length buf"
    and "buf = put_bytes 0 (get_bytes a pos (file_blocks (disk_of blk sfs) (din sin))) buf0"
  shows "\<exists>sfs' sfs'' b p. io_middle False sfs sin buf pos (of_nat fb) (of_nat (e div SFS_BLKSIZE - fb)) = Some (b, p, sfs', sin) \<and>
     io_last False sfs' sin b p (int e) False =
       Some (put_bytes 0 (get_bytes a (e - a) (file_blocks (disk_of blk sfs) (din sin))) buf0, e - a, sfs'', sin) \<and>
     sfs_on io blocks ok sfs'' \<and> sfs_same sfs sfs'' \<and> disk_of blk sfs'' = disk_of blk sfs"
proof -
  let ?B = SFS_BLKSIZE and ?F = "file_blocks (disk_of blk sfs) (din sin)"
  define n where "n = e div ?B - fb"
  have lenF: "length ?F = unat (di_blocks (din sin)) * ?B" using blk_length by (rule length_file_blocks)
  have eb: "e div ?B * ?B + e mod ?B = e" by (rule div_mult_mod_eq)
  have fbn: "(fb + n) * ?B = e div ?B * ?B" using assms(9) by (simp add: n_def)
  have "e div ?B \<le> e" by (rule div_le_dividend)
  then have eB: "e div ?B < 2 ^ 32" by (rule le_less_trans) (use assms(6) in simp)
  then have n: "unat (of_nat n :: u32) = n" unfolding n_def by (intro unat_of_nat_small) simp
  have pos: "a + pos + n * ?B = e div ?B * ?B" using fbn assms(8) by (simp add: add_mult_distrib)
  have le: "a + (pos + n * ?B) \<le> e" using pos eb by linarith
  have fit: "e div ?B \<le> unat (di_blocks (din sin))" using div_le_mono [OF assms(5), of ?B] by simp
  have fit': "e div ?B < unat (di_blocks (din sin))" if "e mod ?B \<noteq> 0"
    using fit eb assms(5) that by (cases "e div ?B = unat (di_blocks (din sin))") auto
  obtain s1 where s1: "io_middle False sfs sin buf pos (of_nat fb) (of_nat n) =
        Some (put_bytes 0 (get_bytes a (pos + n * ?B) ?F) buf0, pos + n * ?B, s1, sin)"
      "sfs_on io blocks ok s1" "sfs_same sfs s1" "disk_of blk s1 = disk_of blk sfs"
  proof (cases "n = 0")
    case True
    then show ?thesis using that [of sfs] assms(1,11) by (simp add: io_middle_def)
  next
    case False
    have c: "a \<le> fb * ?B" "(fb + n) * ?B \<le> e" "fb + n \<le> unat (di_blocks (din sin))" "pos + n * ?B \<le> length buf"
      using assms(7,8,9) fbn eb fit le by (simp_all add: n_def)
    obtain s1 where s1: "io_blocks False sfs sin buf pos (of_nat fb) (of_nat n) =
          Some (put_bytes pos (get_bytes (fb * ?B) (n * ?B) ?F) buf, s1, sin)"
        "sfs_on io blocks ok s1" "sfs_same sfs s1" "disk_of blk s1 = disk_of blk sfs"
      using io_blocks_read [OF assms(1-4) c(1,2) _ c(3,4)] False by blast
    have "put_bytes pos (get_bytes (fb * ?B) (n * ?B) ?F) buf = put_bytes 0 (get_bytes a (pos + n * ?B) ?F) buf0"
      unfolding assms(8) by (subst assms(11), rule put_get_bytes_append) (use le assms(5,10) c(4) lenF in auto)
    moreover have "(0 :: u32) < of_nat n" using n False by (simp add: word_less_nat_alt)
    ultimately show ?thesis using that [of s1] s1 n by (simp add: io_middle_def)
  qed
  have same: "sfs_inv s1" "inode_ok s1 (disk_of blk s1) (din sin)"
    using inv_same [OF s1(3)] inode_ok_same [OF s1(3)] s1(4) assms(2,3) by simp_all
  have div: "int e div int ?B = int (e div ?B)" "nat (int e mod int ?B) = e mod ?B" by (simp_all add: zdiv_int nat_mod_as_int)
  show ?thesis
  proof (cases "e mod ?B = 0")
    case True
    then have "pos + n * ?B = e - a" using pos eb by linarith
    then show ?thesis using s1 True unfolding n_def by (auto simp: io_last_def div)
  next
    case False
    obtain s2 where s2: "io_part False s1 sin (put_bytes 0 (get_bytes a (pos + n * ?B) ?F) buf0) (pos + n * ?B) (e mod ?B) (of_nat (e div ?B)) 0 =
          Some (put_bytes (pos + n * ?B) (get_bytes (e div ?B * ?B) (e mod ?B) ?F) (put_bytes 0 (get_bytes a (pos + n * ?B) ?F) buf0), s2, sin)"
        "sfs_on io blocks ok s2" "sfs_same s1 s2" "disk_of blk s2 = disk_of blk s1"
      using io_part_read [OF s1(2) same, of "e div ?B" 0 "e mod ?B"] fit' False s1(4) by (auto simp: less_imp_le)
    have tot: "a + (pos + n * ?B) + e mod ?B = e" using pos eb by linarith
    then have sum: "pos + n * ?B + e mod ?B = e - a" by linarith
    have "put_bytes (pos + n * ?B) (get_bytes (e div ?B * ?B) (e mod ?B) ?F) (put_bytes 0 (get_bytes a (pos + n * ?B) ?F) buf0) =
        put_bytes 0 (get_bytes a (pos + n * ?B + e mod ?B) ?F) buf0"
      unfolding pos [symmetric] add.assoc [of a]
      by (rule put_get_bytes_append) (use tot sum assms(5,7,10) lenF in simp_all)
    then have "io_last False s1 sin (put_bytes 0 (get_bytes a (pos + n * ?B) ?F) buf0) (pos + n * ?B) (int e) False =
        Some (put_bytes 0 (get_bytes a (e - a) ?F) buf0, e - a, s2, sin)"
      using s2(1) False sum by (simp add: io_last_def div)
    then show ?thesis using s1 s2 sfs_same_trans [OF s1(3) s2(3)] unfolding n_def [symmetric] by auto
  qed
qed

lemma io_body_read:
  assumes "sfs_on io blocks ok sfs" "sfs_inv sfs" "inode_ok sfs (disk_of blk sfs) (din sin)"
    and "contiguous (disk_of blk sfs) (din sin) a e" "e \<le> unat (di_blocks (din sin)) * SFS_BLKSIZE" "e < 2 ^ 31" "e - a \<le> length buf"
    and "a < e" "e \<le> unat (di_size (din sin))"
  shows "\<exists>sfs'. sfs_io_body False sfs sin buf (int a) (int e) =
      Some (0, e - a, put_bytes 0 (get_bytes a (e - a) (file_blocks (disk_of blk sfs) (din sin))) buf, sfs', sin) \<and>
    sfs_on io blocks ok sfs' \<and> sfs_same sfs sfs' \<and> disk_of blk sfs' = disk_of blk sfs"
proof -
  let ?B = SFS_BLKSIZE and ?F = "file_blocks (disk_of blk sfs) (din sin)"
  define q r m where "q = a div ?B" and "r = a mod ?B" and "m = e div ?B"
  have a: "a = q * ?B + r" "r < ?B" by (simp_all add: q_def r_def)
  have qm: "q \<le> m" using assms(8) by (simp add: q_def m_def div_le_mono)
  have "m \<le> e" unfolding m_def by (rule div_le_dividend)
  then have m32: "m < 2 ^ 32" by (rule le_less_trans) (use assms(6) in simp)
  have eb: "m * ?B + e mod ?B = e" unfolding m_def by (rule div_mult_mod_eq)
  have lenF: "length ?F = unat (di_blocks (din sin)) * ?B" using blk_length by (rule length_file_blocks)
  have div: "int a div int ?B = int q" "int e div int ?B = int m" "int a mod int ?B = int r"
    by (simp_all add: q_def m_def r_def zdiv_int zmod_int)
  have diff: "of_nat m - (of_nat q :: u32) = of_nat (m - q)" using qm by (simp add: of_nat_diff)
  have pos: "(0 :: u32) < of_nat (m - q) \<longleftrightarrow> q < m"
    using m32 unat_of_nat_small [of "m - q"] by (simp add: word_less_nat_alt)
  have size: "\<not> int a + int (e - a) > int (unat (di_size (din sin)))" using assms(8,9) by linarith
  have body: "sfs_io_body False sfs sin buf (int a) (int e) = Some (0, e - a, c, sfs', sin)"
    if "io_first False sfs sin buf (int a) (int e) (of_nat q) (of_nat (m - q)) = Some (b1, p1, k, n, g, s1, sin)"
      "io_middle False s1 sin b1 p1 k n = Some (b2, p2, s2, sin)" "io_last False s2 sin b2 p2 (int e) g = Some (c, e - a, sfs', sin)"
    for b1 p1 k n g s1 b2 p2 s2 c sfs'
    using that size by (simp add: sfs_io_body_def div diff)
  have qlt: "q < unat (di_blocks (din sin))"
  proof -
    have "q * ?B < unat (di_blocks (din sin)) * ?B" using a(1) assms(5,8) by linarith
    then show ?thesis by simp
  qed
  consider (aligned) "r = 0" | (spans) "0 < r" "q < m" | (inside) "0 < r" "q = m" using qm by linarith
  then show ?thesis
  proof cases
    case aligned
    then have first: "io_first False sfs sin buf (int a) (int e) (of_nat q) (of_nat (m - q)) =
        Some (buf, 0, of_nat q, of_nat (m - q), False, sfs, sin)"
      by (simp add: io_first_def div)
    show ?thesis
      using io_rest_read [OF assms(1-7), of q 0 buf] aligned a(1) qm body [OF first] unfolding m_def
      by (fastforce simp: get_bytes_def)
  next
    case spans
    obtain s1 where s1: "io_part False sfs sin buf 0 (?B - r) (of_nat q) (int r) =
          Some (put_bytes 0 (get_bytes (q * ?B + r) (?B - r) ?F) buf, s1, sin)"
        "sfs_on io blocks ok s1" "sfs_same sfs s1" "disk_of blk s1 = disk_of blk sfs"
      using io_part_read [OF assms(1-3) qlt, of r "?B - r"] a(2) by fastforce
    let ?b = "put_bytes 0 (get_bytes a (?B - r) ?F) buf"
    have first: "io_first False sfs sin buf (int a) (int e) (of_nat q) (of_nat (m - q)) =
        Some (?b, ?B - r, of_nat (Suc q), of_nat (m - Suc q), False, s1, sin)"
      using s1(1) spans a pos by (simp add: io_first_def div nat_diff_distrib Let_def)
    have same: "sfs_inv s1" "inode_ok s1 (disk_of blk s1) (din sin)" "contiguous (disk_of blk s1) (din sin) a e"
      using inv_same [OF s1(3)] inode_ok_same [OF s1(3)] s1(4) assms(2-4) by simp_all
    have fb: "Suc q * ?B = a + (?B - r)" using a by simp
    have "Suc q * ?B \<le> m * ?B" using spans by (intro mult_le_mono1) simp
    then have le: "a + (?B - r) \<le> e" using fb eb by linarith
    then have len: "length ?b = length buf" using assms(5,7) lenF by (simp add: length_get_bytes)
    have l: "e - a \<le> length ?b" and q: "Suc q \<le> e div ?B" using assms(7) len spans by (simp_all add: m_def)
    have eqb: "?b = put_bytes 0 (get_bytes a (?B - r) (file_blocks (disk_of blk s1) (din sin))) buf" using s1(4) by simp
    obtain s2 s3 b p where "io_middle False s1 sin ?b (?B - r) (of_nat (Suc q)) (of_nat (e div ?B - Suc q)) = Some (b, p, s2, sin)"
      "io_last False s2 sin b p (int e) False = Some (put_bytes 0 (get_bytes a (e - a) ?F) buf, e - a, s3, sin)"
      "sfs_on io blocks ok s3" "sfs_same s1 s3" "disk_of blk s3 = disk_of blk sfs"
      using io_rest_read [OF s1(2) same assms(5,6) l fb q len [symmetric] eqb] unfolding s1(4) by blast
    then show ?thesis using body [OF first] sfs_same_trans [OF s1(3)] unfolding m_def by blast
  next
    case inside
    have "e mod ?B < ?B" by simp
    moreover have "a = m * ?B + r" using a(1) inside(2) by simp
    ultimately have eo: "r + (e - a) \<le> ?B" using eb assms(8) by linarith
    obtain s1 where s1: "io_part False sfs sin buf 0 (e - a) (of_nat q) (int r) =
          Some (put_bytes 0 (get_bytes (q * ?B + r) (e - a) ?F) buf, s1, sin)"
        "sfs_on io blocks ok s1" "sfs_same sfs s1" "disk_of blk s1 = disk_of blk sfs"
      using io_part_read [OF assms(1-3) qlt eo a(2)] by blast
    have "nat (int e - int a) = e - a" by simp
    then have first: "io_first False sfs sin buf (int a) (int e) (of_nat q) (of_nat (m - q)) =
        Some (put_bytes 0 (get_bytes a (e - a) ?F) buf, e - a, of_nat q + 1, 0, True, s1, sin)"
      using s1(1) inside a by (simp add: io_first_def div Let_def)
    show ?thesis using body [OF first] s1 by (simp add: io_middle_def io_last_def)
  qed
qed

text \<open>The end position of a request, as the code computes it in 32 bits.\<close>

lemma endpos_exact:
  assumes "a + n < 2 ^ 31"
  shows "sint (of_int (int a) + of_nat n :: u32) = int (a + n)"
proof -
  have "(of_int (int a) + of_nat n :: u32) = of_nat (a + n)" by simp
  moreover have "sint (of_nat (a + n) :: u32) = int (a + n)"
    using assms by (simp add: signed_of_nat signed_take_bit_int_eq_self del: of_nat_add)
  ultimately show ?thesis by metis
qed

lemma clip:
  "int z \<le> M \<Longrightarrow>
   (if (if int w > M then M else int w) > int z then int z else if int w > M then M else int w) = int (min z w)"
  by (auto simp: min_def)

lemma io_nolock_unfold:
  assumes "di_type (din sin) \<noteq> SFS_TYPE_DIR" "sint (of_int off + alen) = ep" "int (unat (di_size (din sin))) = z"
    and "0 \<le> off" "off < SFS_MAX_FILE_SIZE" "off < ep" "off < z"
  shows "sfs_io_nolock sfs sin buf off alen False =
    sfs_io_body False sfs sin buf off (if (if ep > SFS_MAX_FILE_SIZE then SFS_MAX_FILE_SIZE else ep) > z then z
      else if ep > SFS_MAX_FILE_SIZE then SFS_MAX_FILE_SIZE else ep)"
  using assms by (simp add: sfs_io_nolock_def Let_def)

lemma io_nolock_read:
  assumes "sfs_on io blocks ok sfs" "sfs_inv sfs" "inode_ok sfs (disk_of blk sfs) (din sin)" "di_type (din sin) \<noteq> SFS_TYPE_DIR"
    and "unat (di_size (din sin)) \<le> unat (di_blocks (din sin)) * SFS_BLKSIZE" "int (unat (di_size (din sin))) \<le> SFS_MAX_FILE_SIZE"
    and "contiguous (disk_of blk sfs) (din sin) a (a + length buf)" "int a < SFS_MAX_FILE_SIZE" "a + length buf < 2 ^ 31"
  shows "\<exists>sfs'. sfs_io_nolock sfs sin buf (int a) (of_nat (length buf)) False =
      (let bs = get_bytes a (length buf) (file_content (disk_of blk sfs) (din sin))
       in Some (0, length bs, put_bytes 0 bs buf, sfs', sin)) \<and>
    sfs_on io blocks ok sfs' \<and> sfs_same sfs sfs' \<and> disk_of blk sfs' = disk_of blk sfs"
proof -
  let ?n = "length buf" and ?z = "unat (di_size (din sin))" and ?F = "file_blocks (disk_of blk sfs) (din sin)"
  have lenF: "length ?F = unat (di_blocks (din sin)) * SFS_BLKSIZE" using blk_length by (rule length_file_blocks)
  have e: "sint (of_int (int a) + of_nat ?n :: u32) = int (a + ?n)" using assms(9) by (rule endpos_exact)
  define e' where "e' = min ?z (a + ?n)"
  have "e' - a = min ?n (?z - a)" unfolding e'_def by linarith
  then have bytes: "get_bytes a ?n (take ?z ?F) = get_bytes a (e' - a) ?F" by (simp add: get_bytes_def drop_take)
  show ?thesis
  proof (cases "?n = 0 \<or> ?z \<le> a")
    case True
    have "get_bytes a ?n (take ?z ?F) = []" using True by (auto simp: get_bytes_def)
    moreover have "?n = 0 \<or> int ?z \<le> int a" using True by linarith
    then have "sfs_io_nolock sfs sin buf (int a) (of_nat ?n) False = Some (0, 0, buf, sfs, sin)"
      using assms(4,8) e by (auto simp: sfs_io_nolock_def Let_def)
    ultimately show ?thesis using assms(1) by (auto simp: file_content_def Let_def)
  next
    case False
    have e': "a < e'" "e' \<le> ?z" "e' \<le> unat (di_blocks (din sin)) * SFS_BLKSIZE" "e' < 2 ^ 31" "e' - a \<le> ?n" "e' \<le> a + ?n"
      using False assms(5,9) by (auto simp: e'_def min_def)
    have c: "contiguous (disk_of blk sfs) (din sin) a e'"
      using assms(7) e'(6) unfolding contiguous_def by (meson order_trans)
    have len: "length (get_bytes a (e' - a) ?F) = e' - a" using e'(1,3) lenF by (intro length_get_bytes) simp
    have "sfs_io_nolock sfs sin buf (int a) (of_nat ?n) False = sfs_io_body False sfs sin buf (int a) (int e')"
    proof -
      have X: "(if (if int (a + ?n) > SFS_MAX_FILE_SIZE then SFS_MAX_FILE_SIZE else int (a + ?n)) > int ?z then int ?z
          else if int (a + ?n) > SFS_MAX_FILE_SIZE then SFS_MAX_FILE_SIZE else int (a + ?n)) = int e'"
        unfolding e'_def by (rule clip) (rule assms(6))
      have lt: "int a < int ?z" "int a < int (a + ?n)" using False by linarith+
      show ?thesis unfolding io_nolock_unfold [OF assms(4) e refl of_nat_0_le_iff assms(8) lt(2,1)] X ..
    qed
    then show ?thesis
      using io_body_read [OF assms(1-3) c e'(3,4,5,1,2)] len bytes by (simp add: file_content_def Let_def)
  qed
qed

lemma sfs_read_ok:
  assumes "sfs_on io blocks ok sfs" "sfs_inv sfs" "inode_ok sfs (disk_of blk sfs) (din sin)" "di_type (din sin) \<noteq> SFS_TYPE_DIR"
    and "unat (di_size (din sin)) \<le> unat (di_blocks (din sin)) * SFS_BLKSIZE" "int (unat (di_size (din sin))) \<le> SFS_MAX_FILE_SIZE"
    and "contiguous (disk_of blk sfs) (din sin) a (a + io_resid iob)" "int a < SFS_MAX_FILE_SIZE" "a + io_resid iob < 2 ^ 31"
    and "io_offset iob = int a" "io_base iob + io_resid iob \<le> length (io_buf iob)" "0 < sin_sem sin"
  shows "\<exists>sfs'. sfs_read sfs sin iob =
      (let bs = get_bytes a (io_resid iob) (file_content (disk_of blk sfs) (din sin))
       in Some (0, \<lparr>io_buf = put_bytes (io_base iob) bs (io_buf iob), io_base = io_base iob + length bs,
                    io_offset = int (a + length bs), io_len = io_len iob, io_resid = io_resid iob - length bs\<rparr>, sfs', sin)) \<and>
    sfs_on io blocks ok sfs' \<and> sfs_same sfs sfs' \<and> disk_of blk sfs' = disk_of blk sfs"
proof -
  define buf where "buf = get_bytes (io_base iob) (io_resid iob) (io_buf iob)"
  have len: "length buf = io_resid iob" unfolding buf_def using assms(11) by (rule length_get_bytes)
  let ?sin = "sin\<lparr>sin_sem := sin_sem sin - 1\<rparr>"
  define bs where "bs = get_bytes a (io_resid iob) (file_content (disk_of blk sfs) (din sin))"
  obtain sfs' where r: "sfs_io_nolock sfs ?sin buf (int a) (of_nat (io_resid iob)) False = Some (0, length bs, put_bytes 0 bs buf, sfs', ?sin)"
      "sfs_on io blocks ok sfs'" "sfs_same sfs sfs'" "disk_of blk sfs' = disk_of blk sfs"
    using io_nolock_read [OF assms(1,2), of ?sin a buf] assms(3-9) len by (auto simp: bs_def Let_def)
  have short: "length bs \<le> io_resid iob" by (simp add: bs_def get_bytes_def)
  have nest: "put_bytes b (put_bytes 0 x (get_bytes b n xs)) xs = put_bytes b x xs"
    if "length x \<le> n" "b + n \<le> length xs" for b n and x xs :: "u8 list"
  proof -
    have "drop (b + n) xs = drop (n - length x) (drop (b + length x) xs)" using that by (simp add: add.commute)
    then have "take (n - length x) (drop (b + length x) xs) @ drop (b + n) xs = drop (b + length x) xs"
      by (metis append_take_drop_id)
    then show ?thesis using that by (simp add: put_bytes_def get_bytes_def drop_take add.commute)
  qed
  have "put_bytes (io_base iob) (put_bytes 0 bs buf) (io_buf iob) = put_bytes (io_base iob) bs (io_buf iob)"
    unfolding buf_def by (rule nest [OF short assms(11)])
  then have "sfs_read sfs sin iob = Some (0, iob\<lparr>io_buf := put_bytes (io_base iob) bs (io_buf iob), io_base := io_base iob + length bs,
      io_offset := io_offset iob + int (length bs), io_resid := io_resid iob - length bs\<rparr>, sfs', sin)"
    using r(1) short assms(10,12)
    by (cases "bs = []"; simp add: sfs_read_def sfs_io_def lock_sin_def unlock_sin_def buf_def [symmetric] iobuf_skip_def Let_def)
  then show ?thesis using r(2-4) assms(10) by (cases iob) (simp add: bs_def Let_def)
qed

end

text \<open>
  C18: reading a file on the kernel's disk. For every offset and length below the limits, \<open>sfs_read\<close> returns 0 and stores in
  the caller's buffer exactly the bytes of the file from that offset on, up to the requested length or the end of the
  file; the buffer's position moves by the number of bytes delivered; neither the inode nor the disk nor the free map
  changes and every lock is released. The whole blocks inside the request must be consecutive on the disk.
\<close>

theorem sfs_read_correct:
  assumes "sfs_on disk0_io (DISK0_DEVSIZE div DISK0_BLKSIZE) disk0_ok sfs" "sfs_inv sfs"
    and "inode_ok sfs (disk_of disk0_blk sfs) (din sin)" "di_type (din sin) \<noteq> SFS_TYPE_DIR"
    and "unat (di_size (din sin)) \<le> unat (di_blocks (din sin)) * SFS_BLKSIZE" "int (unat (di_size (din sin))) \<le> SFS_MAX_FILE_SIZE"
    and "contiguous (disk_of disk0_blk sfs) (din sin) a (a + io_resid iob)" "int a < SFS_MAX_FILE_SIZE" "a + io_resid iob < 2 ^ 31"
    and "io_offset iob = int a" "io_base iob + io_resid iob \<le> length (io_buf iob)" "0 < sin_sem sin"
  shows "\<exists>iob' sfs'. sfs_read sfs sin iob = Some (0, iob', sfs', sin) \<and> sfs_same sfs sfs' \<and>
    disk_of disk0_blk sfs' = disk_of disk0_blk sfs \<and>
    (let bs = get_bytes a (io_resid iob) (file_content (disk_of disk0_blk sfs) (din sin)) in
       io_buf iob' = put_bytes (io_base iob) bs (io_buf iob) \<and> io_resid iob' = io_resid iob - length bs \<and>
       io_offset iob' = int (a + length bs))"
  using d0.sfs_read_ok [OF assms] by (auto simp: Let_def)

text \<open>A file of 5000 bytes in the disk blocks 2 and 3.\<close>

definition read_inode :: sfs_inode where
  "read_inode = \<lparr>din = \<lparr>di_size = 5000, di_type = SFS_TYPE_FILE, di_nlinks = 1, di_blocks = 2,
     di_direct = 2 # 3 # replicate 10 0, di_indirect = 0\<rparr>, sin_ino = 1, sin_dirty = False, reclaim_count = 1, sin_sem = 1\<rparr>"

lemma read_inode_ok: "inode_ok demo_sfs disk (din read_inode)"
  using demo_sfs_free
  by (simp add: inode_ok_def read_inode_def bmap_of_def used_block_def less_2_cases_iff) (simp add: demo_sfs_def)

theorem sfs_read_correct_witness:
  "\<exists>iob' sfs'. sfs_read demo_sfs read_inode (iobuf_init (replicate 200 0) 200 4900) = Some (0, iob', sfs', read_inode) \<and>
     io_resid iob' = 100"
proof -
  let ?D = "disk_of disk0_blk demo_sfs" and ?i = "iobuf_init (replicate 200 0) 200 4900"
  have len: "length (file_blocks ?D (din read_inode)) = 8192"
    by (subst length_file_blocks) (use d0.blk_length in \<open>auto simp: read_inode_def SFS_BLKSIZE_def\<close>)
  have "contiguous ?D (din read_inode) 4900 (4900 + io_resid ?i)"
    by (auto simp: contiguous_def iobuf_init_def SFS_BLKSIZE_def)
  then show ?thesis
    using sfs_read_correct [OF demo_sfs_ok read_inode_ok, of 4900 ?i] len
    by (auto simp: iobuf_init_def read_inode_def SFS_BLKSIZE_def SFS_MAX_FILE_SIZE_def SFS_TYPE_FILE_def SFS_TYPE_DIR_def
        file_content_def get_bytes_def Let_def)
qed

end
