(* ===== verification/Dev.thy ===== *)
theory Dev
  imports Stdin Sfs_Inode
begin

text \<open>
  Device files (\<open>kern/fs/devs/dev.c\<close>) and the console output device (\<open>dev_stdout.c\<close>). A device is the record of
  its block count, block size, function pointers and internal state; the inode operations of device files pass
  through to them. The internal states of the three devices of the kernel are the constructors of \<open>devst\<close>: for
  the console input the characters that \<open>dev_stdin_read\<close> will deliver (theory \<open>Stdin\<close>), for the console output the
  characters written, for the disk its state (theory \<open>Iobuf\<close>).
\<close>

section \<open>Flags and file types\<close>

definition O_WRONLY :: u32 where "O_WRONLY = 1"
definition O_RDWR :: u32 where "O_RDWR = 2"
definition O_CREAT :: u32 where "O_CREAT = 4"
definition O_EXCL :: u32 where "O_EXCL = 8"
definition O_TRUNC :: u32 where "O_TRUNC = 0x10"

definition S_IFMT :: u32 where "S_IFMT = 0x7000"
definition S_IFCHR :: u32 where "S_IFCHR = 0x4000"
definition S_IFBLK :: u32 where "S_IFBLK = 0x5000"

definition S_ISDIR :: "u32 \<Rightarrow> bool" where "S_ISDIR mode \<longleftrightarrow> mode AND S_IFMT = S_IFDIR"

lemmas flag_defs = O_RDONLY_def O_WRONLY_def O_RDWR_def O_CREAT_def O_EXCL_def O_TRUNC_def O_APPEND_def O_ACCMODE_def
lemmas mode_defs = S_IFMT_def S_IFREG_def S_IFDIR_def S_IFLNK_def S_IFCHR_def S_IFBLK_def S_ISDIR_def

section \<open>The console output device\<close>

datatype devst = Stdin_st "u8 list" | Stdout_st "u8 list" | Disk0_st disk0

definition stdout_open :: "u32 \<Rightarrow> int" where
  "stdout_open open_flags = (if open_flags \<noteq> O_WRONLY then - E_INVAL else 0)"

definition stdout_close :: int where "stdout_close = 0"

definition stdout_ioctl :: "int \<Rightarrow> int" where "stdout_ioctl op = - E_INVAL"

text \<open>The loop counts \<open>io_resid\<close> down to zero and leaves the other fields of the buffer alone.\<close>

definition stdout_io :: "iobuf \<Rightarrow> bool \<Rightarrow> u8 list \<Rightarrow> int \<times> iobuf \<times> u8 list" where
  "stdout_io iob wr screen =
     (if wr then (0, iob\<lparr>io_resid := 0\<rparr>, screen @ get_bytes (io_base iob) (io_resid iob) (io_buf iob))
      else (- E_INVAL, iob, screen))"

section \<open>The three devices\<close>

definition stdin_dev_io :: "nat \<Rightarrow> iobuf \<Rightarrow> bool \<Rightarrow> devst \<Rightarrow> (int \<times> iobuf \<times> devst) option" where
  "stdin_dev_io blocks iob wr d = (case d of
     Stdin_st bs \<Rightarrow>
       (let n = (if wr then 0 else io_resid iob); (ret, iob) = stdin_io (take n bs) iob wr in
        Some (ret, iob, Stdin_st (drop n bs)))
   | _ \<Rightarrow> None)"

definition stdout_dev_io :: "nat \<Rightarrow> iobuf \<Rightarrow> bool \<Rightarrow> devst \<Rightarrow> (int \<times> iobuf \<times> devst) option" where
  "stdout_dev_io blocks iob wr d = (case d of
     Stdout_st screen \<Rightarrow> (let (ret, iob, screen) = stdout_io iob wr screen in Some (ret, iob, Stdout_st screen))
   | _ \<Rightarrow> None)"

definition disk0_dev_io :: "nat \<Rightarrow> iobuf \<Rightarrow> bool \<Rightarrow> devst \<Rightarrow> (int \<times> iobuf \<times> devst) option" where
  "disk0_dev_io blocks iob wr d = (case d of
     Disk0_st d \<Rightarrow> do { (ret, iob, d) \<leftarrow> disk0_io blocks iob wr d; Some (ret, iob, Disk0_st d) }
   | _ \<Rightarrow> None)"

definition stdin_dev :: "u8 list \<Rightarrow> devst device" where
  "stdin_dev bs = \<lparr>d_blocks = 0, d_blocksize = 1, d_open = stdin_open, d_close = stdin_close,
     d_ioctl = (\<lambda>op. stdin_ioctl), d_io = stdin_dev_io, d_state = Stdin_st bs\<rparr>"

definition stdout_device_init :: "u8 list \<Rightarrow> devst device" where
  "stdout_device_init screen = \<lparr>d_blocks = 0, d_blocksize = 1, d_open = stdout_open, d_close = stdout_close,
     d_ioctl = stdout_ioctl, d_io = stdout_dev_io, d_state = Stdout_st screen\<rparr>"

section \<open>Inode operations of device files\<close>

definition dev_open :: "'d device \<Rightarrow> u32 \<Rightarrow> int" where
  "dev_open dev open_flags =
     (if open_flags AND (O_CREAT OR O_TRUNC OR O_EXCL OR O_APPEND) \<noteq> 0 then - E_INVAL else dop_open dev open_flags)"

definition dev_close :: "'d device \<Rightarrow> int" where "dev_close dev = dop_close dev"

definition dev_read :: "'d device \<Rightarrow> iobuf \<Rightarrow> (int \<times> iobuf \<times> 'd device) option" where
  "dev_read dev iob = dop_io dev iob False"

definition dev_write :: "'d device \<Rightarrow> iobuf \<Rightarrow> (int \<times> iobuf \<times> 'd device) option" where
  "dev_write dev iob = dop_io dev iob True"

definition dev_ioctl :: "'d device \<Rightarrow> int \<Rightarrow> int" where "dev_ioctl dev op = dop_ioctl dev op"

definition dev_gettype :: "'d device \<Rightarrow> int \<times> u32" where
  "dev_gettype dev = (0, if d_blocks dev > 0 then S_IFBLK else S_IFCHR)"

definition dev_fstat :: "'d device \<Rightarrow> int \<times> stat" where
  "dev_fstat dev = (0, \<lparr>st_mode = snd (dev_gettype dev), st_nlinks = 1, st_blocks = of_nat (d_blocks dev),
     st_size = of_nat (d_blocks dev) * of_nat (d_blocksize dev)\<rparr>)"

text \<open>The bound is compared as an unsigned number; \<open>pos\<close> is not negative there.\<close>

definition dev_tryseek :: "'d device \<Rightarrow> int \<Rightarrow> int option" where
  "dev_tryseek dev pos =
     (if d_blocks dev > 0 then do {
        kassert (d_blocksize dev = 4096);
        Some (if pos mod 4096 = 0 \<and> pos \<ge> 0 \<and> nat pos < d_blocks dev * d_blocksize dev mod 2 ^ 32 then 0 else - E_INVAL)
      } else Some (- E_INVAL))"

section \<open>Behaviour of the console devices\<close>

lemma stdout_write_appends:
  "dev_write (stdout_device_init screen) iob =
     Some (0, iob\<lparr>io_resid := 0\<rparr>, stdout_device_init (screen @ get_bytes (io_base iob) (io_resid iob) (io_buf iob)))"
  by (simp add: dev_write_def dop_io_def stdout_device_init_def stdout_dev_io_def stdout_io_def)

lemma console_wrong_direction:
  "dev_read (stdout_device_init screen) iob = Some (- E_INVAL, iob, stdout_device_init screen)"
  "dev_write (stdin_dev bs) iob = Some (- E_INVAL, iob, stdin_dev bs)"
  by (simp_all add: dev_read_def dev_write_def dop_io_def stdout_device_init_def stdout_dev_io_def stdout_io_def
      stdin_dev_def stdin_dev_io_def stdin_io_def)

end
