(* ===== verification/Vfs_Inode.thy ===== *)
theory Vfs_Inode
  imports Dev Sfs_Correct
begin

text \<open>
  Inodes of the virtual file system (\<open>kern/fs/vfs/inode.c\<close>, \<open>inode.h\<close>) and the inode cache of the simple file system
  (the rest of \<open>kern/fs/sfs/sfs_inode.c\<close>).

  The state holds the allocated inodes by address, the mounted file systems by address, and the outcomes of the
  next calls of \<open>kmalloc\<close> (success when the list is used up). Freed inodes are not in the store, so that
  every access to one is a fault of the model. A function pointer of an inode is called through its table of operations:
  \<open>vop_op\<close> is the check in front of every call, \<open>vops\<close> says which pointers of a table are not null.
\<close>

section \<open>The inode store\<close>

datatype in_info = device_info "devst device" | sfs_inode_info sfs_inode

record inode =
  in_info :: in_info
  ref_count :: int
  open_count :: int
  in_fs :: "nat option"
  in_ops :: inode_ops

text \<open>A mounted simple file system with its list of inodes and the buckets of its hash table.\<close>

record mfs = "disk0 sfs_fs" +
  inode_list :: "nat list"
  sfs_buckets :: "u32 \<Rightarrow> nat list"

record vnodes =
  inodes :: "nat \<Rightarrow> inode option"
  next_inode :: nat
  fss :: "nat \<Rightarrow> mfs option"
  allocs :: "bool list"

definition kmalloc_ok :: "'a vnodes_scheme \<Rightarrow> bool \<times> 'a vnodes_scheme" where
  "kmalloc_ok s = (case allocs s of [] \<Rightarrow> (True, s) | b # bs \<Rightarrow> (b, s\<lparr>allocs := bs\<rparr>))"

definition upd_inode :: "nat \<Rightarrow> (inode \<Rightarrow> inode) \<Rightarrow> 'a vnodes_scheme \<Rightarrow> 'a vnodes_scheme" where
  "upd_inode n f s = s\<lparr>inodes := (inodes s)(n := map_option f (inodes s n))\<rparr>"

definition alloc_inode :: "in_info \<Rightarrow> 'a vnodes_scheme \<Rightarrow> nat option \<times> 'a vnodes_scheme" where
  "alloc_inode info s =
     (let (ok, s) = kmalloc_ok s in
      if ok then (Some (next_inode s),
        s\<lparr>inodes := (inodes s)(next_inode s \<mapsto> \<lparr>in_info = info, ref_count = 0, open_count = 0, in_fs = None, in_ops = dev_node_ops\<rparr>),
          next_inode := next_inode s + 1\<rparr>)
      else (None, s))"

definition inode_ref_inc :: "nat \<Rightarrow> 'a vnodes_scheme \<Rightarrow> (int \<times> 'a vnodes_scheme) option" where
  "inode_ref_inc n s = do {
     nd \<leftarrow> inodes s n;
     Some (ref_count nd + 1, upd_inode n (ref_count_update (\<lambda>_. ref_count nd + 1)) s)
   }"

definition inode_open_inc :: "nat \<Rightarrow> 'a vnodes_scheme \<Rightarrow> (int \<times> 'a vnodes_scheme) option" where
  "inode_open_inc n s = do {
     nd \<leftarrow> inodes s n;
     Some (open_count nd + 1, upd_inode n (open_count_update (\<lambda>_. open_count nd + 1)) s)
   }"

definition inode_init :: "nat \<Rightarrow> inode_ops \<Rightarrow> nat option \<Rightarrow> 'a vnodes_scheme \<Rightarrow> 'a vnodes_scheme option" where
  "inode_init n ops fs s = do {
     let s = upd_inode n (\<lambda>nd. nd\<lparr>ref_count := 0, open_count := 0, in_ops := ops, in_fs := fs\<rparr>) s;
     (_, s) \<leftarrow> inode_ref_inc n s;
     Some s
   }"

definition inode_kill :: "nat \<Rightarrow> 'a vnodes_scheme \<Rightarrow> 'a vnodes_scheme option" where
  "inode_kill n s = do {
     nd \<leftarrow> inodes s n;
     kassert (ref_count nd = 0);
     kassert (open_count nd = 0);
     Some (s\<lparr>inodes := (inodes s)(n := None)\<rparr>)
   }"

definition MAX_INODE_COUNT :: int where "MAX_INODE_COUNT = 0x10000"

definition inode_check :: "inode \<Rightarrow> bool" where
  "inode_check nd \<longleftrightarrow> ref_count nd \<ge> open_count nd \<and> open_count nd \<ge> 0 \<and>
     ref_count nd < MAX_INODE_COUNT \<and> open_count nd < MAX_INODE_COUNT"

section \<open>The tables of operations\<close>

datatype vop = Vop_open | Vop_close | Vop_read | Vop_write | Vop_fstat | Vop_fsync | Vop_namefile | Vop_getdirentry
  | Vop_reclaim | Vop_gettype | Vop_tryseek | Vop_truncate | Vop_create | Vop_lookup | Vop_ioctl

fun vops :: "inode_ops \<Rightarrow> vop list" where
  "vops sfs_node_dirops = [Vop_open, Vop_close, Vop_fstat, Vop_fsync, Vop_namefile, Vop_getdirentry, Vop_reclaim,
     Vop_gettype, Vop_lookup]"
| "vops sfs_node_fileops = [Vop_open, Vop_close, Vop_read, Vop_write, Vop_fstat, Vop_fsync, Vop_reclaim,
     Vop_gettype, Vop_tryseek, Vop_truncate]"
| "vops dev_node_ops = [Vop_open, Vop_close, Vop_read, Vop_write, Vop_fstat, Vop_ioctl, Vop_gettype, Vop_tryseek, Vop_lookup]"

definition vop_op :: "vop \<Rightarrow> nat \<Rightarrow> 'a vnodes_scheme \<Rightarrow> inode option" where
  "vop_op vp n s = do {
     nd \<leftarrow> inodes s n;
     kassert (vp \<in> set (vops (in_ops nd)));
     kassert (inode_check nd);
     Some nd
   }"

text \<open>\<open>fsop_info (vop_fs (node), sfs)\<close> with \<open>vop_info (node, sfs_inode)\<close>, and \<open>vop_info (node, device)\<close>.\<close>

definition sfs_of :: "nat \<Rightarrow> 'a vnodes_scheme \<Rightarrow> (nat \<times> mfs \<times> sfs_inode) option" where
  "sfs_of n s = do {
     nd \<leftarrow> inodes s n;
     f \<leftarrow> in_fs nd;
     sfs \<leftarrow> fss s f;
     case in_info nd of sfs_inode_info sin \<Rightarrow> Some (f, sfs, sin) | device_info _ \<Rightarrow> None
   }"

definition sin_of :: "nat \<Rightarrow> 'a vnodes_scheme \<Rightarrow> sfs_inode option" where
  "sin_of n s = do {
     nd \<leftarrow> inodes s n;
     case in_info nd of sfs_inode_info sin \<Rightarrow> Some sin | device_info _ \<Rightarrow> None
   }"

definition dev_of :: "nat \<Rightarrow> 'a vnodes_scheme \<Rightarrow> devst device option" where
  "dev_of n s = do {
     nd \<leftarrow> inodes s n;
     case in_info nd of device_info dev \<Rightarrow> Some dev | sfs_inode_info _ \<Rightarrow> None
   }"

definition put_fs :: "nat \<Rightarrow> mfs \<Rightarrow> 'a vnodes_scheme \<Rightarrow> 'a vnodes_scheme" where
  "put_fs f sfs s = s\<lparr>fss := (fss s)(f \<mapsto> sfs)\<rparr>"

definition put_sin :: "nat \<Rightarrow> sfs_inode \<Rightarrow> 'a vnodes_scheme \<Rightarrow> 'a vnodes_scheme" where
  "put_sin n sin s = upd_inode n (in_info_update (\<lambda>_. sfs_inode_info sin)) s"

text \<open>Running an operation of the file system, or of a device, on the inode it belongs to.\<close>

definition on_sfs :: "(mfs \<Rightarrow> sfs_inode \<Rightarrow> ('r \<times> mfs \<times> sfs_inode) option) \<Rightarrow> nat \<Rightarrow> 'a vnodes_scheme \<Rightarrow> ('r \<times> 'a vnodes_scheme) option" where
  "on_sfs op n s = do {
     (f, sfs, sin) \<leftarrow> sfs_of n s;
     (r, sfs, sin) \<leftarrow> op sfs sin;
     Some (r, put_sin n sin (put_fs f sfs s))
   }"

definition on_dev :: "(devst device \<Rightarrow> ('r \<times> devst device) option) \<Rightarrow> nat \<Rightarrow> 'a vnodes_scheme \<Rightarrow> ('r \<times> 'a vnodes_scheme) option" where
  "on_dev op n s = do {
     dev \<leftarrow> dev_of n s;
     (r, dev) \<leftarrow> op dev;
     Some (r, upd_inode n (in_info_update (\<lambda>_. device_info dev)) s)
   }"

section \<open>Operations that do not create or destroy inodes\<close>

definition vop_open :: "nat \<Rightarrow> u32 \<Rightarrow> 'a vnodes_scheme \<Rightarrow> (int \<times> 'a vnodes_scheme) option" where
  "vop_open n open_flags s = do {
     nd \<leftarrow> vop_op Vop_open n s;
     case in_ops nd of
       dev_node_ops \<Rightarrow> do { dev \<leftarrow> dev_of n s; Some (dev_open dev open_flags, s) }
     | sfs_node_dirops \<Rightarrow> Some (sfs_opendir open_flags, s)
     | sfs_node_fileops \<Rightarrow> Some (sfs_openfile, s)
   }"

definition vop_fsync :: "nat \<Rightarrow> 'a vnodes_scheme \<Rightarrow> (int \<times> 'a vnodes_scheme) option" where
  "vop_fsync n s = do { nd \<leftarrow> vop_op Vop_fsync n s; on_sfs sfs_fsync n s }"

text \<open>\<open>sfs_close\<close> calls \<open>vop_fsync\<close>, with its checks.\<close>

definition vop_close :: "nat \<Rightarrow> 'a vnodes_scheme \<Rightarrow> (int \<times> 'a vnodes_scheme) option" where
  "vop_close n s = do {
     nd \<leftarrow> vop_op Vop_close n s;
     if in_ops nd = dev_node_ops then do { dev \<leftarrow> dev_of n s; Some (dev_close dev, s) } else vop_fsync n s
   }"

definition vop_read :: "nat \<Rightarrow> iobuf \<Rightarrow> 'a vnodes_scheme \<Rightarrow> ((int \<times> iobuf) \<times> 'a vnodes_scheme) option" where
  "vop_read n iob s = do {
     nd \<leftarrow> vop_op Vop_read n s;
     if in_ops nd = dev_node_ops
     then on_dev (\<lambda>dev. do { (ret, iob, dev) \<leftarrow> dev_read dev iob; Some ((ret, iob), dev) }) n s
     else on_sfs (\<lambda>sfs sin. do { (ret, iob, sfs, sin) \<leftarrow> sfs_read sfs sin iob; Some ((ret, iob), sfs, sin) }) n s
   }"

definition vop_write :: "nat \<Rightarrow> iobuf \<Rightarrow> 'a vnodes_scheme \<Rightarrow> ((int \<times> iobuf) \<times> 'a vnodes_scheme) option" where
  "vop_write n iob s = do {
     nd \<leftarrow> vop_op Vop_write n s;
     if in_ops nd = dev_node_ops
     then on_dev (\<lambda>dev. do { (ret, iob, dev) \<leftarrow> dev_write dev iob; Some ((ret, iob), dev) }) n s
     else on_sfs (\<lambda>sfs sin. do { (ret, iob, sfs, sin) \<leftarrow> sfs_write sfs sin iob; Some ((ret, iob), sfs, sin) }) n s
   }"

definition vop_gettype :: "nat \<Rightarrow> 'a vnodes_scheme \<Rightarrow> (int \<times> u32) option" where
  "vop_gettype n s = do {
     nd \<leftarrow> vop_op Vop_gettype n s;
     if in_ops nd = dev_node_ops then do { dev \<leftarrow> dev_of n s; Some (dev_gettype dev) }
     else do { sin \<leftarrow> sin_of n s; ty \<leftarrow> sfs_gettype sin; Some (0, ty) }
   }"

definition vop_fstat :: "nat \<Rightarrow> 'a vnodes_scheme \<Rightarrow> (int \<times> stat) option" where
  "vop_fstat n s = do {
     nd \<leftarrow> vop_op Vop_fstat n s;
     if in_ops nd = dev_node_ops then do { dev \<leftarrow> dev_of n s; Some (dev_fstat dev) }
     else do { sin \<leftarrow> sin_of n s; sfs_fstat sin }
   }"

definition vop_ioctl :: "nat \<Rightarrow> int \<Rightarrow> 'a vnodes_scheme \<Rightarrow> int option" where
  "vop_ioctl n op s = do { nd \<leftarrow> vop_op Vop_ioctl n s; dev \<leftarrow> dev_of n s; Some (dev_ioctl dev op) }"

definition vop_truncate :: "nat \<Rightarrow> int \<Rightarrow> 'a vnodes_scheme \<Rightarrow> (int \<times> 'a vnodes_scheme) option" where
  "vop_truncate n len s = do { nd \<leftarrow> vop_op Vop_truncate n s; on_sfs (\<lambda>sfs sin. sfs_truncfile sfs sin len) n s }"

definition vop_tryseek :: "nat \<Rightarrow> int \<Rightarrow> 'a vnodes_scheme \<Rightarrow> (int \<times> 'a vnodes_scheme) option" where
  "vop_tryseek n pos s = do {
     nd \<leftarrow> vop_op Vop_tryseek n s;
     if in_ops nd = dev_node_ops then do { dev \<leftarrow> dev_of n s; r \<leftarrow> dev_tryseek dev pos; Some (r, s) }
     else on_sfs (\<lambda>sfs sin. sfs_tryseek sfs sin pos) n s
   }"

definition vop_getdirentry :: "nat \<Rightarrow> iobuf \<Rightarrow> 'a vnodes_scheme \<Rightarrow> ((int \<times> iobuf) \<times> 'a vnodes_scheme) option" where
  "vop_getdirentry n iob s = do {
     nd \<leftarrow> vop_op Vop_getdirentry n s;
     let (ok, s) = kmalloc_ok s;
     on_sfs (\<lambda>sfs sin. do { (ret, iob, sfs, sin) \<leftarrow> sfs_getdirentry sfs sin iob ok; Some ((ret, iob), sfs, sin) }) n s
   }"

section \<open>The inode cache\<close>

definition SFS_HLIST_SHIFT :: nat where "SFS_HLIST_SHIFT = 10"

definition sin_hashfn :: "u32 \<Rightarrow> u32" where "sin_hashfn x = hash32 x SFS_HLIST_SHIFT"

definition sfs_hash_list :: "mfs \<Rightarrow> u32 \<Rightarrow> nat list" where
  "sfs_hash_list sfs ino = sfs_buckets sfs (sin_hashfn ino)"

definition sfs_set_links :: "nat \<Rightarrow> u32 \<Rightarrow> mfs \<Rightarrow> mfs" where
  "sfs_set_links n ino sfs = sfs\<lparr>inode_list := n # inode_list sfs,
     sfs_buckets := (sfs_buckets sfs)(sin_hashfn ino := n # sfs_hash_list sfs ino)\<rparr>"

definition sfs_remove_links :: "nat \<Rightarrow> u32 \<Rightarrow> mfs \<Rightarrow> mfs" where
  "sfs_remove_links n ino sfs = sfs\<lparr>inode_list := remove1 n (inode_list sfs),
     sfs_buckets := (sfs_buckets sfs)(sin_hashfn ino := remove1 n (sfs_hash_list sfs ino))\<rparr>"

text \<open>The result is the error code, the new inode and the state.\<close>

definition sfs_create_inode :: "nat \<Rightarrow> sfs_disk_inode \<Rightarrow> u32 \<Rightarrow> 'a vnodes_scheme \<Rightarrow> (int \<times> nat \<times> 'a vnodes_scheme) option" where
  "sfs_create_inode f di ino s =
     (let (node, s) = alloc_inode (sfs_inode_info \<lparr>din = di, sin_ino = ino, sin_dirty = False, reclaim_count = 1, sin_sem = 1\<rparr>) s in
      case node of
        None \<Rightarrow> Some (- E_NO_MEM, 0, s)
      | Some n \<Rightarrow> do {
          ops \<leftarrow> sfs_get_ops (di_type di);
          s \<leftarrow> inode_init n ops (Some f) s;
          Some (0, n, s)
        })"

fun lookup_loop :: "u32 \<Rightarrow> nat list \<Rightarrow> 'a vnodes_scheme \<Rightarrow> nat option option" where
  "lookup_loop ino [] s = Some None"
| "lookup_loop ino (n # ns) s = do {
     sin \<leftarrow> sin_of n s;
     if sin_ino sin = ino then Some (Some n) else lookup_loop ino ns s
   }"

definition lookup_sfs_nolock :: "nat \<Rightarrow> u32 \<Rightarrow> 'a vnodes_scheme \<Rightarrow> (nat option \<times> 'a vnodes_scheme) option" where
  "lookup_sfs_nolock f ino s = do {
     sfs \<leftarrow> fss s f;
     found \<leftarrow> lookup_loop ino (sfs_hash_list sfs ino) s;
     case found of
       None \<Rightarrow> Some (None, s)
     | Some n \<Rightarrow> do {
         (r, s) \<leftarrow> inode_ref_inc n s;
         sin \<leftarrow> sin_of n s;
         Some (Some n, if r = 1 then put_sin n (sin\<lparr>reclaim_count := reclaim_count sin + 1\<rparr>) s else s)
       }
   }"

text \<open>The bytes of an inode on the disk.\<close>

definition bytes_half :: "u8 list \<Rightarrow> 16 word" where
  "bytes_half bs = ucast (bs ! 0) OR push_bit 8 (ucast (bs ! 1))"

definition disk_inode_of :: "u8 list \<Rightarrow> sfs_disk_inode" where
  "disk_inode_of bs = \<lparr>di_size = bytes_word bs, di_type = bytes_half (drop 4 bs), di_nlinks = bytes_half (drop 6 bs),
     di_blocks = bytes_word (drop 8 bs), di_direct = map (\<lambda>i. bytes_word (drop (12 + 4 * i) bs)) [0..<12],
     di_indirect = bytes_word (drop 60 bs)\<rparr>"

definition lock_fs :: "nat \<Rightarrow> 'a vnodes_scheme \<Rightarrow> 'a vnodes_scheme option" where
  "lock_fs f s = do { sfs \<leftarrow> fss s f; sfs \<leftarrow> lock_sfs_fs sfs; Some (put_fs f sfs s) }"

definition unlock_fs :: "nat \<Rightarrow> 'a vnodes_scheme \<Rightarrow> 'a vnodes_scheme option" where
  "unlock_fs f s = do { sfs \<leftarrow> fss s f; Some (put_fs f (unlock_sfs_fs sfs) s) }"

text \<open>The part of \<open>sfs_load_inode\<close> behind the lookup, up to the labels at its end, and the whole routine.\<close>

definition load_new :: "nat \<Rightarrow> u32 \<Rightarrow> 'a vnodes_scheme \<Rightarrow> (int \<times> nat \<times> 'a vnodes_scheme) option" where
  "load_new f ino s = do {
     let (ok, s) = kmalloc_ok s;
     if \<not> ok then Some (- E_NO_MEM, 0, s)
     else do {
       sfs \<leftarrow> fss s f;
       used \<leftarrow> sfs_block_inuse sfs ino;
       kassert used;
       (ret, bs, sfs) \<leftarrow> sfs_rbuf sfs 64 ino 0;
       let s = put_fs f sfs s;
       if ret \<noteq> 0 then Some (ret, 0, s)
       else do {
         let di = disk_inode_of bs;
         kassert (di_nlinks di \<noteq> 0);
         (ret, n, s) \<leftarrow> sfs_create_inode f di ino s;
         if ret \<noteq> 0 then Some (ret, 0, s)
         else do { sfs \<leftarrow> fss s f; Some (0, n, put_fs f (sfs_set_links n ino sfs) s) }
       }
     }
   }"

definition sfs_load_inode :: "nat \<Rightarrow> u32 \<Rightarrow> 'a vnodes_scheme \<Rightarrow> (int \<times> nat \<times> 'a vnodes_scheme) option" where
  "sfs_load_inode f ino s = do {
     s \<leftarrow> lock_fs f s;
     (found, s) \<leftarrow> lookup_sfs_nolock f ino s;
     (ret, n, s) \<leftarrow> (case found of Some n \<Rightarrow> Some (0, n, s) | None \<Rightarrow> load_new f ino s);
     s \<leftarrow> unlock_fs f s;
     Some (ret, n, s)
   }"

text \<open>\<open>sfs_reclaim\<close>: the part under the lock (\<open>None\<close> as the code when the inode can be freed) and the rest.\<close>

definition reclaim_locked :: "nat \<Rightarrow> nat \<Rightarrow> 'a vnodes_scheme \<Rightarrow> (int option \<times> 'a vnodes_scheme) option" where
  "reclaim_locked f n s = do {
     sin \<leftarrow> sin_of n s;
     kassert (reclaim_count sin > 0);
     let s = put_sin n (sin\<lparr>reclaim_count := reclaim_count sin - 1\<rparr>) s;
     nd \<leftarrow> inodes s n;
     if reclaim_count sin - 1 \<noteq> 0 \<or> ref_count nd \<noteq> 0 then Some (Some (- E_BUSY), s)
     else do {
       (ret, s) \<leftarrow> (if di_nlinks (din sin) = 0 then vop_truncate n 0 s else Some (0, s));
       if ret \<noteq> 0 then Some (Some ret, s)
       else do {
         sin \<leftarrow> sin_of n s;
         (ret, s) \<leftarrow> (if sin_dirty sin then vop_fsync n s else Some (0, s));
         if ret \<noteq> 0 then Some (Some ret, s)
         else do { sfs \<leftarrow> fss s f; Some (None, put_fs f (sfs_remove_links n (sin_ino sin) sfs) s) }
       }
     }
   }"

definition sfs_reclaim :: "nat \<Rightarrow> 'a vnodes_scheme \<Rightarrow> (int \<times> 'a vnodes_scheme) option" where
  "sfs_reclaim n s = do {
     (f, _, _) \<leftarrow> sfs_of n s;
     s \<leftarrow> lock_fs f s;
     (r, s) \<leftarrow> reclaim_locked f n s;
     s \<leftarrow> unlock_fs f s;
     case r of
       Some ret \<Rightarrow> Some (ret, s)
     | None \<Rightarrow> do {
         (f, sfs, sin) \<leftarrow> sfs_of n s;
         sfs \<leftarrow> (if di_nlinks (din sin) = 0 then do {
                   sfs \<leftarrow> sfs_block_free sfs (sin_ino sin);
                   if di_indirect (din sin) \<noteq> 0 then sfs_block_free sfs (di_indirect (din sin)) else Some sfs
                 } else Some sfs);
         s \<leftarrow> inode_kill n (put_fs f sfs s);
         Some (0, s)
       }
   }"

definition vop_reclaim :: "nat \<Rightarrow> 'a vnodes_scheme \<Rightarrow> (int \<times> 'a vnodes_scheme) option" where
  "vop_reclaim n s = do { nd \<leftarrow> vop_op Vop_reclaim n s; sfs_reclaim n s }"

section \<open>Dropping references\<close>

definition inode_ref_dec :: "nat \<Rightarrow> 'a vnodes_scheme \<Rightarrow> (int \<times> 'a vnodes_scheme) option" where
  "inode_ref_dec n s = do {
     nd \<leftarrow> inodes s n;
     kassert (ref_count nd > 0);
     let s = upd_inode n (ref_count_update (\<lambda>_. ref_count nd - 1)) s;
     if ref_count nd - 1 = 0 then do { (_, s) \<leftarrow> vop_reclaim n s; Some (0, s) } else Some (ref_count nd - 1, s)
   }"

definition inode_open_dec :: "nat \<Rightarrow> 'a vnodes_scheme \<Rightarrow> (int \<times> 'a vnodes_scheme) option" where
  "inode_open_dec n s = do {
     nd \<leftarrow> inodes s n;
     kassert (open_count nd > 0);
     let s = upd_inode n (open_count_update (\<lambda>_. open_count nd - 1)) s;
     if open_count nd - 1 = 0 then do { (_, s) \<leftarrow> vop_close n s; Some (0, s) } else Some (open_count nd - 1, s)
   }"

definition vfs_close :: "nat \<Rightarrow> 'a vnodes_scheme \<Rightarrow> (int \<times> 'a vnodes_scheme) option" where
  "vfs_close n s = do {
     (_, s) \<leftarrow> inode_open_dec n s;
     (_, s) \<leftarrow> inode_ref_dec n s;
     Some (0, s)
   }"

section \<open>Looking up names\<close>

definition sfs_lookup_once :: "nat \<Rightarrow> u8 list \<Rightarrow> 'a vnodes_scheme \<Rightarrow> (int \<times> nat \<times> 'a vnodes_scheme) option" where
  "sfs_lookup_once n name s = do {
     (f, sfs, sin) \<leftarrow> sfs_of n s;
     sin \<leftarrow> lock_sin sin;
     let (ok, s) = kmalloc_ok s;
     (ret, ino, _, _, sfs, sin) \<leftarrow> sfs_dirent_search_nolock sfs sin name ok;
     let s = put_sin n (unlock_sin sin) (put_fs f sfs s);
     if ret = 0 then sfs_load_inode f ino s else Some (ret, 0, s)
   }"

definition sfs_lookup :: "nat \<Rightarrow> u8 list \<Rightarrow> 'a vnodes_scheme \<Rightarrow> (int \<times> nat \<times> 'a vnodes_scheme) option" where
  "sfs_lookup n path s = do {
     (f, sfs, sin) \<leftarrow> sfs_of n s;
     kassert (cstr path \<noteq> [] \<and> hd (cstr path) \<noteq> 0x2F);
     (_, s) \<leftarrow> inode_ref_inc n s;
     if di_type (din sin) \<noteq> SFS_TYPE_DIR then do {
       (_, s) \<leftarrow> inode_ref_dec n s;
       Some (- E_NOTDIR, 0, s)
     } else do {
       (ret, sub, s) \<leftarrow> sfs_lookup_once n path s;
       (_, s) \<leftarrow> inode_ref_dec n s;
       Some (if ret \<noteq> 0 then (ret, 0, s) else (0, sub, s))
     }
   }"

definition dev_lookup :: "nat \<Rightarrow> u8 list \<Rightarrow> 'a vnodes_scheme \<Rightarrow> (int \<times> nat \<times> 'a vnodes_scheme) option" where
  "dev_lookup n path s =
     (if cstr path \<noteq> [] then Some (- E_NOENT, 0, s) else do { (_, s) \<leftarrow> inode_ref_inc n s; Some (0, n, s) })"

definition vop_lookup :: "nat \<Rightarrow> u8 list \<Rightarrow> 'a vnodes_scheme \<Rightarrow> (int \<times> nat \<times> 'a vnodes_scheme) option" where
  "vop_lookup n path s = do {
     nd \<leftarrow> vop_op Vop_lookup n s;
     if in_ops nd = dev_node_ops then dev_lookup n path s else sfs_lookup n path s
   }"

end
