(* ===== verification/Sfs_Fs.thy ===== *)
theory Sfs_Fs
  imports Vfs_Inode
begin

text \<open>
  The file system operations of the simple file system: the path of a directory (\<open>sfs_namefile\<close> of
  \<open>kern/fs/sfs/sfs_inode.c\<close>), and synchronising, mounting and unmounting (\<open>kern/fs/sfs/sfs_fs.c\<close>).
\<close>

section \<open>The path of a directory\<close>

text \<open>
  The loop of \<open>sfs_namefile\<close> writes the names of the directories from the end of the buffer towards its start; \<open>ptr\<close> is
  the index of the part written, \<open>resid\<close> the room left. Every round uses at least one byte of the room, so the
  loop ends also on a damaged disk.
\<close>

definition dotdot :: "u8 list" where "dotdot = [0x2E, 0x2E]"

definition namefile_step ::
    "nat \<Rightarrow> nat \<Rightarrow> 'a vnodes_scheme \<Rightarrow> ((int + (nat \<times> u8 list) option) \<times> 'a vnodes_scheme) option" where
  "namefile_step n resid s = do {
     (ret, parent, s) \<leftarrow> sfs_lookup_once n dotdot s;
     if ret \<noteq> 0 then do { (_, s) \<leftarrow> inode_ref_dec n s; Some (Inl ret, s) }
     else do {
       sin \<leftarrow> sin_of n s;
       let ino = sin_ino sin;
       (_, s) \<leftarrow> inode_ref_dec n s;
       if n = parent then do { (_, s) \<leftarrow> inode_ref_dec n s; Some (Inr None, s) }
       else do {
         (f, sfs, sin) \<leftarrow> sfs_of parent s;
         kassert (ino \<noteq> sin_ino sin \<and> di_type (din sin) = SFS_TYPE_DIR);
         sin \<leftarrow> lock_sin sin;
         (ret, e, sfs, sin) \<leftarrow> sfs_dirent_findino_nolock sfs sin ino;
         let s = put_sin parent (unlock_sin sin) (put_fs f sfs s);
         if ret \<noteq> 0 then do { (_, s) \<leftarrow> inode_ref_dec parent s; Some (Inl ret, s) }
         else if length (cstr (de_name e)) + 1 > resid then do { (_, s) \<leftarrow> inode_ref_dec parent s; Some (Inl (- E_NO_MEM), s) }
         else Some (Inr (Some (parent, cstr (de_name e) @ [0x2F])), s)
       }
     }
   }"

lemma namefile_step_room:
  assumes "namefile_step n resid s = Some (Inr (Some (p, name)), s')"
  shows "resid - length name < resid"
  using assms by (auto simp: namefile_step_def bind_eq_Some_conv Let_def split: if_splits)

function namefile_loop ::
    "nat \<Rightarrow> u8 list \<Rightarrow> nat \<Rightarrow> nat \<Rightarrow> 'a vnodes_scheme \<Rightarrow> (int \<times> u8 list \<times> nat \<times> nat \<times> 'a vnodes_scheme) option" where
  "namefile_loop n buf ptr resid s = (case namefile_step n resid s of
     None \<Rightarrow> None
   | Some (Inl ret, s') \<Rightarrow> Some (ret, buf, ptr, resid, s')
   | Some (Inr None, s') \<Rightarrow> Some (0, buf, ptr, resid, s')
   | Some (Inr (Some (p, name)), s') \<Rightarrow>
       namefile_loop p (put_bytes (ptr - length name) name buf) (ptr - length name) (resid - length name) s')"
  by pat_completeness auto
termination
  by (relation "measure (\<lambda>(_, _, _, resid, _). resid)") (auto dest!: namefile_step_room)

declare namefile_loop.simps [simp del]

definition sfs_namefile :: "nat \<Rightarrow> iobuf \<Rightarrow> 'a vnodes_scheme \<Rightarrow> (int \<times> iobuf \<times> 'a vnodes_scheme) option" where
  "sfs_namefile n iob s =
     (if io_resid iob \<le> 2 then Some (- E_NO_MEM, iob, s)
      else let (ok, s) = kmalloc_ok s in
      if \<not> ok then Some (- E_NO_MEM, iob, s)
      else do {
        (f, sfs, sin) \<leftarrow> sfs_of n s;
        (_, s) \<leftarrow> inode_ref_inc n s;
        (ret, buf, ptr, resid, s) \<leftarrow> namefile_loop n (io_buf iob) (io_base iob + io_resid iob) (io_resid iob - 2) s;
        let iob = iob\<lparr>io_buf := buf\<rparr>;
        if ret \<noteq> 0 then Some (ret, iob, s)
        else do {
          let alen = io_resid iob - resid - 2;
          let path = get_bytes ptr alen buf;
          iob \<leftarrow> iobuf_skip (iob\<lparr>io_buf := put_bytes (io_base iob) (0x2F # path @ [0]) buf\<rparr>) alen;
          Some (0, iob, s)
        }
      })"

definition vop_namefile :: "nat \<Rightarrow> iobuf \<Rightarrow> 'a vnodes_scheme \<Rightarrow> (int \<times> iobuf \<times> 'a vnodes_scheme) option" where
  "vop_namefile n iob s = do { nd \<leftarrow> vop_op Vop_namefile n s; sfs_namefile n iob s }"

section \<open>Synchronising and unmounting\<close>

fun sync_inodes :: "nat list \<Rightarrow> 'a vnodes_scheme \<Rightarrow> 'a vnodes_scheme option" where
  "sync_inodes [] s = Some s"
| "sync_inodes (n # ns) s = do { (_, s) \<leftarrow> vop_fsync n s; sync_inodes ns s }"

definition sfs_sync :: "nat \<Rightarrow> 'a vnodes_scheme \<Rightarrow> (int \<times> 'a vnodes_scheme) option" where
  "sfs_sync f s = do {
     s \<leftarrow> lock_fs f s;
     sfs \<leftarrow> fss s f;
     s \<leftarrow> sync_inodes (inode_list sfs) s;
     s \<leftarrow> unlock_fs f s;
     sfs \<leftarrow> fss s f;
     if super_dirty sfs then do {
       (ret, sfs) \<leftarrow> sfs_sync_super (sfs\<lparr>super_dirty := False\<rparr>);
       if ret \<noteq> 0 then Some (ret, put_fs f (sfs\<lparr>super_dirty := True\<rparr>) s)
       else do {
         (ret, sfs) \<leftarrow> sfs_sync_freemap sfs;
         if ret \<noteq> 0 then Some (ret, put_fs f (sfs\<lparr>super_dirty := True\<rparr>) s)
         else Some (0, put_fs f sfs s)
       }
     } else Some (0, s)
   }"

definition sfs_get_root :: "nat \<Rightarrow> 'a vnodes_scheme \<Rightarrow> (nat \<times> 'a vnodes_scheme) option" where
  "sfs_get_root f s = do {
     (ret, n, s) \<leftarrow> sfs_load_inode f SFS_BLKN_ROOT s;
     kassert (ret = 0);
     Some (n, s)
   }"

definition sfs_unmount :: "nat \<Rightarrow> 'a vnodes_scheme \<Rightarrow> (int \<times> 'a vnodes_scheme) option" where
  "sfs_unmount f s = do {
     sfs \<leftarrow> fss s f;
     if inode_list sfs \<noteq> [] then Some (- E_BUSY, s)
     else do { kassert (\<not> super_dirty sfs); Some (0, s\<lparr>fss := (fss s)(f := None)\<rparr>) }
   }"

fun cleanup_loop :: "nat \<Rightarrow> nat \<Rightarrow> 'a vnodes_scheme \<Rightarrow> 'a vnodes_scheme option" where
  "cleanup_loop 0 f s = Some s"
| "cleanup_loop (Suc k) f s = do { (ret, s) \<leftarrow> sfs_sync f s; if ret = 0 then Some s else cleanup_loop k f s }"

definition sfs_cleanup :: "nat \<Rightarrow> 'a vnodes_scheme \<Rightarrow> 'a vnodes_scheme option" where
  "sfs_cleanup f s = cleanup_loop 32 f s"

section \<open>Mounting\<close>

definition sfs_init_read :: "disk0 device \<Rightarrow> u32 \<Rightarrow> u8 list \<Rightarrow> (int \<times> u8 list \<times> disk0 device) option" where
  "sfs_init_read dev blkno buf = do {
     (ret, iob, dev) \<leftarrow> dop_io dev (iobuf_init buf SFS_BLKSIZE (sint (blkno * of_nat SFS_BLKSIZE))) False;
     Some (ret, io_buf iob, dev)
   }"

text \<open>The words of the free map that a block of the disk holds, and the loop that loads them.\<close>

definition block_words :: "u8 list \<Rightarrow> u32 list" where
  "block_words bs = map (\<lambda>i. bytes_word (drop (4 * i) bs)) [0..<length bs div 4]"

fun init_freemap_loop :: "nat \<Rightarrow> u32 \<Rightarrow> u32 list \<Rightarrow> u32 list \<Rightarrow> disk0 device \<Rightarrow> (int \<times> u32 list \<times> disk0 device) option" where
  "init_freemap_loop 0 blkno loaded data dev = Some (0, loaded @ data, dev)"
| "init_freemap_loop (Suc nblks) blkno loaded data dev = do {
     (ret, bs, dev) \<leftarrow> sfs_init_read dev blkno (concat (map word_bytes (take 1024 data)));
     let data = block_words bs @ drop 1024 data;
     if ret \<noteq> 0 then Some (ret, loaded @ data, dev)
     else init_freemap_loop nblks (blkno + 1) (loaded @ take 1024 data) (drop 1024 data) dev
   }"

definition sfs_init_freemap :: "disk0 device \<Rightarrow> bitmap \<Rightarrow> u32 \<Rightarrow> u32 \<Rightarrow> (int \<times> bitmap \<times> disk0 device) option" where
  "sfs_init_freemap dev fm blkno nblks = do {
     let (data, len) = bitmap_getdata fm;
     kassert (len = nblks * of_nat SFS_BLKSIZE);
     (ret, data, dev) \<leftarrow> init_freemap_loop (unat nblks) blkno [] data dev;
     Some (ret, fm\<lparr>bm_map := data\<rparr>, dev)
   }"

definition super_of :: "u8 list \<Rightarrow> sfs_super" where
  "super_of bs = \<lparr>sb_magic = bytes_word bs, sb_blocks = bytes_word (drop 4 bs), sb_unused_blocks = bytes_word (drop 8 bs),
     sb_info = (get_bytes 12 (SFS_MAX_INFO_LEN + 1) bs)[SFS_MAX_INFO_LEN := 0]\<rparr>"

fun count_unused :: "nat \<Rightarrow> u32 \<Rightarrow> bitmap \<Rightarrow> u32 \<Rightarrow> u32 option" where
  "count_unused 0 i fm unused = Some unused"
| "count_unused (Suc k) i fm unused = do {
     v \<leftarrow> bitmap_test fm i;
     count_unused k (i + 1) fm (if v \<noteq> 0 then unused + 1 else unused)
   }"

text \<open>
  \<open>sfs_do_mount\<close>, with the results of its calls of \<open>kmalloc\<close> (the structure, the buffer, the hash table, the two of
  \<open>bitmap_create\<close>). It returns the error code and the file system, which holds the device from then on.
\<close>

definition sfs_do_mount :: "bool list \<Rightarrow> disk0 device \<Rightarrow> (int \<times> mfs option \<times> disk0 device) option" where
  "sfs_do_mount ok dev =
     (if d_blocksize dev \<noteq> SFS_BLKSIZE then Some (- E_NA_DEV, None, dev)
      else if \<not> ok ! 0 \<or> \<not> ok ! 1 then Some (- E_NO_MEM, None, dev)
      else do {
        (ret, buf, dev) \<leftarrow> sfs_init_read dev SFS_BLKN_SUPER (replicate SFS_BLKSIZE 0);
        if ret \<noteq> 0 then Some (ret, None, dev)
        else let sb = super_of buf in
        if sb_magic sb \<noteq> SFS_MAGIC then Some (- E_INVAL, None, dev)
        else if unat (sb_blocks sb) > d_blocks dev then Some (- E_INVAL, None, dev)
        else if \<not> ok ! 2 then Some (- E_NO_MEM, None, dev)
        else do {
          fm \<leftarrow> bitmap_create (ok ! 3) (ok ! 4) (sfs_freemap_bits sb);
          case fm of
            None \<Rightarrow> Some (- E_NO_MEM, None, dev)
          | Some fm \<Rightarrow> do {
              (ret, fm, dev) \<leftarrow> sfs_init_freemap dev fm SFS_BLKN_FREEMAP (sfs_freemap_blocks sb);
              if ret \<noteq> 0 then Some (ret, None, dev)
              else do {
                unused \<leftarrow> count_unused (unat (sfs_freemap_bits sb)) 0 fm 0;
                kassert (unused = sb_unused_blocks sb);
                Some (0, Some \<lparr>super = sb, sfs_dev = dev, freemap = fm, super_dirty = False,
                  sfs_buffer = buf[12 + SFS_MAX_INFO_LEN := 0],
                  fs_sem = 1, io_sem = 1, inode_list = [], sfs_buckets = (\<lambda>_. [])\<rparr>, dev)
              }
            }
        }
      })"

end
