(* ===== verification/Vfs.thy ===== *)
theory Vfs
  imports Sfs_Fs
begin

text \<open>
  The virtual file system: the table of devices (\<open>kern/fs/vfs/vfsdev.c\<close>), the boot file system (\<open>vfs.c\<close>), the
  current directory (\<open>vfspath.c\<close>), path lookup (\<open>vfslookup.c\<close>) and opening (\<open>vfsfile.c\<close>).

  A path is the byte array the caller passed; the character after its last element is the terminating zero.
  \<open>get_device\<close> overwrites the colon of a path with a zero, so the functions that get a path return it.
\<close>

section \<open>State\<close>

datatype fd_status = FD_NONE | FD_INIT | FD_OPENED | FD_CLOSED

record file_t =
  f_status :: fd_status
  f_readable :: bool
  f_writable :: bool
  f_fd :: int
  f_pos :: int
  f_node :: "nat option"
  f_open_count :: int

record files_struct =
  pwd :: "nat option"
  fd_array :: "file_t list"
  fs_count :: int
  files_sem :: int

record vfs_dev =
  devname :: "u8 list"
  devnode :: "nat option"
  vdev_fs :: "nat option"
  mountable :: bool

record vfs = vnodes +
  vdev_list :: "vfs_dev list"
  vdev_list_sem :: int
  bootfs_sem :: int
  bootfs_node :: "nat option"
  next_fs :: nat
  filess :: "nat \<Rightarrow> files_struct option"
  cur_files :: nat

definition FS_MAX_DNAME_LEN :: nat where "FS_MAX_DNAME_LEN = 31"

definition lock_vdev_list :: "vfs \<Rightarrow> vfs option" where
  "lock_vdev_list s = (if vdev_list_sem s > 0 then Some (s\<lparr>vdev_list_sem := vdev_list_sem s - 1\<rparr>) else None)"

definition unlock_vdev_list :: "vfs \<Rightarrow> vfs" where
  "unlock_vdev_list s = s\<lparr>vdev_list_sem := vdev_list_sem s + 1\<rparr>"

definition vfs_devlist_init :: "vfs \<Rightarrow> vfs" where
  "vfs_devlist_init s = s\<lparr>vdev_list := [], vdev_list_sem := 1\<rparr>"

definition vfs_init :: "vfs \<Rightarrow> vfs" where
  "vfs_init s = vfs_devlist_init (s\<lparr>bootfs_sem := 1\<rparr>)"

section \<open>Devices\<close>

fun cleanup_devs :: "vfs_dev list \<Rightarrow> vfs \<Rightarrow> vfs option" where
  "cleanup_devs [] s = Some s"
| "cleanup_devs (d # ds) s = do {
     s \<leftarrow> (case vdev_fs d of None \<Rightarrow> Some s | Some f \<Rightarrow> sfs_cleanup f s);
     cleanup_devs ds s
   }"

definition vfs_cleanup :: "vfs \<Rightarrow> vfs option" where
  "vfs_cleanup s =
     (if vdev_list s \<noteq> [] then do {
        s \<leftarrow> lock_vdev_list s;
        s \<leftarrow> cleanup_devs (vdev_list s) s;
        Some (unlock_vdev_list s)
      } else Some s)"

text \<open>The result is the error code, the inode (when the code is 0) and the state.\<close>

definition vfs_get_root :: "u8 list \<Rightarrow> vfs \<Rightarrow> (int \<times> nat \<times> vfs) option" where
  "vfs_get_root name s =
     (if vdev_list s \<noteq> [] then do {
        s \<leftarrow> lock_vdev_list s;
        (ret, n, s) \<leftarrow> (case find (\<lambda>d. cstr name = devname d) (vdev_list s) of
           None \<Rightarrow> Some (- E_NO_DEV, 0, s)
         | Some d \<Rightarrow>
             (case vdev_fs d of
                Some f \<Rightarrow> do { (n, s) \<leftarrow> sfs_get_root f s; Some (0, n, s) }
              | None \<Rightarrow>
                  if \<not> mountable d then do {
                    n \<leftarrow> devnode d;
                    (_, s) \<leftarrow> inode_ref_inc n s;
                    Some (0, n, s)
                  } else Some (- E_NA_DEV, 0, s)));
        Some (ret, n, unlock_vdev_list s)
      } else Some (- E_NO_DEV, 0, s))"

definition vfs_get_devname :: "nat \<Rightarrow> vfs \<Rightarrow> u8 list option" where
  "vfs_get_devname f s = map_option devname (find (\<lambda>d. vdev_fs d = Some f) (vdev_list s))"

definition check_devname_conflict :: "u8 list \<Rightarrow> vfs \<Rightarrow> bool" where
  "check_devname_conflict name s \<longleftrightarrow> find (\<lambda>d. devname d = cstr name) (vdev_list s) = None"

definition vfs_do_add :: "u8 list \<Rightarrow> nat option \<Rightarrow> nat option \<Rightarrow> bool \<Rightarrow> vfs \<Rightarrow> (int \<times> vfs) option" where
  "vfs_do_add name node f mnt s = do {
     kassert (case node of None \<Rightarrow> \<not> mnt | Some n \<Rightarrow> dev_of n s \<noteq> None);
     if length (cstr name) > FS_MAX_DNAME_LEN then Some (- E_TOO_BIG, s)
     else let (ok, s) = kmalloc_ok s in
     if \<not> ok then Some (- E_NO_MEM, s)
     else let (ok, s) = kmalloc_ok s in
     if \<not> ok then Some (- E_NO_MEM, s)
     else do {
       s \<leftarrow> lock_vdev_list s;
       if \<not> check_devname_conflict name s then Some (- E_EXISTS, unlock_vdev_list s)
       else Some (0, unlock_vdev_list
         (s\<lparr>vdev_list := \<lparr>devname = cstr name, devnode = node, vdev_fs = f, mountable = mnt\<rparr> # vdev_list s\<rparr>))
     }
   }"

definition vfs_add_fs :: "u8 list \<Rightarrow> nat option \<Rightarrow> vfs \<Rightarrow> (int \<times> vfs) option" where
  "vfs_add_fs name f s = vfs_do_add name None f False s"

definition vfs_add_dev :: "u8 list \<Rightarrow> nat option \<Rightarrow> bool \<Rightarrow> vfs \<Rightarrow> (int \<times> vfs) option" where
  "vfs_add_dev name node mnt s = vfs_do_add name node None mnt s"

text \<open>\<open>find_mount\<close> gives the position of the entry in the list.\<close>

fun find_mount :: "u8 list \<Rightarrow> vfs_dev list \<Rightarrow> nat option" where
  "find_mount name [] = None"
| "find_mount name (d # ds) = (if mountable d \<and> devname d = cstr name then Some 0 else map_option Suc (find_mount name ds))"

text \<open>The disk behind the inode of a device; a file system holds its device from the time it is mounted.\<close>

definition disk_dev :: "devst device \<Rightarrow> disk0 device option" where
  "disk_dev dev = (case d_state dev of
     Disk0_st d \<Rightarrow> Some \<lparr>d_blocks = d_blocks dev, d_blocksize = d_blocksize dev, d_open = d_open dev, d_close = d_close dev,
       d_ioctl = d_ioctl dev, d_io = disk0_io, d_state = d\<rparr>
   | _ \<Rightarrow> None)"

definition vfs_mount :: "u8 list \<Rightarrow> (disk0 device \<Rightarrow> (int \<times> mfs option \<times> disk0 device) option) \<Rightarrow> vfs \<Rightarrow> (int \<times> vfs) option" where
  "vfs_mount name mountfunc s = do {
     s \<leftarrow> lock_vdev_list s;
     case find_mount name (vdev_list s) of
       None \<Rightarrow> Some (- E_NO_DEV, unlock_vdev_list s)
     | Some i \<Rightarrow>
         let d = vdev_list s ! i in
         if vdev_fs d \<noteq> None then Some (- E_BUSY, unlock_vdev_list s)
         else do {
           n \<leftarrow> devnode d;
           dev \<leftarrow> dev_of n s;
           dev \<leftarrow> disk_dev dev;
           (ret, sfs, _) \<leftarrow> mountfunc dev;
           if ret = 0 then do {
             sfs \<leftarrow> sfs;
             let f = next_fs s;
             let s = put_fs f sfs (s\<lparr>next_fs := f + 1\<rparr>);
             Some (0, unlock_vdev_list (s\<lparr>vdev_list := (vdev_list s)[i := d\<lparr>vdev_fs := Some f\<rparr>]\<rparr>))
           } else Some (ret, unlock_vdev_list s)
         }
   }"

definition sfs_mount :: "bool list \<Rightarrow> u8 list \<Rightarrow> vfs \<Rightarrow> (int \<times> vfs) option" where
  "sfs_mount ok name s = vfs_mount name (sfs_do_mount ok) s"

definition vfs_unmount :: "u8 list \<Rightarrow> vfs \<Rightarrow> (int \<times> vfs) option" where
  "vfs_unmount name s = do {
     s \<leftarrow> lock_vdev_list s;
     case find_mount name (vdev_list s) of
       None \<Rightarrow> Some (- E_NO_DEV, unlock_vdev_list s)
     | Some i \<Rightarrow>
         (case vdev_fs (vdev_list s ! i) of
            None \<Rightarrow> Some (- E_INVAL, unlock_vdev_list s)
          | Some f \<Rightarrow> do {
              (ret, s) \<leftarrow> sfs_sync f s;
              if ret \<noteq> 0 then Some (ret, unlock_vdev_list s)
              else do {
                (ret, s) \<leftarrow> sfs_unmount f s;
                let s = (if ret = 0 then s\<lparr>vdev_list := (vdev_list s)[i := (vdev_list s ! i)\<lparr>vdev_fs := None\<rparr>]\<rparr> else s);
                Some (ret, unlock_vdev_list s)
              }
            })
   }"

text \<open>The loop of \<open>vfs_unmount_all\<close>; a file system that cannot be synchronised or unmounted stays mounted.\<close>

fun unmount_all_loop :: "vfs_dev list \<Rightarrow> vfs \<Rightarrow> (vfs_dev list \<times> vfs) option" where
  "unmount_all_loop [] s = Some ([], s)"
| "unmount_all_loop (d # ds) s = do {
     (d, s) \<leftarrow> (case vdev_fs d of
        Some f \<Rightarrow>
          if mountable d then do {
            (ret, s) \<leftarrow> sfs_sync f s;
            if ret \<noteq> 0 then Some (d, s)
            else do {
              (ret, s) \<leftarrow> sfs_unmount f s;
              Some (if ret \<noteq> 0 then d else d\<lparr>vdev_fs := None\<rparr>, s)
            }
          } else Some (d, s)
      | None \<Rightarrow> Some (d, s));
     (ds, s) \<leftarrow> unmount_all_loop ds s;
     Some (d # ds, s)
   }"

definition vfs_unmount_all :: "vfs \<Rightarrow> (int \<times> vfs) option" where
  "vfs_unmount_all s =
     (if vdev_list s \<noteq> [] then do {
        s \<leftarrow> lock_vdev_list s;
        (ds, s) \<leftarrow> unmount_all_loop (vdev_list s) s;
        Some (0, unlock_vdev_list (s\<lparr>vdev_list := ds\<rparr>))
      } else Some (0, s))"

section \<open>The current directory\<close>

definition lock_files :: "nat \<Rightarrow> vfs \<Rightarrow> vfs option" where
  "lock_files p s = do {
     fp \<leftarrow> filess s p;
     if files_sem fp > 0 then Some (s\<lparr>filess := (filess s)(p \<mapsto> fp\<lparr>files_sem := files_sem fp - 1\<rparr>)\<rparr>) else None
   }"

definition unlock_files :: "nat \<Rightarrow> vfs \<Rightarrow> vfs option" where
  "unlock_files p s = do {
     fp \<leftarrow> filess s p;
     Some (s\<lparr>filess := (filess s)(p \<mapsto> fp\<lparr>files_sem := files_sem fp + 1\<rparr>)\<rparr>)
   }"

definition lock_cfs :: "vfs \<Rightarrow> vfs option" where "lock_cfs s = lock_files (cur_files s) s"
definition unlock_cfs :: "vfs \<Rightarrow> vfs option" where "unlock_cfs s = unlock_files (cur_files s) s"

definition get_cwd_nolock :: "vfs \<Rightarrow> nat option option" where
  "get_cwd_nolock s = do { fp \<leftarrow> filess s (cur_files s); Some (pwd fp) }"

definition set_cwd_nolock :: "nat option \<Rightarrow> vfs \<Rightarrow> vfs option" where
  "set_cwd_nolock dir s = do {
     fp \<leftarrow> filess s (cur_files s);
     Some (s\<lparr>filess := (filess s)(cur_files s \<mapsto> fp\<lparr>pwd := dir\<rparr>)\<rparr>)
   }"

definition vfs_get_curdir :: "vfs \<Rightarrow> (int \<times> nat \<times> vfs) option" where
  "vfs_get_curdir s = do {
     cwd \<leftarrow> get_cwd_nolock s;
     case cwd of
       Some n \<Rightarrow> do { (_, s) \<leftarrow> inode_ref_inc n s; Some (0, n, s) }
     | None \<Rightarrow> Some (- E_NOENT, 0, s)
   }"

text \<open>The part of \<open>vfs_set_curdir\<close> for a new directory, under the lock, and the whole routine.\<close>

definition change_curdir :: "nat option \<Rightarrow> nat option \<Rightarrow> vfs \<Rightarrow> (int \<times> vfs) option" where
  "change_curdir old dir s = do {
     (ret, s) \<leftarrow> (case dir of
        None \<Rightarrow> Some (0, s)
      | Some n \<Rightarrow> do {
          (ret, ty) \<leftarrow> vop_gettype n s;
          if ret \<noteq> 0 then Some (ret, s)
          else if \<not> S_ISDIR ty then Some (- E_NOTDIR, s)
          else do { (_, s) \<leftarrow> inode_ref_inc n s; Some (0, s) }
        });
     if ret \<noteq> 0 then Some (ret, s)
     else do {
       s \<leftarrow> set_cwd_nolock dir s;
       case old of None \<Rightarrow> Some (0, s) | Some n \<Rightarrow> do { (_, s) \<leftarrow> inode_ref_dec n s; Some (0, s) }
     }
   }"

definition vfs_set_curdir :: "nat option \<Rightarrow> vfs \<Rightarrow> (int \<times> vfs) option" where
  "vfs_set_curdir dir s = do {
     s \<leftarrow> lock_cfs s;
     old \<leftarrow> get_cwd_nolock s;
     (ret, s) \<leftarrow> (if old \<noteq> dir then change_curdir old dir s else Some (0, s));
     s \<leftarrow> unlock_cfs s;
     Some (ret, s)
   }"

section \<open>The boot file system\<close>

definition lock_bootfs :: "vfs \<Rightarrow> vfs option" where
  "lock_bootfs s = (if bootfs_sem s > 0 then Some (s\<lparr>bootfs_sem := bootfs_sem s - 1\<rparr>) else None)"

definition unlock_bootfs :: "vfs \<Rightarrow> vfs" where
  "unlock_bootfs s = s\<lparr>bootfs_sem := bootfs_sem s + 1\<rparr>"

definition change_bootfs :: "nat option \<Rightarrow> vfs \<Rightarrow> vfs option" where
  "change_bootfs node s = do {
     s \<leftarrow> lock_bootfs s;
     let old = bootfs_node s;
     let s = unlock_bootfs (s\<lparr>bootfs_node := node\<rparr>);
     case old of None \<Rightarrow> Some s | Some n \<Rightarrow> do { (_, s) \<leftarrow> inode_ref_dec n s; Some s }
   }"

definition vfs_get_bootfs :: "vfs \<Rightarrow> (int \<times> nat \<times> vfs) option" where
  "vfs_get_bootfs s = (case bootfs_node s of
     None \<Rightarrow> Some (- E_NOENT, 0, s)
   | Some n \<Rightarrow> do {
       s \<leftarrow> lock_bootfs s;
       (_, s) \<leftarrow> inode_ref_inc n s;
       Some (0, n, unlock_bootfs s)
     })"

section \<open>Paths\<close>

definition colon_char :: u8 where "colon_char = 0x3A"
definition slash_char :: u8 where "slash_char = 0x2F"

text \<open>The first colon or slash of a path (or its length), and the first index from \<open>i\<close> on that is no slash.\<close>

definition path_mark :: "u8 list \<Rightarrow> nat" where
  "path_mark path = length (takeWhile (\<lambda>c. c \<noteq> colon_char \<and> c \<noteq> slash_char) (cstr path))"

definition skip_slashes :: "nat \<Rightarrow> u8 list \<Rightarrow> nat" where
  "skip_slashes i path = i + length (takeWhile (\<lambda>c. c = slash_char) (drop i path))"

text \<open>\<open>get_device\<close> returns the error code, the path array, the index of the subpath, the inode and the state.\<close>

definition get_device :: "u8 list \<Rightarrow> vfs \<Rightarrow> (int \<times> u8 list \<times> nat \<times> nat \<times> vfs) option" where
  "get_device path s =
     (let p = cstr path; i = path_mark path;
          colon = (i < length p \<and> p ! i = colon_char); slash = (i < length p \<and> p ! i = slash_char) in
      if \<not> colon \<and> \<not> (slash \<and> i = 0) then do {
        (ret, n, s) \<leftarrow> vfs_get_curdir s;
        Some (ret, path, 0, n, s)
      }
      else if colon \<and> i > 0 then do {
        let path = path[i := 0];
        let sub = skip_slashes (i + 1) path;
        (ret, n, s) \<leftarrow> vfs_get_root path s;
        Some (ret, path, sub, n, s)
      }
      else do {
        (ret, n, s) \<leftarrow>
          (if slash then vfs_get_bootfs s
           else do {
             (ret, n, s) \<leftarrow> vfs_get_curdir s;
             if ret \<noteq> 0 then Some (ret, 0, s)
             else do {
               nd \<leftarrow> inodes s n;
               f \<leftarrow> in_fs nd;
               (root, s) \<leftarrow> sfs_get_root f s;
               (_, s) \<leftarrow> inode_ref_dec n s;
               Some (0, root, s)
             }
           });
        if ret \<noteq> 0 then Some (ret, path, 0, 0, s) else Some (0, path, skip_slashes 1 path, n, s)
      })"

definition vfs_lookup :: "u8 list \<Rightarrow> vfs \<Rightarrow> (int \<times> u8 list \<times> nat \<times> vfs) option" where
  "vfs_lookup path s = do {
     (ret, path, sub, n, s) \<leftarrow> get_device path s;
     if ret \<noteq> 0 then Some (ret, path, 0, s)
     else if cstr (drop sub path) \<noteq> [] then do {
       (ret, m, s) \<leftarrow> vop_lookup n (drop sub path) s;
       (_, s) \<leftarrow> inode_ref_dec n s;
       Some (ret, path, m, s)
     } else Some (0, path, n, s)
   }"

definition vfs_lookup_parent :: "u8 list \<Rightarrow> vfs \<Rightarrow> (int \<times> u8 list \<times> nat \<times> nat \<times> vfs) option" where
  "vfs_lookup_parent path s = do {
     (ret, path, sub, n, s) \<leftarrow> get_device path s;
     Some (ret, path, sub, n, s)
   }"

definition vfs_chdir :: "u8 list \<Rightarrow> vfs \<Rightarrow> (int \<times> u8 list \<times> vfs) option" where
  "vfs_chdir path s = do {
     (ret, path, n, s) \<leftarrow> vfs_lookup path s;
     if ret = 0 then do {
       (ret, s) \<leftarrow> vfs_set_curdir (Some n) s;
       (_, s) \<leftarrow> inode_ref_dec n s;
       Some (ret, path, s)
     } else Some (ret, path, s)
   }"

text \<open>\<open>strchr (fsname, ':')\<close> finds the first colon; the next character must end the string.\<close>

definition vfs_set_bootfs :: "u8 list option \<Rightarrow> vfs \<Rightarrow> (int \<times> vfs) option" where
  "vfs_set_bootfs fsname s = (case fsname of
     None \<Rightarrow> do { s \<leftarrow> change_bootfs None s; Some (0, s) }
   | Some name \<Rightarrow>
       if dropWhile (\<lambda>c. c \<noteq> colon_char) (cstr name) \<noteq> [colon_char] then Some (- E_INVAL, s)
       else do {
         (ret, _, s) \<leftarrow> vfs_chdir name s;
         if ret \<noteq> 0 then Some (ret, s)
         else do {
           (ret, n, s) \<leftarrow> vfs_get_curdir s;
           if ret \<noteq> 0 then Some (ret, s) else do { s \<leftarrow> change_bootfs (Some n) s; Some (0, s) }
         }
       })"

definition vfs_getcwd :: "iobuf \<Rightarrow> vfs \<Rightarrow> (int \<times> iobuf \<times> vfs) option" where
  "vfs_getcwd iob s = do {
     (ret, n, s) \<leftarrow> vfs_get_curdir s;
     if ret \<noteq> 0 then Some (ret, iob, s)
     else do {
       nd \<leftarrow> inodes s n;
       f \<leftarrow> in_fs nd;
       name \<leftarrow> vfs_get_devname f s;
       (ret, _, iob, _) \<leftarrow> iobuf_move iob name (length name) True;
       (ret, iob, s) \<leftarrow>
         (if ret \<noteq> 0 then Some (ret, iob, s)
          else do {
            (ret, _, iob, _) \<leftarrow> iobuf_move iob [colon_char] 1 True;
            if ret \<noteq> 0 then Some (ret, iob, s) else vop_namefile n iob s
          });
       (_, s) \<leftarrow> inode_ref_dec n s;
       Some (ret, iob, s)
     }
   }"

section \<open>Opening\<close>

text \<open>No table of inode operations has an entry for \<open>vop_create\<close>: the check in front of the call fails.\<close>

definition vop_create :: "nat \<Rightarrow> vfs \<Rightarrow> (int \<times> nat \<times> vfs) option" where
  "vop_create n s = do { nd \<leftarrow> vop_op Vop_create n s; None }"

text \<open>The part of \<open>vfs_open\<close> behind the lookup, on the inode that was found, and the whole routine.\<close>

definition open_found :: "nat \<Rightarrow> u8 list \<Rightarrow> u32 \<Rightarrow> bool \<Rightarrow> vfs \<Rightarrow> (int \<times> u8 list \<times> nat \<times> vfs) option" where
  "open_found n path open_flags trunc s = do {
     (ret, s) \<leftarrow> vop_open n open_flags s;
     if ret \<noteq> 0 then do { (_, s) \<leftarrow> inode_ref_dec n s; Some (ret, path, 0, s) }
     else do {
       (_, s) \<leftarrow> inode_open_inc n s;
       if trunc then do {
         (ret, s) \<leftarrow> vop_truncate n 0 s;
         if ret \<noteq> 0 then do {
           (_, s) \<leftarrow> inode_open_dec n s;
           (_, s) \<leftarrow> inode_ref_dec n s;
           Some (ret, path, 0, s)
         } else Some (0, path, n, s)
       } else Some (0, path, n, s)
     }
   }"

definition vfs_open :: "u8 list \<Rightarrow> u32 \<Rightarrow> vfs \<Rightarrow> (int \<times> u8 list \<times> nat \<times> vfs) option" where
  "vfs_open path open_flags s =
     (let acc = open_flags AND O_ACCMODE in
      if acc \<noteq> O_RDONLY \<and> acc \<noteq> O_WRONLY \<and> acc \<noteq> O_RDWR then Some (- E_INVAL, path, 0, s)
      else let can_write = (acc = O_WRONLY \<or> acc = O_RDWR); trunc = (open_flags AND O_TRUNC \<noteq> 0);
               excl = (open_flags AND O_EXCL \<noteq> 0); create = (open_flags AND O_CREAT \<noteq> 0) in
      if trunc \<and> \<not> can_write then Some (- E_INVAL, path, 0, s)
      else do {
        (ret, path, n, s) \<leftarrow> vfs_lookup path s;
        if ret \<noteq> 0 then
          (if ret = - 16 \<and> create then do {
             (ret, path, _, dir, s) \<leftarrow> vfs_lookup_parent path s;
             if ret \<noteq> 0 then Some (ret, path, 0, s)
             else do {
               (_, n, s) \<leftarrow> vop_create dir s;
               open_found n path open_flags (trunc \<or> create) s
             }
           } else Some (ret, path, 0, s))
        else if excl \<and> create then Some (- E_EXISTS, path, 0, s)
        else open_found n path open_flags (trunc \<or> create) s
      })"

definition vfs_unlink :: int where "vfs_unlink = - E_UNIMP"
definition vfs_rename :: int where "vfs_rename = - E_UNIMP"
definition vfs_link :: int where "vfs_link = - E_UNIMP"
definition vfs_symlink :: int where "vfs_symlink = - E_UNIMP"
definition vfs_readlink :: int where "vfs_readlink = - E_UNIMP"
definition vfs_mkdir :: int where "vfs_mkdir = - E_UNIMP"

end
