(* ===== verification/File.thy ===== *)
theory File
  imports Vfs
begin

text \<open>
  Open files (\<open>kern/fs/file.c\<close>, \<open>file.h\<close>) and the table of open files of a process (\<open>kern/fs/fs.c\<close>, \<open>fs.h\<close>).

  A \<open>struct file\<close> pointer is the address of its table and an index. \<open>file_read\<close>, \<open>file_write\<close> and the like mark the
  file as in use, call the inode, and release the file; a table may be shared, and the call in the middle may
  sleep, so \<open>file_begin\<close> and \<open>fd_array_release\<close> are also steps of their own in the theory \<open>File_Safe\<close>.
\<close>

section \<open>The array of files\<close>

text \<open>\<open>(PGSIZE - sizeof (struct files_struct)) / sizeof (struct file)\<close> with 24 and 28 bytes.\<close>

definition FILES_STRUCT_NENTRY :: nat where "FILES_STRUCT_NENTRY = (4096 - 24) div 28"

definition NO_FD :: int where "NO_FD = - 0x9527"

definition testfd :: "int \<Rightarrow> bool" where "testfd fd \<longleftrightarrow> fd \<ge> 0 \<and> fd < int FILES_STRUCT_NENTRY"

definition get_file :: "nat \<Rightarrow> nat \<Rightarrow> vfs \<Rightarrow> file_t option" where
  "get_file p i s = do {
     fp \<leftarrow> filess s p;
     if i < length (fd_array fp) then Some (fd_array fp ! i) else None
   }"

definition upd_file :: "nat \<Rightarrow> nat \<Rightarrow> (file_t \<Rightarrow> file_t) \<Rightarrow> vfs \<Rightarrow> vfs" where
  "upd_file p i f s = s\<lparr>filess := (filess s)(p := map_option (\<lambda>fp. fp\<lparr>fd_array := (fd_array fp)[i := f (fd_array fp ! i)]\<rparr>) (filess s p))\<rparr>"

definition get_fd_array :: "vfs \<Rightarrow> file_t list option" where
  "get_fd_array s = do {
     fp \<leftarrow> filess s (cur_files s);
     kassert (fs_count fp > 0);
     Some (fd_array fp)
   }"

definition fd_array_init :: "file_t list \<Rightarrow> file_t list" where
  "fd_array_init fs = map (\<lambda>i. (fs ! i)\<lparr>f_open_count := 0, f_status := FD_NONE, f_fd := int i\<rparr>) [0..<FILES_STRUCT_NENTRY]"

definition fopen_count_inc :: "file_t \<Rightarrow> file_t" where
  "fopen_count_inc f = f\<lparr>f_open_count := f_open_count f + 1\<rparr>"

definition fopen_count_dec :: "file_t \<Rightarrow> file_t" where
  "fopen_count_dec f = f\<lparr>f_open_count := f_open_count f - 1\<rparr>"

text \<open>The first free entry, as the loop of \<open>fd_array_alloc\<close> finds it.\<close>

fun first_free :: "nat \<Rightarrow> file_t list \<Rightarrow> nat option" where
  "first_free i [] = None"
| "first_free i (f # fs) = (if f_status f = FD_NONE then Some i else first_free (Suc i) fs)"

definition fd_array_alloc :: "int \<Rightarrow> vfs \<Rightarrow> (int \<times> nat \<times> vfs) option" where
  "fd_array_alloc fd s = do {
     fs \<leftarrow> get_fd_array s;
     case (if fd = NO_FD then (case first_free 0 fs of Some i \<Rightarrow> Inr i | None \<Rightarrow> Inl (- E_MAX_OPEN))
           else if testfd fd then (if f_status (fs ! nat fd) = FD_NONE then Inr (nat fd) else Inl (- E_BUSY))
           else Inl (- E_INVAL)) of
       Inl ret \<Rightarrow> Some (ret, 0, s)
     | Inr i \<Rightarrow> do {
         f \<leftarrow> get_file (cur_files s) i s;
         kassert (f_open_count f = 0);
         Some (0, i, upd_file (cur_files s) i (\<lambda>f. f\<lparr>f_status := FD_INIT, f_node := None\<rparr>) s)
       }
   }"

definition fd_array_free :: "nat \<Rightarrow> nat \<Rightarrow> vfs \<Rightarrow> vfs option" where
  "fd_array_free p i s = do {
     f \<leftarrow> get_file p i s;
     kassert (f_status f = FD_INIT \<or> f_status f = FD_CLOSED);
     kassert (f_open_count f = 0);
     s \<leftarrow> (if f_status f = FD_CLOSED then do { n \<leftarrow> f_node f; (_, s) \<leftarrow> vfs_close n s; Some s } else Some s);
     Some (upd_file p i (\<lambda>f. f\<lparr>f_status := FD_NONE\<rparr>) s)
   }"

definition fd_array_acquire :: "nat \<Rightarrow> nat \<Rightarrow> vfs \<Rightarrow> vfs option" where
  "fd_array_acquire p i s = do {
     f \<leftarrow> get_file p i s;
     kassert (f_status f = FD_OPENED);
     Some (upd_file p i fopen_count_inc s)
   }"

definition fd_array_release :: "nat \<Rightarrow> nat \<Rightarrow> vfs \<Rightarrow> vfs option" where
  "fd_array_release p i s = do {
     f \<leftarrow> get_file p i s;
     kassert (f_status f = FD_OPENED \<or> f_status f = FD_CLOSED);
     kassert (f_open_count f > 0);
     let s = upd_file p i fopen_count_dec s;
     if f_open_count f - 1 = 0 then fd_array_free p i s else Some s
   }"

definition fd_array_open :: "nat \<Rightarrow> nat \<Rightarrow> vfs \<Rightarrow> vfs option" where
  "fd_array_open p i s = do {
     f \<leftarrow> get_file p i s;
     kassert (f_status f = FD_INIT \<and> f_node f \<noteq> None);
     Some (upd_file p i (\<lambda>f. fopen_count_inc (f\<lparr>f_status := FD_OPENED\<rparr>)) s)
   }"

definition fd_array_close :: "nat \<Rightarrow> nat \<Rightarrow> vfs \<Rightarrow> vfs option" where
  "fd_array_close p i s = do {
     f \<leftarrow> get_file p i s;
     kassert (f_status f = FD_OPENED);
     kassert (f_open_count f > 0);
     let s = upd_file p i (\<lambda>f. fopen_count_dec (f\<lparr>f_status := FD_CLOSED\<rparr>)) s;
     if f_open_count f - 1 = 0 then fd_array_free p i s else Some s
   }"

text \<open>\<open>fd_array_dup\<close> copies entry \<open>j\<close> of table \<open>q\<close> to entry \<open>i\<close> of table \<open>p\<close>.\<close>

definition fd_array_dup :: "nat \<Rightarrow> nat \<Rightarrow> nat \<Rightarrow> nat \<Rightarrow> vfs \<Rightarrow> vfs option" where
  "fd_array_dup p i q j s = do {
     to \<leftarrow> get_file p i s;
     src \<leftarrow> get_file q j s;
     kassert (f_status to = FD_INIT \<and> f_status src = FD_OPENED);
     n \<leftarrow> f_node src;
     (_, s) \<leftarrow> inode_ref_inc n s;
     (_, s) \<leftarrow> inode_open_inc n s;
     fd_array_open p i (upd_file p i (\<lambda>f. f\<lparr>f_pos := f_pos src, f_readable := f_readable src,
       f_writable := f_writable src, f_node := Some n\<rparr>) s)
   }"

definition fd2file :: "int \<Rightarrow> vfs \<Rightarrow> (int + nat) option" where
  "fd2file fd s =
     (if testfd fd then do {
        fs \<leftarrow> get_fd_array s;
        f \<leftarrow> get_file (cur_files s) (nat fd) s;
        Some (if f_status f = FD_OPENED \<and> f_fd f = fd then Inr (nat fd) else Inl (- E_INVAL))
      } else Some (Inl (- E_INVAL)))"

definition file_testfd :: "int \<Rightarrow> bool \<Rightarrow> bool \<Rightarrow> vfs \<Rightarrow> bool option" where
  "file_testfd fd rd wr s = do {
     r \<leftarrow> fd2file fd s;
     case r of
       Inl _ \<Rightarrow> Some False
     | Inr i \<Rightarrow> do {
         f \<leftarrow> get_file (cur_files s) i s;
         Some (\<not> (rd \<and> \<not> f_readable f) \<and> \<not> (wr \<and> \<not> f_writable f))
       }
   }"

section \<open>Operations on descriptors\<close>

definition file_open :: "u8 list \<Rightarrow> u32 \<Rightarrow> vfs \<Rightarrow> (int \<times> vfs) option" where
  "file_open path open_flags s =
     (let acc = open_flags AND O_ACCMODE in
      if acc \<noteq> O_RDONLY \<and> acc \<noteq> O_WRONLY \<and> acc \<noteq> O_RDWR then Some (- E_INVAL, s)
      else do {
        (ret, i, s) \<leftarrow> fd_array_alloc NO_FD s;
        if ret \<noteq> 0 then Some (ret, s)
        else do {
          let p = cur_files s;
          (ret, _, n, s) \<leftarrow> vfs_open path open_flags s;
          if ret \<noteq> 0 then do { s \<leftarrow> fd_array_free p i s; Some (ret, s) }
          else do {
            (ret, pos, s) \<leftarrow>
              (if open_flags AND O_APPEND \<noteq> 0 then do {
                 (ret, st) \<leftarrow> vop_fstat n s;
                 if ret \<noteq> 0 then do { (_, s) \<leftarrow> vfs_close n s; s \<leftarrow> fd_array_free p i s; Some (ret, 0, s) }
                 else Some (0, sint (st_size st), s)
               } else Some (0, 0, s));
            if ret \<noteq> 0 then Some (ret, s)
            else do {
              let s = upd_file p i (\<lambda>f. f\<lparr>f_pos := pos, f_node := Some n,
                f_readable := (acc = O_RDONLY \<or> acc = O_RDWR), f_writable := (acc = O_WRONLY \<or> acc = O_RDWR)\<rparr>) s;
              s \<leftarrow> fd_array_open p i s;
              f \<leftarrow> get_file p i s;
              Some (f_fd f, s)
            }
          }
        }
      })"

definition file_close :: "int \<Rightarrow> vfs \<Rightarrow> (int \<times> vfs) option" where
  "file_close fd s = do {
     r \<leftarrow> fd2file fd s;
     case r of Inl ret \<Rightarrow> Some (ret, s) | Inr i \<Rightarrow> do { s \<leftarrow> fd_array_close (cur_files s) i s; Some (0, s) }
   }"

text \<open>The common start of the operations that use a file: the entry, marked as in use.\<close>

definition file_begin :: "int \<Rightarrow> (file_t \<Rightarrow> bool) \<Rightarrow> vfs \<Rightarrow> ((int + nat) \<times> vfs) option" where
  "file_begin fd allowed s = do {
     r \<leftarrow> fd2file fd s;
     case r of
       Inl ret \<Rightarrow> Some (Inl ret, s)
     | Inr i \<Rightarrow> do {
         f \<leftarrow> get_file (cur_files s) i s;
         if \<not> allowed f then Some (Inl (- E_INVAL), s)
         else do { s \<leftarrow> fd_array_acquire (cur_files s) i s; Some (Inr i, s) }
       }
   }"

text \<open>Reading and writing return the error code, the number of bytes copied, the buffer and the state.\<close>

definition file_rw ::
    "bool \<Rightarrow> int \<Rightarrow> u8 list \<Rightarrow> nat \<Rightarrow> vfs \<Rightarrow> (int \<times> nat \<times> u8 list \<times> vfs) option" where
  "file_rw wr fd base len s = do {
     (r, s) \<leftarrow> file_begin fd (if wr then f_writable else f_readable) s;
     case r of
       Inl ret \<Rightarrow> Some (ret, 0, base, s)
     | Inr i \<Rightarrow> do {
         let p = cur_files s;
         f \<leftarrow> get_file p i s;
         n \<leftarrow> f_node f;
         let iob = iobuf_init base len (f_pos f);
         ((ret, iob), s) \<leftarrow> (if wr then vop_write n iob s else vop_read n iob s);
         let copied = iobuf_used iob;
         f \<leftarrow> get_file p i s;
         let s = (if f_status f = FD_OPENED then upd_file p i (\<lambda>f. f\<lparr>f_pos := f_pos f + int copied\<rparr>) s else s);
         s \<leftarrow> fd_array_release p i s;
         Some (ret, copied, io_buf iob, s)
       }
   }"

definition file_read :: "int \<Rightarrow> u8 list \<Rightarrow> nat \<Rightarrow> vfs \<Rightarrow> (int \<times> nat \<times> u8 list \<times> vfs) option" where
  "file_read fd base len s = file_rw False fd base len s"

definition file_write :: "int \<Rightarrow> u8 list \<Rightarrow> nat \<Rightarrow> vfs \<Rightarrow> (int \<times> nat \<times> u8 list \<times> vfs) option" where
  "file_write fd base len s = file_rw True fd base len s"

definition LSEEK_SET :: int where "LSEEK_SET = 0"
definition LSEEK_CUR :: int where "LSEEK_CUR = 1"
definition LSEEK_END :: int where "LSEEK_END = 2"

definition off_add :: "int \<Rightarrow> int \<Rightarrow> int" where
  "off_add a b = sint (of_int a + of_int b :: u32)"

definition file_seek :: "int \<Rightarrow> int \<Rightarrow> int \<Rightarrow> vfs \<Rightarrow> (int \<times> vfs) option" where
  "file_seek fd pos whence s = do {
     (r, s) \<leftarrow> file_begin fd (\<lambda>_. True) s;
     case r of
       Inl ret \<Rightarrow> Some (ret, s)
     | Inr i \<Rightarrow> do {
         let p = cur_files s;
         f \<leftarrow> get_file p i s;
         n \<leftarrow> f_node f;
         (ret, pos) \<leftarrow>
           (if whence = LSEEK_SET then Some (0, pos)
            else if whence = LSEEK_CUR then Some (0, off_add pos (f_pos f))
            else if whence = LSEEK_END then do {
              (ret, st) \<leftarrow> vop_fstat n s;
              Some (ret, if ret = 0 then off_add pos (sint (st_size st)) else pos)
            } else Some (- E_INVAL, pos));
         (ret, s) \<leftarrow>
           (if ret = 0 then do {
              (ret, s) \<leftarrow> vop_tryseek n pos s;
              Some (ret, if ret = 0 then upd_file p i (\<lambda>f. f\<lparr>f_pos := pos\<rparr>) s else s)
            } else Some (ret, s));
         s \<leftarrow> fd_array_release p i s;
         Some (ret, s)
       }
   }"

definition file_fstat :: "int \<Rightarrow> vfs \<Rightarrow> (int \<times> stat option \<times> vfs) option" where
  "file_fstat fd s = do {
     (r, s) \<leftarrow> file_begin fd (\<lambda>_. True) s;
     case r of
       Inl ret \<Rightarrow> Some (ret, None, s)
     | Inr i \<Rightarrow> do {
         f \<leftarrow> get_file (cur_files s) i s;
         n \<leftarrow> f_node f;
         (ret, st) \<leftarrow> vop_fstat n s;
         s \<leftarrow> fd_array_release (cur_files s) i s;
         Some (ret, Some st, s)
       }
   }"

definition file_fsync :: "int \<Rightarrow> vfs \<Rightarrow> (int \<times> vfs) option" where
  "file_fsync fd s = do {
     (r, s) \<leftarrow> file_begin fd (\<lambda>_. True) s;
     case r of
       Inl ret \<Rightarrow> Some (ret, s)
     | Inr i \<Rightarrow> do {
         f \<leftarrow> get_file (cur_files s) i s;
         n \<leftarrow> f_node f;
         (ret, s) \<leftarrow> vop_fsync n s;
         s \<leftarrow> fd_array_release (cur_files s) i s;
         Some (ret, s)
       }
   }"

record dirent =
  d_offset :: int
  d_name :: "u8 list"

definition file_getdirentry :: "int \<Rightarrow> dirent \<Rightarrow> vfs \<Rightarrow> (int \<times> dirent \<times> vfs) option" where
  "file_getdirentry fd de s = do {
     (r, s) \<leftarrow> file_begin fd (\<lambda>_. True) s;
     case r of
       Inl ret \<Rightarrow> Some (ret, de, s)
     | Inr i \<Rightarrow> do {
         f \<leftarrow> get_file (cur_files s) i s;
         n \<leftarrow> f_node f;
         ((ret, iob), s) \<leftarrow> vop_getdirentry n (iobuf_init (d_name de) 256 (d_offset de)) s;
         let de = de\<lparr>d_name := io_buf iob, d_offset := (if ret = 0 then d_offset de + int (iobuf_used iob) else d_offset de)\<rparr>;
         s \<leftarrow> fd_array_release (cur_files s) i s;
         Some (ret, de, s)
       }
   }"

definition file_dup :: "int \<Rightarrow> int \<Rightarrow> vfs \<Rightarrow> (int \<times> vfs) option" where
  "file_dup fd1 fd2 s = do {
     r \<leftarrow> fd2file fd1 s;
     case r of
       Inl ret \<Rightarrow> Some (ret, s)
     | Inr j \<Rightarrow> do {
         (ret, i, s) \<leftarrow> fd_array_alloc fd2 s;
         if ret \<noteq> 0 then Some (ret, s)
         else do {
           s \<leftarrow> fd_array_dup (cur_files s) i (cur_files s) j s;
           f \<leftarrow> get_file (cur_files s) i s;
           Some (f_fd f, s)
         }
       }
   }"

section \<open>The tables of open files\<close>

text \<open>A new table gets the address \<open>p\<close> (from the allocator); its memory is not initialised.\<close>

definition files_create :: "nat \<Rightarrow> file_t list \<Rightarrow> vfs \<Rightarrow> bool \<times> vfs" where
  "files_create p mem s =
     (let (ok, s) = kmalloc_ok s in
      if ok then (True, s\<lparr>filess := (filess s)(p \<mapsto> \<lparr>pwd = None, fd_array = fd_array_init mem, fs_count = 0, files_sem = 1\<rparr>)\<rparr>)
      else (False, s))"

fun destroy_loop :: "nat \<Rightarrow> nat \<Rightarrow> nat \<Rightarrow> vfs \<Rightarrow> vfs option" where
  "destroy_loop p i 0 s = Some s"
| "destroy_loop p i (Suc k) s = do {
     f \<leftarrow> get_file p i s;
     s \<leftarrow> (if f_status f = FD_OPENED then fd_array_close p i s else Some s);
     f \<leftarrow> get_file p i s;
     kassert (f_status f = FD_NONE);
     destroy_loop p (Suc i) k s
   }"

definition files_destroy :: "nat \<Rightarrow> vfs \<Rightarrow> vfs option" where
  "files_destroy p s = do {
     fp \<leftarrow> filess s p;
     kassert (fs_count fp = 0);
     s \<leftarrow> (case pwd fp of None \<Rightarrow> Some s | Some n \<Rightarrow> do { (_, s) \<leftarrow> inode_ref_dec n s; Some s });
     s \<leftarrow> destroy_loop p 0 FILES_STRUCT_NENTRY s;
     Some (s\<lparr>filess := (filess s)(p := None)\<rparr>)
   }"

fun closeall_loop :: "nat \<Rightarrow> nat \<Rightarrow> nat \<Rightarrow> vfs \<Rightarrow> vfs option" where
  "closeall_loop p i 0 s = Some s"
| "closeall_loop p i (Suc k) s = do {
     f \<leftarrow> get_file p i s;
     s \<leftarrow> (if f_status f = FD_OPENED then fd_array_close p i s else Some s);
     closeall_loop p (Suc i) k s
   }"

definition files_closeall :: "nat \<Rightarrow> vfs \<Rightarrow> vfs option" where
  "files_closeall p s = do {
     fp \<leftarrow> filess s p;
     kassert (fs_count fp > 0);
     closeall_loop p 2 (FILES_STRUCT_NENTRY - 2) s
   }"

fun dup_files_loop :: "nat \<Rightarrow> nat \<Rightarrow> nat \<Rightarrow> nat \<Rightarrow> vfs \<Rightarrow> vfs option" where
  "dup_files_loop to q i 0 s = Some s"
| "dup_files_loop to q i (Suc k) s = do {
     f \<leftarrow> get_file q i s;
     s \<leftarrow> (if f_status f = FD_OPENED then fd_array_dup to i q i (upd_file to i (\<lambda>f. f\<lparr>f_status := FD_INIT\<rparr>) s) else Some s);
     dup_files_loop to q (Suc i) k s
   }"

definition dup_files :: "nat \<Rightarrow> nat \<Rightarrow> vfs \<Rightarrow> (int \<times> vfs) option" where
  "dup_files to q s = do {
     tp \<leftarrow> filess s to;
     fp \<leftarrow> filess s q;
     kassert (fs_count tp = 0 \<and> fs_count fp > 0);
     let s = s\<lparr>filess := (filess s)(to \<mapsto> tp\<lparr>pwd := pwd fp\<rparr>)\<rparr>;
     s \<leftarrow> (case pwd fp of None \<Rightarrow> Some s | Some n \<Rightarrow> do { (_, s) \<leftarrow> inode_ref_inc n s; Some s });
     s \<leftarrow> dup_files_loop to q 0 FILES_STRUCT_NENTRY s;
     Some (0, s)
   }"

end
