(* ===== verification/Sfs_Preserve.thy ===== *)
theory Sfs_Preserve
  imports Sfs_Correct
begin

text \<open>
  What the operations of the simple file system keep, whatever the disk holds: whenever an operation returns, the free
  map and the superblock still agree, the locks are as before, the device is still usable, and the identity of the inode
  (number, type, links, reclaim count) is unchanged. The relations below are reflexive and transitive, and each
  operation is shown to stay inside them by following its calls.
\<close>

section \<open>The relations\<close>

definition sfs_good :: "(nat \<Rightarrow> iobuf \<Rightarrow> bool \<Rightarrow> 'd \<Rightarrow> (int \<times> iobuf \<times> 'd) option) \<Rightarrow> nat \<Rightarrow> ('d \<Rightarrow> bool) \<Rightarrow> ('d, 'a) sfs_fs_scheme \<Rightarrow> bool" where
  "sfs_good io blocks ok sfs \<longleftrightarrow> sfs_on io blocks ok sfs \<and> sfs_inv sfs"

definition sfs_frame :: "('d, 'a) sfs_fs_scheme \<Rightarrow> ('d, 'a) sfs_fs_scheme \<Rightarrow> bool" where
  "sfs_frame sfs sfs' \<longleftrightarrow> sb_blocks (super sfs') = sb_blocks (super sfs) \<and> fs_sem sfs' = fs_sem sfs \<and>
     io_sem sfs' = io_sem sfs \<and> sfs_fs.more sfs' = sfs_fs.more sfs"

definition sfs_pres :: "(nat \<Rightarrow> iobuf \<Rightarrow> bool \<Rightarrow> 'd \<Rightarrow> (int \<times> iobuf \<times> 'd) option) \<Rightarrow> nat \<Rightarrow> ('d \<Rightarrow> bool) \<Rightarrow> ('d, 'a) sfs_fs_scheme \<Rightarrow> ('d, 'a) sfs_fs_scheme \<Rightarrow> bool" where
  "sfs_pres io blocks ok sfs sfs' \<longleftrightarrow> (sfs_good io blocks ok sfs \<longrightarrow> sfs_good io blocks ok sfs' \<and> sfs_frame sfs sfs')"

definition sin_same :: "sfs_inode \<Rightarrow> sfs_inode \<Rightarrow> bool" where
  "sin_same sin sin' \<longleftrightarrow> sin_ino sin' = sin_ino sin \<and> reclaim_count sin' = reclaim_count sin \<and> sin_sem sin' = sin_sem sin \<and>
     di_type (din sin') = di_type (din sin) \<and> di_nlinks (din sin') = di_nlinks (din sin) \<and>
     length (di_direct (din sin')) = length (di_direct (din sin))"

lemma sin_same_refl [simp]: "sin_same sin sin"
  by (simp add: sin_same_def)

lemma sin_same_trans: "sin_same a b \<Longrightarrow> sin_same b c \<Longrightarrow> sin_same a c"
  by (simp add: sin_same_def)

lemma sin_same_update [simp]:
  "sin_same sin (sin\<lparr>din := (din sin)\<lparr>di_size := z\<rparr>, sin_dirty := b\<rparr>)"
  "sin_same sin (sin\<lparr>sin_dirty := b\<rparr>)"
  "sin_same sin (sin\<lparr>din := (din sin)\<lparr>di_blocks := k\<rparr>\<rparr>)"
  "sin_same sin (sin\<lparr>din := (din sin)\<lparr>di_blocks := k\<rparr>, sin_dirty := b\<rparr>)"
  "sin_same sin (sin\<lparr>din := (din sin)\<lparr>di_indirect := k\<rparr>, sin_dirty := b\<rparr>)"
  "sin_same sin (sin\<lparr>din := (din sin)\<lparr>di_direct := (di_direct (din sin))[i := k]\<rparr>, sin_dirty := b\<rparr>)"
  by (simp_all add: sin_same_def)

lemma sfs_pres_refl [simp]: "sfs_pres io blocks ok sfs sfs"
  by (simp add: sfs_pres_def sfs_frame_def)

lemma sfs_pres_trans: "sfs_pres io blocks ok a b \<Longrightarrow> sfs_pres io blocks ok b c \<Longrightarrow> sfs_pres io blocks ok a c"
  by (auto simp: sfs_pres_def sfs_frame_def)

lemma sfs_pres_good:
  "sfs_pres io blocks ok sfs sfs' \<Longrightarrow> sfs_good io blocks ok sfs \<Longrightarrow> sfs_good io blocks ok sfs' \<and> sfs_frame sfs sfs'"
  by (simp add: sfs_pres_def)

lemma sfs_same_pres: "sfs_on io blocks ok sfs' \<Longrightarrow> sfs_same sfs sfs' \<Longrightarrow> sfs_pres io blocks ok sfs sfs'"
  using inv_same [of sfs sfs'] by (auto simp: sfs_pres_def sfs_good_def sfs_frame_def sfs_same_def)

section \<open>Blocks\<close>

context block_device
begin

lemma rwblock_pres:
  assumes "sfs_rwblock_nolock sfs buf blkno wr check = Some (ret, buf', sfs')" "length buf = SFS_BLKSIZE" "sfs_on io blocks ok sfs"
  shows "sfs_on io blocks ok sfs' \<and> sfs_same sfs sfs' \<and> length buf' = SFS_BLKSIZE"
proof -
  have "blkno < sb_blocks (super sfs)" "blkno \<noteq> 0 \<or> \<not> check"
    using assms(1) by (auto simp: sfs_rwblock_nolock_def bind_eq_Some_conv)
  then show ?thesis using rwblock_ok [OF assms(3), of blkno check buf wr] assms(1,2) blk_length by auto
qed

lemma rbuf_pres [dest]:
  assumes "sfs_rbuf sfs len blkno off = Some (ret, bs, sfs')"
  shows "sfs_pres io blocks ok sfs sfs'"
  unfolding sfs_pres_def
proof
  assume good: "sfs_good io blocks ok sfs"
  have "blkno < sb_blocks (super sfs)" "blkno \<noteq> 0" "0 < io_sem sfs" "0 \<le> off" "off < int SFS_BLKSIZE" "off + int len \<le> int SFS_BLKSIZE"
    using assms by (auto simp: sfs_rbuf_def bind_eq_Some_conv lock_sfs_io_def sfs_rwblock_nolock_def split: if_splits)
  then show "sfs_good io blocks ok sfs' \<and> sfs_frame sfs sfs'"
    using rbuf_ok [of sfs blkno off len] good assms sfs_same_pres [of io blocks ok sfs' sfs]
    by (auto simp: sfs_good_def sfs_pres_def)
qed

lemma wbuf_pres [dest]:
  assumes "sfs_wbuf sfs buf blkno off = Some (ret, sfs')"
  shows "sfs_pres io blocks ok sfs sfs'"
  unfolding sfs_pres_def
proof
  assume good: "sfs_good io blocks ok sfs"
  have "blkno < sb_blocks (super sfs)" "blkno \<noteq> 0" "0 < io_sem sfs" "0 \<le> off" "off < int SFS_BLKSIZE" "off + int (length buf) \<le> int SFS_BLKSIZE"
    using assms by (auto simp: sfs_wbuf_def bind_eq_Some_conv lock_sfs_io_def sfs_rwblock_nolock_def split: if_splits)
  then show "sfs_good io blocks ok sfs' \<and> sfs_frame sfs sfs'"
    using wbuf_ok [of sfs blkno off buf] good assms sfs_same_pres [of io blocks ok sfs' sfs]
    by (auto simp: sfs_good_def sfs_pres_def)
qed

lemma rwblock_loop_pres:
  assumes "sfs_rwblock_loop sfs passed buf blkno n wr = Some (ret, buf', sfs')" "length buf = n * SFS_BLKSIZE" "sfs_on io blocks ok sfs"
  shows "sfs_on io blocks ok sfs' \<and> sfs_same sfs sfs'"
  using assms
proof (induction n arbitrary: sfs passed buf blkno)
  case (Suc n)
  obtain r b s1 where s1: "sfs_rwblock_nolock sfs (take SFS_BLKSIZE buf) blkno wr True = Some (r, b, s1)"
    using Suc.prems(1) by (auto simp: bind_eq_Some_conv)
  have "sfs_on io blocks ok s1 \<and> sfs_same sfs s1"
    using rwblock_pres [OF s1 _ Suc.prems(3)] Suc.prems(2) by simp
  moreover have "sfs_on io blocks ok sfs' \<and> sfs_same s1 sfs'" if "r = 0"
    using Suc.IH [of s1 "passed @ b" "drop SFS_BLKSIZE buf" "blkno + 1"] Suc.prems(1,2) s1 that calculation by simp
  ultimately show ?case
    using Suc.prems(1) s1 sfs_same_trans [of sfs s1 sfs'] by (cases "r = 0") auto
qed auto

lemma rwblock_locked_pres:
  assumes "sfs_rwblock sfs buf blkno nblks wr = Some (ret, buf', sfs')" "length buf = unat nblks * SFS_BLKSIZE"
  shows "sfs_pres io blocks ok sfs sfs'"
  unfolding sfs_pres_def
proof
  assume good: "sfs_good io blocks ok sfs"
  obtain s1 where s1: "sfs_rwblock_loop (sfs\<lparr>io_sem := io_sem sfs - 1\<rparr>) [] buf blkno (unat nblks) wr = Some (ret, buf', s1)"
      "sfs' = unlock_sfs_io s1"
    using assms(1) by (auto simp: sfs_rwblock_def bind_eq_Some_conv lock_sfs_io_def split: if_splits)
  have "sfs_on io blocks ok (sfs\<lparr>io_sem := io_sem sfs - 1\<rparr>)" using good by (simp add: sfs_good_def sfs_on_def)
  then have "sfs_on io blocks ok s1" "sfs_same (sfs\<lparr>io_sem := io_sem sfs - 1\<rparr>) s1"
    using rwblock_loop_pres [OF s1(1) assms(2)] by auto
  then show "sfs_good io blocks ok sfs' \<and> sfs_frame sfs sfs'"
    using good s1(2) by (auto simp: sfs_good_def sfs_frame_def sfs_same_def sfs_on_def sfs_inv_def unlock_sfs_io_def)
qed

lemma block_alloc_pres [dest]:
  assumes "sfs_block_alloc sfs = Some (ret, ino, sfs')"
  shows "sfs_pres io blocks ok sfs sfs'"
  unfolding sfs_pres_def
proof
  assume "sfs_good io blocks ok sfs"
  then show "sfs_good io blocks ok sfs' \<and> sfs_frame sfs sfs'"
    using block_alloc_ok [of sfs] assms by (auto simp: sfs_good_def sfs_frame_def split: if_splits)
qed

lemma block_free_pres [dest]:
  assumes "sfs_block_free sfs ino = Some sfs'"
  shows "sfs_pres io blocks ok sfs sfs'"
  unfolding sfs_pres_def
proof
  assume good: "sfs_good io blocks ok sfs"
  then have inv: "sfs_inv sfs" and on: "sfs_on io blocks ok sfs" by (simp_all add: sfs_good_def)
  have "used_block sfs ino"
    using assms inuse_ok [OF inv, of ino] by (auto simp: sfs_block_free_def sfs_block_inuse_def bind_eq_Some_conv split: if_splits)
  then show "sfs_good io blocks ok sfs' \<and> sfs_frame sfs sfs'"
    using block_free_ok [OF inv, of ino] assms on by (auto simp: sfs_good_def sfs_frame_def sfs_on_def)
qed

section \<open>The block map\<close>

lemma bmap_cleanup_pres [dest]:
  "bmap_cleanup sfs entp ent r = Some (ret, e, i, sfs') \<Longrightarrow> sfs_pres io blocks ok sfs sfs'"
  by (auto simp: bmap_cleanup_def bind_eq_Some_conv split: if_splits)

lemma bmap_new_entry_pres [dest]:
  "bmap_new_entry sfs entp ent off = Some (ret, e, i, sfs') \<Longrightarrow> sfs_pres io blocks ok sfs sfs'"
  by (auto simp: bmap_new_entry_def bind_eq_Some_conv split: if_splits
      dest!: block_alloc_pres wbuf_pres block_free_pres bmap_cleanup_pres intro: sfs_pres_trans)

lemma bmap_get_sub_pres [dest]:
  "sfs_bmap_get_sub_nolock sfs entp index create = Some (ret, e, i, sfs') \<Longrightarrow> sfs_pres io blocks ok sfs sfs'"
  by (auto simp: sfs_bmap_get_sub_nolock_def bind_eq_Some_conv Let_def split: if_splits intro: sfs_pres_trans)

lemma bmap_out_pres [dest]:
  "bmap_out ino sfs sin = Some (ret, i, sfs', sin') \<Longrightarrow> sfs' = sfs \<and> sin' = sin"
  by (auto simp: bmap_out_def bind_eq_Some_conv split: if_splits)

lemma bmap_get_pres [dest]:
  "sfs_bmap_get_nolock sfs sin index create = Some (ret, i, sfs', sin') \<Longrightarrow> sfs_pres io blocks ok sfs sfs' \<and> sin_same sin sin'"
  by (auto simp: sfs_bmap_get_nolock_def bind_eq_Some_conv Let_def split: if_splits intro: sfs_pres_trans)

lemma bmap_load_pres [dest]:
  "sfs_bmap_load_nolock sfs sin index = Some (ret, i, sfs', sin') \<Longrightarrow> sfs_pres io blocks ok sfs sfs' \<and> sin_same sin sin'"
  by (auto simp: sfs_bmap_load_nolock_def bind_eq_Some_conv Let_def split: if_splits dest!: bmap_get_pres intro: sin_same_trans)

lemma bmap_free_sub_pres [dest]:
  "sfs_bmap_free_sub_nolock sfs ent index = Some (ret, sfs') \<Longrightarrow> sfs_pres io blocks ok sfs sfs'"
  by (auto simp: sfs_bmap_free_sub_nolock_def bind_eq_Some_conv Let_def split: if_splits
      dest!: rbuf_pres wbuf_pres block_free_pres intro: sfs_pres_trans)

lemma bmap_free_pres [dest]:
  "sfs_bmap_free_nolock sfs sin index = Some (ret, sfs', sin') \<Longrightarrow> sfs_pres io blocks ok sfs sfs' \<and> sin_same sin sin'"
  by (auto simp: sfs_bmap_free_nolock_def bind_eq_Some_conv Let_def split: if_splits)

lemma bmap_truncate_pres [dest]:
  "sfs_bmap_truncate_nolock sfs sin = Some (ret, sfs', sin') \<Longrightarrow> sfs_pres io blocks ok sfs sfs' \<and> sin_same sin sin'"
  by (auto simp: sfs_bmap_truncate_nolock_def bind_eq_Some_conv Let_def split: if_splits dest!: bmap_free_pres intro: sin_same_trans)

section \<open>Directories\<close>

lemma dirent_read_pres [dest]:
  "sfs_dirent_read_nolock sfs sin slot = Some (ret, e, sfs', sin') \<Longrightarrow> sfs_pres io blocks ok sfs sfs' \<and> sin_same sin sin'"
  by (auto simp: sfs_dirent_read_nolock_def bind_eq_Some_conv Let_def split: if_splits
      dest!: bmap_load_pres rbuf_pres intro: sfs_pres_trans)

lemma search_loop_pres [dest]:
  "dirent_search_loop sfs sin name i n es = Some (ret, ino, slot, es', sfs', sin') \<Longrightarrow> sfs_pres io blocks ok sfs sfs' \<and> sin_same sin sin'"
proof (induction sfs sin name i n es rule: dirent_search_loop.induct)
  case (2 sfs sin name i n es)
  obtain r e s1 sin1 where s1: "sfs_dirent_read_nolock sfs sin i = Some (r, e, s1, sin1)"
    using "2.prems" by (auto simp: bind_eq_Some_conv)
  then have "sfs_pres io blocks ok s1 sfs' \<and> sin_same sin1 sin'"
    using "2.prems" "2.IH" by (auto split: if_splits)
  then show ?case using dirent_read_pres [OF s1] by (blast intro: sfs_pres_trans sin_same_trans)
qed auto

lemma search_pres [dest]:
  "sfs_dirent_search_nolock sfs sin name ok' = Some (ret, ino, slot, es', sfs', sin') \<Longrightarrow> sfs_pres io blocks ok sfs sfs' \<and> sin_same sin sin'"
  by (auto simp: sfs_dirent_search_nolock_def bind_eq_Some_conv Let_def split: if_splits)

lemma findino_loop_pres:
  "dirent_findino_loop sfs sin ino i n = Some (ret, e, sfs', sin') \<Longrightarrow> sfs_pres io blocks ok sfs sfs' \<and> sin_same sin sin'"
proof (induction sfs sin ino i n rule: dirent_findino_loop.induct)
  case (2 sfs sin ino i n)
  obtain r e' s1 sin1 where s1: "sfs_dirent_read_nolock sfs sin i = Some (r, e', s1, sin1)"
    using "2.prems" by (auto simp: bind_eq_Some_conv)
  then have "sfs_pres io blocks ok s1 sfs' \<and> sin_same sin1 sin'"
    using "2.prems" "2.IH" by (auto split: if_splits)
  then show ?case using dirent_read_pres [OF s1] by (blast intro: sfs_pres_trans sin_same_trans)
qed auto

lemma findino_pres [dest]:
  "sfs_dirent_findino_nolock sfs sin ino = Some (ret, e, sfs', sin') \<Longrightarrow> sfs_pres io blocks ok sfs sfs' \<and> sin_same sin sin'"
  unfolding sfs_dirent_findino_nolock_def by (rule findino_loop_pres)

lemma getdirentry_loop_pres:
  "getdirentry_loop sfs sin slot i n = Some (ret, e, sfs', sin') \<Longrightarrow> sfs_pres io blocks ok sfs sfs' \<and> sin_same sin sin'"
proof (induction sfs sin slot i n rule: getdirentry_loop.induct)
  case (2 sfs sin slot i n)
  obtain r e' s1 sin1 where s1: "sfs_dirent_read_nolock sfs sin i = Some (r, e', s1, sin1)"
    using "2.prems" by (auto simp: bind_eq_Some_conv)
  then have "sfs_pres io blocks ok s1 sfs' \<and> sin_same sin1 sin'"
    using "2.prems" "2.IH" by (auto split: if_splits)
  then show ?case using dirent_read_pres [OF s1] by (blast intro: sfs_pres_trans sin_same_trans)
qed auto

text \<open>Operations that lock the inode.\<close>

lemma sin_same_unlock:
  "lock_sin sin = Some sin1 \<Longrightarrow> sin_same sin1 sin2 \<Longrightarrow> sin_same sin (unlock_sin sin2)"
  by (auto simp: lock_sin_def unlock_sin_def sin_same_def split: if_splits)

lemma getdirentry_pres [dest]:
  "sfs_getdirentry sfs sin iob ok' = Some (ret, iob', sfs', sin') \<Longrightarrow> sfs_pres io blocks ok sfs sfs' \<and> sin_same sin sin'"
  by (auto simp: sfs_getdirentry_def sfs_getdirentry_sub_nolock_def bind_eq_Some_conv Let_def split: if_splits
      dest!: getdirentry_loop_pres intro: sin_same_unlock)

section \<open>Files\<close>

lemma length_part: "pos + unat nblks * SFS_BLKSIZE \<le> length buf \<Longrightarrow> length (get_bytes pos (unat nblks * SFS_BLKSIZE) buf) = unat nblks * SFS_BLKSIZE"
  by (simp add: get_bytes_def)

lemma io_part_pres:
  "io_part wr sfs sin buf pos len blkno off = Some (buf', sfs', sin') \<Longrightarrow> sfs_pres io blocks ok sfs sfs' \<and> sin_same sin sin'"
  by (auto simp: io_part_def sfs_buf_op_def bind_eq_Some_conv split: if_splits
      dest!: bmap_load_pres rbuf_pres wbuf_pres intro: sfs_pres_trans)

lemma io_blocks_pres:
  "io_blocks wr sfs sin buf pos blkno nblks = Some (buf', sfs', sin') \<Longrightarrow> pos + unat nblks * SFS_BLKSIZE \<le> length buf \<Longrightarrow>
   sfs_pres io blocks ok sfs sfs' \<and> sin_same sin sin'"
  by (auto simp: io_blocks_def sfs_block_op_def sfs_rblock_def sfs_wblock_def bind_eq_Some_conv Let_def split: if_splits
      dest!: bmap_load_pres rwblock_locked_pres [OF _ length_part] intro: sfs_pres_trans)

lemma grow_loop_pres:
  "grow_loop k nblks sfs sin = Some (ret, sfs', sin') \<Longrightarrow> sfs_pres io blocks ok sfs sfs' \<and> sin_same sin sin'"
proof (induction k nblks sfs sin rule: grow_loop.induct)
  case (2 k nblks sfs sin)
  obtain r i s1 sin1 where s1: "sfs_bmap_load_nolock sfs sin nblks = Some (r, i, s1, sin1)"
    using "2.prems" by (auto simp: bind_eq_Some_conv)
  then have "sfs_pres io blocks ok s1 sfs' \<and> sin_same sin1 sin'" using "2.prems" "2.IH" by (auto split: if_splits)
  then show ?case using bmap_load_pres [OF s1] by (blast intro: sfs_pres_trans sin_same_trans)
qed auto

lemma shrink_loop_pres:
  "shrink_loop k sfs sin = Some (ret, sfs', sin') \<Longrightarrow> sfs_pres io blocks ok sfs sfs' \<and> sin_same sin sin'"
proof (induction k sfs sin rule: shrink_loop.induct)
  case (2 k sfs sin)
  obtain r s1 sin1 where s1: "sfs_bmap_truncate_nolock sfs sin = Some (r, s1, sin1)"
    using "2.prems" by (auto simp: bind_eq_Some_conv)
  then have "sfs_pres io blocks ok s1 sfs' \<and> sin_same sin1 sin'" using "2.prems" "2.IH" by (auto split: if_splits)
  then show ?case using bmap_truncate_pres [OF s1] by (blast intro: sfs_pres_trans sin_same_trans)
qed auto

lemma truncfile_pres [dest]:
  "sfs_truncfile sfs sin len = Some (ret, sfs', sin') \<Longrightarrow> sfs_pres io blocks ok sfs sfs' \<and> sin_same sin sin'"
  by (auto simp: sfs_truncfile_def bind_eq_Some_conv Let_def split: if_splits
      dest!: grow_loop_pres shrink_loop_pres
      intro: sin_same_unlock sin_same_unlock [OF _ sin_same_trans [OF _ sin_same_update(1)]])

lemma tryseek_pres [dest]:
  "sfs_tryseek sfs sin pos = Some (ret, sfs', sin') \<Longrightarrow> sfs_pres io blocks ok sfs sfs' \<and> sin_same sin sin'"
  by (auto simp: sfs_tryseek_def split: if_splits)

lemma fsync_pres [dest]:
  "sfs_fsync sfs sin = Some (ret, sfs', sin') \<Longrightarrow> sfs_pres io blocks ok sfs sfs' \<and> sin_same sin sin'"
  by (auto simp: sfs_fsync_def bind_eq_Some_conv Let_def split: if_splits
      intro: sin_same_unlock)

lemma rbuf_length:
  assumes "sfs_rbuf sfs len blkno off = Some (0, bs, sfs')" "sfs_good io blocks ok sfs"
  shows "length bs = len"
proof -
  have "blkno < sb_blocks (super sfs)" "blkno \<noteq> 0" "0 < io_sem sfs" "0 \<le> off" "off < int SFS_BLKSIZE" "off + int len \<le> int SFS_BLKSIZE"
    using assms(1) by (auto simp: sfs_rbuf_def bind_eq_Some_conv lock_sfs_io_def sfs_rwblock_nolock_def split: if_splits)
  then show ?thesis
    using rbuf_ok [of sfs blkno off len] assms blk_length by (auto simp: sfs_good_def get_bytes_def)
qed

lemma io_part_length:
  assumes "io_part wr sfs sin buf pos len blkno off = Some (buf', sfs', sin')" "sfs_good io blocks ok sfs" "pos + len \<le> length buf"
  shows "length buf' = length buf"
  using assms
  by (auto simp: io_part_def sfs_buf_op_def bind_eq_Some_conv split: if_splits dest!: bmap_load_pres sfs_pres_good rbuf_length)

lemma io_first_pres:
  assumes "io_first wr sfs sin buf (int a) (int e) (of_nat (a div SFS_BLKSIZE)) (of_nat (e div SFS_BLKSIZE - a div SFS_BLKSIZE)) =
      Some (b, p, k, n, g, sfs', sin')"
    and "sfs_good io blocks ok sfs" "a < e" "e < 2 ^ 31" "e - a \<le> length buf"
  shows "sfs_pres io blocks ok sfs sfs' \<and> sin_same sin sin' \<and> p + unat n * SFS_BLKSIZE \<le> length b"
proof -
  let ?B = SFS_BLKSIZE
  define q r m where "q = a div ?B" and "r = a mod ?B" and "m = e div ?B"
  have a: "a = q * ?B + r" "r < ?B" by (simp_all add: q_def r_def SFS_BLKSIZE_def)
  have eb: "m * ?B + e mod ?B = e" unfolding m_def by (rule div_mult_mod_eq)
  have qm: "q \<le> m" using assms(3) by (simp add: q_def m_def div_le_mono)
  have "m \<le> e" unfolding m_def by (rule div_le_dividend)
  then have m32: "m - q < 2 ^ 32" by (rule le_less_trans [OF le_trans [OF diff_le_self]]) (use assms(4) in simp)
  then have u: "unat (of_nat (m - q) :: u32) = m - q" by (rule unat_of_nat_small)
  have pos: "(0 :: u32) < of_nat (m - q) \<longleftrightarrow> q < m" using u by (simp add: word_less_nat_alt)
  have mB: "(m - q) * ?B + q * ?B = m * ?B" using qm by (simp add: add_mult_distrib [symmetric])
  have r: "int a mod int ?B = int r" by (simp add: r_def zmod_int)
  note first = assms(1) [folded q_def m_def, unfolded io_first_def r Let_def]
  consider (aligned) "r = 0" | (spans) "0 < r" "q < m" | (inside) "0 < r" "q = m" using qm by linarith
  then show ?thesis
  proof cases
    case aligned
    then have "(b, p, n, sfs', sin') = (buf, 0, of_nat (m - q), sfs, sin)" using first by simp
    moreover have "(m - q) * ?B \<le> length buf" using mB eb a(1) aligned assms(5) by linarith
    ultimately show ?thesis using u by simp
  next
    case spans
    have "nat (int ?B - int r) = ?B - r" using a(2) by linarith
    then have part: "io_part wr sfs sin buf 0 (?B - r) (of_nat q) (int r) = Some (b, sfs', sin')" "p = ?B - r" "n = of_nat (m - q) - 1"
      using first spans pos by (auto simp: bind_eq_Some_conv)
    have "unat n = m - q - 1" using part(3) u spans by (simp add: unat_minus_one word_gt_0 pos [symmetric] del: of_nat_diff)
    then have "p + unat n * ?B + q * ?B + r = m * ?B" using part(2) mB spans a(2) by (cases "m - q") (auto simp: algebra_simps)
    then have "p + unat n * ?B \<le> e - a" using eb a(1) by linarith
    moreover have "?B - r \<le> length buf"
      using calculation part(2) assms(5) by linarith
    ultimately show ?thesis using io_part_pres [OF part(1)] io_part_length [OF part(1) assms(2)] assms(5) by simp
  next
    case inside
    have "nat (int e - int a) = e - a" by simp
    then have part: "io_part wr sfs sin buf 0 (e - a) (of_nat q) (int r) = Some (b, sfs', sin')" "p = e - a" "n = 0"
      using first inside by (auto simp: bind_eq_Some_conv)
    then show ?thesis using io_part_pres [OF part(1)] io_part_length [OF part(1) assms(2)] assms(5) by simp
  qed
qed

lemma io_body_pres:
  assumes "sfs_io_body wr sfs sin buf (int a) (int e) = Some (ret, alen, buf', sfs', sin')"
    and "sfs_good io blocks ok sfs" "a < e" "e < 2 ^ 31" "e - a \<le> length buf"
  shows "sfs_pres io blocks ok sfs sfs' \<and> sin_same sin sin'"
proof -
  have "a div SFS_BLKSIZE \<le> e div SFS_BLKSIZE" using assms(3) by (simp add: div_le_mono)
  then have d: "of_nat (e div SFS_BLKSIZE) - (of_nat (a div SFS_BLKSIZE) :: u32) = of_nat (e div SFS_BLKSIZE - a div SFS_BLKSIZE)"
    by (simp add: of_nat_diff)
  obtain b1 p1 k n g s1 sin1 b2 p2 s2 sin2 b3 p3 sin3 where
    r: "io_first wr sfs sin buf (int a) (int e) (of_nat (a div SFS_BLKSIZE)) (of_nat (e div SFS_BLKSIZE - a div SFS_BLKSIZE)) =
          Some (b1, p1, k, n, g, s1, sin1)"
      "io_middle wr s1 sin1 b1 p1 k n = Some (b2, p2, s2, sin2)" "io_last wr s2 sin2 b2 p2 (int e) g = Some (b3, p3, sfs', sin3)"
      "sin_same sin3 sin'"
    using assms(1) unfolding sfs_io_body_def
    by (auto simp: bind_eq_Some_conv Let_def d simp flip: zdiv_int split: if_splits)
  have 1: "sfs_pres io blocks ok sfs s1 \<and> sin_same sin sin1" "p1 + unat n * SFS_BLKSIZE \<le> length b1"
    using io_first_pres [OF r(1) assms(2-5)] by auto
  have 2: "sfs_pres io blocks ok s1 s2 \<and> sin_same sin1 sin2"
    using r(2) 1(2) by (auto simp: io_middle_def bind_eq_Some_conv split: if_splits dest!: io_blocks_pres)
  have 3: "sfs_pres io blocks ok s2 sfs' \<and> sin_same sin2 sin3"
    using r(3) by (auto simp: io_last_def bind_eq_Some_conv Let_def split: if_splits dest!: io_part_pres)
  show ?thesis using 1(1) 2 3 r(4) by (blast intro: sfs_pres_trans sin_same_trans)
qed

lemma endpos_range:
  assumes "0 \<le> off" "off < 2 ^ 27" "n < 2 ^ 32" "off \<le> sint (of_int off + of_nat n :: u32)"
  shows "sint (of_int off + of_nat n :: u32) = off + int n"
proof -
  define z where "z = off + int n"
  have n: "int n < 2 ^ 32" using assms(3) by (metis of_nat_less_numeral_power_cancel_iff)
  have "sint (of_int z :: u32) = (z + 2 ^ 31) mod 2 ^ 32 - 2 ^ 31"
    by (simp add: signed_of_int signed_take_bit_eq_take_bit_shift take_bit_eq_mod)
  moreover have "(of_int off + of_nat n :: u32) = of_int z" by (simp add: z_def)
  ultimately have eq: "sint (of_int off + of_nat n :: u32) = (z + 2 ^ 31) mod 2 ^ 32 - 2 ^ 31" by simp
  have z: "0 \<le> z" "z < 2 ^ 32 + 2 ^ 27" using assms(1,2) n by (simp_all add: z_def)
  show ?thesis
  proof (cases "z < 2 ^ 31")
    case True
    then have "(z + 2 ^ 31) mod 2 ^ 32 = z + 2 ^ 31" using z(1) by (intro mod_pos_pos_trivial) simp_all
    then show ?thesis using eq by (simp add: z_def)
  next
    case False
    have "(z + 2 ^ 31) mod 2 ^ 32 = (z - 2 ^ 31) mod 2 ^ 32"
      using mod_add_self2 [of "z - 2 ^ 31" "2 ^ 32 :: int"] by (simp add: add.commute)
    also have "\<dots> = z - 2 ^ 31" using False z(2) by (intro mod_pos_pos_trivial) simp_all
    finally have "off \<le> z - 2 ^ 32" using eq assms(4) by simp
    then show ?thesis using n by (simp add: z_def)
  qed
qed

lemma io_nolock_pres:
  assumes "sfs_io_nolock sfs sin buf off (of_nat (length buf)) wr = Some (ret, alen, buf', sfs', sin')"
    and "sfs_good io blocks ok sfs" "length buf < 2 ^ 32"
  shows "sfs_pres io blocks ok sfs sfs' \<and> sin_same sin sin'"
proof -
  let ?ep = "sint (of_int off + of_nat (length buf) :: u32)"
  define c where "c = (if ?ep > SFS_MAX_FILE_SIZE then SFS_MAX_FILE_SIZE else ?ep)"
  define e where "e = (if wr then c else if c > int (unat (di_size (din sin))) then int (unat (di_size (din sin))) else c)"
  have "sfs' = sfs \<and> sin' = sin \<or> 0 \<le> off \<and> off < SFS_MAX_FILE_SIZE \<and> off < ?ep \<and> off < e \<and>
      sfs_io_body wr sfs sin buf off e = Some (ret, alen, buf', sfs', sin')"
    using assms(1) by (auto simp: sfs_io_nolock_def bind_eq_Some_conv Let_def e_def c_def split: if_splits)
  then show ?thesis
  proof (elim disjE conjE)
    assume h: "0 \<le> off" "off < SFS_MAX_FILE_SIZE" "off < ?ep" "off < e"
      "sfs_io_body wr sfs sin buf off e = Some (ret, alen, buf', sfs', sin')"
    have "?ep = off + int (length buf)" using endpos_range [of off "length buf"] h assms(3) by (simp add: SFS_MAX_FILE_SIZE_def)
    moreover have "e \<le> ?ep" "e \<le> SFS_MAX_FILE_SIZE" by (simp_all add: e_def c_def)
    ultimately have "nat off < nat e" "nat e < 2 ^ 31" "nat e - nat off \<le> length buf"
      using h by (auto simp: SFS_MAX_FILE_SIZE_def)
    then show ?thesis using io_body_pres [of wr sfs sin buf "nat off" "nat e"] h assms(2) by simp
  qed auto
qed

lemma sfs_io_pres:
  assumes "sfs_io sfs sin iob wr = Some (ret, iob', sfs', sin')" "sfs_good io blocks ok sfs"
    and "io_base iob + io_resid iob \<le> length (io_buf iob)" "io_resid iob < 2 ^ 32"
  shows "sfs_pres io blocks ok sfs sfs' \<and> sin_same sin sin'"
proof -
  define buf where "buf = get_bytes (io_base iob) (io_resid iob) (io_buf iob)"
  have len: "length buf = io_resid iob" using assms(3) by (simp add: buf_def get_bytes_def)
  obtain sin1 alen b sin2 where r: "lock_sin sin = Some sin1"
      "sfs_io_nolock sfs sin1 buf (io_offset iob) (of_nat (length buf)) wr = Some (ret, alen, b, sfs', sin2)" "sin' = unlock_sin sin2"
    using assms(1) by (auto simp: sfs_io_def bind_eq_Some_conv Let_def buf_def [symmetric] len)
  show ?thesis
    using io_nolock_pres [OF r(2) assms(2)] assms(4) len sin_same_unlock [OF r(1), of sin2] r(3) by simp
qed

end

end
