(* ===== verification/Vfs_Inv.thy ===== *)
theory Vfs_Inv
  imports Sfs_Preserve Vfs_Inode
begin

text \<open>
  Well-formedness of the inode store. Every inode has the kind of information its table of operations expects, its counts
  are in range, and an inode of a file system is linked in the list and the right bucket of that file system's
  cache, with at most one inode for an inode number. The operations of theory \<open>Vfs_Inode\<close> preserve it, and on
  a well-formed store the checks in front of an inode operation fail only for operations the table does not have.
\<close>

section \<open>The invariant\<close>

abbreviation disk_good :: "mfs \<Rightarrow> bool" where
  "disk_good \<equiv> sfs_good disk0_io (DISK0_DEVSIZE div DISK0_BLKSIZE) disk0_ok"

abbreviation disk_pres :: "mfs \<Rightarrow> mfs \<Rightarrow> bool" where
  "disk_pres \<equiv> sfs_pres disk0_io (DISK0_DEVSIZE div DISK0_BLKSIZE) disk0_ok"

text \<open>An inode of a file system: \<open>rc\<close> is its reclaim count.\<close>

definition sin_ok :: "mfs \<Rightarrow> nat \<Rightarrow> inode_ops \<Rightarrow> int \<Rightarrow> sfs_inode \<Rightarrow> bool" where
  "sin_ok sfs n ops rc sin \<longleftrightarrow> sfs_get_ops (di_type (din sin)) = Some ops \<and> 0 < sin_sem sin \<and> reclaim_count sin = rc \<and>
     di_nlinks (din sin) \<noteq> 0 \<and> length (di_direct (din sin)) = 12 \<and> sin_ino sin \<noteq> 0 \<and> sin_ino sin < sb_blocks (super sfs) \<and>
     n \<in> set (inode_list sfs) \<and> n \<in> set (sfs_hash_list sfs (sin_ino sin))"

definition node_ok :: "'a vnodes_scheme \<Rightarrow> nat \<Rightarrow> inode \<Rightarrow> bool" where
  "node_ok s n nd \<longleftrightarrow> 0 \<le> open_count nd \<and> open_count nd \<le> ref_count nd \<and> 0 < ref_count nd \<and> n < next_inode s \<and>
     (case in_info nd of
        device_info dev \<Rightarrow> in_ops nd = dev_node_ops \<and> in_fs nd = None
      | sfs_inode_info sin \<Rightarrow> (\<exists>f sfs. in_fs nd = Some f \<and> fss s f = Some sfs \<and> sin_ok sfs n (in_ops nd) 1 sin))"

definition links_ok :: "(nat \<Rightarrow> inode option) \<Rightarrow> nat \<Rightarrow> mfs \<Rightarrow> bool" where
  "links_ok nodes f sfs \<longleftrightarrow> distinct (inode_list sfs) \<and> (\<forall>h. distinct (sfs_buckets sfs h)) \<and>
     (\<forall>n \<in> set (inode_list sfs). \<exists>nd sin. nodes n = Some nd \<and> in_fs nd = Some f \<and> in_info nd = sfs_inode_info sin) \<and>
     (\<forall>h. \<forall>n \<in> set (sfs_buckets sfs h). n \<in> set (inode_list sfs) \<and>
        (\<forall>nd sin. nodes n = Some nd \<and> in_info nd = sfs_inode_info sin \<longrightarrow> sin_hashfn (sin_ino sin) = h)) \<and>
     (\<forall>n \<in> set (inode_list sfs). \<forall>m \<in> set (inode_list sfs). \<forall>nd sin md sim.
        nodes n = Some nd \<and> in_info nd = sfs_inode_info sin \<and> nodes m = Some md \<and> in_info md = sfs_inode_info sim \<and>
        sin_ino sin = sin_ino sim \<longrightarrow> n = m)"

definition fs_ok :: "'a vnodes_scheme \<Rightarrow> nat \<Rightarrow> mfs \<Rightarrow> bool" where
  "fs_ok s f sfs \<longleftrightarrow> disk_good sfs \<and> 0 < io_sem sfs \<and> links_ok (inodes s) f sfs"

definition vnodes_inv :: "'a vnodes_scheme \<Rightarrow> bool" where
  "vnodes_inv s \<longleftrightarrow> (\<forall>n nd. inodes s n = Some nd \<longrightarrow> node_ok s n nd) \<and> (\<forall>f sfs. fss s f = Some sfs \<longrightarrow> fs_ok s f sfs)"

lemma vnodes_inv_node: "vnodes_inv s \<Longrightarrow> inodes s n = Some nd \<Longrightarrow> node_ok s n nd"
  by (simp add: vnodes_inv_def)

lemma vnodes_inv_fs: "vnodes_inv s \<Longrightarrow> fss s f = Some sfs \<Longrightarrow> fs_ok s f sfs"
  by (simp add: vnodes_inv_def)

text \<open>The identity of inodes that the links depend on: file system, kind and inode number.\<close>

definition same_id :: "inode \<Rightarrow> inode \<Rightarrow> bool" where
  "same_id nd nd' \<longleftrightarrow> in_fs nd' = in_fs nd \<and> (case in_info nd of
     device_info _ \<Rightarrow> (\<exists>dev. in_info nd' = device_info dev)
   | sfs_inode_info sin \<Rightarrow> (\<exists>sin'. in_info nd' = sfs_inode_info sin' \<and> sin_ino sin' = sin_ino sin))"

lemma links_ok_same:
  assumes "links_ok nodes f sfs" "nodes n = Some nd" "same_id nd nd'"
    and "inode_list sfs' = inode_list sfs" "sfs_buckets sfs' = sfs_buckets sfs"
  shows "links_ok (nodes(n \<mapsto> nd')) f sfs'"
proof -
  have id: "\<exists>md'. (nodes(n \<mapsto> nd')) m = Some md' \<and> same_id md md'" if "nodes m = Some md" for m md
    using that assms(2,3) by (auto simp: same_id_def split: in_info.splits)
  have old: "\<exists>md. nodes m = Some md \<and> same_id md md'" if "(nodes(n \<mapsto> nd')) m = Some md'" for m md'
    using that assms(2,3) by (cases "m = n") (auto simp: same_id_def split: in_info.splits)
  have sin: "\<exists>md sin. nodes m = Some md \<and> in_info md = sfs_inode_info sin \<and> sin_ino sin = sin_ino sin'"
    if "(nodes(n \<mapsto> nd')) m = Some md'" "in_info md' = sfs_inode_info sin'" for m md' sin'
  proof -
    from old [OF that(1)] obtain md where "nodes m = Some md" "same_id md md'" by blast
    then show ?thesis using that(2) by (cases "in_info md") (auto simp: same_id_def)
  qed
  show ?thesis
    unfolding links_ok_def assms(4,5)
  proof (intro conjI ballI allI impI)
    show "distinct (inode_list sfs)" "\<And>h. distinct (sfs_buckets sfs h)" using assms(1) by (simp_all add: links_ok_def)
    show "\<exists>nd sin. (nodes(n \<mapsto> nd')) m = Some nd \<and> in_fs nd = Some f \<and> in_info nd = sfs_inode_info sin" if "m \<in> set (inode_list sfs)" for m
    proof -
      obtain md sin where "nodes m = Some md" "in_fs md = Some f" "in_info md = sfs_inode_info sin"
        using assms(1) \<open>m \<in> _\<close> unfolding links_ok_def by blast
      then show ?thesis using id [of m md] by (fastforce simp: same_id_def)
    qed
    show "m \<in> set (inode_list sfs)" if "m \<in> set (sfs_buckets sfs h)" for h m using assms(1) that by (simp add: links_ok_def)
    show "sin_hashfn (sin_ino si) = h"
      if "m \<in> set (sfs_buckets sfs h)" "(nodes(n \<mapsto> nd')) m = Some md \<and> in_info md = sfs_inode_info si" for h m md si
      using assms(1) that(1) sin [of m md si] that(2) unfolding links_ok_def by metis
    show "m = k"
      if "m \<in> set (inode_list sfs)" "k \<in> set (inode_list sfs)"
        "(nodes(n \<mapsto> nd')) m = Some md \<and> in_info md = sfs_inode_info si \<and> (nodes(n \<mapsto> nd')) k = Some kd \<and>
         in_info kd = sfs_inode_info sk \<and> sin_ino si = sin_ino sk" for m k md si kd sk
      using assms(1) that(1,2) sin [of m md si] sin [of k kd sk] that(3) unfolding links_ok_def by metis
  qed
qed

section \<open>Updates that keep the invariant\<close>

text \<open>Changing an inode and its file system without changing what the links depend on.\<close>

lemma fs_ok_update:
  assumes "fs_ok s g sfs" "inodes s n = Some nd" "same_id nd nd'" "disk_good sfs'" "0 < io_sem sfs'" "mfs.inode_list sfs' = inode_list sfs"
    "sfs_buckets sfs' = sfs_buckets sfs" "inodes t = (inodes s)(n \<mapsto> nd')"
  shows "fs_ok t g sfs'"
  using assms links_ok_same [of "inodes s" g sfs n nd nd' sfs'] by (simp add: fs_ok_def)

lemma node_ok_frame:
  assumes "node_ok s m md" "next_inode s \<le> next_inode t"
    and "\<And>f sfs. fss s f = Some sfs \<Longrightarrow> in_fs md = Some f \<Longrightarrow>
      \<exists>sfs'. fss t f = Some sfs' \<and> sb_blocks (super sfs') = sb_blocks (super sfs) \<and>
        (m \<in> set (inode_list sfs) \<longrightarrow> m \<in> set (inode_list sfs')) \<and>
        (\<forall>h. m \<in> set (sfs_buckets sfs h) \<longrightarrow> m \<in> set (sfs_buckets sfs' h))"
  shows "node_ok t m md"
proof (cases "in_info md")
  case (device_info dev)
  then show ?thesis using assms(1,2) by (simp add: node_ok_def)
next
  case (sfs_inode_info sin)
  obtain f sfs where f: "in_fs md = Some f" "fss s f = Some sfs" "sin_ok sfs m (in_ops md) 1 sin"
    using assms(1) sfs_inode_info by (auto simp: node_ok_def)
  obtain sfs' where "fss t f = Some sfs'" "sb_blocks (super sfs') = sb_blocks (super sfs)"
      "m \<in> set (inode_list sfs) \<longrightarrow> m \<in> set (inode_list sfs')" "\<forall>h. m \<in> set (sfs_buckets sfs h) \<longrightarrow> m \<in> set (sfs_buckets sfs' h)"
    using assms(3) [OF f(2,1)] by blast
  then have "sin_ok sfs' m (in_ops md) 1 sin" using f(3) by (auto simp: sin_ok_def sfs_hash_list_def)
  then show ?thesis using assms(1,2) f(1) \<open>fss t f = Some sfs'\<close> sfs_inode_info by (simp add: node_ok_def)
qed

lemma vnodes_inv_update:
  assumes "vnodes_inv s" "inodes s n = Some nd" "same_id nd nd'" "node_ok t n nd'"
    and "inodes t = (inodes s)(n \<mapsto> nd')" "next_inode s \<le> next_inode t"
    and "\<And>g. fss t g = None \<longleftrightarrow> fss s g = None"
    and "\<And>g sfs sfs'. fss s g = Some sfs \<Longrightarrow> fss t g = Some sfs' \<Longrightarrow>
      disk_good sfs' \<and> 0 < io_sem sfs' \<and> sb_blocks (super sfs') = sb_blocks (super sfs) \<and>
      inode_list sfs' = inode_list sfs \<and> sfs_buckets sfs' = sfs_buckets sfs"
  shows "vnodes_inv t"
  unfolding vnodes_inv_def
proof (intro conjI allI impI)
  fix m md assume m: "inodes t m = Some md"
  show "node_ok t m md"
  proof (cases "m = n")
    case True
    then show ?thesis using m assms(4,5) by simp
  next
    case False
    then have "node_ok s m md" using m assms(1,5) by (simp add: vnodes_inv_def)
    then show ?thesis
    proof (rule node_ok_frame)
      fix f sfs assume f: "fss s f = Some sfs" "in_fs md = Some f"
      then obtain sfs' where "fss t f = Some sfs'" using assms(7) [of f] by fastforce
      then show "\<exists>sfs'. fss t f = Some sfs' \<and> sb_blocks (super sfs') = sb_blocks (super sfs) \<and>
        (m \<in> set (inode_list sfs) \<longrightarrow> m \<in> set (inode_list sfs')) \<and>
        (\<forall>h. m \<in> set (sfs_buckets sfs h) \<longrightarrow> m \<in> set (sfs_buckets sfs' h))" using assms(8) [OF f(1)] by simp
    qed (rule assms(6))
  qed
next
  fix g sfs' assume g: "fss t g = Some sfs'"
  then obtain sfs where sfs: "fss s g = Some sfs" using assms(7) [of g] by fastforce
  show "fs_ok t g sfs'"
    by (rule fs_ok_update [OF vnodes_inv_fs [OF assms(1) sfs] assms(2,3)]) (use assms(5,8) sfs g in auto)
qed

text \<open>The two uses: changing counts, and running an operation of the file system on one inode.\<close>

lemma vnodes_inv_counts:
  assumes "vnodes_inv s" "inodes s n = Some nd" "0 \<le> c" "c \<le> r" "0 < r"
  shows "vnodes_inv (upd_inode n (\<lambda>nd. nd\<lparr>ref_count := r, open_count := c\<rparr>) s)"
proof (rule vnodes_inv_update [OF assms(1,2)])
  show "same_id nd (nd\<lparr>ref_count := r, open_count := c\<rparr>)" by (auto simp: same_id_def split: in_info.splits)
  show "node_ok (upd_inode n (\<lambda>nd. nd\<lparr>ref_count := r, open_count := c\<rparr>) s) n (nd\<lparr>ref_count := r, open_count := c\<rparr>)"
    using vnodes_inv_node [OF assms(1,2)] assms(3-5) by (auto simp: node_ok_def upd_inode_def split: in_info.splits)
qed (use assms(1,2) in \<open>auto simp: upd_inode_def dest: vnodes_inv_fs simp: fs_ok_def\<close>)

lemma vnodes_inv_put:
  assumes "vnodes_inv s" "inodes s n = Some nd" "in_fs nd = Some f" "fss s f = Some sfs" "in_info nd = sfs_inode_info sin"
    and "disk_good sfs'" "sfs_frame sfs sfs'" "sin_same sin sin'"
  shows "vnodes_inv (put_sin n sin' (put_fs f sfs' s))"
proof (rule vnodes_inv_update [OF assms(1,2)])
  have more: "inode_list sfs' = inode_list sfs" "sfs_buckets sfs' = sfs_buckets sfs"
    using assms(7) by (cases sfs; cases sfs'; simp add: sfs_frame_def)+
  show "same_id nd (nd\<lparr>in_info := sfs_inode_info sin'\<rparr>)" using assms(5,8) by (simp add: same_id_def sin_same_def)
  have "sin_ok sfs n (in_ops nd) 1 sin" using vnodes_inv_node [OF assms(1,2)] assms(3,4,5) by (simp add: node_ok_def)
  then have "sin_ok sfs' n (in_ops nd) 1 sin'"
    using assms(7,8) more by (simp add: sin_ok_def sin_same_def sfs_frame_def sfs_hash_list_def)
  then show "node_ok (put_sin n sin' (put_fs f sfs' s)) n (nd\<lparr>in_info := sfs_inode_info sin'\<rparr>)"
    using vnodes_inv_node [OF assms(1,2)] assms(3) by (simp add: node_ok_def put_sin_def put_fs_def upd_inode_def)
  fix g s1 s2 assume "fss s g = Some s1" "fss (put_sin n sin' (put_fs f sfs' s)) g = Some s2"
  then show "disk_good s2 \<and> 0 < io_sem s2 \<and> sb_blocks (super s2) = sb_blocks (super s1) \<and>
      inode_list s2 = inode_list s1 \<and> sfs_buckets s2 = sfs_buckets s1"
    using vnodes_inv_fs [OF assms(1)] assms(4,6,7) more
    by (cases "g = f") (auto simp: put_sin_def put_fs_def upd_inode_def fs_ok_def sfs_frame_def)
qed (use assms(2,4) in \<open>auto simp: put_sin_def put_fs_def upd_inode_def\<close>)

section \<open>Adding and removing an inode\<close>

lemma links_okI:
  assumes "distinct (inode_list sfs)" "\<And>h. distinct (sfs_buckets sfs h)"
    and "\<And>m. m \<in> set (inode_list sfs) \<Longrightarrow> \<exists>md si. nodes m = Some md \<and> in_fs md = Some f \<and> in_info md = sfs_inode_info si"
    and "\<And>h m. m \<in> set (sfs_buckets sfs h) \<Longrightarrow> m \<in> set (inode_list sfs)"
    and "\<And>h m md si. m \<in> set (sfs_buckets sfs h) \<Longrightarrow> nodes m = Some md \<Longrightarrow> in_info md = sfs_inode_info si \<Longrightarrow> sin_hashfn (sin_ino si) = h"
    and "\<And>m k md si kd sk. m \<in> set (inode_list sfs) \<Longrightarrow> k \<in> set (inode_list sfs) \<Longrightarrow> nodes m = Some md \<Longrightarrow>
      in_info md = sfs_inode_info si \<Longrightarrow> nodes k = Some kd \<Longrightarrow> in_info kd = sfs_inode_info sk \<Longrightarrow> sin_ino si = sin_ino sk \<Longrightarrow> m = k"
  shows "links_ok nodes f sfs"
  using assms unfolding links_ok_def by blast

lemma links_okD:
  assumes "links_ok nodes f sfs"
  shows "distinct (inode_list sfs)" "distinct (sfs_buckets sfs h)"
    and "m \<in> set (inode_list sfs) \<Longrightarrow> \<exists>md si. nodes m = Some md \<and> in_fs md = Some f \<and> in_info md = sfs_inode_info si"
    and "m \<in> set (sfs_buckets sfs h) \<Longrightarrow> m \<in> set (inode_list sfs)"
    and "m \<in> set (sfs_buckets sfs h) \<Longrightarrow> nodes m = Some md \<Longrightarrow> in_info md = sfs_inode_info si \<Longrightarrow> sin_hashfn (sin_ino si) = h"
    and "m \<in> set (inode_list sfs) \<Longrightarrow> k \<in> set (inode_list sfs) \<Longrightarrow> nodes m = Some md \<Longrightarrow>
      in_info md = sfs_inode_info si \<Longrightarrow> nodes k = Some kd \<Longrightarrow> in_info kd = sfs_inode_info sk \<Longrightarrow> sin_ino si = sin_ino sk \<Longrightarrow> m = k"
  using assms unfolding links_ok_def by blast+

lemma links_ok_other:
  assumes "links_ok nodes g sfs" "\<And>m md. nodes m = Some md \<Longrightarrow> in_fs md = Some g \<Longrightarrow> nodes' m = Some md"
  shows "links_ok nodes' g sfs"
proof -
  have same: "nodes' m = nodes m" if "m \<in> set (inode_list sfs)" for m
    using links_okD(3) [OF assms(1) that] assms(2) [of m] by auto
  show ?thesis
    by (rule links_okI) (use links_okD [OF assms(1)] same in \<open>metis+\<close>)
qed

lemma links_ok_add:
  assumes "links_ok nodes f sfs" "nodes n = None" "in_fs nd = Some f" "in_info nd = sfs_inode_info sin"
    and "\<And>m md si. m \<in> set (inode_list sfs) \<Longrightarrow> nodes m = Some md \<Longrightarrow> in_info md = sfs_inode_info si \<Longrightarrow> sin_ino si \<noteq> sin_ino sin"
  shows "links_ok (nodes(n \<mapsto> nd)) f (sfs_set_links n (sin_ino sin) sfs)"
proof -
  note D = links_okD [OF assms(1)]
  have n: "n \<notin> set (inode_list sfs)" using D(3) [of n] assms(2) by auto
  then have n': "n \<notin> set (sfs_buckets sfs h)" for h using D(4) by blast
  show ?thesis
  proof (rule links_okI)
    show "distinct (inode_list (sfs_set_links n (sin_ino sin) sfs))" using D(1) n by (simp add: sfs_set_links_def)
    show "distinct (sfs_buckets (sfs_set_links n (sin_ino sin) sfs) h)" for h
      using D(2) n' by (simp add: sfs_set_links_def sfs_hash_list_def)
    show "\<exists>md si. (nodes(n \<mapsto> nd)) m = Some md \<and> in_fs md = Some f \<and> in_info md = sfs_inode_info si"
      if "m \<in> set (inode_list (sfs_set_links n (sin_ino sin) sfs))" for m
      using that D(3) [of m] assms(3,4) by (auto simp: sfs_set_links_def)
    show "m \<in> set (inode_list (sfs_set_links n (sin_ino sin) sfs))"
      if "m \<in> set (sfs_buckets (sfs_set_links n (sin_ino sin) sfs) h)" for h m
      using that D(4) by (auto simp: sfs_set_links_def sfs_hash_list_def split: if_splits)
    show "sin_hashfn (sin_ino si) = h"
      if "m \<in> set (sfs_buckets (sfs_set_links n (sin_ino sin) sfs) h)" "(nodes(n \<mapsto> nd)) m = Some md" "in_info md = sfs_inode_info si" for h m md si
      using that D(5) n' assms(4) by (auto simp: sfs_set_links_def sfs_hash_list_def split: if_splits)
    show "m = k"
      if "m \<in> set (inode_list (sfs_set_links n (sin_ino sin) sfs))" "k \<in> set (inode_list (sfs_set_links n (sin_ino sin) sfs))"
        "(nodes(n \<mapsto> nd)) m = Some md" "in_info md = sfs_inode_info si" "(nodes(n \<mapsto> nd)) k = Some kd" "in_info kd = sfs_inode_info sk"
        "sin_ino si = sin_ino sk" for m k md si kd sk
      using that D(6) [of m k md si kd sk] assms(4,5) n by (auto simp: sfs_set_links_def split: if_splits)
  qed
qed

lemma links_ok_remove:
  assumes "links_ok nodes f sfs" "nodes n = Some nd" "in_info nd = sfs_inode_info sin"
  shows "links_ok (nodes(n := None)) f (sfs_remove_links n (sin_ino sin) sfs)"
proof -
  note D = links_okD [OF assms(1)]
  have l: "set (remove1 n (inode_list sfs)) = set (inode_list sfs) - {n}" using D(1) by simp
  have b: "m \<in> set (sfs_buckets (sfs_remove_links n (sin_ino sin) sfs) h) \<Longrightarrow> m \<in> set (sfs_buckets sfs h) \<and> m \<noteq> n" for m h
    using D(2) [of h] D(5) [of n h nd sin] assms(2,3)
    by (auto simp: sfs_remove_links_def sfs_hash_list_def split: if_splits)
  show ?thesis
  proof (rule links_okI)
    show "distinct (sfs_buckets (sfs_remove_links n (sin_ino sin) sfs) h)" for h
      using D(2) by (simp add: sfs_remove_links_def sfs_hash_list_def)
    show "m \<in> set (inode_list (sfs_remove_links n (sin_ino sin) sfs))"
      if "m \<in> set (sfs_buckets (sfs_remove_links n (sin_ino sin) sfs) h)" for h m
      using b [OF that] D(4) [of m h] l by (simp add: sfs_remove_links_def)
    show "sin_hashfn (sin_ino si) = h"
      if "m \<in> set (sfs_buckets (sfs_remove_links n (sin_ino sin) sfs) h)" "(nodes(n := None)) m = Some md" "in_info md = sfs_inode_info si" for h m md si
      using b [OF that(1)] that(2,3) D(5) [of m h md si] by simp
  qed (use D l in \<open>auto simp: sfs_remove_links_def split: if_splits\<close>)
qed

text \<open>A new inode \<open>n\<close> of file system \<open>f\<close>, and the removal of one.\<close>

lemma vnodes_inv_add:
  assumes inv: "vnodes_inv s" and f: "fss s f = Some sfs"
    and t: "inodes t = (inodes s)(n \<mapsto> nd)" "next_inode t = Suc n" "fss t = (fss s)(f \<mapsto> sfs_set_links n (sin_ino sin) sfs')"
    and n: "n = next_inode s" and nd: "in_fs nd = Some f" "in_info nd = sfs_inode_info sin" "ref_count nd = 1" "open_count nd = 0"
    and sin: "sfs_get_ops (di_type (din sin)) = Some (in_ops nd)" "0 < sin_sem sin" "reclaim_count sin = 1" "di_nlinks (din sin) \<noteq> 0"
      "length (di_direct (din sin)) = 12" "sin_ino sin \<noteq> 0" "sin_ino sin < sb_blocks (super sfs)"
    and new: "\<And>m md si. m \<in> set (inode_list sfs) \<Longrightarrow> inodes s m = Some md \<Longrightarrow> in_info md = sfs_inode_info si \<Longrightarrow> sin_ino si \<noteq> sin_ino sin"
    and sfs': "disk_good sfs'" "sfs_frame sfs sfs'"
  shows "vnodes_inv t"
proof -
  have more: "inode_list sfs' = inode_list sfs" "sfs_buckets sfs' = sfs_buckets sfs"
    using sfs'(2) by (cases sfs; cases sfs'; simp add: sfs_frame_def)+
  have none: "inodes s n = None"
  proof (rule ccontr)
    assume "inodes s n \<noteq> None"
    then obtain md where "node_ok s n md" using vnodes_inv_node [OF inv] by blast
    then show False using n by (simp add: node_ok_def)
  qed
  have same: "inode_list (sfs_set_links n i sfs') = inode_list (sfs_set_links n i sfs)"
      "sfs_buckets (sfs_set_links n i sfs') = sfs_buckets (sfs_set_links n i sfs)" for i
    using more by (simp_all add: sfs_set_links_def sfs_hash_list_def)
  have good: "disk_good (sfs_set_links n i sfs')" for i
    using sfs'(1) by (simp add: sfs_set_links_def sfs_good_def sfs_on_def sfs_inv_def)
  have fso: "fs_ok s f sfs" by (rule vnodes_inv_fs [OF inv f])
  have "links_ok (inodes t) f (sfs_set_links n (sin_ino sin) sfs)"
    unfolding t(1) by (rule links_ok_add) (use fso none nd new in \<open>auto simp: fs_ok_def\<close>)
  then have "links_ok (inodes t) f (sfs_set_links n (sin_ino sin) sfs')"
    unfolding links_ok_def same .
  then have fs: "fs_ok t f (sfs_set_links n (sin_ino sin) sfs')"
    using good fso sfs'(2) by (simp add: fs_ok_def sfs_frame_def sfs_set_links_def)
  have other: "fs_ok t g sg" if "fss s g = Some sg" "g \<noteq> f" for g sg
    using vnodes_inv_fs [OF inv that(1)] none t(1) unfolding fs_ok_def
    by (elim conjE, intro conjI) (auto elim!: links_ok_other)
  have "sin_ok (sfs_set_links n (sin_ino sin) sfs') n (in_ops nd) 1 sin"
    using sin sfs'(2) by (simp add: sin_ok_def sfs_set_links_def sfs_hash_list_def sfs_frame_def)
  then have node: "node_ok t n nd" using nd t by (simp add: node_ok_def)
  have frame: "node_ok t m md" if "inodes s m = Some md" for m md
    by (rule node_ok_frame [OF vnodes_inv_node [OF inv that]])
      (use t n f sfs'(2) more in \<open>auto simp: sfs_set_links_def sfs_hash_list_def sfs_frame_def\<close>)
  show ?thesis
    unfolding vnodes_inv_def using frame node fs other t by (auto split: if_splits)
qed

lemma vnodes_inv_remove:
  assumes inv: "vnodes_inv s" and nd: "inodes s n = Some nd" "in_fs nd = Some f" "in_info nd = sfs_inode_info sin"
    and f: "fss s f = Some sfs" and sfs': "disk_good sfs'" "sfs_frame sfs sfs'"
    and t: "inodes t = (inodes s)(n := None)" "next_inode t = next_inode s" "fss t = (fss s)(f \<mapsto> sfs_remove_links n (sin_ino sin) sfs')"
  shows "vnodes_inv t"
proof -
  have more: "inode_list sfs' = inode_list sfs" "sfs_buckets sfs' = sfs_buckets sfs"
    using sfs'(2) by (cases sfs; cases sfs'; simp add: sfs_frame_def)+
  have same: "inode_list (sfs_remove_links n i sfs') = inode_list (sfs_remove_links n i sfs)"
      "sfs_buckets (sfs_remove_links n i sfs') = sfs_buckets (sfs_remove_links n i sfs)" for i
    using more by (simp_all add: sfs_remove_links_def sfs_hash_list_def)
  have good: "disk_good (sfs_remove_links n i sfs')" for i
    using sfs'(1) by (simp add: sfs_remove_links_def sfs_good_def sfs_on_def sfs_inv_def)
  have fso: "fs_ok s f sfs" by (rule vnodes_inv_fs [OF inv f])
  have "links_ok (inodes t) f (sfs_remove_links n (sin_ino sin) sfs)"
    unfolding t(1) by (rule links_ok_remove) (use fso nd in \<open>auto simp: fs_ok_def\<close>)
  then have "links_ok (inodes t) f (sfs_remove_links n (sin_ino sin) sfs')"
    unfolding links_ok_def same .
  then have fs: "fs_ok t f (sfs_remove_links n (sin_ino sin) sfs')"
    using good fso sfs'(2) by (simp add: fs_ok_def sfs_frame_def sfs_remove_links_def)
  have other: "fs_ok t g sg" if "fss s g = Some sg" "g \<noteq> f" for g sg
    using vnodes_inv_fs [OF inv that(1)] nd that(2) t(1) unfolding fs_ok_def
    by (elim conjE, intro conjI) (auto elim!: links_ok_other)
  have frame: "node_ok t m md" if "inodes s m = Some md" "m \<noteq> n" for m md
    by (rule node_ok_frame [OF vnodes_inv_node [OF inv that(1)]])
      (use t f sfs'(2) more that(2) in \<open>auto simp: sfs_remove_links_def sfs_hash_list_def sfs_frame_def in_set_remove1\<close>)
  show ?thesis
    unfolding vnodes_inv_def using frame fs other t by (auto split: if_splits)
qed

section \<open>Operations that keep all counts\<close>

text \<open>What an operation on the content of an inode keeps: the counts, tables and file systems of all inodes, the locks of
  the file systems, and the rest of the state.\<close>

definition ncore :: "inode \<Rightarrow> int \<times> int \<times> nat option \<times> inode_ops" where
  "ncore nd = (ref_count nd, open_count nd, in_fs nd, in_ops nd)"

definition cores :: "'a vnodes_scheme \<Rightarrow> nat \<Rightarrow> (int \<times> int \<times> nat option \<times> inode_ops) option" where
  "cores s n = map_option ncore (inodes s n)"

definition fsems :: "'a vnodes_scheme \<Rightarrow> nat \<Rightarrow> int option" where
  "fsems s f = map_option fs_sem (fss s f)"

definition frame :: "'a vnodes_scheme \<Rightarrow> 'a vnodes_scheme \<Rightarrow> bool" where
  "frame s t \<longleftrightarrow> fsems t = fsems s \<and> vnodes.more t = vnodes.more s"

definition keeps :: "'a vnodes_scheme \<Rightarrow> 'a vnodes_scheme \<Rightarrow> bool" where
  "keeps s t \<longleftrightarrow> cores t = cores s \<and> frame s t"

lemma frame_refl [simp]: "frame s s"
  by (simp add: frame_def)

lemma frame_trans: "frame s t \<Longrightarrow> frame t u \<Longrightarrow> frame s u"
  by (simp add: frame_def)

lemma keeps_refl [simp]: "keeps s s"
  by (simp add: keeps_def)

lemma keeps_trans: "keeps s t \<Longrightarrow> keeps t u \<Longrightarrow> keeps s u"
  by (simp add: keeps_def frame_def)

lemma case_sfs_Some: "(case i of sfs_inode_info sin \<Rightarrow> F sin | device_info _ \<Rightarrow> None) = Some y \<longleftrightarrow> (\<exists>sin. i = sfs_inode_info sin \<and> F sin = Some y)"
  by (cases i) auto

lemma case_dev_Some: "(case i of device_info dev \<Rightarrow> F dev | sfs_inode_info _ \<Rightarrow> None) = Some y \<longleftrightarrow> (\<exists>dev. i = device_info dev \<and> F dev = Some y)"
  by (cases i) auto

lemma sfs_of_Some:
  "sfs_of n s = Some (f, sfs, sin) \<longleftrightarrow>
     (\<exists>nd. inodes s n = Some nd \<and> in_fs nd = Some f \<and> fss s f = Some sfs \<and> in_info nd = sfs_inode_info sin)"
  by (auto simp: sfs_of_def bind_eq_Some_conv case_sfs_Some)

lemma sin_of_Some: "sin_of n s = Some sin \<longleftrightarrow> (\<exists>nd. inodes s n = Some nd \<and> in_info nd = sfs_inode_info sin)"
  by (auto simp: sin_of_def bind_eq_Some_conv case_sfs_Some)

lemma dev_of_Some: "dev_of n s = Some dev \<longleftrightarrow> (\<exists>nd. inodes s n = Some nd \<and> in_info nd = device_info dev)"
  by (auto simp: dev_of_def bind_eq_Some_conv case_dev_Some)

lemma on_sfs_inv:
  assumes "on_sfs op n s = Some (r, t)" "vnodes_inv s"
    and "\<And>sfs sin sfs' sin'. op sfs sin = Some (r, sfs', sin') \<Longrightarrow> disk_good sfs \<Longrightarrow> disk_pres sfs sfs' \<and> sin_same sin sin'"
  shows "vnodes_inv t \<and> keeps s t"
proof -
  obtain f sfs sin sfs' sin' nd where h: "inodes s n = Some nd" "in_fs nd = Some f" "fss s f = Some sfs" "in_info nd = sfs_inode_info sin"
      "op sfs sin = Some (r, sfs', sin')" "t = put_sin n sin' (put_fs f sfs' s)"
    using assms(1) by (auto simp: on_sfs_def bind_eq_Some_conv sfs_of_Some)
  have good: "disk_good sfs" using vnodes_inv_fs [OF assms(2) h(3)] by (simp add: fs_ok_def)
  then have "disk_good sfs'" "sfs_frame sfs sfs'" "sin_same sin sin'" using assms(3) [OF h(5)] by (auto simp: sfs_pres_def)
  then have "vnodes_inv t" unfolding h(6) by (rule vnodes_inv_put [OF assms(2) h(1-4)])
  moreover have "keeps s t"
    unfolding h(6) using h(1,3) \<open>sfs_frame sfs sfs'\<close>
    by (auto simp: keeps_def frame_def fsems_def cores_def fun_eq_iff put_sin_def put_fs_def upd_inode_def ncore_def sfs_frame_def)
  ultimately show ?thesis by simp
qed

lemma on_dev_inv:
  assumes "on_dev op n s = Some (r, t)" "vnodes_inv s"
  shows "vnodes_inv t \<and> keeps s t"
proof -
  obtain nd dev dev' where h: "inodes s n = Some nd" "in_info nd = device_info dev" "op dev = Some (r, dev')"
      "t = upd_inode n (in_info_update (\<lambda>_. device_info dev')) s"
    using assms(1) by (auto simp: on_dev_def bind_eq_Some_conv dev_of_Some)
  have t: "inodes t = (inodes s)(n \<mapsto> nd\<lparr>in_info := device_info dev'\<rparr>)" "next_inode t = next_inode s" "fss t = fss s"
    using h(1) unfolding h(4) by (simp_all add: upd_inode_def)
  have "vnodes_inv t"
  proof (rule vnodes_inv_update [OF assms(2) h(1) _ _ t(1)])
    show "same_id nd (nd\<lparr>in_info := device_info dev'\<rparr>)" using h(2) by (simp add: same_id_def)
    show "node_ok t n (nd\<lparr>in_info := device_info dev'\<rparr>)"
      using vnodes_inv_node [OF assms(2) h(1)] h(2) t(2) by (simp add: node_ok_def)
    fix g sfs sfs' assume "fss s g = Some sfs" "fss t g = Some sfs'"
    then show "disk_good sfs' \<and> 0 < io_sem sfs' \<and> sb_blocks (super sfs') = sb_blocks (super sfs) \<and>
        inode_list sfs' = inode_list sfs \<and> sfs_buckets sfs' = sfs_buckets sfs"
      using vnodes_inv_fs [OF assms(2)] t(3) by (auto simp: fs_ok_def)
  qed (use t in simp_all)
  moreover have "keeps s t"
    using h(1) unfolding h(4) by (auto simp: keeps_def frame_def fsems_def cores_def fun_eq_iff upd_inode_def ncore_def)
  ultimately show ?thesis by simp
qed

lemma kmalloc_inv:
  assumes "kmalloc_ok s = (ok, t)" "vnodes_inv s"
  shows "vnodes_inv t \<and> keeps s t \<and> inodes t = inodes s \<and> fss t = fss s \<and> next_inode t = next_inode s"
proof -
  have t: "inodes t = inodes s" "fss t = fss s" "next_inode t = next_inode s" "vnodes.more t = vnodes.more s"
    using assms(1) by (auto simp: kmalloc_ok_def split: list.splits)
  then have "vnodes_inv t" using assms(2) by (simp add: vnodes_inv_def node_ok_def fs_ok_def cong: in_info.case_cong)
  then show ?thesis using t by (simp add: keeps_def frame_def fsems_def cores_def fun_eq_iff)
qed

lemma vop_fsync_inv: "vop_fsync n s = Some (r, t) \<Longrightarrow> vnodes_inv s \<Longrightarrow> vnodes_inv t \<and> keeps s t"
  by (auto simp: vop_fsync_def bind_eq_Some_conv dest!: on_sfs_inv intro: d0.fsync_pres [THEN conjunct1] d0.fsync_pres [THEN conjunct2])

lemma vop_close_inv: "vop_close n s = Some (r, t) \<Longrightarrow> vnodes_inv s \<Longrightarrow> vnodes_inv t \<and> keeps s t"
  by (auto simp: vop_close_def bind_eq_Some_conv split: if_splits dest: vop_fsync_inv)

lemma vop_open_inv: "vop_open n fl s = Some (r, t) \<Longrightarrow> t = s"
  unfolding vop_open_def bind_eq_Some_conv
  by (elim exE conjE, rename_tac nd, case_tac "in_ops nd") (auto simp: bind_eq_Some_conv)

lemma vop_truncate_inv: "vop_truncate n len s = Some (r, t) \<Longrightarrow> vnodes_inv s \<Longrightarrow> vnodes_inv t \<and> keeps s t"
  unfolding vop_truncate_def bind_eq_Some_conv by (elim exE conjE, erule on_sfs_inv) (use d0.truncfile_pres in auto)

lemma vop_tryseek_inv: "vop_tryseek n pos s = Some (r, t) \<Longrightarrow> vnodes_inv s \<Longrightarrow> vnodes_inv t \<and> keeps s t"
  by (auto simp: vop_tryseek_def bind_eq_Some_conv split: if_splits dest!: on_sfs_inv intro: d0.tryseek_pres [THEN conjunct1] d0.tryseek_pres [THEN conjunct2])

abbreviation iob_ok :: "iobuf \<Rightarrow> bool" where
  "iob_ok iob \<equiv> io_base iob + io_resid iob \<le> length (io_buf iob) \<and> io_resid iob < 2 ^ 32"

lemma vop_read_inv: "vop_read n iob s = Some (r, t) \<Longrightarrow> vnodes_inv s \<Longrightarrow> iob_ok iob \<Longrightarrow> vnodes_inv t \<and> keeps s t"
  unfolding vop_read_def bind_eq_Some_conv
  by (elim exE conjE, split if_splits, erule (1) on_dev_inv, erule (1) on_sfs_inv)
    (auto simp: bind_eq_Some_conv sfs_read_def dest: d0.sfs_io_pres)

lemma vop_write_inv: "vop_write n iob s = Some (r, t) \<Longrightarrow> vnodes_inv s \<Longrightarrow> iob_ok iob \<Longrightarrow> vnodes_inv t \<and> keeps s t"
  unfolding vop_write_def bind_eq_Some_conv
  by (elim exE conjE, split if_splits, erule (1) on_dev_inv, erule (1) on_sfs_inv)
    (auto simp: bind_eq_Some_conv sfs_write_def dest: d0.sfs_io_pres)

lemma vop_getdirentry_inv: "vop_getdirentry n iob s = Some (r, t) \<Longrightarrow> vnodes_inv s \<Longrightarrow> vnodes_inv t \<and> keeps s t"
  unfolding vop_getdirentry_def bind_eq_Some_conv
proof (elim exE conjE, cases "kmalloc_ok s")
  fix nd ok s1
  assume "vnodes_inv s" and m: "kmalloc_ok s = (ok, s1)"
    and r: "(let (ok, s) = kmalloc_ok s in on_sfs (\<lambda>sfs sin. sfs_getdirentry sfs sin iob ok \<bind>
      (\<lambda>(ret, iob, sfs, sin). Some ((ret, iob), sfs, sin))) n s) = Some (r, t)"
  then have "vnodes_inv s1" "keeps s s1" by (auto dest: kmalloc_inv)
  moreover have "vnodes_inv t \<and> keeps s1 t"
    using r m calculation(1) by (auto simp: bind_eq_Some_conv elim!: on_sfs_inv)
  ultimately show "vnodes_inv t \<and> keeps s t" by (blast intro: keeps_trans)
qed

section \<open>Writing an inode back always succeeds\<close>

lemma inode_bytes_length: "length (di_direct d) = 12 \<Longrightarrow> length (inode_bytes d) = 64"
  by (simp add: inode_bytes_def length_concat comp_def word_bytes_def half_bytes_def sum_list_triv)

lemma fsync_total:
  assumes "disk_good sfs" "0 < io_sem sfs" "sin_ok sfs n ops rc sin"
  shows "\<exists>sfs'. sfs_fsync sfs sin = Some (0, sfs', sin\<lparr>sin_dirty := False\<rparr>) \<and> disk_good sfs' \<and> sfs_frame sfs sfs'"
proof -
  let ?b = "inode_bytes (din sin)"
  have "\<exists>sfs'. sfs_wbuf sfs ?b (sin_ino sin) 0 = Some (0, sfs')"
    using d0.wbuf_ok [of sfs "sin_ino sin" 0 ?b] assms inode_bytes_length [of "din sin"]
    by (auto simp: sfs_good_def sin_ok_def SFS_BLKSIZE_def)
  then obtain sfs' where w: "sfs_wbuf sfs ?b (sin_ino sin) 0 = Some (0, sfs')" by blast
  then have "disk_good sfs' \<and> sfs_frame sfs sfs'" using d0.wbuf_pres assms(1) sfs_pres_good by blast
  then show ?thesis
    using w assms by (cases "sin_dirty sin") (auto simp: sfs_fsync_def lock_sin_def unlock_sin_def sin_ok_def Let_def sfs_frame_def)
qed

end
