(* ===== verification/Vfs_Count.thy ===== *)
theory Vfs_Count
  imports Vfs_Inv
begin

text \<open>
  Accounting for references to inodes. \<open>held D R P s\<close> says that the store is well-formed, that callers hold \<open>R n\<close>
  references to inode \<open>n\<close>, of which \<open>P n\<close> are opens, that the counts of the inodes cover them (the open count
  exactly), and that all device inodes are in \<open>D\<close>. The operations on inodes are shown to move references as they should,
  and closing an inode that is held is shown to succeed.
\<close>

section \<open>Dropping the last reference\<close>

lemma sfs_ops: "sfs_get_ops ty = Some ops \<Longrightarrow> ops = sfs_node_dirops \<or> ops = sfs_node_fileops"
  by (auto simp: sfs_get_ops_def split: if_splits)

lemma unlock_remove: "unlock_sfs_fs (sfs_remove_links n i sfs) = sfs_remove_links n i (unlock_sfs_fs sfs)"
  by (simp add: unlock_sfs_fs_def sfs_remove_links_def sfs_hash_list_def)

lemma reclaim_locked_ok:
  assumes nd: "inodes s n = Some nd" "in_info nd = sfs_inode_info sin" "in_fs nd = Some f" "ref_count nd = 0" "open_count nd = 0"
    and f: "fss s f = Some sfs" "disk_good sfs" "0 < io_sem sfs" and sin: "sin_ok sfs n (in_ops nd) 1 sin"
  shows "\<exists>t sfs' nd'. reclaim_locked f n s = Some (None, t) \<and> disk_good sfs' \<and> sfs_frame sfs sfs' \<and>
    inodes t = (inodes s)(n \<mapsto> nd') \<and> in_fs nd' = Some f \<and> ref_count nd' = 0 \<and> open_count nd' = 0 \<and>
    (\<exists>si. in_info nd' = sfs_inode_info si \<and> di_nlinks (din si) \<noteq> 0) \<and>
    next_inode t = next_inode s \<and> fss t = (fss s)(f \<mapsto> sfs_remove_links n (sin_ino sin) sfs') \<and>
    allocs t = allocs s \<and> vnodes.more t = vnodes.more s"
proof -
  let ?sin = "sin\<lparr>reclaim_count := 0\<rparr>"
  have rc: "reclaim_count sin = 1" "di_nlinks (din sin) \<noteq> 0" and sin': "sin_ok sfs n (in_ops nd) 0 ?sin"
    using sin by (simp_all add: sin_ok_def)
  obtain sfs' where w: "sfs_fsync sfs ?sin = Some (0, sfs', ?sin\<lparr>sin_dirty := False\<rparr>)" "disk_good sfs'" "sfs_frame sfs sfs'"
    using fsync_total [OF f(2,3) sin'] by blast
  have op: "Vop_fsync \<in> set (vops (in_ops nd))" using sfs_ops [of "di_type (din sin)" "in_ops nd"] sin by (auto simp: sin_ok_def)
  show ?thesis
  proof (cases "sin_dirty sin")
    case True
    then show ?thesis
      using nd rc w op f(1)
      by (simp add: reclaim_locked_def sin_of_def put_sin_def upd_inode_def Let_def vop_fsync_def vop_op_def inode_check_def
          MAX_INODE_COUNT_def on_sfs_def sfs_of_def put_fs_def)
        (rule exI [of _ sfs'], simp, rule exI, rule conjI, rule refl, simp)
  next
    case False
    then show ?thesis
      using nd rc f
      by (simp add: reclaim_locked_def sin_of_def put_sin_def upd_inode_def Let_def put_fs_def)
        (rule exI [of _ sfs], simp add: sfs_frame_def, rule exI, rule conjI, rule refl, simp)
  qed
qed

lemma ref_dec_last:
  assumes inv: "vnodes_inv s" and nd: "inodes s n = Some nd" "ref_count nd = 1" "open_count nd = 0"
    and sfs: "in_info nd = sfs_inode_info sin" "in_fs nd = Some f" "fss s f = Some sfs" "0 < fs_sem sfs"
  shows "\<exists>t sfs'. inode_ref_dec n s = Some (0, t) \<and> disk_good sfs' \<and> sfs_frame sfs sfs' \<and>
    inodes t = (inodes s)(n := None) \<and> next_inode t = next_inode s \<and>
    fss t = (fss s)(f \<mapsto> sfs_remove_links n (sin_ino sin) sfs') \<and> allocs t = allocs s \<and> vnodes.more t = vnodes.more s"
proof -
  let ?s = "upd_inode n (ref_count_update (\<lambda>_. 0)) s"
  let ?sfs = "sfs\<lparr>fs_sem := fs_sem sfs - 1\<rparr>"
  have fso: "disk_good sfs" "0 < io_sem sfs" using vnodes_inv_fs [OF inv sfs(3)] by (simp_all add: fs_ok_def)
  have sin: "sin_ok sfs n (in_ops nd) 1 sin" using vnodes_inv_node [OF inv nd(1)] sfs by (simp add: node_ok_def)
  have "Vop_reclaim \<in> set (vops (in_ops nd))"
    using sfs_ops [of "di_type (din sin)" "in_ops nd"] sin by (auto simp: sin_ok_def)
  then have op: "vop_op Vop_reclaim n ?s = Some (nd\<lparr>ref_count := 0\<rparr>)"
    using nd by (simp add: vop_op_def upd_inode_def inode_check_def MAX_INODE_COUNT_def)
  have pre: "sfs_of n ?s = Some (f, sfs, sin)" "lock_fs f ?s = Some (put_fs f ?sfs ?s)"
    using nd sfs by (simp_all add: sfs_of_Some lock_fs_def lock_sfs_fs_def upd_inode_def)
  have "disk_good ?sfs" "sin_ok ?sfs n (in_ops nd) 1 sin"
    using fso(1) sin by (simp_all add: sfs_good_def sfs_on_def sfs_inv_def sin_ok_def sfs_hash_list_def)
  then obtain t1 sfs' nd' si where t1: "reclaim_locked f n (put_fs f ?sfs ?s) = Some (None, t1)" "disk_good sfs'" "sfs_frame ?sfs sfs'"
      "inodes t1 = (inodes s)(n \<mapsto> nd')" "in_fs nd' = Some f" "ref_count nd' = 0" "open_count nd' = 0"
      "in_info nd' = sfs_inode_info si" "di_nlinks (din si) \<noteq> 0" "next_inode t1 = next_inode s"
      "fss t1 = (fss s)(f \<mapsto> sfs_remove_links n (sin_ino sin) sfs')" "allocs t1 = allocs s" "vnodes.more t1 = vnodes.more s"
    using reclaim_locked_ok [of "put_fs f ?sfs ?s" n "nd\<lparr>ref_count := 0\<rparr>" sin f ?sfs] nd sfs fso(2)
    by (auto simp: put_fs_def upd_inode_def)
  have good: "disk_good (unlock_sfs_fs sfs')" "sfs_frame sfs (unlock_sfs_fs sfs')"
    using t1(2,3) by (simp_all add: sfs_good_def sfs_on_def sfs_inv_def sfs_frame_def unlock_sfs_fs_def)
  let ?t = "put_fs f (sfs_remove_links n (sin_ino sin) (unlock_sfs_fs sfs')) t1"
  have post: "unlock_fs f t1 = Some ?t" "sfs_of n ?t = Some (f, sfs_remove_links n (sin_ino sin) (unlock_sfs_fs sfs'), si)"
    using t1 by (simp_all add: unlock_fs_def unlock_remove sfs_of_Some put_fs_def)
  have "inode_ref_dec n s = Some (0, ?t\<lparr>inodes := (inodes s)(n := None)\<rparr>)"
    using nd(1,2) op pre t1 post
    by (simp add: inode_ref_dec_def vop_reclaim_def sfs_reclaim_def Let_def) (simp add: inode_kill_def put_fs_def)
  then show ?thesis using t1 good by (auto simp: put_fs_def intro!: exI [of _ "unlock_sfs_fs sfs'"])
qed

section \<open>Held references\<close>

definition held :: "nat set \<Rightarrow> (nat \<Rightarrow> nat) \<Rightarrow> (nat \<Rightarrow> nat) \<Rightarrow> 'a vnodes_scheme \<Rightarrow> bool" where
  "held D R P s \<longleftrightarrow> vnodes_inv s \<and> (\<forall>n. P n \<le> R n) \<and> (\<forall>n. 0 < R n \<longrightarrow> inodes s n \<noteq> None) \<and>
     (\<forall>n nd. inodes s n = Some nd \<longrightarrow> open_count nd = int (P n) \<and> ref_count nd = int (R n) \<and>
        (in_ops nd = dev_node_ops \<longrightarrow> n \<in> D))"

abbreviation one_more :: "nat \<Rightarrow> (nat \<Rightarrow> nat) \<Rightarrow> nat \<Rightarrow> nat" where
  "one_more n R \<equiv> R(n := R n + 1)"

abbreviation one_less :: "nat \<Rightarrow> (nat \<Rightarrow> nat) \<Rightarrow> nat \<Rightarrow> nat" where
  "one_less n R \<equiv> R(n := R n - 1)"

lemma heldD:
  assumes "held D R P s"
  shows "vnodes_inv s" "P n \<le> R n" "0 < R n \<Longrightarrow> \<exists>nd. inodes s n = Some nd"
    and "inodes s n = Some nd \<Longrightarrow> open_count nd = int (P n)" "inodes s n = Some nd \<Longrightarrow> ref_count nd = int (R n)"
    and "inodes s n = Some nd \<Longrightarrow> in_ops nd = dev_node_ops \<Longrightarrow> n \<in> D"
  using assms by (auto simp: held_def)

lemma held_keeps:
  assumes "held D R P s" "vnodes_inv t" "keeps s t"
  shows "held D R P t"
proof -
  have c: "map_option ncore (inodes t n) = map_option ncore (inodes s n)" for n
    using assms(3) by (simp add: keeps_def cores_def fun_eq_iff)
  have "\<exists>nd. inodes s n = Some nd \<and> ref_count nd' = ref_count nd \<and> open_count nd' = open_count nd \<and> in_ops nd' = in_ops nd"
    if "inodes t n = Some nd'" for n nd'
    using c [of n] that by (cases "inodes s n") (auto simp: ncore_def)
  moreover have "inodes t n \<noteq> None \<longleftrightarrow> inodes s n \<noteq> None" for n using c [of n] by (cases "inodes t n"; cases "inodes s n") auto
  ultimately show ?thesis using assms(1,2) unfolding held_def by metis
qed

lemma held_counts:
  assumes "held D R P s" "inodes s n = Some nd" "inodes t = (inodes s)(n \<mapsto> nd\<lparr>ref_count := r, open_count := int b\<rparr>)"
    and "next_inode t = next_inode s" "fss t = fss s" "b \<le> a" "r = int a" "0 < r"
  shows "held D (R(n := a)) (P(n := b)) t"
proof -
  have "vnodes_inv (upd_inode n (\<lambda>nd. nd\<lparr>ref_count := r, open_count := int b\<rparr>) s)"
    by (rule vnodes_inv_counts [OF heldD(1) [OF assms(1)] assms(2)]) (use assms(6-8) in auto)
  then have "vnodes_inv t"
    using assms(2-5) by (simp add: vnodes_inv_def node_ok_def fs_ok_def upd_inode_def cong: in_info.case_cong)
  then show ?thesis using assms by (auto simp: held_def)
qed

lemma ref_inc_held:
  assumes "inode_ref_inc n s = Some (r, t)" "held D R P s"
  shows "held D (one_more n R) P t \<and> frame s t"
proof -
  obtain nd where nd: "inodes s n = Some nd" "t = upd_inode n (ref_count_update (\<lambda>_. ref_count nd + 1)) s"
    using assms(1) by (auto simp: inode_ref_inc_def bind_eq_Some_conv)
  have "held D (one_more n R) (P(n := P n)) t"
    by (rule held_counts [OF assms(2) nd(1), where r = "ref_count nd + 1"])
      (use heldD(2,4,5) [OF assms(2), of n] nd in \<open>auto simp: upd_inode_def intro: le_SucI\<close>)
  then show ?thesis using nd by (simp add: frame_def fsems_def fun_eq_iff upd_inode_def)
qed

lemma open_inc_held:
  assumes "inode_open_inc n s = Some (r, t)" "held D R P s" "P n < R n"
  shows "held D R (one_more n P) t \<and> frame s t"
proof -
  obtain nd where nd: "inodes s n = Some nd" "t = upd_inode n (open_count_update (\<lambda>_. open_count nd + 1)) s"
    using assms(1) by (auto simp: inode_open_inc_def bind_eq_Some_conv)
  have "held D (R(n := R n)) (one_more n P) t"
    by (rule held_counts [OF assms(2) nd(1), where r = "ref_count nd"])
      (use heldD(2,4,5) [OF assms(2), of n] nd assms(3) in \<open>auto simp: upd_inode_def\<close>)
  then show ?thesis using nd by (simp add: frame_def fsems_def fun_eq_iff upd_inode_def)
qed

lemma open_dec_held:
  assumes "inode_open_dec n s = Some (r, t)" "held D R P s"
  shows "held D R (one_less n P) t \<and> frame s t \<and> 0 < P n"
proof -
  obtain nd where nd: "inodes s n = Some nd" "0 < open_count nd" using assms(1) by (auto simp: inode_open_dec_def bind_eq_Some_conv)
  let ?s = "upd_inode n (open_count_update (\<lambda>_. open_count nd - 1)) s"
  have p: "open_count nd = int (P n)" "0 < P n" using heldD(4) [OF assms(2) nd(1)] nd(2) by auto
  have "held D (R(n := R n)) (one_less n P) ?s"
    by (rule held_counts [OF assms(2) nd(1), where r = "ref_count nd"])
      (use heldD(2,5) [OF assms(2), of n] nd p in \<open>auto simp: upd_inode_def\<close>)
  then have 1: "held D R (one_less n P) ?s" "frame s ?s" by (simp_all add: frame_def fsems_def fun_eq_iff upd_inode_def)
  show ?thesis
  proof (cases "open_count nd - 1 = 0")
    case True
    then obtain q where "vop_close n ?s = Some (q, t)" using assms(1) nd by (auto simp: inode_open_dec_def bind_eq_Some_conv Let_def)
    then have "vnodes_inv t" "keeps ?s t" using vop_close_inv heldD(1) [OF 1(1)] by blast+
    then show ?thesis using held_keeps [OF 1(1)] frame_trans [OF 1(2)] p(2) by (auto simp: keeps_def)
  next
    case False
    then have "t = ?s" using assms(1) nd by (auto simp: inode_open_dec_def bind_eq_Some_conv Let_def)
    then show ?thesis using 1 p by simp
  qed
qed

text \<open>The kinds of inodes, from their tables.\<close>

lemma node_sfs:
  assumes "vnodes_inv s" "inodes s n = Some nd" "in_ops nd \<noteq> dev_node_ops"
  obtains sin f sfs where "in_info nd = sfs_inode_info sin" "in_fs nd = Some f" "fss s f = Some sfs" "sin_ok sfs n (in_ops nd) 1 sin"
    "disk_good sfs" "0 < io_sem sfs"
proof (cases "in_info nd")
  case (sfs_inode_info sin)
  then show ?thesis
    using that vnodes_inv_node [OF assms(1,2)] vnodes_inv_fs [OF assms(1)] by (auto simp: node_ok_def fs_ok_def)
qed (use vnodes_inv_node [OF assms(1,2)] assms(3) in \<open>simp add: node_ok_def\<close>)

lemma node_dev:
  assumes "vnodes_inv s" "inodes s n = Some nd" "in_ops nd = dev_node_ops"
  obtains dev where "in_info nd = device_info dev"
proof (cases "in_info nd")
  case (sfs_inode_info sin)
  then show ?thesis using vnodes_inv_node [OF assms(1,2)] assms(3) by (auto simp: node_ok_def sin_ok_def dest: sfs_ops)
qed (use that in blast)

lemma ref_dec_many:
  assumes "inodes s n = Some nd" "1 < ref_count nd"
  shows "inode_ref_dec n s = Some (ref_count nd - 1, upd_inode n (ref_count_update (\<lambda>_. ref_count nd - 1)) s)"
  using assms by (simp add: inode_ref_dec_def)

lemma held_less:
  assumes "held D R P s" "inodes s n = Some nd" "1 < ref_count nd" "P n < R n"
  shows "held D (one_less n R) P (upd_inode n (ref_count_update (\<lambda>_. ref_count nd - 1)) s)"
proof -
  have "held D (one_less n R) (P(n := P n)) (upd_inode n (ref_count_update (\<lambda>_. ref_count nd - 1)) s)"
    by (rule held_counts [OF assms(1,2), where r = "ref_count nd - 1"])
      (use heldD(4,5) [OF assms(1,2)] assms in \<open>auto simp: upd_inode_def\<close>)
  then show ?thesis by simp
qed

lemma held_remove:
  assumes "held D R P s" "vnodes_inv t" "inodes t = (inodes s)(n := None)" "R n \<le> 1" "P n = 0"
  shows "held D (one_less n R) P t"
  using assms by (auto simp: held_def split: if_splits)

lemma ref_dec_held:
  assumes "inode_ref_dec n s = Some (r, t)" "held D R P s" "P n < R n"
  shows "held D (one_less n R) P t \<and> frame s t"
proof -
  obtain nd where nd: "inodes s n = Some nd" "0 < ref_count nd" using assms(1) by (auto simp: inode_ref_dec_def bind_eq_Some_conv)
  note H = heldD(1) [OF assms(2)] heldD(4,5) [OF assms(2) nd(1)]
  show ?thesis
  proof (cases "ref_count nd = 1")
    case False
    then have "1 < ref_count nd" using nd(2) by simp
    then show ?thesis
      using ref_dec_many [OF nd(1)] held_less [OF assms(2) nd(1) _ assms(3)] assms(1)
      by (auto simp: frame_def fsems_def fun_eq_iff upd_inode_def)
  next
    case True
    then have p: "R n = 1" "P n = 0" "open_count nd = 0" using H(2,3) assms(3) by auto
    have rec: "\<exists>q. vop_reclaim n (upd_inode n (ref_count_update (\<lambda>_. 0)) s) = Some (q, t)"
      using assms(1) nd True by (auto simp: inode_ref_dec_def bind_eq_Some_conv Let_def)
    have "in_ops nd \<noteq> dev_node_ops" using rec nd(1) by (auto simp: vop_reclaim_def vop_op_def bind_eq_Some_conv upd_inode_def)
    then obtain sin f sfs where f: "in_info nd = sfs_inode_info sin" "in_fs nd = Some f" "fss s f = Some sfs"
      using node_sfs [OF H(1) nd(1)] by metis
    have "0 < fs_sem sfs"
      using rec nd(1) f by (auto simp: vop_reclaim_def sfs_reclaim_def bind_eq_Some_conv sfs_of_Some lock_fs_def lock_sfs_fs_def upd_inode_def split: if_splits)
    then obtain t' sfs' where t': "inode_ref_dec n s = Some (0, t')" "disk_good sfs'" "sfs_frame sfs sfs'" "inodes t' = (inodes s)(n := None)"
        "next_inode t' = next_inode s" "fss t' = (fss s)(f \<mapsto> sfs_remove_links n (sin_ino sin) sfs')" "vnodes.more t' = vnodes.more s"
      using ref_dec_last [OF H(1) nd(1) True p(3) f] by blast
    then have "t = t'" using assms(1) by simp
    moreover have "vnodes_inv t'" by (rule vnodes_inv_remove [OF H(1) nd(1) f(2,1,3) t'(2,3,4,5,6)])
    moreover have "frame s t'" using t' f(3) by (auto simp: frame_def fsems_def fun_eq_iff sfs_frame_def sfs_remove_links_def)
    ultimately show ?thesis using held_remove [OF assms(2) _ t'(4)] p by simp
  qed
qed

definition unlocked :: "'a vnodes_scheme \<Rightarrow> bool" where
  "unlocked s \<longleftrightarrow> (\<forall>f sfs. fss s f = Some sfs \<longrightarrow> 0 < fs_sem sfs)"

lemma unlocked_frame: "unlocked s \<Longrightarrow> frame s t \<Longrightarrow> unlocked t"
  unfolding unlocked_def frame_def fsems_def fun_eq_iff by (metis option.map_sel option.sel option.simps(9) map_option_eq_Some)

lemma ref_dec_total:
  assumes "held D R P s" "P n < R n" "n \<in> D \<Longrightarrow> 1 < R n" "unlocked s"
  shows "\<exists>r t. inode_ref_dec n s = Some (r, t)"
proof -
  obtain nd where nd: "inodes s n = Some nd" using heldD(3) [OF assms(1)] assms(2) by force
  note H = heldD(1) [OF assms(1)] heldD(4,5,6) [OF assms(1) nd]
  show ?thesis
  proof (cases "ref_count nd = 1")
    case False
    then show ?thesis using ref_dec_many [OF nd] H(3) assms(2) by simp
  next
    case True
    then have "in_ops nd \<noteq> dev_node_ops" "open_count nd = 0" using H assms(2,3) by auto
    then obtain sin f sfs where "in_info nd = sfs_inode_info sin" "in_fs nd = Some f" "fss s f = Some sfs"
      using node_sfs [OF H(1) nd] by metis
    moreover from this have "0 < fs_sem sfs" using assms(4) by (simp add: unlocked_def)
    ultimately show ?thesis using ref_dec_last [OF H(1) nd True \<open>open_count nd = 0\<close>] by blast
  qed
qed

text \<open>Closing: the check in front of \<open>vop_close\<close> needs the counts to be in range.\<close>

definition in_range :: "nat \<Rightarrow> 'a vnodes_scheme \<Rightarrow> bool" where
  "in_range n s \<longleftrightarrow> (\<forall>nd. inodes s n = Some nd \<longrightarrow> ref_count nd < MAX_INODE_COUNT)"

lemma vop_close_total:
  assumes "held D R P s" "inodes s n = Some nd" "ref_count nd < MAX_INODE_COUNT"
  shows "\<exists>r t. vop_close n s = Some (r, t)"
proof (cases "in_ops nd = dev_node_ops")
  case True
  then show ?thesis
    using node_dev [OF heldD(1) [OF assms(1)] assms(2)] heldD(2,4,5) [OF assms(1), of n] assms(2,3)
    by (fastforce simp: vop_close_def vop_op_def inode_check_def dev_of_def)
next
  case False
  note inv = heldD(1) [OF assms(1)]
  obtain sin f sfs where f: "in_info nd = sfs_inode_info sin" "in_fs nd = Some f" "fss s f = Some sfs"
      and ok: "sin_ok sfs n (in_ops nd) 1 sin" "disk_good sfs" "0 < io_sem sfs"
    by (rule node_sfs [OF inv assms(2) False])
  have "Vop_fsync \<in> set (vops (in_ops nd)) \<and> Vop_close \<in> set (vops (in_ops nd))"
    using sfs_ops [of "di_type (din sin)" "in_ops nd"] ok(1) by (auto simp: sin_ok_def)
  moreover have "inode_check nd"
    using heldD(2,4,5) [OF assms(1), of n] assms(2,3) by (fastforce simp: inode_check_def)
  moreover obtain sfs' where "sfs_fsync sfs sin = Some (0, sfs', sin\<lparr>sin_dirty := False\<rparr>)" using fsync_total [OF ok(2,3,1)] by blast
  ultimately show ?thesis
    using assms(2) False f by (simp add: vop_close_def vop_fsync_def vop_op_def on_sfs_def sfs_of_def)
qed

lemma open_dec_total:
  assumes "held D R P s" "0 < P n" "in_range n s"
  shows "\<exists>r t. inode_open_dec n s = Some (r, t)"
proof -
  obtain nd where nd: "inodes s n = Some nd" using heldD(2,3) [OF assms(1), of n] assms(2) by force
  let ?s = "upd_inode n (open_count_update (\<lambda>_. open_count nd - 1)) s"
  have "open_count nd = int (P n)" by (rule heldD(4) [OF assms(1) nd])
  moreover have "held D (R(n := R n)) (one_less n P) ?s"
    by (rule held_counts [OF assms(1) nd, where r = "ref_count nd"])
      (use heldD(2,5) [OF assms(1), of n] nd assms(2) calculation in \<open>auto simp: upd_inode_def\<close>)
  then have "\<exists>r t. vop_close n ?s = Some (r, t)"
    by (rule vop_close_total [where nd = "nd\<lparr>open_count := open_count nd - 1\<rparr>"])
      (use nd assms(3) in \<open>auto simp: upd_inode_def in_range_def\<close>)
  ultimately show ?thesis using nd assms(2) by (auto simp: inode_open_dec_def Let_def)
qed

lemma vfs_close_held:
  assumes "vfs_close n s = Some (r, t)" "held D R P s"
  shows "held D (one_less n R) (one_less n P) t \<and> frame s t"
proof -
  obtain q s1 q' where s1: "inode_open_dec n s = Some (q, s1)" "inode_ref_dec n s1 = Some (q', t)"
    using assms(1) by (auto simp: vfs_close_def bind_eq_Some_conv)
  have 1: "held D R (one_less n P) s1" "frame s s1" "0 < P n" using open_dec_held [OF s1(1) assms(2)] by auto
  then show ?thesis using ref_dec_held [OF s1(2) 1(1)] heldD(2) [OF assms(2), of n] frame_trans [of s s1 t] by simp
qed

lemma vfs_close_total:
  assumes "held D R P s" "0 < P n" "n \<in> D \<Longrightarrow> 1 < R n" "unlocked s" "in_range n s"
  shows "\<exists>t. vfs_close n s = Some (0, t)"
proof -
  obtain q s1 where s1: "inode_open_dec n s = Some (q, s1)" using open_dec_total [OF assms(1,2,5)] by blast
  have "held D R (one_less n P) s1" "frame s s1" using open_dec_held [OF s1 assms(1)] by auto
  then have "\<exists>r t. inode_ref_dec n s1 = Some (r, t)"
    using ref_dec_total [of D R "one_less n P" s1 n] heldD(2) [OF assms(1), of n] assms(2,3) unlocked_frame [OF assms(4)] by simp
  then show ?thesis using s1 by (auto simp: vfs_close_def)
qed

section \<open>Loading inodes\<close>

lemma lookup_loop_found: "lookup_loop ino ns s = Some (Some n) \<Longrightarrow> n \<in> set ns \<and> (\<exists>sin. sin_of n s = Some sin \<and> sin_ino sin = ino)"
  by (induction ns) (auto simp: bind_eq_Some_conv split: if_splits)

lemma lookup_loop_none: "lookup_loop ino ns s = Some None \<Longrightarrow> m \<in> set ns \<Longrightarrow> \<exists>sin. sin_of m s = Some sin \<and> sin_ino sin \<noteq> ino"
  by (induction ns) (auto simp: bind_eq_Some_conv split: if_splits)

lemma links_ok_cong:
  "inode_list sfs' = inode_list sfs \<Longrightarrow> sfs_buckets sfs' = sfs_buckets sfs \<Longrightarrow> links_ok nodes f sfs' = links_ok nodes f sfs"
  by (simp only: links_ok_def)

lemma fs_lock_inv:
  assumes "vnodes_inv s" "fss s f = Some sfs"
  shows "vnodes_inv (put_fs f (sfs\<lparr>fs_sem := v\<rparr>) s)"
proof -
  have "fs_ok s f sfs" by (rule vnodes_inv_fs [OF assms])
  then have "fs_ok (put_fs f (sfs\<lparr>fs_sem := v\<rparr>) s) f (sfs\<lparr>fs_sem := v\<rparr>)"
    using links_ok_cong [of "sfs\<lparr>fs_sem := v\<rparr>" sfs] by (simp add: fs_ok_def sfs_good_def sfs_on_def sfs_inv_def put_fs_def)
  moreover have "node_ok (put_fs f (sfs\<lparr>fs_sem := v\<rparr>) s) m md" if "inodes s m = Some md" for m md
    by (rule node_ok_frame [OF vnodes_inv_node [OF assms(1) that]]) (use assms(2) in \<open>auto simp: put_fs_def\<close>)
  ultimately show ?thesis using assms(1) by (auto simp: vnodes_inv_def put_fs_def fs_ok_def)
qed

lemma fs_lock_held:
  assumes "held D R P s" "fss s f = Some sfs"
  shows "held D R P (put_fs f (sfs\<lparr>fs_sem := v\<rparr>) s)"
  using assms fs_lock_inv [OF heldD(1) [OF assms(1)] assms(2), of v] by (simp add: held_def put_fs_def)

lemma held_add:
  assumes "held D R P s" "vnodes_inv t" "inodes t = (inodes s)(n \<mapsto> nd)" "inodes s n = None" "ref_count nd = 1" "open_count nd = 0"
    and "in_ops nd \<noteq> dev_node_ops"
  shows "held D (one_more n R) P t"
proof -
  have "R n = 0" using heldD(3) [OF assms(1), of n] assms(4) by auto
  moreover from this have "P n = 0" using heldD(2) [OF assms(1), of n] by simp
  ultimately show ?thesis using assms by (auto simp: held_def)
qed

text \<open>The inode of file system \<open>f\<close> with number \<open>ino\<close>.\<close>

definition is_inode :: "nat \<Rightarrow> u32 \<Rightarrow> nat \<Rightarrow> 'a vnodes_scheme \<Rightarrow> bool" where
  "is_inode f ino n s \<longleftrightarrow> (\<exists>nd sin. inodes s n = Some nd \<and> in_fs nd = Some f \<and> in_info nd = sfs_inode_info sin \<and> sin_ino sin = ino)"

lemma disk_inode_direct [simp]: "length (di_direct (disk_inode_of bs)) = 12"
  by (simp add: disk_inode_of_def)

lemma kmalloc_cases: "kmalloc_ok s = (ok, t) \<Longrightarrow> \<exists>a. t = s\<lparr>allocs := a\<rparr>"
  by (cases "allocs s") (auto simp: kmalloc_ok_def intro: exI [of _ "[]"])

abbreviation new_inode :: "nat \<Rightarrow> sfs_disk_inode \<Rightarrow> u32 \<Rightarrow> inode_ops \<Rightarrow> inode" where
  "new_inode f di ino ops \<equiv> \<lparr>in_info = sfs_inode_info \<lparr>din = di, sin_ino = ino, sin_dirty = False, reclaim_count = 1, sin_sem = 1\<rparr>,
     ref_count = 1, open_count = 0, in_fs = Some f, in_ops = ops\<rparr>"

lemma create_cases:
  assumes "sfs_create_inode f di ino s = Some (ret, n, t)"
  shows "(ret = - E_NO_MEM \<and> (\<exists>a. t = s\<lparr>allocs := a\<rparr>)) \<or>
    (ret = 0 \<and> n = next_inode s \<and> (\<exists>ops a. sfs_get_ops (di_type di) = Some ops \<and>
       t = s\<lparr>allocs := a, inodes := (inodes s)(n \<mapsto> new_inode f di ino ops), next_inode := Suc n\<rparr>))"
proof -
  obtain ok s1 where m: "kmalloc_ok s = (ok, s1)" by force
  obtain a where s1: "s1 = s\<lparr>allocs := a\<rparr>" using kmalloc_cases [OF m] by blast
  show ?thesis
  proof (cases ok)
    case False
    then show ?thesis using assms m s1 by (auto simp: sfs_create_inode_def alloc_inode_def)
  next
    case True
    then show ?thesis
      using assms m s1
      by (auto simp: sfs_create_inode_def alloc_inode_def bind_eq_Some_conv inode_init_def inode_ref_inc_def upd_inode_def Let_def
          intro!: exI [of _ a])
  qed
qed

lemma load_new_cases:
  assumes "load_new f ino s = Some (ret, n, t)" "fss s f = Some sfs"
  shows "(ret \<noteq> 0 \<and> (\<exists>a sfs'. t = put_fs f sfs' (s\<lparr>allocs := a\<rparr>) \<and> disk_pres sfs sfs')) \<or>
    (ret = 0 \<and> n = next_inode s \<and> (\<exists>a sfs' bs ops. sfs_rbuf sfs 64 ino 0 = Some (0, bs, sfs') \<and> di_nlinks (disk_inode_of bs) \<noteq> 0 \<and>
       sfs_get_ops (di_type (disk_inode_of bs)) = Some ops \<and> ino \<noteq> 0 \<and> ino < sb_blocks (super sfs) \<and>
       t = put_fs f (sfs_set_links n ino sfs')
         (s\<lparr>allocs := a, inodes := (inodes s)(n \<mapsto> new_inode f (disk_inode_of bs) ino ops), next_inode := Suc n\<rparr>)))"
proof -
  obtain ok s1 where m: "kmalloc_ok s = (ok, s1)" by force
  obtain a where s1: "s1 = s\<lparr>allocs := a\<rparr>" using kmalloc_cases [OF m] by blast
  have id: "put_fs f sfs (s\<lparr>allocs := a\<rparr>) = s\<lparr>allocs := a\<rparr>" for a using assms(2) by (simp add: put_fs_def fun_upd_idem)
  show ?thesis
  proof (cases ok)
    case False
    then have "ret = - E_NO_MEM" "t = put_fs f sfs (s\<lparr>allocs := a\<rparr>)" using assms m s1 id by (auto simp: load_new_def)
    moreover have "disk_pres sfs sfs" by (rule sfs_pres_refl)
    ultimately show ?thesis by (intro disjI1 conjI exI [of _ a] exI [of _ sfs]) (simp_all add: E_NO_MEM_def)
  next
    case True
    obtain r bs sfs' where r: "ino \<noteq> 0" "ino < sb_blocks (super sfs)" "sfs_rbuf sfs 64 ino 0 = Some (r, bs, sfs')"
      using assms m s1 True by (auto simp: load_new_def bind_eq_Some_conv sfs_block_inuse_def split: if_splits)
    have pres: "disk_pres sfs sfs'" by (rule d0.rbuf_pres [OF r(3)])
    let ?s = "put_fs f sfs' (s\<lparr>allocs := a\<rparr>)"
    show ?thesis
    proof (cases "r = 0")
      case False
      then have "ret = r" "t = ?s" using assms m s1 True r by (auto simp: load_new_def bind_eq_Some_conv split: if_splits)
      then show ?thesis using False pres by blast
    next
      case r0: True
      obtain q k t1 where c: "sfs_create_inode f (disk_inode_of bs) ino ?s = Some (q, k, t1)" "di_nlinks (disk_inode_of bs) \<noteq> 0"
          "(if q \<noteq> 0 then Some (q, 0, t1) else do { sfs \<leftarrow> fss t1 f; Some (0, k, put_fs f (sfs_set_links k ino sfs) t1) }) = Some (ret, n, t)"
        using assms m s1 True r r0 by (auto simp: load_new_def bind_eq_Some_conv Let_def)
      from create_cases [OF c(1)] show ?thesis
      proof (elim disjE exE conjE)
        fix a' assume "q = - E_NO_MEM" "t1 = ?s\<lparr>allocs := a'\<rparr>"
        then have "ret \<noteq> 0 \<and> t = put_fs f sfs' (s\<lparr>allocs := a'\<rparr>)" using c(3) by (auto simp: E_NO_MEM_def put_fs_def)
        then show ?thesis using pres by blast
      next
        fix ops a' assume q: "q = 0" "k = next_inode ?s" "sfs_get_ops (di_type (disk_inode_of bs)) = Some ops"
          and t1: "t1 = ?s\<lparr>allocs := a', inodes := (inodes ?s)(k \<mapsto> new_inode f (disk_inode_of bs) ino ops), next_inode := Suc k\<rparr>"
        then show ?thesis using c r r0 by (auto simp: put_fs_def intro!: disjI2 exI [of _ a'])
      qed
    qed
  qed
qed

lemma put_fs_held:
  assumes "held D R P s" "fss s f = Some sfs" "disk_pres sfs sfs'"
  shows "held D R P (put_fs f sfs' (s\<lparr>allocs := a\<rparr>)) \<and> frame s (put_fs f sfs' (s\<lparr>allocs := a\<rparr>))"
proof -
  note inv = heldD(1) [OF assms(1)]
  have fso: "fs_ok s f sfs" by (rule vnodes_inv_fs [OF inv assms(2)])
  then have g: "disk_good sfs'" "sfs_frame sfs sfs'" using assms(3) by (auto simp: sfs_pres_def fs_ok_def)
  have more: "inode_list sfs' = inode_list sfs" "sfs_buckets sfs' = sfs_buckets sfs"
    using g(2) by (cases sfs; cases sfs'; simp add: sfs_frame_def)+
  let ?t = "put_fs f sfs' (s\<lparr>allocs := a\<rparr>)"
  have "fs_ok ?t f sfs'" using fso g links_ok_cong [OF more] by (simp add: fs_ok_def put_fs_def sfs_frame_def)
  moreover have "node_ok ?t m md" if "inodes s m = Some md" for m md
    by (rule node_ok_frame [OF vnodes_inv_node [OF inv that]])
      (use assms(2) g(2) more in \<open>auto simp: put_fs_def sfs_frame_def\<close>)
  ultimately have "vnodes_inv ?t" using inv by (auto simp: vnodes_inv_def put_fs_def fs_ok_def)
  then show ?thesis using assms(1,2) g(2) by (auto simp: held_def put_fs_def frame_def fsems_def fun_eq_iff sfs_frame_def)
qed

lemma load_new_held:
  assumes "load_new f ino s = Some (ret, n, t)" "held D R P s" and f: "fss s f = Some sfs"
    and new: "\<And>m md si. m \<in> set (inode_list sfs) \<Longrightarrow> inodes s m = Some md \<Longrightarrow> in_info md = sfs_inode_info si \<Longrightarrow> sin_ino si \<noteq> ino"
  shows "held D (if ret = 0 then one_more n R else R) P t \<and> frame s t \<and> (ret = 0 \<longrightarrow> is_inode f ino n t)"
  using load_new_cases [OF assms(1) f]
proof (elim disjE exE conjE)
  fix a sfs' assume "ret \<noteq> 0" "t = put_fs f sfs' (s\<lparr>allocs := a\<rparr>)" "disk_pres sfs sfs'"
  then show ?thesis using put_fs_held [OF assms(2) f] by simp
next
  note inv = heldD(1) [OF assms(2)]
  fix a sfs' bs ops
  let ?di = "disk_inode_of bs"
  let ?nd = "new_inode f ?di ino ops"
  let ?sin = "\<lparr>din = ?di, sin_ino = ino, sin_dirty = False, reclaim_count = 1, sin_sem = 1\<rparr>"
  assume ret: "ret = 0" "n = next_inode s" and r: "sfs_rbuf sfs 64 ino 0 = Some (0, bs, sfs')" "di_nlinks ?di \<noteq> 0"
      "sfs_get_ops (di_type ?di) = Some ops" "ino \<noteq> 0" "ino < sb_blocks (super sfs)"
    and t: "t = put_fs f (sfs_set_links n ino sfs') (s\<lparr>allocs := a, inodes := (inodes s)(n \<mapsto> ?nd), next_inode := Suc n\<rparr>)"
  have g: "disk_good sfs'" "sfs_frame sfs sfs'"
    using d0.rbuf_pres [OF r(1)] vnodes_inv_fs [OF inv f] by (auto simp: sfs_pres_def fs_ok_def)
  have none: "inodes s n = None"
    using vnodes_inv_node [OF inv, of n] ret(2) by (cases "inodes s n") (auto simp: node_ok_def)
  have "vnodes_inv t"
    by (rule vnodes_inv_add [OF inv f, where n = n and nd = ?nd and sin = ?sin and sfs' = sfs'])
      (use t ret r g new in \<open>auto simp: put_fs_def\<close>)
  then have "held D (one_more n R) P t"
    by (rule held_add [OF assms(2), where nd = ?nd]) (use t none r(3) in \<open>auto simp: put_fs_def dest: sfs_ops\<close>)
  moreover have "frame s t" using t f g(2) by (auto simp: frame_def fsems_def fun_eq_iff put_fs_def sfs_set_links_def sfs_frame_def)
  moreover have "is_inode f ino n t" using t by (simp add: is_inode_def put_fs_def)
  ultimately show ?thesis using ret by simp
qed

text \<open>The inode found in the cache gets a reference and stays as it is; its reference count was not zero.\<close>

lemma lookup_held:
  assumes "lookup_sfs_nolock f ino s = Some (found, t)" "held D R P s" and f: "fss s f = Some sfs"
  shows "case found of
      None \<Rightarrow> t = s \<and> (\<forall>m \<in> set (inode_list sfs). \<forall>md si. inodes s m = Some md \<and> in_info md = sfs_inode_info si \<longrightarrow> sin_ino si \<noteq> ino)
    | Some n \<Rightarrow> held D (one_more n R) P t \<and> frame s t \<and> is_inode f ino n t"
proof -
  note inv = heldD(1) [OF assms(2)]
  have fso: "links_ok (inodes s) f sfs" using vnodes_inv_fs [OF inv f] by (simp add: fs_ok_def)
  obtain q where q: "lookup_loop ino (sfs_hash_list sfs ino) s = Some q"
    using assms(1) f by (auto simp: lookup_sfs_nolock_def bind_eq_Some_conv)
  show ?thesis
  proof (cases q)
    case None
    have "sin_ino si \<noteq> ino" if "m \<in> set (inode_list sfs)" "inodes s m = Some md" "in_info md = sfs_inode_info si" for m md si
    proof
      assume "sin_ino si = ino"
      moreover have "in_fs md = Some f" using links_okD(3) [OF fso that(1)] that(2) by auto
      ultimately have "m \<in> set (sfs_hash_list sfs ino)"
        using vnodes_inv_node [OF inv that(2)] that(3) f by (auto simp: node_ok_def sin_ok_def)
      then show False using lookup_loop_none q None that(2,3) \<open>sin_ino si = ino\<close> by (fastforce simp: sin_of_Some)
    qed
    then show ?thesis using assms(1) f q None by (auto simp: lookup_sfs_nolock_def)
  next
    case (Some n)
    obtain nd sin where nd: "n \<in> set (sfs_hash_list sfs ino)" "inodes s n = Some nd" "in_info nd = sfs_inode_info sin" "sin_ino sin = ino"
      using lookup_loop_found q Some by (fastforce simp: sin_of_Some)
    have "in_fs nd = Some f"
      using links_okD(3) [OF fso links_okD(4) [OF fso nd(1) [unfolded sfs_hash_list_def]]] nd(2) by auto
    moreover have "0 < ref_count nd" using vnodes_inv_node [OF inv nd(2)] by (simp add: node_ok_def)
    then have t: "found = Some n" "inode_ref_inc n s = Some (ref_count nd + 1, t)"
      using assms(1) f q Some nd by (auto simp: lookup_sfs_nolock_def inode_ref_inc_def bind_eq_Some_conv split: if_splits)
    moreover have "held D (one_more n R) P t \<and> frame s t" by (rule ref_inc_held [OF t(2) assms(2)])
    ultimately show ?thesis using nd by (auto simp: is_inode_def inode_ref_inc_def upd_inode_def)
  qed
qed

lemma load_held:
  assumes "sfs_load_inode f ino s = Some (ret, n, t)" "held D R P s"
  shows "held D (if ret = 0 then one_more n R else R) P t \<and> frame s t \<and> (ret = 0 \<longrightarrow> is_inode f ino n t)"
proof -
  obtain sfs where f: "fss s f = Some sfs" using assms(1) by (auto simp: sfs_load_inode_def lock_fs_def bind_eq_Some_conv)
  let ?s = "put_fs f (sfs\<lparr>fs_sem := fs_sem sfs - 1\<rparr>) s"
  have s: "held D R P ?s" by (rule fs_lock_held [OF assms(2) f])
  have lk: "lock_fs f s = Some ?s"
    using assms(1) f by (auto simp: sfs_load_inode_def lock_fs_def lock_sfs_fs_def bind_eq_Some_conv split: if_splits)
  obtain found s1 where l: "lookup_sfs_nolock f ino ?s = Some (found, s1)"
    using assms(1) lk by (auto simp: sfs_load_inode_def bind_eq_Some_conv)
  note L = lookup_held [OF l s]
  have "\<exists>s2. held D (if ret = 0 then one_more n R else R) P s2 \<and> frame ?s s2 \<and> (ret = 0 \<longrightarrow> is_inode f ino n s2) \<and> unlock_fs f s2 = Some t"
  proof (cases found)
    case (Some m)
    then show ?thesis using assms(1) lk l L f by (auto simp: sfs_load_inode_def bind_eq_Some_conv put_fs_def)
  next
    case None
    then obtain s2 where s2: "load_new f ino ?s = Some (ret, n, s2)" "unlock_fs f s2 = Some t"
      using assms(1) lk l L f by (auto simp: sfs_load_inode_def bind_eq_Some_conv put_fs_def)
    have "held D (if ret = 0 then one_more n R else R) P s2 \<and> frame ?s s2 \<and> (ret = 0 \<longrightarrow> is_inode f ino n s2)"
      by (rule load_new_held [OF s2(1) s]) (use L f None in \<open>fastforce simp: put_fs_def\<close>)+
    then show ?thesis using s2(2) by blast
  qed
  then obtain s2 where s2: "held D (if ret = 0 then one_more n R else R) P s2" "frame ?s s2" "ret = 0 \<longrightarrow> is_inode f ino n s2"
      "unlock_fs f s2 = Some t" by blast
  obtain sfs2 where f2: "fss s2 f = Some sfs2" "t = put_fs f (sfs2\<lparr>fs_sem := fs_sem sfs2 + 1\<rparr>) s2"
    using s2(4) by (auto simp: unlock_fs_def unlock_sfs_fs_def bind_eq_Some_conv)
  have "fsems s2 f = fsems ?s f" using s2(2) by (simp add: frame_def)
  then have "fs_sem sfs2 + 1 = fs_sem sfs" using f2(1) by (simp add: fsems_def put_fs_def)
  then have "frame s t"
    using s2(2) f2 f by (auto simp: frame_def fsems_def fun_eq_iff put_fs_def split: if_splits)
  then show ?thesis
    using fs_lock_held [OF s2(1) f2(1)] f2(2) s2(3) by (auto simp: is_inode_def put_fs_def)
qed

section \<open>Looking up names\<close>

lemma one_less_more [simp]: "one_less n (one_more n R) = R" "one_less n (one_more m (one_more n R)) = one_more m R"
  by auto

lemma lookup_once_held:
  assumes "sfs_lookup_once n name s = Some (ret, m, t)" "held D R P s"
  shows "held D (if ret = 0 then one_more m R else R) P t \<and> frame s t"
proof -
  obtain f sfs sin where of: "sfs_of n s = Some (f, sfs, sin)" using assms(1) by (auto simp: sfs_lookup_once_def bind_eq_Some_conv)
  then obtain nd where nd: "inodes s n = Some nd" "in_fs nd = Some f" "fss s f = Some sfs" "in_info nd = sfs_inode_info sin"
    by (auto simp: sfs_of_Some)
  obtain ok s1 where m: "kmalloc_ok s = (ok, s1)" by force
  have s1: "vnodes_inv s1" "keeps s s1" "inodes s1 = inodes s" "fss s1 = fss s"
    using kmalloc_inv [OF m heldD(1) [OF assms(2)]] by auto
  obtain sin1 r ino sl es sfs' sin' where r: "lock_sin sin = Some sin1"
      "sfs_dirent_search_nolock sfs sin1 name ok = Some (r, ino, sl, es, sfs', sin')"
      "(if r = 0 then sfs_load_inode f ino (put_sin n (unlock_sin sin') (put_fs f sfs' s1))
        else Some (r, 0, put_sin n (unlock_sin sin') (put_fs f sfs' s1))) = Some (ret, m, t)"
    using assms(1) of m by (auto simp: sfs_lookup_once_def bind_eq_Some_conv Let_def)
  have p: "disk_pres sfs sfs'" "sin_same sin (unlock_sin sin')"
    using d0.search_pres [OF r(2)] d0.sin_same_unlock [OF r(1)] by auto
  let ?s = "put_sin n (unlock_sin sin') (put_fs f sfs' s1)"
  have g: "disk_good sfs'" "sfs_frame sfs sfs'"
    using p(1) vnodes_inv_fs [OF heldD(1) [OF assms(2)] nd(3)] by (auto simp: sfs_pres_def fs_ok_def)
  have "vnodes_inv ?s" by (rule vnodes_inv_put [OF s1(1), of n nd f sfs sin]) (use nd s1 g p in auto)
  moreover have "keeps s1 ?s"
    using nd s1 g(2) by (auto simp: keeps_def frame_def fsems_def cores_def fun_eq_iff put_sin_def put_fs_def upd_inode_def ncore_def sfs_frame_def)
  ultimately have s: "held D R P ?s" "frame s ?s"
    using held_keeps [OF assms(2)] keeps_trans [OF s1(2)] by (auto simp: keeps_def)
  show ?thesis
  proof (cases "r = 0")
    case True
    then show ?thesis using load_held [OF _ s(1), of f ino ret m t] r(3) frame_trans [OF s(2), of t] by auto
  next
    case False
    then show ?thesis using r(3) s by auto
  qed
qed

lemma sfs_lookup_held:
  assumes "sfs_lookup n path s = Some (ret, m, t)" "held D R P s"
  shows "held D (if ret = 0 then one_more m R else R) P t \<and> frame s t"
proof -
  obtain f sfs sin q s1 where s1: "sfs_of n s = Some (f, sfs, sin)" "inode_ref_inc n s = Some (q, s1)"
    using assms(1) by (auto simp: sfs_lookup_def bind_eq_Some_conv)
  have h1: "held D (one_more n R) P s1" "frame s s1" using ref_inc_held [OF s1(2) assms(2)] by auto
  have p: "P n < one_more n R n" using heldD(2) [OF assms(2), of n] by simp
  show ?thesis
  proof (cases "di_type (din sin) = SFS_TYPE_DIR")
    case False
    then obtain q' where d: "inode_ref_dec n s1 = Some (q', t)" "ret = - E_NOTDIR"
      using assms(1) s1 by (auto simp: sfs_lookup_def bind_eq_Some_conv)
    then show ?thesis
      using ref_dec_held [OF d(1) h1(1) p, unfolded one_less_more] frame_trans [OF h1(2), of t] by (simp add: E_NOTDIR_def)
  next
    case True
    then obtain r sub s2 q' where d: "sfs_lookup_once n path s1 = Some (r, sub, s2)" "inode_ref_dec n s2 = Some (q', t)"
        "ret = r" "r = 0 \<Longrightarrow> m = sub"
      using assms(1) s1 by (auto simp: sfs_lookup_def bind_eq_Some_conv split: if_splits)
    have h2: "held D (if r = 0 then one_more sub (one_more n R) else one_more n R) P s2" "frame s1 s2"
      using lookup_once_held [OF d(1) h1(1)] by auto
    have p': "P n < one_more sub (one_more n R) n" using p by auto
    have "held D (if r = 0 then one_more sub R else R) P t \<and> frame s2 t"
    proof (cases "r = 0")
      case True
      then have h: "held D (one_more sub (one_more n R)) P s2" using h2(1) by simp
      show ?thesis using ref_dec_held [OF d(2) h p', unfolded one_less_more] True by simp
    next
      case False
      then have h: "held D (one_more n R) P s2" using h2(1) by simp
      show ?thesis using ref_dec_held [OF d(2) h p, unfolded one_less_more] False by simp
    qed
    then show ?thesis using frame_trans [OF frame_trans [OF h1(2) h2(2)]] d(3,4) by auto
  qed
qed

lemma vop_lookup_held:
  assumes "vop_lookup n path s = Some (ret, m, t)" "held D R P s"
  shows "held D (if ret = 0 then one_more m R else R) P t \<and> frame s t"
proof -
  consider "sfs_lookup n path s = Some (ret, m, t)" | "dev_lookup n path s = Some (ret, m, t)"
    using assms(1) by (auto simp: vop_lookup_def bind_eq_Some_conv split: if_splits)
  then show ?thesis
  proof cases
    case 1
    then show ?thesis by (rule sfs_lookup_held [OF _ assms(2)])
  next
    case 2
    then show ?thesis
      using assms(2) ref_inc_held [of n s _ t D R P] by (auto simp: dev_lookup_def E_NOENT_def bind_eq_Some_conv split: if_splits)
  qed
qed

section \<open>Clients of the inode store\<close>

text \<open>What callers that hold references may do: use the content of an inode, take, open, close and drop references,
  load inodes by number and look up names. The state carries the references and opens they hold.\<close>

inductive inode_step :: "(nat \<Rightarrow> nat) \<times> (nat \<Rightarrow> nat) \<times> 'a vnodes_scheme \<Rightarrow> (nat \<Rightarrow> nat) \<times> (nat \<Rightarrow> nat) \<times> 'a vnodes_scheme \<Rightarrow> bool" where
  read_n: "vop_read n iob s = Some (r, t) \<Longrightarrow> iob_ok iob \<Longrightarrow> inode_step (R, P, s) (R, P, t)"
| write_n: "vop_write n iob s = Some (r, t) \<Longrightarrow> iob_ok iob \<Longrightarrow> inode_step (R, P, s) (R, P, t)"
| truncate: "vop_truncate n len s = Some (ret, t) \<Longrightarrow> inode_step (R, P, s) (R, P, t)"
| tryseek: "vop_tryseek n pos s = Some (ret, t) \<Longrightarrow> inode_step (R, P, s) (R, P, t)"
| fsync: "vop_fsync n s = Some (ret, t) \<Longrightarrow> inode_step (R, P, s) (R, P, t)"
| getdirentry: "vop_getdirentry n iob s = Some (r, t) \<Longrightarrow> inode_step (R, P, s) (R, P, t)"
| ref_inc: "inode_ref_inc n s = Some (q, t) \<Longrightarrow> inode_step (R, P, s) (one_more n R, P, t)"
| ref_dec: "inode_ref_dec n s = Some (q, t) \<Longrightarrow> P n < R n \<Longrightarrow> inode_step (R, P, s) (one_less n R, P, t)"
| open_n: "vop_open n fl s = Some (0, s1) \<Longrightarrow> inode_open_inc n s1 = Some (q, t) \<Longrightarrow> P n < R n \<Longrightarrow>
    inode_step (R, P, s) (R, one_more n P, t)"
| close_n: "vfs_close n s = Some (q, t) \<Longrightarrow> 0 < P n \<Longrightarrow> inode_step (R, P, s) (one_less n R, one_less n P, t)"
| load_n: "sfs_load_inode f ino s = Some (ret, n, t) \<Longrightarrow> inode_step (R, P, s) (if ret = 0 then one_more n R else R, P, t)"
| lookup_n: "vop_lookup n path s = Some (ret, m, t) \<Longrightarrow> inode_step (R, P, s) (if ret = 0 then one_more m R else R, P, t)"

lemma inode_step_held: "inode_step x y \<Longrightarrow> held D (fst x) (fst (snd x)) (snd (snd x)) \<Longrightarrow> held D (fst y) (fst (snd y)) (snd (snd y))"
proof (induction rule: inode_step.induct)
  case (open_n n fl s s1 q t P R)
  then show ?case unfolding fst_conv snd_conv using open_inc_held [OF open_n(2), of D R P] vop_open_inv [OF open_n(1)] by blast
next
  case (ref_inc n s q t R P)
  then show ?case unfolding fst_conv snd_conv using ref_inc_held [OF ref_inc(1), of D R P] by blast
next
  case (ref_dec n s q t P R)
  then show ?case unfolding fst_conv snd_conv using ref_dec_held [OF ref_dec(1), of D R P] by blast
next
  case (close_n n s q t P R)
  then show ?case unfolding fst_conv snd_conv using vfs_close_held [OF close_n(1), of D R P] by blast
next
  case (load_n f ino s ret n t R P)
  then show ?case unfolding fst_conv snd_conv using load_held [OF load_n(1), of D R P] by blast
next
  case (lookup_n n path s ret m t R P)
  then show ?case unfolding fst_conv snd_conv using vop_lookup_held [OF lookup_n(1), of D R P] by blast
qed (auto intro: held_keeps dest: heldD(1) vop_read_inv vop_write_inv vop_truncate_inv vop_tryseek_inv vop_fsync_inv vop_getdirentry_inv)

lemma inode_unique:
  assumes "vnodes_inv s" "is_inode f ino n s" "is_inode f ino m s"
  shows "n = m"
proof -
  have mem: "\<exists>nd sin sfs. inodes s k = Some nd \<and> in_info nd = sfs_inode_info sin \<and> sin_ino sin = ino \<and> fss s f = Some sfs \<and> k \<in> set (inode_list sfs)"
    if "is_inode f ino k s" for k
    using that vnodes_inv_node [OF assms(1)] by (fastforce simp: is_inode_def node_ok_def sin_ok_def)
  then show ?thesis
    using mem [OF assms(2)] mem [OF assms(3)] vnodes_inv_fs [OF assms(1)] links_okD(6) unfolding fs_ok_def by (metis option.inject)
qed

lemma vop_op_exact:
  assumes "held D R P s" "inodes s n = Some nd"
  shows "vop_op vp n s = Some nd \<longleftrightarrow> vp \<in> set (vops (in_ops nd)) \<and> ref_count nd < MAX_INODE_COUNT"
  using heldD(2,4,5) [OF assms(1), of n] assms(2) by (fastforce simp: vop_op_def inode_check_def bind_eq_Some_conv)

text \<open>C7: the inode store stays well typed under every sequence of operations by clients that only give back references they hold:
  every inode has the kind of information its operation table expects, the table fits the type of the file, the check in
  front of an operation fails exactly when the table lacks the operation or the inode has 65536 references, and no two inodes stand for
  the same file.\<close>

theorem inode_store_typed:
  assumes "inode_step\<^sup>*\<^sup>* (R, P, s) (R', P', t)" "held D R P s"
  shows "held D R' P' t \<and>
    (\<forall>n nd. inodes t n = Some nd \<longrightarrow>
       (\<forall>vp. vop_op vp n t = Some nd \<longleftrightarrow> vp \<in> set (vops (in_ops nd)) \<and> ref_count nd < MAX_INODE_COUNT) \<and>
       (in_ops nd = dev_node_ops \<longrightarrow> dev_of n t \<noteq> None) \<and>
       (in_ops nd \<noteq> dev_node_ops \<longrightarrow> (\<exists>f sfs sin. sfs_of n t = Some (f, sfs, sin) \<and> sfs_get_ops (di_type (din sin)) = Some (in_ops nd)))) \<and>
    (\<forall>f ino n m. is_inode f ino n t \<longrightarrow> is_inode f ino m t \<longrightarrow> n = m)"
proof -
  have h: "held D R' P' t"
    using assms by (induction "(R', P', t)" arbitrary: R' P' t rule: rtranclp_induct) (auto dest: inode_step_held)
  note inv = heldD(1) [OF h]
  show ?thesis
  proof (intro conjI allI impI)
    fix n nd vp assume "inodes t n = Some nd"
    then show "vop_op vp n t = Some nd \<longleftrightarrow> vp \<in> set (vops (in_ops nd)) \<and> ref_count nd < MAX_INODE_COUNT" by (rule vop_op_exact [OF h])
  next
    fix n nd assume nd: "inodes t n = Some nd" "in_ops nd = dev_node_ops"
    obtain dev where "in_info nd = device_info dev" by (rule node_dev [OF inv nd])
    then show "dev_of n t \<noteq> None" using nd(1) by (simp add: dev_of_def)
  next
    fix n nd assume nd: "inodes t n = Some nd" "in_ops nd \<noteq> dev_node_ops"
    obtain sin f sfs where "in_info nd = sfs_inode_info sin" "in_fs nd = Some f" "fss t f = Some sfs" "sin_ok sfs n (in_ops nd) 1 sin"
      by (rule node_sfs [OF inv nd])
    then show "\<exists>f sfs sin. sfs_of n t = Some (f, sfs, sin) \<and> sfs_get_ops (di_type (din sin)) = Some (in_ops nd)"
      using nd(1) by (auto simp: sfs_of_Some sin_ok_def)
  qed (use h inode_unique [OF inv] in blast)+
qed

text \<open>A store with the console input; a second reference to it is taken and opened.\<close>

definition console_node :: "int \<Rightarrow> int \<Rightarrow> inode" where
  "console_node r c = \<lparr>in_info = device_info (stdin_dev []), ref_count = r, open_count = c, in_fs = None, in_ops = dev_node_ops\<rparr>"

definition console_store :: "int \<Rightarrow> int \<Rightarrow> vnodes" where
  "console_store r c = \<lparr>inodes = [0 \<mapsto> console_node r c], next_inode = 1, fss = Map.empty, allocs = []\<rparr>"

theorem inode_store_typed_witness:
  "inode_step\<^sup>*\<^sup>* ((\<lambda>_. 0)(0 := 1), \<lambda>_. 0, console_store 1 0) (one_more 0 ((\<lambda>_. 0)(0 := 1)), one_more 0 (\<lambda>_. 0), console_store 2 1) \<and>
   vop_op Vop_read 0 (console_store 2 1) = Some (console_node 2 1) \<and> vop_op Vop_fsync 0 (console_store 2 1) \<noteq> Some (console_node 2 1)"
proof -
  let ?R = "(\<lambda>_. 0)(0 := 1) :: nat \<Rightarrow> nat"
  have "inode_ref_inc 0 (console_store 1 0) = Some (2, console_store 2 0)"
    by (simp add: inode_ref_inc_def console_store_def console_node_def upd_inode_def)
  then have "inode_step (?R, \<lambda>_. 0, console_store 1 0) (one_more 0 ?R, \<lambda>_. 0, console_store 2 0)" by (rule inode_step.ref_inc)
  moreover have "vop_open 0 0 (console_store 2 0) = Some (0, console_store 2 0)" "inode_open_inc 0 (console_store 2 0) = Some (1, console_store 2 1)"
    by (simp_all add: vop_open_def vop_op_def inode_check_def MAX_INODE_COUNT_def dev_of_def dev_open_def dop_open_def stdin_dev_def stdin_open_def
        inode_open_inc_def console_store_def console_node_def upd_inode_def)
  then have "inode_step (one_more 0 ?R, \<lambda>_. 0, console_store 2 0) (one_more 0 ?R, one_more 0 (\<lambda>_. 0), console_store 2 1)"
    by (rule inode_step.open_n) simp
  ultimately have r: "inode_step\<^sup>*\<^sup>* (?R, \<lambda>_. 0, console_store 1 0) (one_more 0 ?R, one_more 0 (\<lambda>_. 0), console_store 2 1)"
    by (meson converse_rtranclp_into_rtranclp rtranclp.rtrancl_refl)
  have "held {0} ?R (\<lambda>_. 0) (console_store 1 0)"
    by (auto simp: held_def vnodes_inv_def node_ok_def console_store_def console_node_def split: if_splits)
  note typed = inode_store_typed [OF r this]
  have nd: "inodes (console_store 2 1) 0 = Some (console_node 2 1)" by (simp add: console_store_def)
  have "vop_op vp 0 (console_store 2 1) = Some (console_node 2 1) \<longleftrightarrow>
      vp \<in> set (vops (in_ops (console_node 2 1))) \<and> ref_count (console_node 2 1) < MAX_INODE_COUNT" for vp
    using typed nd by blast
  then show ?thesis using r by (simp add: console_node_def MAX_INODE_COUNT_def)
qed

end
