(* ===== verification/Vfs_Held.thy ===== *)
theory Vfs_Held
  imports Vfs_Count Vfs
begin

text \<open>
  References in the layer above inodes: looking up a path and opening a file hand the caller exactly the references
  they should, and restore the locks they take. A failing exclusive open keeps a reference that nobody
  releases, so the counts of the inodes are bounded from below only.
\<close>

lemma held_cong: "inodes t = inodes s \<Longrightarrow> next_inode t = next_inode s \<Longrightarrow> fss t = fss s \<Longrightarrow> held D R P t \<longleftrightarrow> held D R P s"
  by (simp add: held_def vnodes_inv_def node_ok_def fs_ok_def cong: in_info.case_cong)

lemma get_root_held:
  assumes "sfs_get_root f s = Some (n, t)" "held D R P s"
  shows "held D (one_more n R) P t \<and> frame s t"
  using assms load_held [of f _ s 0 n t D R P] by (auto simp: sfs_get_root_def bind_eq_Some_conv split: if_splits)

lemma get_curdir_held:
  assumes "vfs_get_curdir s = Some (ret, n, t)" "held D R P s"
  shows "held D (if ret = 0 then one_more n R else R) P t \<and> frame s t"
  using assms ref_inc_held [of n s _ t D R P]
  by (auto simp: vfs_get_curdir_def bind_eq_Some_conv E_NOENT_def split: option.splits)

lemma get_bootfs_held:
  assumes "vfs_get_bootfs s = Some (ret, n, t)" "held D R P s"
  shows "held D (if ret = 0 then one_more n R else R) P t \<and> frame s t"
proof (cases "bootfs_node s")
  case (Some m)
  let ?s = "s\<lparr>bootfs_sem := bootfs_sem s - 1\<rparr>"
  obtain q s1 where s1: "inode_ref_inc m ?s = Some (q, s1)" "ret = 0" "n = m" "t = unlock_bootfs s1"
    using assms(1) Some by (auto simp: vfs_get_bootfs_def lock_bootfs_def bind_eq_Some_conv split: if_splits)
  have "held D R P ?s" using assms(2) held_cong [of ?s s] by simp
  then have h: "held D (one_more m R) P s1" "frame ?s s1" using ref_inc_held [OF s1(1)] by auto
  have "held D (one_more m R) P t" using h(1) held_cong [of t s1] s1(4) by (simp add: unlock_bootfs_def)
  moreover have "frame s t"
    using h(2) s1(4) by (cases s; cases s1; simp add: frame_def fsems_def fun_eq_iff unlock_bootfs_def vfs.defs)
  ultimately show ?thesis using s1 by simp
qed (use assms in \<open>auto simp: vfs_get_bootfs_def E_NOENT_def\<close>)

lemma vfs_get_root_held:
  assumes "vfs_get_root name s = Some (ret, n, t)" "held D R P s"
  shows "held D (if ret = 0 then one_more n R else R) P t \<and> frame s t"
proof (cases "vdev_list s = []")
  case False
  let ?s = "s\<lparr>vdev_list_sem := vdev_list_sem s - 1\<rparr>"
  obtain s1 where s1: "(case find (\<lambda>d. cstr name = devname d) (vdev_list s) of
           None \<Rightarrow> Some (- E_NO_DEV, 0, ?s)
         | Some d \<Rightarrow>
             (case vdev_fs d of
                Some f \<Rightarrow> do { (n, s) \<leftarrow> sfs_get_root f ?s; Some (0, n, s) }
              | None \<Rightarrow>
                  if \<not> mountable d then do {
                    n \<leftarrow> devnode d;
                    (_, s) \<leftarrow> inode_ref_inc n ?s;
                    Some (0, n, s)
                  } else Some (- E_NA_DEV, 0, ?s))) = Some (ret, n, s1)" "t = unlock_vdev_list s1"
    using assms(1) False by (auto simp: vfs_get_root_def lock_vdev_list_def bind_eq_Some_conv split: if_splits)
  have s: "held D R P ?s" using assms(2) held_cong [of ?s s] by simp
  have h: "held D (if ret = 0 then one_more n R else R) P s1 \<and> frame ?s s1"
    using s1(1) s get_root_held [OF _ s] ref_inc_held [OF _ s]
    by (auto simp: bind_eq_Some_conv E_NO_DEV_def E_NA_DEV_def split: option.splits if_splits)
  have "held D (if ret = 0 then one_more n R else R) P t" using h held_cong [of t s1] s1(2) by (simp add: unlock_vdev_list_def)
  moreover have "frame s t"
    using h s1(2) by (cases s; cases s1; simp add: frame_def fsems_def fun_eq_iff unlock_vdev_list_def vfs.defs)
  ultimately show ?thesis by simp
qed (use assms in \<open>auto simp: vfs_get_root_def E_NO_DEV_def\<close>)

text \<open>Dropping a temporary reference to \<open>n\<close>, with or without a reference to \<open>m\<close> obtained in between.\<close>

lemma drop_temp:
  assumes "inode_ref_dec n s = Some (q, t)" "held D (one_more n R) P s" "\<And>k. P k \<le> R k"
  shows "held D R P t \<and> frame s t"
proof -
  have "P n < one_more n R n" using assms(3) [of n] by simp
  then show ?thesis using ref_dec_held [OF assms(1,2)] unfolding one_less_more by blast
qed

lemma drop_temp2:
  assumes "inode_ref_dec n s = Some (q, t)" "held D (one_more m (one_more n R)) P s" "\<And>k. P k \<le> R k"
  shows "held D (one_more m R) P t \<and> frame s t"
proof -
  have "P n < one_more m (one_more n R) n" using assms(3) [of n] by auto
  then show ?thesis using ref_dec_held [OF assms(1,2)] unfolding one_less_more by blast
qed

lemma get_device_held:
  assumes "get_device path s = Some (ret, path', sub, n, t)" "held D R P s"
  shows "held D (if ret = 0 then one_more n R else R) P t \<and> frame s t"
proof -
  consider (cur) "vfs_get_curdir s = Some (ret, n, t)" | (dev) name where "vfs_get_root name s = Some (ret, n, t)"
    | (boot) r m where "vfs_get_bootfs s = Some (r, m, t)" "ret = r" "r = 0 \<Longrightarrow> n = m"
    | (nocur) m where "vfs_get_curdir s = Some (ret, m, t)" "ret \<noteq> 0"
    | (root) m s1 f s2 q where "vfs_get_curdir s = Some (0, m, s1)" "sfs_get_root f s1 = Some (n, s2)" "inode_ref_dec m s2 = Some (q, t)" "ret = 0"
    using assms(1) by (auto simp: get_device_def Let_def bind_eq_Some_conv split: if_splits)
  then show ?thesis
  proof cases
    case cur
    then show ?thesis by (rule get_curdir_held [OF _ assms(2)])
  next
    case dev
    then show ?thesis by (rule vfs_get_root_held [OF _ assms(2)])
  next
    case boot
    then show ?thesis using get_bootfs_held [OF boot(1) assms(2)] by auto
  next
    case nocur
    then show ?thesis using get_curdir_held [OF nocur(1) assms(2)] by auto
  next
    case root
    have 1: "held D (one_more m R) P s1" "frame s s1" using get_curdir_held [OF root(1) assms(2)] by auto
    have 2: "held D (one_more n (one_more m R)) P s2" "frame s1 s2" using get_root_held [OF root(2) 1(1)] by auto
    have "held D (one_more n R) P t" "frame s2 t" using drop_temp2 [OF root(3) 2(1) heldD(2) [OF assms(2)]] by auto
    then show ?thesis using frame_trans [OF frame_trans [OF 1(2) 2(2)]] root(4) by simp
  qed
qed

lemma vfs_lookup_held:
  assumes "vfs_lookup path s = Some (ret, path', m, t)" "held D R P s"
  shows "held D (if ret = 0 then one_more m R else R) P t \<and> frame s t"
proof -
  obtain r path1 sub n s1 where s1: "get_device path s = Some (r, path1, sub, n, s1)"
    using assms(1) by (auto simp: vfs_lookup_def bind_eq_Some_conv)
  have 1: "held D (if r = 0 then one_more n R else R) P s1" "frame s s1" using get_device_held [OF s1 assms(2)] by auto
  consider (fail) "r \<noteq> 0" "ret = r" "t = s1" | (dev) "r = 0" "ret = 0" "m = n" "t = s1"
    | (sub) s2 q where "r = 0" "vop_lookup n (drop sub path1) s1 = Some (ret, m, s2)" "inode_ref_dec n s2 = Some (q, t)"
    using assms(1) s1 by (auto simp: vfs_lookup_def bind_eq_Some_conv split: if_splits)
  then show ?thesis
  proof cases
    case sub
    have 0: "held D (one_more n R) P s1" using 1 sub by simp
    have 2: "held D (if ret = 0 then one_more m (one_more n R) else one_more n R) P s2" "frame s1 s2"
      using vop_lookup_held [OF sub(2) 0] by auto
    have "held D (if ret = 0 then one_more m R else R) P t \<and> frame s2 t"
    proof (cases "ret = 0")
      case True
      then have h: "held D (one_more m (one_more n R)) P s2" using 2 by simp
      show ?thesis using drop_temp2 [OF sub(3) h heldD(2) [OF assms(2)]] True by simp
    next
      case False
      then have h: "held D (one_more n R) P s2" using 2 by simp
      show ?thesis using drop_temp [OF sub(3) h heldD(2) [OF assms(2)]] False by simp
    qed
    then show ?thesis using frame_trans [OF frame_trans [OF 1(2) 2(2)]] by blast
  qed (use 1 in auto)
qed

lemma vop_create_None [simp]: "vop_create n s = None"
proof -
  have "Vop_create \<notin> set (vops ops)" for ops by (cases ops) auto
  then show ?thesis by (simp add: vop_create_def vop_op_def bind_eq_None_conv)
qed

lemma open_found_held:
  assumes t: "open_found n path fl trunc s = Some (ret, path', m, t)"
    and s: "held D (one_more n R) P s" "\<And>k. P k \<le> R k"
  shows "(if ret = 0 then held D (one_more m R) (one_more m P) t else held D R P t) \<and> frame s t"
proof -
  have lt: "P n < one_more n R n" using s(2) [of n] by simp
  obtain r0 where r0: "vop_open n fl s = Some (r0, s)" using t vop_open_inv [of n fl s] by (auto simp: open_found_def bind_eq_Some_conv)
  show ?thesis
  proof (cases "r0 = 0")
    case False
    then obtain q where "inode_ref_dec n s = Some (q, t)" "ret \<noteq> 0" using t r0 by (auto simp: open_found_def bind_eq_Some_conv)
    then show ?thesis using drop_temp [OF _ s] by auto
  next
    case True
    then obtain q s1 where s1: "inode_open_inc n s = Some (q, s1)" using t r0 by (auto simp: open_found_def bind_eq_Some_conv)
    then have 1: "held D (one_more n R) (one_more n P) s1" "frame s s1" using open_inc_held [OF s1 s(1)] lt by blast+
    show ?thesis
    proof (cases trunc)
      case False
      then have "ret = 0" "m = n" "t = s1" using t r0 \<open>r0 = 0\<close> s1 by (auto simp: open_found_def)
      then show ?thesis using 1 by simp
    next
      case tr: True
      then obtain r2 s2 where s2: "vop_truncate n 0 s1 = Some (r2, s2)"
        using t r0 \<open>r0 = 0\<close> s1 by (auto simp: open_found_def bind_eq_Some_conv)
      have "vnodes_inv s2" "keeps s1 s2" using vop_truncate_inv [OF s2 heldD(1) [OF 1(1)]] by auto
      then have 2: "held D (one_more n R) (one_more n P) s2" "frame s s2"
        using held_keeps [OF 1(1)] frame_trans [OF 1(2)] by (auto simp: keeps_def)
      show ?thesis
      proof (cases "r2 = 0")
        case True
        then have "ret = 0" "m = n" "t = s2" using t r0 \<open>r0 = 0\<close> s1 s2 tr by (auto simp: open_found_def)
        then show ?thesis using 2 by simp
      next
        case False
        then obtain q2 s3 q3 where s3: "inode_open_dec n s2 = Some (q2, s3)" "inode_ref_dec n s3 = Some (q3, t)" "ret \<noteq> 0"
          using t r0 \<open>r0 = 0\<close> s1 s2 tr by (auto simp: open_found_def bind_eq_Some_conv)
        have 3: "held D (one_more n R) P s3" "frame s2 s3" using open_dec_held [OF s3(1) 2(1), unfolded one_less_more] by auto
        then show ?thesis using drop_temp [OF s3(2) 3(1) s(2)] frame_trans [OF frame_trans [OF 2(2) 3(2)]] s3(3) by simp
      qed
    qed
  qed
qed

text \<open>The inode whose reference \<open>vfs_open\<close> does not give back: exclusive creation of a file that exists.\<close>

definition vfs_leak :: "u8 list \<Rightarrow> u32 \<Rightarrow> vfs \<Rightarrow> nat option" where
  "vfs_leak path open_flags s =
     (let acc = open_flags AND O_ACCMODE in
      if (acc = O_RDONLY \<or> acc = O_WRONLY \<or> acc = O_RDWR) \<and> \<not> (open_flags AND O_TRUNC \<noteq> 0 \<and> acc = O_RDONLY) \<and>
         open_flags AND O_EXCL \<noteq> 0 \<and> open_flags AND O_CREAT \<noteq> 0
      then (case vfs_lookup path s of Some (ret, _, n, _) \<Rightarrow> if ret = 0 then Some n else None | None \<Rightarrow> None)
      else None)"

abbreviation with_leak :: "nat option \<Rightarrow> (nat \<Rightarrow> nat) \<Rightarrow> nat \<Rightarrow> nat" where
  "with_leak l R \<equiv> (case l of None \<Rightarrow> R | Some n \<Rightarrow> one_more n R)"

lemma vfs_open_held:
  assumes "vfs_open path fl s = Some (ret, path', n, t)" "held D R P s"
  shows "(if ret = 0 then held D (one_more n R) (one_more n P) t \<and> vfs_leak path fl s = None
      else held D (with_leak (vfs_leak path fl s) R) P t) \<and> frame s t"
proof -
  let ?acc = "fl AND O_ACCMODE"
  let ?good = "(?acc = O_RDONLY \<or> ?acc = O_WRONLY \<or> ?acc = O_RDWR) \<and> \<not> (fl AND O_TRUNC \<noteq> 0 \<and> \<not> (?acc = O_WRONLY \<or> ?acc = O_RDWR))"
  let ?excl = "fl AND O_EXCL \<noteq> 0 \<and> fl AND O_CREAT \<noteq> 0"
  have ro: "O_RDONLY \<noteq> O_WRONLY" "O_RDONLY \<noteq> O_RDWR" by (simp_all add: flag_defs)
  consider (early) "ret \<noteq> 0" "t = s" "vfs_leak path fl s = None"
    | (gone) r path1 m where "vfs_lookup path s = Some (r, path1, m, t)" "ret \<noteq> 0" "vfs_leak path fl s = (if r = 0 then Some m else None)"
    | (parent) r path1 m s1 path2 sub dir where "vfs_lookup path s = Some (r, path1, m, s1)" "r \<noteq> 0" "ret \<noteq> 0"
        "get_device path1 s1 = Some (ret, path2, sub, dir, t)" "vfs_leak path fl s = None"
    | (found) path1 m s1 trunc where "vfs_lookup path s = Some (0, path1, m, s1)" "open_found m path1 fl trunc s1 = Some (ret, path', n, t)"
        "vfs_leak path fl s = None"
  proof (cases ?good)
    case False
    then have "vfs_leak path fl s = None" using ro by (auto simp: vfs_leak_def Let_def)
    moreover have "ret \<noteq> 0 \<and> t = s" using assms(1) False by (auto simp: vfs_open_def Let_def E_INVAL_def split: if_splits)
    ultimately show ?thesis using that(1) by blast
  next
    case True
    then obtain r path1 m s1 where l: "vfs_lookup path s = Some (r, path1, m, s1)"
      using assms(1) by (auto simp: vfs_open_def Let_def bind_eq_Some_conv split: if_splits)
    have lk: "vfs_leak path fl s = (if ?excl \<and> r = 0 then Some m else None)"
      using True l ro unfolding vfs_leak_def Let_def by auto
    have t: "(if r \<noteq> 0 then
          (if r = - 16 \<and> fl AND O_CREAT \<noteq> 0 then do {
             (ret, path, _, dir, s) \<leftarrow> vfs_lookup_parent path1 s1;
             if ret \<noteq> 0 then Some (ret, path, 0, s)
             else do { (_, n, s) \<leftarrow> vop_create dir s; open_found n path fl (fl AND O_TRUNC \<noteq> 0 \<or> fl AND O_CREAT \<noteq> 0) s }
           } else Some (r, path1, 0, s1))
        else if ?excl then Some (- E_EXISTS, path1, 0, s1)
        else open_found m path1 fl (fl AND O_TRUNC \<noteq> 0 \<or> fl AND O_CREAT \<noteq> 0) s1) = Some (ret, path', n, t)"
      using assms(1) True l unfolding vfs_open_def Let_def by auto
    consider "r \<noteq> 0" "r = - 16 \<and> fl AND O_CREAT \<noteq> 0" | "r \<noteq> 0" "\<not> (r = - 16 \<and> fl AND O_CREAT \<noteq> 0)" | "r = 0" "?excl" | "r = 0" "\<not> ?excl" by blast
    then show ?thesis
    proof cases
      case 1
      then obtain path2 sub dir where "get_device path1 s1 = Some (ret, path2, sub, dir, t)" "ret \<noteq> 0"
        using t by (auto simp: vfs_lookup_parent_def bind_eq_Some_conv split: if_splits)
      then show ?thesis using that(3) l 1 lk by simp
    next
      case 2
      then have "t = s1" "ret \<noteq> 0" using t by auto
      then show ?thesis using that(2) l lk 2(1) by simp
    next
      case 3
      then have "t = s1" "ret \<noteq> 0" using t by (auto simp: E_EXISTS_def)
      then show ?thesis using that(2) [of r path1 m] l lk 3 by simp
    next
      case 4
      then have "vfs_leak path fl s = None" using lk by (simp only: simp_thms if_False)
      moreover have "open_found m path1 fl (fl AND O_TRUNC \<noteq> 0 \<or> fl AND O_CREAT \<noteq> 0) s1 = Some (ret, path', n, t)"
        using t 4 by (simp only: simp_thms if_False not_not if_True)
      ultimately show ?thesis using that(4) l 4(1) by blast
    qed
  qed
  then show ?thesis
  proof cases
    case early
    then show ?thesis using assms(2) by simp
  next
    case gone
    then show ?thesis using vfs_lookup_held [OF gone(1) assms(2)] by (auto split: if_splits)
  next
    case parent
    have "held D R P s1" "frame s s1" using vfs_lookup_held [OF parent(1) assms(2)] parent(2) by auto
    then show ?thesis using get_device_held [OF parent(4)] frame_trans [of s s1 t] parent(3,5) by simp
  next
    case found
    have 1: "held D (one_more m R) P s1" "frame s s1" using vfs_lookup_held [OF found(1) assms(2)] by auto
    then show ?thesis using open_found_held [OF found(2) 1(1) heldD(2) [OF assms(2)]] frame_trans [OF 1(2)] found(3) by auto
  qed
qed

end
