(* ===== verification/File_Safe.thy ===== *)
theory File_Safe
  imports Vfs_Held File "HOL-Library.Multiset"
begin

text \<open>
  Safety of the tables of open files. Operations on descriptors run in several processes, which may share a table, and
  sleep between marking an entry as in use and releasing it. The steps below are the parts of the operations between two
  such points, in any order; a multiset records the entries that operations are using. The invariant ties the
  status and the use count of every entry to these users, and the counts of every inode to the
  entries, working directories, devices and the boot file system that refer to it.
\<close>

section \<open>Who refers to an inode\<close>

definition in_use :: "file_t \<Rightarrow> bool" where
  "in_use f \<longleftrightarrow> f_status f = FD_OPENED \<or> f_status f = FD_CLOSED"

definition uses :: "vfs \<Rightarrow> nat \<Rightarrow> (nat \<times> nat) set" where
  "uses s n = {(p, i). \<exists>f. get_file p i s = Some f \<and> in_use f \<and> f_node f = Some n}"

definition cwds :: "vfs \<Rightarrow> nat \<Rightarrow> nat set" where
  "cwds s n = {p. \<exists>fp. filess s p = Some fp \<and> pwd fp = Some n}"

definition dev_nodes :: "vfs \<Rightarrow> nat set" where
  "dev_nodes s = {n. \<exists>d \<in> set (vdev_list s). devnode d = Some n}"

definition opens :: "vfs \<Rightarrow> nat \<Rightarrow> nat" where
  "opens s n = card (uses s n)"

text \<open>The references to an inode: the entries in use, the working directories, the boot file system, the table of devices,
  and the references \<open>X\<close> that were taken and never given back.\<close>

definition refs :: "nat multiset \<Rightarrow> vfs \<Rightarrow> nat \<Rightarrow> nat" where
  "refs X s n = card (uses s n) + card (cwds s n) + (if bootfs_node s = Some n then 1 else 0) + (if n \<in> dev_nodes s then 1 else 0) +
     count X n"

definition entry_ok :: "nat \<Rightarrow> nat \<Rightarrow> file_t \<Rightarrow> bool" where
  "entry_ok u i f \<longleftrightarrow> f_fd f = int i \<and> (case f_status f of
     FD_NONE \<Rightarrow> f_open_count f = 0 \<and> u = 0
   | FD_INIT \<Rightarrow> f_open_count f = 0 \<and> u = 0
   | FD_OPENED \<Rightarrow> f_open_count f = int u + 1 \<and> f_node f \<noteq> None
   | FD_CLOSED \<Rightarrow> f_open_count f = int u \<and> 0 < u \<and> f_node f \<noteq> None)"

definition tab_ok :: "(nat \<times> nat) multiset \<Rightarrow> vfs \<Rightarrow> bool" where
  "tab_ok U s \<longleftrightarrow> finite (dom (filess s)) \<and> (\<forall>p fp. filess s p = Some fp \<longrightarrow> length (fd_array fp) = FILES_STRUCT_NENTRY) \<and>
     (\<forall>p i f. get_file p i s = Some f \<longrightarrow> entry_ok (count U (p, i)) i f) \<and>
     (\<forall>p i. (p, i) \<in># U \<longrightarrow> get_file p i s \<noteq> None)"

definition files_inv :: "nat multiset \<Rightarrow> (nat \<times> nat) multiset \<Rightarrow> vfs \<Rightarrow> bool" where
  "files_inv X U s \<longleftrightarrow> tab_ok U s \<and> held (dev_nodes s) (refs X s) (opens s) s \<and> unlocked s"

text \<open>The same while some of the references, \<open>E n\<close> to each inode \<open>n\<close>, were given back already.\<close>

definition given_inv :: "nat multiset \<Rightarrow> (nat \<Rightarrow> nat) \<Rightarrow> (nat \<times> nat) multiset \<Rightarrow> vfs \<Rightarrow> bool" where
  "given_inv X E U s \<longleftrightarrow> tab_ok U s \<and> held (dev_nodes s) (\<lambda>n. refs X s n - E n) (opens s) s \<and> unlocked s"

lemma given_none: "given_inv X (\<lambda>_. 0) U s = files_inv X U s"
  by (simp add: given_inv_def files_inv_def)

section \<open>Changing one entry\<close>

lemma get_upd: "get_file q j (upd_file p i g s) = (if q = p \<and> j = i then map_option g (get_file p i s) else get_file q j s)"
  by (cases "filess s p") (auto simp: get_file_def upd_file_def nth_list_update)

lemma upd_more [simp]:
  "inodes (upd_file p i g s) = inodes s" "next_inode (upd_file p i g s) = next_inode s" "fss (upd_file p i g s) = fss s"
  "vdev_list (upd_file p i g s) = vdev_list s" "bootfs_node (upd_file p i g s) = bootfs_node s" "cur_files (upd_file p i g s) = cur_files s"
  "cwds (upd_file p i g s) = cwds s" "dev_nodes (upd_file p i g s) = dev_nodes s" "dom (filess (upd_file p i g s)) = dom (filess s)"
  by (auto simp: upd_file_def cwds_def dev_nodes_def fun_eq_iff)

lemma held_upd [simp]: "held D R P (upd_file p i g s) = held D R P s" "unlocked (upd_file p i g s) = unlocked s"
  using held_cong [of "upd_file p i g s" s] by (simp_all add: unlocked_def)

lemma tab_upd:
  assumes "tab_ok U s" "get_file p i s = Some f" "entry_ok (count U' (p, i)) i (g f)" "\<And>x. x \<noteq> (p, i) \<Longrightarrow> count U' x = count U x"
  shows "tab_ok U' (upd_file p i g s)"
proof -
  have "length (fd_array fp) = FILES_STRUCT_NENTRY" if "filess (upd_file p i g s) q = Some fp" for q fp
    using assms(1) that by (auto simp: tab_ok_def upd_file_def split: if_splits)
  moreover have "x \<in># U" if "x \<in># U'" "x \<noteq> (p, i)" for x using assms(4) [OF that(2)] that(1) by (metis count_greater_zero_iff)
  ultimately show ?thesis
    using assms unfolding tab_ok_def by (auto simp: get_upd)
qed

lemma uses_upd:
  assumes "get_file p i s = Some f"
  shows "uses (upd_file p i g s) n = (uses s n - {(p, i)}) \<union> (if in_use (g f) \<and> f_node (g f) = Some n then {(p, i)} else {})"
  using assms by (auto simp: uses_def get_upd)

lemma finite_uses: "tab_ok U s \<Longrightarrow> finite (uses s n)"
proof -
  assume "tab_ok U s"
  then have "uses s n \<subseteq> dom (filess s) \<times> {..<FILES_STRUCT_NENTRY}" "finite (dom (filess s))"
    by (auto simp: tab_ok_def uses_def get_file_def bind_eq_Some_conv split: if_splits)
  then show ?thesis by (meson finite_SigmaI finite_lessThan finite_subset)
qed

lemma opens_same:
  assumes "get_file p i s = Some f" "in_use (g f) = in_use f" "in_use f \<Longrightarrow> f_node (g f) = f_node f"
  shows "opens (upd_file p i g s) = opens s" "refs X (upd_file p i g s) = refs X s"
proof -
  have "uses (upd_file p i g s) n = uses s n" for n
    unfolding uses_upd [OF assms(1)] using assms by (auto simp: uses_def)
  then show "opens (upd_file p i g s) = opens s" "refs X (upd_file p i g s) = refs X s" by (simp_all add: opens_def refs_def fun_eq_iff)
qed

lemma opens_more:
  assumes fin: "\<And>m. finite (uses s m)" and "get_file p i s = Some f" "\<not> in_use f" "in_use (g f)" "f_node (g f) = Some n"
  shows "opens (upd_file p i g s) = one_more n (opens s)" "refs X (upd_file p i g s) = one_more n (refs X s)"
proof -
  have "(p, i) \<notin> uses s m" for m using assms(2,3) by (auto simp: uses_def)
  then have "card (uses (upd_file p i g s) m) = card (uses s m) + (if m = n then 1 else 0)" for m
    unfolding uses_upd [OF assms(2)] using assms(4,5) fin [of m] by auto
  then show "opens (upd_file p i g s) = one_more n (opens s)" "refs X (upd_file p i g s) = one_more n (refs X s)"
    by (simp_all add: opens_def refs_def fun_eq_iff)
qed

lemma opens_less:
  assumes fin: "\<And>m. finite (uses s m)" and "get_file p i s = Some f" "in_use f" "\<not> in_use (g f)" "f_node f = Some n"
  shows "opens (upd_file p i g s) = one_less n (opens s)" "refs X (upd_file p i g s) = one_less n (refs X s)"
proof -
  have mem: "(p, i) \<in> uses s m \<longleftrightarrow> m = n" for m using assms(2,3,5) by (auto simp: uses_def)
  then have "card (uses (upd_file p i g s) m) = card (uses s m) - (if m = n then 1 else 0)" for m
    unfolding uses_upd [OF assms(2)] using assms(4) fin [of m] by (auto simp: Diff_triv)
  moreover have "0 < card (uses s n)" using mem [of n] fin [of n] by (auto simp: card_gt_0_iff)
  ultimately show "opens (upd_file p i g s) = one_less n (opens s)" "refs X (upd_file p i g s) = one_less n (refs X s)"
    by (auto simp: opens_def refs_def fun_eq_iff)
qed

text \<open>Operations on inodes leave the tables alone.\<close>

lemma frame_vfs:
  assumes "frame s (t :: vfs)"
  shows "filess t = filess s" "vdev_list t = vdev_list s" "bootfs_node t = bootfs_node s" "cur_files t = cur_files s"
    "get_file p i t = get_file p i s" "uses t = uses s" "cwds t = cwds s" "dev_nodes t = dev_nodes s" "opens t = opens s" "refs X t = refs X s"
    "tab_ok U t = tab_ok U s"
proof -
  show 1: "filess t = filess s" "vdev_list t = vdev_list s" "bootfs_node t = bootfs_node s" "cur_files t = cur_files s"
    using assms by (cases s; cases t; simp add: frame_def vfs.defs)+
  show g: "get_file p i t = get_file p i s" for p i using 1 by (simp add: get_file_def)
  show 2: "uses t = uses s" "cwds t = cwds s" "dev_nodes t = dev_nodes s" using 1 g by (simp_all add: uses_def cwds_def dev_nodes_def fun_eq_iff)
  show "opens t = opens s" "refs X t = refs X s" using 1 2 by (simp_all add: opens_def refs_def fun_eq_iff)
  show "tab_ok U t = tab_ok U s" using 1 g by (simp add: tab_ok_def)
qed

section \<open>Using and releasing an entry\<close>

lemma files_invD:
  assumes "files_inv X U s"
  shows "tab_ok U s" "held (dev_nodes s) (refs X s) (opens s) s" "unlocked s"
  using assms by (simp_all add: files_inv_def)

lemma given_invD:
  assumes "given_inv X E U s"
  shows "tab_ok U s" "held (dev_nodes s) (\<lambda>n. refs X s n - E n) (opens s) s" "unlocked s"
  using assms by (simp_all add: given_inv_def)

lemma tab_entry: "tab_ok U s \<Longrightarrow> get_file p i s = Some f \<Longrightarrow> entry_ok (count U (p, i)) i f"
  by (simp add: tab_ok_def)

lemma files_entry: "files_inv X U s \<Longrightarrow> get_file p i s = Some f \<Longrightarrow> entry_ok (count U (p, i)) i f"
  by (simp add: files_inv_def tab_ok_def)

lemma files_user:
  assumes "files_inv X U s" "(p, i) \<in># U"
  obtains f n where "get_file p i s = Some f" "in_use f" "f_node f = Some n" "0 < f_open_count f"
    "f_status f = FD_OPENED \<longrightarrow> 1 < f_open_count f"
    "f_status f = FD_CLOSED \<longrightarrow> f_open_count f = int (count U (p, i))"
proof -
  obtain f where f: "get_file p i s = Some f" using assms unfolding files_inv_def tab_ok_def by blast
  show ?thesis
    using that [OF f] files_entry [OF assms(1) f] assms(2)
    by (auto simp: entry_ok_def in_use_def count_eq_zero_iff split: fd_status.splits)
qed

text \<open>Entries that only change their position or use count.\<close>

lemma given_inv_upd:
  assumes "given_inv X E U s" "get_file p i s = Some f" "entry_ok (count U' (p, i)) i (g f)" "\<And>x. x \<noteq> (p, i) \<Longrightarrow> count U' x = count U x"
    and "in_use (g f) = in_use f" "in_use f \<Longrightarrow> f_node (g f) = f_node f"
  shows "given_inv X E U' (upd_file p i g s)"
proof -
  have "tab_ok U' (upd_file p i g s)" by (rule tab_upd [OF given_invD(1) [OF assms(1)] assms(2)]) (use assms(3,4) in auto)
  then show ?thesis using assms(1) opens_same [of p i s f g] assms(2,5,6) by (simp add: given_inv_def)
qed

lemmas files_inv_upd = given_inv_upd [where E = "\<lambda>_. 0", unfolded given_none]

lemma acquire_inv:
  assumes "fd_array_acquire p i s = Some t" "files_inv X U s"
  shows "files_inv X (add_mset (p, i) U) t"
proof -
  obtain f where f: "get_file p i s = Some f" "f_status f = FD_OPENED" "t = upd_file p i fopen_count_inc s"
    using assms(1) by (auto simp: fd_array_acquire_def bind_eq_Some_conv)
  show ?thesis
    unfolding f(3) by (rule files_inv_upd [OF assms(2) f(1)])
      (use files_entry [OF assms(2) f(1)] f(2) in \<open>auto simp: entry_ok_def fopen_count_inc_def in_use_def\<close>)
qed

text \<open>Closing the inode of an entry when its last user is gone.\<close>

lemma upd_upd: "upd_file p i h (upd_file p i g s) = upd_file p i (\<lambda>f. h (g f)) s"
proof (cases "filess s p")
  case (Some fp)
  have "(fd_array fp)[i := g (fd_array fp ! i), i := h ((fd_array fp)[i := g (fd_array fp ! i)] ! i)] = (fd_array fp)[i := h (g (fd_array fp ! i))]"
    by (cases "i < length (fd_array fp)") (auto simp: list_update_beyond)
  then show ?thesis using Some by (simp add: upd_file_def)
qed (simp add: upd_file_def)

lemma upd_cong: "filess t = filess s \<Longrightarrow> filess (upd_file p i g t) = filess (upd_file p i g s)"
  by (simp add: upd_file_def)

lemma tab_cong: "filess t = filess s \<Longrightarrow> tab_ok U t = tab_ok U s"
  by (simp add: tab_ok_def get_file_def)

lemma given_free_inv:
  assumes t: "fd_array_free p i (upd_file p i g s) = Some t" and s: "given_inv X E U s" "get_file p i s = Some f" "in_use f" "f_node f = Some n"
    and g: "f_status (g f) = FD_CLOSED" "f_node (g f) = Some n" "f_fd (g f) = f_fd f"
    and U': "count U' (p, i) = 0" "\<And>x. x \<noteq> (p, i) \<Longrightarrow> count U' x = count U x"
  shows "given_inv X E U' t"
proof -
  let ?s = "upd_file p i g s"
  let ?h = "\<lambda>f :: file_t. f\<lparr>f_status := FD_NONE\<rparr>"
  have f1: "get_file p i ?s = Some (g f)" using s(2) by (simp add: get_upd)
  obtain s1 q where c: "vfs_close n ?s = Some (q, s1)" "f_open_count (g f) = 0" "t = upd_file p i ?h s1"
    using t g f1 by (auto simp: fd_array_free_def bind_eq_Some_conv)
  have use: "in_use (g f) = in_use f" using g(1) s(3) by (simp add: in_use_def)
  have same: "opens ?s = opens s" "refs X ?s = refs X s" using opens_same [of p i s f g] s(2,4) g(2) use by auto
  have fin: "finite (uses ?s m)" for m
    using finite_uses [OF given_invD(1) [OF s(1)], of m] uses_upd [OF s(2), of g m] by simp
  have c': "held (dev_nodes s) (one_less n (\<lambda>m. refs X s m - E m)) (one_less n (opens s)) s1" "frame ?s s1"
    using vfs_close_held [OF c(1), of "dev_nodes s" "\<lambda>m. refs X s m - E m" "opens s"] given_invD(2) [OF s(1)] by auto
  note F = frame_vfs [OF c'(2)]
  have "opens t = one_less n (opens s)" "refs X t = one_less n (refs X s)"
    unfolding c(3) using opens_less [of s1 p i "g f" ?h n] F fin f1 g(1,2) same by (simp_all add: in_use_def)
  moreover have "dev_nodes t = dev_nodes s" using F c(3) by simp
  moreover have "unlocked t" using given_invD(3) [OF s(1)] unlocked_frame [of ?s s1] c'(2) c(3) by simp
  moreover have "tab_ok U' (upd_file p i (\<lambda>f. ?h (g f)) s)"
    by (rule tab_upd [OF given_invD(1) [OF s(1)] s(2)])
      (use tab_entry [OF given_invD(1) [OF s(1)] s(2)] c(2) g(3) U' in \<open>auto simp: entry_ok_def\<close>)
  then have "tab_ok U' t"
    using tab_cong [of t "upd_file p i ?h ?s"] upd_cong [OF F(1), of p i ?h] c(3) by (simp add: upd_upd)
  moreover have "one_less n (\<lambda>m. refs X s m - E m) = (\<lambda>m. one_less n (refs X s) m - E m)" by auto
  ultimately show ?thesis using c'(1) c(3) by (simp add: given_inv_def)
qed

lemmas free_inv = given_free_inv [where E = "\<lambda>_. 0", unfolded given_none]

lemma release_inv:
  assumes "fd_array_release p i s = Some t" "files_inv X U s" "(p, i) \<in># U"
  shows "files_inv X (U - {#(p, i)#}) t"
proof -
  obtain f n where f: "get_file p i s = Some f" "in_use f" "f_node f = Some n" "0 < f_open_count f"
      "f_status f = FD_OPENED \<longrightarrow> 1 < f_open_count f" "f_status f = FD_CLOSED \<longrightarrow> f_open_count f = int (count U (p, i))"
    by (rule files_user [OF assms(2,3)])
  let ?s = "upd_file p i fopen_count_dec s"
  show ?thesis
  proof (cases "f_open_count f - 1 = 0")
    case True
    then have "fd_array_free p i ?s = Some t" using assms(1) f by (simp add: fd_array_release_def bind_eq_Some_conv Let_def)
    moreover have "f_status f = FD_CLOSED" using f(2,5) True by (auto simp: in_use_def)
    ultimately show ?thesis
      by (intro free_inv [where g = fopen_count_dec, OF _ assms(2) f(1,2,3)]) (use f True in \<open>auto simp: fopen_count_dec_def\<close>)
  next
    case False
    then have t: "t = ?s" using assms(1) f by (simp add: fd_array_release_def bind_eq_Some_conv Let_def)
    obtain k where k: "count U (p, i) = Suc k" using assms(3) by (metis count_eq_zero_iff not0_implies_Suc)
    show ?thesis
      unfolding t by (rule files_inv_upd [OF assms(2) f(1)])
        (use files_entry [OF assms(2) f(1)] f(2,4,6) False k in
          \<open>auto simp: entry_ok_def fopen_count_dec_def in_use_def split: fd_status.splits\<close>)
  qed
qed

lemma given_close_inv:
  assumes "fd_array_close p i s = Some t" "given_inv X E U s"
  shows "given_inv X E U t"
proof -
  obtain f where f: "get_file p i s = Some f" "f_status f = FD_OPENED"
    using assms(1) by (auto simp: fd_array_close_def bind_eq_Some_conv)
  obtain n where e: "f_open_count f = int (count U (p, i)) + 1" "f_node f = Some n" "f_fd f = int i"
    using tab_entry [OF given_invD(1) [OF assms(2)] f(1)] f(2) by (auto simp: entry_ok_def)
  let ?g = "\<lambda>f. fopen_count_dec (f\<lparr>f_status := FD_CLOSED\<rparr>)"
  let ?s = "upd_file p i ?g s"
  show ?thesis
  proof (cases "count U (p, i) = 0")
    case True
    then have "fd_array_free p i ?s = Some t" using assms(1) f e by (simp add: fd_array_close_def Let_def)
    then show ?thesis
      by (rule given_free_inv [OF _ assms(2) f(1) _ e(2)]) (use f e True in \<open>auto simp: fopen_count_dec_def in_use_def\<close>)
  next
    case False
    then have t: "t = ?s" using assms(1) f e by (simp add: fd_array_close_def Let_def count_eq_zero_iff)
    show ?thesis
      unfolding t by (rule given_inv_upd [OF assms(2) f(1)])
        (use e False f(2) in \<open>auto simp: entry_ok_def fopen_count_dec_def in_use_def\<close>)
  qed
qed

lemmas close_inv = given_close_inv [where E = "\<lambda>_. 0", unfolded given_none]

section \<open>Opening and duplicating\<close>

lemma first_free_Some: "first_free k fs = Some i \<Longrightarrow> k \<le> i \<and> i < k + length fs \<and> f_status (fs ! (i - k)) = FD_NONE"
proof (induction k fs rule: first_free.induct)
  case (2 k f fs)
  then show ?case by (cases "f_status f = FD_NONE") (auto simp: nth_Cons' Suc_diff_le)
qed simp

lemma alloc_inv:
  assumes "fd_array_alloc fd s = Some (ret, i, t)" "files_inv X U s"
  shows "if ret = 0 then files_inv X U t \<and> (\<exists>f. get_file (cur_files s) i t = Some f \<and> f_status f = FD_INIT \<and> f_node f = None) \<and>
      t = upd_file (cur_files s) i (\<lambda>f. f\<lparr>f_status := FD_INIT, f_node := None\<rparr>) s
    else t = s"
proof -
  obtain fp where fp: "filess s (cur_files s) = Some fp" using assms(1) by (auto simp: fd_array_alloc_def get_fd_array_def bind_eq_Some_conv)
  have len: "length (fd_array fp) = FILES_STRUCT_NENTRY" using files_invD(1) [OF assms(2)] fp by (auto simp: tab_ok_def)
  have "ret \<noteq> 0 \<and> t = s \<or> ret = 0 \<and> i < length (fd_array fp) \<and> f_status (fd_array fp ! i) = FD_NONE \<and>
      t = upd_file (cur_files s) i (\<lambda>f. f\<lparr>f_status := FD_INIT, f_node := None\<rparr>) s"
    using assms(1) fp len
    by (auto simp: fd_array_alloc_def get_fd_array_def bind_eq_Some_conv testfd_def E_MAX_OPEN_def E_BUSY_def E_INVAL_def
        split: if_splits option.splits dest!: first_free_Some)
  then show ?thesis
  proof (elim disjE conjE)
    assume i: "ret = 0" "i < length (fd_array fp)" "f_status (fd_array fp ! i) = FD_NONE"
      and t: "t = upd_file (cur_files s) i (\<lambda>f. f\<lparr>f_status := FD_INIT, f_node := None\<rparr>) s"
    have f: "get_file (cur_files s) i s = Some (fd_array fp ! i)" using fp i by (simp add: get_file_def)
    have "files_inv X U t"
      unfolding t by (rule files_inv_upd [OF assms(2) f]) (use files_entry [OF assms(2) f] i(3) in \<open>auto simp: entry_ok_def in_use_def\<close>)
    then show ?thesis using i(1) t f by (simp add: get_upd)
  qed simp
qed

text \<open>An entry that was reserved is opened on an inode to which the caller holds one more reference and open.\<close>

lemma open_entry_inv:
  assumes tab: "tab_ok U s" "unlocked s" and f: "get_file p i s = Some f" "f_status f = FD_INIT"
    and h: "held (dev_nodes s) (one_more n (refs X s)) (one_more n (opens s)) s"
    and t: "fd_array_open p i (upd_file p i g s) = Some t"
    and g: "f_node (g f) = Some n" "f_status (g f) = FD_INIT" "f_open_count (g f) = f_open_count f" "f_fd (g f) = f_fd f"
  shows "files_inv X U t \<and> (\<exists>f'. get_file p i t = Some f' \<and> f_status f' = FD_OPENED \<and> f_node f' = Some n)"
proof -
  let ?g = "\<lambda>f. fopen_count_inc ((g f)\<lparr>f_status := FD_OPENED\<rparr>)"
  have t': "t = upd_file p i ?g s" using t by (auto simp: fd_array_open_def bind_eq_Some_conv upd_upd)
  have e: "entry_ok (count U (p, i)) i f" using tab(1) f(1) by (simp add: tab_ok_def)
  have "tab_ok U t"
    unfolding t' by (rule tab_upd [OF tab(1) f(1)]) (use e f(2) g in \<open>auto simp: entry_ok_def fopen_count_inc_def\<close>)
  moreover have "opens t = one_more n (opens s)" "refs X t = one_more n (refs X s)"
    unfolding t' using opens_more [of s p i f ?g n] finite_uses [OF tab(1)] f g by (simp_all add: in_use_def fopen_count_inc_def)
  ultimately show ?thesis using h tab(2) f(1) g(1) t' by (simp add: files_inv_def get_upd fopen_count_inc_def)
qed

lemma dup_inv:
  assumes "fd_array_dup p i q j s = Some t" "files_inv X U s"
  shows "files_inv X U t"
proof -
  obtain f and src :: file_t and n r1 s1 r2 s2 where f: "get_file p i s = Some f" "f_status f = FD_INIT" "f_node src = Some n"
      and s1: "inode_ref_inc n s = Some (r1, s1)" "inode_open_inc n s1 = Some (r2, s2)"
      and t: "fd_array_open p i (upd_file p i (\<lambda>f. f\<lparr>f_pos := f_pos src, f_readable := f_readable src,
        f_writable := f_writable src, f_node := Some n\<rparr>) s2) = Some t"
    using assms(1) by (auto simp: fd_array_dup_def bind_eq_Some_conv)
  have h1: "held (dev_nodes s) (one_more n (refs X s)) (opens s) s1" "frame s s1"
    using ref_inc_held [OF s1(1) files_invD(2) [OF assms(2)]] by auto
  have "opens s n < one_more n (refs X s) n" by (simp add: opens_def refs_def)
  then have h2: "held (dev_nodes s) (one_more n (refs X s)) (one_more n (opens s)) s2" "frame s1 s2"
    using open_inc_held [OF s1(2) h1(1)] by blast+
  have fr: "frame s s2" using frame_trans [OF h1(2) h2(2)] .
  note F = frame_vfs [OF fr]
  have tab: "tab_ok U s2" "unlocked s2" using F files_invD [OF assms(2)] unlocked_frame fr by auto
  have f2: "get_file p i s2 = Some f" using F f by simp
  show ?thesis using open_entry_inv [OF tab f2 f(2) _ t, of X n] h2(1) F f(2) by simp
qed

lemma frame_inv:
  assumes "files_inv X U s" "frame s t" "held (dev_nodes s) (refs X s) (opens s) t"
  shows "files_inv X U t"
  using assms frame_vfs [OF assms(2)] unlocked_frame [OF files_invD(3) [OF assms(1)] assms(2)] by (simp add: files_inv_def)

lemma free_init_inv:
  assumes "fd_array_free p i s = Some t" "files_inv X U s" "get_file p i s = Some f" "f_status f = FD_INIT"
  shows "files_inv X U t"
proof -
  have t: "t = upd_file p i (\<lambda>f. f\<lparr>f_status := FD_NONE\<rparr>) s" using assms by (auto simp: fd_array_free_def bind_eq_Some_conv)
  show ?thesis
    unfolding t by (rule files_inv_upd [OF assms(2,3)]) (use files_entry [OF assms(2,3)] assms(4) in \<open>auto simp: entry_ok_def in_use_def\<close>)
qed

definition file_leak :: "u8 list \<Rightarrow> u32 \<Rightarrow> vfs \<Rightarrow> nat multiset" where
  "file_leak path open_flags s = (case fd_array_alloc NO_FD s of
     Some (ret, _, s) \<Rightarrow> if ret = 0 then (case vfs_leak path open_flags s of Some n \<Rightarrow> {#n#} | None \<Rightarrow> {#}) else {#}
   | None \<Rightarrow> {#})"

lemma file_leak_flags:
  "\<not> (fl AND O_ACCMODE = O_RDONLY \<or> fl AND O_ACCMODE = O_WRONLY \<or> fl AND O_ACCMODE = O_RDWR) \<Longrightarrow> file_leak path fl s = {#}"
  by (auto simp: file_leak_def vfs_leak_def Let_def split: option.splits)

lemma refs_leak: "refs (case l of Some n \<Rightarrow> add_mset n X | None \<Rightarrow> X) s = with_leak l (refs X s)"
  by (auto simp: refs_def split: option.splits)

lemma file_open_inv:
  assumes "file_open path fl s = Some (r, t)" "files_inv X U s"
  shows "files_inv (file_leak path fl s + X) U t"
proof (cases "\<exists>i s1. fd_array_alloc NO_FD s = Some (0, i, s1) \<and> (fl AND O_ACCMODE = O_RDONLY \<or> fl AND O_ACCMODE = O_WRONLY \<or> fl AND O_ACCMODE = O_RDWR)")
  case False
  then have "t = s"
    using assms alloc_inv [OF _ assms(2), of NO_FD]
    by (auto simp: file_open_def Let_def bind_eq_Some_conv split: if_splits)
  moreover have "file_leak path fl s = {#}"
    using False file_leak_flags [of fl path s] by (auto simp: file_leak_def split: option.splits)
  ultimately show ?thesis using assms(2) by simp
next
  case True
  then obtain i s1 where al: "fd_array_alloc NO_FD s = Some (0, i, s1)" by blast
  let ?p = "cur_files s"
  let ?X = "case vfs_leak path fl s1 of Some n \<Rightarrow> add_mset n X | None \<Rightarrow> X"
  have lk: "file_leak path fl s + X = ?X" using al by (auto simp: file_leak_def split: option.splits)
  obtain f where s1: "files_inv X U s1" "get_file ?p i s1 = Some f" "f_status f = FD_INIT" "cur_files s1 = ?p"
    using alloc_inv [OF al assms(2)] by auto
  obtain ret path' n s2 where o: "vfs_open path fl s1 = Some (ret, path', n, s2)"
    using assms(1) al True by (auto simp: file_open_def Let_def bind_eq_Some_conv)
  note H = vfs_open_held [OF o files_invD(2) [OF s1(1)]]
  have fr: "frame s1 s2" using H by simp
  note F = frame_vfs [OF fr]
  have f2: "get_file ?p i s2 = Some f" using F s1(2) by simp
  show ?thesis
  proof (cases "ret = 0")
    case False
    then have "fd_array_free ?p i s2 = Some t" using assms(1) al o s1(4) True by (auto simp: file_open_def Let_def bind_eq_Some_conv)
    moreover have "files_inv ?X U s2"
      using H False F files_invD [OF s1(1)] unlocked_frame [OF _ fr] by (simp add: files_inv_def refs_leak)
    ultimately show ?thesis unfolding lk by (rule free_init_inv) (use f2 s1(3) in auto)
  next
    case ret: True
    have lk0: "file_leak path fl s + X = X" using H ret lk by simp
    have h2: "held (dev_nodes s1) (one_more n (refs X s1)) (one_more n (opens s1)) s2" using H ret by simp
    consider (app) q s3 where "vfs_close n s2 = Some (q, s3)" "fd_array_free ?p i s3 = Some t"
      | (ok) pos rd wr where "fd_array_open ?p i (upd_file ?p i (\<lambda>f. f\<lparr>f_pos := pos, f_node := Some n,
          f_readable := rd, f_writable := wr\<rparr>) s2) = Some t"
      using assms(1) al o ret s1(4) True by (auto simp: file_open_def Let_def bind_eq_Some_conv split: if_splits)
    then show ?thesis
    proof cases
      case app
      have 3: "held (dev_nodes s1) (refs X s1) (opens s1) s3" "frame s2 s3"
        using vfs_close_held [OF app(1) h2, unfolded one_less_more] by auto
      then have "files_inv X U s3" "get_file ?p i s3 = Some f"
        using frame_inv [OF s1(1) frame_trans [OF fr 3(2)]] frame_vfs(5) [OF 3(2)] f2 by auto
      then show ?thesis using free_init_inv [OF app(2)] s1(3) unfolding lk0 by blast
    next
      case ok
      have "tab_ok U s2" "unlocked s2" using F files_invD [OF s1(1)] unlocked_frame fr by auto
      then show ?thesis using open_entry_inv [OF _ _ f2 s1(3) _ ok, of U X n] h2 F s1(3) unfolding lk0 by simp
    qed
  qed
qed

lemma fd_split:
  assumes "(do { r \<leftarrow> fd2file fd s; case r of Inl ret \<Rightarrow> A ret | Inr i \<Rightarrow> B i }) = Some y"
  obtains ret where "fd2file fd s = Some (Inl ret)" "A ret = Some y" | i where "fd2file fd s = Some (Inr i)" "B i = Some y"
proof -
  obtain r where r: "fd2file fd s = Some r" "(case r of Inl ret \<Rightarrow> A ret | Inr i \<Rightarrow> B i) = Some y"
    using assms by (auto simp: bind_eq_Some_conv)
  then show ?thesis using that by (cases r) auto
qed

lemma file_close_inv: "file_close fd s = Some (r, t) \<Longrightarrow> files_inv X U s \<Longrightarrow> files_inv X U t"
  unfolding file_close_def by (erule fd_split) (auto simp: bind_eq_Some_conv dest: close_inv)

lemma file_dup_inv:
  assumes "file_dup fd1 fd2 s = Some (r, t)" "files_inv X U s"
  shows "files_inv X U t"
  using assms(1) unfolding file_dup_def
proof (rule fd_split)
  fix j
  assume "do { (ret, i, s) \<leftarrow> fd_array_alloc fd2 s;
      if ret \<noteq> 0 then Some (ret, s)
      else do { s \<leftarrow> fd_array_dup (cur_files s) i (cur_files s) j s; f \<leftarrow> get_file (cur_files s) i s; Some (f_fd f, s) } } = Some (r, t)"
  then obtain ret i s1 where al: "fd_array_alloc fd2 s = Some (ret, i, s1)"
      and t: "ret \<noteq> 0 \<and> t = s1 \<or> ret = 0 \<and> fd_array_dup (cur_files s1) i (cur_files s1) j s1 = Some t"
    by (auto simp: bind_eq_Some_conv split: if_splits)
  then show ?thesis using alloc_inv [OF al assms(2)] assms(2) dup_inv [of _ i _ j s1 t X U] by (auto split: if_splits)
qed (use assms(2) in auto)

lemma begin_inv:
  assumes "file_begin fd allowed s = Some (r, t)" "files_inv X U s"
  shows "case r of Inl _ \<Rightarrow> t = s | Inr i \<Rightarrow> files_inv X (add_mset (cur_files s, i) U) t"
  using assms(1) unfolding file_begin_def
  by (rule fd_split) (auto simp: bind_eq_Some_conv split: if_splits dest: acquire_inv [OF _ assms(2)])

section \<open>Creating, copying and destroying tables\<close>

lemma create_inv:
  assumes "files_create p mem s = (True, t)" "files_inv X U s" "filess s p = None"
  shows "files_inv X U t \<and> (\<forall>i f. get_file p i t = Some f \<longrightarrow> f_status f = FD_NONE) \<and> (\<exists>tp. filess t p = Some tp \<and> pwd tp = None)"
proof -
  obtain ok s1 where m: "kmalloc_ok s = (ok, s1)" by force
  let ?tp = "\<lparr>pwd = None, fd_array = fd_array_init mem, fs_count = 0, files_sem = 1\<rparr>"
  have t: "t = s1\<lparr>filess := (filess s1)(p \<mapsto> ?tp)\<rparr>" using assms(1) m by (auto simp: files_create_def split: if_splits)
  have "vnodes_inv s1 \<and> keeps s s1" using kmalloc_inv [OF m heldD(1) [OF files_invD(2) [OF assms(2)]]] by simp
  then have h1: "held (dev_nodes s) (refs X s) (opens s) s1" and fr: "frame s s1"
    using held_keeps [OF files_invD(2) [OF assms(2)]] by (auto simp: keeps_def)
  note F = frame_vfs [OF fr]
  have g: "get_file q i t = (if q = p then (if i < FILES_STRUCT_NENTRY then Some ((mem ! i)\<lparr>f_open_count := 0, f_status := FD_NONE, f_fd := int i\<rparr>) else None)
      else get_file q i s)" for q i
    using F(1) by (auto simp: t get_file_def fd_array_init_def)
  have none: "get_file p i s = None" for i using assms(3) by (simp add: get_file_def)
  then have U: "count U (p, i) = 0" for i
    using files_invD(1) [OF assms(2)] unfolding tab_ok_def by (metis count_eq_zero_iff)
  have "uses t n = uses s n" for n using none by (auto simp: uses_def g in_use_def)
  moreover have "cwds t n = cwds s n" for n using F(1) assms(3) by (auto simp: cwds_def t)
  moreover have "bootfs_node t = bootfs_node s" "dev_nodes t = dev_nodes s" using F by (simp_all add: t dev_nodes_def)
  ultimately have "refs X t = refs X s" "opens t = opens s" "dev_nodes t = dev_nodes s" by (simp_all add: refs_def opens_def fun_eq_iff)
  moreover have "tab_ok U t"
    using files_invD(1) [OF assms(2)] F(1) U t unfolding tab_ok_def g
    by (auto simp: entry_ok_def fd_array_init_def count_eq_zero_iff split: if_splits)
  moreover have "unlocked t" using unlocked_frame [OF files_invD(3) [OF assms(2)] fr] by (simp add: t unlocked_def)
  moreover have "held (dev_nodes s) (refs X s) (opens s) t" using h1 held_cong [of t s1] by (simp add: t)
  ultimately show ?thesis using g by (auto simp: files_inv_def t)
qed

lemma dup_other:
  assumes "fd_array_dup p i q j s = Some t" "(r, k) \<noteq> (p, i)"
  shows "get_file r k t = get_file r k s"
proof -
  obtain f and src :: file_t and n r1 s1 r2 s2 where
      s1: "inode_ref_inc n s = Some (r1, s1)" "inode_open_inc n s1 = Some (r2, s2)"
      and t: "fd_array_open p i (upd_file p i (\<lambda>f. f\<lparr>f_pos := f_pos src, f_readable := f_readable src,
        f_writable := f_writable src, f_node := Some n\<rparr>) s2) = Some t"
    using assms(1) by (auto simp: fd_array_dup_def bind_eq_Some_conv)
  have "filess s2 = filess s" using s1 by (auto simp: inode_ref_inc_def inode_open_inc_def bind_eq_Some_conv upd_inode_def)
  then have "get_file r k s2 = get_file r k s" by (simp add: get_file_def)
  then show ?thesis using t assms(2) by (auto simp: fd_array_open_def bind_eq_Some_conv get_upd)
qed

lemma dup_loop_inv:
  assumes "dup_files_loop p q i k s = Some t" "files_inv X U s" "\<And>j f. i \<le> j \<Longrightarrow> get_file p j s = Some f \<Longrightarrow> f_status f = FD_NONE"
  shows "files_inv X U t"
  using assms
proof (induction k arbitrary: i s)
  case (Suc k)
  let ?s = "upd_file p i (\<lambda>f. f\<lparr>f_status := FD_INIT\<rparr>) s"
  obtain f where f: "get_file q i s = Some f" using Suc.prems(1) by (auto simp: bind_eq_Some_conv)
  show ?case
  proof (cases "f_status f = FD_OPENED")
    case False
    then have "dup_files_loop p q (Suc i) k s = Some t" using Suc.prems(1) f by simp
    then show ?thesis by (rule Suc.IH [OF _ Suc.prems(2)]) (meson Suc.prems(3) Suc_leD)
  next
    case True
    then obtain s1 where s1: "fd_array_dup p i q i ?s = Some s1" "dup_files_loop p q (Suc i) k s1 = Some t"
      using Suc.prems(1) f by (auto simp: bind_eq_Some_conv)
    obtain g where g: "get_file p i s = Some g"
      using s1(1) by (auto simp: fd_array_dup_def bind_eq_Some_conv get_upd)
    have "files_inv X U ?s"
      by (rule files_inv_upd [OF Suc.prems(2) g])
        (use files_entry [OF Suc.prems(2) g] Suc.prems(3) [OF _ g] in \<open>auto simp: entry_ok_def in_use_def\<close>)
    then have "files_inv X U s1" by (rule dup_inv [OF s1(1)])
    moreover have "f_status h = FD_NONE" if "Suc i \<le> j" "get_file p j s1 = Some h" for j h
      using dup_other [OF s1(1), of p j] that Suc.prems(3) [of j h] by (simp add: get_upd)
    ultimately show ?thesis using Suc.IH [OF s1(2)] by blast
  qed
qed simp

text \<open>Changing the working directory of a table.\<close>

lemma pwd_refs:
  assumes "finite (dom (filess s))" "filess s p = Some fp" "pwd fp \<noteq> Some n"
    and "filess t = (filess s)(p \<mapsto> fp\<lparr>pwd := Some n\<rparr>)" "bootfs_node t = bootfs_node s" "vdev_list t = vdev_list s"
  shows "refs X t = (case pwd fp of None \<Rightarrow> one_more n (refs X s) | Some m \<Rightarrow> one_less m (one_more n (refs X s)))"
    and "opens t = opens s" "dev_nodes t = dev_nodes s" "tab_ok U t = tab_ok U s" "\<And>q i. get_file q i t = get_file q i s"
proof -
  show g: "get_file q i t = get_file q i s" for q i using assms(2,4) by (auto simp: get_file_def)
  then have u: "uses t = uses s" by (simp add: uses_def fun_eq_iff)
  then show "opens t = opens s" by (simp add: opens_def fun_eq_iff)
  show d: "dev_nodes t = dev_nodes s" using assms(6) by (simp add: dev_nodes_def)
  show "tab_ok U t = tab_ok U s" using g assms(2,4) by (auto simp: tab_ok_def)
  have fin: "finite (cwds s m)" for m by (rule finite_subset [OF _ assms(1)]) (auto simp: cwds_def)
  have c: "cwds t m = (if m = n then insert p (cwds s n) else cwds s m - (if pwd fp = Some m then {p} else {}))" for m
    using assms(2,4) by (auto simp: cwds_def)
  have p: "p \<notin> cwds s n" "pwd fp = Some m \<Longrightarrow> p \<in> cwds s m" for m using assms(2,3) by (auto simp: cwds_def)
  have pos: "0 < card (cwds s m)" if "pwd fp = Some m" for m using p(2) [OF that] fin [of m] by (auto simp: card_gt_0_iff)
  show "refs X t = (case pwd fp of None \<Rightarrow> one_more n (refs X s) | Some m \<Rightarrow> one_less m (one_more n (refs X s)))"
    using u d assms(3,5) fin p pos by (auto simp: refs_def fun_eq_iff c split: option.splits)
qed

lemma dup_files_inv:
  assumes "dup_files p q s = Some (r, t)" "files_inv X U s"
    and "\<And>j f. get_file p j s = Some f \<Longrightarrow> f_status f = FD_NONE" "filess s p = Some tp" "pwd tp = None"
  shows "files_inv X U t"
proof -
  obtain fp where fp: "filess s q = Some fp" using assms(1,4) by (auto simp: dup_files_def bind_eq_Some_conv)
  let ?s = "s\<lparr>filess := (filess s)(p \<mapsto> tp\<lparr>pwd := pwd fp\<rparr>)\<rparr>"
  obtain s1 where s1: "(case pwd fp of None \<Rightarrow> Some ?s | Some n \<Rightarrow> do { (_, s) \<leftarrow> inode_ref_inc n ?s; Some s }) = Some s1"
      and t: "dup_files_loop p q 0 FILES_STRUCT_NENTRY s1 = Some t"
    using assms(1,4) fp by (auto simp: dup_files_def bind_eq_Some_conv Let_def)
  have inv: "files_inv X U s1 \<and> (\<forall>j. get_file p j s1 = get_file p j s)"
  proof (cases "pwd fp")
    case None
    then have "s1 = s" using s1 assms(4,5) by (simp add: fun_upd_idem)
    then show ?thesis using assms(2) by simp
  next
    case (Some n)
    obtain r1 where r1: "inode_ref_inc n ?s = Some (r1, s1)" using s1 Some by (auto simp: bind_eq_Some_conv)
    have fin: "finite (dom (filess s))" using files_invD(1) [OF assms(2)] by (simp add: tab_ok_def)
    have P: "refs X ?s = one_more n (refs X s)" "opens ?s = opens s" "dev_nodes ?s = dev_nodes s" "tab_ok U ?s = tab_ok U s" "get_file p j ?s = get_file p j s" for j
      using pwd_refs [OF fin assms(4), of n ?s] Some assms(5) by simp_all
    have "held (dev_nodes s) (refs X s) (opens s) ?s" using files_invD(2) [OF assms(2)] held_cong [of ?s s] by simp
    then have h: "held (dev_nodes s) (one_more n (refs X s)) (opens s) s1" "frame ?s s1" using ref_inc_held [OF r1] by auto
    note F = frame_vfs [OF h(2)]
    have "unlocked ?s" using files_invD(3) [OF assms(2)] by (simp add: unlocked_def)
    then have "unlocked s1" using unlocked_frame h(2) by blast
    then show ?thesis using h(1) F P files_invD(1) [OF assms(2)] by (simp add: files_inv_def)
  qed
  then show ?thesis by (intro dup_loop_inv [OF t]) (use assms(3) in auto)
qed

lemma closeall_loop_inv: "closeall_loop p i k s = Some t \<Longrightarrow> files_inv X U s \<Longrightarrow> files_inv X U t"
  by (induction k arbitrary: i s) (auto simp: bind_eq_Some_conv split: if_splits dest: close_inv)

lemma closeall_inv: "files_closeall p s = Some t \<Longrightarrow> files_inv X U s \<Longrightarrow> files_inv X U t"
  by (auto simp: files_closeall_def bind_eq_Some_conv dest: closeall_loop_inv)

lemma close_other:
  assumes "fd_array_close p i s = Some t" "given_inv X E U s"
  shows "\<exists>g. filess t = filess (upd_file p i g s)"
proof -
  obtain f where f: "get_file p i s = Some f" "f_status f = FD_OPENED"
    using assms(1) by (auto simp: fd_array_close_def bind_eq_Some_conv)
  let ?g = "\<lambda>f. fopen_count_dec (f\<lparr>f_status := FD_CLOSED\<rparr>)"
  let ?s = "upd_file p i ?g s"
  consider "t = ?s" | n q s1 where "vfs_close n ?s = Some (q, s1)" "t = upd_file p i (\<lambda>f. f\<lparr>f_status := FD_NONE\<rparr>) s1"
    using assms(1) f by (auto simp: fd_array_close_def fd_array_free_def bind_eq_Some_conv Let_def get_upd fopen_count_dec_def split: if_splits)
  then show ?thesis
  proof cases
    case 1
    then show ?thesis by blast
  next
    case 2
    have "held (dev_nodes s) (\<lambda>m. refs X s m - E m) (opens s) ?s" using given_invD(2) [OF assms(2)] by simp
    then have "filess s1 = filess ?s" using vfs_close_held [OF 2(1)] frame_vfs(1) by blast
    then have "filess t = filess (upd_file p i (\<lambda>f. (?g f)\<lparr>f_status := FD_NONE\<rparr>) s)"
      using upd_cong [of s1 ?s] 2(2) by (simp add: upd_upd)
    then show ?thesis by blast
  qed
qed

lemma destroy_loop_inv:
  assumes "destroy_loop p i k s = Some t" "given_inv X E U s"
  shows "given_inv X E U t \<and> (\<forall>j f. i \<le> j \<and> j < i + k \<longrightarrow> get_file p j t = Some f \<longrightarrow> f_status f = FD_NONE) \<and>
    (\<forall>j < i. get_file p j t = get_file p j s) \<and> map_option pwd (filess t p) = map_option pwd (filess s p)"
  using assms
proof (induction k arbitrary: i s)
  case (Suc k)
  obtain f s1 f1 where f: "get_file p i s = Some f" "(if f_status f = FD_OPENED then fd_array_close p i s else Some s) = Some s1"
      "get_file p i s1 = Some f1" "f_status f1 = FD_NONE" "destroy_loop p (Suc i) k s1 = Some t"
    using Suc.prems(1) by (auto simp: bind_eq_Some_conv)
  have s1: "given_inv X E U s1" using f(2) Suc.prems(2) given_close_inv by (auto split: if_splits)
  have "\<exists>g. filess s1 = filess (upd_file p i g s)"
  proof (cases "f_status f = FD_OPENED")
    case True
    then show ?thesis using close_other [OF _ Suc.prems(2)] f(2) by simp
  next
    case False
    then have "filess s1 = filess (upd_file p i (\<lambda>f. f) s)" using f(2) by (auto simp: upd_file_def option.map_ident)
    then show ?thesis by blast
  qed
  then obtain g where g: "filess s1 = filess (upd_file p i g s)" by blast
  have other: "get_file p j s1 = get_file p j s" if "j \<noteq> i" for j
    using g that get_upd [of p j p i g s] by (simp add: get_file_def)
  have cwd: "map_option pwd (filess s1 p) = map_option pwd (filess s p)"
    using g by (auto simp: upd_file_def option.map_comp comp_def)
  have IH: "given_inv X E U t" "\<And>j f. Suc i \<le> j \<Longrightarrow> j < Suc i + k \<Longrightarrow> get_file p j t = Some f \<Longrightarrow> f_status f = FD_NONE"
      "\<And>j. j < Suc i \<Longrightarrow> get_file p j t = get_file p j s1" "map_option pwd (filess t p) = map_option pwd (filess s1 p)"
    using Suc.IH [OF f(5) s1] by blast+
  have "f_status h = FD_NONE" if "i \<le> j" "j < i + Suc k" "get_file p j t = Some h" for j h
    using IH(2) [of j h] IH(3) [of i] f(3,4) that by (cases "j = i") auto
  moreover have "get_file p j t = get_file p j s" if "j < i" for j using IH(3) [of j] other [of j] that by simp
  ultimately show ?case using IH(1,4) cwd by auto
qed auto

lemma destroy_inv:
  assumes "files_destroy p s = Some t" "files_inv X U s" "\<And>i. (p, i) \<notin># U"
  shows "files_inv X U t"
proof -
  obtain fp s1 s2 where fp: "filess s p = Some fp"
      and s1: "(case pwd fp of None \<Rightarrow> Some s | Some n \<Rightarrow> do { (_, s) \<leftarrow> inode_ref_dec n s; Some s }) = Some s1"
      and s2: "destroy_loop p 0 FILES_STRUCT_NENTRY s1 = Some s2" and t: "t = s2\<lparr>filess := (filess s2)(p := None)\<rparr>"
    using assms(1) by (auto simp: files_destroy_def bind_eq_Some_conv)
  let ?E = "\<lambda>n. if pwd fp = Some n then 1 else 0 :: nat"
  have g1: "given_inv X ?E U s1 \<and> filess s1 p = Some fp"
  proof (cases "pwd fp")
    case None
    then show ?thesis using s1 assms(2) fp by (simp add: given_none)
  next
    case (Some n)
    then obtain q where q: "inode_ref_dec n s = Some (q, s1)" using s1 by (auto simp: bind_eq_Some_conv)
    have "p \<in> cwds s n" "finite (cwds s n)"
      using fp Some files_invD(1) [OF assms(2)] by (auto simp: cwds_def tab_ok_def dom_def elim!: finite_subset [rotated])
    then have "0 < card (cwds s n)" by (auto simp: card_gt_0_iff)
    then have "opens s n < refs X s n" by (simp add: opens_def refs_def)
    then have h: "held (dev_nodes s) (one_less n (refs X s)) (opens s) s1" "frame s s1"
      using ref_dec_held [OF q files_invD(2) [OF assms(2)]] by blast+
    moreover have "one_less n (refs X s) = (\<lambda>m. refs X s m - ?E m)" using Some by auto
    ultimately show ?thesis
      using frame_vfs [OF h(2)] fp unlocked_frame [OF files_invD(3) [OF assms(2)] h(2)] files_invD(1) [OF assms(2)]
      by (simp add: given_inv_def)
  qed
  obtain fp2 where g2: "given_inv X ?E U s2" "\<And>j f. j < FILES_STRUCT_NENTRY \<Longrightarrow> get_file p j s2 = Some f \<Longrightarrow> f_status f = FD_NONE"
      "filess s2 p = Some fp2" "pwd fp2 = pwd fp"
    using destroy_loop_inv [OF s2 conjunct1 [OF g1]] conjunct2 [OF g1] by (cases "filess s2 p") auto
  have len: "length (fd_array fp2) = FILES_STRUCT_NENTRY" using given_invD(1) [OF g2(1)] g2(3) by (auto simp: tab_ok_def)
  have none: "f_status f = FD_NONE" if "get_file p j s2 = Some f" for j f
    using g2(2) [of j f] that g2(3) len by (auto simp: get_file_def split: if_splits)
  have g: "get_file q j t = (if q = p then None else get_file q j s2)" for q j by (simp add: t get_file_def)
  have "uses t n = uses s2 n" for n
    unfolding uses_def g using none by (auto simp: in_use_def split: if_splits)
  moreover have c: "cwds t n = cwds s2 n - {p}" for n by (auto simp: t cwds_def)
  have fin: "finite (cwds s2 n)" for n
    using given_invD(1) [OF g2(1)] by (auto simp: cwds_def tab_ok_def dom_def elim!: finite_subset [rotated])
  have "card (cwds t n) + ?E n = card (cwds s2 n)" for n
  proof -
    have "p \<in> cwds s2 n \<longleftrightarrow> pwd fp = Some n" using g2(3,4) by (auto simp: cwds_def)
    then show ?thesis using card_Suc_Diff1 [OF fin [of n], of p] by (auto simp: c)
  qed
  moreover have "bootfs_node t = bootfs_node s2" "dev_nodes t = dev_nodes s2" by (simp_all add: t dev_nodes_def)
  ultimately have "refs X t n + ?E n = refs X s2 n" "opens t n = opens s2 n" for n
    unfolding refs_def opens_def by (simp_all add: algebra_simps)
  then have "refs X t n = refs X s2 n - ?E n" "opens t n = opens s2 n" for n by (metis add_diff_cancel_right')+
  then have "refs X t = (\<lambda>n. refs X s2 n - ?E n)" "opens t = opens s2" by auto
  moreover have "dev_nodes t = dev_nodes s2" "unlocked t" using given_invD(3) [OF g2(1)] by (simp_all add: t dev_nodes_def unlocked_def)
  moreover have "tab_ok U t"
    using given_invD(1) [OF g2(1)] assms(3) unfolding tab_ok_def g by (auto simp: t split: if_splits)
  ultimately show ?thesis
    using given_invD(2) [OF g2(1)] held_cong [of t s2] by (simp add: files_inv_def) (simp add: t)
qed

section \<open>The working directory and the boot file system\<close>

lemma table_upd:
  assumes "filess s p = Some fp" "filess t = (filess s)(p \<mapsto> fp')" "fd_array fp' = fd_array fp" "pwd fp' = pwd fp"
    and "bootfs_node t = bootfs_node s" "vdev_list t = vdev_list s"
  shows "refs X t = refs X s" "opens t = opens s" "dev_nodes t = dev_nodes s" "tab_ok U t = tab_ok U s" "get_file q i t = get_file q i s"
proof -
  show g: "get_file q i t = get_file q i s" for q i using assms(1-3) by (auto simp: get_file_def)
  have "uses t = uses s" "cwds t = cwds s" using g assms(1,2,4) by (auto simp: uses_def cwds_def fun_eq_iff)
  then show "refs X t = refs X s" "opens t = opens s" "dev_nodes t = dev_nodes s" using assms(5,6) by (simp_all add: refs_def opens_def dev_nodes_def fun_eq_iff)
  show "tab_ok U t = tab_ok U s" using g assms(1-3) by (auto simp: tab_ok_def)
qed

text \<open>The invariant while the caller holds one more reference to \<open>n\<close>.\<close>

definition with_ref :: "nat multiset \<Rightarrow> nat \<Rightarrow> (nat \<times> nat) multiset \<Rightarrow> vfs \<Rightarrow> bool" where
  "with_ref X n U s \<longleftrightarrow> tab_ok U s \<and> held (dev_nodes s) (one_more n (refs X s)) (opens s) s \<and> unlocked s"

lemma with_ref_cong:
  assumes "inodes t = inodes s" "next_inode t = next_inode s" "fss t = fss s"
    and "refs X t = refs X s" "opens t = opens s" "dev_nodes t = dev_nodes s" "tab_ok U t = tab_ok U s"
  shows "with_ref X n U t = with_ref X n U s" "files_inv X U t = files_inv X U s"
  using held_cong [OF assms(1-3)] assms by (simp_all add: with_ref_def files_inv_def unlocked_def)

lemma lookup_with_ref:
  assumes "held (dev_nodes s) (one_more n (refs X s)) (opens s) t" "frame s t" "files_inv X U s"
  shows "with_ref X n U t"
  using assms frame_vfs [OF assms(2)] unlocked_frame [OF files_invD(3) [OF assms(3)] assms(2)] by (simp add: with_ref_def files_inv_def)

lemma drop_ref_inv:
  assumes "inode_ref_dec n s = Some (q, t)" "with_ref X n U s"
  shows "files_inv X U t"
proof -
  have "opens s k \<le> refs X s k" for k by (simp add: opens_def refs_def)
  then have "held (dev_nodes s) (refs X s) (opens s) t" "frame s t"
    using drop_temp [OF assms(1), of "dev_nodes s" "refs X s" "opens s"] assms(2) by (auto simp: with_ref_def)
  then show ?thesis
    using frame_vfs [of s t] unlocked_frame [of s t] assms(2) by (simp add: with_ref_def files_inv_def)
qed

text \<open>Setting the working directory; the caller keeps its reference.\<close>

lemma change_curdir_inv:
  assumes t: "change_curdir (pwd fp) (Some n) s = Some (ret, t)" and inv: "with_ref X n U s"
    and fp: "filess s (cur_files s) = Some fp" "pwd fp \<noteq> Some n"
  shows "with_ref X n U t \<and> cur_files t = cur_files s \<and> filess t = (if ret = 0 then (filess s)(cur_files s \<mapsto> fp\<lparr>pwd := Some n\<rparr>) else filess s)"
proof -
  let ?p = "cur_files s"
  consider "ret \<noteq> 0" "t = s" | r s1 where "ret = 0" "inode_ref_inc n s = Some (r, s1)"
      "do { s \<leftarrow> set_cwd_nolock (Some n) s1;
        case pwd fp of None \<Rightarrow> Some (0, s) | Some n \<Rightarrow> do { (_, s) \<leftarrow> inode_ref_dec n s; Some (0 :: int, s) } } = Some (ret, t)"
    using t by (auto simp: change_curdir_def bind_eq_Some_conv E_NOTDIR_def split: if_splits option.splits)
  then show ?thesis
  proof cases
    case 1
    then show ?thesis using inv by simp
  next
    case 2
    have h0: "held (dev_nodes s) (one_more n (refs X s)) (opens s) s" using inv by (simp add: with_ref_def)
    have h1: "held (dev_nodes s) (one_more n (one_more n (refs X s))) (opens s) s1" "frame s s1"
      using ref_inc_held [OF 2(2) h0] by blast+
    note F1 = frame_vfs [OF h1(2)]
    let ?s2 = "s1\<lparr>filess := (filess s)(?p \<mapsto> fp\<lparr>pwd := Some n\<rparr>)\<rparr>"
    have t2: "(case pwd fp of None \<Rightarrow> Some (0, ?s2) | Some m \<Rightarrow> do { (_, s) \<leftarrow> inode_ref_dec m ?s2; Some (0 :: int, s) }) = Some (ret, t)"
      using 2(3) fp(1) F1 by (simp add: set_cwd_nolock_def)
    have fin: "finite (dom (filess s))" using inv by (simp add: with_ref_def tab_ok_def)
    have P: "refs X ?s2 = (case pwd fp of None \<Rightarrow> one_more n (refs X s) | Some m \<Rightarrow> one_less m (one_more n (refs X s)))"
        "opens ?s2 = opens s" "dev_nodes ?s2 = dev_nodes s" "tab_ok U ?s2 = tab_ok U s"
      using pwd_refs [OF fin fp, of ?s2] F1 by simp_all
    have h2: "held (dev_nodes s) (one_more n (one_more n (refs X s))) (opens s) ?s2" using h1(1) held_cong [of ?s2 s1] by simp
    have u: "unlocked ?s2" using inv unlocked_frame [OF _ h1(2)] by (simp add: with_ref_def unlocked_def)
    show ?thesis
    proof (cases "pwd fp")
      case None
      then show ?thesis using t2 h2 u P inv F1 2(1) by (auto simp: with_ref_def)
    next
      case (Some m)
      obtain q' where d: "inode_ref_dec m ?s2 = Some (q', t)" using t2 Some by (auto simp: bind_eq_Some_conv)
      have "?p \<in> cwds s m" "finite (cwds s m)"
        using fp Some fin by (auto simp: cwds_def dom_def elim!: finite_subset [rotated])
      then have "0 < card (cwds s m)" by (auto simp: card_gt_0_iff)
      then have "opens s m < one_more n (one_more n (refs X s)) m" by (simp add: opens_def refs_def)
      then have h3: "held (dev_nodes s) (one_less m (one_more n (one_more n (refs X s)))) (opens s) t" "frame ?s2 t"
        using ref_dec_held [OF d h2] by blast+
      have "m \<noteq> n" using fp(2) Some by auto
      then have "one_less m (one_more n (one_more n (refs X s))) = one_more n (refs X ?s2)" using P(1) Some by (auto simp: fun_eq_iff)
      then show ?thesis
        using h3 frame_vfs [OF h3(2)] P(2-4) inv unlocked_frame [OF u h3(2)] F1 2(1) by (simp add: with_ref_def)
    qed
  qed
qed

lemma set_curdir_inv:
  assumes "vfs_set_curdir (Some n) s = Some (ret, t)" "with_ref X n U s"
  shows "with_ref X n U t \<and> cur_files t = cur_files s \<and> (ret = 0 \<longrightarrow> (\<exists>fp. filess t (cur_files s) = Some fp \<and> pwd fp = Some n))"
proof -
  let ?p = "cur_files s"
  obtain fp where fp: "filess s ?p = Some fp" "0 < files_sem fp"
    using assms(1) by (auto simp: vfs_set_curdir_def lock_cfs_def lock_files_def bind_eq_Some_conv split: if_splits)
  let ?fp = "fp\<lparr>files_sem := files_sem fp - 1\<rparr>"
  let ?s = "s\<lparr>filess := (filess s)(?p \<mapsto> ?fp)\<rparr>"
  have s: "with_ref X n U ?s" using with_ref_cong [of ?s s] table_upd [OF fp(1), of ?s ?fp] assms(2) by simp
  obtain r s1 where s1: "(if pwd fp \<noteq> Some n then change_curdir (pwd ?fp) (Some n) ?s else Some (0, ?s)) = Some (ret, s1)"
      "unlock_cfs s1 = Some t"
    using assms(1) fp
    by (auto simp: vfs_set_curdir_def lock_cfs_def lock_files_def get_cwd_nolock_def bind_eq_Some_conv)
  have c: "with_ref X n U s1 \<and> cur_files s1 = ?p \<and> (\<exists>fp1. filess s1 ?p = Some fp1 \<and> (ret = 0 \<longrightarrow> pwd fp1 = Some n))"
  proof (cases "pwd fp = Some n")
    case True
    then show ?thesis using s1(1) s by auto
  next
    case False
    then have "change_curdir (pwd ?fp) (Some n) ?s = Some (ret, s1)" using s1(1) by simp
    from change_curdir_inv [OF this s] show ?thesis using False by (auto split: if_splits)
  qed
  then obtain fp1 where fp1: "filess s1 ?p = Some fp1" "ret = 0 \<longrightarrow> pwd fp1 = Some n" by blast
  then have t: "t = s1\<lparr>filess := (filess s1)(?p \<mapsto> fp1\<lparr>files_sem := files_sem fp1 + 1\<rparr>)\<rparr>"
    using s1(2) c by (simp add: unlock_cfs_def unlock_files_def)
  show ?thesis using with_ref_cong [of t s1] table_upd [OF fp1(1), of t] c fp1 t by auto
qed

lemma chdir_inv:
  assumes "vfs_chdir path s = Some (ret, path', t)" "files_inv X U s"
  shows "files_inv X U t \<and> cur_files t = cur_files s"
proof -
  obtain r path1 n s1 where l: "vfs_lookup path s = Some (r, path1, n, s1)" using assms(1) by (auto simp: vfs_chdir_def bind_eq_Some_conv)
  have h: "held (dev_nodes s) (if r = 0 then one_more n (refs X s) else refs X s) (opens s) s1" "frame s s1"
    using vfs_lookup_held [OF l files_invD(2) [OF assms(2)]] by auto
  show ?thesis
  proof (cases "r = 0")
    case False
    then have "t = s1" using assms(1) l by (auto simp: vfs_chdir_def)
    then show ?thesis using frame_inv [OF assms(2) h(2)] h(1) False frame_vfs(4) [OF h(2)] by simp
  next
    case True
    then obtain r2 s2 q where s2: "vfs_set_curdir (Some n) s1 = Some (r2, s2)" "inode_ref_dec n s2 = Some (q, t)"
      using assms(1) l by (auto simp: vfs_chdir_def bind_eq_Some_conv)
    have "with_ref X n U s1" by (rule lookup_with_ref [OF _ h(2) assms(2)]) (use h(1) True in simp)
    then have w: "with_ref X n U s2" "cur_files s2 = cur_files s" using set_curdir_inv [OF s2(1)] frame_vfs(4) [OF h(2)] by auto
    have "held (dev_nodes s2) (one_more n (refs X s2)) (opens s2) s2" using w(1) by (simp add: with_ref_def)
    then have "frame s2 t" using drop_temp [OF s2(2), of "dev_nodes s2" "refs X s2" "opens s2"] by (auto simp: opens_def refs_def)
    then show ?thesis using drop_ref_inv [OF s2(2) w(1)] frame_vfs(4) w(2) by simp
  qed
qed

lemma boot_upd:
  assumes "s' = s\<lparr>bootfs_node := b\<rparr>"
  shows "refs X s' = (\<lambda>n. refs X s n - (if bootfs_node s = Some n then 1 else 0) + (if b = Some n then 1 else 0))"
    and "opens s' = opens s" "dev_nodes s' = dev_nodes s" "tab_ok U s' = tab_ok U s"
proof -
  have g: "get_file p i s' = get_file p i s" for p i by (simp add: assms get_file_def)
  have u: "uses s' = uses s" "cwds s' = cwds s" using g by (simp_all add: assms uses_def cwds_def fun_eq_iff)
  show d: "dev_nodes s' = dev_nodes s" by (simp add: assms dev_nodes_def)
  show "opens s' = opens s" using u by (simp add: opens_def fun_eq_iff)
  show "refs X s' = (\<lambda>n. refs X s n - (if bootfs_node s = Some n then 1 else 0) + (if b = Some n then 1 else 0))"
    using u d by (auto simp: refs_def fun_eq_iff assms)
  show "tab_ok U s' = tab_ok U s" using g by (simp add: tab_ok_def assms)
qed

lemma change_bootfs_inv:
  assumes "change_bootfs b s = Some t" "case b of None \<Rightarrow> files_inv X U s | Some n \<Rightarrow> with_ref X n U s"
  shows "files_inv X U t"
proof -
  let ?s = "s\<lparr>bootfs_node := b\<rparr>"
  have t: "(case bootfs_node s of None \<Rightarrow> Some ?s | Some m \<Rightarrow> do { (_, s) \<leftarrow> inode_ref_dec m ?s; Some s }) = Some t"
    using assms(1) by (auto simp: change_bootfs_def lock_bootfs_def unlock_bootfs_def bind_eq_Some_conv Let_def split: if_splits option.splits)
  define R where "R = (case b of None \<Rightarrow> refs X s | Some n \<Rightarrow> one_more n (refs X s))"
  have "held (dev_nodes s) R (opens s) s" "unlocked s" "tab_ok U s"
    using assms(2) by (auto simp: R_def files_inv_def with_ref_def split: option.splits)
  then have h: "held (dev_nodes s) R (opens s) ?s" "unlocked ?s" "tab_ok U ?s"
    using held_cong [of ?s s] boot_upd [OF refl, where s = s] by (auto simp: unlocked_def)
  show ?thesis
  proof (cases "bootfs_node s")
    case None
    then have "refs X ?s = R" using boot_upd [OF refl, where s = s] by (auto simp: R_def fun_eq_iff split: option.splits)
    moreover have "t = ?s" using t None by simp
    ultimately show ?thesis using h boot_upd(2,3) [where s' = t and s = s and b = b] by (simp add: files_inv_def)
  next
    case (Some m)
    obtain q where q: "inode_ref_dec m ?s = Some (q, t)" using t Some by (auto simp: bind_eq_Some_conv)
    have "opens s m < refs X s m" using Some by (simp add: opens_def refs_def)
    then have "opens s m < R m" by (auto simp: R_def split: option.splits)
    then have h2: "held (dev_nodes s) (one_less m R) (opens s) t" "frame ?s t" using ref_dec_held [OF q h(1)] by blast+
    have "0 < refs X s m" using Some by (simp add: refs_def)
    then have "refs X ?s = one_less m R" using boot_upd [OF refl, where s = s] Some by (auto simp: R_def fun_eq_iff split: option.splits)
    then show ?thesis
      using h2 h frame_vfs [OF h2(2)] unlocked_frame [OF h(2) h2(2)] boot_upd [OF refl, where s = s] by (simp add: files_inv_def)
  qed
qed

lemma set_bootfs_inv:
  assumes "vfs_set_bootfs name s = Some (ret, t)" "files_inv X U s"
  shows "files_inv X U t"
proof -
  consider "t = s" | "change_bootfs None s = Some t"
    | path path' r s1 where "vfs_chdir path s = Some (r, path', s1)" "r \<noteq> 0" "t = s1"
    | path path' s1 r n s2 where "vfs_chdir path s = Some (0, path', s1)" "vfs_get_curdir s1 = Some (r, n, s2)" "r \<noteq> 0" "t = s2"
    | path path' s1 n s2 where "vfs_chdir path s = Some (0, path', s1)" "vfs_get_curdir s1 = Some (0, n, s2)" "change_bootfs (Some n) s2 = Some t"
    using assms(1) by (auto simp: vfs_set_bootfs_def bind_eq_Some_conv split: if_splits option.splits)
  then show ?thesis
  proof cases
    case 1
    then show ?thesis using assms(2) by simp
  next
    case 2
    then show ?thesis using change_bootfs_inv assms(2) by simp
  next
    case 3
    then show ?thesis using chdir_inv assms(2) by blast
  next
    case 4
    have s1: "files_inv X U s1" using chdir_inv [OF 4(1) assms(2)] by simp
    have "held (dev_nodes s1) (refs X s1) (opens s1) s2" "frame s1 s2" using get_curdir_held [OF 4(2) files_invD(2) [OF s1]] 4(3) by auto
    then show ?thesis using frame_inv [OF s1] 4(4) by simp
  next
    case 5
    have s1: "files_inv X U s1" using chdir_inv [OF 5(1) assms(2)] by simp
    have "held (dev_nodes s1) (one_more n (refs X s1)) (opens s1) s2" "frame s1 s2" using get_curdir_held [OF 5(2) files_invD(2) [OF s1]] by auto
    then have "with_ref X n U s2" by (rule lookup_with_ref [OF _ _ s1])
    then show ?thesis using change_bootfs_inv [OF 5(3)] by simp
  qed
qed

section \<open>Steps\<close>

text \<open>Operations on the inode of a file in use.\<close>

inductive content_op :: "nat \<Rightarrow> vfs \<Rightarrow> vfs \<Rightarrow> bool" where
  "vop_read n iob s = Some (r, t) \<Longrightarrow> iob_ok iob \<Longrightarrow> content_op n s t"
| "vop_write n iob s = Some (r, t) \<Longrightarrow> iob_ok iob \<Longrightarrow> content_op n s t"
| "vop_tryseek n pos s = Some (ret, t) \<Longrightarrow> content_op n s t"
| "vop_fsync n s = Some (ret, t) \<Longrightarrow> content_op n s t"
| "vop_getdirentry n iob s = Some (r, t) \<Longrightarrow> content_op n s t"

text \<open>A step of the system: an operation begins to use an entry, works on its inode, moves its position, or
  releases it; a process opens, closes or duplicates a descriptor, changes its directory or the boot file system,
  forks, closes its files to run another program, leaves its table or destroys it as the last one; another process
  runs.\<close>

inductive file_step :: "vfs \<times> (nat \<times> nat) multiset \<times> nat multiset \<Rightarrow> vfs \<times> (nat \<times> nat) multiset \<times> nat multiset \<Rightarrow> bool" where
  "file_begin fd allowed s = Some (Inr i, t) \<Longrightarrow> file_step (s, U, X) (t, add_mset (cur_files s, i) U, X)"
| "(p, i) \<in># U \<Longrightarrow> get_file p i s = Some f \<Longrightarrow> f_node f = Some n \<Longrightarrow> content_op n s t \<Longrightarrow> file_step (s, U, X) (t, U, X)"
| "(p, i) \<in># U \<Longrightarrow> file_step (s, U, X) (upd_file p i (\<lambda>f. f\<lparr>f_pos := pos\<rparr>) s, U, X)"
| "(p, i) \<in># U \<Longrightarrow> fd_array_release p i s = Some t \<Longrightarrow> file_step (s, U, X) (t, U - {#(p, i)#}, X)"
| "file_open path fl s = Some (r, t) \<Longrightarrow> file_step (s, U, X) (t, U, file_leak path fl s + X)"
| "file_close fd s = Some (r, t) \<Longrightarrow> file_step (s, U, X) (t, U, X)"
| "file_dup fd1 fd2 s = Some (r, t) \<Longrightarrow> file_step (s, U, X) (t, U, X)"
| "vfs_chdir path s = Some (r, path', t) \<Longrightarrow> file_step (s, U, X) (t, U, X)"
| "vfs_set_bootfs name s = Some (r, t) \<Longrightarrow> file_step (s, U, X) (t, U, X)"
| "filess s p = None \<Longrightarrow> files_create p mem s = (True, s1) \<Longrightarrow> file_step (s, U, X) (s1, U, X)"
| "filess s p = None \<Longrightarrow> files_create p mem s = (True, s1) \<Longrightarrow> dup_files p q s1 = Some (r, t) \<Longrightarrow> file_step (s, U, X) (t, U, X)"
| "files_closeall p s = Some t \<Longrightarrow> file_step (s, U, X) (t, U, X)"
| "filess s p = Some fp \<Longrightarrow> file_step (s, U, X) (s\<lparr>filess := (filess s)(p \<mapsto> fp\<lparr>fs_count := c\<rparr>)\<rparr>, U, X)"
| "files_destroy p s = Some t \<Longrightarrow> \<forall>i. (p, i) \<notin># U \<Longrightarrow> file_step (s, U, X) (t, U, X)"
| "file_step (s, U, X) (s\<lparr>cur_files := p\<rparr>, U, X)"

lemma content_inv:
  assumes "content_op n s t" "files_inv X U s"
  shows "files_inv X U t"
proof -
  have "vnodes_inv t \<and> keeps s t"
    using assms(1) heldD(1) [OF files_invD(2) [OF assms(2)]]
    by (cases rule: content_op.cases) (auto dest: vop_read_inv vop_write_inv vop_tryseek_inv vop_fsync_inv vop_getdirentry_inv)
  then show ?thesis
    using frame_inv [OF assms(2)] held_keeps [OF files_invD(2) [OF assms(2)]] by (auto simp: keeps_def)
qed

lemma file_step_inv: "file_step x y \<Longrightarrow> files_inv (snd (snd x)) (fst (snd x)) (fst x) \<Longrightarrow> files_inv (snd (snd y)) (fst (snd y)) (fst y)"
proof (induction rule: file_step.induct)
  case (1 fd allowed s i t U X)
  then show ?case using begin_inv [OF 1(1), of X U] by simp
next
  case (3 p i U s X pos)
  then have inv: "files_inv X U s" by simp
  obtain f where f: "get_file p i s = Some f" using files_user [OF inv 3(1)] by metis
  then show ?case
    using files_inv_upd [OF inv f, of U "\<lambda>f. f\<lparr>f_pos := pos\<rparr>"] files_entry [OF inv f]
    by (simp add: entry_ok_def in_use_def cong: fd_status.case_cong)
next
  case (11 s p mem s1 q r t U X)
  then show ?case using create_inv [OF 11(2) _ 11(1), of X U] dup_files_inv [OF 11(3), of X U] by auto
next
  case (13 s p fp U X c)
  let ?t = "s\<lparr>filess := (filess s)(p \<mapsto> fp\<lparr>fs_count := c\<rparr>)\<rparr>"
  show ?case using 13 with_ref_cong(2) [of ?t s] table_upd [OF 13(1), of ?t "fp\<lparr>fs_count := c\<rparr>"] by simp
next
  case (15 s U X p)
  let ?t = "s\<lparr>cur_files := p\<rparr>"
  have "uses ?t = uses s" "cwds ?t = cwds s" "dev_nodes ?t = dev_nodes s" by (simp_all add: uses_def cwds_def dev_nodes_def get_file_def fun_eq_iff)
  then have "refs X ?t = refs X s" "opens ?t = opens s" "tab_ok U ?t = tab_ok U s" "dev_nodes ?t = dev_nodes s"
    by (simp_all add: refs_def opens_def tab_ok_def get_file_def fun_eq_iff)
  then show ?case using 15 with_ref_cong(2) [of ?t s] by simp
qed (auto dest: content_inv release_inv file_open_inv file_close_inv file_dup_inv chdir_inv set_bootfs_inv create_inv closeall_inv destroy_inv)

section \<open>Progress\<close>

lemma refs_opens:
  assumes "files_inv X U s" "get_file p i s = Some f" "in_use f" "f_node f = Some n"
  shows "0 < opens s n" "n \<in> dev_nodes s \<Longrightarrow> 1 < refs X s n" "\<exists>nd. inodes s n = Some nd \<and> 0 < open_count nd"
proof -
  have "(p, i) \<in> uses s n" using assms(2-4) by (auto simp: uses_def)
  then show o: "0 < opens s n" using finite_uses [OF files_invD(1) [OF assms(1)]] by (auto simp: opens_def card_gt_0_iff)
  then show "1 < refs X s n" if "n \<in> dev_nodes s" using that by (simp add: refs_def opens_def)
  note H = files_invD(2) [OF assms(1)]
  have "0 < refs X s n" using o heldD(2) [OF H, of n] by linarith
  then obtain nd where nd: "inodes s n = Some nd" using heldD(3) [OF H] by blast
  then show "\<exists>nd. inodes s n = Some nd \<and> 0 < open_count nd" using heldD(4) [OF H nd] o by simp
qed

lemma free_total:
  assumes "files_inv X U s" "get_file p i s = Some f" "in_use f" "f_node f = Some n" "in_range n s"
    and "f_status (g f) = FD_CLOSED" "f_node (g f) = Some n" "f_open_count (g f) = 0"
  shows "\<exists>t. fd_array_free p i (upd_file p i g s) = Some t"
proof -
  have "\<exists>t. vfs_close n (upd_file p i g s) = Some (0, t)"
    by (rule vfs_close_total [of "dev_nodes s" "refs X s" "opens s"])
      (use refs_opens [OF assms(1-4)] files_invD [OF assms(1)] assms(5) in \<open>auto simp: in_range_def\<close>)
  then show ?thesis using assms(2,6-8) by (auto simp: fd_array_free_def get_upd)
qed

lemma release_total:
  assumes "files_inv X U s" "(p, i) \<in># U" "get_file p i s = Some f" "f_node f = Some n" "in_range n s"
  shows "\<exists>t. fd_array_release p i s = Some t"
proof -
  obtain f' n' where f': "get_file p i s = Some f'" "in_use f'" "f_node f' = Some n'" "0 < f_open_count f'"
      "f_status f' = FD_OPENED \<longrightarrow> 1 < f_open_count f'" "f_status f' = FD_CLOSED \<longrightarrow> f_open_count f' = int (count U (p, i))"
    by (rule files_user [OF assms(1,2)])
  then have f: "in_use f" "0 < f_open_count f" "f_status f = FD_OPENED \<longrightarrow> 1 < f_open_count f" using assms(3) by auto
  show ?thesis
  proof (cases "f_open_count f = 1")
    case True
    then have "f_status f = FD_CLOSED" using f by (auto simp: in_use_def)
    then have "\<exists>t. fd_array_free p i (upd_file p i fopen_count_dec s) = Some t"
      by (intro free_total [OF assms(1,3) f(1) assms(4,5)]) (use True assms(4) in \<open>auto simp: fopen_count_dec_def\<close>)
    then show ?thesis using assms(3) f True by (auto simp: fd_array_release_def in_use_def)
  next
    case False
    then show ?thesis using assms(3) f by (auto simp: fd_array_release_def in_use_def)
  qed
qed

lemma close_total:
  assumes "files_inv X U s" "get_file p i s = Some f" "f_status f = FD_OPENED" "f_node f = Some n" "in_range n s"
  shows "\<exists>t. fd_array_close p i s = Some t"
proof -
  have e: "f_open_count f = int (count U (p, i)) + 1" using files_entry [OF assms(1,2)] assms(3) by (simp add: entry_ok_def)
  have u: "in_use f" using assms(3) by (simp add: in_use_def)
  let ?g = "\<lambda>f. fopen_count_dec (f\<lparr>f_status := FD_CLOSED\<rparr>)"
  show ?thesis
  proof (cases "f_open_count f = 1")
    case True
    then have "\<exists>t. fd_array_free p i (upd_file p i ?g s) = Some t"
      by (intro free_total [OF assms(1,2) u assms(4,5)]) (use assms(4) in \<open>auto simp: fopen_count_dec_def\<close>)
    then show ?thesis using assms(2,3) True by (auto simp: fd_array_close_def)
  next
    case False
    then show ?thesis using assms(2,3) e by (auto simp: fd_array_close_def Let_def count_eq_zero_iff)
  qed
qed

lemma fd2file_Inr: "fd2file fd s = Some (Inr i) \<Longrightarrow> \<exists>f. i = nat fd \<and> get_file (cur_files s) i s = Some f \<and> f_status f = FD_OPENED"
  by (auto simp: fd2file_def bind_eq_Some_conv split: if_splits)

lemma alloc_total:
  assumes "files_inv X U s" "get_fd_array s = Some fs"
  shows "\<exists>ret i t. fd_array_alloc fd s = Some (ret, i, t) \<and> (ret = 0 \<longrightarrow> f_status (fs ! i) = FD_NONE \<and> i < length fs)"
proof -
  obtain fp where fp: "filess s (cur_files s) = Some fp" "fs = fd_array fp" "length fs = FILES_STRUCT_NENTRY"
    using assms files_invD(1) [OF assms(1)] by (auto simp: get_fd_array_def bind_eq_Some_conv tab_ok_def)
  have "f_open_count (fs ! i) = 0" if "i < length fs" "f_status (fs ! i) = FD_NONE" for i
    using files_entry [OF assms(1), of "cur_files s" i "fs ! i"] fp that by (simp add: get_file_def entry_ok_def)
  then show ?thesis
    using assms(2) fp
    by (auto simp: fd_array_alloc_def testfd_def get_file_def E_MAX_OPEN_def E_BUSY_def E_INVAL_def split: option.splits dest!: first_free_Some)
qed

lemma dup_total:
  assumes "files_inv X U s" "get_file p i s = Some f" "f_status f = FD_INIT" "get_file q j s = Some src" "f_status src = FD_OPENED"
  shows "\<exists>t. fd_array_dup p i q j s = Some t \<and> get_file p i t \<noteq> None \<and> cur_files t = cur_files s"
proof -
  obtain n where n: "f_node src = Some n" using files_entry [OF assms(1,4)] assms(5) by (auto simp: entry_ok_def)
  obtain nd where nd: "inodes s n = Some nd" using refs_opens(3) [OF assms(1,4) _ n] assms(5) by (auto simp: in_use_def)
  let ?s = "s\<lparr>inodes := (inodes s)(n \<mapsto> nd\<lparr>ref_count := ref_count nd + 1, open_count := open_count nd + 1\<rparr>)\<rparr>"
  have "get_file p i ?s = Some f" using assms(2) by (simp add: get_file_def)
  then show ?thesis
    using assms(2-5) n nd
    by (simp add: fd_array_dup_def inode_ref_inc_def inode_open_inc_def upd_inode_def fd_array_open_def get_upd)
qed

lemma file_dup_total:
  assumes "files_inv X U s" "fd2file fd1 s = Some (Inr j)"
  shows "\<exists>r t. file_dup fd1 fd2 s = Some (r, t)"
proof -
  let ?p = "cur_files s"
  obtain src where src: "get_file ?p j s = Some src" "f_status src = FD_OPENED" using fd2file_Inr [OF assms(2)] by blast
  obtain fs where fs: "get_fd_array s = Some fs" using assms(2) by (auto simp: fd2file_def bind_eq_Some_conv split: if_splits)
  obtain ret i s1 where al: "fd_array_alloc fd2 s = Some (ret, i, s1)" "ret = 0 \<longrightarrow> f_status (fs ! i) = FD_NONE \<and> i < length fs"
    using alloc_total [OF assms(1) fs] by blast
  show ?thesis
  proof (cases "ret = 0")
    case False
    then show ?thesis using assms(2) al by (simp add: file_dup_def)
  next
    case True
    have gi: "get_file ?p i s = Some (fs ! i)" using fs al(2) True by (auto simp: get_fd_array_def get_file_def bind_eq_Some_conv)
    then have "i \<noteq> j" using src al(2) True by auto
    obtain f where s1: "files_inv X U s1" "get_file ?p i s1 = Some f" "f_status f = FD_INIT" "cur_files s1 = ?p" "get_file ?p j s1 = Some src"
      using alloc_inv [OF al(1) assms(1)] True src \<open>i \<noteq> j\<close> by (auto simp: get_upd)
    obtain t where "fd_array_dup ?p i ?p j s1 = Some t" "get_file ?p i t \<noteq> None" "cur_files t = cur_files s1"
      using dup_total [OF s1(1-3,5) src(2)] by blast
    then show ?thesis using assms(2) al True s1(4) by (auto simp: file_dup_def)
  qed
qed

lemma fd_node:
  assumes "files_inv X U s" "fd2file fd s = Some (Inr i)"
  obtains f n nd where "get_file (cur_files s) i s = Some f" "f_status f = FD_OPENED" "f_node f = Some n" "inodes s n = Some nd"
proof -
  obtain f where f: "get_file (cur_files s) i s = Some f" "f_status f = FD_OPENED" using fd2file_Inr [OF assms(2)] by blast
  then obtain n where n: "f_node f = Some n" using files_entry [OF assms(1) f(1)] by (auto simp: entry_ok_def)
  then show ?thesis using that f refs_opens(3) [OF assms(1) f(1) _ n] by (auto simp: in_use_def)
qed

text \<open>C6: in every interleaving of operations on open files (opening, using, closing and duplicating descriptors, forks,
  exits, changes of directory) the counts are exact: the use count of a table entry is the number of operations using it and,
  while it is open, one more; the open count of an inode is the number of entries in use for it; its reference count
  is the number of these entries, of working directories, of device names and of the boot file system that refer to it, plus
  one for every exclusive creation of the existing file, which \<open>vfs_open\<close> refuses without giving its reference back
  (the multiset \<open>X\<close>). Hence an entry in use by an operation always refers to a live, open inode, also after it was closed
  meanwhile. As long as the inode has fewer than 65536 references, releasing and closing the entry does not panic; duplicating
  an open descriptor never panics.\<close>

theorem file_table_safe:
  assumes "file_step\<^sup>*\<^sup>* (s0, {#}, {#}) (s, U, X)" "files_inv {#} {#} s0"
  shows "files_inv X U s \<and>
    (\<forall>n nd. inodes s n = Some nd \<longrightarrow> open_count nd = int (card (uses s n)) \<and>
       ref_count nd = int (card (uses s n) + card (cwds s n) + (if bootfs_node s = Some n then 1 else 0) + (if n \<in> dev_nodes s then 1 else 0) +
         count X n)) \<and>
    (\<forall>p i. (p, i) \<in># U \<longrightarrow> (\<exists>f n nd. get_file p i s = Some f \<and> f_node f = Some n \<and> inodes s n = Some nd \<and> 0 < open_count nd \<and>
       (ref_count nd < MAX_INODE_COUNT \<longrightarrow> (\<exists>t. fd_array_release p i s = Some t \<and> files_inv X (U - {#(p, i)#}) t)))) \<and>
    (\<forall>fd i. fd2file fd s = Some (Inr i) \<longrightarrow> (\<exists>f n nd. get_file (cur_files s) i s = Some f \<and> f_node f = Some n \<and> inodes s n = Some nd \<and>
       (ref_count nd < MAX_INODE_COUNT \<longrightarrow> (\<exists>t. file_close fd s = Some (0, t) \<and> files_inv X U t)) \<and>
       (\<forall>fd2. \<exists>r t. file_dup fd fd2 s = Some (r, t) \<and> files_inv X U t)))"
proof -
  have inv: "files_inv X U s"
    using assms by (induction "(s, U, X)" arbitrary: s U X rule: rtranclp_induct) (auto dest: file_step_inv)
  have counts: "open_count nd = int (opens s n) \<and> ref_count nd = int (refs X s n)" if "inodes s n = Some nd" for n nd
    using heldD(4,5) [OF files_invD(2) [OF inv] that] by simp
  show ?thesis
  proof (intro conjI allI impI)
    fix n nd
    assume "inodes s n = Some nd"
    then show "open_count nd = int (card (uses s n))"
      "ref_count nd = int (card (uses s n) + card (cwds s n) + (if bootfs_node s = Some n then 1 else 0) + (if n \<in> dev_nodes s then 1 else 0) +
         count X n)" using counts [of n nd] by (simp_all add: opens_def refs_def)
  next
    fix p i assume u: "(p, i) \<in># U"
    obtain f n where f: "get_file p i s = Some f" "in_use f" "f_node f = Some n" using files_user [OF inv u] by metis
    obtain nd where nd: "inodes s n = Some nd" "0 < open_count nd" using refs_opens(3) [OF inv f] by blast
    have "\<exists>t. fd_array_release p i s = Some t \<and> files_inv X (U - {#(p, i)#}) t" if "ref_count nd < MAX_INODE_COUNT"
      using release_total [OF inv u f(1,3)] release_inv [OF _ inv u] nd that by (auto simp: in_range_def)
    then show "\<exists>f n nd. get_file p i s = Some f \<and> f_node f = Some n \<and> inodes s n = Some nd \<and> 0 < open_count nd \<and>
        (ref_count nd < MAX_INODE_COUNT \<longrightarrow> (\<exists>t. fd_array_release p i s = Some t \<and> files_inv X (U - {#(p, i)#}) t))"
      using f nd by blast
  next
    fix fd i assume fd: "fd2file fd s = Some (Inr i)"
    obtain f n nd where f: "get_file (cur_files s) i s = Some f" "f_status f = FD_OPENED" "f_node f = Some n" "inodes s n = Some nd"
      by (rule fd_node [OF inv fd])
    have "\<exists>t. file_close fd s = Some (0, t) \<and> files_inv X U t" if "ref_count nd < MAX_INODE_COUNT"
      using close_total [OF inv f(1,2,3)] f(4) that fd close_inv [OF _ inv] by (auto simp: file_close_def in_range_def)
    moreover have "\<exists>r t. file_dup fd fd2 s = Some (r, t) \<and> files_inv X U t" for fd2
      using file_dup_total [OF inv fd] file_dup_inv [OF _ inv] by blast
    ultimately show "\<exists>f n nd. get_file (cur_files s) i s = Some f \<and> f_node f = Some n \<and> inodes s n = Some nd \<and>
       (ref_count nd < MAX_INODE_COUNT \<longrightarrow> (\<exists>t. file_close fd s = Some (0, t) \<and> files_inv X U t)) \<and>
       (\<forall>fd2. \<exists>r t. file_dup fd fd2 s = Some (r, t) \<and> files_inv X U t)" using f by blast
  qed (rule inv)
qed

text \<open>A system with the two console devices; a process opens the console input as descriptor 0, an operation starts to use
  it, and the descriptor is closed before the operation ends.\<close>

definition console_inode :: "devst device \<Rightarrow> inode" where
  "console_inode dev = \<lparr>in_info = device_info dev, ref_count = 1, open_count = 0, in_fs = None, in_ops = dev_node_ops\<rparr>"

definition stdin_name :: "u8 list" where "stdin_name = [0x73, 0x74, 0x64, 0x69, 0x6E]"
definition stdout_name :: "u8 list" where "stdout_name = [0x73, 0x74, 0x64, 0x6F, 0x75, 0x74]"

definition console_vfs :: vfs where
  "console_vfs = \<lparr>inodes = [0 \<mapsto> console_inode (stdin_dev []), 1 \<mapsto> console_inode (stdout_device_init [])], next_inode = 2,
     fss = Map.empty, allocs = [],
     vdev_list = [\<lparr>devname = stdin_name, devnode = Some 0, vdev_fs = None, mountable = False\<rparr>,
       \<lparr>devname = stdout_name, devnode = Some 1, vdev_fs = None, mountable = False\<rparr>],
     vdev_list_sem = 1, bootfs_sem = 1, bootfs_node = None, next_fs = 0, filess = Map.empty, cur_files = 0\<rparr>"

lemma console_vfs_inv: "files_inv {#} {#} console_vfs"
proof -
  let ?s = console_vfs
  have nodes: "inodes ?s n = (if n = 0 then Some (console_inode (stdin_dev [])) else if n = 1 then Some (console_inode (stdout_device_init [])) else None)" for n
    by (simp add: console_vfs_def)
  have g: "get_file p i ?s = None" "filess ?s = Map.empty" "fss ?s = Map.empty" "bootfs_node ?s = None" for p i
    by (simp_all add: console_vfs_def get_file_def)
  have d: "dev_nodes ?s = {0, 1}" by (auto simp: console_vfs_def dev_nodes_def)
  have r: "opens ?s = (\<lambda>_. 0)" "refs {#} ?s = (\<lambda>n. if n \<in> {0, 1} then 1 else 0)"
    using g d by (simp_all add: opens_def refs_def uses_def cwds_def fun_eq_iff)
  have "vnodes_inv ?s"
    unfolding vnodes_inv_def nodes using g(3) by (auto simp: node_ok_def console_inode_def console_vfs_def split: if_splits)
  then have "held {0, 1} (\<lambda>n. if n \<in> {0, 1} then 1 else 0) (\<lambda>_. 0) ?s"
    unfolding held_def nodes by (auto simp: console_inode_def)
  then show ?thesis using g d r by (simp add: files_inv_def tab_ok_def unlocked_def)
qed

text \<open>The states of this run, for a table that starts with entry \<open>f\<close> and console input with the given counts.\<close>

definition console_at :: "file_t list \<Rightarrow> int \<Rightarrow> int \<Rightarrow> vfs" where
  "console_at fs r c = console_vfs\<lparr>inodes := (inodes console_vfs)(0 \<mapsto> (console_inode (stdin_dev []))\<lparr>ref_count := r, open_count := c\<rparr>),
     filess := [0 \<mapsto> \<lparr>pwd = None, fd_array = fs, fs_count = 1, files_sem = 1\<rparr>]\<rparr>"

definition console_file :: "fd_status \<Rightarrow> int \<Rightarrow> file_t" where
  "console_file st k = \<lparr>f_status = st, f_readable = True, f_writable = False, f_fd = 0, f_pos = 0, f_node = Some 0, f_open_count = k\<rparr>"

lemma console_open:
  "f_status f = FD_NONE \<Longrightarrow> f_open_count f = 0 \<Longrightarrow> f_fd f = 0 \<Longrightarrow>
   file_open (stdin_name @ [0x3A]) O_RDONLY (console_at (f # fs) 1 0) = Some (0, console_at (console_file FD_OPENED 1 # fs) 2 1)"
  by (cases f) (simp add: file_open_def fd_array_alloc_def get_fd_array_def console_at_def NO_FD_def get_file_def upd_file_def
      vfs_open_def vfs_lookup_def get_device_def path_mark_def cstr_def colon_char_def slash_char_def stdin_name_def skip_slashes_def
      vfs_get_root_def lock_vdev_list_def unlock_vdev_list_def inode_ref_inc_def upd_inode_def open_found_def vop_open_def vop_op_def
      inode_check_def MAX_INODE_COUNT_def dev_of_def dev_open_def dop_open_def stdin_dev_def stdin_open_def inode_open_inc_def
      fd_array_open_def fopen_count_inc_def console_vfs_def console_inode_def flag_defs Let_def console_file_def)

lemma console_begin:
  "file_begin 0 f_readable (console_at (console_file FD_OPENED 1 # fs) 2 1) = Some (Inr 0, console_at (console_file FD_OPENED 2 # fs) 2 1)"
  by (simp add: file_begin_def fd2file_def testfd_def FILES_STRUCT_NENTRY_def get_fd_array_def get_file_def upd_file_def console_at_def
      console_vfs_def console_file_def fd_array_acquire_def fopen_count_inc_def)

lemma console_close:
  "file_close 0 (console_at (console_file FD_OPENED 2 # fs) 2 1) = Some (0, console_at (console_file FD_CLOSED 1 # fs) 2 1)"
  by (simp add: file_close_def fd2file_def testfd_def FILES_STRUCT_NENTRY_def get_fd_array_def get_file_def upd_file_def console_at_def
      console_vfs_def console_file_def fd_array_close_def fopen_count_dec_def)

lemma console_create:
  "\<exists>fs s1. files_create 0 mem console_vfs = (True, s1) \<and> filess s1 0 = Some \<lparr>pwd = None, fd_array = fs, fs_count = 0, files_sem = 1\<rparr> \<and>
     s1\<lparr>filess := (filess s1)(0 \<mapsto> \<lparr>pwd = None, fd_array = fs, fs_count = 0, files_sem = 1\<rparr>\<lparr>fs_count := 1\<rparr>)\<rparr> = console_at fs 1 0 \<and>
     (\<exists>f fs'. fs = f # fs' \<and> f_status f = FD_NONE \<and> f_open_count f = 0 \<and> f_fd f = 0)"
proof -
  have "[0..<FILES_STRUCT_NENTRY] = 0 # [1..<FILES_STRUCT_NENTRY]" by (simp add: FILES_STRUCT_NENTRY_def upt_conv_Cons)
  then show ?thesis
    by (simp add: files_create_def kmalloc_ok_def console_vfs_def console_at_def fd_array_init_def console_inode_def fun_eq_iff)
qed

lemma console_no_leak: "file_leak path O_RDONLY s = {#}"
  by (auto simp: file_leak_def vfs_leak_def flag_defs split: option.splits)

lemma console_run: "\<exists>fs. file_step\<^sup>*\<^sup>* (console_vfs, {#}, {#}) (console_at (console_file FD_CLOSED 1 # fs) 2 1, {#(0, 0)#}, {#})"
proof -
  obtain fs s1 f fs' where c: "files_create 0 [] console_vfs = (True, s1)" "filess s1 0 = Some \<lparr>pwd = None, fd_array = fs, fs_count = 0, files_sem = 1\<rparr>"
      "s1\<lparr>filess := (filess s1)(0 \<mapsto> \<lparr>pwd = None, fd_array = fs, fs_count = 0, files_sem = 1\<rparr>\<lparr>fs_count := 1\<rparr>)\<rparr> = console_at fs 1 0"
      "fs = f # fs'" "f_status f = FD_NONE" "f_open_count f = 0" "f_fd f = 0"
    using console_create [of "[]"] by blast
  have "file_step (console_vfs, {#}, {#}) (s1, {#}, {#})" by (rule file_step.intros(10) [OF _ c(1)]) (simp add: console_vfs_def)
  moreover have "file_step (s1, {#}, {#}) (console_at fs 1 0, {#}, {#})"
    using file_step.intros(13) [OF c(2), where U = "{#}" and X = "{#}" and c = 1] unfolding c(3) .
  moreover have "file_step (console_at fs 1 0, {#}, {#}) (console_at (console_file FD_OPENED 1 # fs') 2 1, {#}, {#})"
    using file_step.intros(5) [OF console_open [OF c(5-7)], where U = "{#}" and X = "{#}"] c(4) console_no_leak by simp
  moreover have "file_step (console_at (console_file FD_OPENED 1 # fs') 2 1, {#}, {#}) (console_at (console_file FD_OPENED 2 # fs') 2 1, {#(0, 0)#}, {#})"
    using file_step.intros(1) [OF console_begin [of fs'], where U = "{#}" and X = "{#}"] by (simp add: console_at_def console_vfs_def)
  moreover have "file_step (console_at (console_file FD_OPENED 2 # fs') 2 1, {#(0, 0)#}, {#}) (console_at (console_file FD_CLOSED 1 # fs') 2 1, {#(0, 0)#}, {#})"
    by (rule file_step.intros(6) [OF console_close])
  ultimately show ?thesis by (meson converse_rtranclp_into_rtranclp rtranclp.rtrancl_refl)
qed

theorem file_table_safe_witness:
  "\<exists>fs t. file_step\<^sup>*\<^sup>* (console_vfs, {#}, {#}) (console_at (console_file FD_CLOSED 1 # fs) 2 1, {#(0, 0)#}, {#}) \<and>
     fd_array_release 0 0 (console_at (console_file FD_CLOSED 1 # fs) 2 1) = Some t \<and> files_inv {#} {#} t"
proof -
  obtain fs where r: "file_step\<^sup>*\<^sup>* (console_vfs, {#}, {#}) (console_at (console_file FD_CLOSED 1 # fs) 2 1, {#(0, 0)#}, {#})" using console_run by blast
  have "get_file 0 0 (console_at (console_file FD_CLOSED 1 # fs) 2 1) = Some (console_file FD_CLOSED 1)"
      "\<exists>nd. inodes (console_at (console_file FD_CLOSED 1 # fs) 2 1) 0 = Some nd \<and> ref_count nd = 2"
    by (simp_all add: get_file_def console_at_def)
  then show ?thesis
    using file_table_safe [OF r console_vfs_inv] r by (auto simp: console_file_def MAX_INODE_COUNT_def)
qed

end
