(* ===== verification/Sysfile.thy ===== *)
theory Sysfile
  imports File Vma
begin

text \<open>
  The file system calls (\<open>kern/fs/sysfile.c\<close>) and their entries in \<open>kern/syscall/syscall.c\<close>: they move paths, data and
  records between the memory of the calling process and the kernel, and call the virtual file system.

  The state holds the file system, the memory and \<open>current->mm\<close>. A buffer of the kernel is the address at which the call
  gets it from \<open>kmalloc\<close> or on its stack: the argument \<open>buf\<close>; whether \<open>kmalloc\<close> succeeds is decided by the state
  (\<open>kmalloc_ok\<close>). \<open>lock_mm\<close> and \<open>unlock_mm\<close> enclose a single check and copy in every call. The check may also move the cache of
  the last area found, which no later check depends on (\<open>user_mem_check_exact\<close>); the address space is kept as it is. A path
  is also handed to the file system as the bytes copied; what the file system writes into it dies with the buffer.
\<close>

section \<open>State and paths\<close>

record sys =
  sy_vfs :: vfs
  sy_mem :: "u32 \<Rightarrow> u8"
  sy_mm :: "mm_struct option"

definition IOBUF_SIZE :: u32 where "IOBUF_SIZE = 4096"

definition FS_MAX_FPATH_LEN :: u32 where "FS_MAX_FPATH_LEN = 4095"

definition sys_kmalloc :: "sys \<Rightarrow> bool \<times> sys" where
  "sys_kmalloc s = (let (ok, v) = kmalloc_ok (sy_vfs s) in (ok, s\<lparr>sy_vfs := v\<rparr>))"

text \<open>The result is the error code, the path and the state.\<close>

definition copy_path :: "u32 \<Rightarrow> u32 \<Rightarrow> sys \<Rightarrow> int \<times> u8 list \<times> sys" where
  "copy_path buf from s =
     (let (ok, s) = sys_kmalloc s in
      if \<not> ok then (- E_NO_MEM, [], s)
      else let (ok, bs) = copy_string (sy_mem s) (sy_mm s) from (FS_MAX_FPATH_LEN + 1);
               s = s\<lparr>sy_mem := write_mem buf bs (sy_mem s)\<rparr> in
        if \<not> ok then (- E_INVAL, [], s) else (0, bs, s))"

text \<open>Running an operation of the virtual file system.\<close>

definition on_vfs :: "(vfs \<Rightarrow> ('r \<times> vfs) option) \<Rightarrow> sys \<Rightarrow> ('r \<times> sys) option" where
  "on_vfs op s = do { (r, v) \<leftarrow> op (sy_vfs s); Some (r, s\<lparr>sy_vfs := v\<rparr>) }"

definition sysfile_open :: "u32 \<Rightarrow> u32 \<Rightarrow> u32 \<Rightarrow> sys \<Rightarrow> (int \<times> sys) option" where
  "sysfile_open buf from open_flags s =
     (let (ret, path, s) = copy_path buf from s in
      if ret \<noteq> 0 then Some (ret, s) else on_vfs (file_open path open_flags) s)"

definition sysfile_close :: "int \<Rightarrow> sys \<Rightarrow> (int \<times> sys) option" where
  "sysfile_close fd s = on_vfs (file_close fd) s"

section \<open>Reading and writing\<close>

text \<open>The loops return the last error code, the number of bytes copied and the state.\<close>

definition chunk :: "u32 \<Rightarrow> u32" where
  "chunk len = (if IOBUF_SIZE > len then len else IOBUF_SIZE)"

lemma remaining_less:
  fixes len alen :: u32
  assumes "alen \<noteq> 0" "alen \<le> len"
  shows "unat (len - alen) < unat len"
  using assms unat_sub [of alen len] unat_gt_0 [of alen] by (simp add: word_le_nat_alt)

function sysfile_read_loop :: "u32 \<Rightarrow> int \<Rightarrow> u32 \<Rightarrow> u32 \<Rightarrow> u32 \<Rightarrow> int \<Rightarrow> sys \<Rightarrow> (int \<times> u32 \<times> sys) option" where
  "sysfile_read_loop buf fd base len copied ret s =
     (if len = 0 then Some (ret, copied, s)
      else case file_read fd (read_mem (sy_mem s) buf (unat (chunk len))) (unat (chunk len)) (sy_vfs s) of
        None \<Rightarrow> None
      | Some (ret, n, bs, v) \<Rightarrow>
          let alen = of_nat n; s = s\<lparr>sy_vfs := v, sy_mem := write_mem buf bs (sy_mem s)\<rparr> in
          if alen = 0 then Some (ret, copied, s)
          else if \<not> fst (copy_to_user (sy_mm s) base buf alen (sy_mem s)) then
            Some (if ret = 0 then - E_INVAL else ret, copied, s)
          else let s = s\<lparr>sy_mem := snd (copy_to_user (sy_mm s) base buf alen (sy_mem s))\<rparr> in
            if \<not> len \<ge> alen then None
            else if ret \<noteq> 0 then Some (ret, copied + alen, s)
            else sysfile_read_loop buf fd (base + alen) (len - alen) (copied + alen) ret s)"
  by auto

termination
  by (relation "measure (\<lambda>(_, _, _, len, _, _, _). unat len)") (auto intro: remaining_less)

declare sysfile_read_loop.simps [simp del]

definition sysfile_read :: "u32 \<Rightarrow> int \<Rightarrow> u32 \<Rightarrow> u32 \<Rightarrow> sys \<Rightarrow> (int \<times> sys) option" where
  "sysfile_read buf fd base len s =
     (if len = 0 then Some (0, s)
      else do {
        ok \<leftarrow> file_testfd fd True False (sy_vfs s);
        if \<not> ok then Some (- E_INVAL, s)
        else let (ok, s) = sys_kmalloc s in
          if \<not> ok then Some (- E_NO_MEM, s)
          else do {
            (ret, copied, s) \<leftarrow> sysfile_read_loop buf fd base len 0 0 s;
            Some (if copied \<noteq> 0 then sint copied else ret, s)
          }
      })"

function sysfile_write_loop :: "u32 \<Rightarrow> int \<Rightarrow> u32 \<Rightarrow> u32 \<Rightarrow> u32 \<Rightarrow> int \<Rightarrow> sys \<Rightarrow> (int \<times> u32 \<times> sys) option" where
  "sysfile_write_loop buf fd base len copied ret s =
     (if len = 0 then Some (ret, copied, s)
      else if \<not> fst (copy_from_user (sy_mm s) buf base (chunk len) False (sy_mem s)) then Some (- E_INVAL, copied, s)
      else let s = s\<lparr>sy_mem := snd (copy_from_user (sy_mm s) buf base (chunk len) False (sy_mem s))\<rparr> in
        case file_write fd (read_mem (sy_mem s) buf (unat (chunk len))) (unat (chunk len)) (sy_vfs s) of
          None \<Rightarrow> None
        | Some (ret, n, bs, v) \<Rightarrow>
            let alen = of_nat n; s = s\<lparr>sy_vfs := v, sy_mem := write_mem buf bs (sy_mem s)\<rparr> in
            if alen = 0 then Some (ret, copied, s)
            else if \<not> len \<ge> alen then None
            else if ret \<noteq> 0 then Some (ret, copied + alen, s)
            else sysfile_write_loop buf fd (base + alen) (len - alen) (copied + alen) ret s)"
  by auto

termination
  by (relation "measure (\<lambda>(_, _, _, len, _, _, _). unat len)") (auto intro: remaining_less)

declare sysfile_write_loop.simps [simp del]

definition sysfile_write :: "u32 \<Rightarrow> int \<Rightarrow> u32 \<Rightarrow> u32 \<Rightarrow> sys \<Rightarrow> (int \<times> sys) option" where
  "sysfile_write buf fd base len s =
     (if len = 0 then Some (0, s)
      else do {
        ok \<leftarrow> file_testfd fd False True (sy_vfs s);
        if \<not> ok then Some (- E_INVAL, s)
        else let (ok, s) = sys_kmalloc s in
          if \<not> ok then Some (- E_NO_MEM, s)
          else do {
            (ret, copied, s) \<leftarrow> sysfile_write_loop buf fd base len 0 0 s;
            Some (if copied \<noteq> 0 then sint copied else ret, s)
          }
      })"

section \<open>The other calls\<close>

definition sysfile_seek :: "int \<Rightarrow> int \<Rightarrow> int \<Rightarrow> sys \<Rightarrow> (int \<times> sys) option" where
  "sysfile_seek fd pos whence s = on_vfs (file_seek fd pos whence) s"

text \<open>The bytes of \<open>struct stat\<close>, and the copy of a kernel structure at \<open>buf\<close> to the process.\<close>

definition stat_bytes :: "stat \<Rightarrow> u8 list" where
  "stat_bytes st = word_bytes (st_mode st) @ word_bytes (st_nlinks st) @ word_bytes (st_blocks st) @ word_bytes (st_size st)"

definition store_user :: "u32 \<Rightarrow> u32 \<Rightarrow> u32 \<Rightarrow> sys \<Rightarrow> int \<times> sys" where
  "store_user base buf n s =
     (let (ok, m) = copy_to_user (sy_mm s) base buf n (sy_mem s) in (if ok then 0 else - E_INVAL, s\<lparr>sy_mem := m\<rparr>))"

definition sysfile_fstat :: "u32 \<Rightarrow> int \<Rightarrow> u32 \<Rightarrow> sys \<Rightarrow> (int \<times> sys) option" where
  "sysfile_fstat buf fd base s = do {
     (ret, st, v) \<leftarrow> file_fstat fd (sy_vfs s);
     let bs = (case st of Some st \<Rightarrow> stat_bytes st | None \<Rightarrow> []);
     let s = s\<lparr>sy_vfs := v, sy_mem := write_mem buf bs (sy_mem s)\<rparr>;
     Some (if ret \<noteq> 0 then (ret, s) else store_user base buf 16 s)
   }"

definition sysfile_fsync :: "int \<Rightarrow> sys \<Rightarrow> (int \<times> sys) option" where
  "sysfile_fsync fd s = on_vfs (file_fsync fd) s"

definition sysfile_chdir :: "u32 \<Rightarrow> u32 \<Rightarrow> sys \<Rightarrow> (int \<times> sys) option" where
  "sysfile_chdir buf from s =
     (let (ret, path, s) = copy_path buf from s in
      if ret \<noteq> 0 then Some (ret, s)
      else on_vfs (\<lambda>v. do { (ret, _, v) \<leftarrow> vfs_chdir path v; Some (ret, v) }) s)"

text \<open>The two paths are copied into two buffers, and an operation of one or of two paths returns its error code.\<close>

definition sysfile_link :: "u32 \<Rightarrow> u32 \<Rightarrow> u32 \<Rightarrow> u32 \<Rightarrow> sys \<Rightarrow> int \<times> sys" where
  "sysfile_link buf1 buf2 path1 path2 s =
     (let (ret, old_path, s) = copy_path buf1 path1 s in
      if ret \<noteq> 0 then (ret, s)
      else let (ret, new_path, s) = copy_path buf2 path2 s in
        if ret \<noteq> 0 then (ret, s) else (vfs_link, s))"

definition sysfile_rename :: "u32 \<Rightarrow> u32 \<Rightarrow> u32 \<Rightarrow> u32 \<Rightarrow> sys \<Rightarrow> int \<times> sys" where
  "sysfile_rename buf1 buf2 path1 path2 s =
     (let (ret, old_path, s) = copy_path buf1 path1 s in
      if ret \<noteq> 0 then (ret, s)
      else let (ret, new_path, s) = copy_path buf2 path2 s in
        if ret \<noteq> 0 then (ret, s) else (vfs_rename, s))"

definition sysfile_unlink :: "u32 \<Rightarrow> u32 \<Rightarrow> sys \<Rightarrow> int \<times> sys" where
  "sysfile_unlink buf from s =
     (let (ret, path, s) = copy_path buf from s in
      if ret \<noteq> 0 then (ret, s) else (vfs_unlink, s))"

text \<open>The I/O buffer of \<open>getcwd\<close> is the memory of the process itself.\<close>

definition sysfile_getcwd :: "u32 \<Rightarrow> u32 \<Rightarrow> sys \<Rightarrow> (int \<times> sys) option" where
  "sysfile_getcwd buf len s =
     (if len = 0 \<or> \<not> fst (user_mem_check (sy_mm s) buf len True) then Some (- E_INVAL, s)
      else do {
        (ret, iob, v) \<leftarrow> vfs_getcwd (iobuf_init (read_mem (sy_mem s) buf (unat len)) (unat len) 0) (sy_vfs s);
        Some (ret, s\<lparr>sy_vfs := v, sy_mem := write_mem buf (io_buf iob) (sy_mem s)\<rparr>)
      })"

text \<open>A \<open>struct dirent\<close> is the offset and 256 bytes of name.\<close>

definition dirent_at :: "(u32 \<Rightarrow> u8) \<Rightarrow> u32 \<Rightarrow> dirent" where
  "dirent_at m a = \<lparr>d_offset = sint (bytes_word (read_mem m a 4)), d_name = read_mem m (a + 4) 256\<rparr>"

definition dirent_bytes :: "dirent \<Rightarrow> u8 list" where
  "dirent_bytes de = word_bytes (of_int (d_offset de)) @ d_name de"

definition sysfile_getdirentry :: "u32 \<Rightarrow> int \<Rightarrow> u32 \<Rightarrow> sys \<Rightarrow> (int \<times> sys) option" where
  "sysfile_getdirentry buf fd base s =
     (let (ok, s) = sys_kmalloc s in
      if \<not> ok then Some (- E_NO_MEM, s)
      else let (ok, m) = copy_from_user (sy_mm s) buf base 4 True (sy_mem s); s = s\<lparr>sy_mem := m\<rparr> in
        if \<not> ok then Some (- E_INVAL, s)
        else do {
          (ret, de, v) \<leftarrow> file_getdirentry fd (dirent_at (sy_mem s) buf) (sy_vfs s);
          let s = s\<lparr>sy_vfs := v, sy_mem := write_mem buf (dirent_bytes de) (sy_mem s)\<rparr>;
          Some (if ret \<noteq> 0 then (ret, s) else store_user base buf 260 s)
        })"

definition sysfile_dup :: "int \<Rightarrow> int \<Rightarrow> sys \<Rightarrow> (int \<times> sys) option" where
  "sysfile_dup fd1 fd2 s = on_vfs (file_dup fd1 fd2) s"

definition sysfile_pipe :: int where "sysfile_pipe = - E_UNIMP"
definition sysfile_mkfifo :: int where "sysfile_mkfifo = - E_UNIMP"

section \<open>The entries of the table of system calls\<close>

text \<open>The arguments are the words of the registers; \<open>int\<close> parameters are their signed values. A call that needs a kernel
  buffer gets its address first.\<close>

definition sys_open :: "u32 \<Rightarrow> u32 list \<Rightarrow> sys \<Rightarrow> (int \<times> sys) option" where
  "sys_open buf arg s = sysfile_open buf (arg ! 0) (arg ! 1) s"

definition sys_close :: "u32 list \<Rightarrow> sys \<Rightarrow> (int \<times> sys) option" where
  "sys_close arg s = sysfile_close (sint (arg ! 0)) s"

definition sys_read :: "u32 \<Rightarrow> u32 list \<Rightarrow> sys \<Rightarrow> (int \<times> sys) option" where
  "sys_read buf arg s = sysfile_read buf (sint (arg ! 0)) (arg ! 1) (arg ! 2) s"

definition sys_write :: "u32 \<Rightarrow> u32 list \<Rightarrow> sys \<Rightarrow> (int \<times> sys) option" where
  "sys_write buf arg s = sysfile_write buf (sint (arg ! 0)) (arg ! 1) (arg ! 2) s"

definition sys_seek :: "u32 list \<Rightarrow> sys \<Rightarrow> (int \<times> sys) option" where
  "sys_seek arg s = sysfile_seek (sint (arg ! 0)) (sint (arg ! 1)) (sint (arg ! 2)) s"

definition sys_fstat :: "u32 \<Rightarrow> u32 list \<Rightarrow> sys \<Rightarrow> (int \<times> sys) option" where
  "sys_fstat buf arg s = sysfile_fstat buf (sint (arg ! 0)) (arg ! 1) s"

definition sys_fsync :: "u32 list \<Rightarrow> sys \<Rightarrow> (int \<times> sys) option" where
  "sys_fsync arg s = sysfile_fsync (sint (arg ! 0)) s"

definition sys_getcwd :: "u32 list \<Rightarrow> sys \<Rightarrow> (int \<times> sys) option" where
  "sys_getcwd arg s = sysfile_getcwd (arg ! 0) (arg ! 1) s"

definition sys_getdirentry :: "u32 \<Rightarrow> u32 list \<Rightarrow> sys \<Rightarrow> (int \<times> sys) option" where
  "sys_getdirentry buf arg s = sysfile_getdirentry buf (sint (arg ! 0)) (arg ! 1) s"

definition sys_dup :: "u32 list \<Rightarrow> sys \<Rightarrow> (int \<times> sys) option" where
  "sys_dup arg s = sysfile_dup (sint (arg ! 0)) (sint (arg ! 1)) s"

end
