(* ===== verification/Sysfile_Read.thy ===== *)
theory Sysfile_Read
  imports Sysfile Sfs_Read
begin

text \<open>
  The \<open>read\<close> system call on a regular file, from the disk to the memory of the process: the loop of
  \<open>sysfile_read\<close>, the checks and copies of \<open>copy_to_user\<close>, the descriptor, the inode operation and the simple file
  system together deliver the bytes of the file.
\<close>

section \<open>Memory\<close>

lemma write_mem_split:
  assumes "length (xs @ ys) \<le> 2 ^ 32"
  shows "write_mem a (xs @ ys) m = write_mem (a + of_nat (length xs)) ys (write_mem a xs m)"
proof
  fix x
  let ?k = "of_nat (length xs) :: u32"
  have k: "x - (a + ?k) = (x - a) - ?k" by simp
  consider "unat (x - a) < length xs" | "length xs \<le> unat (x - a)" by linarith
  then show "write_mem a (xs @ ys) m x = write_mem (a + ?k) ys (write_mem a xs m) x"
  proof cases
    case 1
    then have ub: "length xs < 2 ^ 32 \<or> ys = []" using assms by (cases ys) auto
    have "\<not> unat (x - a - ?k) < length ys" if ne: "ys \<noteq> []"
    proof -
      have u: "unat ?k = length xs" using ub ne by (simp add: unat_of_nat_small)
      then have "unat (x - a - ?k) = unat (x - a) + 2 ^ 32 - length xs"
        using 1 unat_sub_if' [of "x - a" ?k] by simp
      then show ?thesis using assms by simp
    qed
    then show ?thesis using 1 unfolding write_mem_def k by (cases "ys = []") (auto simp: nth_append)
  next
    case 2
    have "length xs < 2 ^ 32" using 2 unat_bound32 [of "x - a"] by linarith
    then have "unat ?k = length xs" by (simp add: unat_of_nat_small)
    then have "unat (x - a - ?k) = unat (x - a) - length xs" using 2 by (simp add: unat_sub word_le_nat_alt)
    then show ?thesis using 2 unfolding write_mem_def k by (auto simp: nth_append)
  qed
qed

lemma write_mem_Nil [simp]: "write_mem a [] m = m"
  by (simp add: write_mem_def)

lemma read_write_mem:
  assumes "n \<le> length bs" "n \<le> 2 ^ 32"
  shows "read_mem (write_mem a bs m) a n = take n bs"
  using assms by (intro nth_equalityI) (auto simp: read_mem_def write_mem_def unat_of_nat_small)

lemma length_read_mem [simp]: "length (read_mem m a n) = n"
  by (simp add: read_mem_def)

text \<open>A kernel buffer: 4096 bytes above the addresses of user processes.\<close>

definition kernel_buf :: "u32 \<Rightarrow> bool" where
  "kernel_buf buf \<longleftrightarrow> USERTOP \<le> buf \<and> unat buf + unat IOBUF_SIZE \<le> 2 ^ 32"

definition in_buf :: "u32 \<Rightarrow> u32 \<Rightarrow> bool" where
  "in_buf buf x \<longleftrightarrow> unat (x - buf) < unat IOBUF_SIZE"

lemma user_addr:
  assumes "USER_ACCESS base (base + len)" "i < unat len"
  shows "unat (base + of_nat i) = unat base + i" "unat base + i < 2 ^ 31"
proof -
  have lt: "base < base + len" "base + len \<le> 0x80000000" using assms(1) by (auto simp: USER_ACCESS_def USERTOP_def)
  have nw: "unat (base + len) = unat base + unat len" using lt(1) by (simp add: unat_plus_simple [symmetric] less_imp_le)
  have "unat (base + len) \<le> 2 ^ 31" using lt(2) by (simp add: word_le_nat_alt)
  then show b: "unat base + i < 2 ^ 31" using nw assms(2) by linarith
  have "unat (of_nat i :: u32) = i" using b by (intro unat_of_nat_small) simp
  then show "unat (base + of_nat i) = unat base + i" using b by (subst unat_add_no_wrap) simp_all
qed

lemma user_kernel:
  assumes "USER_ACCESS base (base + len)" "kernel_buf buf" "i < unat len" "j < unat IOBUF_SIZE"
  shows "base + of_nat i \<noteq> buf + of_nat j"
proof
  assume eq: "base + of_nat i = buf + of_nat j"
  have b: "unat buf + j < 2 ^ 32" "2 ^ 31 \<le> unat buf"
    using assms(2,4) by (auto simp: kernel_buf_def USERTOP_def word_le_nat_alt)
  have "unat (of_nat j :: u32) = j" using b by (intro unat_of_nat_small) simp
  then have "unat (buf + of_nat j) = unat buf + j" using b by (subst unat_add_no_wrap) simp_all
  then show False using user_addr [OF assms(1,3)] eq b by simp
qed

lemma copy_to_user_ok:
  assumes "mm_wf mm" "fst (user_mem_check (Some mm) base len True)" "kernel_buf buf" "len \<le> IOBUF_SIZE"
  shows "copy_to_user (Some mm) base buf len m = (True, write_mem base (read_mem m buf (unat len)) m)"
proof -
  have ua: "USER_ACCESS base (base + len)" using assms(1,2) user_mem_check_ok(1) by blast
  have "buf + of_nat i \<noteq> base + of_nat j" if "j < i" "i < unat len" for i j
    using user_kernel [OF ua assms(3), of j i] that assms(4) by (auto simp: word_le_nat_alt)
  then have "copy_up base buf (unat len) m x = write_mem base (read_mem m buf (unat len)) m x" for x
    unfolding write_read_mem using unat_bound32 [of len] by (subst copy_up_eq) auto
  then show ?thesis using assms(2) by (simp add: copy_to_user_def memcpy_def fun_eq_iff)
qed

section \<open>One read on an open regular file\<close>

text \<open>The descriptor \<open>fd\<close> of the current process is open and has the entry \<open>f\<close>.\<close>

definition open_file :: "vfs \<Rightarrow> int \<Rightarrow> file_t \<Rightarrow> bool" where
  "open_file v fd f \<longleftrightarrow> testfd fd \<and>
     (\<exists>fp. filess v (cur_files v) = Some fp \<and> fs_count fp > 0 \<and> nat fd < length (fd_array fp) \<and> fd_array fp ! nat fd = f) \<and>
     f_status f = FD_OPENED \<and> f_fd f = fd \<and> f_open_count f > 0"

text \<open>The inode \<open>n\<close> is a regular file on the mounted file system at \<open>k\<close>, which is consistent and unlocked.\<close>

definition regular_file :: "vfs \<Rightarrow> nat \<Rightarrow> nat \<Rightarrow> mfs \<Rightarrow> sfs_inode \<Rightarrow> bool" where
  "regular_file v n k sfs sin \<longleftrightarrow>
     (\<exists>nd. inodes v n = Some nd \<and> in_ops nd = sfs_node_fileops \<and> inode_check nd \<and> in_fs nd = Some k \<and> in_info nd = sfs_inode_info sin) \<and>
     fss v k = Some sfs \<and> sfs_on disk0_io (DISK0_DEVSIZE div DISK0_BLKSIZE) disk0_ok sfs \<and> sfs_inv sfs \<and>
     inode_ok sfs (disk_of disk0_blk sfs) (din sin) \<and> di_type (din sin) \<noteq> SFS_TYPE_DIR \<and>
     unat (di_size (din sin)) \<le> unat (di_blocks (din sin)) * SFS_BLKSIZE \<and> 0 < sin_sem sin"

lemma regular_size:
  assumes "regular_file v n k sfs sin"
  shows "int (unat (di_size (din sin))) < SFS_MAX_FILE_SIZE"
proof -
  have "unat (di_blocks (din sin)) \<le> 1036" "unat (di_size (din sin)) \<le> unat (di_blocks (din sin)) * 4096"
    using assms by (auto simp: regular_file_def inode_ok_def SFS_BLKSIZE_def)
  then have "unat (di_size (din sin)) < 134217728" by linarith
  then show ?thesis unfolding SFS_MAX_FILE_SIZE_def by linarith
qed

lemma regular_same:
  assumes "regular_file v n k sfs sin" "sfs_on disk0_io (DISK0_DEVSIZE div DISK0_BLKSIZE) disk0_ok sfs'"
    and "sfs_same sfs sfs'" "disk_of disk0_blk sfs' = disk_of disk0_blk sfs" "inodes v' = inodes v" "fss v' k = Some sfs'"
  shows "regular_file v' n k sfs' sin"
  using assms
  by (auto simp: regular_file_def sfs_inv_def sfs_same_def inode_ok_def used_block_def sfs_free_def)

text \<open>The state after \<open>r\<close> bytes were read through descriptor \<open>fd\<close>: the position moved, the file system's buffer may differ.\<close>

definition after_read :: "vfs \<Rightarrow> int \<Rightarrow> nat \<Rightarrow> nat \<Rightarrow> mfs \<Rightarrow> vfs" where
  "after_read v fd r k sfs = upd_file (cur_files v) (nat fd) (\<lambda>f. f\<lparr>f_pos := f_pos f + int r\<rparr>) (put_fs k sfs v)"

lemma vop_read_regular:
  assumes reg: "regular_file v n k sfs sin" and a: "int a < SFS_MAX_FILE_SIZE"
    and io: "io_offset iob = int a" "io_base iob = 0" "io_resid iob = length (io_buf iob)" "length (io_buf iob) \<le> SFS_BLKSIZE"
  shows "\<exists>sfs'. vop_read n iob v = (let bs = get_bytes a (length (io_buf iob)) (file_content (disk_of disk0_blk sfs) (din sin)) in
      Some ((0, \<lparr>io_buf = put_bytes 0 bs (io_buf iob), io_base = length bs, io_offset = int (a + length bs), io_len = io_len iob,
                  io_resid = length (io_buf iob) - length bs\<rparr>), put_fs k sfs' v)) \<and>
    sfs_on disk0_io (DISK0_DEVSIZE div DISK0_BLKSIZE) disk0_ok sfs' \<and> sfs_same sfs sfs' \<and> disk_of disk0_blk sfs' = disk_of disk0_blk sfs"
proof -
  obtain nd where nd: "inodes v n = Some nd" "in_ops nd = sfs_node_fileops" "inode_check nd" "in_fs nd = Some k" "in_info nd = sfs_inode_info sin"
    and fs: "fss v k = Some sfs" "sfs_on disk0_io (DISK0_DEVSIZE div DISK0_BLKSIZE) disk0_ok sfs" "sfs_inv sfs"
      "inode_ok sfs (disk_of disk0_blk sfs) (din sin)" "di_type (din sin) \<noteq> SFS_TYPE_DIR"
      "unat (di_size (din sin)) \<le> unat (di_blocks (din sin)) * SFS_BLKSIZE" "0 < sin_sem sin"
    using reg unfolding regular_file_def by blast
  have small: "int (unat (di_size (din sin))) \<le> SFS_MAX_FILE_SIZE" using regular_size [OF reg] by simp
  have "contiguous (disk_of disk0_blk sfs) (din sin) a (a + io_resid iob)"
    using io by (auto simp: contiguous_def SFS_BLKSIZE_def)
  moreover have "a + io_resid iob < 2 ^ 31" using a io by (simp add: SFS_MAX_FILE_SIZE_def SFS_BLKSIZE_def)
  ultimately obtain sfs' where r: "sfs_read sfs sin iob =
      (let bs = get_bytes a (io_resid iob) (file_content (disk_of disk0_blk sfs) (din sin))
       in Some (0, \<lparr>io_buf = put_bytes (io_base iob) bs (io_buf iob), io_base = io_base iob + length bs,
                    io_offset = int (a + length bs), io_len = io_len iob, io_resid = io_resid iob - length bs\<rparr>, sfs', sin))"
      "sfs_on disk0_io (DISK0_DEVSIZE div DISK0_BLKSIZE) disk0_ok sfs'" "sfs_same sfs sfs'" "disk_of disk0_blk sfs' = disk_of disk0_blk sfs"
    using d0.sfs_read_ok [OF fs(2-6) small _ a _ io(1) _ fs(7)] io by force
  have nd': "nd\<lparr>in_info := sfs_inode_info sin\<rparr> = nd" using nd(5) by (cases nd) simp
  have "put_sin n sin (put_fs k sfs' v) = put_fs k sfs' v"
    using nd(1) nd' by (simp add: put_sin_def upd_inode_def put_fs_def fun_upd_idem)
  moreover have "vop_op Vop_read n v = Some nd" using nd by (simp add: vop_op_def)
  moreover have "sfs_of n v = Some (k, sfs, sin)" using nd fs(1) by (simp add: sfs_of_def)
  ultimately show ?thesis using nd(2) r io by (intro exI [of _ sfs']) (simp add: vop_read_def on_sfs_def Let_def)
qed

lemma open_file_get:
  assumes "open_file v fd f"
  shows "get_file (cur_files v) (nat fd) v = Some f" "fd2file fd v = Some (Inr (nat fd))"
  using assms by (auto simp: open_file_def get_file_def fd2file_def get_fd_array_def)

lemma get_upd_file:
  "get_file p i (upd_file p i g v) = map_option g (get_file p i v)"
  by (auto simp: get_file_def upd_file_def split: bind_split)

lemma upd_upd_file: "upd_file p i g (upd_file p i h v) = upd_file p i (\<lambda>f. g (h f)) v"
proof -
  have "xs[i := g (xs[i := h (xs ! i)] ! i)] = xs[i := g (h (xs ! i))]" for xs
    by (cases "i < length xs") (simp_all add: list_update_beyond not_less)
  then show ?thesis
    by (cases "filess v p") (simp_all add: upd_file_def)
qed

lemma put_fs_upd_file [simp]: "put_fs k sfs (upd_file p i g v) = upd_file p i g (put_fs k sfs v)"
  by (simp add: put_fs_def upd_file_def)

lemma fs_fields [simp]:
  "cur_files (put_fs k sfs v) = cur_files v" "filess (put_fs k sfs v) = filess v" "inodes (put_fs k sfs v) = inodes v"
  "fss (put_fs k sfs v) = (fss v)(k \<mapsto> sfs)" "cur_files (upd_file p i g v) = cur_files v" "inodes (upd_file p i g v) = inodes v"
  "fss (upd_file p i g v) = fss v" "get_file p i (put_fs k sfs v) = get_file p i v" "put_fs k sfs' (put_fs k sfs v) = put_fs k sfs' v"
  by (simp_all add: put_fs_def upd_file_def get_file_def)

lemma upd_file_cong:
  "get_file p i v = Some f \<Longrightarrow> g f = h f \<Longrightarrow> upd_file p i g v = upd_file p i h v"
  by (auto simp: get_file_def upd_file_def split: bind_splits if_splits)

lemma regular_acquired: "regular_file (upd_file p i g v) n k sfs sin = regular_file v n k sfs sin"
  by (simp add: regular_file_def)

lemma file_read_regular:
  assumes op: "open_file v fd f" and rd: "f_readable f" "f_node f = Some n" "f_pos f = int a"
    and reg: "regular_file v n k sfs sin" and a: "int a < SFS_MAX_FILE_SIZE" and len: "length base \<le> SFS_BLKSIZE"
  defines "bs \<equiv> get_bytes a (length base) (file_content (disk_of disk0_blk sfs) (din sin))"
  shows "\<exists>sfs'. file_read fd base (length base) v = Some (0, length bs, put_bytes 0 bs base, after_read v fd (length bs) k sfs') \<and>
    sfs_on disk0_io (DISK0_DEVSIZE div DISK0_BLKSIZE) disk0_ok sfs' \<and> sfs_same sfs sfs' \<and> disk_of disk0_blk sfs' = disk_of disk0_blk sfs"
proof -
  let ?p = "cur_files v" and ?i = "nat fd" and ?iob = "iobuf_init base (length base) (int a)"
  let ?v = "upd_file ?p ?i fopen_count_inc v"
  obtain sfs' where r: "vop_read n ?iob ?v = Some ((0, \<lparr>io_buf = put_bytes 0 bs base, io_base = length bs, io_offset = int (a + length bs),
        io_len = length base, io_resid = length base - length bs\<rparr>), put_fs k sfs' ?v)"
      "sfs_on disk0_io (DISK0_DEVSIZE div DISK0_BLKSIZE) disk0_ok sfs'" "sfs_same sfs sfs'" "disk_of disk0_blk sfs' = disk_of disk0_blk sfs"
    using vop_read_regular [of ?v n k sfs sin a ?iob] reg a len by (auto simp: regular_acquired iobuf_init_def bs_def Let_def)
  have f: "f_status f = FD_OPENED" "f_open_count f > 0" using op by (auto simp: open_file_def)
  have short: "length base - (length base - length bs) = length bs" by (simp add: bs_def get_bytes_def)
  have beg: "file_begin fd f_readable v = Some (Inr ?i, ?v)"
    using open_file_get [OF op] rd f by (simp add: file_begin_def fd_array_acquire_def)
  have g: "get_file ?p ?i v = Some f" using open_file_get [OF op] by simp
  let ?w = "upd_file ?p ?i (\<lambda>f. f\<lparr>f_pos := f_pos f + int (length bs)\<rparr>) (put_fs k sfs' ?v)"
  have rel: "fd_array_release ?p ?i ?w = Some (upd_file ?p ?i fopen_count_dec ?w)"
    using g f by (simp add: fd_array_release_def get_upd_file fopen_count_inc_def Let_def)
  have "upd_file ?p ?i fopen_count_dec ?w = after_read v fd (length bs) k sfs'"
    unfolding after_read_def put_fs_upd_file upd_upd_file
    by (rule upd_file_cong [of _ _ _ f]) (simp_all add: g fopen_count_dec_def fopen_count_inc_def)
  then have "file_read fd base (length base) v = Some (0, length bs, put_bytes 0 bs base, after_read v fd (length bs) k sfs')"
    using beg r(1) g rd f rel short
    by (simp add: file_read_def file_rw_def get_upd_file fopen_count_inc_def iobuf_used_def Let_def)
  then show ?thesis using r(2-4) by blast
qed

section \<open>The loop\<close>

lemma after_read_0: "open_file v fd f \<Longrightarrow> fss v k = Some sfs \<Longrightarrow> after_read v fd 0 k sfs = v"
  by (auto simp: after_read_def open_file_def upd_file_def put_fs_def fun_upd_idem)

lemma after_after_read: "after_read (after_read v fd r k s1) fd r' k s2 = after_read v fd (r + r') k s2"
  by (simp add: after_read_def upd_upd_file add.assoc)

lemma open_after_read:
  "open_file v fd f \<Longrightarrow> open_file (after_read v fd r k sfs) fd (f\<lparr>f_pos := f_pos f + int r\<rparr>)"
  by (auto simp: open_file_def after_read_def upd_file_def)

lemma regular_after_read:
  assumes "regular_file v n k sfs sin" "sfs_on disk0_io (DISK0_DEVSIZE div DISK0_BLKSIZE) disk0_ok sfs'"
    and "sfs_same sfs sfs'" "disk_of disk0_blk sfs' = disk_of disk0_blk sfs"
  shows "regular_file (after_read v fd r k sfs') n k sfs' sin"
  by (rule regular_same [OF assms]) (simp_all add: after_read_def)

lemma chunk_bound: "len \<noteq> 0 \<Longrightarrow> 0 < unat (chunk len)" "unat (chunk len) \<le> unat len" "unat (chunk len) \<le> SFS_BLKSIZE" "chunk len \<le> IOBUF_SIZE"
  by (auto simp: chunk_def IOBUF_SIZE_def SFS_BLKSIZE_def word_less_nat_alt word_le_nat_alt unat_gt_0)

lemma outside_buf:
  assumes "\<not> in_buf buf x" "length bs \<le> unat IOBUF_SIZE"
  shows "write_mem buf bs m x = m x"
  using assms by (simp add: in_buf_def write_mem_def)

lemma write_mem_cong: "m x = m' x \<Longrightarrow> write_mem a bs m x = write_mem a bs m' x"
  by (simp add: write_mem_def)

text \<open>What the loop leaves behind when it starts in state \<open>s\<close> and delivers the bytes \<open>bs\<close>.\<close>

definition delivered :: "u32 \<Rightarrow> int \<Rightarrow> u32 \<Rightarrow> u8 list \<Rightarrow> nat \<Rightarrow> mfs \<Rightarrow> sys \<Rightarrow> sys \<Rightarrow> bool" where
  "delivered buf fd base bs k sfs s s' \<longleftrightarrow> sy_mm s' = sy_mm s \<and>
     (\<exists>sfs'. sy_vfs s' = after_read (sy_vfs s) fd (length bs) k sfs' \<and> sfs_same sfs sfs' \<and> disk_of disk0_blk sfs' = disk_of disk0_blk sfs) \<and>
     (\<forall>x. \<not> in_buf buf x \<longrightarrow> sy_mem s' x = write_mem base bs (sy_mem s) x)"

lemma delivered_step:
  assumes d: "delivered buf fd (base + of_nat (length c)) bs k s1 (s\<lparr>sy_vfs := after_read (sy_vfs s) fd (length c) k s1,
      sy_mem := write_mem base c (write_mem buf kb (sy_mem s))\<rparr>) s'"
    and s1: "sfs_same sfs s1" "disk_of disk0_blk s1 = disk_of disk0_blk sfs" and kb: "length kb \<le> unat IOBUF_SIZE" and n: "length (c @ bs) \<le> 2 ^ 32"
  shows "delivered buf fd base (c @ bs) k sfs s s'"
proof -
  have "sy_mem s' x = write_mem base (c @ bs) (sy_mem s) x" if "\<not> in_buf buf x" for x
  proof -
    have "sy_mem s' x = write_mem base (c @ bs) (write_mem buf kb (sy_mem s)) x"
      using d that unfolding delivered_def write_mem_split [OF n] by simp
    also have "\<dots> = write_mem base (c @ bs) (sy_mem s) x" by (rule write_mem_cong) (rule outside_buf [OF that kb])
    finally show ?thesis .
  qed
  then show ?thesis
    using d s1 unfolding delivered_def by (auto simp: after_after_read intro: sfs_same_trans)
qed

lemma get_bytes_prefix:
  assumes "c = get_bytes a n xs" "n \<le> N"
  shows "get_bytes a N xs = c @ get_bytes (a + length c) (N - length c) xs"
proof -
  have le: "length c \<le> N" "get_bytes a (length c) xs = c" using assms by (auto simp: get_bytes_def min_def)
  then show ?thesis using get_bytes_append [of a "length c" xs "N - length c"] by simp
qed

lemma read_loop_delivers:
  assumes "sy_mm s = Some mm" "mm_wf mm" "kernel_buf buf" "len = 0 \<or> fst (user_mem_check (Some mm) base len True)"
    and "open_file (sy_vfs s) fd f" "f_readable f" "f_node f = Some n" "f_pos f = int a"
    and "regular_file (sy_vfs s) n k sfs sin" "int a < SFS_MAX_FILE_SIZE" "D = disk_of disk0_blk sfs"
    and "bs = get_bytes a (unat len) (file_content D (din sin))"
  shows "\<exists>s'. sysfile_read_loop buf fd base len copied 0 s = Some (0, copied + of_nat (length bs), s') \<and> delivered buf fd base bs k sfs s s'"
  using assms
proof (induction "unat len" arbitrary: len base copied s f a sfs bs rule: less_induct)
  case less
  note pre = less.prems
  let ?F = "file_content D (din sin)"
  show ?case
  proof (cases "len = 0")
    case True
    have "fss (sy_vfs s) k = Some sfs" using pre(9) by (simp add: regular_file_def)
    then have "delivered buf fd base [] k sfs s s"
      using after_read_0 [OF pre(5)] unfolding delivered_def by (auto intro!: exI [of _ sfs])
    moreover have "bs = []" using True pre(12) by (simp add: get_bytes_def)
    ultimately show ?thesis using True by (simp add: sysfile_read_loop.simps)
  next
    case False
    note ch = chunk_bound(1) [OF False] chunk_bound(2-4) [of len]
    let ?kb = "read_mem (sy_mem s) buf (unat (chunk len))"
    define c where "c = get_bytes a (unat (chunk len)) ?F"
    have cl: "length c \<le> unat (chunk len)" by (simp add: c_def get_bytes_def)
    obtain s1 where r: "file_read fd ?kb (unat (chunk len)) (sy_vfs s) = Some (0, length c, put_bytes 0 c ?kb, after_read (sy_vfs s) fd (length c) k s1)"
        "sfs_on disk0_io (DISK0_DEVSIZE div DISK0_BLKSIZE) disk0_ok s1" "sfs_same sfs s1" "disk_of disk0_blk s1 = disk_of disk0_blk sfs"
      using file_read_regular [OF pre(5-10), of ?kb] ch(3) by (auto simp: c_def pre(11))
    have kb: "length (put_bytes 0 c ?kb) = unat (chunk len)" using cl by (simp add: put_bytes_def)
    have kb': "length (put_bytes 0 c ?kb) \<le> unat IOBUF_SIZE" using ch(4) kb by (simp add: word_le_nat_alt)
    let ?m = "write_mem buf (put_bytes 0 c ?kb) (sy_mem s)"
    have u: "unat (of_nat (length c) :: u32) = length c"
      using cl ch(2) unat_bound32 [of len] by (intro unat_of_nat_small) linarith
    have z: "(of_nat (length c) :: u32) = 0 \<longleftrightarrow> c = []" using u by (metis length_0_conv unat_eq_zero)
    have bs: "bs = c @ get_bytes (a + length c) (unat len - length c) ?F"
      unfolding pre(12) by (rule get_bytes_prefix [OF c_def ch(2)])
    show ?thesis
    proof (cases "c = []")
      case True
      have "drop a ?F = []" using True ch(1) by (simp add: c_def get_bytes_def)
      then have "bs = []" using bs True by (simp add: get_bytes_def)
      moreover have "sysfile_read_loop buf fd base len copied 0 s =
          Some (0, copied, s\<lparr>sy_vfs := after_read (sy_vfs s) fd 0 k s1, sy_mem := ?m\<rparr>)"
        using r(1) True by (subst sysfile_read_loop.simps) (simp add: False Let_def)
      moreover have "delivered buf fd base [] k sfs s (s\<lparr>sy_vfs := after_read (sy_vfs s) fd 0 k s1, sy_mem := ?m\<rparr>)"
        using r(3,4) outside_buf [OF _ kb'] unfolding delivered_def by auto
      ultimately show ?thesis by simp
    next
      case ne: False
      let ?w = "of_nat (length c) :: u32"
      let ?s = "s\<lparr>sy_vfs := after_read (sy_vfs s) fd (length c) k s1, sy_mem := write_mem base c ?m\<rparr>"
      have w: "0 < ?w" "?w \<le> len" "?w \<le> IOBUF_SIZE"
        using z ne u cl ch(2,4) by (simp_all add: word_gt_0 word_le_nat_alt)
      have chk: "fst (user_mem_check (Some mm) base len True)" using pre(4) False by simp
      have "take (length c) (put_bytes 0 c ?kb) = c" by (simp add: put_bytes_def)
      then have "read_mem ?m buf (unat ?w) = c"
        using kb cl unat_bound32 [of "chunk len"] by (subst read_write_mem) (simp_all add: u)
      then have cp: "copy_to_user (Some mm) base buf ?w ?m = (True, write_mem base c ?m)"
        using copy_to_user_ok [OF pre(2) user_mem_check_part(1) [OF pre(2) chk w(1,2)] pre(3) w(3), of ?m] by simp
      have loop: "sysfile_read_loop buf fd base len copied 0 s = sysfile_read_loop buf fd (base + ?w) (len - ?w) (copied + ?w) 0 ?s"
        using r(1) cp w(2) z ne by (subst sysfile_read_loop.simps) (simp add: False Let_def pre(1))
      have lw: "unat (len - ?w) = unat len - length c" using w(2) u by (simp add: unat_sub word_le_nat_alt)
      have rest: "len - ?w = 0 \<or> fst (user_mem_check (Some mm) (base + ?w) (len - ?w) True)"
        using user_mem_check_part(2) [OF pre(2) chk, of ?w] w(2) by (cases "?w = len") auto
      have "a + length c \<le> length ?F" using ne by (cases "a < length ?F") (auto simp: c_def get_bytes_def)
      also have "\<dots> \<le> unat (di_size (din sin))" by (simp add: file_content_def)
      finally have a': "int (a + length c) < SFS_MAX_FILE_SIZE" using regular_size [OF pre(9)] by linarith
      have lt: "unat (len - ?w) < unat len" using remaining_less [of ?w len] w by auto
      obtain s' where s': "sysfile_read_loop buf fd (base + ?w) (len - ?w) (copied + ?w) 0 ?s =
            Some (0, copied + ?w + of_nat (length (get_bytes (a + length c) (unat len - length c) ?F)), s')"
          "delivered buf fd (base + ?w) (get_bytes (a + length c) (unat len - length c) ?F) k s1 ?s s'"
        using less.hyps [OF lt, of ?s "base + ?w" "f\<lparr>f_pos := f_pos f + int (length c)\<rparr>" "a + length c" s1 _ "copied + ?w"]
          pre rest a' r lw open_after_read [OF pre(5), of "length c" k s1] regular_after_read [OF pre(9) r(2-4), of fd "length c"]
        by auto
      have "length bs \<le> 2 ^ 32" using unat_bound32 [of len] by (simp add: pre(12) get_bytes_def)
      then have "delivered buf fd base bs k sfs s s'"
        using delivered_step [OF s'(2) r(3,4) kb'] bs by simp
      then show ?thesis using loop s'(1) bs by (simp add: add.assoc)
    qed
  qed
qed

section \<open>The system call\<close>

lemma kmalloc_keeps:
  assumes "sys_kmalloc s = (True, s0)"
  shows "sy_mm s0 = sy_mm s" "sy_mem s0 = sy_mem s" "open_file (sy_vfs s0) = open_file (sy_vfs s)"
    "regular_file (sy_vfs s0) = regular_file (sy_vfs s)"
proof -
  obtain a where "s0 = s\<lparr>sy_vfs := (sy_vfs s)\<lparr>allocs := a\<rparr>\<rparr>"
    using assms by (cases "allocs (sy_vfs s)") (auto simp: sys_kmalloc_def kmalloc_ok_def Let_def intro: that [of "[]"])
  then show "sy_mm s0 = sy_mm s" "sy_mem s0 = sy_mem s" "open_file (sy_vfs s0) = open_file (sy_vfs s)"
    "regular_file (sy_vfs s0) = regular_file (sy_vfs s)"
    by (auto simp: open_file_def regular_file_def fun_eq_iff)
qed

lemma readable_testfd: "open_file v fd f \<Longrightarrow> f_readable f \<Longrightarrow> file_testfd fd True False v = Some True"
  using open_file_get [of v fd f] by (simp add: file_testfd_def)

lemma user_not_in_buf:
  assumes "USER_ACCESS base (base + len)" "kernel_buf buf" "i < unat len"
  shows "\<not> in_buf buf (base + of_nat i)"
proof
  assume "in_buf buf (base + of_nat i)"
  then have "unat (base + of_nat i - buf) < unat IOBUF_SIZE" by (simp add: in_buf_def)
  from user_kernel [OF assms this] show False by simp
qed

lemma delivered_bytes:
  assumes d: "delivered buf fd base bs k sfs s s'" and ua: "USER_ACCESS base (base + len)" and kb: "kernel_buf buf"
    and n: "length bs \<le> unat len"
  shows "read_mem (sy_mem s') base (length bs) = bs"
proof (intro nth_equalityI)
  fix i
  assume "i < length (read_mem (sy_mem s') base (length bs))"
  then have i: "i < length bs" by simp
  then have u: "unat (of_nat i :: u32) = i" using n unat_bound32 [of len] by (intro unat_of_nat_small) linarith
  have "\<not> in_buf buf (base + of_nat i)" using i n by (intro user_not_in_buf [OF ua kb]) simp
  then have "sy_mem s' (base + of_nat i) = bs ! i" using d i u by (simp add: delivered_def write_mem_def)
  then show "read_mem (sy_mem s') base (length bs) ! i = bs ! i" using i by (simp add: read_mem_def)
qed simp

lemma result_exact:
  assumes "USER_ACCESS base (base + len)" "r \<le> unat len"
  shows "sint (of_nat r :: u32) = int r" "(of_nat r :: u32) = 0 \<longleftrightarrow> r = 0"
proof -
  have "0 < unat base" using assms(1) by (auto simp: USER_ACCESS_def USERBASE_def word_le_nat_alt)
  then have r: "r < 2 ^ 31" using user_addr(2) [OF assms(1), of "r - 1"] assms(2) by (cases r) auto
  then show "sint (of_nat r :: u32) = int r" using d0.endpos_exact [of 0 r] by simp
  have "unat (of_nat r :: u32) = r" using r by (intro unat_of_nat_small) simp
  then show "(of_nat r :: u32) = 0 \<longleftrightarrow> r = 0" by (metis unat_eq_zero)
qed

text \<open>
  C8: the \<open>read\<close> system call on a regular file. Let descriptor \<open>fd\<close> be open for reading at position \<open>a\<close> on a
  regular file of a consistent simple file system, and let the process own a writable range of \<open>len\<close> bytes at
  \<open>base\<close>. Then \<open>sysfile_read\<close> returns (its loop ends), the result is the number of bytes from \<open>a\<close> to the end of the file, at
  most \<open>len\<close>, and these bytes of the file stand at \<open>base\<close>. No other byte of memory changes outside the kernel's own buffer;
  the position of the descriptor moves by the result; the inodes, the other descriptors and the contents and free
  map of the disk are as before.
\<close>

theorem sysfile_read_correct:
  assumes "sy_mm s = Some mm" "mm_wf mm" "fst (user_mem_check (Some mm) base len True)"
    and "sys_kmalloc s = (True, s0)" "kernel_buf buf"
    and "open_file (sy_vfs s) fd f" "f_readable f" "f_node f = Some n" "f_pos f = int a" "int a < SFS_MAX_FILE_SIZE"
    and "regular_file (sy_vfs s) n k sfs sin"
  defines "bs \<equiv> get_bytes a (unat len) (file_content (disk_of disk0_blk sfs) (din sin))"
  shows "\<exists>s' sfs'. sysfile_read buf fd base len s = Some (int (length bs), s') \<and>
    read_mem (sy_mem s') base (length bs) = bs \<and>
    (\<forall>x. unat (x - base) \<ge> length bs \<and> \<not> in_buf buf x \<longrightarrow> sy_mem s' x = sy_mem s x) \<and>
    sy_mm s' = sy_mm s \<and> sy_vfs s' = after_read (sy_vfs s0) fd (length bs) k sfs' \<and>
    sfs_same sfs sfs' \<and> disk_of disk0_blk sfs' = disk_of disk0_blk sfs"
proof -
  note km = kmalloc_keeps [OF assms(4)]
  have ua: "USER_ACCESS base (base + len)" using assms(2,3) user_mem_check_ok(1) by blast
  then have ne: "len \<noteq> 0" by (auto simp: USER_ACCESS_def)
  obtain s' where l: "sysfile_read_loop buf fd base len 0 0 s0 = Some (0, of_nat (length bs), s')" "delivered buf fd base bs k sfs s0 s'"
    using read_loop_delivers [of s0 mm buf len base fd f n a k sfs sin _ bs 0] assms km by (auto simp: bs_def)
  have n: "length bs \<le> unat len" by (simp add: bs_def get_bytes_def)
  have v: "sint (of_nat (length bs) :: u32) = int (length bs)" "(of_nat (length bs) :: u32) = 0 \<longleftrightarrow> length bs = 0"
    using result_exact [OF ua n] .
  have "sysfile_read buf fd base len s = Some (int (length bs), s')"
    using ne readable_testfd [OF assms(6,7)] assms(4) l(1) v by (simp add: sysfile_read_def)
  moreover have "sy_mem s' x = sy_mem s x" if "unat (x - base) \<ge> length bs \<and> \<not> in_buf buf x" for x
    using l(2) that km(2) by (simp add: delivered_def write_mem_def)
  ultimately show ?thesis
    using l(2) km(1) delivered_bytes [OF l(2) ua assms(5) n] unfolding delivered_def by auto
qed

text \<open>A process with two pages at \<open>0x400000\<close> that has the file of 5000 bytes open at position 4900.\<close>

definition read_fs :: mfs where
  "read_fs = \<lparr>super = super demo_sfs, sfs_dev = sfs_dev demo_sfs, freemap = freemap demo_sfs, super_dirty = False,
     sfs_buffer = sfs_buffer demo_sfs, fs_sem = 1, io_sem = io_sem demo_sfs, inode_list = [1], sfs_buckets = (\<lambda>_. [])\<rparr>"

definition read_file :: file_t where
  "read_file = \<lparr>f_status = FD_OPENED, f_readable = True, f_writable = False, f_fd = 0, f_pos = 4900, f_node = Some 1, f_open_count = 1\<rparr>"

definition read_sys :: sys where
  "read_sys = \<lparr>sy_vfs = \<lparr>inodes = [1 \<mapsto> \<lparr>in_info = sfs_inode_info read_inode, ref_count = 1, open_count = 1, in_fs = Some 0, in_ops = sfs_node_fileops\<rparr>],
     next_inode = 2, fss = [0 \<mapsto> read_fs], allocs = [], vdev_list = [], vdev_list_sem = 1, bootfs_sem = 1, bootfs_node = None, next_fs = 1,
     filess = [0 \<mapsto> \<lparr>pwd = None, fd_array = [read_file], fs_count = 1, files_sem = 1\<rparr>], cur_files = 0\<rparr>,
     sy_mem = (\<lambda>_. 0), sy_mm = Some demo_mm\<rparr>"

lemma read_fs_same:
  "sfs_on disk0_io (DISK0_DEVSIZE div DISK0_BLKSIZE) disk0_ok read_fs" "sfs_inv read_fs" "inode_ok read_fs disk (din read_inode)"
  using demo_sfs_ok read_inode_ok [of disk]
  by (simp_all add: read_fs_def sfs_on_def sfs_inv_def inode_ok_def used_block_def sfs_free_def)

lemma read_sys_ok:
  "open_file (sy_vfs read_sys) 0 read_file" "regular_file (sy_vfs read_sys) 1 0 read_fs read_inode"
  using read_fs_same
  by (simp_all add: open_file_def regular_file_def read_sys_def read_file_def testfd_def FILES_STRUCT_NENTRY_def inode_check_def
      MAX_INODE_COUNT_def) (simp_all add: read_inode_def SFS_TYPE_FILE_def SFS_TYPE_DIR_def SFS_BLKSIZE_def)

lemma demo_writable: "fst (user_mem_check (Some demo_mm) 0x400000 200 True)"
  unfolding user_mem_check_ok(1) [OF demo_mm_wf]
  by (auto simp: USER_ACCESS_def USERBASE_def USERTOP_def accessible_def demo_mm_def demo_vma_def in_vma_def VM_WRITE_def VM_READ_def
      VM_STACK_def word_le_nat_alt word_less_nat_alt)

theorem sysfile_read_correct_witness:
  "\<exists>s'. sysfile_read 0x80100000 0 0x400000 200 read_sys = Some (100, s') \<and>
     read_mem (sy_mem s') 0x400000 100 = drop 4900 (file_content (disk_of disk0_blk read_fs) (din read_inode))"
proof -
  let ?F = "file_content (disk_of disk0_blk read_fs) (din read_inode)"
  have "length (file_blocks (disk_of disk0_blk read_fs) (din read_inode)) = 8192"
    by (subst length_file_blocks) (use d0.blk_length in \<open>auto simp: read_inode_def SFS_BLKSIZE_def\<close>)
  then have F: "length ?F = 5000" by (simp add: file_content_def read_inode_def)
  then have bs: "get_bytes 4900 200 ?F = drop 4900 ?F" by (simp add: get_bytes_def)
  have k: "kernel_buf 0x80100000" by (simp add: kernel_buf_def USERTOP_def IOBUF_SIZE_def)
  have m: "sys_kmalloc read_sys = (True, read_sys)" by (simp add: sys_kmalloc_def kmalloc_ok_def read_sys_def)
  show ?thesis
    using sysfile_read_correct [OF _ demo_mm_wf demo_writable m k read_sys_ok(1) _ _ _ _ read_sys_ok(2), of 4900] bs F
    by (auto simp: read_sys_def read_file_def SFS_MAX_FILE_SIZE_def)
qed

section \<open>A bad pointer\<close>

text \<open>When the process may not write at \<open>base\<close>, the call fails, but only after the first part of the file was read: the
  position of the descriptor has moved over bytes that no one got.\<close>

lemma sysfile_read_fault:
  assumes "sy_mm s = Some mm" "\<And>c. \<not> fst (user_mem_check (Some mm) base c True)" "len \<noteq> 0"
    and "sys_kmalloc s = (True, s0)"
    and "open_file (sy_vfs s) fd f" "f_readable f" "f_node f = Some n" "f_pos f = int a" "int a < SFS_MAX_FILE_SIZE"
    and "regular_file (sy_vfs s) n k sfs sin"
  defines "c \<equiv> get_bytes a (unat (chunk len)) (file_content (disk_of disk0_blk sfs) (din sin))"
  assumes "c \<noteq> []"
  shows "\<exists>s' sfs'. sysfile_read buf fd base len s = Some (- E_INVAL, s') \<and> sy_vfs s' = after_read (sy_vfs s0) fd (length c) k sfs'"
proof -
  note km = kmalloc_keeps [OF assms(4)]
  let ?kb = "read_mem (sy_mem s0) buf (unat (chunk len))"
  obtain s1 where r: "file_read fd ?kb (unat (chunk len)) (sy_vfs s0) = Some (0, length c, put_bytes 0 c ?kb, after_read (sy_vfs s0) fd (length c) k s1)"
    using file_read_regular [of "sy_vfs s0" fd f n a k sfs sin ?kb] chunk_bound(3) [of len] assms km by (auto simp: c_def)
  have "length c \<le> 4096" using chunk_bound(3) [of len] by (simp add: c_def get_bytes_def SFS_BLKSIZE_def)
  then have "unat (of_nat (length c) :: u32) = length c" by (intro unat_of_nat_small) simp
  then have z: "(of_nat (length c) :: u32) \<noteq> 0" using assms(12) by (metis length_0_conv unat_eq_zero)
  let ?s = "s0\<lparr>sy_vfs := after_read (sy_vfs s0) fd (length c) k s1, sy_mem := write_mem buf (put_bytes 0 c ?kb) (sy_mem s0)\<rparr>"
  have "sysfile_read_loop buf fd base len 0 0 s0 = Some (- E_INVAL, 0, ?s)"
    using r z assms(1-3) km(1) by (subst sysfile_read_loop.simps) (simp add: copy_to_user_def Let_def)
  then show ?thesis
    using assms(3,4) readable_testfd [OF assms(5,6)] by (auto simp: sysfile_read_def)
qed

end
